(* ===== verification/Prelude.thy ===== *)
theory Prelude
  imports Main "HOL-Library.Word" "HOL-Library.Signed_Division" "HOL-Library.Monad_Syntax"
begin

text \<open>
  What the component theories share: the names of the machine integer types, checked signed
  arithmetic (a C++ signed overflow is undefined behaviour, modelled as \<open>None\<close>), writes of a
  byte run into an array, and the cutting of a byte string into blocks.
\<close>

unbundle bit_operations_syntax

section \<open>Machine integers\<close>

type_synonym u8 = "8 word"
type_synonym u16 = "16 word"
type_synonym u32 = "32 word"
type_synonym u64 = "64 word"

text \<open>Facts about truncating C division, range facts, and array writes, as collections.\<close>

named_theorems c_div "truncating division and remainder of C"
named_theorems in_range "facts that an intermediate result fits its type"
named_theorems array_simps "reads and writes of fixed-size arrays"

subsection \<open>Checked signed 64-bit arithmetic\<close>

definition i64_min :: int where "i64_min = - (2 ^ 63)"
definition i64_max :: int where "i64_max = 2 ^ 63 - 1"

definition i64_ok :: "int \<Rightarrow> bool" where
  "i64_ok x \<longleftrightarrow> i64_min \<le> x \<and> x \<le> i64_max"

text \<open>\<open>ck x\<close> is the result of a signed 64-bit operation with exact result \<open>x\<close>.\<close>

definition ck :: "int \<Rightarrow> int option" where
  "ck x = (if i64_ok x then Some x else None)"

lemma i64_ok_iff [in_range]:
  "i64_ok x \<longleftrightarrow> - 9223372036854775808 \<le> x \<and> x \<le> 9223372036854775807"
  by (simp add: i64_ok_def i64_min_def i64_max_def)

lemma ck_Some [simp]: "i64_ok x \<Longrightarrow> ck x = Some x"
  by (simp add: ck_def)

lemma ck_None [simp]: "\<not> i64_ok x \<Longrightarrow> ck x = None"
  by (simp add: ck_def)

lemma ck_eq_Some_iff: "ck x = Some y \<longleftrightarrow> y = x \<and> i64_ok x"
  by (auto simp: ck_def)

subsection \<open>Truncating division\<close>

lemma c_div_mod: "(a::int) sdiv b * b + a smod b = a"
  by (rule sdiv_mult_smod_eq)

lemma smod_eq [c_div]: "(a::int) smod b = a - a sdiv b * b"
  using c_div_mod [of a b] by linarith

lemma sdiv_nonneg [c_div]: "0 \<le> (a::int) \<Longrightarrow> 0 < b \<Longrightarrow> a sdiv b = a div b"
  by (auto simp: signed_divide_int_def sgn_if)

lemma sdiv_neg [c_div]: "(a::int) < 0 \<Longrightarrow> 0 < b \<Longrightarrow> a sdiv b = - ((- a) div b)"
  by (auto simp: signed_divide_int_def sgn_if)

lemma smod_nonneg [c_div]: "0 \<le> (a::int) \<Longrightarrow> 0 < b \<Longrightarrow> a smod b = a mod b"
  by (auto simp: smod_int_alt_def sgn_if)

lemma smod_neg [c_div]: "(a::int) < 0 \<Longrightarrow> 0 < b \<Longrightarrow> a smod b = - ((- a) mod b)"
  by (auto simp: smod_int_alt_def sgn_if)

lemma sdiv_bound:
  assumes "0 < (b::int)" shows "\<bar>a sdiv b\<bar> \<le> \<bar>a\<bar>"
  using sdiv_int_range [of a b] by auto

lemma smod_bound:
  assumes "0 < (b::int)" shows "\<bar>a smod b\<bar> < b"
  using assms by (cases "0 \<le> a") (auto simp: smod_nonneg smod_neg)

section \<open>Arrays and blocks\<close>

text \<open>
  \<open>overwrite buf i xs\<close> is the array \<open>buf\<close> after a copy of \<open>xs\<close> to the cells from \<open>i\<close> on, for an array with
  room for them (\<open>i + length xs \<le> length buf\<close>). Without that room the write is undefined in the code,
  and the list here grows: what a theorem says then is not about the code.
\<close>

definition overwrite :: "'a list \<Rightarrow> nat \<Rightarrow> 'a list \<Rightarrow> 'a list" where
  "overwrite buf i xs = take i buf @ xs @ drop (i + length xs) buf"

lemma length_overwrite [array_simps]:
  "i + length xs \<le> length buf \<Longrightarrow> length (overwrite buf i xs) = length buf"
  by (simp add: overwrite_def)

lemma take_overwrite [array_simps]:
  "i \<le> length buf \<Longrightarrow> take (i + length xs) (overwrite buf i xs) = take i buf @ xs"
  by (simp add: overwrite_def)

lemma take_overwrite_low [array_simps]:
  "i \<le> length buf \<Longrightarrow> take i (overwrite buf i xs) = take i buf"
  by (simp add: overwrite_def)

lemma overwrite_tail:
  "i + length xs = length buf \<Longrightarrow> overwrite buf i xs = take i buf @ xs"
  by (simp add: overwrite_def)

lemma take_Suc_list_update [array_simps]:
  "i < length xs \<Longrightarrow> take (Suc i) (xs[i := v]) = take i xs @ [v]"
  by (simp add: take_Suc_conv_app_nth)

text \<open>\<open>blocks n xs\<close> are the full blocks of \<open>n\<close> elements that \<open>xs\<close> starts with.\<close>

fun blocks :: "nat \<Rightarrow> 'a list \<Rightarrow> 'a list list" where
  "blocks n xs = (if n = 0 \<or> length xs < n then [] else take n xs # blocks n (drop n xs))"

declare blocks.simps [simp del]

lemma blocks_short [simp]: "length xs < n \<Longrightarrow> blocks n xs = []"
  by (subst blocks.simps) simp

lemma blocks_step: "0 < n \<Longrightarrow> length x = n \<Longrightarrow> blocks n (x @ ys) = x # blocks n ys"
  by (subst blocks.simps) simp

lemma blocks_append:
  "0 < n \<Longrightarrow> n dvd length xs \<Longrightarrow> blocks n (xs @ ys) = blocks n xs @ blocks n ys"
proof (induction n xs rule: blocks.induct)
  case (1 n xs)
  show ?case
  proof (cases "length xs < n")
    case True
    with 1 show ?thesis by (cases xs) (auto dest: dvd_imp_le)
  next
    case False
    with 1 have "n dvd length (drop n xs)" by (simp add: dvd_diff_nat)
    with 1 False have IH: "blocks n (drop n xs @ ys) = blocks n (drop n xs) @ blocks n ys"
      by simp
    have "blocks n (xs @ ys) = blocks n (take n xs @ drop n xs @ ys)"
      by (simp flip: append_assoc)
    also have "\<dots> = take n xs # blocks n (drop n xs @ ys)"
      using False 1 by (intro blocks_step) auto
    also have "\<dots> = blocks n xs @ blocks n ys"
      using False 1 IH by (subst blocks.simps [of n xs]) simp
    finally show ?thesis .
  qed
qed

lemma blocks_single [simp]: "0 < n \<Longrightarrow> length x = n \<Longrightarrow> blocks n x = [x]"
  using blocks_step [of n x "[]"] by simp

lemma blocks_length: "b \<in> set (blocks n xs) \<Longrightarrow> length b = n"
proof (induction n xs rule: blocks.induct)
  case (1 n xs)
  then show ?case
    by (cases "n = 0 \<or> length xs < n") (auto simp: blocks.simps [of n xs])
qed

text \<open>Loops over an index range.\<close>

lemma foldl_upt_split:
  "a \<le> b \<Longrightarrow> b \<le> c \<Longrightarrow> foldl f s [a..<c] = foldl f (foldl f s [a..<b]) [b..<c]"
  by (metis foldl_append le_add_diff_inverse upt_add_eq_append)

lemma list_all_upt: "list_all P [0..<n] \<Longrightarrow> i < n \<Longrightarrow> P i"
  by (simp add: list_all_iff)

text \<open>Words read from and written to bytes.\<close>

lemma unat_of_nat_u32: "n < 4294967296 \<Longrightarrow> unat (of_nat n :: u32) = n"
  by (simp add: unat_of_nat)

lemma unat_u32: "unat (w :: u32) < 4294967296"
  using unsigned_less [of w] by simp

lemma unat_u8: "unat (w :: u8) < 256"
  using unsigned_less [of w] by simp

lemma bit_at_byte: "m < 8 * n \<Longrightarrow> m div 8 < n" for m n :: nat
  by (simp add: less_mult_imp_div_less mult.commute)

lemma bit_word_rcat:
  "bit (word_rcat (ws :: 'a::len word list) :: 'b::len word) n \<longleftrightarrow>
     n < LENGTH('b) \<and> n div LENGTH('a) < length ws \<and> bit (rev ws ! (n div LENGTH('a))) (n mod LENGTH('a))"
  by (simp add: word_rcat_def bit_simps bit_horner_sum_uint_exp_iff)

lemma split_bit_index:
  assumes "n < 8 * (k::nat)"
  obtains q r where "n = 8 * q + r" "q < k" "r < 8"
proof
  show "n = 8 * (n div 8) + n mod 8" by simp
  show "n div 8 < k" using assms by (rule bit_at_byte)
  show "n mod 8 < 8" by simp
qed

lemma less_4_cases: "(n::nat) < 4 \<Longrightarrow> n = 0 \<or> n = 1 \<or> n = 2 \<or> n = 3"
  by arith

lemma bit_u8_high [simp]: "8 \<le> n \<Longrightarrow> \<not> bit (b :: u8) n"
  using bit_imp_le_length [of b n] by auto

text \<open>A shifted value joined with a smaller one is the positional sum.\<close>

lemma bit_below:
  assumes "unat (y :: 'a::len word) < 2 ^ k" "bit y n" shows "n < k"
proof -
  have "take_bit k (unat y) = unat y" using assms(1) by (simp add: take_bit_eq_mod)
  moreover have "bit (unat y) n" using assms(2) by (simp add: bit_unsigned_iff)
  ultimately have "bit (take_bit k (unat y)) n" by simp
  then show ?thesis by (simp add: bit_simps)
qed

lemma unat_push_or:
  assumes "unat (y :: 'a::len word) < 2 ^ k" "unat x * 2 ^ k + unat y < 2 ^ LENGTH('a)"
  shows "unat (push_bit k x OR y) = unat x * 2 ^ k + unat y"
proof -
  have "push_bit k x AND y = 0"
    by (intro bit_word_eqI) (auto simp: bit_simps dest: bit_below [OF assms(1)])
  then have "push_bit k x OR y = of_nat (unat x * 2 ^ k + unat y)"
    by (simp add: disjunctive_add_eq_or [symmetric] push_bit_eq_mult)
  then show ?thesis using assms(2) by (simp only: unat_of_nat mod_less)
qed

lemma unat_and_mask_eq: "unat (x AND mask n) = unat x mod 2 ^ n"
  unfolding take_bit_eq_mask [symmetric] unsigned_take_bit_eq by (rule take_bit_eq_mod)

lemma unat_drop_bit: "unat (drop_bit n x) = unat x div 2 ^ n"
  by (simp only: unsigned_drop_bit_eq take_bit_nat_eq_self [OF unsigned_less])
    (rule drop_bit_eq_div)

text \<open>A field of a word, selected by a shifted mask.\<close>

lemma unat_field: "unat (drop_bit k (x AND push_bit k (mask n)) :: 'a::len word) = unat x div 2 ^ k mod 2 ^ n"
proof -
  have "drop_bit k (x AND push_bit k (mask n)) = drop_bit k x AND mask n"
    by (rule bit_word_eqI) (auto simp: bit_simps dest: bit_imp_le_length)
  then show ?thesis by (simp only: unat_and_mask_eq unat_drop_bit)
qed

section \<open>Strings\<close>

text \<open>
  A \<open>std::string\<close> or a byte range is a list of \<open>char\<close> or of bytes; the casts between \<open>char\<close> and
  \<open>uint8_t\<close> keep the eight bits. A \<open>throw std::runtime_error\<close> is a value.
\<close>

datatype runtime_error = Runtime_error string

definition byte_of :: "char \<Rightarrow> u8" where
  "byte_of c = of_nat (of_char c)"

definition char_of_byte :: "u8 \<Rightarrow> char" where
  "char_of_byte b = char_of (unat b)"

lemma unat_byte_of [simp]: "unat (byte_of c) = of_char c"
proof -
  have "(of_char c :: nat) < 256" by simp
  then show ?thesis by (simp add: byte_of_def unat_of_nat)
qed

lemma char_of_byte_of [simp]: "char_of_byte (byte_of c) = c"
  by (simp add: char_of_byte_def)

lemma byte_of_char_of_byte [simp]: "byte_of (char_of_byte b) = b"
  by (rule word_unat_eq_iff [THEN iffD2]) (simp add: char_of_byte_def unat_u8)

lemma inj_byte_of: "byte_of c = byte_of d \<longleftrightarrow> c = d"
  by (metis char_of_byte_of)

text \<open>The decimal digits an output stream writes for an unsigned value.\<close>

fun dec_digits :: "nat \<Rightarrow> string" where
  "dec_digits n = (if n < 10 then [char_of (48 + n)] else dec_digits (n div 10) @ [char_of (48 + n mod 10)])"

declare dec_digits.simps [simp del]

end
