(* ===== verification/Hash_Standard.thy ===== *)
theory Hash_Standard
  imports Complex_Main Prelude
begin

text \<open>
  The hash functions of RFC 1321 (MD5) and FIPS 180-4 (SHA-1, SHA-256, SHA-512) as the standards
  state them. The theory uses nothing of the model of \<open>abel/digest\<close>: the padding is written
  for a length field of any size, bytes are digits in base 256, the constants of MD5 are sines,
  those of SHA-2 are fractions of roots of primes, and the message words and shift amounts are
  given by their formulas. The classes are proved equal to these functions in their own theories.
\<close>

section \<open>Bytes of a number\<close>

text \<open>The last \<open>n\<close> digits in base 256, most significant first, and least significant first.\<close>

definition be_bytes :: "nat \<Rightarrow> nat \<Rightarrow> u8 list" where
  "be_bytes n x = map (\<lambda>i. of_nat (x div 256 ^ i)) (rev [0..<n])"

definition le_bytes :: "nat \<Rightarrow> nat \<Rightarrow> u8 list" where
  "le_bytes n x = map (\<lambda>i. of_nat (x div 256 ^ i)) [0..<n]"

lemma length_be_bytes [simp]: "length (be_bytes n x) = n"
  and length_le_bytes [simp]: "length (le_bytes n x) = n"
  by (simp_all add: be_bytes_def le_bytes_def)

section \<open>Padding and iteration\<close>

text \<open>
  A byte \<open>0x80\<close>, the fewest zero bytes that make the padded message a multiple of the block size,
  and the length of the message in bits as the length field.
\<close>

definition std_zeros :: "nat \<Rightarrow> nat \<Rightarrow> nat \<Rightarrow> nat" where
  "std_zeros bs f l = (bs - (l + 1 + f) mod bs) mod bs"

lemma std_zeros_least:
  assumes "0 < bs"
  shows "std_zeros bs f l = (LEAST k. bs dvd l + 1 + k + f)"
proof (rule Least_equality [symmetric])
  let ?m = "(l + 1 + f) mod bs"
  have sum: "bs dvd l + 1 + f + (bs - ?m)"
    using assms by (metis add_diff_inverse_nat dvd_add_triv_right_iff dvd_minus_mod mod_less_divisor
        nat_less_le not_less mod_less_eq_dividend add.commute add_diff_assoc2 le_add_diff_inverse)
  show "bs dvd l + 1 + std_zeros bs f l + f"
  proof (cases "?m = 0")
    case True
    then have "bs dvd l + 1 + f" by (simp add: mod_eq_0_iff_dvd)
    with True show ?thesis by (simp add: std_zeros_def)
  next
    case False
    then have "std_zeros bs f l = bs - ?m" using assms by (simp add: std_zeros_def)
    with sum show ?thesis by (simp add: ac_simps)
  qed
  fix k assume k: "bs dvd l + 1 + k + f"
  then have "(?m + k) mod bs = 0" by (metis add.assoc add.commute mod_add_left_eq mod_eq_0_iff_dvd)
  then have "bs dvd ?m + k" by auto
  moreover have "?m < bs" using assms by simp
  ultimately show "std_zeros bs f l \<le> k"
    by (cases "?m = 0") (auto simp: std_zeros_def dest!: dvd_imp_le)
qed

definition std_pad :: "nat \<Rightarrow> (nat \<Rightarrow> u8 list) \<Rightarrow> u8 list \<Rightarrow> u8 list" where
  "std_pad bs len_field msg =
     (let field = len_field (8 * length msg)
      in msg @ [0x80] @ replicate (std_zeros bs (length field) (length msg)) 0 @ field)"

definition std_digest ::
    "('w list \<Rightarrow> u8 list \<Rightarrow> 'w list) \<Rightarrow> nat \<Rightarrow> 'w list \<Rightarrow> (nat \<Rightarrow> u8 list) \<Rightarrow> ('w \<Rightarrow> u8 list) \<Rightarrow>
     u8 list \<Rightarrow> u8 list" where
  "std_digest compress bs iv len_field word_bytes msg =
     concat (map word_bytes (foldl compress iv (blocks bs (std_pad bs len_field msg))))"

section \<open>RFC 1321\<close>

type_synonym md5_regs = "u32 \<times> u32 \<times> u32 \<times> u32"

text \<open>The auxiliary functions of the four rounds, and the word that step \<open>i\<close> reads.\<close>

definition rfc_F :: "nat \<Rightarrow> u32 \<Rightarrow> u32 \<Rightarrow> u32 \<Rightarrow> u32" where
  "rfc_F i x y z =
     (if i < 16 then (x AND y) OR (NOT x AND z)
      else if i < 32 then (x AND z) OR (y AND NOT z)
      else if i < 48 then x XOR y XOR z
      else y XOR (x OR NOT z))"

definition rfc_k :: "nat \<Rightarrow> nat" where
  "rfc_k i = (if i < 16 then i else if i < 32 then (5 * i + 1) mod 16
              else if i < 48 then (3 * i + 5) mod 16 else (7 * i) mod 16)"

text \<open>The shift amounts of a round repeat every four steps.\<close>

definition rfc_s :: "nat \<Rightarrow> nat" where
  "rfc_s i =
     [[7, 12, 17, 22], [5, 9, 14, 20], [4, 11, 16, 23], [6, 10, 15, 21]] ! (i div 16) ! (i mod 4)"

text \<open>
  The integer part of 4294967296 times \<open>abs (sin i)\<close>, \<open>i\<close> in radians and counted from 1.
\<close>

definition rfc_T :: "nat \<Rightarrow> u32" where
  "rfc_T i = word_of_int \<lfloor>4294967296 * \<bar>sin (real (Suc i))\<bar>\<rfloor>"

definition rfc_word :: "u8 list \<Rightarrow> nat \<Rightarrow> u32" where
  "rfc_word buf i = word_rcat (rev (take 4 (drop (4 * i) buf)))"

definition rfc_step :: "(nat \<Rightarrow> u32) \<Rightarrow> md5_regs \<Rightarrow> nat \<Rightarrow> md5_regs" where
  "rfc_step X = (\<lambda>(a, b, c, d) i.
     (d, b + word_rotl (rfc_s i) (a + rfc_F i b c d + X (rfc_k i) + rfc_T i), b, c))"

definition rfc_compress :: "u32 list \<Rightarrow> u8 list \<Rightarrow> u32 list" where
  "rfc_compress state buf =
     (case foldl (rfc_step (rfc_word buf)) (state ! 0, state ! 1, state ! 2, state ! 3) [0..<64] of
        (a, b, c, d) \<Rightarrow> [state ! 0 + a, state ! 1 + b, state ! 2 + c, state ! 3 + d])"

text \<open>The initial words are given by their bytes, low-order byte first.\<close>

definition rfc_iv :: "u32 list" where
  "rfc_iv = map (\<lambda>bytes. word_rcat (rev bytes))
     [[0x01, 0x23, 0x45, 0x67 :: u8], [0x89, 0xab, 0xcd, 0xef], [0xfe, 0xdc, 0xba, 0x98], [0x76, 0x54, 0x32, 0x10]]"

definition md5_ref_digest :: "u8 list \<Rightarrow> u8 list" where
  "md5_ref_digest = std_digest rfc_compress 64 rfc_iv (le_bytes 8) (\<lambda>w. le_bytes 4 (unat w))"

section \<open>SHA-1\<close>

type_synonym sha1_regs = "u32 \<times> u32 \<times> u32 \<times> u32 \<times> u32"

text \<open>The message schedule is the standard's recurrence over big-endian words.\<close>

definition fips_word :: "u8 list \<Rightarrow> nat \<Rightarrow> u32" where
  "fips_word buf i = word_rcat (take 4 (drop (4 * i) buf))"

fun fips1_W :: "(nat \<Rightarrow> u32) \<Rightarrow> nat \<Rightarrow> u32" where
  "fips1_W M t =
     (if t < 16 then M t
      else word_rotl 1 (fips1_W M (t - 3) XOR fips1_W M (t - 8) XOR fips1_W M (t - 14) XOR fips1_W M (t - 16)))"

declare fips1_W.simps [simp del]

definition fips1_f :: "nat \<Rightarrow> u32 \<Rightarrow> u32 \<Rightarrow> u32 \<Rightarrow> u32" where
  "fips1_f t x y z =
     (if t < 20 then (x AND y) XOR (NOT x AND z)
      else if 40 \<le> t \<and> t < 60 then (x AND y) XOR (x AND z) XOR (y AND z)
      else x XOR y XOR z)"

text \<open>The constants are \<open>2 ^ 30\<close> times the square roots of 2, 3, 5 and 10, rounded down.\<close>

definition fips1_K :: "nat \<Rightarrow> u32" where
  "fips1_K t = (if t < 20 then 1518500249 else if t < 40 then 1859775393
                else if t < 60 then 2400959708 else 3395469782)"

definition fips1_step :: "(nat \<Rightarrow> u32) \<Rightarrow> sha1_regs \<Rightarrow> nat \<Rightarrow> sha1_regs" where
  "fips1_step W = (\<lambda>(a, b, c, d, e) t.
     (word_rotl 5 a + fips1_f t b c d + e + fips1_K t + W t, a, word_rotl 30 b, c, d))"

definition fips1_compress :: "u32 list \<Rightarrow> u8 list \<Rightarrow> u32 list" where
  "fips1_compress H buf =
     (case foldl (fips1_step (fips1_W (fips_word buf))) (H ! 0, H ! 1, H ! 2, H ! 3, H ! 4) [0..<80] of
        (a, b, c, d, e) \<Rightarrow> [a + H ! 0, b + H ! 1, c + H ! 2, d + H ! 3, e + H ! 4])"

lemma fips1_K_sqrt:
  "list_all (\<lambda>(t, p). (unat (fips1_K t))\<^sup>2 \<le> p * 2 ^ 60 \<and> p * 2 ^ 60 < (unat (fips1_K t) + 1)\<^sup>2)
     [(0, 2), (20, 3), (40, 5), (60, 10)]"
  by (simp add: fips1_K_def)

text \<open>
  The first four initial words are those of MD5.
\<close>

definition fips1_iv :: "u32 list" where
  "fips1_iv = rfc_iv @ [word_rcat [0xc3, 0xd2, 0xe1, 0xf0 :: u8]]"

definition sha1_ref_digest :: "u8 list \<Rightarrow> u8 list" where
  "sha1_ref_digest = std_digest fips1_compress 64 fips1_iv (be_bytes 8) (\<lambda>w. be_bytes 4 (unat w))"

section \<open>SHA-2: the compression for either word size\<close>

definition fips_Ch :: "'a::len word \<Rightarrow> 'a word \<Rightarrow> 'a word \<Rightarrow> 'a word" where
  "fips_Ch x y z = (x AND y) XOR (NOT x AND z)"

definition fips_Maj :: "'a::len word \<Rightarrow> 'a word \<Rightarrow> 'a word \<Rightarrow> 'a word" where
  "fips_Maj x y z = (x AND y) XOR (x AND z) XOR (y AND z)"

fun fips2_W ::
    "('a::len word \<Rightarrow> 'a word) \<Rightarrow> ('a word \<Rightarrow> 'a word) \<Rightarrow> (nat \<Rightarrow> 'a word) \<Rightarrow> nat \<Rightarrow> 'a word" where
  "fips2_W s0 s1 M t =
     (if t < 16 then M t
      else s1 (fips2_W s0 s1 M (t - 2)) + fips2_W s0 s1 M (t - 7) +
           s0 (fips2_W s0 s1 M (t - 15)) + fips2_W s0 s1 M (t - 16))"

declare fips2_W.simps [simp del]

type_synonym 'w sha2_regs = "'w \<times> 'w \<times> 'w \<times> 'w \<times> 'w \<times> 'w \<times> 'w \<times> 'w"

definition fips2_step ::
    "('a::len word \<Rightarrow> 'a word) \<Rightarrow> ('a word \<Rightarrow> 'a word) \<Rightarrow> (nat \<Rightarrow> 'a word) \<Rightarrow> (nat \<Rightarrow> 'a word) \<Rightarrow>
     'a word sha2_regs \<Rightarrow> nat \<Rightarrow> 'a word sha2_regs" where
  "fips2_step S0 S1 K W = (\<lambda>(a, b, c, d, e, f, g, h) t.
     let T1 = h + S1 e + fips_Ch e f g + K t + W t;
         T2 = S0 a + fips_Maj a b c
     in (T1 + T2, a, b, c, d + T1, e, f, g))"

definition regs8 :: "'w list \<Rightarrow> 'w sha2_regs" where
  "regs8 s = (s ! 0, s ! 1, s ! 2, s ! 3, s ! 4, s ! 5, s ! 6, s ! 7)"

definition list8 :: "'w sha2_regs \<Rightarrow> 'w list" where
  "list8 = (\<lambda>(a, b, c, d, e, f, g, h). [a, b, c, d, e, f, g, h])"

text \<open>All rounds, and the addition of the result to the chaining value.\<close>

definition fips2_compress ::
    "('a::len word \<Rightarrow> 'a word) \<Rightarrow> ('a word \<Rightarrow> 'a word) \<Rightarrow> (nat \<Rightarrow> 'a word) \<Rightarrow> (nat \<Rightarrow> 'a word) \<Rightarrow>
     nat \<Rightarrow> 'a word list \<Rightarrow> 'a word list" where
  "fips2_compress S0 S1 K W rounds H =
     (let s = list8 (foldl (fips2_step S0 S1 K W) (regs8 H) [0..<rounds])
      in map (\<lambda>i. s ! i + H ! i) [0..<8])"

section \<open>SHA-2: the constants\<close>

definition primes80 :: "int list" where
  "primes80 =
     [2, 3, 5, 7, 11, 13, 17, 19, 23, 29, 31, 37, 41, 43, 47, 53, 59, 61, 67, 71,
      73, 79, 83, 89, 97, 101, 103, 107, 109, 113, 127, 131, 137, 139, 149, 151, 157, 163, 167, 173,
      179, 181, 191, 193, 197, 199, 211, 223, 227, 229, 233, 239, 241, 251, 257, 263, 269, 271, 277, 281,
      283, 293, 307, 311, 313, 317, 331, 337, 347, 349, 353, 359, 367, 373, 379, 383, 389, 397, 401, 409]"

text \<open>The numbers up to 409 that no smaller number from 2 to 20 divides.\<close>

lemma primes80_complete:
  "primes80 = filter (\<lambda>p. list_all (\<lambda>d. p \<le> d \<or> p mod d \<noteq> 0) [2..20]) [2..409]"
  by code_simp

text \<open>The first \<open>w\<close> bits of the fraction of the \<open>r\<close>-th root of \<open>p\<close>.\<close>

definition root_bits :: "nat \<Rightarrow> nat \<Rightarrow> int \<Rightarrow> int" where
  "root_bits r w p = \<lfloor>2 ^ w * frac (root r (of_int p))\<rfloor>"

section \<open>SHA-256 and SHA-512\<close>

definition fips256_Sigma0 :: "u32 \<Rightarrow> u32" where
  "fips256_Sigma0 x = word_rotr 2 x XOR word_rotr 13 x XOR word_rotr 22 x"

definition fips256_Sigma1 :: "u32 \<Rightarrow> u32" where
  "fips256_Sigma1 x = word_rotr 6 x XOR word_rotr 11 x XOR word_rotr 25 x"

definition fips256_sigma0 :: "u32 \<Rightarrow> u32" where
  "fips256_sigma0 x = word_rotr 7 x XOR word_rotr 18 x XOR drop_bit 3 x"

definition fips256_sigma1 :: "u32 \<Rightarrow> u32" where
  "fips256_sigma1 x = word_rotr 17 x XOR word_rotr 19 x XOR drop_bit 10 x"

definition fips256_word :: "u8 list \<Rightarrow> nat \<Rightarrow> u32" where
  "fips256_word buf i = word_rcat (take 4 (drop (4 * i) buf))"

definition fips256_W :: "u8 list \<Rightarrow> nat \<Rightarrow> u32" where
  "fips256_W buf = fips2_W fips256_sigma0 fips256_sigma1 (fips256_word buf)"

definition fips256_K :: "nat \<Rightarrow> u32" where
  "fips256_K t = word_of_int (root_bits 3 32 (primes80 ! t))"

definition fips256_compress :: "u32 list \<Rightarrow> u8 list \<Rightarrow> u32 list" where
  "fips256_compress H buf =
     fips2_compress fips256_Sigma0 fips256_Sigma1 fips256_K (fips256_W buf) 64 H"

definition fips256_iv :: "u32 list" where
  "fips256_iv = map (\<lambda>p. word_of_int (root_bits 2 32 p)) (take 8 primes80)"

definition sha256_ref_digest :: "u8 list \<Rightarrow> u8 list" where
  "sha256_ref_digest = std_digest fips256_compress 64 fips256_iv (be_bytes 8) (\<lambda>w. be_bytes 4 (unat w))"

definition fips512_Sigma0 :: "u64 \<Rightarrow> u64" where
  "fips512_Sigma0 x = word_rotr 28 x XOR word_rotr 34 x XOR word_rotr 39 x"

definition fips512_Sigma1 :: "u64 \<Rightarrow> u64" where
  "fips512_Sigma1 x = word_rotr 14 x XOR word_rotr 18 x XOR word_rotr 41 x"

definition fips512_sigma0 :: "u64 \<Rightarrow> u64" where
  "fips512_sigma0 x = word_rotr 1 x XOR word_rotr 8 x XOR drop_bit 7 x"

definition fips512_sigma1 :: "u64 \<Rightarrow> u64" where
  "fips512_sigma1 x = word_rotr 19 x XOR word_rotr 61 x XOR drop_bit 6 x"

definition fips512_word :: "u8 list \<Rightarrow> nat \<Rightarrow> u64" where
  "fips512_word buf i = word_rcat (take 8 (drop (8 * i) buf))"

definition fips512_W :: "u8 list \<Rightarrow> nat \<Rightarrow> u64" where
  "fips512_W buf = fips2_W fips512_sigma0 fips512_sigma1 (fips512_word buf)"

definition fips512_K :: "nat \<Rightarrow> u64" where
  "fips512_K t = word_of_int (root_bits 3 64 (primes80 ! t))"

definition fips512_compress :: "u64 list \<Rightarrow> u8 list \<Rightarrow> u64 list" where
  "fips512_compress H buf =
     fips2_compress fips512_Sigma0 fips512_Sigma1 fips512_K (fips512_W buf) 80 H"

definition fips512_iv :: "u64 list" where
  "fips512_iv = map (\<lambda>p. word_of_int (root_bits 2 64 p)) (take 8 primes80)"

definition sha512_ref_digest :: "u8 list \<Rightarrow> u8 list" where
  "sha512_ref_digest = std_digest fips512_compress 128 fips512_iv (be_bytes 16) (\<lambda>w. be_bytes 8 (unat w))"

end
