(* ===== verification/Hash_Tables.thy ===== *)
theory Hash_Tables
  imports Hash_Standard
begin

text \<open>
  The constants of the standards in numbers: a check, by integer arithmetic alone, that a table
  holds the first bits of the roots or of the sines that \<open>Hash_Standard\<close> defines. The sines of
  1 to 64 are computed in fixed point with 56 fractional bits, turning by one radian at a time;
  the error grows by at most 10 units a turn and stays far below the distance to the next integer.
\<close>

section \<open>Fractions of roots\<close>

lemma floor_frac_root: 
  fixes \<rho> :: real
  assumes "of_int n ^ r \<le> (2 ^ w * \<rho>) ^ r" "(2 ^ w * \<rho>) ^ r < of_int (n + 1) ^ r" "0 \<le> \<rho>" "0 \<le> n" "0 < r"
    "n = c * 2 ^ w + k" "0 \<le> k" "k < 2 ^ w"
  shows "\<lfloor>2 ^ w * frac \<rho>\<rfloor> = k"
proof -
  have lo: "of_int n \<le> 2 ^ w * \<rho>"
    using assms(1,3,4,5) by (subst (asm) power_mono_iff) simp_all
  have hi: "2 ^ w * \<rho> < of_int (n + 1)"
    using power_less_imp_less_base [OF assms(2)] assms(4) by simp
  have nr: "real_of_int n = real_of_int c * 2 ^ w + real_of_int k" by (simp add: assms(6))
  have "real_of_int c \<le> \<rho>"
  proof -
    have "0 \<le> real_of_int k" using assms(7) by simp
    then have "2 ^ w * real_of_int c \<le> 2 ^ w * \<rho>" using lo nr mult.commute [of "real_of_int c" "2 ^ w"] by linarith
    then show ?thesis by simp
  qed
  moreover have "\<rho> < real_of_int c + 1"
  proof -
    have "k + 1 \<le> 2 ^ w" using assms(8) by simp
    then have "real_of_int (k + 1) \<le> real_of_int (2 ^ w)" by (simp only: of_int_le_iff)
    then have "2 ^ w * \<rho> < 2 ^ w * (real_of_int c + 1)" using hi nr by (simp add: algebra_simps)
    then show ?thesis by simp
  qed
  ultimately have c: "\<lfloor>\<rho>\<rfloor> = c" by (simp add: floor_eq_iff)
  show ?thesis
    unfolding frac_def c using lo hi nr by (simp add: floor_eq_iff algebra_simps)
qed

text \<open>
  \<open>k\<close> is the first \<open>w\<close> bits of the fraction of a root of \<open>p\<close>; \<open>c\<close> is the integer part.
\<close>

definition root_frac :: "nat \<Rightarrow> nat \<Rightarrow> int \<Rightarrow> int \<Rightarrow> bool" where
  "root_frac r w p k =
     (let c = int (length (filter (\<lambda>x. x ^ r \<le> p) [1..20])); n = c * 2 ^ w + k
      in 0 \<le> k \<and> k < 2 ^ w \<and> n ^ r \<le> p * 2 ^ (r * w) \<and> p * 2 ^ (r * w) < (n + 1) ^ r)"

lemma root_frac_bits:
  assumes "root_frac r w p k" "0 < r" "0 \<le> p"
  shows "root_bits r w p = k"
proof -
  define c where "c = int (length (filter (\<lambda>x. x ^ r \<le> p) [1..20]))"
  define n where "n = c * 2 ^ w + k"
  have k: "0 \<le> k" "k < 2 ^ w" and n: "n ^ r \<le> p * 2 ^ (r * w)" "p * 2 ^ (r * w) < (n + 1) ^ r"
    using assms(1) by (simp_all add: root_frac_def Let_def c_def n_def)
  let ?\<rho> = "root r (of_int p)"
  have pw: "(2 ^ w * ?\<rho>) ^ r = of_int (p * 2 ^ (r * w))"
    using assms(2,3) by (simp add: power_mult_distrib power_mult [symmetric] mult.commute)
  have "of_int n ^ r \<le> (2 ^ w * ?\<rho>) ^ r" "(2 ^ w * ?\<rho>) ^ r < of_int (n + 1) ^ r"
    unfolding pw of_int_power [symmetric] of_int_le_iff of_int_less_iff by (rule n)+
  moreover have "0 \<le> ?\<rho>" using assms(2,3) by simp
  moreover have "0 \<le> n" using k by (simp add: n_def c_def)
  ultimately show ?thesis
    unfolding root_bits_def using k assms(2) by (intro floor_frac_root [of n r w]) (simp_all add: n_def)
qed

lemma root_table:
  assumes "list_all2 (\<lambda>p k. root_frac r w p (uint k)) ps ks" "0 < r" "list_all (\<lambda>p. 0 \<le> p) ps"
  shows "map (\<lambda>p. word_of_int (root_bits r w p)) ps = ks"
  using assms(1,3)
  by (induction rule: list_all2_induct) (simp_all add: root_frac_bits [OF _ assms(2)])

section \<open>Sines\<close>

text \<open>\<open>2 ^ 56\<close> times the sine and the cosine of one radian.\<close>

definition sin1 :: int where "sin1 = 60634374617982832"
definition cos1 :: int where "cos1 = 38932884214002780"

lemma sum_20: "(\<Sum>m<20. f (m::nat)) = (f 0 + f 1 + f 2 + f 3 + f 4 + f 5 + f 6 + f 7 + f 8 + f 9 + f 10 + f 11 + f 12 + f 13 +
    f 14 + f 15 + f 16 + f 17 + f 18 + f 19 :: real)"
  by (simp add: lessThan_nat_numeral lessThan_Suc algebra_simps)

lemma fixed_point_error:
  fixes y q r :: real
  assumes "\<bar>y - q\<bar> \<le> r" "\<bar>2 ^ 56 * q - of_int s\<bar> \<le> 1" "2 ^ 56 * r \<le> 1"
  shows "\<bar>2 ^ 56 * y - of_int s\<bar> \<le> 2"
  using assms by (simp add: abs_le_iff)

lemma sin_one: "\<bar>2 ^ 56 * sin 1 - real_of_int sin1\<bar> \<le> 2"
proof (rule fixed_point_error)
  show "\<bar>sin 1 - (\<Sum>m<20. sin_coeff m * 1 ^ m)\<bar> \<le> inverse (fact 20) * \<bar>1\<bar> ^ 20"
    by (rule Maclaurin_sin_bound)
qed (simp_all add: sum_20 sin_coeff_def fact_numeral sin1_def)

lemma cos_one: "\<bar>2 ^ 56 * cos 1 - real_of_int cos1\<bar> \<le> 2"
proof (rule fixed_point_error)
  obtain t where "cos 1 = (\<Sum>m<20. cos_coeff m * 1 ^ m) + (cos (t + 1/2 * real 20 * pi) / fact 20) * 1 ^ 20"
    using Maclaurin_cos_expansion [of 1 20] by blast
  then have "\<bar>cos 1 - (\<Sum>m<20. cos_coeff m * 1 ^ m)\<bar> = \<bar>cos (t + 1/2 * real 20 * pi)\<bar> / fact 20"
    by simp
  also have "\<dots> \<le> 1 / fact 20" by (rule divide_right_mono [OF abs_cos_le_one]) simp
  finally show "\<bar>cos 1 - (\<Sum>m<20. cos_coeff m * 1 ^ m)\<bar> \<le> 1 / fact 20" .
qed (simp_all add: sum_20 cos_coeff_def fact_numeral cos1_def)

lemma fixed_div: "0 < (b::int) \<Longrightarrow> \<bar>real_of_int a / real_of_int b - real_of_int (a div b)\<bar> \<le> 1"
  using real_of_int_div4 [of a b] real_of_int_div3 [of a b] by (simp add: abs_if)

text \<open>Turning by one radian: a product of complex numbers in fixed point.\<close>

fun fixed_turn :: "int \<Rightarrow> int \<Rightarrow> int \<times> int \<Rightarrow> int \<times> int" where
  "fixed_turn s1 c1 (s, c) = (drop_bit 56 (s * c1 + c * s1), drop_bit 56 (c * c1 - s * s1))"

definition fixed_cis :: "int \<times> int \<Rightarrow> complex" where
  "fixed_cis z = Complex (of_int (snd z)) (of_int (fst z))"

definition cis_error :: "real \<Rightarrow> int \<times> int \<Rightarrow> real" where
  "cis_error x z = cmod (2 ^ 56 * cis x - fixed_cis z)"

lemma cis_error_le: "cis_error x (s, c) \<le> \<bar>2 ^ 56 * cos x - of_int c\<bar> + \<bar>2 ^ 56 * sin x - of_int s\<bar>"
  using cmod_le [of "2 ^ 56 * cis x - fixed_cis (s, c)"]
  by (simp add: cis_error_def fixed_cis_def)

lemma sin_le_cis_error: "\<bar>2 ^ 56 * sin x - of_int s\<bar> \<le> cis_error x (s, c)"
  using abs_Im_le_cmod [of "2 ^ 56 * cis x - fixed_cis (s, c)"]
  by (simp add: cis_error_def fixed_cis_def)

abbreviation fixed_cis1 :: "int \<times> int" where
  "fixed_cis1 \<equiv> (sin1, cos1)"

lemma cis_error_one: "cis_error 1 fixed_cis1 \<le> 4"
  using cis_error_le [of 1 "sin1" "cos1"] sin_one cos_one by linarith

lemma fixed_turn_round:
  "cmod (fixed_cis z * fixed_cis (s1, c1) / 2 ^ 56 - fixed_cis (fixed_turn s1 c1 z)) \<le> 2"
proof -
  obtain s c where z: "z = (s, c)" by fastforce
  let ?d = "fixed_cis z * fixed_cis (s1, c1) / 2 ^ 56 - fixed_cis (fixed_turn s1 c1 z)"
  have p: "(2 ^ 56 :: complex) = of_real (2 ^ 56)" by simp
  have "\<bar>Re ?d\<bar> \<le> 1"
    using fixed_div [of "2 ^ 56" "c * c1 - s * s1"]
    unfolding p by (simp add: z fixed_cis_def drop_bit_eq_div Re_divide_of_real)
  moreover have "\<bar>Im ?d\<bar> \<le> 1"
    using fixed_div [of "2 ^ 56" "s * c1 + c * s1"]
    unfolding p by (simp add: z fixed_cis_def drop_bit_eq_div Im_divide_of_real add.commute)
  ultimately show ?thesis using cmod_le [of ?d] by linarith
qed

lemma fixed_turn_split:
  fixes U a b Z W T :: complex
  assumes "U \<noteq> 0"
  shows "cmod (U * (a * b) - T)
       \<le> cmod (U * a - Z) * cmod b + cmod (Z / U) * cmod (U * b - W) + cmod (Z * W / U - T)"
proof -
  have "U * (a * b) - T = (U * a - Z) * b + Z / U * (U * b - W) + (Z * W / U - T)"
    using assms by (simp add: field_simps)
  then show ?thesis
    unfolding norm_mult [symmetric] by (metis norm_triangle_le norm_triangle_ineq add_right_mono)
qed

lemma fixed_turn_error:
  assumes "cis_error x z \<le> e" "e \<le> 2 ^ 10"
  shows "cis_error (x + 1) (fixed_turn sin1 cos1 z) \<le> e + 10"
proof -
  let ?Z = "fixed_cis z" and ?W = "fixed_cis fixed_cis1"
  let ?U = "2 ^ 56 :: complex" and ?T = "fixed_cis (fixed_turn sin1 cos1 z)"
  have "cmod ?Z \<le> cmod (?U * cis x) + cmod (?U * cis x - ?Z)"
    using norm_triangle_sub [of ?Z "?U * cis x"] by (simp add: norm_minus_commute)
  also have "cmod (?U * cis x) = 2 ^ 56" by (simp add: norm_mult norm_power)
  finally have "cmod ?Z \<le> 2 ^ 56 + e" using assms(1) by (simp add: cis_error_def)
  then have "cmod (?Z / ?U) \<le> 2" using assms(2) by (simp add: norm_divide norm_power)
  moreover have "cmod (?U * cis 1 - ?W) \<le> 4" using cis_error_one by (simp add: cis_error_def)
  ultimately have "cmod (?Z / ?U) * cmod (?U * cis 1 - ?W) \<le> 2 * 4" by (rule mult_mono) simp_all
  moreover have "cmod (?U * cis x - ?Z) * cmod (cis 1) \<le> e"
    using assms(1) by (simp add: cis_error_def)
  moreover have "cmod (?Z * ?W / ?U - ?T) \<le> 2" by (rule fixed_turn_round)
  moreover have "cis_error (x + 1) (fixed_turn sin1 cos1 z) = cmod (?U * (cis x * cis 1) - ?T)"
    by (simp add: cis_error_def cis_mult)
  moreover have "?U \<noteq> 0" by simp
  ultimately show ?thesis
    using fixed_turn_split [of ?U "cis x" "cis 1" ?T ?Z ?W] by linarith
qed

fun fixed_sines :: "int \<Rightarrow> int \<Rightarrow> nat \<Rightarrow> int \<times> int \<Rightarrow> int list" where
  "fixed_sines s1 c1 0 z = []"
| "fixed_sines s1 c1 (Suc n) z = (let z' = fixed_turn s1 c1 z in fst z' # fixed_sines s1 c1 n z')"

lemma length_fixed_sines: "length (fixed_sines s1 c1 n z) = n"
  by (induction n arbitrary: z) (simp_all add: Let_def)

lemma fixed_sines_error:
  assumes "cis_error (real m) z \<le> 10 * real m" "i < n" "m + n \<le> 100"
  shows "\<bar>2 ^ 56 * sin (real (m + Suc i)) -
      real_of_int (fixed_sines sin1 cos1 n z ! i)\<bar> \<le> 1000"
  using assms
proof (induction n arbitrary: m z i)
  case 0 then show ?case by simp
next
  case (Suc n)
  define z' where "z' = fixed_turn sin1 cos1 z"
  have "cis_error (real m + 1) z' \<le> 10 * real m + 10"
    unfolding z'_def by (rule fixed_turn_error [OF Suc.prems(1)]) (use Suc.prems(3) in simp)
  then have e: "cis_error (real (Suc m)) z' \<le> 10 * real (Suc m)" by (simp add: add.commute)
  have u: "fixed_sines sin1 cos1 (Suc n) z
      = fst z' # fixed_sines sin1 cos1 n z'"
    by (simp add: z'_def Let_def)
  show ?case
  proof (cases i)
    case 0
    have "real (Suc m) \<le> 100" using Suc.prems(3) by simp
    with sin_le_cis_error [of "real (Suc m)" "fst z'" "snd z'"] e show ?thesis
      unfolding u 0 by simp
  next
    case (Suc j)
    with Suc.IH [OF e, of j] Suc.prems(2,3) show ?thesis unfolding u Suc by simp
  qed
qed

lemma floor_sine:
  fixes x :: real
  assumes "\<bar>2 ^ 56 * x - real_of_int s\<bar> \<le> 1000" "k * 2 ^ 24 + 1000 \<le> \<bar>s\<bar>" "\<bar>s\<bar> + 1000 < (k + 1) * 2 ^ 24"
  shows "\<lfloor>4294967296 * \<bar>x\<bar>\<rfloor> = k"
proof -
  have d: "\<bar>2 ^ 56 * \<bar>x\<bar> - real_of_int \<bar>s\<bar>\<bar> \<le> 1000"
    using assms(1) by (auto simp: abs_if split: if_splits)
  have "real_of_int (k * 2 ^ 24 + 1000) \<le> real_of_int \<bar>s\<bar>"
    "real_of_int (\<bar>s\<bar> + 1000) < real_of_int ((k + 1) * 2 ^ 24)"
    using assms(2,3) by (simp_all only: of_int_le_iff of_int_less_iff)
  with d have "real_of_int k * 2 ^ 24 \<le> 2 ^ 56 * \<bar>x\<bar>" "2 ^ 56 * \<bar>x\<bar> < (real_of_int k + 1) * 2 ^ 24"
    unfolding abs_le_iff of_int_add of_int_mult by simp_all
  then show ?thesis by (simp add: floor_eq_iff)
qed

definition sine_check :: "int list \<Rightarrow> bool" where
  "sine_check ks =
     list_all2 (\<lambda>s k. k * 16777216 + 1000 \<le> \<bar>s\<bar> \<and> \<bar>s\<bar> + 1000 < (k + 1) * 16777216)
       (fixed_sines sin1 cos1 64 (0, 72057594037927936)) ks"

lemma sine_check_floor:
  assumes "sine_check ks" "i < 64"
  shows "\<lfloor>4294967296 * \<bar>sin (real (Suc i))\<bar>\<rfloor> = ks ! i"
proof (rule floor_sine)
  let ?S = "fixed_sines sin1 cos1 64 (0, 72057594037927936)"
  have "cis_error (real 0) (0, 72057594037927936) \<le> 10 * real 0"
    using cis_error_le [of 0 0 "72057594037927936"] by simp
  from fixed_sines_error [OF this, of i 64] assms(2)
  show "\<bar>2 ^ 56 * sin (real (Suc i)) - real_of_int (?S ! i)\<bar> \<le> 1000" by simp
  show "ks ! i * 2 ^ 24 + 1000 \<le> \<bar>?S ! i\<bar>" "\<bar>?S ! i\<bar> + 1000 < (ks ! i + 1) * 2 ^ 24"
    using assms by (simp_all add: sine_check_def list_all2_conv_all_nth length_fixed_sines)
qed

end
