(* ===== verification/Digest_Stream.thy ===== *)
theory Digest_Stream
  imports Hash_Tables
begin

text \<open>
  The streaming engine that the classes \<open>MD5\<close>, \<open>SHA1\<close>, \<open>SHA256\<close> and \<open>SHA512\<close> of
  \<open>abel/digest\<close> share line by line: a running length in bits, the chaining state, and a block
  buffer with a fill count. The four sources differ in the word type, the compression
  function, the block size and the way the length is stored; those are the parameters here and
  each class instantiates them in its own theory. The locale \<open>block_hash\<close> states what a class
  must supply, and its lemmas show that feeding a message in pieces and then finalizing gives
  the padded block iteration over the whole message.
\<close>

section \<open>State and operations\<close>

record 'w md_ctx =
  md_length :: u64
  md_state :: "'w list"
  md_curlen :: u32
  md_buf :: "u8 list"

type_synonym 'w compress = "'w list \<Rightarrow> u8 list \<Rightarrow> 'w list"

definition min32 :: "u32 \<Rightarrow> u32 \<Rightarrow> u32" where
  "min32 x y = (if x < y then x else y)"

text \<open>
  One round of the \<open>while (size > 0)\<close> loop of \<open>process\<close>: either a whole block is compressed
  straight from the input, or bytes are copied to the buffer, which is compressed once full.
  \<open>inp\<close> is the memory from the read pointer on; the round also says how far it advances.
\<close>

definition md_round :: "'w compress \<Rightarrow> u32 \<Rightarrow> 'w md_ctx \<Rightarrow> u8 list \<Rightarrow> u32 \<Rightarrow> 'w md_ctx \<times> u32" where
  "md_round compress block_size c inp sz =
     (if md_curlen c = 0 \<and> block_size \<le> sz then
        (c\<lparr>md_state := compress (md_state c) (take (unat block_size) inp),
           md_length := md_length c + ucast (block_size * 8)\<rparr>, block_size)
      else
        let n = min32 sz (block_size - md_curlen c);
            c = c\<lparr>md_buf := overwrite (md_buf c) (unat (md_curlen c)) (take (unat n) inp),
                  md_curlen := md_curlen c + n\<rparr>
        in if md_curlen c = block_size
           then (c\<lparr>md_state := compress (md_state c) (md_buf c),
                   md_length := md_length c + ucast (8 * block_size), md_curlen := 0\<rparr>, n)
           else (c, n))"

text \<open>
  The loop itself. It returns only if every round advances, which is a property of the states
  the class reaches and not of the code as such, so the loop is a partial function.
\<close>

partial_function (option) md_process ::
    "'w compress \<Rightarrow> u32 \<Rightarrow> 'w md_ctx \<Rightarrow> u8 list \<Rightarrow> u32 \<Rightarrow> 'w md_ctx option" where
  "md_process compress block_size c inp sz =
     (if 0 < sz
      then md_process compress block_size (fst (md_round compress block_size c inp sz))
             (drop (unat (snd (md_round compress block_size c inp sz))) inp)
             (sz - snd (md_round compress block_size c inp sz))
      else Some c)"

text \<open>\<open>_buf[_curlen++] = b\<close>, and the zero fill loop \<open>while (_curlen < n) _buf[_curlen++] = 0\<close>.\<close>

definition md_put :: "u8 \<Rightarrow> 'w md_ctx \<Rightarrow> 'w md_ctx" where
  "md_put b c = c\<lparr>md_buf := (md_buf c)[unat (md_curlen c) := b], md_curlen := md_curlen c + 1\<rparr>"

function md_zero_fill :: "u32 \<Rightarrow> 'w md_ctx \<Rightarrow> 'w md_ctx" where
  "md_zero_fill n c = (if md_curlen c < n then md_zero_fill n (md_put 0 c) else c)"
  by pat_completeness auto
termination
proof (relation "measure (\<lambda>(n, c). unat (n - md_curlen c))", goal_cases)
  case 1
  show ?case by simp
next
  case (2 n c)
  then show ?case by (simp add: md_put_def) unat_arith
qed

declare md_zero_fill.simps [simp del]

text \<open>
  \<open>finalize\<close>: the bit length (\<open>cur_bits\<close> is \<open>_curlen * 8\<close> in the type the class computes it in), the \<open>0x80\<close> byte, an extra block when the buffer is filled beyond
  \<open>limit\<close>, zeros up to \<open>len_pos\<close>, the stored length, the last block, the state as bytes.
\<close>

definition md_finalize ::
    "'w compress \<Rightarrow> u32 \<Rightarrow> u32 \<Rightarrow> u32 \<Rightarrow> (u32 \<Rightarrow> u64) \<Rightarrow> (u64 \<Rightarrow> u8 list) \<Rightarrow>
     ('w \<Rightarrow> u8 list) \<Rightarrow> 'w md_ctx \<Rightarrow> 'w md_ctx \<times> u8 list" where
  "md_finalize compress block_size limit len_pos cur_bits store_len store_word c =
     (let c = c\<lparr>md_length := md_length c + cur_bits (md_curlen c)\<rparr>;
          c = md_put 0x80 c;
          c = (if limit < md_curlen c
               then let c = md_zero_fill block_size c
                    in c\<lparr>md_state := compress (md_state c) (md_buf c), md_curlen := 0\<rparr>
               else c);
          c = md_zero_fill len_pos c;
          c = c\<lparr>md_buf := overwrite (md_buf c) (unat len_pos) (store_len (md_length c))\<rparr>;
          c = c\<lparr>md_state := compress (md_state c) (md_buf c)\<rparr>
      in (c, concat (map store_word (md_state c))))"

text \<open>
  The constructor leaves \<open>_buf\<close> uninitialised: \<open>junk\<close> is what the memory held. \<open>process\<close> on a
  \<open>std::string\<close> passes \<open>str.size()\<close> to a parameter of type \<open>uint32_t\<close>.
\<close>

definition md_init :: "'w list \<Rightarrow> u8 list \<Rightarrow> 'w md_ctx" where
  "md_init iv junk = \<lparr>md_length = 0, md_state = iv, md_curlen = 0, md_buf = junk\<rparr>"

definition md_process_str :: "'w compress \<Rightarrow> u32 \<Rightarrow> 'w md_ctx \<Rightarrow> u8 list \<Rightarrow> 'w md_ctx option" where
  "md_process_str compress block_size c str = md_process compress block_size c str (of_nat (length str))"

text \<open>A client's sequence of \<open>process\<close> calls.\<close>

fun md_feed :: "('c \<Rightarrow> u8 list \<Rightarrow> 'c option) \<Rightarrow> 'c \<Rightarrow> u8 list list \<Rightarrow> 'c option" where
  "md_feed proc c [] = Some c"
| "md_feed proc c (x # xs) = Option.bind (proc c x) (\<lambda>c'. md_feed proc c' xs)"

text \<open>The bytes of a string argument that reach the hash: its size is cut to 32 bits.\<close>

definition fed :: "u8 list \<Rightarrow> u8 list" where
  "fed x = take (length x mod 4294967296) x"

lemma fed_short [simp]: "length x < 4294967296 \<Longrightarrow> fed x = x"
  by (simp add: fed_def)

section \<open>The specification: padded block iteration\<close>

text \<open>
  The padding of RFC 1321 and FIPS 180-4: a byte \<open>0x80\<close>, as many zero bytes as bring the length
  to \<open>limit\<close> modulo the block size, and a length field of \<open>bs - limit\<close> bytes, whose bytes before
  \<open>len_pos\<close> are zero and whose last eight hold the length in bits.
\<close>

definition md_pad :: "nat \<Rightarrow> nat \<Rightarrow> nat \<Rightarrow> (u64 \<Rightarrow> u8 list) \<Rightarrow> u8 list \<Rightarrow> u8 list" where
  "md_pad bs limit len_pos store_len msg =
     msg @ [0x80] @ replicate ((limit + bs - 1 - length msg mod bs) mod bs) 0
         @ replicate (len_pos - limit) 0 @ store_len (of_nat (8 * length msg))"

definition md_iterate :: "'w compress \<Rightarrow> nat \<Rightarrow> 'w list \<Rightarrow> u8 list \<Rightarrow> 'w list" where
  "md_iterate compress bs iv msg = foldl compress iv (blocks bs msg)"

definition md_spec ::
    "'w compress \<Rightarrow> nat \<Rightarrow> nat \<Rightarrow> nat \<Rightarrow> (u64 \<Rightarrow> u8 list) \<Rightarrow> ('w \<Rightarrow> u8 list) \<Rightarrow>
     'w list \<Rightarrow> u8 list \<Rightarrow> u8 list" where
  "md_spec compress bs limit len_pos store_len store_word iv msg =
     concat (map store_word (md_iterate compress bs iv (md_pad bs limit len_pos store_len msg)))"

text \<open>
  A context that has taken in \<open>msg\<close>: the full blocks are in the chaining state, the rest is in
  the buffer.
\<close>

definition md_holds :: "'w compress \<Rightarrow> nat \<Rightarrow> 'w list \<Rightarrow> 'w md_ctx \<Rightarrow> u8 list \<Rightarrow> bool" where
  "md_holds compress bs iv c msg \<longleftrightarrow>
     (let r = length msg mod bs; k = length msg - r in
      length (md_buf c) = bs \<and>
      md_curlen c = of_nat r \<and>
      take r (md_buf c) = drop k msg \<and>
      md_length c = of_nat (8 * k) \<and>
      md_state c = md_iterate compress bs iv (take k msg))"

section \<open>Block iteration\<close>

lemma md_iterate_append:
  "0 < bs \<Longrightarrow> bs dvd length xs \<Longrightarrow>
   md_iterate compress bs iv (xs @ ys) = md_iterate compress bs (md_iterate compress bs iv xs) ys"
  by (simp add: md_iterate_def blocks_append)

lemma md_iterate_one:
  "0 < bs \<Longrightarrow> length ys = bs \<Longrightarrow> md_iterate compress bs iv ys = compress iv ys"
  by (simp add: md_iterate_def)

lemma md_iterate_snoc:
  "0 < bs \<Longrightarrow> bs dvd length xs \<Longrightarrow> length y = bs \<Longrightarrow>
   md_iterate compress bs iv (xs @ y) = compress (md_iterate compress bs iv xs) y"
  by (simp add: md_iterate_append md_iterate_one)

lemma md_iterate_snoc2:
  "0 < bs \<Longrightarrow> bs dvd length xs \<Longrightarrow> length y = bs \<Longrightarrow> length z = bs \<Longrightarrow>
   md_iterate compress bs iv (xs @ y @ z) = compress (compress (md_iterate compress bs iv xs) y) z"
  using md_iterate_snoc [of bs "xs @ y" z] by (simp add: md_iterate_snoc)

lemma md_iterate_length:
  assumes "\<And>s b. length b = bs \<Longrightarrow> length (compress s b) = length s"
  shows "length (md_iterate compress bs iv msg) = length iv"
proof -
  have "length (foldl compress s bl) = length s" if "\<forall>b \<in> set bl. length b = bs" for s bl
    using that by (induction bl arbitrary: s) (auto simp: assms)
  then show ?thesis by (auto simp: md_iterate_def dest: blocks_length)
qed

lemma md_iterate_cong:
  assumes "\<And>s b. length b = bs \<Longrightarrow> compress s b = compress' s b"
  shows "md_iterate compress bs iv msg = md_iterate compress' bs iv msg"
  unfolding md_iterate_def by (rule foldl_cong) (auto simp: assms dest: blocks_length)

lemma md_spec_cong:
  assumes "\<And>s b. length b = bs \<Longrightarrow> compress s b = compress' s b"
  shows "md_spec compress bs limit len_pos store_len store_word iv msg
       = md_spec compress' bs limit len_pos store_len store_word iv msg"
  using md_iterate_cong [OF assms] by (simp add: md_spec_def)

text \<open>
  The block iteration with the serializers of a class is the digest of the standard when the
  serializers produce the standard's digits, the compression is the standard's on whole blocks,
  and the length field of \<open>bs - limit\<close> bytes is the class's, zero bytes included.
\<close>

lemma md_pad_std:
  assumes "limit < bs" "0 < limit"
    and "len_field (8 * length msg) = replicate (len_pos - limit) 0 @ store_len (of_nat (8 * length msg))"
    and "length (len_field (8 * length msg)) = bs - limit"
  shows "md_pad bs limit len_pos store_len msg = std_pad bs len_field msg"
proof -
  let ?r = "length msg mod bs"
  have r: "?r < bs" using assms(1) by simp
  have "(length msg + 1 + (bs - limit)) mod bs = (?r + (1 + bs - limit)) mod bs"
    using assms(1) by (metis Nat.add_diff_assoc add.assoc less_imp_le_nat mod_add_left_eq)
  moreover have "(bs - (?r + (1 + bs - limit)) mod bs) mod bs = (limit + bs - 1 - ?r) mod bs"
  proof (cases "?r + 1 + bs - limit < bs")
    case True
    then have e: "?r + (1 + bs - limit) = ?r + 1 + bs - limit" "?r + (1 + bs - limit) < bs" using assms(1) by simp_all
    have "(bs - (?r + (1 + bs - limit)) mod bs) mod bs = (bs + (bs - (?r + (1 + bs - limit)))) mod bs"
      unfolding mod_less [OF e(2)] by (rule mod_add_self1 [symmetric])
    also have "bs + (bs - (?r + (1 + bs - limit))) = limit + bs - 1 - ?r" using e assms(1) True by linarith
    finally show ?thesis .
  next
    case False
    then have e: "?r + (1 + bs - limit) = bs + (?r + 1 - limit)" "?r + 1 - limit < bs"
      using assms(1,2) r by linarith+
    have "(?r + (1 + bs - limit)) mod bs = ?r + 1 - limit"
      unfolding e(1) mod_add_self1 by (rule mod_less [OF e(2)])
    moreover have "limit + bs - 1 - ?r = bs - (?r + 1 - limit)" using False assms(1) by linarith
    ultimately show ?thesis by (simp only:)
  qed
  ultimately show ?thesis
    using assms(3,4) by (simp add: md_pad_def std_pad_def std_zeros_def Let_def)
qed

lemma md_spec_std:
  assumes "\<And>s b. length b = bs \<Longrightarrow> compress s b = compress' s b"
    and "limit < bs" "0 < limit"
    and "len_field (8 * length msg) = replicate (len_pos - limit) 0 @ store_len (of_nat (8 * length msg))"
    and "length (len_field (8 * length msg)) = bs - limit"
    and "store_word = word_bytes" and "iv = iv'"
  shows "md_spec compress bs limit len_pos store_len store_word iv msg
       = std_digest compress' bs iv' len_field word_bytes msg"
proof -
  have "md_spec compress bs limit len_pos store_len store_word iv msg
      = md_spec compress' bs limit len_pos store_len store_word iv msg"
    by (rule md_spec_cong) (rule assms(1))
  moreover have "md_pad bs limit len_pos store_len msg = std_pad bs len_field msg"
    by (rule md_pad_std) (rule assms)+
  ultimately show ?thesis
    using assms(6,7) by (simp add: md_spec_def md_iterate_def std_digest_def)
qed

text \<open>One byte of a serializer: a shift and a mask give a digit in base 256.\<close>

lemma byte_of_word:
  "ucast (drop_bit (k * 8) (x :: 'a::len word) AND 255) = (of_nat (unat x div 256 ^ k) :: u8)"
proof -
  have m: "(255 :: 'a word) = mask 8" by (simp add: mask_eq_exp_minus_1)
  have h: "bit x j \<Longrightarrow> j < LENGTH('a)" for j by (rule bit_imp_le_length)
  have p: "(256 :: nat) ^ k = 2 ^ (k * 8)" by (subst mult.commute) (simp add: power_mult)
  show ?thesis
    by (rule bit_word_eqI) (auto simp: m p bit_simps bit_word_ucast_iff simp flip: drop_bit_eq_div dest: h)
qed

lemma store_big_endian:
  "map (\<lambda>i. ucast (drop_bit ((n - 1 - i) * 8) (x :: 'a::len word) AND 255)) [0..<n] = be_bytes n (unat x)"
  by (auto simp: be_bytes_def byte_of_word rev_nth intro!: nth_equalityI)

lemma store_little_endian:
  "map (\<lambda>i. ucast (drop_bit (i * 8) (x :: 'a::len word) AND 255)) [0..<n] = le_bytes n (unat x)"
  by (simp add: le_bytes_def byte_of_word)

text \<open>A 64-bit length field depends on the length modulo \<open>2 ^ 64\<close>.\<close>

lemma byte_mod_64: "i < 8 \<Longrightarrow> (of_nat (n mod 18446744073709551616 div 256 ^ i) :: u8) = of_nat (n div 256 ^ i)"
proof -
  assume i: "i < 8"
  have p: "(256 :: nat) ^ i = 2 ^ (8 * i)" by (simp add: power_mult)
  have q: "n mod 18446744073709551616 = take_bit 64 n" by (simp add: take_bit_eq_mod)
  show ?thesis
    unfolding p q using i by (intro bit_word_eqI) (auto simp: bit_simps simp flip: drop_bit_eq_div)
qed

lemma len_field_64:
  "be_bytes 8 (unat (of_nat n :: u64)) = be_bytes 8 n" "le_bytes 8 (unat (of_nat n :: u64)) = le_bytes 8 n"
  by (simp_all add: be_bytes_def le_bytes_def unat_of_nat byte_mod_64)

lemma len_field_bits:
  "be_bytes 8 (8 * n) = be_bytes 8 (unat (8 * of_nat n :: u64))"
  "le_bytes 8 (8 * n) = le_bytes 8 (unat (8 * of_nat n :: u64))"
  using len_field_64 [of "8 * n"] by simp_all

text \<open>A 128-bit length field, for lengths below \<open>2 ^ 64\<close>.\<close>

lemma be_bytes_zeros: "n < 256 ^ m \<Longrightarrow> be_bytes (k + m) n = replicate k 0 @ be_bytes m n"
proof (induction k)
  case (Suc k)
  have "n < 256 ^ (k + m)" using Suc.prems by (meson le_add2 less_le_trans one_le_numeral power_increasing)
  with Suc show ?case by (simp add: be_bytes_def)
qed simp

lemma len_field_128:
  "n < 18446744073709551616 \<Longrightarrow> be_bytes 16 n = replicate 8 0 @ be_bytes 8 (unat (of_nat n :: u64))"
  using be_bytes_zeros [of n 8 8] by (simp add: len_field_64)

text \<open>A table filled from the left by a recurrence is the table of the recurrence.\<close>

lemma schedule_fill:
  assumes "xs = map w [0..<m]"
    and "\<And>i. m \<le> i \<Longrightarrow> g (map w [0..<i]) i = w i"
    and "m \<le> n"
  shows "foldl (\<lambda>W i. W @ [g W i]) xs [m..<n] = map w [0..<n]"
  using \<open>m \<le> n\<close>
proof (induction n rule: dec_induct)
  case base
  show ?case using assms(1) by simp
next
  case (step n)
  then show ?case by (simp add: assms(2))
qed

text \<open>\<open>_curlen * 8\<close> computed in 32 bits and then widened.\<close>

lemma bits_u32: "unat (n::u32) \<le> 4096 \<Longrightarrow> ucast (n * 8) = (of_nat (8 * unat n) :: u64)"
proof -
  assume "unat n \<le> 4096"
  then have "unat (n * 8) = 8 * unat n" by (simp add: unat_word_ariths)
  then show ?thesis by (metis of_nat_unat)
qed

lemma bits_u64: "unat (n::u32) \<le> 4096 \<Longrightarrow> ucast n * 8 = (of_nat (8 * unat n) :: u64)"
proof -
  have "(ucast n :: u64) = of_nat (unat n)" by simp
  then show ?thesis by (simp only: of_nat_mult of_nat_numeral mult.commute)
qed

lemma big_endian32:
  assumes "4 \<le> length (y :: u8 list)"
  shows "push_bit 24 (ucast (y ! 0)) OR push_bit 16 (ucast (y ! 1)) OR
         push_bit 8 (ucast (y ! 2)) OR push_bit 0 (ucast (y ! 3)) = (word_rcat (take 4 y) :: u32)"
proof (rule bit_word_eqI)
  fix n assume "n < LENGTH(32)"
  then obtain q r where n: "n = 8 * q + r" "q < 4" "r < 8"
    using split_bit_index [of n 4] by auto
  then show "bit (push_bit 24 (ucast (y ! 0)) OR push_bit 16 (ucast (y ! 1)) OR
      push_bit 8 (ucast (y ! 2)) OR push_bit 0 (ucast (y ! 3)) :: u32) n
    = bit (word_rcat (take 4 y) :: u32) n"
    using assms less_4_cases [OF n(2)] by (auto simp: bit_word_rcat bit_simps rev_nth)
qed

section \<open>Filling the buffer\<close>

lemma overwrite_rest:
  "i < length buf \<Longrightarrow> length buf = n \<Longrightarrow>
   overwrite (buf[i := b]) (Suc i) (replicate (n - Suc i) 0) = take i buf @ b # replicate (n - Suc i) 0"
  by (simp add: overwrite_def take_Suc_list_update)

lemma overwrite_front_tail:
  "length buf = n + length x \<Longrightarrow> overwrite (overwrite buf 0 (replicate n 0)) n x = replicate n 0 @ x"
  by (simp add: overwrite_def)

lemma md_zero_fill_eq:
  "md_curlen c \<le> n \<Longrightarrow> unat n \<le> length (md_buf c) \<Longrightarrow>
   md_zero_fill n c =
     c\<lparr>md_buf := overwrite (md_buf c) (unat (md_curlen c)) (replicate (unat n - unat (md_curlen c)) 0),
       md_curlen := n\<rparr>"
proof (induction n c rule: md_zero_fill.induct)
  case (1 n c)
  show ?case
  proof (cases "md_curlen c < n")
    case True
    let ?i = "unat (md_curlen c)"
    have i: "?i < unat n" using True by (simp add: word_less_nat_alt)
    have suc: "unat (md_curlen c + 1) = Suc ?i"
      using i unat_u32 [of n] by (simp add: unat_word_ariths)
    have le: "md_curlen (md_put 0 c) \<le> n"
      using i suc by (simp add: md_put_def word_le_nat_alt)
    have rep: "replicate (unat n - ?i) (0::u8) = 0 # replicate (unat n - Suc ?i) 0"
      using i by (simp flip: replicate_Suc add: Suc_diff_Suc)
    have "overwrite ((md_buf c)[?i := 0]) (Suc ?i) (replicate (unat n - Suc ?i) 0)
        = overwrite (md_buf c) ?i (replicate (unat n - ?i) 0)"
      using i "1.prems" by (simp add: overwrite_def rep take_Suc_list_update)
    with "1.IH" [OF True le] "1.prems" True show ?thesis
      by (subst md_zero_fill.simps) (simp add: md_put_def suc)
  next
    case False
    with "1.prems" have "md_curlen c = n" by simp
    with False show ?thesis
      by (subst md_zero_fill.simps) (simp add: overwrite_def)
  qed
qed

section \<open>The contract of a hash class\<close>

text \<open>
  What a class supplies: a block size, a position \<open>len_pos\<close> of the eight length bytes at the
  end of the block, a fill limit before it, and a length encoding of eight bytes.
\<close>

locale block_hash =
  fixes compress :: "'w compress" and block_size limit len_pos :: u32
    and cur_bits :: "u32 \<Rightarrow> u64"
    and store_len :: "u64 \<Rightarrow> u8 list" and store_word :: "'w \<Rightarrow> u8 list" and iv :: "'w list"
  assumes block_small: "unat block_size \<le> 4096"
    and limit_le: "unat limit \<le> unat len_pos"
    and len_pos_end: "unat len_pos + 8 = unat block_size"
    and length_store_len: "length (store_len l) = 8"
    and cur_bits_eq: "unat n \<le> 4096 \<Longrightarrow> cur_bits n = of_nat (8 * unat n)"
begin

abbreviation bs :: nat where "bs \<equiv> unat block_size"
abbreviation holds :: "'w md_ctx \<Rightarrow> u8 list \<Rightarrow> bool" where "holds \<equiv> md_holds compress bs iv"
abbreviation round_of :: "'w md_ctx \<Rightarrow> u8 list \<Rightarrow> u32 \<Rightarrow> 'w md_ctx \<times> u32" where
  "round_of \<equiv> md_round compress block_size"
abbreviation process_of :: "'w md_ctx \<Rightarrow> u8 list \<Rightarrow> u32 \<Rightarrow> 'w md_ctx option" where
  "process_of \<equiv> md_process compress block_size"

lemma bs_pos [simp]: "0 < bs"
  using len_pos_end by simp

lemma holds_curlen:
  assumes "holds c msg"
  shows "unat (md_curlen c) = length msg mod bs" "unat (md_curlen c) < bs"
proof -
  have "length msg mod bs < 4294967296"
    using mod_less_divisor [OF bs_pos, of "length msg"] block_small by linarith
  with assms show "unat (md_curlen c) = length msg mod bs"
    by (simp add: md_holds_def Let_def unat_of_nat)
  then show "unat (md_curlen c) < bs" by simp
qed

lemma unat_bits: "ucast (block_size * 8) = (of_nat (8 * bs) :: u64)"
  "ucast (8 * block_size) = (of_nat (8 * bs) :: u64)"
proof -
  have "unat (block_size * 8) = 8 * bs"
    using block_small by (simp add: unat_word_ariths)
  then show "ucast (block_size * 8) = (of_nat (8 * bs) :: u64)"
    by (metis of_nat_unat)
  then show "ucast (8 * block_size) = (of_nat (8 * bs) :: u64)"
    by (simp add: mult.commute)
qed

lemma holds_full_block:
  assumes h: "holds c msg" and z: "md_curlen c = 0" and b: "length b = bs"
  shows "holds (c\<lparr>md_state := compress (md_state c) b,
                  md_length := md_length c + ucast (block_size * 8)\<rparr>) (msg @ b)"
proof -
  have r: "length msg mod bs = 0"
    using holds_curlen [OF h] z by simp
  then have d: "bs dvd length msg" by auto
  show ?thesis
    using h r z b d md_iterate_append [OF bs_pos d, of compress iv b]
    by (simp add: md_holds_def Let_def unat_bits md_iterate_one mod_add_left_eq [symmetric]
        distrib_left add.commute)
qed

lemma holds_copy:
  assumes h: "holds c msg" and x: "length x = unat n" "unat (md_curlen c) + unat n < bs"
  shows "holds (c\<lparr>md_buf := overwrite (md_buf c) (unat (md_curlen c)) x,
                  md_curlen := md_curlen c + n\<rparr>) (msg @ x)"
proof -
  let ?r = "length msg mod bs"
  have r: "unat (md_curlen c) = ?r" by (rule holds_curlen [OF h])
  have n: "n = of_nat (length x)" using x by simp
  have m: "(length msg + length x) mod bs = ?r + length x"
    using x r by (metis mod_add_left_eq mod_less)
  have k: "length msg + length x - (?r + length x) = length msg - ?r" by simp
  have rl: "?r \<le> length (md_buf c)" using h by (simp add: md_holds_def Let_def)
  show ?thesis
    using h x r m rl
    by (simp add: md_holds_def Let_def n k length_overwrite take_overwrite)
qed

lemma holds_fill:
  assumes h: "holds c msg" and x: "length x = unat n" "unat (md_curlen c) + unat n = bs"
  shows "holds (c\<lparr>md_buf := overwrite (md_buf c) (unat (md_curlen c)) x,
                  md_state := compress (md_state c) (overwrite (md_buf c) (unat (md_curlen c)) x),
                  md_length := md_length c + ucast (8 * block_size), md_curlen := 0\<rparr>) (msg @ x)"
proof -
  let ?r = "length msg mod bs"
  have r: "unat (md_curlen c) = ?r" by (rule holds_curlen [OF h])
  have rx: "?r + length x = bs" using x r by simp
  have k: "length msg - ?r + bs = length msg + length x" using rx by simp
  have dk: "bs dvd length msg - ?r" by (rule dvd_minus_mod)
  have m: "(length msg + length x) mod bs = 0"
    using dk by (metis k dvd_add_triv_right_iff mod_0_imp_dvd dvd_imp_mod_0)
  let ?b = "drop (length msg - ?r) msg @ x"
  have buf: "overwrite (md_buf c) ?r x = ?b"
    using h rx by (simp add: md_holds_def Let_def overwrite_tail)
  have b: "length ?b = bs" using rx by simp
  have st: "md_iterate compress bs iv (msg @ x) = compress (md_state c) ?b"
  proof -
    have "md_iterate compress bs iv (msg @ x)
        = md_iterate compress bs iv (take (length msg - ?r) msg @ ?b)"
      by (simp flip: append_assoc)
    also have "\<dots> = compress (md_iterate compress bs iv (take (length msg - ?r) msg)) ?b"
      using md_iterate_append [OF bs_pos, of "take (length msg - ?r) msg" compress iv ?b] dk b
      by (simp add: md_iterate_one)
    finally show ?thesis using h by (simp add: md_holds_def Let_def)
  qed
  have len: "md_length c + ucast (8 * block_size) = of_nat (8 * (length msg + length x))"
  proof -
    have "md_length c + ucast (8 * block_size) = of_nat (8 * (length msg - ?r)) + of_nat (8 * bs)"
      using h by (simp only: md_holds_def Let_def unat_bits)
    also have "\<dots> = of_nat (8 * (length msg - ?r + bs))" by (simp only: distrib_left of_nat_add)
    finally show ?thesis by (simp only: k)
  qed
  show ?thesis
    unfolding r buf using m st b len by (simp add: md_holds_def)
qed

lemma round_holds:
  assumes h: "holds c msg" and sz: "0 < sz" "unat sz \<le> length inp"
  shows "holds (fst (round_of c inp sz)) (msg @ take (unat (snd (round_of c inp sz))) inp)"
    and "0 < snd (round_of c inp sz)" and "snd (round_of c inp sz) \<le> sz"
proof -
  have cl: "unat (md_curlen c) < bs" by (rule holds_curlen [OF h])
  define n where "n = min32 sz (block_size - md_curlen c)"
  have room: "unat (block_size - md_curlen c) = bs - unat (md_curlen c)"
    using cl by (simp add: unat_sub word_le_nat_alt)
  have un: "unat n = min (unat sz) (bs - unat (md_curlen c))"
    by (auto simp: n_def min32_def word_less_nat_alt room)
  have npos: "0 < n" and nle: "n \<le> sz"
    using sz cl un by (auto simp: word_less_nat_alt word_le_nat_alt)
  have len: "length (take (unat n) inp) = unat n" using un sz by simp
  have sum: "unat (md_curlen c + n) = unat (md_curlen c) + unat n"
    using un cl block_small by (simp add: unat_word_ariths)
  have goal: "holds (fst (round_of c inp sz)) (msg @ take (unat (snd (round_of c inp sz))) inp)
      \<and> 0 < snd (round_of c inp sz) \<and> snd (round_of c inp sz) \<le> sz"
  proof (cases "md_curlen c = 0 \<and> block_size \<le> sz")
    case True
    with sz have "length (take bs inp) = bs" by (simp add: word_le_nat_alt)
    with True holds_full_block [OF h] show ?thesis
      by (simp add: md_round_def word_less_nat_alt)
  next
    case no_block: False
    have full: "md_curlen c + n = block_size \<longleftrightarrow> unat (md_curlen c) + unat n = bs"
      by (simp add: word_unat_eq_iff sum)
    show ?thesis
    proof (cases "md_curlen c + n = block_size")
      case True
      with no_block full holds_fill [OF h len] npos nle show ?thesis
        by (auto simp: md_round_def Let_def n_def [symmetric])
    next
      case False
      with full un cl have "unat (md_curlen c) + unat n < bs" by simp
      with no_block False holds_copy [OF h len] npos nle show ?thesis
        by (auto simp: md_round_def Let_def n_def [symmetric])
    qed
  qed
  then show "holds (fst (round_of c inp sz)) (msg @ take (unat (snd (round_of c inp sz))) inp)"
    and "0 < snd (round_of c inp sz)" and "snd (round_of c inp sz) \<le> sz" by auto
qed

text \<open>The loop returns on every reachable state, and takes in exactly the given bytes.\<close>

lemma process_holds:
  assumes "holds c msg" and "unat sz \<le> length inp"
  shows "\<exists>c'. process_of c inp sz = Some c' \<and> holds c' (msg @ take (unat sz) inp)"
  using assms
proof (induction "unat sz" arbitrary: c msg inp sz rule: less_induct)
  case less
  show ?case
  proof (cases "sz = 0")
    case True
    with less.prems show ?thesis by (subst md_process.simps) simp
  next
    case False
    then have pos: "0 < sz" by (simp add: word_neq_0_conv)
    let ?n = "snd (round_of c inp sz)"
    note rd = round_holds [OF less.prems(1) pos less.prems(2)]
    have sub: "unat (sz - ?n) = unat sz - unat ?n" using rd(3) by (rule unat_sub)
    have nz: "unat ?n \<le> unat sz" "0 < unat ?n"
      using rd by (simp_all add: word_le_nat_alt word_less_nat_alt)
    then have lt: "unat (sz - ?n) < unat sz" by (simp add: sub)
    have room: "unat (sz - ?n) \<le> length (drop (unat ?n) inp)"
      using less.prems(2) by (simp add: sub)
    have join: "take (unat ?n) inp @ take (unat (sz - ?n)) (drop (unat ?n) inp) = take (unat sz) inp"
      using nz by (simp add: sub flip: take_add)
    from less.hyps [OF lt rd(1) room] pos show ?thesis
      by (subst md_process.simps) (simp add: join)
  qed
qed

lemma holds_bits:
  assumes "holds c msg"
  shows "md_length c + cur_bits (md_curlen c) = of_nat (8 * length msg)"
proof -
  let ?r = "length msg mod bs"
  have r: "unat (md_curlen c) = ?r" "?r < bs" using holds_curlen [OF assms] by auto
  then have "unat (md_curlen c) \<le> 4096" using block_small by linarith
  then have "cur_bits (md_curlen c) = of_nat (8 * unat (md_curlen c))" by (rule cur_bits_eq)
  then have "cur_bits (md_curlen c) = of_nat (8 * ?r)" unfolding r(1) .
  then have "md_length c + cur_bits (md_curlen c) = of_nat (8 * (length msg - ?r) + 8 * ?r)"
    using assms by (simp only: md_holds_def Let_def of_nat_add)
  then show ?thesis by (simp flip: distrib_left)
qed

text \<open>The state after \<open>finalize\<close> has absorbed the padded message, and the output is its encoding.\<close>

lemma finalize_spec:
  assumes h: "holds c msg"
  shows "snd (md_finalize compress block_size limit len_pos cur_bits store_len store_word c)
       = md_spec compress bs (unat limit) (unat len_pos) store_len store_word iv msg"
proof -
  let ?r = "length msg mod bs" and ?lim = "unat limit" and ?pos = "unat len_pos"
  let ?k = "length msg - ?r" and ?st = "store_len (of_nat (8 * length msg))"
  let ?b0 = "take ?k msg" and ?rest = "drop ?k msg"
  have r: "unat (md_curlen c) = ?r" "?r < bs" using holds_curlen [OF h] by auto
  have buf: "length (md_buf c) = bs" "take ?r (md_buf c) = ?rest"
    and st: "md_state c = md_iterate compress bs iv ?b0"
    using h by (auto simp: md_holds_def Let_def)
  have dk: "bs dvd length ?b0" by (simp add: dvd_minus_mod)
  have "?r < 4096" using r block_small by linarith
  then have suc: "unat (md_curlen c + 1) = Suc ?r"
    using r by (simp add: unat_word_ariths)
  have pos: "?lim \<le> ?pos" "?pos + 8 = bs" using limit_le len_pos_end by auto
  have posle: "len_pos \<le> block_size" using pos by (simp add: word_le_nat_alt)
  have limb: "limit < md_curlen c + 1 \<longleftrightarrow> ?lim < Suc ?r" by (simp add: word_less_nat_alt suc)
  have lenrest: "length ?rest = ?r" by simp
  have split: "md_pad bs ?lim ?pos store_len msg = ?b0 @ ?rest @ [0x80]
      @ replicate ((?lim + bs - 1 - ?r) mod bs) 0 @ replicate (?pos - ?lim) 0 @ ?st"
    by (simp add: md_pad_def flip: append_assoc)
  show ?thesis
  proof (cases "?lim < Suc ?r")
    case False
    then have rl: "Suc ?r \<le> ?lim" by simp
    let ?last = "?rest @ [0x80] @ replicate (?pos - Suc ?r) 0 @ ?st"
    have z: "(?lim + bs - 1 - ?r) mod bs = ?lim - Suc ?r"
    proof -
      have "?lim + bs - 1 - ?r = bs + (?lim - Suc ?r)" using rl by simp
      moreover have "?lim - Suc ?r < bs" using pos by simp
      ultimately show ?thesis by (simp only: mod_add_self1 mod_less)
    qed
    have zz: "replicate (?lim - Suc ?r) (0::u8) @ replicate (?pos - ?lim) 0 = replicate (?pos - Suc ?r) 0"
      using rl pos by (simp flip: replicate_add)
    have len: "length ?last = bs" using rl pos by (simp add: length_store_len lenrest)
    have pad: "md_pad bs ?lim ?pos store_len msg = ?b0 @ ?last"
      unfolding split z by (simp flip: zz)
    have pr: "?pos - ?r = Suc (?pos - Suc ?r)" using rl pos by simp
    have "md_curlen c + 1 \<le> len_pos" using rl pos by (simp add: word_le_nat_alt suc)
    then have "snd (md_finalize compress block_size limit len_pos cur_bits store_len store_word c)
        = concat (map store_word (compress (md_state c) ?last))"
      using False limb holds_bits [OF h] buf r pos rl
      by (simp add: md_finalize_def Let_def md_put_def md_zero_fill_eq suc pr take_Suc_list_update
          overwrite_def length_store_len)
    also have "compress (md_state c) ?last
        = md_iterate compress bs iv (md_pad bs ?lim ?pos store_len msg)"
      unfolding pad st by (rule md_iterate_snoc [OF bs_pos dk len, symmetric])
    finally show ?thesis by (simp add: md_spec_def)
  next
    case True
    let ?l1 = "?rest @ [0x80] @ replicate (bs - Suc ?r) 0"
    let ?l2 = "replicate ?pos 0 @ ?st"
    have z: "(?lim + bs - 1 - ?r) mod bs = (bs - Suc ?r) + ?lim"
    proof -
      have "?lim + bs - 1 - ?r = (bs - Suc ?r) + ?lim" using r(2) by arith
      moreover have "(bs - Suc ?r) + ?lim < bs" using True r(2) by arith
      ultimately show ?thesis by simp
    qed
    have rb: "Suc (?r + (bs - Suc ?r)) = bs" using r(2) by arith
    have len: "length ?l1 = bs" "length ?l2 = bs"
      using rb pos by (simp_all add: length_store_len lenrest)
    have pad: "md_pad bs ?lim ?pos store_len msg = ?b0 @ ?l1 @ ?l2"
      unfolding split z using pos by (simp add: replicate_add flip: replicate_add [of ?lim "?pos - ?lim"])
    have le: "md_curlen c + 1 \<le> block_size" using r(2) by (simp add: word_le_nat_alt suc Suc_le_eq)
    have "snd (md_finalize compress block_size limit len_pos cur_bits store_len store_word c)
        = concat (map store_word (compress (compress (md_state c) ?l1) ?l2))"
      using True limb le holds_bits [OF h] buf r(1) rb pos
      by (simp add: md_finalize_def Let_def md_put_def md_zero_fill_eq suc overwrite_rest
          overwrite_front_tail length_store_len)
    also have "compress (compress (md_state c) ?l1) ?l2
        = md_iterate compress bs iv (md_pad bs ?lim ?pos store_len msg)"
      unfolding pad st by (rule md_iterate_snoc2 [OF bs_pos dk len, symmetric])
    finally show ?thesis by (simp add: md_spec_def)
  qed
qed

lemma init_holds: "length junk = bs \<Longrightarrow> holds (md_init iv junk) []"
  by (simp add: md_holds_def md_init_def md_iterate_def)

lemma process_str_holds:
  assumes "holds c msg"
  shows "\<exists>c'. md_process_str compress block_size c x = Some c' \<and> holds c' (msg @ fed x)"
proof -
  have "unat (of_nat (length x) :: u32) = length x mod 4294967296"
    by (simp add: unat_of_nat)
  with process_holds [OF assms, of "of_nat (length x)" x] show ?thesis
    by (simp add: md_process_str_def fed_def)
qed

lemma feed_holds:
  assumes "holds c msg"
  shows "\<exists>c'. md_feed (md_process_str compress block_size) c xs = Some c'
           \<and> holds c' (msg @ concat (map fed xs))"
  using assms
proof (induction xs arbitrary: c msg)
  case Nil
  then show ?case by simp
next
  case (Cons x xs)
  from process_str_holds [OF Cons.prems, of x] obtain c1
    where c1: "md_process_str compress block_size c x = Some c1" "holds c1 (msg @ fed x)" by blast
  from Cons.IH [OF c1(2)] c1(1) show ?case by auto
qed

text \<open>
  The contract a client sees: however the message is cut into calls, and whatever the buffer
  held, the digest is the specification's on the whole message.
\<close>

lemma feed_finalize:
  assumes "length junk = bs"
  shows "map_option (\<lambda>c. snd (md_finalize compress block_size limit len_pos cur_bits store_len store_word c))
           (md_feed (md_process_str compress block_size) (md_init iv junk) xs)
       = Some (md_spec compress bs (unat limit) (unat len_pos) store_len store_word iv
                 (concat (map fed xs)))"
  using feed_holds [OF init_holds [OF assms], of xs] finalize_spec by auto

lemma process_finalize:
  assumes "length junk = bs" "unat sz \<le> length data"
  shows "map_option (\<lambda>c. snd (md_finalize compress block_size limit len_pos cur_bits store_len store_word c))
           (md_process compress block_size (md_init iv junk) data sz)
       = Some (md_spec compress bs (unat limit) (unat len_pos) store_len store_word iv (take (unat sz) data))"
  using process_holds [OF init_holds [OF assms(1)] assms(2)] finalize_spec by auto

end

end
