(* ===== verification/Bit_Math.thy ===== *)
theory Bit_Math
  imports Prelude
begin

text \<open>
  The header-only bit routines of \<open>abel/base/math\<close>, in their portable versions (on GCC, Clang and
  MSVC several of them are replaced by compiler builtins or inline assembly, which are not code
  of the repository).
\<close>

section \<open>Rotation: rol.h and ror.h\<close>

definition rol32_generic :: "u32 \<Rightarrow> u32 \<Rightarrow> u32" where
  "rol32_generic x i =
     push_bit (unat (i AND 31)) x OR drop_bit (unat ((32 - (i AND 31)) AND 31)) x"

definition rol64_generic :: "u64 \<Rightarrow> u32 \<Rightarrow> u64" where
  "rol64_generic x i =
     push_bit (unat (i AND 63)) x OR drop_bit (unat ((64 - (i AND 63)) AND 63)) x"

definition ror32_generic :: "u32 \<Rightarrow> u32 \<Rightarrow> u32" where
  "ror32_generic x i =
     drop_bit (unat (i AND 31)) x OR push_bit (unat ((32 - (i AND 31)) AND 31)) x"

definition ror64_generic :: "u64 \<Rightarrow> u32 \<Rightarrow> u64" where
  "ror64_generic x i =
     drop_bit (unat (i AND 63)) x OR push_bit (unat ((64 - (i AND 63)) AND 63)) x"

lemma unat_and_mask:
  "unat (i AND 31 :: u32) = unat i mod 32" "unat (i AND 63 :: u32) = unat i mod 64"
proof -
  have "i AND 31 = take_bit 5 i" "i AND 63 = take_bit 6 i"
    by (simp_all add: take_bit_eq_mask mask_eq_exp_minus_1)
  then show "unat (i AND 31) = unat i mod 32" "unat (i AND 63) = unat i mod 64"
    by (simp_all add: unsigned_take_bit_eq take_bit_eq_mod unat_mod_distrib)
qed

lemma rot_counterpart:
  "unat ((32 - (i AND 31)) AND 31 :: u32) = (32 - unat i mod 32) mod 32"
  "unat ((64 - (i AND 63)) AND 63 :: u32) = (64 - unat i mod 64) mod 64"
proof -
  have "i AND 31 \<le> 32" "i AND 63 \<le> 64"
    by (simp_all add: word_le_nat_alt unat_and_mask less_imp_le)
  then have "unat (32 - (i AND 31)) = 32 - unat i mod 32" "unat (64 - (i AND 63)) = 64 - unat i mod 64"
    by (simp_all add: unat_sub unat_and_mask)
  then show "unat ((32 - (i AND 31)) AND 31 :: u32) = (32 - unat i mod 32) mod 32"
    "unat ((64 - (i AND 63)) AND 63 :: u32) = (64 - unat i mod 64) mod 64"
    by (simp_all add: unat_and_mask)
qed

lemma or_rotl:
  assumes "n < LENGTH('a)"
  shows "push_bit n x OR drop_bit ((LENGTH('a) - n) mod LENGTH('a)) x = word_rotl n (x :: 'a::len word)"
proof (rule bit_word_eqI)
  fix k assume "k < LENGTH('a)"
  then show "bit (push_bit n x OR drop_bit ((LENGTH('a) - n) mod LENGTH('a)) x) k
      = bit (word_rotl n x) k"
    using assms
    by (cases "n = 0"; cases "k < n") (auto simp: bit_word_rotl_iff bit_simps mod_if add.commute dest: bit_imp_le_length)
qed

lemma or_rotr:
  assumes "n < LENGTH('a)"
  shows "drop_bit n x OR push_bit ((LENGTH('a) - n) mod LENGTH('a)) x = word_rotr n (x :: 'a::len word)"
proof (rule bit_word_eqI)
  fix k assume "k < LENGTH('a)"
  then show "bit (drop_bit n x OR push_bit ((LENGTH('a) - n) mod LENGTH('a)) x) k
      = bit (word_rotr n x) k"
    using assms
    by (cases "n = 0"; cases "k < LENGTH('a) - n") (auto simp: bit_word_rotr_iff bit_simps mod_if add.commute dest: bit_imp_le_length)
qed

lemma rol32_generic_eq: "rol32_generic x i = word_rotl (unat i mod 32) x"
  using or_rotl [of "unat i mod 32" x] 
  unfolding rol32_generic_def rot_counterpart by (simp add: unat_and_mask)

lemma rol64_generic_eq: "rol64_generic x i = word_rotl (unat i mod 64) x"
  using or_rotl [of "unat i mod 64" x] 
  unfolding rol64_generic_def rot_counterpart by (simp add: unat_and_mask)

lemma ror32_generic_eq: "ror32_generic x i = word_rotr (unat i mod 32) x"
  using or_rotr [of "unat i mod 32" x] 
  unfolding ror32_generic_def rot_counterpart by (simp add: unat_and_mask)

lemma ror64_generic_eq: "ror64_generic x i = word_rotr (unat i mod 64) x"
  using or_rotr [of "unat i mod 64" x] 
  unfolding ror64_generic_def rot_counterpart by (simp add: unat_and_mask)

text \<open>Rotation by a literal.\<close>

lemma rotate_lit:
  "n < 32 \<Longrightarrow> rol32_generic x (of_nat n) = word_rotl n x"
  "n < 32 \<Longrightarrow> ror32_generic x (of_nat n) = word_rotr n x"
  "n < 64 \<Longrightarrow> ror64_generic y (of_nat n) = word_rotr n y"
  by (simp_all add: rol32_generic_eq ror32_generic_eq ror64_generic_eq unat_of_nat_u32)

end
