(* ===== verification/Hex_Dump.thy ===== *)
theory Hex_Dump
  imports Prelude
begin

text \<open>
  \<open>abel/strings/hex_dump.cc\<close>: upper- and lower-case hexadecimal printing of a byte range, the
  C source printer, and the parser, which throws on a bad digit or an odd length.
\<close>

section \<open>Printers\<close>

definition xdigits_uc :: string where "xdigits_uc = ''0123456789ABCDEF''"
definition xdigits_lc :: string where "xdigits_lc = ''0123456789abcdef''"

definition hex_pair :: "string \<Rightarrow> u8 \<Rightarrow> string" where
  "hex_pair xdigits c =
     [xdigits ! unat (drop_bit 4 (c AND 0xF0)), xdigits ! unat (c AND 0x0F)]"

fun hex_dump :: "u8 list \<Rightarrow> string" where
  "hex_dump [] = []"
| "hex_dump (c # cs) = hex_pair xdigits_uc c @ hex_dump cs"

fun hex_dump_lc :: "u8 list \<Rightarrow> string" where
  "hex_dump_lc [] = []"
| "hex_dump_lc (c # cs) = hex_pair xdigits_lc c @ hex_dump_lc cs"

definition hex_dump_str :: "string \<Rightarrow> string" where
  "hex_dump_str str = hex_dump (map byte_of str)"

definition hex_dump_lc_str :: "string \<Rightarrow> string" where
  "hex_dump_lc_str str = hex_dump_lc (map byte_of str)"

text \<open>The loop of \<open>hex_dump_sourcecode\<close>, with its counter \<open>ci\<close> and the total size.\<close>

fun sourcecode_loop :: "nat \<Rightarrow> nat \<Rightarrow> u8 list \<Rightarrow> string" where
  "sourcecode_loop n ci [] = []"
| "sourcecode_loop n ci (c # cs) =
     ''0x'' @ hex_pair xdigits_uc c @
     (if ci + 1 < n then '','' @ (if ci mod 16 = 16 - 1 then [CHR 0x0A] else []) else []) @
     sourcecode_loop n (ci + 1) cs"

definition hex_dump_sourcecode :: "string \<Rightarrow> string \<Rightarrow> string" where
  "hex_dump_sourcecode str var_name =
     ''const uint8_t '' @ var_name @ ''['' @ dec_digits (length str) @ ''] = {'' @ [CHR 0x0A] @
     sourcecode_loop (length str) 0 (map byte_of str) @ [CHR 0x0A] @ ''};'' @ [CHR 0x0A]"

section \<open>The parser\<close>

definition hex_error :: "runtime_error" where
  "hex_error = Runtime_error ''Invalid string for hex conversion''"

text \<open>The two \<open>switch\<close> statements, for the first and the second digit of a pair.\<close>

definition parse_hi :: "char \<Rightarrow> u8 option" where
  "parse_hi = map_of
     [(CHR ''0'', 0x00), (CHR ''1'', 0x10), (CHR ''2'', 0x20), (CHR ''3'', 0x30),
      (CHR ''4'', 0x40), (CHR ''5'', 0x50), (CHR ''6'', 0x60), (CHR ''7'', 0x70),
      (CHR ''8'', 0x80), (CHR ''9'', 0x90), (CHR ''A'', 0xA0), (CHR ''a'', 0xA0),
      (CHR ''B'', 0xB0), (CHR ''b'', 0xB0), (CHR ''C'', 0xC0), (CHR ''c'', 0xC0),
      (CHR ''D'', 0xD0), (CHR ''d'', 0xD0), (CHR ''E'', 0xE0), (CHR ''e'', 0xE0),
      (CHR ''F'', 0xF0), (CHR ''f'', 0xF0)]"

definition parse_lo :: "char \<Rightarrow> u8 option" where
  "parse_lo = map_of
     [(CHR ''0'', 0x00), (CHR ''1'', 0x01), (CHR ''2'', 0x02), (CHR ''3'', 0x03),
      (CHR ''4'', 0x04), (CHR ''5'', 0x05), (CHR ''6'', 0x06), (CHR ''7'', 0x07),
      (CHR ''8'', 0x08), (CHR ''9'', 0x09), (CHR ''A'', 0x0A), (CHR ''a'', 0x0A),
      (CHR ''B'', 0x0B), (CHR ''b'', 0x0B), (CHR ''C'', 0x0C), (CHR ''c'', 0x0C),
      (CHR ''D'', 0x0D), (CHR ''d'', 0x0D), (CHR ''E'', 0x0E), (CHR ''e'', 0x0E),
      (CHR ''F'', 0x0F), (CHR ''f'', 0x0F)]"

text \<open>
  The loop over the string: a pair gives the byte \<open>hi | lo\<close>; a bad first digit, a string that
  ends after it, and a bad second digit throw, in this order.
\<close>

fun parse_hex_dump :: "string \<Rightarrow> runtime_error + string" where
  "parse_hex_dump [] = Inr []"
| "parse_hex_dump [a] = Inl hex_error"
| "parse_hex_dump (a # b # s) =
     (case parse_hi a of None \<Rightarrow> Inl hex_error
      | Some hi \<Rightarrow>
        (case parse_lo b of None \<Rightarrow> Inl hex_error
         | Some lo \<Rightarrow>
           (case parse_hex_dump s of Inl e \<Rightarrow> Inl e
            | Inr out \<Rightarrow> Inr (char_of_byte (hi OR lo) # out))))"

section \<open>Round trips\<close>

lemma nibbles:
  "drop_bit 4 (c AND 0xF0) = drop_bit 4 (c :: u8)" "(c AND 0x0F) = take_bit 4 (c :: u8)"
proof -
  have hi: "(0xF0 :: u8) = push_bit 4 (mask 4)" and lo: "(0x0F :: u8) = mask 4"
    by (simp_all add: mask_eq_exp_minus_1)
  have "n < 4" if "bit c (4 + n)" for n using bit_imp_le_length [OF that] by simp
  then show "drop_bit 4 (c AND 0xF0) = drop_bit 4 c" "(c AND 0x0F) = take_bit 4 c"
    unfolding hi lo by (auto intro!: bit_word_eqI simp: bit_simps)
qed

lemma parse_digit:
  assumes "n < 16"
  shows "parse_hi (xdigits_uc ! n) = Some (of_nat (16 * n))" "parse_lo (xdigits_uc ! n) = Some (of_nat n)"
    "parse_hi (xdigits_lc ! n) = Some (of_nat (16 * n))" "parse_lo (xdigits_lc ! n) = Some (of_nat n)"
proof -
  have "list_all (\<lambda>n. parse_hi (xdigits_uc ! n) = Some (of_nat (16 * n)) \<and> parse_lo (xdigits_uc ! n) = Some (of_nat n)
      \<and> parse_hi (xdigits_lc ! n) = Some (of_nat (16 * n)) \<and> parse_lo (xdigits_lc ! n) = Some (of_nat n)) [0..<16]"
    by code_simp
  from list_all_upt [OF this assms]
  show "parse_hi (xdigits_uc ! n) = Some (of_nat (16 * n))" "parse_lo (xdigits_uc ! n) = Some (of_nat n)"
    "parse_hi (xdigits_lc ! n) = Some (of_nat (16 * n))" "parse_lo (xdigits_lc ! n) = Some (of_nat n)"
    by blast+
qed

lemma parse_hex_pair:
  assumes "ds = xdigits_uc \<or> ds = xdigits_lc"
  shows "parse_hex_dump (hex_pair ds c @ s) =
    (case parse_hex_dump s of Inl e \<Rightarrow> Inl e | Inr out \<Rightarrow> Inr (char_of_byte c # out))"
proof -
  let ?h = "unat (drop_bit 4 (c AND 0xF0))" and ?l = "unat (c AND 0x0F)"
  have h: "?h = unat c div 16" and l: "?l = unat c mod 16"
    by (simp_all only: nibbles unsigned_drop_bit_eq unsigned_take_bit_eq)
      (simp_all add: drop_bit_eq_div take_bit_eq_mod unat_u8)
  have lt: "unat c div 16 < 16" "unat c mod 16 < 16" using unat_u8 [of c] by auto
  have join: "of_nat (16 * (unat c div 16)) OR of_nat (unat c mod 16) = c"
  proof -
    have "of_nat (16 * (unat c div 16)) = push_bit 4 (drop_bit 4 c)"
      by (simp add: push_bit_eq_mult word_unat_eq_iff unsigned_drop_bit_eq drop_bit_eq_div
          unat_word_ariths unat_of_nat mult.commute)
    moreover have "of_nat (unat c mod 16) = take_bit 4 c"
      by (simp add: word_unat_eq_iff take_bit_eq_mod unat_of_nat unat_mod_distrib)
    ultimately show ?thesis
      by (auto intro!: bit_word_eqI simp: bit_simps)
  qed
  have pair: "hex_pair ds c = [ds ! (unat c div 16), ds ! (unat c mod 16)]"
    unfolding hex_pair_def h l ..
  from assms have "parse_hi (ds ! (unat c div 16)) = Some (of_nat (16 * (unat c div 16)))"
    "parse_lo (ds ! (unat c mod 16)) = Some (of_nat (unat c mod 16))"
    using parse_digit [OF lt(1)] parse_digit [OF lt(2)] by auto
  then show ?thesis
    unfolding pair by (simp only: append_Cons append_Nil parse_hex_dump.simps option.case join)
qed

lemma parse_hex_dump_bytes:
  "parse_hex_dump (hex_dump bs) = Inr (map char_of_byte bs)"
  "parse_hex_dump (hex_dump_lc bs) = Inr (map char_of_byte bs)"
  by (induction bs) (simp_all add: parse_hex_pair)

section \<open>What the parser accepts\<close>

definition is_xdigit :: "char \<Rightarrow> bool" where
  "is_xdigit c \<longleftrightarrow> c \<in> set xdigits_uc \<or> c \<in> set xdigits_lc"

definition to_lower :: "char \<Rightarrow> char" where
  "to_lower c = (if 65 \<le> (of_char c :: nat) \<and> of_char c \<le> (90::nat) then char_of (of_char c + (32::nat)) else c)"

lemma parse_digit_complete:
  assumes "is_xdigit c"
  obtains n where "n < 16" "parse_hi c = Some (of_nat (16 * n))" "parse_lo c = Some (of_nat n)"
    "to_lower c = xdigits_lc ! n"
proof -
  have "set xdigits_uc \<union> set xdigits_lc = (\<lambda>n. xdigits_uc ! n) ` {..<16} \<union> (\<lambda>n. xdigits_lc ! n) ` {..<16}"
    by (force simp: set_conv_nth xdigits_uc_def xdigits_lc_def)
  with assms obtain n where n: "n < 16" "c = xdigits_uc ! n \<or> c = xdigits_lc ! n"
    unfolding is_xdigit_def by blast
  have "list_all (\<lambda>n. to_lower (xdigits_uc ! n) = xdigits_lc ! n \<and> to_lower (xdigits_lc ! n) = xdigits_lc ! n) [0..<16]"
    by code_simp
  note low = list_all_upt [OF this n(1)]
  with that [OF n(1)] parse_digit [OF n(1)] n(2) low show thesis by auto
qed

lemma parse_digit_None: "\<not> is_xdigit c \<Longrightarrow> parse_hi c = None \<and> parse_lo c = None"
  by (simp add: is_xdigit_def parse_hi_def parse_lo_def xdigits_uc_def xdigits_lc_def)

lemma parse_pair_digits:
  assumes "is_xdigit a" "is_xdigit b"
  obtains c where "hex_pair xdigits_lc c = [to_lower a, to_lower b]"
    "\<And>s. parse_hex_dump (a # b # s) = parse_hex_dump (hex_pair xdigits_lc c @ s)"
proof -
  obtain m where m: "m < 16" "parse_hi a = Some (of_nat (16 * m))" "to_lower a = xdigits_lc ! m"
    using parse_digit_complete [OF assms(1)] by metis
  obtain n where n: "n < 16" "parse_lo b = Some (of_nat n)" "to_lower b = xdigits_lc ! n"
    using parse_digit_complete [OF assms(2)] by metis
  define c :: u8 where "c = of_nat (16 * m + n)"
  have "unat c = 16 * m + n"
    using m(1) n(1) unfolding c_def by (simp only: unat_of_nat) simp
  then have "unat c div 16 = m" "unat c mod 16 = n" using n(1) by auto
  moreover have "unat (drop_bit 4 (c AND 0xF0)) = unat c div 16" "unat (c AND 0x0F) = unat c mod 16"
    by (simp_all only: nibbles unsigned_drop_bit_eq unsigned_take_bit_eq)
      (simp_all add: drop_bit_eq_div take_bit_eq_mod unat_u8)
  ultimately have "hex_pair xdigits_lc c = [xdigits_lc ! m, xdigits_lc ! n]"
    by (simp only: hex_pair_def)
  then show thesis
    using that [of c] m n parse_digit(3) [OF m(1)] parse_digit(4) [OF n(1)] by simp
qed

lemma parse_hex_dump_digits:
  "even (length s) \<Longrightarrow> list_all is_xdigit s \<Longrightarrow>
   \<exists>out. parse_hex_dump s = Inr out \<and> hex_dump_lc_str out = map to_lower s"
proof (induction s rule: parse_hex_dump.induct)
  case (3 a b s)
  then have d: "is_xdigit a" "is_xdigit b" by simp_all
  obtain c where c: "hex_pair xdigits_lc c = [to_lower a, to_lower b]"
    "parse_hex_dump (a # b # s) = parse_hex_dump (hex_pair xdigits_lc c @ s)"
    using parse_pair_digits [OF d] by metis
  obtain hi lo where "parse_hi a = Some hi" "parse_lo b = Some lo"
    using parse_digit_complete [OF d(1)] parse_digit_complete [OF d(2)] by metis
  with 3 obtain out where "parse_hex_dump s = Inr out" "hex_dump_lc_str out = map to_lower s"
    by auto
  with parse_hex_pair [of xdigits_lc c s]
  have "parse_hex_dump (hex_pair xdigits_lc c @ s) = Inr (char_of_byte c # out)"
    "hex_dump_lc_str (char_of_byte c # out) = hex_pair xdigits_lc c @ map to_lower s"
    by (simp_all add: hex_dump_lc_str_def)
  then show ?case unfolding c(2) by (simp add: c(1))
qed (auto simp: hex_dump_lc_str_def)

lemma parse_hex_dump_rejects:
  "\<not> (even (length s) \<and> list_all is_xdigit s) \<Longrightarrow> parse_hex_dump s = Inl hex_error"
proof (induction s rule: parse_hex_dump.induct)
  case (3 a b s)
  then show ?case
    by (cases "is_xdigit a"; cases "is_xdigit b")
      (auto dest: parse_digit_None split: option.split)
qed auto

lemma parse_hex_dump_str:
  "parse_hex_dump (hex_dump_str s) = Inr s" "parse_hex_dump (hex_dump_lc_str s) = Inr s"
  by (simp_all add: hex_dump_str_def hex_dump_lc_str_def parse_hex_dump_bytes comp_def)

text \<open>
  The parser inverts both printers, on every byte string.
\<close>

theorem hex_roundtrip:
  "parse_hex_dump (hex_dump_str s) = Inr s \<and> parse_hex_dump (hex_dump_lc_str s) = Inr s"
  by (simp add: parse_hex_dump_str)

text \<open>
  C37. \<open>parse_hex_dump\<close> gives \<open>out\<close> exactly on the strings of even length and hexadecimal digits
  that spell \<open>out\<close>, in either case; it throws its one error exactly on the other strings.
\<close>

theorem parse_hex_dump_accepts:
  "(parse_hex_dump s = Inr out \<longleftrightarrow>
      even (length s) \<and> list_all is_xdigit s \<and> hex_dump_lc_str out = map to_lower s) \<and>
   (parse_hex_dump s = Inl e \<longleftrightarrow>
      e = hex_error \<and> \<not> (even (length s) \<and> list_all is_xdigit s))"
proof (cases "even (length s) \<and> list_all is_xdigit s")
  case True
  then obtain o' where o': "parse_hex_dump s = Inr o'" "hex_dump_lc_str o' = map to_lower s"
    using parse_hex_dump_digits by blast
  have "hex_dump_lc_str out = hex_dump_lc_str o' \<longleftrightarrow> out = o'"
    using parse_hex_dump_str(2) by (metis sum.inject(2))
  with True o' show ?thesis by auto
next
  case False
  with parse_hex_dump_rejects [OF False] show ?thesis by auto
qed

end
