(* ===== verification/Md5.thy ===== *)
theory Md5
  imports Digest_Stream Bit_Math Hex_Dump
begin

text \<open>
  \<open>abel/digest/md5.cc\<close>: the class \<open>MD5\<close> and its compression function, proved equal to the MD5 of
  RFC 1321 as \<open>Hash_Standard\<close> states it.
\<close>

section \<open>Byte order\<close>

definition load32l :: "u8 list \<Rightarrow> u32" where
  "load32l y = foldl (\<lambda>res i. res OR push_bit (i * 8) (ucast (y ! i))) 0 [0..<4]"

definition store32l :: "u32 \<Rightarrow> u8 list" where
  "store32l x = map (\<lambda>i. ucast (drop_bit (i * 8) x AND 255)) [0..<4]"

definition store64l :: "u64 \<Rightarrow> u8 list" where
  "store64l x = map (\<lambda>i. ucast (drop_bit (i * 8) x AND 255)) [0..<8]"

section \<open>The round functions and tables\<close>

definition md5_F :: "u32 \<Rightarrow> u32 \<Rightarrow> u32 \<Rightarrow> u32" where "md5_F x y z = z XOR (x AND (y XOR z))"
definition md5_G :: "u32 \<Rightarrow> u32 \<Rightarrow> u32 \<Rightarrow> u32" where "md5_G x y z = y XOR (z AND (y XOR x))"
definition md5_H :: "u32 \<Rightarrow> u32 \<Rightarrow> u32 \<Rightarrow> u32" where "md5_H x y z = x XOR y XOR z"
definition md5_I :: "u32 \<Rightarrow> u32 \<Rightarrow> u32 \<Rightarrow> u32" where "md5_I x y z = y XOR (x OR NOT z)"

text \<open>\<open>FF\<close> to \<open>II\<close> update \<open>a\<close> through a reference; the functions return its new value.\<close>

definition md5_FF :: "u32 \<Rightarrow> u32 \<Rightarrow> u32 \<Rightarrow> u32 \<Rightarrow> u32 \<Rightarrow> u32 \<Rightarrow> u32 \<Rightarrow> u32" where
  "md5_FF a b c d M s t = (let a = a + md5_F b c d + M + t in rol32_generic a s + b)"

definition md5_GG :: "u32 \<Rightarrow> u32 \<Rightarrow> u32 \<Rightarrow> u32 \<Rightarrow> u32 \<Rightarrow> u32 \<Rightarrow> u32 \<Rightarrow> u32" where
  "md5_GG a b c d M s t = (let a = a + md5_G b c d + M + t in rol32_generic a s + b)"

definition md5_HH :: "u32 \<Rightarrow> u32 \<Rightarrow> u32 \<Rightarrow> u32 \<Rightarrow> u32 \<Rightarrow> u32 \<Rightarrow> u32 \<Rightarrow> u32" where
  "md5_HH a b c d M s t = (let a = a + md5_H b c d + M + t in rol32_generic a s + b)"

definition md5_II :: "u32 \<Rightarrow> u32 \<Rightarrow> u32 \<Rightarrow> u32 \<Rightarrow> u32 \<Rightarrow> u32 \<Rightarrow> u32 \<Rightarrow> u32" where
  "md5_II a b c d M s t = (let a = a + md5_I b c d + M + t in rol32_generic a s + b)"

definition kWorder :: "nat list" where
  "kWorder =
     [0, 1, 2, 3, 4, 5, 6, 7, 8, 9, 10, 11, 12, 13, 14, 15] @
     [1, 6, 11, 0, 5, 10, 15, 4, 9, 14, 3, 8, 13, 2, 7, 12] @
     [5, 8, 11, 14, 1, 4, 7, 10, 13, 0, 3, 6, 9, 12, 15, 2] @
     [0, 7, 14, 5, 12, 3, 10, 1, 8, 15, 6, 13, 4, 11, 2, 9]"

definition kRorder :: "u32 list" where
  "kRorder =
     [7, 12, 17, 22, 7, 12, 17, 22, 7, 12, 17, 22, 7, 12, 17, 22] @
     [5, 9, 14, 20, 5, 9, 14, 20, 5, 9, 14, 20, 5, 9, 14, 20] @
     [4, 11, 16, 23, 4, 11, 16, 23, 4, 11, 16, 23, 4, 11, 16, 23] @
     [6, 10, 15, 21, 6, 10, 15, 21, 6, 10, 15, 21, 6, 10, 15, 21]"

definition kOrder :: "u32 list" where
  "kOrder =
     [0xd76aa478, 0xe8c7b756, 0x242070db, 0xc1bdceee] @ [0xf57c0faf, 0x4787c62a, 0xa8304613, 0xfd469501] @
     [0x698098d8, 0x8b44f7af, 0xffff5bb1, 0x895cd7be] @ [0x6b901122, 0xfd987193, 0xa679438e, 0x49b40821] @
     [0xf61e2562, 0xc040b340, 0x265e5a51, 0xe9b6c7aa] @ [0xd62f105d, 0x02441453, 0xd8a1e681, 0xe7d3fbc8] @
     [0x21e1cde6, 0xc33707d6, 0xf4d50d87, 0x455a14ed] @ [0xa9e3e905, 0xfcefa3f8, 0x676f02d9, 0x8d2a4c8a] @
     [0xfffa3942, 0x8771f681, 0x6d9d6122, 0xfde5380c] @ [0xa4beea44, 0x4bdecfa9, 0xf6bb4b60, 0xbebfbc70] @
     [0x289b7ec6, 0xeaa127fa, 0xd4ef3085, 0x04881d05] @ [0xd9d4d039, 0xe6db99e5, 0x1fa27cf8, 0xc4ac5665] @
     [0xf4292244, 0x432aff97, 0xab9423a7, 0xfc93a039] @ [0x655b59c3, 0x8f0ccc92, 0xffeff47d, 0x85845dd1] @
     [0x6fa87e4f, 0xfe2ce6e0, 0xa3014314, 0x4e0811a1] @ [0xf7537e82, 0xbd3af235, 0x2ad7d2bb, 0xeb86d391]"

section \<open>The compression function\<close>

text \<open>One iteration of a loop: the update of \<open>a\<close>, then \<open>t = d, d = c, c = b, b = a, a = t\<close>.\<close>

definition md5_iter ::
    "(u32 \<Rightarrow> u32 \<Rightarrow> u32 \<Rightarrow> u32 \<Rightarrow> u32 \<Rightarrow> u32 \<Rightarrow> u32 \<Rightarrow> u32) \<Rightarrow> u32 list \<Rightarrow> md5_regs \<Rightarrow> nat \<Rightarrow> md5_regs" where
  "md5_iter f W = (\<lambda>(a, b, c, d) i.
     (d, f a b c d (W ! (kWorder ! i)) (kRorder ! i) (kOrder ! i), b, c))"

definition md5_compress :: "u32 list \<Rightarrow> u8 list \<Rightarrow> u32 list" where
  "md5_compress state buf =
     (let W = map (\<lambda>i. load32l (drop (4 * i) buf)) [0..<16];
          r = (state ! 0, state ! 1, state ! 2, state ! 3);
          r = foldl (md5_iter md5_FF W) r [0..<16];
          r = foldl (md5_iter md5_GG W) r [16..<32];
          r = foldl (md5_iter md5_HH W) r [32..<48];
          r = foldl (md5_iter md5_II W) r [48..<64]
      in case r of (a, b, c, d) \<Rightarrow> [state ! 0 + a, state ! 1 + b, state ! 2 + c, state ! 3 + d])"

section \<open>The class\<close>

type_synonym md5_ctx = "u32 md_ctx"

definition md5_iv :: "u32 list" where
  "md5_iv = [0x67452301, 0xefcdab89, 0x98badcfe, 0x10325476]"

definition MD5 :: "u8 list \<Rightarrow> md5_ctx" where
  "MD5 junk = md_init md5_iv junk"

definition MD5_process :: "md5_ctx \<Rightarrow> u8 list \<Rightarrow> u32 \<Rightarrow> md5_ctx option" where
  "MD5_process = md_process md5_compress 64"

definition MD5_process_str :: "md5_ctx \<Rightarrow> u8 list \<Rightarrow> md5_ctx option" where
  "MD5_process_str = md_process_str md5_compress 64"

definition MD5_finalize :: "md5_ctx \<Rightarrow> md5_ctx \<times> u8 list" where
  "MD5_finalize = md_finalize md5_compress 64 56 56 (\<lambda>n. ucast (n * 8)) store64l store32l"

text \<open>The constructors that take data, and the three forms of the digest.\<close>

definition MD5_data :: "u8 list \<Rightarrow> u8 list \<Rightarrow> u32 \<Rightarrow> md5_ctx option" where
  "MD5_data junk data sz = MD5_process (MD5 junk) data sz"

definition MD5_str :: "u8 list \<Rightarrow> u8 list \<Rightarrow> md5_ctx option" where
  "MD5_str junk str = MD5_process_str (MD5 junk) str"

definition MD5_digest :: "md5_ctx \<Rightarrow> md5_ctx \<times> string" where
  "MD5_digest c = (case MD5_finalize c of (c, d) \<Rightarrow> (c, map char_of_byte d))"

definition MD5_digest_hex :: "md5_ctx \<Rightarrow> md5_ctx \<times> string" where
  "MD5_digest_hex c = (case MD5_finalize c of (c, d) \<Rightarrow> (c, hex_dump_lc d))"

definition MD5_digest_hex_uc :: "md5_ctx \<Rightarrow> md5_ctx \<times> string" where
  "MD5_digest_hex_uc c = (case MD5_finalize c of (c, d) \<Rightarrow> (c, hex_dump d))"

definition md5_hex_data :: "u8 list \<Rightarrow> u8 list \<Rightarrow> u32 \<Rightarrow> string option" where
  "md5_hex_data junk data sz = map_option (\<lambda>c. snd (MD5_digest_hex c)) (MD5_data junk data sz)"

definition md5_hex :: "u8 list \<Rightarrow> u8 list \<Rightarrow> string option" where
  "md5_hex junk str = map_option (\<lambda>c. snd (MD5_digest_hex c)) (MD5_str junk str)"

definition md5_hex_uc_data :: "u8 list \<Rightarrow> u8 list \<Rightarrow> u32 \<Rightarrow> string option" where
  "md5_hex_uc_data junk data sz = map_option (\<lambda>c. snd (MD5_digest_hex_uc c)) (MD5_data junk data sz)"

definition md5_hex_uc :: "u8 list \<Rightarrow> u8 list \<Rightarrow> string option" where
  "md5_hex_uc junk str = map_option (\<lambda>c. snd (MD5_digest_hex_uc c)) (MD5_str junk str)"

interpretation md5: block_hash md5_compress 64 56 56 "\<lambda>n. ucast (n * 8)" store64l store32l md5_iv
  by unfold_locales (simp_all add: store64l_def bits_u32)

section \<open>The compression of RFC 1321\<close>

text \<open>The table of constants holds the sines, and the shift amounts follow the pattern of the RFC.\<close>

lemma kOrder_sines: "sine_check (map uint kOrder)"
  by code_simp

lemma kOrder_eq:
  assumes "i < 64"
  shows "kOrder ! i = rfc_T i"
proof -
  have "length kOrder = 64" by (simp add: kOrder_def)
  then show ?thesis
    unfolding rfc_T_def sine_check_floor [OF kOrder_sines assms] using assms by simp
qed

lemma kRorder_eq: "i < 64 \<Longrightarrow> unat (kRorder ! i) = rfc_s i"
proof -
  have "list_all (\<lambda>i. unat (kRorder ! i) = rfc_s i) [0..<64]" by code_simp
  then show "i < 64 \<Longrightarrow> unat (kRorder ! i) = rfc_s i" by (rule list_all_upt)
qed

lemma md5_select:
  "md5_F x y z = (x AND y) OR (NOT x AND z)" "md5_G x y z = (x AND z) OR (y AND NOT z)"
  unfolding md5_F_def md5_G_def by (auto intro!: bit_word_eqI simp: bit_simps)

lemma kWorder_eq: "i < 64 \<Longrightarrow> kWorder ! i = rfc_k i"
proof -
  have "list_all (\<lambda>i. kWorder ! i = rfc_k i) [0..<64]" by code_simp
  then show "i < 64 \<Longrightarrow> kWorder ! i = rfc_k i" by (rule list_all_upt)
qed

lemma kRorder_small: "i < 64 \<Longrightarrow> unat (kRorder ! i) < 32"
proof -
  have "list_all (\<lambda>i. unat (kRorder ! i) < 32) [0..<64]" by code_simp
  then show "i < 64 \<Longrightarrow> unat (kRorder ! i) < 32" by (rule list_all_upt)
qed

lemma rfc_k_less: "i < 64 \<Longrightarrow> rfc_k i < 16"
  by (simp add: rfc_k_def)

lemma load32l_eq:
  assumes "length y = 4"
  shows "load32l y = word_rcat (rev y)"
proof (rule bit_word_eqI)
  fix n assume "n < LENGTH(32)"
  then obtain q r where n: "n = 8 * q + r" "q < 4" "r < 8"
    using split_bit_index [of n 4] by auto
  have "[0..<4] = [0, 1, 2, 3 :: nat]" by (simp add: upt_rec)
  then show "bit (load32l y) n = bit (word_rcat (rev y) :: u32) n"
    using n assms less_4_cases [OF n(2)]
    by (auto simp: load32l_def bit_word_rcat bit_simps)
qed

lemma md5_word:
  assumes "length buf = 64" "i < 64"
  shows "map (\<lambda>i. load32l (drop (4 * i) buf)) [0..<16] ! (kWorder ! i) = rfc_word buf (rfc_k i)"
proof -
  have k: "rfc_k i < 16" using assms(2) by (rule rfc_k_less)
  then have "length (take 4 (drop (4 * rfc_k i) buf)) = 4" using assms by simp
  then have "load32l (take 4 (drop (4 * rfc_k i) buf)) = rfc_word buf (rfc_k i)"
    unfolding rfc_word_def by (rule load32l_eq)
  moreover have "load32l (take 4 y) = load32l y" for y
    by (simp add: load32l_def upt_rec)
  ultimately show ?thesis using k by (simp add: kWorder_eq [OF assms(2)])
qed

lemma md5_iters:
  assumes "length buf = 64"
    and "hi \<le> 64"
    and "\<And>i a b c d M s t. lo \<le> i \<Longrightarrow> i < hi \<Longrightarrow>
           g a b c d M s t = rol32_generic (a + rfc_F i b c d + M + t) s + b"
  shows "foldl (md5_iter g (map (\<lambda>i. load32l (drop (4 * i) buf)) [0..<16])) r [lo..<hi]
       = foldl (rfc_step (rfc_word buf)) r [lo..<hi]"
proof (rule foldl_cong [OF refl refl])
  fix r i assume "i \<in> set [lo..<hi]"
  then have i: "lo \<le> i" "i < hi" by auto
  then have l: "i < 64" using assms(2) by simp
  show "md5_iter g (map (\<lambda>i. load32l (drop (4 * i) buf)) [0..<16]) r i = rfc_step (rfc_word buf) r i"
    using kRorder_small [OF l]
    by (cases r) (simp add: md5_iter_def rfc_step_def assms(3) [OF i(1) i(2)] md5_word [OF assms(1) l]
        kRorder_eq [OF l, symmetric] kOrder_eq [OF l, symmetric] rol32_generic_eq add.commute)
qed

lemmas md5_update_defs = md5_FF_def md5_GG_def md5_HH_def md5_II_def md5_select
  md5_H_def md5_I_def rfc_F_def

lemma md5_compress_rfc:
  assumes "length buf = 64"
  shows "md5_compress state buf = rfc_compress state buf"
proof -
  let ?W = "map (\<lambda>i. load32l (drop (4 * i) buf)) [0..<16]" and ?s = "rfc_step (rfc_word buf)"
  have
    "foldl (md5_iter md5_FF ?W) r [0..<16] = foldl ?s r [0..<16]"
    "foldl (md5_iter md5_GG ?W) r [16..<32] = foldl ?s r [16..<32]"
    "foldl (md5_iter md5_HH ?W) r [32..<48] = foldl ?s r [32..<48]"
    "foldl (md5_iter md5_II ?W) r [48..<64] = foldl ?s r [48..<64]" for r
    by (rule md5_iters [OF assms]; simp add: md5_update_defs)+
  then show ?thesis
    by (simp add: md5_compress_def rfc_compress_def Let_def
        foldl_upt_split [of 0 16 64] foldl_upt_split [of 16 32 64] foldl_upt_split [of 32 48 64])
qed

section \<open>What the class computes\<close>

lemma md5_iv_eq: "md5_iv = rfc_iv"
  by (simp add: md5_iv_def rfc_iv_def word_rcat_def)

lemma md5_store: "store32l = (\<lambda>w. le_bytes 4 (unat w))" "store64l x = le_bytes 8 (unat x)"
  by (simp_all add: fun_eq_iff store32l_def store64l_def store_little_endian)

lemma md5_ref_digest_eq:
  "md_spec md5_compress 64 56 56 store64l store32l md5_iv msg = md5_ref_digest msg"
  unfolding md5_ref_digest_def
  by (rule md_spec_std) (simp_all add: md5_compress_rfc md5_store md5_iv_eq len_field_bits)

lemmas md5_class_defs = MD5_def MD5_process_def MD5_process_str_def MD5_finalize_def

text \<open>
  \<open>MD5\<close> computes the MD5 of RFC 1321: however the message is cut into \<open>process\<close> calls, and
  whatever the uninitialised buffer held, every call returns and \<open>finalize\<close> gives the reference
  digest of the concatenated input (each string argument cut to its size modulo \<open>2 ^ 32\<close>).
\<close>

lemma md5_digest:
  assumes "length junk = 64"
  shows "map_option (\<lambda>c. snd (MD5_finalize c)) (md_feed MD5_process_str (MD5 junk) xs)
       = Some (md5_ref_digest (concat (map fed xs)))"
  using md5.feed_finalize [of junk xs] assms by (simp add: md5_class_defs md5_ref_digest_eq)

lemma md5_hex_data_eq:
  assumes "length junk = 64" "unat sz \<le> length data"
  shows "md5_hex_data junk data sz = Some (hex_dump_lc (md5_ref_digest (take (unat sz) data)))"
    and "md5_hex_uc_data junk data sz = Some (hex_dump (md5_ref_digest (take (unat sz) data)))"
proof -
  have "map_option (\<lambda>c. snd (MD5_finalize c)) (MD5_data junk data sz)
      = Some (md5_ref_digest (take (unat sz) data))"
    using md5.process_finalize [of junk sz data] assms
    by (simp add: MD5_data_def md5_class_defs md5_ref_digest_eq)
  then show "md5_hex_data junk data sz = Some (hex_dump_lc (md5_ref_digest (take (unat sz) data)))"
    and "md5_hex_uc_data junk data sz = Some (hex_dump (md5_ref_digest (take (unat sz) data)))"
    by (auto simp: md5_hex_data_def md5_hex_uc_data_def MD5_digest_hex_def MD5_digest_hex_uc_def split: prod.split)
qed

lemma md5_hex_eq:
  assumes "length junk = 64"
  shows "md5_hex junk str = Some (hex_dump_lc (md5_ref_digest (fed str)))"
    and "md5_hex_uc junk str = Some (hex_dump (md5_ref_digest (fed str)))"
proof -
  have "md5_hex junk str = md5_hex_data junk str (of_nat (length str))"
    "md5_hex_uc junk str = md5_hex_uc_data junk str (of_nat (length str))"
    by (simp_all add: md5_hex_def md5_hex_data_def md5_hex_uc_def md5_hex_uc_data_def MD5_str_def MD5_data_def
        md5_class_defs md_process_str_def)
  moreover have "unat (of_nat (length str) :: u32) = length str mod 4294967296" by (simp add: unat_of_nat)
  ultimately show "md5_hex junk str = Some (hex_dump_lc (md5_ref_digest (fed str)))"
    and "md5_hex_uc junk str = Some (hex_dump (md5_ref_digest (fed str)))"
    using md5_hex_data_eq [OF assms, of "of_nat (length str)" str] by (simp_all add: fed_def)
qed

end
