(* ===== verification/Sha1.thy ===== *)
theory Sha1
  imports Digest_Stream Bit_Math Hex_Dump
begin

text \<open>
  \<open>abel/digest/sha1.cc\<close>: the class \<open>SHA1\<close> and its compression function, proved equal to the
  SHA-1 of FIPS 180-4 as \<open>Hash_Standard\<close> states it.
\<close>

section \<open>Byte order\<close>

definition load32h :: "u8 list \<Rightarrow> u32" where
  "load32h y = push_bit 24 (ucast (y ! 0)) OR push_bit 16 (ucast (y ! 1)) OR
               push_bit 8 (ucast (y ! 2)) OR push_bit 0 (ucast (y ! 3))"

definition store32h :: "u32 \<Rightarrow> u8 list" where
  "store32h x = map (\<lambda>i. ucast (drop_bit ((3 - i) * 8) x AND 255)) [0..<4]"

definition store64h :: "u64 \<Rightarrow> u8 list" where
  "store64h x = map (\<lambda>i. ucast (drop_bit ((7 - i) * 8) x AND 255)) [0..<8]"

section \<open>The compression function\<close>

definition sha1_F0 :: "u32 \<Rightarrow> u32 \<Rightarrow> u32 \<Rightarrow> u32" where "sha1_F0 x y z = z XOR (x AND (y XOR z))"
definition sha1_F1 :: "u32 \<Rightarrow> u32 \<Rightarrow> u32 \<Rightarrow> u32" where "sha1_F1 x y z = x XOR y XOR z"
definition sha1_F2 :: "u32 \<Rightarrow> u32 \<Rightarrow> u32 \<Rightarrow> u32" where "sha1_F2 x y z = (x AND y) OR (z AND (x OR y))"
definition sha1_F3 :: "u32 \<Rightarrow> u32 \<Rightarrow> u32 \<Rightarrow> u32" where "sha1_F3 x y z = x XOR y XOR z"

text \<open>
  The array \<open>W[80]\<close> is filled from the left, so its written prefix is the list, and the
  statement \<open>W[i] = x\<close> with \<open>i\<close> the next index appends.
\<close>

definition sha1_W :: "u8 list \<Rightarrow> u32 list" where
  "sha1_W buf =
     (let W = map (\<lambda>i. load32h (drop (4 * i) buf)) [0..<16]
      in foldl (\<lambda>W i. W @ [rol32_generic (W ! (i - 3) XOR W ! (i - 8) XOR W ! (i - 14) XOR W ! (i - 16)) 1])
           W [16..<80])"

text \<open>One iteration: \<open>e\<close> and \<open>b\<close> are updated, then \<open>t = e, e = d, d = c, c = b, b = a, a = t\<close>.\<close>

definition sha1_iter ::
    "(u32 \<Rightarrow> u32 \<Rightarrow> u32 \<Rightarrow> u32) \<Rightarrow> u32 \<Rightarrow> u32 list \<Rightarrow> sha1_regs \<Rightarrow> nat \<Rightarrow> sha1_regs" where
  "sha1_iter F k W = (\<lambda>(a, b, c, d, e) i.
     let e = rol32_generic a 5 + F b c d + e + W ! i + k;
         b = rol32_generic b 30
     in (e, a, b, c, d))"

definition sha1_compress :: "u32 list \<Rightarrow> u8 list \<Rightarrow> u32 list" where
  "sha1_compress state buf =
     (let W = sha1_W buf;
          r = (state ! 0, state ! 1, state ! 2, state ! 3, state ! 4);
          r = foldl (sha1_iter sha1_F0 0x5a827999 W) r [0..<20];
          r = foldl (sha1_iter sha1_F1 0x6ed9eba1 W) r [20..<40];
          r = foldl (sha1_iter sha1_F2 0x8f1bbcdc W) r [40..<60];
          r = foldl (sha1_iter sha1_F3 0xca62c1d6 W) r [60..<80]
      in case r of (a, b, c, d, e) \<Rightarrow>
           [state ! 0 + a, state ! 1 + b, state ! 2 + c, state ! 3 + d, state ! 4 + e])"

section \<open>The class\<close>

type_synonym sha1_ctx = "u32 md_ctx"

definition sha1_iv :: "u32 list" where
  "sha1_iv = [0x67452301, 0xefcdab89, 0x98badcfe, 0x10325476, 0xc3d2e1f0]"

definition SHA1 :: "u8 list \<Rightarrow> sha1_ctx" where
  "SHA1 junk = md_init sha1_iv junk"

definition SHA1_process :: "sha1_ctx \<Rightarrow> u8 list \<Rightarrow> u32 \<Rightarrow> sha1_ctx option" where
  "SHA1_process = md_process sha1_compress 64"

definition SHA1_process_str :: "sha1_ctx \<Rightarrow> u8 list \<Rightarrow> sha1_ctx option" where
  "SHA1_process_str = md_process_str sha1_compress 64"

definition SHA1_finalize :: "sha1_ctx \<Rightarrow> sha1_ctx \<times> u8 list" where
  "SHA1_finalize = md_finalize sha1_compress 64 56 56 (\<lambda>n. ucast (n * 8)) store64h store32h"

text \<open>The constructors that take data, and the three forms of the digest.\<close>

definition SHA1_data :: "u8 list \<Rightarrow> u8 list \<Rightarrow> u32 \<Rightarrow> sha1_ctx option" where
  "SHA1_data junk data sz = SHA1_process (SHA1 junk) data sz"

definition SHA1_str :: "u8 list \<Rightarrow> u8 list \<Rightarrow> sha1_ctx option" where
  "SHA1_str junk str = SHA1_process_str (SHA1 junk) str"

definition SHA1_digest :: "sha1_ctx \<Rightarrow> sha1_ctx \<times> string" where
  "SHA1_digest c = (case SHA1_finalize c of (c, d) \<Rightarrow> (c, map char_of_byte d))"

definition SHA1_digest_hex :: "sha1_ctx \<Rightarrow> sha1_ctx \<times> string" where
  "SHA1_digest_hex c = (case SHA1_finalize c of (c, d) \<Rightarrow> (c, hex_dump_lc d))"

definition SHA1_digest_hex_uc :: "sha1_ctx \<Rightarrow> sha1_ctx \<times> string" where
  "SHA1_digest_hex_uc c = (case SHA1_finalize c of (c, d) \<Rightarrow> (c, hex_dump d))"

definition sha1_hex_data :: "u8 list \<Rightarrow> u8 list \<Rightarrow> u32 \<Rightarrow> string option" where
  "sha1_hex_data junk data sz = map_option (\<lambda>c. snd (SHA1_digest_hex c)) (SHA1_data junk data sz)"

definition sha1_hex :: "u8 list \<Rightarrow> u8 list \<Rightarrow> string option" where
  "sha1_hex junk str = map_option (\<lambda>c. snd (SHA1_digest_hex c)) (SHA1_str junk str)"

definition sha1_hex_uc_data :: "u8 list \<Rightarrow> u8 list \<Rightarrow> u32 \<Rightarrow> string option" where
  "sha1_hex_uc_data junk data sz = map_option (\<lambda>c. snd (SHA1_digest_hex_uc c)) (SHA1_data junk data sz)"

definition sha1_hex_uc :: "u8 list \<Rightarrow> u8 list \<Rightarrow> string option" where
  "sha1_hex_uc junk str = map_option (\<lambda>c. snd (SHA1_digest_hex_uc c)) (SHA1_str junk str)"

interpretation sha1: block_hash sha1_compress 64 56 56 "\<lambda>n. ucast (n * 8)" store64h store32h sha1_iv
  by unfold_locales (simp_all add: store64h_def bits_u32)

section \<open>The compression of FIPS 180-4\<close>

lemma load32h_eq: "4 \<le> length y \<Longrightarrow> load32h y = word_rcat (take 4 y)"
  unfolding load32h_def by (rule big_endian32)

lemma sha1_maj: "sha1_F2 x y z = (x AND y) XOR (x AND z) XOR (y AND z)"
  and sha1_ch: "sha1_F0 x y z = (x AND y) XOR (NOT x AND z)"
  unfolding sha1_F2_def sha1_F0_def by (auto intro!: bit_word_eqI simp: bit_simps)

lemma sha1_W_eq:
  assumes "length buf = 64"
  shows "sha1_W buf = map (fips1_W (fips_word buf)) [0..<80]"
  unfolding sha1_W_def Let_def
proof (rule schedule_fill)
  show "map (\<lambda>i. load32h (drop (4 * i) buf)) [0..<16] = map (fips1_W (fips_word buf)) [0..<16]"
    using assms by (auto simp: fips1_W.simps fips_word_def load32h_eq)
next
  fix i assume "16 \<le> (i::nat)"
  then show "rol32_generic
        (map (fips1_W (fips_word buf)) [0..<i] ! (i - 3) XOR map (fips1_W (fips_word buf)) [0..<i] ! (i - 8) XOR
         map (fips1_W (fips_word buf)) [0..<i] ! (i - 14) XOR map (fips1_W (fips_word buf)) [0..<i] ! (i - 16)) 1
      = fips1_W (fips_word buf) i"
    by (subst fips1_W.simps [of _ i]) (simp add: rol32_generic_eq)
qed simp

lemma sha1_rotations:
  "rol32_generic x 5 = word_rotl 5 x" "rol32_generic x 30 = word_rotl 30 x"
  using rotate_lit(1) [of 5 x] rotate_lit(1) [of 30 x] by simp_all

lemma sha1_iters:
  assumes "hi \<le> 80"
    and "\<And>i x y z. lo \<le> i \<Longrightarrow> i < hi \<Longrightarrow> F x y z = fips1_f i x y z"
    and "\<And>i. lo \<le> i \<Longrightarrow> i < hi \<Longrightarrow> k = fips1_K i"
  shows "foldl (sha1_iter F k (map w [0..<80])) r [lo..<hi] = foldl (fips1_step w) r [lo..<hi]"
proof (rule foldl_cong [OF refl refl])
  fix r i assume "i \<in> set [lo..<hi]"
  then have i: "lo \<le> i" "i < hi" by auto
  moreover have "map w [0..<80] ! i = w i" using i assms(1) by simp
  moreover have "\<And>x y z. F x y z = fips1_f i x y z" "k = fips1_K i" using assms(2,3) i by blast+
  ultimately show "sha1_iter F k (map w [0..<80]) r i = fips1_step w r i"
    by (cases r) (simp add: sha1_iter_def fips1_step_def sha1_rotations ac_simps)
qed

lemma sha1_compress_fips:
  assumes "length buf = 64"
  shows "sha1_compress state buf = fips1_compress state buf"
proof -
  let ?w = "fips1_W (fips_word buf)"
  let ?W = "map ?w [0..<80]" and ?s = "fips1_step ?w"
  have
    "foldl (sha1_iter sha1_F0 0x5a827999 ?W) r [0..<20] = foldl ?s r [0..<20]"
    "foldl (sha1_iter sha1_F1 0x6ed9eba1 ?W) r [20..<40] = foldl ?s r [20..<40]"
    "foldl (sha1_iter sha1_F2 0x8f1bbcdc ?W) r [40..<60] = foldl ?s r [40..<60]"
    "foldl (sha1_iter sha1_F3 0xca62c1d6 ?W) r [60..<80] = foldl ?s r [60..<80]" for r
    by (rule sha1_iters; simp add: sha1_ch sha1_maj sha1_F1_def sha1_F3_def fips1_f_def fips1_K_def)+
  then show ?thesis
    by (simp add: sha1_compress_def fips1_compress_def Let_def sha1_W_eq [OF assms] add.commute
        foldl_upt_split [of 0 20 80] foldl_upt_split [of 20 40 80] foldl_upt_split [of 40 60 80])
qed

section \<open>What the class computes\<close>

lemma sha1_iv_eq: "sha1_iv = fips1_iv"
  by (simp add: sha1_iv_def fips1_iv_def rfc_iv_def word_rcat_def)

lemma sha1_store: "store32h = (\<lambda>w. be_bytes 4 (unat w))" "store64h x = be_bytes 8 (unat x)"
proof -
  show "store32h = (\<lambda>w. be_bytes 4 (unat w))"
  proof
    fix w show "store32h w = be_bytes 4 (unat w)"
      using store_big_endian [of 4 w] by (simp add: store32h_def)
  qed
  show "store64h x = be_bytes 8 (unat x)" using store_big_endian [of 8 x] by (simp add: store64h_def)
qed

lemma sha1_ref_digest_eq:
  "md_spec sha1_compress 64 56 56 store64h store32h sha1_iv msg = sha1_ref_digest msg"
  unfolding sha1_ref_digest_def
  by (rule md_spec_std) (simp_all add: sha1_compress_fips sha1_store sha1_iv_eq len_field_bits)

lemmas sha1_class_defs = SHA1_def SHA1_process_def SHA1_process_str_def SHA1_finalize_def

text \<open>
  \<open>SHA1\<close> computes the SHA-1 of FIPS 180-4: however the message is cut into \<open>process\<close> calls,
  and whatever the uninitialised buffer held, every call returns and \<open>finalize\<close> gives the
  reference digest of the concatenated input.
\<close>

lemma sha1_digest:
  assumes "length junk = 64"
  shows "map_option (\<lambda>c. snd (SHA1_finalize c)) (md_feed SHA1_process_str (SHA1 junk) xs)
       = Some (sha1_ref_digest (concat (map fed xs)))"
  using sha1.feed_finalize [of junk xs] assms by (simp add: sha1_class_defs sha1_ref_digest_eq)

lemma sha1_hex_data_eq:
  assumes "length junk = 64" "unat sz \<le> length data"
  shows "sha1_hex_data junk data sz = Some (hex_dump_lc (sha1_ref_digest (take (unat sz) data)))"
    and "sha1_hex_uc_data junk data sz = Some (hex_dump (sha1_ref_digest (take (unat sz) data)))"
proof -
  have "map_option (\<lambda>c. snd (SHA1_finalize c)) (SHA1_data junk data sz)
      = Some (sha1_ref_digest (take (unat sz) data))"
    using sha1.process_finalize [of junk sz data] assms
    by (simp add: SHA1_data_def sha1_class_defs sha1_ref_digest_eq)
  then show "sha1_hex_data junk data sz = Some (hex_dump_lc (sha1_ref_digest (take (unat sz) data)))"
    and "sha1_hex_uc_data junk data sz = Some (hex_dump (sha1_ref_digest (take (unat sz) data)))"
    by (auto simp: sha1_hex_data_def sha1_hex_uc_data_def SHA1_digest_hex_def SHA1_digest_hex_uc_def split: prod.split)
qed

lemma sha1_hex_eq:
  assumes "length junk = 64"
  shows "sha1_hex junk str = Some (hex_dump_lc (sha1_ref_digest (fed str)))"
    and "sha1_hex_uc junk str = Some (hex_dump (sha1_ref_digest (fed str)))"
proof -
  have "sha1_hex junk str = sha1_hex_data junk str (of_nat (length str))"
    "sha1_hex_uc junk str = sha1_hex_uc_data junk str (of_nat (length str))"
    by (simp_all add: sha1_hex_def sha1_hex_data_def sha1_hex_uc_def sha1_hex_uc_data_def SHA1_str_def SHA1_data_def
        sha1_class_defs md_process_str_def)
  moreover have "unat (of_nat (length str) :: u32) = length str mod 4294967296" by (simp add: unat_of_nat)
  ultimately show "sha1_hex junk str = Some (hex_dump_lc (sha1_ref_digest (fed str)))"
    and "sha1_hex_uc junk str = Some (hex_dump (sha1_ref_digest (fed str)))"
    using sha1_hex_data_eq [OF assms, of "of_nat (length str)" str] by (simp_all add: fed_def)
qed

end
