(* ===== verification/Fips_Sha2.thy ===== *)
theory Fips_Sha2
  imports Digest_Stream
begin

text \<open>
  What the classes \<open>SHA256\<close> and \<open>SHA512\<close> share on the way to the SHA-2 compression of
  \<open>Hash_Standard\<close>: the eight registers as an array, and the optimised selection functions.
\<close>

section \<open>Registers\<close>

lemma list8_regs8: "length s = 8 \<Longrightarrow> list8 (regs8 s) = s"
proof -
  assume "length s = 8"
  then have "length s = Suc (Suc (Suc (Suc (Suc (Suc (Suc (Suc 0)))))))" by simp
  then obtain a b c d e f g h where "s = [a, b, c, d, e, f, g, h]"
    by (auto simp: length_Suc_conv)
  then show ?thesis by (simp add: list8_def regs8_def)
qed

lemma regs8_list8 [simp]: "regs8 (list8 r) = r"
  by (simp add: list8_def regs8_def split: prod.split)

lemma length_list8 [simp]: "length (list8 r) = 8"
  by (simp add: list8_def split: prod.split)

lemma regs8_map_upt: "regs8 (map (\<lambda>i. xs ! i) [0..<8]) = regs8 xs"
  by (simp add: regs8_def numeral_2_eq_2)

text \<open>A loop on an array of eight cells follows a loop on the eight registers.\<close>

lemma foldl_regs8:
  assumes "\<And>S i. length S = 8 \<Longrightarrow> i \<in> set is \<Longrightarrow> length (f S i) = 8 \<and> regs8 (f S i) = g (regs8 S) i"
    and "length S = 8"
  shows "foldl f S is = list8 (foldl g (regs8 S) is)"
proof -
  have "length (foldl f S is) = 8 \<and> regs8 (foldl f S is) = foldl g (regs8 S) is"
    using assms by (induction "is" arbitrary: S) auto
  then show ?thesis using list8_regs8 [of "foldl f S is"] by simp
qed

text \<open>The optimised selections of the code are the standard's.\<close>

lemma Ch_eq: "z XOR (x AND (y XOR z)) = fips_Ch x y z"
  unfolding fips_Ch_def by (rule bit_word_eqI) (auto simp: bit_simps)

lemma Maj_eq: "((x OR y) AND z) OR (x AND y) = fips_Maj x y z"
  unfolding fips_Maj_def by (rule bit_word_eqI) (auto simp: bit_simps)

end
