(* ===== verification/Sha256.thy ===== *)
theory Sha256
  imports Fips_Sha2 Bit_Math Hex_Dump
begin

text \<open>
  \<open>abel/digest/sha256.cc\<close>: the class \<open>SHA256\<close> and its compression function, proved equal to the
  SHA-256 compression of FIPS 180-4.
\<close>

section \<open>Tables and byte order\<close>

definition K256 :: "u32 list" where
  "K256 =
     [0x428a2f98, 0x71374491, 0xb5c0fbcf, 0xe9b5dba5] @ [0x3956c25b, 0x59f111f1, 0x923f82a4, 0xab1c5ed5] @
     [0xd807aa98, 0x12835b01, 0x243185be, 0x550c7dc3] @ [0x72be5d74, 0x80deb1fe, 0x9bdc06a7, 0xc19bf174] @
     [0xe49b69c1, 0xefbe4786, 0x0fc19dc6, 0x240ca1cc] @ [0x2de92c6f, 0x4a7484aa, 0x5cb0a9dc, 0x76f988da] @
     [0x983e5152, 0xa831c66d, 0xb00327c8, 0xbf597fc7] @ [0xc6e00bf3, 0xd5a79147, 0x06ca6351, 0x14292967] @
     [0x27b70a85, 0x2e1b2138, 0x4d2c6dfc, 0x53380d13] @ [0x650a7354, 0x766a0abb, 0x81c2c92e, 0x92722c85] @
     [0xa2bfe8a1, 0xa81a664b, 0xc24b8b70, 0xc76c51a3] @ [0xd192e819, 0xd6990624, 0xf40e3585, 0x106aa070] @
     [0x19a4c116, 0x1e376c08, 0x2748774c, 0x34b0bcb5] @ [0x391c0cb3, 0x4ed8aa4a, 0x5b9cca4f, 0x682e6ff3] @
     [0x748f82ee, 0x78a5636f, 0x84c87814, 0x8cc70208] @ [0x90befffa, 0xa4506ceb, 0xbef9a3f7, 0xc67178f2]"

definition sha256_load32 :: "u8 list \<Rightarrow> u32" where
  "sha256_load32 y = push_bit 24 (ucast (y ! 0)) OR push_bit 16 (ucast (y ! 1)) OR
                     push_bit 8 (ucast (y ! 2)) OR push_bit 0 (ucast (y ! 3))"

definition sha256_store32 :: "u32 \<Rightarrow> u8 list" where
  "sha256_store32 x = map (\<lambda>i. ucast (drop_bit ((3 - i) * 8) x AND 255)) [0..<4]"

definition sha256_store64 :: "u64 \<Rightarrow> u8 list" where
  "sha256_store64 x = map (\<lambda>i. ucast (drop_bit ((7 - i) * 8) x AND 255)) [0..<8]"

section \<open>The compression function\<close>

definition sha256_Ch :: "u32 \<Rightarrow> u32 \<Rightarrow> u32 \<Rightarrow> u32" where
  "sha256_Ch x y z = z XOR (x AND (y XOR z))"

definition sha256_Maj :: "u32 \<Rightarrow> u32 \<Rightarrow> u32 \<Rightarrow> u32" where
  "sha256_Maj x y z = ((x OR y) AND z) OR (x AND y)"

definition sha256_Sh :: "u32 \<Rightarrow> u32 \<Rightarrow> u32" where
  "sha256_Sh x n = drop_bit (unat n) x"

definition sha256_Sigma0 :: "u32 \<Rightarrow> u32" where
  "sha256_Sigma0 x = ror32_generic x 2 XOR ror32_generic x 13 XOR ror32_generic x 22"

definition sha256_Sigma1 :: "u32 \<Rightarrow> u32" where
  "sha256_Sigma1 x = ror32_generic x 6 XOR ror32_generic x 11 XOR ror32_generic x 25"

definition sha256_Gamma0 :: "u32 \<Rightarrow> u32" where
  "sha256_Gamma0 x = ror32_generic x 7 XOR ror32_generic x 18 XOR sha256_Sh x 3"

definition sha256_Gamma1 :: "u32 \<Rightarrow> u32" where
  "sha256_Gamma1 x = ror32_generic x 17 XOR ror32_generic x 19 XOR sha256_Sh x 10"

text \<open>The array \<open>W\<close> is filled from the left; the list is its written prefix.\<close>

definition sha256_W :: "u8 list \<Rightarrow> u32 list" where
  "sha256_W buf =
     (let W = map (\<lambda>i. sha256_load32 (drop (4 * i) buf)) [0..<16]
      in foldl (\<lambda>W i. W @ [sha256_Gamma1 (W ! (i - 2)) + W ! (i - 7) +
                          sha256_Gamma0 (W ! (i - 15)) + W ! (i - 16)]) W [16..<64])"

text \<open>\<open>RND\<close> updates \<open>d\<close> and \<open>h\<close> through references to \<open>S[3]\<close> and \<open>S[7]\<close>; the loop then rotates \<open>S\<close>.\<close>

definition sha256_RND :: "u32 list \<Rightarrow> u32 list \<Rightarrow> nat \<Rightarrow> u32 list" where
  "sha256_RND W S i =
     (let t0 = S ! 7 + sha256_Sigma1 (S ! 4) + sha256_Ch (S ! 4) (S ! 5) (S ! 6) + K256 ! i + W ! i;
          t1 = sha256_Sigma0 (S ! 0) + sha256_Maj (S ! 0) (S ! 1) (S ! 2)
      in S[3 := S ! 3 + t0, 7 := t0 + t1])"

definition sha256_rotate :: "u32 list \<Rightarrow> u32 list" where
  "sha256_rotate S = [S ! 7, S ! 0, S ! 1, S ! 2, S ! 3, S ! 4, S ! 5, S ! 6]"

definition sha256_compress :: "u32 list \<Rightarrow> u8 list \<Rightarrow> u32 list" where
  "sha256_compress state buf =
     (let S = map (\<lambda>i. state ! i) [0..<8];
          W = sha256_W buf;
          S = foldl (\<lambda>S i. sha256_rotate (sha256_RND W S i)) S [0..<64]
      in map (\<lambda>i. state ! i + S ! i) [0..<8])"

section \<open>The class\<close>

type_synonym sha256_ctx = "u32 md_ctx"

definition sha256_iv :: "u32 list" where
  "sha256_iv =
    [0x6A09E667, 0xBB67AE85, 0x3C6EF372, 0xA54FF53A, 0x510E527F, 0x9B05688C, 0x1F83D9AB, 0x5BE0CD19]"

definition SHA256 :: "u8 list \<Rightarrow> sha256_ctx" where
  "SHA256 junk = md_init sha256_iv junk"

definition SHA256_process :: "sha256_ctx \<Rightarrow> u8 list \<Rightarrow> u32 \<Rightarrow> sha256_ctx option" where
  "SHA256_process = md_process sha256_compress 64"

definition SHA256_process_str :: "sha256_ctx \<Rightarrow> u8 list \<Rightarrow> sha256_ctx option" where
  "SHA256_process_str = md_process_str sha256_compress 64"

definition SHA256_finalize :: "sha256_ctx \<Rightarrow> sha256_ctx \<times> u8 list" where
  "SHA256_finalize = md_finalize sha256_compress 64 56 56 (\<lambda>n. ucast (n * 8)) sha256_store64 sha256_store32"

text \<open>The constructors that take data, and the three forms of the digest.\<close>

definition SHA256_data :: "u8 list \<Rightarrow> u8 list \<Rightarrow> u32 \<Rightarrow> sha256_ctx option" where
  "SHA256_data junk data sz = SHA256_process (SHA256 junk) data sz"

definition SHA256_str :: "u8 list \<Rightarrow> u8 list \<Rightarrow> sha256_ctx option" where
  "SHA256_str junk str = SHA256_process_str (SHA256 junk) str"

definition SHA256_digest :: "sha256_ctx \<Rightarrow> sha256_ctx \<times> string" where
  "SHA256_digest c = (case SHA256_finalize c of (c, d) \<Rightarrow> (c, map char_of_byte d))"

definition SHA256_digest_hex :: "sha256_ctx \<Rightarrow> sha256_ctx \<times> string" where
  "SHA256_digest_hex c = (case SHA256_finalize c of (c, d) \<Rightarrow> (c, hex_dump_lc d))"

definition SHA256_digest_hex_uc :: "sha256_ctx \<Rightarrow> sha256_ctx \<times> string" where
  "SHA256_digest_hex_uc c = (case SHA256_finalize c of (c, d) \<Rightarrow> (c, hex_dump d))"

definition sha256_hex_data :: "u8 list \<Rightarrow> u8 list \<Rightarrow> u32 \<Rightarrow> string option" where
  "sha256_hex_data junk data sz = map_option (\<lambda>c. snd (SHA256_digest_hex c)) (SHA256_data junk data sz)"

definition sha256_hex :: "u8 list \<Rightarrow> u8 list \<Rightarrow> string option" where
  "sha256_hex junk str = map_option (\<lambda>c. snd (SHA256_digest_hex c)) (SHA256_str junk str)"

definition sha256_hex_uc_data :: "u8 list \<Rightarrow> u8 list \<Rightarrow> u32 \<Rightarrow> string option" where
  "sha256_hex_uc_data junk data sz = map_option (\<lambda>c. snd (SHA256_digest_hex_uc c)) (SHA256_data junk data sz)"

definition sha256_hex_uc :: "u8 list \<Rightarrow> u8 list \<Rightarrow> string option" where
  "sha256_hex_uc junk str = map_option (\<lambda>c. snd (SHA256_digest_hex_uc c)) (SHA256_str junk str)"

interpretation sha256: block_hash sha256_compress 64 56 56 "\<lambda>n. ucast (n * 8)" sha256_store64 sha256_store32 sha256_iv
  by unfold_locales (simp_all add: sha256_store64_def bits_u32)

section \<open>The compression of FIPS 180-4\<close>

abbreviation fips256_round :: "u8 list \<Rightarrow> u32 sha2_regs \<Rightarrow> nat \<Rightarrow> u32 sha2_regs" where
  "fips256_round buf \<equiv> fips2_step fips256_Sigma0 fips256_Sigma1 fips256_K (fips256_W buf)"

text \<open>The constants are the fractions of the cube roots and square roots of the first primes.\<close>

lemma K256_roots: "list_all2 (\<lambda>p k. root_frac 3 32 p (uint k)) (take 64 primes80) K256"
  by code_simp

lemma sha256_iv_roots: "list_all2 (\<lambda>p k. root_frac 2 32 p (uint k)) (take 8 primes80) sha256_iv"
  by code_simp

lemma K256_eq: "t < 64 \<Longrightarrow> K256 ! t = fips256_K t"
proof -
  assume t: "t < 64"
  have "map (\<lambda>p. word_of_int (root_bits 3 32 p)) (take 64 primes80) = K256"
    by (rule root_table [OF K256_roots]) (simp_all add: primes80_def)
  moreover have "take 64 primes80 ! t = primes80 ! t" "t < length (take 64 primes80)"
    using t by (rule nth_take) (use t in \<open>simp add: primes80_def\<close>)
  ultimately show ?thesis by (metis fips256_K_def nth_map)
qed

lemma sha256_iv_eq: "sha256_iv = fips256_iv"
  unfolding fips256_iv_def
  by (rule root_table [OF sha256_iv_roots, symmetric]) (simp_all add: primes80_def)

lemma sha256_rotations:
  "ror32_generic x 2 = word_rotr 2 x"
  "ror32_generic x 6 = word_rotr 6 x"
  "ror32_generic x 7 = word_rotr 7 x"
  "ror32_generic x 11 = word_rotr 11 x"
  "ror32_generic x 13 = word_rotr 13 x"
  "ror32_generic x 17 = word_rotr 17 x"
  "ror32_generic x 18 = word_rotr 18 x"
  "ror32_generic x 19 = word_rotr 19 x"
  "ror32_generic x 22 = word_rotr 22 x"
  "ror32_generic x 25 = word_rotr 25 x"
  using rotate_lit(2) [of 2 x]
    rotate_lit(2) [of 6 x]
    rotate_lit(2) [of 7 x]
    rotate_lit(2) [of 11 x]
    rotate_lit(2) [of 13 x]
    rotate_lit(2) [of 17 x]
    rotate_lit(2) [of 18 x]
    rotate_lit(2) [of 19 x]
    rotate_lit(2) [of 22 x]
    rotate_lit(2) [of 25 x]
  by simp_all

lemma sha256_functions:
  "sha256_Ch = fips_Ch" "sha256_Maj = fips_Maj"
  "sha256_Sigma0 = fips256_Sigma0" "sha256_Sigma1 = fips256_Sigma1"
  "sha256_Gamma0 = fips256_sigma0" "sha256_Gamma1 = fips256_sigma1"
  by (simp_all add: fun_eq_iff sha256_Ch_def Ch_eq sha256_Maj_def Maj_eq sha256_Sh_def
      sha256_Sigma0_def sha256_Sigma1_def sha256_Gamma0_def sha256_Gamma1_def
      fips256_Sigma0_def fips256_Sigma1_def fips256_sigma0_def fips256_sigma1_def sha256_rotations)

lemma sha256_load_eq: "4 \<le> length y \<Longrightarrow> sha256_load32 y = word_rcat (take 4 y)"
  unfolding sha256_load32_def by (rule big_endian32)

lemma sha256_W_eq:
  assumes "length buf = 64"
  shows "sha256_W buf = map (fips256_W buf) [0..<64]"
  unfolding sha256_W_def Let_def
proof (rule schedule_fill)
  show "map (\<lambda>i. sha256_load32 (drop (4 * i) buf)) [0..<16] = map (fips256_W buf) [0..<16]"
    using assms by (auto simp: fips256_W_def fips2_W.simps fips256_word_def sha256_load_eq)
next
  fix i assume "16 \<le> (i::nat)"
  then show "sha256_Gamma1 (map (fips256_W buf) [0..<i] ! (i - 2)) + map (fips256_W buf) [0..<i] ! (i - 7) +
        sha256_Gamma0 (map (fips256_W buf) [0..<i] ! (i - 15)) + map (fips256_W buf) [0..<i] ! (i - 16)
      = fips256_W buf i"
    unfolding sha256_functions fips256_W_def
    by (subst fips2_W.simps [of _ _ _ i]) simp
qed simp

lemma sha256_round:
  assumes "length buf = 64" "length S = 8" "i < 64"
  shows "regs8 (sha256_rotate (sha256_RND (sha256_W buf) S i)) = fips256_round buf (regs8 S) i"
  using assms(2,3)
  by (simp add: sha256_W_eq [OF assms(1)] regs8_def sha256_rotate_def sha256_RND_def fips2_step_def
      sha256_functions K256_eq Let_def)

lemma sha256_compress_fips:
  assumes "length buf = 64"
  shows "sha256_compress state buf = fips256_compress state buf"
proof -
  have "foldl (\<lambda>S i. sha256_rotate (sha256_RND (sha256_W buf) S i)) (map (\<lambda>i. state ! i) [0..<8]) [0..<64]
      = list8 (foldl (fips256_round buf) (regs8 (map (\<lambda>i. state ! i) [0..<8])) [0..<64])"
  proof (rule foldl_regs8)
    fix S i assume "length (S :: u32 list) = 8" "i \<in> set [0..<64]"
    then show "length (sha256_rotate (sha256_RND (sha256_W buf) S i)) = 8 \<and>
        regs8 (sha256_rotate (sha256_RND (sha256_W buf) S i)) = fips256_round buf (regs8 S) i"
      by (intro conjI sha256_round [OF assms]) (simp_all add: sha256_rotate_def)
  qed simp
  then show ?thesis
    by (simp only: sha256_compress_def fips256_compress_def fips2_compress_def Let_def regs8_map_upt
        add.commute)
qed

section \<open>What the class computes\<close>

lemma sha256_store: "sha256_store32 = (\<lambda>w. be_bytes 4 (unat w))" "sha256_store64 x = be_bytes 8 (unat x)"
proof -
  show "sha256_store32 = (\<lambda>w. be_bytes 4 (unat w))"
  proof
    fix w show "sha256_store32 w = be_bytes 4 (unat w)"
      using store_big_endian [of 4 w] by (simp add: sha256_store32_def)
  qed
  show "sha256_store64 x = be_bytes 8 (unat x)" using store_big_endian [of 8 x] by (simp add: sha256_store64_def)
qed

lemma sha256_ref_digest_eq:
  "md_spec sha256_compress 64 56 56 sha256_store64 sha256_store32 sha256_iv msg = sha256_ref_digest msg"
  unfolding sha256_ref_digest_def
  by (rule md_spec_std) (simp_all add: sha256_compress_fips sha256_store sha256_iv_eq len_field_bits)

lemmas sha256_class_defs = SHA256_def SHA256_process_def SHA256_process_str_def SHA256_finalize_def

text \<open>
  \<open>SHA256\<close> computes the SHA-256 of FIPS 180-4: however the message is cut into \<open>process\<close>
  calls, and whatever the uninitialised buffer held, every call returns and \<open>finalize\<close> gives the
  reference digest of the concatenated input.
\<close>

lemma sha256_digest:
  assumes "length junk = 64"
  shows "map_option (\<lambda>c. snd (SHA256_finalize c)) (md_feed SHA256_process_str (SHA256 junk) xs)
       = Some (sha256_ref_digest (concat (map fed xs)))"
  using sha256.feed_finalize [of junk xs] assms by (simp add: sha256_class_defs sha256_ref_digest_eq)

lemma sha256_hex_data_eq:
  assumes "length junk = 64" "unat sz \<le> length data"
  shows "sha256_hex_data junk data sz = Some (hex_dump_lc (sha256_ref_digest (take (unat sz) data)))"
    and "sha256_hex_uc_data junk data sz = Some (hex_dump (sha256_ref_digest (take (unat sz) data)))"
proof -
  have "map_option (\<lambda>c. snd (SHA256_finalize c)) (SHA256_data junk data sz)
      = Some (sha256_ref_digest (take (unat sz) data))"
    using sha256.process_finalize [of junk sz data] assms
    by (simp add: SHA256_data_def sha256_class_defs sha256_ref_digest_eq)
  then show "sha256_hex_data junk data sz = Some (hex_dump_lc (sha256_ref_digest (take (unat sz) data)))"
    and "sha256_hex_uc_data junk data sz = Some (hex_dump (sha256_ref_digest (take (unat sz) data)))"
    by (auto simp: sha256_hex_data_def sha256_hex_uc_data_def SHA256_digest_hex_def SHA256_digest_hex_uc_def split: prod.split)
qed

lemma sha256_hex_eq:
  assumes "length junk = 64"
  shows "sha256_hex junk str = Some (hex_dump_lc (sha256_ref_digest (fed str)))"
    and "sha256_hex_uc junk str = Some (hex_dump (sha256_ref_digest (fed str)))"
proof -
  have "sha256_hex junk str = sha256_hex_data junk str (of_nat (length str))"
    "sha256_hex_uc junk str = sha256_hex_uc_data junk str (of_nat (length str))"
    by (simp_all add: sha256_hex_def sha256_hex_data_def sha256_hex_uc_def sha256_hex_uc_data_def SHA256_str_def SHA256_data_def
        sha256_class_defs md_process_str_def)
  moreover have "unat (of_nat (length str) :: u32) = length str mod 4294967296" by (simp add: unat_of_nat)
  ultimately show "sha256_hex junk str = Some (hex_dump_lc (sha256_ref_digest (fed str)))"
    and "sha256_hex_uc junk str = Some (hex_dump (sha256_ref_digest (fed str)))"
    using sha256_hex_data_eq [OF assms, of "of_nat (length str)" str] by (simp_all add: fed_def)
qed

end
