(* ===== verification/Sha512.thy ===== *)
theory Sha512
  imports Fips_Sha2 Bit_Math Hex_Dump
begin

text \<open>
  \<open>abel/digest/sha512.cc\<close>: the class \<open>SHA512\<close> and its compression function, proved equal to the
  SHA-512 compression of FIPS 180-4.
\<close>

section \<open>Tables and byte order\<close>

definition K512 :: "u64 list" where
  "K512 =
     [0x428a2f98d728ae22, 0x7137449123ef65cd, 0xb5c0fbcfec4d3b2f, 0xe9b5dba58189dbbc] @
     [0x3956c25bf348b538, 0x59f111f1b605d019, 0x923f82a4af194f9b, 0xab1c5ed5da6d8118] @
     [0xd807aa98a3030242, 0x12835b0145706fbe, 0x243185be4ee4b28c, 0x550c7dc3d5ffb4e2] @
     [0x72be5d74f27b896f, 0x80deb1fe3b1696b1, 0x9bdc06a725c71235, 0xc19bf174cf692694] @
     [0xe49b69c19ef14ad2, 0xefbe4786384f25e3, 0x0fc19dc68b8cd5b5, 0x240ca1cc77ac9c65] @
     [0x2de92c6f592b0275, 0x4a7484aa6ea6e483, 0x5cb0a9dcbd41fbd4, 0x76f988da831153b5] @
     [0x983e5152ee66dfab, 0xa831c66d2db43210, 0xb00327c898fb213f, 0xbf597fc7beef0ee4] @
     [0xc6e00bf33da88fc2, 0xd5a79147930aa725, 0x06ca6351e003826f, 0x142929670a0e6e70] @
     [0x27b70a8546d22ffc, 0x2e1b21385c26c926, 0x4d2c6dfc5ac42aed, 0x53380d139d95b3df] @
     [0x650a73548baf63de, 0x766a0abb3c77b2a8, 0x81c2c92e47edaee6, 0x92722c851482353b] @
     [0xa2bfe8a14cf10364, 0xa81a664bbc423001, 0xc24b8b70d0f89791, 0xc76c51a30654be30] @
     [0xd192e819d6ef5218, 0xd69906245565a910, 0xf40e35855771202a, 0x106aa07032bbd1b8] @
     [0x19a4c116b8d2d0c8, 0x1e376c085141ab53, 0x2748774cdf8eeb99, 0x34b0bcb5e19b48a8] @
     [0x391c0cb3c5c95a63, 0x4ed8aa4ae3418acb, 0x5b9cca4f7763e373, 0x682e6ff3d6b2b8a3] @
     [0x748f82ee5defb2fc, 0x78a5636f43172f60, 0x84c87814a1f0ab72, 0x8cc702081a6439ec] @
     [0x90befffa23631e28, 0xa4506cebde82bde9, 0xbef9a3f7b2c67915, 0xc67178f2e372532b] @
     [0xca273eceea26619c, 0xd186b8c721c0c207, 0xeada7dd6cde0eb1e, 0xf57d4f7fee6ed178] @
     [0x06f067aa72176fba, 0x0a637dc5a2c898a6, 0x113f9804bef90dae, 0x1b710b35131c471b] @
     [0x28db77f523047d84, 0x32caab7b40c72493, 0x3c9ebe0a15c9bebc, 0x431d67c49c100d4c] @
     [0x4cc5d4becb3e42b6, 0x597f299cfc657e2a, 0x5fcb6fab3ad6faec, 0x6c44198c4a475817]"

definition sha512_load64 :: "u8 list \<Rightarrow> u64" where
  "sha512_load64 y = foldl (\<lambda>res i. res OR push_bit ((7 - i) * 8) (ucast (y ! i))) 0 [0..<8]"

definition sha512_store64 :: "u64 \<Rightarrow> u8 list" where
  "sha512_store64 x = map (\<lambda>i. ucast (drop_bit ((7 - i) * 8) x AND 255)) [0..<8]"

section \<open>The compression function\<close>

definition sha512_Ch :: "u64 \<Rightarrow> u64 \<Rightarrow> u64 \<Rightarrow> u64" where
  "sha512_Ch x y z = z XOR (x AND (y XOR z))"

definition sha512_Maj :: "u64 \<Rightarrow> u64 \<Rightarrow> u64 \<Rightarrow> u64" where
  "sha512_Maj x y z = ((x OR y) AND z) OR (x AND y)"

definition sha512_Sh :: "u64 \<Rightarrow> u64 \<Rightarrow> u64" where
  "sha512_Sh x n = drop_bit (unat n) x"

definition sha512_Sigma0 :: "u64 \<Rightarrow> u64" where
  "sha512_Sigma0 x = ror64_generic x 28 XOR ror64_generic x 34 XOR ror64_generic x 39"

definition sha512_Sigma1 :: "u64 \<Rightarrow> u64" where
  "sha512_Sigma1 x = ror64_generic x 14 XOR ror64_generic x 18 XOR ror64_generic x 41"

definition sha512_Gamma0 :: "u64 \<Rightarrow> u64" where
  "sha512_Gamma0 x = ror64_generic x 1 XOR ror64_generic x 8 XOR sha512_Sh x 7"

definition sha512_Gamma1 :: "u64 \<Rightarrow> u64" where
  "sha512_Gamma1 x = ror64_generic x 19 XOR ror64_generic x 61 XOR sha512_Sh x 6"

text \<open>The array \<open>W\<close> is filled from the left; the list is its written prefix.\<close>

definition sha512_W :: "u8 list \<Rightarrow> u64 list" where
  "sha512_W buf =
     (let W = map (\<lambda>i. sha512_load64 (drop (8 * i) buf)) [0..<16]
      in foldl (\<lambda>W i. W @ [sha512_Gamma1 (W ! (i - 2)) + W ! (i - 7) +
                          sha512_Gamma0 (W ! (i - 15)) + W ! (i - 16)]) W [16..<80])"

text \<open>\<open>RND\<close> updates the cells of \<open>S\<close> its references \<open>d\<close> and \<open>h\<close> name; the cells are named by index.\<close>

definition sha512_RND ::
    "u64 list \<Rightarrow> u64 list \<Rightarrow> nat \<Rightarrow> nat \<Rightarrow> nat \<Rightarrow> nat \<Rightarrow> nat \<Rightarrow> nat \<Rightarrow> nat \<Rightarrow> nat \<Rightarrow> nat \<Rightarrow> u64 list" where
  "sha512_RND W S a b c d e f g h i =
     (let t0 = S ! h + sha512_Sigma1 (S ! e) + sha512_Ch (S ! e) (S ! f) (S ! g) + K512 ! i + W ! i;
          t1 = sha512_Sigma0 (S ! a) + sha512_Maj (S ! a) (S ! b) (S ! c)
      in S[d := S ! d + t0, h := t0 + t1])"

text \<open>The body of the unrolled loop: eight rounds with the names moved by one each time.\<close>

definition sha512_rounds :: "u64 list \<Rightarrow> u64 list \<Rightarrow> nat \<Rightarrow> u64 list" where
  "sha512_rounds W S i =
     (let
          S = sha512_RND W S 0 1 2 3 4 5 6 7 (i + 0);
          S = sha512_RND W S 7 0 1 2 3 4 5 6 (i + 1);
          S = sha512_RND W S 6 7 0 1 2 3 4 5 (i + 2);
          S = sha512_RND W S 5 6 7 0 1 2 3 4 (i + 3);
          S = sha512_RND W S 4 5 6 7 0 1 2 3 (i + 4);
          S = sha512_RND W S 3 4 5 6 7 0 1 2 (i + 5);
          S = sha512_RND W S 2 3 4 5 6 7 0 1 (i + 6);
          S = sha512_RND W S 1 2 3 4 5 6 7 0 (i + 7)
      in S)"

definition sha512_compress :: "u64 list \<Rightarrow> u8 list \<Rightarrow> u64 list" where
  "sha512_compress state buf =
     (let S = map (\<lambda>i. state ! i) [0..<8];
          W = sha512_W buf;
          S = foldl (sha512_rounds W) S (map (\<lambda>k. 8 * k) [0..<10])
      in map (\<lambda>i. state ! i + S ! i) [0..<8])"

section \<open>The class\<close>

type_synonym sha512_ctx = "u64 md_ctx"

definition sha512_iv :: "u64 list" where
  "sha512_iv =
    [0x6a09e667f3bcc908, 0xbb67ae8584caa73b, 0x3c6ef372fe94f82b, 0xa54ff53a5f1d36f1,
     0x510e527fade682d1, 0x9b05688c2b3e6c1f, 0x1f83d9abfb41bd6b, 0x5be0cd19137e2179]"

definition SHA512 :: "u8 list \<Rightarrow> sha512_ctx" where
  "SHA512 junk = md_init sha512_iv junk"

definition SHA512_process :: "sha512_ctx \<Rightarrow> u8 list \<Rightarrow> u32 \<Rightarrow> sha512_ctx option" where
  "SHA512_process = md_process sha512_compress 128"

definition SHA512_process_str :: "sha512_ctx \<Rightarrow> u8 list \<Rightarrow> sha512_ctx option" where
  "SHA512_process_str = md_process_str sha512_compress 128"

definition SHA512_finalize :: "sha512_ctx \<Rightarrow> sha512_ctx \<times> u8 list" where
  "SHA512_finalize = md_finalize sha512_compress 128 112 120 (\<lambda>n. ucast n * 8) sha512_store64 sha512_store64"

text \<open>The constructors that take data, and the three forms of the digest.\<close>

definition SHA512_data :: "u8 list \<Rightarrow> u8 list \<Rightarrow> u32 \<Rightarrow> sha512_ctx option" where
  "SHA512_data junk data sz = SHA512_process (SHA512 junk) data sz"

definition SHA512_str :: "u8 list \<Rightarrow> u8 list \<Rightarrow> sha512_ctx option" where
  "SHA512_str junk str = SHA512_process_str (SHA512 junk) str"

definition SHA512_digest :: "sha512_ctx \<Rightarrow> sha512_ctx \<times> string" where
  "SHA512_digest c = (case SHA512_finalize c of (c, d) \<Rightarrow> (c, map char_of_byte d))"

definition SHA512_digest_hex :: "sha512_ctx \<Rightarrow> sha512_ctx \<times> string" where
  "SHA512_digest_hex c = (case SHA512_finalize c of (c, d) \<Rightarrow> (c, hex_dump_lc d))"

definition SHA512_digest_hex_uc :: "sha512_ctx \<Rightarrow> sha512_ctx \<times> string" where
  "SHA512_digest_hex_uc c = (case SHA512_finalize c of (c, d) \<Rightarrow> (c, hex_dump d))"

definition sha512_hex_data :: "u8 list \<Rightarrow> u8 list \<Rightarrow> u32 \<Rightarrow> string option" where
  "sha512_hex_data junk data sz = map_option (\<lambda>c. snd (SHA512_digest_hex c)) (SHA512_data junk data sz)"

definition sha512_hex :: "u8 list \<Rightarrow> u8 list \<Rightarrow> string option" where
  "sha512_hex junk str = map_option (\<lambda>c. snd (SHA512_digest_hex c)) (SHA512_str junk str)"

definition sha512_hex_uc_data :: "u8 list \<Rightarrow> u8 list \<Rightarrow> u32 \<Rightarrow> string option" where
  "sha512_hex_uc_data junk data sz = map_option (\<lambda>c. snd (SHA512_digest_hex_uc c)) (SHA512_data junk data sz)"

definition sha512_hex_uc :: "u8 list \<Rightarrow> u8 list \<Rightarrow> string option" where
  "sha512_hex_uc junk str = map_option (\<lambda>c. snd (SHA512_digest_hex_uc c)) (SHA512_str junk str)"

interpretation sha512: block_hash sha512_compress 128 112 120 "\<lambda>n. ucast n * 8" sha512_store64 sha512_store64 sha512_iv
  by unfold_locales (simp_all add: sha512_store64_def bits_u64)

section \<open>The compression of FIPS 180-4\<close>

abbreviation fips512_round :: "u8 list \<Rightarrow> u64 sha2_regs \<Rightarrow> nat \<Rightarrow> u64 sha2_regs" where
  "fips512_round buf \<equiv> fips2_step fips512_Sigma0 fips512_Sigma1 fips512_K (fips512_W buf)"

text \<open>The constants are the fractions of the cube roots and square roots of the first primes.\<close>

lemma K512_roots: "list_all2 (\<lambda>p k. root_frac 3 64 p (uint k)) (take 80 primes80) K512"
  by code_simp

lemma sha512_iv_roots: "list_all2 (\<lambda>p k. root_frac 2 64 p (uint k)) (take 8 primes80) sha512_iv"
  by code_simp

lemma K512_eq: "t < 80 \<Longrightarrow> K512 ! t = fips512_K t"
proof -
  assume t: "t < 80"
  have "map (\<lambda>p. word_of_int (root_bits 3 64 p)) (take 80 primes80) = K512"
    by (rule root_table [OF K512_roots]) (simp_all add: primes80_def)
  moreover have "take 80 primes80 ! t = primes80 ! t" "t < length (take 80 primes80)"
    using t by (rule nth_take) (use t in \<open>simp add: primes80_def\<close>)
  ultimately show ?thesis by (metis fips512_K_def nth_map)
qed

lemma sha512_iv_eq: "sha512_iv = fips512_iv"
  unfolding fips512_iv_def
  by (rule root_table [OF sha512_iv_roots, symmetric]) (simp_all add: primes80_def)

lemma sha512_rotations:
  "ror64_generic x 1 = word_rotr 1 x"
  "ror64_generic x 8 = word_rotr 8 x"
  "ror64_generic x 14 = word_rotr 14 x"
  "ror64_generic x 18 = word_rotr 18 x"
  "ror64_generic x 19 = word_rotr 19 x"
  "ror64_generic x 28 = word_rotr 28 x"
  "ror64_generic x 34 = word_rotr 34 x"
  "ror64_generic x 39 = word_rotr 39 x"
  "ror64_generic x 41 = word_rotr 41 x"
  "ror64_generic x 61 = word_rotr 61 x"
  using rotate_lit(3) [of 1 x]
    rotate_lit(3) [of 8 x]
    rotate_lit(3) [of 14 x]
    rotate_lit(3) [of 18 x]
    rotate_lit(3) [of 19 x]
    rotate_lit(3) [of 28 x]
    rotate_lit(3) [of 34 x]
    rotate_lit(3) [of 39 x]
    rotate_lit(3) [of 41 x]
    rotate_lit(3) [of 61 x]
  by simp_all

lemma sha512_functions:
  "sha512_Ch = fips_Ch" "sha512_Maj = fips_Maj"
  "sha512_Sigma0 = fips512_Sigma0" "sha512_Sigma1 = fips512_Sigma1"
  "sha512_Gamma0 = fips512_sigma0" "sha512_Gamma1 = fips512_sigma1"
  by (simp_all add: fun_eq_iff sha512_Ch_def Ch_eq sha512_Maj_def Maj_eq sha512_Sh_def
      sha512_Sigma0_def sha512_Sigma1_def sha512_Gamma0_def sha512_Gamma1_def
      fips512_Sigma0_def fips512_Sigma1_def fips512_sigma0_def fips512_sigma1_def sha512_rotations)

lemma sha512_load_eq:
  assumes "8 \<le> length y"
  shows "sha512_load64 y = word_rcat (take 8 y)"
proof (rule bit_word_eqI)
  fix n assume le: "n < LENGTH(64)"
  then obtain q r where n: "n = 8 * q + r" "q < 8" "r < 8"
    using split_bit_index [of n 8] by auto
  have q: "q = 0 \<or> q = 1 \<or> q = 2 \<or> q = 3 \<or> q = 4 \<or> q = 5 \<or> q = 6 \<or> q = 7"
    using n(2) by arith
  have "[0..<8] = [0, 1, 2, 3, 4, 5, 6, 7 :: nat]" by (simp add: upt_rec)
  then have load: "bit (sha512_load64 y) n = bit (y ! (7 - q)) r"
    using n q by (elim disjE) (auto simp: sha512_load64_def bit_simps)
  have "n div 8 = q" "n mod 8 = r" using n by simp_all
  then have "bit (word_rcat (take 8 y) :: u64) n = bit (y ! (7 - q)) r"
    using n(2) assms le by (simp add: bit_word_rcat rev_nth)
  with load show "bit (sha512_load64 y) n = bit (word_rcat (take 8 y) :: u64) n" by simp
qed

lemma sha512_W_eq:
  assumes "length buf = 128"
  shows "sha512_W buf = map (fips512_W buf) [0..<80]"
  unfolding sha512_W_def Let_def
proof (rule schedule_fill)
  show "map (\<lambda>i. sha512_load64 (drop (8 * i) buf)) [0..<16] = map (fips512_W buf) [0..<16]"
    using assms by (auto simp: fips512_W_def fips2_W.simps fips512_word_def sha512_load_eq)
next
  fix i assume "16 \<le> (i::nat)"
  then show "sha512_Gamma1 (map (fips512_W buf) [0..<i] ! (i - 2)) + map (fips512_W buf) [0..<i] ! (i - 7) +
        sha512_Gamma0 (map (fips512_W buf) [0..<i] ! (i - 15)) + map (fips512_W buf) [0..<i] ! (i - 16)
      = fips512_W buf i"
    unfolding sha512_functions fips512_W_def
    by (subst fips2_W.simps [of _ _ _ i]) simp
qed simp

text \<open>The registers after \<open>k\<close> of the eight unrolled rounds: the names have moved by \<open>k\<close> cells.\<close>

definition view8 :: "nat \<Rightarrow> u64 list \<Rightarrow> u64 sha2_regs" where
  "view8 k S =
     (S ! ((8 - k) mod 8), S ! ((9 - k) mod 8), S ! ((10 - k) mod 8), S ! ((11 - k) mod 8),
      S ! ((12 - k) mod 8), S ! ((13 - k) mod 8), S ! ((14 - k) mod 8), S ! ((15 - k) mod 8))"

lemma view8_ends: "view8 0 S = regs8 S" "view8 8 S = regs8 S"
  by (simp_all add: view8_def regs8_def)

lemma length_RND [simp]: "length (sha512_RND W S a b c d e f g h i) = length S"
  by (simp add: sha512_RND_def Let_def)

lemma sha512_RND_view:
  assumes "length buf = 128" "length S = 8" "i < 80"
  shows
  "view8 1 (sha512_RND (sha512_W buf) S 0 1 2 3 4 5 6 7 i) = fips512_round buf (view8 0 S) i"
  "view8 2 (sha512_RND (sha512_W buf) S 7 0 1 2 3 4 5 6 i) = fips512_round buf (view8 1 S) i"
  "view8 3 (sha512_RND (sha512_W buf) S 6 7 0 1 2 3 4 5 i) = fips512_round buf (view8 2 S) i"
  "view8 4 (sha512_RND (sha512_W buf) S 5 6 7 0 1 2 3 4 i) = fips512_round buf (view8 3 S) i"
  "view8 5 (sha512_RND (sha512_W buf) S 4 5 6 7 0 1 2 3 i) = fips512_round buf (view8 4 S) i"
  "view8 6 (sha512_RND (sha512_W buf) S 3 4 5 6 7 0 1 2 i) = fips512_round buf (view8 5 S) i"
  "view8 7 (sha512_RND (sha512_W buf) S 2 3 4 5 6 7 0 1 i) = fips512_round buf (view8 6 S) i"
  "view8 8 (sha512_RND (sha512_W buf) S 1 2 3 4 5 6 7 0 i) = fips512_round buf (view8 7 S) i"
  using assms(2,3)
  by (simp_all add: sha512_W_eq [OF assms(1)] view8_def regs8_def sha512_RND_def fips2_step_def
      sha512_functions K512_eq Let_def)

lemma sha512_rounds_eq:
  assumes "length buf = 128" "length S = 8" "i + 8 \<le> 80"
  shows "regs8 (sha512_rounds (sha512_W buf) S i) = foldl (fips512_round buf) (regs8 S) [i..<i + 8]"
    and "length (sha512_rounds (sha512_W buf) S i) = 8"
proof -
  have idx: "[i..<i + 8] = [i + 0, i + 1, i + 2, i + 3, i + 4, i + 5, i + 6, i + 7]"
    by (simp add: upt_rec)
  have lt: "i + 0 < 80" "i + 1 < 80" "i + 2 < 80" "i + 3 < 80" "i + 4 < 80" "i + 5 < 80"
    "i + 6 < 80" "i + 7 < 80"
    using assms(3) by simp_all
  have "view8 8 (sha512_rounds (sha512_W buf) S i) = foldl (fips512_round buf) (view8 0 S) [i..<i + 8]"
    unfolding sha512_rounds_def Let_def idx
    by (simp only: sha512_RND_view [OF assms(1)] length_RND assms(2) lt foldl.simps)
  then show "regs8 (sha512_rounds (sha512_W buf) S i) = foldl (fips512_round buf) (regs8 S) [i..<i + 8]"
    by (simp only: view8_ends)
  show "length (sha512_rounds (sha512_W buf) S i) = 8"
    using assms by (simp add: sha512_rounds_def Let_def)
qed

lemma sha512_compress_fips:
  assumes "length buf = 128"
  shows "sha512_compress state buf = fips512_compress state buf"
proof -
  let ?S = "map (\<lambda>i. state ! i) [0..<8]"
  have "length (foldl (sha512_rounds (sha512_W buf)) ?S (map (\<lambda>k. 8 * k) [0..<n])) = 8 \<and>
      regs8 (foldl (sha512_rounds (sha512_W buf)) ?S (map (\<lambda>k. 8 * k) [0..<n]))
      = foldl (fips512_round buf) (regs8 ?S) [0..<m]" if "n \<le> 10" "m = 8 * n" for n m
    unfolding that(2) using that(1)
  proof (induction n)
    case 0
    show ?case by simp
  next
    case (Suc n)
    then have "8 * n + 8 \<le> 80" by simp
    with Suc sha512_rounds_eq [OF assms, of _ "8 * n"] show ?case
      using foldl_upt_split [of 0 "8 * n" "8 * n + 8" "fips512_round buf" "regs8 ?S"]
      by (simp add: add.commute)
  qed
  from this [of 10 80]
  have "foldl (sha512_rounds (sha512_W buf)) ?S (map (\<lambda>k. 8 * k) [0..<10])
      = list8 (foldl (fips512_round buf) (regs8 ?S) [0..<80])"
    using list8_regs8 [of "foldl (sha512_rounds (sha512_W buf)) ?S (map (\<lambda>k. 8 * k) [0..<10])"]
    by (simp del: upt_rec_numeral)
  then show ?thesis
    by (simp only: sha512_compress_def fips512_compress_def fips2_compress_def Let_def regs8_map_upt
        add.commute)
qed

section \<open>What the class computes\<close>

lemma sha512_store: "sha512_store64 = (\<lambda>w. be_bytes 8 (unat w))"
proof
  fix w show "sha512_store64 w = be_bytes 8 (unat w)"
    using store_big_endian [of 8 w] by (simp add: sha512_store64_def)
qed

text \<open>The class stores 64 bits of the length and zeros before them.\<close>

lemma sha512_ref_digest_eq:
  assumes "length msg < 2305843009213693952"
  shows "md_spec sha512_compress 128 112 120 sha512_store64 sha512_store64 sha512_iv msg = sha512_ref_digest msg"
  unfolding sha512_ref_digest_def
  by (rule md_spec_std) (use assms in \<open>simp_all add: sha512_compress_fips sha512_store sha512_iv_eq len_field_128\<close>)

lemmas sha512_class_defs = SHA512_def SHA512_process_def SHA512_process_str_def SHA512_finalize_def

text \<open>
  \<open>SHA512\<close> computes the SHA-512 of FIPS 180-4: however the message is cut into \<open>process\<close>
  calls, and whatever the uninitialised buffer held, every call returns and \<open>finalize\<close> gives the
  reference digest of the concatenated input, if that is shorter than \<open>2 ^ 64\<close> bits.
\<close>

lemma sha512_digest:
  assumes "length junk = 128" "length (concat (map fed xs)) < 2305843009213693952"
  shows "map_option (\<lambda>c. snd (SHA512_finalize c)) (md_feed SHA512_process_str (SHA512 junk) xs)
       = Some (sha512_ref_digest (concat (map fed xs)))"
  using sha512.feed_finalize [of junk xs] assms by (simp add: sha512_class_defs sha512_ref_digest_eq)

lemma sha512_hex_data_eq:
  assumes "length junk = 128" "unat sz \<le> length data"
  shows "sha512_hex_data junk data sz = Some (hex_dump_lc (sha512_ref_digest (take (unat sz) data)))"
    and "sha512_hex_uc_data junk data sz = Some (hex_dump (sha512_ref_digest (take (unat sz) data)))"
proof -
  have "unat sz < 4294967296" by (rule unat_u32)
  then have "map_option (\<lambda>c. snd (SHA512_finalize c)) (SHA512_data junk data sz)
      = Some (sha512_ref_digest (take (unat sz) data))"
    using sha512.process_finalize [of junk sz data] assms
    by (simp add: SHA512_data_def sha512_class_defs sha512_ref_digest_eq)
  then show "sha512_hex_data junk data sz = Some (hex_dump_lc (sha512_ref_digest (take (unat sz) data)))"
    and "sha512_hex_uc_data junk data sz = Some (hex_dump (sha512_ref_digest (take (unat sz) data)))"
    by (auto simp: sha512_hex_data_def sha512_hex_uc_data_def SHA512_digest_hex_def SHA512_digest_hex_uc_def split: prod.split)
qed

lemma sha512_hex_eq:
  assumes "length junk = 128"
  shows "sha512_hex junk str = Some (hex_dump_lc (sha512_ref_digest (fed str)))"
    and "sha512_hex_uc junk str = Some (hex_dump (sha512_ref_digest (fed str)))"
proof -
  have "sha512_hex junk str = sha512_hex_data junk str (of_nat (length str))"
    "sha512_hex_uc junk str = sha512_hex_uc_data junk str (of_nat (length str))"
    by (simp_all add: sha512_hex_def sha512_hex_data_def sha512_hex_uc_def sha512_hex_uc_data_def SHA512_str_def SHA512_data_def
        sha512_class_defs md_process_str_def)
  moreover have "unat (of_nat (length str) :: u32) = length str mod 4294967296" by (simp add: unat_of_nat)
  ultimately show "sha512_hex junk str = Some (hex_dump_lc (sha512_ref_digest (fed str)))"
    and "sha512_hex_uc junk str = Some (hex_dump (sha512_ref_digest (fed str)))"
    using sha512_hex_data_eq [OF assms, of "of_nat (length str)" str] by (simp_all add: fed_def)
qed

end
