(* ===== verification/Base64.thy ===== *)
theory Base64
  imports Prelude
begin

text \<open>
  \<open>abel/digest/base64.cc\<close>: the encoder, a loop over groups of three bytes with optional line
  breaks, and the decoder, a state machine over four positions that skips white space and the padding
  \<open>=\<close> and, unless \<open>strict\<close>, every other byte outside the alphabet. Both are proved equal to the 24-bit
  group arithmetic of RFC 3548, over the alphabet of its table 1 written out independently of the
  tables of the code.
\<close>

section \<open>The encoder\<close>

definition encoding64 :: string where
  "encoding64 = ''ABCDEFGHIJKLMNOPQRSTUVWXYZabcdefghijklmnopqrstuvwxyz0123456789+/''"

definition enc :: "u8 \<Rightarrow> char" where
  "enc result = encoding64 ! unat result"

text \<open>The \<open>while (true)\<close> loop, from step 0: \<open>inp\<close> are the bytes from \<open>in\<close> to \<open>in_end\<close>.\<close>

fun base64_encode_loop :: "nat \<Rightarrow> string \<Rightarrow> nat \<Rightarrow> u8 list \<Rightarrow> string" where
  "base64_encode_loop line_break out line_begin [] = out"
| "base64_encode_loop line_break out line_begin [a] =
     out @ [enc (drop_bit 2 (a AND 0xFC)), enc (push_bit 4 (a AND 0x03)), CHR ''='', CHR ''='']"
| "base64_encode_loop line_break out line_begin [a, b] =
     out @ [enc (drop_bit 2 (a AND 0xFC)), enc (push_bit 4 (a AND 0x03) OR drop_bit 4 (b AND 0xF0)),
            enc (push_bit 2 (b AND 0x0F)), CHR ''='']"
| "base64_encode_loop line_break out line_begin (a # b # c # inp) =
     (let out = out @ [enc (drop_bit 2 (a AND 0xFC)), enc (push_bit 4 (a AND 0x03) OR drop_bit 4 (b AND 0xF0)),
                       enc (push_bit 2 (b AND 0x0F) OR drop_bit 6 (c AND 0xC0)), enc (c AND 0x3F)]
      in if 0 < line_break \<and> line_break \<le> length out - line_begin
         then let out = out @ [CHR 0x0A] in base64_encode_loop line_break out (length out) inp
         else base64_encode_loop line_break out line_begin inp)"

definition base64_encode :: "u8 list \<Rightarrow> nat \<Rightarrow> string" where
  "base64_encode data line_break =
     (if length data = 0 then [] else base64_encode_loop line_break [] 0 data)"

definition base64_encode_str :: "string \<Rightarrow> nat \<Rightarrow> string" where
  "base64_encode_str str line_break = base64_encode (map byte_of str) line_break"

section \<open>The decoder\<close>

abbreviation ex :: u8 where "ex \<equiv> 255"
abbreviation ws :: u8 where "ws \<equiv> 254"

definition decoding64 :: "u8 list" where
  "decoding64 =
     [ex, ex, ex, ex, ex, ex, ex, ex, ex, ws, ws, ex, ex, ws, ex, ex] @
     [ex, ex, ex, ex, ex, ex, ex, ex, ex, ex, ex, ex, ex, ex, ex, ex] @
     [ws, ex, ex, ex, ex, ex, ex, ex, ex, ex, ex, 62, ex, ex, ex, 63] @
     [52, 53, 54, 55, 56, 57, 58, 59, 60, 61, ex, ex, ex, ws, ex, ex] @
     [ex, 0, 1, 2, 3, 4, 5, 6, 7, 8, 9, 10, 11, 12, 13, 14] @
     [15, 16, 17, 18, 19, 20, 21, 22, 23, 24, 25, ex, ex, ex, ex, ex] @
     [ex, 26, 27, 28, 29, 30, 31, 32, 33, 34, 35, 36, 37, 38, 39, 40] @
     [41, 42, 43, 44, 45, 46, 47, 48, 49, 50, 51, ex, ex, ex, ex, ex] @
     replicate 128 ex"

definition base64_error :: runtime_error where
  "base64_error = Runtime_error ''Invalid character encountered during base64 decoding.''"

text \<open>
  The inner \<open>do ... while\<close> loop, the same in the four steps: it runs out of input, throws, or
  finds the next letter.
\<close>

datatype next_letter = End_Of_Input | Throw | Letter u8 "u8 list"

fun base64_next :: "bool \<Rightarrow> u8 list \<Rightarrow> next_letter" where
  "base64_next strict [] = End_Of_Input"
| "base64_next strict (c # inp) =
     (let fragment = decoding64 ! unat c
      in if fragment = ex \<and> strict then Throw
         else if ws \<le> fragment then base64_next strict inp
         else Letter fragment inp)"

lemma base64_next_shorter: "base64_next strict inp = Letter f rest \<Longrightarrow> length rest < length inp"
  by (induction strict inp rule: base64_next.induct) (auto simp: Let_def split: if_splits)

text \<open>The four steps of the \<open>while (true)\<close> loop; \<open>outchar\<close> is what the last step left in it.\<close>

datatype b64_step = Step0 | Step1 | Step2 | Step3

function base64_decode_loop :: "bool \<Rightarrow> b64_step \<Rightarrow> u8 \<Rightarrow> string \<Rightarrow> u8 list \<Rightarrow> runtime_error + string" where
  "base64_decode_loop strict st outchar out inp =
     (case base64_next strict inp of
        End_Of_Input \<Rightarrow> Inr out
      | Throw \<Rightarrow> Inl base64_error
      | Letter fragment inp \<Rightarrow>
          (case st of
             Step0 \<Rightarrow> base64_decode_loop strict Step1 (push_bit 2 (fragment AND 0x3F)) out inp
           | Step1 \<Rightarrow>
               let outchar = outchar OR drop_bit 4 (fragment AND 0x30)
               in base64_decode_loop strict Step2 (push_bit 4 (fragment AND 0x0F)) (out @ [char_of_byte outchar]) inp
           | Step2 \<Rightarrow>
               let outchar = outchar OR drop_bit 2 (fragment AND 0x3C)
               in base64_decode_loop strict Step3 (push_bit 6 (fragment AND 0x03)) (out @ [char_of_byte outchar]) inp
           | Step3 \<Rightarrow>
               let outchar = outchar OR (fragment AND 0x3F)
               in base64_decode_loop strict Step0 outchar (out @ [char_of_byte outchar]) inp))"
  by pat_completeness auto
termination
  by (relation "measure (\<lambda>(strict, st, outchar, out, inp). length inp)")
    (auto dest: base64_next_shorter)

declare base64_decode_loop.simps [simp del]

text \<open>\<open>outchar\<close> is uninitialised at first; step 0 does not read it.\<close>

definition base64_decode :: "u8 list \<Rightarrow> bool \<Rightarrow> runtime_error + string" where
  "base64_decode data strict = base64_decode_loop strict Step0 0 [] data"

definition base64_decode_str :: "string \<Rightarrow> bool \<Rightarrow> runtime_error + string" where
  "base64_decode_str str strict = base64_decode (map byte_of str) strict"

section \<open>The reference of RFC 3548\<close>

text \<open>
  The alphabet of the RFC: the value of a letter, and the letter of a value. Outside it, the
  padding sign and white space (space, tab, line feed, carriage return) may be skipped.
\<close>

definition value64 :: "char \<Rightarrow> nat option" where
  "value64 c =
     (let n = of_char c :: int
      in if of_char (CHR ''A'') \<le> n \<and> n \<le> of_char (CHR ''Z'') then Some (nat (n - of_char (CHR ''A'')))
         else if of_char (CHR ''a'') \<le> n \<and> n \<le> of_char (CHR ''z'') then Some (nat (n - of_char (CHR ''a'') + 26))
         else if of_char (CHR ''0'') \<le> n \<and> n \<le> of_char (CHR ''9'') then Some (nat (n - of_char (CHR ''0'') + 52))
         else if c = CHR ''+'' then Some 62
         else if c = CHR ''/'' then Some 63
         else None)"

definition letter64 :: "nat \<Rightarrow> char" where
  "letter64 v =
     (if v < 26 then char_of (of_char (CHR ''A'') + int v)
      else if v < 52 then char_of (of_char (CHR ''a'') + (int v - 26))
      else if v < 62 then char_of (of_char (CHR ''0'') + (int v - 52))
      else if v = 62 then CHR ''+'' else CHR ''/'')"

definition skipped64 :: "char \<Rightarrow> bool" where
  "skipped64 c \<longleftrightarrow> c = CHR ''='' \<or> c = CHR '' '' \<or> c = CHR 0x09 \<or> c = CHR 0x0A \<or> c = CHR 0x0D"

text \<open>Three bytes are a 24-bit number, written as four digits in base 64, and back.\<close>

definition digits64 :: "nat \<Rightarrow> nat list" where
  "digits64 n = [n div 262144, n div 4096 mod 64, n div 64 mod 64, n mod 64]"

definition bytes24 :: "nat \<Rightarrow> nat list" where
  "bytes24 n = [n div 65536, n div 256 mod 256, n mod 256]"

fun ref_quads :: "nat list \<Rightarrow> string" where
  "ref_quads [] = []"
| "ref_quads [a] = map letter64 (take 2 (digits64 (a * 65536))) @ ''==''"
| "ref_quads [a, b] = map letter64 (take 3 (digits64 (a * 65536 + b * 256))) @ ''=''"
| "ref_quads (a # b # c # s) =
     map letter64 (digits64 (a * 65536 + b * 256 + c)) @ ref_quads s"

fun ref_bytes :: "nat list \<Rightarrow> nat list" where
  "ref_bytes [] = []"
| "ref_bytes [a] = []"
| "ref_bytes [a, b] = take 1 (bytes24 (a * 262144 + b * 4096))"
| "ref_bytes [a, b, c] = take 2 (bytes24 (a * 262144 + b * 4096 + c * 64))"
| "ref_bytes (a # b # c # d # s) = bytes24 (a * 262144 + b * 4096 + c * 64 + d) @ ref_bytes s"

text \<open>
  The values of the letters of an input, and whether it has a byte that is neither a letter nor
  may be skipped.
\<close>

definition letters :: "u8 list \<Rightarrow> nat list" where
  "letters inp = List.map_filter (\<lambda>c. value64 (char_of_byte c)) inp"

definition invalid :: "u8 list \<Rightarrow> bool" where
  "invalid inp = list_ex (\<lambda>c. value64 (char_of_byte c) = None \<and> \<not> skipped64 (char_of_byte c)) inp"

section \<open>Letter by letter\<close>

text \<open>The two tables of the code are the alphabet.\<close>

lemma letter64_value64: "v < 64 \<Longrightarrow> value64 (letter64 v) = Some v"
proof -
  have "list_all (\<lambda>v. value64 (letter64 v) = Some v) [0..<64]" by code_simp
  then show "v < 64 \<Longrightarrow> value64 (letter64 v) = Some v" by (rule list_all_upt)
qed

lemma encoding64_eq: "v < 64 \<Longrightarrow> encoding64 ! v = letter64 v"
proof -
  have "list_all (\<lambda>v. encoding64 ! v = letter64 v) [0..<64]" by code_simp
  then show "v < 64 \<Longrightarrow> encoding64 ! v = letter64 v" by (rule list_all_upt)
qed

lemma decoding64_table:
  "list_all2 (\<lambda>i d. case value64 (char_of i) of
      Some v \<Rightarrow> v < 64 \<and> d = of_nat v
    | None \<Rightarrow> d = (if skipped64 (char_of i) then ws else ex)) [0..255 :: int] decoding64"
  by code_simp

lemma decoding64_cases [case_names Letter Skipped Other]:
  obtains v where "value64 (char_of_byte c) = Some v" "v < 64" "decoding64 ! unat c = of_nat v"
      "unat (decoding64 ! unat c) = v"
    | "value64 (char_of_byte c) = None" "skipped64 (char_of_byte c)" "decoding64 ! unat c = ws"
    | "value64 (char_of_byte c) = None" "\<not> skipped64 (char_of_byte c)" "decoding64 ! unat c = ex"
proof -
  have i: "unat c < length [0..255 :: int]" using unat_u8 [of c] by simp
  have "0 + int (unat c) \<le> 255" using unat_u8 [of c] by linarith
  then have "[0..255 :: int] ! unat c = int (unat c)" by (simp only: nth_upto add_0)
  then have n: "char_of ([0..255 :: int] ! unat c) = char_of_byte c"
    by (simp only: char_of_nat char_of_byte_def)
  note table = list_all2_nthD [OF decoding64_table i, unfolded n]
  show ?thesis
  proof (cases "value64 (char_of_byte c)")
    case None
    then show ?thesis using table that(2,3) by (cases "skipped64 (char_of_byte c)") simp_all
  next
    case (Some v)
    then have "v < 64" "decoding64 ! unat c = of_nat v" using table by simp_all
    moreover from this have "unat (decoding64 ! unat c) = v" by (simp add: unat_of_nat)
    ultimately show ?thesis using Some that(1) by blast
  qed
qed

lemma decoding64_range:
  "unat (decoding64 ! unat (c :: u8)) < 64 \<or> decoding64 ! unat c = ex \<or> decoding64 ! unat c = ws"
  by (cases c rule: decoding64_cases) simp_all

lemma encoding64_decode:
  assumes "i < 64"
  shows "unat (decoding64 ! of_char (letter64 i)) = i"
proof -
  have "unat (byte_of (letter64 i)) = of_char (letter64 i)" "char_of_byte (byte_of (letter64 i)) = letter64 i"
    by simp_all
  then show ?thesis
    using letter64_value64 [OF assms] by (cases "byte_of (letter64 i)" rule: decoding64_cases) auto
qed

lemma decoding64_ws: "decoding64 ! 61 = ws" "decoding64 ! 10 = ws"
  by code_simp+

lemma letters_simps [simp]:
  "letters [] = []" "letters (xs @ ys) = letters xs @ letters ys"
  "letters (c # inp) = (if unat (decoding64 ! unat c) < 64
                        then unat (decoding64 ! unat c) # letters inp else letters inp)"
proof -
  show "letters (c # inp) = (if unat (decoding64 ! unat c) < 64
                        then unat (decoding64 ! unat c) # letters inp else letters inp)"
    by (cases c rule: decoding64_cases) (simp_all add: letters_def map_filter_simps)
qed (simp_all add: letters_def map_filter_def)

lemma invalid_simps [simp]:
  "\<not> invalid []" "invalid (xs @ ys) \<longleftrightarrow> invalid xs \<or> invalid ys"
  "invalid (c # inp) \<longleftrightarrow> decoding64 ! unat c = ex \<or> invalid inp"
proof -
  show "invalid (c # inp) \<longleftrightarrow> decoding64 ! unat c = ex \<or> invalid inp"
  proof (cases c rule: decoding64_cases)
    case (Letter v)
    then have "decoding64 ! unat c \<noteq> ex" by auto
    with Letter show ?thesis by (simp add: invalid_def)
  qed (simp_all add: invalid_def)
qed (simp_all add: invalid_def)

text \<open>What the inner loop finds, in terms of the letters of the input.\<close>

lemma base64_next_cases:
  "case base64_next strict inp of
     End_Of_Input \<Rightarrow> letters inp = [] \<and> \<not> (strict \<and> invalid inp)
   | Throw \<Rightarrow> strict \<and> invalid inp
   | Letter f rest \<Rightarrow> unat f < 64 \<and> letters inp = unat f # letters rest \<and>
       (strict \<and> invalid inp \<longleftrightarrow> strict \<and> invalid rest)"
proof (induction strict inp rule: base64_next.induct)
  case (2 strict c inp)
  have exws: "unat ex = 255" "unat ws = 254" "ex \<noteq> ws" by simp_all
  show ?case
  proof (cases "unat (decoding64 ! unat c) < 64")
    case True
    then have "\<not> ws \<le> decoding64 ! unat c" "decoding64 ! unat c \<noteq> ex"
      by (auto simp: word_le_nat_alt)
    with True show ?thesis by (simp add: Let_def)
  next
    case False
    with decoding64_range [of c] have "decoding64 ! unat c = ex \<or> decoding64 ! unat c = ws" by blast
    with 2 show ?thesis by (auto simp: Let_def split: next_letter.splits)
  qed
qed simp

text \<open>The masks and shifts of both loops.\<close>

lemma b64_fields:
  "unat (drop_bit 2 (x AND 0xFC) :: u8) = unat x div 4" "unat (drop_bit 4 (x AND 0xF0) :: u8) = unat x div 16"
  "unat (drop_bit 6 (x AND 0xC0) :: u8) = unat x div 64" "unat (drop_bit 4 (x AND 0x30) :: u8) = unat x div 16 mod 4"
  "unat (drop_bit 2 (x AND 0x3C) :: u8) = unat x div 4 mod 16"
  "unat (x AND 0x03 :: u8) = unat x mod 4" "unat (x AND 0x0F :: u8) = unat x mod 16"
  "unat (x AND 0x3F :: u8) = unat x mod 64"
proof -
  have m: "(0xFC::u8) = push_bit 2 (mask 6)" "(0xF0::u8) = push_bit 4 (mask 4)" "(0xC0::u8) = push_bit 6 (mask 2)"
    "(0x30::u8) = push_bit 4 (mask 2)" "(0x3C::u8) = push_bit 2 (mask 4)" "(0x03::u8) = mask 2"
    "(0x0F::u8) = mask 4" "(0x3F::u8) = mask 6"
    by (simp_all add: mask_eq_exp_minus_1)
  show "unat (drop_bit 2 (x AND 0xFC) :: u8) = unat x div 4" "unat (drop_bit 4 (x AND 0xF0) :: u8) = unat x div 16"
    "unat (drop_bit 6 (x AND 0xC0) :: u8) = unat x div 64" "unat (drop_bit 4 (x AND 0x30) :: u8) = unat x div 16 mod 4"
    "unat (drop_bit 2 (x AND 0x3C) :: u8) = unat x div 4 mod 16"
    "unat (x AND 0x03 :: u8) = unat x mod 4" "unat (x AND 0x0F :: u8) = unat x mod 16"
    "unat (x AND 0x3F :: u8) = unat x mod 64"
    using unat_u8 [of x] unfolding m unat_field unat_and_mask_eq by (simp_all add: div_less)
qed

text \<open>
  The letters \<open>pre\<close> of the current group and what \<open>outchar\<close> keeps of the last of them.
\<close>

fun pending :: "b64_step \<Rightarrow> nat list \<Rightarrow> u8 \<Rightarrow> bool" where
  "pending Step0 pre oc \<longleftrightarrow> pre = []"
| "pending Step1 pre oc \<longleftrightarrow> (\<exists>a x. pre = [a] \<and> a < 64 \<and> oc = push_bit 2 x \<and> unat x = a)"
| "pending Step2 pre oc \<longleftrightarrow> (\<exists>a b x. pre = [a, b] \<and> a < 64 \<and> b < 64 \<and> oc = push_bit 4 x \<and> unat x = b mod 16)"
| "pending Step3 pre oc \<longleftrightarrow>
     (\<exists>a b c x. pre = [a, b, c] \<and> a < 64 \<and> b < 64 \<and> c < 64 \<and> oc = push_bit 6 x \<and> unat x = c mod 4)"

lemma pendingI:
  "unat x = a \<Longrightarrow> a < 64 \<Longrightarrow> pending Step1 [a] (push_bit 2 x)"
  "unat x = b mod 16 \<Longrightarrow> a < 64 \<Longrightarrow> b < 64 \<Longrightarrow> pending Step2 [a, b] (push_bit 4 x)"
  "unat x = c mod 4 \<Longrightarrow> a < 64 \<Longrightarrow> b < 64 \<Longrightarrow> c < 64 \<Longrightarrow> pending Step3 [a, b, c] (push_bit 6 x)"
  by auto

lemma char_of_byte_nat: "unat w = n \<Longrightarrow> char_of_byte w = char_of n"
  by (simp add: char_of_byte_def)

text \<open>Three 6-bit shifts of a 24-bit group.\<close>

lemma div_pos: "r < (m::nat) \<Longrightarrow> (k * m + r) div m = k" "r < (m::nat) \<Longrightarrow> (k * m + r) mod m = r"
  by simp_all

lemma bytes24_of:
  assumes "y < 256" "z < 256"
  shows "bytes24 (x * 65536 + y * 256 + z) = [x, y, z]"
proof -
  have e: "x * 65536 + y * 256 + z = (x * 256 + y) * 256 + z"
    "x * 65536 + y * 256 + z = x * 65536 + (y * 256 + z)" by simp_all
  have "(x * 65536 + y * 256 + z) div 256 = x * 256 + y" "(x * 65536 + y * 256 + z) mod 256 = z"
    unfolding e(1) by (rule div_pos [OF assms(2)])+
  moreover have "(x * 65536 + y * 256 + z) div 65536 = x"
    unfolding e(2) by (rule div_pos) (use assms in linarith)
  moreover have "(x * 256 + y) mod 256 = y" by (rule div_pos [OF assms(1)])
  ultimately show ?thesis by (simp only: bytes24_def)
qed

lemma regroup:
  "a * 262144 + (p * 16 + q) * 4096 + (r * 4 + s) * 64 + d
   = (a * 4 + p) * 65536 + (q * 16 + r) * 256 + (s * 64 + d)" for a d p q r s :: nat
  by (simp add: distrib_right)

lemma bytes24_parts:
  assumes "c < 64" "d < 64"
  shows "bytes24 (a * 262144 + b * 4096 + c * 64 + d)
       = [a * 4 + b div 16, b mod 16 * 16 + c div 4, c mod 4 * 64 + d]"
proof -
  have "a * 262144 + b * 4096 + c * 64 + d
      = (a * 4 + b div 16) * 65536 + (b mod 16 * 16 + c div 4) * 256 + (c mod 4 * 64 + d)"
    using regroup [of a "b div 16" "b mod 16" "c div 4" "c mod 4" d] by (simp only: div_mult_mod_eq)
  moreover have "b mod 16 < 16" "c div 4 < 16" "c mod 4 < 4" using assms by (auto simp: less_mult_imp_div_less)
  then have "b mod 16 * 16 + c div 4 < 256" "c mod 4 * 64 + d < 256"
    using assms by linarith+
  ultimately show ?thesis by (simp only: bytes24_of)
qed

section \<open>The decoder is the reference on the letters\<close>

lemma ref_bytes_short:
  "ref_bytes [a, b] = [a * 4 + b div 16]"
  "c < 64 \<Longrightarrow> ref_bytes [a, b, c] = [a * 4 + b div 16, b mod 16 * 16 + c div 4]"
  using bytes24_parts [of 0 0 a b] bytes24_parts [of c 0 a b] by simp_all

lemma decode_step1:
  assumes "unat x < 64" "unat f < 64"
  shows "unat (push_bit 2 x OR drop_bit 4 (f AND 0x30) :: u8) = unat x * 4 + unat f div 16"
proof -
  have f: "unat (drop_bit 4 (f AND 0x30) :: u8) = unat f div 16"
    using assms(2) by (simp only: b64_fields) (simp add: less_mult_imp_div_less)
  have "unat f div 16 < 4" using assms(2) by (simp add: less_mult_imp_div_less)
  with assms show ?thesis using unat_push_or [of "drop_bit 4 (f AND 0x30)" 2 x] unfolding f by simp
qed

lemma decode_step2:
  assumes "unat x < 16" "unat f < 64"
  shows "unat (push_bit 4 x OR drop_bit 2 (f AND 0x3C) :: u8) = unat x * 16 + unat f div 4"
proof -
  have f: "unat (drop_bit 2 (f AND 0x3C) :: u8) = unat f div 4"
    using assms(2) by (simp only: b64_fields) (simp add: less_mult_imp_div_less)
  have "unat f div 4 < 16" using assms(2) by (simp add: less_mult_imp_div_less)
  with assms show ?thesis using unat_push_or [of "drop_bit 2 (f AND 0x3C)" 4 x] unfolding f by simp
qed

lemma decode_step3:
  assumes "unat x < 4" "unat f < 64"
  shows "unat (push_bit 6 x OR (f AND 0x3F) :: u8) = unat x * 64 + unat f"
proof -
  have f: "unat (f AND 0x3F :: u8) = unat f" using assms(2) by (simp only: b64_fields) simp
  with assms show ?thesis using unat_push_or [of "f AND 0x3F" 6 x] by simp
qed

lemma base64_decode_loop_spec:
  assumes "pending st pre oc"
  shows "base64_decode_loop strict st oc (done @ map char_of (ref_bytes pre)) inp =
    (if strict \<and> invalid inp then Inl base64_error
     else Inr (done @ map char_of (ref_bytes (pre @ letters inp))))"
  using assms
proof (induction "length inp" arbitrary: st pre oc "done" inp rule: less_induct)
  case less
  show ?case
  proof (cases "base64_next strict inp")
    case End_Of_Input
    with base64_next_cases [where strict = strict and inp = inp] show ?thesis
      by (subst base64_decode_loop.simps) auto
  next
    case Throw
    with base64_next_cases [where strict = strict and inp = inp] show ?thesis
      by (subst base64_decode_loop.simps) simp
  next
    case (Letter f rest)
    with base64_next_cases [where strict = strict and inp = inp] have f: "unat f < 64" "letters inp = unat f # letters rest"
      "strict \<and> invalid inp \<longleftrightarrow> strict \<and> invalid rest" by auto
    note IH = less.hyps [OF base64_next_shorter [OF Letter]]
    have fm: "unat (f AND 0x0F :: u8) = unat f mod 16" "unat (f AND 0x03 :: u8) = unat f mod 4"
      "unat (f AND 0x3F :: u8) = unat f"
      using f(1) by (simp_all only: b64_fields) simp
    show ?thesis
    proof (cases st)
      case Step0
      then have "pre = []" using less.prems by simp
      with Step0 Letter f fm show ?thesis
        using IH [OF pendingI(1) [OF fm(3) f(1)], of "done"]
        by (subst base64_decode_loop.simps) simp
    next
      case Step1
      with less.prems obtain a x where p: "pre = [a]" "a < 64" "oc = push_bit 2 x" "unat x = a" by auto
      have "char_of_byte (oc OR drop_bit 4 (f AND 0x30)) = char_of (a * 4 + unat f div 16)"
        using decode_step1 [of x f] p f(1) by (intro char_of_byte_nat) simp
      with Step1 Letter f fm p show ?thesis
        using IH [OF pendingI(2) [OF fm(1) p(2) f(1)], of "done"]
        by (subst base64_decode_loop.simps) (simp add: Let_def ref_bytes_short del: ref_bytes.simps(3,4))
    next
      case Step2
      with less.prems obtain a b x where p: "pre = [a, b]" "a < 64" "b < 64" "oc = push_bit 4 x" "unat x = b mod 16"
        by auto
      have "char_of_byte (oc OR drop_bit 2 (f AND 0x3C)) = char_of (b mod 16 * 16 + unat f div 4)"
        using decode_step2 [of x f] p f(1) by (intro char_of_byte_nat) simp
      with Step2 Letter f fm p show ?thesis
        using IH [OF pendingI(3) [OF fm(2) p(2,3) f(1)], of "done"]
        by (subst base64_decode_loop.simps) (simp add: Let_def ref_bytes_short del: ref_bytes.simps(3,4))
    next
      case Step3
      with less.prems obtain a b c x where p: "pre = [a, b, c]" "a < 64" "b < 64" "c < 64"
        "oc = push_bit 6 x" "unat x = c mod 4"
        by auto
      have "char_of_byte (oc OR (f AND 0x3F)) = char_of (c mod 4 * 64 + unat f)"
        using decode_step3 [of x f] p f(1) by (intro char_of_byte_nat) simp
      with Step3 Letter f fm p show ?thesis
        using IH [of Step0 "[]" "oc OR (f AND 0x3F)" "done @ map char_of (bytes24 (a * 262144 + b * 4096 + c * 64 + unat f))"]
        by (subst base64_decode_loop.simps) (simp add: Let_def ref_bytes_short bytes24_parts del: ref_bytes.simps(3,4))
    qed
  qed
qed

text \<open>
  C36. The decoder throws exactly in strict mode on an input with a byte that is not a letter of
  the alphabet of RFC 3548, the padding sign or white space. Otherwise it gives the bytes that the
  RFC assigns to the letters of the input: every other byte is skipped wherever it stands, so a
  padding sign inside the text does not end it.
\<close>

theorem base64_decode_correct:
  "base64_decode data strict =
     (if strict \<and> invalid data then Inl base64_error
      else Inr (map char_of (ref_bytes (letters data))))"
  using base64_decode_loop_spec [of Step0 "[]" 0 strict "[]" data] by (simp add: base64_decode_def)

section \<open>The encoder is the reference with line breaks\<close>

lemma regroup64:
  "(p * 4 + q) * 65536 + (r * 16 + s) * 256 + (t * 64 + u)
   = ((p * 64 + (q * 16 + r)) * 64 + (s * 4 + t)) * 64 + u" for p q r s t u :: nat
  by (simp add: distrib_right)

lemma digits64_of:
  assumes "x < 64" "y < 64" "z < 64"
  shows "digits64 (((w * 64 + x) * 64 + y) * 64 + z) = [w, x, y, z]"
proof -
  have 1: "(((w * 64 + x) * 64 + y) * 64 + z) div 64 = (w * 64 + x) * 64 + y"
    "(((w * 64 + x) * 64 + y) * 64 + z) mod 64 = z" by (rule div_pos [OF assms(3)])+
  have 2: "((w * 64 + x) * 64 + y) div 64 = w * 64 + x" "((w * 64 + x) * 64 + y) mod 64 = y"
    by (rule div_pos [OF assms(2)])+
  have 3: "(w * 64 + x) div 64 = w" "(w * 64 + x) mod 64 = x" by (rule div_pos [OF assms(1)])+
  have d: "n div 4096 = n div 64 div 64" "n div 262144 = n div 64 div 64 div 64" for n :: nat
    by (simp_all flip: div_mult2_eq)
  show ?thesis unfolding digits64_def d 1 2 3 ..
qed

lemma digits64_parts:
  assumes "b < 256" "c < 256"
  shows "digits64 (a * 65536 + b * 256 + c)
       = [a div 4, a mod 4 * 16 + b div 16, b mod 16 * 4 + c div 64, c mod 64]"
proof -
  have "b div 16 < 16" "c div 64 < 4" using assms by (auto simp: less_mult_imp_div_less)
  moreover have "a mod 4 < 4" "b mod 16 < 16" "c mod 64 < 64" by auto
  ultimately have "a mod 4 * 16 + b div 16 < 64" "b mod 16 * 4 + c div 64 < 64" "c mod 64 < 64"
    by linarith+
  from digits64_of [OF this, of "a div 4"]
  show ?thesis unfolding regroup64 [symmetric] div_mult_mod_eq .
qed

lemma enc_letters:
  "enc (drop_bit 2 (a AND 0xFC)) = letter64 (unat a div 4)"
  "enc (push_bit 4 (a AND 0x03)) = letter64 (unat a mod 4 * 16)"
  "enc (push_bit 4 (a AND 0x03) OR drop_bit 4 (b AND 0xF0)) = letter64 (unat a mod 4 * 16 + unat b div 16)"
  "enc (push_bit 2 (b AND 0x0F)) = letter64 (unat b mod 16 * 4)"
  "enc (push_bit 2 (b AND 0x0F) OR drop_bit 6 (c AND 0xC0)) = letter64 (unat b mod 16 * 4 + unat c div 64)"
  "enc (c AND 0x3F) = letter64 (unat c mod 64)"
proof -
  have lt: "unat b div 16 < 16" "unat c div 64 < 4" "unat a mod 4 < 4" "unat b mod 16 < 16"
    using unat_u8 [of b] unat_u8 [of c] by (auto simp: less_mult_imp_div_less)
  have 1: "unat (push_bit 4 (a AND 0x03) OR drop_bit 4 (b AND 0xF0)) = unat a mod 4 * 16 + unat b div 16"
    using unat_push_or [of "drop_bit 4 (b AND 0xF0)" 4 "a AND 0x03"] lt unfolding b64_fields by simp
  have 2: "unat (push_bit 2 (b AND 0x0F) OR drop_bit 6 (c AND 0xC0)) = unat b mod 16 * 4 + unat c div 64"
    using unat_push_or [of "drop_bit 6 (c AND 0xC0)" 2 "b AND 0x0F"] lt unfolding b64_fields by simp
  have 3: "unat (push_bit 4 (a AND 0x03)) = unat a mod 4 * 16"
    using unat_push_or [of "0 :: u8" 4 "a AND 0x03"] lt unfolding b64_fields or.right_neutral by simp
  have 4: "unat (push_bit 2 (b AND 0x0F)) = unat b mod 16 * 4"
    using unat_push_or [of "0 :: u8" 2 "b AND 0x0F"] lt unfolding b64_fields or.right_neutral by simp
  show "enc (drop_bit 2 (a AND 0xFC)) = letter64 (unat a div 4)"
    "enc (push_bit 4 (a AND 0x03)) = letter64 (unat a mod 4 * 16)"
    "enc (push_bit 4 (a AND 0x03) OR drop_bit 4 (b AND 0xF0)) = letter64 (unat a mod 4 * 16 + unat b div 16)"
    "enc (push_bit 2 (b AND 0x0F)) = letter64 (unat b mod 16 * 4)"
    "enc (push_bit 2 (b AND 0x0F) OR drop_bit 6 (c AND 0xC0)) = letter64 (unat b mod 16 * 4 + unat c div 64)"
    "enc (c AND 0x3F) = letter64 (unat c mod 64)"
    unfolding enc_def 1 2 3 4 b64_fields by (rule encoding64_eq; use lt unat_u8 [of a] in \<open>simp add: less_mult_imp_div_less\<close>)+
qed

text \<open>The last group, and a full one, spell the reference letters.\<close>

lemma enc_quads:
  "ref_quads [unat a] = [enc (drop_bit 2 (a AND 0xFC)), enc (push_bit 4 (a AND 0x03)), CHR ''='', CHR ''='']"
  "ref_quads [unat a, unat b] =
     [enc (drop_bit 2 (a AND 0xFC)), enc (push_bit 4 (a AND 0x03) OR drop_bit 4 (b AND 0xF0)),
      enc (push_bit 2 (b AND 0x0F)), CHR ''='']"
  "ref_quads (unat a # unat b # unat c # s) =
     [enc (drop_bit 2 (a AND 0xFC)), enc (push_bit 4 (a AND 0x03) OR drop_bit 4 (b AND 0xF0)),
      enc (push_bit 2 (b AND 0x0F) OR drop_bit 6 (c AND 0xC0)), enc (c AND 0x3F)] @ ref_quads s"
  unfolding enc_letters
  using digits64_parts [of 0 0 "unat a"] digits64_parts [of "unat b" 0 "unat a"]
    digits64_parts [of "unat b" "unat c" "unat a"] unat_u8 [of b] unat_u8 [of c]
  by simp_all

text \<open>
  Line breaks, for a length that is a multiple of four: a newline after every \<open>n\<close> letters, also
  after a full last line, unless the text ends in a padded group (\<open>nl\<close> is false then).
\<close>

fun wrap :: "nat \<Rightarrow> bool \<Rightarrow> string \<Rightarrow> string" where
  "wrap n nl e =
     (if n = 0 \<or> length e < n then e
      else if length e = n then (if nl then e @ [CHR 0x0A] else e)
      else take n e @ [CHR 0x0A] @ wrap n nl (drop n e))"

declare wrap.simps [simp del]

lemma wrap_short: "length e < n \<Longrightarrow> wrap n nl e = e"
  by (subst wrap.simps) simp

lemma wrap_line:
  assumes "0 < n" "length l = n" "e = [] \<Longrightarrow> nl"
  shows "wrap n nl (l @ e) = l @ [CHR 0x0A] @ wrap n nl e"
proof (cases "e = []")
  case True
  with assms have "wrap n nl e = []" "nl" by (simp_all add: wrap_short)
  with True assms show ?thesis by (subst wrap.simps) simp
next
  case False
  with assms show ?thesis by (subst wrap.simps) simp
qed

lemma ref_quads_empty: "ref_quads s = [] \<longleftrightarrow> s = []"
  by (cases s rule: ref_quads.cases) (auto simp: digits64_def)

lemma encode_loop_groups:
  "base64_encode_loop n out lb [a] = out @ ref_quads [unat a]"
  "base64_encode_loop n out lb [a, b] = out @ ref_quads [unat a, unat b]"
  "base64_encode_loop n out lb (a # b # c # inp) =
     (let out = out @ ref_quads [unat a, unat b, unat c]
      in if 0 < n \<and> n \<le> length out - lb
         then base64_encode_loop n (out @ [CHR 0x0A]) (length (out @ [CHR 0x0A])) inp
         else base64_encode_loop n out lb inp)"
  by (simp_all only: base64_encode_loop.simps enc_quads ref_quads.simps(1) append_Nil2 Let_def)

lemma ref_quads_split: "ref_quads (a # b # c # s) = ref_quads [a, b, c] @ ref_quads s"
  by simp

lemma ref_quads_length: "length (ref_quads [a]) = 4" "length (ref_quads [a, b]) = 4"
  "length (ref_quads [a, b, c]) = 4"
  by (simp_all add: digits64_def)

lemmas quads_opaque = encode_loop_groups ref_quads_split ref_quads_length

declare ref_quads.simps(2-) [simp del] base64_encode_loop.simps(2-) [simp del]

lemma ref_quads_cases [case_names Nil One Two Three]:
  obtains "xs = []" | a where "xs = [a]" | a b where "xs = [a, b]" | a b c r where "xs = a # b # c # r"
  by (metis list.exhaust)

lemma encode_loop_letters:
  "letters (map byte_of (base64_encode_loop n out lb inp))
     = letters (map byte_of out) @ letters (map byte_of (ref_quads (map unat inp)))
   \<and> (invalid (map byte_of (base64_encode_loop n out lb inp))
     \<longleftrightarrow> invalid (map byte_of out) \<or> invalid (map byte_of (ref_quads (map unat inp))))"
proof (induction "length inp" arbitrary: out lb inp rule: less_induct)
  case less
  show ?case
  proof (cases inp rule: remdups_adj.cases)
    case (3 a b s)
    show ?thesis
    proof (cases s)
      case Nil
      with 3 show ?thesis by (simp add: encode_loop_groups)
    next
      case (Cons c r)
      have "length r < length inp" using 3 Cons by simp
      note IH = less.hyps [OF this]
      have q: "ref_quads (map unat inp) = ref_quads [unat a, unat b, unat c] @ ref_quads (map unat r)"
        unfolding 3 Cons list.map by (rule ref_quads_split)
      show ?thesis
        unfolding q unfolding 3 Cons encode_loop_groups Let_def
        by (simp add: IH decoding64_ws)
    qed
  qed (simp_all add: encode_loop_groups)
qed

lemma encode_loop_wrap:
  assumes "0 < n" "4 dvd n" "lb \<le> length out" "length out - lb < n" "4 dvd length out - lb"
  shows "base64_encode_loop n out lb inp
       = take lb out @ wrap n (length inp mod 3 = 0) (drop lb out @ ref_quads (map unat inp))"
  using assms(3-)
proof (induction "length inp" arbitrary: out lb inp rule: less_induct)
  case less
  let ?k = "length out - lb"
  have k4: "?k + 4 \<le> n" using less.prems(2,3) assms(2) by (auto elim!: dvdE)
  have last: "wrap n False (drop lb out @ q) = drop lb out @ q" if "length q = 4" for q
    using k4 that by (subst wrap.simps) auto
  show ?case
  proof (cases inp rule: remdups_adj.cases)
    case 1
    with less.prems show ?thesis by (simp add: wrap_short)
  next
    case (2 a)
    with last [OF ref_quads_length(1)] show ?thesis by (simp add: encode_loop_groups)
  next
    case (3 a b s)
    show ?thesis
    proof (cases s)
      case Nil
      with 3 last [OF ref_quads_length(2)] show ?thesis by (simp add: encode_loop_groups)
    next
      case (Cons c r)
      let ?q = "ref_quads [unat a, unat b, unat c]"
      have "length r < length inp" using 3 Cons by simp
      note IH = less.hyps [OF this]
      have q: "ref_quads (map unat inp) = ?q @ ref_quads (map unat r)"
        unfolding 3 Cons list.map by (rule ref_quads_split)
      have m: "length inp mod 3 = 0 \<longleftrightarrow> length r mod 3 = 0" using 3 Cons by simp
      show ?thesis
      proof (cases "?k + 4 = n")
        case True
        have "ref_quads (map unat r) = [] \<Longrightarrow> length r mod 3 = 0" by (simp add: ref_quads_empty)
        then have "wrap n (length r mod 3 = 0) ((drop lb out @ ?q) @ ref_quads (map unat r))
            = (drop lb out @ ?q) @ [CHR 0x0A] @ wrap n (length r mod 3 = 0) (ref_quads (map unat r))"
          using True assms(1) by (intro wrap_line) (simp_all add: ref_quads_length)
        moreover have "n \<le> length (out @ ?q) - lb" using True less.prems(1) by (simp add: ref_quads_length)
        ultimately show ?thesis
          using IH [of "length (out @ ?q @ [CHR 0x0A])" "out @ ?q @ [CHR 0x0A]"] assms(1) less.prems(1)
          unfolding q m unfolding 3 Cons encode_loop_groups Let_def by simp
      next
        case False
        with k4 have lt: "length (out @ ?q) - lb < n" using less.prems(1) by (simp add: ref_quads_length)
        moreover have "length (out @ ?q) - lb = ?k + 4" using less.prems(1) by (simp add: ref_quads_length)
        then have "4 dvd length (out @ ?q) - lb" using less.prems(3) by simp
        ultimately show ?thesis
          using IH [of lb "out @ ?q"] less.prems(1)
          unfolding q m unfolding 3 Cons encode_loop_groups Let_def by simp
      qed
    qed
  qed
qed

text \<open>The letters of the reference encoding are its digits, and decoding them gives the bytes back.\<close>

lemma encoding64_not_ex: "i < 64 \<Longrightarrow> decoding64 ! of_char (letter64 i) \<noteq> ex"
  using encoding64_decode [of i] by auto

lemma digit_parts:
  assumes "b < (256::nat)" "c < 256"
  shows "a div 4 * 4 + (a mod 4 * 16 + b div 16) div 16 = a"
    "(a mod 4 * 16 + b div 16) mod 16 * 16 + (b mod 16 * 4 + c div 64) div 4 = b"
    "(b mod 16 * 4 + c div 64) mod 4 * 64 + c mod 64 = c"
proof -
  have "b div 16 < 16" "c div 64 < 4" using assms by (auto simp: less_mult_imp_div_less)
  note p = div_pos [OF this(1)] div_pos [OF this(2)]
  show "a div 4 * 4 + (a mod 4 * 16 + b div 16) div 16 = a"
    "(a mod 4 * 16 + b div 16) mod 16 * 16 + (b mod 16 * 4 + c div 64) div 4 = b"
    "(b mod 16 * 4 + c div 64) mod 4 * 64 + c mod 64 = c"
    unfolding p by (rule div_mult_mod_eq)+
qed

lemma digit_bounds:
  assumes "a < (256::nat)" "b < 256" "c < 256"
  shows "a div 4 < 64" "a mod 4 * 16 + b div 16 < 64" "b mod 16 * 4 + c div 64 < 64" "c mod 64 < 64"
proof -
  have "a mod 4 < 4" "b div 16 < 16" "b mod 16 < 16" "c div 64 < 4"
    using assms by (auto simp: less_mult_imp_div_less)
  then show "a div 4 < 64" "a mod 4 * 16 + b div 16 < 64" "b mod 16 * 4 + c div 64 < 64" "c mod 64 < 64"
    using assms by (simp_all add: less_mult_imp_div_less)
qed

lemma ref_bytes_group: "c < 64 \<Longrightarrow> d < 64 \<Longrightarrow> ref_bytes (a # b # c # d # s)
    = [a * 4 + b div 16, b mod 16 * 16 + c div 4, c mod 4 * 64 + d] @ ref_bytes s"
  by (simp add: bytes24_parts)

lemma ref_quads_letters:
  assumes "a < 256" "b < 256" "c < 256"
  shows "letters (map byte_of (ref_quads [a])) = [a div 4, a mod 4 * 16] \<and> \<not> invalid (map byte_of (ref_quads [a]))"
    "letters (map byte_of (ref_quads [a, b])) = [a div 4, a mod 4 * 16 + b div 16, b mod 16 * 4]
       \<and> \<not> invalid (map byte_of (ref_quads [a, b]))"
    "letters (map byte_of (ref_quads [a, b, c]))
       = [a div 4, a mod 4 * 16 + b div 16, b mod 16 * 4 + c div 64, c mod 64]
       \<and> \<not> invalid (map byte_of (ref_quads [a, b, c]))"
proof -
  have 0: "(0::nat) < 256" by simp
  note d = digits64_parts [OF 0 0, of a] digits64_parts [OF assms(2) 0, of a] digits64_parts [OF assms(2,3), of a]
  show "letters (map byte_of (ref_quads [a])) = [a div 4, a mod 4 * 16] \<and> \<not> invalid (map byte_of (ref_quads [a]))"
    "letters (map byte_of (ref_quads [a, b])) = [a div 4, a mod 4 * 16 + b div 16, b mod 16 * 4]
       \<and> \<not> invalid (map byte_of (ref_quads [a, b]))"
    "letters (map byte_of (ref_quads [a, b, c]))
       = [a div 4, a mod 4 * 16 + b div 16, b mod 16 * 4 + c div 64, c mod 64]
       \<and> \<not> invalid (map byte_of (ref_quads [a, b, c]))"
    using d digit_bounds [OF assms] digit_bounds [OF assms(1,2) 0] digit_bounds [OF assms(1) 0 0]
    by (simp_all add: ref_quads.simps decoding64_ws encoding64_decode encoding64_not_ex)
qed

lemma ref_roundtrip:
  "list_all (\<lambda>x. x < 256) s \<Longrightarrow>
     ref_bytes (letters (map byte_of (ref_quads s))) = s \<and> \<not> invalid (map byte_of (ref_quads s))"
proof (induction s rule: ref_quads.induct)
  case (2 a)
  with ref_quads_letters(1) [of a] digit_parts(1) [of 0 0 a] show ?case
    by (simp add: ref_bytes_short del: ref_bytes.simps(3))
next
  case (3 a b)
  then have "a < 256" "b < 256" by simp_all
  with ref_quads_letters(2) [of a b] digit_parts(1,2) [of b 0 a] digit_bounds(3) [of a b 0] show ?case
    by (simp add: ref_bytes_short del: ref_bytes.simps(4))
next
  case (4 a b c s)
  then have lt: "a < 256" "b < 256" "c < 256" "list_all (\<lambda>x. x < 256) s" by simp_all
  note l = ref_quads_letters(3) [OF lt(1-3)] and IH = 4(1) [OF lt(4)]
  have "letters (map byte_of (ref_quads (a # b # c # s))) =
      a div 4 # (a mod 4 * 16 + b div 16) # (b mod 16 * 4 + c div 64) # (c mod 64) #
      letters (map byte_of (ref_quads s))"
    by (subst ref_quads_split) (simp only: map_append letters_simps(2) l append_Cons append_Nil)
  then have "ref_bytes (letters (map byte_of (ref_quads (a # b # c # s)))) = a # b # c # s"
    by (simp only: ref_bytes_group [OF digit_bounds(3,4) [OF lt(1-3)]] digit_parts [OF lt(2,3)] IH
        append_Cons append_Nil)
  moreover have "\<not> invalid (map byte_of (ref_quads (a # b # c # s)))"
    by (subst ref_quads_split) (simp only: map_append invalid_simps(2) l IH not_False_eq_True simp_thms)
  ultimately show ?case ..
qed (simp add: letters_def)

text \<open>
  Decoding inverts encoding, for every byte string, every line length and in both modes.
\<close>

theorem base64_roundtrip:
  "base64_decode_str (base64_encode_str str line_break) strict = Inr str"
proof -
  let ?bs = "map unat (map byte_of str)" and ?out = "map byte_of (base64_encode_str str line_break)"
  have "list_all (\<lambda>x. x < 256) ?bs" by (simp add: list_all_iff)
  note r = ref_roundtrip [OF this]
  have "letters ?out = letters (map byte_of (ref_quads ?bs)) \<and> (invalid ?out \<longleftrightarrow> invalid (map byte_of (ref_quads ?bs)))"
    using encode_loop_letters [of line_break "[]" 0 "map byte_of str"]
    by (simp add: base64_encode_str_def base64_encode_def)
  then have "letters ?out = letters (map byte_of (ref_quads ?bs))" "\<not> invalid ?out" using r by auto
  then have "base64_decode_str (base64_encode_str str line_break) strict = Inr (map char_of ?bs)"
    using base64_decode_loop_spec [of Step0 "[]" 0 strict "[]" ?out] r
    by (simp add: base64_decode_str_def base64_decode_def)
  then show ?thesis by (simp add: comp_def)
qed

text \<open>
  Without line breaks the encoder gives the letters of RFC 3548; with a line length that is a
  multiple of four it gives the same letters in lines of exactly that length, each ended by a
  newline except an incomplete or padded last one.
\<close>

theorem base64_encode_correct:
  "base64_encode data 0 = ref_quads (map unat data)
   \<and> base64_encode data (4 * k + 4) = wrap (4 * k + 4) (length data mod 3 = 0) (ref_quads (map unat data))"
proof -
  have "base64_encode_loop 0 out lb inp = out @ ref_quads (map unat inp)" for out lb inp
  proof (induction "length inp" arbitrary: out lb inp rule: less_induct)
    case less
    show ?case
    proof (cases inp rule: ref_quads_cases)
      case (Three a b c r)
      have q: "ref_quads (map unat inp) = ref_quads [unat a, unat b, unat c] @ ref_quads (map unat r)"
        unfolding Three list.map by (rule ref_quads_split)
      have "length r < length inp" using Three by simp
      from less.hyps [OF this] show ?thesis
        unfolding q unfolding Three encode_loop_groups Let_def by simp
    qed (simp_all add: encode_loop_groups)
  qed
  moreover have "base64_encode_loop (4 * k + 4) [] 0 data
      = wrap (4 * k + 4) (length data mod 3 = 0) (ref_quads (map unat data))"
    using encode_loop_wrap [of "4 * k + 4" 0 "[]" data] by simp
  moreover have "wrap (4 * k + 4) nl [] = []" for nl by (simp add: wrap_short)
  ultimately show ?thesis by (simp add: base64_encode_def)
qed

end
