(* ===== verification/Civil_Time.thy ===== *)
theory Civil_Time
  imports Prelude
begin

text \<open>
  \<open>abel/chrono/internal/chrono_time_detail.h\<close>: civil (calendar) time. All arithmetic of the code
  is on \<open>int64\<close>, where an overflow is undefined; every such operation is \<open>ck\<close> of its exact result
  here, so that a function that overflows gives \<open>None\<close> and a theorem with \<open>Some\<close> also says that
  no operation overflows. Fields and results are \<open>int\<close>; \<open>/\<close> and \<open>%\<close> are the truncating \<open>sdiv\<close>, \<open>smod\<close>.
\<close>

section \<open>Fields and normalization\<close>

record fields =
  fy :: int
  fm :: int
  fd :: int
  fhh :: int
  fmm :: int
  fss :: int

text \<open>\<open>static_cast\<close> to the 8-bit field types.\<close>

definition cast8 :: "int \<Rightarrow> int" where
  "cast8 x = (x + 128) mod 256 - 128"

definition mk_fields :: "int \<Rightarrow> int \<Rightarrow> int \<Rightarrow> int \<Rightarrow> int \<Rightarrow> int \<Rightarrow> fields" where
  "mk_fields y m d hh mm ss = \<lparr>fy = y, fm = m, fd = d, fhh = hh, fmm = mm, fss = ss\<rparr>"

definition is_leap_year :: "int \<Rightarrow> bool" where
  "is_leap_year y \<longleftrightarrow> y smod 4 = 0 \<and> (y smod 100 \<noteq> 0 \<or> y smod 400 = 0)"

definition year_index :: "int \<Rightarrow> int \<Rightarrow> int option" where
  "year_index y m = do {
     y \<leftarrow> ck (y + (if 2 < m then 1 else 0));
     Some ((y smod 400 + 400) smod 400)
   }"

definition days_per_century :: "int \<Rightarrow> int \<Rightarrow> int option" where
  "days_per_century y m = do {
     yi \<leftarrow> year_index y m;
     Some (36524 + (if yi = 0 \<or> 300 < yi then 1 else 0))
   }"

definition days_per_4years :: "int \<Rightarrow> int \<Rightarrow> int option" where
  "days_per_4years y m = do {
     yi \<leftarrow> year_index y m;
     Some (1460 + (if yi = 0 \<or> 300 < yi \<or> (yi - 1) smod 100 < 96 then 1 else 0))
   }"

definition days_per_year :: "int \<Rightarrow> int \<Rightarrow> int option" where
  "days_per_year y m = do {
     y \<leftarrow> ck (y + (if 2 < m then 1 else 0));
     Some (if is_leap_year y then 366 else 365)
   }"

definition k_days_per_month :: "int list" where
  "k_days_per_month = [-1, 31, 28, 31, 30, 31, 30, 31, 31, 30, 31, 30, 31]"

definition days_per_month :: "int \<Rightarrow> int \<Rightarrow> int" where
  "days_per_month y m = k_days_per_month ! nat m + (if m = 2 \<and> is_leap_year y then 1 else 0)"

text \<open>
  The three year loops have one shape: subtract the days of a run of \<open>k\<close> years while \<open>d\<close> exceeds
  them. That they end is proved below, from the run having a positive number of days.
\<close>

partial_function (option) year_loop ::
    "(int \<Rightarrow> int \<Rightarrow> int option) \<Rightarrow> int \<Rightarrow> int \<Rightarrow> int \<Rightarrow> int \<Rightarrow> (int \<times> int) option" where
  "year_loop per k m y d =
     do { n \<leftarrow> per y m;
          if n < d then do { d \<leftarrow> ck (d - n); y \<leftarrow> ck (y + k); year_loop per k m y d }
          else Some (y, d) }"

partial_function (option) month_loop :: "int \<Rightarrow> int \<Rightarrow> int \<Rightarrow> (int \<times> int \<times> int) option" where
  "month_loop y m d =
     (let n = days_per_month y m in
      if n < d
      then do { d \<leftarrow> ck (d - n);
                if 12 < m + 1 then do { y \<leftarrow> ck (y + 1); month_loop y 1 d }
                else month_loop y (m + 1) d }
      else Some (y, m, d))"

definition n_day :: "int \<Rightarrow> int \<Rightarrow> int \<Rightarrow> int \<Rightarrow> int \<Rightarrow> int \<Rightarrow> int \<Rightarrow> fields option" where
  "n_day y m d cd hh mm ss = do {
     y \<leftarrow> ck (y + cd sdiv 146097 * 400);
     let cd = cd smod 146097;
     (y, cd) \<leftarrow> (if cd < 0 then do { y \<leftarrow> ck (y - 400); Some (y, cd + 146097) } else Some (y, cd));
     y \<leftarrow> ck (y + d sdiv 146097 * 400);
     d \<leftarrow> ck (d smod 146097 + cd);
     (y, d) \<leftarrow> (if 0 < d
                then if 146097 < d then do { y \<leftarrow> ck (y + 400); Some (y, d - 146097) } else Some (y, d)
                else if - 365 < d then do { y \<leftarrow> ck (y - 1); n \<leftarrow> days_per_year y m; Some (y, d + n) }
                else do { y \<leftarrow> ck (y - 400); Some (y, d + 146097) });
     (y, d) \<leftarrow> (if 365 < d
                then do { (y, d) \<leftarrow> year_loop days_per_century 100 m y d;
                          (y, d) \<leftarrow> year_loop days_per_4years 4 m y d;
                          year_loop days_per_year 1 m y d }
                else Some (y, d));
     (y, m, d) \<leftarrow> (if 28 < d then month_loop y m d else Some (y, m, d));
     Some (mk_fields y m (cast8 d) hh mm ss)
   }"

definition n_mon :: "int \<Rightarrow> int \<Rightarrow> int \<Rightarrow> int \<Rightarrow> int \<Rightarrow> int \<Rightarrow> int \<Rightarrow> fields option" where
  "n_mon y m d cd hh mm ss = do {
     (y, m) \<leftarrow> (if m \<noteq> 12
                then do { y \<leftarrow> ck (y + m sdiv 12);
                          let m = m smod 12;
                          if m \<le> 0 then do { y \<leftarrow> ck (y - 1); Some (y, m + 12) } else Some (y, m) }
                else Some (y, m));
     n_day y (cast8 m) d cd hh mm ss
   }"

definition n_hour :: "int \<Rightarrow> int \<Rightarrow> int \<Rightarrow> int \<Rightarrow> int \<Rightarrow> int \<Rightarrow> int \<Rightarrow> fields option" where
  "n_hour y m d cd hh mm ss = do {
     cd \<leftarrow> ck (cd + hh sdiv 24);
     let hh = hh smod 24;
     (cd, hh) \<leftarrow> (if hh < 0 then do { cd \<leftarrow> ck (cd - 1); Some (cd, hh + 24) } else Some (cd, hh));
     n_mon y m d cd (cast8 hh) mm ss
   }"

definition n_min :: "int \<Rightarrow> int \<Rightarrow> int \<Rightarrow> int \<Rightarrow> int \<Rightarrow> int \<Rightarrow> int \<Rightarrow> fields option" where
  "n_min y m d hh ch mm ss = do {
     ch \<leftarrow> ck (ch + mm sdiv 60);
     let mm = mm smod 60;
     (ch, mm) \<leftarrow> (if mm < 0 then do { ch \<leftarrow> ck (ch - 1); Some (ch, mm + 60) } else Some (ch, mm));
     cd \<leftarrow> ck (hh sdiv 24 + ch sdiv 24);
     hh \<leftarrow> ck (hh smod 24 + ch smod 24);
     n_hour y m d cd hh (cast8 mm) ss
   }"

definition n_sec :: "int \<Rightarrow> int \<Rightarrow> int \<Rightarrow> int \<Rightarrow> int \<Rightarrow> int \<Rightarrow> fields option" where
  "n_sec y m d hh mm ss =
     (if 0 \<le> ss \<and> ss < 60 then
        if 0 \<le> mm \<and> mm < 60 then
          if 0 \<le> hh \<and> hh < 24 then
            if 1 \<le> d \<and> d \<le> 28 \<and> 1 \<le> m \<and> m \<le> 12
            then Some (mk_fields y (cast8 m) (cast8 d) (cast8 hh) (cast8 mm) (cast8 ss))
            else n_mon y m d 0 (cast8 hh) (cast8 mm) (cast8 ss)
          else n_hour y m d (hh sdiv 24) (hh smod 24) (cast8 mm) (cast8 ss)
        else n_min y m d hh (mm sdiv 60) (mm smod 60) (cast8 ss)
      else do {
        let cm = ss sdiv 60;
        let ss = ss smod 60;
        (cm, ss) \<leftarrow> (if ss < 0 then do { cm \<leftarrow> ck (cm - 1); Some (cm, ss + 60) } else Some (cm, ss));
        ch \<leftarrow> ck (mm sdiv 60 + cm sdiv 60);
        mm \<leftarrow> ck (mm smod 60 + cm smod 60);
        n_min y m d hh ch mm (cast8 ss)
      })"

section \<open>Stepping, differences and alignment\<close>

datatype tag = Second | Minute | Hour | Day | Month | Year

fun step :: "tag \<Rightarrow> fields \<Rightarrow> int \<Rightarrow> fields option" where
  "step Second f n = do { mm \<leftarrow> ck (fmm f + n sdiv 60); ss \<leftarrow> ck (fss f + n smod 60);
                          n_sec (fy f) (fm f) (fd f) (fhh f) mm ss }"
| "step Minute f n = do { hh \<leftarrow> ck (fhh f + n sdiv 60); mm \<leftarrow> ck (fmm f + n smod 60);
                          n_min (fy f) (fm f) (fd f) hh 0 mm (fss f) }"
| "step Hour f n = do { d \<leftarrow> ck (fd f + n sdiv 24); hh \<leftarrow> ck (fhh f + n smod 24);
                        n_hour (fy f) (fm f) d 0 hh (fmm f) (fss f) }"
| "step Day f n = n_day (fy f) (fm f) (fd f) n (fhh f) (fmm f) (fss f)"
| "step Month f n = do { y \<leftarrow> ck (fy f + n sdiv 12); m \<leftarrow> ck (fm f + n smod 12);
                         n_mon y m (fd f) 0 (fhh f) (fmm f) (fss f) }"
| "step Year f n = do { y \<leftarrow> ck (fy f + n); Some (mk_fields y (fm f) (fd f) (fhh f) (fmm f) (fss f)) }"

definition scale_add :: "int \<Rightarrow> int \<Rightarrow> int \<Rightarrow> int option" where
  "scale_add v f a =
     (if v < 0
      then do { v \<leftarrow> ck (v + 1); x \<leftarrow> ck (v * f); x \<leftarrow> ck (x + a); ck (x - f) }
      else do { v \<leftarrow> ck (v - 1); x \<leftarrow> ck (v * f); x \<leftarrow> ck (x + a); ck (x + f) })"

definition ymd_ord :: "int \<Rightarrow> int \<Rightarrow> int \<Rightarrow> int option" where
  "ymd_ord y m d = do {
     eyear \<leftarrow> (if m \<le> 2 then ck (y - 1) else Some y);
     era \<leftarrow> (if 0 \<le> eyear then Some eyear else ck (eyear - 399));
     let era = era sdiv 400;
     e \<leftarrow> ck (era * 400);
     yoe \<leftarrow> ck (eyear - e);
     let doy = (153 * (m + (if 2 < m then -3 else 9)) + 2) sdiv 5 + d - 1;
     doe \<leftarrow> ck (yoe * 365);
     doe \<leftarrow> ck (doe + yoe sdiv 4 - yoe sdiv 100 + doy);
     x \<leftarrow> ck (era * 146097);
     x \<leftarrow> ck (x + doe);
     ck (x - 719468)
   }"

definition day_difference :: "int \<Rightarrow> int \<Rightarrow> int \<Rightarrow> int \<Rightarrow> int \<Rightarrow> int \<Rightarrow> int option" where
  "day_difference y1 m1 d1 y2 m2 d2 = do {
     let a_c4_off = y1 smod 400;
     let b_c4_off = y2 smod 400;
     p \<leftarrow> ck (y1 - a_c4_off);
     q \<leftarrow> ck (y2 - b_c4_off);
     c4_diff \<leftarrow> ck (p - q);
     a \<leftarrow> ymd_ord a_c4_off m1 d1;
     b \<leftarrow> ymd_ord b_c4_off m2 d2;
     delta \<leftarrow> ck (a - b);
     (c4_diff, delta) \<leftarrow>
       (if 0 < c4_diff \<and> delta < 0
        then do { delta \<leftarrow> ck (delta + 2 * 146097); c4_diff \<leftarrow> ck (c4_diff - 2 * 400); Some (c4_diff, delta) }
        else if c4_diff < 0 \<and> 0 < delta
        then do { delta \<leftarrow> ck (delta - 2 * 146097); c4_diff \<leftarrow> ck (c4_diff + 2 * 400); Some (c4_diff, delta) }
        else Some (c4_diff, delta));
     x \<leftarrow> ck (c4_diff sdiv 400 * 146097);
     ck (x + delta)
   }"

text \<open>The overloads of \<open>difference\<close>, each on top of the next coarser unit.\<close>

definition difference_year :: "fields \<Rightarrow> fields \<Rightarrow> int option" where
  "difference_year f1 f2 = ck (fy f1 - fy f2)"

definition difference_month :: "fields \<Rightarrow> fields \<Rightarrow> int option" where
  "difference_month f1 f2 = do { v \<leftarrow> difference_year f1 f2; scale_add v 12 (fm f1 - fm f2) }"

definition difference_day :: "fields \<Rightarrow> fields \<Rightarrow> int option" where
  "difference_day f1 f2 = day_difference (fy f1) (fm f1) (fd f1) (fy f2) (fm f2) (fd f2)"

definition difference_hour :: "fields \<Rightarrow> fields \<Rightarrow> int option" where
  "difference_hour f1 f2 = do { v \<leftarrow> difference_day f1 f2; scale_add v 24 (fhh f1 - fhh f2) }"

definition difference_minute :: "fields \<Rightarrow> fields \<Rightarrow> int option" where
  "difference_minute f1 f2 = do { v \<leftarrow> difference_hour f1 f2; scale_add v 60 (fmm f1 - fmm f2) }"

definition difference_second :: "fields \<Rightarrow> fields \<Rightarrow> int option" where
  "difference_second f1 f2 = do { v \<leftarrow> difference_minute f1 f2; scale_add v 60 (fss f1 - fss f2) }"

fun difference :: "tag \<Rightarrow> fields \<Rightarrow> fields \<Rightarrow> int option" where
  "difference Year = difference_year"
| "difference Month = difference_month"
| "difference Day = difference_day"
| "difference Hour = difference_hour"
| "difference Minute = difference_minute"
| "difference Second = difference_second"

fun align :: "tag \<Rightarrow> fields \<Rightarrow> fields" where
  "align Second f = f"
| "align Minute f = mk_fields (fy f) (fm f) (fd f) (fhh f) (fmm f) 0"
| "align Hour f = mk_fields (fy f) (fm f) (fd f) (fhh f) 0 0"
| "align Day f = mk_fields (fy f) (fm f) (fd f) 0 0 0"
| "align Month f = mk_fields (fy f) (fm f) 1 0 0 0"
| "align Year f = mk_fields (fy f) 1 1 0 0 0"

section \<open>The class template civil_time\<close>

definition civil_make :: "tag \<Rightarrow> int \<Rightarrow> int \<Rightarrow> int \<Rightarrow> int \<Rightarrow> int \<Rightarrow> int \<Rightarrow> fields option" where
  "civil_make t y m d hh mm ss = map_option (align t) (n_sec y m d hh mm ss)"

definition civil_default :: fields where
  "civil_default = mk_fields 1970 1 1 0 0 0"

definition civil_convert :: "tag \<Rightarrow> fields \<Rightarrow> fields" where
  "civil_convert t f = align t f"

definition civil_max :: "tag \<Rightarrow> fields option" where
  "civil_max t = civil_make t i64_max 12 31 23 59 59"

definition civil_min :: "tag \<Rightarrow> fields option" where
  "civil_min t = civil_make t i64_min 1 1 0 0 0"

definition civil_plus :: "tag \<Rightarrow> fields \<Rightarrow> int \<Rightarrow> fields option" where
  "civil_plus t f n = step t f n"

definition civil_minus :: "tag \<Rightarrow> fields \<Rightarrow> int \<Rightarrow> fields option" where
  "civil_minus t f n =
     (if n \<noteq> i64_min then step t f (- n)
      else do { m \<leftarrow> ck (n + 1); f \<leftarrow> step t f (- m); step t f 1 })"

definition civil_incr :: "tag \<Rightarrow> fields \<Rightarrow> fields option" where
  "civil_incr t f = civil_plus t f 1"

definition civil_decr :: "tag \<Rightarrow> fields \<Rightarrow> fields option" where
  "civil_decr t f = civil_minus t f 1"

definition civil_diff :: "tag \<Rightarrow> fields \<Rightarrow> fields \<Rightarrow> int option" where
  "civil_diff t f1 f2 = difference t f1 f2"

definition civil_less :: "fields \<Rightarrow> fields \<Rightarrow> bool" where
  "civil_less l r \<longleftrightarrow>
     fy l < fy r \<or> (fy l = fy r \<and>
       (fm l < fm r \<or> (fm l = fm r \<and>
         (fd l < fd r \<or> (fd l = fd r \<and>
           (fhh l < fhh r \<or> (fhh l = fhh r \<and>
             (fmm l < fmm r \<or> (fmm l = fmm r \<and> fss l < fss r)))))))))"

definition civil_le :: "fields \<Rightarrow> fields \<Rightarrow> bool" where "civil_le l r \<longleftrightarrow> \<not> civil_less r l"
definition civil_ge :: "fields \<Rightarrow> fields \<Rightarrow> bool" where "civil_ge l r \<longleftrightarrow> \<not> civil_less l r"
definition civil_greater :: "fields \<Rightarrow> fields \<Rightarrow> bool" where "civil_greater l r \<longleftrightarrow> civil_less r l"

definition civil_eq :: "fields \<Rightarrow> fields \<Rightarrow> bool" where
  "civil_eq l r \<longleftrightarrow> fy l = fy r \<and> fm l = fm r \<and> fd l = fd r \<and>
     fhh l = fhh r \<and> fmm l = fmm r \<and> fss l = fss r"

section \<open>Weekdays and days of the year\<close>

datatype weekday = Monday | Tuesday | Wednesday | Thursday | Friday | Saturday | Sunday

definition k_weekday_by_mon_off :: "weekday list" where
  "k_weekday_by_mon_off =
     [Monday, Tuesday, Wednesday, Thursday, Friday, Saturday, Sunday,
      Monday, Tuesday, Wednesday, Thursday, Friday, Saturday]"

definition k_weekday_offsets :: "int list" where
  "k_weekday_offsets = [-1, 0, 3, 2, 5, 0, 3, 5, 1, 4, 6, 2, 4]"

definition get_weekday :: "fields \<Rightarrow> weekday" where
  "get_weekday cs =
     (let wd = 2400 + (fy cs smod 400) - (if fm cs < 3 then 1 else 0);
          wd = wd + (wd sdiv 4 - wd sdiv 100 + wd sdiv 400);
          wd = wd + (k_weekday_offsets ! nat (fm cs) + fd cs)
      in k_weekday_by_mon_off ! nat (wd smod 7 + 6))"

definition k_weekdays_forw :: "weekday list" where
  "k_weekdays_forw =
     [Monday, Tuesday, Wednesday, Thursday, Friday, Saturday, Sunday,
      Monday, Tuesday, Wednesday, Thursday, Friday, Saturday, Sunday]"

definition k_weekdays_back :: "weekday list" where
  "k_weekdays_back =
     [Sunday, Saturday, Friday, Thursday, Wednesday, Tuesday, Monday,
      Sunday, Saturday, Friday, Thursday, Wednesday, Tuesday, Monday]"

text \<open>
  A loop \<open>for (i = start;; ++i) if (w == table[i])\<close>; running off the table is undefined and
  \<open>None\<close>.
\<close>

fun weekday_scan :: "weekday list \<Rightarrow> weekday \<Rightarrow> nat \<Rightarrow> nat option" where
  "weekday_scan [] w i = None"
| "weekday_scan (x # xs) w i = (if w = x then Some i else weekday_scan xs w (i + 1))"

definition weekday_gap :: "weekday list \<Rightarrow> weekday \<Rightarrow> weekday \<Rightarrow> int option" where
  "weekday_gap table base wd = do {
     i \<leftarrow> weekday_scan table base 0;
     j \<leftarrow> weekday_scan (drop (i + 1) table) wd (i + 1);
     Some (int j - int i)
   }"

definition next_weekday :: "fields \<Rightarrow> weekday \<Rightarrow> fields option" where
  "next_weekday cd wd = do { n \<leftarrow> weekday_gap k_weekdays_forw (get_weekday cd) wd; civil_plus Day cd n }"

definition prev_weekday :: "fields \<Rightarrow> weekday \<Rightarrow> fields option" where
  "prev_weekday cd wd = do { n \<leftarrow> weekday_gap k_weekdays_back (get_weekday cd) wd; civil_minus Day cd n }"

definition k_month_offsets :: "int list" where
  "k_month_offsets = [-1, 0, 31, 59, 90, 120, 151, 181, 212, 243, 273, 304, 334]"

definition get_yearday :: "fields \<Rightarrow> int" where
  "get_yearday cs =
     (let feb29 = (if 2 < fm cs \<and> is_leap_year (fy cs) then 1 else 0)
      in k_month_offsets ! nat (fm cs) + feb29 + fd cs)"

section \<open>The calendar\<close>

text \<open>
  The proleptic Gregorian calendar: the number of days from 0001-01-01, and of seconds from its
  midnight, to a date and time of day. Years are any integer and divisions round down.
\<close>

definition leap :: "int \<Rightarrow> bool" where
  "leap y \<longleftrightarrow> 4 dvd y \<and> (100 dvd y \<longrightarrow> 400 dvd y)"

definition month_days :: "int \<Rightarrow> int \<Rightarrow> int" where
  "month_days y m = (if m = 2 then (if leap y then 29 else 28) else if m \<in> {4, 6, 9, 11} then 30 else 31)"

definition year_start :: "int \<Rightarrow> int" where
  "year_start y = 365 * (y - 1) + (y - 1) div 4 - (y - 1) div 100 + (y - 1) div 400"

definition month_start :: "int \<Rightarrow> int \<Rightarrow> int" where
  "month_start y m = sum_list (map (month_days y) [1..m - 1])"

definition day_no :: "int \<Rightarrow> int \<Rightarrow> int \<Rightarrow> int" where
  "day_no y m d = year_start y + month_start y m + d - 1"

definition instant :: "fields \<Rightarrow> int" where
  "instant f = day_no (fy f) (fm f) (fd f) * 86400 + fhh f * 3600 + fmm f * 60 + fss f"

definition valid_date :: "int \<Rightarrow> int \<Rightarrow> int \<Rightarrow> bool" where
  "valid_date y m d \<longleftrightarrow> 1 \<le> m \<and> m \<le> 12 \<and> 1 \<le> d \<and> d \<le> month_days y m"

definition valid :: "fields \<Rightarrow> bool" where
  "valid f \<longleftrightarrow> i64_ok (fy f) \<and> valid_date (fy f) (fm f) (fd f) \<and> 0 \<le> fhh f \<and> fhh f < 24 \<and>
     0 \<le> fmm f \<and> fmm f < 60 \<and> 0 \<le> fss f \<and> fss f < 60"

section \<open>Calendar arithmetic\<close>


lemma smod_zero_iff: "0 < b \<Longrightarrow> (a::int) smod b = 0 \<longleftrightarrow> b dvd a"
  by (cases "0 \<le> a") (simp_all add: smod_nonneg smod_neg dvd_eq_mod_eq_0 [symmetric])

lemma is_leap_year_eq: "is_leap_year y \<longleftrightarrow> leap y"
  by (auto simp: is_leap_year_def leap_def smod_zero_iff)

lemma cast8_id [simp]: "-128 \<le> x \<Longrightarrow> x < 128 \<Longrightarrow> cast8 x = x"
  by (simp add: cast8_def)

lemma year_start_shift: "year_start (y + 400 * q) = year_start y + 146097 * q"
proof -
  have "(y + 400 * q - 1) div 4 = (y - 1) div 4 + 100 * q"
    "(y + 400 * q - 1) div 100 = (y - 1) div 100 + 4 * q"
    "(y + 400 * q - 1) div 400 = (y - 1) div 400 + q" by simp_all
  then show ?thesis by (simp add: year_start_def)
qed

lemma year_start_mod: "year_start y = year_start (y mod 400) + 146097 * (y div 400)"
  using year_start_shift [of "y mod 400" "y div 400"] by simp

lemma leap_mod: "leap y \<longleftrightarrow> leap (y mod 400)"
proof -
  have "4 dvd y mod 400 \<longleftrightarrow> 4 dvd y" "100 dvd y mod 400 \<longleftrightarrow> 100 dvd y" "400 dvd y mod 400 \<longleftrightarrow> 400 dvd y"
    by (simp_all add: dvd_mod_iff)
  then show ?thesis by (auto simp: leap_def)
qed

lemma list_all_upto: "list_all P [i..j] \<Longrightarrow> i \<le> x \<Longrightarrow> x \<le> j \<Longrightarrow> P x"
  by (simp add: list_all_iff)

text \<open>The lengths of runs of years, by the 400-year period.\<close>

lemma run_lengths:
  "year_start (y + 1) - year_start y = (if leap y then 366 else 365)"
  "year_start (y + 4) - year_start y = 1460 + (if y mod 400 = 0 \<or> 300 < y mod 400 \<or> (y mod 400 - 1) smod 100 < 96 then 1 else 0)"
  "year_start (y + 100) - year_start y = 36524 + (if y mod 400 = 0 \<or> 300 < y mod 400 then 1 else 0)"
proof -
  let ?P = "\<lambda>r. year_start (r + 1) - year_start r = (if leap r then 366 else 365) \<and>
     year_start (r + 4) - year_start r = 1460 + (if r = 0 \<or> 300 < r \<or> (r - 1) smod 100 < 96 then 1 else 0) \<and>
     year_start (r + 100) - year_start r = 36524 + (if r = 0 \<or> 300 < r then 1 else 0)"
  have "list_all ?P [0..399]" by code_simp
  moreover have "0 \<le> y mod 400" "y mod 400 \<le> 399" using pos_mod_bound [of 400 y] by auto
  ultimately have P: "?P (y mod 400)" by (rule list_all_upto)
  have "year_start (y + k) - year_start y = year_start (y mod 400 + k) - year_start (y mod 400)" for k
    using year_start_shift [of "y mod 400 + k" "y div 400"] year_start_mod [of y] by simp
  with P show "year_start (y + 1) - year_start y = (if leap y then 366 else 365)"
    "year_start (y + 4) - year_start y = 1460 + (if y mod 400 = 0 \<or> 300 < y mod 400 \<or> (y mod 400 - 1) smod 100 < 96 then 1 else 0)"
    "year_start (y + 100) - year_start y = 36524 + (if y mod 400 = 0 \<or> 300 < y mod 400 then 1 else 0)"
    by (simp_all only: leap_mod [of y])
qed

lemma month_cases:
  assumes "1 \<le> (m::int)" "m \<le> 12"
  obtains "m = 1" | "m = 2" | "m = 3" | "m = 4" | "m = 5" | "m = 6" | "m = 7" | "m = 8" | "m = 9"
    | "m = 10" | "m = 11" | "m = 12"
proof -
  have "m \<in> set [1..12]" using assms by simp
  then show thesis using that by (auto simp: upto_rec1 simp del: set_upto)
qed

lemma month_start_eq:
  assumes "1 \<le> m" "m \<le> 12"
  shows "month_start y m = month_start 1 m + (if 2 < m \<and> leap y then 1 else 0)"
  using assms by (cases m rule: month_cases) (auto simp: month_start_def month_days_def leap_def upto_rec1)

lemma days_per_month_eq: "1 \<le> m \<Longrightarrow> m \<le> 12 \<Longrightarrow> days_per_month y m = month_days y m"
  by (erule (1) month_cases)
    (simp_all add: days_per_month_def k_days_per_month_def month_days_def is_leap_year_eq)

lemma month_days_bounds: "28 \<le> month_days y m" "month_days y m \<le> 31"
  by (auto simp: month_days_def)

lemma day_no_day: "day_no y m d = day_no y m 1 + d - 1"
  by (simp add: day_no_def)

text \<open>The number of days from a first of the month to the next, and to the same some years later.\<close>

lemma day_no_next_month:
  "1 \<le> m \<Longrightarrow> day_no y (m + 1) 1 = day_no y m 1 + month_days y m"
  by (simp add: day_no_def month_start_def upto_rec2)

lemma day_no_next_year: "day_no (y + 1) 1 1 = day_no y 12 1 + month_days y 12"
proof -
  have "month_start y 13 = (if leap y then 366 else 365)"
    by (simp add: month_start_def month_days_def upto_rec1)
  moreover have "month_start y 13 = month_start y 12 + month_days y 12"
    by (simp add: month_start_def upto_rec2)
  ultimately show ?thesis
    using run_lengths(1) [of y] by (simp add: day_no_def month_start_def)
qed

definition run_year :: "int \<Rightarrow> int \<Rightarrow> int" where
  "run_year y m = y + (if 2 < m then 1 else 0)"

lemma day_no_run:
  assumes "1 \<le> m" "m \<le> 12"
  shows "day_no (y + k) m 1 - day_no y m 1 = year_start (run_year y m + k) - year_start (run_year y m)"
  using month_start_eq [OF assms, of y] month_start_eq [OF assms, of "y + k"]
    run_lengths(1) [of y] run_lengths(1) [of "y + k"]
  by (auto simp: day_no_def run_year_def add.commute add.left_commute)

lemma year_index_eq:
  assumes "i64_ok (run_year y m)"
  shows "year_index y m = Some (run_year y m mod 400)"
proof -
  have "(x smod 400 + 400) smod 400 = x mod 400" for x :: int
  proof (cases "0 \<le> x")
    case True
    then have "0 \<le> x mod 400 + 400" by (simp add: add_nonneg_nonneg)
    with True show ?thesis by (simp add: smod_nonneg)
  next
    case False
    then have "(- x) mod 400 < 400" "0 \<le> (- x) mod 400" by simp_all
    then have "0 \<le> - ((- x) mod 400) + 400" by linarith
    with False show ?thesis by (simp add: smod_neg smod_nonneg mod_minus_eq)
  qed
  with assms show ?thesis by (simp add: year_index_def run_year_def)
qed

lemma days_per_run:
  assumes "1 \<le> m" "m \<le> 12" "i64_ok (run_year y m)"
  shows "days_per_century y m = Some (day_no (y + 100) m 1 - day_no y m 1)"
    "days_per_4years y m = Some (day_no (y + 4) m 1 - day_no y m 1)"
    "days_per_year y m = Some (day_no (y + 1) m 1 - day_no y m 1)"
  using assms(3) run_lengths [of "run_year y m"]
  by (simp_all add: days_per_century_def days_per_4years_def days_per_year_def year_index_eq
      day_no_run [OF assms(1,2)] is_leap_year_eq run_year_def [symmetric])

lemma run_at_least:
  assumes "1 \<le> m" "m \<le> 12"
  shows "365 * 100 \<le> day_no (y + 100) m 1 - day_no y m 1" "365 * 4 \<le> day_no (y + 4) m 1 - day_no y m 1"
    "365 * 1 \<le> day_no (y + 1) m 1 - day_no y m 1" "day_no (y + 1) m 1 - day_no y m 1 \<le> 366"
    "day_no (y + 400) m 1 - day_no y m 1 = 146097"
  unfolding day_no_run [OF assms] using run_lengths [of "run_year y m"] year_start_shift [of _ 1] by auto


section \<open>The loops\<close>

lemma year_loop_ok:
  assumes per: "\<And>y. i64_ok (run_year y m) \<Longrightarrow> per y m = Some (day_no (y + k) m 1 - day_no y m 1)"
    and long: "\<And>y. 365 * k \<le> day_no (y + k) m 1 - day_no y m 1" and k: "0 < k"
    and "i64_min \<le> y" "365 * y + d \<le> 365 * hi" "hi < i64_max" "1 \<le> d" "d \<le> 200000"
  shows "\<exists>y' d'. year_loop per k m y d = Some (y', d') \<and> 1 \<le> d' \<and> d' \<le> d \<and> y \<le> y' \<and>
    365 * y' + d' \<le> 365 * y + d \<and> day_no y' m 1 + d' = day_no y m 1 + d"
  using assms(4-)
proof (induction "nat d" arbitrary: y d rule: less_induct)
  case less
  let ?n = "day_no (y + k) m 1 - day_no y m 1"
  have "i64_ok (run_year y m)"
    using less.prems by (auto simp: i64_ok_def run_year_def i64_min_def i64_max_def)
  note n = per [OF this]
  have npos: "0 < ?n" using long [of y] k by linarith
  show ?case
  proof (cases "?n < d")
    case False
    with n less.prems show ?thesis by (subst year_loop.simps) simp
  next
    case True
    have k365: "365 * (y + k) + (d - ?n) \<le> 365 * y + d" using long [of y] by (simp add: distrib_left)
    have "i64_ok (d - ?n)" "i64_ok (y + k)"
      using True npos less.prems k365 k by (auto simp: i64_ok_def i64_min_def i64_max_def)
    with n True have step: "year_loop per k m y d = year_loop per k m (y + k) (d - ?n)"
      by (subst year_loop.simps) simp
    have "nat (d - ?n) < nat d" "i64_min \<le> y + k" "365 * (y + k) + (d - ?n) \<le> 365 * hi" "1 \<le> d - ?n" "d - ?n \<le> 200000"
      using True npos less.prems k365 k by auto
    from less.hyps [OF this(1,2,3) less.prems(3) this(4,5)] obtain y' d'
      where "year_loop per k m (y + k) (d - ?n) = Some (y', d')" "1 \<le> d'" "d' \<le> d - ?n" "y + k \<le> y'"
        "365 * y' + d' \<le> 365 * (y + k) + (d - ?n)" "day_no y' m 1 + d' = day_no (y + k) m 1 + (d - ?n)" by blast
    then show ?thesis unfolding step using npos k k365 by (intro exI [of _ y'] exI [of _ d']) auto
  qed
qed

lemma month_loop_ok:
  assumes "1 \<le> m" "m \<le> 12" "i64_min \<le> y" "28 * (12 * y + m) + d \<le> 28 * (12 * hi)" "hi < i64_max"
    "1 \<le> d" "d \<le> 200000"
  shows "\<exists>y' m' d'. month_loop y m d = Some (y', m', d') \<and> valid_date y' m' d' \<and> y \<le> y' \<and>
    28 * (12 * y' + m') + d' \<le> 28 * (12 * y + m) + d \<and> day_no y' m' d' = day_no y m d"
  using assms
proof (induction "nat d" arbitrary: y m d rule: less_induct)
  case less
  let ?n = "days_per_month y m"
  have n: "?n = month_days y m" using less.prems by (intro days_per_month_eq)
  have npos: "28 \<le> ?n" unfolding n by (rule month_days_bounds)
  show ?case
  proof (cases "?n < d")
    case False
    with n less.prems show ?thesis
      by (subst month_loop.simps) (auto simp: Let_def valid_date_def)
  next
    case True
    define y1 m1 where "y1 = (if 12 < m + 1 then y + 1 else y)" and "m1 = (if 12 < m + 1 then 1 else m + 1)"
    have ok: "i64_ok (d - ?n)" "i64_ok y1"
      using True npos less.prems by (auto simp: i64_ok_def i64_min_def i64_max_def y1_def)
    then have step: "month_loop y m d = month_loop y1 m1 (d - ?n)"
      using True by (subst month_loop.simps) (auto simp: Let_def y1_def m1_def)
    have idx: "12 * y1 + m1 = 12 * y + m + 1" using less.prems by (auto simp: y1_def m1_def)
    have pre: "nat (d - ?n) < nat d" "1 \<le> m1" "m1 \<le> 12" "i64_min \<le> y1"
      "28 * (12 * y1 + m1) + (d - ?n) \<le> 28 * (12 * hi)" "1 \<le> d - ?n" "d - ?n \<le> 200000" "y \<le> y1"
      unfolding idx using True npos less.prems by (auto simp: m1_def y1_def)
    have day: "day_no y1 m1 1 = day_no y m 1 + ?n"
      unfolding n using less.prems(1,2) day_no_next_month [of m y] day_no_next_year [of y]
      by (auto simp: y1_def m1_def intro: antisym)
    from less.hyps [OF pre(1-5) less.prems(5) pre(6,7)] obtain y' m' d'
      where "month_loop y1 m1 (d - ?n) = Some (y', m', d')" "valid_date y' m' d'" "y1 \<le> y'"
        "28 * (12 * y' + m') + d' \<le> 28 * (12 * y1 + m1) + (d - ?n)" "day_no y' m' d' = day_no y1 m1 (d - ?n)"
      by blast
    then show ?thesis
      unfolding step using pre(8) npos idx day day_no_day [of y1 m1 "d - ?n"] day_no_day [of y m d]
      by (intro exI [of _ y'] exI [of _ m'] exI [of _ d']) auto
  qed
qed

section \<open>Normalization\<close>

lemma day_no_400:
  assumes "1 \<le> m" "m \<le> 12"
  shows "day_no (y + 400 * q) m d = day_no y m d + 146097 * q"
proof -
  have "day_no (y + 400 * q) m 1 - day_no y m 1 = 146097 * q"
    using year_start_shift [of "run_year y m" q] by (simp add: day_no_run [OF assms])
  then show ?thesis using day_no_day [of _ m d] by simp
qed

lemma c_div_facts:
  assumes "0 < (b::int)"
  shows "a = a sdiv b * b + a smod b" "- b < a smod b" "a smod b < b"
    "0 \<le> a \<Longrightarrow> 0 \<le> a smod b" "0 \<le> a \<Longrightarrow> 0 \<le> a sdiv b" "a \<le> 0 \<Longrightarrow> a smod b \<le> 0" "a \<le> 0 \<Longrightarrow> a sdiv b \<le> 0"
proof -
  show "a = a sdiv b * b + a smod b" "- b < a smod b" "a smod b < b"
    using c_div_mod [of a b] smod_bound [OF assms, of a] by auto
  show "0 \<le> a smod b" "0 \<le> a sdiv b" if "0 \<le> a"
    using that assms by (simp_all add: smod_nonneg sdiv_nonneg pos_imp_zdiv_nonneg_iff)
  show "a smod b \<le> 0" "a sdiv b \<le> 0" if "a \<le> 0"
    using that assms by (cases "a = 0"; simp add: smod_neg sdiv_neg pos_imp_zdiv_nonneg_iff)+
qed

definition near :: "int \<Rightarrow> int \<Rightarrow> bool" where
  "near k y \<longleftrightarrow> i64_min + k \<le> y \<and> y \<le> i64_max - k"

lemma near_iff: "near k y \<longleftrightarrow> - 9223372036854775808 + k \<le> y \<and> y \<le> 9223372036854775807 - k"
  by (simp add: near_def i64_min_def i64_max_def)

lemma n_day_ok:
  assumes m: "1 \<le> m" "m \<le> 12" and "i64_ok d" "i64_ok cd" and y: "near (10 ^ 17) y"
  shows "\<exists>f. n_day y m d cd hh mm ss = Some f \<and> valid_date (fy f) (fm f) (fd f) \<and> i64_ok (fy f) \<and>
    day_no (fy f) (fm f) (fd f) = day_no y m d + cd \<and> fhh f = hh \<and> fmm f = mm \<and> fss f = ss"
proof -
  have pos: "(0::int) < 146097" by simp
  define q r where q0: "q = cd sdiv 146097" "r = cd smod 146097"
  note q = c_div_facts [OF pos, of cd, folded q0]
  define p s where p0: "p = d sdiv 146097" "s = d smod 146097"
  note p = c_div_facts [OF pos, of d, folded p0]
  have qb: "\<bar>q\<bar> \<le> 63131837319420" "\<bar>p\<bar> \<le> 63131837319420"
    using q(1-3) p(1-3) assms(3,4) unfolding i64_ok_iff abs_le_iff by linarith+
  have yb: "- 9123372036854775808 \<le> y" "y \<le> 9123372036854775807" using y by (auto simp: near_iff)
  define y2 c2 where "y2 = (if r < 0 then y + q * 400 - 400 else y + q * 400)"
    and "c2 = (if r < 0 then r + 146097 else r)"
  have "i64_ok (y + q * 400)" "i64_ok (y + q * 400 - 400)"
    using yb qb by (auto simp: i64_ok_iff)
  then have s1: "(if r < 0 then do { y \<leftarrow> ck (y + q * 400 - 400); Some (y, r + 146097) } else Some (y + q * 400, r))
      = Some (y2, c2)"
    by (simp add: y2_def c2_def)
  define y3 d3 where "y3 = y2 + p * 400" and "d3 = s + c2"
  have c2: "0 \<le> c2" "c2 < 146097" using q(2,3) by (simp_all add: c2_def)
  have y3b: "\<bar>y3 - y\<bar> \<le> 50505469855536400" using qb by (auto simp: y3_def y2_def)
  have d3: "- 146097 < d3" "d3 < 292194" using c2 p(2,3) by (simp_all add: d3_def)
  have day3: "day_no y3 m 1 + d3 = day_no y m 1 + d + cd"
  proof -
    define e where "e = (if r < 0 then q - 1 + p else q + p)"
    have "y3 = y + 400 * e" by (simp add: y3_def y2_def e_def)
    then have "day_no y3 m 1 = day_no y m 1 + 146097 * e" using day_no_400 [OF m] by simp
    moreover have "146097 * e + d3 = d + cd"
      using q(1) p(1) by (simp add: e_def d3_def c2_def)
    ultimately show ?thesis by linarith
  qed
  define y4 d4 where "y4 = (if 0 < d3 then if 146097 < d3 then y3 + 400 else y3
      else if - 365 < d3 then y3 - 1 else y3 - 400)"
    and "d4 = (if 0 < d3 then if 146097 < d3 then d3 - 146097 else d3
      else if - 365 < d3 then d3 + (day_no y3 m 1 - day_no (y3 - 1) m 1) else d3 + 146097)"
  have ok4: "i64_ok (y3 + 400)" "i64_ok (y3 - 1)" "i64_ok (y3 - 400)" "i64_ok d3" "i64_ok y3" "i64_ok (run_year (y3 - 1) m)"
    using yb y3b d3 by (auto simp: i64_ok_iff run_year_def)
  have s2: "(if 0 < d3
                then if 146097 < d3 then do { y \<leftarrow> ck (y3 + 400); Some (y, d3 - 146097) } else Some (y3, d3)
                else if - 365 < d3 then do { y \<leftarrow> ck (y3 - 1); n \<leftarrow> days_per_year y m; Some (y, d3 + n) }
                else do { y \<leftarrow> ck (y3 - 400); Some (y, d3 + 146097) }) = Some (y4, d4)"
    using ok4 days_per_run(3) [OF m ok4(6)] by (simp add: y4_def d4_def)
  have d4: "1 \<le> d4" "d4 \<le> 146097"
    using d3 run_at_least(3,4) [OF m, of "y3 - 1"] by (auto simp: d4_def)
  have y4b: "\<bar>y4 - y3\<bar> \<le> 400" by (auto simp: y4_def)
  have day4: "day_no y4 m 1 + d4 = day_no y3 m 1 + d3"
    using day_no_400 [OF m, of y3 1 1] day_no_400 [OF m, of y3 "-1" 1]
    by (auto simp: y4_def d4_def)
  obtain y5 d5 where s3: "(if 365 < d4
                then do { (y, d) \<leftarrow> year_loop days_per_century 100 m y4 d4;
                          (y, d) \<leftarrow> year_loop days_per_4years 4 m y d;
                          year_loop days_per_year 1 m y d }
                else Some (y4, d4)) = Some (y5, d5)"
    and y5: "y4 \<le> y5" "365 * y5 + d5 \<le> 365 * y4 + d4" "1 \<le> d5" "d5 \<le> d4"
      "day_no y5 m 1 + d5 = day_no y4 m 1 + d4"
  proof (cases "365 < d4")
    case False
    then show thesis using that [of y4 d4] d4 by simp
  next
    case True
    note loop = year_loop_ok [where hi = "y4 + 402"]
    have hi: "y4 + 402 < i64_max" "i64_min \<le> y4" "365 * y4 + d4 \<le> 365 * (y4 + 402)" "d4 \<le> 200000"
      using d4 yb y3b y4b by (auto simp: i64_max_def i64_min_def)
    obtain ya da where A: "year_loop days_per_century 100 m y4 d4 = Some (ya, da)" "1 \<le> da" "da \<le> d4" "y4 \<le> ya"
      "365 * ya + da \<le> 365 * y4 + d4" "day_no ya m 1 + da = day_no y4 m 1 + d4"
      using loop [of m days_per_century 100, OF days_per_run(1) [OF m] run_at_least(1) [OF m] zero_less_numeral hi(2,3,1) d4(1) hi(4)] by auto
    have hb: "i64_min \<le> ya" "365 * ya + da \<le> 365 * (y4 + 402)" "da \<le> 200000" using A hi by auto
    obtain yb db where B: "year_loop days_per_4years 4 m ya da = Some (yb, db)" "1 \<le> db" "db \<le> da" "ya \<le> yb"
      "365 * yb + db \<le> 365 * ya + da" "day_no yb m 1 + db = day_no ya m 1 + da"
      using loop [of m days_per_4years 4, OF days_per_run(2) [OF m] run_at_least(2) [OF m] zero_less_numeral hb(1,2) hi(1) A(2) hb(3)] by auto
    have hc: "i64_min \<le> yb" "365 * yb + db \<le> 365 * (y4 + 402)" "db \<le> 200000" using B hb by auto
    obtain yc dc where C: "year_loop days_per_year 1 m yb db = Some (yc, dc)" "1 \<le> dc" "dc \<le> db" "yb \<le> yc"
      "365 * yc + dc \<le> 365 * yb + db" "day_no yc m 1 + dc = day_no yb m 1 + db"
      using loop [of m days_per_year 1, OF days_per_run(3) [OF m] run_at_least(3) [OF m] zero_less_one hc(1,2) hi(1) B(2) hc(3)] by auto
    show thesis using that [of yc dc] True A B C by simp
  qed
  obtain y6 m6 d6 where s4: "(if 28 < d5 then month_loop y5 m d5 else Some (y5, m, d5)) = Some (y6, m6, d6)"
    and y6: "valid_date y6 m6 d6" "i64_ok y6" "day_no y6 m6 d6 = day_no y5 m d5"
  proof (cases "28 < d5")
    case False
    then have "valid_date y5 m d5" using y5(3) m month_days_bounds(1) [of y5 m] by (simp add: valid_date_def)
    moreover have "i64_ok y5" using y5 d4 yb y3b y4b by (auto simp: i64_ok_iff)
    ultimately show thesis using that [of y5 m d5] False by simp
  next
    case True
    have hi: "i64_min \<le> y5" "28 * (12 * y5 + m) + d5 \<le> 28 * (12 * (y5 + 500))" "y5 + 500 < i64_max" "d5 \<le> 200000"
      using m y5 d4 yb y3b y4b by (auto simp: i64_max_def i64_min_def)
    from month_loop_ok [OF m hi(1-3) y5(3) hi(4)] obtain y6 m6 d6
      where "month_loop y5 m d5 = Some (y6, m6, d6)" "valid_date y6 m6 d6" "y5 \<le> y6"
        "28 * (12 * y6 + m6) + d6 \<le> 28 * (12 * y5 + m) + d5" "day_no y6 m6 d6 = day_no y5 m d5" by blast
    moreover from this have "i64_ok y6"
      using hi by (auto simp: i64_ok_def valid_date_def)
    ultimately show thesis using that [of y6 m6 d6] True by simp
  qed
  have "n_day y m d cd hh mm ss = Some (mk_fields y6 m6 (cast8 d6) hh mm ss)"
    using s1 s2 s3 s4 ok4 \<open>i64_ok (y + q * 400)\<close>
    by (simp add: n_day_def flip: q0 p0 y3_def d3_def)
  moreover have "cast8 d6 = d6"
    using y6(1) month_days_bounds(2) [of y6 m6] by (simp add: valid_date_def)
  moreover have "day_no y6 m6 d6 = day_no y m d + cd"
    using y6(3) y5(5) day4 day3 day_no_day [of y5 m d5] day_no_day [of y m d] by linarith
  ultimately show ?thesis using y6(1,2) by (simp add: mk_fields_def)
qed


text \<open>The date of month \<open>m\<close> of year \<open>y\<close> for any \<open>m\<close>, and what a normalization must give.\<close>

definition mon_day :: "int \<Rightarrow> int \<Rightarrow> int \<Rightarrow> int" where
  "mon_day y m d = day_no (y + (m - 1) div 12) ((m - 1) mod 12 + 1) d"

definition is_time :: "fields \<Rightarrow> int \<Rightarrow> int \<Rightarrow> int \<Rightarrow> int \<Rightarrow> bool" where
  "is_time f D hh mm ss \<longleftrightarrow> i64_ok (fy f) \<and> valid_date (fy f) (fm f) (fd f) \<and>
     day_no (fy f) (fm f) (fd f) = D \<and> fhh f = hh \<and> fmm f = mm \<and> fss f = ss"

text \<open>The correction of a truncating division to one that rounds down.\<close>

lemma floor_fix:
  assumes "0 < (b::int)"
  shows "a div b = (if a smod b < 0 then a sdiv b - 1 else a sdiv b)"
    "a mod b = (if a smod b < 0 then a smod b + b else a smod b)"
proof -
  note f = c_div_facts [OF assms, of a]
  have e: "a = b * (if a smod b < 0 then a sdiv b - 1 else a sdiv b) + (if a smod b < 0 then a smod b + b else a smod b)"
    using f(1) by (simp add: right_diff_distrib mult.commute)
  have r: "0 \<le> (if a smod b < 0 then a smod b + b else a smod b)" "(if a smod b < 0 then a smod b + b else a smod b) < b"
    using f(2,3) by auto
  show "a div b = (if a smod b < 0 then a sdiv b - 1 else a sdiv b)"
    "a mod b = (if a smod b < 0 then a smod b + b else a smod b)"
    by (rule int_div_pos_eq [OF e r] int_mod_pos_eq [OF e r])+
qed

lemma n_mon_ok:
  assumes "i64_ok m" "i64_ok d" "i64_ok cd" "near (9 * 10 ^ 17) y"
  shows "\<exists>f. n_mon y m d cd hh mm ss = Some f \<and> is_time f (mon_day y m d + cd) hh mm ss"
proof -
  let ?y = "y + (m - 1) div 12" and ?m = "(m - 1) mod 12 + 1"
  have b: "- 8323372036854775808 \<le> y" "y \<le> 8323372036854775807" using assms(4) by (auto simp: near_iff)
  have pos: "(0::int) < 12" by simp
  note f = c_div_facts [OF pos, of m]
  have q: "- 768614336404564651 \<le> m sdiv 12" "m sdiv 12 \<le> 768614336404564651"
    using f(1-3) assms(1) unfolding i64_ok_iff by linarith+
  have e: "(m - 1) = 12 * (if m smod 12 \<le> 0 then m sdiv 12 - 1 else m sdiv 12) +
      ((if m smod 12 \<le> 0 then m smod 12 + 12 else m smod 12) - 1)"
    using f(1) by (simp add: right_diff_distrib mult.commute)
  have r: "0 \<le> (if m smod 12 \<le> 0 then m smod 12 + 12 else m smod 12) - 1"
    "(if m smod 12 \<le> 0 then m smod 12 + 12 else m smod 12) - 1 < 12"
    using f(2,3) by auto
  have fl: "(m - 1) div 12 = (if m smod 12 \<le> 0 then m sdiv 12 - 1 else m sdiv 12)"
    "(m - 1) mod 12 = (if m smod 12 \<le> 0 then m smod 12 + 12 else m smod 12) - 1"
    by (rule int_div_pos_eq [OF e r] int_mod_pos_eq [OF e r])+
  have ok: "i64_ok (y + m sdiv 12)" "i64_ok (y + m sdiv 12 - 1)"
    using q b unfolding i64_ok_iff by linarith+
  have "(if m \<noteq> 12 then do { y \<leftarrow> ck (y + m sdiv 12);
                          let m = m smod 12;
                          if m \<le> 0 then do { y \<leftarrow> ck (y - 1); Some (y, m + 12) } else Some (y, m) }
                else Some (y, m)) = Some (?y, ?m)"
    using ok by (simp add: fl Let_def)
  moreover have m: "1 \<le> ?m" "?m \<le> 12" by auto
  moreover have "cast8 ?m = ?m" using m by simp
  moreover have "near (10 ^ 17) ?y" using q b fl(1) by (auto simp: near_iff)
  ultimately show ?thesis
    using n_day_ok [OF m assms(2,3), of ?y hh mm ss] by (auto simp: n_mon_def is_time_def mon_day_def)
qed

lemma n_hour_ok:
  assumes "i64_ok m" "i64_ok d" "- (2 ^ 62) \<le> cd" "cd \<le> 2 ^ 62" "i64_ok hh" "near (9 * 10 ^ 17) y"
  shows "\<exists>f. n_hour y m d cd hh mm ss = Some f \<and> is_time f (mon_day y m d + cd + hh div 24) (hh mod 24) mm ss"
proof -
  have pos: "(0::int) < 24" by simp
  note f = c_div_facts [OF pos, of hh] and fl = floor_fix [OF pos, of hh]
  have q: "- 768614336404564651 \<le> hh sdiv 24" "hh sdiv 24 \<le> 768614336404564651"
    using f(1-3) assms(5) unfolding i64_ok_iff by linarith+
  have ok: "i64_ok (cd + hh sdiv 24)" "i64_ok (cd + hh sdiv 24 - 1)"
    using q assms(3,4) unfolding i64_ok_iff by simp_all
  have c: "cast8 (hh mod 24) = hh mod 24" using pos_mod_bound [of 24 hh] by simp
  have "n_hour y m d cd hh mm ss = n_mon y m d (cd + hh div 24) (cast8 (hh mod 24)) mm ss"
    using ok unfolding fl by (simp add: n_hour_def Let_def add_diff_eq)
  moreover have "i64_ok (cd + hh div 24)" using ok fl by (simp add: add_diff_eq)
  ultimately show ?thesis
    using n_mon_ok [OF assms(1,2) _ assms(6), of "cd + hh div 24" "hh mod 24" mm ss] by (simp only: c add.assoc)
qed

lemma n_min_ok:
  assumes "i64_ok m" "i64_ok d" "i64_ok hh" "- (2 ^ 62) \<le> ch" "ch \<le> 2 ^ 62" "i64_ok mm" "near (9 * 10 ^ 17) y"
  shows "\<exists>f. n_min y m d hh ch mm ss = Some f \<and>
    is_time f (mon_day y m d + (hh + ch + mm div 60) div 24) ((hh + ch + mm div 60) mod 24) (mm mod 60) ss"
proof -
  have pos: "(0::int) < 60" "(0::int) < 24" by simp_all
  define c where "c = ch + mm div 60"
  note f = c_div_facts [OF pos(1), of mm] and fl = floor_fix [OF pos(1), of mm]
  have q: "- 768614336404564651 \<le> mm sdiv 60" "mm sdiv 60 \<le> 768614336404564651"
    using f(1-3) assms(6) unfolding i64_ok_iff by linarith+
  have ok: "i64_ok (ch + mm sdiv 60)" "i64_ok (ch + mm sdiv 60 - 1)"
    using q assms(4,5) unfolding i64_ok_iff by simp_all
  have c8: "cast8 (mm mod 60) = mm mod 60" using pos_mod_bound [of 60 mm] by simp
  have cb: "i64_ok c" using ok fl by (simp add: c_def add_diff_eq)
  define D H where "D = hh sdiv 24 + c sdiv 24" and "H = hh smod 24 + c smod 24"
  note g = c_div_facts [OF pos(2), of hh] c_div_facts [OF pos(2), of c]
  have DH: "hh + c = H + D * 24" using g(1,8) by (simp add: D_def H_def)
  have Db: "- (2 ^ 62) \<le> D" "D \<le> 2 ^ 62" "-48 < H" "H < 48"
    using g(1-3) g(8-10) assms(3) cb unfolding D_def H_def i64_ok_iff by simp_all
  have okD: "i64_ok D" "i64_ok H" using Db by (simp_all add: i64_ok_iff)
  have "n_min y m d hh ch mm ss = n_hour y m d D H (cast8 (mm mod 60)) ss"
    using ok okD fl by (cases "mm smod 60 < 0") (simp_all add: n_min_def Let_def add_diff_eq c_def D_def H_def)
  moreover have "(hh + c) div 24 = D + H div 24" "(hh + c) mod 24 = H mod 24" unfolding DH by simp_all
  ultimately show ?thesis
    using n_hour_ok [OF assms(1,2) Db(1,2) okD(2) assms(7), of "mm mod 60" ss]
    by (simp only: c8 add.assoc flip: c_def)
qed

text \<open>The unnormalized date and time as a number of seconds.\<close>

definition civil_seconds :: "int \<Rightarrow> int \<Rightarrow> int \<Rightarrow> int \<Rightarrow> int \<Rightarrow> int \<Rightarrow> int" where
  "civil_seconds y m d hh mm ss = mon_day y m d * 86400 + hh * 3600 + mm * 60 + ss"

text \<open>A result with the right fields is normalized and denotes the right instant.\<close>

lemma carry_seconds:
  assumes "(h::int) = a * 24 + r" "n = b * 60 + q" "s = c * 60 + p" "h = hh + b" "n = mm + c"
  shows "(D + a) * 86400 + r * 3600 + q * 60 + p = D * 86400 + hh * 3600 + mm * 60 + s"
  using assms by simp

lemma is_time_instant:
  assumes "is_time f (D + h div 24) (h mod 24) (n mod 60) (s mod 60)" "h = hh + n div 60" "n = mm + s div 60"
  shows "valid f \<and> instant f = D * 86400 + hh * 3600 + mm * 60 + s"
proof -
  have "h = h div 24 * 24 + h mod 24" "n = n div 60 * 60 + n mod 60" "s = s div 60 * 60 + s mod 60" by simp_all
  then have "(D + h div 24) * 86400 + h mod 24 * 3600 + n mod 60 * 60 + s mod 60
      = D * 86400 + hh * 3600 + mm * 60 + s"
    by (rule carry_seconds [OF _ _ _ assms(2,3)])
  with assms(1) show ?thesis
    unfolding is_time_def valid_def instant_def by simp
qed

lemma n_sec_ok:
  assumes "i64_ok m" "i64_ok d" "i64_ok hh" "i64_ok mm" "i64_ok ss" "near (9 * 10 ^ 17) y"
  shows "\<exists>f. n_sec y m d hh mm ss = Some f \<and> valid f \<and> instant f = civil_seconds y m d hh mm ss"
proof -
  define n h where "n = mm + ss div 60" and "h = hh + n div 60"
  let ?goal = "\<lambda>f. is_time f (mon_day y m d + h div 24) (h mod 24) (n mod 60) (ss mod 60)"
  have "\<exists>f. n_sec y m d hh mm ss = Some f \<and> ?goal f"
  proof (cases "0 \<le> ss \<and> ss < 60")
    case ss: True
    then have nm: "n = mm" "ss mod 60 = ss" "cast8 ss = ss" by (simp_all add: n_def)
    show ?thesis
    proof (cases "0 \<le> mm \<and> mm < 60")
      case mm: True
      then have hm: "h = hh" "mm mod 60 = mm" "cast8 mm = mm" by (simp_all add: h_def nm)
      show ?thesis
      proof (cases "0 \<le> hh \<and> hh < 24")
        case hh: True
        then have hd: "hh div 24 = 0" "hh mod 24 = hh" "cast8 hh = hh" by simp_all
        show ?thesis
        proof (cases "1 \<le> d \<and> d \<le> 28 \<and> 1 \<le> m \<and> m \<le> 12")
          case True
          moreover from this have "(m - 1) div 12 = 0" "(m - 1) mod 12 = m - 1" by simp_all
          moreover have "28 \<le> month_days y m" by (rule month_days_bounds)
          ultimately show ?thesis
            using ss mm hh assms(6)
            by (simp add: n_sec_def is_time_def mk_fields_def nm hm hd valid_date_def mon_day_def near_iff i64_ok_iff)
        next
          case False
          have "i64_ok 0" by (simp add: i64_ok_iff)
          from n_mon_ok [OF assms(1,2) this assms(6), of hh mm ss] False ss mm hh show ?thesis
            by (simp add: n_sec_def nm hm hd) blast
        qed
      next
        case False
        have pos: "(0::int) < 24" by simp
        note f = c_div_facts [OF pos, of hh]
        have b: "- (2 ^ 62) \<le> hh sdiv 24" "hh sdiv 24 \<le> 2 ^ 62" "i64_ok (hh smod 24)"
          using f(1-3) assms(3) unfolding i64_ok_iff by simp_all
        have "hh div 24 = hh sdiv 24 + hh smod 24 div 24" "hh mod 24 = hh smod 24 mod 24"
          by (subst (1) f(1), simp)+
        with n_hour_ok [OF assms(1,2) b assms(6), of mm ss] False ss mm show ?thesis
          by (auto simp: n_sec_def nm hm add.assoc)
      qed
    next
      case False
      have pos: "(0::int) < 60" by simp
      note f = c_div_facts [OF pos, of mm]
      have b: "- (2 ^ 62) \<le> mm sdiv 60" "mm sdiv 60 \<le> 2 ^ 62" "i64_ok (mm smod 60)"
        using f(1-3) assms(4) unfolding i64_ok_iff by simp_all
      have "mm div 60 = mm sdiv 60 + mm smod 60 div 60" "mm mod 60 = mm smod 60 mod 60"
        by (subst (1) f(1), simp)+
      with n_min_ok [OF assms(1-3) b assms(6), of ss] False ss show ?thesis
        by (auto simp: n_sec_def nm h_def add.assoc)
    qed
  next
    case False
    have pos: "(0::int) < 60" by simp
    note f = c_div_facts [OF pos, of mm] and fl = floor_fix [OF pos, of ss] and g = c_div_facts [OF pos, of "ss div 60"]
    have c8: "cast8 (ss mod 60) = ss mod 60" using pos_mod_bound [of 60 ss] by simp
    have cm: "i64_ok (ss sdiv 60 - 1)" "- 768614336404564651 \<le> ss div 60" "ss div 60 \<le> 768614336404564651"
      using c_div_facts(1-3) [OF pos, of ss] assms(5) fl unfolding i64_ok_iff by auto
    define C M where "C = mm sdiv 60 + ss div 60 sdiv 60" and "M = mm smod 60 + ss div 60 smod 60"
    have b: "- (2 ^ 62) \<le> C" "C \<le> 2 ^ 62" "i64_ok C" "i64_ok M"
      using f(1-3) g(1-3) cm(2,3) assms(4) unfolding C_def M_def i64_ok_iff by simp_all
    have "n_sec y m d hh mm ss = n_min y m d hh C M (cast8 (ss mod 60))"
      using False b(3,4) cm(1) fl by (cases "ss smod 60 < 0") (auto simp: n_sec_def Let_def C_def M_def)
    moreover have "n = M + C * 60" using f(1) g(1) by (simp add: n_def M_def C_def)
    then have "hh + C + M div 60 = h" "M mod 60 = n mod 60" by (simp_all add: h_def)
    ultimately show ?thesis
      using n_min_ok [OF assms(1-3) b(1,2,4) assms(6), of "ss mod 60"] by (simp add: c8)
  qed
  then show ?thesis
    using is_time_instant [OF _ h_def n_def] unfolding civil_seconds_def by blast
qed


section \<open>Order and uniqueness\<close>

lemma year_start_mono: "y < y' \<Longrightarrow> year_start (y + 1) \<le> year_start y'"
proof (induction "nat (y' - y)" arbitrary: y)
  case 0
  then show ?case by simp
next
  case (Suc n)
  show ?case
  proof (cases "y + 1 = y'")
    case False
    then have "year_start (y + 1 + 1) \<le> year_start y'" using Suc by (intro Suc.hyps) auto
    then show ?thesis using run_lengths(1) [of "y + 1"] by (simp split: if_splits)
  qed simp
qed

lemma month_start_mono:
  assumes "1 \<le> m" "m < m'"
  shows "month_start y m + month_days y m \<le> month_start y m'"
  using assms(2)
proof (induction "nat (m' - m)" arbitrary: m')
  case 0
  then show ?case by simp
next
  case (Suc n)
  show ?case
  proof (cases "m' = m + 1")
    case True
    then show ?thesis using assms(1) by (simp add: month_start_def upto_rec2)
  next
    case False
    then have "month_start y m + month_days y m \<le> month_start y (m' - 1)" using Suc by (intro Suc.hyps) auto
    moreover have "month_start y m' = month_start y (m' - 1) + month_days y (m' - 1)"
      using assms(1) Suc.prems False by (simp add: month_start_def upto_rec2 [of 1 "m' - 1"])
    ultimately show ?thesis using month_days_bounds(1) [of y "m' - 1"] by linarith
  qed
qed

lemma day_no_in_year:
  assumes "valid_date y m d"
  shows "year_start y \<le> day_no y m d" "day_no y m d < year_start (y + 1)"
proof -
  have d: "1 \<le> m" "m < 13" "1 \<le> d" "d \<le> month_days y m" using assms by (auto simp: valid_date_def)
  have "month_start y 1 = 0" by (simp add: month_start_def)
  then have "0 \<le> month_start y m"
    using month_start_mono [of 1 m y] d(1) month_days_bounds(1) [of y 1] by (cases "m = 1") auto
  then show "year_start y \<le> day_no y m d" using d by (simp add: day_no_def)
  have "month_start y 13 = (if leap y then 366 else 365)"
    by (simp add: month_start_def month_days_def upto_rec1)
  then show "day_no y m d < year_start (y + 1)"
    using month_start_mono [OF d(1,2), of y] run_lengths(1) [of y] d by (simp add: day_no_def split: if_splits)
qed

lemma day_no_less:
  assumes "valid_date y m d" "valid_date y' m' d'"
    and "y < y' \<or> (y = y' \<and> (m < m' \<or> (m = m' \<and> d < d')))"
  shows "day_no y m d < day_no y' m' d'"
  using assms(3)
proof (elim disjE conjE)
  assume "y < y'"
  then show ?thesis
    using day_no_in_year(2) [OF assms(1)] year_start_mono [of y y'] day_no_in_year(1) [OF assms(2)] by linarith
next
  assume "y = y'" "m < m'"
  then show ?thesis
    using month_start_mono [of m m' y] assms(1,2) by (auto simp: day_no_def valid_date_def)
qed (simp add: day_no_def)

lemma day_no_inj:
  assumes "valid_date y m d" "valid_date y' m' d'" "day_no y m d = day_no y' m' d'"
  shows "y = y'" "m = m'" "d = d'"
proof -
  have "\<not> (y < y' \<or> (y = y' \<and> (m < m' \<or> (m = m' \<and> d < d'))))"
    using day_no_less [OF assms(1,2)] assms(3) by auto
  moreover have "\<not> (y' < y \<or> (y' = y \<and> (m' < m \<or> (m' = m \<and> d' < d))))"
    using day_no_less [OF assms(2,1)] assms(3) by auto
  ultimately show "y = y'" "m = m'" "d = d'" by auto
qed

lemma instant_less:
  assumes "valid f" "valid g" "civil_less f g"
  shows "instant f < instant g"
proof -
  have f: "valid_date (fy f) (fm f) (fd f)" "0 \<le> fhh f" "fhh f < 24" "0 \<le> fmm f" "fmm f < 60" "0 \<le> fss f" "fss f < 60"
    using assms(1) by (auto simp: valid_def)
  have g: "valid_date (fy g) (fm g) (fd g)" "0 \<le> fhh g" "fhh g < 24" "0 \<le> fmm g" "fmm g < 60" "0 \<le> fss g" "fss g < 60"
    using assms(2) by (auto simp: valid_def)
  show ?thesis
  proof (cases "fy f < fy g \<or> (fy f = fy g \<and> (fm f < fm g \<or> (fm f = fm g \<and> fd f < fd g)))")
    case True
    from day_no_less [OF f(1) g(1) this] f g show ?thesis unfolding instant_def by linarith
  next
    case False
    with assms(3) have e: "fy f = fy g" "fm f = fm g" "fd f = fd g" by (auto simp: civil_less_def)
    with assms(3) f(2-) g(2-) show ?thesis unfolding instant_def e civil_less_def by auto
  qed
qed

lemma civil_order_ok:
  assumes "valid f" "valid g"
  shows "(civil_less f g \<longleftrightarrow> instant f < instant g) \<and> (civil_le f g \<longleftrightarrow> instant f \<le> instant g) \<and>
    (civil_ge f g \<longleftrightarrow> instant g \<le> instant f) \<and> (civil_greater f g \<longleftrightarrow> instant g < instant f) \<and>
    (civil_eq f g \<longleftrightarrow> instant f = instant g) \<and> (f = g \<longleftrightarrow> instant f = instant g)"
proof -
  have tri: "civil_less f g \<or> civil_eq f g \<or> civil_less g f"
    unfolding civil_less_def civil_eq_def by (metis linorder_less_linear)
  have eq: "civil_eq f g \<Longrightarrow> f = g" by (simp add: civil_eq_def)
  have "civil_eq f g \<longleftrightarrow> f = g" by (auto simp: civil_eq_def)
  with tri eq instant_less [OF assms] instant_less [OF assms(2,1)] show ?thesis
    unfolding civil_le_def civil_ge_def civil_greater_def by (cases "civil_eq f g") force+
qed



section \<open>Stepping\<close>

fun unit :: "tag \<Rightarrow> int" where
  "unit Second = 1" | "unit Minute = 60" | "unit Hour = 3600" | "unit Day = 86400"
| "unit Month = 0" | "unit Year = 0"

definition timed :: "tag \<Rightarrow> bool" where
  "timed t \<longleftrightarrow> t = Second \<or> t = Minute \<or> t = Hour \<or> t = Day"

lemma mon_day_valid: "valid_date y m d \<Longrightarrow> mon_day y m e = day_no y m e"
  by (simp add: mon_day_def valid_date_def)

lemma near_mono: "j \<le> k \<Longrightarrow> near k y \<Longrightarrow> near j y"
  by (simp add: near_def)

lemma small_ok: "- 1000 \<le> x \<Longrightarrow> x \<le> 1000 \<Longrightarrow> i64_ok x"
  by (simp add: i64_ok_iff)

lemma valid_small:
  assumes "valid f"
  shows "i64_ok (fy f)" "1 \<le> fm f" "fm f \<le> 12" "1 \<le> fd f" "fd f \<le> 31" "0 \<le> fhh f" "fhh f < 24"
    "0 \<le> fmm f" "fmm f < 60" "0 \<le> fss f" "fss f < 60" "valid_date (fy f) (fm f) (fd f)"
  using assms month_days_bounds(2) [of "fy f" "fm f"] by (auto simp: valid_def valid_date_def)

text \<open>Adding a quotient and a remainder to two neighbouring fields.\<close>

lemma split_add:
  assumes "i64_ok n" "0 < (b::int)" "b \<le> 1000" "-1000 \<le> x" "x \<le> 1000" "-1000 \<le> z" "z \<le> 1000" "10 \<le> b"
  shows "i64_ok (x + n sdiv b)" "i64_ok (z + n smod b)" "n = n sdiv b * b + n smod b"
proof -
  note f = c_div_facts [OF assms(2), of n]
  have "\<bar>n sdiv b\<bar> \<le> 922337203685477581"
  proof (cases "0 \<le> n")
    case True
    then have "n sdiv b * 10 \<le> n sdiv b * b" "n sdiv b * b \<le> n" "0 \<le> n sdiv b"
      using f(1,4,5) assms(8) by (auto intro: mult_left_mono)
    then show ?thesis using assms(1) unfolding i64_ok_iff by linarith
  next
    case False
    then have "n sdiv b * b \<le> n sdiv b * 10" "n \<le> n sdiv b * b" "n sdiv b \<le> 0"
      using f(1,6,7) assms(8) by (auto intro: mult_left_mono_neg)
    then show ?thesis using assms(1) False unfolding i64_ok_iff by linarith
  qed
  then show "i64_ok (x + n sdiv b)" using assms(4,5) unfolding i64_ok_iff by linarith
  show "i64_ok (z + n smod b)" using f(2,3) assms(3,6,7) unfolding i64_ok_iff by linarith
  show "n = n sdiv b * b + n smod b" by (rule f(1))
qed

lemma step_ok:
  assumes v: "valid f" and n: "i64_ok n" and y: "near (9 * 10 ^ 17) (fy f)" and t: "timed t"
  shows "\<exists>g. step t f n = Some g \<and> valid g \<and> instant g = instant f + n * unit t"
proof -
  note s = valid_small [OF v]
  have md: "mon_day (fy f) (fm f) d = day_no (fy f) (fm f) 1 + d - 1" for d
    using mon_day_valid [OF s(12), of d] day_no_day [of "fy f" "fm f" d] by simp
  have ok: "i64_ok (fm f)" "i64_ok (fd f)" "i64_ok (fhh f)" "i64_ok (fmm f)" "i64_ok (fss f)"
    using s by (auto intro: small_ok)
  have inst: "instant f = (day_no (fy f) (fm f) 1 + fd f - 1) * 86400 + fhh f * 3600 + fmm f * 60 + fss f"
    unfolding instant_def day_no_day [of "fy f" "fm f" "fd f"] ..
  from t show ?thesis unfolding timed_def
  proof (elim disjE)
    assume t: "t = Second"
    note a = split_add [OF n, of 60 "fmm f" "fss f"]
    have a: "i64_ok (fmm f + n sdiv 60)" "i64_ok (fss f + n smod 60)" "n = n sdiv 60 * 60 + n smod 60"
      using a s by auto
    from n_sec_ok [OF ok(1-3) a(1,2) y] obtain g where
      "n_sec (fy f) (fm f) (fd f) (fhh f) (fmm f + n sdiv 60) (fss f + n smod 60) = Some g" "valid g"
      "instant g = civil_seconds (fy f) (fm f) (fd f) (fhh f) (fmm f + n sdiv 60) (fss f + n smod 60)" by blast
    then show ?thesis using a unfolding t inst civil_seconds_def md by simp
  next
    assume t: "t = Minute"
    have a: "i64_ok (fhh f + n sdiv 60)" "i64_ok (fmm f + n smod 60)" "n = n sdiv 60 * 60 + n smod 60"
      using split_add [OF n, of 60 "fhh f" "fmm f"] s by auto
    define h m where "h = fhh f + n sdiv 60" and "m = fmm f + n smod 60"
    have "- (2 ^ 62) \<le> (0::int)" "(0::int) \<le> 2 ^ 62" by simp_all
    from n_min_ok [OF ok(1,2) a(1) this a(2) y, of "fss f"] obtain g where
      g: "n_min (fy f) (fm f) (fd f) (fhh f + n sdiv 60) 0 (fmm f + n smod 60) (fss f) = Some g"
      "is_time g (mon_day (fy f) (fm f) (fd f) + (h + m div 60) div 24) ((h + m div 60) mod 24) (m mod 60) (fss f)"
      unfolding h_def m_def by auto
    have "valid g \<and> instant g = mon_day (fy f) (fm f) (fd f) * 86400 + h * 3600 + m * 60 + fss f"
      using is_time_instant [of g _ "h + m div 60" m "fss f" h m] g(2) s by simp
    then show ?thesis using g a unfolding t inst h_def m_def md by simp
  next
    assume t: "t = Hour"
    have a: "i64_ok (fd f + n sdiv 24)" "i64_ok (fhh f + n smod 24)" "n = n sdiv 24 * 24 + n smod 24"
      using split_add [OF n, of 24 "fd f" "fhh f"] s by auto
    define d h where "d = fd f + n sdiv 24" and "h = fhh f + n smod 24"
    have "- (2 ^ 62) \<le> (0::int)" "(0::int) \<le> 2 ^ 62" by simp_all
    from n_hour_ok [OF ok(1) a(1) this a(2) y, of "fmm f" "fss f"] obtain g where
      g: "n_hour (fy f) (fm f) (fd f + n sdiv 24) 0 (fhh f + n smod 24) (fmm f) (fss f) = Some g"
      "is_time g (mon_day (fy f) (fm f) d + h div 24) (h mod 24) (fmm f) (fss f)"
      unfolding d_def h_def by auto
    have "valid g \<and> instant g = mon_day (fy f) (fm f) d * 86400 + h * 3600 + fmm f * 60 + fss f"
      using is_time_instant [of g _ h "fmm f" "fss f" h "fmm f"] g(2) s by simp
    then show ?thesis using g a unfolding t inst d_def h_def md by simp
  next
    assume t: "t = Day"
    from n_day_ok [OF s(2,3) ok(2) n near_mono [OF _ y], of "fhh f" "fmm f" "fss f"]
    obtain g where g: "step t f n = Some g" "valid_date (fy g) (fm g) (fd g)" "i64_ok (fy g)"
      "day_no (fy g) (fm g) (fd g) = day_no (fy f) (fm f) (fd f) + n" "fhh g = fhh f" "fmm g = fmm f" "fss g = fss f"
      unfolding t by auto
    then show ?thesis using s unfolding t by (intro exI [of _ g]) (simp add: valid_def instant_def)
  qed
qed

text \<open>Months are counted from January of year 0; a step by months keeps the first of the month.\<close>

definition month_no :: "fields \<Rightarrow> int" where
  "month_no f = 12 * fy f + fm f - 1"

lemma align_month_iff: "align Month f = f \<longleftrightarrow> fd f = 1 \<and> fhh f = 0 \<and> fmm f = 0 \<and> fss f = 0"
  by (cases f) (auto simp: mk_fields_def)

lemma align_year_iff: "align Year f = f \<longleftrightarrow> fm f = 1 \<and> fd f = 1 \<and> fhh f = 0 \<and> fmm f = 0 \<and> fss f = 0"
  by (cases f) (auto simp: mk_fields_def)

lemma carry_months:
  assumes "(n::int) = q * 12 + r" "a * 12 + b = m' - 1" "y' = y + q" "m' = m + r"
  shows "12 * (y' + a) + (b + 1) - 1 = 12 * y + m - 1 + n"
  using assms by simp

lemma step_month_ok:
  assumes v: "valid f" and a: "align Month f = f" and n: "i64_ok n" and y: "near (2 * 10 ^ 18) (fy f)"
  shows "\<exists>g. step Month f n = Some g \<and> valid g \<and> align Month g = g \<and> month_no g = month_no f + n"
proof -
  note s = valid_small [OF v]
  have d: "fd f = 1" "fhh f = 0" "fmm f = 0" "fss f = 0" using a unfolding align_month_iff by auto
  have pos: "(0::int) < 12" by simp
  note fn = c_div_facts [OF pos, of n]
  define y' m' where "y' = fy f + n sdiv 12" and "m' = fm f + n smod 12"
  have ok: "i64_ok y'" "i64_ok m'" "near (9 * 10 ^ 17) y'"
    using fn(1-3) n y s(2,3) unfolding y'_def m'_def i64_ok_iff near_iff by simp_all
  let ?Y = "y' + (m' - 1) div 12" and ?M = "(m' - 1) mod 12 + 1"
  have "?M \<le> 12" using pos_mod_bound [OF pos, of "m' - 1"] by linarith
  then have vd: "valid_date ?Y ?M 1" using month_days_bounds(1) [of ?Y ?M] by (simp add: valid_date_def)
  from n_mon_ok [OF ok(2) small_ok small_ok ok(3), of 1 0 0 0 0] obtain g where
    g: "n_mon y' m' 1 0 0 0 0 = Some g" "is_time g (mon_day y' m' 1) 0 0 0" by auto
  then have e: "fy g = ?Y" "fm g = ?M" "fd g = 1"
    using day_no_inj [OF _ vd, of "fy g" "fm g" "fd g"] by (auto simp: is_time_def mon_day_def)
  have "step Month f n = Some g" using g(1) ok d by (simp add: y'_def m'_def)
  moreover have "valid g" "align Month g = g"
    using g(2) e unfolding align_month_iff is_time_def valid_def by auto
  moreover have "month_no g = month_no f + n"
    unfolding month_no_def e by (rule carry_months [OF fn(1) div_mult_mod_eq y'_def m'_def])
  ultimately show ?thesis by blast
qed

section \<open>Day numbers and differences\<close>

lemma floor_adjust: "(if 0 \<le> (e::int) then e else e - 399) sdiv 400 = e div 400"
proof (cases "0 \<le> e")
  case True
  then show ?thesis by (simp add: sdiv_nonneg)
next
  case neg: False
  have "399 - e = 400 * (- (e div 400)) + (399 - e mod 400)"
    by (simp add: minus_mod_eq_mult_div [symmetric])
  then have "(399 - e) div 400 = - (e div 400)"
    by (rule int_div_pos_eq) (simp_all add: pos_mod_bound zle_diff1_eq)
  with neg show ?thesis by (simp add: sdiv_neg)
qed

lemma march_day:
  assumes "1 \<le> m" "m \<le> 12"
  shows "(153 * (m + (if 2 < m then -3 else 9)) + 2) sdiv 5 =
    month_start 1 m + (if 2 < m then -59 else 306)"
  using assms by (cases m rule: month_cases) (auto simp: month_start_def month_days_def leap_def upto_rec1 sdiv_nonneg)

lemma year_start_era:
  assumes "e = era * 400 + yoe" "0 \<le> yoe" "yoe < 400"
  shows "year_start (e + 1) = era * 146097 + (yoe * 365 + yoe sdiv 4 - yoe sdiv 100)"
proof -
  have "year_start (e + 1) = year_start (yoe + 1) + 146097 * era"
    using year_start_shift [of "yoe + 1" era] assms(1) by (simp add: ac_simps)
  then show ?thesis using assms(2,3) by (simp add: year_start_def sdiv_nonneg)
qed

lemma ymd_ord_ok:
  assumes v: "valid_date y m d" and y: "- 20000000000000000 \<le> y" "y \<le> 20000000000000000"
  shows "ymd_ord y m d = Some (day_no y m d - day_no 1970 1 1)"
proof -
  have m: "1 \<le> m" "m \<le> 12" "1 \<le> d" "d \<le> 31"
    using v month_days_bounds(2) [of y m] by (auto simp: valid_date_def)
  define e where "e = (if m \<le> 2 then y - 1 else y)"
  define era yoe where "era = e div 400" and "yoe = e mod 400"
  have ey: "e = era * 400 + yoe" "0 \<le> yoe" "yoe < 400" by (simp_all add: era_def yoe_def)
  have eb: "- 20000000000000001 \<le> e" "e \<le> 20000000000000000" using y by (auto simp: e_def)
  have erab: "- 50000000000001 \<le> era" "era \<le> 50000000000000" using ey eb by linarith+
  define doy where "doy = (153 * (m + (if 2 < m then -3 else 9)) + 2) sdiv 5 + d - 1"
  have doy: "doy = month_start 1 m + (if 2 < m then -59 else 306) + d - 1"
    unfolding doy_def march_day [OF m(1,2)] ..
  have "0 \<le> month_start 1 m" "month_start 1 m \<le> 334"
    using m(1,2) by (cases m rule: month_cases; simp add: month_start_def month_days_def leap_def upto_rec1)+
  then have doyb: "- 59 \<le> doy" "doy \<le> 670" using m(3,4) unfolding doy by auto
  have q: "0 \<le> yoe sdiv 4" "yoe sdiv 4 < 100" "0 \<le> yoe sdiv 100" "yoe sdiv 100 < 4"
    using ey(2,3) by (simp_all add: sdiv_nonneg pos_imp_zdiv_nonneg_iff)
  have "1 \<le> m" using m by simp
  have ok: "i64_ok (y - 1)" "i64_ok (e - 399)" "i64_ok (era * 400)" "i64_ok (e - era * 400)" "i64_ok (yoe * 365)"
    "i64_ok (yoe * 365 + yoe sdiv 4 - yoe sdiv 100 + doy)" "i64_ok (era * 146097)"
    "i64_ok (era * 146097 + (yoe * 365 + yoe sdiv 4 - yoe sdiv 100 + doy))"
    "i64_ok (era * 146097 + (yoe * 365 + yoe sdiv 4 - yoe sdiv 100 + doy) - 719468)"
    using y eb erab ey q doyb unfolding i64_ok_iff by linarith+
  have yoe: "e - era * 400 = yoe" using ey(1) by linarith
  have "ymd_ord y m d = Some (era * 146097 + (yoe * 365 + yoe sdiv 4 - yoe sdiv 100 + doy) - 719468)"
  proof -
    have "(if m \<le> 2 then ck (y - 1) else Some y) = Some e" using ok by (simp add: e_def)
    moreover have "(if 0 \<le> e then Some e else ck (e - 399)) = Some (if 0 \<le> e then e else e - 399)" using ok by simp
    ultimately show ?thesis
      unfolding ymd_ord_def doy_def [symmetric] using ok yoe
      by (simp add: floor_adjust era_def [symmetric])
  qed
  moreover have "era * 146097 + (yoe * 365 + yoe sdiv 4 - yoe sdiv 100 + doy) - 719468 = year_start (e + 1) + doy - 719468"
    unfolding year_start_era [OF ey] by simp
  moreover have "day_no 1970 1 1 = 719162" by (simp add: day_no_def year_start_def month_start_def)
  moreover have "year_start (e + 1) + doy - 306 = day_no y m d"
    unfolding doy day_no_def month_start_eq [OF m(1,2), of y] e_def using run_lengths(1) [of y] by auto
  ultimately show ?thesis by simp
qed

lemma sdiv_exact: "0 < b \<Longrightarrow> (k * b) sdiv b = (k::int)"
  by (cases "0 \<le> k") (simp_all add: sdiv_nonneg sdiv_neg mult_neg_pos flip: mult_minus_left)

lemma valid_date_400: "valid_date (y + 400 * k) m d \<longleftrightarrow> valid_date y m d"
proof -
  have "leap (y + 400 * k) \<longleftrightarrow> leap y" using leap_mod [of "y + 400 * k"] leap_mod [of y] by simp
  then show ?thesis by (simp add: valid_date_def month_days_def)
qed

text \<open>A date in the 400-year cycle the code takes out of the year.\<close>

lemma cycle_date:
  assumes "valid_date y m d"
  obtains k where "y - y smod 400 = 400 * k" "day_no y m d = day_no (y smod 400) m d + 146097 * k"
    "valid_date (y smod 400) m d" "- 146097 \<le> day_no (y smod 400) m d" "day_no (y smod 400) m d < 145731"
proof -
  have pos: "(0::int) < 400" by simp
  note f = c_div_facts [OF pos, of y]
  let ?a = "y smod 400" and ?k = "y sdiv 400"
  have y: "y = ?a + 400 * ?k" using f(1) by (simp add: mult.commute)
  have v: "valid_date ?a m d" using assms valid_date_400 [of ?a ?k] y by simp
  then have m: "1 \<le> m" "m \<le> 12" by (auto simp: valid_date_def)
  have dn: "day_no y m d = day_no ?a m d + 146097 * ?k" using day_no_400 [OF m, of ?a ?k d] y by simp
  have "year_start (-399) \<le> year_start ?a" "year_start (?a + 1) \<le> year_start 400"
    using year_start_mono [of "-399" ?a] year_start_mono [of ?a 400] f(2,3) run_lengths(1) [of "-399"]
    by (cases "?a = -399"; simp split: if_splits)+
  moreover have "year_start (-399) = - 146097" "year_start 400 = 145731" by (simp_all add: year_start_def)
  ultimately have "- 146097 \<le> day_no ?a m d" "day_no ?a m d < 145731"
    using day_no_in_year [OF v] by linarith+
  then show thesis using that [of ?k] y v dn by simp
qed

text \<open>Whenever the difference fits \<open>int64\<close>, it is computed with no overflow, for all 64-bit years.\<close>

lemma day_difference_ok:
  assumes v1: "valid_date y1 m1 d1" and v2: "valid_date y2 m2 d2" and y: "i64_ok y1" "i64_ok y2"
    and T: "i64_ok (day_no y1 m1 d1 - day_no y2 m2 d2)"
  shows "day_difference y1 m1 d1 y2 m2 d2 = Some (day_no y1 m1 d1 - day_no y2 m2 d2)"
proof -
  obtain k where k: "y1 - y1 smod 400 = 400 * k" "day_no y1 m1 d1 = day_no (y1 smod 400) m1 d1 + 146097 * k"
    "valid_date (y1 smod 400) m1 d1" "- 146097 \<le> day_no (y1 smod 400) m1 d1" "day_no (y1 smod 400) m1 d1 < 145731"
    by (rule cycle_date [OF v1])
  obtain l where l: "y2 - y2 smod 400 = 400 * l" "day_no y2 m2 d2 = day_no (y2 smod 400) m2 d2 + 146097 * l"
    "valid_date (y2 smod 400) m2 d2" "- 146097 \<le> day_no (y2 smod 400) m2 d2" "day_no (y2 smod 400) m2 d2 < 145731"
    by (rule cycle_date [OF v2])
  let ?D = "day_no (y1 smod 400) m1 d1 - day_no (y2 smod 400) m2 d2" and ?E = "day_no 1970 1 1"
  have pos: "(0::int) < 400" by simp
  note a = c_div_facts [OF pos, of y1] and b = c_div_facts [OF pos, of y2]
  have "i64_ok (y1 - y1 smod 400)" "i64_ok (y2 - y2 smod 400)"
    using a(2-7) b(2-7) y unfolding i64_ok_iff by linarith+
  then have pq: "i64_ok (400 * k)" "i64_ok (400 * l)" using k l by auto
  have kl: "- 63131837319420 \<le> k - l" "k - l \<le> 63131837319420" "- 291829 < ?D" "?D < 291829"
    using T k(2,4,5) l(2,4,5) unfolding i64_ok_iff by linarith+
  have c4: "i64_ok (400 * k - 400 * l)" using kl unfolding i64_ok_iff by linarith
  have ord: "ymd_ord (y1 smod 400) m1 d1 = Some (day_no (y1 smod 400) m1 d1 - ?E)"
    "ymd_ord (y2 smod 400) m2 d2 = Some (day_no (y2 smod 400) m2 d2 - ?E)"
    using ymd_ord_ok [OF k(3)] ymd_ord_ok [OF l(3)] a(2,3) b(2,3) by simp_all
  have D: "i64_ok ?D" using kl unfolding i64_ok_iff by linarith
  have e: "i64_ok (day_no (y1 smod 400) m1 d1 - ?E - (day_no (y2 smod 400) m2 d2 - ?E))"
    "day_no (y1 smod 400) m1 d1 - ?E - (day_no (y2 smod 400) m2 d2 - ?E) = ?D" using D by simp_all
  define n where "n = k - l"
  have n: "400 * k - 400 * l = n * 400" "day_no y1 m1 d1 - day_no y2 m2 d2 = n * 146097 + ?D"
    using k(2) l(2) by (simp_all add: n_def)
  have "\<exists>n' D'. (if 0 < n * 400 \<and> ?D < 0
        then do { delta \<leftarrow> ck (?D + 2 * 146097); c4_diff \<leftarrow> ck (n * 400 - 2 * 400); Some (c4_diff, delta) }
        else if n * 400 < 0 \<and> 0 < ?D
        then do { delta \<leftarrow> ck (?D - 2 * 146097); c4_diff \<leftarrow> ck (n * 400 + 2 * 400); Some (c4_diff, delta) }
        else Some (n * 400, ?D)) = Some (n' * 400, D') \<and> n' * 146097 + D' = n * 146097 + ?D \<and>
        i64_ok (n' * 146097)"
  proof (cases "0 < n \<and> ?D < 0")
    case True
    have "i64_ok (?D + 2 * 146097)" "i64_ok (n * 400 - 2 * 400)" "i64_ok ((n - 2) * 146097)"
      using kl True [THEN conjunct1] True [THEN conjunct2] T n unfolding n_def [symmetric] i64_ok_iff left_diff_distrib distrib_right by linarith+
    with True show ?thesis by (intro exI [of _ "n - 2"] exI [of _ "?D + 2 * 146097"]) simp
  next
    case no: False
    show ?thesis
    proof (cases "n < 0 \<and> 0 < ?D")
      case True
      have "i64_ok (?D - 2 * 146097)" "i64_ok (n * 400 + 2 * 400)" "i64_ok ((n + 2) * 146097)"
        using kl True [THEN conjunct1] True [THEN conjunct2] T n unfolding n_def [symmetric] i64_ok_iff left_diff_distrib distrib_right by linarith+
      with True show ?thesis by (intro exI [of _ "n + 2"] exI [of _ "?D - 2 * 146097"]) simp
    next
      case False
      with no consider "n = 0" | "0 < n" "0 \<le> ?D" | "n < 0" "?D \<le> 0" by force
      then have "i64_ok (n * 146097)" using T n by cases (unfold i64_ok_iff, linarith+)
      with False no show ?thesis by (intro exI [of _ n] exI [of _ ?D]) auto
    qed
  qed
  then obtain n' D' where adj: "(if 0 < n * 400 \<and> ?D < 0
        then do { delta \<leftarrow> ck (?D + 2 * 146097); c4_diff \<leftarrow> ck (n * 400 - 2 * 400); Some (c4_diff, delta) }
        else if n * 400 < 0 \<and> 0 < ?D
        then do { delta \<leftarrow> ck (?D - 2 * 146097); c4_diff \<leftarrow> ck (n * 400 + 2 * 400); Some (c4_diff, delta) }
        else Some (n * 400, ?D)) = Some (n' * 400, D')" "n' * 146097 + D' = n * 146097 + ?D"
        "i64_ok (n' * 146097)" by blast
  show ?thesis
    unfolding day_difference_def Let_def k(1) l(1) n(2) ord
    using pq c4 adj D T [unfolded n(2)] by (simp only: ck_Some bind.bind_lunit n(1) e sdiv_exact pos prod.case)
qed

lemma scale_add_ok:
  assumes "i64_ok (v * f + a)" "1 < f" "f \<le> 1000" "- f < a" "a < f" "i64_ok v"
  shows "scale_add v f a = Some (v * f + a)"
proof (cases "v < 0")
  case True
  have e: "(v + 1) * f = v * f + f" by (simp add: distrib_right)
  have "(v + 1) * f \<le> 0" using True assms(2) by (simp add: mult_nonpos_nonneg)
  then have "i64_ok (v + 1)" "i64_ok ((v + 1) * f)" "i64_ok ((v + 1) * f + a)" "i64_ok ((v + 1) * f + a - f)"
    using assms True unfolding e i64_ok_iff by linarith+
  then show ?thesis using True by (simp add: scale_add_def e)
next
  case False
  show ?thesis
  proof (cases "v = 0")
    case True
    then have "i64_ok (- 1)" "i64_ok (- f)" "i64_ok (- f + a)" "i64_ok (- f + a + f)"
      using assms unfolding i64_ok_iff by auto
    then show ?thesis using True by (simp add: scale_add_def)
  next
    case nz: False
    have e: "(v - 1) * f = v * f - f" by (simp add: left_diff_distrib)
    have "0 \<le> (v - 1) * f" using False nz assms(2) by simp
    then have "i64_ok (v - 1)" "i64_ok ((v - 1) * f)" "i64_ok ((v - 1) * f + a)" "i64_ok ((v - 1) * f + a + f)"
      using assms False nz unfolding e i64_ok_iff by linarith+
    then show ?thesis using False by (simp add: scale_add_def e)
  qed
qed

text \<open>
  A difference in a finer unit that fits is reached through coarser differences that fit.
\<close>

lemma scaled_fits:
  assumes "i64_ok (v * f + a)" "10 \<le> f" "- f < a" "a < f"
  shows "i64_ok v"
proof (cases "0 \<le> v")
  case True
  then have "v * 10 \<le> v * f" using assms(2) by (intro mult_left_mono) auto
  with True assms show ?thesis
  proof -
    have "v \<le> v * f + a \<or> v \<le> 1"
    proof (rule ccontr)
      assume "\<not> (v \<le> v * f + a \<or> v \<le> 1)"
      then have "2 \<le> v" "v * f + a < v" by auto
      moreover have "10 * v - 10 \<le> v * f - f"
        using mult_left_mono [OF assms(2), of "v - 1"] \<open>2 \<le> v\<close> by (simp add: left_diff_distrib)
      ultimately show False using assms(3) by linarith
    qed
    with assms(1) True show ?thesis unfolding i64_ok_iff by linarith
  qed
next
  case False
  then have n: "v < 0" by simp
  have "v * f + a \<le> v \<or> - 1 \<le> v"
  proof (rule ccontr)
    assume "\<not> (v * f + a \<le> v \<or> - 1 \<le> v)"
    then have "v \<le> -2" "v < v * f + a" by auto
    moreover have "v * f + f \<le> 10 * v + 10"
      using mult_left_mono_neg [OF assms(2), of "v + 1"] \<open>v \<le> -2\<close> by (simp add: distrib_right)
    ultimately show False using assms(4) by linarith
  qed
  with assms(1) n show ?thesis unfolding i64_ok_iff by linarith
qed

definition day_diff :: "fields \<Rightarrow> fields \<Rightarrow> int" where
  "day_diff f g = day_no (fy f) (fm f) (fd f) - day_no (fy g) (fm g) (fd g)"

definition hour_diff :: "fields \<Rightarrow> fields \<Rightarrow> int" where
  "hour_diff f g = day_diff f g * 24 + (fhh f - fhh g)"

definition minute_diff :: "fields \<Rightarrow> fields \<Rightarrow> int" where
  "minute_diff f g = hour_diff f g * 60 + (fmm f - fmm g)"

lemma minute_diff_instant: "minute_diff f g * 60 + (fss f - fss g) = instant f - instant g"
  by (simp add: minute_diff_def hour_diff_def day_diff_def instant_def)

lemma differences_ok:
  assumes v: "valid f" "valid g"
  shows "i64_ok (day_diff f g) \<Longrightarrow> difference_day f g = Some (day_diff f g)"
    "i64_ok (hour_diff f g) \<Longrightarrow> difference_hour f g = Some (hour_diff f g)"
    "i64_ok (minute_diff f g) \<Longrightarrow> difference_minute f g = Some (minute_diff f g)"
    "i64_ok (instant f - instant g) \<Longrightarrow> difference_second f g = Some (instant f - instant g)"
proof -
  note s = valid_small [OF v(1)] and t = valid_small [OF v(2)]
  have d: "difference_day f g = Some (day_diff f g)" if "i64_ok (day_diff f g)"
    using day_difference_ok [OF s(12) t(12) s(1) t(1)] that by (simp add: difference_day_def day_diff_def)
  have h: "difference_hour f g = Some (hour_diff f g)" if ok: "i64_ok (hour_diff f g)"
  proof -
    have "i64_ok (day_diff f g)" using scaled_fits [OF ok [unfolded hour_diff_def]] s t by simp
    with d scale_add_ok [OF ok [unfolded hour_diff_def]] s t show ?thesis
      by (simp add: difference_hour_def hour_diff_def)
  qed
  have m: "difference_minute f g = Some (minute_diff f g)" if ok: "i64_ok (minute_diff f g)"
  proof -
    have "i64_ok (hour_diff f g)" using scaled_fits [OF ok [unfolded minute_diff_def]] s t by simp
    with h scale_add_ok [OF ok [unfolded minute_diff_def]] s t show ?thesis
      by (simp add: difference_minute_def minute_diff_def)
  qed
  show "difference_second f g = Some (instant f - instant g)" if ok: "i64_ok (instant f - instant g)"
  proof -
    have "i64_ok (minute_diff f g)" using scaled_fits [OF ok [folded minute_diff_instant]] s t by simp
    with m scale_add_ok [OF ok [folded minute_diff_instant]] s t show ?thesis
      by (simp add: difference_second_def minute_diff_instant)
  qed
  show "i64_ok (day_diff f g) \<Longrightarrow> difference_day f g = Some (day_diff f g)"
    "i64_ok (hour_diff f g) \<Longrightarrow> difference_hour f g = Some (hour_diff f g)"
    "i64_ok (minute_diff f g) \<Longrightarrow> difference_minute f g = Some (minute_diff f g)"
    using d h m by auto
qed


lemma align_iffs:
  "align Minute f = f \<longleftrightarrow> fss f = 0" "align Hour f = f \<longleftrightarrow> fmm f = 0 \<and> fss f = 0"
  "align Day f = f \<longleftrightarrow> fhh f = 0 \<and> fmm f = 0 \<and> fss f = 0"
  by (cases f; auto simp: mk_fields_def)+

lemma difference_ok:
  assumes "valid f" "valid g" "timed t" "align t f = f" "align t g = g"
    and "i64_ok ((instant f - instant g) div unit t)"
  shows "civil_diff t f g = Some ((instant f - instant g) div unit t)"
proof -
  note d = differences_ok [OF assms(1,2)]
  have i: "instant f - instant g = minute_diff f g * 60 + (fss f - fss g)"
    "minute_diff f g = hour_diff f g * 60 + (fmm f - fmm g)" "hour_diff f g = day_diff f g * 24 + (fhh f - fhh g)"
    by (simp_all only: minute_diff_instant) (simp_all add: minute_diff_def hour_diff_def)
  from assms(3) show ?thesis unfolding timed_def
  proof (elim disjE)
    assume t: "t = Second"
    with d(4) assms(6) show ?thesis by (simp add: civil_diff_def)
  next
    assume t: "t = Minute"
    then have "(instant f - instant g) div unit t = minute_diff f g"
      using assms(4,5) unfolding i(1) t align_iffs by simp
    with d(3) assms(6) t show ?thesis by (simp add: civil_diff_def)
  next
    assume t: "t = Hour"
    then have "(instant f - instant g) div unit t = hour_diff f g"
      using assms(4,5) unfolding i(1,2) t align_iffs by simp
    with d(2) assms(6) t show ?thesis by (simp add: civil_diff_def)
  next
    assume t: "t = Day"
    then have "(instant f - instant g) div unit t = day_diff f g"
      using assms(4,5) unfolding i t align_iffs by simp
    with d(1) assms(6) t show ?thesis by (simp add: civil_diff_def)
  qed
qed

lemma difference_month_ok:
  assumes "valid f" "valid g" "i64_ok (month_no f - month_no g)"
  shows "civil_diff Month f g = Some (month_no f - month_no g)"
proof -
  note s = valid_small [OF assms(1)] and t = valid_small [OF assms(2)]
  have e: "month_no f - month_no g = (fy f - fy g) * 12 + (fm f - fm g)" by (simp add: month_no_def)
  note ok = assms(3) [unfolded e]
  have "i64_ok (fy f - fy g)" using scaled_fits [OF ok] s t by simp
  with scale_add_ok [OF ok] s t show ?thesis
    unfolding e by (simp add: civil_diff_def difference_month_def difference_year_def)
qed

lemma align_ok:
  assumes "valid f" "timed t"
  shows "valid (align t f) \<and> instant (align t f) = instant f - instant f mod unit t"
proof -
  note s = valid_small [OF assms(1)]
  have m: "(q * 60 + r) mod 60 = r" if "0 \<le> r" "r < 60" for q r :: int using that by simp
  have m2: "(q * 3600 + r) mod 3600 = r" if "0 \<le> r" "r < 3600" for q r :: int using that by simp
  have m3: "(q * 86400 + r) mod 86400 = r" if "0 \<le> r" "r < 86400" for q r :: int using that by simp
  let ?d = "day_no (fy f) (fm f) (fd f)"
  have e: "instant f = (?d * 1440 + fhh f * 60 + fmm f) * 60 + fss f"
    "instant f = (?d * 24 + fhh f) * 3600 + (fmm f * 60 + fss f)"
    "instant f = ?d * 86400 + (fhh f * 3600 + fmm f * 60 + fss f)" by (simp_all add: instant_def)
  have r: "instant f mod 60 = fss f" "instant f mod 3600 = fmm f * 60 + fss f"
    "instant f mod 86400 = fhh f * 3600 + fmm f * 60 + fss f"
    subgoal unfolding e(1) by (rule m) (use s in auto)
    subgoal unfolding e(2) by (rule m2) (use s in auto)
    subgoal unfolding e(3) by (rule m3) (use s in auto)
    done
  from assms(2) show ?thesis
    unfolding timed_def using s r
    by (elim disjE) (simp_all add: valid_def mk_fields_def instant_def)
qed

section \<open>Weekdays\<close>

text \<open>0001-01-01 of the proleptic Gregorian calendar is a Monday.\<close>

definition weekday_of :: "fields \<Rightarrow> weekday" where
  "weekday_of f = k_weekdays_forw ! nat (day_no (fy f) (fm f) (fd f) mod 7)"

lemma weekday_offset_ok:
  assumes "1 \<le> m" "m \<le> 12"
  shows "k_weekday_offsets ! nat m mod 7 = (month_start 1 m + (if 2 < m then -59 else 306) - 306) mod 7"
  using assms by (cases m rule: month_cases)
    (simp_all add: k_weekday_offsets_def month_start_def month_days_def leap_def upto_rec1)

lemma by_mon_off:
  assumes "w mod 7 = (n + 1) mod 7" "0 \<le> w"
  shows "k_weekday_by_mon_off ! nat (w smod 7 + 6) = k_weekdays_forw ! nat (n mod 7)"
proof -
  have "n mod 7 = (w - 1) mod 7" using assms(1) by (metis add_diff_cancel_right' mod_diff_left_eq)
  also have "\<dots> = (w - 1 + 7) mod 7" by (rule mod_add_self2 [symmetric])
  also have "\<dots> = (w mod 7 + 6) mod 7" by (simp add: mod_simps add.commute)
  finally have n: "n mod 7 = (w mod 7 + 6) mod 7" .
  define r where "r = w mod 7"
  have "0 \<le> r" "r < 7" by (simp_all add: r_def)
  then have "r \<in> set [0..6]" by simp
  then have "k_weekday_by_mon_off ! nat (r + 6) = k_weekdays_forw ! nat ((r + 6) mod 7)"
    by (auto simp: upto_rec1 k_weekday_by_mon_off_def k_weekdays_forw_def simp del: set_upto)
  then show ?thesis using assms(2) by (simp add: n smod_nonneg r_def)
qed

lemma get_weekday_eq:
  assumes v: "valid f"
  shows "get_weekday f = weekday_of f"
proof -
  note s = valid_small [OF v]
  let ?y = "fy f" and ?m = "fm f" and ?d = "fd f"
  have pos: "(0::int) < 400" by simp
  note c = c_div_facts [OF pos, of ?y]
  define a where "a = 2400 + ?y smod 400"
  define e where "e = a - (if ?m < 3 then 1 else 0)"
  have ab: "2000 < a" "a < 2800" using c(2,3) by (simp_all add: a_def)
  have eb: "0 \<le> e" using ab by (auto simp: e_def)
  have "?y = a + 400 * (?y sdiv 400 - 6)" using c(1) by (simp add: a_def mult.commute)
  then have dn: "day_no ?y ?m ?d = day_no a ?m ?d + 146097 * (?y sdiv 400 - 6)"
    using day_no_400 [OF s(2,3), of a "?y sdiv 400 - 6" ?d] by simp
  have ys: "year_start (e + 1) = 365 * e + e div 4 - e div 100 + e div 400" by (simp add: year_start_def)
  have da: "day_no a ?m ?d = year_start (e + 1) + (month_start 1 ?m + (if 2 < ?m then -59 else 306) - 306) + ?d - 1"
    unfolding day_no_def month_start_eq [OF s(2,3), of a] e_def using run_lengths(1) [of a] by auto
  define w where "w = e + (e div 4 - e div 100 + e div 400) + (k_weekday_offsets ! nat ?m + ?d)"
  have gw: "get_weekday f = k_weekday_by_mon_off ! nat (w smod 7 + 6)"
    using eb by (simp add: get_weekday_def Let_def w_def e_def a_def sdiv_nonneg)
  define q where "q = e div 4 - e div 100 + e div 400"
  define o' where "o' = month_start 1 ?m + (if 2 < ?m then -59 else 306) - 306"
  have off: "k_weekday_offsets ! nat ?m mod 7 = o' mod 7"
    unfolding o'_def by (rule weekday_offset_ok [OF s(2,3)])
  have "w = e + q + ?d + k_weekday_offsets ! nat ?m" by (simp add: w_def q_def)
  then have "w mod 7 = (e + q + ?d + k_weekday_offsets ! nat ?m mod 7) mod 7"
    by (simp only: mod_add_right_eq)
  also have "\<dots> = (e + q + ?d + o') mod 7" unfolding off by (simp add: mod_simps)
  also have "\<dots> = (day_no ?y ?m ?d + 1) mod 7"
  proof -
    have "day_no ?y ?m ?d + 1 = (e + q + ?d + o') + 7 * (52 * e + 20871 * (?y sdiv 400 - 6))"
      unfolding dn da ys by (simp add: q_def o'_def)
    then show ?thesis by (simp only: mod_mult_self2)
  qed
  finally have "w mod 7 = (day_no ?y ?m ?d + 1) mod 7" .
  moreover have "0 \<le> w"
  proof -
    have "0 \<le> e div 4 - e div 100" using eb by (simp add: zdiv_mono2)
    moreover have "0 \<le> e div 400" using eb by (simp add: pos_imp_zdiv_nonneg_iff)
    moreover have "0 \<le> k_weekday_offsets ! nat ?m"
      using s(2,3) by (cases ?m rule: month_cases) (simp_all add: k_weekday_offsets_def)
    ultimately show ?thesis using eb s(4) by (simp add: w_def)
  qed
  ultimately show ?thesis unfolding gw weekday_of_def by (rule by_mon_off)
qed

text \<open>The position of a weekday in the week, and the gap the two loops find.\<close>

definition weekday_index :: "weekday \<Rightarrow> int" where
  "weekday_index w = int (length (takeWhile (\<lambda>x. x \<noteq> w) k_weekdays_forw))"

lemma weekday_gaps:
  "\<exists>n. weekday_gap k_weekdays_forw b w = Some n \<and> 1 \<le> n \<and> n \<le> 7 \<and>
     k_weekdays_forw ! nat ((weekday_index b + n) mod 7) = w"
  "\<exists>n. weekday_gap k_weekdays_back b w = Some n \<and> 1 \<le> n \<and> n \<le> 7 \<and>
     k_weekdays_forw ! nat ((weekday_index b - n) mod 7) = w"
  by (cases b; cases w; simp add: weekday_gap_def k_weekdays_forw_def k_weekdays_back_def weekday_index_def)+

lemma forw_index:
  assumes "0 \<le> r" "r < 7" shows "weekday_index (k_weekdays_forw ! nat r) = r"
proof -
  have "r \<in> set [0..6]" using assms by simp
  then show ?thesis by (auto simp: upto_rec1 k_weekdays_forw_def weekday_index_def simp del: set_upto)
qed

lemma weekday_index_of: "weekday_index (weekday_of f) = day_no (fy f) (fm f) (fd f) mod 7"
  unfolding weekday_of_def by (rule forw_index) simp_all

lemma weekday_of_shift:
  assumes "valid f" "valid g" "align Day f = f" "instant g = instant f + n * 86400"
  shows "weekday_of g = k_weekdays_forw ! nat ((weekday_index (weekday_of f) + n) mod 7)" "align Day g = g"
proof -
  note s = valid_small [OF assms(1)] and t = valid_small [OF assms(2)]
  have "fhh f = 0" "fmm f = 0" "fss f = 0" using assms(3) unfolding align_iffs by auto
  then have e: "instant g = (day_no (fy f) (fm f) (fd f) + n) * 86400" using assms(4) by (simp add: instant_def)
  let ?r = "fhh g * 3600 + fmm g * 60 + fss g"
  have g: "instant g = day_no (fy g) (fm g) (fd g) * 86400 + ?r" "0 \<le> ?r" "?r < 86400"
    using t by (auto simp: instant_def)
  have "instant g mod 86400 = ?r" unfolding g(1) using g(2,3) by simp
  moreover have "instant g mod 86400 = 0" unfolding e by simp
  ultimately have r: "?r = 0" by simp
  then show "align Day g = g" using t unfolding align_iffs by linarith
  have d: "day_no (fy g) (fm g) (fd g) = day_no (fy f) (fm f) (fd f) + n" using g(1) e r by simp
  show "weekday_of g = k_weekdays_forw ! nat ((weekday_index (weekday_of f) + n) mod 7)"
    unfolding weekday_index_of weekday_of_def [of g] d by (simp add: mod_simps)
qed

text \<open>
  \<open>next_weekday\<close> and \<open>prev_weekday\<close> return, and give the first day after and the last day before
  the given one that falls on the given weekday (one to seven days away).
\<close>

theorem weekday_search:
  assumes "valid f" "align Day f = f" "near (9 * 10 ^ 17) (fy f)"
  shows "(\<exists>g n. next_weekday f w = Some g \<and> valid g \<and> align Day g = g \<and> get_weekday g = w \<and>
            instant g = instant f + n * 86400 \<and> 1 \<le> n \<and> n \<le> 7) \<and>
    (\<exists>g n. prev_weekday f w = Some g \<and> valid g \<and> align Day g = g \<and> get_weekday g = w \<and>
            instant g = instant f - n * 86400 \<and> 1 \<le> n \<and> n \<le> 7)"
proof
  have t: "timed Day" by (simp add: timed_def)
  note ok = step_ok [OF assms(1) _ assms(3) t]
  obtain n where n: "weekday_gap k_weekdays_forw (weekday_of f) w = Some n" "1 \<le> n" "n \<le> 7"
    "k_weekdays_forw ! nat ((weekday_index (weekday_of f) + n) mod 7) = w" using weekday_gaps(1) by blast
  obtain g where g: "step Day f n = Some g" "valid g" "instant g = instant f + n * 86400"
    using ok [of n] n by (auto simp: small_ok)
  show "\<exists>g n. next_weekday f w = Some g \<and> valid g \<and> align Day g = g \<and> get_weekday g = w \<and>
            instant g = instant f + n * 86400 \<and> 1 \<le> n \<and> n \<le> 7"
    using n g weekday_of_shift [OF assms(1) g(2) assms(2) g(3)] get_weekday_eq [OF assms(1)] get_weekday_eq [OF g(2)]
    by (intro exI [of _ g] exI [of _ n]) (simp add: next_weekday_def civil_plus_def)
  obtain m where m: "weekday_gap k_weekdays_back (weekday_of f) w = Some m" "1 \<le> m" "m \<le> 7"
    "k_weekdays_forw ! nat ((weekday_index (weekday_of f) - m) mod 7) = w" using weekday_gaps(2) by blast
  obtain h where h: "step Day f (- m) = Some h" "valid h" "instant h = instant f + - m * 86400"
    using ok [of "- m"] m by (auto simp: small_ok)
  have "m \<noteq> i64_min" using m by (simp add: i64_min_def)
  then show "\<exists>g n. prev_weekday f w = Some g \<and> valid g \<and> align Day g = g \<and> get_weekday g = w \<and>
            instant g = instant f - n * 86400 \<and> 1 \<le> n \<and> n \<le> 7"
    using m h weekday_of_shift [OF assms(1) h(2) assms(2) h(3)] get_weekday_eq [OF assms(1)] get_weekday_eq [OF h(2)]
    by (intro exI [of _ h] exI [of _ m]) (simp add: prev_weekday_def civil_minus_def)
qed

text \<open>
  The weekday is that of the proleptic Gregorian calendar, and the day of the year counts from
  the first of January.
\<close>

theorem weekday_and_yearday:
  assumes "valid f"
  shows "get_weekday f = k_weekdays_forw ! nat (day_no (fy f) (fm f) (fd f) mod 7) \<and>
    get_yearday f = day_no (fy f) (fm f) (fd f) - day_no (fy f) 1 1 + 1"
proof -
  note s = valid_small [OF assms]
  have "k_month_offsets ! nat (fm f) = month_start 1 (fm f)"
    using s(2,3) by (cases "fm f" rule: month_cases)
      (simp_all add: k_month_offsets_def month_start_def month_days_def leap_def upto_rec1)
  moreover have "month_start (fy f) 1 = 0" by (simp add: month_start_def)
  ultimately have "get_yearday f = day_no (fy f) (fm f) (fd f) - day_no (fy f) 1 1 + 1"
    using month_start_eq [OF s(2,3), of "fy f"]
    by (simp add: get_yearday_def day_no_def is_leap_year_eq)
  then show ?thesis using get_weekday_eq [OF assms] by (simp add: weekday_of_def)
qed


section \<open>Subtraction, round trips and limits\<close>

lemma year_start_slope: "y \<le> y' \<Longrightarrow> 365 * (y' - y) \<le> year_start y' - year_start y"
proof (induction "nat (y' - y)" arbitrary: y)
  case 0
  then show ?case by simp
next
  case (Suc n)
  then have "365 * (y' - (y + 1)) \<le> year_start y' - year_start (y + 1)" by (intro Suc.hyps(1)) auto
  then show ?case using run_lengths(1) [of y] by (simp split: if_splits)
qed

lemma year_shift:
  assumes "valid f" "valid g" "instant g - instant f \<le> n * 86400" "- (n * 86400) \<le> instant g - instant f" "0 \<le> n"
  shows "365 * fy g \<le> 365 * fy f + n + 800" "365 * fy f \<le> 365 * fy g + n + 800"
proof -
  have bound: "365 * fy b \<le> 365 * fy a + n + 800"
    if v: "valid a" "valid b" and le: "instant b - instant a \<le> n * 86400" for a b
  proof (cases "fy a \<le> fy b")
    case True
    note sa = valid_small [OF v(1)] and sb = valid_small [OF v(2)]
    have "day_no (fy b) (fm b) (fd b) - day_no (fy a) (fm a) (fd a) \<le> n + 1"
      using le sa(6-11) sb(6-11) unfolding instant_def by linarith
    then have "year_start (fy b) - year_start (fy a + 1) \<le> n + 1"
      using day_no_in_year(1) [OF sb(12)] day_no_in_year(2) [OF sa(12)] by linarith
    then show ?thesis using year_start_slope [OF True] run_lengths(1) [of "fy a"] by (simp split: if_splits)
  qed (use assms(5) in simp)
  show "365 * fy g \<le> 365 * fy f + n + 800" "365 * fy f \<le> 365 * fy g + n + 800"
    using bound [OF assms(1,2)] bound [OF assms(2,1)] assms(3,4) by auto
qed

lemma near_shift:
  assumes "valid f" "valid g" "instant g = instant f + n * unit t" "i64_ok n" "timed t" "near (10 ^ 18) (fy f)"
  shows "near (95 * 10 ^ 16) (fy g)"
proof -
  have u: "0 \<le> unit t" "unit t \<le> 86400" using assms(5) by (auto simp: timed_def)
  have "\<bar>n * unit t\<bar> \<le> 9223372036854775808 * 86400"
    using assms(4) u unfolding abs_mult i64_ok_iff by (intro mult_mono) auto
  then have "instant g - instant f \<le> 9223372036854775808 * 86400" "- (9223372036854775808 * 86400) \<le> instant g - instant f"
    using assms(3) by auto
  from year_shift [OF assms(1,2) this] show ?thesis using assms(6) unfolding near_iff by simp
qed

lemma minus_ok:
  assumes v: "valid f" and n: "i64_ok n" and y: "near (95 * 10 ^ 16) (fy f)" "n = i64_min \<Longrightarrow> near (10 ^ 18) (fy f)" and t: "timed t"
  shows "\<exists>g. civil_minus t f n = Some g \<and> valid g \<and> instant g = instant f - n * unit t"
proof (cases "n = i64_min")
  case False
  with n have "i64_ok (- n)" by (auto simp: i64_ok_def i64_min_def i64_max_def)
  from step_ok [OF v this near_mono [OF _ y(1)] t] False show ?thesis by (simp add: civil_minus_def)
next
  case True
  have ok: "i64_ok (n + 1)" "i64_ok (- (n + 1))" "i64_ok 1" by (simp_all add: True i64_ok_def i64_min_def i64_max_def)
  obtain g where g: "step t f (- (n + 1)) = Some g" "valid g" "instant g = instant f + - (n + 1) * unit t"
    using step_ok [OF v ok(2) near_mono [OF _ y(1)] t] by auto
  have "near (95 * 10 ^ 16) (fy g)" by (rule near_shift [OF v g(2,3) ok(2) t y(2) [OF True]])
  from step_ok [OF g(2) ok(3) near_mono [OF _ this] t] obtain h
    where h: "step t g 1 = Some h" "valid h" "instant h = instant g + 1 * unit t" by auto
  have "civil_minus t f n = Some h"
    using True ok(1) g(1) h(1) by (simp add: civil_minus_def)
  then show ?thesis using h g(3) by (auto simp: algebra_simps)
qed

lemma aligned_iff:
  assumes "valid f" "timed t"
  shows "align t f = f \<longleftrightarrow> instant f mod unit t = 0"
  using align_ok [OF assms] civil_order_ok [of "align t f" f] assms(1) by auto

text \<open>
  C13. The constructors of all six civil times, on a year at least \<open>9 * 10 ^ 17\<close> away from the limits
  of \<open>int64\<close> and any \<open>int64\<close> month, day, hour, minute and second: no operation overflows, the loops
  end, and the fields are those of one normalized time, aligned to the unit of the type, whose
  instant is that of the given date and time read as carries. Nearer to the limits the carries into
  the year can overflow (\<open>civil_normalize_overflows\<close>).
\<close>

theorem civil_normalize:
  assumes "i64_ok m" "i64_ok d" "i64_ok hh" "i64_ok mm" "i64_ok ss" "near (9 * 10 ^ 17) y"
  shows "\<exists>f. valid f \<and> instant f = civil_seconds y m d hh mm ss \<and>
     (\<forall>t. civil_make t y m d hh mm ss = Some (align t f))"
  using n_sec_ok [OF assms] by (auto simp: civil_make_def)

theorem civil_normalize_witness:
  "\<exists>f. valid f \<and> instant f = civil_seconds 2016 (-9) 366 25 (-61) 3600 \<and>
     (\<forall>t. civil_make t 2016 (-9) 366 25 (-61) 3600 = Some (align t f))"
  using civil_normalize [of "-9" 366 25 "-61" 3600 2016] by (simp add: i64_ok_iff near_iff)

lemma civil_normalize_overflows:
  "civil_make t i64_max 13 1 0 0 0 = None" "civil_make t i64_min 0 1 0 0 0 = None"
  "civil_plus Day (mk_fields i64_max 12 31 0 0 0) 1 = None"
proof -
  have q: "(1 :: int) sdiv 146097 = 0" "(1 :: int) smod 146097 = 1" "(31 :: int) sdiv 146097 = 0"
      "(31 :: int) smod 146097 = 31" "(13 :: int) sdiv 12 = 1"
    by (simp_all add: signed_divide_int_def signed_modulo_int_def)
  show "civil_make t i64_max 13 1 0 0 0 = None" "civil_make t i64_min 0 1 0 0 0 = None"
    by (simp_all add: civil_make_def n_sec_def n_mon_def ck_def i64_ok_iff i64_max_def i64_min_def q)
  have "month_loop i64_max 12 32 = None"
    by (subst month_loop.simps) (simp add: days_per_month_def k_days_per_month_def ck_def i64_ok_iff i64_max_def)
  then show "civil_plus Day (mk_fields i64_max 12 31 0 0 0) 1 = None"
    by (simp add: civil_plus_def mk_fields_def n_day_def q ck_def i64_ok_iff i64_max_def)
qed

text \<open>
  C14. Adding or subtracting any \<open>int64\<close> number \<open>n\<close> of seconds, minutes, hours or days (the smallest
  included), on a normalized civil time whose year is at least \<open>10 ^ 18\<close> away from the limits of
  \<open>int64\<close>, gives with no overflow on the way the normalized civil time exactly that much later or
  earlier.
\<close>

theorem civil_plus_minus:
  assumes "valid f" "i64_ok n" "near (10 ^ 18) (fy f)" "timed t"
  shows "(\<exists>g. civil_plus t f n = Some g \<and> valid g \<and> instant g = instant f + n * unit t) \<and>
    (\<exists>g. civil_minus t f n = Some g \<and> valid g \<and> instant g = instant f - n * unit t)"
  using step_ok [OF assms(1,2) near_mono [OF _ assms(3)] assms(4)]
    minus_ok [OF assms(1,2) near_mono [OF _ assms(3)] assms(3,4)] by (simp add: civil_plus_def)

text \<open>
  For an aligned civil time, \<open>(f + n) - f\<close> is \<open>n\<close>, \<open>(f + n) - n\<close> is \<open>f\<close>, and \<open>f + n\<close> is aligned.
\<close>

theorem civil_roundtrip:
  assumes "valid f" "align t f = f" "i64_ok n" "near (10 ^ 18) (fy f)" "timed t" "n \<noteq> i64_min"
  shows "\<exists>g. civil_plus t f n = Some g \<and> align t g = g \<and> civil_diff t g f = Some n \<and> civil_minus t g n = Some f"
proof -
  obtain g where g: "step t f n = Some g" "valid g" "instant g = instant f + n * unit t"
    using step_ok [OF assms(1,3) near_mono [OF _ assms(4)] assms(5)] by auto
  have al: "align t g = g" using aligned_iff [OF g(2) assms(5)] aligned_iff [OF assms(1,5)] assms(2) g(3) by simp
  have "unit t \<noteq> 0" using assms(5) by (auto simp: timed_def)
  then have "(instant g - instant f) div unit t = n" using g(3) by simp
  then have "civil_diff t g f = Some n"
    using difference_ok [OF g(2) assms(1,5) al assms(2)] assms(3) by simp
  moreover have "near (95 * 10 ^ 16) (fy g)" by (rule near_shift [OF assms(1) g(2,3) assms(3,5,4)])
  then obtain h where h: "civil_minus t g n = Some h" "valid h" "instant h = instant g - n * unit t"
    using minus_ok [OF g(2) assms(3) _ _ assms(5)] assms(6) by blast
  then have "h = f" using civil_order_ok [OF h(2) assms(1)] g(3) by simp
  ultimately show ?thesis using g(1) al h(1) by (auto simp: civil_plus_def)
qed

lemma valid_mk: "valid (mk_fields y m d hh mm ss) \<longleftrightarrow> i64_ok y \<and> valid_date y m d \<and> 0 \<le> hh \<and> hh < 24 \<and>
    0 \<le> mm \<and> mm < 60 \<and> 0 \<le> ss \<and> ss < 60"
  by (simp add: valid_def mk_fields_def)

lemma mk_sel [simp]: "fy (mk_fields y m d hh mm ss) = y" "fm (mk_fields y m d hh mm ss) = m"
  "fd (mk_fields y m d hh mm ss) = d" "fhh (mk_fields y m d hh mm ss) = hh"
  "fmm (mk_fields y m d hh mm ss) = mm" "fss (mk_fields y m d hh mm ss) = ss"
  by (simp_all add: mk_fields_def)

lemmas at_input = valid_mk i64_ok_iff near_iff valid_date_def month_days_def timed_def leap_def

lemma sample_valid: "valid (mk_fields 2016 2 29 0 0 0)" "align Day (mk_fields 2016 2 29 0 0 0) = mk_fields 2016 2 29 0 0 0"
  by (simp_all add: at_input)

theorem civil_plus_minus_witness:
  "\<exists>g. civil_minus Second (mk_fields 2016 2 29 0 0 0) i64_min = Some g \<and> valid g \<and>
     instant g = instant (mk_fields 2016 2 29 0 0 0) - i64_min"
  using civil_plus_minus [OF sample_valid(1), of i64_min Second] by (simp add: at_input i64_min_def)

theorem civil_roundtrip_witness:
  "\<exists>g. civil_plus Day (mk_fields 2016 2 29 0 0 0) (-366) = Some g \<and> align Day g = g \<and>
     civil_diff Day g (mk_fields 2016 2 29 0 0 0) = Some (-366) \<and>
     civil_minus Day g (-366) = Some (mk_fields 2016 2 29 0 0 0)"
  using civil_roundtrip [OF sample_valid, of "-366"] by (simp add: at_input i64_min_def)

text \<open>
  Adding \<open>n\<close> months to a civil month moves its month number by exactly \<open>n\<close> and keeps it aligned; the
  difference in months of any two civil times is that of their month numbers whenever it fits.
\<close>

theorem civil_months:
  assumes "valid f" "i64_ok n" "near (2 * 10 ^ 18) (fy f)" "align Month f = f" "valid h" "i64_ok (month_no f - month_no h)"
  shows "(\<exists>g. civil_plus Month f n = Some g \<and> valid g \<and> align Month g = g \<and> month_no g = month_no f + n) \<and>
    civil_diff Month f h = Some (month_no f - month_no h)"
  using step_month_ok [OF assms(1,4,2,3)] difference_month_ok [OF assms(1,5,6)] by (simp add: civil_plus_def)

theorem civil_months_witness:
  "civil_diff Month (mk_fields 2016 2 1 0 0 0) (mk_fields 2016 2 29 0 0 0) = Some 0"
  using civil_months [of "mk_fields 2016 2 1 0 0 0" 14 "mk_fields 2016 2 29 0 0 0"]
  by (simp add: at_input month_no_def)

text \<open>
  C15. The difference of two aligned civil times in seconds, minutes, hours or days is the exact
  number of units between them whenever that number fits \<open>int64\<close>: no operation overflows on the
  way, for all 64-bit years.
\<close>

theorem civil_difference:
  assumes "valid f" "valid g" "timed t" "align t f = f" "align t g = g"
    and "i64_ok ((instant f - instant g) div unit t)"
  shows "civil_diff t f g = Some ((instant f - instant g) div unit t)"
  by (rule difference_ok [OF assms])

theorem civil_difference_witness:
  "civil_diff Second (mk_fields (-292277022657) 1 27 8 29 52) (mk_fields 1970 1 1 0 0 0) = Some (- (2 ^ 63))"
proof -
  have i: "instant (mk_fields (-292277022657) 1 27 8 29 52) - instant (mk_fields 1970 1 1 0 0 0) = - (2 ^ 63)"
    by (simp add: instant_def day_no_def year_start_def month_start_def)
  then show ?thesis
    using civil_difference [of "mk_fields (-292277022657) 1 27 8 29 52" "mk_fields 1970 1 1 0 0 0" Second]
    by (simp add: at_input)
qed

text \<open>
  Aligning a normalized civil time rounds its instant down to a multiple of the unit.
\<close>

theorem civil_align:
  assumes "valid f" "timed t"
  shows "valid (align t f) \<and> instant (align t f) = instant f - instant f mod unit t"
  by (rule align_ok [OF assms])

theorem civil_align_witness:
  "instant (align Hour (mk_fields 2016 2 29 0 0 0)) = instant (mk_fields 2016 2 29 0 0 0) - instant (mk_fields 2016 2 29 0 0 0) mod 3600"
  using civil_align [OF sample_valid(1), of Hour] by (simp add: timed_def)

text \<open>
  The relational operators on normalized civil times compare the instants, and equal instants
  have equal fields: the order is total and the representation unique.
\<close>

theorem civil_order:
  assumes "valid f" "valid g"
  shows "(civil_less f g \<longleftrightarrow> instant f < instant g) \<and> (civil_le f g \<longleftrightarrow> instant f \<le> instant g) \<and>
    (civil_ge f g \<longleftrightarrow> instant g \<le> instant f) \<and> (civil_greater f g \<longleftrightarrow> instant g < instant f) \<and>
    (civil_eq f g \<longleftrightarrow> instant f = instant g) \<and> (f = g \<longleftrightarrow> instant f = instant g)"
  by (rule civil_order_ok [OF assms])

theorem civil_order_witness:
  "civil_less (mk_fields 2016 2 29 0 0 0) (mk_fields 2016 3 1 0 0 0)
   \<longleftrightarrow> instant (mk_fields 2016 2 29 0 0 0) < instant (mk_fields 2016 3 1 0 0 0)"
  using civil_order [OF sample_valid(1), of "mk_fields 2016 3 1 0 0 0"] by (simp add: at_input)

theorem weekday_search_witness:
  "\<exists>g n. next_weekday (mk_fields 2016 2 29 0 0 0) Monday = Some g \<and> valid g \<and> align Day g = g \<and> get_weekday g = Monday \<and>
     instant g = instant (mk_fields 2016 2 29 0 0 0) + n * 86400 \<and> 1 \<le> n \<and> n \<le> 7"
  using weekday_search [OF sample_valid, of Monday] by (simp add: near_iff)

theorem weekday_and_yearday_witness: "get_yearday (mk_fields 2016 2 29 0 0 0) = 60"
  using weekday_and_yearday [OF sample_valid(1)]
  by (simp add: day_no_def month_start_def month_days_def)

text \<open>
  \<open>max\<close> and \<open>min\<close> return, at every alignment, the last and the first date of the 64-bit years,
  and every normalized civil time of that alignment lies between them.
\<close>

theorem civil_limits:
  "civil_max t = Some (align t (mk_fields i64_max 12 31 23 59 59)) \<and>
   civil_min t = Some (mk_fields i64_min 1 1 0 0 0) \<and>
   (valid f \<longrightarrow> civil_le (mk_fields i64_min 1 1 0 0 0) f \<and> civil_le f (mk_fields i64_max 12 31 23 59 59))"
proof -
  have "days_per_month i64_max 12 = 31" by (simp add: days_per_month_def k_days_per_month_def)
  then have "month_loop i64_max 12 31 = Some (i64_max, 12, 31)" by (subst month_loop.simps) simp
  moreover have "i64_ok i64_max" by (simp add: i64_ok_def i64_min_def i64_max_def)
  ultimately have "n_day i64_max 12 31 0 23 59 59 = Some (mk_fields i64_max 12 31 23 59 59)"
    by (simp add: n_day_def sdiv_nonneg smod_nonneg small_ok)
  then have "civil_max t = Some (align t (mk_fields i64_max 12 31 23 59 59))"
    by (simp add: civil_max_def civil_make_def n_sec_def n_mon_def)
  moreover have "civil_min t = Some (mk_fields i64_min 1 1 0 0 0)"
    by (cases t) (simp_all add: civil_min_def civil_make_def n_sec_def)
  moreover have "civil_le (mk_fields i64_min 1 1 0 0 0) f \<and> civil_le f (mk_fields i64_max 12 31 23 59 59)" if "valid f"
    using valid_small [OF that] unfolding civil_le_def civil_less_def i64_ok_def by auto
  ultimately show ?thesis by blast
qed

theorem civil_limits_witness:
  "civil_le (mk_fields i64_min 1 1 0 0 0) (mk_fields 2016 2 29 0 0 0)"
  using civil_limits [of Second "mk_fields 2016 2 29 0 0 0"] sample_valid(1) by blast

end
