(* ===== verification/Int128.thy ===== *)
theory Int128
  imports Prelude
begin

text \<open>
  \<open>abel/numeric/int128.h\<close>, \<open>int128.cc\<close> and \<open>int128_no_intrinsic.inc\<close>: the 128-bit integers built
  from two 64-bit words, in the configuration without \<open>ABEL_HAVE_INTRINSIC_INT128\<close> (with it the
  operators are the compiler's own). A \<open>uint128\<close> refines a word of 128 bits, an \<open>int128\<close> the same
  word read in two's complement; every operator is shown to be the one of that word.
\<close>

section \<open>uint128\<close>

text \<open>The struct, with its factory \<open>MakeUint128\<close> and its accessors.\<close>

datatype uint128 = MakeUint128 (Uint128High64: u64) (Uint128Low64: u64)

definition Uint128Max :: uint128 where
  "Uint128Max = MakeUint128 (- 1) (- 1)"

text \<open>
  Constructors: from a signed type (sign extended, \<open>v\<close> any value of the argument type), from an
  unsigned type.
\<close>

definition uint128_of_signed :: "int \<Rightarrow> uint128" where
  "uint128_of_signed v = MakeUint128 (if v < 0 then - 1 else 0) (word_of_int v)"

definition uint128_of_unsigned :: "u64 \<Rightarrow> uint128" where
  "uint128_of_unsigned v = MakeUint128 0 v"

text \<open>Conversions: to \<open>bool\<close>, and to an integer type of at most 64 bits.\<close>

definition uint128_bool :: "uint128 \<Rightarrow> bool" where
  "uint128_bool v \<longleftrightarrow> Uint128Low64 v \<noteq> 0 \<or> Uint128High64 v \<noteq> 0"

definition uint128_cast :: "uint128 \<Rightarrow> 'a::len word" where
  "uint128_cast v = ucast (Uint128Low64 v)"

text \<open>Comparison operators.\<close>

definition uint128_eq :: "uint128 \<Rightarrow> uint128 \<Rightarrow> bool" where
  "uint128_eq lhs rhs \<longleftrightarrow>
     Uint128Low64 lhs = Uint128Low64 rhs \<and> Uint128High64 lhs = Uint128High64 rhs"

definition uint128_ne :: "uint128 \<Rightarrow> uint128 \<Rightarrow> bool" where
  "uint128_ne lhs rhs \<longleftrightarrow> \<not> uint128_eq lhs rhs"

definition uint128_lt :: "uint128 \<Rightarrow> uint128 \<Rightarrow> bool" where
  "uint128_lt lhs rhs \<longleftrightarrow>
     (if Uint128High64 lhs = Uint128High64 rhs then Uint128Low64 lhs < Uint128Low64 rhs
      else Uint128High64 lhs < Uint128High64 rhs)"

definition uint128_gt :: "uint128 \<Rightarrow> uint128 \<Rightarrow> bool" where
  "uint128_gt lhs rhs \<longleftrightarrow>
     (if Uint128High64 lhs = Uint128High64 rhs then Uint128Low64 lhs > Uint128Low64 rhs
      else Uint128High64 lhs > Uint128High64 rhs)"

definition uint128_le :: "uint128 \<Rightarrow> uint128 \<Rightarrow> bool" where
  "uint128_le lhs rhs \<longleftrightarrow>
     (if Uint128High64 lhs = Uint128High64 rhs then Uint128Low64 lhs \<le> Uint128Low64 rhs
      else Uint128High64 lhs \<le> Uint128High64 rhs)"

definition uint128_ge :: "uint128 \<Rightarrow> uint128 \<Rightarrow> bool" where
  "uint128_ge lhs rhs \<longleftrightarrow>
     (if Uint128High64 lhs = Uint128High64 rhs then Uint128Low64 lhs \<ge> Uint128Low64 rhs
      else Uint128High64 lhs \<ge> Uint128High64 rhs)"

text \<open>Unary operators.\<close>

definition uint128_neg :: "uint128 \<Rightarrow> uint128" where
  "uint128_neg val =
     (let hi = NOT (Uint128High64 val); lo = NOT (Uint128Low64 val) + 1;
          hi = (if lo = 0 then hi + 1 else hi)
      in MakeUint128 hi lo)"

definition uint128_lnot :: "uint128 \<Rightarrow> bool" where
  "uint128_lnot val \<longleftrightarrow> Uint128High64 val = 0 \<and> Uint128Low64 val = 0"

text \<open>Logical operators.\<close>

definition uint128_not :: "uint128 \<Rightarrow> uint128" where
  "uint128_not val = MakeUint128 (NOT (Uint128High64 val)) (NOT (Uint128Low64 val))"

definition uint128_or :: "uint128 \<Rightarrow> uint128 \<Rightarrow> uint128" where
  "uint128_or lhs rhs =
     MakeUint128 (Uint128High64 lhs OR Uint128High64 rhs) (Uint128Low64 lhs OR Uint128Low64 rhs)"

definition uint128_and :: "uint128 \<Rightarrow> uint128 \<Rightarrow> uint128" where
  "uint128_and lhs rhs =
     MakeUint128 (Uint128High64 lhs AND Uint128High64 rhs) (Uint128Low64 lhs AND Uint128Low64 rhs)"

definition uint128_xor :: "uint128 \<Rightarrow> uint128 \<Rightarrow> uint128" where
  "uint128_xor lhs rhs =
     MakeUint128 (Uint128High64 lhs XOR Uint128High64 rhs) (Uint128Low64 lhs XOR Uint128Low64 rhs)"

text \<open>
  Shifts. The amount is an \<open>int\<close>; a shift of a 64-bit word by a negative amount or by 64 and more
  is undefined, so a negative \<open>amount\<close> or one of 128 and more gives \<open>None\<close>.
\<close>

definition shl64 :: "u64 \<Rightarrow> int \<Rightarrow> u64 option" where
  "shl64 x n = (if 0 \<le> n \<and> n < 64 then Some (push_bit (nat n) x) else None)"

definition shr64 :: "u64 \<Rightarrow> int \<Rightarrow> u64 option" where
  "shr64 x n = (if 0 \<le> n \<and> n < 64 then Some (drop_bit (nat n) x) else None)"

definition uint128_shl :: "uint128 \<Rightarrow> int \<Rightarrow> uint128 option" where
  "uint128_shl lhs amount =
     (if amount < 64 then
        if amount \<noteq> 0 then do {
          h \<leftarrow> shl64 (Uint128High64 lhs) amount;
          c \<leftarrow> shr64 (Uint128Low64 lhs) (64 - amount);
          l \<leftarrow> shl64 (Uint128Low64 lhs) amount;
          Some (MakeUint128 (h OR c) l)
        }
        else Some lhs
      else do {
        h \<leftarrow> shl64 (Uint128Low64 lhs) (amount - 64);
        Some (MakeUint128 h 0)
      })"

definition uint128_shr :: "uint128 \<Rightarrow> int \<Rightarrow> uint128 option" where
  "uint128_shr lhs amount =
     (if amount < 64 then
        if amount \<noteq> 0 then do {
          h \<leftarrow> shr64 (Uint128High64 lhs) amount;
          l \<leftarrow> shr64 (Uint128Low64 lhs) amount;
          c \<leftarrow> shl64 (Uint128High64 lhs) (64 - amount);
          Some (MakeUint128 h (l OR c))
        }
        else Some lhs
      else do {
        l \<leftarrow> shr64 (Uint128High64 lhs) (amount - 64);
        Some (MakeUint128 0 l)
      })"

text \<open>Addition and subtraction with the carry out of the low word.\<close>

definition uint128_add :: "uint128 \<Rightarrow> uint128 \<Rightarrow> uint128" where
  "uint128_add lhs rhs =
     (let result = MakeUint128 (Uint128High64 lhs + Uint128High64 rhs)
                               (Uint128Low64 lhs + Uint128Low64 rhs)
      in if Uint128Low64 result < Uint128Low64 lhs
         then MakeUint128 (Uint128High64 result + 1) (Uint128Low64 result)
         else result)"

definition uint128_sub :: "uint128 \<Rightarrow> uint128 \<Rightarrow> uint128" where
  "uint128_sub lhs rhs =
     (let result = MakeUint128 (Uint128High64 lhs - Uint128High64 rhs)
                               (Uint128Low64 lhs - Uint128Low64 rhs)
      in if Uint128Low64 lhs < Uint128Low64 rhs
         then MakeUint128 (Uint128High64 result - 1) (Uint128Low64 result)
         else result)"

text \<open>Multiplication by 32-bit halves (its shifts by 32 are always defined).\<close>

definition shl32 :: "uint128 \<Rightarrow> uint128" where
  "shl32 x = MakeUint128 (push_bit 32 (Uint128High64 x) OR drop_bit 32 (Uint128Low64 x))
                         (push_bit 32 (Uint128Low64 x))"

definition uint128_mul :: "uint128 \<Rightarrow> uint128 \<Rightarrow> uint128" where
  "uint128_mul lhs rhs =
     (let a32 = drop_bit 32 (Uint128Low64 lhs);
          a00 = Uint128Low64 lhs AND 0xffffffff;
          b32 = drop_bit 32 (Uint128Low64 rhs);
          b00 = Uint128Low64 rhs AND 0xffffffff;
          result = MakeUint128
            (Uint128High64 lhs * Uint128Low64 rhs + Uint128Low64 lhs * Uint128High64 rhs + a32 * b32)
            (a00 * b00);
          result = uint128_add result (shl32 (uint128_of_unsigned (a32 * b00)));
          result = uint128_add result (shl32 (uint128_of_unsigned (a00 * b32)))
      in result)"

text \<open>
  Increment and decrement: the new value of the object; the postfix forms return the old one with
  it.
\<close>

definition uint128_inc :: "uint128 \<Rightarrow> uint128" where
  "uint128_inc this = uint128_add this (uint128_of_signed 1)"

definition uint128_dec :: "uint128 \<Rightarrow> uint128" where
  "uint128_dec this = uint128_sub this (uint128_of_signed 1)"

definition uint128_postinc :: "uint128 \<Rightarrow> uint128 \<times> uint128" where
  "uint128_postinc this = (let tmp = this in (tmp, uint128_add this (uint128_of_signed 1)))"

definition uint128_postdec :: "uint128 \<Rightarrow> uint128 \<times> uint128" where
  "uint128_postdec this = (let tmp = this in (tmp, uint128_sub this (uint128_of_signed 1)))"

section \<open>The 128-bit word that a uint128 stands for\<close>

definition u128 :: "uint128 \<Rightarrow> 128 word" where
  "u128 x = push_bit 64 (ucast (Uint128High64 x)) OR ucast (Uint128Low64 x)"

definition of_u128 :: "128 word \<Rightarrow> uint128" where
  "of_u128 w = MakeUint128 (ucast (drop_bit 64 w)) (ucast w)"

lemma bit_u128 [bit_simps]:
  "bit (u128 x) n \<longleftrightarrow> (if n < 64 then bit (Uint128Low64 x) n else bit (Uint128High64 x) (n - 64))"
  by (auto simp: u128_def bit_simps dest: bit_imp_le_length)

lemma u128_of_u128 [simp]: "u128 (of_u128 w) = w"
  by (rule bit_word_eqI) (auto simp: bit_simps of_u128_def)

lemma of_u128_u128 [simp]: "of_u128 (u128 x) = x"
  by (cases x) (auto simp: of_u128_def bit_simps intro!: bit_word_eqI)

lemma u128_inject [simp]: "u128 x = u128 y \<longleftrightarrow> x = y"
  by (metis of_u128_u128)

lemma unat_lt64: "unat (x :: u64) < 2 ^ 64"
  using unsigned_less [of x] by simp

lemma take_bit_unat64 [simp]: "take_bit 128 (unat (x :: u64)) = unat x"
  by (rule take_bit_nat_eq_self, rule less_le_trans [OF unat_lt64]) simp

lemma unat_u128: "unat (u128 x) = unat (Uint128High64 x) * 2 ^ 64 + unat (Uint128Low64 x)"
proof -
  have h: "unat (ucast (Uint128High64 x) :: 128 word) = unat (Uint128High64 x)"
    and l: "unat (ucast (Uint128Low64 x) :: 128 word) = unat (Uint128Low64 x)"
    by (simp_all add: unsigned_ucast_eq)
  have "unat (Uint128High64 x) < 2 ^ 64" "unat (Uint128Low64 x) < 2 ^ 64"
    using unsigned_less [of "Uint128High64 x"] unsigned_less [of "Uint128Low64 x"] by simp_all
  then have "unat (Uint128High64 x) * 2 ^ 64 + unat (Uint128Low64 x) < 2 ^ LENGTH(128)"
    by simp
  then show ?thesis
    unfolding u128_def by (subst unat_push_or) (simp_all add: h l unsigned_less [of "Uint128Low64 x", simplified])
qed

text \<open>The word as a sum, the form the arithmetic uses: \<open>up64\<close> is a homomorphism.\<close>

definition up64 :: "u64 \<Rightarrow> 128 word" where
  "up64 h = of_nat (unat h) * 2 ^ 64"

definition lo64 :: "u64 \<Rightarrow> 128 word" where
  "lo64 l = of_nat (unat l)"

lemma u128_sum: "u128 (MakeUint128 h l) = up64 h + lo64 l"
proof -
  have "u128 (MakeUint128 h l) = of_nat (unat (u128 (MakeUint128 h l)))" by simp
  then show ?thesis by (simp only: unat_u128) (simp add: up64_def lo64_def)
qed

lemma up64_of_nat: "up64 (of_nat n) = of_nat n * 2 ^ 64"
proof -
  have "(n * 2 ^ 64) mod 2 ^ 128 = (n mod 2 ^ 64) * 2 ^ 64"
    using mod_mult_mult2 [of n "2 ^ 64" "2 ^ 64"] by simp
  then have "(of_nat (n * 2 ^ 64) :: 128 word) = of_nat (n mod 2 ^ 64 * 2 ^ 64)"
    by (intro word_of_nat_eq_iff [THEN iffD2]) (simp add: take_bit_eq_mod)
  then have "(of_nat n * of_nat (2 ^ 64) :: 128 word) = of_nat (n mod 2 ^ 64) * of_nat (2 ^ 64)"
    by (simp only: of_nat_mult)
  moreover have "unat (of_nat n :: u64) = n mod 2 ^ 64" by (simp add: unat_of_nat)
  ultimately show ?thesis by (simp only: up64_def of_nat_power of_nat_numeral)
qed

lemma up64_add: "up64 (a + b) = up64 a + up64 b"
  using up64_of_nat [of "unat a + unat b"] by (simp add: up64_def algebra_simps)

lemma up64_mult: "up64 (a * b) = lo64 a * up64 b"
  using up64_of_nat [of "unat a * unat b"] by (simp add: up64_def lo64_def algebra_simps)

lemma up64_minus: "up64 (- a) = - up64 a"
  using up64_add [of "- a" a] by (simp add: up64_def eq_neg_iff_add_eq_0)

lemma up64_diff: "up64 (a - b) = up64 a - up64 b"
  using up64_add [of a "- b"] by (simp add: up64_minus)

lemma up64_1: "up64 1 = 2 ^ 64"
  by (simp add: up64_def)

lemma up64_0 [simp]: "up64 0 = 0"
  by (simp add: up64_def)

lemma lo64_0 [simp]: "lo64 0 = 0"
  by (simp add: lo64_def)

lemma lo64_1 [simp]: "lo64 1 = 1"
  by (simp add: lo64_def)

lemma lo64_add: "lo64 (a + b) = lo64 a + lo64 b - (if a + b < a then 2 ^ 64 else 0)"
proof (cases "unat a + unat b < 2 ^ 64")
  case True
  then have "unat (a + b) = unat a + unat b" by (simp add: unat_word_ariths)
  then show ?thesis by (simp add: lo64_def word_less_nat_alt)
next
  case False
  have "unat a < 2 ^ 64" "unat b < 2 ^ 64"
    using unsigned_less [of a] unsigned_less [of b] by simp_all
  with False have s: "unat a + unat b = unat (a + b) + 2 ^ 64" and c: "a + b < a"
    by (auto simp: unat_word_ariths word_less_nat_alt le_mod_geq)
  have "lo64 a + lo64 b = of_nat (unat a + unat b)" by (simp add: lo64_def)
  also have "\<dots> = lo64 (a + b) + 2 ^ 64" by (simp only: s) (simp add: lo64_def)
  finally show ?thesis using c by simp
qed

lemma lo64_diff: "lo64 (a - b) = lo64 a - lo64 b + (if a < b then 2 ^ 64 else 0)"
proof -
  have "lo64 a = lo64 (a - b) + lo64 b - (if a < a - b then 2 ^ 64 else 0)"
    using lo64_add [of "a - b" b] by simp
  moreover have "a < a - b \<longleftrightarrow> a < b"
  proof -
    have "unat a < 2 ^ 64" "unat b < 2 ^ 64"
      using unsigned_less [of a] unsigned_less [of b] by simp_all
    then show ?thesis
      by (auto simp: word_less_nat_alt unat_sub_if')
  qed
  ultimately show ?thesis by (simp add: algebra_simps)
qed

text \<open>Each arithmetic operator is the one of the 128-bit word.\<close>

lemma u128_neg: "u128 (uint128_neg x) = - u128 x"
proof -
  have h: "up64 (NOT a) = - up64 a - 2 ^ 64" for a
    by (simp add: not_eq_complement up64_diff up64_minus up64_1)
  have "NOT l + 1 = - l" for l :: u64 by (simp add: not_eq_complement)
  moreover have "lo64 (- l) = - lo64 l + (if l = 0 then 0 else 2 ^ 64)" for l
    using lo64_diff [of 0 l] by (simp add: word_gt_0)
  ultimately show ?thesis
    by (cases x) (simp add: uint128_neg_def u128_sum Let_def h up64_add up64_1 up64_minus del: not_eq_complement)
qed

lemma u128_add: "u128 (uint128_add x y) = u128 x + u128 y"
  by (cases x; cases y)
    (simp add: uint128_add_def u128_sum Let_def up64_add up64_1 lo64_add)

lemma u128_sub: "u128 (uint128_sub x y) = u128 x - u128 y"
  by (cases x; cases y)
    (simp add: uint128_sub_def u128_sum Let_def up64_diff up64_1 lo64_diff)

lemma u128_inj_0: "u128 x = 0 \<longleftrightarrow> Uint128High64 x = 0 \<and> Uint128Low64 x = 0"
proof -
  have "u128 x = 0 \<longleftrightarrow> unat (u128 x) = 0" by (simp add: unat_eq_zero)
  then show ?thesis by (simp add: unat_u128 unat_eq_zero)
qed

lemma up64_lo64: "up64 h = lo64 h * 2 ^ 64"
  by (simp add: up64_def lo64_def)

lemma up64_up64: "up64 g * up64 h = 0"
proof -
  have "up64 g * up64 h = lo64 g * lo64 h * (2 ^ 64 * 2 ^ 64)"
    by (simp only: up64_lo64 ac_simps)
  also have "(2 ^ 64 * 2 ^ 64 :: 128 word) = 0" by simp
  finally show ?thesis by simp
qed

lemma lo64_mult: "unat a * unat b < 2 ^ 64 \<Longrightarrow> lo64 (a * b) = lo64 a * lo64 b"
  by (simp add: lo64_def unat_word_ariths)

lemma halves:
  fixes l :: u64
  shows "unat (drop_bit 32 l) < 2 ^ 32" "unat (l AND 0xffffffff) < 2 ^ 32"
    "lo64 l = lo64 (drop_bit 32 l) * 2 ^ 32 + lo64 (l AND 0xffffffff)"
proof -
  have m: "unat (l AND 0xffffffff) = unat l mod 2 ^ 32"
    using unat_and_mask_eq [of l 32] by (simp add: mask_eq_exp_minus_1)
  show "unat (drop_bit 32 l) < 2 ^ 32" "unat (l AND 0xffffffff) < 2 ^ 32"
    using unat_lt64 [of l] by (simp_all add: unat_drop_bit m less_mult_imp_div_less)
  have "lo64 l = of_nat (unat l div 2 ^ 32 * 2 ^ 32 + unat l mod 2 ^ 32)"
    by (simp only: lo64_def div_mult_mod_eq)
  then show "lo64 l = lo64 (drop_bit 32 l) * 2 ^ 32 + lo64 (l AND 0xffffffff)"
    by (simp only: lo64_def unat_drop_bit m of_nat_add of_nat_mult of_nat_power of_nat_numeral)
qed

lemma u128_shl32: "u128 (shl32 x) = u128 x * 2 ^ 32"
proof -
  have "u128 (shl32 x) = push_bit 32 (u128 x)"
    by (rule bit_word_eqI) (auto simp: shl32_def bit_simps dest: bit_imp_le_length)
  then show ?thesis by (simp add: push_bit_eq_mult)
qed

lemma half_product: "x < 2 ^ 32 \<Longrightarrow> y < 2 ^ 32 \<Longrightarrow> x * y < (2::nat) ^ 64"
  using mult_strict_mono [of x "2 ^ 32" y "2 ^ 32"] by simp

lemma u128_unsigned: "u128 (uint128_of_unsigned v) = lo64 v"
  by (simp add: uint128_of_unsigned_def u128_sum)

lemma u128_mul: "u128 (uint128_mul x y) = u128 x * u128 y"
proof -
  obtain g k h l where x: "x = MakeUint128 g k" and y: "y = MakeUint128 h l"
    by (cases x; cases y) blast
  define a b c d where "a = drop_bit 32 k" and "b = k AND 0xffffffff"
    and "c = drop_bit 32 l" and "d = l AND 0xffffffff"
  note defs = this
  have k: "lo64 k = lo64 a * 2 ^ 32 + lo64 b" and l: "lo64 l = lo64 c * 2 ^ 32 + lo64 d"
    unfolding defs by (rule halves(3))+
  have p: "lo64 (b * d) = lo64 b * lo64 d" "lo64 (a * d) = lo64 a * lo64 d"
    "lo64 (b * c) = lo64 b * lo64 c"
    unfolding defs by (intro lo64_mult half_product halves)+
  have "u128 (uint128_mul x y) = up64 (g * l + k * h + a * c) + lo64 (b * d)
      + lo64 (a * d) * 2 ^ 32 + lo64 (b * c) * 2 ^ 32"
    by (simp add: uint128_mul_def x y Let_def u128_add u128_sum u128_shl32 u128_unsigned
        flip: defs)
  also have "\<dots> = lo64 l * up64 g + lo64 k * up64 h
      + (lo64 a * lo64 c * 2 ^ 64 + lo64 b * lo64 d + lo64 a * lo64 d * 2 ^ 32 + lo64 b * lo64 c * 2 ^ 32)"
    by (simp add: up64_add up64_mult p) (simp add: up64_lo64 algebra_simps)
  also have "lo64 a * lo64 c * 2 ^ 64 + lo64 b * lo64 d + lo64 a * lo64 d * 2 ^ 32
      + lo64 b * lo64 c * 2 ^ 32 = lo64 k * lo64 l"
    unfolding k l by (simp add: algebra_simps)
  finally show ?thesis
    by (simp add: x y u128_sum distrib_left distrib_right up64_up64 mult.commute add.assoc)
qed

text \<open>The logical operators and the shifts, by bits.\<close>

lemma bit_u128_Make [simp]:
  "bit (u128 (MakeUint128 h l)) n \<longleftrightarrow> (if n < 64 then bit l n else bit h (n - 64))"
  by (simp add: bit_u128)

lemma u128_not: "u128 (uint128_not x) = NOT (u128 x)"
  by (cases x) (auto simp: uint128_not_def bit_simps intro!: bit_word_eqI)

lemma u128_or: "u128 (uint128_or x y) = u128 x OR u128 y"
  by (cases x; cases y) (auto simp: uint128_or_def bit_simps intro!: bit_word_eqI)

lemma u128_and: "u128 (uint128_and x y) = u128 x AND u128 y"
  by (cases x; cases y) (auto simp: uint128_and_def bit_simps intro!: bit_word_eqI)

lemma u128_xor: "u128 (uint128_xor x y) = u128 x XOR u128 y"
  by (cases x; cases y) (auto simp: uint128_xor_def bit_simps intro!: bit_word_eqI)

lemmas u128_logic = u128_not u128_or u128_and u128_xor

lemma push_small:
  assumes "0 < m" "m < 64"
  shows "u128 (MakeUint128 (push_bit m h OR drop_bit (64 - m) l) (push_bit m l))
    = push_bit m (u128 (MakeUint128 h l))"
proof (rule bit_word_eqI)
  fix k :: nat
  have "64 - m + (k - 64) = k - m" if "64 \<le> k" using that assms by simp
  then show "bit (u128 (MakeUint128 (push_bit m h OR drop_bit (64 - m) l) (push_bit m l))) k
      \<longleftrightarrow> bit (push_bit m (u128 (MakeUint128 h l))) k"
    using assms by (auto simp: bit_simps add.commute [of m 64] dest: bit_imp_le_length)
qed

lemma push_large:
  assumes "64 \<le> m"
  shows "u128 (MakeUint128 (push_bit (m - 64) l) 0) = push_bit m (u128 (MakeUint128 h l))"
  using assms by (intro bit_word_eqI) (auto simp: bit_simps dest: bit_imp_le_length)

lemma drop_small:
  assumes "0 < m" "m < 64"
  shows "u128 (MakeUint128 (drop_bit m h) (drop_bit m l OR push_bit (64 - m) h))
    = drop_bit m (u128 (MakeUint128 h l))"
proof (rule bit_word_eqI)
  fix k :: nat
  have "k - (64 - m) = m + k - 64" using assms by simp
  then show "bit (u128 (MakeUint128 (drop_bit m h) (drop_bit m l OR push_bit (64 - m) h))) k
      \<longleftrightarrow> bit (drop_bit m (u128 (MakeUint128 h l))) k"
    using assms by (auto simp: bit_simps dest: bit_imp_le_length)
qed

lemma drop_large:
  assumes "64 \<le> m"
  shows "u128 (MakeUint128 0 (drop_bit (m - 64) h)) = drop_bit m (u128 (MakeUint128 h l))"
proof (rule bit_word_eqI)
  fix k :: nat
  have "m - 64 + k = m + k - 64" using assms by simp
  then show "bit (u128 (MakeUint128 0 (drop_bit (m - 64) h))) k
      \<longleftrightarrow> bit (drop_bit m (u128 (MakeUint128 h l))) k"
    using assms by (auto simp: bit_simps dest: bit_imp_le_length)
qed

lemma eq_of_u128I: "u128 x = w \<Longrightarrow> x = of_u128 w"
  by auto

lemma uint128_shl_eq:
  assumes "0 \<le> n" "n < 128"
  shows "uint128_shl x n = Some (of_u128 (push_bit (nat n) (u128 x)))"
proof -
  obtain h l where x: "x = MakeUint128 h l" by (cases x)
  consider "n = 0" | "0 < n" "n < 64" | "64 \<le> n" using assms by linarith
  then show ?thesis
  proof cases
    case 2
    then show ?thesis
      by (simp add: uint128_shl_def shl64_def shr64_def x nat_diff_distrib)
        (intro eq_of_u128I push_small; simp)
  next
    case 3
    with assms show ?thesis
      by (simp add: uint128_shl_def shl64_def x nat_diff_distrib) (intro eq_of_u128I push_large; simp)
  qed (simp add: uint128_shl_def)
qed

lemma uint128_shr_eq:
  assumes "0 \<le> n" "n < 128"
  shows "uint128_shr x n = Some (of_u128 (drop_bit (nat n) (u128 x)))"
proof -
  obtain h l where x: "x = MakeUint128 h l" by (cases x)
  consider "n = 0" | "0 < n" "n < 64" | "64 \<le> n" using assms by linarith
  then show ?thesis
  proof cases
    case 2
    then show ?thesis
      by (simp add: uint128_shr_def shl64_def shr64_def x nat_diff_distrib)
        (intro eq_of_u128I drop_small; simp)
  next
    case 3
    with assms show ?thesis
      by (simp add: uint128_shr_def shr64_def x nat_diff_distrib) (intro eq_of_u128I drop_large; simp)
  qed (simp add: uint128_shr_def)
qed

lemma uint128_shift_undefined:
  "n < 0 \<or> 128 \<le> n \<Longrightarrow> uint128_shl x n = None"
  "n < 0 \<or> 128 \<le> n \<Longrightarrow> uint128_shr x n = None"
  by (auto simp: uint128_shl_def uint128_shr_def shl64_def shr64_def)

lemma uint128_shl_32: "uint128_shl x 32 = Some (shl32 x)"
proof -
  have "u128 (shl32 x) = push_bit 32 (u128 x)" by (simp add: u128_shl32 push_bit_eq_mult)
  then have "shl32 x = of_u128 (push_bit 32 (u128 x))" by (rule eq_of_u128I)
  then show ?thesis using uint128_shl_eq [of 32 x] by simp
qed

text \<open>Comparisons.\<close>

lemma uint128_eq_iff: "uint128_eq x y \<longleftrightarrow> x = y"
  by (cases x; cases y) (auto simp: uint128_eq_def)

lemma lex_nat:
  fixes a b c d M :: nat
  assumes "b < M" "d < M"
  shows "a * M + b < c * M + d \<longleftrightarrow> (if a = c then b < d else a < c)"
proof -
  have *: "a * M + b < c * M + d" if "a < c" "b < M" for a b c d
  proof -
    have "Suc a * M \<le> c * M" using that(1) by (intro mult_le_mono1) simp
    then show ?thesis using that(2) by simp
  qed
  show ?thesis using * [of a c b d] * [of c a d b] assms by (cases a c rule: linorder_cases) auto
qed

lemma uint128_lt_iff: "uint128_lt x y \<longleftrightarrow> u128 x < u128 y"
  unfolding word_less_nat_alt unat_u128 uint128_lt_def lex_nat [OF unat_lt64 unat_lt64]
  by (simp add: word_unat_eq_iff)

lemma uint128_gt_iff: "uint128_gt x y \<longleftrightarrow> u128 y < u128 x"
  by (auto simp flip: uint128_lt_iff simp: uint128_gt_def uint128_lt_def)

lemma uint128_le_iff: "uint128_le x y \<longleftrightarrow> u128 x \<le> u128 y"
  by (auto simp flip: uint128_gt_iff simp: uint128_gt_def uint128_le_def not_less [symmetric])

lemma uint128_ge_iff: "uint128_ge x y \<longleftrightarrow> u128 y \<le> u128 x"
  by (auto simp flip: uint128_le_iff simp: uint128_ge_def uint128_le_def)

text \<open>
  So \<open>uint128\<close> is a commutative ring with one under the C++ operators, linearly ordered by
  \<open>operator <=\<close>.
\<close>

instantiation uint128 :: comm_ring_1
begin

definition zero_uint128 :: uint128 where "0 = uint128_of_signed 0"

definition one_uint128 :: uint128 where "1 = uint128_of_signed 1"

definition plus_uint128 :: "uint128 \<Rightarrow> uint128 \<Rightarrow> uint128" where "plus_uint128 = uint128_add"

definition minus_uint128 :: "uint128 \<Rightarrow> uint128 \<Rightarrow> uint128" where "minus_uint128 = uint128_sub"

definition uminus_uint128 :: "uint128 \<Rightarrow> uint128" where "uminus_uint128 = uint128_neg"

definition times_uint128 :: "uint128 \<Rightarrow> uint128 \<Rightarrow> uint128" where "times_uint128 = uint128_mul"

lemma u128_ring:
  "u128 0 = 0" "u128 1 = 1" "u128 (x + y) = u128 x + u128 y" "u128 (x - y) = u128 x - u128 y"
  "u128 (- x) = - u128 x" "u128 (x * y) = u128 x * u128 y"
  by (simp_all add: zero_uint128_def one_uint128_def plus_uint128_def minus_uint128_def
      uminus_uint128_def times_uint128_def uint128_of_signed_def u128_sum u128_add u128_sub
      u128_neg u128_mul)

instance
  by standard (simp_all add: u128_ring algebra_simps flip: u128_inject)

end

instantiation uint128 :: linorder
begin

definition less_eq_uint128 :: "uint128 \<Rightarrow> uint128 \<Rightarrow> bool" where "less_eq_uint128 = uint128_le"

definition less_uint128 :: "uint128 \<Rightarrow> uint128 \<Rightarrow> bool" where "less_uint128 = uint128_lt"

lemma u128_order: "x \<le> y \<longleftrightarrow> u128 x \<le> u128 y" "x < y \<longleftrightarrow> u128 x < u128 y"
  by (simp_all add: less_eq_uint128_def less_uint128_def uint128_le_iff uint128_lt_iff)

instance
  by standard (auto simp: u128_order simp flip: u128_inject)

end

section \<open>Division: int128.cc\<close>

text \<open>
  The macro \<open>STEP(T, n, pos, sh)\<close> on the pair of variables \<open>n\<close> and \<open>pos\<close>. Every value of \<open>pos\<close> is
  a set of distinct powers of two, kept as a \<open>nat\<close>.
\<close>

definition STEP :: "nat \<Rightarrow> 'a::len word \<times> nat \<Rightarrow> 'a word \<times> nat" where
  "STEP sh = (\<lambda>(n, pos). if n \<ge> push_bit sh 1 then (drop_bit sh n, pos OR sh) else (n, pos))"

definition Fls64 :: "u64 \<Rightarrow> nat option" where
  "Fls64 n =
     (if n = 0 then None
      else Some
       (let (n, pos) = STEP 0x20 (n, 0);
            n32 = ucast n :: u32;
            (n32, pos) = STEP 0x10 (n32, pos);
            (n32, pos) = STEP 0x08 (n32, pos);
            (n32, pos) = STEP 0x04 (n32, pos)
        in pos + unat (drop_bit (unat (push_bit 2 n32)) (0x3333333322221100 :: u64) AND 0x3)))"

definition Fls128 :: "uint128 \<Rightarrow> nat option" where
  "Fls128 n =
     (let hi = Uint128High64 n
      in if hi \<noteq> 0 then map_option (\<lambda>p. p + 64) (Fls64 hi) else Fls64 (Uint128Low64 n))"

text \<open>
  The loop of \<open>DivModImpl\<close> with \<open>k\<close> iterations left on \<open>(dividend, denominator, quotient)\<close>, and the
  function, \<open>None\<close> where its assertion fails.
\<close>

fun DivModLoop :: "nat \<Rightarrow> uint128 \<Rightarrow> uint128 \<Rightarrow> uint128 \<Rightarrow> (uint128 \<times> uint128) option" where
  "DivModLoop 0 dividend denominator quo = Some (quo, dividend)"
| "DivModLoop (Suc k) dividend denominator quo = do {
     quo \<leftarrow> uint128_shl quo 1;
     (dividend, quo) \<leftarrow> Some
       (if uint128_ge dividend denominator
        then (uint128_sub dividend denominator, uint128_or quo (uint128_of_signed 1))
        else (dividend, quo));
     denominator \<leftarrow> uint128_shr denominator 1;
     DivModLoop k dividend denominator quo
   }"

definition DivModImpl :: "uint128 \<Rightarrow> uint128 \<Rightarrow> (uint128 \<times> uint128) option" where
  "DivModImpl dividend divisor =
     (if uint128_eq divisor (uint128_of_signed 0) then None
      else if uint128_gt divisor dividend then Some (uint128_of_signed 0, dividend)
      else if uint128_eq divisor dividend then Some (uint128_of_signed 1, uint128_of_signed 0)
      else do {
        p \<leftarrow> Fls128 dividend;
        q \<leftarrow> Fls128 divisor;
        let shift = int p - int q;
        denominator \<leftarrow> uint128_shl divisor shift;
        DivModLoop (nat (shift + 1)) dividend denominator (uint128_of_signed 0)
      })"

definition uint128_div :: "uint128 \<Rightarrow> uint128 \<Rightarrow> uint128 option" where
  "uint128_div lhs rhs = map_option fst (DivModImpl lhs rhs)"

definition uint128_mod :: "uint128 \<Rightarrow> uint128 \<Rightarrow> uint128 option" where
  "uint128_mod lhs rhs = map_option snd (DivModImpl lhs rhs)"

text \<open>A \<open>STEP\<close> keeps the top bit's position, \<open>pos + \<lfloor>log n\<rfloor>\<close>, and halves the range of \<open>n\<close>.\<close>

lemma and_power_of_dvd:
  assumes "2 * 2 ^ j dvd (pos :: nat)" shows "pos AND 2 ^ j = 0"
proof -
  have "\<not> bit pos j" using assms by (auto simp: bit_iff_odd elim!: dvdE)
  then show ?thesis by (simp add: and_exp_eq_0_iff_not_bit)
qed

lemma unat_exp: "m < LENGTH('a) \<Longrightarrow> unat (2 ^ m :: 'a::len word) = 2 ^ m"
proof -
  assume "m < LENGTH('a)"
  moreover have "(2 ^ m :: 'a word) = of_nat (2 ^ m)" by simp
  ultimately show ?thesis by (simp only: unat_of_nat) simp
qed

lemma STEP_inv:
  assumes st: "STEP (2 ^ j) (n :: 'a::len word, pos) = (n', pos')" and len: "2 ^ j < LENGTH('a)"
    and n: "unat n < 2 ^ (2 * 2 ^ j)" "0 < unat n"
    and pos: "2 * 2 ^ j dvd pos" "N div 2 ^ pos = unat n"
  shows "unat n' < 2 ^ 2 ^ j" "0 < unat n'" "2 ^ j dvd pos'" "N div 2 ^ pos' = unat n'"
proof -
  have test: "2 ^ 2 ^ j \<le> n \<longleftrightarrow> 2 ^ 2 ^ j \<le> unat n"
    using len by (simp add: word_le_nat_alt unat_exp)
  have join: "pos OR 2 ^ j = pos + 2 ^ j"
    using and_power_of_dvd [OF pos(1)] by (simp add: disjunctive_add_eq_or)
  have d: "2 ^ j dvd pos" using pos(1) dvd_mult_right by blast
  have half: "unat n div 2 ^ 2 ^ j < 2 ^ 2 ^ j"
    using n(1) by (simp add: div_less_iff_less_mult mult_2 power_add)
  show "unat n' < 2 ^ 2 ^ j" "0 < unat n'" "2 ^ j dvd pos'" "N div 2 ^ pos' = unat n'"
    using st n pos d half
    by (auto simp: STEP_def test join unat_drop_bit div_mult2_eq power_add div_greater_zero_iff split: if_splits)
qed

lemma Fls_table:
  "list_all (\<lambda>m. let t = unat (drop_bit (unat (push_bit 2 (of_nat m :: u32))) (0x3333333322221100 :: u64) AND 0x3)
     in 2 ^ t \<le> m \<and> m < 2 ^ (t + 1)) [1..<16]"
  by code_simp

lemma div_log:
  assumes "N div 2 ^ p = m" "2 ^ t \<le> m" "m < 2 ^ (t + 1)"
  shows "2 ^ (p + t) \<le> N" "N < (2::nat) ^ (p + t + 1)"
proof -
  have "2 ^ t * 2 ^ p \<le> N div 2 ^ p * 2 ^ p" using assms by simp
  also have "\<dots> \<le> N" by simp
  finally show "2 ^ (p + t) \<le> N" by (simp add: power_add mult.commute)
  have "N div 2 ^ p < 2 ^ (t + 1)" using assms by simp
  then show "N < 2 ^ (p + t + 1)" by (simp add: div_less_iff_less_mult power_add mult_ac)
qed

lemma Fls64_log:
  assumes "0 < n"
  obtains p where "Fls64 n = Some p" "2 ^ p \<le> unat n" "unat n < 2 ^ (p + 1)"
proof -
  define N where "N = unat n"
  have N: "N < 2 ^ (2 * 2 ^ 5)" "0 < N" using assms unat_lt64 [of n] by (simp_all add: N_def word_less_nat_alt)
  obtain n1 p1 where 1: "STEP (2 ^ 5) (n, 0) = (n1, p1)" by fastforce
  note i1 = STEP_inv [OF 1, of N, folded N_def, simplified, OF N [simplified], simplified]
  define m1 where "m1 = (ucast n1 :: u32)"
  have m1: "unat m1 = unat n1" using i1(1) by (simp add: m1_def unsigned_ucast_eq take_bit_nat_eq_self)
  obtain n2 p2 where 2: "STEP (2 ^ 4) (m1, p1) = (n2, p2)" by fastforce
  have i2: "unat n2 < 2 ^ 2 ^ 4" "0 < unat n2" "2 ^ 4 dvd p2" "N div 2 ^ p2 = unat n2"
    using STEP_inv [OF 2, of N] i1 m1 by simp_all
  obtain n3 p3 where 3: "STEP (2 ^ 3) (n2, p2) = (n3, p3)" by fastforce
  have i3: "unat n3 < 2 ^ 2 ^ 3" "0 < unat n3" "2 ^ 3 dvd p3" "N div 2 ^ p3 = unat n3"
    using STEP_inv [OF 3, of N] i2 by simp_all
  obtain n4 p4 where 4: "STEP (2 ^ 2) (n3, p3) = (n4, p4)" by fastforce
  have i4: "unat n4 < 2 ^ 2 ^ 2" "0 < unat n4" "N div 2 ^ p4 = unat n4"
    using STEP_inv [OF 4, of N] i3 by simp_all
  define t where "t = unat (drop_bit (unat (push_bit 2 n4)) (0x3333333322221100 :: u64) AND 0x3)"
  have "unat n4 \<in> set [1..<16]" using i4 by simp
  from bspec [OF Fls_table [unfolded list_all_iff] this]
  have t: "2 ^ t \<le> unat n4" "unat n4 < 2 ^ (t + 1)"
    by (simp_all add: Let_def t_def)
  have "Fls64 n = Some (p4 + t)"
    using assms 1 2 3 4 by (simp add: Fls64_def Let_def t_def m1_def)
  moreover have "2 ^ (p4 + t) \<le> unat n" "unat n < 2 ^ (p4 + t + 1)"
    using div_log [OF i4(3) t] by (simp_all add: N_def)
  ultimately show thesis by (rule that)
qed

lemma Fls128_log:
  assumes "0 < unat (u128 n)"
  obtains p where "Fls128 n = Some p" "2 ^ p \<le> unat (u128 n)" "unat (u128 n) < 2 ^ (p + 1)"
proof (cases "Uint128High64 n = 0")
  case True
  then have "0 < Uint128Low64 n" using assms by (simp add: unat_u128 word_less_nat_alt)
  then show thesis
    by (rule Fls64_log) (use True that in \<open>auto simp: Fls128_def unat_u128\<close>)
next
  case False
  then have "0 < Uint128High64 n" by (simp add: word_gt_0)
  then obtain p where p: "Fls64 (Uint128High64 n) = Some p"
      "2 ^ p \<le> unat (Uint128High64 n)" "unat (Uint128High64 n) < 2 ^ (p + 1)"
    by (rule Fls64_log)
  have "unat (u128 n) div 2 ^ 64 = unat (Uint128High64 n)"
    using unat_lt64 [of "Uint128Low64 n"] by (simp add: unat_u128)
  from div_log [OF this p(2,3)] show thesis
    using False p(1) by (intro that [of "p + 64"]) (simp_all add: Fls128_def add_ac)
qed

text \<open>The shift-subtract loop.\<close>

lemma unat_u128_lt: "unat (u128 x) < 2 ^ 128"
  using unsigned_less [of "u128 x"] by simp

lemma unat_double:
  assumes "2 * unat (w :: 128 word) < 2 ^ 128"
  shows "unat (push_bit 1 w) = 2 * unat w" "unat (push_bit 1 w OR 1) = 2 * unat w + 1"
proof -
  show d: "unat (push_bit 1 w) = 2 * unat w"
    using assms by (simp add: push_bit_eq_mult unat_word_ariths)
  show "unat (push_bit 1 w OR 1) = 2 * unat w + 1"
    using unat_push_or [of 1 1 w] assms by simp
qed

lemma uint128_shl_1: "uint128_shl x 1 = Some (of_u128 (push_bit 1 (u128 x)))"
  using uint128_shl_eq [of 1 x] by simp

lemma uint128_shr_1: "uint128_shr x 1 = Some (of_u128 (drop_bit 1 (u128 x)))"
  using uint128_shr_eq [of 1 x] by simp

lemma u128_signed_1: "u128 (uint128_of_signed 1) = 1" "u128 (uint128_of_signed 0) = 0"
  by (simp_all add: uint128_of_signed_def u128_sum)

lemma unat_u128_sub:
  "u128 y \<le> u128 x \<Longrightarrow> unat (u128 (uint128_sub x y)) = unat (u128 x) - unat (u128 y)"
  by (simp add: u128_sub unat_sub)

lemma DivModLoop_correct:
  assumes "0 < d" "0 < k \<Longrightarrow> unat (u128 den) = d * 2 ^ (k - 1)" "unat (u128 x) < d * 2 ^ k"
    "unat (u128 q) * 2 ^ k + unat (u128 x) div d < 2 ^ 128"
  shows "\<exists>q' r. DivModLoop k x den q = Some (q', r)
    \<and> unat (u128 q') = unat (u128 q) * 2 ^ k + unat (u128 x) div d \<and> unat (u128 r) = unat (u128 x) mod d"
  using assms(2-)
proof (induction k arbitrary: x den q)
  case 0
  then show ?case by simp
next
  case (Suc k)
  have den: "unat (u128 den) = d * 2 ^ k" using Suc.prems(1) by simp
  have "2 * unat (u128 q) \<le> unat (u128 q) * 2 ^ Suc k" by simp
  then have dbl: "2 * unat (u128 q) < 2 ^ 128" using Suc.prems(3) by linarith
  define den' where "den' = of_u128 (drop_bit 1 (u128 den))"
  have den': "unat (u128 den') = d * 2 ^ (k - 1)" if "0 < k"
    using that by (cases k) (simp_all add: den'_def unat_drop_bit den)
  show ?case
  proof (cases "u128 den \<le> u128 x")
    case True
    define x' where "x' = uint128_sub x den"
    define q' where "q' = uint128_or (of_u128 (push_bit 1 (u128 q))) (uint128_of_signed 1)"
    have le: "d * 2 ^ k \<le> unat (u128 x)" using True den by (simp add: word_le_nat_alt)
    have x': "unat (u128 x) = unat (u128 x') + d * 2 ^ k"
      using True le by (simp add: x'_def unat_u128_sub den)
    have q': "unat (u128 q') = 2 * unat (u128 q) + 1"
      using unat_double [OF dbl] by (simp add: q'_def u128_or u128_signed_1)
    have quo: "unat (u128 x) div d = unat (u128 x') div d + 2 ^ k"
      and rem: "unat (u128 x) mod d = unat (u128 x') mod d"
      using assms(1) by (simp_all add: x')
    have "DivModLoop (Suc k) x den q = DivModLoop k x' den' q'"
      using True by (simp add: uint128_shl_1 uint128_shr_1 uint128_ge_iff x'_def q'_def den'_def)
    then show ?thesis
      using Suc.IH [OF den', of x' q'] Suc.prems(2,3)
      unfolding quo rem q' by (simp add: x' algebra_simps)
  next
    case False
    define q' where "q' = of_u128 (push_bit 1 (u128 q))"
    have q': "unat (u128 q') = 2 * unat (u128 q)"
      using unat_double [OF dbl] by (simp add: q'_def)
    have lt: "unat (u128 x) < d * 2 ^ k" using False den by (simp add: word_le_nat_alt)
    have "DivModLoop (Suc k) x den q = DivModLoop k x den' q'"
      using False by (simp add: uint128_shl_1 uint128_shr_1 uint128_ge_iff q'_def den'_def)
    then show ?thesis
      using Suc.IH [OF den' lt, of q'] Suc.prems(3) by (simp add: q' algebra_simps)
  qed
qed

lemma DivModImpl_zero: "DivModImpl x 0 = None"
  by (simp add: DivModImpl_def zero_uint128_def uint128_eq_iff)

lemma DivModImpl_correct:
  assumes "y \<noteq> 0"
  shows "\<exists>q r. DivModImpl x y = Some (q, r) \<and> unat (u128 q) = unat (u128 x) div unat (u128 y)
    \<and> unat (u128 r) = unat (u128 x) mod unat (u128 y)"
proof -
  have y: "0 < unat (u128 y)"
    using assms by (metis gr0I unat_eq_zero u128_inject u128_ring(1))
  have ne: "\<not> uint128_eq y (uint128_of_signed 0)"
    using assms by (simp add: uint128_eq_iff zero_uint128_def)
  consider (lt) "u128 x < u128 y" | (eq) "x = y" | (gt) "u128 y < u128 x"
    by (metis linorder_cases u128_inject)
  then show ?thesis
  proof cases
    case lt
    then show ?thesis
      using ne by (simp add: DivModImpl_def uint128_gt_iff u128_signed_1 word_less_nat_alt)
  next
    case eq
    then show ?thesis
      using ne y by (simp add: DivModImpl_def uint128_gt_iff uint128_eq_iff u128_signed_1)
  next
    case gt
    then have lt: "unat (u128 y) < unat (u128 x)" by (simp add: word_less_nat_alt)
    with y have "0 < unat (u128 x)" by linarith
    then obtain p where p: "Fls128 x = Some p" "2 ^ p \<le> unat (u128 x)" "unat (u128 x) < 2 ^ (p + 1)"
      by (rule Fls128_log)
    obtain q where q: "Fls128 y = Some q" "2 ^ q \<le> unat (u128 y)" "unat (u128 y) < 2 ^ (q + 1)"
      by (rule Fls128_log [OF y])
    have "(2::nat) ^ q < 2 ^ (p + 1)" using q(2) lt p(3) by linarith
    then have pq: "q \<le> p" by (subst (asm) power_strict_increasing_iff) simp_all
    have "(2::nat) ^ p < 2 ^ 128" using p(2) unat_u128_lt [of x] by linarith
    then have p128: "p < 128" by (subst (asm) power_strict_increasing_iff) simp_all
    define k where "k = p - q"
    have "unat (u128 y) * 2 ^ k < 2 ^ (q + 1) * 2 ^ k" using q(3) by simp
    also have "\<dots> = 2 ^ (p + 1)" using pq by (simp add: k_def flip: power_add)
    also have "\<dots> \<le> 2 ^ 128" using p128 by (intro power_increasing) simp_all
    finally have fit: "unat (u128 y) * 2 ^ k < 2 ^ 128" .
    have "unat (u128 x) < 2 * (2 ^ q * 2 ^ k)" using p(3) pq by (simp add: k_def flip: power_add)
    also have "\<dots> \<le> 2 * (unat (u128 y) * 2 ^ k)" using q(2) by simp
    finally have top: "unat (u128 x) < unat (u128 y) * 2 ^ Suc k" by simp
    define den where "den = of_u128 (push_bit k (u128 y))"
    have den: "unat (u128 den) = unat (u128 y) * 2 ^ k"
      using fit p128 by (simp add: den_def push_bit_eq_mult unat_word_ariths unat_exp k_def)
    have "DivModImpl x y = DivModLoop (Suc k) x den 0"
    proof -
      have "\<not> u128 x < u128 y" "x \<noteq> y" using gt by auto
      moreover have "uint128_shl y (int p - int q) = Some den"
        using pq p128 uint128_shl_eq [of "int p - int q" y] by (simp add: den_def k_def flip: of_nat_diff)
      moreover have "nat (int p - int q + 1) = Suc k" using pq by (simp add: k_def)
      ultimately show ?thesis
        using ne p(1) q(1) by (simp add: DivModImpl_def uint128_gt_iff uint128_eq_iff zero_uint128_def)
    qed
    moreover have "unat (u128 x) div unat (u128 y) < 2 ^ 128"
      using unat_u128_lt [of x] div_le_dividend le_less_trans by blast
    ultimately show ?thesis
      using DivModLoop_correct [OF y, of "Suc k" den x 0] den top by (simp add: u128_ring)
  qed
qed

lemma uint128_div_correct:
  assumes "y \<noteq> 0"
  shows "\<exists>q. uint128_div x y = Some q \<and> unat (u128 q) = unat (u128 x) div unat (u128 y)"
  using DivModImpl_correct [OF assms, of x] by (auto simp: uint128_div_def)

lemma uint128_mod_correct:
  assumes "y \<noteq> 0"
  shows "\<exists>r. uint128_mod x y = Some r \<and> unat (u128 r) = unat (u128 x) mod unat (u128 y)"
  using DivModImpl_correct [OF assms, of x] by (auto simp: uint128_mod_def)

section \<open>int128: int128_no_intrinsic.inc\<close>

text \<open>
  The high word is an \<open>int64_t\<close>, kept in two's complement and read by \<open>sint\<close>. Signed 64-bit
  overflow is undefined behaviour, hence the checks \<open>ck\<close>.
\<close>

datatype int128 = MakeInt128 (Int128High64: u64) (Int128Low64: u64)

definition Int128Max :: int128 where
  "Int128Max = MakeInt128 0x7fffffffffffffff (- 1)"

definition Int128Min :: int128 where
  "Int128Min = MakeInt128 0x8000000000000000 0"

definition int128_of_signed :: "int \<Rightarrow> int128" where
  "int128_of_signed v = MakeInt128 (if v < 0 then NOT 0 else 0) (word_of_int v)"

definition int128_of_unsigned :: "u64 \<Rightarrow> int128" where
  "int128_of_unsigned v = MakeInt128 0 v"

text \<open>The conversions between the two types keep both words.\<close>

definition int128_of_uint128 :: "uint128 \<Rightarrow> int128" where
  "int128_of_uint128 v = MakeInt128 (Uint128High64 v) (Uint128Low64 v)"

definition uint128_of_int128 :: "int128 \<Rightarrow> uint128" where
  "uint128_of_int128 v = MakeUint128 (Int128High64 v) (Int128Low64 v)"

text \<open>\<open>BitCastToSigned\<close>, on the mathematical value of the result.\<close>

definition BitCastToSigned :: "u64 \<Rightarrow> int" where
  "BitCastToSigned v = (if v AND push_bit 63 1 \<noteq> 0 then NOT (uint (NOT v)) else uint v)"

text \<open>Conversions: to \<open>bool\<close>, to the unsigned types, to the signed types.\<close>

definition int128_bool :: "int128 \<Rightarrow> bool" where
  "int128_bool v \<longleftrightarrow> Int128Low64 v \<noteq> 0 \<or> Int128High64 v \<noteq> 0"

definition int128_cast :: "int128 \<Rightarrow> 'a::len word" where
  "int128_cast v = ucast (Int128Low64 v)"

definition int128_to_longlong :: "int128 \<Rightarrow> int" where
  "int128_to_longlong v = BitCastToSigned (Int128Low64 v)"

definition int128_scast :: "int128 \<Rightarrow> 'a::len word" where
  "int128_scast v = word_of_int (int128_to_longlong v)"

text \<open>Comparison operators.\<close>

definition int128_eq :: "int128 \<Rightarrow> int128 \<Rightarrow> bool" where
  "int128_eq lhs rhs \<longleftrightarrow> Int128Low64 lhs = Int128Low64 rhs \<and> Int128High64 lhs = Int128High64 rhs"

definition int128_ne :: "int128 \<Rightarrow> int128 \<Rightarrow> bool" where
  "int128_ne lhs rhs \<longleftrightarrow> \<not> int128_eq lhs rhs"

definition int128_lt :: "int128 \<Rightarrow> int128 \<Rightarrow> bool" where
  "int128_lt lhs rhs \<longleftrightarrow>
     (if Int128High64 lhs = Int128High64 rhs then Int128Low64 lhs < Int128Low64 rhs
      else sint (Int128High64 lhs) < sint (Int128High64 rhs))"

definition int128_gt :: "int128 \<Rightarrow> int128 \<Rightarrow> bool" where
  "int128_gt lhs rhs \<longleftrightarrow>
     (if Int128High64 lhs = Int128High64 rhs then Int128Low64 lhs > Int128Low64 rhs
      else sint (Int128High64 lhs) > sint (Int128High64 rhs))"

definition int128_le :: "int128 \<Rightarrow> int128 \<Rightarrow> bool" where
  "int128_le lhs rhs \<longleftrightarrow> \<not> int128_gt lhs rhs"

definition int128_ge :: "int128 \<Rightarrow> int128 \<Rightarrow> bool" where
  "int128_ge lhs rhs \<longleftrightarrow> \<not> int128_lt lhs rhs"

text \<open>Unary operators and the sums, with the signed arithmetic on the high words checked.\<close>

definition int128_neg :: "int128 \<Rightarrow> int128 option" where
  "int128_neg v =
     (let hi = NOT (Int128High64 v); lo = NOT (Int128Low64 v) + 1
      in if lo = 0 then do { hi \<leftarrow> ck (sint hi + 1); Some (MakeInt128 (word_of_int hi) lo) }
         else Some (MakeInt128 hi lo))"

definition int128_lnot :: "int128 \<Rightarrow> bool" where
  "int128_lnot v \<longleftrightarrow> Int128Low64 v = 0 \<and> Int128High64 v = 0"

definition int128_not :: "int128 \<Rightarrow> int128" where
  "int128_not val = MakeInt128 (NOT (Int128High64 val)) (NOT (Int128Low64 val))"

definition int128_add :: "int128 \<Rightarrow> int128 \<Rightarrow> int128 option" where
  "int128_add lhs rhs = do {
     h \<leftarrow> ck (sint (Int128High64 lhs) + sint (Int128High64 rhs));
     let result = MakeInt128 (word_of_int h) (Int128Low64 lhs + Int128Low64 rhs);
     if Int128Low64 result < Int128Low64 lhs then do {
       h \<leftarrow> ck (sint (Int128High64 result) + 1);
       Some (MakeInt128 (word_of_int h) (Int128Low64 result))
     }
     else Some result
   }"

definition int128_sub :: "int128 \<Rightarrow> int128 \<Rightarrow> int128 option" where
  "int128_sub lhs rhs = do {
     h \<leftarrow> ck (sint (Int128High64 lhs) - sint (Int128High64 rhs));
     let result = MakeInt128 (word_of_int h) (Int128Low64 lhs - Int128Low64 rhs);
     if Int128Low64 lhs < Int128Low64 rhs then do {
       h \<leftarrow> ck (sint (Int128High64 result) - 1);
       Some (MakeInt128 (word_of_int h) (Int128Low64 result))
     }
     else Some result
   }"

definition int128_mul :: "int128 \<Rightarrow> int128 \<Rightarrow> int128" where
  "int128_mul lhs rhs =
     (let result = uint128_mul (uint128_of_int128 lhs) (uint128_of_int128 rhs)
      in MakeInt128 (word_of_int (BitCastToSigned (Uint128High64 result))) (Uint128Low64 result))"

definition int128_inc :: "int128 \<Rightarrow> int128 option" where
  "int128_inc this = int128_add this (int128_of_signed 1)"

definition int128_dec :: "int128 \<Rightarrow> int128 option" where
  "int128_dec this = int128_sub this (int128_of_signed 1)"

definition int128_postinc :: "int128 \<Rightarrow> (int128 \<times> int128) option" where
  "int128_postinc this =
     (let tmp = this in map_option (Pair tmp) (int128_add this (int128_of_signed 1)))"

definition int128_postdec :: "int128 \<Rightarrow> (int128 \<times> int128) option" where
  "int128_postdec this =
     (let tmp = this in map_option (Pair tmp) (int128_sub this (int128_of_signed 1)))"

definition int128_or :: "int128 \<Rightarrow> int128 \<Rightarrow> int128" where
  "int128_or lhs rhs =
     MakeInt128 (Int128High64 lhs OR Int128High64 rhs) (Int128Low64 lhs OR Int128Low64 rhs)"

definition int128_and :: "int128 \<Rightarrow> int128 \<Rightarrow> int128" where
  "int128_and lhs rhs =
     MakeInt128 (Int128High64 lhs AND Int128High64 rhs) (Int128Low64 lhs AND Int128Low64 rhs)"

definition int128_xor :: "int128 \<Rightarrow> int128 \<Rightarrow> int128" where
  "int128_xor lhs rhs =
     MakeInt128 (Int128High64 lhs XOR Int128High64 rhs) (Int128Low64 lhs XOR Int128Low64 rhs)"

text \<open>
  Shifts. A left shift of the signed high word is the shift of its bits and a right shift copies
  its sign bit, as every supported compiler defines them.
\<close>

definition sar64 :: "u64 \<Rightarrow> int \<Rightarrow> u64 option" where
  "sar64 x n = (if 0 \<le> n \<and> n < 64 then Some (signed_drop_bit (nat n) x) else None)"

definition int128_shl :: "int128 \<Rightarrow> int \<Rightarrow> int128 option" where
  "int128_shl lhs amount =
     (if amount < 64 then
        if amount \<noteq> 0 then do {
          h \<leftarrow> shl64 (Int128High64 lhs) amount;
          c \<leftarrow> shr64 (Int128Low64 lhs) (64 - amount);
          l \<leftarrow> shl64 (Int128Low64 lhs) amount;
          Some (MakeInt128 (h OR c) l)
        }
        else Some lhs
      else do {
        h \<leftarrow> shl64 (Int128Low64 lhs) (amount - 64);
        Some (MakeInt128 h 0)
      })"

definition int128_shr :: "int128 \<Rightarrow> int \<Rightarrow> int128 option" where
  "int128_shr lhs amount =
     (if amount < 64 then
        if amount \<noteq> 0 then do {
          h \<leftarrow> sar64 (Int128High64 lhs) amount;
          l \<leftarrow> shr64 (Int128Low64 lhs) amount;
          c \<leftarrow> shl64 (Int128High64 lhs) (64 - amount);
          Some (MakeInt128 h (l OR c))
        }
        else Some lhs
      else do {
        l \<leftarrow> sar64 (Int128High64 lhs) (amount - 64);
        Some (MakeInt128 0 l)
      })"

text \<open>Division: int128.cc.\<close>

definition UnsignedAbsoluteValue :: "int128 \<Rightarrow> uint128" where
  "UnsignedAbsoluteValue v =
     (if sint (Int128High64 v) < 0 then uint128_neg (uint128_of_int128 v) else uint128_of_int128 v)"

definition int128_div :: "int128 \<Rightarrow> int128 \<Rightarrow> int128 option" where
  "int128_div lhs rhs =
     (if \<not> (int128_ne lhs Int128Min \<or> int128_ne rhs (int128_of_signed (- 1))) then None
      else do {
        (quo, rem) \<leftarrow> DivModImpl (UnsignedAbsoluteValue lhs) (UnsignedAbsoluteValue rhs);
        let quo = (if (sint (Int128High64 lhs) < 0) \<noteq> (sint (Int128High64 rhs) < 0)
                   then uint128_neg quo else quo);
        Some (MakeInt128 (word_of_int (BitCastToSigned (Uint128High64 quo))) (Uint128Low64 quo))
      })"

definition int128_mod :: "int128 \<Rightarrow> int128 \<Rightarrow> int128 option" where
  "int128_mod lhs rhs =
     (if \<not> (int128_ne lhs Int128Min \<or> int128_ne rhs (int128_of_signed (- 1))) then None
      else do {
        (quo, rem) \<leftarrow> DivModImpl (UnsignedAbsoluteValue lhs) (UnsignedAbsoluteValue rhs);
        let rem = (if sint (Int128High64 lhs) < 0 then uint128_neg rem else rem);
        Some (MakeInt128 (word_of_int (BitCastToSigned (Uint128High64 rem))) (Uint128Low64 rem))
      })"

text \<open>The value of an \<open>int128\<close>.\<close>

definition i128 :: "int128 \<Rightarrow> int" where
  "i128 v = sint (Int128High64 v) * 2 ^ 64 + uint (Int128Low64 v)"

lemma take_bit_uint64: "take_bit 64 (uint (v :: u64)) = uint v"
  by (rule take_bit_int_eq_self) (use uint_lt2p [of v] in simp_all)

lemma sint_u64: "sint (v :: u64) = (if bit v 63 then uint v - 2 ^ 64 else uint v)"
  using signed_take_bit_eq_take_bit_minus [of 63 "uint v"]
  by (simp add: sint_uint bit_uint_iff take_bit_uint64)

lemma BitCastToSigned_eq: "BitCastToSigned v = sint v"
proof -
  have b: "v AND 9223372036854775808 = 0 \<longleftrightarrow> \<not> bit v 63"
    using and_exp_eq_0_iff_not_bit [of v 63] by simp
  have "uint (NOT v) = 2 ^ 64 - 1 - uint v"
    by (simp add: unsigned_not_eq take_bit_not_eq_mask_diff mask_eq_exp_minus_1 take_bit_uint64)
  then show ?thesis by (simp add: BitCastToSigned_def sint_u64 b not_int_def)
qed

lemma up64_of_int: "up64 (word_of_int i) = word_of_int i * 2 ^ 64"
proof (cases "0 \<le> i")
  case True
  then show ?thesis using up64_of_nat [of "nat i"] by simp
next
  case False
  then show ?thesis
    using up64_of_nat [of "nat (- i)"] up64_minus [of "word_of_int (- i)"] by simp
qed

lemma u128_of_int128: "u128 (uint128_of_int128 v) = word_of_int (i128 v)"
proof -
  have "lo64 l = word_of_int (uint l)" for l by (simp add: lo64_def)
  moreover have "up64 h = word_of_int (sint h) * 2 ^ 64" for h
    using up64_of_int [of "sint h"] by simp
  ultimately show ?thesis by (simp add: uint128_of_int128_def u128_sum i128_def)
qed

lemma pair_range:
  fixes h l :: int
  assumes "- (2 ^ 63) \<le> h" "h < 2 ^ 63" "0 \<le> l" "l < 2 ^ 64"
  shows "- (2 ^ 127) \<le> h * 2 ^ 64 + l" "h * 2 ^ 64 + l < 2 ^ 127"
  using assms by simp_all

lemma i128_range: "- (2 ^ 127) \<le> i128 v" "i128 v < 2 ^ 127"
proof -
  have "- (2 ^ 63) \<le> sint (Int128High64 v)" "sint (Int128High64 v) < 2 ^ 63"
    using sint_ge [of "Int128High64 v"] sint_lt [of "Int128High64 v"] by simp_all
  moreover have "0 \<le> uint (Int128Low64 v)" "uint (Int128Low64 v) < 2 ^ 64"
    using uint_lt2p [of "Int128Low64 v"] by simp_all
  ultimately show "- (2 ^ 127) \<le> i128 v" "i128 v < 2 ^ 127"
    unfolding i128_def by (blast intro: pair_range)+
qed

lemma sint_of_int128_range:
  assumes "- (2 ^ 127) \<le> i" "i < 2 ^ 127" shows "sint (word_of_int i :: 128 word) = i"
  using assms by (simp add: signed_of_int signed_take_bit_int_eq_self)

lemma i128_sint: "i128 v = sint (u128 (uint128_of_int128 v))"
  by (simp add: u128_of_int128 sint_of_int128_range [OF i128_range])

lemma i128_inject [simp]: "i128 v = i128 w \<longleftrightarrow> v = w"
proof
  assume "i128 v = i128 w"
  then have "u128 (uint128_of_int128 v) = u128 (uint128_of_int128 w)" by (simp add: u128_of_int128)
  then show "v = w" by (cases v; cases w) (simp add: uint128_of_int128_def)
qed simp

lemma int128_roundtrip [simp]:
  "uint128_of_int128 (int128_of_uint128 u) = u" "int128_of_uint128 (uint128_of_int128 v) = v"
  by (simp_all add: int128_of_uint128_def uint128_of_int128_def)

lemma i128_of_uint128: "i128 (int128_of_uint128 u) = sint (u128 u)"
  by (simp add: i128_sint)

lemma MakeInt128_cast:
  "MakeInt128 (word_of_int (BitCastToSigned (Uint128High64 u))) (Uint128Low64 u) = int128_of_uint128 u"
  by (simp add: BitCastToSigned_eq int128_of_uint128_def)

text \<open>Two values agree when they agree modulo \<open>2 ^ 128\<close> and the exact one fits.\<close>

lemma i128_eqI:
  assumes "u128 (uint128_of_int128 v) = word_of_int i" "- (2 ^ 127) \<le> i" "i < 2 ^ 127"
  shows "i128 v = i"
  using assms by (simp add: i128_sint sint_of_int128_range)

lemma sint64_of_int: "i64_ok i \<Longrightarrow> sint (word_of_int i :: u64) = i"
  by (simp add: i64_ok_iff signed_of_int signed_take_bit_int_eq_self)

lemma sint64_ok: "i64_ok (sint (h :: u64))"
  using sint_ge [of h] sint_lt [of h] by (simp add: i64_ok_iff)

lemma uint64_range: "0 \<le> uint (l :: u64)" "uint (l :: u64) < 2 ^ 64"
  using uint_lt2p [of l] by simp_all

lemma uint_of_sint: "uint (w :: u64) = sint w + (if sint w < 0 then 2 ^ 64 else 0)"
  using uint64_range [of w] sint_ge [of w] by (auto simp: sint_u64 split: if_splits)

lemma i128_Make: "i128 (MakeInt128 (word_of_int h) l) = h * 2 ^ 64 + uint l" if "i64_ok h"
  using that by (simp add: i128_def sint64_of_int)

text \<open>Comparisons.\<close>

lemma lex_int:
  fixes a b c d :: int
  assumes "0 \<le> b" "b < 2 ^ 64" "0 \<le> d" "d < 2 ^ 64"
  shows "a * 2 ^ 64 + b < c * 2 ^ 64 + d \<longleftrightarrow> (if a = c then b < d else a < c)"
  using assms by (cases a c rule: linorder_cases) auto

lemma int128_lt_iff: "int128_lt v w \<longleftrightarrow> i128 v < i128 w"
  unfolding i128_def lex_int [OF uint64_range uint64_range] int128_lt_def
  by (auto simp: word_less_def dest: signed_word_eqI)

lemma int128_gt_iff: "int128_gt v w \<longleftrightarrow> i128 w < i128 v"
  by (auto simp flip: int128_lt_iff simp: int128_gt_def int128_lt_def)

lemma int128_eq_iff: "int128_eq v w \<longleftrightarrow> v = w"
  by (cases v; cases w) (auto simp: int128_eq_def)

text \<open>Sums: exact, and undefined when the exact result or the sum of the high words does not fit.\<close>

definition high_sum_ok :: "int128 \<Rightarrow> int128 \<Rightarrow> bool" where
  "high_sum_ok v w \<longleftrightarrow> i64_ok (sint (Int128High64 v) + sint (Int128High64 w))"

definition high_diff_ok :: "int128 \<Rightarrow> int128 \<Rightarrow> bool" where
  "high_diff_ok v w \<longleftrightarrow> i64_ok (sint (Int128High64 v) - sint (Int128High64 w))"

definition i128_ok :: "int \<Rightarrow> bool" where
  "i128_ok i \<longleftrightarrow> - (2 ^ 127) \<le> i \<and> i < 2 ^ 127"

lemma i128_ok_high:
  fixes h l :: int
  assumes "0 \<le> l" "l < 2 ^ 64" shows "i128_ok (h * 2 ^ 64 + l) \<longleftrightarrow> i64_ok h"
  using assms by (simp add: i128_ok_def i64_ok_iff) linarith

lemma uint_add_carry: "uint (a + b :: u64) = uint a + uint b - (if a + b < a then 2 ^ 64 else 0)"
  using uint64_range [of a] uint64_range [of b]
  by (simp add: word_less_def uint_word_ariths mod_add_if_z)

lemma uint_diff_borrow: "uint (a - b :: u64) = uint a - uint b + (if a < b then 2 ^ 64 else 0)"
  using uint64_range [of a] uint64_range [of b]
  by (simp add: word_less_def uint_word_ariths mod_sub_if_z)

lemma int128_add_eq:
  "int128_add v w = (if high_sum_ok v w \<and> i128_ok (i128 v + i128 w)
     then Some (int128_of_uint128 (uint128_of_int128 v + uint128_of_int128 w)) else None)"
proof -
  obtain g k h l where v: "v = MakeInt128 g k" and w: "w = MakeInt128 h l" by (cases v; cases w)
  define s where "s = sint g + sint h"
  define c where "c = (k + l < k)"
  have sum: "i128 v + i128 w = (s + (if c then 1 else 0)) * 2 ^ 64 + uint (k + l)"
    unfolding uint_add_carry c_def by (simp add: v w s_def i128_def algebra_simps)
  have ok: "i128_ok (i128 v + i128 w) \<longleftrightarrow> i64_ok (s + (if c then 1 else 0))"
    unfolding sum by (rule i128_ok_high [OF uint64_range])
  have high: "high_sum_ok v w \<longleftrightarrow> i64_ok s" by (simp add: high_sum_ok_def v w s_def)
  have ws: "word_of_int s = g + h" by (simp add: s_def)
  then have ws1: "word_of_int (s + 1) = g + h + 1" by simp
  have "int128_of_uint128 (uint128_of_int128 v + uint128_of_int128 w)
      = MakeInt128 (g + h + (if c then 1 else 0)) (k + l)"
    by (simp add: plus_uint128_def uint128_add_def v w uint128_of_int128_def int128_of_uint128_def c_def Let_def)
  then show ?thesis
    unfolding ok high
    by (cases "i64_ok s"; cases c; cases "i64_ok (s + 1)")
      (simp_all add: int128_add_def v w Let_def sint64_of_int ws1 flip: s_def c_def ws)
qed

lemma int128_sub_eq:
  "int128_sub v w = (if high_diff_ok v w \<and> i128_ok (i128 v - i128 w)
     then Some (int128_of_uint128 (uint128_of_int128 v - uint128_of_int128 w)) else None)"
proof -
  obtain g k h l where v: "v = MakeInt128 g k" and w: "w = MakeInt128 h l" by (cases v; cases w)
  define s where "s = sint g - sint h"
  define c where "c = (k < l)"
  have sum: "i128 v - i128 w = (s - (if c then 1 else 0)) * 2 ^ 64 + uint (k - l)"
    unfolding uint_diff_borrow c_def by (simp add: v w s_def i128_def algebra_simps)
  have ok: "i128_ok (i128 v - i128 w) \<longleftrightarrow> i64_ok (s - (if c then 1 else 0))"
    unfolding sum by (rule i128_ok_high [OF uint64_range])
  have high: "high_diff_ok v w \<longleftrightarrow> i64_ok s" by (simp add: high_diff_ok_def v w s_def)
  have ws: "word_of_int s = g - h" by (simp add: s_def)
  then have ws1: "word_of_int (s - 1) = g - h - 1" by simp
  have "int128_of_uint128 (uint128_of_int128 v - uint128_of_int128 w)
      = MakeInt128 (g - h - (if c then 1 else 0)) (k - l)"
    by (simp add: minus_uint128_def uint128_sub_def v w uint128_of_int128_def int128_of_uint128_def c_def Let_def)
  then show ?thesis
    unfolding ok high
    by (cases "i64_ok s"; cases c; cases "i64_ok (s - 1)")
      (simp_all add: int128_sub_def v w Let_def sint64_of_int ws1 flip: s_def c_def ws)
qed

lemma i128_back:
  assumes "u128 u = word_of_int i" "i128_ok i" shows "i128 (int128_of_uint128 u) = i"
  using assms by (intro i128_eqI) (simp_all add: i128_ok_def)

lemma int128_sum_exact:
  "int128_add v w = Some r \<Longrightarrow> i128 r = i128 v + i128 w"
  "int128_sub v w = Some r \<Longrightarrow> i128 r = i128 v - i128 w"
  by (auto simp: int128_add_eq int128_sub_eq u128_ring u128_of_int128 split: if_splits intro!: i128_back)

lemma int128_neg_eq:
  "int128_neg v = (if i128_ok (- i128 v) then Some (int128_of_uint128 (- uint128_of_int128 v)) else None)"
proof -
  obtain h l where v: "v = MakeInt128 h l" by (cases v)
  have l0: "NOT l + 1 = - l" by (simp add: not_eq_complement)
  have ok: "i64_ok (- sint h - 1)" using sint64_ok [of h] by (simp add: i64_ok_iff)
  have nh: "sint (NOT h) = - sint h - 1"
    using sint64_of_int [OF ok] by (simp add: not_eq_complement)
  have m: "uint (- l) = (if l = 0 then 0 else 2 ^ 64 - uint l)"
    using uint_diff_borrow [of 0 l] by (simp add: word_gt_0)
  have "- i128 v = (- sint h - (if l = 0 then 0 else 1)) * 2 ^ 64 + uint (- l)"
    unfolding m by (simp add: v i128_def)
  then have "i128_ok (- i128 v) \<longleftrightarrow> i64_ok (- sint h - (if l = 0 then 0 else 1))"
    by (simp only: i128_ok_high [OF uint64_range])
  moreover have "int128_of_uint128 (- uint128_of_int128 v) = MakeInt128 (if l = 0 then NOT h + 1 else NOT h) (- l)"
    by (simp add: uminus_uint128_def uint128_neg_def v uint128_of_int128_def int128_of_uint128_def Let_def l0)
  moreover have "word_of_int (- sint h) = NOT h + 1" by (simp add: not_eq_complement)
  ultimately show ?thesis
    using ok by (cases "l = 0"; cases "i64_ok (- sint h)") (simp_all add: int128_neg_def v Let_def l0 nh)
qed

lemma int128_mul_eq: "int128_mul v w = int128_of_uint128 (uint128_of_int128 v * uint128_of_int128 w)"
  by (simp add: int128_mul_def Let_def MakeInt128_cast times_uint128_def)

lemma int128_mul_exact: "i128_ok (i128 v * i128 w) \<Longrightarrow> i128 (int128_mul v w) = i128 v * i128 w"
  by (auto simp: int128_mul_eq u128_ring u128_of_int128 intro!: i128_back)

text \<open>Division truncates.\<close>

lemma unat_abs: "unat (u128 (UnsignedAbsoluteValue v)) = nat \<bar>i128 v\<bar>"
proof -
  have neg: "sint (Int128High64 v) < 0 \<longleftrightarrow> i128 v < 0"
    using lex_int [of "uint (Int128Low64 v)" 0 "sint (Int128High64 v)" 0] uint64_range [of "Int128Low64 v"]
    unfolding i128_def by auto
  have "u128 (UnsignedAbsoluteValue v) = word_of_int \<bar>i128 v\<bar>"
    by (simp add: UnsignedAbsoluteValue_def neg u128_neg u128_of_int128)
  moreover have "\<bar>i128 v\<bar> < 2 ^ 128" using i128_range [of v] by simp
  ultimately show ?thesis by (simp add: unat_eq_nat_uint unsigned_of_int take_bit_int_eq_self)
qed

lemma i128_neg_iff: "sint (Int128High64 v) < 0 \<longleftrightarrow> i128 v < 0"
  using lex_int [of "uint (Int128Low64 v)" 0 "sint (Int128High64 v)" 0] uint64_range [of "Int128Low64 v"]
  unfolding i128_def by auto

lemma i128_Min: "i128 Int128Min = - (2 ^ 127)" "i128 Int128Max = 2 ^ 127 - 1"
  by (simp_all add: i128_def Int128Min_def Int128Max_def unsigned_minus_1_eq_mask mask_eq_exp_minus_1)

lemma i128_signed:
  assumes "i64_ok i" shows "i128 (int128_of_signed i) = i"
proof (cases "i < 0")
  case True
  have "take_bit 64 i = take_bit 64 (i + 2 ^ 64)" by (simp add: take_bit_eq_mod)
  also have "\<dots> = i + 2 ^ 64" using assms True by (intro take_bit_int_eq_self) (simp_all add: i64_ok_iff)
  finally show ?thesis using True assms by (simp add: int128_of_signed_def i128_def unsigned_of_int i64_ok_iff)
next
  case False
  with assms show ?thesis
    by (simp add: int128_of_signed_def i128_def i64_ok_iff unsigned_of_int take_bit_int_eq_self)
qed

lemma sdiv_abs: "a sdiv b = (if (a < 0) \<noteq> (b < 0) then - (\<bar>a\<bar> div \<bar>b\<bar>) else \<bar>a\<bar> div \<bar>b\<bar>)" for a b :: int
  by (auto simp: signed_divide_int_def sgn_if)

lemma smod_abs: "a smod b = (if a < 0 then - (\<bar>a\<bar> mod \<bar>b\<bar>) else \<bar>a\<bar> mod \<bar>b\<bar>)" for a b :: int
  by (auto simp: smod_int_alt_def sgn_if)

lemma abs_div_nonneg [simp]: "0 \<le> \<bar>a\<bar> div \<bar>b\<bar>" "0 \<le> \<bar>a\<bar> mod \<bar>b\<bar>" for a b :: int
  by (cases "b = 0"; simp add: pos_imp_zdiv_nonneg_iff)+

lemma u128_abs_quotient:
  assumes "unat (u128 q) = nat \<bar>a\<bar> div nat \<bar>b\<bar>" shows "u128 q = word_of_int (\<bar>a\<bar> div \<bar>b\<bar>)"
proof -
  have "u128 q = of_nat (nat \<bar>a\<bar> div nat \<bar>b\<bar>)" by (simp flip: assms)
  then show ?thesis by (simp flip: nat_div_distrib)
qed

lemma u128_abs_remainder:
  assumes "unat (u128 q) = nat \<bar>a\<bar> mod nat \<bar>b\<bar>" shows "u128 q = word_of_int (\<bar>a\<bar> mod \<bar>b\<bar>)"
proof -
  have "u128 q = of_nat (nat \<bar>a\<bar> mod nat \<bar>b\<bar>)" by (simp flip: assms)
  then show ?thesis by (simp flip: nat_mod_distrib)
qed

lemma int128_div_assert:
  "\<not> (int128_ne v Int128Min \<or> int128_ne w (int128_of_signed (- 1))) \<longleftrightarrow> i128 v = - (2 ^ 127) \<and> i128 w = - 1"
  using i128_signed [of "- 1"]
  by (auto simp: int128_ne_def int128_eq_iff i64_ok_iff i128_Min simp flip: i128_inject)

lemma i128_0_iff: "UnsignedAbsoluteValue w = 0 \<longleftrightarrow> i128 w = 0"
proof -
  have "UnsignedAbsoluteValue w = 0 \<longleftrightarrow> unat (u128 (UnsignedAbsoluteValue w)) = 0"
    by (metis unat_eq_zero u128_inject u128_ring(1))
  then show ?thesis by (simp add: unat_abs)
qed

lemma abs_div_range:
  fixes a b :: int
  assumes "- (2 ^ 127) \<le> a" "a < 2 ^ 127" "b \<noteq> 0" "\<not> (a = - (2 ^ 127) \<and> b = - 1)"
  shows "i128_ok (a sdiv b)" "i128_ok (a smod b)"
proof -
  define d m where "d = \<bar>a\<bar> div \<bar>b\<bar>" and "m = \<bar>a\<bar> mod \<bar>b\<bar>"
  have "0 \<le> m" "m \<le> \<bar>a\<bar>"
    using zmod_le_nonneg_dividend [of "\<bar>a\<bar>" "\<bar>b\<bar>"] by (simp_all add: m_def)
  moreover have "a smod b = (if a < 0 then - m else m)" by (simp only: smod_abs m_def)
  ultimately show "i128_ok (a smod b)" using assms(1,2) by (auto simp: i128_ok_def)
  have d: "0 \<le> d" by (simp add: d_def)
  have s: "a sdiv b = (if (a < 0) \<noteq> (b < 0) then - d else d)" by (simp only: sdiv_abs d_def)
  consider "b = 1" | "b = - 1" | "a = 0" | "1 < \<bar>b\<bar>" "a \<noteq> 0" using assms(3) by linarith
  then show "i128_ok (a sdiv b)"
  proof cases
    case 4
    then have "d < \<bar>a\<bar>" unfolding d_def by (intro int_div_less_self) auto
    with d assms(1,2) show ?thesis unfolding s by (auto simp: i128_ok_def)
  qed (use assms s d in \<open>auto simp: d_def i128_ok_def\<close>)
qed

lemma int128_div_correct:
  assumes "i128 w \<noteq> 0" "\<not> (i128 v = - (2 ^ 127) \<and> i128 w = - 1)"
  shows "\<exists>q. int128_div v w = Some q \<and> i128 q = i128 v sdiv i128 w"
proof -
  define x y where "x = UnsignedAbsoluteValue v" and "y = UnsignedAbsoluteValue w"
  have "y \<noteq> 0" using assms(1) by (simp add: y_def i128_0_iff)
  then obtain q r where qr: "DivModImpl x y = Some (q, r)" "unat (u128 q) = unat (u128 x) div unat (u128 y)"
    using DivModImpl_correct by blast
  then have q: "u128 q = word_of_int (\<bar>i128 v\<bar> div \<bar>i128 w\<bar>)"
    by (intro u128_abs_quotient) (simp add: x_def y_def unat_abs)
  define u where "u = (if (i128 v < 0) \<noteq> (i128 w < 0) then uint128_neg q else q)"
  have "int128_div v w = Some (int128_of_uint128 u)"
    using qr(1) int128_div_assert [of v w] assms(2)
    by (simp add: int128_div_def MakeInt128_cast Let_def i128_neg_iff u_def flip: x_def y_def)
  moreover have "u128 u = word_of_int (i128 v sdiv i128 w)"
    by (simp add: u_def u128_neg q sdiv_abs)
  ultimately show ?thesis
    using i128_back abs_div_range(1) [OF i128_range assms] by blast
qed

lemma int128_mod_correct:
  assumes "i128 w \<noteq> 0" "\<not> (i128 v = - (2 ^ 127) \<and> i128 w = - 1)"
  shows "\<exists>r. int128_mod v w = Some r \<and> i128 r = i128 v smod i128 w"
proof -
  define x y where "x = UnsignedAbsoluteValue v" and "y = UnsignedAbsoluteValue w"
  have "y \<noteq> 0" using assms(1) by (simp add: y_def i128_0_iff)
  then obtain q r where qr: "DivModImpl x y = Some (q, r)" "unat (u128 r) = unat (u128 x) mod unat (u128 y)"
    using DivModImpl_correct by blast
  then have r: "u128 r = word_of_int (\<bar>i128 v\<bar> mod \<bar>i128 w\<bar>)"
    by (intro u128_abs_remainder) (simp add: x_def y_def unat_abs)
  define u where "u = (if i128 v < 0 then uint128_neg r else r)"
  have "int128_mod v w = Some (int128_of_uint128 u)"
    using qr(1) int128_div_assert [of v w] assms(2)
    by (simp add: int128_mod_def MakeInt128_cast Let_def i128_neg_iff u_def flip: x_def y_def)
  moreover have "u128 u = word_of_int (i128 v smod i128 w)"
    by (simp add: u_def u128_neg r smod_abs)
  ultimately show ?thesis
    using i128_back abs_div_range(2) [OF i128_range assms] by blast
qed

text \<open>The logical operators and the left shift are those of the same bits, unsigned.\<close>

lemma int128_logic:
  "uint128_of_int128 (int128_not v) = uint128_not (uint128_of_int128 v)"
  "uint128_of_int128 (int128_or v w) = uint128_or (uint128_of_int128 v) (uint128_of_int128 w)"
  "uint128_of_int128 (int128_and v w) = uint128_and (uint128_of_int128 v) (uint128_of_int128 w)"
  "uint128_of_int128 (int128_xor v w) = uint128_xor (uint128_of_int128 v) (uint128_of_int128 w)"
  by (simp_all add: uint128_of_int128_def int128_not_def int128_or_def int128_and_def int128_xor_def
      uint128_not_def uint128_or_def uint128_and_def uint128_xor_def)

lemma int128_shl_eq: "int128_shl v n = map_option int128_of_uint128 (uint128_shl (uint128_of_int128 v) n)"
  by (cases v) (simp add: int128_shl_def uint128_shl_def shl64_def shr64_def uint128_of_int128_def
      int128_of_uint128_def)

lemma int128_shl_exact:
  assumes "0 \<le> n" "n < 128" "i128_ok (i128 v * 2 ^ nat n)"
  shows "\<exists>r. int128_shl v n = Some r \<and> i128 r = i128 v * 2 ^ nat n"
proof -
  define u where "u = of_u128 (push_bit (nat n) (u128 (uint128_of_int128 v)))"
  have "int128_shl v n = Some (int128_of_uint128 u)"
    using assms by (simp add: int128_shl_eq uint128_shl_eq u_def)
  moreover have "u128 u = word_of_int (i128 v * 2 ^ nat n)"
    by (simp add: u_def push_bit_eq_mult u128_of_int128)
  ultimately show ?thesis using i128_back assms(3) by blast
qed

text \<open>
  The right shift is arithmetic up to 63 places. From 64 places on it writes a zero high word, so
  that a negative value comes out \<open>2 ^ 64\<close> too large.
\<close>

lemma sar_small:
  assumes "0 < m" "m < 64"
  shows "u128 (MakeUint128 (signed_drop_bit m h) (drop_bit m l OR push_bit (64 - m) h))
    = signed_drop_bit m (u128 (MakeUint128 h l))"
proof (rule bit_word_eqI)
  fix k :: nat assume "k < LENGTH(128)"
  moreover have "k - (64 - m) = m + k - 64" using assms by simp
  moreover have "64 \<le> k \<Longrightarrow> m + (k - 64) = m + k - 64" by simp
  moreover have "m + k - 64 < 64 \<longleftrightarrow> m + k < 128" using assms by auto
  ultimately show "bit (u128 (MakeUint128 (signed_drop_bit m h) (drop_bit m l OR push_bit (64 - m) h))) k
      \<longleftrightarrow> bit (signed_drop_bit m (u128 (MakeUint128 h l))) k"
    using assms by (auto simp: bit_simps min_def dest: bit_imp_le_length)
qed

lemma sint_sar: "sint (signed_drop_bit m (w :: 'a::len word)) = sint w div 2 ^ m"
  by (simp add: sint_signed_drop_bit_eq drop_bit_eq_div)

lemma int128_shr_small:
  assumes "0 \<le> n" "n < 64"
  shows "\<exists>r. int128_shr v n = Some r \<and> i128 r = i128 v div 2 ^ nat n"
proof (cases "n = 0")
  case True
  then show ?thesis by (simp add: int128_shr_def)
next
  case False
  obtain h l where v: "v = MakeInt128 h l" by (cases v)
  define r where "r = MakeInt128 (signed_drop_bit (nat n) h) (drop_bit (nat n) l OR push_bit (64 - nat n) h)"
  have "int128_shr v n = Some r"
    using assms False by (simp add: int128_shr_def sar64_def shr64_def shl64_def v r_def nat_diff_distrib)
  moreover have "u128 (uint128_of_int128 r) = signed_drop_bit (nat n) (u128 (uint128_of_int128 v))"
    using sar_small [of "nat n" h l] assms False by (simp add: uint128_of_int128_def r_def v)
  ultimately show ?thesis by (simp add: i128_sint sint_sar)
qed

lemma int128_shr_large:
  assumes "64 \<le> n" "n < 128"
  shows "\<exists>r. int128_shr v n = Some r \<and> i128 r = i128 v div 2 ^ nat n + (if i128 v < 0 then 2 ^ 64 else 0)"
proof -
  obtain h l where v: "v = MakeInt128 h l" by (cases v)
  define m where "m = nat n - 64"
  have n: "nat n = 64 + m" using assms by (simp add: m_def)
  define r where "r = MakeInt128 0 (signed_drop_bit m h)"
  have "nat (n - 64) = m" by (simp add: m_def nat_diff_distrib)
  then have "int128_shr v n = Some r"
    using assms by (simp add: int128_shr_def sar64_def v r_def)
  moreover have "i128 v div 2 ^ 64 = sint h"
    using uint64_range [of l] by (simp add: i128_def v)
  then have "i128 v div 2 ^ nat n = sint h div 2 ^ m" by (simp add: n power_add div_mult2_eq' zdiv_zmult2_eq)
  moreover have "i128 r = sint h div 2 ^ m + (if sint h div 2 ^ m < 0 then 2 ^ 64 else 0)"
    using uint_of_sint [of "signed_drop_bit m h"] by (simp add: r_def i128_def sint_sar)
  moreover have "sint h div 2 ^ m < 0 \<longleftrightarrow> i128 v < 0"
    using i128_neg_iff [of v] pos_imp_zdiv_neg_iff [of "2 ^ m" "sint h"] by (simp add: v)
  ultimately show ?thesis by auto
qed

section \<open>Stream output\<close>

text \<open>
  The \<open>fmtflags\<close> that the code reads. \<open>flags & basefield\<close> selects octal or hexadecimal when it is
  exactly that bit and decimal otherwise; the same holds for \<open>adjustfield\<close>, with \<open>right\<close> as the
  default.
\<close>

record fmtflags =
  fl_dec :: bool
  fl_oct :: bool
  fl_hex :: bool
  fl_showbase :: bool
  fl_showpos :: bool
  fl_uppercase :: bool
  fl_left :: bool
  fl_right :: bool
  fl_internal :: bool

definition is_hex :: "fmtflags \<Rightarrow> bool" where
  "is_hex f \<longleftrightarrow> fl_hex f \<and> \<not> fl_dec f \<and> \<not> fl_oct f"

definition is_oct :: "fmtflags \<Rightarrow> bool" where
  "is_oct f \<longleftrightarrow> fl_oct f \<and> \<not> fl_dec f \<and> \<not> fl_hex f"

definition is_left :: "fmtflags \<Rightarrow> bool" where
  "is_left f \<longleftrightarrow> fl_left f \<and> \<not> fl_right f \<and> \<not> fl_internal f"

definition is_internal :: "fmtflags \<Rightarrow> bool" where
  "is_internal f \<longleftrightarrow> fl_internal f \<and> \<not> fl_right f \<and> \<not> fl_left f"

text \<open>
  The standard library's output of an unsigned value: its digits in the selected base, the base
  prefix of a nonzero value, and (on a stream with no adjustment flag) fill characters on the left.
\<close>

definition digit_char :: "bool \<Rightarrow> nat \<Rightarrow> char" where
  "digit_char upper d =
     (if d < 10 then char_of (48 + d) else char_of ((if upper then 55 else 87) + d))"

fun digits :: "nat \<Rightarrow> bool \<Rightarrow> nat \<Rightarrow> string" where
  "digits b upper n =
     (if b < 2 \<or> n < b then [digit_char upper n]
      else digits b upper (n div b) @ [digit_char upper (n mod b)])"

declare digits.simps [simp del]

definition out_base :: "fmtflags \<Rightarrow> nat" where
  "out_base f = (if is_hex f then 16 else if is_oct f then 8 else 10)"

definition out_prefix :: "fmtflags \<Rightarrow> nat \<Rightarrow> string" where
  "out_prefix f n =
     (if n = 0 \<or> \<not> fl_showbase f then ''''
      else if is_hex f then (if fl_uppercase f then ''0X'' else ''0x'')
      else if is_oct f then ''0'' else '''')"

definition put_uint :: "fmtflags \<Rightarrow> char \<Rightarrow> nat \<Rightarrow> nat \<Rightarrow> string" where
  "put_uint f fill width n =
     (let rep = out_prefix f n @ digits (out_base f) (fl_uppercase f) n
      in replicate (width - length rep) fill @ rep)"

text \<open>
  \<open>Uint128ToFormattedString\<close>: three chunks below the largest power of the base that fits 64 bits.
  The stream \<open>os\<close> takes over the base, \<open>showbase\<close> and \<open>uppercase\<close> from \<open>flags\<close>; a width holds for
  the next output only.
\<close>

definition chunk_of :: "fmtflags \<Rightarrow> uint128 \<times> nat" where
  "chunk_of flags =
     (if is_hex flags then (uint128_of_signed 0x1000000000000000, 15)
      else if is_oct flags then (uint128_of_unsigned 0x8000000000000000, 21)
      else (uint128_of_unsigned 10000000000000000000, 19))"

definition Uint128ToFormattedString :: "uint128 \<Rightarrow> fmtflags \<Rightarrow> string option" where
  "Uint128ToFormattedString v flags =
     (let (chunk, div_base_log) = chunk_of flags; noshowbase = flags\<lparr>fl_showbase := False\<rparr>
      in do {
        (high, low) \<leftarrow> DivModImpl v chunk;
        (high, mid) \<leftarrow> DivModImpl high chunk;
        let h = unat (Uint128Low64 high);
        let m = unat (Uint128Low64 mid);
        let l = unat (Uint128Low64 low);
        Some
         (if h \<noteq> 0 then
            put_uint flags CHR '' '' 0 h @ put_uint noshowbase CHR ''0'' div_base_log m
            @ put_uint noshowbase CHR ''0'' div_base_log l
          else if m \<noteq> 0 then
            put_uint flags CHR '' '' 0 m @ put_uint noshowbase CHR ''0'' div_base_log l
          else put_uint flags CHR '' '' 0 l)
      })"

text \<open>\<open>operator <<\<close> of the two types, with the stream's flags, width and fill character.\<close>

definition uint128_out :: "fmtflags \<Rightarrow> nat \<Rightarrow> char \<Rightarrow> uint128 \<Rightarrow> string option" where
  "uint128_out flags width fill v = do {
     rep \<leftarrow> Uint128ToFormattedString v flags;
     let pad = replicate (width - length rep) fill;
     Some
      (if width > length rep then
         if is_left flags then rep @ pad
         else if is_internal flags \<and> fl_showbase flags \<and> is_hex flags \<and> uint128_ne v (uint128_of_signed 0)
         then take 2 rep @ pad @ drop 2 rep
         else pad @ rep
       else rep)
   }"

definition int128_out :: "fmtflags \<Rightarrow> nat \<Rightarrow> char \<Rightarrow> int128 \<Rightarrow> string option" where
  "int128_out flags width fill v =
     (let print_as_decimal = (\<not> fl_hex flags \<and> \<not> fl_oct flags);
          rep = (if print_as_decimal then
                   if sint (Int128High64 v) < 0 then ''-''
                   else if fl_showpos flags then ''+'' else ''''
                 else '''')
      in do {
        s \<leftarrow> Uint128ToFormattedString
               (if print_as_decimal then UnsignedAbsoluteValue v else uint128_of_int128 v) flags;
        let rep = rep @ s;
        let pad = replicate (width - length rep) fill;
        Some
         (if width > length rep then
            if is_left flags then rep @ pad
            else if is_internal flags then
              if print_as_decimal \<and> (rep ! 0 = CHR ''+'' \<or> rep ! 0 = CHR ''-'')
              then take 1 rep @ pad @ drop 1 rep
              else if is_hex flags \<and> fl_showbase flags \<and> int128_ne v (int128_of_signed 0)
              then take 2 rep @ pad @ drop 2 rep
              else pad @ rep
            else pad @ rep
          else rep)
      })"

text \<open>Digits of a value cut in two at a power of the base.\<close>

fun padded :: "nat \<Rightarrow> bool \<Rightarrow> nat \<Rightarrow> nat \<Rightarrow> string" where
  "padded b upper 0 n = ''''"
| "padded b upper (Suc k) n = padded b upper k (n div b) @ [digit_char upper (n mod b)]"

lemma digits_one: "n < b \<Longrightarrow> digits b u n = [digit_char u n]"
  by (simp add: digits.simps [of b u n])

lemma digits_more:
  "2 \<le> b \<Longrightarrow> b \<le> n \<Longrightarrow> digits b u n = digits b u (n div b) @ [digit_char u (n mod b)]"
  by (simp add: digits.simps [of b u n])

lemma digit_char_0: "digit_char u 0 = CHR ''0''"
proof -
  have "char_of (48 :: nat) = CHR ''0''" by code_simp
  then show ?thesis by (simp add: digit_char_def)
qed

lemma digits_split:
  assumes "2 \<le> b" "0 < q"
  shows "r < b ^ k \<Longrightarrow> digits b u (q * b ^ k + r) = digits b u q @ padded b u k r"
proof (induction k arbitrary: r)
  case (Suc k)
  have r: "r div b < b ^ k" using Suc.prems assms(1) by (simp add: div_less_iff_less_mult mult.commute)
  have "b * 1 \<le> b * (q * b ^ k)" using assms by (intro mult_le_mono2) simp
  then have "b \<le> q * b ^ Suc k + r" unfolding power_Suc mult.left_commute [of q] by linarith
  then have "digits b u (q * b ^ Suc k + r)
      = digits b u ((q * b ^ Suc k + r) div b) @ [digit_char u ((q * b ^ Suc k + r) mod b)]"
    by (rule digits_more [OF assms(1)])
  moreover have "(q * b ^ Suc k + r) div b = q * b ^ k + r div b" "(q * b ^ Suc k + r) mod b = r mod b"
    using assms(1) by (simp_all add: mult.left_commute [of q])
  ultimately show ?case using Suc.IH [OF r] by simp
qed simp

lemma padded_0: "0 < b \<Longrightarrow> padded b u k 0 = replicate k CHR ''0''"
  by (induction k) (simp_all add: digit_char_0 replicate_append_same)

lemma padded_eq:
  assumes "2 \<le> b"
  shows "0 < k \<Longrightarrow> r < b ^ k \<Longrightarrow>
    padded b u k r = replicate (k - length (digits b u r)) CHR ''0'' @ digits b u r
    \<and> length (digits b u r) \<le> k"
proof (induction k arbitrary: r)
  case (Suc k)
  show ?case
  proof (cases "r < b")
    case True
    then show ?thesis using assms by (simp add: padded_0 digits_one)
  next
    case False
    then have k: "0 < k" using Suc.prems(2) by (cases k) auto
    have r: "r div b < b ^ k" using Suc.prems assms by (simp add: div_less_iff_less_mult mult.commute)
    have "digits b u r = digits b u (r div b) @ [digit_char u (r mod b)]"
      using False assms by (intro digits_more) simp_all
    then show ?thesis using Suc.IH [OF k r] by simp
  qed
qed simp

lemma chunk_of_cases:
  obtains c k where "chunk_of f = (c, k)" "unat (u128 c) = out_base f ^ k" "0 < k" "2 \<le> out_base f"
    "2 ^ 128 \<le> out_base f ^ k * out_base f ^ k * 2 ^ 64" "out_base f ^ k < 2 ^ 64"
proof -
  show thesis
    by (rule that [of "fst (chunk_of f)" "snd (chunk_of f)"])
      (simp_all add: chunk_of_def out_base_def unat_u128 uint128_of_signed_def uint128_of_unsigned_def)
qed

lemma uint128_nonzero: "0 < unat (u128 c) \<Longrightarrow> c \<noteq> 0"
  by (auto simp: u128_ring)

lemma u128_low: "unat (u128 x) < 2 ^ 64 \<Longrightarrow> unat (Uint128Low64 x) = unat (u128 x)"
  by (cases "unat (Uint128High64 x)") (simp_all add: unat_u128)

lemma put_uint_pad:
  assumes "2 \<le> out_base f" "0 < k" "n < out_base f ^ k"
  shows "put_uint (f\<lparr>fl_showbase := False\<rparr>) CHR ''0'' k n = padded (out_base f) (fl_uppercase f) k n"
proof -
  have b: "out_base (f\<lparr>fl_showbase := False\<rparr>) = out_base f"
    by (simp add: out_base_def is_hex_def is_oct_def)
  then show ?thesis
    using padded_eq [OF assms, of "fl_uppercase f"] by (simp add: put_uint_def out_prefix_def b Let_def)
qed

lemma put_uint_0: "put_uint f c 0 n = out_prefix f n @ digits (out_base f) (fl_uppercase f) n"
  by (simp add: put_uint_def)

lemma out_prefix_pos: "0 < m \<Longrightarrow> 0 < n \<Longrightarrow> out_prefix f m = out_prefix f n"
  by (simp add: out_prefix_def)

lemma formatted_eq:
  "Uint128ToFormattedString v f = Some (put_uint f CHR '' '' 0 (unat (u128 v)))"
proof -
  obtain c k where c: "chunk_of f = (c, k)" and D: "unat (u128 c) = out_base f ^ k" and k: "0 < k"
    and b: "2 \<le> out_base f" and big: "2 ^ 128 \<le> out_base f ^ k * out_base f ^ k * 2 ^ 64"
    and D64: "out_base f ^ k < 2 ^ 64"
    by (rule chunk_of_cases)
  define B where "B = out_base f ^ k"
  have B: "0 < B" using b by (simp add: B_def)
  then have nz: "c \<noteq> 0" by (intro uint128_nonzero) (simp add: D B_def)
  obtain h1 low where 1: "DivModImpl v c = Some (h1, low)" "unat (u128 h1) = unat (u128 v) div B"
      "unat (u128 low) = unat (u128 v) mod B"
    using DivModImpl_correct [OF nz] D by (metis B_def)
  obtain high mid where 2: "DivModImpl h1 c = Some (high, mid)" "unat (u128 high) = unat (u128 h1) div B"
      "unat (u128 mid) = unat (u128 h1) mod B"
    using DivModImpl_correct [OF nz] D by (metis B_def)
  define h m l where "h = unat (u128 high)" and "m = unat (u128 mid)" and "l = unat (u128 low)"
  have m: "m < B" and l: "l < B" using B by (simp_all add: m_def l_def 1 2)
  have "unat (u128 v) < B * B * 2 ^ 64" using unat_u128_lt [of v] big by (simp add: B_def)
  then have h: "h < 2 ^ 64"
    unfolding h_def 1 2 by (simp add: div_mult2_eq [symmetric] div_less_iff_less_mult B mult.commute)
  have v: "unat (u128 v) = (h * B + m) * B + l" by (simp add: h_def m_def l_def 1 2)
  have lows: "unat (Uint128Low64 high) = h" "unat (Uint128Low64 mid) = m" "unat (Uint128Low64 low) = l"
    using h m l D64 by (simp_all add: u128_low h_def m_def l_def B_def)
  have run: "Uint128ToFormattedString v f = Some
     (if h \<noteq> 0 then put_uint f CHR '' '' 0 h @ padded (out_base f) (fl_uppercase f) k m
        @ padded (out_base f) (fl_uppercase f) k l
      else if m \<noteq> 0 then put_uint f CHR '' '' 0 m @ padded (out_base f) (fl_uppercase f) k l
      else put_uint f CHR '' '' 0 l)"
    using m l by (simp add: Uint128ToFormattedString_def c 1 2 lows put_uint_pad [OF b k] B_def)
  have split: "digits (out_base f) (fl_uppercase f) (q * B + r)
      = digits (out_base f) (fl_uppercase f) q @ padded (out_base f) (fl_uppercase f) k r"
    if "0 < q" "r < B" for q r
    using digits_split [OF b that(1), of r k] that(2) by (simp add: B_def)
  consider "h \<noteq> 0" | "h = 0" "m \<noteq> 0" | "h = 0" "m = 0" by blast
  then show ?thesis
  proof cases
    case 1
    then have q: "0 < h * B + m" using B by simp
    have "out_prefix f (unat (u128 v)) = out_prefix f h"
      using 1 q B unfolding v by (intro out_prefix_pos) simp_all
    then show ?thesis
      using 1 split [OF q l] split [of h m, OF _ m] by (simp add: run put_uint_0 v)
  next
    case 2
    have "out_prefix f (unat (u128 v)) = out_prefix f m"
      using 2 B unfolding v by (intro out_prefix_pos) simp_all
    then show ?thesis
      using 2 split [of m l, OF _ l] by (simp add: run put_uint_0 v)
  qed (simp add: run v)
qed

section \<open>Properties\<close>

lemma unat_u128_div: "uint128_div x y = (if y = 0 then None else Some (of_u128 (u128 x div u128 y)))"
proof (cases "y = 0")
  case True
  then show ?thesis by (simp add: uint128_div_def DivModImpl_zero)
next
  case False
  then obtain q where q: "uint128_div x y = Some q" "unat (u128 q) = unat (u128 x) div unat (u128 y)"
    using uint128_div_correct by blast
  then have "u128 q = u128 x div u128 y" by (simp add: word_unat_eq_iff unat_div_distrib)
  then show ?thesis using False q(1) by (auto intro: eq_of_u128I)
qed

lemma unat_u128_mod: "uint128_mod x y = (if y = 0 then None else Some (of_u128 (u128 x mod u128 y)))"
proof (cases "y = 0")
  case True
  then show ?thesis by (simp add: uint128_mod_def DivModImpl_zero)
next
  case False
  then obtain q where q: "uint128_mod x y = Some q" "unat (u128 q) = unat (u128 x) mod unat (u128 y)"
    using uint128_mod_correct by blast
  then have "u128 q = u128 x mod u128 y" by (simp add: word_unat_eq_iff unat_mod_distrib)
  then show ?thesis using False q(1) by (auto intro: eq_of_u128I)
qed

lemma int128_div_None:
  "i128 w = 0 \<Longrightarrow> int128_div v w = None" "i128 w = 0 \<Longrightarrow> int128_mod v w = None"
  using i128_0_iff [of w] by (simp_all add: int128_div_def int128_mod_def DivModImpl_zero)

lemma int128_div_overflow:
  "i128 v = - (2 ^ 127) \<Longrightarrow> i128 w = - 1 \<Longrightarrow> int128_div v w = None"
  "i128 v = - (2 ^ 127) \<Longrightarrow> i128 w = - 1 \<Longrightarrow> int128_mod v w = None"
  using int128_div_assert [of v w] by (simp_all add: int128_div_def int128_mod_def)

text \<open>
  The operators of \<open>uint128\<close> refine the 128-bit word: sum, difference, negation, product (by
  32-bit halves), complement, or, and, xor commute with the reading \<open>u128\<close>.
\<close>

theorem uint128_arithmetic:
  "u128 (uint128_add x y) = u128 x + u128 y \<and> u128 (uint128_sub x y) = u128 x - u128 y
    \<and> u128 (uint128_neg x) = - u128 x \<and> u128 (uint128_mul x y) = u128 x * u128 y
    \<and> u128 (uint128_not x) = NOT (u128 x) \<and> u128 (uint128_or x y) = u128 x OR u128 y
    \<and> u128 (uint128_and x y) = u128 x AND u128 y \<and> u128 (uint128_xor x y) = u128 x XOR u128 y"
  by (intro conjI u128_add u128_sub u128_neg u128_mul u128_logic)

text \<open>
  The shifts of \<open>uint128\<close> are those of the 128-bit word for the amounts 0 to 127, on each of
  their branches; any other amount makes them shift a 64-bit word out of range.
\<close>

theorem uint128_shifts:
  "uint128_shl x n = (if 0 \<le> n \<and> n < 128 then Some (of_u128 (push_bit (nat n) (u128 x))) else None)
    \<and> uint128_shr x n = (if 0 \<le> n \<and> n < 128 then Some (of_u128 (drop_bit (nat n) (u128 x))) else None)"
  using uint128_shl_eq [of n x] uint128_shr_eq [of n x] uint128_shift_undefined [of n x]
  by (auto simp: not_le not_less)

text \<open>The comparison operators of the two types are those of the numbers they stand for.\<close>

theorem int128_comparisons:
  "(uint128_eq x y \<longleftrightarrow> unat (u128 x) = unat (u128 y)) \<and> (uint128_lt x y \<longleftrightarrow> unat (u128 x) < unat (u128 y))
    \<and> (uint128_gt x y \<longleftrightarrow> unat (u128 x) > unat (u128 y)) \<and> (uint128_le x y \<longleftrightarrow> unat (u128 x) \<le> unat (u128 y))
    \<and> (uint128_ge x y \<longleftrightarrow> unat (u128 x) \<ge> unat (u128 y))
    \<and> (int128_eq v w \<longleftrightarrow> i128 v = i128 w) \<and> (int128_lt v w \<longleftrightarrow> i128 v < i128 w)
    \<and> (int128_gt v w \<longleftrightarrow> i128 v > i128 w) \<and> (int128_le v w \<longleftrightarrow> i128 v \<le> i128 w)
    \<and> (int128_ge v w \<longleftrightarrow> i128 v \<ge> i128 w)"
  by (simp add: uint128_eq_iff uint128_lt_iff uint128_gt_iff uint128_le_iff uint128_ge_iff
      int128_eq_iff int128_lt_iff int128_gt_iff int128_le_def int128_ge_def not_less
      flip: word_less_nat_alt word_le_nat_alt word_unat_eq_iff)

text \<open>
  C38. Division of \<open>uint128\<close>: \<open>DivModImpl\<close> (alignment by the position of the top bits, then the
  shift-subtract loop) yields quotient and remainder of the 128-bit words, and its assertion fails
  exactly for a zero divisor.
\<close>

theorem uint128_division:
  "uint128_div x y = (if y = MakeUint128 0 0 then None else Some (of_u128 (u128 x div u128 y)))
    \<and> uint128_mod x y = (if y = MakeUint128 0 0 then None else Some (of_u128 (u128 x mod u128 y)))"
  using unat_u128_div [of x y] unat_u128_mod [of x y]
  by (simp add: zero_uint128_def uint128_of_signed_def)

text \<open>
  C39. Sums, differences and negation of \<open>int128\<close> are exact whenever they are defined: when the
  result fits 128 bits and the high words by themselves do not overflow. Products are exact modulo
  \<open>2 ^ 128\<close>, in two's complement.
\<close>

theorem int128_arithmetic:
  "map_option i128 (int128_add v w) =
      (if i64_ok (sint (Int128High64 v) + sint (Int128High64 w)) \<and> i128_ok (i128 v + i128 w)
       then Some (i128 v + i128 w) else None)
    \<and> map_option i128 (int128_sub v w) =
      (if i64_ok (sint (Int128High64 v) - sint (Int128High64 w)) \<and> i128_ok (i128 v - i128 w)
       then Some (i128 v - i128 w) else None)
    \<and> map_option i128 (int128_neg v) = (if i128_ok (- i128 v) then Some (- i128 v) else None)
    \<and> i128 (int128_mul v w) = sint (word_of_int (i128 v * i128 w) :: 128 word)"
proof (intro conjI)
  show "i128 (int128_mul v w) = sint (word_of_int (i128 v * i128 w) :: 128 word)"
    by (simp add: int128_mul_eq i128_of_uint128 u128_ring u128_of_int128)
qed (auto simp: int128_add_eq int128_sub_eq int128_neg_eq high_sum_ok_def high_diff_ok_def
    u128_ring u128_of_int128 intro!: i128_back)

text \<open>
  Division of \<open>int128\<close> truncates towards zero, and the remainder has the sign of the dividend,
  as for the built-in types; the assertions fail for a zero divisor and for \<open>Int128Min() / -1\<close>.
\<close>

theorem int128_division:
  "map_option i128 (int128_div v w) =
      (if i128 w = 0 \<or> i128 v = - (2 ^ 127) \<and> i128 w = - 1 then None else Some (i128 v sdiv i128 w))
    \<and> map_option i128 (int128_mod v w) =
      (if i128 w = 0 \<or> i128 v = - (2 ^ 127) \<and> i128 w = - 1 then None else Some (i128 v smod i128 w))"
  using int128_div_correct [of w v] int128_mod_correct [of w v] int128_div_None [of w v]
    int128_div_overflow [of v w]
  by auto

text \<open>
  C40. Shifts of \<open>int128\<close>: to the left, the product with a power of two modulo \<open>2 ^ 128\<close>; to the
  right, the quotient rounded down for amounts up to 63, and from 64 on for values that are not
  negative, while a negative value then gets a zero high word and is \<open>2 ^ 64\<close> too large.
\<close>

theorem int128_shifts:
  "map_option i128 (int128_shl v n) =
      (if 0 \<le> n \<and> n < 128 then Some (sint (word_of_int (i128 v * 2 ^ nat n) :: 128 word)) else None)
    \<and> map_option i128 (int128_shr v n) =
      (if 0 \<le> n \<and> n < 128
       then Some (i128 v div 2 ^ nat n + (if 64 \<le> n \<and> i128 v < 0 then 2 ^ 64 else 0)) else None)"
proof
  show "map_option i128 (int128_shl v n) =
      (if 0 \<le> n \<and> n < 128 then Some (sint (word_of_int (i128 v * 2 ^ nat n) :: 128 word)) else None)"
    using uint128_shift_undefined(1) [of n]
    by (auto simp: int128_shl_eq uint128_shl_eq i128_of_uint128 push_bit_eq_mult u128_of_int128 not_le not_less)
  consider "n < 0 \<or> 128 \<le> n" | "0 \<le> n" "n < 64" | "64 \<le> n" "n < 128" by linarith
  then show "map_option i128 (int128_shr v n) =
      (if 0 \<le> n \<and> n < 128
       then Some (i128 v div 2 ^ nat n + (if 64 \<le> n \<and> i128 v < 0 then 2 ^ 64 else 0)) else None)"
  proof cases
    case 1
    then show ?thesis by (auto simp: int128_shr_def sar64_def)
  next
    case 2
    then show ?thesis using int128_shr_small [of n v] by auto
  next
    case 3
    then show ?thesis using int128_shr_large [of n v] by auto
  qed
qed

text \<open>
  The sum of the high words alone can overflow although the 128-bit sum, with its carry, fits: the
  addition then is undefined behaviour on a valid input.
\<close>

theorem int128_add_spurious:
  "int128_add (MakeInt128 0x8000000000000000 (- 1)) (MakeInt128 (- 1) (- 1)) = None
    \<and> i128_ok (i128 (MakeInt128 0x8000000000000000 (- 1)) + i128 (MakeInt128 (- 1) (- 1)))"
  by (simp add: int128_add_def ck_def i64_ok_iff i128_ok_def i128_def unsigned_minus_1_eq_mask
      mask_eq_exp_minus_1)

text \<open>
  Printing with no width: the three chunks of \<open>Uint128ToFormattedString\<close> put together are the
  digits of the value in the selected base after its base prefix; an \<open>int128\<close> prints in decimal
  as the sign and its absolute value, and otherwise as the unsigned value of the same bits.
\<close>

theorem int128_output:
  "uint128_out f 0 c x = Some (out_prefix f (unat (u128 x)) @ digits (out_base f) (fl_uppercase f) (unat (u128 x)))
    \<and> int128_out f 0 c v = Some
       (if \<not> fl_hex f \<and> \<not> fl_oct f
        then (if i128 v < 0 then ''-'' else if fl_showpos f then ''+'' else '''') @
             digits 10 (fl_uppercase f) (nat \<bar>i128 v\<bar>)
        else out_prefix f (nat (i128 v mod 2 ^ 128)) @
             digits (out_base f) (fl_uppercase f) (nat (i128 v mod 2 ^ 128)))"
proof -
  have "unat (u128 (uint128_of_int128 v)) = nat (i128 v mod 2 ^ 128)"
    by (simp add: u128_of_int128 unat_eq_nat_uint unsigned_of_int take_bit_eq_mod)
  then show ?thesis
    by (auto simp: uint128_out_def int128_out_def formatted_eq put_uint_0 Let_def i128_neg_iff unat_abs
        out_prefix_def out_base_def is_hex_def is_oct_def)
qed

end
