(* ===== verification/Ring_Queue.thy ===== *)
theory Ring_Queue
  imports Prelude
begin

text \<open>
  \<open>abel/log/details/circular_q.h\<close>, the ring in which the asynchronous logger keeps its messages:
  a vector of one cell more than the capacity, with a head and a tail index. The interface its
  clients rely on is the locale \<open>bounded_fifo\<close>: a first-in first-out queue of bounded length that
  drops its oldest element when it is pushed beyond the bound.
\<close>

section \<open>The interface\<close>

text \<open>\<open>keep_last n xs\<close> is what a queue of capacity \<open>n\<close> keeps of \<open>xs\<close>.\<close>

definition keep_last :: "nat \<Rightarrow> 'a list \<Rightarrow> 'a list" where
  "keep_last n xs = drop (length xs - n) xs"

lemma keep_last_short [simp]: "length xs \<le> n \<Longrightarrow> keep_last n xs = xs"
  by (simp add: keep_last_def)

lemma length_keep_last [simp]: "length (keep_last n xs) = min n (length xs)"
  by (simp add: keep_last_def)

lemma keep_last_snoc: "keep_last n (keep_last n xs @ [x]) = keep_last n (xs @ [x])"
proof (cases "length xs < n")
  case False
  then show ?thesis by (cases n) (simp_all add: keep_last_def Suc_diff_le flip: Suc_diff_le)
qed simp

datatype 'a queue_op = Push 'a | Pop

text \<open>The specification: a run of operations on a list, with the popped elements in order.\<close>

fun spec_run :: "nat \<Rightarrow> 'a queue_op list \<Rightarrow> 'a list \<Rightarrow> ('a list \<times> 'a list) option" where
  "spec_run n [] xs = Some ([], xs)"
| "spec_run n (Push x # ops) xs = spec_run n ops (keep_last n (xs @ [x]))"
| "spec_run n (Pop # ops) xs =
     (case xs of [] \<Rightarrow> None
      | y # ys \<Rightarrow> map_option (\<lambda>(out, zs). (y # out, zs)) (spec_run n ops ys))"

locale bounded_fifo =
  fixes inv :: "'q \<Rightarrow> bool"
    and items :: "'q \<Rightarrow> 'a list"
    and cap :: "'q \<Rightarrow> nat"
    and push :: "'q \<Rightarrow> 'a \<Rightarrow> 'q option"
    and pop :: "'q \<Rightarrow> ('a \<times> 'q) option"
    and is_empty :: "'q \<Rightarrow> bool"
    and is_full :: "'q \<Rightarrow> bool"
  assumes push_law: "inv q \<Longrightarrow>
      \<exists>q'. push q x = Some q' \<and> inv q' \<and> cap q' = cap q \<and> items q' = keep_last (cap q) (items q @ [x])"
    and pop_law: "inv q \<Longrightarrow> items q = y # ys \<Longrightarrow>
      \<exists>q'. pop q = Some (y, q') \<and> inv q' \<and> cap q' = cap q \<and> items q' = ys"
    and empty_law: "inv q \<Longrightarrow> is_empty q \<longleftrightarrow> items q = []"
    and full_law: "inv q \<Longrightarrow> is_full q \<longleftrightarrow> length (items q) = cap q"
    and bound_law: "inv q \<Longrightarrow> length (items q) \<le> cap q"
begin

text \<open>A push into a queue with room keeps everything.\<close>

lemma push_room:
  assumes "inv q" "\<not> is_full q"
  shows "\<exists>q'. push q x = Some q' \<and> inv q' \<and> cap q' = cap q \<and> items q' = items q @ [x]"
proof -
  have "length (items q) < cap q" using assms full_law bound_law [of q] by (simp add: le_less)
  then show ?thesis using push_law [OF assms(1), of x] by simp
qed

text \<open>A push into a full queue of a positive capacity drops exactly the oldest element.\<close>

lemma push_full:
  assumes "inv q" "is_full q" "items q = y # ys"
  shows "\<exists>q'. push q x = Some q' \<and> inv q' \<and> cap q' = cap q \<and> items q' = ys @ [x]"
proof -
  have "cap q = Suc (length ys)" using assms full_law by fastforce
  then show ?thesis using push_law [OF assms(1), of x] by (simp add: assms(3) keep_last_def)
qed

fun run :: "'a queue_op list \<Rightarrow> 'q \<Rightarrow> ('a list \<times> 'q) option" where
  "run [] q = Some ([], q)"
| "run (Push x # ops) q = do { q \<leftarrow> push q x; run ops q }"
| "run (Pop # ops) q = do { (y, q) \<leftarrow> pop q; (out, q) \<leftarrow> run ops q; Some (y # out, q) }"

text \<open>Every run that pops no empty queue refines the run on lists.\<close>

lemma run_refines:
  "inv q \<Longrightarrow> spec_run (cap q) ops (items q) = Some (out, zs) \<Longrightarrow>
     \<exists>q'. run ops q = Some (out, q') \<and> inv q' \<and> items q' = zs"
proof (induction ops arbitrary: q out)
  case (Cons oper ops)
  show ?case
  proof (cases oper)
    case (Push x)
    then show ?thesis using push_law [OF Cons.prems(1), of x] Cons by auto
  next
    case Pop
    then obtain y ys out' where s: "items q = y # ys" "spec_run (cap q) ops ys = Some (out', zs)" "out = y # out'"
      using Cons.prems(2) by (auto split: list.splits)
    then show ?thesis using pop_law [OF Cons.prems(1) s(1)] Cons.IH Pop by fastforce
  qed
qed auto

end

section \<open>circular\_q\<close>

text \<open>
  The members. An access to \<open>v_\<close> out of range and a remainder by zero are undefined (\<open>None\<close>). A
  cell that was moved from keeps its value here; the code does not read it again.
\<close>

record 'a circular_q =
  q_max_items :: nat
  q_head :: nat
  q_tail :: nat
  q_v :: "'a list"

text \<open>The constructor; \<open>d\<close> is the value of a default-constructed item. \<open>max_items + 1\<close> is a \<open>size_t\<close>.\<close>

definition new_circular_q :: "'a \<Rightarrow> nat \<Rightarrow> 'a circular_q" where
  "new_circular_q d max_items =
     (let n = (max_items + 1) mod 2 ^ 64
      in \<lparr>q_max_items = n, q_head = 0, q_tail = 0, q_v = replicate n d\<rparr>)"

definition push_back :: "'a circular_q \<Rightarrow> 'a \<Rightarrow> 'a circular_q option" where
  "push_back q item =
     (if q_tail q < length (q_v q) \<and> q_max_items q \<noteq> 0 then
        (let q = q\<lparr>q_v := (q_v q)[q_tail q := item]\<rparr>;
             q = q\<lparr>q_tail := (q_tail q + 1) mod q_max_items q\<rparr>
         in Some (if q_tail q = q_head q then q\<lparr>q_head := (q_head q + 1) mod q_max_items q\<rparr> else q))
      else None)"

definition pop_front :: "'a circular_q \<Rightarrow> ('a \<times> 'a circular_q) option" where
  "pop_front q =
     (if q_head q < length (q_v q) \<and> q_max_items q \<noteq> 0 then
        Some (q_v q ! q_head q, q\<lparr>q_head := (q_head q + 1) mod q_max_items q\<rparr>)
      else None)"

definition q_empty :: "'a circular_q \<Rightarrow> bool" where
  "q_empty q \<longleftrightarrow> q_tail q = q_head q"

definition q_full :: "'a circular_q \<Rightarrow> bool" where
  "q_full q \<longleftrightarrow> (q_tail q + 1) mod q_max_items q = q_head q"

text \<open>The representation invariant, the number of elements, and the elements in order.\<close>

definition q_inv :: "'a circular_q \<Rightarrow> bool" where
  "q_inv q \<longleftrightarrow> length (q_v q) = q_max_items q \<and> q_head q < q_max_items q \<and> q_tail q < q_max_items q"

definition q_count :: "'a circular_q \<Rightarrow> nat" where
  "q_count q = (if q_head q \<le> q_tail q then q_tail q - q_head q else q_tail q + q_max_items q - q_head q)"

definition q_items :: "'a circular_q \<Rightarrow> 'a list" where
  "q_items q = map (\<lambda>i. q_v q ! ((q_head q + i) mod q_max_items q)) [0..<q_count q]"

definition q_cap :: "'a circular_q \<Rightarrow> nat" where
  "q_cap q = q_max_items q - 1"

lemma length_q_items [simp]: "length (q_items q) = q_count q"
  by (simp add: q_items_def)

lemma q_count_less: "q_inv q \<Longrightarrow> q_count q < q_max_items q"
  by (auto simp: q_inv_def q_count_def)

lemma wrap: "h < m \<Longrightarrow> i < m \<Longrightarrow> (h + i) mod m = (if h + i < m then h + i else h + i - m)" for h i m :: nat
  by (simp add: le_mod_geq)

lemma q_end: "q_inv q \<Longrightarrow> (q_head q + q_count q) mod q_max_items q = q_tail q"
  by (auto simp: q_inv_def q_count_def)

lemma q_index_neq_end:
  assumes "q_inv q" "i < q_count q" shows "(q_head q + i) mod q_max_items q \<noteq> q_tail q"
  using assms q_count_less [OF assms(1)] wrap [of "q_head q" "q_max_items q" i]
  by (auto simp: q_inv_def q_count_def split: if_splits)

lemma q_items_push:
  assumes "q_inv q"
  shows "map (\<lambda>i. (q_v q)[q_tail q := x] ! ((q_head q + i) mod q_max_items q)) [0..<Suc (q_count q)] = q_items q @ [x]"
proof -
  have "(q_v q)[q_tail q := x] ! ((q_head q + i) mod q_max_items q) = q_v q ! ((q_head q + i) mod q_max_items q)"
    if "i < q_count q" for i
    using q_index_neq_end [OF assms that] by simp
  moreover have "q_tail q < length (q_v q)" using assms by (simp add: q_inv_def)
  ultimately show ?thesis using assms by (simp add: q_items_def q_end)
qed

lemma push_back_law:
  assumes "q_inv q"
  shows "\<exists>q'. push_back q x = Some q' \<and> q_inv q' \<and> q_cap q' = q_cap q
    \<and> q_items q' = keep_last (q_cap q) (q_items q @ [x])"
proof -
  define m h t c where "m = q_max_items q" and "h = q_head q" and "t = q_tail q" and "c = q_count q"
  have iv: "length (q_v q) = m" "h < m" "t < m" using assms by (simp_all add: q_inv_def m_def h_def t_def)
  have c: "c = (if h \<le> t then t - h else t + m - h)" by (simp add: c_def q_count_def h_def t_def m_def)
  define t' where "t' = (t + 1) mod m"
  define w where "w = (q_v q)[t := x]"
  have w: "map (\<lambda>i. w ! ((h + i) mod m)) [0..<Suc c] = q_items q @ [x]"
    using q_items_push [OF assms, of x] by (simp only: w_def h_def m_def c_def t_def)
  have t': "t' = (if t + 1 = m then 0 else t + 1)" using iv by (auto simp: t'_def)
  show ?thesis
  proof (cases "t' = h")
    case False
    define q' where "q' = q\<lparr>q_v := w, q_tail := t'\<rparr>"
    have "push_back q x = Some q'"
      using iv False by (simp add: push_back_def Let_def q'_def w_def t'_def m_def h_def t_def)
    moreover have "q_inv q'" using iv t' by (auto simp: q_inv_def q'_def w_def m_def h_def)
    moreover have n: "q_count q' = Suc c"
      using iv False t' c by (auto simp: q_count_def q'_def m_def h_def split: if_splits)
    then have "q_items q' = q_items q @ [x]"
      using w by (simp add: q_items_def q'_def h_def m_def)
    moreover have "Suc c \<le> q_cap q" using q_count_less [OF \<open>q_inv q'\<close>] n by (simp add: q_cap_def q'_def)
    ultimately show ?thesis by (simp add: q_cap_def q'_def c_def)
  next
    case True
    define q' where "q' = q\<lparr>q_v := w, q_tail := t', q_head := (h + 1) mod m\<rparr>"
    have "push_back q x = Some q'"
      using iv True by (simp add: push_back_def Let_def q'_def w_def t'_def m_def h_def t_def)
    moreover have "q_inv q'" using iv t' by (auto simp: q_inv_def q'_def w_def m_def)
    moreover have full: "c = m - 1" using iv True t' c by (auto split: if_splits)
    moreover have n: "q_count q' = c"
      using iv True t' full by (auto simp: q_count_def q'_def m_def mod_if)
    have "q_items q' = map (\<lambda>i. w ! ((h + Suc i) mod m)) [0..<c]"
      by (simp add: q_items_def n) (simp add: q'_def m_def h_def mod_simps)
    then have "q_items q' = drop 1 (map (\<lambda>i. w ! ((h + i) mod m)) [0..<Suc c])"
      by (simp only: drop_map drop_upt) (simp only: map_Suc_upt [symmetric] map_map o_def One_nat_def plus_nat.add_0)
    then have "q_items q' = drop 1 (q_items q @ [x])" by (simp only: w)
    ultimately show ?thesis by (simp add: q_cap_def q'_def c_def keep_last_def m_def)
  qed
qed

lemma pop_front_law:
  assumes "q_inv q" "q_items q = y # ys"
  shows "\<exists>q'. pop_front q = Some (y, q') \<and> q_inv q' \<and> q_cap q' = q_cap q \<and> q_items q' = ys"
proof -
  define m h where "m = q_max_items q" and "h = q_head q"
  have c: "q_count q = Suc (length ys)" using arg_cong [OF assms(2), of length] by simp
  have split: "q_items q = q_v q ! (h mod m) # map (\<lambda>i. q_v q ! ((h + Suc i) mod m)) [0..<length ys]"
    unfolding q_items_def c by (simp add: upt_conv_Cons h_def m_def flip: map_Suc_upt del: upt_Suc)
  define q' where "q' = q\<lparr>q_head := (h + 1) mod m\<rparr>"
  have h: "h < m" using assms(1) by (simp add: q_inv_def h_def m_def)
  have "pop_front q = Some (y, q')"
    using assms h split by (simp add: pop_front_def q_inv_def q'_def h_def m_def)
  moreover have "q_inv q'" using assms(1) by (auto simp: q_inv_def q'_def m_def)
  moreover have "q_count q' = length ys"
    using c assms(1) by (auto simp: q_count_def q'_def m_def h_def q_inv_def mod_if split: if_splits)
  then have "q_items q' = map (\<lambda>i. q_v q ! ((h + Suc i) mod m)) [0..<length ys]"
    by (simp add: q_items_def) (simp add: q'_def m_def h_def mod_simps)
  then have "q_items q' = ys" using split assms(2) by simp
  ultimately show ?thesis by (simp add: q_cap_def q'_def)
qed

lemma q_full_iff: "q_inv q \<Longrightarrow> q_full q \<longleftrightarrow> q_count q = q_cap q"
  by (auto simp: q_full_def q_inv_def q_count_def q_cap_def mod_if split: if_splits)

interpretation ring: bounded_fifo q_inv q_items q_cap push_back pop_front q_empty q_full
proof
  show "q_inv q \<Longrightarrow> q_empty q \<longleftrightarrow> q_items q = []" for q :: "'a circular_q"
    by (auto simp: q_empty_def q_items_def q_count_def q_inv_def)
  show "q_inv q \<Longrightarrow> length (q_items q) \<le> q_cap q" for q :: "'a circular_q"
    using q_count_less [of q] by (simp add: q_cap_def)
qed (simp_all add: push_back_law pop_front_law q_full_iff)

lemma new_circular_q:
  assumes "n < 2 ^ 64 - 1"
  shows "q_inv (new_circular_q d n)" "q_cap (new_circular_q d n) = n" "q_items (new_circular_q d n) = []"
  using assms by (simp_all add: new_circular_q_def q_inv_def q_cap_def q_items_def q_count_def Let_def)

text \<open>
  Any run of pushes and pops on a new \<open>circular_q\<close>, that pops no empty queue, returns what the
  bounded list returns: elements come out in the order of their pushes, and a push beyond the
  capacity drops the oldest element only.
\<close>

theorem circular_q_fifo:
  assumes "max_items < 2 ^ 64 - 1" "spec_run max_items ops [] = Some (out, zs)"
  shows "\<exists>q. bounded_fifo.run push_back pop_front ops (new_circular_q d max_items) = Some (out, q)
    \<and> q_inv q \<and> q_items q = zs"
  using ring.run_refines [of "new_circular_q d max_items" ops out zs] new_circular_q [OF assms(1), of d] assms(2)
  by simp

theorem circular_q_fifo_witness:
  "\<exists>q. bounded_fifo.run push_back pop_front [Push 1, Push 2, Push (3::nat), Pop] (new_circular_q 0 2) = Some ([2], q)
    \<and> q_inv q \<and> q_items q = [3]"
  using circular_q_fifo [of 2 "[Push 1, Push 2, Push (3::nat), Pop]" "[2]" "[3]" 0] by (simp add: keep_last_def)

end
