(* ===== verification/Logger.thy ===== *)
theory Logger
  imports Prelude
begin

text \<open>
  \<open>abel/log/common.h\<close>, \<open>sinks/sink.h\<close>, \<open>details/logger_impl.h\<close> and \<open>details/async_logger_impl.h\<close>:
  the levels, the filtering of messages by logger and sink, and the delivery of a message to the
  sinks, synchronously and by the backend of the asynchronous logger. A sink's \<open>log\<close> and \<open>flush\<close>
  are virtual; which calls throw is a parameter of the model.
\<close>

section \<open>Levels\<close>

datatype level_enum = Trace | Debug | Info | Warn | Err | Critical | Off

fun level_int :: "level_enum \<Rightarrow> int" where
  "level_int Trace = 0"
| "level_int Debug = 1"
| "level_int Info = 2"
| "level_int Warn = 3"
| "level_int Err = 4"
| "level_int Critical = 5"
| "level_int Off = 6"

definition level_names :: "string list" where
  "level_names = [''trace'', ''debug'', ''info'', ''warning'', ''error'', ''critical'', ''off'']"

definition short_level_names :: "string list" where
  "short_level_names = [''T'', ''D'', ''I'', ''W'', ''E'', ''C'', ''O'']"

definition level_to_c_str :: "level_enum \<Rightarrow> string" where
  "level_to_c_str l = level_names ! nat (level_int l)"

definition level_to_short_c_str :: "level_enum \<Rightarrow> string" where
  "level_to_short_c_str l = short_level_names ! nat (level_int l)"

definition name_to_level :: "(string \<times> level_enum) list" where
  "name_to_level =
     [(level_names ! 0, Trace), (level_names ! 1, Debug), (level_names ! 2, Info), (level_names ! 3, Warn),
      (level_names ! 4, Err), (level_names ! 5, Critical), (level_names ! 6, Off)]"

definition level_from_str :: "string \<Rightarrow> level_enum" where
  "level_from_str name = (case map_of name_to_level name of Some l \<Rightarrow> l | None \<Rightarrow> Off)"

instantiation level_enum :: linorder
begin

definition less_eq_level_enum :: "level_enum \<Rightarrow> level_enum \<Rightarrow> bool" where
  "k \<le> l \<longleftrightarrow> level_int k \<le> level_int l"

definition less_level_enum :: "level_enum \<Rightarrow> level_enum \<Rightarrow> bool" where
  "k < l \<longleftrightarrow> level_int k < level_int l"

instance
proof
  have inj: "level_int k = level_int l \<Longrightarrow> k = l" for k l
    by (cases k; cases l) simp_all
  show "k \<le> l \<Longrightarrow> l \<le> k \<Longrightarrow> k = l" for k l :: level_enum
    by (simp add: less_eq_level_enum_def inj)
qed (auto simp: less_eq_level_enum_def less_level_enum_def)

end

section \<open>Messages, sinks and loggers\<close>

text \<open>
  The loggers' members that the code below reads. A level is an atomic cell; a thread that runs one
  of these operations reads each cell once.
\<close>

record log_msg =
  lm_logger_name :: "string option"
  lm_level :: level_enum
  lm_time :: int
  lm_thread_id :: nat
  lm_raw :: string
  lm_msg_id :: nat
  lm_color_range_start :: nat
  lm_color_range_end :: nat

record sink =
  sink_id :: nat
  sink_level :: level_enum

record logger =
  lg_name :: string
  lg_sinks :: "sink list"
  lg_level :: level_enum
  lg_flush_level :: level_enum

definition new_logger :: "string \<Rightarrow> sink list \<Rightarrow> logger" where
  "new_logger logger_name sinks =
     \<lparr>lg_name = logger_name, lg_sinks = sinks, lg_level = Info, lg_flush_level = Off\<rparr>"

definition set_level :: "logger \<Rightarrow> level_enum \<Rightarrow> logger" where
  "set_level lg log_level = lg\<lparr>lg_level := log_level\<rparr>"

definition flush_on :: "logger \<Rightarrow> level_enum \<Rightarrow> logger" where
  "flush_on lg log_level = lg\<lparr>lg_flush_level := log_level\<rparr>"

definition new_log_msg :: "string \<Rightarrow> level_enum \<Rightarrow> int \<Rightarrow> nat \<Rightarrow> string \<Rightarrow> log_msg" where
  "new_log_msg loggers_name lvl now tid text =
     \<lparr>lm_logger_name = Some loggers_name, lm_level = lvl, lm_time = now, lm_thread_id = tid, lm_raw = text,
      lm_msg_id = 0, lm_color_range_start = 0, lm_color_range_end = 0\<rparr>"

definition sink_should_log :: "sink \<Rightarrow> level_enum \<Rightarrow> bool" where
  "sink_should_log s lvl \<longleftrightarrow> lvl \<ge> sink_level s"

definition should_log :: "logger \<Rightarrow> level_enum \<Rightarrow> bool" where
  "should_log lg lvl \<longleftrightarrow> lvl \<ge> lg_level lg"

definition should_flush :: "logger \<Rightarrow> log_msg \<Rightarrow> bool" where
  "should_flush lg msg \<longleftrightarrow> lm_level msg \<ge> lg_flush_level lg \<and> lm_level msg \<noteq> Off"

section \<open>Delivery\<close>

text \<open>
  What a delivery does: the calls of the sinks and of the error handler in order, and the
  exception it ends with. \<open>throws\<close> tells which sink calls throw, and their message.
\<close>

datatype sink_event = Sink_log sink log_msg | Sink_flush sink | Err_handler string

type_synonym effects = "sink_event list \<times> string option"

type_synonym thrower = "sink_event \<Rightarrow> string option"

fun each :: "thrower \<Rightarrow> sink_event list \<Rightarrow> effects" where
  "each throws [] = ([], None)"
| "each throws (e # es) =
     (case throws e of Some ex \<Rightarrow> ([e], Some ex)
      | None \<Rightarrow> let (es, x) = each throws es in (e # es, x))"

text \<open>\<open>ABEL_LOG_CATCH_AND_HANDLE\<close>.\<close>

fun catch_and_handle :: "effects \<Rightarrow> sink_event list" where
  "catch_and_handle (es, None) = es"
| "catch_and_handle (es, Some ex) = es @ [Err_handler ex]"

definition sinks_log :: "thrower \<Rightarrow> logger \<Rightarrow> log_msg \<Rightarrow> effects" where
  "sinks_log throws lg msg =
     each throws (map (\<lambda>s. Sink_log s msg) (filter (\<lambda>s. sink_should_log s (lm_level msg)) (lg_sinks lg)))"

definition logger_flush_raw :: "thrower \<Rightarrow> logger \<Rightarrow> effects" where
  "logger_flush_raw throws lg = each throws (map Sink_flush (lg_sinks lg))"

definition logger_flush :: "thrower \<Rightarrow> logger \<Rightarrow> sink_event list" where
  "logger_flush throws lg = catch_and_handle (logger_flush_raw throws lg)"

text \<open>The synchronous logger: \<open>sink_it_\<close> and \<open>log\<close>.\<close>

definition sink_it :: "thrower \<Rightarrow> logger \<Rightarrow> log_msg \<Rightarrow> effects" where
  "sink_it throws lg msg =
     (case sinks_log throws lg msg of
        (es, Some ex) \<Rightarrow> (es, Some ex)
      | (es, None) \<Rightarrow> (es @ (if should_flush lg msg then logger_flush throws lg else []), None))"

definition logger_log :: "thrower \<Rightarrow> logger \<Rightarrow> level_enum \<Rightarrow> int \<Rightarrow> nat \<Rightarrow> string \<Rightarrow> sink_event list" where
  "logger_log throws lg lvl now tid text =
     (if \<not> should_log lg lvl then []
      else catch_and_handle (sink_it throws lg (new_log_msg (lg_name lg) lvl now tid text)))"

text \<open>The asynchronous logger's backend, run by a thread of the pool.\<close>

definition backend_flush :: "thrower \<Rightarrow> logger \<Rightarrow> sink_event list" where
  "backend_flush throws lg = catch_and_handle (each throws (map Sink_flush (lg_sinks lg)))"

definition backend_log :: "thrower \<Rightarrow> logger \<Rightarrow> log_msg \<Rightarrow> sink_event list" where
  "backend_log throws lg msg =
     catch_and_handle (sinks_log throws lg msg) @ (if should_flush lg msg then backend_flush throws lg else [])"

lemma each_total: "each (\<lambda>_. None) es = (es, None)"
  by (induction es) auto

text \<open>The names of the levels are read back as the levels, and any other name as \<open>Off\<close>.\<close>

theorem level_names_roundtrip:
  "level_from_str (level_to_c_str l) = l
    \<and> level_to_c_str (level_from_str name) = (if name \<in> set level_names then name else ''off'')"
proof
  show "level_from_str (level_to_c_str l) = l"
    by (cases l) (simp_all add: level_from_str_def level_to_c_str_def name_to_level_def level_names_def)
  show "level_to_c_str (level_from_str name) = (if name \<in> set level_names then name else ''off'')"
    by (auto simp: level_from_str_def name_to_level_def level_names_def level_to_c_str_def)
qed

text \<open>
  A call of \<open>log\<close> reaches exactly the sinks whose level, and the logger's, are at most the
  message's, in their order, up to the first one that throws; it is followed by a flush of every
  sink when the flush level is reached and no sink threw, and by the error handler when one threw.
\<close>

theorem logger_delivery:
  "logger_log throws lg lvl now tid text =
     (let msg = new_log_msg (lg_name lg) lvl now tid text;
          calls = map (\<lambda>s. Sink_log s msg) [s \<leftarrow> lg_sinks lg. sink_level s \<le> lvl];
          ok = takeWhile (\<lambda>e. throws e = None) calls
      in if lvl < lg_level lg then []
         else if ok = calls then
           calls @ (if lg_flush_level lg \<le> lvl \<and> lvl \<noteq> Off then logger_flush throws lg else [])
         else ok @ [calls ! length ok, Err_handler (the (throws (calls ! length ok)))])"
proof -
  have each: "each throws es =
      (if takeWhile (\<lambda>e. throws e = None) es = es then (es, None)
       else (takeWhile (\<lambda>e. throws e = None) es @ [es ! length (takeWhile (\<lambda>e. throws e = None) es)],
             throws (es ! length (takeWhile (\<lambda>e. throws e = None) es))))
      \<and> (takeWhile (\<lambda>e. throws e = None) es \<noteq> es \<longrightarrow> throws (es ! length (takeWhile (\<lambda>e. throws e = None) es)) \<noteq> None)"
    for es
    by (induction es) (auto split: option.splits)
  define msg where "msg = new_log_msg (lg_name lg) lvl now tid text"
  define calls where "calls = map (\<lambda>s. Sink_log s msg) [s \<leftarrow> lg_sinks lg. sink_level s \<le> lvl]"
  define ok where "ok = takeWhile (\<lambda>e. throws e = None) calls"
  have m: "lm_level msg = lvl" by (simp add: msg_def new_log_msg_def)
  then have d: "sinks_log throws lg msg = each throws calls"
    by (simp add: sinks_log_def sink_should_log_def calls_def)
  show ?thesis
    unfolding Let_def msg_def [symmetric] calls_def [symmetric] ok_def [symmetric]
    using each [of calls, folded ok_def] d m
    by (auto simp: logger_log_def sink_it_def should_log_def should_flush_def not_le simp flip: msg_def
        split: option.splits)
qed

end
