(* ===== verification/Async_Pool.thy ===== *)
theory Async_Pool
  imports Ring_Queue Logger "HOL-Library.Multiset"
begin

text \<open>
  \<open>abel/log/details/mpmc_blocking_q.h\<close> and \<open>thread_pool.h\<close>: the blocking queue and the worker
  threads of the asynchronous logger, as a step relation. A critical section (the code between the
  lock and the unlock of \<open>queue_mutex_\<close>, or up to a \<open>wait\<close>, which releases the mutex) is one step; a
  thread asleep on a condition variable, the pending \<open>notify_one\<close> of a thread that has left its
  critical section, spurious wake-ups and time-outs are states and steps of their own.
\<close>

section \<open>Messages\<close>

datatype async_msg_type = Log | Flush | Terminate

datatype async_overflow_policy = Block | Overrun_oldest

text \<open>\<open>worker_ptr\<close> is the number of a logger; a null pointer is \<open>None\<close>.\<close>

record async_msg =
  am_type :: async_msg_type
  am_level :: level_enum
  am_time :: int
  am_thread_id :: nat
  am_raw :: string
  am_msg_id :: nat
  am_worker :: "nat option"

definition new_async_msg :: "nat option \<Rightarrow> async_msg_type \<Rightarrow> log_msg \<Rightarrow> async_msg" where
  "new_async_msg worker the_type m =
     \<lparr>am_type = the_type, am_level = lm_level m, am_time = lm_time m, am_thread_id = lm_thread_id m,
      am_raw = lm_raw m, am_msg_id = lm_msg_id m, am_worker = worker\<rparr>"

definition to_log_msg :: "(nat \<Rightarrow> logger) \<Rightarrow> async_msg \<Rightarrow> log_msg option" where
  "to_log_msg loggers am = do {
     w \<leftarrow> am_worker am;
     Some \<lparr>lm_logger_name = Some (lg_name (loggers w)), lm_level = am_level am, lm_time = am_time am,
           lm_thread_id = am_thread_id am, lm_raw = am_raw am, lm_msg_id = am_msg_id am,
           lm_color_range_start = 0, lm_color_range_end = 0\<rparr>
   }"

text \<open>
  The switch of \<open>process_next_msg_\<close> on a dequeued message: whether the thread goes on, and the calls
  it makes; a null \<open>worker_ptr\<close> is dereferenced at its peril (\<open>None\<close>).
\<close>

definition process_msg :: "(nat \<Rightarrow> logger) \<Rightarrow> thrower \<Rightarrow> async_msg \<Rightarrow> (bool \<times> sink_event list) option" where
  "process_msg loggers throws am =
     (case am_type am of
        Flush \<Rightarrow> do { w \<leftarrow> am_worker am; Some (True, backend_flush throws (loggers w)) }
      | Terminate \<Rightarrow> Some (False, [])
      | Log \<Rightarrow> do {
          msg \<leftarrow> to_log_msg loggers am;
          w \<leftarrow> am_worker am;
          Some (True, backend_log throws (loggers w) msg)
        })"

text \<open>The posts of the asynchronous logger: \<open>sink_it_\<close> and \<open>flush_\<close> while the pool exists.\<close>

definition post_log :: "nat \<Rightarrow> log_msg \<Rightarrow> async_overflow_policy \<Rightarrow> async_msg \<times> async_overflow_policy" where
  "post_log w msg pol = (new_async_msg (Some w) Log msg, pol)"

definition post_flush :: "nat \<Rightarrow> log_msg \<Rightarrow> async_overflow_policy \<Rightarrow> async_msg \<times> async_overflow_policy" where
  "post_flush w m0 pol = (new_async_msg (Some w) Flush m0, pol)"

definition async_sink_it ::
    "bool \<Rightarrow> nat \<Rightarrow> log_msg \<Rightarrow> async_overflow_policy \<Rightarrow> string + async_msg \<times> async_overflow_policy" where
  "async_sink_it pool_alive w msg pol =
     (if pool_alive then Inr (post_log w msg pol)
      else Inl ''async log: thread pool doens't exist anymore'')"

definition async_flush ::
    "bool \<Rightarrow> nat \<Rightarrow> log_msg \<Rightarrow> async_overflow_policy \<Rightarrow> string + async_msg \<times> async_overflow_policy" where
  "async_flush pool_alive w m0 pol =
     (if pool_alive then Inr (post_flush w m0 pol)
      else Inl ''async flush: thread pool doesn't exist anymore'')"

section \<open>Threads\<close>

text \<open>
  A posting thread: about to call \<open>enqueue\<close> or \<open>enqueue_nowait\<close> with its first post (or to evaluate
  the wait predicate again), asleep in \<open>pop_cv_.wait\<close>, or about to call \<open>push_cv_.notify_one\<close>.
\<close>

datatype pstate = Posting | Asleep | Notify_push

type_synonym post = "async_msg \<times> async_overflow_policy"

type_synonym producer = "pstate \<times> post list"

text \<open>
  A worker thread: in \<open>dequeue_for\<close> about to evaluate the wait predicate, asleep in
  \<open>push_cv_.wait_for\<close>, about to call \<open>pop_cv_.notify_one\<close> with its message, processing the message,
  or returned from \<open>worker_loop_\<close>.
\<close>

datatype wstate = Dequeuing | Waiting | Notify_pop async_msg | Processing async_msg | Exited

text \<open>
  The pool with its threads. The last four fields record the history: the messages that entered the
  queue, those that left it (with whether a worker took it or an overrun dropped it), those that
  were processed, and the calls of the sinks.
\<close>

record pool =
  queue :: "async_msg circular_q"
  producers :: "producer multiset"
  workers :: "wstate multiset"
  destroying :: bool
  posted :: "async_msg list"
  removed :: "(bool \<times> async_msg) list"
  processed :: "async_msg list"
  events :: "sink_event list"

text \<open>The constructor: it throws for a bad number of threads.\<close>

definition new_pool :: "async_msg \<Rightarrow> nat \<Rightarrow> nat \<Rightarrow> producer multiset \<Rightarrow> string + pool" where
  "new_pool d max_items threads_n clients =
     (if threads_n = 0 \<or> threads_n > 1000 then
        Inl ''abel/log::thread_pool(): invalid threads_n param (valid range is 1-1000)''
      else Inr
        \<lparr>queue = new_circular_q d max_items, producers = clients, workers = replicate_mset threads_n Dequeuing,
         destroying = False, posted = [], removed = [], processed = [], events = []\<rparr>)"

text \<open>The message of the destructor, posted once for each thread.\<close>

definition terminate_post :: "log_msg \<Rightarrow> post" where
  "terminate_post m0 = (new_async_msg None Terminate m0, Block)"

text \<open>
  The steps. \<open>pool_step\<close> is the progress of the threads; \<open>pool_noise\<close> the wake-ups that the condition
  variables may make by themselves. In both wait loops the predicate is evaluated after waking up;
  a worker whose wait times out returns to \<open>dequeue_for\<close> through \<open>worker_loop_\<close>.
\<close>

inductive pool_step :: "(nat \<Rightarrow> logger) \<Rightarrow> thrower \<Rightarrow> pool \<Rightarrow> pool \<Rightarrow> bool" for loggers throws where
  enqueue:
    "producers s = add_mset (Posting, (m, Block) # ps) P \<Longrightarrow> \<not> q_full (queue s) \<Longrightarrow>
     push_back (queue s) m = Some q' \<Longrightarrow>
     pool_step loggers throws s
       (s\<lparr>queue := q', producers := add_mset (Notify_push, ps) P, posted := posted s @ [m]\<rparr>)"
| enqueue_wait:
    "producers s = add_mset (Posting, (m, Block) # ps) P \<Longrightarrow> q_full (queue s) \<Longrightarrow>
     pool_step loggers throws s (s\<lparr>producers := add_mset (Asleep, (m, Block) # ps) P\<rparr>)"
| enqueue_nowait:
    "producers s = add_mset (Posting, (m, Overrun_oldest) # ps) P \<Longrightarrow>
     push_back (queue s) m = Some q' \<Longrightarrow>
     pool_step loggers throws s
       (s\<lparr>queue := q', producers := add_mset (Notify_push, ps) P, posted := posted s @ [m],
          removed := removed s @ map (Pair False)
            (take (length (q_items (queue s)) + 1 - length (q_items q')) (q_items (queue s) @ [m]))\<rparr>)"
| notify_push_wake:
    "producers s = add_mset (Notify_push, ps) P \<Longrightarrow> workers s = add_mset Waiting W \<Longrightarrow>
     pool_step loggers throws s
       (s\<lparr>producers := add_mset (Posting, ps) P, workers := add_mset Dequeuing W\<rparr>)"
| notify_push_none:
    "producers s = add_mset (Notify_push, ps) P \<Longrightarrow> Waiting \<notin># workers s \<Longrightarrow>
     pool_step loggers throws s (s\<lparr>producers := add_mset (Posting, ps) P\<rparr>)"
| dequeue:
    "workers s = add_mset Dequeuing W \<Longrightarrow> \<not> q_empty (queue s) \<Longrightarrow>
     pop_front (queue s) = Some (m, q') \<Longrightarrow>
     pool_step loggers throws s
       (s\<lparr>queue := q', workers := add_mset (Notify_pop m) W, removed := removed s @ [(True, m)]\<rparr>)"
| dequeue_wait:
    "workers s = add_mset Dequeuing W \<Longrightarrow> q_empty (queue s) \<Longrightarrow>
     pool_step loggers throws s (s\<lparr>workers := add_mset Waiting W\<rparr>)"
| notify_pop_wake:
    "workers s = add_mset (Notify_pop m) W \<Longrightarrow> producers s = add_mset (Asleep, ps) P \<Longrightarrow>
     pool_step loggers throws s
       (s\<lparr>workers := add_mset (Processing m) W, producers := add_mset (Posting, ps) P\<rparr>)"
| notify_pop_none:
    "workers s = add_mset (Notify_pop m) W \<Longrightarrow> Asleep \<notin># image_mset fst (producers s) \<Longrightarrow>
     pool_step loggers throws s (s\<lparr>workers := add_mset (Processing m) W\<rparr>)"
| process:
    "workers s = add_mset (Processing m) W \<Longrightarrow> process_msg loggers throws m = Some (go_on, es) \<Longrightarrow>
     pool_step loggers throws s
       (s\<lparr>workers := add_mset (if go_on then Dequeuing else Exited) W, processed := processed s @ [m],
          events := events s @ es\<rparr>)"

inductive pool_noise :: "pool \<Rightarrow> pool \<Rightarrow> bool" where
  producer_wakes:
    "producers s = add_mset (Asleep, ps) P \<Longrightarrow> pool_noise s (s\<lparr>producers := add_mset (Posting, ps) P\<rparr>)"
| worker_wakes:
    "workers s = add_mset Waiting W \<Longrightarrow> pool_noise s (s\<lparr>workers := add_mset Dequeuing W\<rparr>)"

text \<open>
  The destructor starts once no other thread posts any more: a logger holds the pool by a
  \<open>shared_ptr\<close> while it posts.
\<close>

inductive pool_destroy :: "log_msg \<Rightarrow> pool \<Rightarrow> pool \<Rightarrow> bool" for m0 where
  destroy:
    "\<not> destroying s \<Longrightarrow> set_mset (producers s) \<subseteq> {(Posting, [])} \<Longrightarrow>
     pool_destroy m0 s
       (s\<lparr>destroying := True,
          producers := {#(Posting, replicate (size (workers s)) (terminate_post m0))#}\<rparr>)"

text \<open>The clients of a pool post log and flush messages of existing loggers.\<close>

definition client_msg :: "async_msg \<Rightarrow> bool" where
  "client_msg m \<longleftrightarrow> am_type m \<noteq> Terminate \<and> am_worker m \<noteq> None"

inductive reachable :: "(nat \<Rightarrow> logger) \<Rightarrow> thrower \<Rightarrow> log_msg \<Rightarrow> pool \<Rightarrow> pool \<Rightarrow> bool" for loggers throws m0 s0 where
  start: "reachable loggers throws m0 s0 s0"
| step: "reachable loggers throws m0 s0 s \<Longrightarrow> pool_step loggers throws s s' \<Longrightarrow> reachable loggers throws m0 s0 s'"
| noise: "reachable loggers throws m0 s0 s \<Longrightarrow> pool_noise s s' \<Longrightarrow> reachable loggers throws m0 s0 s'"
| destructor: "reachable loggers throws m0 s0 s \<Longrightarrow> pool_destroy m0 s s' \<Longrightarrow> reachable loggers throws m0 s0 s'"

text \<open>The pool is down when every worker has returned and the destructor has nothing left to post.\<close>

definition pool_down :: "pool \<Rightarrow> bool" where
  "pool_down s \<longleftrightarrow> destroying s \<and> set_mset (workers s) \<subseteq> {Exited} \<and> set_mset (producers s) \<subseteq> {(Posting, [])}"

inductive_cases pool_stepE: "pool_step loggers throws s s'"
inductive_cases pool_noiseE: "pool_noise s s'"
inductive_cases pool_destroyE: "pool_destroy m0 s s'"

section \<open>Invariants\<close>

text \<open>Counting threads.\<close>

definition n_awake :: "producer multiset \<Rightarrow> nat" where
  "n_awake P = size {#p \<in># P. fst p = Posting \<and> snd p \<noteq> []#}"

definition n_asleep :: "producer multiset \<Rightarrow> nat" where
  "n_asleep P = size {#p \<in># P. fst p = Asleep#}"

definition n_notify_push :: "producer multiset \<Rightarrow> nat" where
  "n_notify_push P = size {#p \<in># P. fst p = Notify_push#}"

fun held_msgs :: "wstate \<Rightarrow> async_msg multiset" where
  "held_msgs (Notify_pop m) = {#m#}"
| "held_msgs (Processing m) = {#m#}"
| "held_msgs _ = {#}"

definition held :: "wstate multiset \<Rightarrow> async_msg multiset" where
  "held W = (\<Sum>w\<in>#W. held_msgs w)"

fun is_notify_pop :: "wstate \<Rightarrow> bool" where
  "is_notify_pop (Notify_pop m) = True"
| "is_notify_pop _ = False"

definition n_notify_pop :: "wstate multiset \<Rightarrow> nat" where
  "n_notify_pop W = size {#w \<in># W. is_notify_pop w#}"

lemma n_simps [simp]:
  "n_awake (add_mset (Posting, x # xs) P) = Suc (n_awake P)"
  "n_awake (add_mset (Posting, []) P) = n_awake P"
  "n_awake (add_mset (Asleep, ps) P) = n_awake P" "n_awake (add_mset (Notify_push, ps) P) = n_awake P"
  "n_asleep (add_mset (Asleep, ps) P) = Suc (n_asleep P)"
  "n_asleep (add_mset (Posting, ps) P) = n_asleep P" "n_asleep (add_mset (Notify_push, ps) P) = n_asleep P"
  "n_notify_push (add_mset (Notify_push, ps) P) = Suc (n_notify_push P)"
  "n_notify_push (add_mset (Posting, ps) P) = n_notify_push P"
  "n_notify_push (add_mset (Asleep, ps) P) = n_notify_push P"
  by (simp_all add: n_awake_def n_asleep_def n_notify_push_def)

lemma n_awake_le: "n_awake P \<le> n_awake (add_mset p P)"
  by (simp add: n_awake_def)

lemma w_simps [simp]:
  "n_notify_pop (add_mset (Notify_pop m) W) = Suc (n_notify_pop W)"
  "n_notify_pop (add_mset (Processing m) W) = n_notify_pop W" "n_notify_pop (add_mset Dequeuing W) = n_notify_pop W"
  "n_notify_pop (add_mset Waiting W) = n_notify_pop W" "n_notify_pop (add_mset Exited W) = n_notify_pop W"
  "held (add_mset w W) = held_msgs w + held W"
  by (simp_all add: n_notify_pop_def held_def)

lemma n_asleep_0: "n_asleep P = 0 \<longleftrightarrow> Asleep \<notin># image_mset fst P"
  by (induction P) (auto simp: n_asleep_def)

text \<open>The queue: its representation invariant, and its elements are what was posted and not removed.\<close>

definition inv_queue :: "nat \<Rightarrow> pool \<Rightarrow> bool" where
  "inv_queue c s \<longleftrightarrow> q_inv (queue s) \<and> q_cap (queue s) = c \<and> posted s = map snd (removed s) @ q_items (queue s)"

lemma push_into:
  assumes "q_inv q" "push_back q m = Some q'"
  shows "q_inv q'" "q_cap q' = q_cap q" "q_items q' = keep_last (q_cap q) (q_items q @ [m])"
  using push_back_law [OF assms(1), of m] assms(2) by auto

lemma push_has_room:
  assumes "q_inv q" "push_back q m = Some q'" "\<not> q_full q"
  shows "q_items q' = q_items q @ [m]"
  using ring.push_room [OF assms(1,3), of m] assms(2) by auto

lemma pop_from:
  assumes "q_inv q" "pop_front q = Some (m, q')" "\<not> q_empty q"
  shows "q_inv q'" "q_cap q' = q_cap q" "q_items q = m # q_items q'"
proof -
  obtain y ys where "q_items q = y # ys"
    using ring.empty_law [OF assms(1)] assms(3) by (cases "q_items q") auto
  then show "q_inv q'" "q_cap q' = q_cap q" "q_items q = m # q_items q'"
    using pop_front_law [OF assms(1)] assms(2) by fastforce+
qed

lemma keep_last_split: "take (length xs - length (keep_last n xs)) xs @ keep_last n xs = xs"
  by (simp add: keep_last_def min_def)

lemma inv_queue_step: "pool_step loggers throws s s' \<Longrightarrow> inv_queue c s \<Longrightarrow> inv_queue c s'"
proof (induction rule: pool_step.induct)
  case (enqueue s m ps P q')
  then show ?case using push_into [of "queue s" m q'] push_has_room [of "queue s" m q'] by (simp add: inv_queue_def)
next
  case (enqueue_nowait s m ps P q')
  then have q: "q_inv q'" "q_cap q' = c" "q_items q' = keep_last c (q_items (queue s) @ [m])"
    using push_into [of "queue s" m q'] by (simp_all add: inv_queue_def)
  have "take (length (q_items (queue s)) + 1 - length (q_items q')) (q_items (queue s) @ [m]) @ q_items q'
      = q_items (queue s) @ [m]"
    using keep_last_split [of "q_items (queue s) @ [m]" c] q(3) by simp
  then show ?case using enqueue_nowait q(1,2) by (simp add: inv_queue_def o_def)
next
  case (dequeue s W m q')
  then show ?case using pop_from [of "queue s" m q'] by (simp add: inv_queue_def)
qed (simp_all add: inv_queue_def)

text \<open>No wake-up is lost.\<close>

definition inv_wake :: "pool \<Rightarrow> bool" where
  "inv_wake s \<longleftrightarrow>
     (0 < n_asleep (producers s) \<longrightarrow>
        q_cap (queue s) \<le> length (q_items (queue s)) + n_awake (producers s) + n_notify_pop (workers s))
     \<and> (0 < count (workers s) Waiting \<longrightarrow>
        length (q_items (queue s)) \<le> count (workers s) Dequeuing + n_notify_push (producers s))
     \<and> (\<forall>p \<in># producers s. fst p = Asleep \<longrightarrow> (\<exists>m ps. snd p = (m, Block) # ps))"

lemma count_notin: "x \<notin># M \<Longrightarrow> count M x = 0"
  by (simp add: not_in_iff)

lemma inv_wake_step:
  "pool_step loggers throws s s' \<Longrightarrow> q_inv (queue s) \<Longrightarrow> inv_wake s \<Longrightarrow> inv_wake s'"
proof (induction rule: pool_step.induct)
  case (enqueue s m ps P q')
  then show ?case
    using push_into [of "queue s" m q'] push_has_room [of "queue s" m q'] by (auto simp: inv_wake_def)
next
  case (enqueue_wait s m ps P)
  then show ?case using ring.full_law [of "queue s"] by (auto simp: inv_wake_def)
next
  case (enqueue_nowait s m ps P q')
  then show ?case
    using push_into [of "queue s" m q'] ring.bound_law [of "queue s"] by (auto simp: inv_wake_def min_def)
next
  case (notify_push_wake s ps P W)
  then show ?case using n_awake_le [of P "(Posting, ps)"] by (auto simp: inv_wake_def)
next
  case (notify_push_none s ps P)
  then show ?case using n_awake_le [of P "(Posting, ps)"] by (auto simp: inv_wake_def count_notin)
next
  case (dequeue s W m q')
  then show ?case using pop_from [of "queue s" m q'] by (auto simp: inv_wake_def)
next
  case (dequeue_wait s W)
  then show ?case using ring.empty_law [of "queue s"] by (auto simp: inv_wake_def)
next
  case (notify_pop_wake s m W ps P)
  then show ?case by (cases ps) (auto simp: inv_wake_def)
next
  case (notify_pop_none s m W)
  then show ?case using n_asleep_0 [of "producers s"] by (auto simp: inv_wake_def)
next
  case (process s m W go_on es)
  then show ?case by (auto simp: inv_wake_def)
qed

text \<open>Every message that a worker took is processed or in the hands of a worker.\<close>

definition taken :: "pool \<Rightarrow> async_msg list" where
  "taken s = map snd (filter fst (removed s))"

definition dropped :: "pool \<Rightarrow> async_msg list" where
  "dropped s = map snd (filter (Not \<circ> fst) (removed s))"

definition inv_held :: "pool \<Rightarrow> bool" where
  "inv_held s \<longleftrightarrow> mset (taken s) = mset (processed s) + held (workers s)"

lemma inv_held_step: "pool_step loggers throws s s' \<Longrightarrow> inv_held s \<Longrightarrow> inv_held s'"
  by (induction rule: pool_step.induct) (auto simp: inv_held_def taken_def o_def filter_map)

text \<open>
  The terminate messages. Before the destructor there is none; after it has started, those not
  posted yet, those in the queue (behind every other message), those held by a worker and those
  that made a worker return are one for each thread, and a worker gets the first one only when the
  other messages are gone.
\<close>

definition term_msg :: "log_msg \<Rightarrow> async_msg" where
  "term_msg m0 = new_async_msg None Terminate m0"

definition inv_clients :: "nat \<Rightarrow> pool \<Rightarrow> bool" where
  "inv_clients n s \<longleftrightarrow> size (workers s) = n \<and> Exited \<notin># workers s
     \<and> (\<forall>m \<in># held (workers s). client_msg m) \<and> (\<forall>m \<in> set (q_items (queue s)). client_msg m)
     \<and> (\<forall>p \<in># producers s. \<forall>x \<in> set (snd p). client_msg (fst x))"

definition n_left :: "log_msg \<Rightarrow> wstate multiset \<Rightarrow> nat" where
  "n_left m0 W = count W Exited + count (held W) (term_msg m0)"

definition inv_shutdown :: "log_msg \<Rightarrow> nat \<Rightarrow> pool \<Rightarrow> bool" where
  "inv_shutdown m0 n s \<longleftrightarrow> size (workers s) = n
     \<and> (\<forall>m \<in># held (workers s). m = term_msg m0 \<or> client_msg m)
     \<and> (\<exists>st k ms j. producers s = {#(st, replicate k (terminate_post m0))#}
          \<and> q_items (queue s) = ms @ replicate j (term_msg m0) \<and> (\<forall>m \<in> set ms. client_msg m)
          \<and> k + j + n_left m0 (workers s) = n \<and> (0 < n_left m0 (workers s) \<longrightarrow> ms = []))"

lemma term_msg_simps [simp]:
  "am_type (term_msg m0) = Terminate" "\<not> client_msg (term_msg m0)"
  "process_msg loggers throws (term_msg m0) = Some (False, [])"
  by (simp_all add: term_msg_def new_async_msg_def client_msg_def terminate_post_def process_msg_def)

lemma terminate_post_eq: "terminate_post m0 = (term_msg m0, Block)"
  by (simp add: term_msg_def terminate_post_def)

lemma process_client:
  "client_msg m \<Longrightarrow> process_msg loggers throws m = Some (go_on, es) \<Longrightarrow> go_on"
  by (auto simp: client_msg_def process_msg_def split: async_msg_type.splits bind_splits)

lemma process_client_defined:
  "client_msg m \<Longrightarrow> \<exists>es. process_msg loggers throws m = Some (True, es)"
  by (cases "am_type m") (auto simp: client_msg_def process_msg_def to_log_msg_def)

lemma inv_clients_step:
  "pool_step loggers throws s s' \<Longrightarrow> q_inv (queue s) \<Longrightarrow> inv_clients n s \<Longrightarrow> inv_clients n s'"
proof (induction rule: pool_step.induct)
  case (enqueue s m ps P q')
  then show ?case
    using push_has_room [of "queue s" m q'] by (auto simp: inv_clients_def)
next
  case (enqueue_nowait s m ps P q')
  then have "set (q_items q') \<subseteq> insert m (set (q_items (queue s)))"
    using push_into [of "queue s" m q'] by (auto simp: keep_last_def dest: in_set_dropD)
  then show ?case using enqueue_nowait by (auto simp: inv_clients_def)
next
  case (dequeue s W m q')
  then show ?case using pop_from [of "queue s" m q'] by (auto simp: inv_clients_def)
next
  case (process s m W go_on es)
  then have go_on by (auto simp: inv_clients_def dest: process_client)
  then show ?case using process by (auto simp: inv_clients_def)
qed (auto simp: inv_clients_def)

lemma replicate_posting:
  "{#(st, replicate k x)#} = add_mset (st', y # ps) P \<Longrightarrow>
     st' = st \<and> P = {#} \<and> y = x \<and> 0 < k \<and> ps = replicate (k - 1) x"
  by (cases k) auto

lemma inv_shutdownI:
  assumes "size W = n" "\<forall>m \<in># held W. m = term_msg m0 \<or> client_msg m"
    "P = {#(st, replicate k (terminate_post m0))#}" "q_items q = ms @ replicate j (term_msg m0)"
    "\<forall>m \<in> set ms. client_msg m" "k + j + n_left m0 W = n" "0 < n_left m0 W \<Longrightarrow> ms = []"
    "workers s = W" "producers s = P" "queue s = q"
  shows "inv_shutdown m0 n s"
  unfolding inv_shutdown_def using assms
  by (intro conjI exI [of _ st] exI [of _ k] exI [of _ ms] exI [of _ j]) simp_all

lemma inv_shutdown_step:
  assumes "pool_step loggers throws s s'" "q_inv (queue s)" "inv_shutdown m0 n s"
  shows "inv_shutdown m0 n s'"
proof -
  obtain st k ms j where W: "size (workers s) = n" "\<forall>m \<in># held (workers s). m = term_msg m0 \<or> client_msg m"
    and P: "producers s = {#(st, replicate k (terminate_post m0))#}"
    and Q: "q_items (queue s) = ms @ replicate j (term_msg m0)" "\<forall>m \<in> set ms. client_msg m"
    and N: "k + j + n_left m0 (workers s) = n" "0 < n_left m0 (workers s) \<longrightarrow> ms = []"
    using assms(3) unfolding inv_shutdown_def by (elim conjE exE) (rule that)
  from assms(1) show ?thesis
  proof cases
    case (enqueue m ps P' q')
    have "{#(st, replicate k (terminate_post m0))#} = add_mset (Posting, (m, Block) # ps) P'"
      using P enqueue(2) by simp
    note e' = replicate_posting [OF this]
    then have e: "m = term_msg m0" "0 < k" "ps = replicate (k - 1) (terminate_post m0)" "P' = {#}"
      by (simp_all add: terminate_post_eq)
    have "q_items q' = ms @ replicate (Suc j) (term_msg m0)"
      using push_has_room [OF assms(2) enqueue(4,3)] Q e(1) by (simp flip: replicate_append_same)
    then show ?thesis
      using e enqueue(1) N by (intro inv_shutdownI [OF W _ _ Q(2), of _ Notify_push "k - 1" q' "Suc j"]) simp_all
  next
    case (enqueue_nowait m ps P' q')
    have "{#(st, replicate k (terminate_post m0))#} = add_mset (Posting, (m, Overrun_oldest) # ps) P'"
      using P enqueue_nowait(2) by simp
    from replicate_posting [OF this] show ?thesis by (simp add: terminate_post_eq)
  next
    case (dequeue W' m q')
    have q: "q_items (queue s) = m # q_items q'" using pop_from [OF assms(2) dequeue(4,3)] by simp
    show ?thesis
    proof (cases ms)
      case Nil
      then have j: "0 < j" "m = term_msg m0" "q_items q' = [] @ replicate (j - 1) (term_msg m0)"
        using q Q(1) by (cases j; simp)+
      show ?thesis
        using dequeue(1,2) W N j P
        by (intro inv_shutdownI [OF _ _ P j(3), of "add_mset (Notify_pop m) W'"]) (auto simp: n_left_def Nil)
    next
      case (Cons y ys)
      then have m: "y = m" "q_items q' = ys @ replicate j (term_msg m0)" using q Q(1) by auto
      have "m \<noteq> term_msg m0" using Q(2) Cons m by auto
      then show ?thesis
        using dequeue(1,2) W N m P Q(2) Cons
        by (intro inv_shutdownI [OF _ _ P m(2), of "add_mset (Notify_pop m) W'"]) (auto simp: n_left_def)
    qed
  next
    case (process m W' go_on es)
    have "m = term_msg m0 \<or> client_msg m" using W process(2) by simp
    then show ?thesis
    proof
      assume "m = term_msg m0"
      then show ?thesis
        using process W N by (intro inv_shutdownI [OF _ _ P Q(1,2), of "add_mset Exited W'"]) (auto simp: n_left_def)
    next
      assume c: "client_msg m"
      then have go_on "m \<noteq> term_msg m0" using process_client process(3) by auto
      then show ?thesis
        using process W N by (intro inv_shutdownI [OF _ _ P Q(1,2), of "add_mset Dequeuing W'"]) (auto simp: n_left_def)
    qed
  next
    case (enqueue_wait m ps P')
    then have "P' = {#}" "(m, Block) # ps = replicate k (terminate_post m0)"
      using P by simp_all
    then show ?thesis
      using enqueue_wait(1) N by (intro inv_shutdownI [OF W _ Q(1,2), of _ Asleep k]) simp_all
  next
    case (notify_push_wake ps P' W')
    then have "P' = {#}" "ps = replicate k (terminate_post m0)" using P by simp_all
    then show ?thesis
      using notify_push_wake(1,3) W N
      by (intro inv_shutdownI [OF _ _ _ Q(1,2), of "add_mset Dequeuing W'" _ _ Posting k]) (auto simp: n_left_def)
  next
    case (notify_push_none ps P')
    then have "P' = {#}" "ps = replicate k (terminate_post m0)" using P by simp_all
    then show ?thesis
      using notify_push_none(1) N by (intro inv_shutdownI [OF W _ Q(1,2), of _ Posting k]) simp_all
  next
    case (dequeue_wait W')
    then show ?thesis
      using W N by (intro inv_shutdownI [OF _ _ P Q(1,2), of "add_mset Waiting W'"]) (auto simp: n_left_def)
  next
    case (notify_pop_wake m W' ps P')
    then have "P' = {#}" "ps = replicate k (terminate_post m0)" using P by simp_all
    then show ?thesis
      using notify_pop_wake(1,2) W N
      by (intro inv_shutdownI [OF _ _ _ Q(1,2), of "add_mset (Processing m) W'" _ _ Posting k])
        (auto simp: n_left_def)
  next
    case (notify_pop_none m W')
    then show ?thesis
      using W N
      by (intro inv_shutdownI [OF _ _ P Q(1,2), of "add_mset (Processing m) W'"]) (auto simp: n_left_def)
  qed
qed

section \<open>Reachable states\<close>

definition pool_inv :: "log_msg \<Rightarrow> nat \<Rightarrow> nat \<Rightarrow> pool \<Rightarrow> bool" where
  "pool_inv m0 c n s \<longleftrightarrow> inv_queue c s \<and> inv_wake s \<and> inv_held s
     \<and> (if destroying s then inv_shutdown m0 n s else inv_clients n s)"

lemma step_destroying: "pool_step loggers throws s s' \<Longrightarrow> destroying s' = destroying s"
  by (induction rule: pool_step.induct) simp_all

lemma pool_inv_step: "pool_step loggers throws s s' \<Longrightarrow> pool_inv m0 c n s \<Longrightarrow> pool_inv m0 c n s'"
  using inv_queue_step [of loggers throws s s' c] inv_wake_step [of loggers throws s s']
    inv_held_step [of loggers throws s s'] inv_clients_step [of loggers throws s s' n]
    inv_shutdown_step [of loggers throws s s' m0 n] step_destroying [of loggers throws s s']
  by (auto simp: pool_inv_def inv_queue_def split: if_splits)

lemma pool_inv_noise: "pool_noise s s' \<Longrightarrow> pool_inv m0 c n s \<Longrightarrow> pool_inv m0 c n s'"
proof (induction rule: pool_noise.induct)
  case (producer_wakes s ps P)
  then have w: "inv_wake s" by (simp add: pool_inv_def)
  then obtain m qs where ps: "ps = (m, Block) # qs"
    using producer_wakes(1) unfolding inv_wake_def by auto
  have "inv_wake (s\<lparr>producers := add_mset (Posting, ps) P\<rparr>)"
    using w producer_wakes(1) by (auto simp: inv_wake_def ps)
  moreover have "inv_shutdown m0 n (s\<lparr>producers := add_mset (Posting, ps) P\<rparr>)" if "inv_shutdown m0 n s"
  proof -
    obtain st k ms j where "size (workers s) = n" "\<forall>m \<in># held (workers s). m = term_msg m0 \<or> client_msg m"
      and P: "producers s = {#(st, replicate k (terminate_post m0))#}"
      and "q_items (queue s) = ms @ replicate j (term_msg m0)" "\<forall>m \<in> set ms. client_msg m"
      and "k + j + n_left m0 (workers s) = n" "0 < n_left m0 (workers s) \<longrightarrow> ms = []"
      using \<open>inv_shutdown m0 n s\<close> unfolding inv_shutdown_def by (elim conjE exE) (rule that)
    moreover have "P = {#}" "ps = replicate k (terminate_post m0)" using P producer_wakes(1) by simp_all
    ultimately show ?thesis by (intro inv_shutdownI [of _ n m0 _ Posting k _ ms j]) simp_all
  qed
  moreover have "inv_clients n (s\<lparr>producers := add_mset (Posting, ps) P\<rparr>)" if "inv_clients n s"
    using that producer_wakes(1) by (simp add: inv_clients_def)
  ultimately show ?case
    using producer_wakes by (auto simp: pool_inv_def inv_queue_def inv_held_def taken_def)
next
  case (worker_wakes s W)
  define s' where "s' = s\<lparr>workers := add_mset Dequeuing W\<rparr>"
  have "inv_queue c s \<Longrightarrow> inv_queue c s'" "inv_held s \<Longrightarrow> inv_held s'" "inv_clients n s \<Longrightarrow> inv_clients n s'"
    using worker_wakes(1) by (simp_all add: s'_def inv_queue_def inv_held_def taken_def inv_clients_def)
  moreover have "inv_wake s \<Longrightarrow> inv_wake s'" "inv_shutdown m0 n s \<Longrightarrow> inv_shutdown m0 n s'"
    using worker_wakes(1) by (auto simp: s'_def inv_wake_def inv_shutdown_def n_left_def)
  moreover have "destroying s' = destroying s" by (simp add: s'_def)
  ultimately show ?case
    using worker_wakes(2) unfolding pool_inv_def s'_def [symmetric] by (simp split: if_splits)
qed

lemma pool_inv_destroy: "pool_destroy m0 s s' \<Longrightarrow> pool_inv m0 c n s \<Longrightarrow> pool_inv m0 c n s'"
proof (induction rule: pool_destroy.induct)
  case (destroy s)
  define P where "P = {#(Posting, replicate (size (workers s)) (terminate_post m0))#}"
  have P0: "n_notify_push (producers s) = 0" "n_asleep P = 0"
    using destroy(2) by (auto simp: n_notify_push_def n_asleep_def P_def)
  have c: "inv_clients n s" using destroy by (simp add: pool_inv_def)
  have "count (held (workers s)) (term_msg m0) = 0"
    using c by (auto simp: inv_clients_def count_eq_zero_iff)
  then have left: "n_left m0 (workers s) = 0"
    using c by (simp add: n_left_def inv_clients_def count_notin)
  have "inv_shutdown m0 n (s\<lparr>destroying := True, producers := P\<rparr>)"
    using c left by (intro inv_shutdownI [of _ n m0 _ Posting n _ "q_items (queue s)" 0])
      (auto simp: P_def inv_clients_def)
  then show ?case
    using destroy P0 by (auto simp: pool_inv_def inv_queue_def inv_held_def taken_def inv_wake_def P_def)
qed

lemma reachable_inv: "reachable loggers throws m0 s0 s \<Longrightarrow> pool_inv m0 c n s0 \<Longrightarrow> pool_inv m0 c n s"
  by (induction rule: reachable.induct) (auto intro: pool_inv_step pool_inv_noise pool_inv_destroy)

text \<open>A new pool.\<close>

definition clients_ok :: "producer multiset \<Rightarrow> bool" where
  "clients_ok clients \<longleftrightarrow>
     (\<forall>p \<in># clients. fst p = Posting \<and> (\<forall>x \<in> set (snd p). client_msg (fst x)))"

lemma new_pool_inv:
  assumes "new_pool d c n clients = Inr s0" "c < 2 ^ 64 - 1" "clients_ok clients"
  shows "pool_inv m0 c n s0" "0 < n" "posted s0 = []" "processed s0 = []" "removed s0 = []" "\<not> destroying s0"
proof -
  have s0: "s0 = \<lparr>queue = new_circular_q d c, producers = clients, workers = replicate_mset n Dequeuing,
         destroying = False, posted = [], removed = [], processed = [], events = []\<rparr>" and n: "0 < n"
    using assms(1) by (auto simp: new_pool_def split: if_splits)
  have "held (replicate_mset n Dequeuing) = {#}" by (induction n) (simp_all add: held_def)
  moreover have "n_asleep clients = 0" using assms(3) by (auto simp: n_asleep_def clients_ok_def)
  moreover have "\<forall>p \<in># clients. fst p \<noteq> Asleep" using assms(3) by (auto simp: clients_ok_def)
  moreover have "inv_clients n s0"
    using new_circular_q [OF assms(2), of d] assms(3) calculation
    by (auto simp: inv_clients_def s0 clients_ok_def)
  ultimately show "pool_inv m0 c n s0"
    using new_circular_q [OF assms(2), of d]
    by (simp add: pool_inv_def inv_queue_def inv_wake_def inv_held_def taken_def s0)
  show "0 < n" "posted s0 = []" "processed s0 = []" "removed s0 = []" "\<not> destroying s0" using n by (simp_all add: s0)
qed

section \<open>Progress and termination\<close>

text \<open>Every progress step consumes some of the work left.\<close>

fun producer_work :: "producer \<Rightarrow> nat" where
  "producer_work (Posting, ps) = 8 * length ps + (if ps = [] then 0 else 1)"
| "producer_work (Asleep, ps) = 8 * length ps"
| "producer_work (Notify_push, ps) = 8 * length ps + 3"

fun worker_work :: "wstate \<Rightarrow> nat" where
  "worker_work Dequeuing = 1"
| "worker_work Waiting = 0"
| "worker_work (Notify_pop m) = 4"
| "worker_work (Processing m) = 2"
| "worker_work Exited = 0"

definition work :: "pool \<Rightarrow> nat" where
  "work s = (\<Sum>p\<in>#producers s. producer_work p) + (\<Sum>w\<in>#workers s. worker_work w)
     + 4 * length (q_items (queue s))"

lemma step_work:
  assumes "pool_step loggers throws s s'" "q_inv (queue s)"
    and "\<forall>p \<in># producers s. fst p = Asleep \<longrightarrow> snd p \<noteq> []"
  shows "work s' < work s"
  using assms
proof (induction rule: pool_step.induct)
  case (enqueue s m ps P q')
  then show ?case using push_has_room [of "queue s" m q'] by (simp add: work_def)
next
  case (enqueue_nowait s m ps P q')
  then show ?case using push_into [of "queue s" m q'] by (simp add: work_def min_def)
next
  case (dequeue s W m q')
  then show ?case using pop_from [of "queue s" m q'] arg_cong [of "q_items (queue s)" _ length]
    by (fastforce simp: work_def)
qed (auto simp: work_def)

text \<open>A state in which no thread can go on is a state in which all are done.\<close>

lemma mset_pick:
  "x \<in># M \<Longrightarrow> \<exists>N. M = add_mset x N"
  by (rule multi_member_split)

lemma producer_step:
  assumes "q_inv (queue s)" "p \<in># producers s" "fst p \<noteq> Asleep" "p \<noteq> (Posting, [])"
  shows "\<exists>s'. pool_step loggers throws s s'"
proof -
  obtain st ps where p: "p = (st, ps)" by (cases p)
  obtain P where P: "producers s = add_mset (st, ps) P" using mset_pick [OF assms(2)] by (auto simp: p)
  have pushes: "\<exists>q'. push_back (queue s) m = Some q'" for m
    using push_back_law [OF assms(1)] by blast
  show ?thesis
  proof (cases st)
    case Posting
    then obtain m pol qs where ps: "ps = (m, pol) # qs" using assms(4) p by (cases ps) auto
    show ?thesis
    proof (cases pol)
      case Block
      then show ?thesis
        using pool_step.enqueue [of s m qs P] pool_step.enqueue_wait [of s m qs P] pushes [of m] P Posting ps
        by (cases "q_full (queue s)") blast+
    next
      case Overrun_oldest
      then show ?thesis using pool_step.enqueue_nowait [of s m qs P] pushes [of m] P Posting ps by blast
    qed
  next
    case Notify_push
    then show ?thesis
      using pool_step.notify_push_wake [of s ps P] pool_step.notify_push_none [of s ps P] P mset_pick [of Waiting "workers s"]
      by blast
  qed (use assms(3) p in simp)
qed

lemma worker_step:
  assumes "q_inv (queue s)" "w \<in># workers s" "w \<noteq> Waiting" "w \<noteq> Exited"
    and m: "\<And>m. m \<in># held (workers s) \<Longrightarrow> \<exists>go_on es. process_msg loggers throws m = Some (go_on, es)"
  shows "\<exists>s'. pool_step loggers throws s s'"
proof -
  obtain W where W: "workers s = add_mset w W" using mset_pick [OF assms(2)] by blast
  show ?thesis
  proof (cases w)
    case Dequeuing
    have "\<exists>m q'. pop_front (queue s) = Some (m, q')" if "\<not> q_empty (queue s)"
      using ring.empty_law [OF assms(1)] that pop_front_law [OF assms(1)] by (cases "q_items (queue s)") blast+
    then show ?thesis
      using pool_step.dequeue [of s W] pool_step.dequeue_wait [of s W] W Dequeuing by blast
  next
    case (Notify_pop m)
    show ?thesis
    proof (cases "Asleep \<in># image_mset fst (producers s)")
      case True
      then obtain p where "p \<in># producers s" "fst p = Asleep" by auto
      then obtain ps P where "producers s = add_mset (Asleep, ps) P"
        using mset_pick [of p "producers s"] by (cases p) auto
      then show ?thesis using pool_step.notify_pop_wake [of s m W] W Notify_pop by blast
    next
      case False
      then show ?thesis using pool_step.notify_pop_none [of s m W] W Notify_pop by blast
    qed
  next
    case (Processing m')
    then have "m' \<in># held (workers s)" by (simp add: W)
    then show ?thesis using m pool_step.process [of s m' W] W Processing by blast
  qed (use assms(3,4) in auto)
qed

lemma no_awake:
  assumes "\<forall>p \<in># P. fst p = Asleep \<or> p = (Posting, [])"
  shows "n_awake P = 0" "n_notify_push P = 0"
  using assms by (fastforce simp: n_awake_def n_notify_push_def)+

lemma no_active:
  assumes "\<forall>w \<in># W. w = Waiting \<or> w = Exited"
  shows "n_notify_pop W = 0" "count W Dequeuing = 0" "held W = {#}"
  using assms
  by (fastforce simp: n_notify_pop_def, fastforce simp: count_eq_zero_iff, induction W) (auto simp: held_def)

lemma stuck_is_down:
  assumes "pool_inv m0 c n s" "destroying s" "0 < c" "\<nexists>s'. pool_step loggers throws s s'"
  shows "pool_down s"
proof -
  have q: "q_inv (queue s)" "q_cap (queue s) = c" and w: "inv_wake s" and sh: "inv_shutdown m0 n s"
    using assms(1,2) by (auto simp: pool_inv_def inv_queue_def)
  obtain st k ms j where n: "size (workers s) = n" and hm: "\<forall>m \<in># held (workers s). m = term_msg m0 \<or> client_msg m"
    and P: "producers s = {#(st, replicate k (terminate_post m0))#}"
    and Q: "q_items (queue s) = ms @ replicate j (term_msg m0)"
    and N: "k + j + n_left m0 (workers s) = n" "0 < n_left m0 (workers s) \<longrightarrow> ms = []"
    using sh unfolding inv_shutdown_def by (elim conjE exE) (rule that)
  have prod: "\<forall>p \<in># producers s. fst p = Asleep \<or> p = (Posting, [])"
    using producer_step [OF q(1)] assms(4) by blast
  have "\<exists>go_on es. process_msg loggers throws m = Some (go_on, es)" if "m \<in># held (workers s)" for m
  proof (cases "m = term_msg m0")
    case False
    then have "client_msg m" using bspec [OF hm that] by blast
    from process_client_defined [OF this, of loggers throws] show ?thesis by blast
  qed auto
  then have work: "\<forall>w \<in># workers s. w = Waiting \<or> w = Exited"
    using worker_step [OF q(1), of _ loggers throws] assms(4) by blast
  have z: "n_awake (producers s) = 0" "n_notify_push (producers s) = 0"
    by (rule no_awake [OF prod])+
  have y: "n_notify_pop (workers s) = 0" "count (workers s) Dequeuing = 0" "held (workers s) = {#}"
    by (rule no_active [OF work])+
  have exits: "n_left m0 (workers s) = count (workers s) Exited" by (simp add: n_left_def y)
  have "\<forall>w \<in># W. w = Waiting \<or> w = Exited \<Longrightarrow> count W Waiting + count W Exited = size W" for W
    by (induction W) auto
  then have all: "count (workers s) Waiting + count (workers s) Exited = n" using work n by blast
  have "count (workers s) Waiting = 0"
  proof (rule ccontr)
    assume "count (workers s) Waiting \<noteq> 0"
    then have "length (q_items (queue s)) = 0" using w z y by (auto simp: inv_wake_def)
    then have "q_items (queue s) = []" by (simp only: length_0_conv)
    moreover from this have "n_asleep (producers s) = 0" using w z y q assms(3) by (auto simp: inv_wake_def)
    then have "k = 0" using prod P by (cases k) (auto simp: n_asleep_def split: if_splits)
    ultimately show False
      using N exits all Q \<open>count (workers s) Waiting \<noteq> 0\<close> by simp
  qed
  moreover from this have "k = 0" using N(1) exits all by linarith
  ultimately have ex: "set_mset (workers s) \<subseteq> {Exited}" "k = 0"
    using work by (auto simp: count_eq_zero_iff)
  have "st \<noteq> Asleep" using w P ex(2) by (auto simp: inv_wake_def)
  then have "set_mset (producers s) \<subseteq> {(Posting, [])}" using prod P by auto
  then show ?thesis using assms(2) ex by (simp add: pool_down_def)
qed

lemma work_to_down:
  assumes "pool_inv m0 c n s" "destroying s" "0 < c"
  shows "\<exists>s'. (pool_step loggers throws)\<^sup>*\<^sup>* s s' \<and> pool_down s'"
  using assms(1,2)
proof (induction "work s" arbitrary: s rule: less_induct)
  case less
  show ?case
  proof (cases "\<exists>s'. pool_step loggers throws s s'")
    case True
    then obtain s' where s': "pool_step loggers throws s s'" by blast
    have "\<forall>p \<in># producers s. fst p = Asleep \<longrightarrow> snd p \<noteq> []" "q_inv (queue s)"
      using less.prems(1) by (auto simp: pool_inv_def inv_wake_def inv_queue_def)
    then have "work s' < work s" using step_work [OF s'] by blast
    then obtain t where "(pool_step loggers throws)\<^sup>*\<^sup>* s' t" "pool_down t"
      using less.hyps [OF _ pool_inv_step [OF s' less.prems(1)]] step_destroying [OF s'] less.prems(2) by blast
    then show ?thesis using converse_rtranclp_into_rtranclp [of "pool_step loggers throws", OF s'] by blast
  next
    case False
    then show ?thesis using stuck_is_down [OF less.prems assms(3)] by blast
  qed
qed

text \<open>At the end every message is accounted for.\<close>

lemma down_empty:
  assumes "pool_inv m0 c n s" "pool_down s" "0 < n"
  shows "q_items (queue s) = []" "held (workers s) = {#}"
proof -
  have sh: "inv_shutdown m0 n s" and W: "set_mset (workers s) \<subseteq> {Exited}" and P: "set_mset (producers s) \<subseteq> {(Posting, [])}"
    using assms(1,2) by (auto simp: pool_inv_def pool_down_def)
  obtain st k ms j where n: "size (workers s) = n"
    and Pk: "producers s = {#(st, replicate k (terminate_post m0))#}"
    and Q: "q_items (queue s) = ms @ replicate j (term_msg m0)"
    and N: "k + j + n_left m0 (workers s) = n" "0 < n_left m0 (workers s) \<longrightarrow> ms = []"
    using sh unfolding inv_shutdown_def by (elim conjE exE) (rule that)
  show h: "held (workers s) = {#}" using W by (intro no_active) auto
  have "count M Exited = size M" if "set_mset M \<subseteq> {Exited}" for M
    using that by (induction M) auto
  then have "n_left m0 (workers s) = n" using W n h by (simp add: n_left_def)
  then show "q_items (queue s) = []" using N Q assms(3) by simp
qed

lemma mset_partition_fst:
  "mset (map snd xs) = mset (map snd (filter fst xs)) + mset (map snd (filter (Not \<circ> fst) xs))"
proof -
  have "mset xs = filter_mset fst (mset xs) + filter_mset (Not \<circ> fst) (mset xs)"
    using multiset_partition [of "mset xs" fst] by (simp only: o_def)
  then have "image_mset snd (mset xs) = image_mset snd (filter_mset fst (mset xs) + filter_mset (Not \<circ> fst) (mset xs))"
    by (rule arg_cong)
  then show ?thesis by (simp only: mset_map mset_filter image_mset_union)
qed

lemma removed_split: "mset (map snd (removed s)) = mset (taken s) + mset (dropped s)"
  unfolding taken_def dropped_def by (rule mset_partition_fst)

lemma down_accounting:
  assumes "pool_inv m0 c n s" "pool_down s" "0 < n"
  shows "mset (posted s) = mset (processed s) + mset (dropped s)"
proof -
  have "posted s = map snd (removed s)"
    using assms down_empty(1) [OF assms] by (simp add: pool_inv_def inv_queue_def)
  moreover have "mset (taken s) = mset (processed s)"
    using assms down_empty(2) [OF assms] by (simp add: pool_inv_def inv_held_def)
  ultimately show ?thesis using removed_split [of s] by simp
qed

text \<open>With the blocking policy nothing is dropped, and a single worker keeps the order.\<close>

definition inv_block :: "pool \<Rightarrow> bool" where
  "inv_block s \<longleftrightarrow> (\<forall>p \<in># producers s. \<forall>x \<in> set (snd p). snd x = Block) \<and> (\<forall>x \<in> set (removed s). fst x)"

fun in_hand :: "wstate \<Rightarrow> async_msg list" where
  "in_hand (Notify_pop m) = [m]"
| "in_hand (Processing m) = [m]"
| "in_hand _ = []"

definition inv_single :: "(nat \<Rightarrow> logger) \<Rightarrow> thrower \<Rightarrow> pool \<Rightarrow> bool" where
  "inv_single loggers throws s \<longleftrightarrow>
     events s = concat (map (\<lambda>m. snd (the (process_msg loggers throws m))) (processed s))
     \<and> (\<forall>m \<in> set (processed s). process_msg loggers throws m \<noteq> None)
     \<and> (\<forall>w. workers s = {#w#} \<longrightarrow> map snd (removed s) = processed s @ in_hand w)"

lemma inv_block_step: "pool_step loggers throws s s' \<Longrightarrow> inv_block s \<Longrightarrow> inv_block s'"
proof (induction rule: pool_step.induct)
  case (enqueue_nowait s m ps P q')
  then show ?case by (auto simp: inv_block_def)
qed (simp_all add: inv_block_def)

lemma inv_single_step:
  "pool_step loggers throws s s' \<Longrightarrow> inv_block s \<Longrightarrow> inv_single loggers throws s \<Longrightarrow> inv_single loggers throws s'"
  by (induction rule: pool_step.induct) (auto simp: inv_single_def inv_block_def)

lemma inv_noise_single:
  "pool_noise s s' \<Longrightarrow> inv_block s \<Longrightarrow> inv_block s'"
  "pool_noise s s' \<Longrightarrow> inv_single loggers throws s \<Longrightarrow> inv_single loggers throws s'"
  by (induction rule: pool_noise.induct; simp add: inv_block_def inv_single_def)+

lemma inv_destroy_single:
  "pool_destroy m0 s s' \<Longrightarrow> inv_block s \<Longrightarrow> inv_block s'"
  "pool_destroy m0 s s' \<Longrightarrow> inv_single loggers throws s \<Longrightarrow> inv_single loggers throws s'"
  by (induction rule: pool_destroy.induct; simp add: inv_block_def inv_single_def terminate_post_def)+

lemma reachable_single:
  "reachable loggers throws m0 s0 s \<Longrightarrow> inv_block s0 \<Longrightarrow> inv_single loggers throws s0 \<Longrightarrow>
     inv_block s \<and> inv_single loggers throws s"
  by (induction rule: reachable.induct)
    (auto intro: inv_block_step inv_single_step inv_noise_single inv_destroy_single)

lemma reachable_size: "reachable loggers throws m0 s0 s \<Longrightarrow> size (workers s) = size (workers s0)"
  by (induction rule: reachable.induct)
    (auto elim!: pool_step.cases pool_noise.cases pool_destroy.cases)

section \<open>Properties\<close>

text \<open>\<open>pool_run\<close>: \<open>s\<close> is reached from a new pool of capacity \<open>c\<close> with \<open>n\<close> workers.\<close>

definition pool_run ::
    "(nat \<Rightarrow> logger) \<Rightarrow> thrower \<Rightarrow> log_msg \<Rightarrow> async_msg \<Rightarrow> nat \<Rightarrow> nat \<Rightarrow> producer multiset \<Rightarrow> pool \<Rightarrow> bool" where
  "pool_run loggers throws m0 d c n clients s \<longleftrightarrow>
     (\<exists>s0. new_pool d c n clients = Inr s0 \<and> reachable loggers throws m0 s0 s)"

lemma pool_run_inv:
  assumes "pool_run loggers throws m0 d c n clients s" "c < 2 ^ 64 - 1" "clients_ok clients"
  shows "pool_inv m0 c n s" "0 < n"
  using assms new_pool_inv [OF _ assms(2,3), of d n] reachable_inv [of loggers throws m0 _ s c n]
  unfolding pool_run_def by blast+

text \<open>What the synchronous logger would do for a message.\<close>

definition sync_events :: "(nat \<Rightarrow> logger) \<Rightarrow> async_msg \<Rightarrow> sink_event list" where
  "sync_events loggers m =
     (case (am_type m, am_worker m) of
        (Log, Some w) \<Rightarrow> catch_and_handle (sink_it (\<lambda>_. None) (loggers w) (the (to_log_msg loggers m)))
      | (Flush, Some w) \<Rightarrow> logger_flush (\<lambda>_. None) (loggers w)
      | _ \<Rightarrow> [])"

lemma process_sync: "snd (the (process_msg loggers (\<lambda>_. None) m)) = sync_events loggers m"
  if "am_type m = Terminate \<or> am_worker m \<noteq> None"
  using that
  by (cases "am_type m")
    (auto simp: process_msg_def sync_events_def backend_log_def backend_flush_def logger_flush_def
      logger_flush_raw_def sink_it_def sinks_log_def each_total to_log_msg_def)

lemma process_defined: "process_msg loggers throws m \<noteq> None \<Longrightarrow> am_type m = Terminate \<or> am_worker m \<noteq> None"
  by (cases "am_type m"; cases "am_worker m") (simp_all add: process_msg_def to_log_msg_def)

section \<open>Sample runs\<close>

text \<open>
  Concrete runs for the examples below: a logger with one sink, a client that posts two log messages
  and one that posts a flush.
\<close>

definition no_msg :: log_msg where
  "no_msg = \<lparr>lm_logger_name = None, lm_level = Trace, lm_time = 0, lm_thread_id = 0, lm_raw = [],
     lm_msg_id = 0, lm_color_range_start = 0, lm_color_range_end = 0\<rparr>"

definition sample_sink :: sink where
  "sample_sink = \<lparr>sink_id = 1, sink_level = Info\<rparr>"

definition sample_loggers :: "nat \<Rightarrow> logger" where
  "sample_loggers w = new_logger ''net'' [sample_sink]"

definition sample_text :: log_msg where
  "sample_text = new_log_msg ''net'' Warn 42 7 ''up''"

abbreviation log_post :: post where "log_post \<equiv> post_log 0 sample_text Block"
abbreviation flush_post :: post where "flush_post \<equiv> post_flush 0 no_msg Block"

definition sample_clients :: "producer multiset" where
  "sample_clients = {#(Posting, [log_post, log_post]), (Posting, [flush_post])#}"

lemma sample_posts:
  "log_post = (fst log_post, Block)" "client_msg (fst log_post)"
  "flush_post = (fst flush_post, Block)" "client_msg (fst flush_post)"
  by (simp_all add: post_log_def post_flush_def new_async_msg_def client_msg_def)

lemma sample_clients_ok: "clients_ok sample_clients" "\<forall>p \<in># sample_clients. \<forall>x \<in> set (snd p). snd x = Block"
  using sample_posts by (auto simp: clients_ok_def sample_clients_def post_log_def post_flush_def)

lemma pool_run_steps:
  "(pool_step loggers throws)\<^sup>*\<^sup>* s s' \<Longrightarrow> pool_run loggers throws m0 d c n clients s \<Longrightarrow>
     pool_run loggers throws m0 d c n clients s'"
  by (induction rule: rtranclp_induct) (auto simp: pool_run_def intro: reachable.step)

lemma pool_run_step:
  "pool_step loggers throws s s' \<Longrightarrow> pool_run loggers throws m0 d c n clients s \<Longrightarrow>
     pool_run loggers throws m0 d c n clients s'"
  by (auto simp: pool_run_def intro: reachable.step)

lemma pool_run_destroy:
  "pool_destroy m0 s s' \<Longrightarrow> pool_run loggers throws m0 d c n clients s \<Longrightarrow>
     pool_run loggers throws m0 d c n clients s'"
  by (auto simp: pool_run_def intro: reachable.destructor)

text \<open>The states of a run by their components.\<close>

abbreviation st where
  "st q P W des po re pr ev \<equiv>
     \<lparr>queue = q, producers = P, workers = W, destroying = des, posted = po, removed = re,
      processed = pr, events = ev\<rparr>"

lemma start_run:
  assumes "0 < n" "n \<le> 1000"
  shows "pool_run loggers throws m0 d c n clients
           (st (new_circular_q d c) clients (replicate_mset n Dequeuing) False [] [] [] [])"
  using assms reachable.start by (auto simp: pool_run_def new_pool_def)

lemma step_post:
  assumes "q_inv q" "length (q_items q) < q_cap q"
  obtains q' where "q_inv q'" "q_cap q' = q_cap q" "q_items q' = q_items q @ [m]"
    "pool_step loggers throws (st q (add_mset (Posting, (m, Block) # ps) P) W des po re pr ev)
       (st q' (add_mset (Notify_push, ps) P) W des (po @ [m]) re pr ev)"
proof -
  have nf: "\<not> q_full q" using ring.full_law [OF assms(1)] assms(2) by simp
  then obtain q' where q': "push_back q m = Some q'" "q_inv q'" "q_cap q' = q_cap q" "q_items q' = q_items q @ [m]"
    using ring.push_room [OF assms(1), of m] by blast
  have "pool_step loggers throws (st q (add_mset (Posting, (m, Block) # ps) P) W des po re pr ev)
       (st q' (add_mset (Notify_push, ps) P) W des (po @ [m]) re pr ev)"
    using pool_step.enqueue [of "st q (add_mset (Posting, (m, Block) # ps) P) W des po re pr ev" m ps P q'] nf q'(1)
    by simp
  with q' show thesis using that by blast
qed

lemma step_take:
  assumes "q_inv q" "q_items q = m # ms"
  obtains q' where "q_inv q'" "q_cap q' = q_cap q" "q_items q' = ms"
    "pool_step loggers throws (st q P (add_mset Dequeuing W) des po re pr ev)
       (st q' P (add_mset (Notify_pop m) W) des po (re @ [(True, m)]) pr ev)"
proof -
  have ne: "\<not> q_empty q" using ring.empty_law [OF assms(1)] assms(2) by simp
  obtain q' where q': "pop_front q = Some (m, q')" "q_inv q'" "q_cap q' = q_cap q" "q_items q' = ms"
    using pop_front_law [OF assms] by blast
  have "pool_step loggers throws (st q P (add_mset Dequeuing W) des po re pr ev)
       (st q' P (add_mset (Notify_pop m) W) des po (re @ [(True, m)]) pr ev)"
    using pool_step.dequeue [of "st q P (add_mset Dequeuing W) des po re pr ev" W m q'] ne q'(1) by simp
  with q' show thesis using that by blast
qed

text \<open>One client, one worker: the worker waits, and is woken for the next message, which it processes.\<close>

lemma one_message:
  assumes "q_inv q" "q_items q = []" "0 < q_cap q" "process_msg loggers throws m = Some (go_on, es)"
    and "Asleep \<notin># image_mset fst P"
  obtains q' where "q_inv q'" "q_cap q' = q_cap q" "q_items q' = []"
    "(pool_step loggers throws)\<^sup>*\<^sup>* (st q (add_mset (Posting, (m, Block) # ps) P) {#Dequeuing#} des po re pr ev)
       (st q' (add_mset (Posting, ps) P) {#if go_on then Dequeuing else Exited#} des
          (po @ [m]) (re @ [(True, m)]) (pr @ [m]) (ev @ es))"
proof -
  let ?step = "pool_step loggers throws" and ?A = "add_mset (Posting, (m, Block) # ps) P"
    and ?N = "add_mset (Notify_push, ps) P" and ?B = "add_mset (Posting, ps) P"
  have "q_empty q" using ring.empty_law [OF assms(1)] assms(2) by simp
  then have 1: "?step (st q ?A {#Dequeuing#} des po re pr ev) (st q ?A {#Waiting#} des po re pr ev)"
    using pool_step.dequeue_wait [of "st q ?A {#Dequeuing#} des po re pr ev" "{#}"] by simp
  have "length (q_items q) < q_cap q" using assms(2,3) by simp
  from step_post [OF assms(1) this] obtain q1 where q1: "q_inv q1" "q_cap q1 = q_cap q" "q_items q1 = [m]"
    and 2: "?step (st q ?A {#Waiting#} des po re pr ev) (st q1 ?N {#Waiting#} des (po @ [m]) re pr ev)"
    using assms(2) by (metis append_Nil)
  have 3: "?step (st q1 ?N {#Waiting#} des (po @ [m]) re pr ev) (st q1 ?B {#Dequeuing#} des (po @ [m]) re pr ev)"
    using pool_step.notify_push_wake [of "st q1 ?N {#Waiting#} des (po @ [m]) re pr ev" ps P "{#}"] by simp
  from step_take [OF q1(1,3)] obtain q2 where q2: "q_inv q2" "q_cap q2 = q_cap q1" "q_items q2 = []"
    and 4: "?step (st q1 ?B {#Dequeuing#} des (po @ [m]) re pr ev)
      (st q2 ?B {#Notify_pop m#} des (po @ [m]) (re @ [(True, m)]) pr ev)" by metis
  have 5: "?step (st q2 ?B {#Notify_pop m#} des (po @ [m]) (re @ [(True, m)]) pr ev)
      (st q2 ?B {#Processing m#} des (po @ [m]) (re @ [(True, m)]) pr ev)"
    using pool_step.notify_pop_none [of "st q2 ?B {#Notify_pop m#} des (po @ [m]) (re @ [(True, m)]) pr ev" m "{#}"]
      assms(5) by simp
  have 6: "?step (st q2 ?B {#Processing m#} des (po @ [m]) (re @ [(True, m)]) pr ev)
      (st q2 ?B {#if go_on then Dequeuing else Exited#} des (po @ [m]) (re @ [(True, m)]) (pr @ [m]) (ev @ es))"
    using pool_step.process [of "st q2 ?B {#Processing m#} des (po @ [m]) (re @ [(True, m)]) pr ev" m "{#}"] assms(4)
    by simp
  note steps = rtranclp.rtrancl_into_rtrancl [of ?step]
  from steps [OF steps [OF steps [OF steps [OF steps [OF r_into_rtranclp [of ?step, OF 1] 2] 3] 4] 5] 6]
  show thesis using that q1(2) q2 by simp
qed

lemma run_message:
  assumes "pool_run loggers throws m0 d c n clients
      (st q (add_mset (Posting, (m, Block) # ps) P) {#Dequeuing#} des po re pr ev)"
    and "q_inv q" "q_items q = []" "0 < q_cap q" "process_msg loggers throws m = Some (go_on, es)"
    and "Asleep \<notin># image_mset fst P"
  obtains q' where "q_inv q'" "0 < q_cap q'" "q_items q' = []"
    "pool_run loggers throws m0 d c n clients
       (st q' (add_mset (Posting, ps) P) {#if go_on then Dequeuing else Exited#} des
          (po @ [m]) (re @ [(True, m)]) (pr @ [m]) (ev @ es))"
proof -
  obtain q' where "q_inv q'" "q_cap q' = q_cap q" "q_items q' = []"
    and "(pool_step loggers throws)\<^sup>*\<^sup>* (st q (add_mset (Posting, (m, Block) # ps) P) {#Dequeuing#} des po re pr ev)
       (st q' (add_mset (Posting, ps) P) {#if go_on then Dequeuing else Exited#} des
          (po @ [m]) (re @ [(True, m)]) (pr @ [m]) (ev @ es))"
    by (rule one_message [OF assms(2-6)])
  then show thesis using that pool_run_steps [OF _ assms(1)] assms(4) by simp
qed

text \<open>
  A run to the end with one worker: the two log messages and the flush are processed, then the
  destructor's message.
\<close>

definition sample_events :: "sink_event list" where
  "sample_events =
     (let msg = sample_text\<lparr>lm_logger_name := Some ''net''\<rparr>
      in [Sink_log sample_sink msg, Sink_log sample_sink msg, Sink_flush sample_sink])"

lemma sample_processed:
  "process_msg sample_loggers (\<lambda>_. None) (fst log_post)
     = Some (True, [Sink_log sample_sink (sample_text\<lparr>lm_logger_name := Some ''net''\<rparr>)])"
  "process_msg sample_loggers (\<lambda>_. None) (fst flush_post) = Some (True, [Sink_flush sample_sink])"
  by (simp_all add: process_msg_def post_log_def post_flush_def new_async_msg_def to_log_msg_def backend_log_def
      backend_flush_def sinks_log_def each_total sample_loggers_def new_logger_def sample_sink_def sink_should_log_def
      sample_text_def new_log_msg_def should_flush_def less_eq_level_enum_def)

lemma destroy_idle:
  "pool_destroy m0 (st q {#(Posting, []), (Posting, [])#} {#w#} False po re pr ev)
     (st q {#(Posting, [(term_msg m0, Block)])#} {#w#} True po re pr ev)"
  using pool_destroy.destroy [of "st q {#(Posting, []), (Posting, [])#} {#w#} False po re pr ev" m0]
  by (simp add: terminate_post_eq)

lemma sample_clients_eq:
  "sample_clients = {#(Posting, [(fst log_post, Block), (fst log_post, Block)]), (Posting, [(fst flush_post, Block)])#}"
  using sample_posts(1,3) by (simp add: sample_clients_def)

lemma empty_ring:
  "q_inv (new_circular_q d 2)" "q_cap (new_circular_q d 2) = 2" "q_items (new_circular_q d 2) = []"
  by (simp_all add: new_circular_q_def q_inv_def q_cap_def q_items_def q_count_def)

lemma sample_run_down:
  obtains s where "pool_run sample_loggers (\<lambda>_. None) no_msg (term_msg no_msg) 2 1 sample_clients s" "pool_down s"
    "posted s = [fst log_post, fst log_post, fst flush_post, term_msg no_msg]" "events s = sample_events"
proof -
  let ?run = "pool_run sample_loggers (\<lambda>_. None) no_msg (term_msg no_msg) 2 1 sample_clients"
    and ?l = "fst log_post" and ?f = "fst flush_post" and ?t = "term_msg no_msg"
  let ?le = "[Sink_log sample_sink (sample_text\<lparr>lm_logger_name := Some ''net''\<rparr>)]"
  have idle: "Asleep \<notin># image_mset fst {#(Posting, ps :: post list)#}" "Asleep \<notin># image_mset fst {#}" for ps by simp_all
  have r0: "?run (st (new_circular_q ?t 2) {#(Posting, [(?l, Block), (?l, Block)]), (Posting, [(?f, Block)])#}
      {#Dequeuing#} False [] [] [] [])"
    using start_run [of 1 _ _ _ ?t 2 sample_clients] by (simp add: sample_clients_eq)
  have cap: "0 < q_cap (new_circular_q ?t 2)" by (simp add: empty_ring)
  obtain q1 where q1: "q_inv q1" "0 < q_cap q1" "q_items q1 = []"
    and r1: "?run (st q1 {#(Posting, [(?l, Block)]), (Posting, [(?f, Block)])#} {#Dequeuing#} False ([] @ [?l])
      ([] @ [(True, ?l)]) ([] @ [?l]) ([] @ ?le))"
    by (rule run_message [OF r0 empty_ring(1,3) cap sample_processed(1) idle(1)]) (simp only: if_True)
  note cap = q1(2)
  obtain q2 where q2: "q_inv q2" "0 < q_cap q2" "q_items q2 = []"
    and r2: "?run (st q2 {#(Posting, []), (Posting, [(?f, Block)])#} {#Dequeuing#} False (([] @ [?l]) @ [?l])
      (([] @ [(True, ?l)]) @ [(True, ?l)]) (([] @ [?l]) @ [?l]) (([] @ ?le) @ ?le))"
    by (rule run_message [OF r1 q1(1,3) cap sample_processed(1) idle(1)]) (simp only: if_True)
  note cap = q2(2)
  have r2: "?run (st q2 {#(Posting, [(?f, Block)]), (Posting, [])#} {#Dequeuing#} False (([] @ [?l]) @ [?l])
      (([] @ [(True, ?l)]) @ [(True, ?l)]) (([] @ [?l]) @ [?l]) (([] @ ?le) @ ?le))"
    using r2 by (simp only: add_mset_commute)
  obtain q3 where q3: "q_inv q3" "0 < q_cap q3" "q_items q3 = []"
    and r3: "?run (st q3 {#(Posting, []), (Posting, [])#} {#Dequeuing#} False ((([] @ [?l]) @ [?l]) @ [?f])
      ((([] @ [(True, ?l)]) @ [(True, ?l)]) @ [(True, ?f)]) ((([] @ [?l]) @ [?l]) @ [?f])
      ((([] @ ?le) @ ?le) @ [Sink_flush sample_sink]))"
    by (rule run_message [OF r2 q2(1,3) cap sample_processed(2) idle(1)]) (simp only: if_True)
  note cap = q3(2)
  have r4: "?run (st q3 {#(Posting, [(?t, Block)])#} {#Dequeuing#} True ((([] @ [?l]) @ [?l]) @ [?f])
      ((([] @ [(True, ?l)]) @ [(True, ?l)]) @ [(True, ?f)]) ((([] @ [?l]) @ [?l]) @ [?f])
      ((([] @ ?le) @ ?le) @ [Sink_flush sample_sink]))"
    by (rule pool_run_destroy [OF _ r3]) (rule destroy_idle)
  obtain q4 where r5: "?run (st q4 {#(Posting, [])#} {#Exited#} True (((([] @ [?l]) @ [?l]) @ [?f]) @ [?t])
      (((([] @ [(True, ?l)]) @ [(True, ?l)]) @ [(True, ?f)]) @ [(True, ?t)]) (((([] @ [?l]) @ [?l]) @ [?f]) @ [?t])
      (((([] @ ?le) @ ?le) @ [Sink_flush sample_sink]) @ []))"
    by (rule run_message [OF r4 q3(1,3) cap term_msg_simps(3) idle(2)]) (simp only: if_False)
  show thesis by (rule that [OF r5]) (simp_all add: pool_down_def sample_events_def Let_def)
qed

text \<open>
  In every reachable state the elements of the ring are exactly the messages posted and not yet
  removed, in the order of the posts, at most the capacity of them; and each message that a worker
  took is processed, or in the hands of exactly one worker.
\<close>

theorem pool_invariant:
  assumes "pool_run loggers throws m0 d c n clients s" "c < 2 ^ 64 - 1" "clients_ok clients"
  shows "posted s = map snd (removed s) @ q_items (queue s) \<and> length (q_items (queue s)) \<le> c
    \<and> mset (taken s) = mset (processed s) + held (workers s) \<and> size (workers s) = n"
  using pool_run_inv [OF assms] ring.bound_law [of "queue s"]
  by (auto simp: pool_inv_def inv_queue_def inv_held_def inv_clients_def inv_shutdown_def split: if_splits)

theorem pool_invariant_witness:
  "\<exists>s :: pool. posted s \<noteq> [] \<and> posted s = map snd (removed s) @ q_items (queue s) \<and> size (workers s) = 1"
proof -
  obtain s where s: "pool_run sample_loggers (\<lambda>_. None) no_msg (term_msg no_msg) 2 1 sample_clients s"
    "posted s = [fst log_post, fst log_post, fst flush_post, term_msg no_msg]"
    by (rule sample_run_down)
  have "posted s \<noteq> []" by (simp add: s(2))
  then show ?thesis using pool_invariant [OF s(1) _ sample_clients_ok(1)] by (intro exI [of _ s] conjI) simp_all
qed

text \<open>
  C3. No wake-up is lost: while a poster sleeps for room, the free cells are at most the posters about
  to use them and the workers about to notify; while a worker sleeps, the waiting messages are at
  most the workers about to take them and the posters about to notify. With nobody awake, a
  sleeping poster so means a full queue, and a sleeping worker an empty one.
\<close>

theorem pool_no_lost_wakeup:
  assumes "pool_run loggers throws m0 d c n clients s" "c < 2 ^ 64 - 1" "clients_ok clients"
  shows "(0 < n_asleep (producers s) \<longrightarrow>
        c - length (q_items (queue s)) \<le> n_awake (producers s) + n_notify_pop (workers s))
    \<and> (0 < count (workers s) Waiting \<longrightarrow>
        length (q_items (queue s)) \<le> count (workers s) Dequeuing + n_notify_push (producers s))"
  using pool_run_inv [OF assms] by (auto simp: pool_inv_def inv_wake_def inv_queue_def)

text \<open>
  The example is a state in which both cases are at stake: a client sleeps although a cell is free,
  and a worker sleeps although a message waits.
\<close>

lemma run_wait:
  "pool_run loggers throws m0 d c n clients (st q P V des po re pr ev) \<Longrightarrow> V = add_mset Dequeuing W \<Longrightarrow> q_empty q \<Longrightarrow>
     pool_run loggers throws m0 d c n clients (st q P (add_mset Waiting W) des po re pr ev)"
  by (rule pool_run_step [rotated], assumption)
    (use pool_step.dequeue_wait [of "st q P V des po re pr ev" W] in simp)

lemma run_wake:
  "pool_run loggers throws m0 d c n clients (st q (add_mset (Notify_push, ps) P) V des po re pr ev) \<Longrightarrow>
     V = add_mset Waiting W \<Longrightarrow>
     pool_run loggers throws m0 d c n clients (st q (add_mset (Posting, ps) P) (add_mset Dequeuing W) des po re pr ev)"
  by (rule pool_run_step [rotated], assumption)
    (use pool_step.notify_push_wake [of "st q (add_mset (Notify_push, ps) P) V des po re pr ev" ps P W] in simp)

lemma run_sleep:
  "pool_run loggers throws m0 d c n clients (st q Q W des po re pr ev) \<Longrightarrow>
     Q = add_mset (Posting, (m, Block) # ps) P \<Longrightarrow> q_full q \<Longrightarrow>
     pool_run loggers throws m0 d c n clients (st q (add_mset (Asleep, (m, Block) # ps) P) W des po re pr ev)"
  by (rule pool_run_step [rotated], assumption)
    (use pool_step.enqueue_wait [of "st q Q W des po re pr ev" m ps P] in simp)

lemma run_post:
  assumes "pool_run loggers throws m0 d c n clients (st q (add_mset (Posting, (m, Block) # ps) P) W des po re pr ev)"
    and "q_inv q" "q_items q = xs" "length xs < q_cap q"
  obtains q' where "q_inv q'" "q_cap q' = q_cap q" "q_items q' = xs @ [m]"
    "pool_run loggers throws m0 d c n clients (st q' (add_mset (Notify_push, ps) P) W des (po @ [m]) re pr ev)"
proof -
  have "length (q_items q) < q_cap q" using assms(3,4) by simp
  from step_post [OF assms(2) this, of m loggers throws ps P W des po re pr ev]
  obtain q' where "q_inv q'" "q_cap q' = q_cap q" "q_items q' = q_items q @ [m]"
    "pool_step loggers throws (st q (add_mset (Posting, (m, Block) # ps) P) W des po re pr ev)
       (st q' (add_mset (Notify_push, ps) P) W des (po @ [m]) re pr ev)" .
  then show thesis using that pool_run_step [OF _ assms(1)] unfolding assms(3) by blast
qed

lemma run_take:
  assumes "pool_run loggers throws m0 d c n clients (st q P V des po re pr ev)" "V = add_mset Dequeuing W"
    and "q_inv q" "q_items q = m # ms"
  obtains q' where "q_items q' = ms"
    "pool_run loggers throws m0 d c n clients (st q' P (add_mset (Notify_pop m) W) des po (re @ [(True, m)]) pr ev)"
  using step_take [OF assms(3,4), of loggers throws P W des po re pr ev]
    pool_run_step [OF _ assms(1) [unfolded assms(2)]] by metis

lemma busy_run:
  obtains s where "pool_run loggers throws m0 d 2 3 sample_clients s" "n_asleep (producers s) = 1"
    "count (workers s) Waiting = 1" "length (q_items (queue s)) = 1" "n_awake (producers s) = 0"
    "n_notify_push (producers s) = 1"
proof -
  let ?l = "fst log_post" and ?f = "fst flush_post"
  let ?F = "(Posting, [(?f, Block)]) :: producer"
  have r0: "pool_run loggers throws m0 d 2 3 sample_clients (st (new_circular_q d 2)
      (add_mset (Posting, [(?l, Block), (?l, Block)]) {#?F#}) {#Dequeuing, Dequeuing, Dequeuing#} False [] [] [] [])"
    using start_run [of 3 loggers throws m0 d 2 sample_clients] unfolding sample_clients_eq
    by (simp add: numeral_3_eq_3)
  have e: "q_empty (new_circular_q d 2)" using ring.empty_law [OF empty_ring(1)] by (simp add: empty_ring)
  have w: "{#Waiting, Dequeuing, Dequeuing#} = add_mset Dequeuing {#Waiting, Dequeuing#}"
    "{#Waiting, Waiting, Dequeuing#} = add_mset Waiting {#Waiting, Dequeuing#}"
    by (simp_all add: add_mset_commute)
  note r2 = run_wait [OF run_wait [OF r0 refl e] w(1) e]
  have l: "length [] < q_cap (new_circular_q d 2)" by (simp add: empty_ring)
  obtain q1 where q1: "q_inv q1" "q_cap q1 = q_cap (new_circular_q d 2)" "q_items q1 = [] @ [?l]"
    and r3: "pool_run loggers throws m0 d 2 3 sample_clients (st q1 (add_mset (Notify_push, [(?l, Block)]) {#?F#})
      (add_mset Waiting {#Waiting, Dequeuing#}) False ([] @ [?l]) [] [] [])"
    by (rule run_post [OF r2 empty_ring(1,3) l])
  note r4 = run_wake [OF r3 refl]
  have l: "length ([] @ [?l]) < q_cap q1" by (simp add: q1 empty_ring)
  obtain q2 where q2: "q_inv q2" "q_cap q2 = q_cap q1" "q_items q2 = ([] @ [?l]) @ [?l]"
    and r5: "pool_run loggers throws m0 d 2 3 sample_clients (st q2 (add_mset (Notify_push, []) {#?F#})
      (add_mset Dequeuing {#Waiting, Dequeuing#}) False (([] @ [?l]) @ [?l]) [] [] [])"
    by (rule run_post [OF r4 q1(1,3) l])
  have "length (q_items q2) = q_cap q2" unfolding q2 by (simp add: q1 empty_ring)
  then have full: "q_full q2" using ring.full_law [OF q2(1)] by simp
  have p: "add_mset (Notify_push, []) {#?F#} = add_mset (Posting, [(?f, Block)]) {#(Notify_push, [])#}"
    by (rule add_mset_commute)
  have i: "q_items q2 = ?l # [?l]" using q2(3) by simp
  obtain q3 where q3: "q_items q3 = [?l]"
    and r7: "pool_run loggers throws m0 d 2 3 sample_clients (st q3 (add_mset (Asleep, [(?f, Block)]) {#(Notify_push, [])#})
      (add_mset (Notify_pop ?l) {#Waiting, Dequeuing#}) False (([] @ [?l]) @ [?l]) ([] @ [(True, ?l)]) [] [])"
    by (rule run_take [OF run_sleep [OF r5 p full] refl q2(1) i])
  have z: "n_asleep {#} = 0" "n_awake {#} = 0" "n_notify_push {#} = 0"
    by (simp_all add: n_asleep_def n_awake_def n_notify_push_def)
  have "q_count q3 = 1" using q3 length_q_items [of q3] by simp
  then show thesis by (intro that [OF r7]) (simp_all add: z)
qed

theorem pool_no_lost_wakeup_witness:
  "\<exists>s :: pool. n_asleep (producers s) = 1 \<and> count (workers s) Waiting = 1 \<and> length (q_items (queue s)) = 1
     \<and> n_awake (producers s) = 0
     \<and> 2 - length (q_items (queue s)) \<le> n_awake (producers s) + n_notify_pop (workers s)
     \<and> length (q_items (queue s)) \<le> count (workers s) Dequeuing + n_notify_push (producers s)"
proof -
  obtain s where s: "pool_run sample_loggers (\<lambda>_. None) no_msg (term_msg no_msg) 2 3 sample_clients s"
    "n_asleep (producers s) = 1" "count (workers s) Waiting = 1" "length (q_items (queue s)) = 1"
    "n_awake (producers s) = 0" "n_notify_push (producers s) = 1"
    by (rule busy_run)
  show ?thesis
    by (rule exI [of _ s]) (use pool_no_lost_wakeup [OF s(1) _ sample_clients_ok(1)] s(2-) in simp)
qed

text \<open>
  C6. Shutdown ends: once the destructor of a pool of positive capacity has started, no progress step
  is possible for ever (each one reduces the work left), and progress alone leads to the state in
  which every worker has returned and nothing is left to post, so that all \<open>join\<close> calls return.
\<close>

theorem pool_shutdown_ends:
  assumes "pool_run loggers throws m0 d c n clients s" "0 < c" "c < 2 ^ 64 - 1" "clients_ok clients"
    and "destroying s"
  shows "(\<forall>s'. pool_step loggers throws s s' \<longrightarrow> work s' < work s)
    \<and> (\<exists>s'. (pool_step loggers throws)\<^sup>*\<^sup>* s s' \<and> pool_down s')"
proof
  note iv = pool_run_inv [OF assms(1,3,4)]
  then have "q_inv (queue s)" "\<forall>p \<in># producers s. fst p = Asleep \<longrightarrow> snd p \<noteq> []"
    by (auto simp: pool_inv_def inv_queue_def inv_wake_def)
  then show "\<forall>s'. pool_step loggers throws s s' \<longrightarrow> work s' < work s" using step_work by blast
  show "\<exists>s'. (pool_step loggers throws)\<^sup>*\<^sup>* s s' \<and> pool_down s'"
    by (rule work_to_down [OF iv(1) assms(5,2)])
qed

theorem pool_shutdown_ends_witness:
  "\<exists>q s. q_items q = [fst flush_post]
     \<and> (pool_step sample_loggers (\<lambda>_. None))\<^sup>*\<^sup>*
         (st q {#(Posting, replicate 3 (terminate_post no_msg))#} (replicate_mset 3 Dequeuing) True [fst flush_post] [] [] []) s
     \<and> pool_down s"
proof -
  let ?f = "fst flush_post" and ?C = "{#(Posting, [(fst flush_post, Block)])#} :: producer multiset" and ?t = "term_msg no_msg"
    and ?W = "replicate_mset 3 Dequeuing"
  let ?run = "pool_run sample_loggers (\<lambda>_. None) no_msg ?t 2 3 ?C"
  define q0 where "q0 = new_circular_q ?t 2"
  have q0: "q_inv q0" "q_cap q0 = 2" "q_items q0 = []"
    by (simp_all add: q0_def new_circular_q_def q_inv_def q_cap_def q_items_def q_count_def)
  have ok: "clients_ok ?C" using sample_posts by (simp add: clients_ok_def)
  have r0: "?run (st q0 ?C ?W False [] [] [] [])" using start_run [of 3] by (simp add: q0_def)
  have "length (q_items q0) < q_cap q0" by (simp only: q0) simp
  from step_post [OF q0(1) this, of ?f] obtain q where q: "q_items q = [?f]"
    and s1: "pool_step sample_loggers (\<lambda>_. None) (st q0 ?C ?W False [] [] [] []) (st q {#(Notify_push, [])#} ?W False [?f] [] [] [])"
    unfolding q0(2,3) by (metis append_Nil)
  have s2: "pool_step sample_loggers (\<lambda>_. None) (st q {#(Notify_push, [])#} ?W False [?f] [] [] []) (st q {#(Posting, [])#} ?W False [?f] [] [] [])"
    using pool_step.notify_push_none [of "st q {#(Notify_push, [])#} ?W False [?f] [] [] []" "[]" "{#}"] by simp
  have "pool_destroy no_msg (st q {#(Posting, [])#} ?W False [?f] [] [] [])
      (st q {#(Posting, replicate 3 (terminate_post no_msg))#} ?W True [?f] [] [] [])"
    using pool_destroy.destroy [of "st q {#(Posting, [])#} ?W False [?f] [] [] []" no_msg] by simp
  note r3 = pool_run_destroy [OF this pool_run_step [OF s2 pool_run_step [OF s1 r0]]]
  show ?thesis using pool_shutdown_ends [OF r3 _ _ ok] q by auto
qed

text \<open>
  C4. When the pool is down, no message is left in the queue or in a worker's hands: every message
  that was posted has been processed exactly once, or was dropped by an overrun.
\<close>

theorem pool_all_processed:
  assumes "pool_run loggers throws m0 d c n clients s" "c < 2 ^ 64 - 1" "clients_ok clients" "pool_down s"
  shows "q_items (queue s) = [] \<and> held (workers s) = {#}
    \<and> mset (posted s) = mset (processed s) + mset (dropped s)"
proof -
  note iv = pool_run_inv [OF assms(1-3)]
  show ?thesis using down_empty [OF iv(1) assms(4) iv(2)] down_accounting [OF iv(1) assms(4) iv(2)] by blast
qed

theorem pool_all_processed_witness:
  "\<exists>s. pool_down s \<and> posted s = [fst log_post, fst log_post, fst flush_post, term_msg no_msg]
     \<and> q_items (queue s) = [] \<and> held (workers s) = {#} \<and> mset (posted s) = mset (processed s) + mset (dropped s)"
proof -
  obtain s where s: "pool_run sample_loggers (\<lambda>_. None) no_msg (term_msg no_msg) 2 1 sample_clients s" "pool_down s"
    "posted s = [fst log_post, fst log_post, fst flush_post, term_msg no_msg]"
    by (rule sample_run_down)
  show ?thesis
    by (rule exI [of _ s]) (use pool_all_processed [OF s(1) _ sample_clients_ok(1) s(2)] s(2,3) in simp)
qed

text \<open>
  C5. Asynchronous logging is synchronous logging done later: with one worker, the blocking policy and
  sinks that do not throw, a pool that is down has made exactly the sink calls of the synchronous
  logger for the messages in the order they were posted.
\<close>

theorem async_equals_sync:
  assumes "pool_run loggers (\<lambda>_. None) m0 d c 1 clients s" "c < 2 ^ 64 - 1" "clients_ok clients"
    and "\<forall>p \<in># clients. \<forall>x \<in> set (snd p). snd x = Block" "pool_down s"
  shows "events s = concat (map (sync_events loggers) (posted s))"
proof -
  note iv = pool_run_inv [OF assms(1-3)]
  obtain s0 where s0: "new_pool d c 1 clients = Inr s0" "reachable loggers (\<lambda>_. None) m0 s0 s"
    using assms(1) by (auto simp: pool_run_def)
  have "inv_block s0" "inv_single loggers (\<lambda>_. None) s0"
    using s0(1) assms(4) by (auto simp: new_pool_def inv_block_def inv_single_def split: if_splits)
  then have b: "inv_block s" and sg: "inv_single loggers (\<lambda>_. None) s"
    using reachable_single [OF s0(2)] by auto
  have "size (workers s) = 1"
    using iv by (auto simp: pool_inv_def inv_clients_def inv_shutdown_def split: if_splits)
  then obtain w where w: "workers s = {#w#}" using size_1_singleton_mset by blast
  have "w = Exited" using assms(5) w by (auto simp: pool_down_def)
  then have "map snd (removed s) = processed s" using sg w by (auto simp: inv_single_def)
  moreover have "posted s = map snd (removed s)"
    using iv(1) down_empty(1) [OF iv(1) assms(5) iv(2)] by (simp add: pool_inv_def inv_queue_def)
  ultimately have p: "posted s = processed s" by simp
  have "process_msg loggers (\<lambda>_. None) m \<noteq> None" if "m \<in> set (posted s)" for m
    using sg that by (simp add: inv_single_def p)
  then have "am_type m = Terminate \<or> am_worker m \<noteq> None" if "m \<in> set (posted s)" for m
    using process_defined that by blast
  then have "map (\<lambda>m. snd (the (process_msg loggers (\<lambda>_. None) m))) (processed s) = map (sync_events loggers) (posted s)"
    unfolding p by (intro map_cong refl process_sync) auto
  then show ?thesis using sg by (simp add: inv_single_def)
qed

theorem async_equals_sync_witness:
  "\<exists>s. pool_down s \<and> posted s = [fst log_post, fst log_post, fst flush_post, term_msg no_msg]
     \<and> events s = concat (map (sync_events sample_loggers) (posted s))
     \<and> events s = [Sink_log sample_sink (sample_text\<lparr>lm_logger_name := Some ''net''\<rparr>),
                   Sink_log sample_sink (sample_text\<lparr>lm_logger_name := Some ''net''\<rparr>), Sink_flush sample_sink]"
proof -
  obtain s where s: "pool_run sample_loggers (\<lambda>_. None) no_msg (term_msg no_msg) 2 1 sample_clients s" "pool_down s"
    "posted s = [fst log_post, fst log_post, fst flush_post, term_msg no_msg]" "events s = sample_events"
    by (rule sample_run_down)
  have "events s = concat (map (sync_events sample_loggers) (posted s))"
    using async_equals_sync [OF s(1) _ sample_clients_ok s(2)] by simp
  moreover have "events s = [Sink_log sample_sink (sample_text\<lparr>lm_logger_name := Some ''net''\<rparr>),
                   Sink_log sample_sink (sample_text\<lparr>lm_logger_name := Some ''net''\<rparr>), Sink_flush sample_sink]"
    unfolding s(4) sample_events_def Let_def ..
  ultimately show ?thesis using s(2,3) by blast
qed

end
