(* ===== verification/Node_Set.thy ===== *)
theory Node_Set
  imports Prelude "HOL-Library.Multiset" "HOL-Library.Sublist"
begin

text \<open>
  The hash set \<open>NodeSet\<close> of \<open>abel/synchronization/internal/graphcycles.cc\<close>: node numbers in an open
  addressing table with linear probing and deletion marks. Its clients rely on the locale
  \<open>finite_set_impl\<close>. This is the layer without machine widths: sizes, counts and indices are natural
  numbers. \<open>Node_Set32\<close> has the class at its widths and shows that the two agree for fewer than
  \<open>3 * 2 ^ 28\<close> insertions.
\<close>

section \<open>The interface\<close>

locale finite_set_impl =
  fixes inv :: "'s \<Rightarrow> bool"
    and elems :: "'s \<Rightarrow> int list"
    and empty :: 's
    and contains :: "'s \<Rightarrow> int \<Rightarrow> bool option"
    and insert :: "'s \<Rightarrow> int \<Rightarrow> (bool \<times> 's) option"
    and erase :: "'s \<Rightarrow> int \<Rightarrow> 's option"
  assumes distinct_law: "inv s \<Longrightarrow> distinct (elems s)"
    and nonneg_law: "inv s \<Longrightarrow> v \<in> set (elems s) \<Longrightarrow> 0 \<le> v"
    and empty_law: "inv empty" "elems empty = []"
    and contains_law: "inv s \<Longrightarrow> 0 \<le> v \<Longrightarrow> contains s v = Some (v \<in> set (elems s))"
    and insert_law: "inv s \<Longrightarrow> 0 \<le> v \<Longrightarrow>
      \<exists>s'. insert s v = Some (v \<notin> set (elems s), s') \<and> inv s' \<and> set (elems s') = Set.insert v (set (elems s))"
    and erase_law: "inv s \<Longrightarrow> 0 \<le> v \<Longrightarrow>
      \<exists>s'. erase s v = Some s' \<and> inv s' \<and> set (elems s') = set (elems s) - {v}"
begin

text \<open>An insertion of an element that is there, and its removal, restore the set.\<close>

lemma insert_erase:
  assumes "inv s" "0 \<le> v" "v \<notin> set (elems s)"
  shows "\<exists>s' s''. insert s v = Some (True, s') \<and> erase s' v = Some s'' \<and> inv s'' \<and> set (elems s'') = set (elems s)"
proof -
  obtain s' where s': "insert s v = Some (True, s')" "inv s'" "set (elems s') = Set.insert v (set (elems s))"
    using insert_law [OF assms(1,2)] assms(3) by auto
  obtain s'' where "erase s' v = Some s''" "inv s''" "set (elems s'') = set (elems s') - {v}"
    using erase_law [OF s'(2) assms(2)] by blast
  then show ?thesis using s' assms(3) by auto
qed

text \<open>Erasing the elements of a list, one after the other.\<close>

fun erase_all :: "'s \<Rightarrow> int list \<Rightarrow> 's option" where
  "erase_all s [] = Some s"
| "erase_all s (v # vs) = do { s \<leftarrow> erase s v; erase_all s vs }"

lemma erase_all_law:
  "inv s \<Longrightarrow> \<forall>v \<in> set vs. 0 \<le> v \<Longrightarrow>
     \<exists>s'. erase_all s vs = Some s' \<and> inv s' \<and> set (elems s') = set (elems s) - set vs"
proof (induction vs arbitrary: s)
  case (Cons v vs)
  obtain s1 where "erase s v = Some s1" "inv s1" "set (elems s1) = set (elems s) - {v}"
    using erase_law [OF Cons.prems(1), of v] Cons.prems(2) by auto
  then show ?case using Cons.IH [of s1] Cons.prems(2) by auto
qed simp

end

section \<open>NodeSet\<close>

text \<open>
  The table's cells hold an element, \<open>kEmpty\<close> or \<open>kDel\<close>. A table has at least one cell, and
  every index is masked with the size minus one.
\<close>

definition kEmpty :: int where "kEmpty = - 1"
definition kDel :: int where "kDel = - 2"
definition kInline :: nat where "kInline = 8"

record node_set =
  table :: "int list"
  occupied :: nat

definition ns_hash :: "int \<Rightarrow> nat" where
  "ns_hash a = unat (word_of_int a * 41 :: u32)"

partial_function (option) find_loop :: "int list \<Rightarrow> int \<Rightarrow> nat \<Rightarrow> int \<Rightarrow> nat option" where
  "find_loop t v i deleted_index =
     (let e = t ! i in
      if v = e then Some i
      else if e = kEmpty then Some (if deleted_index \<ge> 0 then nat deleted_index else i)
      else find_loop t v ((i + 1) AND (length t - 1))
             (if e = kDel \<and> deleted_index < 0 then int i else deleted_index))"

definition FindIndex :: "int list \<Rightarrow> int \<Rightarrow> nat option" where
  "FindIndex t v = find_loop t v (ns_hash v AND (length t - 1)) (- 1)"

definition ns_empty :: node_set where
  "ns_empty = \<lparr>table = replicate kInline kEmpty, occupied = 0\<rparr>"

definition ns_contains :: "node_set \<Rightarrow> int \<Rightarrow> bool option" where
  "ns_contains s v = map_option (\<lambda>i. table s ! i = v) (FindIndex (table s) v)"

text \<open>
  \<open>insert\<close> up to its test of the load, on a value that is not there; the test; and \<open>Grow\<close>, which
  inserts the elements anew into a table twice as large. One of these insertions that reached the
  load limit would call \<open>Grow\<close> again: the result is \<open>None\<close> there, and \<open>ns_Grow_spec\<close> below shows that
  this does not happen.
\<close>

definition ns_put :: "node_set \<Rightarrow> nat \<Rightarrow> int \<Rightarrow> node_set" where
  "ns_put s i v =
     \<lparr>table = (table s)[i := v],
      occupied = (if table s ! i = kEmpty then occupied s + 1 else occupied s)\<rparr>"

definition ns_loaded :: "node_set \<Rightarrow> bool" where
  "ns_loaded s \<longleftrightarrow> occupied s \<ge> length (table s) - length (table s) div 4"

fun ns_reinsert :: "node_set \<Rightarrow> int list \<Rightarrow> node_set option" where
  "ns_reinsert s [] = Some s"
| "ns_reinsert s (e # es) =
     (if e \<ge> 0 then do {
        i \<leftarrow> FindIndex (table s) e;
        let s' = (if table s ! i = e then s else ns_put s i e);
        if table s ! i \<noteq> e \<and> ns_loaded s' then None else ns_reinsert s' es
      }
      else ns_reinsert s es)"

definition ns_Grow :: "node_set \<Rightarrow> node_set option" where
  "ns_Grow s = ns_reinsert \<lparr>table = replicate (length (table s) * 2) kEmpty, occupied = 0\<rparr> (table s)"

definition ns_insert :: "node_set \<Rightarrow> int \<Rightarrow> (bool \<times> node_set) option" where
  "ns_insert s v = do {
     i \<leftarrow> FindIndex (table s) v;
     if table s ! i = v then Some (False, s)
     else do {
       let s = ns_put s i v;
       s \<leftarrow> (if ns_loaded s then ns_Grow s else Some s);
       Some (True, s)
     }
   }"

definition ns_erase :: "node_set \<Rightarrow> int \<Rightarrow> node_set option" where
  "ns_erase s v = do {
     i \<leftarrow> FindIndex (table s) v;
     Some (if table s ! i = v then s\<lparr>table := (table s)[i := kDel]\<rparr> else s)
   }"

text \<open>The iteration \<open>HASH_FOR_EACH\<close> yields the cells that are not marks, from the first on.\<close>

partial_function (option) ns_Next :: "node_set \<Rightarrow> nat \<Rightarrow> (nat \<times> int option) option" where
  "ns_Next s cursor =
     (if cursor < length (table s) then
        let v = table s ! cursor in
        if v \<ge> 0 then Some (cursor + 1, Some v) else ns_Next s (cursor + 1)
      else Some (cursor, None))"

definition ns_elems :: "node_set \<Rightarrow> int list" where
  "ns_elems s = [v \<leftarrow> table s. v \<ge> 0]"

section \<open>Invariant\<close>

text \<open>Cell number \<open>d\<close> on the probe sequence of \<open>v\<close>.\<close>

definition probe :: "int list \<Rightarrow> int \<Rightarrow> nat \<Rightarrow> nat" where
  "probe t v d = (ns_hash v + d) mod length t"

definition n_occupied :: "int list \<Rightarrow> nat" where
  "n_occupied t = length [e \<leftarrow> t. e \<noteq> kEmpty]"

definition t_inv :: "int list \<Rightarrow> bool" where
  "t_inv t \<longleftrightarrow> (\<exists>k\<ge>3. length t = 2 ^ k) \<and> distinct [v \<leftarrow> t. v \<ge> 0]
     \<and> (\<forall>j < length t. 0 \<le> t ! j \<longrightarrow>
          (\<exists>d < length t. probe t (t ! j) d = j \<and> (\<forall>d' < d. t ! probe t (t ! j) d' \<noteq> kEmpty)))"

definition ns_inv :: "node_set \<Rightarrow> bool" where
  "ns_inv s \<longleftrightarrow> t_inv (table s) \<and> occupied s = n_occupied (table s) \<and> \<not> ns_loaded s"

lemma and_size:
  assumes "\<exists>k\<ge>3. length t = 2 ^ k" shows "i AND (length t - 1) = i mod length t"
proof -
  obtain k where "length t = 2 ^ k" using assms by blast
  moreover have "i AND mask k = i mod 2 ^ k" by (simp add: take_bit_eq_mod flip: take_bit_eq_mask)
  ultimately show ?thesis by (simp add: mask_eq_exp_minus_1)
qed

lemma markers [simp]: "kEmpty \<noteq> kDel" "kDel \<noteq> kEmpty" "\<not> 0 \<le> kEmpty" "\<not> 0 \<le> kDel" "kEmpty < 0" "kDel < 0"
  by (simp_all add: kEmpty_def kDel_def)

lemma nonneg_markers: "0 \<le> v \<Longrightarrow> v \<noteq> kEmpty \<and> v \<noteq> kDel"
  by (auto simp: kEmpty_def kDel_def)

lemma probe_0: "probe t v 0 = ns_hash v mod length t"
  by (simp add: probe_def)

lemma probe_Suc: "(probe t v d + 1) mod length t = probe t v (Suc d)"
  by (simp add: probe_def mod_simps)

lemma probe_less: "t_inv t \<Longrightarrow> probe t v d < length t"
  by (auto simp: probe_def t_inv_def)

text \<open>
  The search from probe \<open>d\<close> on, when probe \<open>n\<close> is the first one that holds \<open>v\<close> or is empty: it
  ends, with the index of \<open>v\<close>, or the first deleted cell, or the empty one.
\<close>

lemma find_loop_ends:
  assumes "t_inv t" "0 \<le> v" "d \<le> n" "\<forall>d' \<in> {d..<n}. t ! probe t v d' \<noteq> v \<and> t ! probe t v d' \<noteq> kEmpty"
    and "t ! probe t v n = v \<or> t ! probe t v n = kEmpty"
    and "del < 0 \<or> (\<exists>d'<d. del = int (probe t v d') \<and> t ! nat del = kDel)"
  shows "\<exists>i. find_loop t v (probe t v d) del = Some i \<and>
      (if t ! probe t v n = v then i = probe t v n
       else (\<exists>d'\<le>n. i = probe t v d' \<and> (t ! i = kDel \<or> t ! i = kEmpty)))"
  using assms(3-6)
proof (induction "n - d" arbitrary: d del)
  case 0
  then have dn: "d = n" by simp
  show ?case
  proof (cases "t ! probe t v n = v")
    case True
    then show ?thesis by (subst find_loop.simps) (simp add: Let_def dn)
  next
    case False
    then have e: "t ! probe t v n = kEmpty" using 0(4) by blast
    have "find_loop t v (probe t v d) del = Some (if 0 \<le> del then nat del else probe t v n)"
      using False e by (subst find_loop.simps) (simp add: Let_def dn)
    moreover have "\<exists>d'\<le>n. (if 0 \<le> del then nat del else probe t v n) = probe t v d' \<and>
        (t ! probe t v d' = kDel \<or> t ! probe t v d' = kEmpty)"
    proof (cases "0 \<le> del")
      case True
      then obtain d' where "d' < d" "del = int (probe t v d')" "t ! nat del = kDel" using 0(5) by auto
      then show ?thesis using True dn by (intro exI [of _ d']) simp
    next
      case del: False
      then show ?thesis using e by auto
    qed
    ultimately show ?thesis using False by auto
  qed
next
  case (Suc m)
  then have dn: "d < n" by simp
  define e where "e = t ! probe t v d"
  define del' where "del' = (if e = kDel \<and> del < 0 then int (probe t v d) else del)"
  have ne: "v \<noteq> e" "e \<noteq> kEmpty" using bspec [OF Suc.prems(2), of d] dn by (auto simp: e_def)
  have "(probe t v d + 1) AND (length t - 1) = probe t v (Suc d)"
    using assms(1) by (simp only: and_size probe_Suc t_inv_def)
  then have step: "find_loop t v (probe t v d) del = find_loop t v (probe t v (Suc d)) del'"
    using ne by (subst find_loop.simps) (simp add: Let_def e_def [symmetric] del'_def)
  have "del' < 0 \<or> (\<exists>d'<Suc d. del' = int (probe t v d') \<and> t ! nat del' = kDel)"
    using Suc.prems(4) e_def by (auto simp: del'_def less_Suc_eq)
  then show ?case
    unfolding step using Suc.hyps(1) [of "Suc d" del'] Suc.hyps(2) Suc.prems(2,3) dn by auto
qed

text \<open>The first probe of \<open>v\<close> that holds it or is empty, in a table with an empty cell.\<close>

lemma probe_covers:
  assumes "t_inv t" "j < length t"
  shows "\<exists>d < length t. probe t v d = j"
proof -
  define h where "h = ns_hash v mod length t"
  have h: "h < length t" unfolding h_def by (rule mod_less_divisor) (use assms(2) in linarith)
  define d where "d = (if h \<le> j then j - h else j + length t - h)"
  have "d < length t" using h assms(2) by (auto simp: d_def)
  moreover have "(h + d) mod length t = j"
    using h assms(2) by (auto simp: d_def mod_add_self2)
  then have "probe t v d = j" by (simp add: probe_def h_def mod_simps)
  ultimately show ?thesis by blast
qed

lemma FindIndex_spec:
  assumes "t_inv t" "0 \<le> v" "kEmpty \<in> set t"
  shows "\<exists>i. FindIndex t v = Some i \<and> i < length t \<and>
     (if v \<in> set t then t ! i = v
      else t ! i < 0 \<and> (\<exists>d < length t. i = probe t v d \<and> (\<forall>d'<d. t ! probe t v d' \<noteq> kEmpty)))"
proof -
  let ?P = "\<lambda>n. t ! probe t v n = v \<or> t ! probe t v n = kEmpty"
  obtain j where "j < length t" "t ! j = kEmpty" using assms(3) by (auto simp: in_set_conv_nth)
  then obtain d0 where d0: "d0 < length t" "?P d0" using probe_covers [OF assms(1), of j v] by auto
  define n where "n = (LEAST n. ?P n)"
  have n: "?P n" unfolding n_def by (rule LeastI [of ?P, OF d0(2)])
  have below: "\<not> ?P d'" if "d' < n" for d' using that not_less_Least unfolding n_def by blast
  have nl: "n < length t" using d0 Least_le [of ?P d0] unfolding n_def by linarith
  obtain i where i: "find_loop t v (probe t v 0) (- 1) = Some i"
      "if t ! probe t v n = v then i = probe t v n
       else (\<exists>d'\<le>n. i = probe t v d' \<and> (t ! i = kDel \<or> t ! i = kEmpty))"
    using find_loop_ends [OF assms(1,2), of 0 n "- 1"] n below by auto
  have F: "FindIndex t v = Some i"
    using i(1) assms(1) unfolding t_inv_def by (simp only: FindIndex_def and_size probe_0)
  have il: "i < length t" using i(2) probe_less [OF assms(1)] by (auto split: if_splits)
  have "if v \<in> set t then t ! i = v
      else t ! i < 0 \<and> (\<exists>d < length t. i = probe t v d \<and> (\<forall>d'<d. t ! probe t v d' \<noteq> kEmpty))"
  proof (cases "v \<in> set t")
    case True
    then obtain j where "j < length t" "t ! j = v" by (auto simp: in_set_conv_nth)
    then obtain d where d: "probe t v d = j" "\<forall>d'<d. t ! probe t v d' \<noteq> kEmpty"
      using assms(1,2) unfolding t_inv_def by blast
    have "\<not> d < n" using below [of d] d(1) \<open>t ! j = v\<close> by blast
    then have "t ! probe t v n = v"
      using n d \<open>t ! j = v\<close> nonneg_markers [OF assms(2)] by (cases "n = d") auto
    then show ?thesis using True i(2) by simp
  next
    case False
    then have "t ! probe t v n \<noteq> v" using nth_mem [OF probe_less [OF assms(1)]] by metis
    then obtain d where d: "d \<le> n" "i = probe t v d" "t ! i = kDel \<or> t ! i = kEmpty" using i(2) by auto
    then have "t ! i < 0" by auto
    moreover have "\<forall>d'<d. t ! probe t v d' \<noteq> kEmpty" using below d(1) by force
    moreover have "d < length t" using d(1) nl by simp
    ultimately show ?thesis using False d(2) by auto
  qed
  then show ?thesis using F il by blast
qed

section \<open>Updates of one cell\<close>

lemma t_inv_length_update: "length (t[i := w]) = length t" by simp

lemma probe_update [simp]: "probe (t[i := w]) v d = probe t v d"
  by (simp add: probe_def)

lemma filter_update:
  assumes "i < length t"
  shows "mset [x \<leftarrow> t[i := w]. P x] + (if P (t ! i) then {#t ! i#} else {#})
       = mset [x \<leftarrow> t. P x] + (if P w then {#w#} else {#})"
proof -
  have t: "t = take i t @ t ! i # drop (Suc i) t" using assms by (simp add: id_take_nth_drop)
  have "[x \<leftarrow> t. P x] = [x \<leftarrow> take i t. P x] @ (if P (t ! i) then [t ! i] else []) @ [x \<leftarrow> drop (Suc i) t. P x]"
    by (subst t) simp
  moreover have "[x \<leftarrow> t[i := w]. P x] =
      [x \<leftarrow> take i t. P x] @ (if P w then [w] else []) @ [x \<leftarrow> drop (Suc i) t. P x]"
    using assms by (simp add: upd_conv_take_nth_drop)
  ultimately show ?thesis by simp
qed

lemma distinct_update:
  assumes "i < length t" "distinct [x \<leftarrow> t. P x]" "P w \<Longrightarrow> w \<notin> set t"
  shows "distinct [x \<leftarrow> t[i := w]. P x]"
proof -
  have t: "t = take i t @ t ! i # drop (Suc i) t" using assms by (simp add: id_take_nth_drop)
  have "distinct ([x \<leftarrow> take i t. P x] @ [x \<leftarrow> drop (Suc i) t. P x])"
    using assms(2) by (subst (asm) t) (auto split: if_splits)
  moreover have "P w \<Longrightarrow> w \<notin> set (take i t) \<union> set (drop (Suc i) t)"
    using assms(3) by (meson Un_iff in_set_dropD in_set_takeD)
  ultimately show ?thesis using assms(1) by (auto simp: upd_conv_take_nth_drop)
qed

lemma n_occupied_update:
  assumes "i < length t" "w \<noteq> kEmpty"
  shows "n_occupied (t[i := w]) = (if t ! i = kEmpty then n_occupied t + 1 else n_occupied t)"
  using arg_cong [OF filter_update [OF assms(1), of "\<lambda>e. e \<noteq> kEmpty" w], of size] assms(2)
  by (auto simp: n_occupied_def simp flip: size_mset split: if_splits)

lemma t_inv_put:
  assumes t: "t_inv t" and i: "i = probe t v d" "d < length t" "\<forall>d'<d. t ! probe t v d' \<noteq> kEmpty"
    and v: "0 \<le> v" "v \<notin> set t" and lt: "i < length t"
  shows "t_inv (t[i := v])"
  unfolding t_inv_def
proof (intro conjI allI impI)
  show "\<exists>k\<ge>3. length (t[i := v]) = 2 ^ k" using t by (simp add: t_inv_def)
  show "distinct [v \<leftarrow> t[i := v]. 0 \<le> v]"
    using t v lt by (intro distinct_update) (simp_all add: t_inv_def)
  fix j assume j: "j < length (t[i := v])" "0 \<le> t[i := v] ! j"
  have keep: "t[i := v] ! p \<noteq> kEmpty" if "t ! p \<noteq> kEmpty" for p
    using that nonneg_markers [OF v(1)] lt by (cases "p = i") auto
  show "\<exists>d < length (t[i := v]). probe (t[i := v]) (t[i := v] ! j) d = j \<and>
      (\<forall>d'<d. t[i := v] ! probe (t[i := v]) (t[i := v] ! j) d' \<noteq> kEmpty)"
  proof (cases "j = i")
    case True
    then show ?thesis using i lt keep by (intro exI [of _ d]) auto
  next
    case False
    then obtain e where "e < length t" "probe t (t ! j) e = j" "\<forall>d'<e. t ! probe t (t ! j) d' \<noteq> kEmpty"
      using t j unfolding t_inv_def by auto
    then show ?thesis using False keep by (intro exI [of _ e]) auto
  qed
qed

lemma t_inv_del:
  assumes t: "t_inv t" and lt: "i < length t"
  shows "t_inv (t[i := kDel])"
  unfolding t_inv_def
proof (intro conjI allI impI)
  show "\<exists>k\<ge>3. length (t[i := kDel]) = 2 ^ k" using t by (simp add: t_inv_def)
  show "distinct [v \<leftarrow> t[i := kDel]. 0 \<le> v]"
    using t lt by (intro distinct_update) (simp_all add: t_inv_def)
  fix j assume j: "j < length (t[i := kDel])" "0 \<le> t[i := kDel] ! j"
  then have ne: "j \<noteq> i" by auto
  have keep: "t[i := kDel] ! p \<noteq> kEmpty" if "t ! p \<noteq> kEmpty" for p
    using that lt by (cases "p = i") auto
  obtain e where "e < length t" "probe t (t ! j) e = j" "\<forall>d'<e. t ! probe t (t ! j) d' \<noteq> kEmpty"
    using t j ne unfolding t_inv_def by auto
  then show "\<exists>d < length (t[i := kDel]). probe (t[i := kDel]) (t[i := kDel] ! j) d = j \<and>
      (\<forall>d'<d. t[i := kDel] ! probe (t[i := kDel]) (t[i := kDel] ! j) d' \<noteq> kEmpty)"
    using ne keep by (intro exI [of _ e]) auto
qed

lemma set_elems_update:
  fixes t :: "int list"
  assumes "i < length t" "t ! i < 0 \<or> distinct [x \<leftarrow> t. 0 \<le> x]"
  shows "set [x \<leftarrow> t[i := w]. 0 \<le> x] =
     (set [x \<leftarrow> t. 0 \<le> x] - {t ! i}) \<union> (if 0 \<le> w then {w} else {})"
proof -
  have t: "t = take i t @ t ! i # drop (Suc i) t" using assms by (simp add: id_take_nth_drop)
  define a b c where "a = take i t" and "b = t ! i" and "c = drop (Suc i) t"
  have t: "t = a @ b # c" using t by (simp add: a_def b_def c_def)
  have u: "t[i := w] = a @ w # c" using assms(1) by (simp add: upd_conv_take_nth_drop a_def c_def)
  have "b \<notin> set a \<union> set c" if b: "0 \<le> b"
  proof -
    have "distinct [x \<leftarrow> t. 0 \<le> x]" using assms(2) b by (auto simp: b_def)
    then have "distinct [x \<leftarrow> a @ b # c. 0 \<le> x]" by (simp only: t [symmetric])
    then show ?thesis using b by auto
  qed
  then show ?thesis unfolding u b_def [symmetric] by (subst t) auto
qed

section \<open>The operations\<close>

lemma filter_count_le: "length [e \<leftarrow> t. e \<noteq> kEmpty] \<ge> length [e \<leftarrow> t. 0 \<le> e]"
  by (induction t) auto

lemma has_empty:
  assumes "n_occupied t < length t" shows "kEmpty \<in> set t"
proof (rule ccontr)
  assume "kEmpty \<notin> set t"
  then have "[e \<leftarrow> t. e \<noteq> kEmpty] = t" by (auto simp: filter_id_conv)
  then show False using assms by (simp add: n_occupied_def)
qed

lemma ns_inv_empty_cell: "ns_inv s \<Longrightarrow> kEmpty \<in> set (table s)"
  by (rule has_empty) (auto simp: ns_inv_def ns_loaded_def not_le intro: less_le_trans)

lemma elems_iff: "0 \<le> v \<Longrightarrow> v \<in> set (ns_elems s) \<longleftrightarrow> v \<in> set (table s)"
  by (simp add: ns_elems_def)

text \<open>A put of a value that is not there, whatever the load after it.\<close>

lemma ns_put_spec:
  assumes "t_inv (table s)" "occupied s = n_occupied (table s)" "kEmpty \<in> set (table s)"
    and "0 \<le> v" "v \<notin> set (table s)"
  shows "\<exists>i. FindIndex (table s) v = Some i \<and> table s ! i \<noteq> v \<and> t_inv (table (ns_put s i v)) \<and>
     occupied (ns_put s i v) = n_occupied (table (ns_put s i v)) \<and>
     occupied (ns_put s i v) \<le> occupied s + 1 \<and>
     length (table (ns_put s i v)) = length (table s) \<and>
     set (ns_elems (ns_put s i v)) = Set.insert v (set (ns_elems s))"
proof -
  obtain i d where i: "FindIndex (table s) v = Some i" "i < length (table s)" "table s ! i < 0"
      "d < length (table s)" "i = probe (table s) v d" "\<forall>d'<d. table s ! probe (table s) v d' \<noteq> kEmpty"
    using FindIndex_spec [OF assms(1,4,3)] assms(5) by auto
  have 1: "t_inv (table (ns_put s i v))"
    using t_inv_put [OF assms(1) i(5,4,6) assms(4,5) i(2)] by (simp add: ns_put_def)
  have 2: "occupied (ns_put s i v) = n_occupied (table (ns_put s i v))"
    using n_occupied_update [OF i(2), of v] nonneg_markers [OF assms(4)] assms(2) by (simp add: ns_put_def)
  have 3: "set (ns_elems (ns_put s i v)) = Set.insert v (set (ns_elems s))"
    using set_elems_update [OF i(2), of v] i(3) assms(4) by (auto simp: ns_put_def ns_elems_def)
  have 4: "table s ! i \<noteq> v" using i(3) assms(4) by simp
  have 5: "occupied (ns_put s i v) \<le> occupied s + 1" by (simp add: ns_put_def)
  have 6: "length (table (ns_put s i v)) = length (table s)" by (simp add: ns_put_def)
  show ?thesis
    using i(1) 1 2 3 4 5 6 by blast
qed

text \<open>\<open>reinsert\<close> fills a table without reaching its load limit when there is room for all elements.\<close>

lemma ns_reinsert_spec:
  assumes "t_inv (table s)" "occupied s = n_occupied (table s)"
    and "distinct [e \<leftarrow> es. 0 \<le> e]" "\<forall>e \<in> set es. 0 \<le> e \<longrightarrow> e \<notin> set (table s)"
    and "occupied s + length [e \<leftarrow> es. 0 \<le> e] < length (table s) - length (table s) div 4"
  shows "\<exists>s'. ns_reinsert s es = Some s' \<and> ns_inv s' \<and>
     set (ns_elems s') = set (ns_elems s) \<union> set [e \<leftarrow> es. 0 \<le> e]"
  using assms
proof (induction es arbitrary: s)
  case Nil
  then show ?case by (simp add: ns_inv_def ns_loaded_def)
next
  case (Cons e es)
  show ?case
  proof (cases "0 \<le> e")
    case False
    then show ?thesis using Cons.IH [of s] Cons.prems by simp
  next
    case e: True
    have "kEmpty \<in> set (table s)" using Cons.prems(2,5) by (intro has_empty) simp
    then obtain i where i: "FindIndex (table s) e = Some i" "table s ! i \<noteq> e" "t_inv (table (ns_put s i e))"
        "occupied (ns_put s i e) = n_occupied (table (ns_put s i e))" "occupied (ns_put s i e) \<le> occupied s + 1"
        "length (table (ns_put s i e)) = length (table s)"
        "set (ns_elems (ns_put s i e)) = Set.insert e (set (ns_elems s))"
      using ns_put_spec [of s e] Cons.prems(1,2,4) e by auto
    define s' where "s' = ns_put s i e"
    have nl: "\<not> ns_loaded s'" using i(5,6) Cons.prems(5) e by (simp add: ns_loaded_def s'_def)
    have fresh: "\<forall>x \<in> set es. 0 \<le> x \<longrightarrow> x \<notin> set (table s')"
    proof (intro ballI impI)
      fix x assume x: "x \<in> set es" "0 \<le> x"
      then have "x \<noteq> e" "x \<notin> set (table s)" using Cons.prems(3,4) e by auto
      then show "x \<notin> set (table s')" using i(7) x(2) elems_iff unfolding s'_def by blast
    qed
    have "\<exists>s''. ns_reinsert s' es = Some s'' \<and> ns_inv s'' \<and>
        set (ns_elems s'') = set (ns_elems s') \<union> set [e \<leftarrow> es. 0 \<le> e]"
      using Cons.prems(3,5) e fresh i(3-6) by (intro Cons.IH) (simp_all add: s'_def)
    then show ?thesis using i(1,2,7) e nl by (auto simp: s'_def [symmetric] Let_def)
  qed
qed

lemma t_inv_fresh:
  assumes "3 \<le> k" shows "t_inv (replicate (2 ^ k) kEmpty)" "n_occupied (replicate (2 ^ k) kEmpty) = 0"
  using assms by (auto simp: t_inv_def n_occupied_def filter_replicate)

lemma ns_Grow_spec:
  assumes "t_inv (table s)" "occupied s \<le> length (table s) - length (table s) div 4"
    and "occupied s = n_occupied (table s)"
  shows "\<exists>s'. ns_Grow s = Some s' \<and> ns_inv s' \<and> set (ns_elems s') = set (ns_elems s)"
proof -
  obtain k where k: "3 \<le> k" "length (table s) = 2 ^ k" using assms(1) by (auto simp: t_inv_def)
  define s0 where "s0 = \<lparr>table = replicate (2 ^ Suc k) kEmpty, occupied = 0\<rparr>"
  have s0: "t_inv (table s0)" "occupied s0 = n_occupied (table s0)"
    using t_inv_fresh [of "Suc k"] k(1) by (simp_all add: s0_def)
  have "(2::nat) ^ 3 \<le> 2 ^ k" using k(1) by (intro power_increasing) auto
  then have room: "length [e \<leftarrow> table s. 0 \<le> e] < length (table s0) - length (table s0) div 4"
    using filter_count_le [of "table s"] assms(2,3) k(2) by (simp add: s0_def n_occupied_def)
  have "\<exists>s'. ns_reinsert s0 (table s) = Some s' \<and> ns_inv s' \<and>
      set (ns_elems s') = set (ns_elems s0) \<union> set [e \<leftarrow> table s. 0 \<le> e]"
    using s0 room assms(1) by (intro ns_reinsert_spec) (auto simp: s0_def t_inv_def)
  then show ?thesis using k(2) by (simp add: ns_Grow_def s0_def ns_elems_def filter_replicate mult.commute)
qed

lemma ns_insert_spec:
  assumes s: "ns_inv s" and v: "0 \<le> v"
  shows "\<exists>s'. ns_insert s v = Some (v \<notin> set (ns_elems s), s') \<and> ns_inv s' \<and>
     set (ns_elems s') = Set.insert v (set (ns_elems s))"
proof (cases "v \<in> set (table s)")
  case True
  then have "\<exists>i. FindIndex (table s) v = Some i \<and> table s ! i = v"
    using FindIndex_spec [OF _ v ns_inv_empty_cell [OF s]] s by (auto simp: ns_inv_def)
  then show ?thesis using True s elems_iff [OF v] by (auto simp: ns_insert_def insert_absorb)
next
  case False
  obtain i where i: "FindIndex (table s) v = Some i" "table s ! i \<noteq> v" "t_inv (table (ns_put s i v))"
      "occupied (ns_put s i v) = n_occupied (table (ns_put s i v))" "occupied (ns_put s i v) \<le> occupied s + 1"
      "length (table (ns_put s i v)) = length (table s)"
      "set (ns_elems (ns_put s i v)) = Set.insert v (set (ns_elems s))"
    using ns_put_spec [of s v] s v False ns_inv_empty_cell [OF s] by (auto simp: ns_inv_def)
  define s' where "s' = ns_put s i v"
  have F: "v \<notin> set (ns_elems s)" using False elems_iff [OF v] by simp
  show ?thesis
  proof (cases "ns_loaded s'")
    case False
    then have "ns_insert s v = Some (True, s')" using i(1,2) by (simp add: ns_insert_def s'_def Let_def)
    then show ?thesis using i(3,4,7) False F by (simp add: s'_def ns_inv_def)
  next
    case True
    have "occupied s' \<le> length (table s') - length (table s') div 4"
      using i(5,6) s by (simp add: s'_def ns_inv_def ns_loaded_def)
    then obtain s'' where "ns_Grow s' = Some s''" "ns_inv s''" "set (ns_elems s'') = set (ns_elems s')"
      using ns_Grow_spec [of s'] i(3,4) unfolding s'_def by blast
    moreover from this have "ns_insert s v = Some (True, s'')"
      using i(1,2) True by (simp add: ns_insert_def s'_def Let_def)
    ultimately show ?thesis using i(7) F by (simp add: s'_def)
  qed
qed

lemma ns_erase_spec:
  assumes s: "ns_inv s" and v: "0 \<le> v"
  shows "\<exists>s'. ns_erase s v = Some s' \<and> ns_inv s' \<and> set (ns_elems s') = set (ns_elems s) - {v}"
proof -
  have t: "t_inv (table s)" using s by (simp add: ns_inv_def)
  obtain i where i: "FindIndex (table s) v = Some i" "i < length (table s)"
      "if v \<in> set (table s) then table s ! i = v else table s ! i < 0"
    using FindIndex_spec [OF t v ns_inv_empty_cell [OF s]] by (auto split: if_splits)
  show ?thesis
  proof (cases "v \<in> set (table s)")
    case False
    then show ?thesis using i s v elems_iff [OF v, of s] by (auto simp: ns_erase_def)
  next
    case True
    define s' where "s' = s\<lparr>table := (table s)[i := kDel]\<rparr>"
    have iv: "table s ! i = v" using True i(3) by simp
    have "ns_inv s'"
      using t_inv_del [OF t i(2)] n_occupied_update [OF i(2), of kDel] s iv nonneg_markers [OF v]
      by (simp add: s'_def ns_inv_def ns_loaded_def)
    moreover have "set (ns_elems s') = set (ns_elems s) - {v}"
      using set_elems_update [OF i(2), of kDel] t iv by (simp add: s'_def ns_elems_def t_inv_def)
    ultimately show ?thesis using i(1) iv by (simp add: ns_erase_def s'_def)
  qed
qed

lemma ns_contains_spec:
  assumes s: "ns_inv s" and v: "0 \<le> v"
  shows "ns_contains s v = Some (v \<in> set (ns_elems s))"
proof -
  have "\<exists>i. FindIndex (table s) v = Some i \<and> (table s ! i = v \<longleftrightarrow> v \<in> set (table s))"
    using FindIndex_spec [OF _ v ns_inv_empty_cell [OF s]] s v by (force simp: ns_inv_def)
  then show ?thesis using elems_iff [OF v, of s] by (auto simp: ns_contains_def)
qed

lemma ns_inv_empty: "ns_inv ns_empty" "ns_elems ns_empty = []"
  using t_inv_fresh [of 3] by (simp_all add: ns_inv_def ns_empty_def kInline_def ns_loaded_def ns_elems_def filter_replicate)

interpretation ns: finite_set_impl ns_inv ns_elems ns_empty ns_contains ns_insert ns_erase
proof
  fix s v assume "ns_inv s"
  then show "distinct (ns_elems s)" by (simp add: ns_inv_def t_inv_def ns_elems_def)
  show "v \<in> set (ns_elems s) \<Longrightarrow> 0 \<le> v" by (simp add: ns_elems_def)
qed (use ns_inv_empty ns_contains_spec ns_insert_spec ns_erase_spec in simp_all)

text \<open>The loop over \<open>Next\<close> visits the elements in the order of the cells.\<close>

lemma ns_Next_spec:
  "cursor \<le> length (table s) \<Longrightarrow> ns_Next s cursor =
     Some (case dropWhile (\<lambda>v. v < 0) (drop cursor (table s)) of
       [] \<Rightarrow> (length (table s), None) | v # rest \<Rightarrow> (length (table s) - length rest, Some v))"
proof (induction "length (table s) - cursor" arbitrary: cursor)
  case 0
  then show ?case by (subst ns_Next.simps) simp
next
  case (Suc n)
  then have c: "cursor < length (table s)" by simp
  then have "drop cursor (table s) = table s ! cursor # drop (Suc cursor) (table s)"
    by (simp add: Cons_nth_drop_Suc)
  then show ?case
    using Suc c by (subst ns_Next.simps) (auto simp: Let_def not_less)
qed

partial_function (option) ns_each :: "node_set \<Rightarrow> nat \<Rightarrow> int list option" where
  "ns_each s cursor = do {
     (cursor, elem) \<leftarrow> ns_Next s cursor;
     case elem of None \<Rightarrow> Some [] | Some v \<Rightarrow> do { vs \<leftarrow> ns_each s cursor; Some (v # vs) }
   }"

lemma ns_each_from:
  "cursor \<le> length (table s) \<Longrightarrow> ns_each s cursor = Some [v \<leftarrow> drop cursor (table s). 0 \<le> v]"
proof (induction "length (table s) - cursor" arbitrary: cursor rule: less_induct)
  case less
  define d where "d = drop cursor (table s)"
  have d: "d = takeWhile (\<lambda>v. v < 0) d @ dropWhile (\<lambda>v. v < 0) d" by simp
  have none: "[v \<leftarrow> takeWhile (\<lambda>v. v < 0) d. 0 \<le> v] = []"
    by (auto simp: filter_empty_conv dest: set_takeWhileD)
  show ?case
  proof (cases "dropWhile (\<lambda>v. v < 0) d")
    case Nil
    then have "[v \<leftarrow> d. 0 \<le> v] = []" by (auto simp: filter_empty_conv not_le)
    moreover have "ns_Next s cursor = Some (length (table s), None)"
      using ns_Next_spec [OF less.prems] Nil by (simp only: d_def list.case)
    ultimately show ?thesis by (subst ns_each.simps) (simp add: d_def)
  next
    case (Cons v rest)
    have v: "0 \<le> v" using Cons by (metis dropWhile_eq_Cons_conv linorder_not_less)
    have fd: "[v \<leftarrow> d. 0 \<le> v] = v # [v \<leftarrow> rest. 0 \<le> v]"
      using arg_cong [OF d, of "filter (\<lambda>v. 0 \<le> v)"] none v Cons by simp
    define c where "c = length (table s) - length rest"
    have "length rest < length d" using arg_cong [OF d, of length] Cons by simp
    then have lr: "length rest < length (table s) - cursor" by (simp add: d_def)
    have "suffix rest (table s)"
      using Cons by (metis d_def suffix_ConsD suffix_drop suffix_dropWhile suffix_order.trans)
    then have "drop c (table s) = rest" by (auto simp: suffix_def c_def)
    then have "ns_each s c = Some [v \<leftarrow> rest. 0 \<le> v]"
      using less.hyps [of c] lr by (simp add: c_def)
    moreover have "ns_Next s cursor = Some (c, Some v)"
      using ns_Next_spec [OF less.prems] Cons by (simp only: d_def c_def list.case)
    ultimately show ?thesis using fd by (subst ns_each.simps) (simp add: d_def)
  qed
qed

lemma ns_each_elems: "ns_each s 0 = Some (ns_elems s)"
  by (simp add: ns_each_from ns_elems_def)

section \<open>Runs\<close>

datatype set_op = Insert int | Erase int | Contains int

fun set_arg :: "set_op \<Rightarrow> int" where
  "set_arg (Insert v) = v"
| "set_arg (Erase v) = v"
| "set_arg (Contains v) = v"

text \<open>The answers of a sequence of operations, on the table and on a set.\<close>

fun ns_run :: "set_op list \<Rightarrow> node_set \<Rightarrow> (bool list \<times> node_set) option" where
  "ns_run [] s = Some ([], s)"
| "ns_run (Insert v # ops) s = do { (b, s) \<leftarrow> ns_insert s v; (bs, s) \<leftarrow> ns_run ops s; Some (b # bs, s) }"
| "ns_run (Erase v # ops) s = do { s \<leftarrow> ns_erase s v; ns_run ops s }"
| "ns_run (Contains v # ops) s = do { b \<leftarrow> ns_contains s v; (bs, s) \<leftarrow> ns_run ops s; Some (b # bs, s) }"

fun set_run :: "set_op list \<Rightarrow> int set \<Rightarrow> bool list \<times> int set" where
  "set_run [] A = ([], A)"
| "set_run (Insert v # ops) A = (let (bs, B) = set_run ops (insert v A) in ((v \<notin> A) # bs, B))"
| "set_run (Erase v # ops) A = set_run ops (A - {v})"
| "set_run (Contains v # ops) A = (let (bs, B) = set_run ops A in ((v \<in> A) # bs, B))"

lemma ns_run_from:
  "ns_inv s \<Longrightarrow> \<forall>op \<in> set ops. 0 \<le> set_arg op \<Longrightarrow>
   \<exists>s'. ns_run ops s = Some (fst (set_run ops (set (ns_elems s))), s') \<and> ns_inv s' \<and>
        set (ns_elems s') = snd (set_run ops (set (ns_elems s)))"
proof (induction ops arbitrary: s)
  case Nil
  then show ?case by simp
next
  case (Cons op ops)
  have ops: "\<forall>op \<in> set ops. 0 \<le> set_arg op" using Cons.prems(2) by simp
  show ?case
  proof (cases op)
    case (Insert v)
    then obtain s1 where s1: "ns_insert s v = Some (v \<notin> set (ns_elems s), s1)" "ns_inv s1"
        "set (ns_elems s1) = insert v (set (ns_elems s))"
      using ns.insert_law [OF Cons.prems(1), of v] Cons.prems(2) by auto
    then show ?thesis using Cons.IH [OF s1(2) ops] Insert by (auto simp: split_beta)
  next
    case (Erase v)
    then obtain s1 where s1: "ns_erase s v = Some s1" "ns_inv s1" "set (ns_elems s1) = set (ns_elems s) - {v}"
      using ns.erase_law [OF Cons.prems(1), of v] Cons.prems(2) by auto
    then show ?thesis using Cons.IH [OF s1(2) ops] Erase by auto
  next
    case (Contains v)
    then have "ns_contains s v = Some (v \<in> set (ns_elems s))"
      using ns.contains_law [OF Cons.prems(1), of v] Cons.prems(2) by auto
    then show ?thesis using Cons.IH [OF Cons.prems(1) ops] Contains by (auto simp: split_beta)
  qed
qed

text \<open>
  Every sequence of insertions, removals and membership tests of non-negative values on a new set
  ends (no probe runs for ever, growing never nests), answers what a mathematical set answers, and
  the iteration then visits every element once.
\<close>

theorem node_set_is_set:
  assumes "\<forall>op \<in> set ops. 0 \<le> set_arg op"
  shows "\<exists>s vs. ns_run ops ns_empty = Some (fst (set_run ops {}), s) \<and> ns_each s 0 = Some vs \<and>
     distinct vs \<and> set vs = snd (set_run ops {})"
proof -
  obtain s where s: "ns_run ops ns_empty = Some (fst (set_run ops {}), s)" "ns_inv s"
      "set (ns_elems s) = snd (set_run ops {})"
    using ns_run_from [OF ns.empty_law(1) assms] by (auto simp: ns.empty_law(2))
  then show ?thesis using ns_each_elems ns.distinct_law [OF s(2)] by blast
qed

end
