(* ===== verification/Graph_Ranks.thy ===== *)
theory Graph_Ranks
  imports Main
begin

text \<open>
  The order-theoretic core of the incremental cycle detection of
  \<open>abel/synchronization/internal/graphcycles.cc\<close> (the algorithm of Pearce and Kelly), without the
  data structures: ranks of the nodes that can reach the source of a new edge (\<open>bs\<close>) and of the nodes
  its target reaches (\<open>fs\<close>) are pooled, sorted and handed out again, first to \<open>bs\<close>, then to \<open>fs\<close>.
\<close>

section \<open>Positions in strictly sorted lists\<close>

lemma strict_sorted_distinct: "sorted_wrt (<) (xs :: 'a :: linorder list) \<Longrightarrow> distinct xs"
  by (simp add: strict_sorted_iff)

lemma strict_nth_mono:
  "sorted_wrt (<) (xs :: 'a :: linorder list) \<Longrightarrow> i < j \<Longrightarrow> j < length xs \<Longrightarrow> xs ! i < xs ! j"
  by (rule sorted_wrt_nth_less)

lemma strict_nth_mono_le:
  "sorted_wrt (<) (xs :: 'a :: linorder list) \<Longrightarrow> i \<le> j \<Longrightarrow> j < length xs \<Longrightarrow> xs ! i \<le> xs ! j"
  using strict_nth_mono [of xs i j] by (cases "i = j") auto

text \<open>The \<open>i\<close>-th smallest element of a set is at most the \<open>i\<close>-th smallest of a subset, and likewise from above.\<close>

lemma nth_le_sublist:
  fixes M xs :: "'a :: linorder list"
  assumes M: "sorted_wrt (<) M" and xs: "sorted_wrt (<) xs" and sub: "set xs \<subseteq> set M" and i: "i < length xs"
  shows "M ! i \<le> xs ! i"
proof (rule ccontr)
  assume less: "\<not> M ! i \<le> xs ! i"
  have "set (take (Suc i) xs) \<subseteq> set (take i M)"
  proof
    fix z assume "z \<in> set (take (Suc i) xs)"
    then obtain k where k: "k \<le> i" "z = xs ! k" using i by (auto simp: in_set_conv_nth less_Suc_eq_le)
    then have z: "z < M ! i" using strict_nth_mono_le [OF xs k(1) i] less by simp
    have "z \<in> set M" using sub k i by auto
    then obtain j where j: "j < length M" "z = M ! j" by (auto simp: in_set_conv_nth)
    have "j < i" using z strict_nth_mono_le [OF M _ j(1), of i] j(2) by (meson not_le)
    then show "z \<in> set (take i M)" using j by (auto simp: in_set_conv_nth)
  qed
  then have "card (set (take (Suc i) xs)) \<le> card (set (take i M))" by (intro card_mono) auto
  moreover have "card (set (take (Suc i) xs)) = Suc i"
    using i strict_sorted_distinct [OF xs] by (simp add: distinct_card)
  moreover have "card (set (take i M)) \<le> i" using card_length [of "take i M"] by simp
  ultimately show False by simp
qed

lemma nth_ge_sublist:
  fixes M xs :: "'a :: linorder list"
  assumes M: "sorted_wrt (<) M" and xs: "sorted_wrt (<) xs" and sub: "set xs \<subseteq> set M"
    and i: "i < length xs" and n: "length M = k + length xs"
  shows "xs ! i \<le> M ! (k + i)"
proof (rule ccontr)
  assume less: "\<not> xs ! i \<le> M ! (k + i)"
  have "set (drop i xs) \<subseteq> set (drop (Suc (k + i)) M)"
  proof
    fix z assume "z \<in> set (drop i xs)"
    then obtain q where q: "q < length xs - i" "z = xs ! (i + q)" by (auto simp: in_set_conv_nth)
    then have "xs ! i \<le> z" using strict_nth_mono_le [OF xs, of i "i + q"] by simp
    then have z: "M ! (k + i) < z" using less by (meson not_le order.strict_trans2)
    have "z \<in> set M" using sub q i by auto
    then obtain j where j: "j < length M" "z = M ! j" by (auto simp: in_set_conv_nth)
    have "k + i < length M" using i n by simp
    then have "k + i < j" using z strict_nth_mono_le [OF M, of j "k + i"] j(2) by (metis leD not_le)
    then have "z = drop (Suc (k + i)) M ! (j - Suc (k + i))" "j - Suc (k + i) < length M - Suc (k + i)"
      using j by simp_all
    then show "z \<in> set (drop (Suc (k + i)) M)" by (metis length_drop nth_mem)
  qed
  then have "card (set (drop i xs)) \<le> card (set (drop (Suc (k + i)) M))" by (intro card_mono) auto
  moreover have "card (set (drop i xs)) = length xs - i"
    using strict_sorted_distinct [OF xs] by (simp add: distinct_card)
  moreover have "card (set (drop (Suc (k + i)) M)) \<le> length M - Suc (k + i)"
    using card_length [of "drop (Suc (k + i)) M"] by simp
  ultimately show False using i n by simp
qed

section \<open>New ranks\<close>

lemma new_ranks:
  fixes r r' :: "'a \<Rightarrow> 'b :: linorder"
  assumes d: "distinct (bs @ fs)" and b: "sorted_wrt (<) (map r bs)" and f: "sorted_wrt (<) (map r fs)"
    and inj: "inj_on r (set (bs @ fs))" and M: "sorted_wrt (<) M" "set M = r ` set (bs @ fs)"
    and r': "\<forall>i < length (bs @ fs). r' ((bs @ fs) ! i) = M ! i"
  shows "length M = length bs + length fs"
    and "z \<in> set bs \<Longrightarrow> r' z \<le> r z" and "z \<in> set fs \<Longrightarrow> r z \<le> r' z"
    and "z \<in> set bs \<union> set fs \<Longrightarrow> r' z \<in> set M"
    and "z \<in> set bs \<Longrightarrow> w \<in> set bs \<Longrightarrow> r z < r w \<Longrightarrow> r' z < r' w"
    and "z \<in> set fs \<Longrightarrow> w \<in> set fs \<Longrightarrow> r z < r w \<Longrightarrow> r' z < r' w"
    and "z \<in> set bs \<Longrightarrow> w \<in> set fs \<Longrightarrow> r' z < r' w"
proof -
  have "length M = card (set M)" using strict_sorted_distinct [OF M(1)] by (simp add: distinct_card)
  also have "\<dots> = card (set (bs @ fs))" using M(2) inj by (simp add: card_image)
  also have "\<dots> = length bs + length fs" using distinct_card [OF d] by simp
  finally show n: "length M = length bs + length fs" .
  have rb: "r' (bs ! i) = M ! i" if "i < length bs" for i using r' [rule_format, of i] that by (simp add: nth_append)
  have rf: "r' (fs ! i) = M ! (length bs + i)" if "i < length fs" for i
    using r' [rule_format, of "length bs + i"] that by (simp add: nth_append)
  have sub: "set (map r bs) \<subseteq> set M" "set (map r fs) \<subseteq> set M" using M(2) by auto
  show "r' z \<le> r z" if z: "z \<in> set bs"
  proof -
    obtain i where "i < length bs" "z = bs ! i" using z by (auto simp: in_set_conv_nth)
    then show ?thesis using nth_le_sublist [OF M(1) b sub(1), of i] rb by simp
  qed
  show "r z \<le> r' z" if z: "z \<in> set fs"
  proof -
    obtain i where "i < length fs" "z = fs ! i" using z by (auto simp: in_set_conv_nth)
    then show ?thesis using nth_ge_sublist [OF M(1) f sub(2), of i "length bs"] rf n by simp
  qed
  show "r' z \<in> set M" if "z \<in> set bs \<union> set fs"
    using that
  proof
    assume "z \<in> set bs"
    then obtain i where "i < length bs" "z = bs ! i" by (auto simp: in_set_conv_nth)
    then show ?thesis using rb n by simp
  next
    assume "z \<in> set fs"
    then obtain i where "i < length fs" "z = fs ! i" by (auto simp: in_set_conv_nth)
    then show ?thesis using rf n by simp
  qed
  have pos: "i < j" if "sorted_wrt (<) (map r xs)" "i < length xs" "j < length xs" "r (xs ! i) < r (xs ! j)"
    for xs i j
    using strict_nth_mono_le [OF that(1), of j i] that(2-4) by (metis length_map not_le nth_map)
  show "r' z < r' w" if z: "z \<in> set bs" and w: "w \<in> set bs" and zw: "r z < r w"
  proof -
    obtain i where "i < length bs" "z = bs ! i" using z by (auto simp: in_set_conv_nth)
    moreover obtain j where "j < length bs" "w = bs ! j" using w by (auto simp: in_set_conv_nth)
    ultimately show ?thesis using pos [OF b, of i j] zw rb n strict_nth_mono [OF M(1), of i j] by simp
  qed
  show "r' z < r' w" if z: "z \<in> set fs" and w: "w \<in> set fs" and zw: "r z < r w"
  proof -
    obtain i where "i < length fs" "z = fs ! i" using z by (auto simp: in_set_conv_nth)
    moreover obtain j where "j < length fs" "w = fs ! j" using w by (auto simp: in_set_conv_nth)
    ultimately show ?thesis
      using pos [OF f, of i j] zw rf n strict_nth_mono [OF M(1), of "length bs + i" "length bs + j"] by simp
  qed
  show "r' z < r' w" if z: "z \<in> set bs" and w: "w \<in> set fs"
  proof -
    obtain i where "i < length bs" "z = bs ! i" using z by (auto simp: in_set_conv_nth)
    moreover obtain j where "j < length fs" "w = fs ! j" using w by (auto simp: in_set_conv_nth)
    ultimately show ?thesis using rb rf n strict_nth_mono [OF M(1), of i "length bs + j"] by simp
  qed
qed

text \<open>
  The new ranks are consistent with the edges and the new edge \<open>(x, y)\<close>. The hypotheses are what the
  two searches establish: \<open>fs\<close> holds \<open>y\<close> and its successors below the rank of \<open>x\<close>, \<open>bs\<close> holds \<open>x\<close> and
  its predecessors above the rank of \<open>y\<close>, and no edge leads from \<open>fs\<close> to \<open>bs\<close>.
\<close>

lemma new_ranks_consistent:
  fixes r r' :: "'a \<Rightarrow> 'b :: linorder"
  assumes d: "distinct (bs @ fs)" and b: "sorted_wrt (<) (map r bs)" and f: "sorted_wrt (<) (map r fs)"
    and inj: "inj_on r (set (bs @ fs))" and M: "sorted_wrt (<) M" "set M = r ` set (bs @ fs)"
    and r': "\<forall>i < length (bs @ fs). r' ((bs @ fs) ! i) = M ! i"
    and other: "\<And>z. z \<notin> set (bs @ fs) \<Longrightarrow> r' z = r z"
    and E: "\<And>a c. (a, c) \<in> E \<Longrightarrow> r a < r c"
    and x: "x \<in> set bs" and y: "y \<in> set fs"
    and injy: "\<And>a. (a, c) \<in> E \<Longrightarrow> r a = r y \<Longrightarrow> a = y"
    and fs: "\<And>a. a \<in> set fs \<Longrightarrow> r y \<le> r a \<and> r a < r x"
      "\<And>a c. a \<in> set fs \<Longrightarrow> (a, c) \<in> E \<Longrightarrow> c \<in> set fs \<or> r x < r c"
    and bs: "\<And>a. a \<in> set bs \<Longrightarrow> r y < r a \<and> r a \<le> r x"
      "\<And>a c. c \<in> set bs \<Longrightarrow> (a, c) \<in> E \<Longrightarrow> a \<in> set bs \<or> a \<in> set fs \<or> r a \<le> r y"
    and cross: "\<And>a c. a \<in> set fs \<Longrightarrow> c \<in> set bs \<Longrightarrow> (a, c) \<notin> E"
    and e: "(a, c) \<in> insert (x, y) E"
  shows "r' a < r' c"
proof -
  note nr = new_ranks [where r = r and r' = r', OF d b f inj M r']
  have top: "r' z \<le> r x" if "z \<in> set bs \<union> set fs" for z
    using nr(4) [OF that] M(2) bs(1) fs(1) by (auto intro: less_imp_le)
  have bot: "r y \<le> r' z" if "z \<in> set bs \<union> set fs" for z
    using nr(4) [OF that] M(2) bs(1) fs(1) by (auto intro: less_imp_le)
  show ?thesis
  proof (cases "(a, c) = (x, y)")
    case True
    then show ?thesis using nr(7) [OF x y] by simp
  next
    case False
    then have ac: "(a, c) \<in> E" using e by blast
    then have less: "r a < r c" by (rule E)
    consider "a \<in> set bs" "c \<in> set bs" | "a \<in> set bs" "c \<in> set fs" | "a \<in> set bs" "c \<notin> set (bs @ fs)"
      | "a \<in> set fs" | "a \<notin> set (bs @ fs)" "c \<in> set bs" | "a \<notin> set (bs @ fs)" "c \<in> set fs"
      | "a \<notin> set (bs @ fs)" "c \<notin> set (bs @ fs)" by auto
    then show ?thesis
    proof cases
      case 1
      then show ?thesis using nr(5) less by blast
    next
      case 2
      then show ?thesis using nr(7) by blast
    next
      case 3
      then show ?thesis using nr(2) [of a] less other [of c] by auto
    next
      case 4
      then consider "c \<in> set fs" | "c \<notin> set (bs @ fs)" "r x < r c" using fs(2) [OF _ ac] cross [of a c] ac bs(1) fs(1) by force
      then show ?thesis
      proof cases
        case 1
        then show ?thesis using nr(6) 4 less by blast
      next
        case 2
        then show ?thesis using top [of a] 4 other [of c] by auto
      qed
    next
      case 5
      then have "r a \<le> r y" using bs(2) [OF _ ac] by auto
      moreover have "a \<noteq> y" using 5 y by auto
      ultimately have "r a < r y" using injy [OF ac] by (metis order_le_less)
      then show ?thesis using bot [of c] 5 other [of a] by auto
    next
      case 6
      then show ?thesis using nr(3) [of c] less other [of a] by auto
    next
      case 7
      then show ?thesis using other less by metis
    qed
  qed
qed

end
