(* ===== verification/Graph_Cycles.thy ===== *)
theory Graph_Cycles
  imports Prelude Node_Set Graph_Ranks
begin

text \<open>
  The lock graph \<open>GraphCycles\<close> of \<open>abel/synchronization/internal/graphcycles.cc\<close>: nodes named by ids
  that carry a version, a chained hash table from pointers to nodes, and the incremental detection
  of cycles of Pearce and Kelly. Every operation threads the representation \<open>rep\<close>; the result \<open>None\<close>
  stands for a read outside the vector of nodes. The temporary vectors \<open>deltaf_\<close>, \<open>deltab_\<close>,
  \<open>list_\<close>, \<open>merged_\<close> and \<open>stack_\<close>, which every use clears first, are values passed between the
  functions, and a stack is a list with its back at the head. The loops over a node set range over
  \<open>ns_elems\<close>, which is what \<open>HASH_FOR_EACH\<close> visits (\<open>ns_each_elems\<close>). Allocation and the arena are
  not modelled.
\<close>

section \<open>Data\<close>

type_synonym graph_id = u64

text \<open>The field \<open>stack\<close> holds \<open>stack[0, nstack)\<close>, the recorded part of the array.\<close>

record node =
  rank :: int
  version :: u32
  next_hash :: int
  visited :: bool
  masked_ptr :: u64
  in_set :: node_set
  out_set :: node_set
  priority :: int
  stack :: "u64 list"

record rep =
  nodes :: "node list"
  free_nodes :: "int list"
  ptr_table :: "int list"

definition hide_mask :: u64 where
  "hide_mask = push_bit ((8 - 4) * 8) 0xF03A5F7B OR 0xF03A5F7B"

definition hide_ptr :: "u64 \<Rightarrow> u64" where
  "hide_ptr p = p XOR hide_mask"

definition unhide_ptr :: "u64 \<Rightarrow> u64" where
  "unhide_ptr h = h XOR hide_mask"

definition MakeId :: "int \<Rightarrow> u32 \<Rightarrow> graph_id" where
  "MakeId index v = push_bit 32 (ucast v) OR ucast (word_of_int index :: u32)"

definition NodeIndex :: "graph_id \<Rightarrow> int" where
  "NodeIndex gid = sint (ucast (gid AND 0xffffffff) :: u32)"

definition NodeVersion :: "graph_id \<Rightarrow> u32" where
  "NodeVersion gid = ucast (drop_bit 32 gid)"

definition InvalidGraphId :: graph_id where
  "InvalidGraphId = 0"

definition new_graph :: rep where
  "new_graph = \<lparr>nodes = [], free_nodes = [], ptr_table = replicate 8171 (- 1)\<rparr>"

text \<open>The outer option is the bounds of \<open>nodes_\<close>, the inner one the null pointer.\<close>

definition FindNode :: "rep \<Rightarrow> graph_id \<Rightarrow> node option option" where
  "FindNode g gid =
     (if 0 \<le> NodeIndex gid \<and> nat (NodeIndex gid) < length (nodes g) then
        let n = nodes g ! nat (NodeIndex gid) in
        Some (if version n = NodeVersion gid then Some n else None)
      else None)"

definition upd_node :: "rep \<Rightarrow> int \<Rightarrow> (node \<Rightarrow> node) \<Rightarrow> rep" where
  "upd_node g i f = g\<lparr>nodes := (nodes g)[nat i := f (nodes g ! nat i)]\<rparr>"

section \<open>PointerMap\<close>

definition kHashTableSize :: nat where "kHashTableSize = 8171"

definition ptr_hash :: "u64 \<Rightarrow> nat" where
  "ptr_hash ptr = unat ptr mod kHashTableSize"

partial_function (option) pm_walk :: "node list \<Rightarrow> u64 \<Rightarrow> int \<Rightarrow> int option" where
  "pm_walk ns masked i =
     (if i = - 1 then Some (- 1)
      else let n = ns ! nat i in
        if masked_ptr n = masked then Some i else pm_walk ns masked (next_hash n))"

definition PM_Find :: "rep \<Rightarrow> u64 \<Rightarrow> int option" where
  "PM_Find g ptr = pm_walk (nodes g) (hide_ptr ptr) (ptr_table g ! ptr_hash ptr)"

definition PM_Add :: "rep \<Rightarrow> u64 \<Rightarrow> int \<Rightarrow> rep" where
  "PM_Add g ptr i =
     (let head = ptr_table g ! ptr_hash ptr in
      (upd_node g i (next_hash_update (\<lambda>_. head)))\<lparr>ptr_table := (ptr_table g)[ptr_hash ptr := i]\<rparr>)"

text \<open>The pointer \<open>slot\<close> of \<open>Remove\<close> points to a list head or to a node's \<open>next_hash\<close>.\<close>

datatype slot = Head nat | Next int

fun slot_read :: "rep \<Rightarrow> slot \<Rightarrow> int" where
  "slot_read g (Head h) = ptr_table g ! h"
| "slot_read g (Next i) = next_hash (nodes g ! nat i)"

fun slot_write :: "rep \<Rightarrow> slot \<Rightarrow> int \<Rightarrow> rep" where
  "slot_write g (Head h) v = g\<lparr>ptr_table := (ptr_table g)[h := v]\<rparr>"
| "slot_write g (Next i) v = upd_node g i (next_hash_update (\<lambda>_. v))"

partial_function (option) pm_unlink :: "rep \<Rightarrow> u64 \<Rightarrow> slot \<Rightarrow> (int \<times> rep) option" where
  "pm_unlink g masked sl =
     (if slot_read g sl = - 1 then Some (- 1, g)
      else let index = slot_read g sl; n = nodes g ! nat index in
        if masked_ptr n = masked then
          let g = slot_write g sl (next_hash n) in
          Some (index, upd_node g index (next_hash_update (\<lambda>_. - 1)))
        else pm_unlink g masked (Next index))"

definition PM_Remove :: "rep \<Rightarrow> u64 \<Rightarrow> (int \<times> rep) option" where
  "PM_Remove g ptr = pm_unlink g (hide_ptr ptr) (Head (ptr_hash ptr))"

section \<open>Nodes\<close>

definition fresh_node :: "u64 \<Rightarrow> int \<Rightarrow> node" where
  "fresh_node ptr r =
     \<lparr>rank = r, version = 1, next_hash = - 1, visited = False, masked_ptr = hide_ptr ptr,
      in_set = ns_empty, out_set = ns_empty, priority = 0, stack = []\<rparr>"

definition GetId :: "rep \<Rightarrow> u64 \<Rightarrow> (graph_id \<times> rep) option" where
  "GetId g ptr = do {
     i \<leftarrow> PM_Find g ptr;
     if i \<noteq> - 1 then Some (MakeId i (version (nodes g ! nat i)), g)
     else if free_nodes g = [] then
       let n = fresh_node ptr (int (length (nodes g)));
           g = g\<lparr>nodes := nodes g @ [n]\<rparr> in
       Some (MakeId (rank n) (version n), PM_Add g ptr (rank n))
     else
       let r = last (free_nodes g);
           g = g\<lparr>free_nodes := butlast (free_nodes g)\<rparr>;
           g = upd_node g r (\<lambda>n. n\<lparr>masked_ptr := hide_ptr ptr, stack := [], priority := 0\<rparr>);
           g = PM_Add g ptr r in
       Some (MakeId r (version (nodes g ! nat r)), g)
   }"

fun erase_in :: "rep \<Rightarrow> int \<Rightarrow> int list \<Rightarrow> rep option" where
  "erase_in g i [] = Some g"
| "erase_in g i (y # ys) = do {
     s \<leftarrow> ns_erase (in_set (nodes g ! nat y)) i;
     erase_in (upd_node g y (in_set_update (\<lambda>_. s))) i ys
   }"

fun erase_out :: "rep \<Rightarrow> int \<Rightarrow> int list \<Rightarrow> rep option" where
  "erase_out g i [] = Some g"
| "erase_out g i (y # ys) = do {
     s \<leftarrow> ns_erase (out_set (nodes g ! nat y)) i;
     erase_out (upd_node g y (out_set_update (\<lambda>_. s))) i ys
   }"

definition RemoveNode :: "rep \<Rightarrow> u64 \<Rightarrow> rep option" where
  "RemoveNode g ptr = do {
     (i, g) \<leftarrow> PM_Remove g ptr;
     if i = - 1 then Some g
     else do {
       g \<leftarrow> erase_in g i (ns_elems (out_set (nodes g ! nat i)));
       g \<leftarrow> erase_out g i (ns_elems (in_set (nodes g ! nat i)));
       let g = upd_node g i (\<lambda>x. x\<lparr>in_set := ns_empty, out_set := ns_empty, masked_ptr := hide_ptr 0\<rparr>);
       if version (nodes g ! nat i) = - 1 then Some g
       else Some ((upd_node g i (\<lambda>x. x\<lparr>version := version x + 1\<rparr>))\<lparr>free_nodes := free_nodes g @ [i]\<rparr>)
     }
   }"

definition gc_Ptr :: "rep \<Rightarrow> graph_id \<Rightarrow> u64 option" where
  "gc_Ptr g gid = do {
     n \<leftarrow> FindNode g gid;
     Some (case n of None \<Rightarrow> 0 | Some n \<Rightarrow> unhide_ptr (masked_ptr n))
   }"

definition HasNode :: "rep \<Rightarrow> graph_id \<Rightarrow> bool option" where
  "HasNode g gid = do { n \<leftarrow> FindNode g gid; Some (n \<noteq> None) }"

text \<open>The conjunction of \<open>HasEdge\<close> does not look at \<open>y\<close> when \<open>x\<close> is expired.\<close>

definition HasEdge :: "rep \<Rightarrow> graph_id \<Rightarrow> graph_id \<Rightarrow> bool option" where
  "HasEdge g x y = do {
     xn \<leftarrow> FindNode g x;
     case xn of None \<Rightarrow> Some False
     | Some xn \<Rightarrow> do {
         yn \<leftarrow> FindNode g y;
         case yn of None \<Rightarrow> Some False | Some _ \<Rightarrow> ns_contains (out_set xn) (NodeIndex y)
       }
   }"

definition RemoveEdge :: "rep \<Rightarrow> graph_id \<Rightarrow> graph_id \<Rightarrow> rep option" where
  "RemoveEdge g x y = do {
     xn \<leftarrow> FindNode g x;
     yn \<leftarrow> FindNode g y;
     if xn \<noteq> None \<and> yn \<noteq> None then do {
       s \<leftarrow> ns_erase (out_set (nodes g ! nat (NodeIndex x))) (NodeIndex y);
       let g = upd_node g (NodeIndex x) (out_set_update (\<lambda>_. s));
       s \<leftarrow> ns_erase (in_set (nodes g ! nat (NodeIndex y))) (NodeIndex x);
       Some (upd_node g (NodeIndex y) (in_set_update (\<lambda>_. s)))
     }
     else Some g
   }"

section \<open>InsertEdge\<close>

text \<open>The loop over the successors in \<open>ForwardDFS\<close>; \<open>None\<close> is its return of false.\<close>

fun push_out :: "node list \<Rightarrow> int \<Rightarrow> int list \<Rightarrow> int list \<Rightarrow> int list option" where
  "push_out ns upper_bound [] st = Some st"
| "push_out ns upper_bound (w # ws) st =
     (let nw = ns ! nat w in
      if rank nw = upper_bound then None
      else push_out ns upper_bound ws (if \<not> visited nw \<and> rank nw < upper_bound then w # st else st))"

function fdfs :: "node list \<Rightarrow> int \<Rightarrow> int list \<Rightarrow> int list \<Rightarrow> (bool \<times> node list \<times> int list) option" where
  "fdfs ns upper_bound [] deltaf = Some (True, ns, deltaf)"
| "fdfs ns upper_bound (n # st) deltaf =
     (if \<not> (0 \<le> n \<and> nat n < length ns) then None
      else if visited (ns ! nat n) then fdfs ns upper_bound st deltaf
      else
        let ns = ns[nat n := (ns ! nat n)\<lparr>visited := True\<rparr>]; deltaf = deltaf @ [n] in
        case push_out ns upper_bound (ns_elems (out_set (ns ! nat n))) st of
          None \<Rightarrow> Some (False, ns, deltaf)
        | Some st \<Rightarrow> fdfs ns upper_bound st deltaf)"
  by pat_completeness auto

fun push_in :: "node list \<Rightarrow> int \<Rightarrow> int list \<Rightarrow> int list \<Rightarrow> int list" where
  "push_in ns lower_bound [] st = st"
| "push_in ns lower_bound (w # ws) st =
     (let nw = ns ! nat w in
      push_in ns lower_bound ws (if \<not> visited nw \<and> lower_bound < rank nw then w # st else st))"

function bdfs :: "node list \<Rightarrow> int \<Rightarrow> int list \<Rightarrow> int list \<Rightarrow> (node list \<times> int list) option" where
  "bdfs ns lower_bound [] deltab = Some (ns, deltab)"
| "bdfs ns lower_bound (n # st) deltab =
     (if \<not> (0 \<le> n \<and> nat n < length ns) then None
      else if visited (ns ! nat n) then bdfs ns lower_bound st deltab
      else
        let ns = ns[nat n := (ns ! nat n)\<lparr>visited := True\<rparr>]; deltab = deltab @ [n] in
        bdfs ns lower_bound (push_in ns lower_bound (ns_elems (in_set (ns ! nat n))) st) deltab)"
  by pat_completeness auto

text \<open>Both searches end: a step marks one more node, or shortens the stack.\<close>

definition unvisited :: "node list \<Rightarrow> nat" where
  "unvisited ns = length [n \<leftarrow> ns. \<not> visited n]"

lemma unvisited_mark:
  assumes "i < length ns" "\<not> visited (ns ! i)"
  shows "unvisited (ns[i := (ns ! i)\<lparr>visited := True\<rparr>]) < unvisited ns"
proof -
  have ns: "ns = take i ns @ ns ! i # drop (Suc i) ns" using assms by (simp add: id_take_nth_drop)
  have "unvisited ns = length [n \<leftarrow> take i ns. \<not> visited n] + Suc (length [n \<leftarrow> drop (Suc i) ns. \<not> visited n])"
    unfolding unvisited_def using assms(2) by (subst ns) simp
  then show ?thesis using assms(1) by (simp add: unvisited_def upd_conv_take_nth_drop)
qed

termination fdfs
  by (relation "measures [\<lambda>(ns, _, _, _). unvisited ns, \<lambda>(_, _, st, _). length st]")
    (auto simp: unvisited_mark)

termination bdfs
  by (relation "measures [\<lambda>(ns, _, _, _). unvisited ns, \<lambda>(_, _, st, _). length st]")
    (auto simp: unvisited_mark)

definition ForwardDFS :: "node list \<Rightarrow> int \<Rightarrow> int \<Rightarrow> (bool \<times> node list \<times> int list) option" where
  "ForwardDFS ns n upper_bound = fdfs ns upper_bound [n] []"

definition BackwardDFS :: "node list \<Rightarrow> int \<Rightarrow> int \<Rightarrow> (node list \<times> int list) option" where
  "BackwardDFS ns n lower_bound = bdfs ns lower_bound [n] []"

definition Sort :: "node list \<Rightarrow> int list \<Rightarrow> int list" where
  "Sort ns delta = sort_key (\<lambda>a. rank (ns ! nat a)) delta"

text \<open>\<open>MoveToList\<close>: the nodes, the entries of \<open>src\<close> replaced by their ranks, and the extended \<open>dst\<close>.\<close>

fun MoveToList :: "node list \<Rightarrow> int list \<Rightarrow> int list \<Rightarrow> node list \<times> int list \<times> int list" where
  "MoveToList ns [] dst = (ns, [], dst)"
| "MoveToList ns (w # src) dst =
     (let v = rank (ns ! nat w);
          (ns, src, dst) = MoveToList (ns[nat w := (ns ! nat w)\<lparr>visited := False\<rparr>]) src (dst @ [w])
      in (ns, v # src, dst))"

fun std_merge :: "int list \<Rightarrow> int list \<Rightarrow> int list" where
  "std_merge [] ys = ys"
| "std_merge xs [] = xs"
| "std_merge (x # xs) (y # ys) =
     (if y < x then y # std_merge (x # xs) ys else x # std_merge xs (y # ys))"

fun assign_ranks :: "node list \<Rightarrow> int list \<Rightarrow> int list \<Rightarrow> node list" where
  "assign_ranks ns (a # list) (m # merged) =
     assign_ranks (ns[nat a := (ns ! nat a)\<lparr>rank := m\<rparr>]) list merged"
| "assign_ranks ns _ _ = ns"

definition Reorder :: "node list \<Rightarrow> int list \<Rightarrow> int list \<Rightarrow> node list" where
  "Reorder ns deltab deltaf =
     (let deltab = Sort ns deltab;
          deltaf = Sort ns deltaf;
          (ns, deltab, list) = MoveToList ns deltab [];
          (ns, deltaf, list) = MoveToList ns deltaf list
      in assign_ranks ns list (std_merge deltab deltaf))"

fun clear_visited :: "node list \<Rightarrow> int list \<Rightarrow> node list" where
  "clear_visited ns [] = ns"
| "clear_visited ns (d # ds) = clear_visited (ns[nat d := (ns ! nat d)\<lparr>visited := False\<rparr>]) ds"

definition InsertEdge :: "rep \<Rightarrow> graph_id \<Rightarrow> graph_id \<Rightarrow> (bool \<times> rep) option" where
  "InsertEdge g idx idy = do {
     let x = NodeIndex idx; y = NodeIndex idy in do {
     nx \<leftarrow> FindNode g idx;
     ny \<leftarrow> FindNode g idy;
     if nx = None \<or> ny = None then Some (True, g)
     else if x = y then Some (False, g)
     else do {
       (inserted, s) \<leftarrow> ns_insert (out_set (nodes g ! nat x)) y;
       let g = upd_node g x (out_set_update (\<lambda>_. s)) in
       if \<not> inserted then Some (True, g)
       else do {
         (_, s) \<leftarrow> ns_insert (in_set (nodes g ! nat y)) x;
         let g = upd_node g y (in_set_update (\<lambda>_. s)) in
         if rank (nodes g ! nat x) \<le> rank (nodes g ! nat y) then Some (True, g)
         else do {
           (ok, ns, deltaf) \<leftarrow> ForwardDFS (nodes g) y (rank (nodes g ! nat x));
           let g = g\<lparr>nodes := ns\<rparr> in
           if \<not> ok then do {
             s \<leftarrow> ns_erase (out_set (nodes g ! nat x)) y;
             let g = upd_node g x (out_set_update (\<lambda>_. s)) in do {
             s \<leftarrow> ns_erase (in_set (nodes g ! nat y)) x;
             let g = upd_node g y (in_set_update (\<lambda>_. s)) in
             Some (False, g\<lparr>nodes := clear_visited (nodes g) deltaf\<rparr>) }
           }
           else do {
             (ns, deltab) \<leftarrow> BackwardDFS (nodes g) x (rank (nodes g ! nat y));
             Some (True, g\<lparr>nodes := Reorder ns deltab deltaf\<rparr>)
           }
         }
       }
     }}
   }"

section \<open>The searches\<close>

text \<open>\<open>mark ns D\<close>: the nodes \<open>ns\<close> with the markers of \<open>D\<close> set.\<close>

definition mark :: "node list \<Rightarrow> nat set \<Rightarrow> node list" where
  "mark ns D = map (\<lambda>i. if i \<in> D then (ns ! i)\<lparr>visited := True\<rparr> else ns ! i) [0..<length ns]"

lemma length_mark [simp]: "length (mark ns D) = length ns"
  by (simp add: mark_def)

lemma mark_nth: "i < length ns \<Longrightarrow> mark ns D ! i = (if i \<in> D then (ns ! i)\<lparr>visited := True\<rparr> else ns ! i)"
  by (simp add: mark_def)

lemma mark_fields [simp]:
  "i < length ns \<Longrightarrow> rank (mark ns D ! i) = rank (ns ! i)"
  "i < length ns \<Longrightarrow> in_set (mark ns D ! i) = in_set (ns ! i)"
  "i < length ns \<Longrightarrow> out_set (mark ns D ! i) = out_set (ns ! i)"
  "i < length ns \<Longrightarrow> visited (mark ns D ! i) = (i \<in> D \<or> visited (ns ! i))"
  by (simp_all add: mark_nth)

lemma mark_empty [simp]: "mark ns {} = ns"
  by (rule nth_equalityI) (simp_all add: mark_nth)

lemma mark_upd:
  "i < length ns \<Longrightarrow> (mark ns D)[i := (mark ns D ! i)\<lparr>visited := True\<rparr>] = mark ns (insert i D)"
  by (rule nth_equalityI) (auto simp: mark_nth nth_list_update)

lemma mark_clear:
  "i < length ns \<Longrightarrow> \<not> visited (ns ! i) \<Longrightarrow>
     (mark ns D)[i := (mark ns D ! i)\<lparr>visited := False\<rparr>] = mark ns (D - {i})"
  by (rule nth_equalityI) (auto simp: mark_nth nth_list_update)

text \<open>
  Both searches are one: follow \<open>sel\<close>, push the neighbours whose rank satisfies \<open>go\<close>, stop at one
  whose rank satisfies \<open>stop\<close>.
\<close>

fun gpush :: "(int \<Rightarrow> bool) \<Rightarrow> (int \<Rightarrow> bool) \<Rightarrow> node list \<Rightarrow> int list \<Rightarrow> int list \<Rightarrow> int list option" where
  "gpush go stop ns [] st = Some st"
| "gpush go stop ns (w # ws) st =
     (let nw = ns ! nat w in
      if stop (rank nw) then None
      else gpush go stop ns ws (if \<not> visited nw \<and> go (rank nw) then w # st else st))"

function gdfs :: "(node \<Rightarrow> node_set) \<Rightarrow> (int \<Rightarrow> bool) \<Rightarrow> (int \<Rightarrow> bool) \<Rightarrow> node list \<Rightarrow> int list \<Rightarrow> int list \<Rightarrow>
    (bool \<times> node list \<times> int list) option" where
  "gdfs sel go stop ns [] delta = Some (True, ns, delta)"
| "gdfs sel go stop ns (n # st) delta =
     (if \<not> (0 \<le> n \<and> nat n < length ns) then None
      else if visited (ns ! nat n) then gdfs sel go stop ns st delta
      else
        let ns = ns[nat n := (ns ! nat n)\<lparr>visited := True\<rparr>]; delta = delta @ [n] in
        case gpush go stop ns (ns_elems (sel (ns ! nat n))) st of
          None \<Rightarrow> Some (False, ns, delta)
        | Some st \<Rightarrow> gdfs sel go stop ns st delta)"
  by pat_completeness auto
termination
  by (relation "measures [\<lambda>(_, _, _, ns, _, _). unvisited ns, \<lambda>(_, _, _, _, st, _). length st]")
    (auto simp: unvisited_mark)

lemma push_out_gpush: "push_out ns ub ws st = gpush (\<lambda>r. r < ub) (\<lambda>r. r = ub) ns ws st"
  by (induction ws arbitrary: st) (simp_all add: Let_def)

lemma push_in_gpush: "Some (push_in ns lb ws st) = gpush (\<lambda>r. lb < r) (\<lambda>_. False) ns ws st"
  by (induction ws arbitrary: st) (simp_all add: Let_def)

lemma fdfs_gdfs: "fdfs ns ub st df = gdfs out_set (\<lambda>r. r < ub) (\<lambda>r. r = ub) ns st df"
  by (induction ns ub st df rule: fdfs.induct)
    (auto simp: Let_def push_out_gpush split: option.split)

lemma bdfs_gdfs:
  "map_option (\<lambda>(ns, db). (True, ns, db)) (bdfs ns lb st db) = gdfs in_set (\<lambda>r. lb < r) (\<lambda>_. False) ns st db"
  by (induction ns lb st db rule: bdfs.induct)
    (auto simp: Let_def simp flip: push_in_gpush split: option.split)

lemma gpush_cases:
  "case gpush go stop ns ws st of
     None \<Rightarrow> \<exists>w \<in> set ws. stop (rank (ns ! nat w))
   | Some st' \<Rightarrow> (\<forall>w \<in> set ws. \<not> stop (rank (ns ! nat w))) \<and>
       set st' = set st \<union> {w \<in> set ws. \<not> visited (ns ! nat w) \<and> go (rank (ns ! nat w))}"
proof (induction ws arbitrary: st)
  case Nil
  then show ?case by simp
next
  case (Cons w ws)
  show ?case
    using Cons.IH [of "if \<not> visited (ns ! nat w) \<and> go (rank (ns ! nat w)) then w # st else st"]
    by (auto simp: Let_def split: option.splits if_splits)
qed

definition neighbours :: "(node \<Rightarrow> node_set) \<Rightarrow> node list \<Rightarrow> nat \<Rightarrow> nat set" where
  "neighbours sel ns a = {c. int c \<in> set (ns_elems (sel (ns ! a)))}"

definition search_rel :: "(node \<Rightarrow> node_set) \<Rightarrow> (int \<Rightarrow> bool) \<Rightarrow> node list \<Rightarrow> (nat \<times> nat) set" where
  "search_rel sel go ns = {(a, c). c \<in> neighbours sel ns a \<and> go (rank (ns ! c))}"

definition search_closed ::
  "(node \<Rightarrow> node_set) \<Rightarrow> (int \<Rightarrow> bool) \<Rightarrow> (int \<Rightarrow> bool) \<Rightarrow> node list \<Rightarrow> nat set \<Rightarrow> nat set \<Rightarrow> bool" where
  "search_closed sel go stop ns A V \<longleftrightarrow>
     (\<forall>a \<in> A. \<forall>c \<in> neighbours sel ns a. \<not> stop (rank (ns ! c)) \<and> (go (rank (ns ! c)) \<longrightarrow> c \<in> V))"

definition search_result ::
  "(node \<Rightarrow> node_set) \<Rightarrow> (int \<Rightarrow> bool) \<Rightarrow> (int \<Rightarrow> bool) \<Rightarrow> node list \<Rightarrow> nat set \<Rightarrow> nat set \<Rightarrow> bool \<Rightarrow> nat list \<Rightarrow> bool"
  where
  "search_result sel go stop ns0 D S b ext \<longleftrightarrow>
     distinct ext \<and> set ext \<inter> D = {} \<and> set ext \<subseteq> {..<length ns0} \<and>
     set ext \<subseteq> (search_rel sel go ns0)\<^sup>* `` S \<and>
     (b \<longrightarrow> S \<subseteq> D \<union> set ext \<and> search_closed sel go stop ns0 (set ext) (D \<union> set ext)) \<and>
     (\<not> b \<longrightarrow> (\<exists>a \<in> set ext. \<exists>c \<in> neighbours sel ns0 a. stop (rank (ns0 ! c))))"

lemma search_resultD:
  assumes "search_result sel go stop ns0 D S b ext"
  shows "distinct ext" "set ext \<inter> D = {}" "set ext \<subseteq> {..<length ns0}"
  using assms by (simp_all add: search_result_def)

lemma search_result_step:
  assumes r: "search_result sel go stop ns0 (insert i D) (S' \<union> S) b ext"
    and i: "i \<notin> D" "i < length ns0"
    and S': "S' \<subseteq> {c \<in> neighbours sel ns0 i. go (rank (ns0 ! c))}"
      "\<And>c. c \<in> neighbours sel ns0 i \<Longrightarrow> \<not> stop (rank (ns0 ! c)) \<and> (go (rank (ns0 ! c)) \<longrightarrow> c \<in> S' \<union> insert i D)"
  shows "search_result sel go stop ns0 D (insert i S) b (i # ext)"
proof -
  let ?R = "search_rel sel go ns0"
  have "(i, c) \<in> ?R" if "c \<in> S'" for c using that S'(1) by (auto simp: search_rel_def)
  then have "?R\<^sup>* `` (S' \<union> S) \<subseteq> ?R\<^sup>* `` insert i S"
    by (auto intro: converse_rtrancl_into_rtrancl)
  then have "set ext \<subseteq> ?R\<^sup>* `` insert i S" using r unfolding search_result_def by blast
  then have reach: "set (i # ext) \<subseteq> ?R\<^sup>* `` insert i S" by auto
  have closed: "search_closed sel go stop ns0 (set (i # ext)) (D \<union> set (i # ext))" if b
  proof -
    have "search_closed sel go stop ns0 (set ext) (insert i D \<union> set ext)" "S' \<subseteq> insert i D \<union> set ext"
      using r that unfolding search_result_def by blast+
    then show ?thesis using S'(2) unfolding search_closed_def by auto
  qed
  show ?thesis
    using r i reach closed unfolding search_result_def by auto
qed

lemma search_result_more:
  assumes "search_result sel go stop ns0 D S b ext" "i \<in> D"
  shows "search_result sel go stop ns0 D (insert i S) b ext"
proof -
  have "(search_rel sel go ns0)\<^sup>* `` S \<subseteq> (search_rel sel go ns0)\<^sup>* `` insert i S" by (rule Image_mono) auto
  then show ?thesis using assms unfolding search_result_def by blast
qed

lemma gdfs_spec_aux:
  "ns = mark ns0 D \<Longrightarrow>
   (\<forall>i < length ns0. \<forall>v \<in> set (ns_elems (sel (ns0 ! i))). 0 \<le> v \<and> nat v < length ns0) \<Longrightarrow>
   (\<forall>n. sel (n\<lparr>visited := True\<rparr>) = sel n) \<Longrightarrow> (\<forall>i < length ns0. \<not> visited (ns0 ! i)) \<Longrightarrow>
   D \<subseteq> {..<length ns0} \<Longrightarrow> (\<forall>v \<in> set st. 0 \<le> v \<and> nat v < length ns0) \<Longrightarrow>
   \<exists>b ext. gdfs sel go stop ns st df = Some (b, mark ns0 (D \<union> set ext), df @ map int ext) \<and>
     search_result sel go stop ns0 D (nat ` set st) b ext"
proof (induction sel go stop ns st df arbitrary: D rule: gdfs.induct)
  case (1 sel go stop ns df)
  show ?case
    by (rule exI [of _ True], rule exI [of _ "[]"]) (simp add: 1 search_result_def search_closed_def)
next
  case (2 sel go stop ns n st df)
  note prems = "2.prems"
  define i where "i = nat n"
  have i: "n = int i" "i < length ns0" using prems(6) by (auto simp: i_def)
  have vis: "visited (ns ! i) \<longleftrightarrow> i \<in> D" using prems(1,4) i by simp
  have in_range: "\<not> \<not> (0 \<le> n \<and> nat n < length ns)" using i prems(1) by simp
  have st: "\<forall>v \<in> set st. 0 \<le> v \<and> nat v < length ns0" using prems(6) by simp
  show ?case
  proof (cases "i \<in> D")
    case True
    then have v: "visited (ns ! nat n)" using vis by (simp add: i_def)
    obtain b ext where r: "gdfs sel go stop ns st df = Some (b, mark ns0 (D \<union> set ext), df @ map int ext)"
        "search_result sel go stop ns0 D (nat ` set st) b ext"
      using "2.IH"(1) [OF in_range v prems(1-5) st] by blast
    have "search_result sel go stop ns0 D (nat ` set (n # st)) b ext"
      using search_result_more [OF r(2) True] by (simp add: i_def)
    then show ?thesis using r(1) v in_range by auto
  next
    case False
    then have nv: "\<not> visited (ns ! nat n)" using vis by (simp add: i_def)
    define ns' where "ns' = mark ns0 (insert i D)"
    have ns': "ns[nat n := (ns ! nat n)\<lparr>visited := True\<rparr>] = ns'"
      using prems(1) i(2) mark_upd by (simp add: ns'_def i_def)
    define ws where "ws = ns_elems (sel (ns0 ! i))"
    have sel: "sel (ns' ! nat n) = sel (ns0 ! i)"
      using prems(3) i by (simp add: ns'_def mark_nth)
    have ws: "0 \<le> w \<and> nat w < length ns0" if "w \<in> set ws" for w using prems(2) i(2) that by (simp add: ws_def)
    have nb: "c \<in> neighbours sel ns0 i \<longleftrightarrow> int c \<in> set ws" for c by (simp add: neighbours_def ws_def)
    note unf = gdfs.simps(2) [of sel go stop ns n st df, unfolded Let_def ns' sel, folded ws_def]
    show ?thesis
    proof (cases "gpush go stop ns' ws st")
      case None
      then have g: "gdfs sel go stop ns (n # st) df = Some (False, ns', df @ [n])"
        using unf in_range nv by simp
      obtain w where w: "w \<in> set ws" "stop (rank (ns' ! nat w))"
        using gpush_cases [where go = go and stop = stop and ns = ns' and ws = ws and st = st] None by auto
      then have "nat w \<in> neighbours sel ns0 i" "stop (rank (ns0 ! nat w))"
        using ws [OF w(1)] nb by (simp_all add: ns'_def)
      then have "search_result sel go stop ns0 D (nat ` set (n # st)) False [i]"
        using False i unfolding search_result_def by (auto intro!: bexI [of _ "nat w"])
      then show ?thesis using g i(1) by (intro exI [of _ False] exI [of _ "[i]"]) (simp add: ns'_def)
    next
      case (Some st')
      then have g: "gdfs sel go stop ns (n # st) df = gdfs sel go stop ns' st' (df @ [n])"
        using unf in_range nv by simp
      have st': "\<forall>w \<in> set ws. \<not> stop (rank (ns' ! nat w))"
        "set st' = set st \<union> {w \<in> set ws. \<not> visited (ns' ! nat w) \<and> go (rank (ns' ! nat w))}"
        using gpush_cases [where go = go and stop = stop and ns = ns' and ws = ws and st = st] Some by auto
      have D': "insert i D \<subseteq> {..<length ns0}" using prems(5) i(2) by simp
      have st'r: "\<forall>v \<in> set st'. 0 \<le> v \<and> nat v < length ns0" using st st'(2) ws by auto
      have gp: "gpush go stop ns' (ns_elems (sel (ns' ! nat n))) st = Some st'"
        using Some sel by (simp add: ws_def)
      obtain b ext where r: "gdfs sel go stop ns' st' (df @ [n]) =
            Some (b, mark ns0 (insert i D \<union> set ext), (df @ [n]) @ map int ext)"
          "search_result sel go stop ns0 (insert i D) (nat ` set st') b ext"
        using "2.IH"(2) [OF in_range nv ns' [symmetric] refl gp ns'_def prems(2-4) D' st'r] by blast
      define S' where "S' = nat ` {w \<in> set ws. \<not> visited (ns' ! nat w) \<and> go (rank (ns' ! nat w))}"
      have S'_iff: "c \<in> S' \<longleftrightarrow> int c \<in> set ws \<and> c \<notin> insert i D \<and> go (rank (ns0 ! c))" if "c < length ns0" for c
      proof -
        have "c \<in> S' \<longleftrightarrow> int c \<in> set ws \<and> \<not> visited (ns' ! c) \<and> go (rank (ns' ! c))"
          using ws by (force simp: S'_def image_iff)
        then show ?thesis using that prems(4) by (simp add: ns'_def)
      qed
      have S'_range: "c < length ns0" if "c \<in> S'" for c using that ws by (auto simp: S'_def)
      have "nat ` set st' = S' \<union> nat ` set st" using st'(2) by (auto simp: S'_def)
      then have "search_result sel go stop ns0 D (insert i (nat ` set st)) b (i # ext)"
      proof (intro search_result_step)
        show "search_result sel go stop ns0 (insert i D) (S' \<union> nat ` set st) b ext"
          using r(2) \<open>nat ` set st' = S' \<union> nat ` set st\<close> by simp
        show "S' \<subseteq> {c \<in> neighbours sel ns0 i. go (rank (ns0 ! c))}"
          using S'_iff S'_range nb by blast
        fix c assume c: "c \<in> neighbours sel ns0 i"
        then have "int c \<in> set ws" "c < length ns0" using nb ws by force+
        then show "\<not> stop (rank (ns0 ! c)) \<and> (go (rank (ns0 ! c)) \<longrightarrow> c \<in> S' \<union> insert i D)"
          using st'(1) S'_iff [of c] by (force simp: ns'_def)
      qed (use False i in auto)
      then show ?thesis
        using r(1) g i(1) by (intro exI [of _ b] exI [of _ "i # ext"]) (simp add: Un_insert_right)
    qed
  qed
qed

section \<open>Reordering\<close>

text \<open>\<open>rerank ns r\<close>: the nodes \<open>ns\<close> with the ranks \<open>r\<close>.\<close>

definition rerank :: "node list \<Rightarrow> (nat \<Rightarrow> int) \<Rightarrow> node list" where
  "rerank ns r = map (\<lambda>i. (ns ! i)\<lparr>rank := r i\<rparr>) [0..<length ns]"

lemma length_rerank [simp]: "length (rerank ns r) = length ns"
  by (simp add: rerank_def)

lemma rerank_nth [simp]: "i < length ns \<Longrightarrow> rerank ns r ! i = (ns ! i)\<lparr>rank := r i\<rparr>"
  by (simp add: rerank_def)

definition new_rank :: "node list \<Rightarrow> nat list \<Rightarrow> int list \<Rightarrow> nat \<Rightarrow> int" where
  "new_rank ns l M z = (case map_of (zip l M) z of Some m \<Rightarrow> m | None \<Rightarrow> rank (ns ! z))"

lemma new_rank_listed:
  "distinct l \<Longrightarrow> length l = length M \<Longrightarrow> i < length l \<Longrightarrow> new_rank ns l M (l ! i) = M ! i"
  by (simp add: new_rank_def map_of_zip_nth)

lemma new_rank_other: "z \<notin> set l \<Longrightarrow> new_rank ns l M z = rank (ns ! z)"
  unfolding new_rank_def
  by (metis map_of_SomeD not_None_eq option.simps(4) set_zip_leftD)

lemma assign_ranks_eq:
  "length l = length M \<Longrightarrow> distinct l \<Longrightarrow> set l \<subseteq> {..<length ns} \<Longrightarrow>
     assign_ranks ns (map int l) M = rerank ns (new_rank ns l M)"
proof (induction l M arbitrary: ns rule: list_induct2)
  case Nil
  show ?case by (rule nth_equalityI) (simp_all add: new_rank_other)
next
  case (Cons a l m M)
  let ?ns = "ns[a := (ns ! a)\<lparr>rank := m\<rparr>]"
  have a: "a < length ns" "a \<notin> set l" using Cons.prems by auto
  have "assign_ranks ns (map int (a # l)) (m # M) = rerank ?ns (new_rank ?ns l M)"
    using Cons.IH [of ?ns] Cons.prems by simp
  also have "\<dots> = rerank ns (new_rank ns (a # l) (m # M))"
  proof (rule nth_equalityI)
    fix i assume "i < length (rerank ?ns (new_rank ?ns l M))"
    then have i: "i < length ns" by simp
    have "new_rank ?ns l M i = new_rank ns (a # l) (m # M) i"
      using i a new_rank_other [of i l ?ns M] by (auto simp: new_rank_def nth_list_update split: option.split)
    then show "rerank ?ns (new_rank ?ns l M) ! i = rerank ns (new_rank ns (a # l) (m # M)) ! i"
      using i by (cases "i = a") auto
  qed simp
  finally show ?case .
qed

lemma MoveToList_eq:
  "set xs \<subseteq> {..<length ns} \<Longrightarrow> \<forall>i < length ns. \<not> visited (ns ! i) \<Longrightarrow>
     MoveToList (mark ns D) (map int xs) dst = (mark ns (D - set xs), map (\<lambda>a. rank (ns ! a)) xs, dst @ map int xs)"
proof (induction xs arbitrary: D dst)
  case Nil
  then show ?case by simp
next
  case (Cons x xs)
  have "D - {x} - set xs = D - set (x # xs)" by auto
  then show ?case using Cons mark_clear [of x ns D] by (simp add: Let_def)
qed

lemma mset_std_merge: "mset (std_merge xs ys) = mset xs + mset ys"
  by (induction xs ys rule: std_merge.induct) auto

lemma sorted_std_merge: "sorted xs \<Longrightarrow> sorted ys \<Longrightarrow> sorted (std_merge xs ys)"
proof (induction xs ys rule: std_merge.induct)
  case (3 x xs y ys)
  have "set (std_merge (x # xs) ys) = set (x # xs) \<union> set ys" "set (std_merge xs (y # ys)) = set xs \<union> set (y # ys)"
    using arg_cong [OF mset_std_merge, of set_mset] by (metis set_mset_mset set_mset_union)+
  then show ?case using 3 by (auto simp: less_imp_le)
qed simp_all

lemma Reorder_eq:
  assumes ns: "ns = mark ns1 (set fs \<union> set bs)" and unv: "\<forall>i < length ns1. \<not> visited (ns1 ! i)"
    and rng: "set bs \<union> set fs \<subseteq> {..<length ns1}" and d: "distinct (bs @ fs)" and rd: "distinct (map rank ns1)"
  shows "\<exists>bs' fs' M. set bs' = set bs \<and> set fs' = set fs \<and> distinct (bs' @ fs') \<and>
     sorted_wrt (<) (map (\<lambda>a. rank (ns1 ! a)) bs') \<and> sorted_wrt (<) (map (\<lambda>a. rank (ns1 ! a)) fs') \<and>
     sorted_wrt (<) M \<and> set M = (\<lambda>a. rank (ns1 ! a)) ` set (bs' @ fs') \<and> length M = length (bs' @ fs') \<and>
     Reorder ns (map int bs) (map int fs) = rerank ns1 (new_rank ns1 (bs' @ fs') M)"
proof -
  let ?r = "\<lambda>a. rank (ns1 ! a)"
  have inj: "inj_on ?r {..<length ns1}"
    using rd by (auto simp: inj_on_def distinct_conv_nth)
  have srt: "\<exists>xs'. Sort ns (map int xs) = map int xs' \<and> mset xs' = mset xs \<and> sorted_wrt (<) (map ?r xs')"
    if xs: "set xs \<subseteq> {..<length ns1}" "distinct xs" for xs
  proof -
    define xs' where "xs' = map nat (Sort ns (map int xs))"
    have s: "mset (Sort ns (map int xs)) = mset (map int xs)" by (simp add: Sort_def)
    have "set (Sort ns (map int xs)) = int ` set xs" using arg_cong [OF s, of set_mset] by simp
    then have "map (int \<circ> nat) (Sort ns (map int xs)) = Sort ns (map int xs)" by (intro map_idI) auto
    then have S: "Sort ns (map int xs) = map int xs'" by (simp add: xs'_def)
    then have m: "mset xs' = mset xs" using s by (metis mset_map multiset.inj_map_strong of_nat_eq_iff)
    have "sorted (map (\<lambda>a. rank (ns ! nat a)) (Sort ns (map int xs)))" by (simp add: Sort_def)
    moreover have "map (\<lambda>a. rank (ns ! nat a)) (Sort ns (map int xs)) = map ?r xs'"
    proof -
      have "set xs' \<subseteq> {..<length ns1}" using arg_cong [OF m, of set_mset] xs(1) by simp
      then show ?thesis unfolding S by (auto simp: ns)
    qed
    moreover have "distinct (map ?r xs')"
      using m xs inj by (metis distinct_map inj_on_subset mset_eq_imp_distinct_iff mset_eq_setD)
    ultimately have "sorted_wrt (<) (map ?r xs')" by (simp add: strict_sorted_iff)
    then show ?thesis using S m by blast
  qed
  obtain bs' where bs': "Sort ns (map int bs) = map int bs'" "mset bs' = mset bs" "sorted_wrt (<) (map ?r bs')"
    using srt [of bs] rng d by auto
  obtain fs' where fs': "Sort ns (map int fs) = map int fs'" "mset fs' = mset fs" "sorted_wrt (<) (map ?r fs')"
    using srt [of fs] rng d by auto
  have sets: "set bs' = set bs" "set fs' = set fs" using bs'(2) fs'(2) by (metis set_mset_mset)+
  have "mset (bs' @ fs') = mset (bs @ fs)" using bs'(2) fs'(2) by simp
  then have d': "distinct (bs' @ fs')" using d mset_eq_imp_distinct_iff by blast
  define M where "M = std_merge (map ?r bs') (map ?r fs')"
  have mM: "mset M = mset (map ?r (bs' @ fs'))" by (simp add: M_def mset_std_merge)
  have "inj_on ?r (set (bs' @ fs'))" using inj rng sets by (auto intro: inj_on_subset)
  then have "distinct (map ?r (bs' @ fs'))" using d' distinct_map by blast
  then have "distinct M" using mM mset_eq_imp_distinct_iff by metis
  moreover have "sorted M"
    using bs'(3) fs'(3) unfolding M_def by (intro sorted_std_merge) (simp_all add: strict_sorted_iff)
  ultimately have M: "sorted_wrt (<) M" by (simp add: strict_sorted_iff)
  have lM: "length M = length (bs' @ fs')" using arg_cong [OF mM, of size] by simp
  have sM: "set M = ?r ` set (bs' @ fs')" using arg_cong [OF mM, of set_mset] by auto
  have "set fs \<union> set bs - set bs - set fs = {}" by auto
  then have e: "mark ns1 (set fs \<union> set bs - set bs - set fs) = ns1" by (simp only: mark_empty)
  have "Reorder ns (map int bs) (map int fs) = assign_ranks ns1 (map int (bs' @ fs')) M"
    using rng sets unv e by (simp add: Reorder_def bs'(1) fs'(1) ns MoveToList_eq M_def bs'(1) [unfolded ns] fs'(1) [unfolded ns])
  also have "\<dots> = rerank ns1 (new_rank ns1 (bs' @ fs') M)"
    using rng sets d' lM by (intro assign_ranks_eq) auto
  finally show ?thesis using sets d' bs'(3) fs'(3) M sM lM by blast
qed

section \<open>The invariant of the graph\<close>

definition edges :: "node list \<Rightarrow> (nat \<times> nat) set" where
  "edges ns = {(x, y). x < length ns \<and> int y \<in> set (ns_elems (out_set (ns ! x)))}"

definition sets_inv :: "node list \<Rightarrow> bool" where
  "sets_inv ns \<longleftrightarrow>
     (\<forall>x < length ns. ns_inv (in_set (ns ! x)) \<and> ns_inv (out_set (ns ! x)) \<and>
        (\<forall>v \<in> set (ns_elems (in_set (ns ! x))) \<union> set (ns_elems (out_set (ns ! x))). nat v < length ns)) \<and>
     (\<forall>x < length ns. \<forall>y < length ns.
        int x \<in> set (ns_elems (in_set (ns ! y))) \<longleftrightarrow> int y \<in> set (ns_elems (out_set (ns ! x))))"

text \<open>The ranks are a permutation of the indices, edges lead to higher ranks, all markers are clear.\<close>

definition graph_inv :: "node list \<Rightarrow> bool" where
  "graph_inv ns \<longleftrightarrow> sets_inv ns \<and> distinct (map rank ns) \<and> set (map rank ns) = int ` {..<length ns} \<and>
     (\<forall>(a, c) \<in> edges ns. rank (ns ! a) < rank (ns ! c)) \<and> (\<forall>i < length ns. \<not> visited (ns ! i))"

lemma edges_range: "sets_inv ns \<Longrightarrow> (a, c) \<in> edges ns \<Longrightarrow> a < length ns \<and> c < length ns"
proof -
  assume inv: "sets_inv ns" and "(a, c) \<in> edges ns"
  then have a: "a < length ns" "int c \<in> set (ns_elems (out_set (ns ! a)))" by (simp_all add: edges_def)
  then have "nat (int c) < length ns" using inv unfolding sets_inv_def by blast
  then show ?thesis using a by simp
qed

lemma edges_iff:
  "sets_inv ns \<Longrightarrow> a < length ns \<Longrightarrow> (a, c) \<in> edges ns \<longleftrightarrow> c \<in> neighbours out_set ns a"
  by (simp add: edges_def neighbours_def)

lemma edges_iff_in:
  "sets_inv ns \<Longrightarrow> c < length ns \<Longrightarrow> (a, c) \<in> edges ns \<longleftrightarrow> a \<in> neighbours in_set ns c"
proof -
  assume inv: "sets_inv ns" and c: "c < length ns"
  have conv: "int a \<in> set (ns_elems (in_set (ns ! c))) \<longleftrightarrow> int c \<in> set (ns_elems (out_set (ns ! a)))" if "a < length ns"
    using inv c that unfolding sets_inv_def by blast
  have "a < length ns" if "int a \<in> set (ns_elems (in_set (ns ! c)))"
    using inv c that unfolding sets_inv_def by (metis UnI1 nat_int)
  then show ?thesis using conv by (auto simp: edges_def neighbours_def)
qed

text \<open>An invariant of the sets depends on the sets only.\<close>

lemma sets_inv_cong:
  assumes "length ns' = length ns" "map in_set ns' = map in_set ns" "map out_set ns' = map out_set ns"
  shows "sets_inv ns' = sets_inv ns" "edges ns' = edges ns"
proof -
  have i: "in_set (ns' ! i) = in_set (ns ! i)" "out_set (ns' ! i) = out_set (ns ! i)" if "i < length ns" for i
    using that assms by (metis nth_map)+
  have half: "sets_inv b"
    if a: "sets_inv a" and l: "length b = length a"
      and ab: "\<And>i. i < length a \<Longrightarrow> in_set (b ! i) = in_set (a ! i)" "\<And>i. i < length a \<Longrightarrow> out_set (b ! i) = out_set (a ! i)"
    for a b
    unfolding sets_inv_def l
  proof (intro conjI allI impI)
    fix x assume x: "x < length a"
    show "ns_inv (in_set (b ! x))" "ns_inv (out_set (b ! x))"
        "\<forall>v \<in> set (ns_elems (in_set (b ! x))) \<union> set (ns_elems (out_set (b ! x))). nat v < length a"
      unfolding ab(1) [OF x] ab(2) [OF x] using a x unfolding sets_inv_def by blast+
    fix y assume y: "y < length a"
    show "int x \<in> set (ns_elems (in_set (b ! y))) \<longleftrightarrow> int y \<in> set (ns_elems (out_set (b ! x)))"
      unfolding ab(1) [OF y] ab(2) [OF x] using a x y unfolding sets_inv_def by blast
  qed
  show "sets_inv ns' = sets_inv ns" using half [of ns ns'] half [of ns' ns] i assms(1) by auto
  show "edges ns' = edges ns"
    unfolding edges_def assms(1) by (intro Collect_cong) (auto simp: i)
qed

lemma map_nth_cong: "length ys = length xs \<Longrightarrow> (\<And>i. i < length xs \<Longrightarrow> f (ys ! i) = f (xs ! i)) \<Longrightarrow> map f ys = map f xs"
  by (rule nth_equalityI) simp_all

lemma sets_inv_mark [simp]: "sets_inv (mark ns D) = sets_inv ns" "edges (mark ns D) = edges ns"
  by (rule sets_inv_cong [OF length_mark]; rule map_nth_cong [OF length_mark]; simp)+

lemma sets_inv_rerank [simp]: "sets_inv (rerank ns r) = sets_inv ns" "edges (rerank ns r) = edges ns"
  by (rule sets_inv_cong [OF length_rerank]; rule map_nth_cong [OF length_rerank]; simp)+

lemma ranks_up_rtrancl:
  assumes "\<And>a c. (a, c) \<in> E \<Longrightarrow> r a < (r c :: int)" "(a, c) \<in> E\<^sup>*"
  shows "a = c \<or> r a < r c"
  using assms(2) by induction (use assms(1) in force)+

text \<open>What an operation on edges keeps of a node.\<close>

definition idents :: "node list \<Rightarrow> (u32 \<times> int \<times> u64 \<times> int \<times> u64 list) list" where
  "idents ns = map (\<lambda>n. (version n, next_hash n, masked_ptr n, priority n, stack n)) ns"

lemma idents_mark [simp]: "idents (mark ns D) = idents ns"
  by (rule nth_equalityI) (simp_all add: idents_def mark_nth)

lemma idents_rerank [simp]: "idents (rerank ns r) = idents ns"
  by (rule nth_equalityI) (simp_all add: idents_def)

text \<open>The two sets of an edge replaced.\<close>

definition set_edge :: "node list \<Rightarrow> nat \<Rightarrow> nat \<Rightarrow> node_set \<Rightarrow> node_set \<Rightarrow> node list" where
  "set_edge ns x y so si =
     (let ns = ns[x := out_set_update (\<lambda>_. so) (ns ! x)] in ns[y := in_set_update (\<lambda>_. si) (ns ! y)])"

lemma set_edge_nth:
  "i < length ns \<Longrightarrow> set_edge ns x y so si ! i =
     (let n = (if i = x then out_set_update (\<lambda>_. so) (ns ! i) else ns ! i)
      in if i = y then in_set_update (\<lambda>_. si) n else n)"
  by (cases "i = x"; cases "i = y") (simp_all add: set_edge_def Let_def)

lemma length_set_edge [simp]: "length (set_edge ns x y so si) = length ns"
  by (simp add: set_edge_def Let_def)

lemma set_edge_fields [simp]:
  "i < length ns \<Longrightarrow> rank (set_edge ns x y so si ! i) = rank (ns ! i)"
  "i < length ns \<Longrightarrow> visited (set_edge ns x y so si ! i) = visited (ns ! i)"
  "i < length ns \<Longrightarrow> out_set (set_edge ns x y so si ! i) = (if i = x then so else out_set (ns ! i))"
  "i < length ns \<Longrightarrow> in_set (set_edge ns x y so si ! i) = (if i = y then si else in_set (ns ! i))"
  by (simp_all add: set_edge_nth Let_def)

lemma idents_set_edge [simp]: "idents (set_edge ns x y so si) = idents ns"
  by (rule nth_equalityI) (simp_all add: idents_def set_edge_nth Let_def)

lemma set_edge_mark:
  "x < length ns \<Longrightarrow> y < length ns \<Longrightarrow> set_edge (mark ns D) x y so si = mark (set_edge ns x y so si) D"
  by (rule nth_equalityI) (simp_all add: set_edge_nth Let_def mark_nth)

lemma set_edge_inv:
  assumes inv: "sets_inv ns" and xy: "x < length ns" "y < length ns" and s: "ns_inv so" "ns_inv si"
    and so: "set (ns_elems so) = (if b then insert (int y) (set (ns_elems (out_set (ns ! x))))
             else set (ns_elems (out_set (ns ! x))) - {int y})"
    and si: "set (ns_elems si) = (if b then insert (int x) (set (ns_elems (in_set (ns ! y))))
             else set (ns_elems (in_set (ns ! y))) - {int x})"
  shows "sets_inv (set_edge ns x y so si)"
    and "edges (set_edge ns x y so si) = (if b then insert (x, y) (edges ns) else edges ns - {(x, y)})"
proof -
  let ?ns = "set_edge ns x y so si"
  have rng: "nat v < length ns" if "i < length ns" "v \<in> set (ns_elems (in_set (ns ! i))) \<union> set (ns_elems (out_set (ns ! i)))"
    for i v using inv that unfolding sets_inv_def by blast
  have ro: "nat v < length ns" if "v \<in> set (ns_elems so)" for v
    using that so rng [OF xy(1)] xy(2) by (auto split: if_splits)
  have ri: "nat v < length ns" if "v \<in> set (ns_elems si)" for v
    using that si rng [OF xy(2)] xy(1) by (auto split: if_splits)
  have 1: "\<forall>i < length ?ns. ns_inv (in_set (?ns ! i)) \<and> ns_inv (out_set (?ns ! i)) \<and>
      (\<forall>v \<in> set (ns_elems (in_set (?ns ! i))) \<union> set (ns_elems (out_set (?ns ! i))). nat v < length ?ns)"
  proof (intro allI impI)
    fix i assume "i < length ?ns"
    then have i: "i < length ns" by simp
    have "ns_inv (in_set (ns ! i)) \<and> ns_inv (out_set (ns ! i))" using inv i unfolding sets_inv_def by blast
    then have "ns_inv (in_set (?ns ! i)) \<and> ns_inv (out_set (?ns ! i))" using s i by auto
    moreover have "nat v < length ?ns"
      if "v \<in> set (ns_elems (in_set (?ns ! i))) \<union> set (ns_elems (out_set (?ns ! i)))" for v
      using that ro ri rng [OF i] i by (auto split: if_splits)
    ultimately show "ns_inv (in_set (?ns ! i)) \<and> ns_inv (out_set (?ns ! i)) \<and>
      (\<forall>v \<in> set (ns_elems (in_set (?ns ! i))) \<union> set (ns_elems (out_set (?ns ! i))). nat v < length ?ns)" by blast
  qed
  have 2: "int i \<in> set (ns_elems (in_set (?ns ! j))) \<longleftrightarrow> int j \<in> set (ns_elems (out_set (?ns ! i)))"
    if "i < length ns" "j < length ns" for i j
  proof -
    have "int i \<in> set (ns_elems (in_set (ns ! j))) \<longleftrightarrow> int j \<in> set (ns_elems (out_set (ns ! i)))"
      using inv that unfolding sets_inv_def by blast
    then show ?thesis using that so si by (cases "i = x"; cases "j = y") simp_all
  qed
  show "sets_inv ?ns" using 1 2 unfolding sets_inv_def by simp
  show "edges ?ns = (if b then insert (x, y) (edges ns) else edges ns - {(x, y)})"
  proof (rule set_eqI, clarify)
    fix i c
    show "(i, c) \<in> edges ?ns \<longleftrightarrow> (i, c) \<in> (if b then insert (x, y) (edges ns) else edges ns - {(x, y)})"
      using xy so by (cases "i = x"; cases b; cases "i < length ns") (simp_all add: edges_def)
  qed
qed

section \<open>The two searches\<close>

lemma ForwardDFS_spec:
  assumes "sets_inv ns" "\<forall>i < length ns. \<not> visited (ns ! i)" "y < length ns"
  shows "\<exists>b ext. ForwardDFS ns (int y) ub = Some (b, mark ns (set ext), map int ext) \<and>
     search_result out_set (\<lambda>r. r < ub) (\<lambda>r. r = ub) ns {} {y} b ext"
proof -
  have "\<forall>i < length ns. \<forall>v \<in> set (ns_elems (out_set (ns ! i))). 0 \<le> v \<and> nat v < length ns"
    using assms(1) ns.nonneg_law unfolding sets_inv_def by blast
  then show ?thesis
    using gdfs_spec_aux [OF mark_empty [symmetric], of ns out_set "[int y]" "\<lambda>r. r < ub" "\<lambda>r. r = ub" "[]"] assms(2,3)
    by (simp add: ForwardDFS_def fdfs_gdfs)
qed

lemma BackwardDFS_spec:
  assumes "sets_inv ns" "\<forall>i < length ns. \<not> visited (ns ! i)" "x < length ns" "D \<subseteq> {..<length ns}"
  shows "\<exists>ext. BackwardDFS (mark ns D) (int x) lb = Some (mark ns (D \<union> set ext), map int ext) \<and>
     search_result in_set (\<lambda>r. lb < r) (\<lambda>_. False) ns D {x} True ext"
proof -
  have "\<forall>i < length ns. \<forall>v \<in> set (ns_elems (in_set (ns ! i))). 0 \<le> v \<and> nat v < length ns"
    using assms(1) ns.nonneg_law unfolding sets_inv_def by blast
  then obtain b ext where r: "gdfs in_set (\<lambda>r. lb < r) (\<lambda>_. False) (mark ns D) [int x] [] =
        Some (b, mark ns (D \<union> set ext), map int ext)"
      "search_result in_set (\<lambda>r. lb < r) (\<lambda>_. False) ns D {x} b ext"
    using gdfs_spec_aux [OF refl, of ns in_set D "[int x]" "\<lambda>r. lb < r" "\<lambda>_. False" "[]"] assms(2-4) by auto
  have b using r(2) by (auto simp: search_result_def)
  have "map_option (\<lambda>(ns, db). (True, ns, db)) (bdfs (mark ns D) lb [int x] []) =
      Some (b, mark ns (D \<union> set ext), map int ext)"
    unfolding bdfs_gdfs by (rule r(1))
  then have "BackwardDFS (mark ns D) (int x) lb = Some (mark ns (D \<union> set ext), map int ext)"
    by (auto simp: BackwardDFS_def simp del: bdfs.simps)
  then show ?thesis using r(2) \<open>b\<close> by auto
qed

lemma forward_facts:
  fixes ns :: "node list" and E :: "(nat \<times> nat) set"
  defines "r \<equiv> \<lambda>i. rank (ns ! i)"
  assumes up: "\<And>a c. (a, c) \<in> E \<Longrightarrow> r a < r c" and E: "edges ns = insert (x, y) E" "sets_inv ns"
    and rd: "distinct (map rank ns)" and x: "x < length ns" "y < length ns" and less: "r y < r x"
    and res: "search_result out_set (\<lambda>k. k < r x) (\<lambda>k. k = r x) ns {} {y} b ext"
  shows "a \<in> set ext \<Longrightarrow> (y, a) \<in> E\<^sup>* \<and> r y \<le> r a \<and> r a < r x"
    and "\<not> b \<Longrightarrow> (y, x) \<in> E\<^sup>*"
    and "b \<Longrightarrow> (y, x) \<notin> E\<^sup>*" and "b \<Longrightarrow> y \<in> set ext"
    and "b \<Longrightarrow> a \<in> set ext \<Longrightarrow> (a, c) \<in> E \<Longrightarrow> c \<in> set ext \<or> r x < r c"
proof -
  have rng: "set ext \<subseteq> {..<length ns}" using res by (simp add: search_result_def)
  have R: "a < length ns \<and> (y, a) \<in> E\<^sup>* \<and> r y \<le> r a \<and> r a < r x"
    if "(y, a) \<in> (search_rel out_set (\<lambda>k. k < r x) ns)\<^sup>*" for a
    using that
  proof induction
    case base
    then show ?case using less x(2) by simp
  next
    case (step a c)
    then have c: "c \<in> neighbours out_set ns a" "r c < r x" by (auto simp: search_rel_def r_def)
    then have "(a, c) \<in> edges ns" using edges_iff [OF E(2)] step.IH by blast
    moreover from this have "c < length ns" using edges_range [OF E(2)] by blast
    ultimately show ?case using step.IH c(2) up [of a c] E(1) by auto
  qed
  show A: "(y, a) \<in> E\<^sup>* \<and> r y \<le> r a \<and> r a < r x" if "a \<in> set ext" for a
  proof -
    have "set ext \<subseteq> (search_rel out_set (\<lambda>k. k < r x) ns)\<^sup>* `` {y}"
      using res unfolding search_result_def by blast
    then show ?thesis using that R by blast
  qed
  have nb: "(a, c) \<in> E \<longleftrightarrow> c \<in> neighbours out_set ns a" if "a \<in> set ext" for a c
  proof -
    have "a \<noteq> x" "a < length ns" using A [OF that] rng that by auto
    then show ?thesis using edges_iff [OF E(2), of a c] E(1) by auto
  qed
  show "(y, x) \<in> E\<^sup>*" if "\<not> b"
  proof -
    have "\<exists>a \<in> set ext. \<exists>c \<in> neighbours out_set ns a. rank (ns ! c) = r x"
      using res that unfolding search_result_def by (elim conjE) simp
    then obtain a c where ac: "a \<in> set ext" "c \<in> neighbours out_set ns a" "r c = r x"
      unfolding r_def by blast
    have e: "(a, c) \<in> E" using nb ac by simp
    then have "c < length ns" using edges_range [OF E(2), of a c] E(1) by auto
    then have "c = x" using ac(3) rd x(1) nth_eq_iff_index_eq [OF rd, of c x] by (simp add: r_def)
    then show ?thesis using A [OF ac(1)] e by auto
  qed
  assume b: b
  show y: "y \<in> set ext" using res b by (simp add: search_result_def)
  have cl: "c \<in> set ext \<or> r x < r c" if "a \<in> set ext" "(a, c) \<in> E" for a c
  proof -
    have "search_closed out_set (\<lambda>k. k < r x) (\<lambda>k. k = r x) ns (set ext) (set ext)"
      using res b unfolding search_result_def by simp
    then have "r c \<noteq> r x \<and> (r c < r x \<longrightarrow> c \<in> set ext)"
      using that nb unfolding search_closed_def r_def by blast
    then show ?thesis by auto
  qed
  then show "a \<in> set ext \<Longrightarrow> (a, c) \<in> E \<Longrightarrow> c \<in> set ext \<or> r x < r c" .
  have "z \<in> set ext \<or> r x < r z" if "(y, z) \<in> E\<^sup>*" for z
    using that
  proof induction
    case (step a c)
    then show ?case using cl [of a c] up [of a c] by auto
  qed (simp add: y)
  then show "(y, x) \<notin> E\<^sup>*" using A [of x] by auto
qed

lemma backward_facts:
  fixes ns :: "node list" and E :: "(nat \<times> nat) set"
  defines "r \<equiv> \<lambda>i. rank (ns ! i)"
  assumes up: "\<And>a c. (a, c) \<in> E \<Longrightarrow> r a < r c" and E: "edges ns = insert (x, y) E" "sets_inv ns"
    and x: "x < length ns" and less: "r y < r x" and D: "x \<notin> D"
    and res: "search_result in_set (\<lambda>k. r y < k) (\<lambda>_. False) ns D {x} True ext"
  shows "a \<in> set ext \<Longrightarrow> (a, x) \<in> E\<^sup>* \<and> r y < r a \<and> r a \<le> r x"
    and "x \<in> set ext"
    and "c \<in> set ext \<Longrightarrow> (a, c) \<in> E \<Longrightarrow> a \<in> set ext \<or> a \<in> D \<or> r a \<le> r y"
proof -
  have R: "a < length ns \<and> (a, x) \<in> E\<^sup>* \<and> r y < r a \<and> r a \<le> r x"
    if "(x, a) \<in> (search_rel in_set (\<lambda>k. r y < k) ns)\<^sup>*" for a
    using that
  proof induction
    case base
    then show ?case using less x by simp
  next
    case (step c a)
    then have a: "a \<in> neighbours in_set ns c" "r y < r a" by (auto simp: search_rel_def r_def)
    then have "(a, c) \<in> edges ns" using edges_iff_in [OF E(2)] step.IH by blast
    moreover from this have "a < length ns" using edges_range [OF E(2)] by blast
    moreover have "c \<noteq> y" using step.IH by auto
    ultimately have ac: "a < length ns" "(a, c) \<in> E" using E(1) by auto
    then show ?case using step.IH a(2) up [OF ac(2)] by (auto intro: converse_rtrancl_into_rtrancl)
  qed
  show A: "(a, x) \<in> E\<^sup>* \<and> r y < r a \<and> r a \<le> r x" if "a \<in> set ext" for a
  proof -
    have "set ext \<subseteq> (search_rel in_set (\<lambda>k. r y < k) ns)\<^sup>* `` {x}"
      using res unfolding search_result_def by blast
    then show ?thesis using that R by blast
  qed
  have "{x} \<subseteq> D \<union> set ext" using res unfolding search_result_def by blast
  then show "x \<in> set ext" using D by blast
  show "a \<in> set ext \<or> a \<in> D \<or> r a \<le> r y" if c: "c \<in> set ext" and ac: "(a, c) \<in> E"
  proof -
    have "c < length ns" using edges_range [OF E(2)] ac E(1) by blast
    then have "a \<in> neighbours in_set ns c" using edges_iff_in [OF E(2)] ac E(1) by blast
    moreover have "search_closed in_set (\<lambda>k. r y < k) (\<lambda>_. False) ns (set ext) (D \<union> set ext)"
      using res unfolding search_result_def by blast
    ultimately have "r y < r a \<longrightarrow> a \<in> D \<union> set ext" using c unfolding search_closed_def r_def by blast
    then show ?thesis by auto
  qed
qed

section \<open>InsertEdge\<close>

lemma graph_invD:
  assumes "graph_inv ns"
  shows "sets_inv ns" "distinct (map rank ns)" "set (map rank ns) = int ` {..<length ns}"
    "(a, c) \<in> edges ns \<Longrightarrow> rank (ns ! a) < rank (ns ! c)" "i < length ns \<Longrightarrow> \<not> visited (ns ! i)"
  using assms unfolding graph_inv_def by blast+

lemma rank_inj:
  "distinct (map rank ns) \<Longrightarrow> i < length ns \<Longrightarrow> j < length ns \<Longrightarrow> rank (ns ! i) = rank (ns ! j) \<Longrightarrow> i = j"
  using nth_eq_iff_index_eq [of "map rank ns" i j] by simp

lemma reordered_graph:
  assumes inv: "sets_inv ns" "edges ns = insert (x, y) E" "distinct (map rank ns)"
      "set (map rank ns) = int ` {..<length ns}" "\<forall>i < length ns. \<not> visited (ns ! i)"
    and up: "\<And>a c. (a, c) \<in> E \<Longrightarrow> rank (ns ! a) < rank (ns ! c)"
    and xy: "x < length ns" "y < length ns" "rank (ns ! y) < rank (ns ! x)" and acyc: "(y, x) \<notin> E\<^sup>*"
    and f: "search_result out_set (\<lambda>k. k < rank (ns ! x)) (\<lambda>k. k = rank (ns ! x)) ns {} {y} True fs"
    and b: "search_result in_set (\<lambda>k. rank (ns ! y) < k) (\<lambda>_. False) ns (set fs) {x} True bs"
  shows "\<exists>ns'. Reorder (mark ns (set fs \<union> set bs)) (map int bs) (map int fs) = ns' \<and>
    graph_inv ns' \<and> edges ns' = insert (x, y) E \<and> idents ns' = idents ns"
proof -
  let ?r = "\<lambda>i. rank (ns ! i)"
  note ff = forward_facts [OF up inv(2,1,3) xy f]
  have xf: "x \<notin> set fs" using ff(1) [of x] by auto
  note bf = backward_facts [OF up inv(2,1) xy(1,3) xf b]
  have rng: "set bs \<subseteq> {..<length ns}" "set fs \<subseteq> {..<length ns}" "distinct bs" "distinct fs" "set bs \<inter> set fs = {}"
    using search_resultD(1,2,3) [OF f] search_resultD(1,2,3) [OF b] by blast+
  obtain bs' fs' M where R: "set bs' = set bs" "set fs' = set fs" "distinct (bs' @ fs')"
      "sorted_wrt (<) (map ?r bs')" "sorted_wrt (<) (map ?r fs')" "sorted_wrt (<) M"
      "set M = ?r ` set (bs' @ fs')" "length M = length (bs' @ fs')"
      "Reorder (mark ns (set fs \<union> set bs)) (map int bs) (map int fs) = rerank ns (new_rank ns (bs' @ fs') M)"
    using Reorder_eq [OF refl inv(5), of bs fs] rng inv(3) by auto
  define r' where "r' = new_rank ns (bs' @ fs') M"
  have listed: "\<forall>i < length (bs' @ fs'). r' ((bs' @ fs') ! i) = M ! i"
    unfolding r'_def using new_rank_listed [OF R(3)] R(8) by (metis)
  have other: "r' z = ?r z" if "z \<notin> set (bs' @ fs')" for z
    unfolding r'_def using that by (rule new_rank_other)
  have inj: "inj_on ?r {..<length ns}" using rank_inj [OF inv(3)] by (auto simp: inj_on_def)
  have inj': "inj_on ?r (set (bs' @ fs'))" using inj rng R(1,2) by (auto intro: inj_on_subset)
  have cons: "r' a < r' c" if "(a, c) \<in> insert (x, y) E" for a c
  proof (rule new_ranks_consistent [where r = ?r, OF R(3-5) inj' R(6,7) listed other up _ _ _ _ _ _ _ _ that])
    show "x \<in> set bs'" using bf(2) R(1) by simp
    show "y \<in> set fs'" using ff(4) R(2) by simp
    show "a' = y" if "(a', c) \<in> E" "?r a' = ?r y" for a'
      using that rank_inj [OF inv(3) _ xy(2)] edges_range [OF inv(1), of a' c] inv(2) by blast
    show "?r y \<le> ?r a' \<and> ?r a' < ?r x" if "a' \<in> set fs'" for a' using ff(1) that R(2) by simp
    show "c' \<in> set fs' \<or> ?r x < ?r c'" if "a' \<in> set fs'" "(a', c') \<in> E" for a' c'
      using ff(5) [of a' c'] that R(2) by simp
    show "?r y < ?r a' \<and> ?r a' \<le> ?r x" if "a' \<in> set bs'" for a' using bf(1) that R(1) by simp
    show "a' \<in> set bs' \<or> a' \<in> set fs' \<or> ?r a' \<le> ?r y" if "c' \<in> set bs'" "(a', c') \<in> E" for a' c'
      using bf(3) [of c' a'] that R(1,2) by simp
    show "(a', c') \<notin> E" if "a' \<in> set fs'" "c' \<in> set bs'" for a' c'
    proof
      assume "(a', c') \<in> E"
      moreover have "(y, a') \<in> E\<^sup>*" "(c', x) \<in> E\<^sup>*" using ff(1) bf(1) that R(1,2) by simp_all
      ultimately have "(y, x) \<in> E\<^sup>*" by (meson rtrancl.rtrancl_into_rtrancl rtrancl_trans)
      then show False using acyc by blast
    qed
  qed
  have nr: "length M = length bs' + length fs'" using R(8) by simp
  have perm: "bij_betw r' {..<length ns} (?r ` {..<length ns})"
  proof -
    let ?A = "set (bs' @ fs')" and ?U = "{..<length ns}"
    have A: "?A \<subseteq> ?U" using rng R(1,2) by auto
    have nth: "bij_betw ((!) (bs' @ fs')) {..<length (bs' @ fs')} ?A" using R(3) by (intro bij_betw_nth) simp_all
    have "bij_betw ((!) M) {..<length (bs' @ fs')} (?r ` ?A)"
      using R(6-8) strict_sorted_distinct [OF R(6)] by (intro bij_betw_nth) simp_all
    then have "bij_betw (r' \<circ> (!) (bs' @ fs')) {..<length (bs' @ fs')} (?r ` ?A)"
      by (subst bij_betw_cong [of _ _ "(!) M"]) (use listed in auto)
    then have "bij_betw r' ?A (?r ` ?A)" using bij_betw_comp_iff [OF nth] by blast
    moreover have "bij_betw ?r (?U - ?A) (?r ` (?U - ?A))"
      using inj by (intro bij_betw_imageI) (auto intro: inj_on_subset)
    then have "bij_betw r' (?U - ?A) (?r ` (?U - ?A))"
      by (subst bij_betw_cong [of _ _ ?r]) (simp_all add: other)
    ultimately have "bij_betw r' (?A \<union> (?U - ?A)) (?r ` ?A \<union> ?r ` (?U - ?A))"
      using inj A by (intro bij_betw_combine) (auto simp: inj_on_def)
    moreover have "?A \<union> (?U - ?A) = ?U" "?r ` ?A \<union> ?r ` (?U - ?A) = ?r ` ?U" using A by auto
    ultimately show ?thesis by simp
  qed
  let ?ns = "rerank ns r'"
  have mr: "map rank ?ns = map r' [0..<length ns]" by (rule nth_equalityI) simp_all
  have "distinct (map rank ?ns)" "set (map rank ?ns) = int ` {..<length ?ns}"
  proof -
    have "?r ` {..<length ns} = set (map rank ns)" unfolding set_map by (auto simp: set_conv_nth)
    then have "r' ` {..<length ns} = int ` {..<length ns}" "inj_on r' {..<length ns}"
      using perm inv(4) by (simp_all add: bij_betw_def)
    then show "distinct (map rank ?ns)" "set (map rank ?ns) = int ` {..<length ?ns}"
      unfolding mr by (simp_all add: distinct_map lessThan_atLeast0)
  qed
  moreover have "\<forall>(a, c) \<in> edges ?ns. rank (?ns ! a) < rank (?ns ! c)"
  proof clarify
    fix a c assume "(a, c) \<in> edges ?ns"
    then have e: "(a, c) \<in> edges ns" by simp
    then have "a < length ns" "c < length ns" "(a, c) \<in> insert (x, y) E"
      using edges_range [OF inv(1) e] inv(2) by auto
    then show "rank (?ns ! a) < rank (?ns ! c)" using cons by simp
  qed
  ultimately have "graph_inv ?ns" using inv(1,5) unfolding graph_inv_def by simp
  then show ?thesis using R(9) inv(2) by (simp add: r'_def)
qed

lemma clear_visited_mark:
  "set xs \<subseteq> {..<length ns} \<Longrightarrow> \<forall>i < length ns. \<not> visited (ns ! i) \<Longrightarrow>
     clear_visited (mark ns D) (map int xs) = mark ns (D - set xs)"
proof (induction xs arbitrary: D)
  case Nil
  then show ?case by simp
next
  case (Cons x xs)
  have "D - {x} - set xs = D - set (x # xs)" by auto
  then show ?case using Cons mark_clear [of x ns D] by simp
qed

text \<open>What \<open>FindNode\<close> says of an id that is not expired.\<close>

lemma FindNode_live:
  assumes "FindNode g gid = Some (Some n)"
  shows "NodeIndex gid = int (nat (NodeIndex gid))" "nat (NodeIndex gid) < length (nodes g)"
    "n = nodes g ! nat (NodeIndex gid)" "version n = NodeVersion gid"
  using assms by (auto simp: FindNode_def Let_def split: if_splits)

lemma nodes_upd_node [simp]: "nodes (upd_node g i f) = (nodes g)[nat i := f (nodes g ! nat i)]"
  "free_nodes (upd_node g i f) = free_nodes g" "ptr_table (upd_node g i f) = ptr_table g"
  by (simp_all add: upd_node_def)

text \<open>What is left of the representation after an operation on edges.\<close>

definition same_table :: "rep \<Rightarrow> rep \<Rightarrow> bool" where
  "same_table g g' \<longleftrightarrow> idents (nodes g') = idents (nodes g) \<and> length (nodes g') = length (nodes g) \<and>
     free_nodes g' = free_nodes g \<and> ptr_table g' = ptr_table g"

lemma set_edge_out: "y < length ns \<Longrightarrow> ns[x := out_set_update (\<lambda>_. so) (ns ! x)] = set_edge ns x y so (in_set (ns ! y))"
  by (rule nth_equalityI) (simp_all add: set_edge_nth nth_list_update Let_def)

lemma set_edge_twice:
  assumes "y < length ns"
  shows "(ns[x := out_set_update (\<lambda>_. so) (ns ! x)])[y := in_set_update (\<lambda>_. si) (ns[x := out_set_update (\<lambda>_. so) (ns ! x)] ! y)]
    = set_edge ns x y so si"
  by (simp add: set_edge_def Let_def)

text \<open>Sets changed at an edge, with ranks that fit.\<close>

lemma graph_inv_set_edge:
  assumes inv: "graph_inv ns" and n: "sets_inv (set_edge ns x y so si)"
    and up: "\<And>a c. (a, c) \<in> edges (set_edge ns x y so si) \<Longrightarrow> rank (ns ! a) < rank (ns ! c)"
  shows "graph_inv (set_edge ns x y so si)"
proof -
  let ?n = "set_edge ns x y so si"
  note I = graph_invD [OF inv]
  have "map rank ?n = map rank ns" by (rule map_nth_cong) simp_all
  moreover have "\<forall>(a, c) \<in> edges ?n. rank (?n ! a) < rank (?n ! c)"
  proof clarify
    fix a c assume e: "(a, c) \<in> edges ?n"
    then show "rank (?n ! a) < rank (?n ! c)" using up [OF e] edges_range [OF n e] by simp
  qed
  ultimately show ?thesis using n I unfolding graph_inv_def by simp
qed

lemma graph_inv_edge_added:
  assumes inv: "graph_inv ns" and xy: "x < length ns" "y < length ns" and s: "ns_inv so" "ns_inv si"
    and so: "set (ns_elems so) = insert (int y) (set (ns_elems (out_set (ns ! x))))"
    and si: "set (ns_elems si) = insert (int x) (set (ns_elems (in_set (ns ! y))))"
    and less: "rank (ns ! x) < rank (ns ! y)"
  shows "graph_inv (set_edge ns x y so si)" "edges (set_edge ns x y so si) = insert (x, y) (edges ns)"
proof -
  have e: "sets_inv (set_edge ns x y so si)" "edges (set_edge ns x y so si) = insert (x, y) (edges ns)"
    using set_edge_inv [OF graph_invD(1) [OF inv] xy s, of True] so si by simp_all
  then show "graph_inv (set_edge ns x y so si)"
    using less graph_invD(4) [OF inv] by (intro graph_inv_set_edge [OF inv]) auto
  show "edges (set_edge ns x y so si) = insert (x, y) (edges ns)" by (rule e(2))
qed

lemma graph_inv_edge_removed:
  assumes inv: "graph_inv ns" and xy: "x < length ns" "y < length ns" and s: "ns_inv so" "ns_inv si"
    and so: "set (ns_elems so) = set (ns_elems (out_set (ns ! x))) - {int y}"
    and si: "set (ns_elems si) = set (ns_elems (in_set (ns ! y))) - {int x}"
  shows "graph_inv (set_edge ns x y so si)" "edges (set_edge ns x y so si) = edges ns - {(x, y)}"
proof -
  have e: "sets_inv (set_edge ns x y so si)" "edges (set_edge ns x y so si) = edges ns - {(x, y)}"
    using set_edge_inv [OF graph_invD(1) [OF inv] xy s, of False] so si by simp_all
  then show "graph_inv (set_edge ns x y so si)"
    using graph_invD(4) [OF inv] by (intro graph_inv_set_edge [OF inv]) auto
  show "edges (set_edge ns x y so si) = edges ns - {(x, y)}" by (rule e(2))
qed

text \<open>The case of a new edge against the ranks: the searches and what follows them.\<close>

lemma insert_against_ranks:
  assumes inv: "graph_inv ns" and xy: "x < length ns" "y < length ns"
    and n1: "sets_inv n1" "edges n1 = insert (x, y) (edges ns)" "length n1 = length ns"
      "map rank n1 = map rank ns" "map visited n1 = map visited ns"
    and less: "rank (ns ! y) < rank (ns ! x)"
  shows "\<exists>fs. ForwardDFS n1 (int y) (rank (n1 ! x)) = Some ((y, x) \<notin> (edges ns)\<^sup>*, mark n1 (set fs), map int fs) \<and>
    set fs \<subseteq> {..<length n1} \<and>
    ((y, x) \<notin> (edges ns)\<^sup>* \<longrightarrow>
       (\<exists>bs ns'. BackwardDFS (mark n1 (set fs)) (int x) (rank (mark n1 (set fs) ! y)) =
            Some (mark n1 (set fs \<union> set bs), map int bs) \<and>
          Reorder (mark n1 (set fs \<union> set bs)) (map int bs) (map int fs) = ns' \<and>
          graph_inv ns' \<and> edges ns' = insert (x, y) (edges ns) \<and> idents ns' = idents n1 \<and> length ns' = length n1))"
proof -
  note I = graph_invD [OF inv]
  have r: "rank (n1 ! i) = rank (ns ! i)" "visited (n1 ! i) = visited (ns ! i)" if "i < length ns" for i
    using that n1(3-5) by (metis nth_map)+
  have unv: "\<forall>i < length n1. \<not> visited (n1 ! i)" using r I(5) n1(3) by auto
  have up: "rank (n1 ! a) < rank (n1 ! c)" if "(a, c) \<in> edges ns" for a c
    using I(4) [OF that] edges_range [OF I(1) that] r by simp
  have xy1: "x < length n1" "y < length n1" "rank (n1 ! y) < rank (n1 ! x)" using xy less r n1(3) by simp_all
  have d1: "distinct (map rank n1)" "set (map rank n1) = int ` {..<length n1}" using I(2,3) n1(3,4) by simp_all
  obtain b fs where f: "ForwardDFS n1 (int y) (rank (n1 ! x)) = Some (b, mark n1 (set fs), map int fs)"
      "search_result out_set (\<lambda>k. k < rank (n1 ! x)) (\<lambda>k. k = rank (n1 ! x)) n1 {} {y} b fs"
    using ForwardDFS_spec [OF n1(1) unv xy1(2)] by blast
  note ff = forward_facts [OF up n1(2,1) d1(1) xy1 f(2)]
  have b: "b = ((y, x) \<notin> (edges ns)\<^sup>*)" using ff(2,3) by blast
  have rng: "set fs \<subseteq> {..<length n1}" using f(2) unfolding search_result_def by blast
  have "\<exists>bs ns'. BackwardDFS (mark n1 (set fs)) (int x) (rank (mark n1 (set fs) ! y)) =
            Some (mark n1 (set fs \<union> set bs), map int bs) \<and>
          Reorder (mark n1 (set fs \<union> set bs)) (map int bs) (map int fs) = ns' \<and>
          graph_inv ns' \<and> edges ns' = insert (x, y) (edges ns) \<and> idents ns' = idents n1 \<and> length ns' = length n1"
    if acyc: "(y, x) \<notin> (edges ns)\<^sup>*"
  proof -
    obtain bs where bs: "BackwardDFS (mark n1 (set fs)) (int x) (rank (n1 ! y)) =
          Some (mark n1 (set fs \<union> set bs), map int bs)"
        "search_result in_set (\<lambda>r. rank (n1 ! y) < r) (\<lambda>_. False) n1 (set fs) {x} True bs"
      using BackwardDFS_spec [OF n1(1) unv xy1(1) rng] by blast
    have f': "search_result out_set (\<lambda>k. k < rank (n1 ! x)) (\<lambda>k. k = rank (n1 ! x)) n1 {} {y} True fs"
      using f(2) b acyc by simp
    obtain ns' where ns': "Reorder (mark n1 (set fs \<union> set bs)) (map int bs) (map int fs) = ns'"
        "graph_inv ns'" "edges ns' = insert (x, y) (edges ns)" "idents ns' = idents n1"
      using reordered_graph [OF n1(1,2) d1 unv up xy1 acyc f' bs(2)] by blast
    have "length ns' = length n1" using arg_cong [OF ns'(4), of length] by (simp add: idents_def)
    then show ?thesis using bs(1) ns' xy1(2) by simp
  qed
  then show ?thesis using f(1) b rng by blast
qed

lemma InsertEdge_spec:
  assumes inv: "graph_inv (nodes g)"
    and fx: "FindNode g idx = Some (Some nx)" and fy: "FindNode g idy = Some (Some ny)"
    and x: "x = nat (NodeIndex idx)" and y: "y = nat (NodeIndex idy)"
  shows "\<exists>g'. InsertEdge g idx idy = Some ((y, x) \<notin> (edges (nodes g))\<^sup>*, g') \<and>
     graph_inv (nodes g') \<and> same_table g g' \<and>
     edges (nodes g') = (if (y, x) \<in> (edges (nodes g))\<^sup>* then edges (nodes g) else insert (x, y) (edges (nodes g)))"
proof -
  define ns where "ns = nodes g"
  have g: "nodes g = ns" by (simp add: ns_def)
  have X: "NodeIndex idx = int x" "x < length ns" and Y: "NodeIndex idy = int y" "y < length ns"
    using FindNode_live [OF fx] FindNode_live [OF fy] x y g by simp_all
  note I = graph_invD [OF inv, unfolded g]
  have xs: "ns_inv (out_set (ns ! x))" "ns_inv (in_set (ns ! y))"
    using I(1) X Y unfolding sets_inv_def by blast+
  note unf = InsertEdge_def [of g idx idy, unfolded fx fy X Y Let_def]
  show ?thesis
  proof (cases "x = y")
    case True
    then have "InsertEdge g idx idy = Some (False, g)" by (simp add: unf)
    then show ?thesis using True inv by (simp add: same_table_def)
  next
    case xy: False
    obtain so where so: "ns_insert (out_set (ns ! x)) (int y) = Some (int y \<notin> set (ns_elems (out_set (ns ! x))), so)"
        "ns_inv so" "set (ns_elems so) = insert (int y) (set (ns_elems (out_set (ns ! x))))"
      using ns.insert_law [OF xs(1), of "int y"] by auto
    have e_iff: "int y \<in> set (ns_elems (out_set (ns ! x))) \<longleftrightarrow> (x, y) \<in> edges ns" using X(2) by (simp add: edges_def)
    have up: "a = c \<or> rank (ns ! a) < rank (ns ! c)" if "(a, c) \<in> (edges ns)\<^sup>*" for a c
      by (rule ranks_up_rtrancl [OF _ that]) (rule I(4))
    show ?thesis
    proof (cases "(x, y) \<in> edges ns")
      case True
      then have "(y, x) \<notin> (edges ns)\<^sup>*" using up [of y x] I(4) [OF True] xy by auto
      moreover have R: "InsertEdge g idx idy = Some (True, upd_node g (int x) (out_set_update (\<lambda>_. so)))"
        using True e_iff so(1) xy by (simp add: unf g)
      moreover have n: "nodes (upd_node g (int x) (out_set_update (\<lambda>_. so))) = set_edge ns x y so (in_set (ns ! y))"
        using set_edge_out [OF Y(2)] by (simp add: g)
      moreover have "int x \<in> set (ns_elems (in_set (ns ! y)))"
        using True edges_iff_in [OF I(1) Y(2)] by (simp add: neighbours_def)
      then have "graph_inv (set_edge ns x y so (in_set (ns ! y)))"
          "edges (set_edge ns x y so (in_set (ns ! y))) = insert (x, y) (edges ns)"
        using graph_inv_edge_added [OF inv [unfolded g] X(2) Y(2) so(2) xs(2) so(3)] I(4) [OF True]
        by (simp_all add: insert_absorb)
      ultimately show ?thesis by (intro exI [of _ "upd_node g (int x) (out_set_update (\<lambda>_. so))"])
        (simp add: same_table_def g set_edge_out [OF Y(2)])
    next
      case False
      obtain si where si: "ns_insert (in_set (ns ! y)) (int x) = Some (int x \<notin> set (ns_elems (in_set (ns ! y))), si)"
          "ns_inv si" "set (ns_elems si) = insert (int x) (set (ns_elems (in_set (ns ! y))))"
        using ns.insert_law [OF xs(2), of "int x"] by auto
      define n1 where "n1 = set_edge ns x y so si"
      define g1 where "g1 = g\<lparr>nodes := n1\<rparr>"
      have ng1: "upd_node (upd_node g (int x) (out_set_update (\<lambda>_. so))) (int y) (in_set_update (\<lambda>_. si)) = g1"
        by (simp add: g1_def n1_def upd_node_def g set_edge_def Let_def)
      have n1n: "ns[x := (ns ! x)\<lparr>out_set := so\<rparr>, y := (ns ! y)\<lparr>in_set := si\<rparr>] = n1"
        using xy by (simp add: n1_def set_edge_def Let_def)
      have iy: "in_set ((ns[x := out_set_update (\<lambda>_. so) (ns ! x)]) ! y) = in_set (ns ! y)"
        using xy X(2) Y(2) by (simp add: nth_list_update)
      have n1: "sets_inv n1" "edges n1 = insert (x, y) (edges ns)" "length n1 = length ns"
        using set_edge_inv [OF I(1) X(2) Y(2) so(2) si(2), of True] so(3) si(3) by (simp_all add: n1_def)
      have n1m: "map rank n1 = map rank ns" "map visited n1 = map visited ns" "idents n1 = idents ns"
        unfolding n1_def by (rule map_nth_cong; simp)+ simp
      have rn1: "rank (n1 ! x) = rank (ns ! x)" "rank (n1 ! y) = rank (ns ! y)" using X(2) Y(2) by (simp_all add: n1_def)
      have unf1: "InsertEdge g idx idy =
        (if rank (n1 ! x) \<le> rank (n1 ! y) then Some (True, g1)
         else do {
           (ok, ns, deltaf) \<leftarrow> ForwardDFS n1 (int y) (rank (n1 ! x));
           let g = g1\<lparr>nodes := ns\<rparr> in
           if \<not> ok then do {
             s \<leftarrow> ns_erase (out_set (nodes g ! x)) (int y);
             let g = upd_node g (int x) (out_set_update (\<lambda>_. s)) in do {
             s \<leftarrow> ns_erase (in_set (nodes g ! y)) (int x);
             let g = upd_node g (int y) (in_set_update (\<lambda>_. s)) in
             Some (False, g\<lparr>nodes := clear_visited (nodes g) deltaf\<rparr>) }
           }
           else do {
             (ns, deltab) \<leftarrow> BackwardDFS (nodes g) (int x) (rank (nodes g ! y));
             Some (True, g\<lparr>nodes := Reorder ns deltab deltaf\<rparr>)
           }
         })"
        using False e_iff xy so(1) si(1) iy X(2) Y(2) n1n by (simp add: unf g ng1 Let_def rn1 cong: if_cong)
      show ?thesis
      proof (cases "rank (ns ! x) \<le> rank (ns ! y)")
        case True
        then have less: "rank (ns ! x) < rank (ns ! y)"
          using rank_inj [OF I(2) X(2) Y(2)] xy by (metis order_le_less)
        then have "(y, x) \<notin> (edges ns)\<^sup>*" using up [of y x] xy by auto
        moreover have "graph_inv n1" "edges n1 = insert (x, y) (edges ns)"
          using graph_inv_edge_added [OF inv [unfolded g] X(2) Y(2) so(2) si(2) so(3) si(3) less]
          by (simp_all add: n1_def)
        moreover have "InsertEdge g idx idy = Some (True, g1)" using True rn1 by (simp add: unf1)
        ultimately show ?thesis using n1(3) n1m(3) by (simp add: g1_def same_table_def g)
      next
        case against: False
        then have less: "rank (ns ! y) < rank (ns ! x)" by simp
        obtain fs where fs: "ForwardDFS n1 (int y) (rank (n1 ! x)) =
              Some ((y, x) \<notin> (edges ns)\<^sup>*, mark n1 (set fs), map int fs)" "set fs \<subseteq> {..<length n1}"
            "(y, x) \<notin> (edges ns)\<^sup>* \<longrightarrow>
              (\<exists>bs ns'. BackwardDFS (mark n1 (set fs)) (int x) (rank (mark n1 (set fs) ! y)) =
                Some (mark n1 (set fs \<union> set bs), map int bs) \<and>
              Reorder (mark n1 (set fs \<union> set bs)) (map int bs) (map int fs) = ns' \<and>
              graph_inv ns' \<and> edges ns' = insert (x, y) (edges ns) \<and> idents ns' = idents n1 \<and> length ns' = length n1)"
          using insert_against_ranks [OF inv [unfolded g] X(2) Y(2) n1 n1m(1,2) less] by blast
        show ?thesis
        proof (cases "(y, x) \<in> (edges ns)\<^sup>*")
          case acyc: False
          then obtain bs ns' where bs: "BackwardDFS (mark n1 (set fs)) (int x) (rank (mark n1 (set fs) ! y)) =
                Some (mark n1 (set fs \<union> set bs), map int bs)"
              "Reorder (mark n1 (set fs \<union> set bs)) (map int bs) (map int fs) = ns'"
              "graph_inv ns'" "edges ns' = insert (x, y) (edges ns)" "idents ns' = idents n1" "length ns' = length n1"
            using fs(3) by blast
          have "InsertEdge g idx idy = Some (True, g1\<lparr>nodes := ns'\<rparr>)"
            using against acyc by (simp add: unf1 rn1 fs(1) [unfolded rn1] bs(1,2) Let_def)
          then show ?thesis using acyc bs(3-6) n1(3) n1m(3)
            by (intro exI [of _ "g1\<lparr>nodes := ns'\<rparr>"]) (simp add: g1_def same_table_def g)
        next
          case cyc: True
          let ?m = "mark n1 (set fs)"
          have sx: "out_set (?m ! x) = so" "in_set (?m ! y) = si" using X(2) Y(2) n1(3) by (simp_all add: n1_def)
          obtain so' where so': "ns_erase so (int y) = Some so'" "ns_inv so'" "set (ns_elems so') = set (ns_elems so) - {int y}"
            using ns.erase_law [OF so(2), of "int y"] by auto
          obtain si' where si': "ns_erase si (int x) = Some si'" "ns_inv si'" "set (ns_elems si') = set (ns_elems si) - {int x}"
            using ns.erase_law [OF si(2), of "int x"] by auto
          define n2 where "n2 = set_edge n1 x y so' si'"
          have n2: "set_edge ?m x y so' si' = mark n2 (set fs)"
            unfolding n2_def using X(2) Y(2) n1(3) by (intro set_edge_mark) simp_all
          have vis2: "\<forall>i < length n2. \<not> visited (n2 ! i)" using I(5) n1(3) by (simp add: n2_def n1_def)
          have iy2: "in_set ((?m[x := out_set_update (\<lambda>_. so') (?m ! x)]) ! y) = si"
            using xy X(2) Y(2) n1(3) sx by (simp add: nth_list_update)
          have "clear_visited (mark n2 (set fs)) (map int fs) = n2"
            using fs(2) vis2 by (subst clear_visited_mark) (simp_all add: n2_def)
          then have R: "InsertEdge g idx idy = Some (False, g1\<lparr>nodes := n2\<rparr>)"
            using against cyc iy2 so'(1) si'(1) sx n2
            by (simp add: unf1 rn1 fs(1) [unfolded rn1] Let_def upd_node_def set_edge_def)
          have n2s: "n2 = set_edge ns x y so' si'"
            unfolding n2_def n1_def by (rule nth_equalityI) (simp_all add: set_edge_nth Let_def)
          have "int y \<notin> set (ns_elems (out_set (ns ! x)))" "int x \<notin> set (ns_elems (in_set (ns ! y)))"
            using False e_iff edges_iff_in [OF I(1) Y(2), of x] by (blast, simp add: neighbours_def)
          then have "graph_inv n2" "edges n2 = edges ns"
            using graph_inv_edge_removed [OF inv [unfolded g] X(2) Y(2) so'(2) si'(2)] so'(3) si'(3) so(3) si(3) False
            by (simp_all add: n2s)
          then show ?thesis using R cyc
            by (intro exI [of _ "g1\<lparr>nodes := n2\<rparr>"]) (simp add: g1_def same_table_def g n2s)
        qed
      qed
    qed
  qed
qed

end
