(* ===== verification/Graph_Nodes.thy ===== *)
theory Graph_Nodes
  imports Graph_Cycles
begin

text \<open>
  The nodes of the lock graph: the pointer table as a map from pointers to nodes, and the invariant
  of the whole representation under \<open>GetId\<close>, \<open>RemoveNode\<close>, \<open>InsertEdge\<close> and \<open>RemoveEdge\<close>.
\<close>

section \<open>Ids\<close>

lemma NodeIndex_MakeId: "0 \<le> i \<Longrightarrow> i < 2 ^ 31 \<Longrightarrow> NodeIndex (MakeId i v) = i"
proof -
  assume i: "0 \<le> i" "i < 2 ^ 31"
  have "(ucast (MakeId i v AND 0xffffffff) :: u32) = word_of_int i"
  proof (rule bit_word_eqI)
    fix n assume n: "n < LENGTH(32)"
    have m: "(0xffffffff :: u64) = mask 32" by (simp add: mask_eq_exp_minus_1)
    have b: "bit (0xffffffff :: u64) n" using n unfolding m by (simp only: bit_mask_iff) simp
    show "bit (ucast (MakeId i v AND 0xffffffff) :: u32) n = bit (word_of_int i :: u32) n"
      using n b by (auto simp: MakeId_def bit_simps)
  qed
  then show ?thesis using i by (simp add: NodeIndex_def signed_of_int signed_take_bit_int_eq_self)
qed

lemma NodeVersion_MakeId: "NodeVersion (MakeId i v) = v"
proof -
  have "(ucast (drop_bit 32 (MakeId i v)) :: u32) = v"
    by (rule bit_word_eqI) (auto simp: MakeId_def bit_simps)
  then show ?thesis by (simp add: NodeVersion_def)
qed

lemma MakeId_valid: "v \<noteq> 0 \<Longrightarrow> MakeId i v \<noteq> InvalidGraphId"
  using NodeVersion_MakeId [of i v] by (auto simp: InvalidGraphId_def NodeVersion_def)

lemma hide_unhide [simp]: "unhide_ptr (hide_ptr p) = p" "hide_ptr (unhide_ptr p) = p"
  by (simp_all add: hide_ptr_def unhide_ptr_def xor.assoc)

lemma hide_ptr_eq [simp]: "hide_ptr p = hide_ptr q \<longleftrightarrow> p = q"
  by (metis hide_unhide(1))

section \<open>Chains\<close>

fun chain :: "node list \<Rightarrow> int \<Rightarrow> nat list \<Rightarrow> bool" where
  "chain ns i [] \<longleftrightarrow> i = - 1"
| "chain ns i (x # xs) \<longleftrightarrow> i = int x \<and> x < length ns \<and> chain ns (next_hash (ns ! x)) xs"

lemma chain_range: "chain ns i xs \<Longrightarrow> set xs \<subseteq> {..<length ns}"
  by (induction xs arbitrary: i) auto

lemma chain_cong:
  "length ns' = length ns \<Longrightarrow> (\<And>x. x \<in> set xs \<Longrightarrow> next_hash (ns' ! x) = next_hash (ns ! x)) \<Longrightarrow>
     chain ns' i xs = chain ns i xs"
  by (induction xs arbitrary: i) auto

lemma chain_append: "length ns \<le> length ns' \<Longrightarrow> (\<And>x. x < length ns \<Longrightarrow> ns' ! x = ns ! x) \<Longrightarrow>
    chain ns i xs \<Longrightarrow> chain ns' i xs"
  by (induction xs arbitrary: i) auto

lemma pm_walk_chain:
  "chain ns i xs \<Longrightarrow>
     pm_walk ns m i = Some (case [x \<leftarrow> xs. masked_ptr (ns ! x) = m] of [] \<Rightarrow> - 1 | x # _ \<Rightarrow> int x)"
proof (induction xs arbitrary: i)
  case Nil
  then show ?case by (subst pm_walk.simps) simp
next
  case (Cons x xs)
  then show ?case by (subst pm_walk.simps) (simp add: Let_def)
qed

text \<open>Nodes that differ in \<open>next_hash\<close> only.\<close>

definition with_next :: "node list \<Rightarrow> (nat \<Rightarrow> int) \<Rightarrow> node list" where
  "with_next ns nh = map (\<lambda>j. next_hash_update (\<lambda>_. nh j) (ns ! j)) [0..<length ns]"

lemma with_next_simps [simp]:
  "length (with_next ns nh) = length ns"
  "j < length ns \<Longrightarrow> with_next ns nh ! j = next_hash_update (\<lambda>_. nh j) (ns ! j)"
  by (simp_all add: with_next_def)

lemma with_next_upd:
  "i < length ns \<Longrightarrow> (with_next ns nh)[i := next_hash_update (\<lambda>_. v) (with_next ns nh ! i)] = with_next ns (nh(i := v))"
  by (rule nth_equalityI) (auto simp: nth_list_update)

lemma with_next_id: "ns = with_next ns (\<lambda>j. next_hash (ns ! j))"
  by (rule nth_equalityI) simp_all

text \<open>The removal of the only entry of a chain with the pointer looked for.\<close>

fun slot_fresh :: "slot \<Rightarrow> nat list \<Rightarrow> rep \<Rightarrow> bool" where
  "slot_fresh (Head h) xs g \<longleftrightarrow> h < length (ptr_table g)"
| "slot_fresh (Next j) xs g \<longleftrightarrow> 0 \<le> j \<and> nat j < length (nodes g) \<and> nat j \<notin> set xs"

lemma pm_unlink_none:
  "chain (nodes g) (slot_read g sl) xs \<Longrightarrow> \<forall>x \<in> set xs. masked_ptr (nodes g ! x) \<noteq> m \<Longrightarrow>
     pm_unlink g m sl = Some (- 1, g)"
proof (induction xs arbitrary: sl)
  case Nil
  then show ?case by (subst pm_unlink.simps) simp
next
  case (Cons x xs)
  then show ?case using Cons.IH [of "Next (int x)"] by (subst pm_unlink.simps) (simp add: Let_def)
qed

lemma pm_unlink_found:
  assumes "chain (nodes g) (slot_read g sl) xs" "distinct xs" "slot_fresh sl xs g"
    and "x \<in> set xs" "masked_ptr (nodes g ! x) = m"
    and "\<forall>y \<in> set xs. masked_ptr (nodes g ! y) = m \<longrightarrow> y = x"
  shows "\<exists>g' nh. pm_unlink g m sl = Some (int x, g') \<and> nodes g' = with_next (nodes g) nh \<and>
     free_nodes g' = free_nodes g \<and> length (ptr_table g') = length (ptr_table g) \<and>
     (\<forall>h. sl \<noteq> Head h \<longrightarrow> ptr_table g' ! h = ptr_table g ! h) \<and>
     (\<forall>j. j \<notin> set xs \<and> sl \<noteq> Next (int j) \<longrightarrow> nh j = next_hash (nodes g ! j)) \<and>
     chain (nodes g') (slot_read g' sl) (remove1 x xs)"
  using assms
proof (induction xs arbitrary: sl)
  case Nil
  then show ?case by simp
next
  case (Cons y ys)
  have y: "slot_read g sl = int y" "y < length (nodes g)" "chain (nodes g) (next_hash (nodes g ! y)) ys" "y \<notin> set ys"
    using Cons.prems(1,2) by simp_all
  show ?case
  proof (cases "masked_ptr (nodes g ! y) = m")
    case True
    then have xy: "x = y" using Cons.prems(6) by auto
    define v where "v = next_hash (nodes g ! y)"
    define g' where "g' = upd_node (slot_write g sl v) (int y) (next_hash_update (\<lambda>_. - 1))"
    have R: "pm_unlink g m sl = Some (int y, g')"
      using True y(1) by (subst pm_unlink.simps) (simp add: Let_def g'_def v_def)
    show ?thesis
    proof (cases sl)
      case (Head h)
      define nh where "nh = (\<lambda>j. next_hash (nodes g ! j))(y := - 1)"
      have nh: "\<forall>j. j \<notin> set (y # ys) \<longrightarrow> nh j = next_hash (nodes g ! j)" by (simp add: nh_def)
      have n: "nodes g' = with_next (nodes g) nh"
        using with_next_upd [OF y(2), of "\<lambda>j. next_hash (nodes g ! j)" "- 1"] with_next_id [of "nodes g"]
        by (simp add: g'_def Head nh_def)
      have "chain (nodes g') v ys"
        unfolding n using y(3,4) chain_range [OF y(3)] by (subst chain_cong [of _ "nodes g"]) (auto simp: nh_def v_def)
      then have "chain (nodes g') (slot_read g' sl) (remove1 x (y # ys))"
        using Cons.prems(3) by (simp add: Head g'_def xy)
      then show ?thesis
        using R n nh by (intro exI [of _ g'] exI [of _ nh]) (simp add: xy g'_def Head)
    next
      case (Next j)
      then have j: "nat j < length (nodes g)" "nat j \<noteq> y" "nat j \<notin> set ys" "0 \<le> j" using Cons.prems(3) by auto
      define nh where "nh = (\<lambda>j. next_hash (nodes g ! j))(nat j := v, y := - 1)"
      have nh: "\<forall>i. i \<notin> set (y # ys) \<and> i \<noteq> nat j \<longrightarrow> nh i = next_hash (nodes g ! i)" by (simp add: nh_def)
      have n: "nodes g' = with_next (nodes g) nh"
        using with_next_upd [OF j(1), of "\<lambda>j. next_hash (nodes g ! j)" v] with_next_id [of "nodes g"]
          with_next_upd [OF y(2), of "(\<lambda>j. next_hash (nodes g ! j))(nat j := v)" "- 1"]
        by (simp add: g'_def Next nh_def)
      have "chain (nodes g') v ys"
        unfolding n using y(3,4) j chain_range [OF y(3)] by (subst chain_cong [of _ "nodes g"]) (auto simp: nh_def v_def)
      moreover have "slot_read g' sl = v" using j by (simp add: Next n nh_def)
      ultimately have c: "chain (nodes g') (slot_read g' sl) (remove1 x (y # ys))" by (simp add: xy)
      have frame: "free_nodes g' = free_nodes g" "length (ptr_table g') = length (ptr_table g)"
          "\<forall>h. sl \<noteq> Head h \<longrightarrow> ptr_table g' ! h = ptr_table g ! h"
        by (simp_all add: g'_def Next)
      have "\<forall>i. i \<notin> set (y # ys) \<and> sl \<noteq> Next (int i) \<longrightarrow> nh i = next_hash (nodes g ! i)"
      proof clarify
        fix i assume "i \<notin> set (y # ys)" "sl \<noteq> Next (int i)"
        then show "nh i = next_hash (nodes g ! i)" using nh j(4) Next by (cases "i = nat j") simp_all
      qed
      then show ?thesis using R n frame c unfolding xy by blast
    qed
  next
    case False
    then have xys: "x \<in> set ys" "x \<noteq> y" using Cons.prems(4,5) by auto
    have R: "pm_unlink g m sl = pm_unlink g m (Next (int y))"
      using False y(1) by (subst pm_unlink.simps) (simp add: Let_def)
    obtain g' nh where I: "pm_unlink g m (Next (int y)) = Some (int x, g')" "nodes g' = with_next (nodes g) nh"
        "free_nodes g' = free_nodes g" "length (ptr_table g') = length (ptr_table g)"
        "\<forall>h. ptr_table g' ! h = ptr_table g ! h"
        "\<forall>j. j \<notin> set ys \<and> Next (int y) \<noteq> Next (int j) \<longrightarrow> nh j = next_hash (nodes g ! j)"
        "chain (nodes g') (slot_read g' (Next (int y))) (remove1 x ys)"
    proof -
      have p: "chain (nodes g) (slot_read g (Next (int y))) ys" "distinct ys" "slot_fresh (Next (int y)) ys g"
        "\<forall>z \<in> set ys. masked_ptr (nodes g ! z) = m \<longrightarrow> z = x"
        using y Cons.prems(2,6) by simp_all
      show thesis using Cons.IH [OF p(1-3) xys(1) Cons.prems(5) p(4)] that by blast
    qed
    have "slot_read g' sl = int y"
    proof (cases sl)
      case (Head h)
      then show ?thesis using I(5) y(1) by simp
    next
      case (Next j)
      then have j: "nat j < length (nodes g)" "nat j \<noteq> y" "nat j \<notin> set ys" "0 \<le> j" using Cons.prems(3) by auto
      then have "nh (nat j) = next_hash (nodes g ! nat j)" using I(6) by simp
      then show ?thesis using y(1) j by (simp add: Next I(2))
    qed
    then have "chain (nodes g') (slot_read g' sl) (remove1 x (y # ys))" using I(7) y(2) xys by (simp add: I(2))
    then show ?thesis using R I(1-6) by (intro exI [of _ g'] exI [of _ nh]) auto
  qed
qed

section \<open>The pointer table as a map\<close>

definition pmap :: "rep \<Rightarrow> u64 \<Rightarrow> nat option" where
  "pmap g p = (case PM_Find g p of None \<Rightarrow> None | Some i \<Rightarrow> if i = - 1 then None else Some (nat i))"

text \<open>\<open>cs\<close> are the chains of the buckets.\<close>

definition chains_of :: "rep \<Rightarrow> (nat \<Rightarrow> nat list) \<Rightarrow> bool" where
  "chains_of g cs \<longleftrightarrow> length (ptr_table g) = kHashTableSize \<and>
     (\<forall>h < kHashTableSize. chain (nodes g) (ptr_table g ! h) (cs h) \<and> distinct (cs h) \<and>
        inj_on (\<lambda>i. masked_ptr (nodes g ! i)) (set (cs h)) \<and>
        (\<forall>i \<in> set (cs h). ptr_hash (unhide_ptr (masked_ptr (nodes g ! i))) = h))"

definition pm_inv :: "rep \<Rightarrow> bool" where
  "pm_inv g \<longleftrightarrow> (\<exists>cs. chains_of g cs)"

lemma ptr_hash_less [simp]: "ptr_hash p < kHashTableSize"
  by (simp add: ptr_hash_def kHashTableSize_def)

lemma chains_ofD:
  assumes "chains_of g cs" "h < kHashTableSize"
  shows "chain (nodes g) (ptr_table g ! h) (cs h)" "distinct (cs h)"
    "inj_on (\<lambda>i. masked_ptr (nodes g ! i)) (set (cs h))"
    "i \<in> set (cs h) \<Longrightarrow> ptr_hash (unhide_ptr (masked_ptr (nodes g ! i))) = h"
    "i \<in> set (cs h) \<Longrightarrow> i < length (nodes g)" "length (ptr_table g) = kHashTableSize"
  using assms chain_range [of "nodes g" "ptr_table g ! h" "cs h"] unfolding chains_of_def by blast+

lemma filter_inj_on:
  "inj_on f (set xs) \<Longrightarrow> distinct xs \<Longrightarrow> x \<in> set xs \<Longrightarrow> [y \<leftarrow> xs. f y = f x] = [x]"
  by (induction xs) (auto simp: filter_empty_conv inj_on_def)

lemma PM_Find_iff:
  assumes "chains_of g cs"
  shows "PM_Find g p = Some (case pmap g p of None \<Rightarrow> - 1 | Some i \<Rightarrow> int i)"
    and "pmap g p = Some i \<longleftrightarrow> i \<in> set (cs (ptr_hash p)) \<and> masked_ptr (nodes g ! i) = hide_ptr p"
proof -
  let ?f = "[x \<leftarrow> cs (ptr_hash p). masked_ptr (nodes g ! x) = hide_ptr p]"
  note C = chains_ofD [OF assms ptr_hash_less [of p]]
  have F: "PM_Find g p = Some (case ?f of [] \<Rightarrow> - 1 | x # _ \<Rightarrow> int x)"
    using pm_walk_chain [OF C(1)] by (simp add: PM_Find_def)
  then have P: "pmap g p = (case ?f of [] \<Rightarrow> None | x # _ \<Rightarrow> Some x)"
    by (simp add: pmap_def split: list.split)
  show "PM_Find g p = Some (case pmap g p of None \<Rightarrow> - 1 | Some i \<Rightarrow> int i)"
    unfolding F P by (simp split: list.split)
  show "pmap g p = Some i \<longleftrightarrow> i \<in> set (cs (ptr_hash p)) \<and> masked_ptr (nodes g ! i) = hide_ptr p"
  proof
    assume "pmap g p = Some i"
    then obtain xs where "?f = i # xs" unfolding P by (cases ?f) auto
    then have "i \<in> set ?f" by simp
    then show "i \<in> set (cs (ptr_hash p)) \<and> masked_ptr (nodes g ! i) = hide_ptr p" by simp
  next
    assume i: "i \<in> set (cs (ptr_hash p)) \<and> masked_ptr (nodes g ! i) = hide_ptr p"
    then have "?f = [i]" using filter_inj_on [OF C(3,2), of i] by simp
    then show "pmap g p = Some i" unfolding P by simp
  qed
qed

lemma option_eqI: "(\<And>x. a = Some x \<longleftrightarrow> b = Some x) \<Longrightarrow> a = b"
  by (cases a; cases b) auto

lemma pmap_ran:
  assumes "chains_of g cs"
  shows "i \<in> ran (pmap g) \<longleftrightarrow> (\<exists>h < kHashTableSize. i \<in> set (cs h))"
proof
  assume "i \<in> ran (pmap g)"
  then show "\<exists>h < kHashTableSize. i \<in> set (cs h)"
    using PM_Find_iff(2) [OF assms] ptr_hash_less unfolding ran_def by blast
next
  assume "\<exists>h < kHashTableSize. i \<in> set (cs h)"
  then obtain h where h: "h < kHashTableSize" "i \<in> set (cs h)" by blast
  then have "pmap g (unhide_ptr (masked_ptr (nodes g ! i))) = Some i"
    using chains_ofD(4) [OF assms h] by (simp add: PM_Find_iff(2) [OF assms])
  then show "i \<in> ran (pmap g)" by (rule ranI)
qed

lemma pmap_facts:
  assumes "pm_inv g" "pmap g p = Some i"
  shows "i < length (nodes g)" "masked_ptr (nodes g ! i) = hide_ptr p"
  using assms PM_Find_iff(2) chains_ofD(5) [OF _ ptr_hash_less [of p]] unfolding pm_inv_def by blast+

lemma pmap_inj: "pm_inv g \<Longrightarrow> pmap g p = Some i \<Longrightarrow> pmap g q = Some i \<Longrightarrow> p = q"
  by (metis hide_ptr_eq pmap_facts(2))

text \<open>Changes outside the table.\<close>

lemma chains_of_cong:
  assumes "chains_of g cs" "length (nodes g') = length (nodes g)" "ptr_table g' = ptr_table g"
    and "\<And>i. i \<in> ran (pmap g) \<Longrightarrow> next_hash (nodes g' ! i) = next_hash (nodes g ! i) \<and> masked_ptr (nodes g' ! i) = masked_ptr (nodes g ! i)"
  shows "chains_of g' cs" "pmap g' = pmap g"
proof -
  have eq: "next_hash (nodes g' ! i) = next_hash (nodes g ! i)" "masked_ptr (nodes g' ! i) = masked_ptr (nodes g ! i)"
    if "h < kHashTableSize" "i \<in> set (cs h)" for h i
    using assms(4) [of i] pmap_ran [OF assms(1)] that by blast+
  show c: "chains_of g' cs"
    unfolding chains_of_def
  proof (intro conjI allI impI)
    show "length (ptr_table g') = kHashTableSize" using assms(1,3) by (simp add: chains_of_def)
    fix h assume h: "h < kHashTableSize"
    note C = chains_ofD [OF assms(1) h]
    show "chain (nodes g') (ptr_table g' ! h) (cs h)"
      using C(1) eq(1) [OF h] by (subst chain_cong [OF assms(2)]) (simp_all add: assms(3))
    show "distinct (cs h)" by (rule C(2))
    show "inj_on (\<lambda>i. masked_ptr (nodes g' ! i)) (set (cs h))"
      using C(3) eq(2) [OF h] by (simp add: inj_on_def)
    show "\<forall>i \<in> set (cs h). ptr_hash (unhide_ptr (masked_ptr (nodes g' ! i))) = h"
      using C(4) eq(2) [OF h] by simp
  qed
  show "pmap g' = pmap g"
  proof (rule ext, rule option_eqI)
    fix p i
    show "pmap g' p = Some i \<longleftrightarrow> pmap g p = Some i"
      using eq(2) [OF ptr_hash_less [of p]] unfolding PM_Find_iff(2) [OF c] PM_Find_iff(2) [OF assms(1)] by auto
  qed
qed

lemma PM_Add_spec:
  assumes c: "chains_of g cs" and i: "i < length (nodes g)" "i \<notin> ran (pmap g)"
    and p: "masked_ptr (nodes g ! i) = hide_ptr p" "pmap g p = None"
  shows "chains_of (PM_Add g p (int i)) (cs(ptr_hash p := i # cs (ptr_hash p)))"
    and "pmap (PM_Add g p (int i)) = (pmap g)(p \<mapsto> i)"
proof -
  let ?h = "ptr_hash p" and ?g = "PM_Add g p (int i)" and ?cs = "cs(ptr_hash p := i # cs (ptr_hash p))"
  have n: "nodes ?g = (nodes g)[i := next_hash_update (\<lambda>_. ptr_table g ! ?h) (nodes g ! i)]"
      "ptr_table ?g = (ptr_table g)[?h := int i]"
    by (simp_all add: PM_Add_def Let_def upd_node_def)
  have m: "masked_ptr (nodes ?g ! j) = masked_ptr (nodes g ! j)" for j
    by (cases "j = i") (simp_all add: n(1) i(1))
  have ni: "i \<notin> set (cs h)" if "h < kHashTableSize" for h using pmap_ran [OF c] i(2) that by blast
  have lt: "?h < length (ptr_table g)" using c by (simp add: chains_of_def)
  show c': "chains_of ?g ?cs"
    unfolding chains_of_def
  proof (intro conjI allI impI)
    show "length (ptr_table ?g) = kHashTableSize" using c by (simp add: chains_of_def n)
    fix h assume h: "h < kHashTableSize"
    note C = chains_ofD [OF c h]
    have ch: "chain (nodes ?g) (ptr_table g ! h) (cs h)"
    proof (subst chain_cong [of _ "nodes g"])
      fix j assume "j \<in> set (cs h)"
      then have "j \<noteq> i" using ni [OF h] by auto
      then show "next_hash (nodes ?g ! j) = next_hash (nodes g ! j)" by (simp add: n)
    qed (use C(1) in \<open>simp_all add: n\<close>)
    then show "chain (nodes ?g) (ptr_table ?g ! h) (?cs h)"
      using i(1) lt by (cases "h = ?h") (simp_all add: n)
    show "distinct (?cs h)" using C(2) ni [OF h] by auto
    have "masked_ptr (nodes g ! j) \<noteq> hide_ptr p" if "j \<in> set (cs ?h)" for j
      using p(2) PM_Find_iff(2) [OF c, of p j] that by auto
    then have nm: "hide_ptr p \<notin> (\<lambda>j. masked_ptr (nodes g ! j)) ` (set (cs ?h) - {i})" by force
    show "inj_on (\<lambda>i. masked_ptr (nodes ?g ! i)) (set (?cs h))"
    proof (cases "h = ?h")
      case True
      then show ?thesis using C(3) nm p(1) unfolding m by simp
    next
      case False
      then show ?thesis using C(3) unfolding m by simp
    qed
    show "\<forall>j \<in> set (?cs h). ptr_hash (unhide_ptr (masked_ptr (nodes ?g ! j))) = h"
      using C(4) p(1) by (auto simp: m)
  qed
  show "pmap ?g = (pmap g)(p \<mapsto> i)"
  proof (rule ext, rule option_eqI)
    fix q j
    have "pmap ?g q = Some j \<longleftrightarrow> j \<in> set (?cs (ptr_hash q)) \<and> masked_ptr (nodes g ! j) = hide_ptr q"
      unfolding PM_Find_iff(2) [OF c'] m by (rule refl)
    also have "\<dots> \<longleftrightarrow> ((pmap g)(p \<mapsto> i)) q = Some j"
    proof (cases "q = p")
      case True
      then show ?thesis using p PM_Find_iff(2) [OF c, of p j] by auto
    next
      case False
      then show ?thesis using p PM_Find_iff(2) [OF c, of q j] by auto
    qed
    finally show "pmap ?g q = Some j \<longleftrightarrow> ((pmap g)(p \<mapsto> i)) q = Some j" .
  qed
qed

lemma PM_Remove_spec:
  assumes c: "chains_of g cs" and i: "pmap g p = Some i"
  shows "\<exists>g' nh. PM_Remove g p = Some (int i, g') \<and> nodes g' = with_next (nodes g) nh \<and>
     free_nodes g' = free_nodes g \<and> pm_inv g' \<and> pmap g' = (pmap g)(p := None)"
proof -
  let ?h = "ptr_hash p"
  note C = chains_ofD [OF c ptr_hash_less [of p]]
  have ih: "i \<in> set (cs ?h)" "masked_ptr (nodes g ! i) = hide_ptr p" using PM_Find_iff(2) [OF c, of p i] i by auto
  have uniq: "\<forall>y \<in> set (cs ?h). masked_ptr (nodes g ! y) = hide_ptr p \<longrightarrow> y = i"
    using C(3) ih by (auto simp: inj_on_def)
  obtain g' nh where R: "pm_unlink g (hide_ptr p) (Head ?h) = Some (int i, g')" "nodes g' = with_next (nodes g) nh"
      "free_nodes g' = free_nodes g" "length (ptr_table g') = length (ptr_table g)"
      "\<forall>h. Head ?h \<noteq> Head h \<longrightarrow> ptr_table g' ! h = ptr_table g ! h"
      "\<forall>j. j \<notin> set (cs ?h) \<and> Head ?h \<noteq> Next (int j) \<longrightarrow> nh j = next_hash (nodes g ! j)"
      "chain (nodes g') (slot_read g' (Head ?h)) (remove1 i (cs ?h))"
  proof -
    have p: "chain (nodes g) (slot_read g (Head ?h)) (cs ?h)" "slot_fresh (Head ?h) (cs ?h) g"
      using C(1,6) by simp_all
    show thesis using pm_unlink_found [OF p(1) C(2) p(2) ih uniq] that by blast
  qed
  define cs' where "cs' = cs(?h := remove1 i (cs ?h))"
  have sub: "set (cs' h) \<subseteq> set (cs h)" for h by (auto simp: cs'_def dest: set_remove1_subset [THEN subsetD])
  have m: "masked_ptr (nodes g' ! j) = masked_ptr (nodes g ! j)" if "h < kHashTableSize" "j \<in> set (cs' h)" for h j
    using chains_ofD(5) [OF c that(1)] that(2) sub [of h] by (auto simp: R(2))
  have c': "chains_of g' cs'"
    unfolding chains_of_def
  proof (intro conjI allI impI)
    show "length (ptr_table g') = kHashTableSize" using C(6) R(4) by simp
    fix h assume h: "h < kHashTableSize"
    note H = chains_ofD [OF c h]
    show "chain (nodes g') (ptr_table g' ! h) (cs' h)"
    proof (cases "h = ?h")
      case True
      then show ?thesis using R(7) by (simp add: cs'_def)
    next
      case False
      have "chain (nodes g') (ptr_table g ! h) (cs h)"
      proof (subst chain_cong [of _ "nodes g"])
        fix j assume j: "j \<in> set (cs h)"
        then have "j \<notin> set (cs ?h)" using H(4) [OF j] chains_ofD(4) [OF c ptr_hash_less [of p], of j] False by auto
        then show "next_hash (nodes g' ! j) = next_hash (nodes g ! j)" using R(6) H(5) [OF j] by (simp add: R(2))
      qed (use H(1) R(2) in simp_all)
      then show ?thesis using False R(5) by (simp add: cs'_def)
    qed
    show "distinct (cs' h)" using H(2) by (auto simp: cs'_def)
    show "inj_on (\<lambda>i. masked_ptr (nodes g' ! i)) (set (cs' h))"
      using inj_on_subset [OF H(3) sub [of h]] m [OF h] by (simp add: inj_on_def)
    show "\<forall>j \<in> set (cs' h). ptr_hash (unhide_ptr (masked_ptr (nodes g' ! j))) = h"
      using H(4) sub [of h] m [OF h] by auto
  qed
  have "pmap g' = (pmap g)(p := None)"
  proof (rule ext, rule option_eqI)
    fix q j
    have "pmap g' q = Some j \<longleftrightarrow> j \<in> set (cs' (ptr_hash q)) \<and> masked_ptr (nodes g ! j) = hide_ptr q"
      using m [OF ptr_hash_less [of q]] unfolding PM_Find_iff(2) [OF c'] by auto
    also have "\<dots> \<longleftrightarrow> ((pmap g)(p := None)) q = Some j"
    proof (cases "q = p")
      case True
      then show ?thesis using uniq C(2) by (auto simp: cs'_def)
    next
      case False
      then have "masked_ptr (nodes g ! j) = hide_ptr q \<Longrightarrow> j \<noteq> i" using ih(2) by auto
      then show ?thesis using PM_Find_iff(2) [OF c, of q j] False by (auto simp: cs'_def)
    qed
    finally show "pmap g' q = Some j \<longleftrightarrow> ((pmap g)(p := None)) q = Some j" .
  qed
  then show ?thesis using R(1-3) c' by (auto simp: PM_Remove_def pm_inv_def)
qed

lemma PM_Remove_none:
  assumes c: "chains_of g cs" and "pmap g p = None"
  shows "PM_Remove g p = Some (- 1, g)"
  unfolding PM_Remove_def
proof (rule pm_unlink_none)
  show "chain (nodes g) (slot_read g (Head (ptr_hash p))) (cs (ptr_hash p))"
    using chains_ofD(1) [OF c ptr_hash_less [of p]] by simp
  show "\<forall>x \<in> set (cs (ptr_hash p)). masked_ptr (nodes g ! x) \<noteq> hide_ptr p"
    using PM_Find_iff(2) [OF c, of p] assms(2) by auto
qed

section \<open>The invariant of the representation\<close>

text \<open>Nodes that are not in use have no edges and no pointer; versions are never 0.\<close>

definition free_inv :: "rep \<Rightarrow> bool" where
  "free_inv g \<longleftrightarrow> distinct (free_nodes g) \<and>
     (\<forall>i \<in> set (free_nodes g). 0 \<le> i \<and> nat i < length (nodes g) \<and> nat i \<notin> ran (pmap g)) \<and>
     (\<forall>i < length (nodes g). i \<notin> ran (pmap g) \<longrightarrow> (\<forall>j. (i, j) \<notin> edges (nodes g) \<and> (j, i) \<notin> edges (nodes g)))"

definition versions_inv :: "rep \<Rightarrow> bool" where
  "versions_inv g \<longleftrightarrow> 
     (\<forall>i < length (nodes g). version (nodes g ! i) \<noteq> 0 \<and>
        (i \<notin> ran (pmap g) \<longrightarrow> masked_ptr (nodes g ! i) = hide_ptr 0))"

definition gc_inv :: "rep \<Rightarrow> bool" where
  "gc_inv g \<longleftrightarrow> graph_inv (nodes g) \<and> pm_inv g \<and> free_inv g \<and> versions_inv g"

lemma gc_invD:
  assumes "gc_inv g"
  shows "graph_inv (nodes g)" "pm_inv g" "free_inv g" "versions_inv g"
  using assms by (simp_all add: gc_inv_def)

text \<open>The invariant of the graph depends on ranks, markers and sets only.\<close>

lemma graph_inv_cong:
  assumes "length ns' = length ns" "map rank ns' = map rank ns" "map visited ns' = map visited ns"
    "map in_set ns' = map in_set ns" "map out_set ns' = map out_set ns"
  shows "graph_inv ns' = graph_inv ns" "edges ns' = edges ns"
proof -
  note S = sets_inv_cong [OF assms(1,4,5)]
  have r: "rank (ns' ! i) = rank (ns ! i)" "visited (ns' ! i) = visited (ns ! i)" if "i < length ns" for i
    using that assms(1-3) by (metis nth_map)+
  have e: "(\<forall>(a, c) \<in> edges ns. rank (ns' ! a) < rank (ns' ! c)) \<longleftrightarrow> (\<forall>(a, c) \<in> edges ns. rank (ns ! a) < rank (ns ! c))"
    if "sets_inv ns"
  proof (rule ball_cong [OF refl], clarify)
    fix a c assume "(a, c) \<in> edges ns"
    then show "rank (ns' ! a) < rank (ns' ! c) \<longleftrightarrow> rank (ns ! a) < rank (ns ! c)"
      using edges_range [OF that] r(1) by simp
  qed
  show "graph_inv ns' = graph_inv ns"
    unfolding graph_inv_def S assms(1,2) using e r(2) by auto
  show "edges ns' = edges ns" by (rule S(2))
qed

lemma map_upd_same: "f v = f (xs ! i) \<Longrightarrow> map f (xs[i := v]) = map f xs"
  by (metis list_update_id map_update)

text \<open>Operations on edges between live nodes keep the invariant.\<close>

lemma same_table_pm:
  assumes "pm_inv g" "same_table g g'"
  shows "pm_inv g'" "pmap g' = pmap g"
proof -
  obtain cs where c: "chains_of g cs" using assms(1) by (auto simp: pm_inv_def)
  have S: "length (nodes g') = length (nodes g)" "ptr_table g' = ptr_table g" "idents (nodes g') = idents (nodes g)"
    using assms(2) by (simp_all add: same_table_def)
  have "next_hash (nodes g' ! i) = next_hash (nodes g ! i) \<and> masked_ptr (nodes g' ! i) = masked_ptr (nodes g ! i)"
    if "i \<in> ran (pmap g)" for i
  proof -
    have i: "i < length (nodes g)" using that pmap_facts(1) [OF assms(1)] by (auto simp: ran_def)
    then have "idents (nodes g') ! i = idents (nodes g) ! i" using S(3) by simp
    then show ?thesis using i S(1) by (simp add: idents_def)
  qed
  then show "pm_inv g'" "pmap g' = pmap g" using chains_of_cong [OF c S(1,2)] unfolding pm_inv_def by blast+
qed

lemma same_table_version:
  assumes "same_table g g'" "i < length (nodes g)"
  shows "version (nodes g' ! i) = version (nodes g ! i)" "masked_ptr (nodes g' ! i) = masked_ptr (nodes g ! i)"
proof -
  have "idents (nodes g') ! i = idents (nodes g) ! i" "length (nodes g') = length (nodes g)"
    using assms(1) by (simp_all add: same_table_def)
  then show "version (nodes g' ! i) = version (nodes g ! i)" "masked_ptr (nodes g' ! i) = masked_ptr (nodes g ! i)"
    using assms(2) by (simp_all add: idents_def)
qed

lemma gc_inv_same_table:
  assumes g: "gc_inv g" and st: "same_table g g'" and gi: "graph_inv (nodes g')"
    and e: "edges (nodes g') \<subseteq> insert (x, y) (edges (nodes g))" and xy: "x \<in> ran (pmap g)" "y \<in> ran (pmap g)"
  shows "gc_inv g'" "pmap g' = pmap g"
proof -
  note P = same_table_pm [OF gc_invD(2) [OF g] st]
  have S: "length (nodes g') = length (nodes g)" "free_nodes g' = free_nodes g"
    using st by (simp_all add: same_table_def)
  have F: "free_inv g" by (rule gc_invD(3) [OF g])
  have "free_inv g'"
    unfolding free_inv_def S P(2)
  proof (intro conjI allI impI)
    show "distinct (free_nodes g)" "\<forall>i \<in> set (free_nodes g). 0 \<le> i \<and> nat i < length (nodes g) \<and> nat i \<notin> ran (pmap g)"
      using F unfolding free_inv_def by blast+
    fix i j assume i: "i < length (nodes g)" "i \<notin> ran (pmap g)"
    then have "(i, j) \<notin> edges (nodes g)" "(j, i) \<notin> edges (nodes g)" using F unfolding free_inv_def by blast+
    then show "(i, j) \<notin> edges (nodes g')" "(j, i) \<notin> edges (nodes g')" using e xy i by auto
  qed
  moreover have "versions_inv g'"
    using gc_invD(4) [OF g] same_table_version [OF st] S(1) P(2) by (simp add: versions_inv_def)
  ultimately show "gc_inv g'" using gi P(1) by (simp add: gc_inv_def)
  show "pmap g' = pmap g" by (rule P(2))
qed

section \<open>GetId\<close>

lemma gc_inv_new: "gc_inv new_graph" "pmap new_graph = Map.empty" "edges (nodes new_graph) = {}"
proof -
  have c: "chains_of new_graph (\<lambda>_. [])"
    by (simp add: chains_of_def new_graph_def kHashTableSize_def)
  have p: "pmap new_graph p = None" for p
    using PM_Find_iff(2) [OF c, of p] by (cases "pmap new_graph p") auto
  then show "pmap new_graph = Map.empty" by blast
  show "edges (nodes new_graph) = {}" by (simp add: edges_def new_graph_def)
  show "gc_inv new_graph"
    using c by (auto simp: gc_inv_def pm_inv_def graph_inv_def sets_inv_def edges_def free_inv_def versions_inv_def new_graph_def)
qed

lemma graph_inv_append:
  assumes inv: "graph_inv ns" and n: "rank n = int (length ns)" "\<not> visited n" "in_set n = ns_empty" "out_set n = ns_empty"
  shows "graph_inv (ns @ [n])" "edges (ns @ [n]) = edges ns"
proof -
  note I = graph_invD [OF inv]
  have e: "edges (ns @ [n]) = edges ns"
    using n by (auto simp: edges_def nth_append less_Suc_eq ns.empty_law(2))
  have s: "sets_inv (ns @ [n])"
  proof -
    have a: "ns_inv (in_set ((ns @ [n]) ! x)) \<and> ns_inv (out_set ((ns @ [n]) ! x)) \<and>
        (\<forall>v \<in> set (ns_elems (in_set ((ns @ [n]) ! x))) \<union> set (ns_elems (out_set ((ns @ [n]) ! x))). nat v < length (ns @ [n]))"
      if x: "x < length (ns @ [n])" for x
    proof (cases "x < length ns")
      case True
      then have "ns_inv (in_set (ns ! x)) \<and> ns_inv (out_set (ns ! x)) \<and>
          (\<forall>v \<in> set (ns_elems (in_set (ns ! x))) \<union> set (ns_elems (out_set (ns ! x))). nat v < length ns)"
        using I(1) unfolding sets_inv_def by blast
      then show ?thesis using True by (auto simp: nth_append less_Suc_eq)
    next
      case False
      then have "x = length ns" using x by simp
      then show ?thesis using n ns.empty_law by simp
    qed
    have b: "int x \<in> set (ns_elems (in_set ((ns @ [n]) ! y))) \<longleftrightarrow> int y \<in> set (ns_elems (out_set ((ns @ [n]) ! x)))"
      if xy: "x < length (ns @ [n])" "y < length (ns @ [n])" for x y
    proof -
      have new: "int (length ns) \<notin> set (ns_elems (in_set (ns ! z))) \<union> set (ns_elems (out_set (ns ! z)))" if "z < length ns" for z
        using I(1) that unfolding sets_inv_def by (metis less_irrefl nat_int)
      consider "x < length ns" "y < length ns" | "x = length ns" "y < length ns" | "y = length ns" using xy by fastforce
      then show ?thesis
      proof cases
        case 1
        then show ?thesis using I(1) unfolding sets_inv_def by (simp add: nth_append)
      next
        case 2
        then show ?thesis using new [of y] n by (simp add: nth_append ns.empty_law(2))
      next
        case 3
        then show ?thesis using new [of x] n xy(1) by (cases "x < length ns") (simp_all add: nth_append ns.empty_law(2) less_Suc_eq)
      qed
    qed
    show ?thesis unfolding sets_inv_def using a b by blast
  qed
  have d: "distinct (map rank (ns @ [n]))" "set (map rank (ns @ [n])) = int ` {..<length (ns @ [n])}"
    using I(2,3) n(1) by (auto simp: lessThan_Suc)
  have u: "\<forall>(a, c) \<in> edges (ns @ [n]). rank ((ns @ [n]) ! a) < rank ((ns @ [n]) ! c)"
    unfolding e
  proof clarify
    fix a c assume "(a, c) \<in> edges ns"
    then show "rank ((ns @ [n]) ! a) < rank ((ns @ [n]) ! c)"
      using I(4) edges_range [OF I(1)] by (simp add: nth_append)
  qed
  have v: "\<forall>i < length (ns @ [n]). \<not> visited ((ns @ [n]) ! i)" using I(5) n(2) by (simp add: nth_append less_Suc_eq)
  show "graph_inv (ns @ [n])" unfolding graph_inv_def using s d u v by blast
  show "edges (ns @ [n]) = edges ns" by (rule e)
qed

lemma PM_Add_fields:
  assumes "i < length (nodes g)"
  shows "length (nodes (PM_Add g p (int i))) = length (nodes g)"
    "graph_inv (nodes (PM_Add g p (int i))) = graph_inv (nodes g)"
    "edges (nodes (PM_Add g p (int i))) = edges (nodes g)"
    "map version (nodes (PM_Add g p (int i))) = map version (nodes g)"
    "map masked_ptr (nodes (PM_Add g p (int i))) = map masked_ptr (nodes g)"
    "free_nodes (PM_Add g p (int i)) = free_nodes g"
proof -
  let ?ns = "nodes (PM_Add g p (int i))"
  have n: "?ns = (nodes g)[i := next_hash_update (\<lambda>_. ptr_table g ! ptr_hash p) (nodes g ! i)]"
    by (simp add: PM_Add_def Let_def upd_node_def)
  show l: "length ?ns = length (nodes g)" by (simp add: n)
  have m: "map rank ?ns = map rank (nodes g)" "map visited ?ns = map visited (nodes g)"
      "map in_set ?ns = map in_set (nodes g)" "map out_set ?ns = map out_set (nodes g)"
    unfolding n by (rule map_upd_same; simp)+
  show "graph_inv ?ns = graph_inv (nodes g)" "edges ?ns = edges (nodes g)"
    using graph_inv_cong [OF l m] by blast+
  show "map version ?ns = map version (nodes g)" "map masked_ptr ?ns = map masked_ptr (nodes g)"
    unfolding n by (rule map_upd_same; simp)+
  show "free_nodes (PM_Add g p (int i)) = free_nodes g" by (simp add: PM_Add_def Let_def)
qed

lemma chains_of_append:
  assumes c: "chains_of g cs"
  shows "chains_of (g\<lparr>nodes := nodes g @ [n]\<rparr>) cs" "pmap (g\<lparr>nodes := nodes g @ [n]\<rparr>) = pmap g"
proof -
  let ?g = "g\<lparr>nodes := nodes g @ [n]\<rparr>"
  have m: "masked_ptr (nodes ?g ! i) = masked_ptr (nodes g ! i)" if "h < kHashTableSize" "i \<in> set (cs h)" for h i
    using chains_ofD(5) [OF c that] by (simp add: nth_append)
  show c': "chains_of ?g cs"
    unfolding chains_of_def
  proof (intro conjI allI impI)
    show "length (ptr_table ?g) = kHashTableSize" using c by (simp add: chains_of_def)
    fix h assume h: "h < kHashTableSize"
    note C = chains_ofD [OF c h]
    show "chain (nodes ?g) (ptr_table ?g ! h) (cs h)"
      using chain_append [of "nodes g" "nodes ?g", OF _ _ C(1)] by (simp add: nth_append)
    show "distinct (cs h)" by (rule C(2))
    show "inj_on (\<lambda>i. masked_ptr (nodes ?g ! i)) (set (cs h))" using C(3) m [OF h] by (simp add: inj_on_def)
    show "\<forall>i \<in> set (cs h). ptr_hash (unhide_ptr (masked_ptr (nodes ?g ! i))) = h" using C(4) m [OF h] by simp
  qed
  show "pmap ?g = pmap g"
  proof (rule ext, rule option_eqI)
    fix p i
    show "pmap ?g p = Some i \<longleftrightarrow> pmap g p = Some i"
      using m [OF ptr_hash_less [of p]] unfolding PM_Find_iff(2) [OF c'] PM_Find_iff(2) [OF c] by auto
  qed
qed

text \<open>What \<open>GetId\<close> gives back: the node found, the next free one, or a new one.\<close>

definition id_result :: "rep \<Rightarrow> u64 \<Rightarrow> nat \<Rightarrow> graph_id \<Rightarrow> rep \<Rightarrow> bool" where
  "id_result g p i gid g' \<longleftrightarrow> gc_inv g' \<and> gid = MakeId (int i) (version (nodes g' ! i)) \<and>
     pmap g' = (pmap g)(p \<mapsto> i) \<and> i < length (nodes g') \<and> edges (nodes g') = edges (nodes g) \<and>
     length (nodes g) \<le> length (nodes g') \<and> length (nodes g') \<le> length (nodes g) + 1 \<and>
     (\<forall>j < length (nodes g). version (nodes g' ! j) = version (nodes g ! j))"

lemma free_inv_alloc:
  assumes "free_inv g" "edges (nodes g') = edges (nodes g)" "pmap g' = (pmap g)(p \<mapsto> i)" "pmap g p = None"
    and "set (free_nodes g') \<subseteq> set (free_nodes g) - {int i}" "distinct (free_nodes g')"
    and "length (nodes g) \<le> length (nodes g')" "length (nodes g') \<le> length (nodes g) + 1"
    and "length (nodes g') = length (nodes g) + 1 \<Longrightarrow> i = length (nodes g)"
  shows "free_inv g'"
proof -
  have ran: "ran (pmap g') = insert i (ran (pmap g))"
    using assms(3,4) by (simp add: ran_map_upd)
  show ?thesis
    unfolding free_inv_def ran assms(2)
  proof (intro conjI ballI allI impI)
    show "distinct (free_nodes g')" by (rule assms(6))
    fix k assume "k \<in> set (free_nodes g')"
    then have k: "k \<in> set (free_nodes g)" "k \<noteq> int i" using assms(5) by auto
    then have k': "0 \<le> k" "nat k < length (nodes g)" "nat k \<notin> ran (pmap g)" using assms(1) unfolding free_inv_def by blast+
    then show "0 \<le> k" "nat k < length (nodes g')" "nat k \<notin> insert i (ran (pmap g))" using k(2) assms(7) by auto
  next
    fix j k assume j: "j < length (nodes g')" "j \<notin> insert i (ran (pmap g))"
    have "j < length (nodes g)"
      using j assms(8,9) by (cases "length (nodes g') = length (nodes g) + 1") auto
    moreover have "j \<notin> ran (pmap g)" using j(2) by simp
    ultimately show "(j, k) \<notin> edges (nodes g)" "(k, j) \<notin> edges (nodes g)" using assms(1) unfolding free_inv_def by blast+
  qed
qed

lemma versions_inv_alloc:
  assumes "versions_inv g" "pmap g' = (pmap g)(p \<mapsto> i)" "pmap g p = None"
    and "\<And>j. j < length (nodes g') \<Longrightarrow> j \<noteq> i \<Longrightarrow>
      j < length (nodes g) \<and> version (nodes g' ! j) = version (nodes g ! j) \<and> masked_ptr (nodes g' ! j) = masked_ptr (nodes g ! j)"
    and "version (nodes g' ! i) \<noteq> 0"
  shows "versions_inv g'"
  unfolding versions_inv_def
proof (intro allI impI)
  fix j assume j: "j < length (nodes g')"
  have ran: "ran (pmap g') = insert i (ran (pmap g))"
    using assms(2,3) by (simp add: ran_map_upd)
  show "version (nodes g' ! j) \<noteq> 0 \<and> (j \<notin> ran (pmap g') \<longrightarrow> masked_ptr (nodes g' ! j) = hide_ptr 0)"
  proof (cases "j = i")
    case True
    then show ?thesis using assms(5) by (simp add: ran)
  next
    case False
    then show ?thesis using assms(1,4) j by (simp add: ran versions_inv_def)
  qed
qed

lemma GetId_spec:
  assumes g: "gc_inv g"
  shows "\<exists>gid g' i. GetId g p = Some (gid, g') \<and> id_result g p i gid g' \<and> (pmap g p = None \<or> pmap g p = Some i \<and> g' = g)"
proof -
  obtain cs where c: "chains_of g cs" using gc_invD(2) [OF g] by (auto simp: pm_inv_def)
  note F = PM_Find_iff(1) [OF c, of p]
  have V: "\<forall>i < length (nodes g). version (nodes g ! i) \<noteq> 0" using gc_invD(4) [OF g] by (simp add: versions_inv_def)
  show ?thesis
  proof (cases "pmap g p")
    case (Some i)
    have "i < length (nodes g)" using pmap_facts(1) [OF gc_invD(2) [OF g] Some] .
    moreover have "(pmap g)(p \<mapsto> i) = pmap g" using Some by auto
    ultimately have "id_result g p i (MakeId (int i) (version (nodes g ! i))) g"
      using g by (simp add: id_result_def)
    then show ?thesis using Some F by (auto simp: GetId_def)
  next
    case None
    show ?thesis
    proof (cases "free_nodes g = []")
      case True
      let ?i = "length (nodes g)"
      define n where "n = fresh_node p (int ?i)"
      define g1 where "g1 = g\<lparr>nodes := nodes g @ [n]\<rparr>"
      define g2 where "g2 = PM_Add g1 p (int ?i)"
      have R: "GetId g p = Some (MakeId (int ?i) 1, g2)"
        using None F True by (simp add: GetId_def Let_def g1_def g2_def n_def fresh_node_def)
      have c1: "chains_of g1 cs" "pmap g1 = pmap g" using chains_of_append [OF c] by (simp_all add: g1_def)
      have i1: "?i < length (nodes g1)" by (simp add: g1_def)
      have ni: "?i \<notin> ran (pmap g1)" using pmap_facts(1) [OF gc_invD(2) [OF g]] unfolding c1(2) ran_def by blast
      have "masked_ptr (nodes g1 ! ?i) = hide_ptr p" by (simp add: g1_def n_def fresh_node_def)
      then have A: "chains_of g2 (cs(ptr_hash p := ?i # cs (ptr_hash p)))" "pmap g2 = (pmap g)(p \<mapsto> ?i)"
        using PM_Add_spec [OF c1(1) i1 ni] None c1(2) by (simp_all add: g2_def)
      have gi: "graph_inv (nodes g1)" "edges (nodes g1) = edges (nodes g)"
        using graph_inv_append [OF gc_invD(1) [OF g], of n] by (simp_all add: g1_def n_def fresh_node_def)
      note P = PM_Add_fields [OF i1, of p, folded g2_def]
      have ver: "version (nodes g2 ! j) = version (nodes g1 ! j)" if "j < length (nodes g1)" for j
        using P(1,4) that by (metis nth_map)
      have vi: "version (nodes g2 ! ?i) = 1" using ver [OF i1] by (simp add: g1_def n_def fresh_node_def)
      have msk: "masked_ptr (nodes g2 ! j) = masked_ptr (nodes g1 ! j)" if "j < length (nodes g1)" for j
        using P(1,5) that by (metis nth_map)
      have vj: "version (nodes g2 ! j) = version (nodes g ! j)" if "j < ?i" for j
        using ver [of j] that by (simp add: g1_def nth_append)
      have len: "length (nodes g2) = ?i + 1" using P(1) by (simp add: g1_def)
      have "free_inv g2"
        by (rule free_inv_alloc [OF gc_invD(3) [OF g] _ A(2) None]) (use P gi(2) True len in \<open>simp_all add: g1_def\<close>)
      moreover have "versions_inv g2"
      proof (rule versions_inv_alloc [OF gc_invD(4) [OF g] A(2) None])
        fix j assume "j < length (nodes g2)" "j \<noteq> ?i"
        then have "j < ?i" using len by simp
        then show "j < ?i \<and> version (nodes g2 ! j) = version (nodes g ! j) \<and> masked_ptr (nodes g2 ! j) = masked_ptr (nodes g ! j)"
          using vj msk [of j] by (simp add: g1_def nth_append)
      qed (simp add: vi)
      ultimately have "gc_inv g2" using P(2) gi A(1) by (auto simp: gc_inv_def pm_inv_def)
      then have "id_result g p ?i (MakeId (int ?i) 1) g2"
        using A(2) vi vj len P(3) gi(2) by (simp add: id_result_def)
      then show ?thesis using R None
        by (intro exI [of _ "MakeId (int ?i) 1"] exI [of _ g2] exI [of _ ?i]) simp
    next
      case False
      let ?r = "last (free_nodes g)"
      define i where "i = nat ?r"
      have rs: "?r \<in> set (free_nodes g)" using False by simp
      then have r: "?r = int i" "i < length (nodes g)" "i \<notin> ran (pmap g)"
        using gc_invD(3) [OF g] unfolding free_inv_def i_def by auto
      define n where "n = (nodes g ! i)\<lparr>masked_ptr := hide_ptr p, stack := [], priority := 0\<rparr>"
      define g1 where "g1 = g\<lparr>free_nodes := butlast (free_nodes g), nodes := (nodes g)[i := n]\<rparr>"
      define g2 where "g2 = PM_Add g1 p (int i)"
      have n1: "nodes g1 = (nodes g)[i := n]" by (simp add: g1_def)
      have g1: "upd_node (g\<lparr>free_nodes := butlast (free_nodes g)\<rparr>) (int i)
            (\<lambda>n. n\<lparr>masked_ptr := hide_ptr p, stack := [], priority := 0\<rparr>) = g1"
        by (simp add: g1_def upd_node_def n_def)
      have i1: "i < length (nodes g1)" using r(2) by (simp add: n1)
      have c1: "chains_of g1 cs" "pmap g1 = pmap g"
      proof -
        have "next_hash (nodes g1 ! j) = next_hash (nodes g ! j) \<and> masked_ptr (nodes g1 ! j) = masked_ptr (nodes g ! j)"
          if "j \<in> ran (pmap g)" for j
          using that r(3) by (cases "j = i") (simp_all add: n1)
        then show "chains_of g1 cs" "pmap g1 = pmap g"
          using chains_of_cong [OF c, of g1] by (simp_all add: g1_def)
      qed
      have m: "map rank (nodes g1) = map rank (nodes g)" "map visited (nodes g1) = map visited (nodes g)"
          "map in_set (nodes g1) = map in_set (nodes g)" "map out_set (nodes g1) = map out_set (nodes g)"
          "map version (nodes g1) = map version (nodes g)"
        unfolding n1 by (rule map_upd_same; simp add: n_def)+
      have l1: "length (nodes g1) = length (nodes g)" by (simp add: n1)
      have gi: "graph_inv (nodes g1)" "edges (nodes g1) = edges (nodes g)"
        using graph_inv_cong [OF l1 m(1-4)] gc_invD(1) [OF g] by blast+
      have A: "chains_of g2 (cs(ptr_hash p := i # cs (ptr_hash p)))" "pmap g2 = (pmap g)(p \<mapsto> i)"
      proof -
        have "masked_ptr (nodes g1 ! i) = hide_ptr p" using r(2) by (simp add: n1 n_def)
        then show "chains_of g2 (cs(ptr_hash p := i # cs (ptr_hash p)))" "pmap g2 = (pmap g)(p \<mapsto> i)"
          using PM_Add_spec [OF c1(1) i1] r(3) None by (simp_all add: g2_def c1(2))
      qed
      note P = PM_Add_fields [OF i1, of p, folded g2_def]
      have len: "length (nodes g2) = length (nodes g)" using P(1) l1 by simp
      have ver: "version (nodes g2 ! j) = version (nodes g ! j)" if "j < length (nodes g)" for j
        using P(1,4) m(5) l1 that by (metis nth_map)
      have R: "GetId g p = Some (MakeId (int i) (version (nodes g2 ! i)), g2)"
        using None F False r(1) g1 by (simp add: GetId_def Let_def g2_def)
      have fr: "free_nodes g2 = butlast (free_nodes g)" using P(6) by (simp add: g1_def)
      have "distinct (free_nodes g)" using gc_invD(3) [OF g] by (simp add: free_inv_def)
      then have "distinct (butlast (free_nodes g) @ [?r])" using False by (metis append_butlast_last_id)
      then have d: "distinct (butlast (free_nodes g))" "?r \<notin> set (butlast (free_nodes g))" by simp_all
      have "free_inv g2"
      proof (rule free_inv_alloc [OF gc_invD(3) [OF g] _ A(2) None])
        show "set (free_nodes g2) \<subseteq> set (free_nodes g) - {int i}"
          using d(2) in_set_butlastD [of _ "free_nodes g"] by (auto simp: fr r(1))
      qed (use P(3) gi(2) d(1) len in \<open>simp_all add: fr\<close>)
      moreover have "versions_inv g2"
      proof (rule versions_inv_alloc [OF gc_invD(4) [OF g] A(2) None])
        fix j assume j: "j < length (nodes g2)" "j \<noteq> i"
        have "masked_ptr (nodes g2 ! j) = masked_ptr (nodes g1 ! j)" using P(1,5) j(1) by (metis nth_map)
        then show "j < length (nodes g) \<and> version (nodes g2 ! j) = version (nodes g ! j) \<and>
            masked_ptr (nodes g2 ! j) = masked_ptr (nodes g ! j)"
          using j len ver by (simp add: n1)
      qed (use ver V r(2) in simp)
      ultimately have "gc_inv g2" using P(2) gi A(1) by (auto simp: gc_inv_def pm_inv_def)
      then have "id_result g p i (MakeId (int i) (version (nodes g2 ! i))) g2"
        using A(2) ver len P(3) gi(2) r(2) by (simp add: id_result_def)
      then show ?thesis using R None
        by (intro exI [of _ "MakeId (int i) (version (nodes g2 ! i))"] exI [of _ g2] exI [of _ i]) simp
    qed
  qed
qed

section \<open>RemoveNode\<close>

definition with_in :: "node list \<Rightarrow> (nat \<Rightarrow> node_set) \<Rightarrow> node list" where
  "with_in ns si = map (\<lambda>j. in_set_update (\<lambda>_. si j) (ns ! j)) [0..<length ns]"

definition with_out :: "node list \<Rightarrow> (nat \<Rightarrow> node_set) \<Rightarrow> node list" where
  "with_out ns so = map (\<lambda>j. out_set_update (\<lambda>_. so j) (ns ! j)) [0..<length ns]"

lemma with_sets_simps [simp]:
  "length (with_in ns si) = length ns" "length (with_out ns si) = length ns"
  "j < length ns \<Longrightarrow> with_in ns si ! j = in_set_update (\<lambda>_. si j) (ns ! j)"
  "j < length ns \<Longrightarrow> with_out ns si ! j = out_set_update (\<lambda>_. si j) (ns ! j)"
  by (simp_all add: with_in_def with_out_def)

lemma with_in_over: "with_in (ns[y := in_set_update (\<lambda>_. s) (ns ! y)]) si = with_in ns si"
proof (rule nth_equalityI)
  let ?ns = "ns[y := in_set_update (\<lambda>_. s) (ns ! y)]"
  fix i assume "i < length (with_in ?ns si)"
  then show "with_in ?ns si ! i = with_in ns si ! i" by (cases "i = y") simp_all
qed simp

lemma with_out_over: "with_out (ns[y := out_set_update (\<lambda>_. s) (ns ! y)]) so = with_out ns so"
proof (rule nth_equalityI)
  let ?ns = "ns[y := out_set_update (\<lambda>_. s) (ns ! y)]"
  fix i assume "i < length (with_out ?ns so)"
  then show "with_out ?ns so ! i = with_out ns so ! i" by (cases "i = y") simp_all
qed simp

definition erased :: "node_set \<Rightarrow> node_set \<Rightarrow> int set \<Rightarrow> bool" where
  "erased s s' A \<longleftrightarrow> ns_inv s' \<and> set (ns_elems s') = set (ns_elems s) - A"

lemma erase_in_spec:
  "\<forall>j < length (nodes g). ns_inv (in_set (nodes g ! j)) \<Longrightarrow> 0 \<le> i \<Longrightarrow> \<forall>y \<in> set ys. 0 \<le> y \<and> nat y < length (nodes g) \<Longrightarrow>
   \<exists>si. erase_in g i ys = Some (g\<lparr>nodes := with_in (nodes g) si\<rparr>) \<and>
     (\<forall>j < length (nodes g). erased (in_set (nodes g ! j)) (si j) (if int j \<in> set ys then {i} else {}))"
proof (induction ys arbitrary: g)
  case Nil
  have "with_in (nodes g) (\<lambda>j. in_set (nodes g ! j)) = nodes g" by (rule nth_equalityI) simp_all
  then show ?case using Nil by (intro exI [of _ "\<lambda>j. in_set (nodes g ! j)"]) (simp add: erased_def)
next
  case (Cons y ys)
  have y: "0 \<le> y" "nat y < length (nodes g)" using Cons.prems(3) by simp_all
  obtain s where s: "ns_erase (in_set (nodes g ! nat y)) i = Some s" "ns_inv s"
      "set (ns_elems s) = set (ns_elems (in_set (nodes g ! nat y))) - {i}"
    using ns.erase_law [of "in_set (nodes g ! nat y)" i] Cons.prems(1,2) y by blast
  define g1 where "g1 = upd_node g y (in_set_update (\<lambda>_. s))"
  have n1: "nodes g1 = (nodes g)[nat y := in_set_update (\<lambda>_. s) (nodes g ! nat y)]" by (simp add: g1_def)
  have in1: "in_set (nodes g1 ! j) = (if j = nat y then s else in_set (nodes g ! j))" if "j < length (nodes g)" for j
    using that y(2) by (simp add: n1 nth_list_update)
  have "\<forall>j < length (nodes g1). ns_inv (in_set (nodes g1 ! j))"
  proof clarify
    fix j assume "j < length (nodes g1)"
    then have j: "j < length (nodes g)" by (simp add: n1)
    then show "ns_inv (in_set (nodes g1 ! j))" using Cons.prems(1) s(2) in1 [OF j] by simp
  qed
  then obtain si where si: "erase_in g1 i ys = Some (g1\<lparr>nodes := with_in (nodes g1) si\<rparr>)"
      "\<forall>j < length (nodes g1). erased (in_set (nodes g1 ! j)) (si j) (if int j \<in> set ys then {i} else {})"
    using Cons.IH [of g1] Cons.prems(2,3) by (auto simp: n1)
  have "erase_in g i (y # ys) = Some (g\<lparr>nodes := with_in (nodes g) si\<rparr>)"
    using s(1) si(1) with_in_over by (simp add: g1_def [symmetric]) (simp add: n1 with_in_over g1_def upd_node_def)
  moreover have "erased (in_set (nodes g ! j)) (si j) (if int j \<in> set (y # ys) then {i} else {})"
    if j: "j < length (nodes g)" for j
  proof -
    have E: "erased (in_set (nodes g1 ! j)) (si j) (if int j \<in> set ys then {i} else {})"
      using si(2) j by (simp add: n1)
    show ?thesis
    proof (cases "j = nat y")
      case True
      then have "int j \<in> set (y # ys)" "in_set (nodes g1 ! j) = s" using y(1) in1 [OF j] by simp_all
      then show ?thesis using E s(3) True unfolding erased_def by auto
    next
      case False
      then have "int j \<in> set (y # ys) \<longleftrightarrow> int j \<in> set ys" "in_set (nodes g1 ! j) = in_set (nodes g ! j)"
        using y(1) in1 [OF j] by auto
      then show ?thesis using E by simp
    qed
  qed
  ultimately show ?case by blast
qed

lemma erase_out_spec:
  "\<forall>j < length (nodes g). ns_inv (out_set (nodes g ! j)) \<Longrightarrow> 0 \<le> i \<Longrightarrow> \<forall>y \<in> set ys. 0 \<le> y \<and> nat y < length (nodes g) \<Longrightarrow>
   \<exists>so. erase_out g i ys = Some (g\<lparr>nodes := with_out (nodes g) so\<rparr>) \<and>
     (\<forall>j < length (nodes g). erased (out_set (nodes g ! j)) (so j) (if int j \<in> set ys then {i} else {}))"
proof (induction ys arbitrary: g)
  case Nil
  have "with_out (nodes g) (\<lambda>j. out_set (nodes g ! j)) = nodes g" by (rule nth_equalityI) simp_all
  then show ?case using Nil by (intro exI [of _ "\<lambda>j. out_set (nodes g ! j)"]) (simp add: erased_def)
next
  case (Cons y ys)
  have y: "0 \<le> y" "nat y < length (nodes g)" using Cons.prems(3) by simp_all
  obtain s where s: "ns_erase (out_set (nodes g ! nat y)) i = Some s" "ns_inv s"
      "set (ns_elems s) = set (ns_elems (out_set (nodes g ! nat y))) - {i}"
    using ns.erase_law [of "out_set (nodes g ! nat y)" i] Cons.prems(1,2) y by blast
  define g1 where "g1 = upd_node g y (out_set_update (\<lambda>_. s))"
  have n1: "nodes g1 = (nodes g)[nat y := out_set_update (\<lambda>_. s) (nodes g ! nat y)]" by (simp add: g1_def)
  have in1: "out_set (nodes g1 ! j) = (if j = nat y then s else out_set (nodes g ! j))" if "j < length (nodes g)" for j
    using that y(2) by (simp add: n1 nth_list_update)
  have "\<forall>j < length (nodes g1). ns_inv (out_set (nodes g1 ! j))"
  proof clarify
    fix j assume "j < length (nodes g1)"
    then have j: "j < length (nodes g)" by (simp add: n1)
    then show "ns_inv (out_set (nodes g1 ! j))" using Cons.prems(1) s(2) in1 [OF j] by simp
  qed
  then obtain so where so: "erase_out g1 i ys = Some (g1\<lparr>nodes := with_out (nodes g1) so\<rparr>)"
      "\<forall>j < length (nodes g1). erased (out_set (nodes g1 ! j)) (so j) (if int j \<in> set ys then {i} else {})"
    using Cons.IH [of g1] Cons.prems(2,3) by (auto simp: n1)
  have "erase_out g i (y # ys) = Some (g\<lparr>nodes := with_out (nodes g) so\<rparr>)"
    using s(1) so(1) by (simp add: g1_def [symmetric]) (simp add: n1 with_out_over g1_def upd_node_def)
  moreover have "erased (out_set (nodes g ! j)) (so j) (if int j \<in> set (y # ys) then {i} else {})"
    if j: "j < length (nodes g)" for j
  proof -
    have E: "erased (out_set (nodes g1 ! j)) (so j) (if int j \<in> set ys then {i} else {})"
      using so(2) j by (simp add: n1)
    show ?thesis
    proof (cases "j = nat y")
      case True
      then have "int j \<in> set (y # ys)" "out_set (nodes g1 ! j) = s" using y(1) in1 [OF j] by simp_all
      then show ?thesis using E s(3) True unfolding erased_def by auto
    next
      case False
      then have "int j \<in> set (y # ys) \<longleftrightarrow> int j \<in> set ys" "out_set (nodes g1 ! j) = out_set (nodes g ! j)"
        using y(1) in1 [OF j] by auto
      then show ?thesis using E by simp
    qed
  qed
  ultimately show ?case by blast
qed

lemma graph_inv_removed:
  assumes inv: "graph_inv ns" and i: "i < length ns" and l: "length ns' = length ns"
    and m: "map rank ns' = map rank ns" "map visited ns' = map visited ns"
    and o: "\<And>j. j < length ns \<Longrightarrow> ns_inv (out_set (ns' ! j)) \<and>
      set (ns_elems (out_set (ns' ! j))) = (if j = i then {} else set (ns_elems (out_set (ns ! j))) - {int i})"
    and n: "\<And>j. j < length ns \<Longrightarrow> ns_inv (in_set (ns' ! j)) \<and>
      set (ns_elems (in_set (ns' ! j))) = (if j = i then {} else set (ns_elems (in_set (ns ! j))) - {int i})"
  shows "graph_inv ns'" "edges ns' = {(a, c) \<in> edges ns. a \<noteq> i \<and> c \<noteq> i}"
proof -
  note I = graph_invD [OF inv]
  have r: "rank (ns' ! i) = rank (ns ! i)" "visited (ns' ! i) = visited (ns ! i)" if "i < length ns" for i
    using that l m by (metis nth_map)+
  show e: "edges ns' = {(a, c) \<in> edges ns. a \<noteq> i \<and> c \<noteq> i}"
    using l o by (auto simp: edges_def split: if_splits)
  have s: "sets_inv ns'"
    unfolding sets_inv_def l
  proof (intro conjI allI impI)
    fix x assume x: "x < length ns"
    show "ns_inv (in_set (ns' ! x))" "ns_inv (out_set (ns' ! x))" using o n x by blast+
    have "\<forall>v \<in> set (ns_elems (in_set (ns ! x))) \<union> set (ns_elems (out_set (ns ! x))). nat v < length ns"
      using I(1) x unfolding sets_inv_def by blast
    then show "\<forall>v \<in> set (ns_elems (in_set (ns' ! x))) \<union> set (ns_elems (out_set (ns' ! x))). nat v < length ns"
      using o [OF x] n [OF x] by (auto split: if_splits)
    fix y assume y: "y < length ns"
    have "int x \<in> set (ns_elems (in_set (ns ! y))) \<longleftrightarrow> int y \<in> set (ns_elems (out_set (ns ! x)))"
      using I(1) x y unfolding sets_inv_def by blast
    then show "int x \<in> set (ns_elems (in_set (ns' ! y))) \<longleftrightarrow> int y \<in> set (ns_elems (out_set (ns' ! x)))"
      using o [OF x] n [OF y] by auto
  qed
  have "\<forall>(a, c) \<in> edges ns'. rank (ns' ! a) < rank (ns' ! c)"
    unfolding e
  proof clarify
    fix a c assume "(a, c) \<in> edges ns"
    then show "rank (ns' ! a) < rank (ns' ! c)" using I(4) edges_range [OF I(1)] r(1) by simp
  qed
  then show "graph_inv ns'" using s I(2,3,5) r(2) unfolding graph_inv_def l m by simp
qed

lemma no_self_edge: "graph_inv ns \<Longrightarrow> (i, i) \<notin> edges ns"
  using graph_invD(4) by fastforce

lemma set_range:
  assumes "sets_inv ns" "i < length ns"
  shows "ns_inv (in_set (ns ! i))" "ns_inv (out_set (ns ! i))"
    "\<forall>v \<in> set (ns_elems (in_set (ns ! i))). 0 \<le> v \<and> nat v < length ns"
    "\<forall>v \<in> set (ns_elems (out_set (ns ! i))). 0 \<le> v \<and> nat v < length ns"
proof -
  show i: "ns_inv (in_set (ns ! i))" and o: "ns_inv (out_set (ns ! i))"
    using assms unfolding sets_inv_def by blast+
  have r: "\<forall>v \<in> set (ns_elems (in_set (ns ! i))) \<union> set (ns_elems (out_set (ns ! i))). nat v < length ns"
    using assms unfolding sets_inv_def by blast
  show "\<forall>v \<in> set (ns_elems (in_set (ns ! i))). 0 \<le> v \<and> nat v < length ns"
    "\<forall>v \<in> set (ns_elems (out_set (ns ! i))). 0 \<le> v \<and> nat v < length ns"
    using r ns.nonneg_law [OF i] ns.nonneg_law [OF o] by blast+
qed

text \<open>The nodes after the removal of node \<open>i\<close>, field by field.\<close>

definition removed :: "node list \<Rightarrow> nat \<Rightarrow> (nat \<Rightarrow> int) \<Rightarrow> (nat \<Rightarrow> node_set) \<Rightarrow> (nat \<Rightarrow> node_set) \<Rightarrow> node list" where
  "removed ns i nh si so =
     (with_out (with_in (with_next ns nh) si) so)
       [i := (ns ! i)\<lparr>next_hash := nh i, in_set := ns_empty, out_set := ns_empty, masked_ptr := hide_ptr 0\<rparr>]"

lemma removed_fields:
  assumes "i < length ns" "j < length ns"
  shows "rank (removed ns i nh si so ! j) = rank (ns ! j)"
    "visited (removed ns i nh si so ! j) = visited (ns ! j)"
    "version (removed ns i nh si so ! j) = version (ns ! j)"
    "next_hash (removed ns i nh si so ! j) = nh j"
    "masked_ptr (removed ns i nh si so ! j) = (if j = i then hide_ptr 0 else masked_ptr (ns ! j))"
    "in_set (removed ns i nh si so ! j) = (if j = i then ns_empty else si j)"
    "out_set (removed ns i nh si so ! j) = (if j = i then ns_empty else so j)"
  using assms by (cases "j = i"; simp add: removed_def)+

lemma length_removed [simp]: "length (removed ns i nh si so) = length ns"
  by (simp add: removed_def)

lemma pmap_ran_remove:
  assumes "pm_inv g" "pmap g p = Some i"
  shows "ran ((pmap g)(p := None)) = ran (pmap g) - {i}"
proof (rule set_eqI)
  fix j
  show "j \<in> ran ((pmap g)(p := None)) \<longleftrightarrow> j \<in> ran (pmap g) - {i}"
  proof
    assume "j \<in> ran ((pmap g)(p := None))"
    then obtain q where q: "q \<noteq> p" "pmap g q = Some j" by (auto simp: ran_def split: if_splits)
    then have "j \<noteq> i" using pmap_inj [OF assms(1) q(2), of p] assms(2) by blast
    then show "j \<in> ran (pmap g) - {i}" using q(2) by (auto simp: ran_def)
  next
    assume "j \<in> ran (pmap g) - {i}"
    then obtain q where q: "pmap g q = Some j" "j \<noteq> i" by (auto simp: ran_def)
    then have "q \<noteq> p" using assms(2) by auto
    then show "j \<in> ran ((pmap g)(p := None))" using q(1) by (auto simp: ran_def)
  qed
qed

lemma RemoveNode_steps:
  assumes g: "gc_inv g" and p: "pmap g p = Some i"
  shows "\<exists>g1 nh si so. PM_Remove g p = Some (int i, g1) \<and> nodes g1 = with_next (nodes g) nh \<and>
     free_nodes g1 = free_nodes g \<and> pm_inv g1 \<and> pmap g1 = (pmap g)(p := None) \<and>
     (\<forall>j < length (nodes g). erased (in_set (nodes g ! j)) (si j) {int i}) \<and>
     (\<forall>j < length (nodes g). erased (out_set (nodes g ! j)) (so j) {int i}) \<and>
     RemoveNode g p = (let g4 = g1\<lparr>nodes := removed (nodes g) i nh si so\<rparr> in
       if version (nodes g ! i) = - 1 then Some g4
       else Some ((upd_node g4 (int i) (\<lambda>x. x\<lparr>version := version x + 1\<rparr>))\<lparr>free_nodes := free_nodes g @ [int i]\<rparr>))"
proof -
  let ?ns = "nodes g"
  obtain cs where c: "chains_of g cs" using gc_invD(2) [OF g] by (auto simp: pm_inv_def)
  have i: "i < length ?ns" using pmap_facts(1) [OF gc_invD(2) [OF g] p] .
  note I = graph_invD [OF gc_invD(1) [OF g]]
  obtain g1 nh where g1: "PM_Remove g p = Some (int i, g1)" "nodes g1 = with_next ?ns nh"
      "free_nodes g1 = free_nodes g" "pm_inv g1" "pmap g1 = (pmap g)(p := None)"
    using PM_Remove_spec [OF c p] by blast
  have f1: "in_set (nodes g1 ! j) = in_set (?ns ! j)" "out_set (nodes g1 ! j) = out_set (?ns ! j)" if "j < length ?ns" for j
    using that by (simp_all add: g1(2))
  have l1: "length (nodes g1) = length ?ns" by (simp add: g1(2))
  obtain si where si: "erase_in g1 (int i) (ns_elems (out_set (nodes g1 ! i))) = Some (g1\<lparr>nodes := with_in (nodes g1) si\<rparr>)"
      "\<forall>j < length (nodes g1). erased (in_set (nodes g1 ! j)) (si j) (if int j \<in> set (ns_elems (out_set (nodes g1 ! i))) then {int i} else {})"
    using erase_in_spec [of g1 "int i" "ns_elems (out_set (nodes g1 ! i))"] set_range [OF I(1)] f1 l1 i by auto
  define g2 where "g2 = g1\<lparr>nodes := with_in (nodes g1) si\<rparr>"
  have l2: "length (nodes g2) = length ?ns" by (simp add: g2_def l1)
  have f2: "in_set (nodes g2 ! j) = si j" "out_set (nodes g2 ! j) = out_set (?ns ! j)" if "j < length ?ns" for j
    using that f1 by (simp_all add: g2_def l1)
  have esi: "erased (in_set (?ns ! j)) (si j) {int i}" if j: "j < length ?ns" for j
  proof -
    have "erased (in_set (?ns ! j)) (si j) (if int j \<in> set (ns_elems (out_set (?ns ! i))) then {int i} else {})"
      using si(2) j l1 f1 i by simp
    moreover have "int j \<in> set (ns_elems (out_set (?ns ! i))) \<longleftrightarrow> int i \<in> set (ns_elems (in_set (?ns ! j)))"
      using I(1) i j unfolding sets_inv_def by blast
    ultimately show ?thesis by (auto simp: erased_def split: if_splits)
  qed
  have sii: "set (ns_elems (si i)) = set (ns_elems (in_set (?ns ! i)))"
  proof -
    have "(i, i) \<notin> edges ?ns" by (rule no_self_edge [OF gc_invD(1) [OF g]])
    then have "int i \<notin> set (ns_elems (in_set (?ns ! i)))" using edges_iff_in [OF I(1) i] by (simp add: neighbours_def)
    then show ?thesis using esi [OF i] by (auto simp: erased_def)
  qed
  obtain so where so: "erase_out g2 (int i) (ns_elems (si i)) = Some (g2\<lparr>nodes := with_out (nodes g2) so\<rparr>)"
      "\<forall>j < length (nodes g2). erased (out_set (nodes g2 ! j)) (so j) (if int j \<in> set (ns_elems (si i)) then {int i} else {})"
    using erase_out_spec [of g2 "int i" "ns_elems (si i)"] set_range [OF I(1)] f2 l2 i sii by auto
  have eso: "erased (out_set (?ns ! j)) (so j) {int i}" if j: "j < length ?ns" for j
  proof -
    have "erased (out_set (?ns ! j)) (so j) (if int j \<in> set (ns_elems (in_set (?ns ! i))) then {int i} else {})"
      using so(2) j l2 f2 sii by simp
    moreover have "int j \<in> set (ns_elems (in_set (?ns ! i))) \<longleftrightarrow> int i \<in> set (ns_elems (out_set (?ns ! j)))"
      using I(1) i j unfolding sets_inv_def by blast
    ultimately show ?thesis by (auto simp: erased_def split: if_splits)
  qed
  define g3 where "g3 = g2\<lparr>nodes := with_out (nodes g2) so\<rparr>"
  have n3: "nodes g3 = with_out (with_in (with_next ?ns nh) si) so" by (simp add: g3_def g2_def g1(2))
  have g4: "upd_node g3 (int i) (\<lambda>x. x\<lparr>in_set := ns_empty, out_set := ns_empty, masked_ptr := hide_ptr 0\<rparr>) =
      g1\<lparr>nodes := removed ?ns i nh si so\<rparr>"
  proof -
    have "nodes g3 ! i = (?ns ! i)\<lparr>next_hash := nh i, in_set := si i, out_set := so i\<rparr>" using i by (simp add: n3)
    then show ?thesis by (simp add: upd_node_def removed_def n3) (simp add: g3_def g2_def)
  qed
  have s3: "erase_in g1 (int i) (ns_elems (out_set (nodes g1 ! i))) = Some g2" "in_set (nodes g2 ! i) = si i"
      "erase_out g2 (int i) (ns_elems (si i)) = Some g3"
    using si(1) so(1) f2(1) [OF i] by (simp_all add: g2_def g3_def)
  have v: "version (removed ?ns i nh si so ! i) = version (?ns ! i)" by (rule removed_fields(3) [OF i i])
  have R: "RemoveNode g p = (let g4 = g1\<lparr>nodes := removed ?ns i nh si so\<rparr> in
       if version (?ns ! i) = - 1 then Some g4
       else Some ((upd_node g4 (int i) (\<lambda>x. x\<lparr>version := version x + 1\<rparr>))\<lparr>free_nodes := free_nodes g @ [int i]\<rparr>))"
    by (simp add: RemoveNode_def g1(1) s3 g4 v g1(3) Let_def del: nodes_upd_node)
  show ?thesis using g1 esi eso R by blast
qed

lemma RemoveNode_spec:
  assumes g: "gc_inv g" and p: "pmap g p = Some i"
  shows "\<exists>g'. RemoveNode g p = Some g' \<and> gc_inv g' \<and> pmap g' = (pmap g)(p := None) \<and>
     edges (nodes g') = {(a, c) \<in> edges (nodes g). a \<noteq> i \<and> c \<noteq> i} \<and> length (nodes g') = length (nodes g) \<and>
     (\<forall>j < length (nodes g). version (nodes g' ! j) =
        (if j = i \<and> version (nodes g ! i) \<noteq> - 1 then version (nodes g ! i) + 1 else version (nodes g ! j)))"
proof -
  let ?ns = "nodes g"
  obtain g1 nh si so where S: "nodes g1 = with_next ?ns nh" "free_nodes g1 = free_nodes g" "pm_inv g1"
      "pmap g1 = (pmap g)(p := None)" "\<forall>j < length ?ns. erased (in_set (?ns ! j)) (si j) {int i}"
      "\<forall>j < length ?ns. erased (out_set (?ns ! j)) (so j) {int i}"
      "RemoveNode g p = (let g4 = g1\<lparr>nodes := removed ?ns i nh si so\<rparr> in
       if version (?ns ! i) = - 1 then Some g4
       else Some ((upd_node g4 (int i) (\<lambda>x. x\<lparr>version := version x + 1\<rparr>))\<lparr>free_nodes := free_nodes g @ [int i]\<rparr>))"
    using RemoveNode_steps [OF g p] by blast
  have i: "i < length ?ns" using pmap_facts(1) [OF gc_invD(2) [OF g] p] .
  define v where "v = version (?ns ! i)"
  define n4 where "n4 = removed ?ns i nh si so"
  define n5 where "n5 = (if v = - 1 then n4 else n4[i := (n4 ! i)\<lparr>version := v + 1\<rparr>])"
  define g' where "g' = (if v = - 1 then g1\<lparr>nodes := n4\<rparr> else g1\<lparr>nodes := n5, free_nodes := free_nodes g @ [int i]\<rparr>)"
  note F = removed_fields [OF i, where nh = nh and si = si and so = so, folded n4_def]
  have R: "RemoveNode g p = Some g'"
    using F(3) [OF i] S(7) by (simp add: g'_def n5_def Let_def upd_node_def n4_def [symmetric] v_def [symmetric])
  have n': "nodes g' = n5" "ptr_table g' = ptr_table g1"
      "free_nodes g' = (if v = - 1 then free_nodes g else free_nodes g @ [int i])"
    using S(2) by (simp_all add: g'_def n5_def)
  have l: "length n5 = length ?ns" by (simp add: n5_def n4_def)
  have f5: "rank (n5 ! j) = rank (?ns ! j)" "visited (n5 ! j) = visited (?ns ! j)" "next_hash (n5 ! j) = nh j"
      "masked_ptr (n5 ! j) = (if j = i then hide_ptr 0 else masked_ptr (?ns ! j))"
      "in_set (n5 ! j) = (if j = i then ns_empty else si j)" "out_set (n5 ! j) = (if j = i then ns_empty else so j)"
      "version (n5 ! j) = (if j = i \<and> v \<noteq> - 1 then v + 1 else version (?ns ! j))" if j: "j < length ?ns" for j
    using F [OF j] j i by (cases "j = i"; simp add: n5_def n4_def v_def)+
  have m: "map rank n5 = map rank ?ns" "map visited n5 = map visited ?ns"
    using f5(1,2) by (auto intro!: map_nth_cong simp: l)
  have G: "graph_inv n5" "edges n5 = {(a, c) \<in> edges ?ns. a \<noteq> i \<and> c \<noteq> i}"
    using graph_inv_removed [OF gc_invD(1) [OF g] i l m] S(5,6) f5(5,6) ns.empty_law
    by (simp_all add: erased_def)
  obtain cs where c1: "chains_of g1 cs" using S(3) by (auto simp: pm_inv_def)
  have ran: "ran (pmap g1) = ran (pmap g) - {i}" unfolding S(4) by (rule pmap_ran_remove [OF gc_invD(2) [OF g] p])
  have "next_hash (nodes g' ! j) = next_hash (nodes g1 ! j) \<and> masked_ptr (nodes g' ! j) = masked_ptr (nodes g1 ! j)"
    if "j \<in> ran (pmap g1)" for j
  proof -
    have "j \<noteq> i" "j < length ?ns" using that ran pmap_facts(1) [OF gc_invD(2) [OF g]] by (auto simp: ran_def)
    then show ?thesis using f5(3,4) by (simp add: n'(1) S(1))
  qed
  then have C: "pm_inv g'" "pmap g' = pmap g1"
    using chains_of_cong [OF c1, of g'] l by (auto simp: n' S(1) pm_inv_def)
  have fi: "free_inv g" by (rule gc_invD(3) [OF g])
  have ii: "i \<in> ran (pmap g)" using p by (rule ranI)
  have "free_inv g'"
    unfolding free_inv_def C(2) ran n'(1) l G(2)
  proof (intro conjI allI impI ballI)
    have "int i \<notin> set (free_nodes g)" using fi ii unfolding free_inv_def by (metis nat_int)
    then show "distinct (free_nodes g')" using fi by (simp add: n'(3) free_inv_def)
    fix k assume "k \<in> set (free_nodes g')"
    then have "k \<in> set (free_nodes g) \<or> k = int i" by (auto simp: n'(3) split: if_splits)
    then have "0 \<le> k \<and> nat k < length ?ns \<and> nat k \<notin> ran (pmap g) - {i}"
      using fi i unfolding free_inv_def by auto
    then show "0 \<le> k" "nat k < length ?ns" "nat k \<notin> ran (pmap g) - {i}" by blast+
  next
    fix j k assume j: "j < length ?ns" "j \<notin> ran (pmap g) - {i}"
    have "(j, k) \<notin> edges ?ns \<and> (k, j) \<notin> edges ?ns" if "j \<noteq> i"
      using fi j that unfolding free_inv_def by blast
    then show "(j, k) \<notin> {(a, c) \<in> edges ?ns. a \<noteq> i \<and> c \<noteq> i}" "(k, j) \<notin> {(a, c) \<in> edges ?ns. a \<noteq> i \<and> c \<noteq> i}"
      by auto
  qed
  moreover have "versions_inv g'"
  proof -
    have "v + 1 \<noteq> 0" if "v \<noteq> - 1" using that by (metis add_eq_0_iff2)
    then show ?thesis using gc_invD(4) [OF g] f5(4,7) unfolding versions_inv_def n'(1) l C(2) ran by auto
  qed
  ultimately have "gc_inv g'" using G(1) C(1) by (simp add: gc_inv_def n'(1))
  then show ?thesis using R C(2) S(4) G(2) f5(7) l by (simp add: n'(1) v_def)
qed

lemma RemoveNode_none:
  assumes "gc_inv g" "pmap g p = None"
  shows "RemoveNode g p = Some g"
proof -
  obtain cs where "chains_of g cs" using gc_invD(2) [OF assms(1)] by (auto simp: pm_inv_def)
  then show ?thesis using PM_Remove_none assms(2) by (simp add: RemoveNode_def)
qed

end
