(* ===== verification/Lock_Graph.thy ===== *)
theory Lock_Graph
  imports Graph_Nodes
begin

text \<open>
  The lock graph as its client sees it: the nodes are pointers, an edge is refused when it would
  close a cycle. The operations of \<open>GraphCycles\<close> refine this graph; then \<open>FindPath\<close>, \<open>IsReachable\<close>
  and \<open>CheckInvariants\<close>.
\<close>

section \<open>Operations on live ids\<close>

lemma FindNode_MakeId:
  assumes "i < length (nodes g)" "length (nodes g) < 2 ^ 31"
  shows "FindNode g (MakeId (int i) (version (nodes g ! i))) = Some (Some (nodes g ! i))"
    "NodeIndex (MakeId (int i) v) = int i"
proof -
  have "int i < 2 ^ 31" using assms by (metis of_nat_less_iff of_nat_numeral of_nat_power order_less_trans)
  then show idx: "NodeIndex (MakeId (int i) v) = int i" for v by (simp add: NodeIndex_MakeId)
  show "FindNode g (MakeId (int i) (version (nodes g ! i))) = Some (Some (nodes g ! i))"
    using assms(1) by (simp add: FindNode_def idx NodeVersion_MakeId Let_def)
qed

lemma RemoveEdge_spec:
  assumes inv: "graph_inv (nodes g)"
    and fx: "FindNode g idx = Some (Some nx)" and fy: "FindNode g idy = Some (Some ny)"
    and x: "x = nat (NodeIndex idx)" and y: "y = nat (NodeIndex idy)"
  shows "\<exists>g'. RemoveEdge g idx idy = Some g' \<and> graph_inv (nodes g') \<and> same_table g g' \<and>
     edges (nodes g') = edges (nodes g) - {(x, y)}"
proof -
  have X: "NodeIndex idx = int x" "x < length (nodes g)" and Y: "NodeIndex idy = int y" "y < length (nodes g)"
    using FindNode_live [OF fx] FindNode_live [OF fy] x y by simp_all
  note S = set_range [OF graph_invD(1) [OF inv]]
  obtain so where so: "ns_erase (out_set (nodes g ! x)) (int y) = Some so" "ns_inv so"
      "set (ns_elems so) = set (ns_elems (out_set (nodes g ! x))) - {int y}"
    using ns.erase_law [OF S(2) [OF X(2)], of "int y"] by auto
  obtain si where si: "ns_erase (in_set (nodes g ! y)) (int x) = Some si" "ns_inv si"
      "set (ns_elems si) = set (ns_elems (in_set (nodes g ! y))) - {int x}"
    using ns.erase_law [OF S(1) [OF Y(2)], of "int x"] by auto
  define n where "n = set_edge (nodes g) x y so si"
  have i: "in_set ((nodes g)[x := (nodes g ! x)\<lparr>out_set := so\<rparr>] ! y) = in_set (nodes g ! y)"
    using X(2) by (cases "x = y") simp_all
  have "RemoveEdge g idx idy = Some (g\<lparr>nodes := n\<rparr>)"
    using so(1) si(1) i by (simp add: RemoveEdge_def fx fy X(1) Y(1) Let_def upd_node_def n_def set_edge_def)
  moreover have "graph_inv n" "edges n = edges (nodes g) - {(x, y)}"
    using graph_inv_edge_removed [OF inv X(2) Y(2) so(2) si(2) so(3) si(3)] by (simp_all add: n_def)
  ultimately show ?thesis by (simp add: same_table_def n_def)
qed

lemma HasEdge_spec:
  assumes inv: "graph_inv (nodes g)"
    and fx: "FindNode g idx = Some (Some nx)" and fy: "FindNode g idy = Some (Some ny)"
  shows "HasEdge g idx idy = Some ((nat (NodeIndex idx), nat (NodeIndex idy)) \<in> edges (nodes g))"
proof -
  define x y where "x = nat (NodeIndex idx)" and "y = nat (NodeIndex idy)"
  have X: "nx = nodes g ! x" "x < length (nodes g)" and Y: "NodeIndex idy = int y" "y < length (nodes g)"
    using FindNode_live [OF fx] FindNode_live [OF fy] by (simp_all add: x_def y_def)
  show ?thesis
    using ns.contains_law [OF set_range(2) [OF graph_invD(1) [OF inv] X(2)], of "int y"] X
    by (simp add: HasEdge_def fx fy Y(1) edges_def x_def [symmetric])
qed

section \<open>The graph on pointers\<close>

definition abs_edges :: "rep \<Rightarrow> (u64 \<times> u64) set" where
  "abs_edges g = {(p, q). \<exists>i j. pmap g p = Some i \<and> pmap g q = Some j \<and> (i, j) \<in> edges (nodes g)}"

lemma live_edge:
  assumes "gc_inv g" "(i, j) \<in> edges (nodes g)"
  shows "i \<in> ran (pmap g)" "j \<in> ran (pmap g)"
proof -
  have "i < length (nodes g)" "j < length (nodes g)"
    using edges_range [OF graph_invD(1) [OF gc_invD(1) [OF assms(1)]] assms(2)] by auto
  then show "i \<in> ran (pmap g)" "j \<in> ran (pmap g)"
    using gc_invD(3) [OF assms(1)] assms(2) unfolding free_inv_def by blast+
qed

lemma abs_edges_iff:
  assumes "gc_inv g" "pmap g p = Some i" "pmap g q = Some j"
  shows "(p, q) \<in> abs_edges g \<longleftrightarrow> (i, j) \<in> edges (nodes g)"
  using assms by (auto simp: abs_edges_def)

lemma abs_reach_iff:
  assumes g: "gc_inv g" and p: "pmap g p = Some i" and q: "pmap g q = Some j"
  shows "(p, q) \<in> (abs_edges g)\<^sup>* \<longleftrightarrow> (i, j) \<in> (edges (nodes g))\<^sup>*"
proof
  assume "(p, q) \<in> (abs_edges g)\<^sup>*"
  then show "(i, j) \<in> (edges (nodes g))\<^sup>*" using q
  proof (induction arbitrary: j)
    case base
    then show ?case using p by simp
  next
    case (step a b)
    then obtain k l where "pmap g a = Some k" "pmap g b = Some l" "(k, l) \<in> edges (nodes g)"
      by (auto simp: abs_edges_def)
    then show ?case using step.IH [of k] step.prems by (auto intro: rtrancl_into_rtrancl)
  qed
next
  assume "(i, j) \<in> (edges (nodes g))\<^sup>*"
  then show "(p, q) \<in> (abs_edges g)\<^sup>*" using q
  proof (induction arbitrary: q)
    case base
    then have "p = q" using p pmap_inj [OF gc_invD(2) [OF g]] by blast
    then show ?case by simp
  next
    case (step k l)
    obtain a where a: "pmap g a = Some k" using live_edge(1) [OF g step.hyps(2)] by (auto simp: ran_def)
    then have "(a, q) \<in> abs_edges g" using step.prems step.hyps(2) by (auto simp: abs_edges_def)
    then show ?case using step.IH [OF a] by auto
  qed
qed

lemma id_result_abs:
  assumes g: "gc_inv g" and r: "id_result g p i gid g'"
    and pi: "pmap g p = None \<or> pmap g p = Some i \<and> g' = g"
  shows "dom (pmap g') = insert p (dom (pmap g))" "abs_edges g' = abs_edges g"
proof -
  have R: "gc_inv g'" "pmap g' = (pmap g)(p \<mapsto> i)" "edges (nodes g') = edges (nodes g)" using r by (simp_all add: id_result_def)
  show "dom (pmap g') = insert p (dom (pmap g))" by (simp add: R(2))
  show "abs_edges g' = abs_edges g"
  proof (cases "pmap g p")
    case (Some j)
    then show ?thesis using pi by simp
  next
    case None
    have "i \<notin> ran (pmap g)"
    proof
      assume "i \<in> ran (pmap g)"
      then obtain q where q: "pmap g q = Some i" by (auto simp: ran_def)
      then have "pmap g' q = Some i" "pmap g' p = Some i" using None by (auto simp: R(2))
      then show False using pmap_inj [OF gc_invD(2) [OF R(1)]] q None by fastforce
    qed
    then have "(i, j) \<notin> edges (nodes g)" "(j, i) \<notin> edges (nodes g)" for j using live_edge [OF g] by blast+
    then show ?thesis using None unfolding abs_edges_def R(2,3) by (auto split: if_splits)
  qed
qed

text \<open>Two ids looked up in a row, as for an edge.\<close>

definition GetId2 :: "rep \<Rightarrow> u64 \<Rightarrow> u64 \<Rightarrow> (graph_id \<times> graph_id \<times> rep) option" where
  "GetId2 g p q = do { (x, g) \<leftarrow> GetId g p; (y, g) \<leftarrow> GetId g q; Some (x, y, g) }"

lemma GetId2_spec:
  assumes g: "gc_inv g" and l: "length (nodes g) + 2 < 2 ^ 31"
  shows "\<exists>x y g' i j. GetId2 g p q = Some (x, y, g') \<and> gc_inv g' \<and>
     FindNode g' x = Some (Some (nodes g' ! i)) \<and> NodeIndex x = int i \<and> pmap g' p = Some i \<and>
     FindNode g' y = Some (Some (nodes g' ! j)) \<and> NodeIndex y = int j \<and> pmap g' q = Some j \<and>
     dom (pmap g') = {p, q} \<union> dom (pmap g) \<and> abs_edges g' = abs_edges g \<and>
     length (nodes g') \<le> length (nodes g) + 2"
proof -
  obtain x g1 i where 1: "GetId g p = Some (x, g1)" "id_result g p i x g1" "pmap g p = None \<or> pmap g p = Some i \<and> g1 = g"
    using GetId_spec [OF g] by blast
  have R1: "gc_inv g1" "x = MakeId (int i) (version (nodes g1 ! i))" "pmap g1 = (pmap g)(p \<mapsto> i)" "i < length (nodes g1)"
      "length (nodes g1) \<le> length (nodes g) + 1" using 1(2) by (simp_all add: id_result_def)
  note A1 = id_result_abs [OF g 1(2,3)]
  obtain y g2 j where 2: "GetId g1 q = Some (y, g2)" "id_result g1 q j y g2" "pmap g1 q = None \<or> pmap g1 q = Some j \<and> g2 = g1"
    using GetId_spec [OF R1(1)] by blast
  have R2: "gc_inv g2" "y = MakeId (int j) (version (nodes g2 ! j))" "pmap g2 = (pmap g1)(q \<mapsto> j)" "j < length (nodes g2)"
      "length (nodes g1) \<le> length (nodes g2)" "length (nodes g2) \<le> length (nodes g1) + 1"
      "\<forall>k < length (nodes g1). version (nodes g2 ! k) = version (nodes g1 ! k)"
    using 2(2) by (simp_all add: id_result_def)
  note A2 = id_result_abs [OF R1(1) 2(2,3)]
  have l2: "length (nodes g2) < 2 ^ 31" using R1(5) R2(6) l by simp
  have i2: "i < length (nodes g2)" "x = MakeId (int i) (version (nodes g2 ! i))" using R1(2,4) R2(5,7) by simp_all
  have pi: "pmap g2 p = Some i" using R1(3) R2(3) 2(3) by (cases "p = q") auto
  show ?thesis
  proof (intro exI conjI)
    show "GetId2 g p q = Some (x, y, g2)" using 1(1) 2(1) by (simp add: GetId2_def)
    show "gc_inv g2" by (rule R2(1))
    show "FindNode g2 x = Some (Some (nodes g2 ! i))" "NodeIndex x = int i" "pmap g2 p = Some i"
      using FindNode_MakeId [OF i2(1) l2] i2(2) pi by simp_all
    show "FindNode g2 y = Some (Some (nodes g2 ! j))" "NodeIndex y = int j" "pmap g2 q = Some j"
      using FindNode_MakeId [OF R2(4) l2] R2(2,3) by simp_all
    show "dom (pmap g2) = {p, q} \<union> dom (pmap g)" using A1(1) A2(1) by auto
    show "abs_edges g2 = abs_edges g" using A1(2) A2(2) by simp
    show "length (nodes g2) \<le> length (nodes g) + 2" using R1(5) R2(6) by simp
  qed
qed

section \<open>Runs\<close>

text \<open>What a client does with pointers, and the answers it sees.\<close>

datatype lock_op = Add u64 | Drop u64 | Link u64 u64 | Unlink u64 u64 | Ask u64 u64

fun lock_step :: "rep \<Rightarrow> lock_op \<Rightarrow> (bool \<times> rep) option" where
  "lock_step g (Add p) = do { (x, g) \<leftarrow> GetId g p; q \<leftarrow> gc_Ptr g x; Some (q = p, g) }"
| "lock_step g (Drop p) = do { g \<leftarrow> RemoveNode g p; Some (True, g) }"
| "lock_step g (Link p q) = do { (x, y, g) \<leftarrow> GetId2 g p q; InsertEdge g x y }"
| "lock_step g (Unlink p q) = do { (x, y, g) \<leftarrow> GetId2 g p q; g \<leftarrow> RemoveEdge g x y; Some (True, g) }"
| "lock_step g (Ask p q) = do { (x, y, g) \<leftarrow> GetId2 g p q; b \<leftarrow> HasEdge g x y; Some (b, g) }"

fun lock_run :: "lock_op list \<Rightarrow> rep \<Rightarrow> (bool list \<times> rep) option" where
  "lock_run [] g = Some ([], g)"
| "lock_run (op # ops) g = do { (b, g) \<leftarrow> lock_step g op; (bs, g) \<leftarrow> lock_run ops g; Some (b # bs, g) }"

text \<open>The same on a mathematical graph.\<close>

type_synonym digraph = "u64 set \<times> (u64 \<times> u64) set"

fun spec_step :: "digraph \<Rightarrow> lock_op \<Rightarrow> bool \<times> digraph" where
  "spec_step (N, E) (Add p) = (True, insert p N, E)"
| "spec_step (N, E) (Drop p) = (True, N - {p}, {(a, b) \<in> E. a \<noteq> p \<and> b \<noteq> p})"
| "spec_step (N, E) (Link p q) =
     (if (q, p) \<in> E\<^sup>* then (False, {p, q} \<union> N, E) else (True, {p, q} \<union> N, insert (p, q) E))"
| "spec_step (N, E) (Unlink p q) = (True, {p, q} \<union> N, E - {(p, q)})"
| "spec_step (N, E) (Ask p q) = ((p, q) \<in> E, {p, q} \<union> N, E)"

fun spec_run :: "lock_op list \<Rightarrow> digraph \<Rightarrow> bool list \<times> digraph" where
  "spec_run [] G = ([], G)"
| "spec_run (op # ops) G = (let (b, G) = spec_step G op; (bs, G) = spec_run ops G in (b # bs, G))"

definition abs_graph :: "rep \<Rightarrow> digraph" where
  "abs_graph g = (dom (pmap g), abs_edges g)"

lemma abs_edges_change:
  assumes "gc_inv g" "gc_inv g'" "pmap g' = pmap g" "pmap g p = Some i" "pmap g q = Some j"
  shows "edges (nodes g') = insert (i, j) (edges (nodes g)) \<Longrightarrow> abs_edges g' = insert (p, q) (abs_edges g)"
    and "edges (nodes g') = edges (nodes g) - {(i, j)} \<Longrightarrow> abs_edges g' = abs_edges g - {(p, q)}"
    and "edges (nodes g') = edges (nodes g) \<Longrightarrow> abs_edges g' = abs_edges g"
proof -
  have inj: "a = p" if "pmap g a = Some i" for a using pmap_inj [OF gc_invD(2) [OF assms(1)] that assms(4)] .
  have inj': "a = q" if "pmap g a = Some j" for a using pmap_inj [OF gc_invD(2) [OF assms(1)] that assms(5)] .
  have key': "(a, b) \<in> abs_edges g' \<longleftrightarrow> (\<exists>k l. pmap g a = Some k \<and> pmap g b = Some l \<and> (k, l) \<in> edges (nodes g'))" for a b
    by (simp add: abs_edges_def assms(3))
  have key: "(a, b) \<in> abs_edges g \<longleftrightarrow> (\<exists>k l. pmap g a = Some k \<and> pmap g b = Some l \<and> (k, l) \<in> edges (nodes g))" for a b
    by (simp add: abs_edges_def)
  have at: "(k, l) = (i, j) \<longleftrightarrow> (a, b) = (p, q)" if "pmap g a = Some k" "pmap g b = Some l" for a b k l
  proof -
    have "k = i \<longleftrightarrow> a = p" using inj [of a] that(1) assms(4) by (metis option.inject)
    moreover have "l = j \<longleftrightarrow> b = q" using inj' [of b] that(2) assms(5) by (metis option.inject)
    ultimately show ?thesis by simp
  qed
  show "edges (nodes g') = insert (i, j) (edges (nodes g)) \<Longrightarrow> abs_edges g' = insert (p, q) (abs_edges g)"
  proof (rule set_eqI, clarify)
    fix a b assume e: "edges (nodes g') = insert (i, j) (edges (nodes g))"
    have "(a, b) \<in> abs_edges g' \<longleftrightarrow>
        (\<exists>k l. pmap g a = Some k \<and> pmap g b = Some l \<and> ((a, b) = (p, q) \<or> (k, l) \<in> edges (nodes g)))"
      unfolding key' e by (intro ex_cong1 conj_cong refl) (simp only: insert_iff at)
    also have "\<dots> \<longleftrightarrow> (a, b) \<in> insert (p, q) (abs_edges g)"
    proof (cases "(a, b) = (p, q)")
      case True
      then show ?thesis using assms(4,5) by simp
    next
      case False
      then show ?thesis by (simp only: key insert_iff False simp_thms)
    qed
    finally show "(a, b) \<in> abs_edges g' \<longleftrightarrow> (a, b) \<in> insert (p, q) (abs_edges g)" .
  qed
  show "edges (nodes g') = edges (nodes g) - {(i, j)} \<Longrightarrow> abs_edges g' = abs_edges g - {(p, q)}"
  proof (rule set_eqI, clarify)
    fix a b assume e: "edges (nodes g') = edges (nodes g) - {(i, j)}"
    have "(a, b) \<in> abs_edges g' \<longleftrightarrow>
        (\<exists>k l. pmap g a = Some k \<and> pmap g b = Some l \<and> (a, b) \<noteq> (p, q) \<and> (k, l) \<in> edges (nodes g))"
      unfolding key' e by (intro ex_cong1 conj_cong refl) (simp only: Diff_iff singleton_iff at conj_commute)
    also have "\<dots> \<longleftrightarrow> (a, b) \<in> abs_edges g - {(p, q)}"
      by (cases "(a, b) = (p, q)") (simp_all add: key)
    finally show "(a, b) \<in> abs_edges g' \<longleftrightarrow> (a, b) \<in> abs_edges g - {(p, q)}" .
  qed
  show "edges (nodes g') = edges (nodes g) \<Longrightarrow> abs_edges g' = abs_edges g"
    using assms(3) unfolding abs_edges_def by simp
qed

lemma same_table_length: "same_table g g' \<Longrightarrow> length (nodes g') = length (nodes g)"
  by (simp add: same_table_def)

lemma lock_step_refines:
  assumes g: "gc_inv g" and l: "length (nodes g) + 2 < 2 ^ 31"
  shows "\<exists>g'. lock_step g op = Some (fst (spec_step (abs_graph g) op), g') \<and> gc_inv g' \<and>
     abs_graph g' = snd (spec_step (abs_graph g) op) \<and> length (nodes g') \<le> length (nodes g) + 2"
proof (cases op)
  case (Add p)
  obtain x g1 i where 1: "GetId g p = Some (x, g1)" "id_result g p i x g1" "pmap g p = None \<or> pmap g p = Some i \<and> g1 = g"
    using GetId_spec [OF g] by blast
  have R: "gc_inv g1" "x = MakeId (int i) (version (nodes g1 ! i))" "pmap g1 = (pmap g)(p \<mapsto> i)" "i < length (nodes g1)"
      "length (nodes g1) \<le> length (nodes g) + 1" using 1(2) by (simp_all add: id_result_def)
  have "FindNode g1 x = Some (Some (nodes g1 ! i))" using FindNode_MakeId(1) [OF R(4)] R(2,5) l by simp
  moreover have "masked_ptr (nodes g1 ! i) = hide_ptr p" using pmap_facts(2) [OF gc_invD(2) [OF R(1)], of p i] R(3) by simp
  ultimately have "gc_Ptr g1 x = Some p" by (simp add: gc_Ptr_def)
  then show ?thesis using 1(1) R(1,5) id_result_abs [OF g 1(2,3)] by (simp add: Add abs_graph_def)
next
  case (Drop p)
  show ?thesis
  proof (cases "pmap g p")
    case None
    have "dom (pmap g) - {p} = dom (pmap g)" using None by auto
    moreover have "{(a, b) \<in> abs_edges g. a \<noteq> p \<and> b \<noteq> p} = abs_edges g" using None by (auto simp: abs_edges_def)
    ultimately show ?thesis using RemoveNode_none [OF g None] g by (simp add: Drop abs_graph_def)
  next
    case (Some i)
    obtain g' where R: "RemoveNode g p = Some g'" "gc_inv g'" "pmap g' = (pmap g)(p := None)"
        "edges (nodes g') = {(a, c) \<in> edges (nodes g). a \<noteq> i \<and> c \<noteq> i}" "length (nodes g') = length (nodes g)"
      using RemoveNode_spec [OF g Some] by blast
    have inj: "k \<noteq> i" if "pmap g a = Some k" "a \<noteq> p" for a k
      using pmap_inj [OF gc_invD(2) [OF g] that(1), of p] Some that by auto
    have "abs_edges g' = {(a, b) \<in> abs_edges g. a \<noteq> p \<and> b \<noteq> p}"
      using inj unfolding abs_edges_def R(3,4) by (auto split: if_splits)
    then show ?thesis using R by (simp add: Drop abs_graph_def)
  qed
next
  case (Link p q)
  obtain x y g1 i j where G: "GetId2 g p q = Some (x, y, g1)" "gc_inv g1"
     "FindNode g1 x = Some (Some (nodes g1 ! i))" "NodeIndex x = int i" "pmap g1 p = Some i"
     "FindNode g1 y = Some (Some (nodes g1 ! j))" "NodeIndex y = int j" "pmap g1 q = Some j"
     "dom (pmap g1) = {p, q} \<union> dom (pmap g)" "abs_edges g1 = abs_edges g" "length (nodes g1) \<le> length (nodes g) + 2"
    using GetId2_spec [OF g l] by blast
  obtain g2 where S: "InsertEdge g1 x y = Some ((j, i) \<notin> (edges (nodes g1))\<^sup>*, g2)" "graph_inv (nodes g2)" "same_table g1 g2"
     "edges (nodes g2) = (if (j, i) \<in> (edges (nodes g1))\<^sup>* then edges (nodes g1) else insert (i, j) (edges (nodes g1)))"
    using InsertEdge_spec [OF gc_invD(1) [OF G(2)] G(3,6), of i j] G(4,7) by auto
  have "edges (nodes g2) \<subseteq> insert (i, j) (edges (nodes g1))" using S(4) by auto
  moreover have "i \<in> ran (pmap g1)" "j \<in> ran (pmap g1)" using G(5,8) by (auto intro: ranI)
  ultimately have inv: "gc_inv g2" "pmap g2 = pmap g1" using gc_inv_same_table [OF G(2) S(3,2)] by blast+
  have c: "(q, p) \<in> (abs_edges g)\<^sup>* \<longleftrightarrow> (j, i) \<in> (edges (nodes g1))\<^sup>*"
    using abs_reach_iff [OF G(2,8,5)] G(10) by simp
  have "abs_edges g2 = (if (q, p) \<in> (abs_edges g)\<^sup>* then abs_edges g else insert (p, q) (abs_edges g))"
    using abs_edges_change(1,3) [OF G(2) inv G(5,8)] S(4) c G(10) by simp
  then show ?thesis
    using G(1,9,11) S(1) inv c same_table_length [OF S(3)] by (simp add: Link abs_graph_def)
next
  case (Unlink p q)
  obtain x y g1 i j where G: "GetId2 g p q = Some (x, y, g1)" "gc_inv g1"
     "FindNode g1 x = Some (Some (nodes g1 ! i))" "NodeIndex x = int i" "pmap g1 p = Some i"
     "FindNode g1 y = Some (Some (nodes g1 ! j))" "NodeIndex y = int j" "pmap g1 q = Some j"
     "dom (pmap g1) = {p, q} \<union> dom (pmap g)" "abs_edges g1 = abs_edges g" "length (nodes g1) \<le> length (nodes g) + 2"
    using GetId2_spec [OF g l] by blast
  obtain g2 where S: "RemoveEdge g1 x y = Some g2" "graph_inv (nodes g2)" "same_table g1 g2"
     "edges (nodes g2) = edges (nodes g1) - {(i, j)}"
    using RemoveEdge_spec [OF gc_invD(1) [OF G(2)] G(3,6), of i j] G(4,7) by auto
  have "edges (nodes g2) \<subseteq> insert (i, j) (edges (nodes g1))" using S(4) by auto
  moreover have "i \<in> ran (pmap g1)" "j \<in> ran (pmap g1)" using G(5,8) by (auto intro: ranI)
  ultimately have inv: "gc_inv g2" "pmap g2 = pmap g1" using gc_inv_same_table [OF G(2) S(3,2)] by blast+
  have "abs_edges g2 = abs_edges g - {(p, q)}" using abs_edges_change(2) [OF G(2) inv G(5,8) S(4)] G(10) by simp
  then show ?thesis using G(1,9,11) S(1) inv same_table_length [OF S(3)] by (simp add: Unlink abs_graph_def)
next
  case (Ask p q)
  obtain x y g1 i j where G: "GetId2 g p q = Some (x, y, g1)" "gc_inv g1"
     "FindNode g1 x = Some (Some (nodes g1 ! i))" "NodeIndex x = int i" "pmap g1 p = Some i"
     "FindNode g1 y = Some (Some (nodes g1 ! j))" "NodeIndex y = int j" "pmap g1 q = Some j"
     "dom (pmap g1) = {p, q} \<union> dom (pmap g)" "abs_edges g1 = abs_edges g" "length (nodes g1) \<le> length (nodes g) + 2"
    using GetId2_spec [OF g l] by blast
  have "HasEdge g1 x y = Some ((i, j) \<in> edges (nodes g1))"
    using HasEdge_spec [OF gc_invD(1) [OF G(2)] G(3,6)] G(4,7) by simp
  then show ?thesis using G abs_edges_iff [OF G(2,5,8)] by (simp add: Ask abs_graph_def)
qed

lemma lock_run_refines:
  "gc_inv g \<Longrightarrow> length (nodes g) + 2 * length ops < 2 ^ 31 \<Longrightarrow>
   \<exists>g'. lock_run ops g = Some (fst (spec_run ops (abs_graph g)), g') \<and> gc_inv g' \<and>
     abs_graph g' = snd (spec_run ops (abs_graph g))"
proof (induction ops arbitrary: g)
  case Nil
  then show ?case by simp
next
  case (Cons op ops)
  obtain g1 where 1: "lock_step g op = Some (fst (spec_step (abs_graph g) op), g1)" "gc_inv g1"
      "abs_graph g1 = snd (spec_step (abs_graph g) op)" "length (nodes g1) \<le> length (nodes g) + 2"
    using lock_step_refines [OF Cons.prems(1), of op] Cons.prems(2) by auto
  have "length (nodes g1) + 2 * length ops < 2 ^ 31" using 1(4) Cons.prems(2) by simp
  then obtain g2 where "lock_run ops g1 = Some (fst (spec_run ops (abs_graph g1)), g2)" "gc_inv g2"
      "abs_graph g2 = snd (spec_run ops (abs_graph g1))"
    using Cons.IH [OF 1(2)] by blast
  then show ?case using 1(1,3) by (auto simp: split_beta Let_def)
qed

section \<open>FindPath\<close>

text \<open>The stack of \<open>FindPath\<close> holds nodes to visit and the marker -1 for leaving a node.\<close>

fun fp_push :: "int list \<Rightarrow> node_set \<Rightarrow> int list \<Rightarrow> (node_set \<times> int list) option" where
  "fp_push [] seen st = Some (seen, st)"
| "fp_push (w # ws) seen st = do {
     (fresh, seen) \<leftarrow> ns_insert seen w;
     fp_push ws seen (if fresh then w # st else st)
   }"

partial_function (option) fp_loop ::
  "node list \<Rightarrow> int \<Rightarrow> int \<Rightarrow> node_set \<Rightarrow> int list \<Rightarrow> graph_id list \<Rightarrow> int \<Rightarrow> (int \<times> graph_id list) option" where
  "fp_loop ns y max_path_len seen st path path_len =
     (if st = [] then Some (0, path)
      else let n = hd st; st = tl st in
        if n < 0 then fp_loop ns y max_path_len seen st path (path_len - 1)
        else
          let path = (if path_len < max_path_len then path[nat path_len := MakeId n (version (ns ! nat n))] else path);
              path_len = path_len + 1;
              st = - 1 # st in
          if n = y then Some (path_len, path)
          else do {
            (seen, st) \<leftarrow> fp_push (ns_elems (out_set (ns ! nat n))) seen st;
            fp_loop ns y max_path_len seen st path path_len
          })"

definition FindPath :: "rep \<Rightarrow> graph_id \<Rightarrow> graph_id \<Rightarrow> int \<Rightarrow> graph_id list \<Rightarrow> (int \<times> graph_id list) option" where
  "FindPath g idx idy max_path_len path = do {
     nx \<leftarrow> FindNode g idx;
     if nx = None then Some (0, path)
     else do {
       ny \<leftarrow> FindNode g idy;
       if ny = None then Some (0, path)
       else fp_loop (nodes g) (NodeIndex idy) max_path_len ns_empty [NodeIndex idx] path 0
     }
   }"

definition IsReachable :: "rep \<Rightarrow> graph_id \<Rightarrow> graph_id \<Rightarrow> bool option" where
  "IsReachable g x y = do { (n, _) \<leftarrow> FindPath g x y 0 []; Some (n > 0) }"

lemma fp_push_spec:
  "ns_inv seen \<Longrightarrow> \<forall>w \<in> set ws. 0 \<le> w \<Longrightarrow>
     \<exists>seen' new. fp_push ws seen st = Some (seen', new @ st) \<and> ns_inv seen' \<and> distinct new \<and>
       set (ns_elems seen') = set (ns_elems seen) \<union> set ws \<and> set new = set ws - set (ns_elems seen)"
proof (induction ws arbitrary: seen st)
  case Nil
  then show ?case by simp
next
  case (Cons w ws)
  obtain s1 where s1: "ns_insert seen w = Some (w \<notin> set (ns_elems seen), s1)" "ns_inv s1"
      "set (ns_elems s1) = insert w (set (ns_elems seen))"
    using ns.insert_law [OF Cons.prems(1), of w] Cons.prems(2) by auto
  have ws: "\<forall>w \<in> set ws. 0 \<le> w" using Cons.prems(2) by simp
  define st1 where "st1 = (if w \<notin> set (ns_elems seen) then w # st else st)"
  obtain s2 new where s2: "fp_push ws s1 st1 = Some (s2, new @ st1)" "ns_inv s2" "distinct new"
      "set (ns_elems s2) = set (ns_elems s1) \<union> set ws" "set new = set ws - set (ns_elems s1)"
    using Cons.IH [OF s1(2) ws, of st1] by blast
  define new' where "new' = (if w \<notin> set (ns_elems seen) then new @ [w] else new)"
  have "fp_push (w # ws) seen st = Some (s2, new' @ st)"
    using s1(1) s2(1) by (simp add: st1_def new'_def split: if_splits)
  moreover have "distinct new'" "set new' = set (w # ws) - set (ns_elems seen)"
    using s2(3,5) s1(3) by (auto simp: new'_def)
  ultimately show ?case using s2(2,4) s1(3) by auto
qed

text \<open>
  The path taken, last node first, and its stack: the successors still to visit of each node on it,
  above the node's marker.
\<close>

fun fp_path :: "(nat \<times> nat) set \<Rightarrow> nat \<Rightarrow> nat list \<Rightarrow> bool" where
  "fp_path E x [] \<longleftrightarrow> True"
| "fp_path E x [p] \<longleftrightarrow> p = x"
| "fp_path E x (p # q # ps) \<longleftrightarrow> (q, p) \<in> E \<and> fp_path E x (q # ps)"

fun fp_stack :: "(nat \<times> nat) set \<Rightarrow> nat \<Rightarrow> nat list \<Rightarrow> int list \<Rightarrow> bool" where
  "fp_stack E x [] st \<longleftrightarrow> st = [] \<or> st = [int x]"
| "fp_stack E x (p # ps) st \<longleftrightarrow>
     (\<exists>cs rest. st = map int cs @ - 1 # rest \<and> (\<forall>c \<in> set cs. (p, c) \<in> E) \<and> fp_stack E x ps rest)"

lemma fp_path_ranks:
  assumes up: "\<And>a c. (a, c) \<in> E \<Longrightarrow> r a < (r c :: int)"
  shows "fp_path E x ps \<Longrightarrow> sorted_wrt (\<lambda>a b. r b < r a) ps"
proof (induction ps)
  case Nil
  then show ?case by simp
next
  case (Cons p ps)
  show ?case
  proof (cases ps)
    case Nil
    then show ?thesis by simp
  next
    case (Cons q qs)
    then have "r q < r p" "sorted_wrt (\<lambda>a b. r b < r a) (q # qs)"
      using Cons.prems Cons.IH up by auto
    then show ?thesis using Cons by fastforce
  qed
qed

text \<open>The invariant of the loop: nodes seen are visited or on the stack, visited ones have all their successors seen.\<close>

definition fp_inv :: "node list \<Rightarrow> nat \<Rightarrow> nat \<Rightarrow> node_set \<Rightarrow> int list \<Rightarrow> nat list \<Rightarrow> nat set \<Rightarrow> bool" where
  "fp_inv ns x y seen st ps V \<longleftrightarrow> ns_inv seen \<and> (\<forall>v \<in> set (ns_elems seen). nat v < length ns) \<and>
     fp_path (edges ns) x ps \<and> fp_stack (edges ns) x ps st \<and>
     (\<forall>v \<in> set st. 0 \<le> v \<longrightarrow> v = int x \<or> v \<in> set (ns_elems seen)) \<and>
     (\<forall>v. v = int x \<or> v \<in> set (ns_elems seen) \<longrightarrow> v \<in> set st \<or> v \<in> int ` V) \<and>
     (\<forall>a \<in> V. a \<noteq> y \<and> (\<forall>c. (a, c) \<in> edges ns \<longrightarrow> int c \<in> set (ns_elems seen)))"

definition fp_measure :: "node list \<Rightarrow> node_set \<Rightarrow> int list \<Rightarrow> nat" where
  "fp_measure ns seen st = 3 * card ({..<length ns} - nat ` set (ns_elems seen)) +
     sum_list (map (\<lambda>v. if v < 0 then 1 else 2) st)"

text \<open>What the result has to satisfy: a path from \<open>x\<close> to \<open>y\<close>, its length, and its ids in the array.\<close>

definition fp_result :: "node list \<Rightarrow> nat \<Rightarrow> nat \<Rightarrow> int \<Rightarrow> graph_id list \<Rightarrow> int \<Rightarrow> graph_id list \<Rightarrow> bool" where
  "fp_result ns x y m path n path' \<longleftrightarrow> length path' = length path \<and>
     (if (x, y) \<in> (edges ns)\<^sup>* then
        (\<exists>ps. fp_path (edges ns) x ps \<and> ps \<noteq> [] \<and> hd ps = y \<and> n = int (length ps) \<and>
           (\<forall>k < length ps. int k < m \<longrightarrow> path' ! k = MakeId (int (rev ps ! k)) (version (ns ! (rev ps ! k)))))
      else n = 0)"

lemma fp_loop_spec:
  assumes inv: "graph_inv ns" and xy: "x < length ns" "y < length ns"
  shows "fp_inv ns x y seen st ps V \<Longrightarrow> m \<le> int (length path) \<Longrightarrow>
    (\<forall>k < length ps. int k < m \<longrightarrow> path ! k = MakeId (int (rev ps ! k)) (version (ns ! (rev ps ! k)))) \<Longrightarrow>
    \<exists>n path'. fp_loop ns (int y) m seen st path (int (length ps)) = Some (n, path') \<and> fp_result ns x y m path n path'"
proof (induction "fp_measure ns seen st" arbitrary: seen st ps V path rule: less_induct)
  case less
  note I = graph_invD [OF inv]
  have F: "ns_inv seen" "\<forall>v \<in> set (ns_elems seen). nat v < length ns"
     "fp_path (edges ns) x ps" "fp_stack (edges ns) x ps st"
     "\<forall>v \<in> set st. 0 \<le> v \<longrightarrow> v = int x \<or> v \<in> set (ns_elems seen)"
     "\<forall>v. v = int x \<or> v \<in> set (ns_elems seen) \<longrightarrow> v \<in> set st \<or> v \<in> int ` V"
     "\<forall>a \<in> V. a \<noteq> y \<and> (\<forall>c. (a, c) \<in> edges ns \<longrightarrow> int c \<in> set (ns_elems seen))"
    using less.prems(1) by (simp_all add: fp_inv_def)
  show ?case
  proof (cases st)
    case Nil
    have in_V: "a \<in> V" if "(x, a) \<in> (edges ns)\<^sup>*" for a
      using that
    proof induction
      case base
      then show ?case using F(6) Nil by auto
    next
      case (step a b)
      then have "int b \<in> set (ns_elems seen)" using F(7) by blast
      then show ?case using F(6) Nil by auto
    qed
    then have "(x, y) \<notin> (edges ns)\<^sup>*" using F(7) by blast
    moreover have "fp_loop ns (int y) m seen st path (int (length ps)) = Some (0, path)"
      by (subst fp_loop.simps) (simp add: Nil)
    ultimately show ?thesis by (simp add: fp_result_def)
  next
    case (Cons v st')
    show ?thesis
    proof (cases "v < 0")
      case True
      then obtain p ps' where ps: "ps = p # ps'" using F(4) Cons by (cases ps) auto
      obtain cs rest where cs: "st = map int cs @ - 1 # rest" "fp_stack (edges ns) x ps' rest" using F(4) ps by auto
      have "cs = []" using cs(1) Cons True by (cases cs) auto
      then have v: "v = - 1" "st' = rest" using cs(1) Cons by simp_all
      have step: "fp_loop ns (int y) m seen st path (int (length ps)) = fp_loop ns (int y) m seen st' path (int (length ps'))"
        by (subst fp_loop.simps) (simp add: Cons True ps Let_def)
      have fi: "fp_inv ns x y seen st' ps' V"
        unfolding fp_inv_def
      proof (intro conjI)
        show "ns_inv seen" "\<forall>v \<in> set (ns_elems seen). nat v < length ns"
          "\<forall>a \<in> V. a \<noteq> y \<and> (\<forall>c. (a, c) \<in> edges ns \<longrightarrow> int c \<in> set (ns_elems seen))"
          by (rule F(1), rule F(2), rule F(7))
        show "fp_stack (edges ns) x ps' st'" using cs(2) v(2) by simp
        show "\<forall>v \<in> set st'. 0 \<le> v \<longrightarrow> v = int x \<or> v \<in> set (ns_elems seen)" using F(5) Cons by simp
        show "fp_path (edges ns) x ps'" using F(3) ps by (cases ps') auto
        show "\<forall>u. u = int x \<or> u \<in> set (ns_elems seen) \<longrightarrow> u \<in> set st' \<or> u \<in> int ` V"
        proof (intro allI impI)
          fix u assume u: "u = int x \<or> u \<in> set (ns_elems seen)"
          then have "0 \<le> u" using ns.nonneg_law [OF F(1)] by auto
          then show "u \<in> set st' \<or> u \<in> int ` V" using F(6) u Cons True by auto
        qed
      qed
      have me: "fp_measure ns seen st' < fp_measure ns seen st" by (simp add: fp_measure_def Cons)
      have pa: "\<forall>k < length ps'. int k < m \<longrightarrow> path ! k = MakeId (int (rev ps' ! k)) (version (ns ! (rev ps' ! k)))"
        using less.prems(3) ps by (auto simp: nth_append)
      show ?thesis unfolding step by (rule less.hyps [OF me fi less.prems(2) pa])
    next
      case False
      define a where "a = nat v"
      have v: "v = int a" using False by (simp add: a_def)
      have "v = int x \<or> v \<in> set (ns_elems seen)" using F(5) Cons False by simp
      then have al: "a < length ns"
      proof
        assume "v = int x"
        then show ?thesis using xy(1) by (simp add: a_def)
      next
        assume "v \<in> set (ns_elems seen)"
        then show ?thesis using F(2) by (simp add: a_def)
      qed
      have path_a: "fp_path (edges ns) x (a # ps)"
      proof (cases ps)
        case Nil
        then show ?thesis using F(4) Cons v by auto
      next
        case (Cons p ps')
        then obtain cs rest where cs: "st = map int cs @ - 1 # rest" "\<forall>c \<in> set cs. (p, c) \<in> edges ns" using F(4) by auto
        then have "a \<in> set cs" using \<open>st = v # st'\<close> v by (cases cs) auto
        then show ?thesis using cs(2) F(3) Cons by simp
      qed
      have rest_a: "fp_stack (edges ns) x ps st'"
      proof (cases ps)
        case Nil
        then show ?thesis using F(4) Cons by auto
      next
        case (Cons p ps')
        then obtain cs rest where cs: "st = map int cs @ - 1 # rest" "\<forall>c \<in> set cs. (p, c) \<in> edges ns"
            "fp_stack (edges ns) x ps' rest" using F(4) by auto
        then obtain c cs' where "cs = c # cs'" using \<open>st = v # st'\<close> v by (cases cs) auto
        then show ?thesis using cs Cons \<open>st = v # st'\<close> by auto
      qed
      define path1 where "path1 = (if int (length ps) < m then path[length ps := MakeId v (version (ns ! a))] else path)"
      have l1: "length path1 = length path" by (simp add: path1_def)
      have p1: "\<forall>k < length (a # ps). int k < m \<longrightarrow> path1 ! k = MakeId (int (rev (a # ps) ! k)) (version (ns ! (rev (a # ps) ! k)))"
      proof (intro allI impI)
        fix k assume k: "k < length (a # ps)" "int k < m"
        show "path1 ! k = MakeId (int (rev (a # ps) ! k)) (version (ns ! (rev (a # ps) ! k)))"
        proof (cases "k = length ps")
          case True
          then have "length ps < length path" using k(2) less.prems(2) by simp
          then show ?thesis using True k(2) v by (simp add: path1_def nth_append)
        next
          case False
          then have "k < length ps" using k(1) by simp
          then show ?thesis using less.prems(3) k(2) False by (simp add: path1_def nth_append)
        qed
      qed
      have step: "fp_loop ns (int y) m seen st path (int (length ps)) =
          (if a = y then Some (int (length (a # ps)), path1)
           else do {
             (seen, st) \<leftarrow> fp_push (ns_elems (out_set (ns ! a))) seen (- 1 # st');
             fp_loop ns (int y) m seen st path1 (int (length (a # ps)))
           })"
        by (subst fp_loop.simps) (simp add: Cons v Let_def path1_def add.commute cong: if_cong)
      have xa: "(x, b) \<in> (edges ns)\<^sup>*" if "fp_path (edges ns) x (b # bs)" for b bs
        using that by (induction "edges ns" x "b # bs" arbitrary: b bs rule: fp_path.induct) (auto intro: rtrancl_into_rtrancl)
      show ?thesis
      proof (cases "a = y")
        case True
        then have "fp_loop ns (int y) m seen st path (int (length ps)) = Some (int (length (a # ps)), path1)"
          using step by simp
        moreover have "fp_result ns x y m path (int (length (a # ps))) path1"
          unfolding fp_result_def using l1 p1 path_a True xa [OF path_a] by (auto intro!: exI [of _ "a # ps"])
        ultimately show ?thesis by blast
      next
        case ay: False
        let ?ws = "ns_elems (out_set (ns ! a))"
        have ws: "\<forall>w \<in> set ?ws. 0 \<le> w \<and> nat w < length ns" by (rule set_range(4) [OF I(1) al])
        have ew: "(a, c) \<in> edges ns \<longleftrightarrow> int c \<in> set ?ws" for c using al by (simp add: edges_def)
        obtain seen1 new where P: "fp_push ?ws seen (- 1 # st') = Some (seen1, new @ - 1 # st')" "ns_inv seen1" "distinct new"
            "set (ns_elems seen1) = set (ns_elems seen) \<union> set ?ws" "set new = set ?ws - set (ns_elems seen)"
          using fp_push_spec [OF F(1), of ?ws "- 1 # st'"] ws by blast
        define st1 where "st1 = new @ - 1 # st'"
        have step1: "fp_loop ns (int y) m seen st path (int (length ps)) = fp_loop ns (int y) m seen1 st1 path1 (int (length (a # ps)))"
          using step ay P(1) by (simp add: st1_def)
        have new: "0 \<le> w \<and> nat w < length ns \<and> (a, nat w) \<in> edges ns" if "w \<in> set new" for w
          using that P(5) ws ew by auto
        have fi: "fp_inv ns x y seen1 st1 (a # ps) (insert a V)"
          unfolding fp_inv_def
        proof (intro conjI)
          show "ns_inv seen1" by (rule P(2))
          show "\<forall>v \<in> set (ns_elems seen1). nat v < length ns" using F(2) ws P(4) by auto
          show "fp_path (edges ns) x (a # ps)" by (rule path_a)
          have "new = map int (map nat new)" using new by (simp add: map_idI)
          then show "fp_stack (edges ns) x (a # ps) st1" using rest_a new
            unfolding st1_def fp_stack.simps by (intro exI [of _ "map nat new"] exI [of _ st']) auto
          show "\<forall>v \<in> set st1. 0 \<le> v \<longrightarrow> v = int x \<or> v \<in> set (ns_elems seen1)"
            using F(5) Cons P(4,5) by (auto simp: st1_def)
          show "\<forall>u. u = int x \<or> u \<in> set (ns_elems seen1) \<longrightarrow> u \<in> set st1 \<or> u \<in> int ` insert a V"
          proof (intro allI impI)
            fix u assume "u = int x \<or> u \<in> set (ns_elems seen1)"
            then consider "u \<in> set new" | "u = int x \<or> u \<in> set (ns_elems seen)" using P(4,5) by blast
            then show "u \<in> set st1 \<or> u \<in> int ` insert a V"
            proof cases
              case 1
              then show ?thesis by (simp add: st1_def)
            next
              case 2
              then have "u \<in> set st \<or> u \<in> int ` V" using F(6) by blast
              then show ?thesis using Cons v by (auto simp: st1_def)
            qed
          qed
          show "\<forall>b \<in> insert a V. b \<noteq> y \<and> (\<forall>c. (b, c) \<in> edges ns \<longrightarrow> int c \<in> set (ns_elems seen1))"
            using F(7) ay ew P(4) by auto
        qed
        have me: "fp_measure ns seen1 st1 < fp_measure ns seen st"
        proof -
          let ?U = "{..<length ns} - nat ` set (ns_elems seen)" and ?U1 = "{..<length ns} - nat ` set (ns_elems seen1)"
          have inj: "inj_on nat (set new)" using new by (intro inj_onI) (metis int_nat_eq)
          have disj: "nat w \<notin> nat ` set (ns_elems seen)" if "w \<in> set new" for w
          proof
            assume "nat w \<in> nat ` set (ns_elems seen)"
            then obtain u where "u \<in> set (ns_elems seen)" "nat w = nat u" by blast
            then have "w = u" using new [OF that] ns.nonneg_law [OF F(1)] by (metis int_nat_eq)
            then show False using that P(5) \<open>u \<in> set (ns_elems seen)\<close> by blast
          qed
          have sub: "nat ` set new \<subseteq> ?U" using new disj by auto
          have "nat ` set (ns_elems seen1) = nat ` set (ns_elems seen) \<union> nat ` set new" using P(4,5) by auto
          then have "?U1 = ?U - nat ` set new" by blast
          then have "card ?U1 = card ?U - length new"
            using card_Diff_subset [OF _ sub] inj P(3) by (simp add: card_image distinct_card)
          moreover have "length new \<le> card ?U"
            using card_mono [OF _ sub] inj P(3) by (simp add: card_image distinct_card)
          moreover have "sum_list (map (\<lambda>v. if v < 0 then 1 else 2) new) = 2 * length new"
          proof -
            have "\<not> w < 0" if "w \<in> set new" for w using new [OF that] by simp
            then have m: "map (\<lambda>v. if v < 0 then 1 else (2::nat)) new = map (\<lambda>_. 2) new" by (intro map_cong) simp_all
            show ?thesis unfolding m by (simp add: sum_list_triv)
          qed
          moreover have "\<not> v < 0" using v by simp
          ultimately show ?thesis by (simp add: fp_measure_def Cons st1_def)
        qed
        have "\<exists>n path'. fp_loop ns (int y) m seen1 st1 path1 (int (length (a # ps))) = Some (n, path') \<and>
            fp_result ns x y m path1 n path'"
          by (rule less.hyps [OF me fi _ p1]) (simp add: l1 less.prems(2))
        then show ?thesis using step1 l1 by (simp add: fp_result_def)
      qed
    qed
  qed
qed

lemma fp_inv_start: "fp_inv ns x y ns_empty [int x] [] {}"
  using ns.empty_law by (simp add: fp_inv_def)

lemma fp_path_length:
  assumes inv: "graph_inv ns" and x: "x < length ns" and p: "fp_path (edges ns) x ps"
  shows "distinct ps" "length ps \<le> length ns"
proof -
  note I = graph_invD [OF inv]
  have s: "sorted_wrt (\<lambda>a b. rank (ns ! b) < rank (ns ! a)) ps" by (rule fp_path_ranks [OF I(4) p])
  show d: "distinct ps" using s by (induction ps) auto
  have "set ps \<subseteq> {..<length ns}" using p
  proof (induction ps)
    case (Cons q qs)
    show ?case
    proof (cases qs)
      case Nil
      then show ?thesis using Cons.prems x by simp
    next
      case (Cons q' qs')
      then have "(q', q) \<in> edges ns" using \<open>fp_path (edges ns) x (q # qs)\<close> by simp
      then have "q < length ns" using edges_range [OF I(1)] by blast
      then show ?thesis using Cons.IH Cons.prems Cons by simp
    qed
  qed simp
  then have "card (set ps) \<le> card {..<length ns}" by (intro card_mono) simp_all
  then show "length ps \<le> length ns" using d by (simp add: distinct_card)
qed

lemma FindPath_spec:
  assumes inv: "graph_inv (nodes g)"
    and fx: "FindNode g idx = Some (Some nx)" and fy: "FindNode g idy = Some (Some ny)"
    and x: "x = nat (NodeIndex idx)" and y: "y = nat (NodeIndex idy)" and m: "m \<le> int (length path)"
  shows "\<exists>n path'. FindPath g idx idy m path = Some (n, path') \<and> fp_result (nodes g) x y m path n path'"
proof -
  have X: "NodeIndex idx = int x" "x < length (nodes g)" and Y: "NodeIndex idy = int y" "y < length (nodes g)"
    using FindNode_live [OF fx] FindNode_live [OF fy] x y by simp_all
  show ?thesis
    using fp_loop_spec [OF inv X(2) Y(2) fp_inv_start m] by (simp add: FindPath_def fx fy X(1) Y(1))
qed

lemma IsReachable_spec:
  assumes inv: "graph_inv (nodes g)"
    and fx: "FindNode g idx = Some (Some nx)" and fy: "FindNode g idy = Some (Some ny)"
    and x: "x = nat (NodeIndex idx)" and y: "y = nat (NodeIndex idy)"
  shows "IsReachable g idx idy = Some ((x, y) \<in> (edges (nodes g))\<^sup>*)"
proof -
  obtain n path' where F: "FindPath g idx idy 0 [] = Some (n, path')" "fp_result (nodes g) x y 0 [] n path'"
    using FindPath_spec [OF inv fx fy x y, of 0 "[]"] by auto
  have "n > 0 \<longleftrightarrow> (x, y) \<in> (edges (nodes g))\<^sup>*"
    using F(2) unfolding fp_result_def by (cases "(x, y) \<in> (edges (nodes g))\<^sup>*") auto
  then show ?thesis using F(1) by (simp add: IsReachable_def)
qed

lemma fp_path_last: "fp_path E x ps \<Longrightarrow> ps \<noteq> [] \<Longrightarrow> last ps = x"
proof (induction ps)
  case (Cons p ps)
  then show ?case by (cases ps) auto
qed simp

lemma fp_path_rev: "fp_path E x ps \<Longrightarrow> Suc k < length ps \<Longrightarrow> (rev ps ! k, rev ps ! Suc k) \<in> E"
proof (induction ps)
  case (Cons p ps)
  then obtain q qs where ps: "ps = q # qs" by (cases ps) auto
  then have e: "(q, p) \<in> E" "fp_path E x ps" using Cons.prems(1) by simp_all
  show ?case
  proof (cases "Suc k < length ps")
    case True
    then show ?thesis using Cons.IH [OF e(2)] by (simp add: nth_append)
  next
    case False
    then have k: "Suc k = length ps" using Cons.prems(2) by simp
    then have "rev ps ! k = q" "k = length qs" using ps by (simp_all add: nth_append)
    then show ?thesis using e(1) k ps by (simp add: nth_append)
  qed
qed simp

section \<open>CheckInvariants\<close>

datatype check_failure = Not_found nat | Marker_set nat | Duplicate_rank int | Bad_edge nat int

fun check_out :: "node list \<Rightarrow> nat \<Rightarrow> int list \<Rightarrow> check_failure option" where
  "check_out ns x [] = None"
| "check_out ns x (y # ys) =
     (if rank (ns ! x) \<ge> rank (ns ! nat y) then Some (Bad_edge x y) else check_out ns x ys)"

text \<open>The inner \<open>None\<close> is the result true, \<open>Some\<close> a fatal message.\<close>

fun check_nodes :: "rep \<Rightarrow> nat list \<Rightarrow> node_set \<Rightarrow> check_failure option option" where
  "check_nodes g [] ranks = Some None"
| "check_nodes g (x # xs) ranks =
     (let nx = nodes g ! x; ptr = unhide_ptr (masked_ptr nx) in do {
        i \<leftarrow> (if ptr \<noteq> 0 then PM_Find g ptr else Some (int x));
        if i \<noteq> int x then Some (Some (Not_found x))
        else if visited nx then Some (Some (Marker_set x))
        else do {
          (fresh, ranks) \<leftarrow> ns_insert ranks (rank nx);
          if \<not> fresh then Some (Some (Duplicate_rank (rank nx)))
          else case check_out (nodes g) x (ns_elems (out_set nx)) of
            Some e \<Rightarrow> Some (Some e)
          | None \<Rightarrow> check_nodes g xs ranks
        }
      })"

definition CheckInvariants :: "rep \<Rightarrow> check_failure option option" where
  "CheckInvariants g = check_nodes g [0..<length (nodes g)] ns_empty"

lemma check_out_ok: "\<forall>y \<in> set ys. rank (ns ! x) < rank (ns ! nat y) \<Longrightarrow> check_out ns x ys = None"
  by (induction ys) auto

lemma check_nodes_ok:
  assumes g: "gc_inv g"
  shows "ns_inv ranks \<Longrightarrow> set xs \<subseteq> {..<length (nodes g)} \<Longrightarrow> distinct xs \<Longrightarrow>
    set (ns_elems ranks) \<inter> (\<lambda>x. rank (nodes g ! x)) ` set xs = {} \<Longrightarrow> check_nodes g xs ranks = Some None"
proof (induction xs arbitrary: ranks)
  case Nil
  then show ?case by simp
next
  case (Cons x xs)
  let ?nx = "nodes g ! x"
  note I = graph_invD [OF gc_invD(1) [OF g]]
  have x: "x < length (nodes g)" using Cons.prems(2) by simp
  obtain cs where c: "chains_of g cs" using gc_invD(2) [OF g] by (auto simp: pm_inv_def)
  have find: "PM_Find g (unhide_ptr (masked_ptr ?nx)) = Some (int x)" if "unhide_ptr (masked_ptr ?nx) \<noteq> 0"
  proof -
    have "x \<in> ran (pmap g)"
    proof (rule ccontr)
      assume "x \<notin> ran (pmap g)"
      then have "masked_ptr ?nx = hide_ptr 0" using gc_invD(4) [OF g] x by (simp add: versions_inv_def)
      then show False using that by simp
    qed
    then obtain p where p: "pmap g p = Some x" by (auto simp: ran_def)
    then have "unhide_ptr (masked_ptr ?nx) = p" using pmap_facts(2) [OF gc_invD(2) [OF g] p] by simp
    then show ?thesis using PM_Find_iff(1) [OF c, of p] p by simp
  qed
  have r0: "0 \<le> rank ?nx"
  proof -
    have "rank ?nx \<in> set (map rank (nodes g))" using x by simp
    then show ?thesis unfolding I(3) by auto
  qed
  have fresh: "rank ?nx \<notin> set (ns_elems ranks)" using Cons.prems(4) by auto
  obtain ranks' where ins: "ns_insert ranks (rank ?nx) = Some (True, ranks')" "ns_inv ranks'"
      "set (ns_elems ranks') = insert (rank ?nx) (set (ns_elems ranks))"
    using ns.insert_law [OF Cons.prems(1) r0] fresh by auto
  have "\<forall>y \<in> set (ns_elems (out_set ?nx)). rank ?nx < rank (nodes g ! nat y)"
  proof
    fix y assume y: "y \<in> set (ns_elems (out_set ?nx))"
    then have "int (nat y) = y" using set_range(4) [OF I(1) x] by simp
    then have "(x, nat y) \<in> edges (nodes g)" using x y by (simp add: edges_def)
    then show "rank ?nx < rank (nodes g ! nat y)" by (rule I(4))
  qed
  then have out: "check_out (nodes g) x (ns_elems (out_set ?nx)) = None" by (rule check_out_ok)
  have "rank ?nx \<notin> (\<lambda>x. rank (nodes g ! x)) ` set xs"
  proof
    assume "rank ?nx \<in> (\<lambda>x. rank (nodes g ! x)) ` set xs"
    then obtain z where z: "z \<in> set xs" "rank ?nx = rank (nodes g ! z)" by blast
    then have "x = z" using rank_inj [OF I(2) x] Cons.prems(2) by auto
    then show False using z(1) Cons.prems(3) by simp
  qed
  then have "check_nodes g xs ranks' = Some None"
    using Cons.IH [OF ins(2)] Cons.prems(2-4) ins(3) by auto
  then show ?case
    using find I(5) [OF x] ins(1) out by (simp add: Let_def)
qed

section \<open>Stack traces\<close>

text \<open>
  The callback fills the array it is given and returns the depth: it is the list of the frames it
  stored, at most as many as the array has cells (40).
\<close>

definition UpdateStackTrace :: "rep \<Rightarrow> graph_id \<Rightarrow> int \<Rightarrow> (nat \<Rightarrow> u64 list) \<Rightarrow> rep option" where
  "UpdateStackTrace g gid prio get_stack_trace = do {
     n \<leftarrow> FindNode g gid;
     case n of None \<Rightarrow> Some g
     | Some n \<Rightarrow>
         if priority n \<ge> prio then Some g
         else Some (upd_node g (NodeIndex gid) (\<lambda>n. n\<lparr>stack := get_stack_trace 40, priority := prio\<rparr>))
   }"

definition GetStackTrace :: "rep \<Rightarrow> graph_id \<Rightarrow> u64 list option" where
  "GetStackTrace g gid = do {
     n \<leftarrow> FindNode g gid;
     Some (case n of None \<Rightarrow> [] | Some n \<Rightarrow> stack n)
   }"

lemma gc_inv_fields:
  assumes g: "gc_inv g" and l: "length ns = length (nodes g)"
    and m: "map rank ns = map rank (nodes g)" "map visited ns = map visited (nodes g)"
      "map in_set ns = map in_set (nodes g)" "map out_set ns = map out_set (nodes g)"
      "map version ns = map version (nodes g)" "map next_hash ns = map next_hash (nodes g)"
      "map masked_ptr ns = map masked_ptr (nodes g)"
  shows "gc_inv (g\<lparr>nodes := ns\<rparr>)" "pmap (g\<lparr>nodes := ns\<rparr>) = pmap g" "edges ns = edges (nodes g)"
proof -
  let ?g = "g\<lparr>nodes := ns\<rparr>"
  have f: "version (ns ! i) = version (nodes g ! i)" "next_hash (ns ! i) = next_hash (nodes g ! i)"
      "masked_ptr (ns ! i) = masked_ptr (nodes g ! i)" if "i < length (nodes g)" for i
    using that l m(5-7) by (metis nth_map)+
  obtain cs where c: "chains_of g cs" using gc_invD(2) [OF g] by (auto simp: pm_inv_def)
  have "next_hash (nodes ?g ! i) = next_hash (nodes g ! i) \<and> masked_ptr (nodes ?g ! i) = masked_ptr (nodes g ! i)"
    if "i \<in> ran (pmap g)" for i
    using that f(2,3) pmap_facts(1) [OF gc_invD(2) [OF g]] by (auto simp: ran_def)
  then have P: "chains_of ?g cs" "pmap ?g = pmap g" using chains_of_cong [OF c, of ?g] l by simp_all
  note G = graph_inv_cong [OF l m(1-4)]
  have "free_inv ?g" using gc_invD(3) [OF g] by (simp add: free_inv_def P(2) G(2) l)
  moreover have "versions_inv ?g" using gc_invD(4) [OF g] f(1,3) by (simp add: versions_inv_def P(2) l)
  ultimately show "gc_inv ?g" using G(1) gc_invD(1) [OF g] P(1) by (auto simp: gc_inv_def pm_inv_def)
  show "pmap ?g = pmap g" by (rule P(2))
  show "edges ns = edges (nodes g)" by (rule G(2))
qed

lemma UpdateStackTrace_spec:
  assumes g: "gc_inv g" and f: "FindNode g gid = Some (Some n)"
  shows "\<exists>g'. UpdateStackTrace g gid prio get = Some g' \<and> gc_inv g' \<and> abs_graph g' = abs_graph g \<and>
     GetStackTrace g' gid = Some (if priority n \<ge> prio then stack n else get 40)"
proof (cases "priority n \<ge> prio")
  case True
  then show ?thesis using g f by (simp add: UpdateStackTrace_def GetStackTrace_def)
next
  case False
  define i where "i = nat (NodeIndex gid)"
  have i: "NodeIndex gid = int i" "i < length (nodes g)" "n = nodes g ! i" "version n = NodeVersion gid"
    using FindNode_live [OF f] by (simp_all add: i_def)
  define ns where "ns = (nodes g)[i := n\<lparr>stack := get 40, priority := prio\<rparr>]"
  have U: "UpdateStackTrace g gid prio get = Some (g\<lparr>nodes := ns\<rparr>)"
    using False by (simp add: UpdateStackTrace_def f upd_node_def ns_def i(1) i(3) [symmetric])
  have l: "length ns = length (nodes g)" by (simp add: ns_def)
  have m: "map rank ns = map rank (nodes g)" "map visited ns = map visited (nodes g)"
      "map in_set ns = map in_set (nodes g)" "map out_set ns = map out_set (nodes g)"
      "map version ns = map version (nodes g)" "map next_hash ns = map next_hash (nodes g)"
      "map masked_ptr ns = map masked_ptr (nodes g)"
    unfolding ns_def by (rule map_upd_same; simp add: i(3))+
  note G = gc_inv_fields [OF g l m]
  have "abs_graph (g\<lparr>nodes := ns\<rparr>) = abs_graph g" by (simp add: abs_graph_def abs_edges_def G(2,3))
  moreover have "GetStackTrace (g\<lparr>nodes := ns\<rparr>) gid = Some (get 40)"
    using i(2,4) by (simp add: GetStackTrace_def FindNode_def i(1) Let_def ns_def)
  ultimately show ?thesis using U G(1) False by simp
qed

section \<open>Properties\<close>

lemma abs_acyclic:
  assumes "gc_inv g"
  shows "acyclic (abs_edges g)"
proof (rule acyclicI, rule allI, rule notI)
  fix p assume "(p, p) \<in> (abs_edges g)\<^sup>+"
  then obtain q where q: "(p, q) \<in> abs_edges g" "(q, p) \<in> (abs_edges g)\<^sup>*" by (meson tranclD)
  then obtain i j where ij: "pmap g p = Some i" "pmap g q = Some j" "(i, j) \<in> edges (nodes g)"
    by (auto simp: abs_edges_def)
  have "(j, i) \<in> (edges (nodes g))\<^sup>*" using abs_reach_iff [OF assms ij(2,1)] q(2) by simp
  then show False
    using ranks_up_rtrancl [of "edges (nodes g)" "\<lambda>i. rank (nodes g ! i)" j i]
      graph_invD(4) [OF gc_invD(1) [OF assms]] ij(3) by fastforce
qed

text \<open>
  C1. The lock graph refines a directed graph on pointers: from the empty graph on, every sequence of
  \<open>GetId\<close>, \<open>RemoveNode\<close>, \<open>InsertEdge\<close>, \<open>RemoveEdge\<close> and \<open>HasEdge\<close> ends and answers what the
  mathematical graph answers, where an edge is refused exactly when its target already reaches its
  source; so the graph stays acyclic. (Bounded by the number of nodes an \<open>int32_t\<close> can index.)
\<close>

theorem lock_graph_refines:
  assumes "2 * length ops < 2 ^ 31"
  shows "\<exists>g. lock_run ops new_graph = Some (fst (spec_run ops ({}, {})), g) \<and>
     abs_graph g = snd (spec_run ops ({}, {})) \<and> acyclic (snd (abs_graph g))"
proof -
  have "length (nodes new_graph) + 2 * length ops < 2 ^ 31" using assms by (simp add: new_graph_def)
  moreover have "abs_graph new_graph = ({}, {})"
    by (simp add: abs_graph_def gc_inv_new(2) abs_edges_def)
  ultimately obtain g where "lock_run ops new_graph = Some (fst (spec_run ops ({}, {})), g)" "gc_inv g"
      "abs_graph g = snd (spec_run ops ({}, {}))"
    using lock_run_refines [OF gc_inv_new(1)] by metis
  then show ?thesis using abs_acyclic by (auto simp: abs_graph_def)
qed

theorem lock_graph_refines_witness:
  "\<exists>g. lock_run [Link 1 2, Link 2 3, Link 3 1, Drop 2, Link 3 1, Ask 1 2] new_graph =
       Some (fst (spec_run [Link 1 2, Link 2 3, Link 3 1, Drop 2, Link 3 1, Ask 1 2] ({}, {})), g) \<and>
     abs_graph g = snd (spec_run [Link 1 2, Link 2 3, Link 3 1, Drop 2, Link 3 1, Ask 1 2] ({}, {})) \<and>
     acyclic (snd (abs_graph g))"
  by (rule lock_graph_refines) simp

text \<open>
  C2. \<open>InsertEdge\<close> on two live nodes returns false exactly when the target already reaches the source
  (a self edge included); then the edges are as before, else the edge is added. In both cases the
  whole invariant holds again: ranks are a permutation that every edge climbs, markers are clear.
\<close>

theorem insert_edge_detects_cycles:
  assumes "gc_inv g" "pmap g p = Some i" "pmap g q = Some j"
    and "FindNode g x = Some (Some nx)" "NodeIndex x = int i"
    and "FindNode g y = Some (Some ny)" "NodeIndex y = int j"
  shows "\<exists>g'. InsertEdge g x y = Some ((j, i) \<notin> (edges (nodes g))\<^sup>*, g') \<and> gc_inv g' \<and> pmap g' = pmap g \<and>
     edges (nodes g') = (if (j, i) \<in> (edges (nodes g))\<^sup>* then edges (nodes g) else insert (i, j) (edges (nodes g)))"
proof -
  obtain g' where S: "InsertEdge g x y = Some ((j, i) \<notin> (edges (nodes g))\<^sup>*, g')" "graph_inv (nodes g')" "same_table g g'"
     "edges (nodes g') = (if (j, i) \<in> (edges (nodes g))\<^sup>* then edges (nodes g) else insert (i, j) (edges (nodes g)))"
    using InsertEdge_spec [OF gc_invD(1) [OF assms(1)] assms(4,6), of i j] assms(5,7) by auto
  have "edges (nodes g') \<subseteq> insert (i, j) (edges (nodes g))" using S(4) by auto
  moreover have "i \<in> ran (pmap g)" "j \<in> ran (pmap g)" using assms(2,3) by (auto intro: ranI)
  ultimately have "gc_inv g'" "pmap g' = pmap g" using gc_inv_same_table [OF assms(1) S(3,2)] by blast+
  then show ?thesis using S by blast
qed

theorem insert_edge_detects_cycles_witness:
  "\<exists>g x y i j g'. GetId2 new_graph 1 2 = Some (x, y, g) \<and> NodeIndex x = int i \<and> NodeIndex y = int j \<and>
     InsertEdge g x y = Some ((j, i) \<notin> (edges (nodes g))\<^sup>*, g') \<and> gc_inv g' \<and> pmap g' = pmap g"
proof -
  have "length (nodes new_graph) + 2 < 2 ^ 31" by (simp add: new_graph_def)
  then obtain x y g i j where G: "GetId2 new_graph 1 2 = Some (x, y, g)" "gc_inv g"
     "FindNode g x = Some (Some (nodes g ! i))" "NodeIndex x = int i" "pmap g 1 = Some i"
     "FindNode g y = Some (Some (nodes g ! j))" "NodeIndex y = int j" "pmap g 2 = Some j"
    using GetId2_spec [OF gc_inv_new(1), of 1 2] by blast
  show ?thesis using insert_edge_detects_cycles [OF G(2,5,8,3,4,6,7)] G(1,4,7) by blast
qed

text \<open>
  \<open>FindPath\<close> between live nodes ends, and returns 0 exactly when there is no path; otherwise it
  returns the number of nodes of a path from the first to the second node without repetitions, and
  the first \<open>max_path_len\<close> ids of it are in the array. \<open>IsReachable\<close> decides reachability.
\<close>

theorem find_path_sound_complete:
  assumes "gc_inv g" "FindNode g idx = Some (Some nx)" "FindNode g idy = Some (Some ny)"
    and "NodeIndex idx = int x" "NodeIndex idy = int y" "m \<le> int (length path)"
  shows "\<exists>n path'. FindPath g idx idy m path = Some (n, path') \<and> length path' = length path \<and>
     IsReachable g idx idy = Some ((x, y) \<in> (edges (nodes g))\<^sup>*) \<and>
     (if (x, y) \<in> (edges (nodes g))\<^sup>* then
        \<exists>ps. ps \<noteq> [] \<and> hd ps = x \<and> last ps = y \<and> distinct ps \<and> n = int (length ps) \<and> n \<le> int (length (nodes g)) \<and>
          (\<forall>k. Suc k < length ps \<longrightarrow> (ps ! k, ps ! Suc k) \<in> edges (nodes g)) \<and>
          (\<forall>k < length ps. int k < m \<longrightarrow> path' ! k = MakeId (int (ps ! k)) (version (nodes g ! (ps ! k))))
      else n = 0)"
proof -
  have inv: "graph_inv (nodes g)" by (rule gc_invD(1) [OF assms(1)])
  obtain n path' where F: "FindPath g idx idy m path = Some (n, path')" "fp_result (nodes g) x y m path n path'"
    using FindPath_spec [OF inv assms(2,3), of x y m path] assms(4-6) by auto
  have x: "x < length (nodes g)" using FindNode_live(2) [OF assms(2)] assms(4) by simp
  have "\<exists>ps. ps \<noteq> [] \<and> hd ps = x \<and> last ps = y \<and> distinct ps \<and> n = int (length ps) \<and> n \<le> int (length (nodes g)) \<and>
          (\<forall>k. Suc k < length ps \<longrightarrow> (ps ! k, ps ! Suc k) \<in> edges (nodes g)) \<and>
          (\<forall>k < length ps. int k < m \<longrightarrow> path' ! k = MakeId (int (ps ! k)) (version (nodes g ! (ps ! k))))"
    if r: "(x, y) \<in> (edges (nodes g))\<^sup>*"
  proof -
    obtain ps where ps: "fp_path (edges (nodes g)) x ps" "ps \<noteq> []" "hd ps = y" "n = int (length ps)"
        "\<forall>k < length ps. int k < m \<longrightarrow> path' ! k = MakeId (int (rev ps ! k)) (version (nodes g ! (rev ps ! k)))"
      using F(2) r unfolding fp_result_def by auto
    show ?thesis
      using ps fp_path_last [OF ps(1,2)] fp_path_length [OF inv x ps(1)] fp_path_rev [OF ps(1)]
      by (intro exI [of _ "rev ps"]) (simp add: hd_rev last_rev)
  qed
  moreover have "length path' = length path" "(x, y) \<notin> (edges (nodes g))\<^sup>* \<longrightarrow> n = 0"
    using F(2) unfolding fp_result_def by auto
  moreover have "IsReachable g idx idy = Some ((x, y) \<in> (edges (nodes g))\<^sup>*)"
    using IsReachable_spec [OF inv assms(2,3), of x y] assms(4,5) by simp
  ultimately show ?thesis using F(1) by simp
qed

theorem find_path_sound_complete_witness:
  "\<exists>g p q i j n path'. GetId2 new_graph 1 2 = Some (p, q, g) \<and> NodeIndex p = int i \<and> NodeIndex q = int j \<and>
     FindPath g p q 3 [0, 0, 0] = Some (n, path') \<and> length path' = 3 \<and>
     ((i, j) \<notin> (edges (nodes g))\<^sup>* \<longrightarrow> n = 0)"
proof -
  have "length (nodes new_graph) + 2 < 2 ^ 31" by (simp add: new_graph_def)
  then obtain x y g i j where G: "GetId2 new_graph 1 2 = Some (x, y, g)" "gc_inv g"
     "FindNode g x = Some (Some (nodes g ! i))" "NodeIndex x = int i" "pmap g 1 = Some i"
     "FindNode g y = Some (Some (nodes g ! j))" "NodeIndex y = int j" "pmap g 2 = Some j"
    using GetId2_spec [OF gc_inv_new(1), of 1 2] by blast
  have "(3::int) \<le> int (length [0, 0, 0 :: graph_id])" by simp
  from find_path_sound_complete [OF G(2,3,6,4,7) this] obtain n path' where
    "FindPath g x y 3 [0, 0, 0] = Some (n, path')" "length path' = length [0, 0, 0 :: graph_id]"
    "(i, j) \<notin> (edges (nodes g))\<^sup>* \<longrightarrow> n = 0" by auto
  then show ?thesis using G(1,4,7) by auto
qed

text \<open>
  C8. An id names its node until the node is removed: after \<open>GetId\<close> it is in the graph and stands for its
  pointer; after \<open>RemoveNode\<close> it has expired, unless its version was the last one (\<open>2 ^ 32 - 1\<close>), which the
  code does not advance; the ids of the other nodes stay valid. No id is the invalid one.
\<close>

theorem removed_id_expires:
  assumes "gc_inv g" "length (nodes g) + 1 < 2 ^ 31" "GetId g p = Some (x, g1)" "RemoveNode g1 p = Some g2"
  shows "HasNode g1 x = Some True \<and> gc_Ptr g1 x = Some p \<and> x \<noteq> InvalidGraphId \<and>
     HasNode g2 x = Some (NodeVersion x = - 1) \<and> gc_Ptr g2 x = Some 0 \<and>
     (\<forall>q j. q \<noteq> p \<and> pmap g q = Some j \<longrightarrow> gc_Ptr g2 (MakeId (int j) (version (nodes g ! j))) = Some q)"
proof -
  obtain i where 1: "id_result g p i x g1" "pmap g p = None \<or> pmap g p = Some i \<and> g1 = g"
    using GetId_spec [OF assms(1), of p] assms(3) by auto
  have R: "gc_inv g1" "x = MakeId (int i) (version (nodes g1 ! i))" "pmap g1 = (pmap g)(p \<mapsto> i)" "i < length (nodes g1)"
      "length (nodes g) \<le> length (nodes g1)" "length (nodes g1) \<le> length (nodes g) + 1"
      "\<forall>j < length (nodes g). version (nodes g1 ! j) = version (nodes g ! j)"
    using 1(1) by (simp_all add: id_result_def)
  have l1: "length (nodes g1) < 2 ^ 31" using R(6) assms(2) by simp
  have pi: "pmap g1 p = Some i" by (simp add: R(3))
  have N1: "FindNode g1 x = Some (Some (nodes g1 ! i))" using FindNode_MakeId(1) [OF R(4) l1] R(2) by simp
  have m1: "masked_ptr (nodes g1 ! i) = hide_ptr p" by (rule pmap_facts(2) [OF gc_invD(2) [OF R(1)] pi])
  have v0: "version (nodes g1 ! i) \<noteq> 0" using gc_invD(4) [OF R(1)] R(4) by (simp add: versions_inv_def)
  obtain S: "gc_inv g2" "pmap g2 = (pmap g1)(p := None)" "length (nodes g2) = length (nodes g1)"
      "\<forall>j < length (nodes g1). version (nodes g2 ! j) =
        (if j = i \<and> version (nodes g1 ! i) \<noteq> - 1 then version (nodes g1 ! i) + 1 else version (nodes g1 ! j))"
    using RemoveNode_spec [OF R(1) pi] assms(4) by auto
  have idx: "NodeIndex x = int i" using FindNode_MakeId(2) [OF R(4) l1] R(2) by simp
  have ver: "NodeVersion x = version (nodes g1 ! i)" by (simp add: R(2) NodeVersion_MakeId)
  have N2: "FindNode g2 x = Some (if version (nodes g1 ! i) = - 1 then Some (nodes g2 ! i) else None)"
    using S(3,4) R(4) by (simp add: FindNode_def idx ver Let_def)
  have "i \<notin> ran (pmap g2)"
  proof
    assume "i \<in> ran (pmap g2)"
    then obtain q where "q \<noteq> p" "pmap g1 q = Some i" unfolding S(2) by (auto simp: ran_def split: if_splits)
    then show False using pmap_inj [OF gc_invD(2) [OF R(1)] _ pi] by blast
  qed
  then have m2: "masked_ptr (nodes g2 ! i) = hide_ptr 0" using gc_invD(4) [OF S(1)] R(4) S(3) by (simp add: versions_inv_def)
  have others: "gc_Ptr g2 (MakeId (int j) (version (nodes g ! j))) = Some q" if q: "q \<noteq> p" "pmap g q = Some j" for q j
  proof -
    have q1: "pmap g1 q = Some j" "pmap g2 q = Some j" using q by (simp_all add: R(3) S(2))
    have j: "j < length (nodes g)" by (rule pmap_facts(1) [OF gc_invD(2) [OF assms(1)] q(2)])
    have "j \<noteq> i" using pmap_inj [OF gc_invD(2) [OF R(1)] q1(1), of p] pi q(1) by blast
    then have v: "version (nodes g2 ! j) = version (nodes g ! j)" using S(4) R(5,7) j by simp
    have "FindNode g2 (MakeId (int j) (version (nodes g2 ! j))) = Some (Some (nodes g2 ! j))"
      using FindNode_MakeId(1) [of j g2] j R(5) S(3) l1 by simp
    then show ?thesis using pmap_facts(2) [OF gc_invD(2) [OF S(1)] q1(2)] v by (simp add: gc_Ptr_def)
  qed
  show ?thesis
    using N1 N2 m1 m2 others MakeId_valid [OF v0] ver by (auto simp: HasNode_def gc_Ptr_def R(2))
qed

lemma GetId_new: "GetId new_graph p = Some (MakeId 0 1, PM_Add (new_graph\<lparr>nodes := [fresh_node p 0]\<rparr>) p 0)"
proof -
  obtain cs where c: "chains_of new_graph cs" using gc_invD(2) [OF gc_inv_new(1)] by (auto simp: pm_inv_def)
  have "PM_Find new_graph p = Some (- 1)" using PM_Find_iff(1) [OF c, of p] by (simp add: gc_inv_new(2))
  then show ?thesis by (simp add: GetId_def Let_def new_graph_def fresh_node_def)
qed

theorem removed_id_expires_witness:
  "\<exists>g1 g2. GetId new_graph 7 = Some (MakeId 0 1, g1) \<and> RemoveNode g1 7 = Some g2 \<and>
     HasNode g1 (MakeId 0 1) = Some True \<and> HasNode g2 (MakeId 0 1) = Some False"
proof -
  obtain x g1 i where G: "GetId new_graph 7 = Some (x, g1)" "id_result new_graph 7 i x g1"
    using GetId_spec [OF gc_inv_new(1)] by blast
  have x: "x = MakeId 0 1" using G(1) GetId_new [of 7] by simp
  have "gc_inv g1" "pmap g1 7 = Some i" using G(2) by (simp_all add: id_result_def)
  then obtain g2 where R: "RemoveNode g1 7 = Some g2" using RemoveNode_spec by blast
  have l: "length (nodes new_graph) + 1 < 2 ^ 31" by (simp add: new_graph_def)
  show ?thesis
    using removed_id_expires [OF gc_inv_new(1) l G(1) R] G(1) R by (auto simp: x NodeVersion_MakeId)
qed

text \<open>
  \<open>CheckInvariants\<close> returns true in every state that operations of a client reach: no check of it
  fails, whatever the order of the operations.
\<close>

theorem check_invariants_hold:
  assumes "2 * length ops < 2 ^ 31" "lock_run ops new_graph = Some (answers, g)"
  shows "CheckInvariants g = Some None"
proof -
  have "length (nodes new_graph) + 2 * length ops < 2 ^ 31" using assms(1) by (simp add: new_graph_def)
  then have g: "gc_inv g" using lock_run_refines [OF gc_inv_new(1)] assms(2) by fastforce
  show ?thesis
    unfolding CheckInvariants_def using ns.empty_law by (intro check_nodes_ok [OF g]) auto
qed

theorem check_invariants_hold_witness:
  "\<exists>answers g. lock_run [Link 5 6, Link 6 7, Link 7 5] new_graph = Some (answers, g) \<and> CheckInvariants g = Some None"
proof -
  have l: "length (nodes new_graph) + 2 * length [Link 5 6, Link 6 7, Link 7 5] < 2 ^ 31" by (simp add: new_graph_def)
  obtain g where g: "lock_run [Link 5 6, Link 6 7, Link 7 5] new_graph =
      Some (fst (spec_run [Link 5 6, Link 6 7, Link 7 5] (abs_graph new_graph)), g)"
    using lock_run_refines [OF gc_inv_new(1) l] by blast
  have "2 * length [Link 5 6, Link 6 7, Link 7 5] < 2 ^ 31" by simp
  then show ?thesis using check_invariants_hold [OF _ g] g by blast
qed

end
