(* ===== verification/Node_Set32.thy ===== *)
theory Node_Set32
  imports Node_Set
begin

text \<open>
  The class \<open>NodeSet\<close> of \<open>abel/synchronization/internal/graphcycles.cc\<close> at its machine widths:
  sizes, indices and the count of occupied cells are \<open>uint32_t\<close> and wrap, \<open>deleted_index\<close> and the
  cursor of \<open>Next\<close> are \<open>int\<close>. An access outside the table and a signed overflow are the value
  \<open>None\<close>. The vectors \<open>Vec\<close> are lists; their allocation is not modelled.

  The theory \<open>Node_Set\<close> is the abstraction of this one without widths, which the graph is built on.
  The lemmas \<open>..._sim\<close> show that each operation of the code does what its abstraction does as long
  as the table has at most \<open>2 ^ 30\<close> cells.
\<close>

section \<open>The code\<close>

text \<open>
  The cells are the values of \<open>int32_t\<close>. \<open>size32\<close> is \<open>table_.size()\<close>, \<open>cell32\<close> the access
  \<open>table_[i]\<close>.
\<close>

record node_set32 =
  table32 :: "int list"
  occupied32 :: u32

definition size32 :: "int list \<Rightarrow> u32" where
  "size32 t = of_nat (length t)"

definition cell32 :: "int list \<Rightarrow> u32 \<Rightarrow> int option" where
  "cell32 t i = (if unat i < length t then Some (t ! unat i) else None)"

definition Hash32 :: "u32 \<Rightarrow> u32" where
  "Hash32 a = a * 41"

partial_function (option) find_loop32 :: "int list \<Rightarrow> int \<Rightarrow> u32 \<Rightarrow> u32 \<Rightarrow> int \<Rightarrow> int option" where
  "find_loop32 t v msk i deleted_index = do {
     e \<leftarrow> cell32 t i;
     if v = e then Some (sint i)
     else if e = kEmpty then Some (if deleted_index \<ge> 0 then deleted_index else sint i)
     else find_loop32 t v msk ((i + 1) AND msk)
            (if e = kDel \<and> deleted_index < 0 then sint i else deleted_index)
   }"

definition FindIndex32 :: "int list \<Rightarrow> int \<Rightarrow> int option" where
  "FindIndex32 t v =
     (let msk = size32 t - 1 in find_loop32 t v msk (Hash32 (word_of_int v) AND msk) (- 1))"

definition ns32_Init :: node_set32 where
  "ns32_Init = \<lparr>table32 = replicate kInline kEmpty, occupied32 = 0\<rparr>"

definition ns32_contains :: "node_set32 \<Rightarrow> int \<Rightarrow> bool option" where
  "ns32_contains s v = do {
     i \<leftarrow> FindIndex32 (table32 s) v;
     e \<leftarrow> cell32 (table32 s) (word_of_int i);
     Some (e = v)
   }"

text \<open>\<open>insert\<close>: the store of a value that is not there, and the test of the load.\<close>

definition ns32_put :: "node_set32 \<Rightarrow> u32 \<Rightarrow> int \<Rightarrow> int \<Rightarrow> node_set32" where
  "ns32_put s i e v =
     \<lparr>table32 = (table32 s)[unat i := v],
      occupied32 = (if e = kEmpty then occupied32 s + 1 else occupied32 s)\<rparr>"

definition ns32_loaded :: "node_set32 \<Rightarrow> bool" where
  "ns32_loaded s \<longleftrightarrow> occupied32 s \<ge> size32 (table32 s) - size32 (table32 s) div 4"

text \<open>
  \<open>Grow\<close> inserts the elements of the old table into one of twice the size, which \<open>resize\<close> takes as a
  \<open>uint32_t\<close>. An insertion that reached the load limit there would call \<open>Grow\<close> again: this is
  \<open>None\<close>, and the theorem shows that it does not happen.
\<close>

fun ns32_reinsert :: "node_set32 \<Rightarrow> int list \<Rightarrow> node_set32 option" where
  "ns32_reinsert s [] = Some s"
| "ns32_reinsert s (v # vs) =
     (if v \<ge> 0 then do {
        i \<leftarrow> FindIndex32 (table32 s) v;
        e \<leftarrow> cell32 (table32 s) (word_of_int i);
        let s' = (if e = v then s else ns32_put s (word_of_int i) e v);
        if e \<noteq> v \<and> ns32_loaded s' then None else ns32_reinsert s' vs
      }
      else ns32_reinsert s vs)"

definition ns32_Grow :: "node_set32 \<Rightarrow> node_set32 option" where
  "ns32_Grow s =
     ns32_reinsert \<lparr>table32 = replicate (unat (size32 (table32 s) * 2)) kEmpty, occupied32 = 0\<rparr> (table32 s)"

definition ns32_insert :: "node_set32 \<Rightarrow> int \<Rightarrow> (bool \<times> node_set32) option" where
  "ns32_insert s v = do {
     i \<leftarrow> FindIndex32 (table32 s) v;
     e \<leftarrow> cell32 (table32 s) (word_of_int i);
     if e = v then Some (False, s)
     else do {
       let s = ns32_put s (word_of_int i) e v;
       s \<leftarrow> (if ns32_loaded s then ns32_Grow s else Some s);
       Some (True, s)
     }
   }"

text \<open>\<open>erase\<close> takes a \<open>uint32_t\<close>; the search converts it to \<open>int32_t\<close>.\<close>

definition ns32_erase :: "node_set32 \<Rightarrow> u32 \<Rightarrow> node_set32 option" where
  "ns32_erase s v = do {
     i \<leftarrow> FindIndex32 (table32 s) (sint v);
     e \<leftarrow> cell32 (table32 s) (word_of_int i);
     Some (if word_of_int e = v then s\<lparr>table32 := (table32 s)[unat (word_of_int i :: u32) := kDel]\<rparr> else s)
   }"

text \<open>\<open>Next\<close> with its \<open>int32_t\<close> cursor, whose increment must not overflow, and \<open>HASH_FOR_EACH\<close>.\<close>

partial_function (option) ns32_Next :: "node_set32 \<Rightarrow> int \<Rightarrow> (int \<times> int option) option" where
  "ns32_Next s cursor =
     (if word_of_int cursor < size32 (table32 s) then do {
        v \<leftarrow> cell32 (table32 s) (word_of_int cursor);
        if cursor = 2147483647 then None
        else if v \<ge> 0 then Some (cursor + 1, Some v) else ns32_Next s (cursor + 1)
      }
      else Some (cursor, None))"

partial_function (option) ns32_each :: "node_set32 \<Rightarrow> int \<Rightarrow> int list option" where
  "ns32_each s cursor = do {
     (cursor, elem) \<leftarrow> ns32_Next s cursor;
     case elem of None \<Rightarrow> Some [] | Some v \<Rightarrow> do { vs \<leftarrow> ns32_each s cursor; Some (v # vs) }
   }"

fun ns32_run :: "set_op list \<Rightarrow> node_set32 \<Rightarrow> (bool list \<times> node_set32) option" where
  "ns32_run [] s = Some ([], s)"
| "ns32_run (Insert v # ops) s = do { (b, s) \<leftarrow> ns32_insert s v; (bs, s) \<leftarrow> ns32_run ops s; Some (b # bs, s) }"
| "ns32_run (Erase v # ops) s = do { s \<leftarrow> ns32_erase s (word_of_int v); ns32_run ops s }"
| "ns32_run (Contains v # ops) s = do { b \<leftarrow> ns32_contains s v; (bs, s) \<leftarrow> ns32_run ops s; Some (b # bs, s) }"

section \<open>The simulation\<close>

text \<open>A table whose indices fit \<open>int\<close>, and the correspondence of the two states.\<close>

definition small :: "int list \<Rightarrow> bool" where
  "small t \<longleftrightarrow> (\<exists>k\<ge>3. length t = 2 ^ k) \<and> length t \<le> 1073741824"

definition abs32 :: "node_set32 \<Rightarrow> node_set" where
  "abs32 s = \<lparr>table = table32 s, occupied = unat (occupied32 s)\<rparr>"

lemma abs32_simps [simp]: "table (abs32 s) = table32 s" "occupied (abs32 s) = unat (occupied32 s)"
  by (simp_all add: abs32_def)

lemma small_update [simp]: "small (t[i := v]) = small t"
  by (simp add: small_def)

lemma small_pos: "small t \<Longrightarrow> 8 \<le> length t"
  using power_increasing [of 3 _ "2 :: nat"] by (auto simp: small_def)

lemma unat_size32: "small t \<Longrightarrow> unat (size32 t) = length t"
  by (simp add: small_def size32_def unat_of_nat_u32)

lemma unat_mask32:
  assumes "small t" shows "unat (size32 t - 1) = length t - 1"
  using unat_size32 [OF assms] small_pos [OF assms] by (subst unat_sub) (auto simp: word_le_nat_alt)

lemma and_mask32:
  assumes "small t" shows "unat (i AND (size32 t - 1)) = unat i AND (length t - 1)"
  by (simp add: unsigned_and_eq unat_mask32 [OF assms])

lemma and_length:
  assumes "small t" shows "i AND (length t - 1) < length t"
proof -
  have "0 < length t" using small_pos [OF assms] by linarith
  then have "i mod length t < length t" by (rule mod_less_divisor)
  then show ?thesis using and_size [of t i] assms by (simp add: small_def)
qed

lemma sint_index: "n < 2147483648 \<Longrightarrow> sint (of_nat n :: u32) = int n"
  by (simp add: signed_of_nat signed_take_bit_int_eq_self)

lemma unat_index [simp]: "n < 4294967296 \<Longrightarrow> unat (of_nat n :: u32) = n"
  by (simp add: unat_of_nat_u32)

lemma cell32_index: "small t \<Longrightarrow> n < length t \<Longrightarrow> cell32 t (of_nat n) = Some (t ! n)"
  by (simp add: cell32_def small_def)

text \<open>The search finds the same cell.\<close>

lemma find_loop32_sim:
  assumes "find_loop t v i del = Some j" "small t" "i < length t" "del < int (length t)"
  shows "find_loop32 t v (size32 t - 1) (of_nat i) del = Some (int j) \<and> j < length t"
proof -
  let ?P = "\<lambda>t v i del j. small t \<longrightarrow> i < length t \<longrightarrow> del < int (length t) \<longrightarrow>
       find_loop32 t v (size32 t - 1) (of_nat i) del = Some (int j) \<and> j < length t"
  have "?P t v i del j"
  proof (rule find_loop.raw_induct [where P = ?P, OF _ assms(1)], intro impI)
    fix f t v i del j
    assume 1: "\<And>t v i del j. f t v i del = Some j \<Longrightarrow> ?P t v i del j"
      and 2: "(let e = t ! i in if v = e then Some i
         else if e = kEmpty then Some (if 0 \<le> del then nat del else i)
         else f t v ((i + 1) AND (length t - 1)) (if e = kDel \<and> del < 0 then int i else del)) = Some j"
    assume t: "small t" and i: "i < length t" and del: "del < int (length t)"
    have i31: "i < 2147483648" using t i by (simp add: small_def)
    define del' where "del' = (if t ! i = kDel \<and> del < 0 then int i else del)"
    have del': "del' < int (length t)" using i del by (simp add: del'_def)
    have cell: "cell32 t (of_nat i) = Some (t ! i)" by (rule cell32_index [OF t i])
    have nx: "(of_nat i + 1) AND (size32 t - 1) = (of_nat ((i + 1) AND (length t - 1)) :: u32)"
    proof (rule word_unat_eq_iff [THEN iffD2])
      have "unat (of_nat i + 1 :: u32) = i + 1"
        using unat_index [of "i + 1"] i31 by (simp add: add.commute)
      then show "unat ((of_nat i + 1) AND (size32 t - 1)) = unat (of_nat ((i + 1) AND (length t - 1)) :: u32)"
        using and_length [OF t, of "i + 1"] t by (simp add: and_mask32 small_def)
    qed
    show "find_loop32 t v (size32 t - 1) (of_nat i) del = Some (int j) \<and> j < length t"
    proof (cases "v = t ! i \<or> t ! i = kEmpty")
      case True
      then show ?thesis
        using 2 i del i31 cell
        by (subst find_loop32.simps) (auto simp: Let_def sint_index split: if_splits)
    next
      case False
      then have "f t v ((i + 1) AND (length t - 1)) del' = Some j"
        using 2 by (simp add: Let_def del'_def)
      then have "find_loop32 t v (size32 t - 1) (of_nat ((i + 1) AND (length t - 1))) del' = Some (int j) \<and> j < length t"
        using 1 and_length [OF t] t del' by blast
      then show ?thesis
        using False cell i31 nx by (subst find_loop32.simps) (auto simp: sint_index del'_def)
    qed
  qed
  then show ?thesis using assms(2-4) by blast
qed

lemma FindIndex32_sim:
  assumes "FindIndex t v = Some j" "small t"
  shows "FindIndex32 t v = Some (int j)" "j < length t"
proof -
  let ?i = "ns_hash v AND (length t - 1)"
  have "Hash32 (word_of_int v) AND (size32 t - 1) = of_nat ?i"
    using and_length [OF assms(2), of "ns_hash v"] assms(2)
    by (intro word_unat_eq_iff [THEN iffD2]) (simp add: and_mask32 Hash32_def ns_hash_def small_def)
  then show "FindIndex32 t v = Some (int j)" "j < length t"
    using find_loop32_sim [of t v ?i "- 1" j] and_length [OF assms(2)] assms
    by (simp_all add: FindIndex_def FindIndex32_def Let_def)
qed

section \<open>The operations\<close>

text \<open>The cells and the arguments are values of \<open>int32_t\<close>.\<close>

definition int32 :: "int \<Rightarrow> bool" where
  "int32 v \<longleftrightarrow> - 2147483648 \<le> v \<and> v < 2147483648"

lemma int32_markers [simp]: "int32 kEmpty" "int32 kDel"
  by (simp_all add: int32_def kEmpty_def kDel_def)

lemma sint_int32: "int32 v \<Longrightarrow> sint (word_of_int v :: u32) = v"
  by (simp add: int32_def signed_of_int signed_take_bit_int_eq_self)

lemma int32_inj: "int32 v \<Longrightarrow> int32 w \<Longrightarrow> (word_of_int v :: u32) = word_of_int w \<longleftrightarrow> v = w"
  using sint_int32 by metis

text \<open>The states of the simulation.\<close>

definition ok32 :: "node_set32 \<Rightarrow> bool" where
  "ok32 s \<longleftrightarrow> small (table32 s) \<and> list_all int32 (table32 s)"

lemma list_all_update: "list_all P xs \<Longrightarrow> P x \<Longrightarrow> list_all P (xs[i := x])"
  by (auto simp: list_all_iff dest: set_update_subset_insert [THEN subsetD])

lemma ns32_put_sim:
  assumes "i < length (table32 s)" "ok32 s" "int32 v" "unat (occupied32 s) < 4294967295"
  shows "abs32 (ns32_put s (of_nat i) (table32 s ! i) v) = ns_put (abs32 s) i v"
    "ok32 (ns32_put s (of_nat i) (table32 s ! i) v)"
proof -
  have "unat (occupied32 s + 1) = unat (occupied32 s) + 1"
    using assms(4) by (subst unat_add_lem [THEN iffD1]) simp_all
  then show "abs32 (ns32_put s (of_nat i) (table32 s ! i) v) = ns_put (abs32 s) i v"
    using assms(1,2) by (simp add: abs32_def ns32_put_def ns_put_def ok32_def small_def)
  show "ok32 (ns32_put s (of_nat i) (table32 s ! i) v)"
    using assms by (simp add: ok32_def ns32_put_def list_all_update)
qed

lemma ns32_loaded_sim: "ok32 s \<Longrightarrow> ns32_loaded s \<longleftrightarrow> ns_loaded (abs32 s)"
proof -
  assume "ok32 s"
  then have n: "unat (size32 (table32 s)) = length (table32 s)" by (simp add: ok32_def unat_size32)
  have "unat (size32 (table32 s) div 4) = length (table32 s) div 4" by (simp add: unat_div n)
  moreover have "unat (size32 (table32 s) - size32 (table32 s) div 4) =
      unat (size32 (table32 s)) - unat (size32 (table32 s) div 4)"
    by (rule unat_sub) (simp add: word_le_nat_alt unat_div)
  ultimately show ?thesis by (simp add: ns32_loaded_def ns_loaded_def word_le_nat_alt n)
qed

lemma put_length [simp]:
  "length (table32 (ns32_put s i e v)) = length (table32 s)" "occupied (ns_put s' j v) \<le> occupied s' + 1"
  by (simp_all add: ns32_put_def ns_put_def)

lemma ns32_reinsert_sim:
  "ns_reinsert (abs32 s) es = Some r \<Longrightarrow> ok32 s \<Longrightarrow> list_all int32 es \<Longrightarrow>
   unat (occupied32 s) + length es < 4294967296 \<Longrightarrow>
   \<exists>s'. ns32_reinsert s es = Some s' \<and> abs32 s' = r \<and> ok32 s'"
proof (induction es arbitrary: s)
  case (Cons e es)
  show ?case
  proof (cases "0 \<le> e")
    case False
    then show ?thesis using Cons.IH [of s] Cons.prems by simp
  next
    case e: True
    obtain i where i: "FindIndex (table32 s) e = Some i"
      using Cons.prems(1) e by (auto split: bind_splits)
    have f: "FindIndex32 (table32 s) e = Some (int i)" "i < length (table32 s)"
      using FindIndex32_sim [OF i] Cons.prems(2) by (simp_all add: ok32_def)
    have cell: "cell32 (table32 s) (of_nat i) = Some (table32 s ! i)"
      using Cons.prems(2) f(2) by (simp add: cell32_index ok32_def)
    define s' where "s' = (if table32 s ! i = e then s else ns32_put s (of_nat i) (table32 s ! i) e)"
    have ab: "abs32 s' = (if table32 s ! i = e then abs32 s else ns_put (abs32 s) i e)" "ok32 s'"
      using ns32_put_sim [OF f(2), of e] Cons.prems(2-4) by (simp_all add: s'_def)
    have "unat (occupied32 s') \<le> unat (occupied32 s) + 1"
      using arg_cong [OF ab(1), of occupied] put_length(2) [of "abs32 s" i e] by (simp split: if_splits)
    moreover have "ns_reinsert (abs32 s') es = Some r" and nl: "\<not> (table32 s ! i \<noteq> e \<and> ns_loaded (abs32 s'))"
      using Cons.prems(1) e i ab(1) by (simp_all add: Let_def split: if_splits)
    ultimately obtain s'' where "ns32_reinsert s' es = Some s''" "abs32 s'' = r" "ok32 s''"
      using Cons.IH [of s'] ab(2) Cons.prems(3,4) by auto
    moreover have "ns32_reinsert s (e # es) = ns32_reinsert s' es"
      using e f cell nl ns32_loaded_sim [OF ab(2)]
      by (cases "table32 s ! i = e") (simp_all add: s'_def Let_def)
    ultimately show ?thesis by metis
  qed
qed simp

lemma ns32_Grow_sim:
  assumes "ns_Grow (abs32 s) = Some r" "ok32 s" "length (table32 s) \<le> 536870912"
  shows "\<exists>s'. ns32_Grow s = Some s' \<and> abs32 s' = r \<and> ok32 s'"
proof -
  obtain k where k: "3 \<le> k" "length (table32 s) = 2 ^ k" using assms(2) by (auto simp: ok32_def small_def)
  have n: "unat (size32 (table32 s) * 2) = length (table32 s) * 2"
    using assms(3) by (simp add: size32_def unat_word_ariths unat_of_nat)
  define s0 where "s0 = \<lparr>table32 = replicate (length (table32 s) * 2) kEmpty, occupied32 = 0\<rparr>"
  have "\<exists>j\<ge>3. length (table32 s) * 2 = 2 ^ j" using k by (intro exI [of _ "Suc k"]) simp
  then have "ok32 s0" using assms(3) by (simp add: s0_def ok32_def small_def list_all_iff)
  moreover have "ns_reinsert (abs32 s0) (table32 s) = Some r"
    using assms(1) by (simp add: ns_Grow_def s0_def abs32_def)
  ultimately obtain s' where "ns32_reinsert s0 (table32 s) = Some s'" "abs32 s' = r" "ok32 s'"
    using ns32_reinsert_sim [of s0 "table32 s" r] assms(2,3) by (auto simp: s0_def ok32_def)
  then show ?thesis by (simp add: ns32_Grow_def n s0_def)
qed

lemma ns_reinsert_size:
  "ns_reinsert s es = Some r \<Longrightarrow> length (table r) = length (table s) \<and>
     occupied r \<le> occupied s + length [e \<leftarrow> es. 0 \<le> e]"
proof (induction es arbitrary: s)
  case (Cons e es)
  show ?case
  proof (cases "0 \<le> e")
    case True
    then obtain i where "ns_reinsert (if table s ! i = e then s else ns_put s i e) es = Some r"
      using Cons.prems by (auto simp: Let_def split: bind_splits if_splits)
    then show ?thesis
      using Cons.IH [of "if table s ! i = e then s else ns_put s i e"] put_length(2) [of s i e] True
      by (force simp: ns_put_def split: if_splits)
  qed (use Cons in auto)
qed simp

lemma ns_Grow_length: "ns_Grow s = Some r \<Longrightarrow> length (table r) = 2 * length (table s)"
  using ns_reinsert_size by (fastforce simp: ns_Grow_def)

lemma ns32_insert_sim:
  assumes "ns_insert (abs32 s) v = Some (b, r)" "ok32 s" "int32 v" "ns_inv (abs32 s)"
    and "length (table r) \<le> 1073741824"
  shows "\<exists>s'. ns32_insert s v = Some (b, s') \<and> abs32 s' = r \<and> ok32 s'"
proof -
  obtain i where i: "FindIndex (table32 s) v = Some i"
    using assms(1) by (auto simp: ns_insert_def split: bind_splits)
  have f: "FindIndex32 (table32 s) v = Some (int i)" "i < length (table32 s)"
    using FindIndex32_sim [OF i] assms(2) by (simp_all add: ok32_def)
  have cell: "cell32 (table32 s) (of_nat i) = Some (table32 s ! i)"
    using assms(2) f(2) by (simp add: cell32_index ok32_def)
  have "unat (occupied32 s) < 4294967295"
    using assms(2,4) by (auto simp: ns_inv_def ns_loaded_def ok32_def small_def)
  note put = ns32_put_sim [OF f(2) assms(2,3) this]
  let ?s = "ns32_put s (of_nat i) (table32 s ! i) v"
  show ?thesis
  proof (cases "table32 s ! i = v \<or> \<not> ns_loaded (abs32 ?s)")
    case True
    then show ?thesis
      using assms(1,2) f cell i put ns32_loaded_sim [OF put(2)]
      by (cases "table32 s ! i = v") (auto simp: ns32_insert_def ns_insert_def Let_def)
  next
    case False
    then have g: "ns_Grow (abs32 ?s) = Some r" "b"
      using assms(1) i put(1) by (auto simp: ns_insert_def Let_def split: bind_splits)
    then have "length (table32 ?s) \<le> 536870912" using ns_Grow_length [OF g(1)] assms(5) by simp
    then obtain s' where "ns32_Grow ?s = Some s'" "abs32 s' = r" "ok32 s'"
      using ns32_Grow_sim [OF g(1) put(2)] by blast
    then show ?thesis
      using False f cell g(2) ns32_loaded_sim [OF put(2)] by (simp add: ns32_insert_def Let_def)
  qed
qed

lemma ns32_erase_sim:
  assumes "ns_erase (abs32 s) v = Some r" "ok32 s" "int32 v"
  shows "\<exists>s'. ns32_erase s (word_of_int v) = Some s' \<and> abs32 s' = r \<and> ok32 s'"
proof -
  obtain i where i: "FindIndex (table32 s) v = Some i"
    using assms(1) by (auto simp: ns_erase_def split: bind_splits)
  have f: "FindIndex32 (table32 s) v = Some (int i)" "i < length (table32 s)"
    using FindIndex32_sim [OF i] assms(2) by (simp_all add: ok32_def)
  have cell: "cell32 (table32 s) (of_nat i) = Some (table32 s ! i)"
    using assms(2) f(2) by (simp add: cell32_index ok32_def)
  have "int32 (table32 s ! i)" using assms(2) f(2) by (simp add: ok32_def list_all_length)
  moreover have "unat (of_nat i :: u32) = i" using assms(2) f(2) by (simp add: ok32_def small_def)
  ultimately show ?thesis
    using assms f cell i
    by (auto simp: ns32_erase_def ns_erase_def sint_int32 int32_inj abs32_def ok32_def list_all_update)
qed

lemma ns32_contains_sim:
  assumes "ns_contains (abs32 s) v = Some b" "ok32 s"
  shows "ns32_contains s v = Some b"
proof -
  obtain i where i: "FindIndex (table32 s) v = Some i" "b \<longleftrightarrow> table32 s ! i = v"
    using assms(1) by (auto simp: ns_contains_def)
  then show ?thesis
    using FindIndex32_sim [OF i(1)] assms(2) by (simp add: ns32_contains_def cell32_index ok32_def)
qed

text \<open>The iteration, whose cursor stays in its type.\<close>

lemma ns32_Next_sim:
  assumes "small (table32 s)"
  shows "c \<le> length (table32 s) \<Longrightarrow>
     ns32_Next s (int c) = map_option (\<lambda>(c, v). (int c, v)) (ns_Next (abs32 s) c)"
proof (induction "length (table32 s) - c" arbitrary: c)
  case 0
  then show ?case
    using assms by (subst ns32_Next.simps, subst ns_Next.simps)
      (simp add: word_less_nat_alt unat_size32 small_def)
next
  case (Suc n)
  then have c: "c < length (table32 s)" by simp
  then have "ns32_Next s (int (c + 1)) = map_option (\<lambda>(c, v). (int c, v)) (ns_Next (abs32 s) (c + 1))"
    using Suc.hyps(1) [of "c + 1"] Suc.hyps(2) by simp
  then show ?case
    using c assms cell32_index [OF assms c]
    by (subst ns32_Next.simps, subst ns_Next.simps)
      (simp add: word_less_nat_alt unat_size32 small_def Let_def add.commute)
qed

lemma ns_Next_le: "ns_Next s c = Some (c', v) \<Longrightarrow> c \<le> length (table s) \<Longrightarrow> c' \<le> length (table s)"
  using ns_Next_spec [of c s] by (auto split: list.splits)

lemma ns32_each_sim:
  assumes "ns_each (abs32 s) c = Some vs" "small (table32 s)" "c \<le> length (table32 s)"
  shows "ns32_each s (int c) = Some vs"
proof -
  let ?P = "\<lambda>t c vs. t = abs32 s \<longrightarrow> c \<le> length (table32 s) \<longrightarrow> ns32_each s (int c) = Some vs"
  have "?P (abs32 s) c vs"
  proof (rule ns_each.raw_induct [where P = ?P, OF _ assms(1)], intro impI)
    fix f t c vs
    assume f: "\<And>t c vs. f t c = Some vs \<Longrightarrow> ?P t c vs"
      and vs: "(do { (c, v) \<leftarrow> ns_Next t c;
          case v of None \<Rightarrow> Some [] | Some v \<Rightarrow> do { vs \<leftarrow> f t c; Some (v # vs) } }) = Some vs"
      and t: "t = abs32 s" and c: "c \<le> length (table32 s)"
    obtain c' v where n: "ns_Next t c = Some (c', v)" using vs by (auto split: bind_splits)
    have c': "c' \<le> length (table32 s)" using ns_Next_le [OF n] t c by simp
    have n': "ns32_Next s (int c) = Some (int c', v)" using ns32_Next_sim [OF assms(2) c] n t by simp
    show "ns32_each s (int c) = Some vs"
      using vs n n' f [of t c'] t c' by (subst ns32_each.simps) (auto split: option.splits bind_splits)
  qed
  then show ?thesis using assms(3) by blast
qed

section \<open>Runs\<close>

fun inserts :: "set_op list \<Rightarrow> nat" where
  "inserts [] = 0"
| "inserts (Insert v # ops) = inserts ops + 1"
| "inserts (Erase v # ops) = inserts ops"
| "inserts (Contains v # ops) = inserts ops"

text \<open>
  What \<open>n\<close> insertions can have done: each occupies one cell at most, and the table grows only when
  three quarters of its cells are occupied.
\<close>

definition grown :: "nat \<Rightarrow> node_set \<Rightarrow> bool" where
  "grown n s \<longleftrightarrow> occupied s \<le> n \<and> (length (table s) = kInline \<or> 3 * length (table s) \<le> 8 * n)"

lemma ns_insert_grown:
  assumes "ns_insert s v = Some (b, r)" "ns_inv s" "grown n s"
  shows "grown (n + 1) r"
proof -
  obtain i where i: "FindIndex (table s) v = Some i"
    using assms(1) by (auto simp: ns_insert_def split: bind_splits)
  let ?s = "ns_put s i v"
  have occ: "occupied ?s \<le> n + 1" "length (table ?s) = length (table s)"
    using assms(3) by (auto simp: grown_def ns_put_def)
  show ?thesis
  proof (cases "table s ! i = v \<or> \<not> ns_loaded ?s")
    case True
    then show ?thesis
      using assms i occ by (cases "table s ! i = v") (auto simp: ns_insert_def grown_def Let_def)
  next
    case False
    then have g: "ns_Grow ?s = Some r"
      using assms(1) i by (auto simp: ns_insert_def Let_def split: bind_splits)
    obtain k where k: "3 \<le> k" "length (table s) = 2 ^ k" using assms(2) by (auto simp: ns_inv_def t_inv_def)
    then have "(4 :: nat) dvd length (table s)" using le_imp_power_dvd [of 2 k "2 :: nat"] by simp
    then have "3 * length (table s) \<le> 4 * (n + 1)"
      using False occ by (auto simp: ns_loaded_def elim!: dvdE)
    moreover have "length (table r) = 2 * length (table s)" using ns_Grow_length [OF g] occ(2) by simp
    moreover have "occupied r \<le> n + 1"
    proof -
      have "occupied r \<le> length [e \<leftarrow> table ?s. 0 \<le> e]"
        using g ns_reinsert_size by (fastforce simp: ns_Grow_def)
      also have "\<dots> \<le> n_occupied (table ?s)" using filter_count_le by (simp add: n_occupied_def)
      also have "\<dots> \<le> n_occupied (table s) + 1"
        by (cases "i < length (table s)") (use list_update_beyond [of "table s" i v] filter_update [of i "table s" "\<lambda>e. e \<noteq> kEmpty" v, THEN arg_cong, of size] in
          \<open>auto simp: ns_put_def n_occupied_def simp flip: size_mset split: if_splits\<close>)
      also have "n_occupied (table s) \<le> n" using assms(2,3) by (simp add: ns_inv_def grown_def)
      finally show ?thesis by simp
    qed
    ultimately show ?thesis by (simp add: grown_def)
  qed
qed

lemma grown_small:
  assumes "grown n s" "ns_inv s" "n < 805306368"
  shows "length (table s) \<le> 1073741824"
proof -
  obtain k where k: "length (table s) = 2 ^ k" using assms(2) by (auto simp: ns_inv_def t_inv_def)
  have "length (table s) < 2 ^ 31" using assms by (auto simp: grown_def kInline_def)
  then have "k < 31" using k by (metis power_strict_increasing_iff one_less_numeral_iff semiring_norm(76))
  then have "(2 :: nat) ^ k \<le> 2 ^ 30" by (intro power_increasing) simp_all
  then show ?thesis using k by simp
qed

lemma ns32_run_sim:
  assumes "ns_run ops (abs32 s) = Some (bs, r)" "ok32 s" "ns_inv (abs32 s)" "grown n (abs32 s)"
    and "\<forall>op \<in> set ops. 0 \<le> set_arg op \<and> set_arg op < 2147483648" "n + inserts ops < 805306368"
  shows "\<exists>s'. ns32_run ops s = Some (bs, s') \<and> abs32 s' = r \<and> ok32 s'"
  using assms
proof (induction ops arbitrary: s n bs)
  case (Cons op ops)
  have arg: "0 \<le> set_arg op" "int32 (set_arg op)" and ops: "\<forall>op \<in> set ops. 0 \<le> set_arg op \<and> set_arg op < 2147483648"
    using Cons.prems(5) by (simp_all add: int32_def)
  show ?case
  proof (cases op)
    case (Insert v)
    then obtain b r1 bs1 where r1: "ns_insert (abs32 s) v = Some (b, r1)" "ns_run ops r1 = Some (bs1, r)" "bs = b # bs1"
      using Cons.prems(1) by (auto split: bind_splits)
    have inv: "ns_inv r1" using ns.insert_law [OF Cons.prems(3), of v] arg(1) r1(1) Insert by auto
    have gr: "grown (n + 1) r1" by (rule ns_insert_grown [OF r1(1) Cons.prems(3,4)])
    have "n + 1 < 805306368" using Cons.prems(6) Insert by simp
    then have "length (table r1) \<le> 1073741824" by (rule grown_small [OF gr inv])
    then obtain s1 where "ns32_insert s v = Some (b, s1)" "abs32 s1 = r1" "ok32 s1"
      using ns32_insert_sim [OF r1(1) Cons.prems(2) _ Cons.prems(3)] arg(2) Insert by auto
    then show ?thesis
      using Cons.IH [of s1 bs1 "n + 1"] r1 inv gr ops Cons.prems(6) Insert by (auto split: bind_splits)
  next
    case (Erase v)
    then obtain r1 where r1: "ns_erase (abs32 s) v = Some r1" "ns_run ops r1 = Some (bs, r)"
      using Cons.prems(1) by (auto split: bind_splits)
    have inv: "ns_inv r1" using ns.erase_law [OF Cons.prems(3), of v] arg(1) r1(1) Erase by auto
    have gr: "grown n r1"
      using r1(1) Cons.prems(4) by (auto simp: ns_erase_def grown_def split: bind_splits if_splits)
    obtain s1 where "ns32_erase s (word_of_int v) = Some s1" "abs32 s1 = r1" "ok32 s1"
      using ns32_erase_sim [OF r1(1) Cons.prems(2)] arg(2) Erase by auto
    then show ?thesis
      using Cons.IH [of s1 bs n] r1 inv gr ops Cons.prems(6) Erase by (auto split: bind_splits)
  next
    case (Contains v)
    then obtain b bs1 where r1: "ns_contains (abs32 s) v = Some b" "ns_run ops (abs32 s) = Some (bs1, r)" "bs = b # bs1"
      using Cons.prems(1) by (auto split: bind_splits)
    then show ?thesis
      using Cons.IH [of s bs1 n] ns32_contains_sim [OF r1(1) Cons.prems(2)] Cons.prems ops Contains
      by (auto split: bind_splits)
  qed
qed simp

lemma ns32_Init_abs: "abs32 ns32_Init = ns_empty" "ok32 ns32_Init" "grown 0 ns_empty"
  by (auto simp: abs32_def ns32_Init_def ns_empty_def ok32_def small_def kInline_def grown_def list_all_iff
      intro: exI [of _ 3])

text \<open>
  C9. A \<open>NodeSet\<close> is a set: every sequence of insertions, removals and membership tests of values
  from 0 to \<open>2 ^ 31 - 1\<close> on a new one, with fewer than \<open>3 * 2 ^ 28\<close> insertions among them, ends (no
  probe runs for ever, growing never nests) without an access outside the table and without a
  wrapped size or count, answers what a mathematical set answers, and the iteration then visits
  every element once. From \<open>3 * 2 ^ 28\<close> insertions on the table can have \<open>2 ^ 31\<close> cells, which the
  \<open>int32_t\<close> cursor of \<open>Next\<close> does not reach the end of.
\<close>

theorem node_set32_is_set:
  assumes "\<forall>op \<in> set ops. 0 \<le> set_arg op \<and> set_arg op < 2147483648" "inserts ops < 805306368"
  shows "\<exists>s vs. ns32_run ops ns32_Init = Some (fst (set_run ops {}), s) \<and> ns32_each s 0 = Some vs \<and>
     distinct vs \<and> set vs = snd (set_run ops {})"
proof -
  obtain r where r: "ns_run ops ns_empty = Some (fst (set_run ops {}), r)" "ns_inv r"
      "set (ns_elems r) = snd (set_run ops {})"
    using ns_run_from [OF ns.empty_law(1), of ops] assms(1) by (auto simp: ns.empty_law(2))
  then obtain s where s: "ns32_run ops ns32_Init = Some (fst (set_run ops {}), s)" "abs32 s = r" "ok32 s"
    using ns32_run_sim [of ops ns32_Init "fst (set_run ops {})" r 0] ns32_Init_abs ns.empty_law(1) assms by auto
  moreover have "ns32_each s 0 = Some (ns_elems r)"
    using ns32_each_sim [of s 0 "ns_elems r"] ns_each_elems [of r] s by (simp add: ok32_def)
  ultimately show ?thesis using r(3) ns.distinct_law [OF r(2)] by blast
qed

theorem node_set32_is_set_witness:
  "\<exists>s vs. ns32_run [Insert 3, Insert 11, Erase 3, Insert 3, Contains 11, Insert 3, Insert 4, Insert 5, Insert 6,
         Insert 2147483647, Erase 11, Contains 11] ns32_Init =
       Some ([True, True, True, True, False, True, True, True, True, False], s) \<and>
     ns32_each s 0 = Some vs \<and> distinct vs \<and> set vs = {3, 4, 5, 6, 2147483647}"
proof -
  let ?ops = "[Insert 3, Insert 11, Erase 3, Insert 3, Contains 11, Insert 3, Insert 4, Insert 5, Insert 6,
      Insert 2147483647, Erase 11, Contains 11]"
  have "set_run ?ops {} = ([True, True, True, True, False, True, True, True, True, False], {3, 4, 5, 6, 2147483647})"
    by auto
  moreover have "\<forall>op \<in> set ?ops. 0 \<le> set_arg op \<and> set_arg op < 2147483648" "inserts ?ops < 805306368"
    by simp_all
  ultimately show ?thesis using node_set32_is_set [of ?ops] by (simp only: fst_conv snd_conv)
qed

section \<open>Beyond the bound\<close>

text \<open>
  \<open>Grow\<close> on a table of \<open>2 ^ 31\<close> cells resizes it to \<open>2 ^ 32\<close> modulo \<open>2 ^ 32\<close>, which is 0 cells: the first
  element is then looked up outside the table.
\<close>

lemma ns32_Grow_wraps:
  assumes "length (table32 s) = 2147483648" "\<exists>v \<in> set (table32 s). 0 \<le> v"
  shows "ns32_Grow s = None"
proof -
  have "size32 (table32 s) * 2 = 0" by (simp add: size32_def assms(1))
  moreover have "ns32_reinsert \<lparr>table32 = [], occupied32 = 0\<rparr> es = None" if "\<exists>v \<in> set es. 0 \<le> v" for es
    using that
  proof (induction es)
    case (Cons e es)
    have "FindIndex32 [] e = None"
      by (simp add: FindIndex32_def Let_def) (subst find_loop32.simps, simp add: cell32_def)
    then show ?case using Cons by auto
  qed simp
  ultimately show ?thesis using assms(2) by (simp add: ns32_Grow_def)
qed

text \<open>The cursor of \<open>Next\<close> overflows behind the last cell of a table of \<open>2 ^ 31\<close> cells.\<close>

lemma ns32_Next_overflows:
  "length (table32 s) = 2147483648 \<Longrightarrow> ns32_Next s 2147483647 = None"
  by (subst ns32_Next.simps) (simp add: size32_def cell32_def)

end
