(* ===== verification/Bit_Scan.thy ===== *)
theory Bit_Scan
  imports Prelude
begin

text \<open>
  The bit scans and powers of two of \<open>abel/base/math\<close> (\<open>clz.h\<close>, \<open>ctz.h\<close>, \<open>ffs.h\<close>, \<open>log2.h\<close>,
  \<open>power2.h\<close>, \<open>round.h\<close>, \<open>align.h\<close>): the portable templates at the type \<open>unsigned long\<close>. On GCC
  and Clang the functions of the same names call compiler builtins, which are not code of the
  repository. A loop is a recursion; where it ends only on some inputs it is partial.
\<close>

section \<open>Definitions\<close>

subsection \<open>clz.h, ctz.h and ffs.h\<close>

partial_function (option) clz_loop :: "u64 \<Rightarrow> nat \<Rightarrow> nat option" where
  "clz_loop x r = (if x AND push_bit (8 * 8 - 1) 1 = 0 then clz_loop (push_bit 1 x) (r + 1) else Some r)"

definition clz_template :: "u64 \<Rightarrow> nat option" where
  "clz_template x = (if x = 0 then Some (8 * 8) else clz_loop x 0)"

partial_function (option) ctz_loop :: "u64 \<Rightarrow> nat \<Rightarrow> nat option" where
  "ctz_loop x r = (if x AND 1 = 0 then ctz_loop (drop_bit 1 x) (r + 1) else Some r)"

definition ctz_template :: "u64 \<Rightarrow> nat option" where
  "ctz_template x = (if x = 0 then Some (8 * 8) else ctz_loop x 0)"

text \<open>The loop of \<open>ffs_template\<close> is that of \<open>ctz_template\<close>, from another count.\<close>

definition ffs_template :: "u64 \<Rightarrow> nat option" where
  "ffs_template x = (if x = 0 then Some 0 else ctz_loop x 1)"

subsection \<open>log2.h\<close>

function log2_by16 :: "u64 \<Rightarrow> nat \<Rightarrow> u64 \<times> nat" where
  "log2_by16 i p = (if 65536 \<le> i then log2_by16 (drop_bit 16 i) (p + 16) else (i, p))"
  by auto
termination
  by (relation "measure (\<lambda>(i, p). unat i)") (auto simp: unat_drop_bit word_le_nat_alt)

function log2_by8 :: "u64 \<Rightarrow> nat \<Rightarrow> u64 \<times> nat" where
  "log2_by8 i p = (if 256 \<le> i then log2_by8 (drop_bit 8 i) (p + 8) else (i, p))"
  by auto
termination
  by (relation "measure (\<lambda>(i, p). unat i)") (auto simp: unat_drop_bit word_le_nat_alt)

lemma unat_halve: "drop_bit 1 i \<noteq> (0 :: u64) \<Longrightarrow> unat (drop_bit 1 i) < unat i"
  unfolding unat_eq_0 [symmetric] unat_drop_bit by simp

function log2_by1 :: "u64 \<Rightarrow> nat \<Rightarrow> nat" where
  "log2_by1 i p = (let i = drop_bit 1 i in if i \<noteq> 0 then log2_by1 i (p + 1) else p)"
  by auto
termination
  by (relation "measure (\<lambda>(i, p). unat i)") (use unat_halve in auto)

declare log2_by16.simps [simp del] log2_by8.simps [simp del] log2_by1.simps [simp del]

definition integer_log2_floor_template :: "u64 \<Rightarrow> nat" where
  "integer_log2_floor_template i =
     (let (i, p) = log2_by16 i 0; (i, p) = log2_by8 i p in log2_by1 i p)"

definition integer_log2_floor :: "u64 \<Rightarrow> nat" where
  "integer_log2_floor i = integer_log2_floor_template i"

definition integer_log2_ceil :: "u64 \<Rightarrow> nat" where
  "integer_log2_ceil i = (if i \<le> 1 then 0 else integer_log2_floor (i - 1) + 1)"

subsection \<open>power2.h, round.h and align.h\<close>

definition is_power_of_two_template :: "u64 \<Rightarrow> bool" where
  "is_power_of_two_template i = (if i \<le> 0 then False else i AND (i - 1) = 0)"

text \<open>The loop over \<open>k = 1, 2, 4, ..., 32\<close>.\<close>

fun smear :: "nat list \<Rightarrow> u64 \<Rightarrow> u64" where
  "smear [] n = n"
| "smear (k # ks) n = smear ks (n OR drop_bit k n)"

definition round_up_to_power_of_two :: "u64 \<Rightarrow> u64" where
  "round_up_to_power_of_two n = smear [1, 2, 4, 8, 16, 32] (n - 1) + 1"

definition round_down_to_power_of_two :: "u64 \<Rightarrow> u64" where
  "round_down_to_power_of_two i = drop_bit 1 (round_up_to_power_of_two (i + 1))"

definition align_up :: "u64 \<Rightarrow> u64 \<Rightarrow> u64" where
  "align_up v align = (v + align - 1) AND NOT (align - 1)"

definition align_down :: "u64 \<Rightarrow> u64 \<Rightarrow> u64" where
  "align_down v align = v AND NOT (align - 1)"

section \<open>The leading bit\<close>

lemma bit_u64_iff: "bit (x :: u64) n \<longleftrightarrow> odd (unat x div 2 ^ n)"
proof -
  have "bit (unat x) n \<longleftrightarrow> bit x n" using bit_imp_le_length [of x n] by (auto simp: bit_unsigned_iff)
  then show ?thesis by (simp add: bit_iff_odd)
qed

text \<open>\<open>lead x p\<close>: the highest set bit of \<open>x\<close> is bit \<open>p\<close>.\<close>

definition lead :: "u64 \<Rightarrow> nat \<Rightarrow> bool" where
  "lead x p \<longleftrightarrow> 2 ^ p \<le> unat x \<and> unat x < 2 ^ Suc p"

lemma lead_bit: "lead x p \<Longrightarrow> bit x p"
proof -
  assume "lead x p"
  then have "unat x div 2 ^ p = 1"
    by (intro div_nat_eqI) (simp_all add: lead_def)
  then show ?thesis by (simp add: bit_u64_iff)
qed

lemma lead_64: "lead x p \<Longrightarrow> p < 64"
  using lead_bit bit_imp_le_length by fastforce

lemma lead_above: "lead x p \<Longrightarrow> bit x n \<Longrightarrow> n \<le> p"
  using bit_below [of x "Suc p" n] by (simp add: lead_def)

lemma lead_unique: "lead x p \<Longrightarrow> lead x q \<Longrightarrow> p = q"
  by (meson lead_above lead_bit order_antisym)

lemma ex_lead: assumes "x \<noteq> 0" obtains p where "lead x p"
proof -
  have "0 < unat x" using assms unat_gt_0 by blast
  then have "\<exists>p. 2 ^ p \<le> unat x \<and> unat x < 2 ^ (p + 1)"
    using ex_power_ivl1 [of 2 "unat x"] by auto
  then show thesis using that by (auto simp: lead_def)
qed

lemma lead_drop:
  assumes "lead (drop_bit k x) q" shows "lead x (q + k)"
proof -
  have *: "2 ^ q \<le> unat x div 2 ^ k" "unat x div 2 ^ k < 2 ^ Suc q"
    using assms by (simp_all add: lead_def unat_drop_bit)
  have "2 ^ q * 2 ^ k \<le> unat x"
    using *(1) by (simp add: less_eq_div_iff_mult_less_eq)
  moreover have "unat x < 2 ^ Suc q * 2 ^ k"
    using *(2) by (simp add: div_less_iff_less_mult)
  ultimately show ?thesis by (simp add: lead_def power_add)
qed

section \<open>Leading and trailing zeros\<close>

lemma top_clear: "x AND push_bit 63 1 = 0 \<longleftrightarrow> \<not> bit (x :: u64) 63"
  by (simp only: push_bit_of_1 and_exp_eq_0_iff_not_bit)

lemma clz_loop_lead:
  "lead x (63 - k) \<Longrightarrow> k \<le> 63 \<Longrightarrow> clz_loop x r = Some (r + k)"
proof (induction k arbitrary: x r)
  case 0
  then have "x AND push_bit 63 1 \<noteq> 0" unfolding top_clear by (simp add: lead_bit)
  then show ?case by (subst clz_loop.simps) simp
next
  case (Suc k)
  have "\<not> bit x 63" using lead_above [OF Suc.prems(1), of 63] Suc.prems(2) by auto
  then have top: "x AND push_bit 63 1 = 0" by (simp only: top_clear not_False_eq_True)
  have e: "Suc (63 - Suc k) = 63 - k" using Suc.prems(2) by simp
  have x: "2 ^ (63 - Suc k) \<le> unat x" "unat x < 2 ^ (63 - k)"
    using Suc.prems(1) unfolding lead_def e by simp_all
  have "unat x < 2 ^ 63" using x(2) by (rule less_le_trans, intro power_increasing) simp_all
  then have u: "unat (push_bit 1 x) = 2 * unat x"
    by (simp add: push_bit_eq_mult unat_word_ariths)
  have "(2 :: nat) ^ (63 - k) = 2 * 2 ^ (63 - Suc k)" using e by (metis power_Suc)
  then have "lead (push_bit 1 x) (63 - k)"
    using x unfolding lead_def u by simp
  then have "clz_loop (push_bit 1 x) (r + 1) = Some (r + 1 + k)"
    using Suc.prems(2) by (intro Suc.IH) simp_all
  then show ?case using top by (subst clz_loop.simps) simp
qed

lemma clz_template_lead: "lead x p \<Longrightarrow> clz_template x = Some (63 - p)"
  using clz_loop_lead [of x "63 - p" 0] lead_64 [of x p] lead_bit [of x p]
  by (auto simp: clz_template_def)

lemma low_clear: "x AND 1 = 0 \<longleftrightarrow> even (unat (x :: u64))"
proof -
  have "x AND 1 = 0 \<longleftrightarrow> \<not> bit x 0"
    using and_exp_eq_0_iff_not_bit [of x 0] by simp
  then show ?thesis by (simp add: bit_u64_iff)
qed

lemma ctz_loop_dvd:
  "2 ^ k dvd unat x \<Longrightarrow> \<not> 2 ^ Suc k dvd unat x \<Longrightarrow> ctz_loop x r = Some (r + k)"
proof (induction k arbitrary: x r)
  case 0
  then have "x AND 1 \<noteq> 0" unfolding low_clear by simp
  then show ?case by (subst ctz_loop.simps) simp
next
  case (Suc k)
  then obtain m where m: "unat x = 2 * (2 ^ k * m)" by (auto simp: dvd_def)
  then have u: "unat (drop_bit 1 x) = 2 ^ k * m" unfolding unat_drop_bit by simp
  have "ctz_loop (drop_bit 1 x) (r + 1) = Some (r + 1 + k)"
    using Suc.prems(2) by (intro Suc.IH) (simp_all only: u, auto simp: m)
  moreover have "x AND 1 = 0" unfolding low_clear by (simp add: m)
  ultimately show ?case by (subst ctz_loop.simps) simp
qed

lemma ex_trailing:
  assumes "x \<noteq> (0 :: u64)" obtains k where "2 ^ k dvd unat x" "\<not> 2 ^ Suc k dvd unat x" "k < 64"
proof -
  have pos: "0 < unat x" using assms unat_gt_0 by blast
  define P where "P k \<longleftrightarrow> \<not> 2 ^ Suc k dvd unat x" for k
  have "unat x < 2 ^ Suc 63" using unsigned_less [of x] by simp
  then have "P 63" unfolding P_def by (rule nat_dvd_not_less [OF pos])
  then have "P (LEAST k. P k)" "(LEAST k. P k) \<le> 63" by (auto intro: LeastI Least_le)
  moreover have "2 ^ (LEAST k. P k) dvd unat x"
  proof (cases "LEAST k. P k")
    case (Suc j)
    then have "\<not> P j" using not_less_Least [of j P] by simp
    then show ?thesis unfolding Suc by (simp only: P_def not_not)
  qed simp
  ultimately show thesis by (intro that [of "LEAST k. P k"]) (simp_all add: P_def)
qed

section \<open>Logarithms and powers of two\<close>

lemma log2_by16_drop: "\<exists>k. log2_by16 i p = (drop_bit k i, p + k) \<and> (i \<noteq> 0 \<longrightarrow> drop_bit k i \<noteq> 0)"
proof (induction i p rule: log2_by16.induct)
  case (1 i p)
  show ?case
  proof (cases "65536 \<le> i")
    case True
    from 1 [OF True] obtain k where
      k: "log2_by16 (drop_bit 16 i) (p + 16) = (drop_bit k (drop_bit 16 i), p + 16 + k)"
      "drop_bit 16 i \<noteq> 0 \<longrightarrow> drop_bit k (drop_bit 16 i) \<noteq> 0" by blast
    have "unat (drop_bit 16 i) \<noteq> 0" using True by (simp add: unat_drop_bit word_le_nat_alt)
    then have "drop_bit 16 i \<noteq> 0" by auto
    then show ?thesis using True k
      by (intro exI [of _ "16 + k"]) (subst log2_by16.simps, simp add: ac_simps)
  next
    case False
    then show ?thesis by (intro exI [of _ 0]) (subst log2_by16.simps, simp)
  qed
qed

lemma log2_by8_drop: "\<exists>k. log2_by8 i p = (drop_bit k i, p + k) \<and> (i \<noteq> 0 \<longrightarrow> drop_bit k i \<noteq> 0)"
proof (induction i p rule: log2_by8.induct)
  case (1 i p)
  show ?case
  proof (cases "256 \<le> i")
    case True
    from 1 [OF True] obtain k where
      k: "log2_by8 (drop_bit 8 i) (p + 8) = (drop_bit k (drop_bit 8 i), p + 8 + k)"
      "drop_bit 8 i \<noteq> 0 \<longrightarrow> drop_bit k (drop_bit 8 i) \<noteq> 0" by blast
    have "unat (drop_bit 8 i) \<noteq> 0" using True by (simp add: unat_drop_bit word_le_nat_alt)
    then have "drop_bit 8 i \<noteq> 0" by auto
    then show ?thesis using True k
      by (intro exI [of _ "8 + k"]) (subst log2_by8.simps, simp add: ac_simps)
  next
    case False
    then show ?thesis by (intro exI [of _ 0]) (subst log2_by8.simps, simp)
  qed
qed

lemma log2_by1_lead: "i \<noteq> 0 \<Longrightarrow> \<exists>q. log2_by1 i p = p + q \<and> lead i q"
proof (induction i p rule: log2_by1.induct)
  case (1 i p)
  show ?case
  proof (cases "drop_bit 1 i = 0")
    case True
    have "unat i div 2 = 0" using True by (metis power_one_right unat_0 unat_drop_bit)
    moreover have "unat i \<noteq> 0" using 1 by (simp add: unat_eq_0)
    ultimately have "lead i 0" by (simp add: lead_def)
    then show ?thesis using True by (subst log2_by1.simps) auto
  next
    case False
    with 1 obtain q where "log2_by1 (drop_bit 1 i) (p + 1) = p + 1 + q" "lead (drop_bit 1 i) q"
      by (auto simp: Let_def)
    then show ?thesis using False lead_drop [of 1 i q] by (subst log2_by1.simps) auto
  qed
qed

lemma log2_floor_lead:
  assumes "lead i p" shows "integer_log2_floor i = p"
proof -
  have "i \<noteq> 0" using lead_bit [OF assms] by auto
  obtain k where k: "log2_by16 i 0 = (drop_bit k i, k)" "drop_bit k i \<noteq> 0"
    using log2_by16_drop [of i 0] \<open>i \<noteq> 0\<close> by auto
  obtain l where l: "log2_by8 (drop_bit k i) k = (drop_bit l (drop_bit k i), k + l)"
    "drop_bit l (drop_bit k i) \<noteq> 0"
    using log2_by8_drop [of "drop_bit k i" k] k(2) by auto
  obtain q where q: "log2_by1 (drop_bit l (drop_bit k i)) (k + l) = k + l + q"
    "lead (drop_bit l (drop_bit k i)) q"
    using log2_by1_lead [OF l(2)] by blast
  have "lead i (q + l + k)" using q(2) by (intro lead_drop)
  then have "p = k + l + q" using lead_unique [OF assms] by simp
  then show ?thesis
    by (simp add: integer_log2_floor_def integer_log2_floor_template_def k(1) l(1) q(1) del: drop_bit_drop_bit)
qed

text \<open>\<open>integer_log2_ceil\<close> is the exponent of the least power of two that is not below its argument.\<close>

lemma log2_ceil_le:
  assumes "1 < i" shows "unat i \<le> 2 ^ integer_log2_ceil i \<and> 2 ^ integer_log2_ceil i < 2 * unat i"
proof -
  have i: "1 < unat i" using assms by (simp add: word_less_nat_alt)
  then have u: "unat (i - 1) = unat i - 1" by (simp add: unat_sub word_le_nat_alt)
  then have "i - 1 \<noteq> 0" using i by auto
  then obtain p where p: "lead (i - 1) p" by (rule ex_lead)
  then have "integer_log2_ceil i = Suc p"
    using assms by (simp add: integer_log2_ceil_def log2_floor_lead not_le)
  moreover have "2 ^ p \<le> unat i - 1" "unat i - 1 < 2 * 2 ^ p" using p by (simp_all add: lead_def u)
  ultimately show ?thesis using i by auto
qed

lemma log2_ceil_least: "unat i \<le> 2 ^ k \<longleftrightarrow> integer_log2_ceil i \<le> k"
proof (cases "1 < i")
  case True
  let ?c = "integer_log2_ceil i"
  have c: "unat i \<le> 2 ^ ?c" "2 ^ ?c < 2 * unat i" using log2_ceil_le [OF True] by simp_all
  show ?thesis
  proof
    assume "unat i \<le> 2 ^ k"
    then have "(2 :: nat) ^ ?c < 2 ^ Suc k" using c(2) by simp
    then show "?c \<le> k" by (subst (asm) power_strict_increasing_iff) simp_all
  next
    assume "?c \<le> k"
    then have "(2 :: nat) ^ ?c \<le> 2 ^ k" by (rule power_increasing) simp
    then show "unat i \<le> 2 ^ k" by (rule le_trans [OF c(1)])
  qed
next
  case False
  then have "unat i \<le> 1" "i \<le> 1" by (simp_all add: word_less_nat_alt not_less word_le_nat_alt)
  then have "unat i \<le> 2 ^ k" by (meson le_trans one_le_power one_le_numeral)
  then show ?thesis using \<open>i \<le> 1\<close> by (simp add: integer_log2_ceil_def)
qed

lemma is_power_of_two_iff: "is_power_of_two_template i \<longleftrightarrow> (\<exists>k. unat i = 2 ^ k)"
proof (cases "i = 0")
  case False
  then obtain p where p: "lead i p" by (rule ex_lead)
  have u: "unat (i - 1) = unat i - 1"
    using False by (metis unat_minus_one)
  have "i AND (i - 1) = 0 \<longleftrightarrow> unat i = 2 ^ p"
  proof
    assume z: "i AND (i - 1) = 0"
    show "unat i = 2 ^ p"
    proof (rule ccontr)
      assume "unat i \<noteq> 2 ^ p"
      then have "lead (i - 1) p" using p unfolding lead_def u by auto
      then have "bit (i AND (i - 1)) p" using p by (simp add: bit_and_iff lead_bit)
      then show False by (simp add: z)
    qed
  next
    assume e: "unat i = 2 ^ p"
    show "i AND (i - 1) = 0"
    proof (rule bit_word_eqI)
      fix n assume "n < LENGTH(64)"
      have "bit i n \<Longrightarrow> n = p"
        by (simp add: bit_u64_iff e) (metis bit_exp_iff bit_iff_odd)
      moreover have "bit (i - 1) n \<Longrightarrow> n < p"
        using bit_below [of "i - 1" p n] by (simp add: u e)
      ultimately show "bit (i AND (i - 1)) n \<longleftrightarrow> bit 0 n" by (auto simp: bit_and_iff)
    qed
  qed
  moreover have "unat i = 2 ^ k \<Longrightarrow> k = p" for k
    using p lead_unique [of i k p] by (simp add: lead_def)
  ultimately show ?thesis using False by (auto simp: is_power_of_two_template_def)
qed (simp add: is_power_of_two_template_def)

text \<open>Rounding up: the loop fills every bit below the leading one.\<close>

definition smeared :: "u64 \<Rightarrow> nat \<Rightarrow> u64 \<Rightarrow> bool" where
  "smeared n w y \<longleftrightarrow> (\<forall>j. bit y j \<longleftrightarrow> (\<exists>i. j \<le> i \<and> i < j + w \<and> bit n i))"

lemma smeared_step:
  assumes "smeared n w y" shows "smeared n (w + w) (y OR drop_bit w y)"
  unfolding smeared_def
proof
  fix j
  have split: "j \<le> i \<and> i < j + (w + w) \<longleftrightarrow> j \<le> i \<and> i < j + w \<or> w + j \<le> i \<and> i < w + j + w" for i
    by auto
  have "bit (y OR drop_bit w y) j \<longleftrightarrow>
     (\<exists>i. j \<le> i \<and> i < j + w \<and> bit n i) \<or> (\<exists>i. w + j \<le> i \<and> i < w + j + w \<and> bit n i)"
    using assms by (simp add: smeared_def bit_simps)
  also have "\<dots> \<longleftrightarrow> (\<exists>i. j \<le> i \<and> i < j + (w + w) \<and> bit n i)"
    using split by (simp only: ex_disj_distrib [symmetric] conj_assoc [symmetric] conj_disj_distribR [symmetric])
  finally show "bit (y OR drop_bit w y) j \<longleftrightarrow> (\<exists>i. j \<le> i \<and> i < j + (w + w) \<and> bit n i)" .
qed

lemma smear_all: "smeared n 64 (smear [1, 2, 4, 8, 16, 32] n)"
proof -
  have "smeared n 1 n"
    unfolding smeared_def by (metis le_antisym less_add_one Suc_eq_plus1 le_refl less_Suc_eq_le)
  then have "smeared n 64 (smear [1, 2, 4, 8, 16, 32] n)"
    using smeared_step [of n 1] smeared_step [of n 2] smeared_step [of n 4] smeared_step [of n 8]
      smeared_step [of n 16] smeared_step [of n 32]
    by (simp only: smear.simps one_add_one numeral_plus_numeral add_num_simps)
  then show ?thesis .
qed

lemma smear_lead: "lead n p \<Longrightarrow> smear [1, 2, 4, 8, 16, 32] n = mask (Suc p)"
proof (rule bit_word_eqI)
  fix j assume p: "lead n p" and j: "j < LENGTH(64)"
  have "bit (smear [1, 2, 4, 8, 16, 32] n) j \<longleftrightarrow> (\<exists>i. j \<le> i \<and> i < j + 64 \<and> bit n i)"
    using smear_all [of n] unfolding smeared_def by blast
  also have "\<dots> \<longleftrightarrow> j \<le> p"
    using lead_above [OF p] lead_bit [OF p] lead_64 [OF p] by (metis le_trans trans_less_add2)
  finally show "bit (smear [1, 2, 4, 8, 16, 32] n) j \<longleftrightarrow> bit (mask (Suc p) :: u64) j"
    using j by (simp add: bit_mask_iff less_Suc_eq_le)
qed

lemma round_up_power:
  assumes "1 \<le> n" shows "round_up_to_power_of_two n = 2 ^ integer_log2_ceil n"
proof (cases "n = 1")
  case True
  then show ?thesis by (simp add: round_up_to_power_of_two_def integer_log2_ceil_def)
next
  case False
  then have n: "1 < n" using assms by simp
  then have "n - 1 \<noteq> 0" by auto
  then obtain p where p: "lead (n - 1) p" by (rule ex_lead)
  then have "smear [1, 2, 4, 8, 16, 32] (n - 1) + 1 = 2 ^ Suc p"
    by (simp only: smear_lead mask_eq_exp_minus_1 diff_add_cancel)
  moreover have "integer_log2_ceil n = Suc p"
    using n p by (simp add: integer_log2_ceil_def log2_floor_lead not_le)
  ultimately show ?thesis by (simp add: round_up_to_power_of_two_def)
qed

lemma unat_pow2: assumes "k \<le> 63" shows "unat (2 ^ k :: u64) = 2 ^ k"
proof -
  have "(2 :: nat) ^ k < 2 ^ 64" using assms by (intro power_strict_increasing) simp_all
  then have "unat (of_nat (2 ^ k) :: u64) = 2 ^ k" by (subst unat_of_nat) simp
  then show ?thesis by simp
qed

text \<open>Masking with a power of two less one is a remainder.\<close>

lemma unat_and_pow2:
  assumes "unat c = 2 ^ k" shows "unat (x AND (c - 1) :: u64) = unat x mod unat c"
proof -
  have "c = of_nat (unat c)" by simp
  then have "c = 2 ^ k" by (simp only: assms of_nat_power of_nat_numeral)
  then have "c - 1 = mask k" by (simp add: mask_eq_exp_minus_1)
  then show ?thesis using assms by (simp add: unat_and_mask_eq)
qed

section \<open>The scans agree\<close>

text \<open>
  For a nonzero 64-bit value the scans end: the number of leading zeros and the floor of the
  logarithm name the highest set bit, the number of trailing zeros the largest power of two that
  divides the value, and \<open>ffs\<close> is one more. The ceiling of the logarithm is the exponent of the
  least power of two not below the value; up to \<open>2 ^ 63\<close> rounding up gives that power, and rounding
  down the largest one not above a smaller value; and the test for a power of two is exact.
\<close>

theorem bit_scans:
  assumes "x \<noteq> 0"
  shows "\<exists>p k. 2 ^ p \<le> unat x \<and> unat x < 2 ^ Suc p \<and> integer_log2_floor x = p \<and> clz_template x = Some (63 - p)
      \<and> 2 ^ k dvd unat x \<and> \<not> 2 ^ Suc k dvd unat x \<and> ctz_template x = Some k \<and> ffs_template x = Some (Suc k)
      \<and> (\<forall>q. unat x \<le> 2 ^ q \<longleftrightarrow> integer_log2_ceil x \<le> q)
      \<and> (unat x \<le> 2 ^ 63 \<longrightarrow> unat (round_up_to_power_of_two x) = 2 ^ integer_log2_ceil x)
      \<and> (unat x < 2 ^ 63 \<longrightarrow> unat (round_down_to_power_of_two x) = 2 ^ p)
      \<and> (is_power_of_two_template x \<longleftrightarrow> unat x = 2 ^ p)"
proof -
  obtain p where p: "lead x p" using assms by (rule ex_lead)
  obtain k where k: "2 ^ k dvd unat x" "\<not> 2 ^ Suc k dvd unat x" using assms by (rule ex_trailing)
  have one: "1 \<le> x" using assms by (metis word_gt_0 word_less_1 not_le)
  have up: "unat (round_up_to_power_of_two y) = 2 ^ integer_log2_ceil y" if "1 \<le> y" "unat y \<le> 2 ^ 63" for y
  proof -
    have "integer_log2_ceil y \<le> 63" using that(2) log2_ceil_least by blast
    then show ?thesis using that(1) by (simp add: round_up_power unat_pow2)
  qed
  have down: "unat (round_down_to_power_of_two x) = 2 ^ p" if small: "unat x < 2 ^ 63"
  proof -
    have u: "unat (x + 1) = unat x + 1" using small by (simp add: unat_word_ariths)
    have "unat (x + 1) \<le> 2 ^ Suc p \<and> \<not> unat (x + 1) \<le> 2 ^ p" using p by (simp add: u lead_def)
    then have "integer_log2_ceil (x + 1) = Suc p"
      unfolding log2_ceil_least by simp
    moreover have "1 \<le> x + 1" "unat (x + 1) \<le> 2 ^ 63" using u small by (simp_all add: word_le_nat_alt)
    ultimately show ?thesis unfolding round_down_to_power_of_two_def unat_drop_bit by (simp add: up)
  qed
  have pow: "unat x = 2 ^ q \<Longrightarrow> q = p" for q
    using lead_unique [of x q p] p by (simp add: lead_def)
  have "integer_log2_floor x = p" "clz_template x = Some (63 - p)"
    using p by (simp_all add: log2_floor_lead clz_template_lead)
  moreover have "ctz_template x = Some k" "ffs_template x = Some (Suc k)"
    using assms ctz_loop_dvd [OF k] by (simp_all add: ctz_template_def ffs_template_def)
  moreover have "is_power_of_two_template x \<longleftrightarrow> unat x = 2 ^ p"
    using pow by (auto simp: is_power_of_two_iff)
  moreover have "2 ^ p \<le> unat x" "unat x < 2 ^ Suc p" using p by (simp_all add: lead_def)
  ultimately show ?thesis
    using k up [OF one] down log2_ceil_least [of x] by (intro exI [of _ p] exI [of _ k] conjI allI impI; assumption?) simp_all
qed

lemma bit_scans_witness:
  "\<exists>p k. 2 ^ p \<le> unat (20 :: u64) \<and> integer_log2_floor 20 = p \<and> clz_template 20 = Some (63 - p) \<and>
     2 ^ k dvd unat (20 :: u64) \<and> ctz_template 20 = Some k"
  using bit_scans [of 20] by simp blast

end
