(* ===== verification/Cell_Window.thy ===== *)
theory Cell_Window
  imports Bit_Scan
begin

text \<open>
  What \<open>container/circular_buffer.h\<close> and \<open>container/fixed_circular_buffer.h\<close> share: raw storage
  whose cells hold a live object or none, indices that wrap at \<open>2 ^ 64\<close> and name a cell modulo a
  power of two, and the interface \<open>deque_impl\<close> of a double-ended queue of bounded length.
\<close>

section \<open>Raw storage\<close>

text \<open>
  A cell holds a live object or is raw. To construct over a live object, to destroy or to read a raw
  cell and to leave the storage is an error (\<open>None\<close>). An object that was moved from stays live.
\<close>

type_synonym 'a cells = "'a option list"

definition construct :: "nat \<Rightarrow> 'a \<Rightarrow> 'a cells \<Rightarrow> 'a cells option" where
  "construct i x s = (if i < length s \<and> s ! i = None then Some (s[i := Some x]) else None)"

definition destroy :: "nat \<Rightarrow> 'a cells \<Rightarrow> 'a cells option" where
  "destroy i s = (if i < length s \<and> s ! i \<noteq> None then Some (s[i := None]) else None)"

definition fetch :: "nat \<Rightarrow> 'a cells \<Rightarrow> 'a option" where
  "fetch i s = (if i < length s then s ! i else None)"

definition assign :: "nat \<Rightarrow> 'a \<Rightarrow> 'a cells \<Rightarrow> 'a cells option" where
  "assign i x s = (if i < length s \<and> s ! i \<noteq> None then Some (s[i := Some x]) else None)"

text \<open>Storage is returned to the allocator when no object in it is live.\<close>

definition deallocate :: "'a cells \<Rightarrow> unit option" where
  "deallocate s = (if list_all (\<lambda>c. c = None) s then Some () else None)"

section \<open>Windows\<close>

text \<open>The cell that the index \<open>b + j\<close> names in a storage of \<open>n\<close> cells.\<close>

definition slot :: "u64 \<Rightarrow> nat \<Rightarrow> nat \<Rightarrow> nat" where
  "slot b n j = (unat b + j) mod n"

definition pow2 :: "nat \<Rightarrow> bool" where
  "pow2 n \<longleftrightarrow> (\<exists>k \<le> 63. n = 2 ^ k)"

lemma pow2_dvd: "pow2 n \<Longrightarrow> n dvd 18446744073709551616"
  unfolding pow2_def using le_imp_power_dvd [of _ 64 "2 :: nat"] by auto

lemma pow2_pos [simp]: "pow2 n \<Longrightarrow> 0 < n"
  by (auto simp: pow2_def)

lemma pow2_le: "pow2 n \<Longrightarrow> n \<le> 2 ^ 63"
  unfolding pow2_def using power_increasing [of _ 63 "2 :: nat"] by auto

lemma unat_plus_mod: "pow2 n \<Longrightarrow> unat (b + of_nat j :: u64) mod n = slot b n j"
  unfolding slot_def unat_word_ariths unat_of_nat
  by (simp add: mod_mod_cancel [OF pow2_dvd] mod_add_right_eq)

lemma slot_less [simp]: "0 < n \<Longrightarrow> slot b n j < n"
  by (simp add: slot_def)

lemma slot_bound [simp]: "j < n \<Longrightarrow> slot b n j < n"
  by (simp add: slot_def)

lemma slot_inj_le: "j \<le> j' \<Longrightarrow> j' < n \<Longrightarrow> slot b n j' = slot b n j \<Longrightarrow> j' = j"
  using mod_eq_dvd_iff_nat [of "unat b + j" "unat b + j'" n] nat_dvd_not_less [of "j' - j" n]
  by (cases "j = j'") (simp_all add: slot_def)

lemma slot_inj: "j < n \<Longrightarrow> j' < n \<Longrightarrow> slot b n j = slot b n j' \<longleftrightarrow> j = j'"
  using slot_inj_le [of j j' n b] slot_inj_le [of j' j n b] by (metis linorder_linear)

lemma slot_wrap: "slot b n (j + n) = slot b n j"
  by (simp add: slot_def add.assoc [symmetric])

lemma slot_shift: "pow2 n \<Longrightarrow> slot (b + of_nat d) n j = slot b n (d + j)"
  using unat_plus_mod [of n "b + of_nat d" j] unat_plus_mod [of n b "d + j"] by (simp add: add.assoc)

lemma slot_shift1: "pow2 n \<Longrightarrow> slot (b + 1) n j = slot b n (Suc j)"
  using slot_shift [of n b 1 j] by simp

lemma slot_pred: "pow2 n \<Longrightarrow> slot (b - 1) n (Suc j) = slot b n j"
  using slot_shift1 [of n "b - 1" j] by simp

text \<open>\<open>cells_at b f s\<close>: seen from index \<open>b\<close>, the cells of \<open>s\<close> are \<open>f 0\<close>, \<open>f 1\<close>, and so on.\<close>

definition cells_at :: "u64 \<Rightarrow> (nat \<Rightarrow> 'a option) \<Rightarrow> 'a cells \<Rightarrow> bool" where
  "cells_at b f s \<longleftrightarrow> (\<forall>j < length s. s ! slot b (length s) j = f j)"

lemma cells_at_cong:
  "cells_at b f s \<Longrightarrow> (\<And>j. j < length s \<Longrightarrow> f j = g j) \<Longrightarrow> cells_at b g s"
  by (simp add: cells_at_def)

lemma cells_at_slot: "cells_at b f s \<Longrightarrow> j < length s \<Longrightarrow> s ! slot b (length s) j = f j"
  by (simp add: cells_at_def)

lemma cells_at_update:
  assumes "cells_at b f s" "j < length s"
  shows "cells_at b (f(j := v)) (s[slot b (length s) j := v])"
proof -
  have "slot b (length s) j < length s" using assms(2) by simp
  then show ?thesis using assms by (auto simp: cells_at_def nth_list_update slot_inj)
qed

text \<open>Seen from the next index, the first cell becomes the last one.\<close>

lemma cells_at_shift:
  assumes "pow2 (length s)" "cells_at b f s" "d \<le> length s"
  shows "cells_at (b + of_nat d) (\<lambda>j. if d + j < length s then f (d + j) else f (d + j - length s)) s"
  unfolding cells_at_def
proof (intro allI impI)
  fix j assume j: "j < length s"
  show "s ! slot (b + of_nat d) (length s) j =
      (if d + j < length s then f (d + j) else f (d + j - length s))"
  proof (cases "d + j < length s")
    case True
    then show ?thesis using assms by (simp add: slot_shift cells_at_def)
  next
    case False
    then have "slot b (length s) (d + j) = slot b (length s) (d + j - length s)"
      using slot_wrap [of b "length s" "d + j - length s"] by simp
    then show ?thesis using False assms j by (simp add: slot_shift cells_at_def)
  qed
qed

definition nth_opt :: "'a list \<Rightarrow> nat \<Rightarrow> 'a option" where
  "nth_opt xs j = (if j < length xs then Some (xs ! j) else None)"

text \<open>\<open>window b xs s\<close>: the live objects of \<open>s\<close> are \<open>xs\<close>, in the cells from index \<open>b\<close> on.\<close>

definition window :: "u64 \<Rightarrow> 'a list \<Rightarrow> 'a cells \<Rightarrow> bool" where
  "window b xs s \<longleftrightarrow> length xs \<le> length s \<and> cells_at b (nth_opt xs) s"

lemma windowI: "length xs \<le> length s \<Longrightarrow> cells_at b (nth_opt xs) s \<Longrightarrow> window b xs s"
  by (simp add: window_def)

lemma window_length: "window b xs s \<Longrightarrow> length xs \<le> length s"
  by (simp add: window_def)

lemma window_fetch:
  "window b xs s \<Longrightarrow> j < length xs \<Longrightarrow> fetch (slot b (length s) j) s = Some (xs ! j)"
  by (auto simp: window_def cells_at_def fetch_def nth_opt_def)

lemma window_construct:
  assumes "window b xs s" "length xs < length s"
  shows "\<exists>s'. construct (slot b (length s) (length xs)) x s = Some s' \<and> window b (xs @ [x]) s' \<and> length s' = length s"
proof -
  let ?i = "slot b (length s) (length xs)"
  have "s ! ?i = None" "?i < length s"
    using assms by (simp_all add: window_def cells_at_slot nth_opt_def)
  moreover have "cells_at b (nth_opt (xs @ [x])) (s[?i := Some x])"
    using cells_at_update [OF conjunct2 [OF assms(1) [unfolded window_def]] assms(2), of "Some x"]
    by (rule cells_at_cong) (auto simp: nth_opt_def nth_append)
  ultimately show ?thesis using assms by (simp add: construct_def window_def)
qed

lemma window_construct_front:
  assumes p: "pow2 (length s)" and w: "window b xs s" and l: "length xs < length s"
  shows "\<exists>s'. construct (slot (b - 1) (length s) 0) x s = Some s' \<and> window (b - 1) (x # xs) s' \<and> length s' = length s"
proof -
  let ?n = "length s" and ?i = "slot (b - 1) (length s) 0"
  obtain m where m: "?n = Suc m" using l by (cases "length s") auto
  have i: "?i = slot b ?n m"
    using slot_wrap [of "b - 1" ?n 0] slot_pred [OF p, of b m] m by simp
  have "cells_at b (nth_opt xs) s" "m < ?n" "\<not> m < length xs" using w l m by (auto simp: window_def)
  then have "s ! ?i = None" "?i < ?n"
    unfolding i by (simp_all add: cells_at_slot nth_opt_def)
  moreover have "cells_at (b - 1) (nth_opt (x # xs)) (s[?i := Some x])"
    unfolding cells_at_def
  proof (intro allI impI)
    fix j assume j: "j < length (s[?i := Some x])"
    show "s[?i := Some x] ! slot (b - 1) (length (s[?i := Some x])) j = nth_opt (x # xs) j"
    proof (cases j)
      case 0
      then show ?thesis using \<open>?i < ?n\<close> by (simp add: nth_opt_def)
    next
      case (Suc j')
      then have "slot (b - 1) ?n j \<noteq> ?i" using j slot_inj_le [of 0 j ?n "b - 1"] by auto
      then have "s[?i := Some x] ! slot (b - 1) ?n j = s ! slot b ?n j'"
        by (simp add: Suc slot_pred [OF p])
      also have "\<dots> = nth_opt xs j'" using w j Suc by (simp add: window_def cells_at_slot)
      finally show ?thesis by (simp add: Suc nth_opt_def)
    qed
  qed
  ultimately show ?thesis using l by (simp add: construct_def window_def)
qed

lemma window_tail:
  assumes p: "pow2 (length s)" and d: "d \<le> length xs" and l: "length xs \<le> length s"
    and c: "cells_at b (\<lambda>j. if j < d then None else nth_opt xs j) s"
  shows "window (b + of_nat d) (drop d xs) s"
proof (rule windowI)
  show "length (drop d xs) \<le> length s" using l by simp
  show "cells_at (b + of_nat d) (nth_opt (drop d xs)) s"
    using cells_at_shift [OF p c] by (rule cells_at_cong) (use d l in \<open>auto simp: nth_opt_def\<close>)
qed

lemma cells_at_destroy:
  assumes "cells_at b f s" "j < length s" "f j \<noteq> None"
  shows "\<exists>s'. destroy (slot b (length s) j) s = Some s' \<and> cells_at b (f(j := None)) s' \<and> length s' = length s"
proof -
  have "slot b (length s) j < length s" using assms(2) by simp
  then show ?thesis using assms cells_at_update [of b f s j None]
    by (simp add: destroy_def cells_at_slot)
qed

lemma window_destroy_front:
  assumes p: "pow2 (length s)" and w: "window b (x # xs) s"
  shows "\<exists>s'. destroy (slot b (length s) 0) s = Some s' \<and> window (b + 1) xs s' \<and> length s' = length s"
proof -
  have l: "Suc (length xs) \<le> length s" and c: "cells_at b (nth_opt (x # xs)) s"
    using w by (simp_all add: window_def)
  obtain s' where s': "destroy (slot b (length s) 0) s = Some s'" "length s' = length s"
    "cells_at b ((nth_opt (x # xs))(0 := None)) s'"
    using cells_at_destroy [OF c, of 0] less_le_trans [OF zero_less_Suc l] by (auto simp: nth_opt_def)
  have "cells_at b (\<lambda>j. if j < 1 then None else nth_opt (x # xs) j) s'"
    using s'(3) by (rule cells_at_cong) simp
  then have "window (b + of_nat 1) (drop 1 (x # xs)) s'"
    using p l by (intro window_tail) (simp_all add: s'(2))
  then show ?thesis using s' by simp
qed

lemma window_destroy_back:
  assumes w: "window b (xs @ [x]) s"
  shows "\<exists>s'. destroy (slot b (length s) (length xs)) s = Some s' \<and> window b xs s' \<and> length s' = length s"
proof -
  have l: "Suc (length xs) \<le> length s" and c: "cells_at b (nth_opt (xs @ [x])) s"
    using w by (simp_all add: window_def)
  obtain s' where s': "destroy (slot b (length s) (length xs)) s = Some s'" "length s' = length s"
    "cells_at b ((nth_opt (xs @ [x]))(length xs := None)) s'"
    using cells_at_destroy [OF c, of "length xs"] l by (auto simp: nth_opt_def)
  have "cells_at b (nth_opt xs) s'"
    using s'(3) by (rule cells_at_cong) (auto simp: nth_opt_def nth_append)
  then show ?thesis using s' l by (auto simp: window_def)
qed

lemma window_assign:
  assumes w: "window b xs s" and j: "j < length xs"
  shows "\<exists>s'. assign (slot b (length s) j) v s = Some s' \<and> window b (xs[j := v]) s' \<and> length s' = length s"
proof -
  let ?i = "slot b (length s) j"
  have l: "j < length s" using w j by (simp add: window_def)
  have "cells_at b (nth_opt xs) s" using w by (simp add: window_def)
  then have "s ! ?i \<noteq> None" "?i < length s"
    using j l by (simp_all add: cells_at_slot nth_opt_def)
  moreover have "cells_at b (nth_opt (xs[j := v])) (s[?i := Some v])"
    using cells_at_update [OF conjunct2 [OF w [unfolded window_def]] l, of "Some v"]
    by (rule cells_at_cong) (use j in \<open>auto simp: nth_opt_def\<close>)
  ultimately show ?thesis using w by (simp add: assign_def window_def)
qed

lemma nth_slot: assumes "i < length s" obtains j where "j < length s" "slot b (length s) j = i"
proof -
  have "inj_on (slot b (length s)) {..<length s}" by (auto simp: inj_on_def slot_inj)
  moreover have "slot b (length s) ` {..<length s} \<subseteq> {..<length s}" using assms by auto
  ultimately have "slot b (length s) ` {..<length s} = {..<length s}"
    by (simp add: endo_inj_surj)
  then have "i \<in> slot b (length s) ` {..<length s}" using assms by simp
  then show thesis using that by auto
qed

text \<open>A window without elements is a storage without live objects, wherever it starts.\<close>

lemma window_Nil_iff: "window b [] s \<longleftrightarrow> s = replicate (length s) None"
proof
  assume w: "window b [] s"
  show "s = replicate (length s) None"
  proof (rule nth_equalityI)
    fix i assume i: "i < length s"
    then obtain j where "j < length s" "slot b (length s) j = i" by (rule nth_slot)
    then show "s ! i = replicate (length s) None ! i"
      using w i by (auto simp: window_def cells_at_def nth_opt_def)
  qed simp
next
  assume s: "s = replicate (length s) None"
  have "s ! slot b (length s) j = None" if "j < length s" for j
    using that by (subst s) simp
  then show "window b [] s" by (simp add: window_def cells_at_def nth_opt_def)
qed

lemma deallocate_replicate: "deallocate (replicate n None) = Some ()"
  by (simp add: deallocate_def list_all_iff)

lemma deallocate_window: "window b [] s \<Longrightarrow> deallocate s = Some ()"
  by (metis window_Nil_iff deallocate_replicate)

lemma window_replicate [simp]: "window b [] (replicate n None)"
  by (simp add: window_Nil_iff)

text \<open>The cells of the window below the \<open>j\<close>-th element have been destroyed.\<close>

definition eaten :: "u64 \<Rightarrow> nat \<Rightarrow> 'a list \<Rightarrow> nat \<Rightarrow> 'a cells \<Rightarrow> bool" where
  "eaten b n xs j s \<longleftrightarrow> length s = n \<and> cells_at b (\<lambda>i. if i < j then None else nth_opt xs i) s"

lemma eaten_0: "window b xs s \<Longrightarrow> eaten b (length s) xs 0 s"
  by (simp add: eaten_def window_def)

lemma eaten_fetch: "eaten b n xs j s \<Longrightarrow> length xs \<le> n \<Longrightarrow> j < length xs \<Longrightarrow> fetch (slot b n j) s = Some (xs ! j)"
  by (auto simp: eaten_def cells_at_def fetch_def nth_opt_def)

lemma eaten_step:
  assumes "eaten b n xs j s" "length xs \<le> n" "j < length xs"
  shows "\<exists>s'. destroy (slot b n j) s = Some s' \<and> eaten b n xs (Suc j) s'"
proof -
  obtain s' where s': "destroy (slot b n j) s = Some s'" "length s' = n"
    "cells_at b ((\<lambda>i. if i < j then None else nth_opt xs i)(j := None)) s'"
    using cells_at_destroy [of b "\<lambda>i. if i < j then None else nth_opt xs i" s j] assms
    by (auto simp: eaten_def nth_opt_def)
  have "cells_at b (\<lambda>i. if i < Suc j then None else nth_opt xs i) s'"
    using s'(3) by (rule cells_at_cong) auto
  then show ?thesis using s' by (auto simp: eaten_def)
qed

lemma eaten_all: "eaten b n xs (length xs) s \<Longrightarrow> window b [] s"
  unfolding eaten_def window_def by (auto elim!: cells_at_cong simp: nth_opt_def)

section \<open>Indices that run through a window\<close>

lemma unat_step_less: "i \<noteq> e \<Longrightarrow> unat (e - (i + 1) :: u64) < unat (e - i)"
proof -
  assume "i \<noteq> e"
  then have "e - i \<noteq> 0" by simp
  then have "unat (e - i - 1) = unat (e - i) - 1" "0 < unat (e - i)"
    by (simp_all add: unat_minus_one unat_gt_0)
  then show ?thesis by (simp add: algebra_simps)
qed

lemma unat_of_nat_63: "n \<le> 2 ^ 63 \<Longrightarrow> unat (of_nat n :: u64) = n"
  by (simp add: unat_of_nat)

lemma of_nat_inj_64: "j < 2 ^ 64 \<Longrightarrow> l < 2 ^ 64 \<Longrightarrow> (of_nat j :: u64) = of_nat l \<longleftrightarrow> j = l"
proof -
  assume "j < 2 ^ 64" "l < 2 ^ 64"
  then have "unat (of_nat j :: u64) = j" "unat (of_nat l :: u64) = l" by (simp_all add: unat_of_nat)
  then show ?thesis by metis
qed

lemma less_63_64: "n \<le> 2 ^ 63 \<Longrightarrow> n < (2 :: nat) ^ 64"
  by simp

section \<open>The interface of a double-ended queue\<close>

datatype 'a deque_op = Push_back 'a | Push_front 'a | Pop_back | Pop_front | At nat | Count

datatype 'a answer = Elem 'a | Num nat

text \<open>
  The specification on lists: the answers and the final contents. A pop of an empty queue, an access
  out of range and a push beyond \<open>lim\<close> elements are not allowed.
\<close>

fun deque_spec :: "nat \<Rightarrow> 'a deque_op list \<Rightarrow> 'a list \<Rightarrow> ('a answer list \<times> 'a list) option" where
  "deque_spec lim [] xs = Some ([], xs)"
| "deque_spec lim (Push_back x # ops) xs = (if length xs < lim then deque_spec lim ops (xs @ [x]) else None)"
| "deque_spec lim (Push_front x # ops) xs = (if length xs < lim then deque_spec lim ops (x # xs) else None)"
| "deque_spec lim (Pop_back # ops) xs = (if xs \<noteq> [] then deque_spec lim ops (butlast xs) else None)"
| "deque_spec lim (Pop_front # ops) xs = (if xs \<noteq> [] then deque_spec lim ops (tl xs) else None)"
| "deque_spec lim (At i # ops) xs =
     (if i < length xs then map_option (apfst ((#) (Elem (xs ! i)))) (deque_spec lim ops xs) else None)"
| "deque_spec lim (Count # ops) xs = map_option (apfst ((#) (Num (length xs)))) (deque_spec lim ops xs)"

locale deque_impl =
  fixes rep :: "'c \<Rightarrow> 'a list \<Rightarrow> bool"
    and lim :: nat
    and push_back :: "'a \<Rightarrow> 'c \<Rightarrow> 'c option"
    and push_front :: "'a \<Rightarrow> 'c \<Rightarrow> 'c option"
    and pop_back :: "'c \<Rightarrow> 'c option"
    and pop_front :: "'c \<Rightarrow> 'c option"
    and elem :: "'c \<Rightarrow> nat \<Rightarrow> 'a option"
    and count :: "'c \<Rightarrow> nat"
  assumes push_back_law: "rep c xs \<Longrightarrow> length xs < lim \<Longrightarrow> \<exists>c'. push_back x c = Some c' \<and> rep c' (xs @ [x])"
    and push_front_law: "rep c xs \<Longrightarrow> length xs < lim \<Longrightarrow> \<exists>c'. push_front x c = Some c' \<and> rep c' (x # xs)"
    and pop_back_law: "rep c (xs @ [x]) \<Longrightarrow> \<exists>c'. pop_back c = Some c' \<and> rep c' xs"
    and pop_front_law: "rep c (x # xs) \<Longrightarrow> \<exists>c'. pop_front c = Some c' \<and> rep c' xs"
    and elem_law: "rep c xs \<Longrightarrow> i < length xs \<Longrightarrow> elem c i = Some (xs ! i)"
    and count_law: "rep c xs \<Longrightarrow> count c = length xs"
begin

fun run :: "'a deque_op list \<Rightarrow> 'c \<Rightarrow> ('a answer list \<times> 'c) option" where
  "run [] c = Some ([], c)"
| "run (Push_back x # ops) c = do { c \<leftarrow> push_back x c; run ops c }"
| "run (Push_front x # ops) c = do { c \<leftarrow> push_front x c; run ops c }"
| "run (Pop_back # ops) c = do { c \<leftarrow> pop_back c; run ops c }"
| "run (Pop_front # ops) c = do { c \<leftarrow> pop_front c; run ops c }"
| "run (At i # ops) c = do { x \<leftarrow> elem c i; map_option (apfst ((#) (Elem x))) (run ops c) }"
| "run (Count # ops) c = map_option (apfst ((#) (Num (count c)))) (run ops c)"

text \<open>Every run that the specification allows gives its answers and its contents.\<close>

lemma run_refines:
  "rep c xs \<Longrightarrow> deque_spec lim ops xs = Some (out, ys) \<Longrightarrow> \<exists>c'. run ops c = Some (out, c') \<and> rep c' ys"
proof (induction ops arbitrary: c xs out)
  case (Cons oper ops)
  show ?case
  proof (cases oper)
    case (Push_back x)
    then show ?thesis using Cons push_back_law [of c xs x] by (auto split: if_splits)
  next
    case (Push_front x)
    then show ?thesis using Cons push_front_law [of c xs x] by (auto split: if_splits)
  next
    case Pop_back
    then have xs: "xs = butlast xs @ [last xs]" and s: "deque_spec lim ops (butlast xs) = Some (out, ys)"
      using Cons.prems(2) by (auto split: if_splits)
    then obtain c' where "pop_back c = Some c'" "rep c' (butlast xs)"
      using pop_back_law Cons.prems(1) by metis
    then show ?thesis using Pop_back Cons.IH [OF _ s] by simp
  next
    case Pop_front
    then show ?thesis using Cons pop_front_law by (cases xs) fastforce+
  next
    case (At i)
    then show ?thesis using Cons elem_law [of c xs i] by (fastforce split: if_splits)
  next
    case Count
    then show ?thesis using Cons count_law [of c xs] by fastforce
  qed
qed auto

end

end
