(* ===== verification/Circular_Buffer.thy ===== *)
theory Circular_Buffer
  imports Cell_Window
begin

text \<open>
  \<open>abel/container/circular_buffer.h\<close>: a growing ring whose capacity is zero or a power of two and
  whose two indices count on modulo \<open>2 ^ 64\<close>, with \<open>memory/transfer.h\<close>. Objects are values; a
  pointer into the storage is the number of a cell. The overloads of the insertions (by copy, by move,
  in place) do the same to the buffer and are one definition each. Allocation does not fail here.
\<close>

section \<open>The buffer and its operations\<close>

record 'a cbuf =
  storage :: "'a cells"
  cb_begin :: u64
  cb_end :: u64
  cb_capacity :: u64

definition new_cbuf :: "'a cbuf" where
  "new_cbuf = \<lparr>storage = [], cb_begin = 0, cb_end = 0, cb_capacity = 0\<rparr>"

definition cb_mask :: "'a cbuf \<Rightarrow> u64 \<Rightarrow> nat" where
  "cb_mask c idx = unat (idx AND (cb_capacity c - 1))"

definition cb_empty :: "'a cbuf \<Rightarrow> bool" where
  "cb_empty c \<longleftrightarrow> cb_begin c = cb_end c"

definition cb_size :: "'a cbuf \<Rightarrow> u64" where
  "cb_size c = cb_end c - cb_begin c"

text \<open>The loop of \<open>for_each\<close> with the masked index given to the callback.\<close>

function each_loop :: "(nat \<Rightarrow> 's \<Rightarrow> 's option) \<Rightarrow> u64 \<Rightarrow> u64 \<Rightarrow> u64 \<Rightarrow> 's \<Rightarrow> 's option" where
  "each_loop f m i e st =
     (if i \<noteq> e then do { st \<leftarrow> f (unat (i AND m)) st; each_loop f m (i + 1) e st } else Some st)"
  by auto
termination
  by (relation "measure (\<lambda>(f, m, i, e, st). unat (e - i))") (auto intro: unat_step_less)

definition for_each :: "(nat \<Rightarrow> 's \<Rightarrow> 's option) \<Rightarrow> 'a cbuf \<Rightarrow> 's \<Rightarrow> 's option" where
  "for_each f c st = each_loop f (cb_capacity c - 1) (cb_begin c) (cb_end c) st"

text \<open>
  \<open>transfer\<close> and \<open>transfer_undo\<close> for a type whose move constructor does not throw. The state is the
  old storage, the new storage and the target pointer; \<open>expand\<close> advances the pointer.
\<close>

definition transfer :: "nat \<Rightarrow> 'a cells \<times> 'a cells \<times> nat \<Rightarrow> ('a cells \<times> 'a cells \<times> nat) option" where
  "transfer obj st = (case st of (old, new, p) \<Rightarrow> do {
     x \<leftarrow> fetch obj old;
     new \<leftarrow> construct p x new;
     old \<leftarrow> destroy obj old;
     Some (old, new, p + 1) })"

definition transfer_undo :: "nat \<Rightarrow> 'a cells \<times> 'a cells \<times> nat \<Rightarrow> ('a cells \<times> 'a cells \<times> nat) option" where
  "transfer_undo obj st = (case st of (old, new, p) \<Rightarrow> Some (old, new, p + 1))"

definition cb_expand_to :: "u64 \<Rightarrow> 'a cbuf \<Rightarrow> 'a cbuf option" where
  "cb_expand_to new_cap c = do {
     (old, new, p) \<leftarrow> for_each transfer c (storage c, replicate (unat new_cap) None, 0);
     (old, new, p) \<leftarrow> for_each transfer_undo c (old, new, 0);
     _ \<leftarrow> deallocate old;
     Some \<lparr>storage = new, cb_begin = 0, cb_end = of_nat p, cb_capacity = new_cap\<rparr> }"

definition cb_expand :: "'a cbuf \<Rightarrow> 'a cbuf option" where
  "cb_expand c = cb_expand_to (max (cb_capacity c * 2) 1) c"

definition cb_maybe_expand :: "u64 \<Rightarrow> 'a cbuf \<Rightarrow> 'a cbuf option" where
  "cb_maybe_expand nr c =
     (if cb_capacity c < cb_end c - cb_begin c + nr then cb_expand c else Some c)"

definition cb_reserve :: "u64 \<Rightarrow> 'a cbuf \<Rightarrow> 'a cbuf option" where
  "cb_reserve n c =
     (if cb_capacity c < n then cb_expand_to (push_bit (integer_log2_ceil n) 1) c else Some c)"

definition cb_push_front :: "'a \<Rightarrow> 'a cbuf \<Rightarrow> 'a cbuf option" where
  "cb_push_front x c = do {
     c \<leftarrow> cb_maybe_expand 1 c;
     s \<leftarrow> construct (cb_mask c (cb_begin c - 1)) x (storage c);
     Some (c\<lparr>storage := s, cb_begin := cb_begin c - 1\<rparr>) }"

definition cb_push_back :: "'a \<Rightarrow> 'a cbuf \<Rightarrow> 'a cbuf option" where
  "cb_push_back x c = do {
     c \<leftarrow> cb_maybe_expand 1 c;
     s \<leftarrow> construct (cb_mask c (cb_end c)) x (storage c);
     Some (c\<lparr>storage := s, cb_end := cb_end c + 1\<rparr>) }"

definition cb_front :: "'a cbuf \<Rightarrow> 'a option" where
  "cb_front c = fetch (cb_mask c (cb_begin c)) (storage c)"

definition cb_back :: "'a cbuf \<Rightarrow> 'a option" where
  "cb_back c = fetch (cb_mask c (cb_end c - 1)) (storage c)"

definition cb_pop_front :: "'a cbuf \<Rightarrow> 'a cbuf option" where
  "cb_pop_front c = do {
     s \<leftarrow> destroy (cb_mask c (cb_begin c)) (storage c);
     Some (c\<lparr>storage := s, cb_begin := cb_begin c + 1\<rparr>) }"

definition cb_pop_back :: "'a cbuf \<Rightarrow> 'a cbuf option" where
  "cb_pop_back c = do {
     s \<leftarrow> destroy (cb_mask c (cb_end c - 1)) (storage c);
     Some (c\<lparr>storage := s, cb_end := cb_end c - 1\<rparr>) }"

text \<open>\<open>operator[]\<close> and \<open>access_element_unsafe\<close>.\<close>

definition cb_at :: "'a cbuf \<Rightarrow> u64 \<Rightarrow> 'a option" where
  "cb_at c idx = fetch (cb_mask c (cb_begin c + idx)) (storage c)"

text \<open>The destructor: it destroys the elements and returns the storage.\<close>

definition destroy_cbuf :: "'a cbuf \<Rightarrow> unit option" where
  "destroy_cbuf c = do { s \<leftarrow> for_each destroy c (storage c); deallocate s }"

text \<open>The move constructor: the new buffer and what is left of the argument.\<close>

definition move_cbuf :: "'a cbuf \<Rightarrow> 'a cbuf \<times> 'a cbuf" where
  "move_cbuf x = (x, new_cbuf)"

definition assign_cbuf :: "'a cbuf \<Rightarrow> 'a cbuf \<Rightarrow> ('a cbuf \<times> 'a cbuf) option" where
  "assign_cbuf this x = do { _ \<leftarrow> destroy_cbuf this; Some (move_cbuf x) }"

section \<open>erase and clear\<close>

text \<open>
  \<open>std::move(first, last, d)\<close> and \<open>std::move_backward(a, e, d)\<close> on iterators of the buffer;
  \<open>m\<close> is the mask.
\<close>

function move_fwd :: "u64 \<Rightarrow> u64 \<Rightarrow> u64 \<Rightarrow> u64 \<Rightarrow> 'a cells \<Rightarrow> ('a cells \<times> u64) option" where
  "move_fwd m a e d s =
     (if a \<noteq> e then do {
        x \<leftarrow> fetch (unat (a AND m)) s;
        s \<leftarrow> assign (unat (d AND m)) x s;
        move_fwd m (a + 1) e (d + 1) s }
      else Some (s, d))"
  by auto
termination
  by (relation "measure (\<lambda>(m, a, e, d, s). unat (e - a))") (auto intro: unat_step_less)

function move_bwd :: "u64 \<Rightarrow> u64 \<Rightarrow> u64 \<Rightarrow> u64 \<Rightarrow> 'a cells \<Rightarrow> ('a cells \<times> u64) option" where
  "move_bwd m a e d s =
     (if a \<noteq> e then do {
        x \<leftarrow> fetch (unat ((e - 1) AND m)) s;
        s \<leftarrow> assign (unat ((d - 1) AND m)) x s;
        move_bwd m a (e - 1) (d - 1) s }
      else Some (s, d))"
  by auto
termination
proof (relation "measure (\<lambda>(m, a, e, d, s). unat (e - a))")
  fix m a e d :: u64 and x :: 'a and s s' :: "'a cells"
  assume "a \<noteq> e"
  then show "((m, a, e - 1, d - 1, s'), m, a, e, d, s) \<in> measure (\<lambda>(m, a, e, d, s). unat (e - a))"
    using unat_step_less [of a e] by (simp add: algebra_simps)
qed simp

text \<open>\<open>while (i < e) destroy(i++)\<close>, with the comparison of the iterators: that of their indices.\<close>

function destroy_loop :: "u64 \<Rightarrow> u64 \<Rightarrow> u64 \<Rightarrow> 'a cells \<Rightarrow> 'a cells option" where
  "destroy_loop m i e s =
     (if i < e then do { s \<leftarrow> destroy (unat (i AND m)) s; destroy_loop m (i + 1) e s } else Some s)"
  by auto
termination
  by (relation "measure (\<lambda>(m, i, e, s). unat (e - i))") (auto intro: unat_step_less)

declare each_loop.simps [simp del] move_fwd.simps [simp del] move_bwd.simps [simp del] destroy_loop.simps [simp del]

text \<open>\<open>std::distance\<close> of two iterators is signed.\<close>

definition cb_distance :: "u64 \<Rightarrow> u64 \<Rightarrow> int" where
  "cb_distance a b = sint (b - a)"

text \<open>An iterator is its index. The results are the buffer and the iterator that is returned.\<close>

definition cb_erase :: "u64 \<Rightarrow> u64 \<Rightarrow> 'a cbuf \<Rightarrow> ('a cbuf \<times> u64) option" where
  "cb_erase a e c =
     (let m = cb_capacity c - 1 in
      if a = e then Some (c, e)
      else if cb_distance (cb_begin c) a < cb_distance e (cb_end c) then do {
        (s, new_start) \<leftarrow> move_bwd m (cb_begin c) a e (storage c);
        s \<leftarrow> destroy_loop m (cb_begin c) new_start s;
        Some (c\<lparr>storage := s, cb_begin := new_start\<rparr>, e) }
      else do {
        (s, new_end) \<leftarrow> move_fwd m e (cb_end c) a (storage c);
        s \<leftarrow> destroy_loop m new_end (cb_end c) s;
        Some (c\<lparr>storage := s, cb_end := new_end\<rparr>, a) })"

definition cb_clear :: "'a cbuf \<Rightarrow> 'a cbuf option" where
  "cb_clear c = map_option fst (cb_erase (cb_begin c) (cb_end c) c)"

section \<open>What a buffer represents\<close>

definition cb_rep :: "'a cbuf \<Rightarrow> 'a list \<Rightarrow> bool" where
  "cb_rep c xs \<longleftrightarrow> (storage c = [] \<or> pow2 (length (storage c))) \<and> cb_capacity c = of_nat (length (storage c))
     \<and> window (cb_begin c) xs (storage c) \<and> cb_end c = cb_begin c + of_nat (length xs)"

lemma cb_rep_storage: "cb_rep c xs \<Longrightarrow> length (storage c) \<le> 2 ^ 63"
  by (auto simp: cb_rep_def dest: pow2_le)

lemma cb_rep_capacity: "cb_rep c xs \<Longrightarrow> unat (cb_capacity c) = length (storage c)"
  using cb_rep_storage [of c xs] by (simp add: cb_rep_def unat_of_nat_63)

lemma cb_rep_length: "cb_rep c xs \<Longrightarrow> length xs \<le> length (storage c)"
  by (simp add: cb_rep_def window_def)

lemma cb_rep_63: "cb_rep c xs \<Longrightarrow> length xs \<le> 2 ^ 63"
  using cb_rep_length [of c xs] cb_rep_storage [of c xs] by simp

lemma cb_rep_size: "cb_rep c xs \<Longrightarrow> unat (cb_size c) = length xs"
  using cb_rep_63 [of c xs] by (simp add: cb_rep_def cb_size_def unat_of_nat_63)

lemma cb_rep_empty: "cb_rep c xs \<Longrightarrow> cb_empty c \<longleftrightarrow> xs = []"
  using cb_rep_size [of c xs] by (simp add: cb_empty_def cb_size_def) (metis diff_self eq_iff_diff_eq_0 length_0_conv unat_0 unsigned_eq_0_iff)

lemma cb_rep_new: "cb_rep new_cbuf []"
  by (simp add: cb_rep_def new_cbuf_def window_Nil_iff)

lemma pow2_and:
  assumes "pow2 n" shows "unat (idx AND (of_nat n - 1) :: u64) = unat idx mod n"
proof -
  obtain k where k: "n = 2 ^ k" "k \<le> 63" using assms by (auto simp: pow2_def)
  have "unat (of_nat n :: u64) = n" using pow2_le [OF assms] by (rule unat_of_nat_63)
  then show ?thesis using unat_and_pow2 [of "of_nat n" k idx] k by simp
qed

text \<open>The mask names the cell of a window.\<close>

lemma mask_slot:
  assumes "pow2 n" shows "unat (b + of_nat j AND (of_nat n - 1) :: u64) = slot b n j"
  by (simp add: pow2_and [OF assms] unat_plus_mod [OF assms])

lemma mask_slot0: "pow2 n \<Longrightarrow> unat (b AND (of_nat n - 1) :: u64) = slot b n 0"
  using mask_slot [of n b 0] by simp

lemma cb_rep_pow2: "cb_rep c xs \<Longrightarrow> xs \<noteq> [] \<Longrightarrow> pow2 (length (storage c))"
  using cb_rep_length [of c xs] by (auto simp: cb_rep_def)

section \<open>Loops over the elements\<close>

lemma each_loop_window:
  assumes step: "\<And>j st. j < l \<Longrightarrow> Inv j st \<Longrightarrow> \<exists>st'. f (unat ((b + of_nat j) AND m)) st = Some st' \<and> Inv (Suc j) st'"
    and l: "l \<le> 2 ^ 63" and init: "Inv j st" "j \<le> l"
  shows "\<exists>st'. each_loop f m (b + of_nat j) (b + of_nat l) st = Some st' \<and> Inv l st'"
  using init
proof (induction "l - j" arbitrary: j st)
  case 0
  then show ?case by (subst each_loop.simps) auto
next
  case (Suc d)
  then have j: "j < l" by simp
  then have "(of_nat j :: u64) \<noteq> of_nat l" using less_63_64 [OF l] by (simp add: of_nat_inj_64)
  then have ne: "b + of_nat j \<noteq> b + of_nat l" by simp
  obtain st1 where st1: "f (unat ((b + of_nat j) AND m)) st = Some st1" "Inv (Suc j) st1"
    using step [OF j Suc.prems(1)] by blast
  have d: "d = l - Suc j" using Suc.hyps(2) by simp
  obtain st' where "each_loop f m (b + of_nat (Suc j)) (b + of_nat l) st1 = Some st'" "Inv l st'"
    using Suc.hyps(1) [OF d st1(2)] j by (auto simp del: of_nat_Suc)
  then show ?case using ne st1(1) by (subst each_loop.simps) (simp add: add.assoc add.commute [of 1])
qed

text \<open>The same over the elements of a buffer.\<close>

lemma for_each_rep:
  assumes rep: "cb_rep c xs"
    and step: "\<And>j st. pow2 (length (storage c)) \<Longrightarrow> j < length xs \<Longrightarrow> Inv j st \<Longrightarrow>
      \<exists>st'. f (slot (cb_begin c) (length (storage c)) j) st = Some st' \<and> Inv (Suc j) st'"
    and init: "Inv 0 st"
  shows "\<exists>st'. for_each f c st = Some st' \<and> Inv (length xs) st'"
proof -
  have "\<exists>st'. each_loop f (cb_capacity c - 1) (cb_begin c + of_nat 0) (cb_begin c + of_nat (length xs)) st = Some st'
      \<and> Inv (length xs) st'"
  proof (rule each_loop_window [where Inv = Inv])
    fix j st assume j: "j < length xs" and i: "Inv j st"
    then have "xs \<noteq> []" by auto
    then have p: "pow2 (length (storage c))" using rep by (rule cb_rep_pow2 [rotated])
    have "cb_capacity c = of_nat (length (storage c))" using rep by (simp add: cb_rep_def)
    then show "\<exists>st'. f (unat (cb_begin c + of_nat j AND (cb_capacity c - 1))) st = Some st' \<and> Inv (Suc j) st'"
      using step [OF p j i] by (simp add: mask_slot [OF p])
  qed (use init cb_rep_63 [OF rep] in simp_all)
  then show ?thesis using rep by (simp add: for_each_def cb_rep_def)
qed

lemma destroy_rep: "cb_rep c xs \<Longrightarrow> destroy_cbuf c = Some ()"
proof -
  assume rep: "cb_rep c xs"
  then have w: "window (cb_begin c) xs (storage c)" by (simp add: cb_rep_def)
  have "\<exists>s. for_each destroy c (storage c) = Some s \<and>
      eaten (cb_begin c) (length (storage c)) xs (length xs) s"
    using rep by (rule for_each_rep) (use eaten_step window_length [OF w] eaten_0 [OF w] in auto)
  then show ?thesis by (auto simp: destroy_cbuf_def dest!: eaten_all intro: deallocate_window)
qed

section \<open>Expansion\<close>

text \<open>Storage that holds the first \<open>j\<close> elements in its first cells.\<close>

definition filled :: "nat \<Rightarrow> 'a list \<Rightarrow> nat \<Rightarrow> 'a cells" where
  "filled n xs j = map Some (take j xs) @ replicate (n - j) None"

lemma length_filled: "j \<le> length xs \<Longrightarrow> j \<le> n \<Longrightarrow> length (filled n xs j) = n"
  by (simp add: filled_def)

lemma construct_filled:
  assumes "j < length xs" "length xs \<le> n"
  shows "construct j (xs ! j) (filled n xs j) = Some (filled n xs (Suc j))"
proof -
  obtain m where m: "n - j = Suc m" using assms by (metis Suc_diff_Suc less_le_trans)
  then have "n - Suc j = m" by simp
  then show ?thesis using assms m
    by (simp add: construct_def filled_def nth_append take_Suc_conv_app_nth list_update_append)
qed

lemma window_filled:
  assumes "length xs \<le> n" shows "window 0 xs (filled n xs (length xs))"
proof (rule windowI)
  show "cells_at 0 (nth_opt xs) (filled n xs (length xs))"
    using assms by (auto simp: cells_at_def filled_def nth_opt_def slot_def nth_append)
qed (use assms in \<open>simp add: filled_def\<close>)

lemma cb_expand_to_rep:
  assumes rep: "cb_rep c xs" and p: "pow2 (unat nc)" and l: "length xs \<le> unat nc"
  shows "\<exists>c'. cb_expand_to nc c = Some c' \<and> cb_rep c' xs \<and> length (storage c') = unat nc"
proof -
  let ?n = "length (storage c)" and ?b = "cb_begin c" and ?N = "unat nc"
  define Inv where "Inv j st \<longleftrightarrow> (case st of (old, new, q) \<Rightarrow> eaten ?b ?n xs j old \<and> new = filled ?N xs j \<and> q = j)"
    for j and st :: "'a cells \<times> 'a cells \<times> nat"
  have w: "window ?b xs (storage c)" using rep by (simp add: cb_rep_def)
  have n: "length xs \<le> ?n" using w by (rule window_length)
  have "\<exists>st. for_each transfer c (storage c, replicate ?N None, 0) = Some st \<and> Inv (length xs) st"
  proof (rule for_each_rep [OF rep])
    fix j st assume j: "j < length xs" and "Inv j st"
    then obtain old where st: "st = (old, filled ?N xs j, j)" "eaten ?b ?n xs j old"
      by (auto simp: Inv_def)
    obtain old' where "destroy (slot ?b ?n j) old = Some old'" "eaten ?b ?n xs (Suc j) old'"
      using eaten_step [OF st(2) n j] by blast
    then show "\<exists>st'. transfer (slot ?b ?n j) st = Some st' \<and> Inv (Suc j) st'"
      using eaten_fetch [OF st(2) n j] construct_filled [OF j l] by (simp add: transfer_def st Inv_def)
  next
    show "Inv 0 (storage c, replicate ?N None, 0)"
      using eaten_0 [OF w] by (simp add: Inv_def filled_def)
  qed
  then obtain old where 1: "for_each transfer c (storage c, replicate ?N None, 0) = Some (old, filled ?N xs (length xs), length xs)"
    and old: "eaten ?b ?n xs (length xs) old" by (auto simp: Inv_def)
  have "\<exists>st. for_each transfer_undo c (old, filled ?N xs (length xs), 0) = Some st \<and>
      st = (old, filled ?N xs (length xs), length xs)"
    using rep by (rule for_each_rep [where Inv = "\<lambda>j st. st = (old, filled ?N xs (length xs), j)"])
      (simp_all add: transfer_undo_def)
  then have 2: "for_each transfer_undo c (old, filled ?N xs (length xs), 0) = Some (old, filled ?N xs (length xs), length xs)"
    by simp
  have "deallocate old = Some ()" using old by (intro deallocate_window eaten_all)
  then have "cb_expand_to nc c = Some \<lparr>storage = filled ?N xs (length xs), cb_begin = 0, cb_end = of_nat (length xs), cb_capacity = nc\<rparr>"
    by (simp add: cb_expand_to_def 1 2)
  then show ?thesis using p l by (simp add: cb_rep_def window_filled length_filled)
qed

lemma cb_maybe_expand_rep:
  assumes rep: "cb_rep c xs" and l: "length xs < 2 ^ 63"
  shows "\<exists>c'. cb_maybe_expand 1 c = Some c' \<and> cb_rep c' xs \<and> length xs < length (storage c') \<and> pow2 (length (storage c'))"
proof -
  let ?n = "length (storage c)"
  have cap: "unat (cb_capacity c) = ?n" using rep by (rule cb_rep_capacity)
  have n: "?n \<le> 2 ^ 63" "length xs \<le> ?n" using rep by (rule cb_rep_storage, rule cb_rep_length)
  have sz: "unat (cb_size c + 1) = Suc (length xs)"
    using cb_rep_size [OF rep] l by (simp add: unat_word_ariths)
  have need: "cb_capacity c < cb_end c - cb_begin c + 1 \<longleftrightarrow> length xs = ?n"
    using n(2) by (auto simp: word_less_nat_alt cap sz simp flip: cb_size_def)
  show ?thesis
  proof (cases "length xs = ?n")
    case False
    then have "?n \<noteq> 0" using n by auto
    then show ?thesis using False n rep need by (auto simp: cb_maybe_expand_def cb_rep_def)
  next
    case True
    let ?nc = "max (cb_capacity c * 2) 1"
    have c2: "unat (cb_capacity c * 2) = 2 * ?n" using True l by (simp add: unat_word_ariths cap)
    have nc: "unat ?nc = max (2 * ?n) 1"
      by (simp add: max_def word_le_nat_alt c2)
    have "pow2 (unat ?nc)"
    proof (cases "?n = 0")
      case True
      then show ?thesis unfolding nc pow2_def by (intro exI [of _ 0]) simp
    next
      case False
      then obtain k where k: "?n = 2 ^ k" "k \<le> 63" using rep by (auto simp: cb_rep_def pow2_def)
      then have "k < 63" using True l by (cases "k = 63") auto
      then show ?thesis unfolding nc pow2_def using k by (intro exI [of _ "Suc k"]) simp
    qed
    moreover have "length xs < unat ?nc" unfolding nc using True by auto
    ultimately show ?thesis using cb_expand_to_rep [OF rep, of ?nc] need True
      by (auto simp: cb_maybe_expand_def cb_expand_def)
  qed
qed

lemma cb_reserve_rep:
  assumes rep: "cb_rep c xs" and m: "unat m \<le> 2 ^ 63"
  shows "\<exists>c'. cb_reserve m c = Some c' \<and> cb_rep c' xs \<and> unat m \<le> length (storage c')"
proof (cases "cb_capacity c < m")
  case True
  let ?k = "integer_log2_ceil m"
  have k: "?k \<le> 63" using m log2_ceil_least by blast
  have e: "unat (2 ^ ?k :: u64) = 2 ^ ?k" using k by (rule unat_pow2)
  have mk: "unat m \<le> 2 ^ ?k" using log2_ceil_least by blast
  have "length xs < unat m"
    using True cb_rep_capacity [OF rep] cb_rep_length [OF rep] by (simp add: word_less_nat_alt)
  moreover have "pow2 (2 ^ ?k)" using k by (auto simp: pow2_def)
  ultimately show ?thesis using cb_expand_to_rep [OF rep, of "2 ^ ?k"] True mk
    by (auto simp: cb_reserve_def e)
next
  case False
  then show ?thesis using rep cb_rep_capacity [OF rep] by (simp add: cb_reserve_def word_less_nat_alt)
qed

section \<open>The deque operations\<close>

text \<open>A nonempty buffer: what its masks name.\<close>

lemma cb_mask_at: "cb_rep c xs \<Longrightarrow> pow2 (length (storage c)) \<Longrightarrow>
  cb_mask c (cb_begin c + of_nat j) = slot (cb_begin c) (length (storage c)) j"
  by (simp add: cb_mask_def cb_rep_def mask_slot)

lemma cb_mask_slot0: "cb_rep c xs \<Longrightarrow> pow2 (length (storage c)) \<Longrightarrow>
  cb_mask c i = slot i (length (storage c)) 0"
  by (simp add: cb_mask_def cb_rep_def mask_slot0)

lemma cb_push_back_rep:
  assumes rep: "cb_rep c xs" and l: "length xs < 2 ^ 63"
  shows "\<exists>c'. cb_push_back x c = Some c' \<and> cb_rep c' (xs @ [x])"
proof -
  obtain c1 where c1: "cb_maybe_expand 1 c = Some c1" "cb_rep c1 xs" "length xs < length (storage c1)"
    and p: "pow2 (length (storage c1))"
    using cb_maybe_expand_rep [OF rep l] by blast
  have e: "cb_end c1 = cb_begin c1 + of_nat (length xs)" using c1(2) by (simp add: cb_rep_def)
  have w: "window (cb_begin c1) xs (storage c1)" using c1(2) by (simp add: cb_rep_def)
  obtain s where "construct (cb_mask c1 (cb_end c1)) x (storage c1) = Some s"
    "window (cb_begin c1) (xs @ [x]) s" "length s = length (storage c1)"
    unfolding e cb_mask_at [OF c1(2) p] using window_construct [OF w c1(3)] by blast
  then show ?thesis using c1 p by (simp add: cb_push_back_def cb_rep_def)
qed

lemma cb_push_front_rep:
  assumes rep: "cb_rep c xs" and l: "length xs < 2 ^ 63"
  shows "\<exists>c'. cb_push_front x c = Some c' \<and> cb_rep c' (x # xs)"
proof -
  obtain c1 where c1: "cb_maybe_expand 1 c = Some c1" "cb_rep c1 xs" "length xs < length (storage c1)"
    and p: "pow2 (length (storage c1))"
    using cb_maybe_expand_rep [OF rep l] by blast
  have w: "window (cb_begin c1) xs (storage c1)" using c1(2) by (simp add: cb_rep_def)
  obtain s where "construct (cb_mask c1 (cb_begin c1 - 1)) x (storage c1) = Some s"
    "window (cb_begin c1 - 1) (x # xs) s" "length s = length (storage c1)"
    unfolding cb_mask_slot0 [OF c1(2) p] using window_construct_front [OF p w c1(3)] by blast
  then show ?thesis using c1 p by (simp add: cb_push_front_def cb_rep_def)
qed

lemma cb_pop_back_rep:
  assumes rep: "cb_rep c (xs @ [x])"
  shows "\<exists>c'. cb_pop_back c = Some c' \<and> cb_rep c' xs"
proof -
  have p: "pow2 (length (storage c))" using rep by (rule cb_rep_pow2) simp
  have e: "cb_end c - 1 = cb_begin c + of_nat (length xs)" using rep by (simp add: cb_rep_def)
  have w: "window (cb_begin c) (xs @ [x]) (storage c)" using rep by (simp add: cb_rep_def)
  obtain s where "destroy (cb_mask c (cb_end c - 1)) (storage c) = Some s"
    "window (cb_begin c) xs s" "length s = length (storage c)"
    unfolding e cb_mask_at [OF rep p] using window_destroy_back [OF w] by blast
  then show ?thesis using rep p e by (simp add: cb_pop_back_def cb_rep_def)
qed

lemma cb_pop_front_rep:
  assumes rep: "cb_rep c (x # xs)"
  shows "\<exists>c'. cb_pop_front c = Some c' \<and> cb_rep c' xs"
proof -
  have p: "pow2 (length (storage c))" using rep by (rule cb_rep_pow2) simp
  have w: "window (cb_begin c) (x # xs) (storage c)" using rep by (simp add: cb_rep_def)
  obtain s where "destroy (cb_mask c (cb_begin c)) (storage c) = Some s"
    "window (cb_begin c + 1) xs s" "length s = length (storage c)"
    unfolding cb_mask_slot0 [OF rep p] using window_destroy_front [OF p w] by blast
  then show ?thesis using rep p by (simp add: cb_pop_front_def cb_rep_def add.assoc)
qed

lemma cb_at_rep:
  assumes rep: "cb_rep c xs" and i: "i < length xs" shows "cb_at c (of_nat i) = Some (xs ! i)"
proof -
  have p: "pow2 (length (storage c))" using rep by (rule cb_rep_pow2) (use i in auto)
  have "window (cb_begin c) xs (storage c)" using rep by (simp add: cb_rep_def)
  then show ?thesis using i by (simp add: cb_at_def cb_mask_at [OF rep p] window_fetch)
qed

lemma cb_front_rep: "cb_rep c xs \<Longrightarrow> xs \<noteq> [] \<Longrightarrow> cb_front c = Some (hd xs)"
  using cb_at_rep [of c xs 0] by (simp add: cb_front_def cb_at_def hd_conv_nth)

lemma cb_back_rep: "cb_rep c xs \<Longrightarrow> xs \<noteq> [] \<Longrightarrow> cb_back c = Some (last xs)"
proof -
  assume rep: "cb_rep c xs" and ne: "xs \<noteq> []"
  then obtain m where m: "length xs = Suc m" by (cases xs) auto
  then have "cb_end c - 1 = cb_begin c + of_nat m" using rep by (simp add: cb_rep_def)
  then have "cb_back c = cb_at c (of_nat m)" by (simp add: cb_back_def cb_at_def)
  then show ?thesis using cb_at_rep [OF rep, of m] m ne by (simp add: last_conv_nth)
qed

interpretation cb: deque_impl cb_rep "2 ^ 63" cb_push_back cb_push_front cb_pop_back cb_pop_front
  "\<lambda>c i. cb_at c (of_nat i)" "\<lambda>c. unat (cb_size c)"
  by unfold_locales (rule cb_push_back_rep cb_push_front_rep cb_pop_back_rep cb_pop_front_rep cb_at_rep cb_rep_size; assumption)+

section \<open>erase\<close>

lemma move_fwd_rep:
  assumes p: "pow2 n" and n: "n \<le> 2 ^ 63"
  shows "window b xs s \<Longrightarrow> length s = n \<Longrightarrow> i \<le> j \<Longrightarrow> j \<le> length xs \<Longrightarrow>
    \<exists>s' ys. move_fwd (of_nat n - 1) (b + of_nat j) (b + of_nat (length xs)) (b + of_nat i) s =
        Some (s', b + of_nat (i + (length xs - j))) \<and> window b ys s' \<and> length s' = n \<and>
      length ys = length xs \<and> take (i + (length xs - j)) ys = take i xs @ drop j xs"
proof (induction "length xs - j" arbitrary: i j s xs)
  case 0
  then show ?case by (subst move_fwd.simps) auto
next
  case (Suc d)
  then have j: "j < length xs" by simp
  have l: "length xs \<le> 2 ^ 63" using window_length [OF Suc.prems(1)] Suc.prems(2) n by simp
  have "(of_nat j :: u64) \<noteq> of_nat (length xs)"
    using j l by (simp add: of_nat_inj_64)
  then have ne: "b + of_nat j \<noteq> b + of_nat (length xs)" by simp
  obtain s1 where s1: "assign (slot b n i) (xs ! j) s = Some s1" "window b (xs[i := xs ! j]) s1" "length s1 = n"
    using window_assign [OF Suc.prems(1), of i "xs ! j"] Suc.prems j by auto
  let ?xs = "xs[i := xs ! j]"
  have "d = length ?xs - Suc j" using Suc.hyps(2) by simp
  from Suc.hyps(1) [OF this s1(2) s1(3), of "Suc i"] Suc.prems j obtain s' ys where
    r: "move_fwd (of_nat n - 1) (b + of_nat (Suc j)) (b + of_nat (length xs)) (b + of_nat (Suc i)) s1 =
        Some (s', b + of_nat (Suc i + (length xs - Suc j)))"
      "window b ys s'" "length s' = n" "length ys = length xs"
      "take (Suc i + (length xs - Suc j)) ys = take (Suc i) ?xs @ drop (Suc j) ?xs" by (auto simp del: of_nat_Suc)
  have e: "Suc i + (length xs - Suc j) = i + (length xs - j)" using j by simp
  have "take (Suc i) ?xs @ drop (Suc j) ?xs = take i xs @ drop j xs"
    using Suc.prems j by (simp add: take_Suc_list_update Cons_nth_drop_Suc)
  moreover have "move_fwd (of_nat n - 1) (b + of_nat j) (b + of_nat (length xs)) (b + of_nat i) s =
      Some (s', b + of_nat (i + (length xs - j)))"
    using ne s1(1) r(1) window_fetch [OF Suc.prems(1) j] Suc.prems(2) unfolding e
    by (subst move_fwd.simps) (simp add: mask_slot [OF p] add.assoc add.commute [of 1])
  ultimately show ?case using r(2-4) r(5) [unfolded e] by metis
qed

lemma move_bwd_rep:
  assumes p: "pow2 n" and n: "n \<le> 2 ^ 63"
  shows "window b xs s \<Longrightarrow> length s = n \<Longrightarrow> i \<le> j \<Longrightarrow> j \<le> length xs \<Longrightarrow>
    \<exists>s' ys. move_bwd (of_nat n - 1) b (b + of_nat i) (b + of_nat j) s =
        Some (s', b + of_nat (j - i)) \<and> window b ys s' \<and> length s' = n \<and>
      length ys = length xs \<and> drop (j - i) ys = take i xs @ drop j xs"
proof (induction i arbitrary: j s xs)
  case 0
  then show ?case by (subst move_bwd.simps) auto
next
  case (Suc i)
  then obtain j' where j: "j = Suc j'" "i \<le> j'" by (cases j) auto
  have l: "length xs \<le> 2 ^ 63" using window_length [OF Suc.prems(1)] Suc.prems(2) n by simp
  have "(of_nat 0 :: u64) \<noteq> of_nat (Suc i)"
    using Suc.prems l by (subst of_nat_inj_64) simp_all
  then have ne: "b \<noteq> b + of_nat (Suc i)" by simp
  obtain s1 where s1: "assign (slot b n j') (xs ! i) s = Some s1" "window b (xs[j' := xs ! i]) s1" "length s1 = n"
    using window_assign [OF Suc.prems(1), of j' "xs ! i"] Suc.prems j by auto
  let ?xs = "xs[j' := xs ! i]"
  from Suc.IH [OF s1(2) s1(3) j(2)] Suc.prems j obtain s' ys where
    r: "move_bwd (of_nat n - 1) b (b + of_nat i) (b + of_nat j') s1 = Some (s', b + of_nat (j' - i))"
      "window b ys s'" "length s' = n" "length ys = length xs"
      "drop (j' - i) ys = take i ?xs @ drop j' ?xs" by auto
  have "drop j' ?xs = xs ! i # drop j xs"
    using Cons_nth_drop_Suc [of j' ?xs] Suc.prems j by simp
  then have "take i ?xs @ drop j' ?xs = take (Suc i) xs @ drop j xs"
    using Suc.prems j by (simp add: take_Suc_conv_app_nth)
  moreover have "move_bwd (of_nat n - 1) b (b + of_nat (Suc i)) (b + of_nat j) s = Some (s', b + of_nat (j' - i))"
    using ne s1(1) r(1) window_fetch [OF Suc.prems(1), of i] Suc.prems j
    by (subst move_bwd.simps) (simp add: mask_slot [OF p])
  ultimately show ?case using r j by auto
qed

text \<open>The cells from the \<open>k\<close>-th to below the \<open>l\<close>-th are destroyed, provided no index wraps.\<close>

lemma destroy_loop_rep:
  assumes p: "pow2 n"
  shows "cells_at b f s \<Longrightarrow> length s = n \<Longrightarrow> (\<And>j. k \<le> j \<Longrightarrow> j < l \<Longrightarrow> f j \<noteq> None) \<Longrightarrow> k \<le> l \<Longrightarrow> l \<le> n \<Longrightarrow>
    unat b + l < 2 ^ 64 \<Longrightarrow>
    \<exists>s'. destroy_loop (of_nat n - 1) (b + of_nat k) (b + of_nat l) s = Some s' \<and> length s' = n \<and>
      cells_at b (\<lambda>j. if k \<le> j \<and> j < l then None else f j) s'"
proof (induction "l - k" arbitrary: k f s)
  case 0
  then have "(\<lambda>j. if k \<le> j \<and> j < l then None else f j) = f" by (auto simp: fun_eq_iff)
  then show ?case using 0 by (subst destroy_loop.simps) simp
next
  case (Suc d)
  have u: "unat (b + of_nat m) = unat b + m" if "m \<le> l" for m
    using that Suc.prems(6) by (simp add: unat_word_ariths unat_of_nat)
  have lt: "b + of_nat k < b + of_nat l" using Suc.hyps(2) by (simp add: word_less_nat_alt u)
  have "k < length s" "f k \<noteq> None" using Suc.prems Suc.hyps(2) by simp_all
  then obtain s1 where s1: "destroy (slot b n k) s = Some s1" "cells_at b (f(k := None)) s1" "length s1 = n"
    using cells_at_destroy [OF Suc.prems(1), of k] Suc.prems(2) by blast
  have d: "d = l - Suc k" using Suc.hyps(2) by simp
  have g: "(\<lambda>j. if Suc k \<le> j \<and> j < l then None else (f(k := None)) j) = (\<lambda>j. if k \<le> j \<and> j < l then None else f j)"
    using Suc.hyps(2) by (auto simp: fun_eq_iff)
  have "\<exists>s'. destroy_loop (of_nat n - 1) (b + of_nat (Suc k)) (b + of_nat l) s1 = Some s' \<and> length s' = n \<and>
      cells_at b (\<lambda>j. if Suc k \<le> j \<and> j < l then None else (f(k := None)) j) s'"
    using Suc.prems Suc.hyps(2) by (intro Suc.hyps(1) [OF d s1(2) s1(3)]) auto
  then show ?case unfolding g using lt s1(1)
    by (subst destroy_loop.simps) (simp add: mask_slot [OF p] add.assoc add.commute [of 1])
qed

lemma sint_of_nat_63: "n < 2 ^ 63 \<Longrightarrow> sint (of_nat n :: u64) = int n"
  by (simp add: sint_uint unsigned_of_nat take_bit_nat_eq_self signed_take_bit_int_eq_self)

lemma cb_distance_of_nat: "j - i < 2 ^ 63 \<Longrightarrow> i \<le> j \<Longrightarrow> cb_distance (b + of_nat i) (b + of_nat j) = int (j - i)"
proof -
  assume "j - i < 2 ^ 63" "i \<le> j"
  moreover have "b + of_nat j - (b + of_nat i) = (of_nat (j - i) :: u64)"
    using \<open>i \<le> j\<close> by simp
  ultimately show ?thesis by (simp only: cb_distance_def sint_of_nat_63)
qed

lemma cb_erase_rep:
  assumes rep: "cb_rep c xs" and i: "i < j" and j: "j \<le> length xs"
    and wrap: "unat (cb_begin c) + length xs < 2 ^ 64"
  shows "\<exists>c' it. cb_erase (cb_begin c + of_nat i) (cb_begin c + of_nat j) c = Some (c', it) \<and>
      cb_rep c' (take i xs @ drop j xs) \<and> it = cb_begin c' + of_nat i"
proof -
  let ?b = "cb_begin c" and ?n = "length (storage c)" and ?m = "cb_capacity c - 1"
  have p: "pow2 ?n" using rep by (rule cb_rep_pow2) (use i j in auto)
  have n: "?n \<le> 2 ^ 63" using p by (rule pow2_le)
  have w: "window ?b xs (storage c)" and e: "cb_end c = ?b + of_nat (length xs)" and cap: "cb_capacity c = of_nat ?n"
    using rep by (simp_all add: cb_rep_def)
  have l: "length xs \<le> ?n" using w by (rule window_length)
  have ne: "?b + of_nat i \<noteq> ?b + of_nat j" using i j l n by (simp add: of_nat_inj_64)
  have "length xs - j < 2 ^ 63" "i < 2 ^ 63" using i j l n by linarith+
  then have less: "cb_distance ?b (?b + of_nat i) < cb_distance (?b + of_nat j) (cb_end c) \<longleftrightarrow> i < length xs - j"
    using cb_distance_of_nat [of i 0 ?b] cb_distance_of_nat [of "length xs" j ?b] j
    by (simp add: e) linarith
  show ?thesis
  proof (cases "i < length xs - j")
    case True
    obtain s ys where mv: "move_bwd ?m ?b (?b + of_nat i) (?b + of_nat j) (storage c) = Some (s, ?b + of_nat (j - i))"
      and ys: "window ?b ys s" "length s = ?n" "length ys = length xs" "drop (j - i) ys = take i xs @ drop j xs"
      using move_bwd_rep [OF p n w refl, of i j] i j unfolding cap by auto
    have some: "\<And>q. q < length ys \<Longrightarrow> nth_opt ys q \<noteq> None" by (simp add: nth_opt_def)
    have small: "j - i \<le> length xs" "unat ?b + (j - i) < 2 ^ 64" using i j wrap by linarith+
    have "cells_at ?b (nth_opt ys) s" using ys(1) by (simp add: window_def)
    then obtain s' where s': "destroy_loop ?m (?b + of_nat 0) (?b + of_nat (j - i)) s = Some s'" "length s' = ?n"
      "cells_at ?b (\<lambda>q. if 0 \<le> q \<and> q < j - i then None else nth_opt ys q) s'"
      using destroy_loop_rep [OF p _ ys(2), of ?b "nth_opt ys" 0 "j - i"] some ys(3) small l unfolding cap
      by auto
    have "window (?b + of_nat (j - i)) (drop (j - i) ys) s'"
      using s' p ys l j by (intro window_tail) simp_all
    moreover have "?b + of_nat j = ?b + of_nat (j - i) + of_nat i" using i by simp
    ultimately show ?thesis using True ne less mv s' ys p cap i j
      by (simp add: cb_erase_def cb_rep_def e)
  next
    case False
    have ij: "i \<le> j" using i by simp
    obtain s ys where mv: "move_fwd ?m (?b + of_nat j) (cb_end c) (?b + of_nat i) (storage c) =
        Some (s, ?b + of_nat (i + (length xs - j)))"
      and ys: "window ?b ys s" "length s = ?n" "length ys = length xs"
        "take (i + (length xs - j)) ys = take i xs @ drop j xs"
      using move_fwd_rep [OF p n w refl ij j] unfolding cap e by auto
    let ?k = "i + (length xs - j)"
    have some: "\<And>q. q < length ys \<Longrightarrow> nth_opt ys q \<noteq> None" by (simp add: nth_opt_def)
    have k: "?k \<le> length xs" using i j by linarith
    have "cells_at ?b (nth_opt ys) s" using ys(1) by (simp add: window_def)
    then obtain s' where s': "destroy_loop ?m (?b + of_nat ?k) (cb_end c) s = Some s'" "length s' = ?n"
      "cells_at ?b (\<lambda>q. if ?k \<le> q \<and> q < length xs then None else nth_opt ys q) s'"
      using destroy_loop_rep [OF p _ ys(2), of ?b "nth_opt ys" ?k "length xs"] some ys(3) k l wrap unfolding cap e
      by auto
    have "cells_at ?b (nth_opt (take ?k ys)) s'"
      using s'(3) by (rule cells_at_cong) (use ys(3) i j in \<open>auto simp: nth_opt_def\<close>)
    moreover have "length (take ?k ys) \<le> length s'" using ys(3) s'(2) l by simp
    ultimately have "window ?b (take ?k ys) s'" by (intro windowI)
    moreover have "length (take ?k ys) = ?k" using ys(3) i j by simp
    ultimately show ?thesis using False ne less mv s' ys p cap i j
      by (simp add: cb_erase_def cb_rep_def e)
  qed
qed

text \<open>When the indices have wrapped, \<open>clear\<close> destroys nothing: it only resets the end.\<close>

lemma clear_wrapped:
  assumes rep: "cb_rep c xs" and xs: "xs \<noteq> []" and wrap: "2 ^ 64 \<le> unat (cb_begin c) + length xs"
  shows "cb_clear c = Some (c\<lparr>cb_end := cb_begin c\<rparr>)"
proof -
  let ?b = "cb_begin c"
  have l: "length xs \<le> 2 ^ 63" "0 < length xs" using cb_rep_63 [OF rep] xs by simp_all
  have e: "cb_end c = ?b + of_nat (length xs)" using rep by (simp add: cb_rep_def)
  have ne: "?b \<noteq> cb_end c" using l of_nat_inj_64 [of "length xs" 0] by (simp add: e)
  have "unat ?b < 2 ^ 64" using unsigned_less [of ?b] by simp
  then have "unat (cb_end c) < unat ?b"
    using wrap l by (simp add: e unat_word_ariths unat_of_nat le_mod_geq)
  then have "\<not> ?b < cb_end c" by (simp add: word_less_nat_alt)
  moreover have "cb_distance ?b ?b = 0" "cb_distance (cb_end c) (cb_end c) = 0" by (simp_all add: cb_distance_def)
  ultimately show ?thesis using ne
    by (simp add: cb_clear_def cb_erase_def move_fwd.simps [of _ "cb_end c" "cb_end c"] destroy_loop.simps)
qed

section \<open>Expansion by copies that may throw\<close>

text \<open>
  \<open>expand\<close> for a type whose move constructor may throw: \<open>transfer\<close> copies the object and
  \<open>transfer_undo\<close> destroys the old one. \<open>copy x\<close> is \<open>None\<close> when the copy constructor throws, which
  leaves \<open>for_each\<close>; the handler destroys the copies, returns the new storage and throws on. The
  result is \<open>False\<close> with the buffer when the exception leaves \<open>expand\<close>.
\<close>

function copy_loop :: "('a \<Rightarrow> 'a option) \<Rightarrow> 'a cells \<Rightarrow> u64 \<Rightarrow> u64 \<Rightarrow> u64 \<Rightarrow> 'a cells \<Rightarrow> nat
    \<Rightarrow> (bool \<times> 'a cells \<times> nat) option" where
  "copy_loop copy old m i e new p =
     (if i \<noteq> e then do {
        x \<leftarrow> fetch (unat (i AND m)) old;
        (case copy x of
           None \<Rightarrow> Some (False, new, p)
         | Some y \<Rightarrow> do { new \<leftarrow> construct p y new; copy_loop copy old m (i + 1) e new (p + 1) }) }
      else Some (True, new, p))"
  by auto
termination
  by (relation "measure (\<lambda>(copy, old, m, i, e, new, p). unat (e - i))") (auto intro: unat_step_less)

declare copy_loop.simps [simp del]

primrec unwind :: "nat \<Rightarrow> 'a cells \<Rightarrow> 'a cells option" where
  "unwind 0 new = Some new"
| "unwind (Suc p) new = do { new \<leftarrow> destroy p new; unwind p new }"

definition transfer_undo_copy :: "nat \<Rightarrow> 'a cells \<times> nat \<Rightarrow> ('a cells \<times> nat) option" where
  "transfer_undo_copy obj st = do { old \<leftarrow> destroy obj (fst st); Some (old, snd st + 1) }"

definition expand_copying :: "('a \<Rightarrow> 'a option) \<Rightarrow> u64 \<Rightarrow> 'a cbuf \<Rightarrow> (bool \<times> 'a cbuf) option" where
  "expand_copying copy new_cap c = do {
     (ok, new, p) \<leftarrow> copy_loop copy (storage c) (cb_capacity c - 1) (cb_begin c) (cb_end c)
        (replicate (unat new_cap) None) 0;
     if ok then do {
       (old, p) \<leftarrow> for_each transfer_undo_copy c (storage c, 0);
       _ \<leftarrow> deallocate old;
       Some (True, \<lparr>storage = new, cb_begin = 0, cb_end = of_nat p, cb_capacity = new_cap\<rparr>) }
     else do {
       new \<leftarrow> unwind p new;
       _ \<leftarrow> deallocate new;
       Some (False, c) } }"

lemma copy_loop_rep:
  assumes p: "pow2 n" and w: "window b xs s" "length s = n" and l: "length xs \<le> 2 ^ 63" "length xs \<le> N"
    and c: "length ys = length xs"
  shows "j \<le> length xs \<Longrightarrow> (\<And>i y. i < length xs \<Longrightarrow> copy (xs ! i) = Some y \<Longrightarrow> ys ! i = y) \<Longrightarrow>
    \<exists>q. j \<le> q \<and> q \<le> length xs \<and> (\<forall>i. j \<le> i \<and> i < q \<longrightarrow> copy (xs ! i) \<noteq> None) \<and>
      (q < length xs \<longrightarrow> copy (xs ! q) = None) \<and>
      copy_loop copy s (of_nat n - 1) (b + of_nat j) (b + of_nat (length xs)) (filled N ys j) j =
        Some (q = length xs, filled N ys q, q)"
proof (induction "length xs - j" arbitrary: j)
  case 0
  then show ?case by (intro exI [of _ j]) (auto simp: copy_loop.simps)
next
  case (Suc d)
  then have j: "j < length xs" by simp
  then have "(of_nat j :: u64) \<noteq> of_nat (length xs)" using less_63_64 [OF l(1)] by (simp add: of_nat_inj_64)
  then have ne: "b + of_nat j \<noteq> b + of_nat (length xs)" by simp
  have f: "fetch (unat (b + of_nat j AND (of_nat n - 1))) s = Some (xs ! j)"
    using window_fetch [OF w(1) j] w(2) by (simp add: mask_slot [OF p])
  show ?case
  proof (cases "copy (xs ! j)")
    case None
    then show ?thesis using ne f j by (intro exI [of _ j]) (auto simp: copy_loop.simps [of _ _ _ "b + of_nat j"])
  next
    case (Some y)
    have d: "d = length xs - Suc j" using Suc.hyps(2) by simp
    have "ys ! j = y" using Suc.prems(2) [OF j Some] .
    then have con: "construct j y (filled N ys j) = Some (filled N ys (Suc j))"
      using construct_filled [of j ys N] j l c by simp
    obtain q where q: "Suc j \<le> q" "q \<le> length xs" "\<forall>i. Suc j \<le> i \<and> i < q \<longrightarrow> copy (xs ! i) \<noteq> None"
      "q < length xs \<longrightarrow> copy (xs ! q) = None"
      "copy_loop copy s (of_nat n - 1) (b + of_nat (Suc j)) (b + of_nat (length xs)) (filled N ys (Suc j)) (Suc j) =
        Some (q = length xs, filled N ys q, q)"
      using Suc.hyps(1) [OF d] Suc.prems(2) j by (metis Suc_leI)
    have "copy_loop copy s (of_nat n - 1) (b + of_nat j) (b + of_nat (length xs)) (filled N ys j) j =
        Some (q = length xs, filled N ys q, q)"
      using ne f Some con q(5) by (subst copy_loop.simps) (simp add: add.assoc add.commute [of 1])
    moreover have "\<forall>i. j \<le> i \<and> i < q \<longrightarrow> copy (xs ! i) \<noteq> None"
      using q(3) Some by (metis le_eq_less_or_eq Suc_leI option.distinct(1))
    ultimately show ?thesis using q by (intro exI [of _ q]) simp
  qed
qed

lemma unwind_filled: "q \<le> length ys \<Longrightarrow> q \<le> n \<Longrightarrow> unwind q (filled n ys q) = Some (replicate n None)"
proof (induction q)
  case 0
  then show ?case by (simp add: filled_def)
next
  case (Suc q)
  obtain m where m: "n - q = Suc m" using Suc.prems by (metis Suc_diff_Suc Suc_le_lessD)
  then have "n - Suc q = m" by simp
  then have "destroy q (filled n ys (Suc q)) = Some (filled n ys q)"
    using Suc.prems m
    by (simp add: destroy_def filled_def nth_append take_Suc_conv_app_nth list_update_append)
  then show ?case using Suc by simp
qed

lemma expand_copying_rep:
  assumes rep: "cb_rep c xs" and p: "pow2 (unat nc)" and l: "length xs \<le> unat nc"
  shows "if \<exists>x \<in> set xs. copy x = None then expand_copying copy nc c = Some (False, c)
    else \<exists>c'. expand_copying copy nc c = Some (True, c') \<and> cb_rep c' (map (the \<circ> copy) xs) \<and>
      length (storage c') = unat nc"
proof -
  let ?n = "length (storage c)" and ?b = "cb_begin c" and ?N = "unat nc" and ?ys = "map (the \<circ> copy) xs"
  have w: "window ?b xs (storage c)" and e: "cb_end c = ?b + of_nat (length xs)" and cap: "cb_capacity c = of_nat ?n"
    using rep by (simp_all add: cb_rep_def)
  have "\<exists>q \<le> length xs. (\<forall>i < q. copy (xs ! i) \<noteq> None) \<and> (q < length xs \<longrightarrow> copy (xs ! q) = None) \<and>
      copy_loop copy (storage c) (cb_capacity c - 1) ?b (cb_end c) (replicate ?N None) 0 = Some (q = length xs, filled ?N ?ys q, q)"
  proof (cases "xs = []")
    case True
    then show ?thesis by (simp add: e copy_loop.simps filled_def)
  next
    case False
    have "\<exists>q. 0 \<le> q \<and> q \<le> length xs \<and> (\<forall>i. 0 \<le> i \<and> i < q \<longrightarrow> copy (xs ! i) \<noteq> None) \<and>
      (q < length xs \<longrightarrow> copy (xs ! q) = None) \<and>
      copy_loop copy (storage c) (of_nat ?n - 1) (?b + of_nat 0) (?b + of_nat (length xs)) (filled ?N ?ys 0) 0 =
        Some (q = length xs, filled ?N ?ys q, q)"
      using cb_rep_pow2 [OF rep False] w l cb_rep_63 [OF rep] by (intro copy_loop_rep) simp_all
    then show ?thesis by (auto simp: e cap filled_def)
  qed
  then obtain q where q: "q \<le> length xs" "\<forall>i < q. copy (xs ! i) \<noteq> None" "q < length xs \<longrightarrow> copy (xs ! q) = None"
    and loop: "copy_loop copy (storage c) (cb_capacity c - 1) ?b (cb_end c) (replicate ?N None) 0 = Some (q = length xs, filled ?N ?ys q, q)"
    by blast
  show ?thesis
  proof (cases "q = length xs")
    case True
    have "\<exists>st. for_each transfer_undo_copy c (storage c, 0) = Some st \<and> eaten ?b ?n xs (length xs) (fst st) \<and> snd st = length xs"
    proof (rule for_each_rep [OF rep, where Inv = "\<lambda>j st. eaten ?b ?n xs j (fst st) \<and> snd st = j"])
      fix j st assume "j < length xs" "eaten ?b ?n xs j (fst st) \<and> snd st = j"
      then show "\<exists>st'. transfer_undo_copy (slot ?b ?n j) st = Some st' \<and> eaten ?b ?n xs (Suc j) (fst st') \<and> snd st' = Suc j"
        using eaten_step [of ?b ?n xs j "fst st"] window_length [OF w] by (auto simp: transfer_undo_copy_def)
    qed (simp add: eaten_0 [OF w])
    then obtain old where old: "for_each transfer_undo_copy c (storage c, 0) = Some (old, length xs)" "deallocate old = Some ()"
      using eaten_all deallocate_window by fastforce
    have "\<not> (\<exists>x \<in> set xs. copy x = None)" using True q(2) by (metis in_set_conv_nth)
    then show ?thesis using True p l window_filled [of ?ys ?N]
      by (simp add: expand_copying_def loop old cb_rep_def length_filled)
  next
    case False
    then have "\<exists>x \<in> set xs. copy x = None" using q by (metis le_neq_implies_less nth_mem)
    then show ?thesis using False q(1) l
      by (simp add: expand_copying_def loop unwind_filled deallocate_replicate)
  qed
qed

section \<open>The buffer is a deque\<close>

lemma clear_rep:
  assumes rep: "cb_rep c xs"
  shows "\<exists>c'. cb_clear c = Some c' \<and> cb_empty c' \<and>
    (if xs = [] \<or> unat (cb_begin c) + length xs < 2 ^ 64 then cb_rep c' []
     else c' = c\<lparr>cb_end := cb_begin c\<rparr> \<and> window (cb_begin c) xs (storage c') \<and> \<not> cb_rep c' [])"
proof (cases "xs = []")
  case True
  then have "cb_begin c = cb_end c" using rep by (simp add: cb_rep_def)
  then show ?thesis using rep True by (simp add: cb_clear_def cb_erase_def cb_empty_def)
next
  case ne: False
  have e: "cb_end c = cb_begin c + of_nat (length xs)" using rep by (simp add: cb_rep_def)
  show ?thesis
  proof (cases "unat (cb_begin c) + length xs < 2 ^ 64")
    case True
    obtain c' it where "cb_erase (cb_begin c + of_nat 0) (cb_begin c + of_nat (length xs)) c = Some (c', it)"
      "cb_rep c' (take 0 xs @ drop (length xs) xs)"
      using cb_erase_rep [OF rep _ _ True, of 0 "length xs"] ne by auto
    then show ?thesis using True by (auto simp: cb_clear_def e cb_rep_empty)
  next
    case False
    have "cb_clear c = Some (c\<lparr>cb_end := cb_begin c\<rparr>)"
      using False by (intro clear_wrapped [OF rep ne]) simp
    moreover have "\<not> window (cb_begin c) [] (storage c)"
    proof
      assume "window (cb_begin c) [] (storage c)"
      moreover have "window (cb_begin c) xs (storage c)" using rep by (simp add: cb_rep_def)
      ultimately show False using ne
        by (auto simp: window_def cells_at_def nth_opt_def dest!: spec [of _ 0] split: if_splits)
    qed
    ultimately show ?thesis using False ne rep by (simp add: cb_rep_def cb_empty_def)
  qed
qed

text \<open>
  C31. From the empty buffer, any run of pushes and pops at both ends, of accesses and of size queries
  that a list of at most \<open>2 ^ 63\<close> elements allows ends without an error and answers what the list
  answers, through all its expansions and all wrap-arounds of its indices. The buffer it leaves
  answers \<open>empty\<close>, \<open>front\<close> and \<open>back\<close> like the list, keeps the elements under \<open>reserve\<close>, and its
  destructor destroys every element: none is leaked, none destroyed twice.
\<close>

theorem circular_buffer_deque:
  assumes "deque_spec (2 ^ 63) ops [] = Some (out, ys)"
  shows "\<exists>c. deque_impl.run cb_push_back cb_push_front cb_pop_back cb_pop_front (\<lambda>c i. cb_at c (of_nat i))
        (\<lambda>c. unat (cb_size c)) ops new_cbuf = Some (out, c) \<and> cb_rep c ys \<and>
      (cb_empty c \<longleftrightarrow> ys = []) \<and> (ys = [] \<or> cb_front c = Some (hd ys) \<and> cb_back c = Some (last ys)) \<and>
      destroy_cbuf c = Some () \<and>
      (\<forall>m. unat m \<le> 2 ^ 63 \<longrightarrow> (\<exists>c'. cb_reserve m c = Some c' \<and> cb_rep c' ys \<and> unat m \<le> length (storage c')))"
proof -
  obtain c where c: "cb.run ops new_cbuf = Some (out, c)" "cb_rep c ys"
    using cb.run_refines [OF cb_rep_new assms] by blast
  then show ?thesis
    using cb_rep_empty [OF c(2)] cb_front_rep [OF c(2)] cb_back_rep [OF c(2)] destroy_rep [OF c(2)] cb_reserve_rep [OF c(2)]
    by blast
qed

lemma circular_buffer_deque_witness:
  "\<exists>c. deque_impl.run cb_push_back cb_push_front cb_pop_back cb_pop_front (\<lambda>c i. cb_at c (of_nat i))
      (\<lambda>c. unat (cb_size c)) [Push_back (1 :: nat), Push_front 2, Push_back 3, Pop_front, At 1, Count] new_cbuf
    = Some ([Elem 3, Num 2], c) \<and> cb_rep c [1, 3]"
  using circular_buffer_deque [of "[Push_back (1 :: nat), Push_front 2, Push_back 3, Pop_front, At 1, Count]"
      "[Elem 3, Num 2]" "[1, 3]"] by simp blast

text \<open>
  While the indices have not wrapped, \<open>erase\<close> of a nonempty range removes exactly its elements,
  whichever side it moves, destroys as many objects as it removes, and returns the iterator at the
  position of the range.
\<close>

theorem circular_erase:
  assumes "cb_rep c xs" "i < j" "j \<le> length xs" "unat (cb_begin c) + length xs < 2 ^ 64"
  shows "\<exists>c' it. cb_erase (cb_begin c + of_nat i) (cb_begin c + of_nat j) c = Some (c', it) \<and>
    cb_rep c' (take i xs @ drop j xs) \<and> it = cb_begin c' + of_nat i"
  by (rule cb_erase_rep [OF assms])

definition sample_cbuf :: "nat cbuf" where
  "sample_cbuf = \<lparr>storage = [Some 7, Some 8, Some 9, None], cb_begin = 0, cb_end = 3, cb_capacity = 4\<rparr>"

lemma sample_rep: "cb_rep sample_cbuf [7, 8, 9]"
proof -
  have "pow2 (length (storage sample_cbuf))" unfolding pow2_def by (intro exI [of _ 2]) (simp add: sample_cbuf_def)
  moreover have "cells_at 0 (nth_opt [7, 8, 9 :: nat]) [Some 7, Some 8, Some 9, None]"
  proof -
    have l: "length [Some 7, Some 8, Some 9, None :: nat option] = 4" by simp
    have "[Some 7, Some 8, Some 9, None] ! slot 0 4 j = nth_opt [7, 8, 9 :: nat] j" if "j < 4" for j
      using less_4_cases [OF that] by (elim disjE) (simp_all add: slot_def nth_opt_def)
    then show ?thesis unfolding cells_at_def l by blast
  qed
  ultimately show ?thesis by (simp add: cb_rep_def sample_cbuf_def window_def)
qed

lemma circular_erase_witness:
  "\<exists>c' it. cb_erase 0 1 sample_cbuf = Some (c', it) \<and> cb_rep c' [8, 9] \<and> it = cb_begin c'"
  using circular_erase [OF sample_rep, of 0 1] by (simp add: sample_cbuf_def)

text \<open>
  C32. \<open>clear\<close> always leaves a buffer that reports itself empty. If the indices have not wrapped, every
  element is destroyed. Otherwise, as after a single \<open>push_front\<close> on a new buffer, the loop
  \<open>while (i < e)\<close> compares a large begin with a small end and destroys nothing: only the end index
  changes, and each of the elements stays live in its cell (\<open>window\<close>), which the buffer takes for raw.
\<close>

theorem circular_clear:
  assumes "cb_rep c xs"
  shows "\<exists>c'. cb_clear c = Some c' \<and> cb_empty c' \<and>
    (if xs = [] \<or> unat (cb_begin c) + length xs < 2 ^ 64 then cb_rep c' []
     else c' = c\<lparr>cb_end := cb_begin c\<rparr> \<and> window (cb_begin c) xs (storage c') \<and> \<not> cb_rep c' [])"
  using assms by (rule clear_rep)

lemma push_front_wraps: "cb_push_front x new_cbuf = Some \<lparr>storage = [Some x], cb_begin = - 1, cb_end = 0, cb_capacity = 1\<rparr>"
  by (simp add: cb_push_front_def cb_maybe_expand_def new_cbuf_def cb_expand_def cb_expand_to_def for_each_def
      each_loop.simps deallocate_def construct_def cb_mask_def max_def)

lemma circular_clear_witness:
  "\<exists>c c'. cb_push_front (5 :: nat) new_cbuf = Some c \<and> cb_clear c = Some c' \<and> cb_empty c' \<and> storage c' = [Some 5] \<and>
     \<not> cb_rep c' []"
proof -
  obtain c where c: "cb_push_front (5 :: nat) new_cbuf = Some c" "cb_rep c [5]"
    using cb_push_front_rep [OF cb_rep_new, of "5 :: nat"] by auto
  then have b: "cb_begin c = - 1" "storage c = [Some 5]" by (auto simp: push_front_wraps)
  moreover have "unat (- 1 :: u64) = 2 ^ 64 - 1"
    by (simp add: unsigned_minus_1_eq_mask mask_eq_exp_minus_1)
  ultimately show ?thesis using circular_clear [OF c(2)] c(1) by auto
qed

text \<open>
  C33. Expansion of a buffer whose objects can only be copied is all or nothing: if every copy
  succeeds the new storage holds the copies and the old objects are destroyed; if a copy throws, the
  buffer is as before and the copies made so far are destroyed with the new storage.
\<close>

theorem expansion_strong_guarantee:
  assumes "cb_rep c xs" "pow2 (unat nc)" "length xs \<le> unat nc"
  shows "if \<exists>x \<in> set xs. copy x = None then expand_copying copy nc c = Some (False, c)
    else \<exists>c'. expand_copying copy nc c = Some (True, c') \<and> cb_rep c' (map (the \<circ> copy) xs) \<and>
      length (storage c') = unat nc"
  using assms by (rule expand_copying_rep)

lemma expansion_strong_guarantee_witness:
  "expand_copying (\<lambda>x. if x = 9 then None else Some x) 8 sample_cbuf = Some (False, sample_cbuf)"
proof -
  have "pow2 (unat (8 :: u64))" unfolding pow2_def by (intro exI [of _ 3]) simp
  from expansion_strong_guarantee [OF sample_rep this, of "\<lambda>x. if x = 9 then None else Some x"]
  show ?thesis by simp
qed

end
