(* ===== verification/Fixed_Buffer.thy ===== *)
theory Fixed_Buffer
  imports Cell_Window
begin

text \<open>
  \<open>abel/container/fixed_circular_buffer.h\<close>: a ring in an array of \<open>Capacity\<close> cells, a power of two. The
  capacity is the length of the array. A push into a full buffer constructs over a live object, which
  is an error here as it is undefined there. \<open>erase\<close> is not modelled: it does not compile when it is
  instantiated. The overloads of the insertions are one definition each.
\<close>

section \<open>The buffer and its operations\<close>

record 'a fbuf =
  fb_storage :: "'a cells"
  fb_begin :: u64
  fb_end :: u64

definition new_fbuf :: "nat \<Rightarrow> 'a fbuf" where
  "new_fbuf Capacity = \<lparr>fb_storage = replicate Capacity None, fb_begin = 0, fb_end = 0\<rparr>"

definition fb_capacity :: "'a fbuf \<Rightarrow> nat" where
  "fb_capacity c = length (fb_storage c)"

definition fb_mask :: "'a fbuf \<Rightarrow> u64 \<Rightarrow> nat" where
  "fb_mask c idx = unat idx mod fb_capacity c"

definition fb_empty :: "'a fbuf \<Rightarrow> bool" where
  "fb_empty c \<longleftrightarrow> fb_begin c = fb_end c"

definition fb_size :: "'a fbuf \<Rightarrow> u64" where
  "fb_size c = fb_end c - fb_begin c"

definition fb_push_front :: "'a \<Rightarrow> 'a fbuf \<Rightarrow> 'a fbuf option" where
  "fb_push_front x c = do {
     s \<leftarrow> construct (fb_mask c (fb_begin c - 1)) x (fb_storage c);
     Some (c\<lparr>fb_storage := s, fb_begin := fb_begin c - 1\<rparr>) }"

definition fb_push_back :: "'a \<Rightarrow> 'a fbuf \<Rightarrow> 'a fbuf option" where
  "fb_push_back x c = do {
     s \<leftarrow> construct (fb_mask c (fb_end c)) x (fb_storage c);
     Some (c\<lparr>fb_storage := s, fb_end := fb_end c + 1\<rparr>) }"

definition fb_front :: "'a fbuf \<Rightarrow> 'a option" where
  "fb_front c = fetch (fb_mask c (fb_begin c)) (fb_storage c)"

definition fb_back :: "'a fbuf \<Rightarrow> 'a option" where
  "fb_back c = fetch (fb_mask c (fb_end c - 1)) (fb_storage c)"

definition fb_pop_front :: "'a fbuf \<Rightarrow> 'a fbuf option" where
  "fb_pop_front c = do {
     s \<leftarrow> destroy (fb_mask c (fb_begin c)) (fb_storage c);
     Some (c\<lparr>fb_storage := s, fb_begin := fb_begin c + 1\<rparr>) }"

definition fb_pop_back :: "'a fbuf \<Rightarrow> 'a fbuf option" where
  "fb_pop_back c = do {
     s \<leftarrow> destroy (fb_mask c (fb_end c - 1)) (fb_storage c);
     Some (c\<lparr>fb_storage := s, fb_end := fb_end c - 1\<rparr>) }"

definition fb_at :: "'a fbuf \<Rightarrow> u64 \<Rightarrow> 'a option" where
  "fb_at c idx = fetch (fb_mask c (fb_begin c + idx)) (fb_storage c)"

text \<open>\<open>for (auto i = _begin; i != _end; ++i)\<close>.\<close>

function idx_loop :: "(u64 \<Rightarrow> 's \<Rightarrow> 's option) \<Rightarrow> u64 \<Rightarrow> u64 \<Rightarrow> 's \<Rightarrow> 's option" where
  "idx_loop f i e st = (if i \<noteq> e then do { st \<leftarrow> f i st; idx_loop f (i + 1) e st } else Some st)"
  by auto
termination
  by (relation "measure (\<lambda>(f, i, e, st). unat (e - i))") (auto intro: unat_step_less)

declare idx_loop.simps [simp del]

definition fb_clear :: "'a fbuf \<Rightarrow> 'a fbuf option" where
  "fb_clear c = do {
     s \<leftarrow> idx_loop (\<lambda>i. destroy (fb_mask c i)) (fb_begin c) (fb_end c) (fb_storage c);
     Some (c\<lparr>fb_storage := s, fb_begin := 0, fb_end := 0\<rparr>) }"

text \<open>The destructor and the move constructor index the array with \<open>i\<close>, not with \<open>mask(i)\<close>.\<close>

definition destroy_fbuf :: "'a fbuf \<Rightarrow> 'a cells option" where
  "destroy_fbuf c = idx_loop (\<lambda>i. destroy (unat i)) (fb_begin c) (fb_end c) (fb_storage c)"

text \<open>The new buffer and what is left of the argument: objects that were moved from stay live.\<close>

definition move_fbuf :: "'a fbuf \<Rightarrow> ('a fbuf \<times> 'a fbuf) option" where
  "move_fbuf x = do {
     s \<leftarrow> idx_loop (\<lambda>i s. do { v \<leftarrow> fetch (unat i) (fb_storage x); construct (unat i) v s })
       (fb_begin x) (fb_end x) (replicate (fb_capacity x) None);
     Some (\<lparr>fb_storage = s, fb_begin = fb_begin x, fb_end = fb_end x\<rparr>, x\<lparr>fb_begin := 0, fb_end := 0\<rparr>) }"

text \<open>\<open>operator=\<close>: the destructor of the target, then the move constructor in its place.\<close>

definition assign_fbuf :: "'a fbuf \<Rightarrow> 'a fbuf \<Rightarrow> ('a fbuf \<times> 'a fbuf) option" where
  "assign_fbuf this x = do { _ \<leftarrow> destroy_fbuf this; move_fbuf x }"

section \<open>What a buffer represents\<close>

definition fb_rep :: "nat \<Rightarrow> 'a fbuf \<Rightarrow> 'a list \<Rightarrow> bool" where
  "fb_rep n c xs \<longleftrightarrow> pow2 n \<and> length (fb_storage c) = n \<and> window (fb_begin c) xs (fb_storage c)
     \<and> fb_end c = fb_begin c + of_nat (length xs)"

lemma fb_rep_length: "fb_rep n c xs \<Longrightarrow> length xs \<le> n"
  by (auto simp: fb_rep_def window_def)

lemma fb_rep_63: "fb_rep n c xs \<Longrightarrow> length xs \<le> 2 ^ 63"
  using fb_rep_length [of n c xs] pow2_le [of n] by (simp add: fb_rep_def)

lemma fb_rep_new: "pow2 n \<Longrightarrow> fb_rep n (new_fbuf n) []"
  by (simp add: fb_rep_def new_fbuf_def)

lemma fb_rep_size: "fb_rep n c xs \<Longrightarrow> unat (fb_size c) = length xs"
  using fb_rep_63 [of n c xs] by (simp add: fb_rep_def fb_size_def unat_of_nat_63)

lemma fb_rep_empty: "fb_rep n c xs \<Longrightarrow> fb_empty c \<longleftrightarrow> xs = []"
  using fb_rep_63 [of n c xs] of_nat_inj_64 [of "length xs" 0] by (auto simp: fb_rep_def fb_empty_def)

lemma fb_mask_at: "fb_rep n c xs \<Longrightarrow> fb_mask c (b + of_nat j) = slot b n j"
  by (simp add: fb_rep_def fb_mask_def fb_capacity_def unat_plus_mod)

lemma fb_mask_0: "fb_rep n c xs \<Longrightarrow> fb_mask c b = slot b n 0"
  using fb_mask_at [of n c xs b 0] by simp

lemma fb_push_back_rep:
  assumes rep: "fb_rep n c xs" and l: "length xs < n"
  shows "\<exists>c'. fb_push_back x c = Some c' \<and> fb_rep n c' (xs @ [x])"
proof -
  have w: "window (fb_begin c) xs (fb_storage c)" and n: "length (fb_storage c) = n"
    and e: "fb_end c = fb_begin c + of_nat (length xs)" using rep by (simp_all add: fb_rep_def)
  obtain s where "construct (fb_mask c (fb_end c)) x (fb_storage c) = Some s"
    "window (fb_begin c) (xs @ [x]) s" "length s = n"
    unfolding e fb_mask_at [OF rep] using window_construct [OF w] l n by blast
  then show ?thesis using rep by (simp add: fb_push_back_def fb_rep_def add.assoc)
qed

lemma fb_push_front_rep:
  assumes rep: "fb_rep n c xs" and l: "length xs < n"
  shows "\<exists>c'. fb_push_front x c = Some c' \<and> fb_rep n c' (x # xs)"
proof -
  have w: "window (fb_begin c) xs (fb_storage c)" and n: "length (fb_storage c) = n" and p: "pow2 (length (fb_storage c))"
    using rep by (auto simp: fb_rep_def)
  obtain s where "construct (fb_mask c (fb_begin c - 1)) x (fb_storage c) = Some s"
    "window (fb_begin c - 1) (x # xs) s" "length s = n"
    unfolding fb_mask_0 [OF rep] using window_construct_front [OF p w] l n by blast
  then show ?thesis using rep by (simp add: fb_push_front_def fb_rep_def)
qed

lemma fb_pop_back_rep:
  assumes rep: "fb_rep n c (xs @ [x])"
  shows "\<exists>c'. fb_pop_back c = Some c' \<and> fb_rep n c' xs"
proof -
  have w: "window (fb_begin c) (xs @ [x]) (fb_storage c)" and n: "length (fb_storage c) = n"
    and e: "fb_end c - 1 = fb_begin c + of_nat (length xs)" using rep by (simp_all add: fb_rep_def)
  obtain s where "destroy (fb_mask c (fb_end c - 1)) (fb_storage c) = Some s"
    "window (fb_begin c) xs s" "length s = n"
    unfolding e fb_mask_at [OF rep] using window_destroy_back [OF w] n by blast
  then show ?thesis using rep e by (simp add: fb_pop_back_def fb_rep_def)
qed

lemma fb_pop_front_rep:
  assumes rep: "fb_rep n c (x # xs)"
  shows "\<exists>c'. fb_pop_front c = Some c' \<and> fb_rep n c' xs"
proof -
  have w: "window (fb_begin c) (x # xs) (fb_storage c)" and n: "length (fb_storage c) = n" and p: "pow2 (length (fb_storage c))"
    using rep by (auto simp: fb_rep_def)
  obtain s where "destroy (fb_mask c (fb_begin c)) (fb_storage c) = Some s"
    "window (fb_begin c + 1) xs s" "length s = n"
    unfolding fb_mask_0 [OF rep] using window_destroy_front [OF p w] n by blast
  then show ?thesis using rep by (simp add: fb_pop_front_def fb_rep_def add.assoc)
qed

lemma fb_at_rep: "fb_rep n c xs \<Longrightarrow> i < length xs \<Longrightarrow> fb_at c (of_nat i) = Some (xs ! i)"
  using window_fetch [of "fb_begin c" xs "fb_storage c" i] by (simp add: fb_at_def fb_mask_at) (simp add: fb_rep_def)

lemma fb_front_rep: "fb_rep n c xs \<Longrightarrow> xs \<noteq> [] \<Longrightarrow> fb_front c = Some (hd xs)"
  using fb_at_rep [of n c xs 0] by (simp add: fb_front_def fb_at_def hd_conv_nth)

lemma fb_back_rep: "fb_rep n c xs \<Longrightarrow> xs \<noteq> [] \<Longrightarrow> fb_back c = Some (last xs)"
proof -
  assume rep: "fb_rep n c xs" and ne: "xs \<noteq> []"
  then obtain m where m: "length xs = Suc m" by (cases xs) auto
  then have "fb_end c - 1 = fb_begin c + of_nat m" using rep by (simp add: fb_rep_def)
  then have "fb_back c = fb_at c (of_nat m)" by (simp add: fb_back_def fb_at_def)
  then show ?thesis using fb_at_rep [OF rep, of m] m ne by (simp add: last_conv_nth)
qed

interpretation fb: deque_impl "fb_rep n" n fb_push_back fb_push_front fb_pop_back fb_pop_front
  "\<lambda>c i. fb_at c (of_nat i)" "\<lambda>c. unat (fb_size c)" for n
  by unfold_locales (rule fb_push_back_rep fb_push_front_rep fb_pop_back_rep fb_pop_front_rep fb_at_rep fb_rep_size; assumption)+

section \<open>Loops over the elements\<close>

lemma idx_loop_window:
  assumes step: "\<And>j st. j < l \<Longrightarrow> Inv j st \<Longrightarrow> \<exists>st'. f (b + of_nat j) st = Some st' \<and> Inv (Suc j) st'"
    and l: "l \<le> 2 ^ 63" and init: "Inv j st" "j \<le> l"
  shows "\<exists>st'. idx_loop f (b + of_nat j) (b + of_nat l) st = Some st' \<and> Inv l st'"
  using init
proof (induction "l - j" arbitrary: j st)
  case 0
  then show ?case by (subst idx_loop.simps) auto
next
  case (Suc d)
  then have j: "j < l" by simp
  then have "(of_nat j :: u64) \<noteq> of_nat l" using less_63_64 [OF l] by (simp add: of_nat_inj_64)
  then have ne: "b + of_nat j \<noteq> b + of_nat l" by simp
  obtain st1 where st1: "f (b + of_nat j) st = Some st1" "Inv (Suc j) st1" using step [OF j Suc.prems(1)] by blast
  have d: "d = l - Suc j" using Suc.hyps(2) by simp
  obtain st' where "idx_loop f (b + of_nat (Suc j)) (b + of_nat l) st1 = Some st'" "Inv l st'"
    using Suc.hyps(1) [OF d st1(2)] j by (auto simp del: of_nat_Suc)
  then show ?case using ne st1(1) by (subst idx_loop.simps) (simp add: add.assoc add.commute [of 1])
qed

text \<open>A loop that returns has passed every index.\<close>

lemma idx_loop_visits:
  assumes keep: "\<And>i st st'. P st \<Longrightarrow> f i st = Some st' \<Longrightarrow> P st'"
  shows "idx_loop f i e st = Some st' \<Longrightarrow> P st \<Longrightarrow> j < unat (e - i) \<Longrightarrow> \<exists>st1. P st1 \<and> f (i + of_nat j) st1 \<noteq> None"
proof (induction "unat (e - i)" arbitrary: i st j rule: less_induct)
  case less
  have ne: "i \<noteq> e" using less.prems(3) by auto
  then obtain st1 where st1: "f i st = Some st1" "idx_loop f (i + 1) e st1 = Some st'"
    using less.prems(1) by (subst (asm) idx_loop.simps) (auto split: bind_splits)
  show ?case
  proof (cases j)
    case 0
    then show ?thesis using less.prems(2) st1(1) by auto
  next
    case (Suc k)
    have "e - i \<noteq> 0" using ne by simp
    then have "unat (e - i - 1) = unat (e - i) - 1" by (rule unat_minus_one)
    then have "k < unat (e - (i + 1))" using less.prems(3) Suc by (simp add: diff_diff_eq)
    then obtain st2 where "P st2" "f (i + 1 + of_nat k) st2 \<noteq> None"
      using less.hyps [OF unat_step_less [OF ne] st1(2) keep [OF less.prems(2) st1(1)]] by blast
    then show ?thesis using Suc by (auto simp: add.assoc)
  qed
qed

text \<open>The indices of a window that does not pass the end of the array are its cells.\<close>

lemma unmasked_slot:
  assumes "unat b + l \<le> n" "n \<le> 2 ^ 63" "j < l" shows "unat (b + of_nat j) = slot b n j"
proof -
  have "unat b + j < n" "unat b + j < 2 ^ 64" using assms by simp_all
  moreover have "unat (of_nat j :: u64) = j" using assms by (intro unat_of_nat_63) simp
  ultimately show ?thesis by (simp add: slot_def unat_word_ariths)
qed

lemma unmasked_in_range:
  assumes l: "0 < l" "l \<le> 2 ^ 63" "n \<le> 2 ^ 63" and all: "\<And>j. j < l \<Longrightarrow> unat (b + of_nat j :: u64) < n"
  shows "unat b + l \<le> n"
proof -
  have "unat b < n" using all [of 0] l(1) by simp
  moreover have j: "unat (of_nat (l - 1) :: u64) = l - 1" using l(2) by (intro unat_of_nat_63) linarith
  ultimately have "unat b + unat (of_nat (l - 1) :: u64) < 2 ^ 64" unfolding j using l by simp
  then have "unat (b + of_nat (l - 1)) = unat b + unat (of_nat (l - 1) :: u64)"
    by (subst unat_add_lem [symmetric]) simp
  then have "unat (b + of_nat (l - 1)) = unat b + (l - 1)" unfolding j .
  then show ?thesis using all [of "l - 1"] l(1) by linarith
qed

lemma fb_clear_rep:
  assumes rep: "fb_rep n c xs" shows "\<exists>c'. fb_clear c = Some c' \<and> fb_rep n c' []"
proof -
  have w: "window (fb_begin c) xs (fb_storage c)" and n: "length (fb_storage c) = n"
    and e: "fb_end c = fb_begin c + of_nat (length xs)" using rep by (simp_all add: fb_rep_def)
  have "\<exists>s. idx_loop (\<lambda>i. destroy (fb_mask c i)) (fb_begin c + of_nat 0) (fb_begin c + of_nat (length xs)) (fb_storage c) = Some s
      \<and> eaten (fb_begin c) n xs (length xs) s"
  proof (rule idx_loop_window [where Inv = "eaten (fb_begin c) n xs"])
    show "eaten (fb_begin c) n xs 0 (fb_storage c)" using eaten_0 [OF w] n by simp
  qed (use eaten_step fb_rep_length [OF rep] fb_rep_63 [OF rep] in \<open>auto simp: fb_mask_at [OF rep]\<close>)
  then obtain s where s: "idx_loop (\<lambda>i. destroy (fb_mask c i)) (fb_begin c) (fb_end c) (fb_storage c) = Some s"
    "eaten (fb_begin c) n xs (length xs) s"
    by (auto simp: e)
  have "length s = n" "window 0 [] s"
    using s(2) eaten_all [OF s(2)] by (simp_all add: eaten_def window_Nil_iff)
  then show ?thesis using s(1) rep by (simp add: fb_clear_def fb_rep_def)
qed

lemma destroy_length: "destroy i s = Some s' \<Longrightarrow> length s' = length s"
  by (auto simp: destroy_def split: if_splits)

lemma destroy_fbuf_rep:
  assumes rep: "fb_rep n c xs"
  shows "destroy_fbuf c = (if xs = [] \<or> unat (fb_begin c) + length xs \<le> n then Some (replicate n None) else None)"
proof -
  let ?b = "fb_begin c" and ?s = "fb_storage c"
  have w: "window ?b xs ?s" and n: "length ?s = n" and p: "n \<le> 2 ^ 63"
    and e: "fb_end c = ?b + of_nat (length xs)" using rep pow2_le [of n] by (simp_all add: fb_rep_def)
  have l: "length xs \<le> 2 ^ 63" "length xs \<le> n" using fb_rep_63 [OF rep] fb_rep_length [OF rep] by simp_all
  show ?thesis
  proof (cases "xs = [] \<or> unat ?b + length xs \<le> n")
    case True
    have "\<exists>s. idx_loop (\<lambda>i. destroy (unat i)) (?b + of_nat 0) (?b + of_nat (length xs)) ?s = Some s
        \<and> eaten ?b n xs (length xs) s"
    proof (rule idx_loop_window [where Inv = "eaten ?b n xs"])
      show "eaten ?b n xs 0 ?s" using eaten_0 [OF w] n by simp
      fix j st assume j: "j < length xs" "eaten ?b n xs j st"
      then have "unat (?b + of_nat j) = slot ?b n j" using True unmasked_slot [OF _ p] by auto
      then show "\<exists>st'. destroy (unat (?b + of_nat j)) st = Some st' \<and> eaten ?b n xs (Suc j) st'"
        using eaten_step [OF j(2) l(2) j(1)] by simp
    qed (use l in simp_all)
    then obtain s where s: "destroy_fbuf c = Some s" "eaten ?b n xs (length xs) s" by (auto simp: destroy_fbuf_def e)
    have "s = replicate n None" using eaten_all [OF s(2)] s(2) by (auto simp: eaten_def window_Nil_iff)
    then show ?thesis using s(1) True by simp
  next
    case False
    have "destroy_fbuf c = None"
    proof (rule ccontr)
      assume "destroy_fbuf c \<noteq> None"
      then obtain s where s: "idx_loop (\<lambda>i. destroy (unat i)) ?b (fb_end c) ?s = Some s"
        by (auto simp: destroy_fbuf_def)
      have "unat (fb_end c - ?b) = length xs" using unat_of_nat_63 [OF l(1)] by (simp add: e)
      have keep: "\<And>i st st'. length st = n \<Longrightarrow> destroy (unat i) st = Some st' \<Longrightarrow> length st' = n"
        using destroy_length by metis
      have "unat (?b + of_nat j) < n" if "j < length xs" for j
      proof -
        have "\<exists>st :: 'a cells. length st = n \<and> destroy (unat (?b + of_nat j)) st \<noteq> None"
          by (rule idx_loop_visits [where P = "\<lambda>st. length st = n" and f = "\<lambda>i. destroy (unat i)" and i = ?b
                and e = "fb_end c" and st = ?s and st' = s])
            (use keep s n that \<open>unat (fb_end c - ?b) = length xs\<close> in auto)
        then show ?thesis by (auto simp: destroy_def split: if_splits)
      qed
      then show False using unmasked_in_range [of "length xs" n ?b] False l p by auto
    qed
    then show ?thesis using False by simp
  qed
qed

lemma window_take_construct:
  assumes "window b (take j xs) s" "length s = n" "j < length xs" "length xs \<le> n"
  shows "\<exists>s'. construct (slot b n j) (xs ! j) s = Some s' \<and> window b (take (Suc j) xs) s' \<and> length s' = n"
  using window_construct [OF assms(1), of "xs ! j"] assms(2-4) by (simp add: take_Suc_conv_app_nth)

lemma move_fbuf_rep:
  assumes rep: "fb_rep n c xs"
  shows "if xs = [] \<or> unat (fb_begin c) + length xs \<le> n
    then \<exists>d. move_fbuf c = Some (d, c\<lparr>fb_begin := 0, fb_end := 0\<rparr>) \<and> fb_rep n d xs
    else move_fbuf c = None"
proof -
  let ?b = "fb_begin c" and ?s = "fb_storage c"
  let ?f = "\<lambda>i s. do { v \<leftarrow> fetch (unat i) ?s; construct (unat i) v s }"
  have w: "window ?b xs ?s" and n: "length ?s = n" "pow2 n" and p: "n \<le> 2 ^ 63"
    and e: "fb_end c = ?b + of_nat (length xs)" using rep pow2_le [of n] by (simp_all add: fb_rep_def)
  have l: "length xs \<le> 2 ^ 63" "length xs \<le> n" using fb_rep_63 [OF rep] fb_rep_length [OF rep] by simp_all
  let ?init = "replicate n (None :: 'a option)"
  have mv: "move_fbuf c = do { s \<leftarrow> idx_loop ?f ?b (fb_end c) ?init;
      Some (\<lparr>fb_storage = s, fb_begin = ?b, fb_end = fb_end c\<rparr>, c\<lparr>fb_begin := 0, fb_end := 0\<rparr>) }"
    by (simp add: move_fbuf_def fb_capacity_def n)
  show ?thesis
  proof (cases "xs = [] \<or> unat ?b + length xs \<le> n")
    case True
    let ?Inv = "\<lambda>j s. window ?b (take j xs) s \<and> length s = n"
    have "\<exists>s. idx_loop ?f (?b + of_nat 0) (?b + of_nat (length xs)) ?init = Some s \<and> ?Inv (length xs) s"
    proof (rule idx_loop_window [where Inv = ?Inv])
      fix j st assume j: "j < length xs" "?Inv j st"
      then have "unat (?b + of_nat j) = slot ?b n j" using True unmasked_slot [OF _ p] by auto
      moreover have "fetch (slot ?b n j) ?s = Some (xs ! j)" using window_fetch [OF w j(1)] n by simp
      ultimately show "\<exists>st'. ?f (?b + of_nat j) st = Some st' \<and> ?Inv (Suc j) st'"
        using window_take_construct [of ?b j xs st n] j l(2) by simp
    qed (use l in simp_all)
    then obtain s where s: "idx_loop ?f ?b (fb_end c) ?init = Some s" "window ?b xs s" "length s = n" by (auto simp: e)
    then show ?thesis using True n by (simp add: mv fb_rep_def e)
  next
    case False
    have "move_fbuf c = None"
    proof (rule ccontr)
      assume "move_fbuf c \<noteq> None"
      then obtain s where s: "idx_loop ?f ?b (fb_end c) ?init = Some s" by (auto simp: mv split: bind_splits)
      have "unat (fb_end c - ?b) = length xs" using unat_of_nat_63 [OF l(1)] by (simp add: e)
      then have "unat (?b + of_nat j) < n" if "j < length xs" for j
        using idx_loop_visits [where P = "\<lambda>st. True", OF _ s, of j] that n
        by (auto simp: fetch_def split: if_splits)
      then show False using unmasked_in_range [of "length xs" n ?b] False l p by auto
    qed
    then show ?thesis using False by simp
  qed
qed

section \<open>Properties\<close>

text \<open>
  C34. A fixed buffer is a bounded deque: from the empty buffer every sequence of insertions and removals at both ends,
  accesses and size queries that respects the capacity answers what a list answers, however often the
  indices wrap; the ends, emptiness and \<open>clear\<close> are those of the list.
\<close>

theorem fixed_buffer_deque:
  assumes n: "pow2 n" and ops: "deque_spec n ops [] = Some (out, xs)"
  shows "\<exists>c. fb.run ops (new_fbuf n) = Some (out, c) \<and>
    (fb_empty c \<longleftrightarrow> xs = []) \<and> (xs = [] \<or> fb_front c = Some (hd xs) \<and> fb_back c = Some (last xs)) \<and>
    fb_capacity c = n \<and> (\<exists>d. fb_clear c = Some d \<and> fb_storage d = replicate n None \<and> fb_empty d)"
proof -
  obtain c where c: "fb.run ops (new_fbuf n) = Some (out, c)" "fb_rep n c xs"
    using fb.run_refines [OF fb_rep_new [OF n] ops] by blast
  obtain d where d: "fb_clear c = Some d" "fb_rep n d []" using fb_clear_rep [OF c(2)] by blast
  have "fb_storage d = replicate n None" using d(2) by (auto simp: fb_rep_def window_Nil_iff)
  moreover have "fb_capacity c = n" using c(2) by (simp add: fb_rep_def fb_capacity_def)
  ultimately show ?thesis
    using c d fb_rep_empty [OF d(2)] fb_rep_empty [OF c(2)] fb_front_rep [OF c(2)] fb_back_rep [OF c(2)] by auto
qed

theorem fixed_buffer_deque_witness:
  "\<exists>c. fb.run [Push_front (1 :: nat), Push_back 2, Pop_front, Push_back 3, Count, At 1] (new_fbuf 2) = Some ([Num 2, Elem 3], c) \<and>
    fb_front c = Some 2"
proof -
  have "pow2 2" unfolding pow2_def by (rule exI [of _ 1]) simp
  then show ?thesis
    using fixed_buffer_deque [of 2 "[Push_front (1 :: nat), Push_back 2, Pop_front, Push_back 3, Count, At 1]"] by auto
qed

text \<open>
  C35. The destructor and the move constructor forget the mask: on a buffer that holds \<open>xs\<close> they are defined
  exactly when it is empty or its window does not pass the end of the array, and access memory outside the
  array otherwise. When defined, the move gives a buffer with the same elements but leaves the moved-from
  objects of the argument alive behind an empty range of indices.
\<close>

theorem fixed_buffer_unmasked:
  assumes c: "fb_rep n c xs"
  shows "destroy_fbuf c = (if xs = [] \<or> unat (fb_begin c) + length xs \<le> n then Some (replicate n None) else None) \<and>
    (if xs = [] \<or> unat (fb_begin c) + length xs \<le> n
     then \<exists>d. move_fbuf c = Some (d, c\<lparr>fb_begin := 0, fb_end := 0\<rparr>) \<and> fb_rep n d xs
     else move_fbuf c = None)"
  using destroy_fbuf_rep [OF c] move_fbuf_rep [OF c] by blast

theorem fixed_buffer_unmasked_witness:
  "\<exists>c. fb_push_front (7 :: nat) (new_fbuf 2) = Some c \<and> fb_front c = Some 7 \<and> destroy_fbuf c = None"
proof -
  have p: "pow2 2" unfolding pow2_def by (rule exI [of _ 1]) simp
  obtain c where c: "fb_push_front (7 :: nat) (new_fbuf 2) = Some c" "fb_rep 2 c [7]"
    using fb_push_front_rep [OF fb_rep_new [OF p], of 7] by auto
  then have "fb_begin c = - 1" by (auto simp: fb_push_front_def new_fbuf_def split: bind_splits)
  then show ?thesis using fixed_buffer_unmasked [OF c(2)] c fb_front_rep [OF c(2)]
    by (simp add: unsigned_minus_1_eq_mask mask_eq_exp_minus_1)
qed

end
