(* ===== verification/Duration.thy ===== *)
theory Duration
  imports Int128
begin

text \<open>
  \<open>abel::duration\<close> of \<open>abel/chrono/time.h\<close> and \<open>duration.cc\<close>: whole seconds and quarters of a
  nanosecond, with infinities, in saturating arithmetic. The operations on \<open>double\<close> are not modelled.
  A signed operation that would overflow is undefined (\<open>None\<close>); the unsigned detours of the source are
  written as they are. The specification is arithmetic on tick counts extended by two infinities.
\<close>

section \<open>Representation\<close>

definition kTicksPerNanosecond :: int where "kTicksPerNanosecond = 4"
definition kTicksPerSecond :: int where "kTicksPerSecond = 4000000000"

record duration =
  rep_hi :: int
  rep_lo :: u32

definition make_duration :: "int \<Rightarrow> u32 \<Rightarrow> duration" where
  "make_duration hi lo = \<lparr>rep_hi = hi, rep_lo = lo\<rparr>"

text \<open>The overload whose ticks are an \<open>int64_t\<close>.\<close>

definition make_duration_ticks :: "int \<Rightarrow> int \<Rightarrow> duration" where
  "make_duration_ticks hi lo = make_duration hi (word_of_int lo)"

definition make_normalized_duration :: "int \<Rightarrow> int \<Rightarrow> duration option" where
  "make_normalized_duration sec ticks =
     (if ticks < 0 then do { sec \<leftarrow> ck (sec - 1); Some (make_duration_ticks sec (ticks + kTicksPerSecond)) }
      else Some (make_duration_ticks sec ticks))"

definition zero_duration :: duration where
  "zero_duration = make_duration 0 0"

definition infinite_duration :: duration where
  "infinite_duration = make_duration i64_max (- 1)"

definition is_infinite_duration :: "duration \<Rightarrow> bool" where
  "is_infinite_duration d \<longleftrightarrow> rep_lo d = - 1"

definition opposite_infinity :: "duration \<Rightarrow> duration" where
  "opposite_infinity d = (if rep_hi d < 0 then make_duration i64_max (- 1) else make_duration i64_min (- 1))"

definition negate_and_subtract_one :: "int \<Rightarrow> int option" where
  "negate_and_subtract_one n =
     (if n < 0 then do { m \<leftarrow> ck (n + 1); ck (- m) } else do { m \<leftarrow> ck (- n); ck (m - 1) })"

definition dur_neg :: "duration \<Rightarrow> duration option" where
  "dur_neg d =
     (if rep_lo d = 0 then
        if rep_hi d = i64_min then Some infinite_duration
        else do { h \<leftarrow> ck (- rep_hi d); Some (make_duration h 0) }
      else if is_infinite_duration d then Some (opposite_infinity d)
      else do {
        h \<leftarrow> negate_and_subtract_one (rep_hi d);
        Some (make_duration_ticks h (kTicksPerSecond - uint (rep_lo d))) })"

text \<open>\<open>-infinite_duration()\<close>, as the source writes it.\<close>

definition neg_infinite_duration :: duration where
  "neg_infinite_duration = the (dur_neg infinite_duration)"

definition dur_lt :: "duration \<Rightarrow> duration \<Rightarrow> bool" where
  "dur_lt lhs rhs =
     (if rep_hi lhs \<noteq> rep_hi rhs then rep_hi lhs < rep_hi rhs
      else if rep_hi lhs = i64_min then rep_lo lhs + 1 < rep_lo rhs + 1
      else rep_lo lhs < rep_lo rhs)"

definition dur_gt :: "duration \<Rightarrow> duration \<Rightarrow> bool" where "dur_gt lhs rhs \<longleftrightarrow> dur_lt rhs lhs"
definition dur_ge :: "duration \<Rightarrow> duration \<Rightarrow> bool" where "dur_ge lhs rhs \<longleftrightarrow> \<not> dur_lt lhs rhs"
definition dur_le :: "duration \<Rightarrow> duration \<Rightarrow> bool" where "dur_le lhs rhs \<longleftrightarrow> \<not> dur_lt rhs lhs"

definition dur_eq :: "duration \<Rightarrow> duration \<Rightarrow> bool" where
  "dur_eq lhs rhs \<longleftrightarrow> rep_hi lhs = rep_hi rhs \<and> rep_lo lhs = rep_lo rhs"

definition abs_duration :: "duration \<Rightarrow> duration option" where
  "abs_duration d = (if dur_lt d zero_duration then dur_neg d else Some d)"

section \<open>Additive operators\<close>

definition EncodeTwosComp :: "int \<Rightarrow> u64" where "EncodeTwosComp v = word_of_int v"
definition DecodeTwosComp :: "u64 \<Rightarrow> int" where "DecodeTwosComp v = sint v"

definition dur_add :: "duration \<Rightarrow> duration \<Rightarrow> duration" where
  "dur_add this rhs =
     (if is_infinite_duration this then this
      else if is_infinite_duration rhs then rhs
      else
        let orig_rep_hi = rep_hi this;
            hi = DecodeTwosComp (EncodeTwosComp (rep_hi this) + EncodeTwosComp (rep_hi rhs));
            (hi, lo) = (if kTicksPerSecond - uint (rep_lo rhs) \<le> uint (rep_lo this)
                        then (DecodeTwosComp (EncodeTwosComp hi + 1), word_of_int (uint (rep_lo this) - kTicksPerSecond))
                        else (hi, rep_lo this));
            lo = lo + rep_lo rhs
        in if (if rep_hi rhs < 0 then orig_rep_hi < hi else hi < orig_rep_hi)
           then (if rep_hi rhs < 0 then neg_infinite_duration else infinite_duration)
           else make_duration hi lo)"

definition dur_sub :: "duration \<Rightarrow> duration \<Rightarrow> duration" where
  "dur_sub this rhs =
     (if is_infinite_duration this then this
      else if is_infinite_duration rhs
      then (if 0 \<le> rep_hi rhs then neg_infinite_duration else infinite_duration)
      else
        let orig_rep_hi = rep_hi this;
            hi = DecodeTwosComp (EncodeTwosComp (rep_hi this) - EncodeTwosComp (rep_hi rhs));
            (hi, lo) = (if rep_lo this < rep_lo rhs
                        then (DecodeTwosComp (EncodeTwosComp hi - 1), word_of_int (uint (rep_lo this) + kTicksPerSecond))
                        else (hi, rep_lo this));
            lo = lo - rep_lo rhs
        in if (if rep_hi rhs < 0 then hi < orig_rep_hi else orig_rep_hi < hi)
           then (if 0 \<le> rep_hi rhs then neg_infinite_duration else infinite_duration)
           else make_duration hi lo)"

section \<open>Multiplicative operators\<close>

definition MakeU128 :: "int \<Rightarrow> uint128 option" where
  "MakeU128 a =
     (if a < 0 then do {
        a \<leftarrow> ck (a + 1);
        a \<leftarrow> ck (- a);
        Some (uint128_add (uint128_inc (uint128_of_signed 0)) (uint128_of_unsigned (word_of_int a))) }
      else Some (uint128_add (uint128_of_signed 0) (uint128_of_unsigned (word_of_int a))))"

definition MakeU128Ticks :: "duration \<Rightarrow> uint128 option" where
  "MakeU128Ticks d = do {
     (hi, lo) \<leftarrow>
       (if rep_hi d < 0 then do {
          hi \<leftarrow> ck (rep_hi d + 1);
          hi \<leftarrow> ck (- hi);
          Some (hi, word_of_int (kTicksPerSecond - uint (rep_lo d))) }
        else Some (rep_hi d, rep_lo d));
     let u = uint128_of_unsigned (word_of_int hi) in
     let u = uint128_mul u (uint128_of_unsigned (word_of_int kTicksPerSecond)) in
     Some (uint128_add u (uint128_of_unsigned (ucast (lo :: u32)))) }"

definition kMaxRepHi64 :: u64 where "kMaxRepHi64 = 0x77359400"

text \<open>The last part of \<open>MakeDurationFromU128\<close>: the sign.\<close>

definition signed_duration :: "int \<Rightarrow> u32 \<Rightarrow> bool \<Rightarrow> duration option" where
  "signed_duration hi lo is_neg =
     (if is_neg then do {
        hi \<leftarrow> ck (- hi);
        if lo \<noteq> 0 then do { hi \<leftarrow> ck (hi - 1); Some (make_duration hi (word_of_int (kTicksPerSecond - uint lo))) }
        else Some (make_duration hi lo) }
      else Some (make_duration hi lo))"

definition MakeDurationFromU128 :: "uint128 \<Rightarrow> bool \<Rightarrow> duration option" where
  "MakeDurationFromU128 u is_neg =
     (let h64 = Uint128High64 u; l64 = Uint128Low64 u; tps = (word_of_int kTicksPerSecond :: u64) in
      if h64 = 0 then
        let hi = l64 div tps in signed_duration (sint hi) (ucast (l64 - hi * tps)) is_neg
      else if kMaxRepHi64 \<le> h64 then
        (if is_neg \<and> h64 = kMaxRepHi64 \<and> l64 = 0 then Some (make_duration i64_min 0)
         else Some (if is_neg then neg_infinite_duration else infinite_duration))
      else do {
        hi \<leftarrow> uint128_div u (uint128_of_unsigned tps);
        signed_duration (sint (Uint128Low64 hi))
          (ucast (Uint128Low64 (uint128_sub u (uint128_mul hi (uint128_of_unsigned tps))))) is_neg })"

definition SafeMultiply :: "uint128 \<Rightarrow> uint128 \<Rightarrow> uint128 option" where
  "SafeMultiply a b =
     (if Uint128High64 b \<noteq> 0 then None
      else if Uint128High64 a = 0 then
        Some (if drop_bit 32 (Uint128Low64 a OR Uint128Low64 b) = 0
              then uint128_of_unsigned (Uint128Low64 a * Uint128Low64 b) else uint128_mul a b)
      else if uint128_eq b (uint128_of_signed 0) then Some b
      else do {
        q \<leftarrow> uint128_div Uint128Max b;
        Some (if uint128_gt a q then Uint128Max else uint128_mul a b) })"

definition ScaleFixed :: "(uint128 \<Rightarrow> uint128 \<Rightarrow> uint128 option) \<Rightarrow> duration \<Rightarrow> int \<Rightarrow> duration option" where
  "ScaleFixed Operation d r = do {
     a \<leftarrow> MakeU128Ticks d;
     b \<leftarrow> MakeU128 r;
     q \<leftarrow> Operation a b;
     MakeDurationFromU128 q ((rep_hi d < 0) \<noteq> (r < 0)) }"

definition dur_mul :: "duration \<Rightarrow> int \<Rightarrow> duration option" where
  "dur_mul this r =
     (if is_infinite_duration this
      then Some (if (r < 0) \<noteq> (rep_hi this < 0) then neg_infinite_duration else infinite_duration)
      else ScaleFixed SafeMultiply this r)"

definition dur_div :: "duration \<Rightarrow> int \<Rightarrow> duration option" where
  "dur_div this r =
     (if is_infinite_duration this \<or> r = 0
      then Some (if (r < 0) \<noteq> (rep_hi this < 0) then neg_infinite_duration else infinite_duration)
      else ScaleFixed uint128_div this r)"

section \<open>Ticks\<close>

text \<open>What a duration denotes: a number of quarter nanoseconds, or an infinity.\<close>

datatype span = Minus_inf | Ticks int | Plus_inf

definition valid_dur :: "duration \<Rightarrow> bool" where
  "valid_dur d \<longleftrightarrow> i64_ok (rep_hi d) \<and>
     (uint (rep_lo d) < kTicksPerSecond \<or> rep_lo d = - 1 \<and> (rep_hi d = i64_min \<or> rep_hi d = i64_max))"

definition ticks :: "duration \<Rightarrow> int" where
  "ticks d = rep_hi d * kTicksPerSecond + uint (rep_lo d)"

definition dval :: "duration \<Rightarrow> span" where
  "dval d = (if is_infinite_duration d then if rep_hi d < 0 then Minus_inf else Plus_inf else Ticks (ticks d))"

text \<open>Saturation at \<open>2 ^ 63\<close> seconds.\<close>

definition sat :: "int \<Rightarrow> span" where
  "sat t = (if t < - (2 ^ 63) * kTicksPerSecond then Minus_inf
            else if 2 ^ 63 * kTicksPerSecond \<le> t then Plus_inf else Ticks t)"

lemma sat_split:
  assumes "0 \<le> l" "l < kTicksPerSecond"
  shows "sat (S * kTicksPerSecond + l) =
    (if S < - (2 ^ 63) then Minus_inf else if 2 ^ 63 \<le> S then Plus_inf else Ticks (S * kTicksPerSecond + l))"
  using assms by (auto simp: sat_def kTicksPerSecond_def)

lemma make_duration_sel [simp]: "rep_hi (make_duration h l) = h" "rep_lo (make_duration h l) = l"
  by (simp_all add: make_duration_def)

lemma uint32_range: "0 \<le> uint (l :: u32)" "uint (l :: u32) < 4294967296"
  using uint_lt2p [of l] by simp_all

lemma uint32_of_int: "0 \<le> l \<Longrightarrow> l < 4294967296 \<Longrightarrow> uint (word_of_int l :: u32) = l"
  by (simp add: uint_word_of_int)

lemma all_ones: "l = (- 1 :: u32) \<longleftrightarrow> uint l = 4294967295"
proof -
  have "uint (- 1 :: u32) = 4294967295" by (simp add: unsigned_minus_1_eq_mask mask_eq_exp_minus_1)
  then show ?thesis by (metis word_uint_eq_iff)
qed

lemma valid_cases:
  assumes "valid_dur d"
  obtains (inf) "is_infinite_duration d" "rep_lo d = - 1" "rep_hi d = i64_min \<or> rep_hi d = i64_max"
  | (fin) "\<not> is_infinite_duration d" "i64_ok (rep_hi d)" "uint (rep_lo d) < 4000000000"
  using assms by (auto simp: valid_dur_def is_infinite_duration_def all_ones kTicksPerSecond_def)

lemma dval_make:
  assumes "i64_ok h" "uint l < 4000000000"
  shows "valid_dur (make_duration h l)" "dval (make_duration h l) = Ticks (h * kTicksPerSecond + uint l)"
    "\<not> is_infinite_duration (make_duration h l)"
  using assms by (auto simp: valid_dur_def dval_def ticks_def is_infinite_duration_def all_ones kTicksPerSecond_def)

lemma dval_fin: "\<not> is_infinite_duration d \<Longrightarrow> dval d = Ticks (ticks d)"
  by (simp add: dval_def)

lemma infinite_simps [simp]:
  "valid_dur infinite_duration" "dval infinite_duration = Plus_inf"
  "neg_infinite_duration = make_duration i64_min (- 1)"
  "valid_dur (make_duration i64_min (- 1))" "dval (make_duration i64_min (- 1)) = Minus_inf"
  by (simp_all add: valid_dur_def dval_def infinite_duration_def neg_infinite_duration_def dur_neg_def
      is_infinite_duration_def opposite_infinity_def i64_max_def i64_min_def i64_ok_def)

lemma dval_zero [simp]: "valid_dur zero_duration" "dval zero_duration = Ticks 0"
  using dval_make [of 0 0] by (simp_all add: zero_duration_def i64_ok_iff)

lemma ticks_range:
  assumes "valid_dur d" "\<not> is_infinite_duration d"
  shows "- (2 ^ 63) * kTicksPerSecond \<le> ticks d" "ticks d < 2 ^ 63 * kTicksPerSecond"
proof -
  have h: "- (2 ^ 63) \<le> rep_hi d" "rep_hi d < 2 ^ 63" and l: "uint (rep_lo d) < 4000000000"
    using assms by (auto elim!: valid_cases simp: i64_ok_iff)
  define x where "x = uint (rep_lo d)"
  have lo: "0 \<le> x" "x < 4000000000" using l by (simp_all add: x_def)
  show "- (2 ^ 63) * kTicksPerSecond \<le> ticks d" "ticks d < 2 ^ 63 * kTicksPerSecond"
    using h l lo by (simp_all add: ticks_def kTicksPerSecond_def flip: x_def)
qed

section \<open>Sums, differences, negation and order\<close>

lemma sint_wrap:
  assumes "- (2 ^ 64) \<le> i" "i < 2 ^ 64"
  shows "sint (word_of_int i :: u64) = (if i < - (2 ^ 63) then i + 2 ^ 64 else if 2 ^ 63 \<le> i then i - 2 ^ 64 else i)"
proof -
  have "sint (word_of_int i :: u64) = (i + 2 ^ 63) mod 2 ^ 64 - 2 ^ 63"
    by (simp add: signed_of_int signed_take_bit_eq_take_bit_shift take_bit_eq_mod)
  moreover have "(i + 2 ^ 63) mod 2 ^ 64 = i + 2 ^ 63 + 2 ^ 64" if "i < - (2 ^ 63)"
    using mod_pos_pos_trivial [of "i + 2 ^ 63 + 2 ^ 64" "2 ^ 64"] assms that mod_add_self2 [of "i + 2 ^ 63" "2 ^ 64"]
    by simp
  moreover have "(i + 2 ^ 63) mod 2 ^ 64 = i + 2 ^ 63 - 2 ^ 64" if "2 ^ 63 \<le> i"
    using mod_pos_pos_trivial [of "i + 2 ^ 63 - 2 ^ 64" "2 ^ 64"] assms that mod_add_self2 [of "i + 2 ^ 63 - 2 ^ 64" "2 ^ 64"]
    by (simp add: add.commute [of i])
  moreover have "(i + 2 ^ 63) mod 2 ^ 64 = i + 2 ^ 63" if "\<not> i < - (2 ^ 63)" "\<not> 2 ^ 63 \<le> i"
    using mod_pos_pos_trivial [of "i + 2 ^ 63" "2 ^ 64"] that by simp
  ultimately show ?thesis by simp
qed

text \<open>Values at their width, kept folded while an operation is unfolded.\<close>

definition w64 :: "int \<Rightarrow> int" where "w64 i = sint (word_of_int i :: u64)"
definition w32 :: "int \<Rightarrow> u32" where "w32 i = word_of_int i"

lemma w64_simps:
  "DecodeTwosComp (EncodeTwosComp a + EncodeTwosComp b) = w64 (a + b)"
  "DecodeTwosComp (EncodeTwosComp a - EncodeTwosComp b) = w64 (a - b)"
  "DecodeTwosComp (EncodeTwosComp (w64 c) + 1) = w64 (c + 1)"
  "DecodeTwosComp (EncodeTwosComp (w64 c) - 1) = w64 (c - 1)"
  by (simp_all add: DecodeTwosComp_def EncodeTwosComp_def w64_def)

lemma w32_simps:
  "word_of_int i = w32 i" "w32 a + w32 b = w32 (a + b)" "w32 a - w32 b = w32 (a - b)"
  by (simp_all add: w32_def)

lemma uint_w32: "0 \<le> x \<Longrightarrow> x < 4294967296 \<Longrightarrow> uint (w32 x) = x"
  by (simp add: w32_def uint32_of_int)

text \<open>The sum of the infinities and the finite values: the first infinity wins.\<close>

fun span_add :: "span \<Rightarrow> span \<Rightarrow> span" where
  "span_add (Ticks s) (Ticks t) = sat (s + t)"
| "span_add (Ticks s) y = y"
| "span_add x y = x"

fun span_neg :: "span \<Rightarrow> span" where
  "span_neg (Ticks t) = sat (- t)"
| "span_neg Minus_inf = Plus_inf"
| "span_neg Plus_inf = Minus_inf"

lemma dur_add_finite:
  assumes a: "i64_ok A" "0 \<le> x" "x < 4000000000" and b: "i64_ok B" "0 \<le> y" "y < 4000000000"
  defines "d \<equiv> dur_add (make_duration A (w32 x)) (make_duration B (w32 y))"
  shows "valid_dur d \<and> dval d = sat ((A * kTicksPerSecond + x) + (B * kTicksPerSecond + y))"
proof -
  define c :: int where "c = (if kTicksPerSecond - y \<le> x then 1 else 0)"
  define S where "S = A + B + c"
  define l where "l = x + y - c * kTicksPerSecond"
  have l: "0 \<le> l" "l < kTicksPerSecond" using a b by (auto simp: l_def c_def kTicksPerSecond_def)
  have xy: "uint (w32 x) = x" "uint (w32 y) = y"
    using a b by (simp_all add: uint_w32)
  have hi: "w64 S = (if S < - (2 ^ 63) then S + 2 ^ 64 else if 2 ^ 63 \<le> S then S - 2 ^ 64 else S)"
    using a b unfolding w64_def by (intro sint_wrap) (auto simp: S_def c_def i64_ok_iff)
  have over: "(if B < 0 then A < w64 S else w64 S < A) \<longleftrightarrow>
      S < - (2 ^ 63) \<or> 2 ^ 63 \<le> S"
    unfolding hi using a b by (auto simp: S_def c_def i64_ok_iff)
  have neg: "B < 0 \<longleftrightarrow> S < - (2 ^ 63)" if "S < - (2 ^ 63) \<or> 2 ^ 63 \<le> S"
    using that a b by (auto simp: S_def c_def i64_ok_iff)
  have ni: "\<not> is_infinite_duration (make_duration A (w32 x))" "\<not> is_infinite_duration (make_duration B (w32 y))"
    using dval_make(3) [of A "w32 x"] dval_make(3) [of B "w32 y"] a b xy by simp_all
  have cs: "if kTicksPerSecond - y \<le> x then S = A + B + 1 \<and> l = x - kTicksPerSecond + y else S = A + B \<and> l = x + y"
    by (simp add: S_def l_def c_def)
  have d: "d = (if S < - (2 ^ 63) \<or> 2 ^ 63 \<le> S then (if B < 0 then neg_infinite_duration else infinite_duration)
      else make_duration (w64 S) (w32 l))"
    unfolding d_def dur_add_def over [symmetric] using ni xy cs
    by (auto simp: Let_def w64_simps w32_simps)
  have "(A * kTicksPerSecond + x) + (B * kTicksPerSecond + y) = S * kTicksPerSecond + l"
    by (simp add: S_def l_def algebra_simps)
  then have sat: "sat ((A * kTicksPerSecond + x) + (B * kTicksPerSecond + y)) =
      (if S < - (2 ^ 63) then Minus_inf else if 2 ^ 63 \<le> S then Plus_inf else Ticks (S * kTicksPerSecond + l))"
    using sat_split [OF l] by simp
  show ?thesis
  proof (cases "S < - (2 ^ 63) \<or> 2 ^ 63 \<le> S")
    case True
    then show ?thesis using neg unfolding d sat by auto
  next
    case False
    then have "i64_ok S" "w64 S = S" by (simp_all add: i64_ok_iff hi)
    moreover have "uint (w32 l) = l" using l by (simp add: uint_w32 kTicksPerSecond_def)
    ultimately show ?thesis using False l dval_make [of S "w32 l"]
      unfolding d sat by (simp add: kTicksPerSecond_def)
  qed
qed

lemma dur_sub_finite:
  assumes a: "i64_ok A" "0 \<le> x" "x < 4000000000" and b: "i64_ok B" "0 \<le> y" "y < 4000000000"
  defines "d \<equiv> dur_sub (make_duration A (w32 x)) (make_duration B (w32 y))"
  shows "valid_dur d \<and> dval d = sat ((A * kTicksPerSecond + x) - (B * kTicksPerSecond + y))"
proof -
  define c :: int where "c = (if x < y then 1 else 0)"
  define S where "S = A - B - c"
  define l where "l = x - y + c * kTicksPerSecond"
  have l: "0 \<le> l" "l < kTicksPerSecond" using a b by (auto simp: l_def c_def kTicksPerSecond_def)
  have xy: "uint (w32 x) = x" "uint (w32 y) = y"
    using a b by (simp_all add: uint_w32)
  then have less: "w32 x < w32 y \<longleftrightarrow> x < y" by (simp add: word_less_def)
  have hi: "w64 S = (if S < - (2 ^ 63) then S + 2 ^ 64 else if 2 ^ 63 \<le> S then S - 2 ^ 64 else S)"
    using a b unfolding w64_def by (intro sint_wrap) (auto simp: S_def c_def i64_ok_iff)
  have over: "(if B < 0 then w64 S < A else A < w64 S) \<longleftrightarrow>
      S < - (2 ^ 63) \<or> 2 ^ 63 \<le> S"
    unfolding hi using a b by (auto simp: S_def c_def i64_ok_iff)
  have neg: "0 \<le> B \<longleftrightarrow> S < - (2 ^ 63)" if "S < - (2 ^ 63) \<or> 2 ^ 63 \<le> S"
    using that a b by (auto simp: S_def c_def i64_ok_iff)
  have ni: "\<not> is_infinite_duration (make_duration A (w32 x))" "\<not> is_infinite_duration (make_duration B (w32 y))"
    using dval_make(3) [of A "w32 x"] dval_make(3) [of B "w32 y"] a b xy by simp_all
  have cs: "if x < y then S = A - B - 1 \<and> l = x + kTicksPerSecond - y else S = A - B \<and> l = x - y"
    by (simp add: S_def l_def c_def)
  have d: "d = (if S < - (2 ^ 63) \<or> 2 ^ 63 \<le> S then (if 0 \<le> B then neg_infinite_duration else infinite_duration)
      else make_duration (w64 S) (w32 l))"
    unfolding d_def dur_sub_def over [symmetric] using ni xy less cs
    by (auto simp: Let_def w64_simps w32_simps)
  have "(A * kTicksPerSecond + x) - (B * kTicksPerSecond + y) = S * kTicksPerSecond + l"
    by (simp add: S_def l_def algebra_simps)
  then have sat: "sat ((A * kTicksPerSecond + x) - (B * kTicksPerSecond + y)) =
      (if S < - (2 ^ 63) then Minus_inf else if 2 ^ 63 \<le> S then Plus_inf else Ticks (S * kTicksPerSecond + l))"
    using sat_split [OF l] by simp
  show ?thesis
  proof (cases "S < - (2 ^ 63) \<or> 2 ^ 63 \<le> S")
    case True
    then show ?thesis using neg unfolding d sat by auto
  next
    case False
    then have "i64_ok S" "w64 S = S" by (simp_all add: i64_ok_iff hi)
    moreover have "uint (w32 l) = l" using l by (simp add: uint_w32 kTicksPerSecond_def)
    ultimately show ?thesis using False l dval_make [of S "w32 l"]
      unfolding d sat by (simp add: kTicksPerSecond_def)
  qed
qed

text \<open>A finite duration in its parts.\<close>

lemma finite_parts:
  assumes "valid_dur d" "\<not> is_infinite_duration d"
  obtains A x where "d = make_duration A (w32 x)" "i64_ok A" "0 \<le> x" "x < 4000000000"
    "ticks d = A * kTicksPerSecond + x"
  using assms that [of "rep_hi d" "uint (rep_lo d)"]
  by (auto elim!: valid_cases simp: make_duration_def ticks_def w32_def)

lemma dval_inf:
  assumes "valid_dur d" "is_infinite_duration d"
  shows "dval d = (if rep_hi d < 0 then Minus_inf else Plus_inf)"
  using assms by (simp add: dval_def)

lemma dur_add_ok:
  assumes "valid_dur a" "valid_dur b"
  shows "valid_dur (dur_add a b)" "dval (dur_add a b) = span_add (dval a) (dval b)"
proof -
  have "valid_dur (dur_add a b) \<and> dval (dur_add a b) = span_add (dval a) (dval b)"
  proof (cases "is_infinite_duration a \<or> is_infinite_duration b")
    case True
    then show ?thesis using assms
      by (cases "is_infinite_duration a") (simp_all add: dur_add_def dval_def)
  next
    case False
    then obtain A x B y where
      "a = make_duration A (w32 x)" "i64_ok A" "0 \<le> x" "x < 4000000000" "ticks a = A * kTicksPerSecond + x"
      "b = make_duration B (w32 y)" "i64_ok B" "0 \<le> y" "y < 4000000000" "ticks b = B * kTicksPerSecond + y"
      using assms finite_parts by metis
    then show ?thesis using dur_add_finite [of A x B y] False by (simp add: dval_fin)
  qed
  then show "valid_dur (dur_add a b)" "dval (dur_add a b) = span_add (dval a) (dval b)" by simp_all
qed

lemma dur_sub_ok:
  assumes "valid_dur a" "valid_dur b"
  shows "valid_dur (dur_sub a b)"
    "dval (dur_sub a b) = (case (dval a, dval b) of
       (Ticks s, Ticks t) \<Rightarrow> sat (s - t) | (Ticks s, y) \<Rightarrow> span_neg y | (x, y) \<Rightarrow> x)"
proof -
  have "valid_dur (dur_sub a b) \<and> dval (dur_sub a b) = (case (dval a, dval b) of
       (Ticks s, Ticks t) \<Rightarrow> sat (s - t) | (Ticks s, y) \<Rightarrow> span_neg y | (x, y) \<Rightarrow> x)"
  proof (cases "is_infinite_duration a \<or> is_infinite_duration b")
    case True
    then show ?thesis using assms
      by (cases "is_infinite_duration a") (auto simp: dur_sub_def dval_def [of a] dval_def [of b])
  next
    case False
    then obtain A x B y where
      "a = make_duration A (w32 x)" "i64_ok A" "0 \<le> x" "x < 4000000000" "ticks a = A * kTicksPerSecond + x"
      "b = make_duration B (w32 y)" "i64_ok B" "0 \<le> y" "y < 4000000000" "ticks b = B * kTicksPerSecond + y"
      using assms finite_parts by metis
    then show ?thesis using dur_sub_finite [of A x B y] False by (simp add: dval_fin)
  qed
  then show "valid_dur (dur_sub a b)"
    "dval (dur_sub a b) = (case (dval a, dval b) of
       (Ticks s, Ticks t) \<Rightarrow> sat (s - t) | (Ticks s, y) \<Rightarrow> span_neg y | (x, y) \<Rightarrow> x)" by simp_all
qed

lemma i64_signs: "i64_min < 0" "0 < i64_max" "\<not> i64_max < 0" "i64_min \<noteq> i64_max"
  by (simp_all add: i64_min_def i64_max_def)

text \<open>Negation, and the order of the extended ticks.\<close>

lemma dur_neg_ok:
  assumes "valid_dur d"
  shows "\<exists>d'. dur_neg d = Some d' \<and> valid_dur d' \<and> dval d' = span_neg (dval d)"
  using assms
proof (cases rule: valid_cases)
  case inf
  then show ?thesis using assms
    by (auto simp: dur_neg_def opposite_infinity_def dval_def [of d] i64_signs infinite_duration_def [symmetric])
next
  case fin
  then obtain A x where d: "d = make_duration A (w32 x)" "i64_ok A" "0 \<le> x" "x < 4000000000"
    and t: "ticks d = A * kTicksPerSecond + x"
    using assms finite_parts by metis
  have ux: "uint (w32 x) = x" using d by (simp add: uint_w32)
  show ?thesis
  proof (cases "x = 0")
    case True
    then have z: "rep_lo d = 0" by (simp add: d w32_def)
    have "sat (- ticks d) = (if A = i64_min then Plus_inf else Ticks (- A * kTicksPerSecond + 0))"
      using sat_split [of 0 "- A"] d(2) t True by (auto simp: kTicksPerSecond_def i64_ok_iff i64_min_def)
    moreover have "A \<noteq> i64_min \<Longrightarrow> i64_ok (- A)" using d(2) by (auto simp: i64_ok_iff i64_min_def)
    ultimately show ?thesis using z fin dval_make [of "- A" 0]
      by (auto simp: dur_neg_def d(1) dval_fin)
  next
    case False
    then have nz: "rep_lo d \<noteq> 0" using ux by (auto simp: d(1))
    have n: "negate_and_subtract_one A = Some (- A - 1)" "i64_ok (- A - 1)"
      using d(2) by (auto simp: negate_and_subtract_one_def ck_def i64_ok_iff)
    have "- ticks d = (- A - 1) * kTicksPerSecond + (kTicksPerSecond - x)"
      by (simp add: t algebra_simps)
    then have "sat (- ticks d) = Ticks ((- A - 1) * kTicksPerSecond + (kTicksPerSecond - x))"
      using sat_split [of "kTicksPerSecond - x" "- A - 1"] d n(2) False
      by (simp add: kTicksPerSecond_def i64_ok_iff)
    moreover have "uint (word_of_int (kTicksPerSecond - x) :: u32) = kTicksPerSecond - x"
      unfolding kTicksPerSecond_def by (rule uint32_of_int) (use d False in simp_all)
    ultimately show ?thesis using nz fin n dval_make [of "- A - 1" "word_of_int (kTicksPerSecond - x)"] d False
      by (simp add: dur_neg_def dval_fin make_duration_ticks_def ux kTicksPerSecond_def)
  qed
qed

instantiation span :: linorder
begin

fun less_eq_span :: "span \<Rightarrow> span \<Rightarrow> bool" where
  "Minus_inf \<le> y \<longleftrightarrow> True"
| "Ticks s \<le> Minus_inf \<longleftrightarrow> False"
| "Ticks s \<le> Ticks t \<longleftrightarrow> s \<le> t"
| "Ticks s \<le> Plus_inf \<longleftrightarrow> True"
| "Plus_inf \<le> y \<longleftrightarrow> y = Plus_inf"

definition less_span :: "span \<Rightarrow> span \<Rightarrow> bool" where
  "x < y \<longleftrightarrow> x \<le> y \<and> \<not> y \<le> (x :: span)"

instance
proof
  fix x y z :: span
  show "x \<le> x" by (cases x) simp_all
  show "x \<le> y \<Longrightarrow> y \<le> z \<Longrightarrow> x \<le> z" by (cases x; cases y; cases z) simp_all
  show "x \<le> y \<Longrightarrow> y \<le> x \<Longrightarrow> x = y" by (cases x; cases y) simp_all
  show "x \<le> y \<or> y \<le> x" by (cases x; cases y) auto
qed (simp add: less_span_def)

end

lemma split_less:
  assumes "0 \<le> x" "x < kTicksPerSecond" "0 \<le> y" "y < kTicksPerSecond"
  shows "A * kTicksPerSecond + x < B * kTicksPerSecond + y \<longleftrightarrow> A < B \<or> A = B \<and> x < y"
proof (cases A B rule: linorder_cases)
  case less
  then have "A + 1 \<le> B" by simp
  then have "(A + 1) * kTicksPerSecond \<le> B * kTicksPerSecond" by (simp add: kTicksPerSecond_def)
  then show ?thesis using less assms by (simp add: algebra_simps)
next
  case greater
  then have "B + 1 \<le> A" by simp
  then have "(B + 1) * kTicksPerSecond \<le> A * kTicksPerSecond" by (simp add: kTicksPerSecond_def)
  then show ?thesis using greater assms by (simp add: algebra_simps)
qed simp

lemma dur_lt_ok:
  assumes "valid_dur a" "valid_dur b" shows "dur_lt a b \<longleftrightarrow> dval a < dval b"
  using assms(1)
proof (cases rule: valid_cases)
  case a: inf
  show ?thesis using assms(2)
  proof (cases rule: valid_cases)
    case inf
    then show ?thesis using a
      by (auto simp: dur_lt_def dval_def less_span_def i64_min_def i64_max_def)
  next
    case fin
    have "rep_lo b + 1 \<noteq> 0" using fin(3) by (auto simp: all_ones eq_neg_iff_add_eq_0 [symmetric])
    then have "0 < rep_lo b + 1" by (simp add: word_gt_0)
    moreover have "rep_lo b < - 1" using fin(3) by (simp add: word_less_def all_ones [THEN iffD1])
    ultimately show ?thesis using a fin
      by (auto simp: dur_lt_def dval_def less_span_def i64_min_def i64_max_def i64_ok_iff not_less word_le_less_eq)
  qed
next
  case a: fin
  show ?thesis using assms(2)
  proof (cases rule: valid_cases)
    case inf
    have "rep_lo a < - 1" using a(3) by (simp add: word_less_def all_ones [THEN iffD1])
    then show ?thesis using a inf
      by (auto simp: dur_lt_def dval_def less_span_def i64_min_def i64_max_def i64_ok_iff)
  next
    case fin
    have inc: "uint (rep_lo c + 1) = uint (rep_lo c) + 1" if "uint (rep_lo c) < 4000000000" for c
      using that by (simp add: uint_word_ariths)
    have "dur_lt a b \<longleftrightarrow> ticks a < ticks b"
      unfolding ticks_def using a(3) fin(3) uint32_range
      by (subst split_less) (auto simp: kTicksPerSecond_def dur_lt_def word_less_def inc)
    then show ?thesis using a fin by (auto simp: dval_fin less_span_def)
  qed
qed

lemma dur_eq_ok:
  assumes "valid_dur a" "valid_dur b" shows "dur_eq a b \<longleftrightarrow> dval a = dval b"
proof -
  have "dur_eq a b \<longleftrightarrow> \<not> dur_lt a b \<and> \<not> dur_lt b a"
    by (auto simp: dur_eq_def dur_lt_def not_less word_le_less_eq)
  then show ?thesis using assms by (auto simp: dur_lt_ok)
qed

section \<open>The detour through 128 bits\<close>

text \<open>The value of a \<open>uint128\<close> as an integer, and its operations when they do not wrap.\<close>

definition uv :: "uint128 \<Rightarrow> int" where "uv x = uint (u128 x)"

lemma uv_range: "0 \<le> uv x" "uv x < 2 ^ 128"
  using uint_lt2p [of "u128 x"] by (simp_all add: uv_def)

lemma uv_split: "uv x = uint (Uint128High64 x) * 2 ^ 64 + uint (Uint128Low64 x)"
proof -
  have "int (unat (u128 x)) = int (unat (Uint128High64 x)) * 2 ^ 64 + int (unat (Uint128Low64 x))"
    by (simp add: unat_u128)
  then show ?thesis by (simp add: uv_def)
qed

lemma uv_unsigned: "uv (uint128_of_unsigned v) = uint v"
  by (simp add: uv_split uint128_of_unsigned_def)

lemma uv_signed_0: "uv (uint128_of_signed 0) = 0" and uv_signed_1: "uv (uint128_of_signed 1) = 1"
  by (simp_all add: uv_def u128_signed_1)

lemma uv_add: "uv x + uv y < 2 ^ 128 \<Longrightarrow> uv (uint128_add x y) = uv x + uv y"
  using uv_range [of x] uv_range [of y] by (simp add: uv_def u128_add uint_word_ariths)

lemma uv_mul: "uv x * uv y < 2 ^ 128 \<Longrightarrow> uv (uint128_mul x y) = uv x * uv y"
  using uv_range(1) [of x] uv_range(1) [of y] by (simp add: uv_def u128_mul uint_word_ariths)

lemma uv_sub: "uv y \<le> uv x \<Longrightarrow> uv (uint128_sub x y) = uv x - uv y"
  unfolding uv_def u128_sub by (rule uint_sub_lem [THEN iffD1])

lemma uv_eq: "uint128_eq x y \<longleftrightarrow> uv x = uv y"
  by (metis uint128_eq_iff uv_def u128_inject word_uint_eq_iff)

lemma uv_gt: "uint128_gt x y \<longleftrightarrow> uv y < uv x"
  by (simp add: uint128_gt_iff uv_def word_less_def)

lemma uv_div:
  assumes "uv y \<noteq> 0" shows "\<exists>q. uint128_div x y = Some q \<and> uv q = uv x div uv y"
proof -
  have "y \<noteq> 0" using assms uv_signed_0 by (auto simp: zero_uint128_def)
  then obtain q where q: "uint128_div x y = Some q" "unat (u128 q) = unat (u128 x) div unat (u128 y)"
    using uint128_div_correct [of y x] by blast
  have "int (unat (u128 q)) = int (unat (u128 x)) div int (unat (u128 y))" unfolding q(2) by (rule zdiv_int)
  then show ?thesis using q(1) by (auto simp: uv_def)
qed

lemma uint64_of_int: "0 \<le> l \<Longrightarrow> l < 2 ^ 64 \<Longrightarrow> uint (word_of_int l :: u64) = l"
  by (simp add: uint_word_of_int)

lemma MakeU128_ok:
  assumes "i64_ok a" shows "\<exists>u. MakeU128 a = Some u \<and> uv u = \<bar>a\<bar>"
proof (cases "a < 0")
  case True
  have k: "ck (a + 1) = Some (a + 1)" "ck (- (a + 1)) = Some (- (a + 1))"
    using assms True by (simp_all add: ck_def i64_ok_iff)
  have u: "uv (uint128_of_unsigned (word_of_int (- (a + 1)))) = - (a + 1)"
    unfolding uv_unsigned by (rule uint64_of_int) (use assms True in \<open>simp_all add: i64_ok_iff\<close>)
  have i: "uv (uint128_inc (uint128_of_signed 0)) = 1"
    unfolding uint128_inc_def by (subst uv_add) (simp_all add: uv_signed_0 uv_signed_1)
  have "uv (uint128_add (uint128_inc (uint128_of_signed 0)) (uint128_of_unsigned (word_of_int (- (a + 1))))) = \<bar>a\<bar>"
    using assms True by (subst uv_add) (simp_all only: u i, simp_all add: i64_ok_iff)
  then show ?thesis using True k by (simp only: MakeU128_def if_True bind.bind_lunit) simp
next
  case False
  have u: "uv (uint128_of_unsigned (word_of_int a)) = a"
    unfolding uv_unsigned by (rule uint64_of_int) (use assms False in \<open>simp_all add: i64_ok_iff\<close>)
  have "uv (uint128_add (uint128_of_signed 0) (uint128_of_unsigned (word_of_int a))) = \<bar>a\<bar>"
    using assms False by (subst uv_add) (simp_all only: u uv_signed_0, simp_all add: i64_ok_iff)
  then show ?thesis using False by (simp add: MakeU128_def)
qed

text \<open>The 128-bit number of ticks built from seconds and ticks below a second.\<close>

lemma ticks_product:
  assumes "0 \<le> h" "h < 2 ^ 63" "uint (lo :: u32) \<le> kTicksPerSecond"
  shows "uv (uint128_add (uint128_mul (uint128_of_unsigned (word_of_int h)) (uint128_of_unsigned (word_of_int kTicksPerSecond)))
      (uint128_of_unsigned (ucast lo))) = h * kTicksPerSecond + uint lo"
proof -
  have h: "uv (uint128_of_unsigned (word_of_int h)) = h"
    unfolding uv_unsigned by (rule uint64_of_int) (use assms in simp_all)
  have k: "uv (uint128_of_unsigned (word_of_int kTicksPerSecond)) = kTicksPerSecond"
    unfolding uv_unsigned by (simp add: kTicksPerSecond_def)
  have l: "uv (uint128_of_unsigned (ucast lo)) = uint lo"
    unfolding uv_unsigned by (simp add: unsigned_ucast_eq take_bit_int_eq_self uint32_range order_less_trans [OF uint32_range(2)])
  have m: "uv (uint128_mul (uint128_of_unsigned (word_of_int h)) (uint128_of_unsigned (word_of_int kTicksPerSecond))) = h * kTicksPerSecond"
    using assms by (subst uv_mul) (simp_all only: h k, simp_all add: kTicksPerSecond_def)
  show ?thesis using assms by (subst uv_add) (simp_all only: m l, simp_all add: kTicksPerSecond_def)
qed

lemma MakeU128Ticks_ok:
  assumes "valid_dur d" "\<not> is_infinite_duration d"
  shows "\<exists>u. MakeU128Ticks d = Some u \<and> uv u = \<bar>ticks d\<bar>"
proof -
  have h: "- (2 ^ 63) \<le> rep_hi d" "rep_hi d < 2 ^ 63" and l: "uint (rep_lo d) < 4000000000" "0 \<le> uint (rep_lo d)"
    using assms by (auto elim!: valid_cases simp: i64_ok_iff)
  show ?thesis
  proof (cases "rep_hi d < 0")
    case True
    define m where "m = - (rep_hi d + 1)"
    have k: "ck (rep_hi d + 1) = Some (rep_hi d + 1)" "ck (- (rep_hi d + 1)) = Some m" "0 \<le> m" "m < 2 ^ 63"
      using h True by (simp_all add: ck_def i64_ok_iff m_def)
    define lo :: u32 where "lo = word_of_int (kTicksPerSecond - uint (rep_lo d))"
    have lo: "uint lo = kTicksPerSecond - uint (rep_lo d)"
      unfolding lo_def kTicksPerSecond_def by (rule uint32_of_int) (use l in linarith)+
    have lo_eq: "word_of_int kTicksPerSecond - rep_lo d = lo" by (simp add: lo_def)
    have "ticks d \<le> 0" using True l by (simp add: ticks_def kTicksPerSecond_def)
    then have "m * kTicksPerSecond + uint lo = \<bar>ticks d\<bar>"
      by (simp add: lo ticks_def m_def algebra_simps)
    then show ?thesis using ticks_product [of m lo] True l lo k
      by (simp add: MakeU128Ticks_def lo_eq)
  next
    case False
    then have "\<bar>ticks d\<bar> = rep_hi d * kTicksPerSecond + uint (rep_lo d)"
      using l by (simp add: ticks_def kTicksPerSecond_def)
    then show ?thesis using ticks_product [of "rep_hi d" "rep_lo d"] h False l
      by (simp add: MakeU128Ticks_def kTicksPerSecond_def)
  qed
qed

lemma signed_duration_ok:
  assumes "0 \<le> h" "h < 2 ^ 63" "uint lo < kTicksPerSecond"
  shows "\<exists>d. signed_duration h lo is_neg = Some d \<and> valid_dur d \<and>
    dval d = Ticks (if is_neg then - (h * kTicksPerSecond + uint lo) else h * kTicksPerSecond + uint lo)"
proof (cases is_neg)
  case False
  then show ?thesis using assms dval_make [of h lo] by (simp add: signed_duration_def i64_ok_iff kTicksPerSecond_def)
next
  case True
  have k: "ck (- h) = Some (- h)" "ck (- h - 1) = Some (- h - 1)" using assms by (simp_all add: ck_def i64_ok_iff)
  show ?thesis
  proof (cases "lo = 0")
    case True
    then show ?thesis using \<open>is_neg\<close> assms k dval_make [of "- h" lo]
      by (simp add: signed_duration_def i64_ok_iff kTicksPerSecond_def)
  next
    case False
    then have "uint lo \<noteq> 0" by (metis unsigned_0 word_uint_eq_iff)
    then have pos: "0 < uint lo" using uint32_range(1) [of lo] by linarith
    define l' :: u32 where "l' = word_of_int (kTicksPerSecond - uint lo)"
    have l': "uint l' = kTicksPerSecond - uint lo"
      unfolding l'_def kTicksPerSecond_def by (rule uint32_of_int) (use assms pos in \<open>simp_all add: kTicksPerSecond_def\<close>)
    have "(- h - 1) * kTicksPerSecond + uint l' = - (h * kTicksPerSecond + uint lo)"
      by (simp add: l' algebra_simps)
    moreover have "word_of_int kTicksPerSecond - lo = l'" by (simp add: l'_def)
    moreover have "uint l' < 4000000000" "i64_ok (- h - 1)"
      using assms pos by (simp_all add: l' kTicksPerSecond_def i64_ok_iff)
    ultimately show ?thesis using \<open>is_neg\<close> False k dval_make [of "- h - 1" l']
      by (simp add: signed_duration_def)
  qed
qed

lemma uint64_less: "uint (v :: u64) < 2 ^ 64"
  using uint_lt2p [of v] by simp

lemma ucast32_of: "uint v < 4294967296 \<Longrightarrow> uint (ucast (v :: u64) :: u32) = uint v"
  by (simp add: unsigned_ucast_eq take_bit_int_eq_self)

lemma sint_small: "uint (v :: u64) < 2 ^ 63 \<Longrightarrow> sint v = uint v"
proof -
  assume "uint v < 2 ^ 63"
  moreover have "- (2 ^ 63) \<le> uint v" by (rule order_trans [OF _ uint_ge_0]) simp
  ultimately show ?thesis by (simp add: sint_uint signed_take_bit_int_eq_self)
qed

text \<open>The halves of a value below \<open>2 ^ 64\<close>.\<close>

lemma uv_high: "Uint128High64 x = 0 \<longleftrightarrow> uv x < 2 ^ 64"
  and uv_low: "uv x < 2 ^ 64 \<Longrightarrow> uint (Uint128Low64 x) = uv x"
proof -
  define H L where "H = uint (Uint128High64 x)" and "L = uint (Uint128Low64 x)"
  have e: "uv x = H * 18446744073709551616 + L" "0 \<le> L" "L < 18446744073709551616" "0 \<le> H"
    using uint64_less [of "Uint128Low64 x"] by (simp_all add: H_def L_def uv_split)
  then have z: "H = 0 \<longleftrightarrow> uv x < 2 ^ 64" by (cases "H \<le> 0") auto
  have "Uint128High64 x = 0 \<longleftrightarrow> H = 0" unfolding H_def by (simp add: word_uint_eq_iff)
  then show "Uint128High64 x = 0 \<longleftrightarrow> uv x < 2 ^ 64" using z by simp
  show "uv x < 2 ^ 64 \<Longrightarrow> uint (Uint128Low64 x) = uv x" unfolding L_def [symmetric] using z e by simp
qed

lemma int_div_less: "x div b < a \<longleftrightarrow> x < a * b" if b: "0 < b" for x b a :: int
proof
  assume "x div b < a"
  then have "(x div b + 1) * b \<le> a * b" using b by (intro mult_right_mono) simp_all
  moreover have "x < (x div b + 1) * b"
    unfolding distrib_right using div_mult_mod_eq [of x b] pos_mod_bound [OF b, of x] by linarith
  ultimately show "x < a * b" by simp
next
  assume "x < a * b"
  show "x div b < a"
  proof (rule ccontr)
    assume "\<not> x div b < a"
    then have "a * b \<le> x div b * b" using b by (intro mult_right_mono) simp_all
    moreover have "x div b * b \<le> x"
      using div_mult_mod_eq [of x b] pos_mod_sign [OF b, of x] by linarith
    ultimately show False using \<open>x < a * b\<close> by simp
  qed
qed

lemma upper_zero: "drop_bit 32 (w :: u64) = 0 \<Longrightarrow> uint w < 4294967296"
proof -
  assume "drop_bit 32 w = 0"
  then have "unat w div 2 ^ 32 = 0" using unat_drop_bit [of 32 w] by simp
  then have "unat w < 4294967296" by (simp add: div_eq_0_iff)
  then have "int (unat w) < int 4294967296" by (simp only: of_nat_less_iff)
  then show ?thesis by simp
qed

lemma MakeDurationFromU128_ok:
  "\<exists>d. MakeDurationFromU128 u is_neg = Some d \<and> valid_dur d \<and> dval d = sat (if is_neg then - uv u else uv u)"
proof -
  let ?K = "kTicksPerSecond" and ?tps = "word_of_int kTicksPerSecond :: u64"
  have tps: "uint ?tps = ?K" by (rule uint64_of_int) (simp_all add: kTicksPerSecond_def)
  have split: "uv u = uint (Uint128High64 u) * 2 ^ 64 + uint (Uint128Low64 u)" by (rule uv_split)
  have dm: "q * ?K + m = x" "0 \<le> m" "m < ?K" if "q = x div ?K" "m = x - q * ?K" "0 \<le> x" for q m x :: int
    using that by (simp_all add: kTicksPerSecond_def)
  have fits: "sat x = Ticks x" "sat (- x) = Ticks (- x)" if "0 \<le> x" "x < 2 ^ 63 * ?K" for x
    using that by (simp_all add: sat_def kTicksPerSecond_def)
  define H L where "H = uint (Uint128High64 u)" and "L = uint (Uint128Low64 u)"
  have HL: "uv u = H * 18446744073709551616 + L" "0 \<le> L" "L < 18446744073709551616" "0 \<le> H"
    using uint64_less [of "Uint128Low64 u"] by (simp_all add: H_def L_def split)
  consider (low) "Uint128High64 u = 0" | (big) "Uint128High64 u \<noteq> 0" "kMaxRepHi64 \<le> Uint128High64 u"
    | (mid) "Uint128High64 u \<noteq> 0" "\<not> kMaxRepHi64 \<le> Uint128High64 u" by blast
  then show ?thesis
  proof cases
    case low
    let ?l = "Uint128Low64 u" and ?q = "Uint128Low64 u div ?tps"
    have uvl: "uv u = uint ?l" using low split by simp
    have q: "uint ?q = uint ?l div ?K" by (simp add: uint_div_distrib tps)
    have pos: "0 \<le> uint ?l" by simp
    have q63: "uint ?q < 2 ^ 63" "0 \<le> uint ?q"
      unfolding q using uint64_less [of ?l] pos
      by (simp_all add: kTicksPerSecond_def div_less_iff_less_mult pos_imp_zdiv_nonneg_iff)
    have "uint ?q * ?K < 2 ^ 64" using dm(1,2) [OF q refl pos] uint64_less [of ?l] by linarith
    moreover have "0 \<le> uint ?q * ?K" using q63(2) by (simp add: kTicksPerSecond_def)
    ultimately have mul: "uint (?q * ?tps) = uint ?q * ?K"
      using mod_pos_pos_trivial [of "uint ?q * ?K" "2 ^ 64"] by (simp add: uint_word_ariths tps)
    then have m: "uint (?l - ?q * ?tps) = uint ?l - uint ?q * ?K"
      using dm(1,2) [OF q refl pos] uint_sub_lem [of "?q * ?tps" ?l] by simp
    then have m32: "uint (ucast (?l - ?q * ?tps) :: u32) = uint ?l - uint ?q * ?K"
      using dm(3) [OF q refl pos] by (subst ucast32_of) (simp_all add: kTicksPerSecond_def)
    obtain d where d: "signed_duration (sint ?q) (ucast (?l - ?q * ?tps)) is_neg = Some d" "valid_dur d"
      "dval d = Ticks (if is_neg then - uint ?l else uint ?l)"
      using signed_duration_ok [of "uint ?q" "ucast (?l - ?q * ?tps)" is_neg] q63 dm [OF q refl pos] m32
      by (auto simp: sint_small)
    moreover have "uint ?l < 2 ^ 63 * ?K" using uint64_less [of ?l] by (simp add: kTicksPerSecond_def)
    ultimately show ?thesis using low fits [OF pos] by (simp add: MakeDurationFromU128_def uvl Let_def)
  next
    case big
    have h: "2000000000 \<le> H" using big(2) by (simp add: word_le_def kMaxRepHi64_def H_def)
    have ge: "2 ^ 63 * ?K \<le> uv u" using h HL by (simp add: kTicksPerSecond_def)
    have "uv u = 2 ^ 63 * ?K \<longleftrightarrow> H = 2000000000 \<and> L = 0"
    proof
      assume u: "uv u = 2 ^ 63 * ?K"
      then have "H \<le> 2000000000" using HL by (simp add: kTicksPerSecond_def)
      then have "H = 2000000000" using h by simp
      then show "H = 2000000000 \<and> L = 0" using u HL by (simp add: kTicksPerSecond_def)
    qed (simp add: HL kTicksPerSecond_def)
    then have eq: "uv u = 2 ^ 63 * ?K \<longleftrightarrow> Uint128High64 u = kMaxRepHi64 \<and> Uint128Low64 u = 0"
      by (simp add: H_def L_def word_uint_eq_iff kMaxRepHi64_def)
    show ?thesis
    proof (cases "is_neg \<and> uv u = 2 ^ 63 * ?K")
      case True
      then show ?thesis using big eq dval_make [of i64_min 0]
        by (simp add: MakeDurationFromU128_def Let_def sat_def kTicksPerSecond_def i64_min_def i64_ok_iff)
    next
      case False
      then have "sat (if is_neg then - uv u else uv u) = (if is_neg then Minus_inf else Plus_inf)"
        using ge by (auto simp: sat_def kTicksPerSecond_def)
      then show ?thesis using big False eq by (auto simp: MakeDurationFromU128_def Let_def)
    qed
  next
    case mid
    have k: "uv (uint128_of_unsigned ?tps) = ?K" by (simp add: uv_unsigned tps)
    have "H < 2000000000" using mid(2) by (simp add: word_le_def kMaxRepHi64_def H_def)
    then have lt: "uv u < 2 ^ 63 * ?K" using HL by (simp add: kTicksPerSecond_def)
    have pos: "0 \<le> uv u" by (rule uv_range)
    obtain q where q: "uint128_div u (uint128_of_unsigned ?tps) = Some q" "uv q = uv u div ?K"
      using uv_div [of "uint128_of_unsigned ?tps" u] k by (auto simp: kTicksPerSecond_def)
    have q63: "uv q < 2 ^ 63" unfolding q(2) using lt by (simp add: kTicksPerSecond_def div_less_iff_less_mult)
    note dq = dm [OF q(2) refl pos]
    have mul: "uv (uint128_mul q (uint128_of_unsigned ?tps)) = uv q * ?K"
      using dq lt by (subst uv_mul) (simp_all only: k, simp_all add: kTicksPerSecond_def)
    have m: "uv (uint128_sub u (uint128_mul q (uint128_of_unsigned ?tps))) = uv u - uv q * ?K"
      using dq by (subst uv_sub) (simp_all add: mul)
    let ?m = "Uint128Low64 (uint128_sub u (uint128_mul q (uint128_of_unsigned ?tps)))"
    have "uint ?m = uv u - uv q * ?K"
      using dq(3) by (subst uv_low) (simp_all only: m, simp_all add: kTicksPerSecond_def)
    then have m32: "uint (ucast ?m :: u32) = uv u - uv q * ?K"
      using dq(3) by (subst ucast32_of) (simp_all add: kTicksPerSecond_def)
    have lq: "sint (Uint128Low64 q) = uv q" using q63 uv_low [of q] by (simp add: sint_small)
    obtain d where "signed_duration (sint (Uint128Low64 q)) (ucast ?m) is_neg = Some d" "valid_dur d"
      "dval d = Ticks (if is_neg then - uv u else uv u)"
      using signed_duration_ok [of "uv q" "ucast ?m" is_neg] q63 uv_range(1) [of q] dq m32 by (auto simp: lq)
    then show ?thesis using mid q(1) fits [OF pos lt] by (simp add: MakeDurationFromU128_def Let_def)
  qed
qed

section \<open>Scaling\<close>

lemma SafeMultiply_ok:
  assumes "uv b < 2 ^ 64"
  shows "\<exists>q. SafeMultiply a b = Some q \<and> uv q = (if uv a * uv b < 2 ^ 128 then uv a * uv b else 2 ^ 128 - 1)"
proof -
  have hb: "Uint128High64 b = 0" using uv_high [of b] assms by simp
  have pos: "0 \<le> uv a" "0 \<le> uv b" by (rule uv_range)+
  show ?thesis
  proof (cases "Uint128High64 a = 0")
    case True
    then have a: "uv a < 2 ^ 64" using uv_high [of a] by simp
    have "uv a * uv b \<le> (2 ^ 64 - 1) * (2 ^ 64 - 1)" using a assms pos by (intro mult_mono) simp_all
    then have small: "uv a * uv b < 2 ^ 128" by simp
    have "uv (uint128_of_unsigned (Uint128Low64 a * Uint128Low64 b)) = uv a * uv b"
      if "drop_bit 32 (Uint128Low64 a OR Uint128Low64 b) = 0"
    proof -
      have "drop_bit 32 (Uint128Low64 a) = 0" "drop_bit 32 (Uint128Low64 b) = 0"
        using that by (simp_all add: or_eq_0_iff)
      note upper_zero [OF this(1)] upper_zero [OF this(2)]
      then have l: "uv a < 4294967296" "uv b < 4294967296"
        unfolding uv_low [OF a] uv_low [OF assms] by simp_all
      have "uv a * uv b \<le> (2 ^ 32 - 1) * (2 ^ 32 - 1)" using l pos by (intro mult_mono) simp_all
      then have "uv a * uv b < 2 ^ 64" "0 \<le> uv a * uv b" using pos by simp_all
      then show ?thesis unfolding uv_unsigned by (simp add: uint_word_ariths uv_low [OF a] uv_low [OF assms])
    qed
    then show ?thesis using True hb small by (simp add: SafeMultiply_def uv_mul)
  next
    case False
    show ?thesis
    proof (cases "uv b = 0")
      case True
      then show ?thesis using False hb by (simp add: SafeMultiply_def uv_eq uv_signed_0)
    next
      case nz: False
      have max: "uv Uint128Max = 2 ^ 128 - 1" by (simp add: uv_split Uint128Max_def unsigned_minus_1_eq_mask mask_eq_exp_minus_1)
      obtain q where q: "uint128_div Uint128Max b = Some q" "uv q = (2 ^ 128 - 1) div uv b"
        using uv_div [OF nz, of Uint128Max] max by auto
      have "uv q < uv a \<longleftrightarrow> \<not> uv a * uv b < 2 ^ 128"
        unfolding q(2) using nz pos by (subst int_div_less) (simp_all, linarith)
      then show ?thesis using False hb nz q(1) max
        by (simp add: SafeMultiply_def uv_eq uv_signed_0 uv_gt uv_mul)
    qed
  qed
qed

lemma rep_hi_neg:
  assumes "valid_dur d" "\<not> is_infinite_duration d" shows "rep_hi d < 0 \<longleftrightarrow> ticks d < 0"
proof -
  define x where "x = uint (rep_lo d)"
  have "0 \<le> x" "x < 4000000000" using assms by (auto elim: valid_cases simp: x_def)
  then show ?thesis by (auto simp: ticks_def kTicksPerSecond_def simp flip: x_def)
qed

lemma dur_mul_ok:
  assumes d: "valid_dur d" and r: "i64_ok r"
  shows "\<exists>d'. dur_mul d r = Some d' \<and> valid_dur d' \<and>
    dval d' = (case dval d of Ticks t \<Rightarrow> sat (t * r) | x \<Rightarrow> if r < 0 then span_neg x else x)"
proof (cases "is_infinite_duration d")
  case True
  then show ?thesis by (cases "rep_hi d < 0") (simp_all add: dur_mul_def dval_def [of d])
next
  case False
  obtain a where a: "MakeU128Ticks d = Some a" "uv a = \<bar>ticks d\<bar>" using MakeU128Ticks_ok [OF d False] by blast
  obtain b where b: "MakeU128 r = Some b" "uv b = \<bar>r\<bar>" using MakeU128_ok [OF r] by blast
  have "uv b < 2 ^ 64" using r by (auto simp: b(2) i64_ok_iff)
  then obtain q where q: "SafeMultiply a b = Some q"
    "uv q = (if \<bar>ticks d * r\<bar> < 2 ^ 128 then \<bar>ticks d * r\<bar> else 2 ^ 128 - 1)"
    using SafeMultiply_ok [of b a] a(2) b(2) by (auto simp: abs_mult)
  obtain d' where d': "MakeDurationFromU128 q ((rep_hi d < 0) \<noteq> (r < 0)) = Some d'" "valid_dur d'"
    "dval d' = sat (if (rep_hi d < 0) \<noteq> (r < 0) then - uv q else uv q)"
    using MakeDurationFromU128_ok by blast
  have "ticks d * r < 0 \<Longrightarrow> (rep_hi d < 0) \<noteq> (r < 0)" "0 < ticks d * r \<Longrightarrow> (rep_hi d < 0) = (r < 0)"
    unfolding rep_hi_neg [OF d False] by (auto simp: mult_less_0_iff zero_less_mult_iff)
  then have "sat (if (rep_hi d < 0) \<noteq> (r < 0) then - uv q else uv q) = sat (ticks d * r)"
    unfolding q(2) by (cases "ticks d * r" "0 :: int" rule: linorder_cases) (auto simp: sat_def kTicksPerSecond_def)
  then show ?thesis using False a(1) b(1) q(1) d' by (simp add: dur_mul_def ScaleFixed_def dval_fin)
qed

lemma dur_div_ok:
  assumes d: "valid_dur d" and r: "i64_ok r"
  shows "\<exists>d'. dur_div d r = Some d' \<and> valid_dur d' \<and>
    dval d' = (case dval d of
       Ticks t \<Rightarrow> if r = 0 then (if t < 0 then Minus_inf else Plus_inf) else sat (t sdiv r)
     | x \<Rightarrow> if r < 0 then span_neg x else x)"
proof (cases "is_infinite_duration d \<or> r = 0")
  case True
  then show ?thesis using rep_hi_neg [OF d]
    by (cases "rep_hi d < 0"; cases "is_infinite_duration d") (simp_all add: dur_div_def dval_def [of d])
next
  case False
  then have fin: "\<not> is_infinite_duration d" by simp
  obtain a where a: "MakeU128Ticks d = Some a" "uv a = \<bar>ticks d\<bar>" using MakeU128Ticks_ok [OF d fin] by blast
  obtain b where b: "MakeU128 r = Some b" "uv b = \<bar>r\<bar>" using MakeU128_ok [OF r] by blast
  obtain q where q: "uint128_div a b = Some q" "uv q = \<bar>ticks d\<bar> div \<bar>r\<bar>"
    using uv_div [of b a] False by (auto simp: a b)
  obtain d' where d': "MakeDurationFromU128 q ((rep_hi d < 0) \<noteq> (r < 0)) = Some d'" "valid_dur d'"
    "dval d' = sat (if (rep_hi d < 0) \<noteq> (r < 0) then - uv q else uv q)"
    using MakeDurationFromU128_ok by blast
  have "(if (rep_hi d < 0) \<noteq> (r < 0) then - uv q else uv q) = ticks d sdiv r"
    unfolding q(2) rep_hi_neg [OF d fin] signed_divide_int_def using False
    by (auto simp: sgn_if abs_if)
  then show ?thesis using False a(1) b(1) q(1) d' by (simp add: dur_div_def ScaleFixed_def dval_fin)
qed

end
