(* ===== verification/Duration_Division.thy ===== *)
theory Duration_Division
  imports Duration
begin

text \<open>
  The operations of \<open>abel::duration\<close> that divide: \<open>integer_div_duration\<close> with its fast path, rounding to
  a unit, and the conversions from and to 64-bit counts, \<open>timespec\<close> and \<open>timeval\<close>.
\<close>

section \<open>Division of durations\<close>

text \<open>
  \<open>IDivFastPath\<close>: \<open>Some None\<close> is the result \<open>false\<close>. The four branches for a denominator of a power of
  ten nanoseconds are one definition; \<open>n\<close> is the number of nanoseconds and \<open>k = 10 ^ 9 / n\<close>.
\<close>

definition fast_subsecond :: "int \<Rightarrow> int \<Rightarrow> int \<Rightarrow> u32 \<Rightarrow> u32 \<Rightarrow> (int \<times> duration) option option" where
  "fast_subsecond n k num_hi num_lo den_lo =
     (if 0 \<le> num_hi \<and> num_hi < (i64_max - kTicksPerSecond) sdiv k then do {
        p \<leftarrow> ck (num_hi * k);
        q \<leftarrow> ck (p + uint num_lo sdiv (n * kTicksPerNanosecond));
        Some (Some (q, make_duration 0 (num_lo mod den_lo))) }
      else Some None)"

definition fast_seconds :: "int \<Rightarrow> u32 \<Rightarrow> int \<Rightarrow> (int \<times> duration) option option" where
  "fast_seconds num_hi num_lo den_hi =
     (if 0 \<le> num_hi then
        if den_hi = 1 then Some (Some (num_hi, make_duration 0 num_lo))
        else Some (Some (num_hi sdiv den_hi, make_duration (num_hi smod den_hi) num_lo))
      else do {
        num_hi \<leftarrow> (if num_lo \<noteq> 0 then ck (num_hi + 1) else Some num_hi);
        let quotient = num_hi sdiv den_hi;
        let rem_sec = num_hi smod den_hi;
        (rem_sec, quotient) \<leftarrow>
          (if 0 < rem_sec then do { r \<leftarrow> ck (rem_sec - den_hi); q \<leftarrow> ck (quotient + 1); Some (r, q) }
           else Some (rem_sec, quotient));
        rem_sec \<leftarrow> (if num_lo \<noteq> 0 then ck (rem_sec - 1) else Some rem_sec);
        Some (Some (quotient, make_duration rem_sec num_lo)) })"

definition IDivFastPath :: "duration \<Rightarrow> duration \<Rightarrow> (int \<times> duration) option option" where
  "IDivFastPath num den =
     (if is_infinite_duration num \<or> is_infinite_duration den then Some None
      else let num_hi = rep_hi num; num_lo = rep_lo num; den_hi = rep_hi den; den_lo = rep_lo den in
        if den_hi = 0 \<and> uint den_lo = kTicksPerNanosecond then fast_subsecond 1 1000000000 num_hi num_lo den_lo
        else if den_hi = 0 \<and> uint den_lo = 100 * kTicksPerNanosecond then fast_subsecond 100 10000000 num_hi num_lo den_lo
        else if den_hi = 0 \<and> uint den_lo = 1000 * kTicksPerNanosecond then fast_subsecond 1000 1000000 num_hi num_lo den_lo
        else if den_hi = 0 \<and> uint den_lo = 1000000 * kTicksPerNanosecond then fast_subsecond 1000000 1000 num_hi num_lo den_lo
        else if 0 < den_hi \<and> den_lo = 0 then fast_seconds num_hi num_lo den_hi
        else Some None)"

text \<open>The result of the general path from the 128-bit quotient: \<open>q\<close> and the remainder.\<close>

definition integer_div_duration :: "bool \<Rightarrow> duration \<Rightarrow> duration \<Rightarrow> (int \<times> duration) option" where
  "integer_div_duration satq num den = do {
     fast \<leftarrow> IDivFastPath num den;
     (case fast of
        Some r \<Rightarrow> Some r
      | None \<Rightarrow>
        let num_neg = dur_lt num zero_duration;
            den_neg = dur_lt den zero_duration;
            quotient_neg = (num_neg \<noteq> den_neg) in
        if is_infinite_duration num \<or> dur_eq den zero_duration then
          Some (if quotient_neg then i64_min else i64_max,
                if num_neg then neg_infinite_duration else infinite_duration)
        else if is_infinite_duration den then Some (0, num)
        else do {
          a \<leftarrow> MakeU128Ticks num;
          b \<leftarrow> MakeU128Ticks den;
          q \<leftarrow> uint128_div a b;
          let q = (if satq \<and> uint128_gt q (uint128_of_unsigned (word_of_int i64_max))
                   then (if quotient_neg then uint128_of_unsigned (word_of_int i64_min)
                         else uint128_of_unsigned (word_of_int i64_max))
                   else q) in do {
          rem \<leftarrow> MakeDurationFromU128 (uint128_sub a (uint128_mul q b)) num_neg;
          if \<not> quotient_neg \<or> uint128_eq q (uint128_of_signed 0)
          then Some (sint (Uint128Low64 q AND word_of_int i64_max), rem)
          else do {
            m \<leftarrow> ck (- sint (Uint128Low64 (uint128_sub q (uint128_of_signed 1)) AND word_of_int i64_max));
            m \<leftarrow> ck (m - 1);
            Some (m, rem) } } }) }"

definition dur_quot :: "duration \<Rightarrow> duration \<Rightarrow> int option" where
  "dur_quot lhs rhs = map_option fst (integer_div_duration True lhs rhs)"

definition dur_mod :: "duration \<Rightarrow> duration \<Rightarrow> duration option" where
  "dur_mod lhs rhs = map_option snd (integer_div_duration False lhs rhs)"

definition dur_trunc :: "duration \<Rightarrow> duration \<Rightarrow> duration option" where
  "dur_trunc d unit = do { r \<leftarrow> dur_mod d unit; Some (dur_sub d r) }"

definition dur_floor :: "duration \<Rightarrow> duration \<Rightarrow> duration option" where
  "dur_floor d unit = do {
     td \<leftarrow> dur_trunc d unit;
     if dur_le td d then Some td else do { u \<leftarrow> abs_duration unit; Some (dur_sub td u) } }"

definition dur_ceil :: "duration \<Rightarrow> duration \<Rightarrow> duration option" where
  "dur_ceil d unit = do {
     td \<leftarrow> dur_trunc d unit;
     if dur_ge td d then Some td else do { u \<leftarrow> abs_duration unit; Some (dur_add td u) } }"

text \<open>\<open>FloorToUnit\<close> of \<open>time.cc\<close>.\<close>

definition FloorToUnit :: "duration \<Rightarrow> duration \<Rightarrow> int option" where
  "FloorToUnit d unit = do {
     (q, rem) \<leftarrow> integer_div_duration True d unit;
     if 0 < q \<or> dur_ge rem zero_duration \<or> q = i64_min then Some q else ck (q - 1) }"

section \<open>Conversions\<close>

text \<open>\<open>from_int64\<close> for a ratio of one to \<open>N\<close>, and for minutes and hours.\<close>

definition from_int64 :: "int \<Rightarrow> int \<Rightarrow> duration option" where
  "from_int64 N v = do {
     a \<leftarrow> ck (v smod N * kTicksPerNanosecond);
     a \<leftarrow> ck (a * 1000);
     a \<leftarrow> ck (a * 1000);
     a \<leftarrow> ck (a * 1000);
     make_normalized_duration (v sdiv N) (a sdiv N) }"

definition from_int64_seconds :: "int \<Rightarrow> int \<Rightarrow> duration option" where
  "from_int64_seconds k v =
     (if v \<le> i64_max sdiv k \<and> i64_min sdiv k \<le> v then do { h \<leftarrow> ck (v * k); Some (make_duration h 0) }
      else Some (if 0 < v then infinite_duration else neg_infinite_duration))"

definition nanoseconds :: "int \<Rightarrow> duration option" where "nanoseconds n = from_int64 1000000000 n"
definition microseconds :: "int \<Rightarrow> duration option" where "microseconds n = from_int64 1000000 n"
definition milliseconds :: "int \<Rightarrow> duration option" where "milliseconds n = from_int64 1000 n"
definition seconds :: "int \<Rightarrow> duration option" where "seconds n = from_int64 1 n"
definition minutes :: "int \<Rightarrow> duration option" where "minutes n = from_int64_seconds 60 n"
definition hours :: "int \<Rightarrow> duration option" where "hours n = from_int64_seconds 3600 n"

definition to_int64_nanoseconds :: "duration \<Rightarrow> int option" where
  "to_int64_nanoseconds d =
     (if 0 \<le> rep_hi d \<and> drop_bit 33 (rep_hi d) = 0 then do {
        a \<leftarrow> ck (rep_hi d * 1000); a \<leftarrow> ck (a * 1000); a \<leftarrow> ck (a * 1000);
        ck (a + uint (rep_lo d) sdiv kTicksPerNanosecond) }
      else do { u \<leftarrow> nanoseconds 1; dur_quot d u })"

definition to_int64_microseconds :: "duration \<Rightarrow> int option" where
  "to_int64_microseconds d =
     (if 0 \<le> rep_hi d \<and> drop_bit 43 (rep_hi d) = 0 then do {
        a \<leftarrow> ck (rep_hi d * 1000); a \<leftarrow> ck (a * 1000);
        ck (a + uint (rep_lo d) sdiv (kTicksPerNanosecond * 1000)) }
      else do { u \<leftarrow> microseconds 1; dur_quot d u })"

definition to_int64_milliseconds :: "duration \<Rightarrow> int option" where
  "to_int64_milliseconds d =
     (if 0 \<le> rep_hi d \<and> drop_bit 53 (rep_hi d) = 0 then do {
        a \<leftarrow> ck (rep_hi d * 1000);
        ck (a + uint (rep_lo d) sdiv (kTicksPerNanosecond * 1000 * 1000)) }
      else do { u \<leftarrow> milliseconds 1; dur_quot d u })"

text \<open>\<open>to_int64_seconds\<close>, \<open>to_int64_minutes\<close> and \<open>to_int64_hours\<close>, with 1, 60 and 3600.\<close>

definition to_int64_coarse :: "int \<Rightarrow> duration \<Rightarrow> int option" where
  "to_int64_coarse k d =
     (let hi = rep_hi d in
      if is_infinite_duration d then Some hi
      else do {
        hi \<leftarrow> (if hi < 0 \<and> rep_lo d \<noteq> 0 then ck (hi + 1) else Some hi);
        Some (if k = 1 then hi else hi sdiv k) })"

text \<open>\<open>timespec\<close> and \<open>timeval\<close> are pairs of seconds and nano- or microseconds; \<open>time_t\<close> is \<open>int64_t\<close>.\<close>

definition to_timespec :: "duration \<Rightarrow> (int \<times> int) option" where
  "to_timespec d =
     (if \<not> is_infinite_duration d then
        let lo = rep_lo d + (if rep_hi d < 0 then word_of_int (kTicksPerNanosecond - 1) else 0) in do {
        (hi, lo) \<leftarrow>
          (if rep_hi d < 0 \<and> kTicksPerSecond \<le> uint lo
           then do { hi \<leftarrow> ck (rep_hi d + 1); Some (hi, word_of_int (uint lo - kTicksPerSecond) :: u32) }
           else Some (rep_hi d, lo));
        Some (hi, uint lo sdiv kTicksPerNanosecond) }
      else if dur_ge d zero_duration then Some (i64_max, 1000 * 1000 * 1000 - 1)
      else Some (i64_min, 0))"

definition to_timeval :: "duration \<Rightarrow> (int \<times> int) option" where
  "to_timeval d = do {
     (sec, nsec) \<leftarrow> to_timespec d;
     (sec, nsec) \<leftarrow>
       (if sec < 0 then
          let nsec = nsec + (1000 - 1) in
          if 1000 * 1000 * 1000 \<le> nsec then do { sec \<leftarrow> ck (sec + 1); Some (sec, nsec - 1000 * 1000 * 1000) }
          else Some (sec, nsec)
        else Some (sec, nsec));
     Some (sec, nsec sdiv 1000) }"

definition duration_from_timespec :: "int \<times> int \<Rightarrow> duration option" where
  "duration_from_timespec ts =
     (case ts of (tv_sec, tv_nsec) \<Rightarrow>
        if (word_of_int tv_nsec :: u64) < 1000 * 1000 * 1000 then do {
          ticks \<leftarrow> ck (tv_nsec * kTicksPerNanosecond);
          Some (make_duration_ticks tv_sec ticks) }
        else do { s \<leftarrow> seconds tv_sec; n \<leftarrow> nanoseconds tv_nsec; Some (dur_add s n) })"

definition duration_from_timeval :: "int \<times> int \<Rightarrow> duration option" where
  "duration_from_timeval tv =
     (case tv of (tv_sec, tv_usec) \<Rightarrow>
        if (word_of_int tv_usec :: u64) < 1000 * 1000 then do {
          a \<leftarrow> ck (tv_usec * 1000);
          ticks \<leftarrow> ck (a * kTicksPerNanosecond);
          Some (make_duration_ticks tv_sec ticks) }
        else do { s \<leftarrow> seconds tv_sec; n \<leftarrow> microseconds tv_usec; Some (dur_add s n) })"

text \<open>\<open>to_chrono_duration\<close> for a 64-bit representation; \<open>conv\<close> is the conversion of the period.\<close>

definition to_chrono_duration :: "(duration \<Rightarrow> int option) \<Rightarrow> duration \<Rightarrow> int option" where
  "to_chrono_duration conv d =
     (if is_infinite_duration d then Some (if dur_lt d zero_duration then i64_min else i64_max) else conv d)"

section \<open>Quotients and remainders of ticks\<close>

text \<open>The quotient, at the ends of \<open>int64_t\<close>, and the remainder that goes with it.\<close>

definition clamp :: "int \<Rightarrow> int" where
  "clamp q = max i64_min (min i64_max q)"

fun span_quot :: "span \<Rightarrow> span \<Rightarrow> int" where
  "span_quot (Ticks n) (Ticks d) = (if d = 0 then if n < 0 then i64_min else i64_max else clamp (n sdiv d))"
| "span_quot (Ticks n) y = 0"
| "span_quot x y = (if (x < Ticks 0) \<noteq> (y < Ticks 0) then i64_min else i64_max)"

fun span_rem :: "bool \<Rightarrow> span \<Rightarrow> span \<Rightarrow> span" where
  "span_rem satq (Ticks n) (Ticks d) =
     (if d = 0 then if n < 0 then Minus_inf else Plus_inf
      else Ticks (n - (if satq then clamp (n sdiv d) else n sdiv d) * d))"
| "span_rem satq x y = x"

lemma clamp_id: "i64_ok q \<Longrightarrow> clamp q = q"
  by (simp add: clamp_def i64_ok_def)

lemma sdiv_nonneg_eqI:
  assumes "n = q * d + r" "0 \<le> r" "r < d" "0 \<le> n" shows "n sdiv d = (q :: int)"
proof -
  have "n div d = q" using assms by (intro int_div_pos_eq) (simp_all add: mult.commute)
  then show ?thesis using assms by (cases "n = 0") (auto simp: signed_divide_int_def sgn_if)
qed

lemma sdiv_nonpos_eqI:
  assumes "n = q * d + r" "r \<le> 0" "- d < r" "n \<le> 0" shows "n sdiv d = (q :: int)"
proof -
  have "- n div d = - q" using assms by (intro int_div_pos_eq [of _ _ _ "- r"]) (simp_all add: mult.commute)
  then show ?thesis using assms by (cases "n = 0") (auto simp: signed_divide_int_def sgn_if)
qed

text \<open>A result of the fast path: the exact quotient and remainder.\<close>

definition exact_div :: "int \<Rightarrow> int \<Rightarrow> (int \<times> duration) \<Rightarrow> bool" where
  "exact_div n d r \<longleftrightarrow> i64_ok (fst r) \<and> fst r = n sdiv d \<and> valid_dur (snd r) \<and> dval (snd r) = Ticks (n - n sdiv d * d)"

lemma int_div_le: "0 \<le> a \<Longrightarrow> 0 < b \<Longrightarrow> a div b \<le> (a :: int)"
  using zdiv_mono2 [of a 1 b] by simp

lemma fast_subsecond_ok:
  assumes nk: "0 < n" "0 < k" "n * 4 * k = kTicksPerSecond"
    and hi: "i64_ok hi" and lo: "uint lo < kTicksPerSecond" and dl: "uint dl = n * 4"
  shows "\<exists>r. fast_subsecond n k hi lo dl = Some r \<and> (\<forall>x. r = Some x \<longrightarrow> exact_div (hi * kTicksPerSecond + uint lo) (n * 4) x)"
proof (cases "0 \<le> hi \<and> hi < (i64_max - kTicksPerSecond) sdiv k")
  case False
  have "fast_subsecond n k hi lo dl = Some None" unfolding fast_subsecond_def by (rule if_not_P [OF False])
  then show ?thesis by simp
next
  case True
  define N where "N = hi * kTicksPerSecond + uint lo"
  define q where "q = hi * k + uint lo div (n * 4)"
  have M: "0 \<le> i64_max - kTicksPerSecond" by (simp add: i64_max_def kTicksPerSecond_def)
  then have "hi < (i64_max - kTicksPerSecond) div k" using True nk by (simp add: sdiv_nonneg)
  then have "hi * k \<le> (i64_max - kTicksPerSecond) div k * k" using nk by (intro mult_right_mono) simp_all
  also have "\<dots> \<le> i64_max - kTicksPerSecond" using nk M div_mult_mod_eq [of "i64_max - kTicksPerSecond" k]
      pos_mod_sign [of k "i64_max - kTicksPerSecond"] by linarith
  finally have p: "hi * k \<le> i64_max - kTicksPerSecond" .
  have p0: "0 \<le> hi * k" using True nk by simp
  have f: "0 \<le> uint lo div (n * 4)" "uint lo div (n * 4) \<le> uint lo"
    using nk by (simp_all add: pos_imp_zdiv_nonneg_iff int_div_le)
  have ok: "i64_ok (hi * k)" "i64_ok q"
    using p p0 f lo by (auto simp: q_def i64_ok_def i64_min_def i64_max_def kTicksPerSecond_def)
  have s: "uint lo sdiv (n * kTicksPerNanosecond) = uint lo div (n * 4)"
    using nk by (simp add: sdiv_nonneg kTicksPerNanosecond_def)
  define r where "r = uint lo mod (n * 4)"
  have r: "0 \<le> r" "r < n * 4" using nk by (simp_all add: r_def)
  have N: "N = q * (n * 4) + r"
    using div_mult_mod_eq [of "uint lo" "n * 4"]
    unfolding N_def q_def r_def nk(3) [symmetric] by (simp only: algebra_simps)
  have "0 \<le> N" using True lo by (simp add: N_def kTicksPerSecond_def)
  then have quot: "N sdiv (n * 4) = q" by (rule sdiv_nonneg_eqI [OF N r])
  have m: "uint (lo mod dl) = r" by (simp add: uint_mod_distrib dl r_def)
  have "n * 4 * 1 \<le> n * 4 * k" using nk by (intro mult_left_mono) simp_all
  then have "r < 4000000000" using r nk(3) by (simp add: kTicksPerSecond_def)
  then have "valid_dur (make_duration 0 (lo mod dl))" "dval (make_duration 0 (lo mod dl)) = Ticks r"
    using dval_make [of 0 "lo mod dl"] m by (simp_all add: i64_ok_iff)
  moreover have "r = N - q * (n * 4)" using N by simp
  ultimately have "exact_div N (n * 4) (q, make_duration 0 (lo mod dl))"
    using ok by (simp add: exact_div_def quot)
  then show ?thesis using True ok s by (simp add: fast_subsecond_def ck_def q_def N_def)
qed

text \<open>The truncated quotient of a negative number of seconds and a part of a second.\<close>

lemma fast_seconds_ok:
  assumes hi: "i64_ok hi" and lo: "uint lo < kTicksPerSecond" and d: "0 < dh" "i64_ok dh"
  shows "\<exists>x. fast_seconds hi lo dh = Some (Some x) \<and> exact_div (hi * kTicksPerSecond + uint lo) (dh * kTicksPerSecond) x"
proof (cases "0 \<le> hi")
  case True
  have dm: "hi div dh * dh + hi mod dh = hi" by simp
  have b: "0 \<le> hi mod dh" "hi mod dh < dh" "0 \<le> hi div dh" "hi div dh \<le> hi"
    using d True by (simp_all add: pos_imp_zdiv_nonneg_iff int_div_le)
  have e: "hi * kTicksPerSecond + uint lo = hi div dh * (dh * kTicksPerSecond) + (hi mod dh * kTicksPerSecond + uint lo)"
    by (subst dm [symmetric]) (simp only: algebra_simps)
  have r: "0 \<le> hi mod dh * kTicksPerSecond + uint lo" "hi mod dh * kTicksPerSecond + uint lo < dh * kTicksPerSecond"
    using b lo by (simp_all add: kTicksPerSecond_def)
  have q: "(hi * kTicksPerSecond + uint lo) sdiv (dh * kTicksPerSecond) = hi div dh"
    by (rule sdiv_nonneg_eqI [OF e r]) (use True in \<open>simp add: kTicksPerSecond_def\<close>)
  have ok: "i64_ok (hi div dh)" "i64_ok (hi mod dh)" using hi d b by (auto simp: i64_ok_iff)
  have "exact_div (hi * kTicksPerSecond + uint lo) (dh * kTicksPerSecond) (hi div dh, make_duration (hi mod dh) lo)"
    using ok dval_make [OF ok(2), of lo] lo e unfolding exact_div_def q fst_conv snd_conv
    by (simp add: kTicksPerSecond_def)
  moreover have "fast_seconds hi lo dh = Some (Some (hi div dh, make_duration (hi mod dh) lo))"
    using True d by (simp add: fast_seconds_def sdiv_nonneg smod_nonneg)
  ultimately show ?thesis by blast
next
  case False
  define l where "l = uint lo"
  have l: "0 \<le> l" "l < 4000000000" using lo by (simp_all add: l_def kTicksPerSecond_def)
  have nz: "lo \<noteq> 0 \<longleftrightarrow> l \<noteq> 0" by (simp add: l_def word_uint_eq_iff)
  define c :: int where "c = (if l \<noteq> 0 then 1 else 0)"
  define m where "m = - (hi + c)"
  have m: "0 \<le> m" using False by (simp add: m_def c_def)
  define q where "q = - (m div dh)"
  define t where "t = - (m mod dh)"
  have dm: "q * dh + t = hi + c" using div_mult_mod_eq [of m dh] m_def
    unfolding q_def t_def by (simp only: minus_mult_left [symmetric])
  have b: "t \<le> 0" "- dh < t" "q \<le> 0"
    using d m by (simp_all add: q_def t_def pos_imp_zdiv_nonneg_iff)
  have "- q \<le> m" using d m by (simp add: q_def int_div_le)
  then have "hi \<le> q" by (simp add: m_def c_def split: if_splits)
  then have ok: "i64_ok (hi + c)" "i64_ok q" "i64_ok (t - c)"
    using hi d b False by (auto simp: i64_ok_iff c_def m_def)
  have e: "hi * kTicksPerSecond + l = q * (dh * kTicksPerSecond) + ((t - c) * kTicksPerSecond + l)"
    using arg_cong [OF dm, of "\<lambda>x. x * kTicksPerSecond"] by (simp add: algebra_simps)
  have r: "(t - c) * kTicksPerSecond + l \<le> 0" "- (dh * kTicksPerSecond) < (t - c) * kTicksPerSecond + l"
    using b l by (auto simp: c_def kTicksPerSecond_def)
  have q: "(hi * kTicksPerSecond + l) sdiv (dh * kTicksPerSecond) = q"
    by (rule sdiv_nonpos_eqI [OF e r]) (use False l in \<open>simp add: kTicksPerSecond_def\<close>)
  have hq: "(hi + c) sdiv dh = q" "(hi + c) smod dh = t"
  proof -
    show s: "(hi + c) sdiv dh = q" using m by (intro sdiv_nonpos_eqI [OF dm [symmetric] b(1,2)]) (simp add: m_def)
    show "(hi + c) smod dh = t" using dm by (simp add: smod_eq s)
  qed
  have "exact_div (hi * kTicksPerSecond + l) (dh * kTicksPerSecond) (q, make_duration (t - c) lo)"
    using ok dval_make [OF ok(3), of lo] l e unfolding exact_div_def q fst_conv snd_conv l_def [symmetric] by simp
  moreover have "fast_seconds hi lo dh = Some (Some (q, make_duration (t - c) lo))"
    using False ok hq b(1) by (cases "l = 0") (simp_all add: fast_seconds_def nz c_def Let_def)
  ultimately show ?thesis by (auto simp: l_def)
qed

text \<open>The fast path gives nothing, or the exact quotient and remainder.\<close>

lemma IDivFastPath_ok:
  assumes "valid_dur a" "valid_dur b"
  shows "\<exists>r. IDivFastPath a b = Some r \<and>
    (\<forall>x. r = Some x \<longrightarrow> \<not> is_infinite_duration a \<and> \<not> is_infinite_duration b \<and> ticks b \<noteq> 0 \<and> exact_div (ticks a) (ticks b) x)"
proof (cases "is_infinite_duration a \<or> is_infinite_duration b")
  case True
  then show ?thesis by (auto simp: IDivFastPath_def)
next
  case False
  then have fin: "i64_ok (rep_hi a)" "uint (rep_lo a) < kTicksPerSecond" "i64_ok (rep_hi b)"
    using assms by (auto elim!: valid_cases simp: kTicksPerSecond_def)
  let ?f = "fast_subsecond" and ?l = "rep_lo b"
  have sub: "\<exists>r. ?f n k (rep_hi a) (rep_lo a) ?l = Some r \<and>
      (\<forall>x. r = Some x \<longrightarrow> \<not> is_infinite_duration a \<and> \<not> is_infinite_duration b \<and> ticks b \<noteq> 0 \<and> exact_div (ticks a) (ticks b) x)"
    if "rep_hi b = 0" "uint ?l = n * kTicksPerNanosecond" "0 < n" "0 < k" "n * 4 * k = kTicksPerSecond" for n k
    using fast_subsecond_ok [OF that(3-5) fin(1,2), of ?l] that False
    by (auto simp: ticks_def kTicksPerNanosecond_def)
  have sec: "\<exists>r. fast_seconds (rep_hi a) (rep_lo a) (rep_hi b) = Some r \<and>
      (\<forall>x. r = Some x \<longrightarrow> \<not> is_infinite_duration a \<and> \<not> is_infinite_duration b \<and> ticks b \<noteq> 0 \<and> exact_div (ticks a) (ticks b) x)"
    if "0 < rep_hi b" "?l = 0"
    using fast_seconds_ok [OF fin(1,2) that(1) fin(3)] that False
    by (fastforce simp: ticks_def kTicksPerSecond_def)
  note s = sub [of 1 1000000000] sub [of 100 10000000] sub [of 1000 1000000] sub [of 1000000 1000]
  show ?thesis using False s sec
    by (simp add: IDivFastPath_def Let_def kTicksPerSecond_def del: split_paired_All split_paired_Ex)
qed

lemma low_63: "sint (x AND word_of_int i64_max :: u64) = uint x mod 2 ^ 63"
proof -
  have "(word_of_int i64_max :: u64) = mask 63" by (simp add: i64_max_def mask_eq_exp_minus_1)
  then have "uint (x AND word_of_int i64_max :: u64) = uint x mod 2 ^ 63"
    by (simp add: take_bit_eq_mask [symmetric] unsigned_take_bit_eq take_bit_eq_mod uint_mod_distrib)
  then show ?thesis using sint_small [of "x AND word_of_int i64_max"] by simp
qed

lemma less_span_simps [simp]:
  "Ticks s < Ticks t \<longleftrightarrow> s < t" "Minus_inf < Ticks t" "\<not> Plus_inf < y" "\<not> x < Minus_inf" "Ticks t < Plus_inf"
  by (cases y; cases x; auto simp: less_span_def)+

lemma sat_small:
  "min n 0 \<le> t \<Longrightarrow> t \<le> max n 0 \<Longrightarrow> - (2 ^ 63) * kTicksPerSecond \<le> n \<Longrightarrow> n < 2 ^ 63 * kTicksPerSecond \<Longrightarrow> sat t = Ticks t"
  by (auto simp: sat_def kTicksPerSecond_def)

lemma integer_div_duration_finite:
  assumes v: "valid_dur a" "valid_dur b" and fin: "\<not> is_infinite_duration a" "\<not> is_infinite_duration b"
    and d: "ticks b \<noteq> 0" and none: "IDivFastPath a b = Some None"
  shows "\<exists>q r. integer_div_duration satq a b = Some (q, r) \<and> valid_dur r \<and>
    dval r = span_rem satq (dval a) (dval b) \<and> (satq \<longrightarrow> q = span_quot (dval a) (dval b))"
proof -
  define n where "n = ticks a"
  define e where "e = ticks b"
  have e: "e \<noteq> 0" using d by (simp add: e_def)
  have av: "dval a = Ticks n" "dval b = Ticks e" using fin by (simp_all add: dval_fin n_def e_def)
  have neg: "dur_lt a zero_duration \<longleftrightarrow> n < 0" "dur_lt b zero_duration \<longleftrightarrow> e < 0" "\<not> dur_eq b zero_duration"
    using v e by (simp_all add: dur_lt_ok dur_eq_ok av)
  obtain x where x: "MakeU128Ticks a = Some x" "uv x = \<bar>n\<bar>" using MakeU128Ticks_ok [OF v(1) fin(1)] by (auto simp: n_def)
  obtain y where y: "MakeU128Ticks b = Some y" "uv y = \<bar>e\<bar>" using MakeU128Ticks_ok [OF v(2) fin(2)] by (auto simp: e_def)
  define Q where "Q = \<bar>n\<bar> div \<bar>e\<bar>"
  obtain q where q: "uint128_div x y = Some q" "uv q = Q" using uv_div [of y x] e by (auto simp: x y Q_def)
  define s where "s \<longleftrightarrow> (n < 0) \<noteq> (e < 0)"
  have sd: "n sdiv e = (if s then - Q else Q)"
    using e by (auto simp: signed_divide_int_def s_def Q_def sgn_if abs_if)
  define q' where "q' = (if satq \<and> uint128_gt q (uint128_of_unsigned (word_of_int i64_max))
      then (if s then uint128_of_unsigned (word_of_int i64_min) else uint128_of_unsigned (word_of_int i64_max)) else q)"
  have ends: "uv (uint128_of_unsigned (word_of_int i64_max)) = 2 ^ 63 - 1"
    "uv (uint128_of_unsigned (word_of_int i64_min)) = 2 ^ 63"
    by (simp_all add: uv_unsigned i64_max_def i64_min_def uint_word_of_int)
  define c where "c = uv q'"
  have c: "c = (if satq \<and> 2 ^ 63 - 1 < Q then (if s then 2 ^ 63 else 2 ^ 63 - 1) else Q)"
    by (simp only: c_def q'_def uv_gt ends q(2) if_distrib [of uv])
  have "0 < \<bar>e\<bar>" using e by simp
  then have Q: "0 \<le> Q" "Q * \<bar>e\<bar> \<le> \<bar>n\<bar>"
    using div_mult_mod_eq [of "\<bar>n\<bar>" "\<bar>e\<bar>"] pos_mod_sign [of "\<bar>e\<bar>" "\<bar>n\<bar>"]
    unfolding Q_def by (simp add: pos_imp_zdiv_nonneg_iff, linarith)
  have cQ: "0 \<le> c" "c \<le> Q" using Q by (auto simp: c)
  then have ce: "0 \<le> c * \<bar>e\<bar>" "c * \<bar>e\<bar> \<le> \<bar>n\<bar>"
    using mult_right_mono [of c Q "\<bar>e\<bar>"] Q by simp_all
  have p: "uv (uint128_mul q' y) = c * \<bar>e\<bar>"
    using ce uv_range(2) [of x] by (subst uv_mul) (simp_all add: y(2) x(2) flip: c_def)
  then have r0: "uv (uint128_sub x (uint128_mul q' y)) = \<bar>n\<bar> - c * \<bar>e\<bar>"
    using ce by (subst uv_sub) (simp_all add: x)
  obtain r where r: "MakeDurationFromU128 (uint128_sub x (uint128_mul q' y)) (n < 0) = Some r" "valid_dur r"
    "dval r = sat (if n < 0 then - (\<bar>n\<bar> - c * \<bar>e\<bar>) else \<bar>n\<bar> - c * \<bar>e\<bar>)"
    using MakeDurationFromU128_ok r0 by metis
  define C where "C = (if s then - c else c)"
  have rem: "(if n < 0 then - (\<bar>n\<bar> - c * \<bar>e\<bar>) else \<bar>n\<bar> - c * \<bar>e\<bar>) = n - C * e"
    using e by (auto simp: C_def s_def abs_if)
  have cl: "(if satq then clamp (n sdiv e) else n sdiv e) = C"
    unfolding sd C_def c clamp_def i64_max_def i64_min_def using Q(1) by auto
  have "sat (n - C * e) = Ticks (n - C * e)"
    using ticks_range [OF v(1) fin(1)] ce unfolding rem [symmetric] n_def [symmetric]
    by (intro sat_small [of n]) auto
  then have rv: "dval r = span_rem satq (dval a) (dval b)" using e r(3) cl unfolding rem by (simp add: av)
  define m where "m = (if \<not> s \<or> c = 0 then sint (Uint128Low64 q' AND word_of_int i64_max)
      else - sint (Uint128Low64 (uint128_sub q' (uint128_of_signed 1)) AND word_of_int i64_max) - 1)"
  have ck: "ck (- sint (z AND word_of_int i64_max :: u64)) = Some (- sint (z AND word_of_int i64_max))"
    "ck (- sint (z AND word_of_int i64_max) - 1) = Some (- sint (z AND word_of_int i64_max) - 1)" for z
    using pos_mod_bound [of "2 ^ 63" "uint z"] pos_mod_sign [of "2 ^ 63" "uint z"]
    by (auto simp: ck_def i64_ok_iff low_63 simp del: pos_mod_sign pos_mod_bound)
  have sq: "(n < 0) = (\<not> e < 0) \<longleftrightarrow> s" by (auto simp: s_def)
  have q'_eq: "(if satq \<and> uint128_gt q (uint128_of_unsigned (word_of_int i64_max))
      then (if (n < 0) = (\<not> e < 0) then uint128_of_unsigned (word_of_int i64_min) else uint128_of_unsigned (word_of_int i64_max))
      else q) = q'"
    unfolding q'_def sq by (rule refl)
  have "integer_div_duration satq a b = Some (m, r)"
    using none fin neg x(1) y(1) q(1) r(1) ck
    unfolding integer_div_duration_def m_def
    by (simp add: Let_def sq q'_eq uv_eq uv_signed_0 c_def [symmetric] split del: if_split)
      (cases "s \<longrightarrow> c = 0"; simp add: sq q'_eq)
  moreover have "m = span_quot (dval a) (dval b)" if satq
  proof -
    have "clamp (n sdiv e) = C" using cl that by simp
    moreover have "m = C"
    proof (cases "\<not> s \<or> c = 0")
      case True
      then have "c < 2 ^ 63" using that by (auto simp: c)
      then have "uint (Uint128Low64 q') mod 2 ^ 63 = c" using cQ by (subst uv_low) (simp_all add: c_def [symmetric])
      then show ?thesis using True by (auto simp: m_def C_def low_63)
    next
      case False
      then have c1: "1 \<le> c" "c \<le> 2 ^ 63" using cQ that by (auto simp: c)
      then have "uv (uint128_sub q' (uint128_of_signed 1)) = c - 1"
        by (subst uv_sub) (simp_all add: c_def uv_signed_1)
      then have "uint (Uint128Low64 (uint128_sub q' (uint128_of_signed 1))) mod 2 ^ 63 = c - 1"
        using c1 by (subst uv_low) simp_all
      then show ?thesis using False by (simp add: m_def C_def low_63)
    qed
    ultimately show ?thesis using e by (simp add: av)
  qed
  ultimately show ?thesis using r(2) rv by blast
qed

lemma integer_div_duration_ok:
  assumes v: "valid_dur a" "valid_dur b"
  shows "\<exists>q r. integer_div_duration satq a b = Some (q, r) \<and> valid_dur r \<and>
    dval r = span_rem satq (dval a) (dval b) \<and> (satq \<longrightarrow> q = span_quot (dval a) (dval b))"
proof -
  obtain f where f: "IDivFastPath a b = Some f" and ok: "\<And>x. f = Some x \<Longrightarrow> \<not> is_infinite_duration a \<and>
      \<not> is_infinite_duration b \<and> ticks b \<noteq> 0 \<and> exact_div (ticks a) (ticks b) x"
    using IDivFastPath_ok [OF v] by blast
  note neg = dur_lt_ok [OF v(1) dval_zero(1)] dur_lt_ok [OF v(2) dval_zero(1)] dur_eq_ok [OF v(2) dval_zero(1)]
  show ?thesis
  proof (cases f)
    case (Some x)
    then show ?thesis using ok [OF Some] f
      by (cases x) (auto simp: integer_div_duration_def dval_fin exact_div_def clamp_id)
  next
    case None
    consider (inf) "is_infinite_duration a" | (zero) "\<not> is_infinite_duration a" "dval b = Ticks 0"
      | (by_inf) "\<not> is_infinite_duration a" "is_infinite_duration b"
      | (fin) "\<not> is_infinite_duration a" "\<not> is_infinite_duration b" "ticks b \<noteq> 0"
      by (metis dval_fin)
    then show ?thesis
    proof cases
      case inf
      then show ?thesis using None f
        by (cases "rep_hi a < 0") (simp_all add: integer_div_duration_def neg dval_def [of a])
    next
      case zero
      then show ?thesis using None f
        by (cases "ticks a < 0") (simp_all add: integer_div_duration_def neg dval_fin [of a])
    next
      case by_inf
      then have "dval b = Minus_inf \<or> dval b = Plus_inf" by (simp add: dval_def)
      then show ?thesis using None f v by_inf
        by (auto simp: integer_div_duration_def neg dval_fin [of a])
    next
      case fin
      then show ?thesis using integer_div_duration_finite [OF v fin] f None by blast
    qed
  qed
qed

lemma dur_quot_ok: "valid_dur a \<Longrightarrow> valid_dur b \<Longrightarrow> dur_quot a b = Some (span_quot (dval a) (dval b))"
  using integer_div_duration_ok [of a b True] by (auto simp: dur_quot_def)

lemma dur_mod_ok:
  "valid_dur a \<Longrightarrow> valid_dur b \<Longrightarrow> \<exists>r. dur_mod a b = Some r \<and> valid_dur r \<and> dval r = span_rem False (dval a) (dval b)"
  using integer_div_duration_ok [of a b False] by (auto simp: dur_mod_def)

section \<open>Rounding\<close>

lemma sdiv_mult_between: "min n 0 \<le> n sdiv u * u \<and> n sdiv u * u \<le> max n (0 :: int)"
proof (cases "u = 0")
  case False
  then have u: "0 < \<bar>u\<bar>" by simp
  have "\<bar>n\<bar> div \<bar>u\<bar> * \<bar>u\<bar> \<le> \<bar>n\<bar>"
    using div_mult_mod_eq [of "\<bar>n\<bar>" "\<bar>u\<bar>"] pos_mod_sign [OF u, of "\<bar>n\<bar>"] by linarith
  moreover have "0 \<le> \<bar>n\<bar> div \<bar>u\<bar> * \<bar>u\<bar>" using u by (simp add: pos_imp_zdiv_nonneg_iff)
  moreover have "n sdiv u * u = sgn n * (\<bar>n\<bar> div \<bar>u\<bar> * \<bar>u\<bar>)"
    by (simp add: signed_divide_int_def abs_if sgn_if)
  ultimately show ?thesis by (auto simp: sgn_if abs_if)
qed simp

lemma dur_trunc_ok:
  assumes v: "valid_dur d" "valid_dur unit" and f: "dval d = Ticks n" "dval unit = Ticks u" and u: "u \<noteq> 0"
  shows "\<exists>t. dur_trunc d unit = Some t \<and> valid_dur t \<and> dval t = Ticks (n sdiv u * u)"
proof -
  obtain r where r: "dur_mod d unit = Some r" "valid_dur r" "dval r = Ticks (n - n sdiv u * u)"
    using dur_mod_ok [OF v] u by (auto simp: f)
  have "\<not> is_infinite_duration d" "ticks d = n" using f(1) by (auto simp: dval_def split: if_splits)
  then have "sat (n sdiv u * u) = Ticks (n sdiv u * u)"
    using ticks_range [OF v(1)] sdiv_mult_between [of n u] by (intro sat_small [of n]) auto
  then show ?thesis using r dur_sub_ok [OF v(1) r(2)] by (simp add: dur_trunc_def f)
qed

lemma dur_le_ok: "valid_dur a \<Longrightarrow> valid_dur b \<Longrightarrow> dur_le a b \<longleftrightarrow> dval a \<le> dval b"
  and dur_ge_ok: "valid_dur a \<Longrightarrow> valid_dur b \<Longrightarrow> dur_ge a b \<longleftrightarrow> dval b \<le> dval a"
  by (simp_all add: dur_le_def dur_ge_def dur_lt_ok not_less)

lemma abs_duration_ok:
  assumes "valid_dur d" "dval d = Ticks n"
  shows "\<exists>a. abs_duration d = Some a \<and> valid_dur a \<and> dval a = sat \<bar>n\<bar>"
proof (cases "n < 0")
  case True
  then show ?thesis using assms dur_neg_ok [OF assms(1)] by (auto simp: abs_duration_def dur_lt_ok)
next
  case False
  have "\<not> is_infinite_duration d" "ticks d = n" using assms(2) by (auto simp: dval_def split: if_splits)
  then have "sat n = Ticks n" using ticks_range [OF assms(1)] by (intro sat_small [of n]) auto
  then show ?thesis using False assms by (simp add: abs_duration_def dur_lt_ok)
qed

text \<open>The multiple below or above from the truncated one.\<close>

lemma floor_from_trunc:
  assumes "u \<noteq> (0 :: int)"
  shows "n div \<bar>u\<bar> * \<bar>u\<bar> = (if n sdiv u * u \<le> n then n sdiv u * u else n sdiv u * u - \<bar>u\<bar>)"
proof -
  have t: "n sdiv u * u = sgn n * (\<bar>n\<bar> div \<bar>u\<bar>) * \<bar>u\<bar>" by (simp add: signed_divide_int_def abs_if sgn_if)
  have u: "0 < \<bar>u\<bar>" using assms by simp
  show ?thesis
  proof (cases "0 \<le> n")
    case True
    then have "n sdiv u * u = n div \<bar>u\<bar> * \<bar>u\<bar>" unfolding t by (cases "n = 0") (auto simp: sgn_if)
    moreover have "n div \<bar>u\<bar> * \<bar>u\<bar> \<le> n"
      using div_mult_mod_eq [of n "\<bar>u\<bar>"] pos_mod_sign [OF u, of n] by linarith
    ultimately show ?thesis by simp
  next
    case False
    then have t': "n sdiv u * u = - ((- n) div \<bar>u\<bar> * \<bar>u\<bar>)" unfolding t by (simp add: sgn_if)
    define q m where "q = (- n) div \<bar>u\<bar>" and "m = (- n) mod \<bar>u\<bar>"
    have qm: "q * \<bar>u\<bar> + m = - n" "0 \<le> m" "m < \<bar>u\<bar>" using u by (simp_all add: q_def m_def)
    have "n div \<bar>u\<bar> = (if m = 0 then - q else - q - 1)"
    proof (cases "m = 0")
      case True
      then show ?thesis using qm u by (simp, intro int_div_pos_eq [of _ _ _ 0]) (simp_all add: algebra_simps)
    next
      case nz: False
      then show ?thesis using qm u by (simp, intro int_div_pos_eq [of _ _ _ "\<bar>u\<bar> - m"]) (simp_all add: algebra_simps)
    qed
    then show ?thesis unfolding t' q_def [symmetric] using qm by (auto simp: algebra_simps)
  qed
qed

lemma ceil_from_trunc:
  assumes "u \<noteq> (0 :: int)"
  shows "- ((- n) div \<bar>u\<bar>) * \<bar>u\<bar> = (if n \<le> n sdiv u * u then n sdiv u * u else n sdiv u * u + \<bar>u\<bar>)"
proof -
  have "(- n) sdiv u * u = - (n sdiv u * u)" by (simp add: signed_divide_int_def sgn_minus)
  then show ?thesis using floor_from_trunc [OF assms, of "- n"] by (simp split: if_splits)
qed

lemma dur_round_ok:
  assumes v: "valid_dur d" "valid_dur unit" and f: "dval d = Ticks n" "dval unit = Ticks u"
    and u: "u \<noteq> 0" "\<bar>u\<bar> < 2 ^ 63 * kTicksPerSecond"
  shows "\<exists>t. dur_floor d unit = Some t \<and> valid_dur t \<and> dval t = sat (n div \<bar>u\<bar> * \<bar>u\<bar>)"
    "\<exists>t. dur_ceil d unit = Some t \<and> valid_dur t \<and> dval t = sat (- ((- n) div \<bar>u\<bar>) * \<bar>u\<bar>)"
proof -
  let ?t = "n sdiv u * u"
  obtain t where t: "dur_trunc d unit = Some t" "valid_dur t" "dval t = Ticks ?t"
    using dur_trunc_ok [OF v f u(1)] by blast
  have "sat \<bar>u\<bar> = Ticks \<bar>u\<bar>" using u(2) by (auto simp: sat_def kTicksPerSecond_def)
  then obtain a where a: "abs_duration unit = Some a" "valid_dur a" "dval a = Ticks \<bar>u\<bar>"
    using abs_duration_ok [OF v(2) f(2)] by auto
  have "\<not> is_infinite_duration d" "ticks d = n" using f(1) by (auto simp: dval_def split: if_splits)
  then have s: "sat ?t = Ticks ?t"
    using ticks_range [OF v(1)] sdiv_mult_between [of n u] by (intro sat_small [of n]) auto
  note le = dur_le_ok [OF t(2) v(1)] dur_ge_ok [OF t(2) v(1)]
  show "\<exists>t. dur_floor d unit = Some t \<and> valid_dur t \<and> dval t = sat (n div \<bar>u\<bar> * \<bar>u\<bar>)"
    unfolding floor_from_trunc [OF u(1)] using t a s le dur_sub_ok [OF t(2) a(2)]
    by (cases "?t \<le> n") (simp_all add: dur_floor_def f)
  show "\<exists>t. dur_ceil d unit = Some t \<and> valid_dur t \<and> dval t = sat (- ((- n) div \<bar>u\<bar>) * \<bar>u\<bar>)"
    unfolding ceil_from_trunc [OF u(1)] using t a s le dur_add_ok [OF t(2) a(2)]
    by (cases "n \<le> ?t") (simp_all add: dur_ceil_def f)
qed

lemma FloorToUnit_ok:
  assumes v: "valid_dur d" "valid_dur unit" and u: "dval unit = Ticks u" "0 < u"
  shows "FloorToUnit d unit = Some (case dval d of Minus_inf \<Rightarrow> i64_min | Ticks n \<Rightarrow> clamp (n div u) | Plus_inf \<Rightarrow> i64_max)"
proof -
  obtain q r where r: "integer_div_duration True d unit = Some (q, r)" "valid_dur r"
    "dval r = span_rem True (dval d) (dval unit)" "q = span_quot (dval d) (dval unit)"
    using integer_div_duration_ok [OF v, of True] by blast
  note ge = dur_ge_ok [OF r(2) dval_zero(1)]
  show ?thesis
  proof (cases "dval d")
    case (Ticks n)
    define c where "c = n sdiv u"
    have q: "q = clamp c" using r(4) Ticks u by (simp add: c_def)
    have rem: "dval r = Ticks (n - clamp c * u)" using r(3) Ticks u by (simp add: c_def)
    have fl: "n div u * u = (if c * u \<le> n then c * u else (c - 1) * u)"
      using floor_from_trunc [of u n] u(2) by (simp add: c_def left_diff_distrib)
    have div: "n div u = (if c * u \<le> n then c else c - 1)" using fl u(2) by (simp split: if_splits)
    have b: "min n 0 \<le> c * u" "c * u \<le> max n 0" using sdiv_mult_between [of n u] by (simp_all add: c_def)
    show ?thesis
    proof (cases "0 \<le> n")
      case True
      then have c: "0 \<le> c" "c * u \<le> n" using b u(2) by (simp_all add: zero_le_mult_iff)
      then have d: "n div u = c" and k: "0 < clamp c \<or> c = 0" using div by (auto simp: clamp_def i64_min_def i64_max_def)
      show ?thesis using k r(1) q rem ge True d Ticks
        by (auto simp: FloorToUnit_def clamp_def i64_min_def i64_max_def)
    next
      case False
      then have c: "c \<le> 0" "n \<le> c * u" using b u(2) by (simp_all add: mult_le_0_iff)
      show ?thesis
      proof (cases "c \<le> i64_min")
        case True
        then have "clamp c = i64_min" "clamp (c - 1) = i64_min" by (simp_all add: clamp_def i64_min_def i64_max_def)
        then show ?thesis using r(1) q div Ticks by (simp add: FloorToUnit_def)
      next
        case min: False
        then have k: "clamp c = c" "clamp (c - 1) = c - 1" "i64_ok (c - 1)" "c \<noteq> i64_min"
          using c by (simp_all add: clamp_def i64_ok_def i64_min_def i64_max_def)
        show ?thesis using r(1) q rem ge k c div Ticks
          by (simp add: FloorToUnit_def)
      qed
    qed
  qed (use r ge u in \<open>simp_all add: FloorToUnit_def i64_signs\<close>)
qed

section \<open>Conversions of counts\<close>

lemma make_normalized_ok:
  assumes "i64_ok h" "t < 0 \<Longrightarrow> i64_ok (h - 1)" "- kTicksPerSecond < t" "t < kTicksPerSecond"
  shows "\<exists>d. make_normalized_duration h t = Some d \<and> valid_dur d \<and> dval d = Ticks (h * kTicksPerSecond + t)"
proof (cases "t < 0")
  case True
  have l: "uint (word_of_int (t + kTicksPerSecond) :: u32) = t + kTicksPerSecond"
    by (rule uint32_of_int) (use assms True in \<open>simp_all add: kTicksPerSecond_def\<close>)
  show ?thesis using True assms dval_make [of "h - 1" "word_of_int (t + kTicksPerSecond)"] unfolding l
    by (simp add: make_normalized_duration_def make_duration_ticks_def kTicksPerSecond_def algebra_simps)
next
  case False
  have l: "uint (word_of_int t :: u32) = t"
    by (rule uint32_of_int) (use assms False in \<open>simp_all add: kTicksPerSecond_def\<close>)
  show ?thesis using False assms dval_make [of h "word_of_int t"] unfolding l
    by (simp add: make_normalized_duration_def make_duration_ticks_def kTicksPerSecond_def)
qed

lemma sdiv_times: "0 < (d :: int) \<Longrightarrow> (q * d) sdiv d = q"
  by (cases "0 \<le> q") (auto intro: sdiv_nonneg_eqI [of _ _ _ 0] sdiv_nonpos_eqI [of _ _ _ 0] simp: mult_le_0_iff)

lemma from_int64_ok:
  assumes v: "i64_ok v" and N: "0 < N" "N \<le> 1000000000" "N * M = kTicksPerSecond"
  shows "\<exists>d. from_int64 N v = Some d \<and> valid_dur d \<and> dval d = Ticks (v * M)"
proof -
  define q r where "q = v sdiv N" and "r = v smod N"
  have r: "\<bar>r\<bar> < N" using smod_bound [OF N(1)] by (simp add: r_def)
  have v_eq: "v = q * N + r" using c_div_mod [of v N] by (simp add: q_def r_def)
  have M: "0 < M" using N by (auto simp: kTicksPerSecond_def zero_less_mult_iff dest: arg_cong [of _ _ "(<) 0"])
  have "\<bar>q\<bar> \<le> \<bar>v\<bar>" using sdiv_bound [OF N(1)] by (simp add: q_def)
  moreover have "q \<le> 0" if "v < 0" using that N(1) by (simp add: q_def Prelude.sdiv_neg pos_imp_zdiv_nonneg_iff)
  ultimately have q: "i64_ok q" using v by (cases "v < 0") (auto simp: i64_ok_iff)
  have q1: "i64_ok (q - 1)" if "r < 0"
  proof -
    have "v < 0" using that pos_mod_sign [OF N(1), of v] N(1)
      by (cases "v < 0") (simp_all add: r_def smod_nonneg)
    then have "q \<le> 0" using N(1) by (simp add: q_def Prelude.sdiv_neg pos_imp_zdiv_nonneg_iff)
    then have "q * N \<le> q * 1" using N(1) by (intro mult_left_mono_neg) simp_all
    then show ?thesis using v \<open>q \<le> 0\<close> that by (simp add: v_eq i64_ok_iff)
  qed
  have e: "r * kTicksPerNanosecond * 1000 * 1000 * 1000 = r * M * N"
    using N(3) by (simp add: kTicksPerNanosecond_def kTicksPerSecond_def algebra_simps)
  have "\<bar>r * M\<bar> < N * M" using r M by (simp add: abs_mult)
  then have t: "- kTicksPerSecond < r * M" "r * M < kTicksPerSecond" using N(3) by simp_all
  have "r * M < 0 \<longleftrightarrow> r < 0" using M by (simp add: mult_less_0_iff)
  then obtain d where d: "make_normalized_duration q (r * M) = Some d" "valid_dur d" "dval d = Ticks (q * kTicksPerSecond + r * M)"
    using make_normalized_ok [OF q _ t] q1 by auto
  have "q * kTicksPerSecond + r * M = v * M" unfolding v_eq N(3) [symmetric] by (simp add: algebra_simps)
  moreover have "from_int64 N v = make_normalized_duration q (r * M)"
  proof -
    have "- 1000000000 < r" "r < 1000000000" using r N(2) by linarith+
    then have "i64_ok (r * kTicksPerNanosecond)" "i64_ok (r * kTicksPerNanosecond * 1000)"
      "i64_ok (r * kTicksPerNanosecond * 1000 * 1000)" "i64_ok (r * kTicksPerNanosecond * 1000 * 1000 * 1000)"
      by (simp_all add: i64_ok_iff kTicksPerNanosecond_def)
    then show ?thesis unfolding from_int64_def q_def [symmetric] r_def [symmetric]
      by (simp only: ck_Some bind.bind_lunit e sdiv_times [OF N(1)])
  qed
  ultimately show ?thesis using d by simp
qed

lemma unit_makers:
  assumes "i64_ok v"
  shows "\<exists>d. nanoseconds v = Some d \<and> valid_dur d \<and> dval d = Ticks (v * 4)"
    "\<exists>d. microseconds v = Some d \<and> valid_dur d \<and> dval d = Ticks (v * 4000)"
    "\<exists>d. milliseconds v = Some d \<and> valid_dur d \<and> dval d = Ticks (v * 4000000)"
    "\<exists>d. seconds v = Some d \<and> valid_dur d \<and> dval d = Ticks (v * 4000000000)"
  unfolding nanoseconds_def microseconds_def milliseconds_def seconds_def
  by (rule from_int64_ok [OF assms]; simp add: kTicksPerSecond_def)+

lemma from_int64_seconds_ok:
  assumes v: "i64_ok v" and k: "0 < k" "k \<le> 3600"
  shows "\<exists>d. from_int64_seconds k v = Some d \<and> valid_dur d \<and> dval d = sat (v * k * kTicksPerSecond)"
proof -
  have "v \<le> i64_max sdiv k \<longleftrightarrow> v * k \<le> i64_max"
    using int_div_less [OF k(1), of i64_max v] k by (simp add: sdiv_nonneg i64_signs less_imp_le not_less [symmetric])
  moreover have "i64_min sdiv k \<le> v \<longleftrightarrow> i64_min \<le> v * k"
    using int_div_less [OF k(1), of "- i64_min" "- v"] k by (simp add: Prelude.sdiv_neg i64_signs) linarith
  ultimately have c: "(v \<le> i64_max sdiv k \<and> i64_min sdiv k \<le> v) \<longleftrightarrow> i64_ok (v * k)"
    by (auto simp: i64_ok_def)
  show ?thesis
  proof (cases "i64_ok (v * k)")
    case True
    then show ?thesis using c dval_make [of "v * k" 0] sat_split [of 0 "v * k"]
      by (simp add: from_int64_seconds_def kTicksPerSecond_def i64_ok_iff)
  next
    case False
    have "0 < v \<longleftrightarrow> 0 < v * k" using k by (simp add: zero_less_mult_iff)
    then have "sat (v * k * kTicksPerSecond) = (if 0 < v then Plus_inf else Minus_inf)"
      using False by (auto simp: sat_def kTicksPerSecond_def i64_ok_iff mult.commute [of k v])
    then show ?thesis using False c by (simp add: from_int64_seconds_def)
  qed
qed

text \<open>The conversions to counts truncate.\<close>

lemma fine_count:
  assumes "valid_dur d" "0 \<le> rep_hi d" "rep_hi d < 2 ^ 63 - 1" "0 < M" "M * P = kTicksPerSecond" "rep_hi d * P + kTicksPerSecond \<le> i64_max"
  shows "i64_ok (rep_hi d * P)" "i64_ok (rep_hi d * P + uint (rep_lo d) sdiv M)"
    "span_quot (dval d) (Ticks M) = rep_hi d * P + uint (rep_lo d) sdiv M"
proof -
  define l where "l = uint (rep_lo d)"
  have fin: "\<not> is_infinite_duration d" and l: "0 \<le> l" "l < kTicksPerSecond"
    using assms(1-3) by (auto elim!: valid_cases simp: i64_max_def i64_min_def l_def kTicksPerSecond_def)
  have P: "0 < P" using assms(4,5) zero_less_mult_pos [of M P] by (simp add: kTicksPerSecond_def)
  have dm: "l div M * M + l mod M = l" by simp
  have n: "ticks d = (rep_hi d * P + l div M) * M + l mod M"
    unfolding ticks_def l_def [symmetric] assms(5) [symmetric] using dm by (simp only: algebra_simps)
  have p: "0 \<le> rep_hi d * P" "0 \<le> l div M" "l div M \<le> l"
    using assms(2,4) P l by (simp_all add: pos_imp_zdiv_nonneg_iff int_div_le)
  then have ok: "i64_ok (rep_hi d * P)" "i64_ok (rep_hi d * P + l div M)"
    using assms(6) l by (simp_all add: i64_ok_def i64_min_def kTicksPerSecond_def)
  have s: "l sdiv M = l div M" using l assms(4) by (simp add: sdiv_nonneg)
  have "ticks d sdiv M = rep_hi d * P + l div M"
    by (rule sdiv_nonneg_eqI [OF n]) (use assms(2,4) l in \<open>simp_all add: ticks_def kTicksPerSecond_def flip: l_def\<close>)
  then show "i64_ok (rep_hi d * P)" "i64_ok (rep_hi d * P + uint (rep_lo d) sdiv M)"
    "span_quot (dval d) (Ticks M) = rep_hi d * P + uint (rep_lo d) sdiv M"
    using ok assms(4) by (simp_all add: s dval_fin [OF fin] clamp_id flip: l_def)
qed

lemma high_bits: "0 \<le> h \<Longrightarrow> drop_bit n h = 0 \<longleftrightarrow> h < 2 ^ n" for h :: int
  using int_div_less [of "2 ^ n" h 1] pos_imp_zdiv_nonneg_iff [of "2 ^ n" h] unfolding drop_bit_eq_div by auto

lemma to_int64_fine_ok:
  assumes v: "valid_dur d"
  shows "to_int64_nanoseconds d = Some (span_quot (dval d) (Ticks 4))"
    "to_int64_microseconds d = Some (span_quot (dval d) (Ticks 4000))"
    "to_int64_milliseconds d = Some (span_quot (dval d) (Ticks 4000000))"
proof -
  have one: "i64_ok 1" by (simp add: i64_ok_iff)
  have h: "0 \<le> rep_hi d \<Longrightarrow> drop_bit n (rep_hi d) = 0 \<longleftrightarrow> rep_hi d < 2 ^ n" for n by (rule high_bits)
  note u = unit_makers [OF one]
  show "to_int64_nanoseconds d = Some (span_quot (dval d) (Ticks 4))"
  proof (cases "0 \<le> rep_hi d \<and> drop_bit 33 (rep_hi d) = 0")
    case True
    then show ?thesis using h [of 33] fine_count [OF v, of 4 1000000000]
      by (simp add: to_int64_nanoseconds_def kTicksPerSecond_def kTicksPerNanosecond_def i64_max_def ck_def i64_ok_iff)
  next
    case False
    obtain u where "nanoseconds 1 = Some u" "valid_dur u" "dval u = Ticks 4" using u(1) by auto
    then show ?thesis using dur_quot_ok [OF v, of u] unfolding to_int64_nanoseconds_def if_not_P [OF False] by simp
  qed
  show "to_int64_microseconds d = Some (span_quot (dval d) (Ticks 4000))"
  proof (cases "0 \<le> rep_hi d \<and> drop_bit 43 (rep_hi d) = 0")
    case True
    then show ?thesis using h [of 43] fine_count [OF v, of 4000 1000000]
      by (simp add: to_int64_microseconds_def kTicksPerSecond_def kTicksPerNanosecond_def i64_max_def ck_def i64_ok_iff)
  next
    case False
    obtain u where "microseconds 1 = Some u" "valid_dur u" "dval u = Ticks 4000" using u(2) by auto
    then show ?thesis using dur_quot_ok [OF v, of u] unfolding to_int64_microseconds_def if_not_P [OF False] by simp
  qed
  show "to_int64_milliseconds d = Some (span_quot (dval d) (Ticks 4000000))"
  proof (cases "0 \<le> rep_hi d \<and> drop_bit 53 (rep_hi d) = 0")
    case True
    then show ?thesis using h [of 53] fine_count [OF v, of 4000000 1000]
      by (simp add: to_int64_milliseconds_def kTicksPerSecond_def kTicksPerNanosecond_def i64_max_def ck_def i64_ok_iff)
  next
    case False
    obtain u where "milliseconds 1 = Some u" "valid_dur u" "dval u = Ticks 4000000" using u(3) by auto
    then show ?thesis using dur_quot_ok [OF v, of u] unfolding to_int64_milliseconds_def if_not_P [OF False] by simp
  qed
qed

lemma sdiv_sdiv: "0 < b \<Longrightarrow> 0 < c \<Longrightarrow> a sdiv b sdiv c = a sdiv (b * c)" for a b c :: int
proof (cases "a < 0")
  case True
  assume bc: "0 < b" "0 < c"
  then have "- a div b div c = - a div (b * c)" by (simp add: zdiv_zmult2_eq)
  moreover have "0 \<le> - a div b" using True bc by (simp add: pos_imp_zdiv_nonneg_iff)
  ultimately show ?thesis using True bc by (cases "- a div b = 0") (simp_all add: Prelude.sdiv_neg sdiv_nonneg)
qed (simp_all add: sdiv_nonneg pos_imp_zdiv_nonneg_iff zdiv_zmult2_eq)

lemma to_int64_coarse_ok:
  assumes v: "valid_dur d" and k: "0 < k"
  shows "to_int64_coarse k d = Some (span_quot (dval d) (Ticks (kTicksPerSecond * k)))"
proof (cases "is_infinite_duration d")
  case True
  have "0 < kTicksPerSecond * k" using k by (simp add: kTicksPerSecond_def)
  then show ?thesis using v True
    by (auto elim!: valid_cases simp: to_int64_coarse_def dval_def i64_signs)
next
  case False
  define l where "l = uint (rep_lo d)"
  have hl: "i64_ok (rep_hi d)" "0 \<le> l" "l < kTicksPerSecond"
    using v False by (auto elim!: valid_cases simp: l_def kTicksPerSecond_def)
  have nz: "rep_lo d \<noteq> 0 \<longleftrightarrow> l \<noteq> 0" by (simp add: l_def word_uint_eq_iff)
  define h where "h = (if rep_hi d < 0 \<and> l \<noteq> 0 then rep_hi d + 1 else rep_hi d)"
  have ok: "i64_ok h" using hl by (auto simp: h_def i64_ok_iff)
  have s: "ticks d sdiv kTicksPerSecond = h"
  proof (cases "rep_hi d < 0")
    case True
    show ?thesis
      by (rule sdiv_nonpos_eqI [of _ _ _ "ticks d - h * kTicksPerSecond"])
        (use True hl in \<open>auto simp: h_def ticks_def kTicksPerSecond_def simp flip: l_def\<close>)
  next
    case f: False
    show ?thesis
      by (rule sdiv_nonneg_eqI [of _ _ _ l])
        (use f hl in \<open>auto simp: h_def ticks_def kTicksPerSecond_def simp flip: l_def\<close>)
  qed
  have "ticks d sdiv (kTicksPerSecond * k) = h sdiv k"
    using k sdiv_sdiv [of kTicksPerSecond k "ticks d"] unfolding s by (simp add: kTicksPerSecond_def)
  moreover have "\<bar>h sdiv k\<bar> \<le> \<bar>h\<bar>" using k by (rule sdiv_bound)
  moreover have "h sdiv k \<le> 0" if "h < 0" using that k by (simp add: Prelude.sdiv_neg pos_imp_zdiv_nonneg_iff)
  ultimately have "clamp (ticks d sdiv (kTicksPerSecond * k)) = h sdiv k"
    using ok by (cases "h < 0") (auto intro!: clamp_id simp: i64_ok_iff)
  moreover have "to_int64_coarse k d = Some (h sdiv k)"
    using False ok by (cases "k = 1"; cases "rep_hi d < 0 \<and> l \<noteq> 0")
      (auto simp: to_int64_coarse_def nz h_def Let_def sdiv_times [of 1, simplified])
  ultimately show ?thesis using False k by (simp add: dval_fin kTicksPerSecond_def)
qed

section \<open>Conversions of \<open>timespec\<close> and \<open>timeval\<close>\<close>

lemma sdiv_split:
  assumes "0 < (b :: int)" "0 < c" "c = b * k"
  shows "(s * c + l) sdiv b = (if s * c + l < 0 then s * k + (l + (b - 1)) div b else s * k + l div b)"
proof -
  have e: "s * c + l = s * k * b + l" by (simp add: assms(3))
  have up: "- ((- n) div b) = (n + (b - 1)) div b" for n
  proof -
    have "(n + (b - 1)) div b = - ((- n) div b)"
      using assms(1) div_mult_mod_eq [of "- n" b] pos_mod_bound [of b "- n"] pos_mod_sign [of b "- n"]
      by (intro int_div_pos_eq [of _ _ _ "b - 1 - (- n) mod b"]) (auto simp: algebra_simps simp del: pos_mod_bound pos_mod_sign)
    then show ?thesis by simp
  qed
  show ?thesis
  proof (cases "s * c + l < 0")
    case True
    then have "(s * c + l) sdiv b = (s * k * b + l + (b - 1)) div b"
      using assms(1) by (simp add: Prelude.sdiv_neg up [symmetric] e)
    also have "\<dots> = (l + (b - 1) + (s * k) * b) div b" by (simp add: algebra_simps)
    finally show ?thesis using True assms(1) by (simp add: div_mult_self1)
  next
    case False
    then have "(s * c + l) sdiv b = (s * c + l) div b" using assms(1) by (simp add: sdiv_nonneg)
    also have "\<dots> = (l + s * k * b) div b" by (rule arg_cong [of _ _ "\<lambda>x. x div b"]) (simp add: assms(3))
    finally show ?thesis using False assms(1) by (simp add: div_mult_self1)
  qed
qed

lemma div_mod_eqI: "t = q * c + r \<Longrightarrow> 0 \<le> r \<Longrightarrow> r < c \<Longrightarrow> t div c = q \<and> t mod c = (r :: int)"
  by (metis int_div_pos_eq int_mod_pos_eq mult.commute)

text \<open>Truncation of a negative amount in two fields: add one less than the unit and carry.\<close>

lemma carry_div:
  fixes h l b c k :: int
  assumes l: "0 \<le> l" "l < c" and b: "0 < b" "0 < k" "c = b * k"
  defines "l' \<equiv> (if h < 0 then l + (b - 1) else l)"
  defines "q \<equiv> (if h < 0 \<and> c \<le> l' then (h + 1, l' - c) else (h, l'))"
  shows "0 \<le> snd q" "snd q < c" "(h * c + l) sdiv b div k = fst q" "(h * c + l) sdiv b mod k = snd q div b"
proof -
  have c: "0 < c" "b \<le> c" using b by (simp_all add: mult_le_cancel_left1)
  have l': "0 \<le> l'" "l' < c + c" using l b(1) c by (auto simp: l'_def)
  show s: "0 \<le> snd q" "snd q < c" using l l' by (auto simp: q_def l'_def)
  have neg: "h * c + l < 0 \<longleftrightarrow> h < 0"
  proof
    assume "h < 0"
    then have "h * c \<le> - 1 * c" using c by (intro mult_right_mono) simp_all
    then show "h * c + l < 0" using l by simp
  next
    assume n: "h * c + l < 0"
    show "h < 0"
    proof (rule ccontr)
      assume "\<not> h < 0"
      then have "0 \<le> h * c" using c by simp
      then show False using n l by linarith
    qed
  qed
  have "(h * c + l) sdiv b = (if h < 0 then h * k + (l + (b - 1)) div b else h * k + l div b)"
    unfolding sdiv_split [OF b(1) c(1) b(3)] neg by (rule refl)
  then have "(h * c + l) sdiv b = h * k + l' div b" by (simp add: l'_def)
  moreover have "(l' - c) div b = l' div b - k"
    using div_mult_self1 [of b l' "- k"] b by (simp add: mult.commute)
  ultimately have "(h * c + l) sdiv b = fst q * k + snd q div b" by (simp add: q_def algebra_simps)
  moreover have "0 \<le> snd q div b" "snd q div b < k"
    using s b by (simp_all add: pos_imp_zdiv_nonneg_iff int_div_less mult.commute)
  ultimately have "(h * c + l) sdiv b div k = fst q \<and> (h * c + l) sdiv b mod k = snd q div b"
    by (intro div_mod_eqI)
  then show "(h * c + l) sdiv b div k = fst q" "(h * c + l) sdiv b mod k = snd q div b" by simp_all
qed

lemma to_timespec_ok:
  assumes v: "valid_dur d"
  shows "to_timespec d = Some (case dval d of Minus_inf \<Rightarrow> (i64_min, 0) | Plus_inf \<Rightarrow> (i64_max, 999999999)
    | Ticks n \<Rightarrow> (n sdiv 4 div 1000000000, n sdiv 4 mod 1000000000))"
proof (cases "is_infinite_duration d")
  case True
  then show ?thesis using v by (simp add: to_timespec_def dur_ge_ok dval_def [of d])
next
  case False
  define h l where "h = rep_hi d" and "l = uint (rep_lo d)"
  have hl: "i64_ok h" "0 \<le> l" "l < 4000000000"
    using v False by (auto elim!: valid_cases simp: l_def h_def)
  have dw: "rep_lo d = w32 l" by (simp add: l_def w32_def)
  have tk: "ticks d = h * 4000000000 + l" by (simp add: ticks_def h_def l_def kTicksPerSecond_def)
  define l' where "l' = (if h < 0 then l + (4 - 1) else l)"
  define q where "q = (if h < 0 \<and> 4000000000 \<le> l' then (h + 1, l' - 4000000000) else (h, l'))"
  note q = carry_div [OF hl(2,3), of 4 1000000000 h, folded l'_def, folded q_def, folded tk, simplified]
  have l': "0 \<le> l'" "l' < 4294967296" "l' < 4000000004" using hl by (simp_all add: l'_def)
  have "i64_ok (fst q)" using hl(1) by (simp add: q_def i64_ok_iff)
  moreover have w: "rep_lo d + (if h < 0 then word_of_int (kTicksPerNanosecond - 1) else 0) = w32 l'"
    by (simp add: dw l'_def w32_def kTicksPerNanosecond_def)
  moreover have u: "uint (w32 l') = l'" using l' by (simp add: uint_w32)
  moreover have c: "uint (word_of_int l' - 4000000000 :: u32) = l' - 4000000000" if "4000000000 \<le> l'"
    using that l' uint_w32 [of "l' - 4000000000"] by (simp add: w32_def)
  ultimately have "to_timespec d = Some (fst q, snd q div 4)"
    unfolding to_timespec_def Let_def h_def [symmetric] w u kTicksPerSecond_def
    using False q(1) l' by (auto simp: q_def u kTicksPerNanosecond_def sdiv_nonneg)
  then show ?thesis using False q by (simp add: dval_fin)
qed

lemma to_timeval_ok:
  assumes v: "valid_dur d"
  shows "to_timeval d = Some (case dval d of Minus_inf \<Rightarrow> (i64_min, 0) | Plus_inf \<Rightarrow> (i64_max, 999999)
    | Ticks n \<Rightarrow> (n sdiv 4000 div 1000000, n sdiv 4000 mod 1000000))"
proof (cases "dval d")
  case (Ticks n)
  define s l where "s = n sdiv 4 div 1000000000" and "l = n sdiv 4 mod 1000000000"
  have ts: "to_timespec d = Some (s, l)" using to_timespec_ok [OF v] Ticks by (simp add: s_def l_def)
  have l: "0 \<le> l" "l < 1000000000" by (simp_all add: l_def)
  have e: "s * 1000000000 + l = n sdiv 4" by (simp add: s_def l_def)
  define l' where "l' = (if s < 0 then l + (1000 - 1) else l)"
  define q where "q = (if s < 0 \<and> 1000000000 \<le> l' then (s + 1, l' - 1000000000) else (s, l'))"
  note q = carry_div [OF l, of 1000 1000000 s, folded l'_def, folded q_def, unfolded e, simplified]
  have "n sdiv 4 sdiv 1000 = n sdiv 4000" by (simp add: sdiv_sdiv)
  note q = q [unfolded this]
  have "\<not> is_infinite_duration d" "ticks d = n" using Ticks by (auto simp: dval_def split: if_splits)
  then have "- (2 ^ 63) * kTicksPerSecond \<le> n" using ticks_range [OF v] by simp
  moreover have "min n 0 \<le> (s * 1000000000 + l) * 4" unfolding e using sdiv_mult_between [of n 4] by simp
  ultimately have "i64_ok (s + 1)" if "s < 0" using that l by (simp add: i64_ok_iff kTicksPerSecond_def)
  then have "to_timeval d = Some (fst q, snd q div 1000)"
    using ts q(1) by (auto simp: to_timeval_def q_def l'_def sdiv_nonneg)
  then show ?thesis using Ticks q by simp
qed (use to_timespec_ok [OF v] in \<open>simp_all add: to_timeval_def i64_signs sdiv_nonneg\<close>)

lemma make_duration_ticks_ok:
  assumes "i64_ok s" "0 \<le> t" "t < kTicksPerSecond"
  shows "valid_dur (make_duration_ticks s t)" "dval (make_duration_ticks s t) = Ticks (s * kTicksPerSecond + t)"
    "sat (s * kTicksPerSecond + t) = Ticks (s * kTicksPerSecond + t)"
proof -
  have "uint (word_of_int t :: u32) = t" by (rule uint32_of_int) (use assms in \<open>simp_all add: kTicksPerSecond_def\<close>)
  then show "valid_dur (make_duration_ticks s t)" "dval (make_duration_ticks s t) = Ticks (s * kTicksPerSecond + t)"
    using dval_make [of s "word_of_int t"] assms by (simp_all add: make_duration_ticks_def kTicksPerSecond_def)
  show "sat (s * kTicksPerSecond + t) = Ticks (s * kTicksPerSecond + t)"
    using sat_split [OF assms(2,3), of s] assms(1) by (simp add: i64_ok_iff)
qed

lemma below_as_unsigned:
  assumes "i64_ok n" "0 < b" "b < 2 ^ 63" shows "(word_of_int n :: u64) < word_of_int b \<longleftrightarrow> 0 \<le> n \<and> n < b"
proof (cases "0 \<le> n")
  case True
  then show ?thesis using assms by (simp add: word_less_def uint_word_of_int i64_ok_iff)
next
  case False
  then have "n mod 2 ^ 64 = n + 2 ^ 64"
    using assms(1) mod_pos_pos_trivial [of "n + 2 ^ 64" "2 ^ 64"] mod_add_self2 [of n "2 ^ 64"] by (simp add: i64_ok_iff)
  then show ?thesis using False assms by (simp add: word_less_def uint_word_of_int i64_ok_iff)
qed

lemma from_fields_ok:
  assumes "i64_ok s" "i64_ok n"
  shows "\<exists>d. duration_from_timespec (s, n) = Some d \<and> valid_dur d \<and> dval d = sat (s * kTicksPerSecond + n * 4)"
    "\<exists>d. duration_from_timeval (s, n) = Some d \<and> valid_dur d \<and> dval d = sat (s * kTicksPerSecond + n * 4000)"
proof -
  obtain a where a: "seconds s = Some a" "valid_dur a" "dval a = Ticks (s * kTicksPerSecond)"
    using unit_makers(4) [OF assms(1)] by (auto simp: kTicksPerSecond_def)
  obtain b where b: "nanoseconds n = Some b" "valid_dur b" "dval b = Ticks (n * 4)" using unit_makers(1) [OF assms(2)] by blast
  obtain c where c: "microseconds n = Some c" "valid_dur c" "dval c = Ticks (n * 4000)" using unit_makers(2) [OF assms(2)] by blast
  have w: "(word_of_int n :: u64) < 1000000000 \<longleftrightarrow> 0 \<le> n \<and> n < 1000000000"
    "(word_of_int n :: u64) < 1000000 \<longleftrightarrow> 0 \<le> n \<and> n < 1000000"
    using below_as_unsigned [OF assms(2), of 1000000000] below_as_unsigned [OF assms(2), of 1000000] by simp_all
  show "\<exists>d. duration_from_timespec (s, n) = Some d \<and> valid_dur d \<and> dval d = sat (s * kTicksPerSecond + n * 4)"
  proof (cases "0 \<le> n \<and> n < 1000000000")
    case True
    then show ?thesis using make_duration_ticks_ok [OF assms(1), of "n * 4"]
      by (simp add: duration_from_timespec_def w kTicksPerNanosecond_def kTicksPerSecond_def ck_def i64_ok_iff)
  next
    case False
    then show ?thesis using a b dur_add_ok [OF a(2) b(2)] by (auto simp: duration_from_timespec_def w)
  qed
  show "\<exists>d. duration_from_timeval (s, n) = Some d \<and> valid_dur d \<and> dval d = sat (s * kTicksPerSecond + n * 4000)"
  proof (cases "0 \<le> n \<and> n < 1000000")
    case True
    then show ?thesis using make_duration_ticks_ok [OF assms(1), of "n * 4000"]
      by (simp add: duration_from_timeval_def w kTicksPerNanosecond_def kTicksPerSecond_def ck_def i64_ok_iff mult.commute [of 4000 n])
  next
    case False
    then show ?thesis using a c dur_add_ok [OF a(2) c(2)] by (auto simp: duration_from_timeval_def w)
  qed
qed

section \<open>Properties\<close>

text \<open>An operation is defined and its result is well formed.\<close>

fun proper :: "duration option \<Rightarrow> bool" where
  "proper None = False"
| "proper (Some d) = valid_dur d"

lemma properI: "\<exists>d. x = Some d \<and> valid_dur d \<and> P d \<Longrightarrow> proper x"
  by auto

text \<open>
  C12. Every operation on well-formed durations is free of undefined behaviour and gives a well-formed
  duration again: sums, differences, negation, products and quotients with an \<open>int64_t\<close>, the remainder
  of two durations, and the constructors from counts and from \<open>timespec\<close> and \<open>timeval\<close>.
\<close>

theorem duration_closed:
  assumes a: "valid_dur a" and b: "valid_dur b" and r: "i64_ok r" "i64_ok r'"
  shows "valid_dur (dur_add a b) \<and> valid_dur (dur_sub a b) \<and> proper (dur_neg a) \<and>
    proper (dur_mul a r) \<and> proper (dur_div a r) \<and> proper (dur_mod a b) \<and>
    proper (nanoseconds r) \<and> proper (microseconds r) \<and> proper (milliseconds r) \<and> proper (seconds r) \<and>
    proper (minutes r) \<and> proper (hours r) \<and>
    proper (duration_from_timespec (r, r')) \<and> proper (duration_from_timeval (r, r'))"
  unfolding minutes_def hours_def
  using dur_add_ok(1) [OF a b] dur_sub_ok(1) [OF a b] dur_neg_ok [OF a, THEN properI]
    dur_mul_ok [OF a r(1), THEN properI] dur_div_ok [OF a r(1), THEN properI] dur_mod_ok [OF a b, THEN properI]
    unit_makers [OF r(1), THEN properI] from_int64_seconds_ok [OF r(1), THEN properI] from_fields_ok [OF r, THEN properI]
  by simp

theorem duration_closed_witness:
  "proper (dur_mul (make_duration (- 1) 3999999999) i64_min)"
  using duration_closed [of "make_duration (- 1) 3999999999" zero_duration i64_min 0] dval_make [of "- 1" 3999999999]
  by (simp add: i64_ok_def i64_min_def i64_max_def)

text \<open>
  Durations add, subtract, negate and compare as the tick counts they stand for, extended by the two
  infinities: a finite result out of range saturates, an infinite left operand is kept, and \<open>==\<close> and
  \<open><\<close> are those of the extended line.
\<close>

theorem duration_sums:
  assumes a: "valid_dur a" and b: "valid_dur b"
  shows "dval (dur_add a b) = span_add (dval a) (dval b) \<and>
    dval (dur_sub a b) = (case (dval a, dval b) of
       (Ticks s, Ticks t) \<Rightarrow> sat (s - t) | (Ticks s, y) \<Rightarrow> span_neg y | (x, y) \<Rightarrow> x) \<and>
    map_option dval (dur_neg a) = Some (span_neg (dval a)) \<and>
    (dur_lt a b \<longleftrightarrow> dval a < dval b) \<and> (dur_le a b \<longleftrightarrow> dval a \<le> dval b) \<and>
    (dur_gt a b \<longleftrightarrow> dval b < dval a) \<and> (dur_ge a b \<longleftrightarrow> dval b \<le> dval a) \<and>
    (dur_eq a b \<longleftrightarrow> dval a = dval b)"
  using dur_add_ok(2) [OF a b] dur_sub_ok(2) [OF a b] dur_neg_ok [OF a] a b
  by (auto simp: dur_lt_ok dur_le_ok dur_ge_ok dur_eq_ok dur_gt_def)

theorem duration_sums_witness:
  "dval (dur_add (make_duration i64_max 3999999999) (make_duration 0 1)) = Plus_inf"
  using duration_sums [of "make_duration i64_max 3999999999" "make_duration 0 1"]
    dval_make [of i64_max 3999999999] dval_make [of 0 1]
  by (simp add: i64_ok_def i64_min_def i64_max_def sat_def kTicksPerSecond_def)

text \<open>
  C11. \<open>d * r\<close> and \<open>d / r\<close> for an \<open>int64_t\<close> scale the tick count exactly, by way of 128-bit integers:
  the product saturates, the quotient truncates (and saturates for \<open>min / -1\<close>), division by zero and
  infinite durations give the infinity with the sign of the operands.
\<close>

theorem duration_scaling:
  assumes d: "valid_dur d" and r: "i64_ok r"
  shows "map_option dval (dur_mul d r) = Some (case dval d of
      Ticks t \<Rightarrow> sat (t * r) | x \<Rightarrow> if r < 0 then span_neg x else x) \<and>
    map_option dval (dur_div d r) = Some (case dval d of
      Ticks t \<Rightarrow> if r = 0 then if t < 0 then Minus_inf else Plus_inf else sat (t sdiv r)
    | x \<Rightarrow> if r < 0 then span_neg x else x)"
  using dur_mul_ok [OF d r] dur_div_ok [OF d r] by auto

theorem duration_scaling_witness:
  "map_option dval (dur_mul (make_duration (- 1) 3999999999) 3) = Some (Ticks (- 3)) \<and>
   map_option dval (dur_div (make_duration (- 1) 3999999999) 0) = Some Minus_inf"
  using duration_scaling [of "make_duration (- 1) 3999999999" 3] duration_scaling [of "make_duration (- 1) 3999999999" 0]
    dval_make [of "- 1" 3999999999]
  by (simp add: i64_ok_def i64_min_def i64_max_def sat_def kTicksPerSecond_def)

text \<open>
  C10. \<open>integer_div_duration\<close>, through its fast path or 128-bit division, returns the quotient truncated
  toward zero and clamped to \<open>int64_t\<close> (when saturation is asked for) and the remainder that
  goes with it, with the sign of the numerator; a zero denominator or an infinite numerator gives the
  extreme quotient and an infinite remainder, an infinite denominator the quotient zero.
\<close>

theorem duration_division:
  assumes a: "valid_dur a" and b: "valid_dur b"
  shows "\<exists>q r q' r'. integer_div_duration True a b = Some (q, r) \<and> q = span_quot (dval a) (dval b) \<and>
      dval r = span_rem True (dval a) (dval b) \<and> valid_dur r \<and>
    integer_div_duration False a b = Some (q', r') \<and> dval r' = span_rem False (dval a) (dval b) \<and> valid_dur r' \<and>
    dur_quot a b = Some q \<and> dur_mod a b = Some r'"
proof -
  obtain q r where 1: "integer_div_duration True a b = Some (q, r)" "q = span_quot (dval a) (dval b)"
      "dval r = span_rem True (dval a) (dval b)" "valid_dur r"
    using integer_div_duration_ok [OF a b, of True] by blast
  obtain q' r' where 2: "integer_div_duration False a b = Some (q', r')" "dval r' = span_rem False (dval a) (dval b)" "valid_dur r'"
    using integer_div_duration_ok [OF a b, of False] by blast
  show ?thesis using 1 2 by (auto simp: dur_quot_def dur_mod_def)
qed

theorem duration_division_witness:
  "dur_quot (make_duration (- 2) 2000000000) (make_duration 1 0) = Some (- 1)"
  using duration_division [of "make_duration (- 2) 2000000000" "make_duration 1 0"]
    dval_make [of "- 2" 2000000000] dval_make [of 1 0]
  by (auto simp: i64_ok_def i64_min_def i64_max_def kTicksPerSecond_def clamp_def Prelude.sdiv_neg)

text \<open>
  \<open>trunc\<close>, \<open>floor\<close> and \<open>ceil\<close> of a finite duration round to the multiple of the unit toward zero,
  below and above, and \<open>FloorToUnit\<close> gives the floored count of a positive unit, clamped to \<open>int64_t\<close>.
  The unit is finite and not zero, and not the least duration, whose absolute value is infinite.
\<close>

theorem duration_rounding:
  assumes d: "valid_dur d" "dval d = Ticks n" and u: "valid_dur unit" "dval unit = Ticks u"
    and nz: "u \<noteq> 0" "\<bar>u\<bar> < 2 ^ 63 * kTicksPerSecond"
  shows "map_option dval (dur_trunc d unit) = Some (Ticks (n sdiv u * u)) \<and>
    map_option dval (dur_floor d unit) = Some (sat (n div \<bar>u\<bar> * \<bar>u\<bar>)) \<and>
    map_option dval (dur_ceil d unit) = Some (sat (- ((- n) div \<bar>u\<bar>) * \<bar>u\<bar>)) \<and>
    (u < 0 \<or> FloorToUnit d unit = Some (clamp (n div u)))"
  using dur_trunc_ok [OF d(1) u(1) d(2) u(2) nz(1)] dur_round_ok [OF d(1) u(1) d(2) u(2) nz]
    FloorToUnit_ok [OF d(1) u(1,2)] d(2) nz(1)
  by (cases "0 < u") auto

theorem duration_rounding_witness:
  "map_option dval (dur_floor (make_duration (- 2) 2000000000) (make_duration 1 0)) = Some (Ticks (- 8000000000))"
  using duration_rounding [of "make_duration (- 2) 2000000000" "- 6000000000" "make_duration 1 0" 4000000000]
    dval_make [of "- 2" 2000000000] dval_make [of 1 0]
  by (simp add: i64_ok_def i64_min_def i64_max_def sat_def kTicksPerSecond_def)

text \<open>
  C0. Counts convert to durations and back without loss: for every \<open>int64_t\<close> \<open>n\<close>, \<open>to_int64_nanoseconds\<close>
  inverts \<open>nanoseconds\<close>, and so on up to hours, where counts out of range become infinite and return as the
  extreme \<open>int64_t\<close>. A \<open>timespec\<close> or \<open>timeval\<close> with a normalized fraction returns unchanged.
\<close>

theorem duration_count_roundtrip:
  assumes n: "i64_ok n" and s: "i64_ok s" and f: "0 \<le> f" "f < 1000000"
  shows "Option.bind (nanoseconds n) to_int64_nanoseconds = Some n \<and>
    Option.bind (microseconds n) to_int64_microseconds = Some n \<and>
    Option.bind (milliseconds n) to_int64_milliseconds = Some n \<and>
    Option.bind (seconds n) (to_int64_coarse 1) = Some n \<and>
    Option.bind (minutes n) (to_int64_coarse 60) = Some
      (if i64_ok (n * 60) then n else if n < 0 then i64_min else i64_max) \<and>
    Option.bind (hours n) (to_int64_coarse 3600) = Some
      (if i64_ok (n * 3600) then n else if n < 0 then i64_min else i64_max) \<and>
    Option.bind (duration_from_timespec (s, f)) to_timespec = Some (s, f) \<and>
    Option.bind (duration_from_timeval (s, f)) to_timeval = Some (s, f)"
proof -
  have q: "clamp ((n * u) sdiv u) = n" if "0 < u" for u
    using that n by (simp add: sdiv_times clamp_id)
  have coarse: "Option.bind (from_int64_seconds k n) (to_int64_coarse k) = Some
      (if i64_ok (n * k) then n else if n < 0 then i64_min else i64_max)" if k: "0 < k" "k \<le> 3600" for k
  proof -
    obtain d where d: "from_int64_seconds k n = Some d" "valid_dur d" "dval d = sat (n * k * kTicksPerSecond)"
      using from_int64_seconds_ok [OF n k] by blast
    have "n < 0 \<longleftrightarrow> n * k < 0" using k by (simp add: mult_less_0_iff)
    then have "dval d = (if i64_ok (n * k) then Ticks (n * (kTicksPerSecond * k)) else if n < 0 then Minus_inf else Plus_inf)"
      using d(3) by (auto simp: sat_def kTicksPerSecond_def i64_ok_iff ac_simps)
    then show ?thesis using d(1,2) k q [of "kTicksPerSecond * k"]
      by (simp add: to_int64_coarse_ok kTicksPerSecond_def)
  qed
  have sec: "Option.bind (seconds n) (to_int64_coarse 1) = Some n"
    using unit_makers(4) [OF n] q [of kTicksPerSecond] by (auto simp: to_int64_coarse_ok kTicksPerSecond_def)
  have fine: "Option.bind (nanoseconds n) to_int64_nanoseconds = Some n"
    "Option.bind (microseconds n) to_int64_microseconds = Some n"
    "Option.bind (milliseconds n) to_int64_milliseconds = Some n"
    using unit_makers(1-3) [OF n] q by (auto simp: to_int64_fine_ok)
  have fields: "t sdiv b div k = s \<and> t sdiv b mod k = f" if "t = s * kTicksPerSecond + f * b" "0 < b" "f < k" "kTicksPerSecond = k * b" for t b k
  proof -
    have "t = (s * k + f) * b" using that by (simp add: algebra_simps)
    then have "t sdiv b = s * k + f" using sdiv_times [OF that(2)] by simp
    then show ?thesis using f that(3) by (intro div_mod_eqI)
  qed
  have okf: "i64_ok f" using f by (simp add: i64_ok_iff)
  have "Option.bind (duration_from_timespec (s, f)) to_timespec = Some (s, f)"
    using from_fields_ok(1) [OF s okf] make_duration_ticks_ok(3) [OF s, of "f * 4"] f fields [of _ 4 1000000000]
    by (auto simp: to_timespec_ok kTicksPerSecond_def)
  moreover have "Option.bind (duration_from_timeval (s, f)) to_timeval = Some (s, f)"
    using from_fields_ok(2) [OF s okf] make_duration_ticks_ok(3) [OF s, of "f * 4000"] f fields [of _ 4000 1000000]
    by (auto simp: to_timeval_ok kTicksPerSecond_def)
  ultimately show ?thesis using fine sec coarse [of 60] coarse [of 3600] by (simp add: minutes_def hours_def)
qed

theorem duration_count_roundtrip_witness:
  "Option.bind (hours i64_max) (to_int64_coarse 3600) = Some i64_max"
  using duration_count_roundtrip [of i64_max 0 0] by (simp add: i64_ok_def i64_min_def i64_max_def)

text \<open>
  C0. The conversions of a duration truncate toward zero: the counts of nanoseconds up to hours are the
  quotients of the ticks, at the ends of \<open>int64_t\<close> for infinities and values out of range, and \<open>timespec\<close>
  and \<open>timeval\<close> hold the truncated nano- and microseconds with a fraction that is never negative.
\<close>

theorem duration_to_counts:
  assumes v: "valid_dur d" and k: "0 < k"
  shows "to_int64_nanoseconds d = Some (span_quot (dval d) (Ticks 4)) \<and>
    to_int64_microseconds d = Some (span_quot (dval d) (Ticks 4000)) \<and>
    to_int64_milliseconds d = Some (span_quot (dval d) (Ticks 4000000)) \<and>
    to_int64_coarse k d = Some (span_quot (dval d) (Ticks (kTicksPerSecond * k))) \<and>
    to_timespec d = Some (case dval d of Minus_inf \<Rightarrow> (i64_min, 0) | Plus_inf \<Rightarrow> (i64_max, 999999999)
      | Ticks n \<Rightarrow> (n sdiv 4 div 1000000000, n sdiv 4 mod 1000000000)) \<and>
    to_timeval d = Some (case dval d of Minus_inf \<Rightarrow> (i64_min, 0) | Plus_inf \<Rightarrow> (i64_max, 999999)
      | Ticks n \<Rightarrow> (n sdiv 4000 div 1000000, n sdiv 4000 mod 1000000))"
  using to_int64_fine_ok [OF v] to_int64_coarse_ok [OF v k] to_timespec_ok [OF v] to_timeval_ok [OF v] by simp

theorem duration_to_counts_witness:
  "to_timespec (make_duration (- 1) 3999999999) = Some (0, 0)"
  using duration_to_counts [of "make_duration (- 1) 3999999999" 1] dval_make [of "- 1" 3999999999]
  by (simp add: i64_ok_def i64_min_def i64_max_def kTicksPerSecond_def sdiv_nonneg)

end
