(* ===== verification/Unix_Time.thy ===== *)
theory Unix_Time
  imports Duration_Division
begin

text \<open>
  \<open>abel_time\<close> of \<open>abel/chrono/time.h\<close> and its conversions in \<open>time.cc\<close>: an instant is a duration since the
  Unix epoch, and its conversions to counts round toward the past. Conversions through \<open>double\<close>, through
  the system clock and through time zones are not modelled.
\<close>

section \<open>Instants\<close>

text \<open>The class holds its duration in \<open>rep_\<close>.\<close>

datatype abel_time = Abel_time (rep: duration)

definition from_unix_duration :: "duration \<Rightarrow> abel_time" where "from_unix_duration d = Abel_time d"
definition to_unix_duration :: "abel_time \<Rightarrow> duration" where "to_unix_duration t = rep t"

definition time_lt :: "abel_time \<Rightarrow> abel_time \<Rightarrow> bool" where "time_lt lhs rhs \<longleftrightarrow> dur_lt (rep lhs) (rep rhs)"
definition time_eq :: "abel_time \<Rightarrow> abel_time \<Rightarrow> bool" where "time_eq lhs rhs \<longleftrightarrow> dur_eq (rep lhs) (rep rhs)"

definition time_add :: "abel_time \<Rightarrow> duration \<Rightarrow> abel_time" where
  "time_add lhs d = Abel_time (dur_add (rep lhs) d)"

definition time_minus :: "abel_time \<Rightarrow> duration \<Rightarrow> abel_time" where
  "time_minus lhs d = Abel_time (dur_sub (rep lhs) d)"

definition time_diff :: "abel_time \<Rightarrow> abel_time \<Rightarrow> duration" where
  "time_diff lhs rhs = dur_sub (rep lhs) (rep rhs)"

definition universal_epoch :: abel_time where
  "universal_epoch = Abel_time (make_duration (- 24 * 719162 * 3600) 0)"

definition infinite_future :: abel_time where "infinite_future = Abel_time (make_duration i64_max (- 1))"
definition infinite_past :: abel_time where "infinite_past = Abel_time (make_duration i64_min (- 1))"

section \<open>Conversions\<close>

definition from_unix_nanos :: "int \<Rightarrow> abel_time option" where
  "from_unix_nanos ns = map_option from_unix_duration (nanoseconds ns)"
definition from_unix_micros :: "int \<Rightarrow> abel_time option" where
  "from_unix_micros us = map_option from_unix_duration (microseconds us)"
definition from_unix_millis :: "int \<Rightarrow> abel_time option" where
  "from_unix_millis ms = map_option from_unix_duration (milliseconds ms)"
definition from_unix_seconds :: "int \<Rightarrow> abel_time option" where
  "from_unix_seconds s = map_option from_unix_duration (seconds s)"

definition from_universal :: "int \<Rightarrow> abel_time option" where
  "from_universal universal = do {
     d \<leftarrow> nanoseconds universal;
     d \<leftarrow> dur_mul d 100;
     Some (time_add universal_epoch d) }"

definition to_unix_nanos :: "abel_time \<Rightarrow> int option" where
  "to_unix_nanos t =
     (let d = to_unix_duration t in
      if 0 \<le> rep_hi d \<and> drop_bit 33 (rep_hi d) = 0 then do {
        a \<leftarrow> ck (rep_hi d * 1000); a \<leftarrow> ck (a * 1000); a \<leftarrow> ck (a * 1000);
        ck (a + uint (rep_lo d) sdiv 4) }
      else do { u \<leftarrow> nanoseconds 1; FloorToUnit d u })"

definition to_unix_micros :: "abel_time \<Rightarrow> int option" where
  "to_unix_micros t =
     (let d = to_unix_duration t in
      if 0 \<le> rep_hi d \<and> drop_bit 43 (rep_hi d) = 0 then do {
        a \<leftarrow> ck (rep_hi d * 1000); a \<leftarrow> ck (a * 1000);
        ck (a + uint (rep_lo d) sdiv 4000) }
      else do { u \<leftarrow> microseconds 1; FloorToUnit d u })"

definition to_unix_millis :: "abel_time \<Rightarrow> int option" where
  "to_unix_millis t =
     (let d = to_unix_duration t in
      if 0 \<le> rep_hi d \<and> drop_bit 53 (rep_hi d) = 0 then do {
        a \<leftarrow> ck (rep_hi d * 1000);
        ck (a + uint (rep_lo d) sdiv (4000 * 1000)) }
      else do { u \<leftarrow> milliseconds 1; FloorToUnit d u })"

definition to_unix_seconds :: "abel_time \<Rightarrow> int" where
  "to_unix_seconds t = rep_hi (to_unix_duration t)"

definition to_universal :: "abel_time \<Rightarrow> int option" where
  "to_universal t = do { u \<leftarrow> nanoseconds 100; FloorToUnit (time_diff t universal_epoch) u }"

definition time_from_timespec :: "int \<times> int \<Rightarrow> abel_time option" where
  "time_from_timespec ts = map_option from_unix_duration (duration_from_timespec ts)"

definition time_from_timeval :: "int \<times> int \<Rightarrow> abel_time option" where
  "time_from_timeval tv = map_option from_unix_duration (duration_from_timeval tv)"

text \<open>\<open>to_timespec\<close> and \<open>to_timeval\<close> of an instant; \<open>time_t\<close> is \<open>int64_t\<close>, so nothing is narrowed.\<close>

definition time_to_timespec :: "abel_time \<Rightarrow> int \<times> int" where
  "time_to_timespec t =
     (let d = to_unix_duration t in
      if \<not> is_infinite_duration d then (rep_hi d, uint (rep_lo d) sdiv 4)
      else if dur_ge d zero_duration then (i64_max, 1000 * 1000 * 1000 - 1)
      else (i64_min, 0))"

definition time_to_timeval :: "abel_time \<Rightarrow> int \<times> int" where
  "time_to_timeval t = (case time_to_timespec t of (tv_sec, tv_nsec) \<Rightarrow> (tv_sec, tv_nsec sdiv 1000))"

definition to_time_t :: "abel_time \<Rightarrow> int" where "to_time_t t = fst (time_to_timespec t)"

section \<open>Rounding toward the past\<close>

text \<open>The floored count of an extended number of ticks, at the ends of \<open>int64_t\<close>.\<close>

fun span_floor :: "span \<Rightarrow> int \<Rightarrow> int" where
  "span_floor (Ticks n) u = clamp (n div u)"
| "span_floor Minus_inf u = i64_min"
| "span_floor Plus_inf u = i64_max"

abbreviation tval :: "abel_time \<Rightarrow> span" where "tval t \<equiv> dval (rep t)"
abbreviation valid_time :: "abel_time \<Rightarrow> bool" where "valid_time t \<equiv> valid_dur (rep t)"

lemma FloorToUnit_floor:
  "valid_dur d \<Longrightarrow> valid_dur u \<Longrightarrow> dval u = Ticks k \<Longrightarrow> 0 < k \<Longrightarrow> FloorToUnit d u = Some (span_floor (dval d) k)"
  by (cases "dval d") (simp_all add: FloorToUnit_ok)

lemma fast_floor:
  assumes "valid_dur d" "0 \<le> rep_hi d" "rep_hi d < 2 ^ 63 - 1" "0 < M" "M * P = kTicksPerSecond" "rep_hi d * P + kTicksPerSecond \<le> i64_max"
  shows "span_floor (dval d) M = rep_hi d * P + uint (rep_lo d) sdiv M"
proof -
  have fin: "\<not> is_infinite_duration d"
    using assms(1-3) by (auto elim!: valid_cases simp: i64_max_def i64_min_def)
  have "0 \<le> ticks d" using assms(2) uint32_range(1) [of "rep_lo d"] by (simp add: ticks_def kTicksPerSecond_def)
  then have "span_floor (dval d) M = span_quot (dval d) (Ticks M)"
    using assms(4) by (simp add: dval_fin [OF fin] sdiv_nonneg)
  then show ?thesis using fine_count(3) [OF assms] by simp
qed

lemma to_unix_fine:
  assumes v: "valid_time t"
  shows "to_unix_nanos t = Some (span_floor (tval t) 4)"
    "to_unix_micros t = Some (span_floor (tval t) 4000)"
    "to_unix_millis t = Some (span_floor (tval t) 4000000)"
proof -
  have one: "i64_ok 1" by (simp add: i64_ok_iff)
  define d where "d = rep t"
  have v: "valid_dur d" and t: "to_unix_duration t = d" using v by (simp_all add: d_def to_unix_duration_def)
  have h: "0 \<le> rep_hi d \<Longrightarrow> drop_bit n (rep_hi d) = 0 \<longleftrightarrow> rep_hi d < 2 ^ n" for n by (rule high_bits)
  note u = unit_makers [OF one] and fl = FloorToUnit_floor [OF v]
  show "to_unix_nanos t = Some (span_floor (tval t) 4)"
  proof (cases "0 \<le> rep_hi d \<and> drop_bit 33 (rep_hi d) = 0")
    case True
    then show ?thesis using h [of 33] fine_count(1,2) [OF v, of 4 1000000000] fast_floor [OF v, of 4 1000000000]
      by (simp add: to_unix_nanos_def t d_def [symmetric] kTicksPerSecond_def i64_max_def ck_def i64_ok_iff)
  next
    case False
    then show ?thesis using u(1) fl unfolding to_unix_nanos_def t Let_def if_not_P [OF False] by (auto simp: d_def)
  qed
  show "to_unix_micros t = Some (span_floor (tval t) 4000)"
  proof (cases "0 \<le> rep_hi d \<and> drop_bit 43 (rep_hi d) = 0")
    case True
    then show ?thesis using h [of 43] fine_count(1,2) [OF v, of 4000 1000000] fast_floor [OF v, of 4000 1000000]
      by (simp add: to_unix_micros_def t d_def [symmetric] kTicksPerSecond_def i64_max_def ck_def i64_ok_iff)
  next
    case False
    then show ?thesis using u(2) fl unfolding to_unix_micros_def t Let_def if_not_P [OF False] by (auto simp: d_def)
  qed
  show "to_unix_millis t = Some (span_floor (tval t) 4000000)"
  proof (cases "0 \<le> rep_hi d \<and> drop_bit 53 (rep_hi d) = 0")
    case True
    then show ?thesis using h [of 53] fine_count(1,2) [OF v, of 4000000 1000] fast_floor [OF v, of 4000000 1000]
      by (simp add: to_unix_millis_def t d_def [symmetric] kTicksPerSecond_def i64_max_def ck_def i64_ok_iff)
  next
    case False
    then show ?thesis using u(3) fl unfolding to_unix_millis_def t Let_def if_not_P [OF False] by (auto simp: d_def)
  qed
qed

lemma hi_div:
  assumes "valid_dur d" "\<not> is_infinite_duration d"
  shows "ticks d div kTicksPerSecond = rep_hi d" "i64_ok (rep_hi d)" "ticks d mod kTicksPerSecond = uint (rep_lo d)"
proof -
  have "uint (rep_lo d) < kTicksPerSecond" "i64_ok (rep_hi d)"
    using assms by (auto elim!: valid_cases simp: kTicksPerSecond_def)
  then show "ticks d div kTicksPerSecond = rep_hi d" "i64_ok (rep_hi d)" "ticks d mod kTicksPerSecond = uint (rep_lo d)"
    using div_mod_eqI [OF ticks_def, of d] by simp_all
qed

lemma to_unix_seconds_ok: "valid_time t \<Longrightarrow> to_unix_seconds t = span_floor (tval t) kTicksPerSecond"
  by (cases "is_infinite_duration (rep t)")
    (auto simp: to_unix_seconds_def to_unix_duration_def dval_def hi_div clamp_id i64_signs elim!: valid_cases)

lemma epoch_ok: "valid_dur (rep universal_epoch)" "dval (rep universal_epoch) = Ticks (- 62135596800 * kTicksPerSecond)"
  using dval_make [of "- 62135596800" 0] by (simp_all add: universal_epoch_def i64_ok_iff)

lemma time_to_timespec_ok:
  assumes v: "valid_time t"
  shows "time_to_timespec t = (case tval t of Minus_inf \<Rightarrow> (i64_min, 0) | Plus_inf \<Rightarrow> (i64_max, 999999999)
    | Ticks n \<Rightarrow> (n div 4 div 1000000000, n div 4 mod 1000000000))"
proof (cases "is_infinite_duration (rep t)")
  case True
  then show ?thesis using v by (simp add: time_to_timespec_def to_unix_duration_def dur_ge_ok dval_def [of "rep t"])
next
  case False
  note h = hi_div [OF v False, unfolded kTicksPerSecond_def]
  have "ticks (rep t) div 4 div 1000000000 = rep_hi (rep t)" using h(1) by (simp add: zdiv_zmult2_eq [symmetric])
  moreover have "ticks (rep t) div 4 mod 1000000000 = uint (rep_lo (rep t)) div 4"
    unfolding h(3) [symmetric] using zmod_zmult2_eq [of 1000000000 "ticks (rep t)" 4] by simp
  ultimately show ?thesis using False
    by (simp add: time_to_timespec_def to_unix_duration_def dval_fin sdiv_nonneg Let_def)
qed

lemma time_to_timeval_ok:
  assumes v: "valid_time t"
  shows "time_to_timeval t = (case tval t of Minus_inf \<Rightarrow> (i64_min, 0) | Plus_inf \<Rightarrow> (i64_max, 999999)
    | Ticks n \<Rightarrow> (n div 4000 div 1000000, n div 4000 mod 1000000))"
proof (cases "tval t")
  case (Ticks n)
  have "n div 4 div 1000000000 = n div 4000 div 1000000" by (simp add: zdiv_zmult2_eq [symmetric])
  moreover have "n div 4 mod 1000000000 div 1000 = n div 4000 mod 1000000"
  proof -
    define q where "q = n div 4"
    have "q mod (1000 * 1000000) = 1000 * (q div 1000 mod 1000000) + q mod 1000" by (rule zmod_zmult2_eq) simp
    moreover have "n div 4000 = q div 1000" by (simp add: q_def zdiv_zmult2_eq [symmetric])
    ultimately show ?thesis by (simp add: q_def [symmetric])
  qed
  moreover have "n div 4 mod 1000000000 sdiv 1000 = n div 4 mod 1000000000 div 1000" by (rule sdiv_nonneg) simp_all
  ultimately show ?thesis unfolding time_to_timeval_def time_to_timespec_ok [OF v] Ticks by (simp only: span.case prod.case)
qed (use time_to_timespec_ok [OF v] in \<open>simp_all add: time_to_timeval_def sdiv_nonneg\<close>)

lemma to_universal_ok:
  assumes v: "valid_time t"
  shows "to_universal t = Some (span_floor (span_add (tval t) (Ticks (62135596800 * kTicksPerSecond))) 400)"
proof -
  define d where "d = time_diff t universal_epoch"
  have d: "valid_dur d" "dval d = span_add (tval t) (Ticks (62135596800 * kTicksPerSecond))"
    using dur_sub_ok [OF v epoch_ok(1)] by (cases "tval t"; simp add: d_def time_diff_def epoch_ok)+
  obtain u where "nanoseconds 100 = Some u" "valid_dur u" "dval u = Ticks 400"
    using unit_makers(1) [of 100] by (auto simp: i64_ok_iff)
  then show ?thesis using FloorToUnit_floor [OF d(1)] by (simp add: to_universal_def d_def [symmetric] d(2))
qed

section \<open>Properties\<close>

text \<open>
  Every conversion of an instant to a count since an epoch rounds toward the past, by the fast path or by
  division, and an instant out of range, infinite ones included, gives the extreme \<open>int64_t\<close>; \<open>timespec\<close> and
  \<open>timeval\<close> hold floored nano- and microseconds with a fraction that is never negative.
\<close>

theorem unix_time_floors:
  assumes v: "valid_time t"
  shows "to_unix_nanos t = Some (span_floor (tval t) 4) \<and>
    to_unix_micros t = Some (span_floor (tval t) 4000) \<and>
    to_unix_millis t = Some (span_floor (tval t) 4000000) \<and>
    to_unix_seconds t = span_floor (tval t) kTicksPerSecond \<and>
    to_universal t = Some (span_floor (span_add (tval t) (Ticks (62135596800 * kTicksPerSecond))) 400) \<and>
    time_to_timespec t = (case tval t of Minus_inf \<Rightarrow> (i64_min, 0) | Plus_inf \<Rightarrow> (i64_max, 999999999)
      | Ticks n \<Rightarrow> (n div 4 div 1000000000, n div 4 mod 1000000000)) \<and>
    time_to_timeval t = (case tval t of Minus_inf \<Rightarrow> (i64_min, 0) | Plus_inf \<Rightarrow> (i64_max, 999999)
      | Ticks n \<Rightarrow> (n div 4000 div 1000000, n div 4000 mod 1000000))"
  using to_unix_fine [OF v] to_unix_seconds_ok [OF v] to_universal_ok [OF v] time_to_timespec_ok [OF v] time_to_timeval_ok [OF v]
  by simp

theorem unix_time_floors_witness:
  "to_unix_nanos (Abel_time (make_duration (- 1) 3999999999)) = Some (- 1)"
  using unix_time_floors [of "Abel_time (make_duration (- 1) 3999999999)"] dval_make [of "- 1" 3999999999]
  by (simp add: i64_ok_def i64_min_def i64_max_def kTicksPerSecond_def clamp_def)

text \<open>
  Counts since the Unix epoch and since the Universal epoch convert to instants and back without loss for
  every \<open>int64_t\<close>, and a normalized \<open>timespec\<close> or \<open>timeval\<close> converts to an instant and back.
\<close>

theorem unix_time_roundtrip:
  assumes n: "i64_ok n" and f: "0 \<le> f" "f < 1000000"
  shows "Option.bind (from_unix_nanos n) to_unix_nanos = Some n \<and>
    Option.bind (from_unix_micros n) to_unix_micros = Some n \<and>
    Option.bind (from_unix_millis n) to_unix_millis = Some n \<and>
    map_option to_unix_seconds (from_unix_seconds n) = Some n \<and>
    Option.bind (from_universal n) to_universal = Some n \<and>
    map_option time_to_timespec (time_from_timespec (n, f)) = Some (n, f) \<and>
    map_option time_to_timeval (time_from_timeval (n, f)) = Some (n, f)"
proof -
  have fl: "span_floor (Ticks (n * u)) u = n" if "0 < u" for u using that n by (simp add: clamp_id)
  have fine: "Option.bind (from_unix_nanos n) to_unix_nanos = Some n"
    "Option.bind (from_unix_micros n) to_unix_micros = Some n"
    "Option.bind (from_unix_millis n) to_unix_millis = Some n"
    "map_option to_unix_seconds (from_unix_seconds n) = Some n"
    using unit_makers [OF n] fl [of 4] fl [of 4000] fl [of 4000000] fl [of 4000000000]
    by (auto simp: from_unix_nanos_def from_unix_micros_def from_unix_millis_def from_unix_seconds_def
        from_unix_duration_def to_unix_fine to_unix_seconds_ok kTicksPerSecond_def)
  have univ: "Option.bind (from_universal n) to_universal = Some n"
  proof -
    obtain d where d: "nanoseconds n = Some d" "valid_dur d" "dval d = Ticks (n * 4)" using unit_makers(1) [OF n] by blast
    have n': "- (2 ^ 63) \<le> n" "n < 2 ^ 63" using n by (simp_all add: i64_ok_iff)
    have "sat (n * 4 * 100) = Ticks (n * 400)" using n' by (simp add: sat_def kTicksPerSecond_def)
    then obtain e where e: "dur_mul d 100 = Some e" "valid_dur e" "dval e = Ticks (n * 400)"
      using dur_mul_ok [OF d(2), of 100] d(3) by (auto simp: i64_ok_iff)
    define m where "m = n * 400 - 62135596800 * kTicksPerSecond"
    have m: "sat m = Ticks m" using n' by (simp add: sat_def kTicksPerSecond_def m_def)
    have t: "valid_time (time_add universal_epoch e)" "tval (time_add universal_epoch e) = Ticks m"
      using dur_add_ok [OF epoch_ok(1) e(2)] m by (simp_all add: time_add_def epoch_ok e(3) m_def)
    have "sat (n * 400) = Ticks (n * 400)" using n' by (simp add: sat_def kTicksPerSecond_def)
    then show ?thesis using to_universal_ok [OF t(1)] d(1) e(1) fl [of 400]
      by (simp add: from_universal_def t(2) m_def)
  qed
  have okf: "i64_ok f" using f by (simp add: i64_ok_iff)
  have fields: "t div b div k = n \<and> t div b mod k = f" if "t = n * kTicksPerSecond + f * b" "0 < b" "f < k" "kTicksPerSecond = k * b" for t b k
  proof -
    have "t = (n * k + f) * b" using that by (simp add: algebra_simps)
    then have "t div b = n * k + f" using that(2) by simp
    then show ?thesis using f that(3) by (intro div_mod_eqI)
  qed
  have "map_option time_to_timespec (time_from_timespec (n, f)) = Some (n, f)"
    using from_fields_ok(1) [OF n okf] make_duration_ticks_ok(3) [OF n, of "f * 4"] f fields [of _ 4 1000000000]
    by (auto simp: time_from_timespec_def from_unix_duration_def time_to_timespec_ok kTicksPerSecond_def)
  moreover have "map_option time_to_timeval (time_from_timeval (n, f)) = Some (n, f)"
    using from_fields_ok(2) [OF n okf] make_duration_ticks_ok(3) [OF n, of "f * 4000"] f fields [of _ 4000 1000000]
    by (auto simp: time_from_timeval_def from_unix_duration_def time_to_timeval_ok kTicksPerSecond_def)
  ultimately show ?thesis using fine univ by simp
qed

theorem unix_time_roundtrip_witness:
  "Option.bind (from_universal i64_min) to_universal = Some i64_min"
  using unix_time_roundtrip [of i64_min 0] by (simp add: i64_ok_def i64_min_def i64_max_def)

end
