(* ===== verification/Duration_Parse.thy ===== *)
theory Duration_Parse
  imports Duration_Division
begin

text \<open>
  \<open>parse_duration\<close> of \<open>abel/chrono/duration.cc\<close>: a sign and a sequence of decimal numbers with units. A C
  string is a list of characters whose end stands for the terminating NUL. The specification is a
  grammar of terms; the parser accepts its sentences and returns their value in saturating ticks.
\<close>

section \<open>The scanner\<close>

definition isdigit :: "char \<Rightarrow> bool" where
  "isdigit c \<longleftrightarrow> 48 \<le> (of_char c :: nat) \<and> (of_char c :: nat) \<le> 57"

text \<open>
  The code passes a plain \<open>char\<close>, which is signed, to \<open>std::isdigit\<close>: a byte from 128 on is a negative
  argument, whose behaviour is undefined (also for 255, as \<open>EOF\<close> is only known to be negative).
\<close>

definition std_isdigit :: "char \<Rightarrow> bool option" where
  "std_isdigit c = (if (of_char c :: nat) < 128 then Some (isdigit c) else None)"

definition digit :: "char \<Rightarrow> int" where
  "digit c = of_char c - 48"

text \<open>
  The two loops of \<open>ConsumeDurationNumber\<close>. Undefined behaviour is \<open>None\<close>; the result \<open>false\<close> is
  \<open>Some None\<close>.
\<close>

fun int_loop :: "int \<Rightarrow> string \<Rightarrow> (int \<times> string) option option" where
  "int_loop int_part [] = Some (Some (int_part, []))"
| "int_loop int_part (c # s) = do {
     dig \<leftarrow> std_isdigit c;
     if dig then
       if i64_max sdiv 10 < int_part then Some None
       else if i64_max - digit c < int_part * 10 then Some None
       else int_loop (int_part * 10 + digit c) s
     else Some (Some (int_part, c # s)) }"

fun frac_loop :: "int \<Rightarrow> int \<Rightarrow> string \<Rightarrow> (int \<times> int \<times> string) option" where
  "frac_loop frac_part frac_scale [] = Some (frac_part, frac_scale, [])"
| "frac_loop frac_part frac_scale (c # s) = do {
     dig \<leftarrow> std_isdigit c;
     if dig then
       if frac_scale \<le> i64_max sdiv 10 then frac_loop (frac_part * 10 + digit c) (frac_scale * 10) s
       else frac_loop frac_part frac_scale s
     else Some (frac_part, frac_scale, c # s) }"

definition ConsumeDurationNumber :: "string \<Rightarrow> (int \<times> int \<times> int \<times> string) option option" where
  "ConsumeDurationNumber start = do {
     number \<leftarrow> int_loop 0 start;
     (case number of None \<Rightarrow> Some None
      | Some (int_part, dp) \<Rightarrow>
        let int_part_empty = (dp = start) in
        if dp = [] \<or> hd dp \<noteq> CHR ''.'' then Some (if int_part_empty then None else Some (int_part, 0, 1, dp))
        else do {
          (frac_part, frac_scale, dp) \<leftarrow> frac_loop 0 1 (tl dp);
          Some (if \<not> int_part_empty \<or> frac_scale \<noteq> 1 then Some (int_part, frac_part, frac_scale, dp) else None) }) }"

definition ConsumeDurationUnit :: "string \<Rightarrow> (duration option \<times> string) option" where
  "ConsumeDurationUnit s =
     (if take 2 s = ''ns'' then Some (nanoseconds 1, drop 2 s)
      else if take 2 s = ''us'' then Some (microseconds 1, drop 2 s)
      else if take 2 s = ''ms'' then Some (milliseconds 1, drop 2 s)
      else if take 1 s = ''s'' then Some (seconds 1, drop 1 s)
      else if take 1 s = ''m'' then Some (minutes 1, drop 1 s)
      else if take 1 s = ''h'' then Some (hours 1, drop 1 s)
      else None)"

section \<open>The parser\<close>

text \<open>The body of the loop after a number and a unit.\<close>

definition add_part :: "int \<Rightarrow> duration \<Rightarrow> int \<Rightarrow> int \<Rightarrow> int \<Rightarrow> duration \<Rightarrow> duration option" where
  "add_part sign dur int_part frac_part frac_scale unit = do {
     dur \<leftarrow> (if int_part \<noteq> 0 then do { n \<leftarrow> ck (sign * int_part); d \<leftarrow> dur_mul unit n; Some (dur_add dur d) } else Some dur);
     (if frac_part \<noteq> 0 then do {
        n \<leftarrow> ck (sign * frac_part); d \<leftarrow> dur_mul unit n; d \<leftarrow> dur_div d frac_scale; Some (dur_add dur d) }
      else Some dur) }"

lemma int_loop_length: "int_loop n s = Some (Some (m, r)) \<Longrightarrow> length r \<le> length s"
proof (induction s arbitrary: n)
  case (Cons c s)
  then show ?case by (cases "std_isdigit c = Some True") (auto simp: std_isdigit_def le_SucI split: if_splits)
qed simp

lemma frac_loop_length: "frac_loop p q s = Some (p', q', r) \<Longrightarrow> length r \<le> length s"
proof (induction s arbitrary: p q)
  case (Cons c s)
  then show ?case by (cases "std_isdigit c = Some True") (auto simp: std_isdigit_def le_SucI split: if_splits)
qed simp

lemma number_length: "ConsumeDurationNumber s = Some (Some (a, b, c, r)) \<Longrightarrow> length r \<le> length s"
proof -
  assume n: "ConsumeDurationNumber s = Some (Some (a, b, c, r))"
  then obtain i dp where i: "int_loop 0 s = Some (Some (i, dp))"
    by (auto simp: ConsumeDurationNumber_def split: bind_splits option.splits)
  show ?thesis
  proof (cases "dp = [] \<or> hd dp \<noteq> CHR ''.''")
    case True
    then have "r = dp" using n i by (simp add: ConsumeDurationNumber_def Let_def split: if_splits)
    then show ?thesis using int_loop_length [OF i] by simp
  next
    case False
    obtain fp fs q where f: "frac_loop 0 1 (tl dp) = Some (fp, fs, q)"
      using n i False by (cases "frac_loop 0 1 (tl dp)") (auto simp: ConsumeDurationNumber_def Let_def)
    then have "r = q" using n i False by (simp add: ConsumeDurationNumber_def Let_def split: if_splits)
    then show ?thesis using int_loop_length [OF i] frac_loop_length [OF f] by simp
  qed
qed

lemma unit_length: "ConsumeDurationUnit s = Some (u, r) \<Longrightarrow> length r < length s"
  by (cases s) (auto simp: ConsumeDurationUnit_def split: if_splits)

text \<open>The loop of \<open>parse_duration\<close>: \<open>Some None\<close> is the result \<open>false\<close>, \<open>None\<close> undefined behaviour.\<close>

function (sequential) parse_loop :: "int \<Rightarrow> duration \<Rightarrow> string \<Rightarrow> duration option option" where
  "parse_loop sign dur start =
     (if start = [] then Some (Some dur)
      else case ConsumeDurationNumber start of None \<Rightarrow> None | Some None \<Rightarrow> Some None
      | Some (Some (int_part, frac_part, frac_scale, s)) \<Rightarrow>
        (case ConsumeDurationUnit s of None \<Rightarrow> Some None
         | Some (unit, s) \<Rightarrow>
           (case Option.bind unit (add_part sign dur int_part frac_part frac_scale) of None \<Rightarrow> None
            | Some dur \<Rightarrow> parse_loop sign dur s)))"
  by pat_completeness auto
termination
  by (relation "measure (\<lambda>(_, _, s). length s)") (auto dest!: number_length unit_length)

declare parse_loop.simps [simp del]

definition parse_duration :: "string \<Rightarrow> duration option option" where
  "parse_duration dur_string =
     (let start = takeWhile (\<lambda>c. c \<noteq> CHR 0x00) dur_string;
          signed = (start \<noteq> [] \<and> (hd start = CHR ''-'' \<or> hd start = CHR ''+''));
          sign = (if signed \<and> hd start = CHR ''-'' then - 1 else 1);
          start = (if signed then tl start else start) in
      if start = [] then Some None
      else if start = ''0'' then Some (Some zero_duration)
      else if start = ''inf'' then map_option Some (dur_mul infinite_duration sign)
      else parse_loop sign zero_duration start)"

section \<open>The grammar\<close>

datatype unit_name = Nano | Micro | Milli | Second | Minute | Hour

fun unit_string :: "unit_name \<Rightarrow> string" where
  "unit_string Nano = ''ns''"
| "unit_string Micro = ''us''"
| "unit_string Milli = ''ms''"
| "unit_string Second = ''s''"
| "unit_string Minute = ''m''"
| "unit_string Hour = ''h''"

fun unit_ticks :: "unit_name \<Rightarrow> int" where
  "unit_ticks Nano = 4"
| "unit_ticks Micro = 4000"
| "unit_ticks Milli = 4000000"
| "unit_ticks Second = 4000000000"
| "unit_ticks Minute = 240000000000"
| "unit_ticks Hour = 14400000000000"

text \<open>A term: the digits before the point, those after it if there is a point, and the unit.\<close>

record dterm =
  whole :: string
  frac :: "string option"
  unit_of :: unit_name

fun term_string :: "dterm \<Rightarrow> string" where
  "term_string t = whole t @ (case frac t of None \<Rightarrow> [] | Some f \<Rightarrow> CHR ''.'' # f) @ unit_string (unit_of t)"

definition digits_of :: "dterm \<Rightarrow> string" where
  "digits_of t = whole t @ (case frac t of None \<Rightarrow> [] | Some f \<Rightarrow> f)"

definition well_formed :: "dterm \<Rightarrow> bool" where
  "well_formed t \<longleftrightarrow> digits_of t \<noteq> [] \<and> list_all isdigit (digits_of t)"

text \<open>The value of digits; the fraction counts eighteen digits.\<close>

definition value_of :: "string \<Rightarrow> int" where
  "value_of ds = foldl (\<lambda>n c. n * 10 + digit c) 0 ds"

definition frac_digits :: "dterm \<Rightarrow> string" where
  "frac_digits t = (case frac t of None \<Rightarrow> [] | Some f \<Rightarrow> take 18 f)"

text \<open>What a term adds: a whole number of units and a truncated fraction, each saturated.\<close>

fun span_div :: "span \<Rightarrow> int \<Rightarrow> span" where
  "span_div (Ticks n) k = Ticks (n sdiv k)"
| "span_div x k = x"

definition term_add :: "int \<Rightarrow> span \<Rightarrow> dterm \<Rightarrow> span" where
  "term_add sign x t =
     span_add (span_add x (sat (unit_ticks (unit_of t) * (sign * value_of (whole t)))))
       (span_div (sat (unit_ticks (unit_of t) * (sign * value_of (frac_digits t)))) (10 ^ length (frac_digits t)))"

definition fits :: "dterm \<Rightarrow> bool" where
  "fits t \<longleftrightarrow> value_of (whole t) \<le> i64_max"

section \<open>The scanner and the grammar\<close>

lemma digit_range: "isdigit c \<Longrightarrow> 0 \<le> digit c \<and> digit c \<le> 9"
  by (auto simp: isdigit_def digit_def) (metis of_nat_le_iff of_nat_numeral of_nat_of_char)+

lemma max_10: "i64_max sdiv 10 = 922337203685477580"
  by (simp add: i64_max_def sdiv_nonneg)

lemma foldl_value: "foldl (\<lambda>n c. n * 10 + digit c) n ds = n * 10 ^ length ds + value_of ds"
  unfolding value_of_def by (induction ds rule: rev_induct) (simp_all add: algebra_simps)

lemma value_Cons: "value_of (c # ds) = digit c * 10 ^ length ds + value_of ds"
  using foldl_value [of "digit c" ds] by (simp add: value_of_def)

lemma value_nonneg: "list_all isdigit ds \<Longrightarrow> 0 \<le> value_of ds \<and> value_of ds < 10 ^ length ds"
proof (induction ds)
  case (Cons c ds)
  then have d: "0 \<le> digit c" "digit c \<le> 9" and v: "0 \<le> value_of ds" "value_of ds < 10 ^ length ds"
    using digit_range by simp_all
  have "digit c * 10 ^ length ds \<le> 9 * 10 ^ length ds" using d by (intro mult_right_mono) simp_all
  moreover have "0 \<le> digit c * 10 ^ length ds" using d by simp
  ultimately have "0 \<le> digit c * 10 ^ length ds + value_of ds" "digit c * 10 ^ length ds + value_of ds < 10 * 10 ^ length ds"
    using v by linarith+
  then show ?case by (simp add: value_Cons)
qed (simp add: value_of_def)

lemma std_digit: "isdigit c \<Longrightarrow> std_isdigit c = Some True"
  by (simp add: std_isdigit_def isdigit_def)

text \<open>Digits, whatever follows them.\<close>

lemma int_loop_digits:
  assumes "list_all isdigit ds" "0 \<le> n" "n \<le> i64_max"
  shows "int_loop n (ds @ r) = (if n * 10 ^ length ds + value_of ds \<le> i64_max
    then int_loop (n * 10 ^ length ds + value_of ds) r else Some None)"
  using assms
proof (induction ds arbitrary: n)
  case Nil
  then show ?case by (simp add: value_of_def)
next
  case (Cons c ds)
  define m where "m = n * 10 + digit c"
  have d: "0 \<le> digit c" "digit c \<le> 9" "std_isdigit c = Some True"
    using Cons.prems(1) digit_range std_digit by simp_all
  have v: "0 \<le> value_of ds" using Cons.prems(1) value_nonneg by simp
  have e: "n * 10 ^ length (c # ds) + value_of (c # ds) = m * 10 ^ length ds + value_of ds"
    by (simp add: value_Cons m_def algebra_simps)
  have guard: "i64_max sdiv 10 < n \<or> i64_max - digit c < n * 10 \<longleftrightarrow> i64_max < m"
    using d by (auto simp: max_10 i64_max_def m_def)
  show ?case
  proof (cases "i64_max < m")
    case True
    have "0 \<le> m" using Cons.prems(2) d by (simp add: m_def)
    then have "m * 1 \<le> m * 10 ^ length ds" by (intro mult_left_mono) simp_all
    then show ?thesis using True guard d v unfolding e by (auto simp: not_le)
  next
    case False
    then show ?thesis using Cons.IH [of m] Cons.prems guard d unfolding e by (auto simp: m_def)
  qed
qed

lemma frac_loop_digits:
  assumes "list_all isdigit ds" "k \<le> 18"
  shows "frac_loop n (10 ^ k) (ds @ r) =
    frac_loop (n * 10 ^ length (take (18 - k) ds) + value_of (take (18 - k) ds)) (10 ^ (k + length (take (18 - k) ds))) r"
  using assms
proof (induction ds arbitrary: n k)
  case Nil
  then show ?case by (simp add: value_of_def)
next
  case (Cons c ds)
  have "(10 :: int) ^ k \<le> i64_max sdiv 10 \<longleftrightarrow> k < 18"
  proof
    assume le: "(10 :: int) ^ k \<le> i64_max sdiv 10"
    show "k < 18"
    proof (rule ccontr)
      assume "\<not> k < 18"
      then have "(10 :: int) ^ 18 \<le> 10 ^ k" by (intro power_increasing) simp_all
      then show False using le by (simp add: max_10)
    qed
  next
    assume "k < 18"
    then have "(10 :: int) ^ k \<le> 10 ^ 17" by (intro power_increasing) simp_all
    then show "(10 :: int) ^ k \<le> i64_max sdiv 10" by (simp add: max_10)
  qed
  then show ?case
  proof (cases "k < 18")
    case True
    then have "18 - k = Suc (18 - Suc k)" by simp
    then show ?thesis using Cons.IH [of "Suc k" "n * 10 + digit c"] Cons.prems True \<open>_ \<longleftrightarrow> k < 18\<close>
      by (simp add: value_Cons algebra_simps std_digit)
  next
    case False
    then show ?thesis using Cons.IH [of k n] Cons.prems \<open>_ \<longleftrightarrow> k < 18\<close> by (simp add: std_digit)
  qed
qed

text \<open>The character after a number: the end, one that is no digit, or one that cannot be read.\<close>

lemma loops_stop:
  assumes "r = [] \<or> std_isdigit (hd r) = Some False"
  shows "int_loop n r = Some (Some (n, r))" "frac_loop p q r = Some (p, q, r)"
  using assms by (cases r; simp)+

lemma loops_undefined:
  assumes "std_isdigit c = None" shows "int_loop n (c # r) = None" "frac_loop p q (c # r) = None"
  using assms by simp_all

lemma unit_head: "unit_string u \<noteq> [] \<and> std_isdigit (hd (unit_string u)) = Some False \<and> hd (unit_string u) \<noteq> CHR ''.''"
  by (cases u) (simp_all add: isdigit_def std_isdigit_def)

lemma std_point: "std_isdigit CHR ''.'' = Some False"
  by (simp add: isdigit_def std_isdigit_def)

lemma frac_scale_one: "(10 :: int) ^ length (take 18 f) \<noteq> 1 \<longleftrightarrow> f \<noteq> []"
  using power_inject_exp [of "10 :: int" "length (take 18 f)" 0] by simp

lemma ConsumeDurationNumber_term:
  assumes "well_formed t"
  shows "ConsumeDurationNumber (term_string t @ r) =
    Some (if fits t then Some (value_of (whole t), value_of (frac_digits t), 10 ^ length (frac_digits t), unit_string (unit_of t) @ r)
     else None)"
proof -
  let ?u = "unit_string (unit_of t) @ r"
  have u: "?u \<noteq> []" "std_isdigit (hd ?u) = Some False" "hd ?u \<noteq> CHR ''.''" using unit_head [of "unit_of t"] by simp_all
  have w: "list_all isdigit (whole t)" using assms by (simp add: well_formed_def digits_of_def)
  have i: "int_loop 0 (whole t @ x) = Some (if fits t then Some (value_of (whole t), x) else None)"
    if "x = [] \<or> std_isdigit (hd x) = Some False" for x
    using int_loop_digits [OF w, of 0 x] loops_stop(1) [OF that] by (simp add: fits_def i64_max_def)
  show ?thesis
  proof (cases "frac t")
    case None
    then have "whole t \<noteq> []" using assms by (simp add: well_formed_def digits_of_def)
    then show ?thesis using None i [of ?u] u
      by (simp add: ConsumeDurationNumber_def frac_digits_def value_of_def Let_def)
  next
    case (Some f)
    have f: "list_all isdigit f" "whole t \<noteq> [] \<or> f \<noteq> []" using assms Some by (auto simp: well_formed_def digits_of_def)
    have l: "frac_loop 0 1 (f @ ?u) = Some (value_of (frac_digits t), 10 ^ length (frac_digits t), ?u)"
      using frac_loop_digits [OF f(1), of 0 0 ?u] loops_stop(2) [of ?u] u by (simp add: frac_digits_def Some)
    have "(10 :: int) ^ length (frac_digits t) \<noteq> 1 \<longleftrightarrow> f \<noteq> []" using frac_scale_one by (simp add: frac_digits_def Some)
    then show ?thesis using Some i [of "CHR ''.'' # f @ ?u"] l f(2) std_point
      by (auto simp: ConsumeDurationNumber_def Let_def)
  qed
qed

text \<open>A number that runs into a character which cannot be read.\<close>

definition number_string :: "string \<Rightarrow> string option \<Rightarrow> string" where
  "number_string ds f = ds @ (case f of None \<Rightarrow> [] | Some f \<Rightarrow> CHR ''.'' # f)"

definition digit_run :: "string \<Rightarrow> string option \<Rightarrow> bool" where
  "digit_run ds f \<longleftrightarrow> list_all isdigit ds \<and> value_of ds \<le> i64_max \<and> (case f of None \<Rightarrow> True | Some f \<Rightarrow> list_all isdigit f)"

lemma ConsumeDurationNumber_undefined:
  assumes "digit_run ds f" "std_isdigit c = None"
  shows "ConsumeDurationNumber (number_string ds f @ c # r) = None"
proof -
  have i: "int_loop 0 (ds @ x) = int_loop (value_of ds) x" for x
    using int_loop_digits [of ds 0 x] assms(1) by (simp add: digit_run_def i64_max_def)
  show ?thesis
  proof (cases f)
    case None
    then show ?thesis using i [of "c # r"] assms(2) by (simp add: number_string_def ConsumeDurationNumber_def)
  next
    case (Some g)
    then have "frac_loop 0 1 (g @ c # r) = None"
      using frac_loop_digits [of g 0 0 "c # r"] loops_undefined(2) [OF assms(2)] assms(1) by (simp add: digit_run_def)
    then show ?thesis using Some i [of "CHR ''.'' # g @ c # r"] std_point
      by (simp add: number_string_def ConsumeDurationNumber_def Let_def)
  qed
qed

fun unit_dur :: "unit_name \<Rightarrow> duration option" where
  "unit_dur Nano = nanoseconds 1"
| "unit_dur Micro = microseconds 1"
| "unit_dur Milli = milliseconds 1"
| "unit_dur Second = seconds 1"
| "unit_dur Minute = minutes 1"
| "unit_dur Hour = hours 1"

lemma unit_dur_ok: "\<exists>d. unit_dur u = Some d \<and> valid_dur d \<and> dval d = Ticks (unit_ticks u)"
proof -
  have one: "i64_ok 1" by (simp add: i64_ok_iff)
  show ?thesis
    using unit_makers [OF one] from_int64_seconds_ok [OF one, of 60] from_int64_seconds_ok [OF one, of 3600]
    by (cases u) (simp_all add: minutes_def hours_def sat_def kTicksPerSecond_def)
qed

lemma ConsumeDurationUnit_term:
  "r = [] \<or> hd r \<noteq> CHR ''s'' \<Longrightarrow> ConsumeDurationUnit (unit_string u @ r) = Some (unit_dur u, r)"
  by (cases u; cases r) (auto simp: ConsumeDurationUnit_def)

lemma ConsumeDurationUnit_inv: "ConsumeDurationUnit s = Some (u, r) \<Longrightarrow> \<exists>n. s = unit_string n @ r \<and> u = unit_dur n"
proof -
  have t: "take n s = p \<Longrightarrow> s = p @ drop n s" for n p using append_take_drop_id [of n s] by metis
  assume "ConsumeDurationUnit s = Some (u, r)"
  then show ?thesis
    unfolding ConsumeDurationUnit_def
    by (auto split: if_splits dest!: t intro: exI [of _ Nano] exI [of _ Micro] exI [of _ Milli] exI [of _ Second]
        exI [of _ Minute] exI [of _ Hour])
qed

lemma int_loop_inv:
  "int_loop n s = Some (Some (m, r)) \<Longrightarrow> \<exists>ds. s = ds @ r \<and> list_all isdigit ds"
proof (induction n s rule: int_loop.induct)
  case (2 n c s)
  show ?case
  proof (cases "isdigit c")
    case True
    then obtain ds where "s = ds @ r" "list_all isdigit ds"
      using 2 by (auto simp: std_digit split: if_splits)
    then show ?thesis using True by (intro exI [of _ "c # ds"]) simp
  next
    case False
    then show ?thesis using 2 by (intro exI [of _ "[]"]) (auto simp: std_isdigit_def split: if_splits)
  qed
qed simp

lemma int_loop_undefined_inv:
  "int_loop n s = None \<Longrightarrow> \<exists>ds c r. s = ds @ c # r \<and> list_all isdigit ds \<and> std_isdigit c = None"
proof (induction s arbitrary: n)
  case (Cons c s)
  show ?case
  proof (cases "isdigit c")
    case True
    then have "int_loop (n * 10 + digit c) s = None" using Cons.prems by (simp add: std_digit split: if_splits)
    then obtain ds c' r where "s = ds @ c' # r" "list_all isdigit ds" "std_isdigit c' = None" using Cons.IH by blast
    then show ?thesis using True by (intro exI [of _ "c # ds"]) auto
  next
    case False
    then show ?thesis using Cons by (intro exI [of _ "[]"]) (auto simp: std_isdigit_def split: if_splits)
  qed
qed simp

lemma frac_loop_inv:
  "frac_loop p q s = Some (p', q', r) \<Longrightarrow> \<exists>ds. s = ds @ r \<and> list_all isdigit ds \<and> (ds = [] \<longrightarrow> q' = q)"
proof (induction p q s rule: frac_loop.induct)
  case (2 p q c s)
  show ?case
  proof (cases "isdigit c")
    case True
    then obtain ds where "s = ds @ r" "list_all isdigit ds"
      using 2 by (auto simp: std_digit split: if_splits)
    then show ?thesis using True by (intro exI [of _ "c # ds"]) simp
  next
    case False
    then show ?thesis using 2 by (intro exI [of _ "[]"]) (auto simp: std_isdigit_def split: if_splits)
  qed
qed simp

lemma frac_loop_undefined_inv:
  "frac_loop p q s = None \<Longrightarrow> \<exists>ds c r. s = ds @ c # r \<and> list_all isdigit ds \<and> std_isdigit c = None"
proof (induction s arbitrary: p q)
  case (Cons c s)
  show ?case
  proof (cases "isdigit c")
    case True
    then have "\<exists>p q. frac_loop p q s = None" using Cons.prems by (auto simp: std_digit split: if_splits)
    then obtain ds c' r where "s = ds @ c' # r" "list_all isdigit ds" "std_isdigit c' = None" using Cons.IH by blast
    then show ?thesis using True by (intro exI [of _ "c # ds"]) auto
  next
    case False
    then show ?thesis using Cons by (intro exI [of _ "[]"]) (auto simp: std_isdigit_def split: if_splits)
  qed
qed simp

text \<open>The digits before a point, or before a character that cannot be read, are a number that fits.\<close>

lemma int_loop_fits:
  assumes "int_loop 0 (ds @ r) \<noteq> Some None" "list_all isdigit ds"
  shows "value_of ds \<le> i64_max"
  using int_loop_digits [OF assms(2), of 0 r] assms(1) by (auto simp: i64_max_def split: if_splits)

lemma number_undefined_inv:
  assumes "ConsumeDurationNumber s = None"
  shows "\<exists>ds f c r. s = number_string ds f @ c # r \<and> digit_run ds f \<and> std_isdigit c = None"
proof (cases "int_loop 0 s")
  case None
  then obtain ds c r where s: "s = ds @ c # r" "list_all isdigit ds" "std_isdigit c = None"
    using int_loop_undefined_inv [OF None] by blast
  then have "digit_run ds None" using int_loop_fits [of ds "c # r"] None by (simp add: digit_run_def)
  then show ?thesis using s by (intro exI [of _ ds] exI [of _ None]) (simp add: number_string_def)
next
  case (Some x)
  then obtain i dp where x: "int_loop 0 s = Some (Some (i, dp))"
    using assms by (cases x) (auto simp: ConsumeDurationNumber_def)
  then have dp: "dp = CHR ''.'' # tl dp" and f: "frac_loop 0 1 (tl dp) = None"
    using assms by (auto simp: ConsumeDurationNumber_def Let_def split: if_splits bind_splits; cases dp; simp)+
  obtain ds where s: "s = ds @ dp" "list_all isdigit ds" using int_loop_inv [OF x] by blast
  obtain g c r where g: "tl dp = g @ c # r" "list_all isdigit g" "std_isdigit c = None"
    using frac_loop_undefined_inv [OF f] by blast
  have "digit_run ds (Some g)" using int_loop_fits [of ds dp] s x g(2) by (simp add: digit_run_def)
  then show ?thesis using s dp g by (intro exI [of _ ds] exI [of _ "Some g"]) (auto simp: number_string_def)
qed

lemma number_unit_inv:
  assumes n: "ConsumeDurationNumber s = Some (Some (a, b, c, r))" and u: "ConsumeDurationUnit r = Some (u, r')"
  shows "\<exists>t. well_formed t \<and> s = term_string t @ r' \<and> r = unit_string (unit_of t) @ r' \<and> u = unit_dur (unit_of t)"
proof -
  obtain nm where nm: "r = unit_string nm @ r'" "u = unit_dur nm" using ConsumeDurationUnit_inv [OF u] by blast
  obtain i dp where i: "int_loop 0 s = Some (Some (i, dp))"
    using n by (auto simp: ConsumeDurationNumber_def split: bind_splits option.splits)
  obtain ds where ds: "s = ds @ dp" "list_all isdigit ds" using int_loop_inv [OF i] by blast
  show ?thesis
  proof (cases "dp = [] \<or> hd dp \<noteq> CHR ''.''")
    case True
    then have "ds \<noteq> []" "dp = r" using n i ds by (auto simp: ConsumeDurationNumber_def Let_def split: if_splits)
    then show ?thesis using ds nm
      by (intro exI [of _ "\<lparr>whole = ds, frac = None, unit_of = nm\<rparr>"]) (simp add: well_formed_def digits_of_def)
  next
    case False
    then have dp: "dp = CHR ''.'' # tl dp" by (cases dp) simp_all
    obtain fp fs q where f: "frac_loop 0 1 (tl dp) = Some (fp, fs, q)"
      using n i False by (auto simp: ConsumeDurationNumber_def Let_def split: bind_splits)
    obtain fd where fd: "tl dp = fd @ q" "list_all isdigit fd" "fd = [] \<longrightarrow> fs = 1" using frac_loop_inv [OF f] by blast
    have "q = r" "ds \<noteq> [] \<or> fs \<noteq> 1"
      using n i False f ds by (auto simp: ConsumeDurationNumber_def Let_def split: if_splits)
    then show ?thesis using ds dp fd nm
      by (intro exI [of _ "\<lparr>whole = ds, frac = Some fd, unit_of = nm\<rparr>"]) (auto simp: well_formed_def digits_of_def)
  qed
qed

section \<open>The value\<close>

lemma sat_dval:
  assumes "valid_dur d" "dval d = Ticks s" shows "sat s = Ticks s"
proof -
  have "\<not> is_infinite_duration d" "ticks d = s" using assms(2) by (auto simp: dval_def split: if_splits)
  then show ?thesis using ticks_range [OF assms(1)] by (intro sat_small [of s]) auto
qed

lemma span_add_zero: "valid_dur d \<Longrightarrow> span_add (dval d) (sat 0) = dval d"
  using sat_dval [of d] by (cases "dval d") (simp_all add: sat_def kTicksPerSecond_def)

lemma scaled:
  assumes "valid_dur u" "dval u = Ticks k" "i64_ok n"
  obtains d where "dur_mul u n = Some d" "valid_dur d" "dval d = sat (k * n)"
  using dur_mul_ok [OF assms(1,3)] assms(2) by auto

lemma scaled_down:
  assumes d: "valid_dur d" and m: "i64_ok m" "0 < m"
  obtains d' where "dur_div d m = Some d'" "valid_dur d'" "dval d' = span_div (dval d) m"
proof -
  obtain d' where d': "dur_div d m = Some d'" "valid_dur d'"
    "dval d' = (case dval d of Ticks t \<Rightarrow> sat (t sdiv m) | x \<Rightarrow> x)"
    using dur_div_ok [OF d m(1)] m(2) by (auto split: span.splits)
  have "sat (t sdiv m) = Ticks (t sdiv m)" if "dval d = Ticks t" for t
  proof -
    have "\<not> is_infinite_duration d" "ticks d = t" using that by (auto simp: dval_def split: if_splits)
    moreover have "min t 0 \<le> t sdiv m" "t sdiv m \<le> max t 0"
      using m(2) by (cases "0 \<le> t"; simp add: Prelude.sdiv_neg sdiv_nonneg int_div_le pos_imp_zdiv_nonneg_iff;
        use int_div_le [of "- t" m] in simp)+
    ultimately show ?thesis using ticks_range [OF d] by (intro sat_small [of t]) auto
  qed
  then show ?thesis using d' by (intro that [OF d'(1,2)]) (auto split: span.splits)
qed

lemma add_part_ok:
  assumes v: "valid_dur dur" "valid_dur u" "dval u = Ticks k" and sg: "sign = 1 \<or> sign = - 1"
    and i: "0 \<le> ip" "ip \<le> i64_max" and f: "0 \<le> fp" "fp < fs" "fs \<le> i64_max"
  shows "\<exists>d. add_part sign dur ip fp fs u = Some d \<and> valid_dur d \<and>
    dval d = span_add (span_add (dval dur) (sat (k * (sign * ip)))) (span_div (sat (k * (sign * fp))) fs)"
proof -
  have ok: "i64_ok (sign * ip)" "i64_ok (sign * fp)" "i64_ok fs"
    using sg i f by (auto simp: i64_ok_def i64_min_def i64_max_def)
  obtain a where a: "dur_mul u (sign * ip) = Some a" "valid_dur a" "dval a = sat (k * (sign * ip))"
    using scaled [OF v(2,3) ok(1)] by blast
  obtain b where b: "dur_mul u (sign * fp) = Some b" "valid_dur b" "dval b = sat (k * (sign * fp))"
    using scaled [OF v(2,3) ok(2)] by blast
  have "0 < fs" using f by simp
  then obtain c where c: "dur_div b fs = Some c" "valid_dur c" "dval c = span_div (dval b) fs"
    using scaled_down [OF b(2) ok(3)] by blast
  define e where "e = (if ip \<noteq> 0 then dur_add dur a else dur)"
  have e: "valid_dur e" "dval e = span_add (dval dur) (sat (k * (sign * ip)))"
    using dur_add_ok [OF v(1) a(2)] v(1) a(3) by (simp_all add: e_def span_add_zero)
  define g where "g = (if fp \<noteq> 0 then dur_add e c else e)"
  have "sat 0 = Ticks 0" by (simp add: sat_def kTicksPerSecond_def)
  then have g: "valid_dur g" "dval g = span_add (dval e) (span_div (sat (k * (sign * fp))) fs)"
    using dur_add_ok [OF e(1) c(2)] e(1) c(3) b(3) span_add_zero [OF e(1)] by (simp_all add: g_def)
  have "add_part sign dur ip fp fs u = Some g"
    using a(1) b(1) c(1) ok by (simp add: add_part_def e_def g_def)
  then show ?thesis using e(2) g by auto
qed

lemma add_term:
  assumes t: "well_formed t" "fits t" and d: "valid_dur d" and sg: "sign = 1 \<or> sign = - 1"
    and u: "unit_dur (unit_of t) = Some u"
  shows "\<exists>d'. add_part sign d (value_of (whole t)) (value_of (frac_digits t)) (10 ^ length (frac_digits t)) u = Some d' \<and>
    valid_dur d' \<and> dval d' = term_add sign (dval d) t"
proof -
  have u: "valid_dur u" "dval u = Ticks (unit_ticks (unit_of t))" using unit_dur_ok [of "unit_of t"] u by auto
  have wd: "list_all isdigit (whole t)" "list_all isdigit (frac_digits t)"
    using t by (auto simp: well_formed_def digits_of_def frac_digits_def list_all_iff split: option.splits dest: in_set_takeD)
  have "length (frac_digits t) \<le> 18" by (simp add: frac_digits_def split: option.splits)
  then have "(10 :: int) ^ length (frac_digits t) \<le> 10 ^ 18" by (intro power_increasing) simp_all
  then have fs: "(10 :: int) ^ length (frac_digits t) \<le> i64_max" by (simp add: i64_max_def)
  show ?thesis
    using add_part_ok [OF d u sg, of "value_of (whole t)" "value_of (frac_digits t)" "10 ^ length (frac_digits t)"]
      value_nonneg [OF wd(1)] value_nonneg [OF wd(2)] fs t(2)
    by (auto simp: fits_def term_add_def)
qed

lemma term_nonempty: "term_string t \<noteq> []"
  using unit_head [of "unit_of t"] by auto

lemma parse_term:
  assumes t: "well_formed t" and r: "r = [] \<or> hd r \<noteq> CHR ''s''" and d: "valid_dur d" and sg: "sign = 1 \<or> sign = - 1"
  shows "if fits t then \<exists>d'. parse_loop sign d (term_string t @ r) = parse_loop sign d' r \<and> valid_dur d' \<and>
      dval d' = term_add sign (dval d) t
    else parse_loop sign d (term_string t @ r) = Some None"
proof (cases "fits t")
  case True
  obtain u where u: "unit_dur (unit_of t) = Some u" using unit_dur_ok by blast
  obtain d' where d': "add_part sign d (value_of (whole t)) (value_of (frac_digits t)) (10 ^ length (frac_digits t)) u = Some d'"
    "valid_dur d'" "dval d' = term_add sign (dval d) t"
    using add_term [OF t True d sg u] by blast
  have "parse_loop sign d (term_string t @ r) = parse_loop sign d' r"
    using ConsumeDurationNumber_term [OF t, of r] ConsumeDurationUnit_term [OF r, of "unit_of t"] True u d'(1) term_nonempty [of t]
    by (subst parse_loop.simps) (simp del: term_string.simps)
  then show ?thesis using True d' by auto
next
  case False
  then show ?thesis using ConsumeDurationNumber_term [OF t, of r] term_nonempty [of t]
    by (subst parse_loop.simps) (simp del: term_string.simps)
qed

lemma term_head: "well_formed t \<Longrightarrow> term_string t \<noteq> [] \<and> (isdigit (hd (term_string t)) \<or> hd (term_string t) = CHR ''.'')"
  by (cases "whole t") (auto simp: well_formed_def digits_of_def split: option.splits)

lemma term_no_s: "well_formed t \<Longrightarrow> hd (term_string t @ r) \<noteq> CHR ''s''"
  using term_head [of t] by (auto simp: isdigit_def simp del: term_string.simps)

text \<open>Terms, whatever follows them that does not begin with \<open>s\<close>.\<close>

lemma parse_terms_then:
  assumes "list_all well_formed ts" "valid_dur d" "sign = 1 \<or> sign = - 1" "r = [] \<or> hd r \<noteq> CHR ''s''"
  shows "if list_all fits ts then \<exists>d'. parse_loop sign d (concat (map term_string ts) @ r) = parse_loop sign d' r \<and>
      valid_dur d' \<and> dval d' = foldl (term_add sign) (dval d) ts
    else parse_loop sign d (concat (map term_string ts) @ r) = Some None"
  using assms
proof (induction ts arbitrary: d)
  case Nil
  then show ?case by auto
next
  case (Cons t ts)
  let ?r = "concat (map term_string ts) @ r"
  have r: "?r = [] \<or> hd ?r \<noteq> CHR ''s''"
    using Cons.prems(1,4) term_no_s by (cases ts) (auto simp del: term_string.simps)
  have t: "well_formed t" using Cons.prems(1) by simp
  note p = parse_term [OF t r Cons.prems(2,3)]
  show ?case
  proof (cases "fits t")
    case True
    then obtain d' where d': "parse_loop sign d (term_string t @ ?r) = parse_loop sign d' ?r" "valid_dur d'"
        "dval d' = term_add sign (dval d) t"
      using p by auto
    have "list_all well_formed ts" using Cons.prems(1) by simp
    then show ?thesis using Cons.IH [OF _ d'(2) Cons.prems(3,4)] d' True
      by (cases "list_all fits ts") (simp_all del: term_string.simps)
  next
    case False
    then show ?thesis using p by (simp del: term_string.simps)
  qed
qed

lemma parse_terms:
  assumes "list_all well_formed ts" "valid_dur d" "sign = 1 \<or> sign = - 1"
  shows "if list_all fits ts then \<exists>d'. parse_loop sign d (concat (map term_string ts)) = Some (Some d') \<and> valid_dur d' \<and>
      dval d' = foldl (term_add sign) (dval d) ts
    else parse_loop sign d (concat (map term_string ts)) = Some None"
  using parse_terms_then [OF assms, of "[]"] by (simp add: parse_loop.simps [of _ _ "[]"] split: if_splits)

text \<open>The strings on which the scanner reads a character that it cannot: after terms and a number.\<close>

definition misread_body :: "string \<Rightarrow> bool" where
  "misread_body s \<longleftrightarrow> (\<exists>ts ds f c r. list_all well_formed ts \<and> list_all fits ts \<and> digit_run ds f \<and>
     std_isdigit c = None \<and> s = concat (map term_string ts) @ number_string ds f @ c # r)"

lemma parse_loop_undefined:
  assumes "misread_body s" "valid_dur d" "sign = 1 \<or> sign = - 1"
  shows "parse_loop sign d s = None"
proof -
  obtain ts ds f c r where m: "list_all well_formed ts" "list_all fits ts" "digit_run ds f" "std_isdigit c = None"
      "s = concat (map term_string ts) @ number_string ds f @ c # r"
    using assms(1) by (auto simp: misread_body_def)
  let ?r = "number_string ds f @ c # r"
  have "hd ?r \<noteq> CHR ''s''"
    using m(3,4) by (cases ds; cases f) (auto simp: number_string_def digit_run_def isdigit_def std_isdigit_def)
  then obtain d' where "parse_loop sign d s = parse_loop sign d' ?r"
    using parse_terms_then [OF m(1) assms(2,3), of ?r] m(2,5) by auto
  also have "\<dots> = None"
    using ConsumeDurationNumber_undefined [OF m(3,4)] by (subst parse_loop.simps) simp
  finally show ?thesis .
qed

lemma parse_loop_inv:
  "parse_loop sign d s \<noteq> Some None \<Longrightarrow> valid_dur d \<Longrightarrow> sign = 1 \<or> sign = - 1 \<Longrightarrow>
    misread_body s \<or> (\<exists>ts. list_all well_formed ts \<and> list_all fits ts \<and> s = concat (map term_string ts))"
proof (induction sign d s rule: parse_loop.induct)
  case (1 sign d s)
  show ?case
  proof (cases "s = []")
    case True
    then show ?thesis by (intro disjI2 exI [of _ "[]"]) simp
  next
    case False
    show ?thesis
    proof (cases "ConsumeDurationNumber s")
      case None
      then obtain ds f c r where "s = number_string ds f @ c # r" "digit_run ds f" "std_isdigit c = None"
        using number_undefined_inv by blast
      then show ?thesis unfolding misread_body_def
        by (intro disjI1 exI [of _ "[] :: dterm list"] exI [of _ ds] exI [of _ f] exI [of _ c] exI [of _ r]) simp
    next
      case (Some x)
      then obtain a b c r where n: "ConsumeDurationNumber s = Some (Some (a, b, c, r))"
        using 1(2) False by (subst (asm) parse_loop.simps) (auto split: option.splits)
      obtain u r' where u: "ConsumeDurationUnit r = Some (u, r')"
        using 1(2) False n by (subst (asm) parse_loop.simps) (auto split: option.splits)
      obtain t where t: "well_formed t" "s = term_string t @ r'" "r = unit_string (unit_of t) @ r'" "u = unit_dur (unit_of t)"
        using number_unit_inv [OF n u] by blast
      have v: "fits t" "a = value_of (whole t)" "b = value_of (frac_digits t)" "c = 10 ^ length (frac_digits t)"
        using n ConsumeDurationNumber_term [OF t(1), of r'] by (simp_all add: t(2) del: term_string.simps split: if_splits)
      obtain y where y: "unit_dur (unit_of t) = Some y" using unit_dur_ok by blast
      obtain d' where d': "add_part sign d a b c y = Some d'" "valid_dur d'"
        using add_term [OF t(1) v(1) 1(3,4) y] v by blast
      have "parse_loop sign d s = parse_loop sign d' r'"
        using False n u d'(1) y t(4) by (subst parse_loop.simps) simp
      then have "parse_loop sign d' r' \<noteq> Some None" using 1(2) by simp
      then have "misread_body r' \<or> (\<exists>ts. list_all well_formed ts \<and> list_all fits ts \<and> r' = concat (map term_string ts))"
        using 1(1) [OF False n refl refl refl refl u refl, of d'] d' y t(4) 1(4) by (auto simp del: term_string.simps)
      then show ?thesis
      proof
        assume "misread_body r'"
        then obtain ts ds f c r where "list_all well_formed ts" "list_all fits ts" "digit_run ds f" "std_isdigit c = None"
            "r' = concat (map term_string ts) @ number_string ds f @ c # r"
          by (auto simp: misread_body_def)
        then show ?thesis unfolding misread_body_def using t(1,2) v(1)
          by (intro disjI1 exI [of _ "t # ts"] exI [of _ ds] exI [of _ f] exI [of _ c] exI [of _ r])
            (simp del: term_string.simps)
      next
        assume "\<exists>ts. list_all well_formed ts \<and> list_all fits ts \<and> r' = concat (map term_string ts)"
        then obtain ts where "list_all well_formed ts" "list_all fits ts" "r' = concat (map term_string ts)" by blast
        then show ?thesis using t(1,2) v(1) by (intro disjI2 exI [of _ "t # ts"]) (simp del: term_string.simps)
      qed
    qed
  qed
qed

section \<open>Properties\<close>

definition sentence :: "dterm list \<Rightarrow> bool" where
  "sentence ts \<longleftrightarrow> ts \<noteq> [] \<and> list_all well_formed ts \<and> list_all fits ts"

text \<open>The strings that denote a duration: an optional sign, and \<open>0\<close>, \<open>inf\<close> or terms.\<close>

definition denotes :: "string \<Rightarrow> bool" where
  "denotes s \<longleftrightarrow> (\<exists>sg body. sg \<in> {'''', ''-'', ''+''} \<and> s = sg @ body \<and>
     (body = ''0'' \<or> body = ''inf'' \<or> (\<exists>ts. sentence ts \<and> body = concat (map term_string ts))))"

text \<open>
  The strings on which \<open>std::isdigit\<close> is called with a byte from 128 on: after the sign, terms and a number
  up to there.
\<close>

definition misread :: "string \<Rightarrow> bool" where
  "misread s \<longleftrightarrow> (\<exists>sg body. sg \<in> {'''', ''-'', ''+''} \<and> s = sg @ body \<and> misread_body body)"

lemma misread_body_head:
  assumes "misread_body s"
  shows "s \<noteq> []" "hd s \<notin> {CHR ''-'', CHR ''+''}" "s \<noteq> ''0''" "s \<noteq> ''inf''"
proof -
  obtain ts ds f c r where m: "list_all well_formed ts" "digit_run ds f" "std_isdigit c = None"
      "s = concat (map term_string ts) @ number_string ds f @ c # r"
    using assms by (auto simp: misread_body_def)
  have "c \<in> set s" using m(4) by simp
  then show "s \<noteq> []" "s \<noteq> ''0''" "s \<noteq> ''inf''" using m(3) by (auto simp: std_isdigit_def split: if_splits)
  show "hd s \<notin> {CHR ''-'', CHR ''+''}"
  proof (cases ts)
    case Nil
    then show ?thesis
      using m(2-4) by (cases ds; cases f) (auto simp: number_string_def digit_run_def isdigit_def std_isdigit_def)
  next
    case (Cons t ts')
    then have "hd s = hd (term_string t)" "well_formed t" using m(1,4) term_head by (simp_all del: term_string.simps)
    then show ?thesis using term_head [of t] by (auto simp: isdigit_def simp del: term_string.simps)
  qed
qed

lemma term_chars: "well_formed t \<Longrightarrow> c \<in> set (term_string t) \<Longrightarrow> c \<noteq> CHR 0x00"
proof -
  assume t: "well_formed t" and c: "c \<in> set (term_string t)"
  have "c \<in> set (digits_of t) \<or> c = CHR ''.'' \<or> c \<in> set (unit_string (unit_of t))"
    using c by (auto simp: digits_of_def split: option.splits)
  moreover have "isdigit c" if "c \<in> set (digits_of t)" using t that by (simp add: well_formed_def list_all_iff)
  moreover have "\<not> isdigit CHR 0x00" by (simp add: isdigit_def)
  moreover have "CHR 0x00 \<notin> set (unit_string (unit_of t))" by (cases "unit_of t") simp_all
  ultimately show ?thesis by auto
qed

lemma terms_head:
  assumes "sentence ts"
  shows "concat (map term_string ts) \<noteq> []" "hd (concat (map term_string ts)) \<notin> {CHR ''-'', CHR ''+'', CHR ''i''}"
    "concat (map term_string ts) \<noteq> ''0''" "concat (map term_string ts) \<noteq> ''inf''"
proof -
  obtain t ts' where ts: "ts = t # ts'" "well_formed t" using assms by (cases ts) (auto simp: sentence_def)
  let ?s = "term_string t" and ?r = "concat (map term_string ts')"
  have h: "?s \<noteq> []" "isdigit (hd ?s) \<or> hd ?s = CHR ''.''" using term_head [OF ts(2)] by simp_all
  then show n: "concat (map term_string ts) \<noteq> []" by (simp add: ts del: term_string.simps)
  have hd: "hd (concat (map term_string ts)) = hd ?s" using h(1) by (simp add: ts del: term_string.simps)
  show i: "hd (concat (map term_string ts)) \<notin> {CHR ''-'', CHR ''+'', CHR ''i''}"
    unfolding hd using h(2) by (auto simp: isdigit_def)
  show "concat (map term_string ts) \<noteq> ''inf''"
  proof
    assume "concat (map term_string ts) = ''inf''"
    then have "hd (concat (map term_string ts)) = CHR ''i''" by simp
    then show False using i by simp
  qed
  have "length (digits_of t) \<ge> 1" using ts(2) by (cases "digits_of t") (simp_all add: well_formed_def)
  moreover have "length (digits_of t) \<le> length (whole t @ (case frac t of None \<Rightarrow> [] | Some f \<Rightarrow> CHR ''.'' # f))"
    by (simp add: digits_of_def split: option.splits)
  moreover have "length (unit_string (unit_of t)) \<ge> 1" by (cases "unit_of t") simp_all
  ultimately have "2 \<le> length ?s" by simp
  then show "concat (map term_string ts) \<noteq> ''0''" by (auto simp: ts dest!: arg_cong [of _ _ length])
qed

text \<open>The string that is parsed is a sign and a body.\<close>

definition parse_body :: "string \<Rightarrow> string \<Rightarrow> duration option option" where
  "parse_body sg body =
     (let sign = (if sg = ''-'' then - 1 else 1) in
      if body = [] then Some None
      else if body = ''0'' then Some (Some zero_duration)
      else if body = ''inf'' then map_option Some (dur_mul infinite_duration sign)
      else parse_loop sign zero_duration body)"

lemma parse_split:
  obtains sg body where "takeWhile (\<lambda>c. c \<noteq> CHR 0x00) s = sg @ body" "sg \<in> {'''', ''-'', ''+''}"
    "sg = '''' \<Longrightarrow> body = [] \<or> hd body \<notin> {CHR ''-'', CHR ''+''}" "parse_duration s = parse_body sg body"
proof (cases "takeWhile (\<lambda>c. c \<noteq> CHR 0x00) s")
  case Nil
  then show ?thesis using that [of "''''" "[]"] by (simp add: parse_duration_def parse_body_def)
next
  case (Cons c cs)
  consider "c = CHR ''-''" | "c = CHR ''+''" | "c \<noteq> CHR ''-''" "c \<noteq> CHR ''+''" by blast
  then show ?thesis
  proof cases
    case 1
    then show ?thesis using that [of "''-''" cs] Cons by (simp add: parse_duration_def parse_body_def Let_def)
  next
    case 2
    then show ?thesis using that [of "''+''" cs] Cons by (simp add: parse_duration_def parse_body_def Let_def)
  next
    case 3
    then show ?thesis using that [of "''''" "c # cs"] Cons by (simp add: parse_duration_def parse_body_def Let_def)
  qed
qed

text \<open>The split is unique.\<close>

lemma split_unique:
  assumes "sg @ body = sg' @ body'" "sg \<in> {'''', ''-'', ''+''}" "sg' \<in> {'''', ''-'', ''+''}"
    "sg = '''' \<Longrightarrow> body = [] \<or> hd body \<notin> {CHR ''-'', CHR ''+''}" "body' \<noteq> []" "hd body' \<notin> {CHR ''-'', CHR ''+''}"
  shows "sg' = sg \<and> body' = body"
  using assms by (cases body'; cases body) auto

lemma parse_duration_sentence:
  assumes ts: "sentence ts" and sg: "sg \<in> {'''', ''-'', ''+''}"
  shows "\<exists>d. parse_duration (sg @ concat (map term_string ts)) = Some (Some d) \<and> valid_dur d \<and>
    dval d = foldl (term_add (if sg = ''-'' then - 1 else 1)) (Ticks 0) ts"
proof -
  have c: "CHR 0x00 \<notin> set (concat (map term_string ts))"
    using ts by (auto simp: sentence_def list_all_iff simp del: term_string.simps dest: term_chars)
  let ?s = "concat (map term_string ts)"
  have tw: "takeWhile (\<lambda>c. c \<noteq> CHR 0x00) (sg @ ?s) = sg @ ?s"
    unfolding takeWhile_eq_all_conv using c sg by auto
  obtain sg' body where "sg @ ?s = sg' @ body" "sg' \<in> {'''', ''-'', ''+''}"
    "sg' = '''' \<Longrightarrow> body = [] \<or> hd body \<notin> {CHR ''-'', CHR ''+''}" and p: "parse_duration (sg @ ?s) = parse_body sg' body"
    using parse_split [of "sg @ ?s"] unfolding tw by metis
  then have "sg' = sg" "body = ?s"
    using split_unique [of sg' body sg ?s] sg terms_head(1,2) [OF ts] by auto
  then have "parse_duration (sg @ ?s) = parse_loop (if sg = ''-'' then - 1 else 1) zero_duration ?s"
    using p terms_head [OF ts] unfolding parse_body_def by (simp add: Let_def del: concat_eq_Nil_conv)
  then show ?thesis
    using parse_terms [of ts zero_duration "if sg = ''-'' then - 1 else 1"] ts by (auto simp: sentence_def)
qed

text \<open>
  C16. A string of an optional sign and terms such as \<open>1h30m0.25s\<close>, whose whole numbers are at most the
  largest \<open>int64_t\<close>, parses to the sum of its terms from left to right in saturating ticks, each term a whole
  number of units and a truncated fraction of at most eighteen digits.
\<close>

theorem parse_duration_value:
  assumes ts: "sentence ts" and sg: "sg \<in> {'''', ''-'', ''+''}"
  shows "\<exists>d. parse_duration (sg @ concat (map term_string ts)) = Some (Some d) \<and> valid_dur d \<and>
    dval d = foldl (term_add (if sg = ''-'' then - 1 else 1)) (Ticks 0) ts"
  by (rule parse_duration_sentence [OF ts sg])

theorem parse_duration_value_witness:
  "\<exists>d. parse_duration ''-1m30.5s'' = Some (Some d) \<and> dval d = Ticks (- 362000000000)"
  using parse_duration_value [of "[\<lparr>whole = ''1'', frac = None, unit_of = Minute\<rparr>, \<lparr>whole = ''30'', frac = Some ''5'', unit_of = Second\<rparr>]" "''-''"]
  by (auto simp: sentence_def well_formed_def digits_of_def fits_def isdigit_def value_of_def digit_def frac_digits_def
      i64_max_def term_add_def sat_def kTicksPerSecond_def sdiv_nonneg)

lemma parse_body_accepts:
  assumes "sg \<in> {'''', ''-'', ''+''}"
  shows "case parse_body sg body of None \<Rightarrow> misread_body body
    | Some r \<Rightarrow> \<not> misread_body body \<and>
        (r = None) = (body \<noteq> ''0'' \<and> body \<noteq> ''inf'' \<and> (\<nexists>ts. sentence ts \<and> body = concat (map term_string ts)))"
proof -
  define sign :: int where "sign = (if sg = ''-'' then - 1 else 1)"
  have sign: "sign = 1 \<or> sign = - 1" "i64_ok sign" by (simp_all add: sign_def i64_ok_iff)
  note m = misread_body_head [of body]
  consider (empty) "body = []" | (zero) "body = ''0''" | (inf) "body = ''inf''"
    | (other) "body \<noteq> []" "body \<noteq> ''0''" "body \<noteq> ''inf''" by blast
  then show ?thesis
  proof cases
    case empty
    then have "\<nexists>ts. sentence ts \<and> body = concat (map term_string ts)" using terms_head(1) by metis
    then show ?thesis using empty m(1) by (auto simp: parse_body_def)
  next
    case zero
    then show ?thesis using m(3) by (auto simp: parse_body_def)
  next
    case inf
    obtain d where "dur_mul infinite_duration sign = Some d"
      using dur_mul_ok [OF infinite_simps(1) sign(2)] by blast
    then show ?thesis using inf m(4) by (auto simp: parse_body_def sign_def [symmetric])
  next
    case other
    have p: "parse_body sg body = parse_loop sign zero_duration body"
      using other by (simp add: parse_body_def sign_def Let_def)
    have no: "parse_loop sign zero_duration body = None" if "misread_body body"
      using parse_loop_undefined [OF that _ sign(1), of zero_duration] by simp
    consider (false) "parse_loop sign zero_duration body = Some None" | (misread) "misread_body body"
      | (terms) ts where "list_all well_formed ts" "list_all fits ts" "body = concat (map term_string ts)"
      using parse_loop_inv [of sign zero_duration body] sign(1) by auto
    then show ?thesis
    proof cases
      case false
      have "\<not> sentence ts" if "body = concat (map term_string ts)" for ts
        using parse_terms [of ts zero_duration sign] false sign(1) that by (auto simp: sentence_def)
      then show ?thesis using false no p other by auto
    next
      case misread
      then show ?thesis using no p by simp
    next
      case terms
      then have "sentence ts" using other(1) by (cases ts) (simp_all add: sentence_def)
      then show ?thesis using parse_terms [OF terms(1), of zero_duration sign] terms p no sign(1) by auto
    qed
  qed
qed

text \<open>
  C17. \<open>parse_duration\<close> ends on every string. Its behaviour is undefined exactly on the strings where the
  scanner meets a byte from 128 on in the place of a digit: after the sign, terms and the digits of a
  number that fits, with or without a point. On all others it returns true exactly on the strings of the
  grammar, and false otherwise.
\<close>

theorem parse_duration_accepts:
  "case parse_duration s of
     None \<Rightarrow> misread (takeWhile (\<lambda>c. c \<noteq> CHR 0x00) s)
   | Some r \<Rightarrow> \<not> misread (takeWhile (\<lambda>c. c \<noteq> CHR 0x00) s) \<and>
       (r = None) = (\<not> denotes (takeWhile (\<lambda>c. c \<noteq> CHR 0x00) s))"
proof -
  let ?s = "takeWhile (\<lambda>c. c \<noteq> CHR 0x00) s"
  let ?good = "\<lambda>body. body = ''0'' \<or> body = ''inf'' \<or> (\<exists>ts. sentence ts \<and> body = concat (map term_string ts))"
  obtain sg body where split: "?s = sg @ body" and sg: "sg \<in> {'''', ''-'', ''+''}"
    and hd: "sg = '''' \<Longrightarrow> body = [] \<or> hd body \<notin> {CHR ''-'', CHR ''+''}" and p: "parse_duration s = parse_body sg body"
    using parse_split [of s] by metis
  have same: "body' = body" if "sg' \<in> {'''', ''-'', ''+''}" "?s = sg' @ body'" "body' \<noteq> [] \<and> hd body' \<notin> {CHR ''-'', CHR ''+''}"
    for sg' body'
    using split_unique [of sg body sg' body'] split sg hd that by auto
  have good_hd: "body' \<noteq> [] \<and> hd body' \<notin> {CHR ''-'', CHR ''+''}" if "?good body'" for body'
    using that terms_head(1,2) by fastforce
  have "denotes ?s \<longleftrightarrow> ?good body"
    unfolding denotes_def using split sg same good_hd by metis
  moreover have "misread ?s \<longleftrightarrow> misread_body body"
    unfolding misread_def using split sg same misread_body_head(1,2) by metis
  ultimately show ?thesis using parse_body_accepts [OF sg, of body] p by (auto split: option.splits)
qed

text \<open>
  C18. A fraction is multiplied by its unit, in saturating arithmetic, before it is divided by its scale: when
  the digits kept times the unit reach \<open>2 ^ 63\<close> seconds the string parses to infinity, although the
  fraction is below one unit. So do \<open>0.999999999999999999h\<close> and \<open>0.500000000000000000m\<close>.
\<close>

theorem parse_fraction_saturates:
  assumes t: "sentence [t]" and big: "2 ^ 63 * kTicksPerSecond \<le> unit_ticks (unit_of t) * value_of (frac_digits t)"
  shows "(\<exists>d. parse_duration (term_string t) = Some (Some d) \<and> dval d = Plus_inf) \<and>
    value_of (frac_digits t) < 10 ^ length (frac_digits t)"
proof -
  have wd: "list_all isdigit (whole t)" "list_all isdigit (frac_digits t)"
    using t by (auto simp: sentence_def well_formed_def digits_of_def frac_digits_def list_all_iff
        split: option.splits dest: in_set_takeD)
  have f: "sat (unit_ticks (unit_of t) * value_of (frac_digits t)) = Plus_inf" using big by (auto simp: sat_def kTicksPerSecond_def)
  have "0 \<le> unit_ticks (unit_of t) * value_of (whole t)"
    using value_nonneg [OF wd(1)] by (cases "unit_of t") simp_all
  then have w: "sat (unit_ticks (unit_of t) * value_of (whole t)) \<noteq> Minus_inf" by (auto simp: sat_def kTicksPerSecond_def)
  have "term_add 1 (Ticks 0) t = Plus_inf"
  proof (cases "sat (unit_ticks (unit_of t) * value_of (whole t))")
    case (Ticks x)
    then have "sat x = Ticks x" by (auto simp: sat_def split: if_splits)
    then show ?thesis using Ticks f by (simp add: term_add_def)
  qed (use w f in \<open>simp_all add: term_add_def\<close>)
  then show ?thesis using parse_duration_sentence [OF t, of "''''"] value_nonneg [OF wd(2)]
    by (auto simp del: term_string.simps)
qed

theorem parse_fraction_saturates_witness:
  "\<exists>d. parse_duration ''0.999999999999999999h'' = Some (Some d) \<and> dval d = Plus_inf"
  using parse_fraction_saturates [of "\<lparr>whole = ''0'', frac = Some ''999999999999999999'', unit_of = Hour\<rparr>"]
  by (simp add: sentence_def well_formed_def digits_of_def fits_def isdigit_def value_of_def digit_def frac_digits_def
      i64_max_def kTicksPerSecond_def)

end
