(* ===== verification/Uniform_Bits.thy ===== *)
theory Uniform_Bits
  imports Prelude
begin

text \<open>
  \<open>abel/random/internal/fast_uniform_bits.h\<close>: uniform bits of any width from a generator of random
  numbers. A generator (the URBG of the standard) is a parameter: its call operator, which returns
  a number and the next state, and its bounds. The laws of the concept are the locale \<open>urbg\<close>,
  interpreted for the engines of the library in \<open>Pcg_Engine\<close>. The rejection loop may run for ever
  on a bad generator; \<open>None\<close> is that outcome.
\<close>

section \<open>Generators\<close>

record ('s, 'r) urbg =
  urbg_call :: "'s \<Rightarrow> 'r \<times> 's"
  urbg_min :: 'r
  urbg_max :: 'r

section \<open>The range of a generator\<close>

definition IsPowerOfTwoOrZero :: "'r::len word \<Rightarrow> bool" where
  "IsPowerOfTwoOrZero n \<longleftrightarrow> n = 0 \<or> n AND (n - 1) = 0"

definition RangeSize :: "('s, 'r::len word) urbg \<Rightarrow> 'r word" where
  "RangeSize G =
     (if urbg_max G = - 1 \<and> urbg_min G = 0 then 0 else urbg_max G - urbg_min G + 1)"

lemma unat_2:
  assumes "2 \<le> unat (n :: 'r::len word)" shows "unat (2 :: 'r word) = 2"
proof -
  have "unat n < 2 ^ LENGTH('r)" by (rule unsigned_less)
  then have "LENGTH('r) \<noteq> 1" using assms by (metis linorder_not_less power_one_right)
  then show ?thesis by simp
qed

lemma unat_div_2: "2 \<le> unat (n :: 'r::len word) \<Longrightarrow> unat (n div 2) = unat n div 2"
  by (simp only: unat_div unat_2)

function LargestPowerOfTwo :: "'r::len word \<Rightarrow> 'r word" where
  "LargestPowerOfTwo n = (if unat n < 2 then n else 2 * LargestPowerOfTwo (n div 2))"
  by auto
termination by (relation "measure unat") (auto simp: unat_div_2)

declare LargestPowerOfTwo.simps [simp del]

definition PowerOfTwoSubRangeSize :: "('s, 'r::len word) urbg \<Rightarrow> 'r word" where
  "PowerOfTwoSubRangeSize G = LargestPowerOfTwo (RangeSize G)"

function IntegerLog2 :: "'r::len word \<Rightarrow> 'r word" where
  "IntegerLog2 n = (if unat n \<le> 1 then 0 else 1 + IntegerLog2 (n div 2))"
  by auto
termination by (relation "measure unat") (auto simp: unat_div_2)

declare IntegerLog2.simps [simp del]

definition NumBits :: "('s, 'r::len word) urbg \<Rightarrow> nat" where
  "NumBits G =
     (if RangeSize G = 0 then LENGTH('r) else unat (IntegerLog2 (PowerOfTwoSubRangeSize G)))"

definition MaskFromShift :: "'w::len word \<Rightarrow> 'w word" where
  "MaskFromShift n = (if unat n mod LENGTH('w) = 0 then NOT 0 else push_bit (unat n) 1 - 1)"

section \<open>One variate\<close>

text \<open>\<open>PowerOfTwoVariate\<close> with the tag \<open>RejectionSamplingTag\<close>, and the dispatch on the tag.\<close>

partial_function (option) rejection_variate :: "('s, 'r::len word) urbg \<Rightarrow> 's \<Rightarrow> ('r word \<times> 's) option" where
  "rejection_variate G g =
     (let (u, g) = urbg_call G g;
          u = u - urbg_min G
      in if u \<ge> PowerOfTwoSubRangeSize G then rejection_variate G g else Some (u, g))"

definition PowerOfTwoVariate :: "('s, 'r::len word) urbg \<Rightarrow> 's \<Rightarrow> ('r word \<times> 's) option" where
  "PowerOfTwoVariate G g =
     (if IsPowerOfTwoOrZero (RangeSize G) then let (u, g) = urbg_call G g in Some (u - urbg_min G, g)
      else rejection_variate G g)"

section \<open>FastUniformBits\<close>

text \<open>\<open>Generate\<close> with \<open>avoid_looping\<close>.\<close>

definition generate_masked :: "('s, 'r::len word) urbg \<Rightarrow> 's \<Rightarrow> ('w::len word \<times> 's) option" where
  "generate_masked G g = do { (u, g) \<leftarrow> PowerOfTwoVariate G g; Some (ucast u AND - 1, g) }"

text \<open>The constants of \<open>Generate\<close> without it, from \<open>kTotalWidth\<close> and \<open>kUrbgWidth\<close>.\<close>

definition kTotalIters :: "nat \<Rightarrow> nat \<Rightarrow> nat" where
  "kTotalIters W U = W div U + (if W mod U \<noteq> 0 then 1 else 0)"

definition kSmallWidth :: "nat \<Rightarrow> nat \<Rightarrow> nat" where
  "kSmallWidth W U = W div kTotalIters W U"

definition kLargeWidth :: "nat \<Rightarrow> nat \<Rightarrow> nat" where
  "kLargeWidth W U = kSmallWidth W U + 1"

definition kLargeIters :: "nat \<Rightarrow> nat \<Rightarrow> nat" where
  "kLargeIters W U = W mod kSmallWidth W U"

definition kSmallIters :: "nat \<Rightarrow> nat \<Rightarrow> nat" where
  "kSmallIters W U = (W - kLargeWidth W U * kLargeIters W U) div kSmallWidth W U"

text \<open>One of its two loops: \<open>k\<close> iterations that shift in \<open>shift\<close> bits.\<close>

primrec bits_loop ::
    "('s, 'r::len word) urbg \<Rightarrow> nat \<Rightarrow> nat \<Rightarrow> 'w::len word \<Rightarrow> 's \<Rightarrow> ('w word \<times> 's) option" where
  "bits_loop G shift 0 s g = Some (s, g)"
| "bits_loop G shift (Suc k) s g = do {
     (u, g) \<leftarrow> PowerOfTwoVariate G g;
     bits_loop G shift k (push_bit shift s + (ucast u AND MaskFromShift (of_nat shift))) g }"

definition generate_looping :: "('s, 'r::len word) urbg \<Rightarrow> 's \<Rightarrow> ('w::len word \<times> 's) option" where
  "generate_looping G g =
     (let W = LENGTH('w); U = NumBits G in do {
      (s, g) \<leftarrow> bits_loop G (kSmallWidth W U mod W) (kSmallIters W U) (0 :: 'w word) g;
      bits_loop G (kLargeWidth W U mod W) (kLargeIters W U) s g })"

definition kRangeMask :: "('s, 'r::len word) urbg \<Rightarrow> 'r word" where
  "kRangeMask G = (if RangeSize G = 0 then - 1 else PowerOfTwoSubRangeSize G - 1)"

definition fast_uniform_bits :: "('s, 'r::len word) urbg \<Rightarrow> 's \<Rightarrow> ('w::len word \<times> 's) option" where
  "fast_uniform_bits G g =
     (if uint (kRangeMask G) \<ge> uint (- 1 :: 'w word) then generate_masked G g
      else generate_looping G g)"

section \<open>The constants of a generator\<close>

lemma LargestPowerOfTwo_bounds:
  "1 \<le> unat n \<Longrightarrow> \<exists>k. unat (LargestPowerOfTwo n) = 2 ^ k \<and> 2 ^ k \<le> unat n \<and> unat n < 2 ^ (k + 1)"
proof (induction n rule: LargestPowerOfTwo.induct)
  case (1 n)
  show ?case
  proof (cases "unat n < 2")
    case True
    then show ?thesis using 1 by (intro exI [of _ 0]) (simp add: LargestPowerOfTwo.simps)
  next
    case False
    then have n: "2 \<le> unat n" by simp
    have "1 \<le> unat (n div 2)" using n by (simp only: unat_div_2 [OF n])
    then obtain k where k: "unat (LargestPowerOfTwo (n div 2)) = 2 ^ k"
      "2 ^ k \<le> unat n div 2" "unat n div 2 < 2 ^ (k + 1)"
      using "1.IH" [OF False] unat_div_2 [OF n] by auto
    have "2 * 2 ^ k \<le> unat n" "unat n < 2 * 2 ^ (k + 1)" using k(2,3) by linarith+
    moreover have "unat (2 * LargestPowerOfTwo (n div 2)) = 2 * 2 ^ k"
    proof -
      have "2 * 2 ^ k < (2::nat) ^ LENGTH('a)"
        using \<open>2 * 2 ^ k \<le> unat n\<close> unsigned_less [of n, where 'a = nat] by linarith
      then show ?thesis by (simp only: unat_word_ariths unat_2 [OF n] k(1) mod_less)
    qed
    ultimately show ?thesis using n by (intro exI [of _ "Suc k"]) (simp add: LargestPowerOfTwo.simps)
  qed
qed

lemma IntegerLog2_power: "unat n = 2 ^ k \<Longrightarrow> unat (IntegerLog2 n) = k"
proof (induction k arbitrary: n)
  case 0 then show ?case by (simp add: IntegerLog2.simps)
next
  case (Suc k)
  then have n: "2 \<le> unat n" by simp
  then have IH: "unat (IntegerLog2 (n div 2)) = k" using Suc by (simp add: unat_div_2)
  have "Suc k < 2 ^ Suc k" by (rule less_exp)
  also have "\<dots> < 2 ^ LENGTH('a)" using Suc.prems unsigned_less [of n, where 'a = nat] by simp
  finally have "unat (1 + IntegerLog2 (n div 2)) = Suc k" using IH by (simp add: unat_word_ariths)
  then show ?case using n by (subst IntegerLog2.simps) simp
qed

lemma nat_and_below:
  assumes "2 ^ k < (n::nat)" "n < 2 ^ (k + 1)" shows "n AND (n - 1) \<noteq> 0"
proof
  have "n div 2 ^ k = 1" "(n - 1) div 2 ^ k = 1" using assms by (auto intro!: div_nat_eqI)
  then have "bit n k" "bit (n - 1) k" by (simp_all add: bit_iff_odd)
  moreover assume "n AND (n - 1) = 0"
  ultimately show False by (metis bit_and_iff bit_0_eq bot_apply bot_bool_def)
qed

lemma LargestPowerOfTwo_power:
  assumes "n \<noteq> 0" "IsPowerOfTwoOrZero n" shows "LargestPowerOfTwo n = n"
proof -
  have n1: "1 \<le> unat n" using assms(1) by (simp add: Suc_leI unat_gt_0)
  then obtain k where k: "unat (LargestPowerOfTwo n) = 2 ^ k" "2 ^ k \<le> unat n" "unat n < 2 ^ (k + 1)"
    using LargestPowerOfTwo_bounds by blast
  have "n AND (n - 1) = 0" using assms by (simp add: IsPowerOfTwoOrZero_def)
  then have "unat (n AND (n - 1)) = 0" by simp
  then have "unat n AND unat (n - 1) = 0" by (simp only: unsigned_and_eq)
  moreover have "unat (n - 1) = unat n - 1" using assms(1) by (simp add: unat_minus_one)
  ultimately have "unat n = 2 ^ k" using nat_and_below [of k "unat n"] k by (metis le_neq_implies_less)
  then show ?thesis using k(1) by (simp add: word_unat_eq_iff)
qed

lemma rejection_variate_bound:
  "rejection_variate G g = Some p \<Longrightarrow> fst p < PowerOfTwoSubRangeSize G"
  by (rule rejection_variate.raw_induct [where P = "\<lambda>G g p. fst p < PowerOfTwoSubRangeSize G"])
    (auto simp: Let_def split_def split: if_splits)

section \<open>The contract of a generator\<close>

text \<open>The requirements of the standard: the bounds differ and every number is between them.\<close>

locale urbg =
  fixes G :: "('s, 'r::len word) urbg"
  assumes min_less_max: "urbg_min G < urbg_max G"
    and min_le: "urbg_min G \<le> fst (urbg_call G g)"
    and le_max: "fst (urbg_call G g) \<le> urbg_max G"
begin

lemma range_size: "RangeSize G \<noteq> 0 \<Longrightarrow> unat (RangeSize G) = unat (urbg_max G) - unat (urbg_min G) + 1"
proof -
  assume "RangeSize G \<noteq> 0"
  then have R: "RangeSize G = urbg_max G - urbg_min G + 1" "urbg_max G - urbg_min G \<noteq> - 1"
    by (auto simp: RangeSize_def split: if_splits)
  have "unat (urbg_max G - urbg_min G) = unat (urbg_max G) - unat (urbg_min G)"
    using min_less_max by (simp add: unat_sub less_imp_le)
  moreover have "unat (x + 1) = unat x + 1" if "x \<noteq> - 1" for x :: "'r word"
    using that by (metis Suc_eq_plus1 add.commute unatSuc add_eq_0_iff)
  ultimately show ?thesis using R by simp
qed

lemma sub_range:
  assumes "RangeSize G \<noteq> 0"
  shows "unat (PowerOfTwoSubRangeSize G) = 2 ^ NumBits G" "2 ^ NumBits G \<le> unat (RangeSize G)"
    "1 \<le> NumBits G" "NumBits G < LENGTH('r)"
proof -
  have two: "2 \<le> unat (RangeSize G)"
    using range_size [OF assms] min_less_max by (simp add: word_less_nat_alt)
  then obtain k where k: "unat (PowerOfTwoSubRangeSize G) = 2 ^ k" "2 ^ k \<le> unat (RangeSize G)"
    "unat (RangeSize G) < 2 ^ (k + 1)"
    using LargestPowerOfTwo_bounds [of "RangeSize G"] by (auto simp: PowerOfTwoSubRangeSize_def)
  have "NumBits G = k" using assms k(1) by (simp add: NumBits_def IntegerLog2_power)
  moreover have "k \<noteq> 0" using two k(3) by (intro notI) simp
  moreover have "(2::nat) ^ k < 2 ^ LENGTH('r)"
    using k(2) unsigned_less [of "RangeSize G", where 'a = nat] by linarith
  ultimately show "unat (PowerOfTwoSubRangeSize G) = 2 ^ NumBits G" "2 ^ NumBits G \<le> unat (RangeSize G)"
    "1 \<le> NumBits G" "NumBits G < LENGTH('r)"
    using k by simp_all
qed

lemma num_bits: "1 \<le> NumBits G" "NumBits G \<le> LENGTH('r)"
  using sub_range(3,4) by (cases "RangeSize G = 0"; simp add: NumBits_def less_imp_le Suc_leI)+

lemma range_mask: "unat (kRangeMask G) = 2 ^ NumBits G - 1"
proof (cases "RangeSize G = 0")
  case True
  then show ?thesis by (simp add: kRangeMask_def NumBits_def unsigned_minus_1_eq_mask mask_eq_exp_minus_1)
next
  case False
  then have "PowerOfTwoSubRangeSize G \<noteq> 0" using sub_range(1) by (metis power_not_zero unsigned_0 zero_neq_numeral)
  then show ?thesis using False sub_range(1) by (simp add: kRangeMask_def unat_minus_one)
qed

text \<open>Every variate has \<open>NumBits\<close> bits.\<close>

lemma variate_bound:
  assumes "PowerOfTwoVariate G g = Some (u, h)"
  shows "unat u < 2 ^ NumBits G"
proof (cases "RangeSize G = 0")
  case True
  then show ?thesis by (simp add: NumBits_def)
next
  case False
  show ?thesis
  proof (cases "IsPowerOfTwoOrZero (RangeSize G)")
    case True
    define x where "x = fst (urbg_call G g)"
    have "u = x - urbg_min G" using assms True by (simp add: PowerOfTwoVariate_def x_def split_def Let_def)
    then have "unat u = unat x - unat (urbg_min G)" using min_le by (simp add: unat_sub x_def)
    moreover have "unat x \<le> unat (urbg_max G)" using le_max by (simp add: x_def word_le_nat_alt [symmetric])
    moreover have "unat (RangeSize G) = 2 ^ NumBits G"
      using sub_range(1) [OF False] LargestPowerOfTwo_power [OF False True] by (simp add: PowerOfTwoSubRangeSize_def)
    ultimately show ?thesis using range_size [OF False] by linarith
  next
    case rejecting: False
    have "u < PowerOfTwoSubRangeSize G"
      using assms rejecting rejection_variate_bound [of G g "(u, h)"] by (simp add: PowerOfTwoVariate_def)
    then show ?thesis using sub_range(1) [OF False] by (simp add: word_less_nat_alt)
  qed
qed

end

section \<open>The value of the bits\<close>

text \<open>
  The variates that a call consumes, in order, and the specification: field \<open>i\<close> of the result,
  most significant first, is the low \<open>ws ! i\<close> bits of variate \<open>i\<close>.
\<close>

primrec variates :: "('s, 'r::len word) urbg \<Rightarrow> nat \<Rightarrow> 's \<Rightarrow> ('r word list \<times> 's) option" where
  "variates G 0 g = Some ([], g)"
| "variates G (Suc k) g = do {
     (u, g) \<leftarrow> PowerOfTwoVariate G g;
     (us, g) \<leftarrow> variates G k g;
     Some (u # us, g) }"

fun assemble :: "nat list \<Rightarrow> nat list \<Rightarrow> nat" where
  "assemble (w # ws) (u # us) = u mod 2 ^ w * 2 ^ sum_list ws + assemble ws us"
| "assemble _ _ = 0"

definition field_widths :: "nat \<Rightarrow> nat \<Rightarrow> nat list" where
  "field_widths W U =
     (if W \<le> U then [W]
      else replicate (kSmallIters W U) (kSmallWidth W U) @ replicate (kLargeIters W U) (kLargeWidth W U))"

lemma variates_length: "variates G k g = Some (us, h) \<Longrightarrow> length us = k"
  by (induction k arbitrary: g us h) (auto split: bind_splits)

lemma variates_append:
  "variates G (k + l) g =
     do { (us, g) \<leftarrow> variates G k g; (vs, g) \<leftarrow> variates G l g; Some (us @ vs, g) }"
proof (induction k arbitrary: g)
  case 0
  then show ?case by (cases "variates G l g") auto
next
  case (Suc k)
  then show ?case by (cases "PowerOfTwoVariate G g") (auto split: bind_splits)
qed

lemma bits_step:
  assumes "0 < shift" "shift < LENGTH('w)"
  shows "push_bit shift (of_nat n) + (ucast u AND MaskFromShift (of_nat shift))
    = (of_nat (n * 2 ^ shift + unat u mod 2 ^ shift) :: 'w::len word)"
proof -
  have "shift < 2 ^ LENGTH('w)" using assms(2) less_exp less_trans by blast
  then have s: "unat (of_nat shift :: 'w word) = shift" by (simp add: unsigned_of_nat take_bit_nat_eq_self)
  have "MaskFromShift (of_nat shift :: 'w word) = mask shift"
    using assms by (simp add: MaskFromShift_def s mask_eq_exp_minus_1 push_bit_eq_mult)
  then have "ucast u AND MaskFromShift (of_nat shift) = take_bit shift (ucast u :: 'w word)"
    by (simp add: take_bit_eq_mask)
  also have "ucast u = (of_nat (unat u) :: 'w word)" by simp
  also have "take_bit shift (of_nat (unat u)) = (of_nat (unat u mod 2 ^ shift) :: 'w word)"
    unfolding take_bit_of_nat by (simp only: take_bit_eq_mod)
  finally show ?thesis by (simp add: push_bit_eq_mult)
qed

lemma bits_loop_value:
  assumes "0 < shift" "shift < LENGTH('w)"
  shows "bits_loop G shift k (of_nat n :: 'w::len word) g
    = map_option (\<lambda>(us, h). (of_nat (n * 2 ^ (k * shift) + assemble (replicate k shift) (map unat us)), h))
        (variates G k g)"
proof (induction k arbitrary: n g)
  case (Suc k)
  show ?case
  proof (cases "PowerOfTwoVariate G g")
    case (Some p)
    obtain u h where p: "p = (u, h)" by (cases p)
    let ?n = "n * 2 ^ shift + unat u mod 2 ^ shift"
    have "bits_loop G shift (Suc k) (of_nat n :: 'w word) g = bits_loop G shift k (of_nat ?n) h"
      by (simp only: bits_loop.simps Some p bind.bind_lunit prod.case bits_step [OF assms])
    also have "\<dots> = map_option (\<lambda>(us, h). (of_nat (?n * 2 ^ (k * shift) + assemble (replicate k shift) (map unat us)), h))
        (variates G k h)"
      by (rule Suc.IH)
    finally have loop: "bits_loop G shift (Suc k) (of_nat n :: 'w word) g = \<dots>" .
    have value_eq: "?n * 2 ^ (k * shift) + assemble (replicate k shift) (map unat us)
        = n * 2 ^ (Suc k * shift) + assemble (replicate (Suc k) shift) (map unat (u # us))" for us
      by (simp add: sum_list_replicate power_add algebra_simps)
    show ?thesis
      unfolding loop value_eq by (cases "variates G k h") (auto simp: Some p simp del: of_nat_add of_nat_mult)
  qed simp
qed simp

text \<open>The widths: the static assertions of the code, for every type and every generator.\<close>

lemma widths_cases:
  "\<forall>U\<in>{1..<8}. P 8 U \<Longrightarrow> \<forall>U\<in>{1..<16}. P 16 U \<Longrightarrow> \<forall>U\<in>{1..<32}. P 32 U \<Longrightarrow> \<forall>U\<in>{1..<64}. P 64 U
   \<Longrightarrow> W \<in> {8, 16, 32, 64} \<Longrightarrow> 1 \<le> U \<Longrightarrow> U < W \<Longrightarrow> P W U"
  for W U :: nat
  by auto

definition static_asserts :: "nat \<Rightarrow> nat \<Rightarrow> bool" where
  "static_asserts W U \<longleftrightarrow>
     W = kSmallIters W U * kSmallWidth W U + kLargeIters W U * kLargeWidth W U
     \<and> kLargeWidth W U mod W = kSmallWidth W U mod W + 1
     \<and> 1 \<le> kSmallWidth W U \<and> kLargeWidth W U < W
     \<and> kSmallWidth W U \<le> U \<and> (kLargeIters W U \<noteq> 0 \<longrightarrow> kLargeWidth W U \<le> U)"

lemma static_asserts_hold:
  assumes "W \<in> {8, 16, 32, 64}" "1 \<le> U" "U < W"
  shows "static_asserts W U"
proof (rule widths_cases [OF _ _ _ _ assms])
  have "list_all (static_asserts 8) [1..<8]" by code_simp
  then show "\<forall>U\<in>{1..<8}. static_asserts 8 U" by (simp add: list_all_iff)
  have "list_all (static_asserts 16) [1..<16]" by code_simp
  then show "\<forall>U\<in>{1..<16}. static_asserts 16 U" by (simp add: list_all_iff)
  have "list_all (static_asserts 32) [1..<32]" by code_simp
  then show "\<forall>U\<in>{1..<32}. static_asserts 32 U" by (simp add: list_all_iff)
  have "list_all (static_asserts 64) [1..<64]" by code_simp
  then show "\<forall>U\<in>{1..<64}. static_asserts 64 U" by (simp add: list_all_iff)
qed

lemma field_widths:
  assumes "W \<in> {8, 16, 32, 64}" "1 \<le> U"
  shows "sum_list (field_widths W U) = W" "\<forall>w\<in>set (field_widths W U). w \<le> U"
  using static_asserts_hold [of W U] assms
  by (auto simp: field_widths_def static_asserts_def sum_list_replicate not_le)

lemma assemble_append:
  "length us = length ws \<Longrightarrow>
   assemble (ws @ vs) (us @ xs) = assemble ws us * 2 ^ sum_list vs + assemble vs xs"
  by (induction ws us rule: assemble.induct) (auto simp: algebra_simps power_add)

lemma generate_looping_value:
  fixes G :: "('s, 'r::len word) urbg" and g :: 's
  defines "ws \<equiv> field_widths LENGTH('w) (NumBits G)"
  assumes W: "LENGTH('w) \<in> {8, 16, 32, 64}" and U: "1 \<le> NumBits G" "NumBits G < LENGTH('w)"
  shows "generate_looping G g =
    map_option (\<lambda>(us, h). (of_nat (assemble ws (map unat us)) :: 'w::len word, h)) (variates G (length ws) g)"
proof -
  let ?W = "LENGTH('w)" and ?U = "NumBits G"
  have small: "0 < kSmallWidth ?W ?U" "kSmallWidth ?W ?U < ?W" "0 < kLargeWidth ?W ?U" "kLargeWidth ?W ?U < ?W"
    using static_asserts_hold [OF W U] by (auto simp: static_asserts_def kLargeWidth_def)
  have ws: "ws = replicate (kSmallIters ?W ?U) (kSmallWidth ?W ?U) @ replicate (kLargeIters ?W ?U) (kLargeWidth ?W ?U)"
    using U by (simp add: ws_def field_widths_def)
  have first: "bits_loop G (kSmallWidth ?W ?U) (kSmallIters ?W ?U) (0 :: 'w word) g
      = map_option (\<lambda>(us, h). (of_nat (assemble (replicate (kSmallIters ?W ?U) (kSmallWidth ?W ?U)) (map unat us)), h))
          (variates G (kSmallIters ?W ?U) g)"
    using bits_loop_value [OF small(1,2), of G "kSmallIters ?W ?U" 0 g] by (simp only: semiring_1_class.of_nat_simps(1) mult_0 add_0)
  note unfold = generate_looping_def Let_def mod_less [OF small(2)] mod_less [OF small(4)] first
    ws length_append length_replicate variates_append
  show ?thesis
  proof (cases "variates G (kSmallIters ?W ?U) g")
    case None
    then show ?thesis by (simp only: unfold option.map bind.bind_lzero)
  next
    case (Some p)
    obtain us h where p: "p = (us, h)" by (cases p)
    have len: "length (map unat us) = length (replicate (kSmallIters ?W ?U) (kSmallWidth ?W ?U))"
      using variates_length [of G _ g us h] Some p by simp
    show ?thesis
    proof (cases "variates G (kLargeIters ?W ?U) h")
      case None
      then show ?thesis
        by (simp only: unfold Some p bits_loop_value [OF small(3,4)] option.map bind.bind_lunit bind.bind_lzero prod.case)
    next
      case second: (Some q)
      obtain vs h' where q: "q = (vs, h')" by (cases q)
      show ?thesis
        by (simp only: unfold Some p second q bits_loop_value [OF small(3,4)] option.map bind.bind_lunit prod.case
            map_append assemble_append [OF len] sum_list_replicate of_nat_id)
    qed
  qed
qed

lemma card_low_bits:
  assumes "w \<le> U" "a < 2 ^ w"
  shows "card {u. u < 2 ^ U \<and> u mod 2 ^ w = (a::nat)} = 2 ^ (U - w)"
proof -
  have U: "(2::nat) ^ U = 2 ^ (U - w) * 2 ^ w" using assms(1) by (simp flip: power_add)
  have "{u. u < 2 ^ U \<and> u mod 2 ^ w = a} = (\<lambda>k. k * 2 ^ w + a) ` {..<2 ^ (U - w)}"
  proof (intro equalityI subsetI)
    fix u assume u: "u \<in> {u. u < 2 ^ U \<and> u mod 2 ^ w = a}"
    then have "u = u div 2 ^ w * 2 ^ w + a" using div_mult_mod_eq [of u "2 ^ w"] by simp
    moreover have "u div 2 ^ w < 2 ^ (U - w)" using u by (simp add: U less_mult_imp_div_less)
    ultimately show "u \<in> (\<lambda>k. k * 2 ^ w + a) ` {..<2 ^ (U - w)}" by blast
  next
    fix u assume "u \<in> (\<lambda>k. k * 2 ^ w + a) ` {..<2 ^ (U - w)}"
    then obtain k where k: "u = k * 2 ^ w + a" "k < 2 ^ (U - w)" by auto
    have "(k + 1) * 2 ^ w \<le> 2 ^ U" unfolding U using k(2) by (intro mult_right_mono) simp_all
    then show "u \<in> {u. u < 2 ^ U \<and> u mod 2 ^ w = a}" using k assms(2) by simp
  qed
  then show ?thesis by (simp add: card_image inj_on_def)
qed

lemma card_assemble:
  assumes "\<forall>w\<in>set ws. w \<le> U" "r < 2 ^ sum_list ws"
  shows "card {us. length us = length ws \<and> (\<forall>u\<in>set us. u < 2 ^ U) \<and> assemble ws us = r}
    = 2 ^ (U * length ws - sum_list ws)"
  using assms
proof (induction ws arbitrary: r)
  case Nil
  then have "{us. length us = length [] \<and> (\<forall>u\<in>set us. u < 2 ^ U) \<and> assemble [] us = r} = {[]}" by auto
  then show ?case by simp
next
  case (Cons w ws)
  let ?S = "sum_list ws"
  define a b where "a = r div 2 ^ ?S" and "b = r mod 2 ^ ?S"
  have a: "a < 2 ^ w" using Cons.prems(2) by (simp add: a_def power_add less_mult_imp_div_less)
  have b: "b < 2 ^ ?S" by (simp add: b_def)
  have bound: "assemble ws us < 2 ^ sum_list ws" if "length us = length ws" for us
    using that
  proof (induction ws us rule: assemble.induct)
    case (1 w ws u us)
    have "(u mod 2 ^ w + 1) * 2 ^ sum_list ws \<le> 2 ^ w * 2 ^ sum_list ws"
      by (intro mult_right_mono) (simp_all add: Suc_leI)
    then show ?case using 1 by (simp add: power_add algebra_simps)
  qed auto
  have member: "assemble (w # ws) (u # us) = r \<longleftrightarrow> u mod 2 ^ w = a \<and> assemble ws us = b"
    if "length us = length ws" for u us
    using bound [OF that] by (auto simp: a_def b_def div_mult_mod_eq)
  have "{us. length us = length (w # ws) \<and> (\<forall>u\<in>set us. u < 2 ^ U) \<and> assemble (w # ws) us = r}
      = (\<lambda>(u, us). u # us) ` ({u. u < 2 ^ U \<and> u mod 2 ^ w = a}
          \<times> {us. length us = length ws \<and> (\<forall>u\<in>set us. u < 2 ^ U) \<and> assemble ws us = b})"
  proof (intro set_eqI)
    fix vs
    show "vs \<in> {us. length us = length (w # ws) \<and> (\<forall>u\<in>set us. u < 2 ^ U) \<and> assemble (w # ws) us = r}
        \<longleftrightarrow> vs \<in> (\<lambda>(u, us). u # us) ` ({u. u < 2 ^ U \<and> u mod 2 ^ w = a}
          \<times> {us. length us = length ws \<and> (\<forall>u\<in>set us. u < 2 ^ U) \<and> assemble ws us = b})"
    proof (cases vs)
      case (Cons u us)
      then show ?thesis using member [of us u] by (auto simp del: assemble.simps(1))
    qed auto
  qed
  moreover have "inj_on (\<lambda>(u, us). u # us) X" for X :: "(nat \<times> nat list) set"
    by (auto simp: inj_on_def)
  moreover have "?S \<le> U * length ws"
    using Cons.prems(1) sum_list_mono [of ws id "\<lambda>_. U"] by (simp add: sum_list_triv mult.commute)
  ultimately show ?case
    using Cons.IH [OF _ b] Cons.prems(1) card_low_bits [OF _ a, of U]
    by (simp add: card_image card_cartesian_product algebra_simps flip: power_add)
qed

lemma of_nat_low: "(of_nat (unat u mod 2 ^ LENGTH('w)) :: 'w::len word) = ucast u"
proof -
  have "(of_nat (unat u mod 2 ^ LENGTH('w)) :: 'w word) = of_nat (unat u)"
    by (simp only: word_of_nat_eq_iff take_bit_eq_mod mod_mod_trivial)
  then show ?thesis by simp
qed

text \<open>What a call computes, for a generator that keeps its contract.\<close>

lemma variates_1: "variates G 1 g = map_option (\<lambda>(u, h). ([u], h)) (PowerOfTwoVariate G g)"
  by (cases "PowerOfTwoVariate G g") auto

context urbg
begin

lemma fast_uniform_bits_value:
  fixes g :: 's
  defines "ws \<equiv> field_widths LENGTH('w) (NumBits G)"
  assumes W: "LENGTH('w) \<in> {8, 16, 32, 64}"
  shows "fast_uniform_bits G g =
    map_option (\<lambda>(us, h). (of_nat (assemble ws (map unat us)) :: 'w::len word, h)) (variates G (length ws) g)"
proof -
  have test: "uint (kRangeMask G) \<ge> uint (- 1 :: 'w word) \<longleftrightarrow> LENGTH('w) \<le> NumBits G"
  proof -
    have "uint (kRangeMask G) \<ge> uint (- 1 :: 'w word) \<longleftrightarrow> unat (- 1 :: 'w word) \<le> unat (kRangeMask G)"
      by (simp flip: of_nat_le_iff [where 'a = int])
    also have "\<dots> \<longleftrightarrow> (2::nat) ^ LENGTH('w) \<le> 2 ^ NumBits G"
      by (simp add: range_mask unsigned_minus_1_eq_mask mask_eq_exp_minus_1 le_diff_conv2)
    finally show ?thesis by simp
  qed
  show ?thesis
  proof (cases "LENGTH('w) \<le> NumBits G")
    case True
    have ws: "ws = [LENGTH('w)]" using True by (simp add: ws_def field_widths_def)
    have "fast_uniform_bits G g = (generate_masked G g :: ('w word \<times> 's) option)"
      using True test by (simp add: fast_uniform_bits_def)
    moreover have "variates G (length ws) g = map_option (\<lambda>(u, h). ([u], h)) (PowerOfTwoVariate G g)"
      unfolding ws using variates_1 [of G g] by simp
    ultimately show ?thesis
      by (cases "PowerOfTwoVariate G g") (auto simp: generate_masked_def ws of_nat_low)
  next
    case False
    then show ?thesis
      using generate_looping_value [OF W num_bits(1), of g] by (simp add: fast_uniform_bits_def test ws_def not_le)
  qed
qed

lemma variates_bound: "variates G k g = Some (us, h) \<Longrightarrow> u \<in> set us \<Longrightarrow> unat u < 2 ^ NumBits G"
proof (induction k arbitrary: g us h)
  case (Suc k)
  obtain v h' vs where "PowerOfTwoVariate G g = Some (v, h')" "variates G k h' = Some (vs, h)" "us = v # vs"
    using Suc.prems(1) by (auto split: bind_splits)
  then show ?case using Suc.IH [of h' vs h] Suc.prems(2) variate_bound [of g v h'] by auto
qed simp

end

section \<open>Generators that come back to every number\<close>

definition urbg_next :: "('s, 'r) urbg \<Rightarrow> 's \<Rightarrow> 's" where
  "urbg_next G g = snd (urbg_call G g)"

locale recurrent_urbg = urbg G for G :: "('s, 'r::len word) urbg" +
  assumes recurs: "urbg_min G \<le> v \<Longrightarrow> v \<le> urbg_max G \<Longrightarrow> \<exists>n. fst (urbg_call G ((urbg_next G ^^ n) g)) = v"
begin

lemma rejection_variate_returns: "RangeSize G \<noteq> 0 \<Longrightarrow> \<exists>p. rejection_variate G g = Some p"
proof -
  assume R: "RangeSize G \<noteq> 0"
  then have pos: "0 < PowerOfTwoSubRangeSize G"
    using sub_range(1) by (simp add: word_less_nat_alt)
  have "fst (urbg_call G ((urbg_next G ^^ n) g)) = urbg_min G \<Longrightarrow> \<exists>p. rejection_variate G g = Some p" for n g
  proof (induction n arbitrary: g)
    case 0
    then show ?case using pos by (subst rejection_variate.simps) (auto simp: Let_def split_def)
  next
    case (Suc n)
    then have "\<exists>p. rejection_variate G (urbg_next G g) = Some p" by (simp add: funpow_swap1)
    then show ?case by (subst rejection_variate.simps) (auto simp: Let_def split_def urbg_next_def)
  qed
  then show ?thesis using recurs [of "urbg_min G" g] min_less_max by (auto simp: less_imp_le)
qed

lemma variate_returns: "\<exists>u h. PowerOfTwoVariate G g = Some (u, h)"
proof (cases "RangeSize G = 0")
  case False
  then show ?thesis using rejection_variate_returns [of g] by (auto simp: PowerOfTwoVariate_def split_def Let_def)
qed (simp add: PowerOfTwoVariate_def IsPowerOfTwoOrZero_def split_def Let_def)

lemma variates_return: "\<exists>us h. variates G k g = Some (us, h)"
proof (induction k arbitrary: g)
  case (Suc k)
  obtain u h where "PowerOfTwoVariate G g = Some (u, h)" using variate_returns by blast
  moreover obtain us h' where "variates G k h = Some (us, h')" using Suc by blast
  ultimately show ?case by simp
qed simp

end

text \<open>The numbers that a source of bits will draw from a state on.\<close>

inductive drawn :: "('s \<Rightarrow> ('u \<times> 's) option) \<Rightarrow> 's \<Rightarrow> 'u \<Rightarrow> bool" for bits where
  now: "bits g = Some (u, h) \<Longrightarrow> drawn bits g u"
| later: "bits g = Some (v, h) \<Longrightarrow> drawn bits h u \<Longrightarrow> drawn bits g u"

context recurrent_urbg
begin

lemma fast_uniform_bits_returns:
  assumes "LENGTH('w) \<in> {8, 16, 32, 64}"
  shows "\<exists>u h. (fast_uniform_bits G g :: ('w::len word \<times> 's) option) = Some (u, h)"
  using variates_return [of "length (field_widths LENGTH('w) (NumBits G))" g]
  by (auto simp: fast_uniform_bits_value [OF assms])

lemma ones_drawn:
  assumes W: "LENGTH('w) \<in> {8, 16, 32, 64}" "LENGTH('w) \<le> NumBits G"
    and power: "IsPowerOfTwoOrZero (RangeSize G)"
  shows "drawn (fast_uniform_bits G :: 's \<Rightarrow> ('w::len word \<times> 's) option) g (- 1)"
proof -
  let ?bits = "fast_uniform_bits G :: 's \<Rightarrow> ('w word \<times> 's) option"
  have bits: "?bits g = Some (ucast (fst (urbg_call G g) - urbg_min G), urbg_next G g)" for g
  proof -
    have ws: "field_widths LENGTH('w) (NumBits G) = [LENGTH('w)]" using W(2) by (simp add: field_widths_def)
    show ?thesis
      using power by (simp add: fast_uniform_bits_value [OF W(1)] ws of_nat_low PowerOfTwoVariate_def
          split_def Let_def urbg_next_def)
  qed
  have max: "ucast (urbg_max G - urbg_min G) = (- 1 :: 'w word)"
  proof -
    have "urbg_max G - urbg_min G = kRangeMask G"
    proof (cases "RangeSize G = 0")
      case False
      then have "RangeSize G = urbg_max G - urbg_min G + 1" by (auto simp: RangeSize_def split: if_splits)
      then show ?thesis
        using False LargestPowerOfTwo_power [OF False power] by (simp add: kRangeMask_def PowerOfTwoSubRangeSize_def)
    next
      case True
      then have "urbg_max G - urbg_min G = - 1 \<or> urbg_max G - urbg_min G + 1 = 0"
        by (auto simp: RangeSize_def split: if_splits)
      then have "urbg_max G - urbg_min G = - 1" by (simp only: eq_neg_iff_add_eq_0 disj_absorb)
      then show ?thesis using True by (simp add: kRangeMask_def)
    qed
    then have "unat (urbg_max G - urbg_min G) = 2 ^ NumBits G - 1" using range_mask by simp
    then have "ucast (urbg_max G - urbg_min G) = (of_nat (2 ^ NumBits G - 1) :: 'w word)"
      by (metis of_nat_unat)
    also have "\<dots> = of_nat (2 ^ NumBits G) - 1" by (simp add: of_nat_diff)
    also have "(of_nat (2 ^ NumBits G) :: 'w word) = 0"
      using W(2) by (simp only: word_of_nat_eq_0_iff le_imp_power_dvd)
    finally show ?thesis by simp
  qed
  have "fst (urbg_call G ((urbg_next G ^^ n) g)) = urbg_max G \<Longrightarrow> drawn ?bits g (- 1)" for n g
  proof (induction n arbitrary: g)
    case 0
    then show ?case using bits [of g] max by (intro drawn.now) simp
  next
    case (Suc n)
    then have "drawn ?bits (urbg_next G g) (- 1)" by (simp add: funpow_swap1)
    with bits [of g] show ?case by (rule drawn.later)
  qed
  then show ?thesis using recurs [of "urbg_max G" g] min_less_max by (auto simp: less_imp_le)
qed

end

text \<open>
  C23. \<open>FastUniformBits\<close> on a generator with the laws of the standard, whatever its range, for each
  of the four result widths: the result is made of fields, most significant first, field \<open>i\<close> being
  the low bits of the \<open>i\<close>-th variate; every variate has \<open>NumBits\<close> bits; and every result
  comes from the same number of variate vectors, so uniform variates give uniform bits.
\<close>

theorem fast_uniform_bits_uniform:
  fixes G :: "('s, 'r::len word) urbg" and g :: 's
  assumes "urbg_min G < urbg_max G"
    and "\<And>g. urbg_min G \<le> fst (urbg_call G g)" "\<And>g. fst (urbg_call G g) \<le> urbg_max G"
    and W: "LENGTH('w::len) \<in> {8, 16, 32, 64}"
  shows "fast_uniform_bits G g =
      (let ws = field_widths LENGTH('w) (NumBits G)
       in map_option (\<lambda>(us, h). (of_nat (assemble ws (map unat us)) :: 'w word, h)) (variates G (length ws) g))
    \<and> (\<forall>k us h. variates G k g = Some (us, h) \<longrightarrow> (\<forall>u\<in>set us. unat u < 2 ^ NumBits G))
    \<and> (\<forall>r<2 ^ LENGTH('w). let U = NumBits G; ws = field_widths LENGTH('w) U in
        card {us. length us = length ws \<and> (\<forall>u\<in>set us. u < 2 ^ U) \<and> assemble ws us = r}
          = 2 ^ (U * length ws - LENGTH('w)))"
proof (intro conjI)
  have G: "urbg G" using assms(1-3) by (rule urbg.intro)
  show "fast_uniform_bits G g =
      (let ws = field_widths LENGTH('w) (NumBits G)
       in map_option (\<lambda>(us, h). (of_nat (assemble ws (map unat us)) :: 'w word, h)) (variates G (length ws) g))"
    unfolding Let_def by (rule urbg.fast_uniform_bits_value [OF G W])
  show "\<forall>k us h. variates G k g = Some (us, h) \<longrightarrow> (\<forall>u\<in>set us. unat u < 2 ^ NumBits G)"
    using urbg.variates_bound [OF G] by blast
  have "1 \<le> NumBits G" by (rule urbg.num_bits [OF G])
  then show "\<forall>r<2 ^ LENGTH('w). let U = NumBits G; ws = field_widths LENGTH('w) U in
      card {us. length us = length ws \<and> (\<forall>u\<in>set us. u < 2 ^ U) \<and> assemble ws us = r}
        = 2 ^ (U * length ws - LENGTH('w))"
    using field_widths [OF W, of "NumBits G"] card_assemble by (auto simp: Let_def)
qed

text \<open>A generator that alternates between 3 and 7; its range has length 5, so 2 bits are used.\<close>

definition alternating :: "(bool, 8 word) urbg" where
  "alternating = \<lparr> urbg_call = (\<lambda>b. (if b then 7 else 3, \<not> b)), urbg_min = 3, urbg_max = 7 \<rparr>"

lemma fast_uniform_bits_uniform_witness:
  "fast_uniform_bits alternating True =
      (let ws = field_widths LENGTH(8) (NumBits alternating)
       in map_option (\<lambda>(us, h). (of_nat (assemble ws (map unat us)) :: 8 word, h)) (variates alternating (length ws) True))"
  by (rule fast_uniform_bits_uniform [THEN conjunct1]) (auto simp: alternating_def)

end
