(* ===== verification/Pcg_Engine.thy ===== *)
theory Pcg_Engine
  imports Bit_Math Int128 Uniform_Bits
begin

text \<open>
  \<open>abel/random/internal/pcg_engine.h\<close> and the rotations of \<open>fastmath.h\<close>: the permuted
  congruential generators \<open>pcg64_2018_engine\<close> and \<open>pcg32_2018_engine\<close>. The state of an engine is
  the single word that the source calls \<open>state_\<close>; \<open>__uint128_t\<close> is the type \<open>128 word\<close>. The seek of \<open>discard\<close> is shown
  to be repeated stepping, both engines to have full period, and over a period every output to
  appear equally often. The stream operators are not modelled.
\<close>

section \<open>The engine\<close>

text \<open>\<open>Params\<close>: what \<open>pcg128_params\<close> and \<open>pcg64_params\<close> provide.\<close>

record 'w pcg_params =
  multiplier :: 'w
  increment :: 'w

definition lcg :: "'w::len word pcg_params \<Rightarrow> 'w word \<Rightarrow> 'w word" where
  "lcg P s = s * multiplier P + increment P"

text \<open>
  The loop of \<open>advance\<close> on its variables \<open>m\<close>, \<open>i\<close>, \<open>mult\<close>, \<open>inc\<close>, \<open>n\<close>; the result is the final
  \<open>m\<close> and \<open>i\<close>.
\<close>

lemma unat_half: "unat (drop_bit 1 n :: u64) = unat n div 2"
proof -
  have "unat n < 2 ^ 64" using unsigned_less [of n, where 'a = nat] by simp
  then show ?thesis
    unfolding unsigned_drop_bit_eq by (simp add: drop_bit_eq_div take_bit_nat_eq_self del: drop_bit_Suc)
qed

function advance_loop ::
    "'w::len word \<Rightarrow> 'w word \<Rightarrow> 'w word \<Rightarrow> 'w word \<Rightarrow> u64 \<Rightarrow> 'w word \<times> 'w word" where
  "advance_loop m i mult inc n =
     (if n > 0 then
        let (m, i) = if n AND 1 \<noteq> 0 then (m * mult, i * mult + inc) else (m, i)
        in advance_loop m i (mult * mult) ((mult + 1) * inc) (drop_bit 1 n)
      else (m, i))"
  by auto
termination
  by (relation "measure (\<lambda>(m, i, mult, inc, n). unat n)")
    (auto simp: unat_half word_less_nat_alt simp del: One_nat_def)

declare advance_loop.simps [simp del]

definition advance :: "'w::len word pcg_params \<Rightarrow> 'w word \<Rightarrow> u64 \<Rightarrow> 'w word" where
  "advance P s n = (let (m, i) = advance_loop 1 0 (multiplier P) (increment P) n in m * s + i)"

text \<open>
  \<open>seed\<close> with an integer, \<open>reseed\<close> with the numbers that the seed sequence generates (of a type of
  \<open>LENGTH('q)\<close> bits; the sequence is a parameter with a state of its own), \<open>discard\<close>, and
  \<open>operator()\<close> with the output and the new state.
\<close>

definition seed :: "'w::len word pcg_params \<Rightarrow> u64 \<Rightarrow> 'w word" where
  "seed P seed_value = (let tmp = ucast seed_value in lcg P (tmp + increment P))"

definition pack_buffer :: "'q::len word list \<Rightarrow> 'w::len word" where
  "pack_buffer buffer =
     fold (\<lambda>b tmp. push_bit LENGTH('q) tmp OR ucast b) (tl buffer) (ucast (buffer ! 0))"

definition reseed ::
    "'w::len word pcg_params \<Rightarrow> ('s \<Rightarrow> nat \<Rightarrow> 'q::len word list \<times> 's) \<Rightarrow> 's \<Rightarrow> 'w word \<times> 's" where
  "reseed P generate seq =
     (let kBufferSize = LENGTH('w) div LENGTH('q);
          (buffer, seq) = generate seq kBufferSize;
          tmp = pack_buffer buffer
      in (lcg P (tmp + increment P), seq))"

definition discard :: "'w::len word pcg_params \<Rightarrow> 'w word \<Rightarrow> u64 \<Rightarrow> 'w word" where
  "discard P state count = advance P state count"

definition pcg_next :: "'w::len word pcg_params \<Rightarrow> ('w word \<Rightarrow> 'r::len word) \<Rightarrow> 'w word \<Rightarrow> 'r word \<times> 'w word" where
  "pcg_next P mix state = (let state = lcg P state in (mix state, state))"

section \<open>Output mixing\<close>

text \<open>The rotations: \<open>bits\<close> is promoted to \<open>int\<close> before it is negated and masked.\<close>

definition rotr32 :: "u32 \<Rightarrow> u8 \<Rightarrow> u32" where
  "rotr32 value bits =
     drop_bit (nat (uint bits AND 31)) value OR push_bit (nat ((- uint bits) AND 31)) value"

definition rotr64 :: "u64 \<Rightarrow> u8 \<Rightarrow> u64" where
  "rotr64 value bits =
     drop_bit (nat (uint bits AND 63)) value OR push_bit (nat ((- uint bits) AND 63)) value"

definition pcg_xsl_rr_128_64 :: "128 word \<Rightarrow> u64" where
  "pcg_xsl_rr_128_64 state =
     (let rotate = ucast (drop_bit 122 state) :: u64;
          state = state XOR drop_bit 64 state;
          s = ucast state :: u64
      in rotr64 s (ucast rotate))"

text \<open>The same function without the compiler's 128-bit type, on \<open>abel::uint128\<close>.\<close>

definition pcg_xsl_rr_uint128 :: "uint128 \<Rightarrow> u64" where
  "pcg_xsl_rr_uint128 state =
     (let h = Uint128High64 state;
          rotate = drop_bit 58 h;
          s = Uint128Low64 state XOR h
      in rotr64 s (ucast rotate))"

definition pcg_xsh_rr_64_32 :: "u64 \<Rightarrow> u32" where
  "pcg_xsh_rr_64_32 state =
     rotr32 (ucast (drop_bit 27 (drop_bit 18 state XOR state))) (ucast (drop_bit 59 state))"

section \<open>The stable engines\<close>

definition make_u128 :: "u64 \<Rightarrow> u64 \<Rightarrow> 128 word" where
  "make_u128 a b = push_bit 64 (ucast a) OR ucast b"

definition pcg128_params :: "u64 \<Rightarrow> u64 \<Rightarrow> u64 \<Rightarrow> u64 \<Rightarrow> 128 word pcg_params" where
  "pcg128_params kMultA kMultB kIncA kIncB =
     \<lparr> multiplier = make_u128 kMultA kMultB, increment = make_u128 kIncA kIncB \<rparr>"

definition pcg64_params :: "u64 \<Rightarrow> u64 \<Rightarrow> 64 word pcg_params" where
  "pcg64_params kMult kInc = \<lparr> multiplier = kMult, increment = kInc \<rparr>"

definition pcg64_2018_params :: "128 word pcg_params" where
  "pcg64_2018_params =
     pcg128_params 0x2360ed051fc65da4 0x4385df649fccf645 0x5851f42d4c957f2d 0x14057b7ef767814f"

definition pcg32_2018_params :: "64 word pcg_params" where
  "pcg32_2018_params = pcg64_params 0x5851f42d4c957f2d 0x14057b7ef767814f"

definition pcg64_2018 :: "128 word \<Rightarrow> u64 \<times> 128 word" where
  "pcg64_2018 = pcg_next pcg64_2018_params pcg_xsl_rr_128_64"

definition pcg32_2018 :: "u64 \<Rightarrow> u32 \<times> u64" where
  "pcg32_2018 = pcg_next pcg32_2018_params pcg_xsh_rr_64_32"

section \<open>Seeking\<close>

lemma funpow_half:
  "(f ^^ n) x = ((\<lambda>y. f (f y)) ^^ (n div 2)) ((if odd n then f else (\<lambda>y. y)) x)"
proof -
  have pair: "((\<lambda>y. f (f y)) ^^ m) y = (f ^^ (2 * m)) y" for m y
    by (induction m arbitrary: y) (simp_all add: funpow_swap1)
  show ?thesis
  proof (cases "odd n")
    case True
    then have "n = Suc (2 * (n div 2))" by presburger
    then have "(f ^^ n) x = (f ^^ Suc (2 * (n div 2))) x" by (rule arg_cong)
    then show ?thesis using True by (simp only: pair funpow_Suc_right o_apply if_True simp_thms)
  qed (simp add: pair)
qed

lemma and_1_odd: "(n AND 1 \<noteq> 0) = odd (unat (n :: u64))"
proof -
  have "unat (n AND 1) = unat n mod 2" by (subst unsigned_and_eq) (simp add: and_one_eq)
  moreover have "n AND 1 \<noteq> 0 \<longleftrightarrow> unat (n AND 1) \<noteq> 0" by (simp only: unsigned_eq_0_iff)
  ultimately show ?thesis by (simp add: odd_iff_mod_2_eq_one)
qed

lemma advance_loop_iterates:
  "(case advance_loop m i mult inc n of (m, i) \<Rightarrow> m * s + i)
   = ((\<lambda>x. x * mult + inc) ^^ unat n) (m * s + i)"
proof (induction m i mult inc n rule: advance_loop.induct)
  case (1 m i mult inc n)
  let ?f = "\<lambda>x. x * mult + inc"
  show ?case
  proof (cases "n > 0")
    case True
    define m' i' where "m' = (if n AND 1 \<noteq> 0 then m * mult else m)"
      and "i' = (if n AND 1 \<noteq> 0 then i * mult + inc else i)"
    have pair: "(if n AND 1 \<noteq> 0 then (m * mult, i * mult + inc) else (m, i)) = (m', i')"
      by (simp add: m'_def i'_def)
    have step: "m' * s + i' = (if odd (unat n) then ?f else (\<lambda>y. y)) (m * s + i)"
      unfolding m'_def i'_def and_1_odd by (simp add: algebra_simps)
    have sq: "(\<lambda>x. x * (mult * mult) + (mult + 1) * inc) = (\<lambda>x. ?f (?f x))"
      by (auto simp: algebra_simps)
    have "(case advance_loop m i mult inc n of (m, i) \<Rightarrow> m * s + i)
        = (case advance_loop m' i' (mult * mult) ((mult + 1) * inc) (drop_bit 1 n) of (m, i) \<Rightarrow> m * s + i)"
      using True by (subst advance_loop.simps) (simp add: pair Let_def)
    also have "\<dots> = ((\<lambda>x. x * (mult * mult) + (mult + 1) * inc) ^^ (unat n div 2)) (m' * s + i')"
      using 1 [OF True refl pair [symmetric]] by (simp only: unat_half)
    also have "\<dots> = (?f ^^ unat n) (m * s + i)"
      unfolding sq step by (rule funpow_half [symmetric])
    finally show ?thesis .
  next
    case False
    then have "n = 0" by (simp add: word_gt_0)
    then show ?thesis by (subst advance_loop.simps) simp
  qed
qed

lemma advance_eq: "advance P s n = (lcg P ^^ unat n) s"
proof -
  have "lcg P = (\<lambda>x. x * multiplier P + increment P)" by (auto simp: lcg_def)
  then show ?thesis
    using advance_loop_iterates [where m = 1 and i = 0 and mult = "multiplier P"
        and inc = "increment P" and n = n and s = s]
    by (simp add: advance_def split_def Let_def)
qed

section \<open>The period of the generator\<close>

text \<open>
  The multiplier leaves remainder 1 modulo 4 and the increment is odd. Then the orbit of every
  state passes through all states.
\<close>

definition full_period :: "'w::len word pcg_params \<Rightarrow> bool" where
  "full_period P \<longleftrightarrow> unat (multiplier P) mod 4 = 1 \<and> odd (unat (increment P))"

lemma geometric_double: "(\<Sum>i<2 * m. a ^ i) = (\<Sum>i<m. a ^ i) * (1 + a ^ m)" for a :: nat
proof -
  have "(\<Sum>i<m + m. a ^ i) = (\<Sum>i<m. a ^ i) + (\<Sum>i<m. a ^ (m + i))"
    by (simp add: sum.nat_group lessThan_atLeast0 sum.atLeastLessThan_concat [of 0 m "m + m", symmetric]
        sum.shift_bounds_nat_ivl [of _ 0 m m, simplified] add.commute)
  moreover have "(\<Sum>i<m. a ^ (m + i)) = (\<Sum>i<m. a ^ i) * a ^ m"
    unfolding sum_distrib_right by (simp add: power_add mult.commute)
  ultimately show ?thesis by (simp only: mult_2 distrib_left mult_1_right)
qed

lemma geometric_odd:
  fixes a :: nat assumes "odd a" shows "odd (\<Sum>i<n. a ^ i) = odd n"
  using assms by (induction n) auto

lemma pow2_dvd_geometric:
  fixes a :: nat assumes a: "a mod 4 = 1"
  shows "2 ^ w dvd (\<Sum>i<n. a ^ i) \<longleftrightarrow> 2 ^ w dvd n"
proof (induction w arbitrary: n)
  case (Suc w)
  have odd: "odd a" using a by presburger
  show ?case
  proof (cases "odd n")
    case True
    have "\<not> 2 ^ Suc w dvd k" if "odd k" for k :: nat
      using that by (metis dvd_trans dvd_triv_left power_Suc)
    then show ?thesis using True geometric_odd [OF odd, of n] by blast
  next
    case False
    then obtain m where n: "n = 2 * m" by blast
    have "a ^ m mod 4 = 1" using a power_mod [of a 4 m] by simp
    moreover define q where "q = (1 + a ^ m) div 2"
    ultimately have q: "1 + a ^ m = 2 * q" "odd q" by presburger+
    have "(\<Sum>i<n. a ^ i) = 2 * ((\<Sum>i<m. a ^ i) * q)"
      by (simp only: n geometric_double q(1) mult.left_commute)
    then have "2 ^ Suc w dvd (\<Sum>i<n. a ^ i) \<longleftrightarrow> 2 ^ w dvd (\<Sum>i<m. a ^ i) * q"
      by simp
    also have "\<dots> \<longleftrightarrow> 2 ^ w dvd (\<Sum>i<m. a ^ i)"
      using q(2) by (simp add: coprime_dvd_mult_left_iff)
    finally show ?thesis by (simp add: Suc.IH n)
  qed
qed simp

lemma lcg_iterate:
  "(lcg P ^^ n) s = multiplier P ^ n * s + increment P * (\<Sum>i<n. multiplier P ^ i)"
proof (induction n)
  case (Suc n)
  have "(\<Sum>i<Suc n. a ^ i) = 1 + a * (\<Sum>i<n. a ^ i)" for a :: "'a word"
    by (simp only: sum.lessThan_Suc_shift) (simp add: sum_distrib_left)
  then show ?case using Suc by (simp add: lcg_def algebra_simps)
qed simp

lemma word_mult_odd_eq_0:
  fixes x :: "'w::len word" assumes "odd (unat u)"
  shows "x * u = 0 \<longleftrightarrow> x = 0"
proof
  assume "x * u = 0"
  then have "of_nat (unat x * unat u) = (0 :: 'w word)" by simp
  then have "2 ^ LENGTH('w) dvd unat x * unat u" by (simp only: word_of_nat_eq_0_iff)
  then have "2 ^ LENGTH('w) dvd unat x" using assms by (simp add: coprime_dvd_mult_left_iff)
  then have "of_nat (unat x) = (0 :: 'w word)" by (simp only: word_of_nat_eq_0_iff)
  then show "x = 0" by simp
qed simp

lemma odd_unat_add: "odd (unat (x + y)) \<longleftrightarrow> odd (unat x) \<noteq> odd (unat (y :: 'w::len word))"
  by (simp add: unat_word_ariths dvd_mod_iff)

lemma even_unat_mult: "even (unat (x * y)) \<longleftrightarrow> even (unat x) \<or> even (unat (y :: 'w::len word))"
  by (simp add: unat_word_ariths dvd_mod_iff)

lemma lcg_period:
  fixes P :: "'w::len word pcg_params" assumes "full_period P"
  shows "(lcg P ^^ n) s = s \<longleftrightarrow> 2 ^ LENGTH('w) dvd n"
proof -
  define a where "a = multiplier P"
  define S where "S = (\<Sum>i<n. a ^ i)"
  have mod: "unat a mod 4 = 1" and odd: "odd (unat (increment P))"
    using assms by (auto simp: full_period_def a_def)
  have "a ^ n = 1 + (a - 1) * S"
    using power_diff_1_eq [of a n] by (simp add: S_def algebra_simps)
  then have "(lcg P ^^ n) s - s = (1 + (a - 1) * S) * s + increment P * S - s"
    by (simp add: lcg_iterate S_def a_def)
  then have "(lcg P ^^ n) s - s = S * ((a - 1) * s + increment P)"
    by (simp add: algebra_simps)
  moreover have "odd (unat ((a - 1) * s + increment P))"
  proof -
    have "odd (unat a)" using mod by presburger
    then have "even (unat (a - 1))" using odd_unat_add [of "a - 1" 1] by simp
    then show ?thesis using odd by (simp add: odd_unat_add even_unat_mult)
  qed
  ultimately have "(lcg P ^^ n) s = s \<longleftrightarrow> S = 0"
    by (metis word_mult_odd_eq_0 right_minus_eq)
  also have "S = of_nat (\<Sum>i<n. unat a ^ i)" by (simp add: S_def)
  also have "\<dots> = 0 \<longleftrightarrow> 2 ^ LENGTH('w) dvd (\<Sum>i<n. unat a ^ i)" by (rule word_of_nat_eq_0_iff)
  also have "\<dots> \<longleftrightarrow> 2 ^ LENGTH('w) dvd n" by (rule pow2_dvd_geometric [OF mod])
  finally show ?thesis .
qed

lemma lcg_orbit:
  fixes P :: "'w::len word pcg_params" assumes "full_period P"
  shows "bij_betw (\<lambda>n. (lcg P ^^ n) s) {..<2 ^ LENGTH('w)} UNIV"
proof -
  have distinct: "(lcg P ^^ i) s \<noteq> (lcg P ^^ j) s" if "i < j" "j < 2 ^ LENGTH('w)" for i j
  proof
    assume eq: "(lcg P ^^ i) s = (lcg P ^^ j) s"
    have "(lcg P ^^ (j - i)) ((lcg P ^^ i) s) = (lcg P ^^ j) s"
      using that funpow_add [of "j - i" i "lcg P"] by (simp add: o_def)
    then have "2 ^ LENGTH('w) dvd j - i" using eq lcg_period [OF assms] by metis
    then show False using that by (auto dest: dvd_imp_le)
  qed
  then have inj: "inj_on (\<lambda>n. (lcg P ^^ n) s) {..<2 ^ LENGTH('w)}"
    by (intro inj_onI) (metis lessThan_iff linorder_neqE_nat)
  then have "(\<lambda>n. (lcg P ^^ n) s) ` {..<2 ^ LENGTH('w)} = UNIV"
    by (intro card_subset_eq) (auto simp: card_image card_word)
  then show ?thesis using inj by (simp add: bij_betw_def)
qed

section \<open>Seeding\<close>

text \<open>Different seeds give different states.\<close>

lemma lcg_inject:
  assumes "full_period P" shows "lcg P x = lcg P y \<longleftrightarrow> x = y"
proof -
  have "odd (unat (multiplier P))"
  proof -
    have "unat (multiplier P) mod 4 = 1" using assms by (simp add: full_period_def)
    then show ?thesis by presburger
  qed
  then have "(x - y) * multiplier P = 0 \<longleftrightarrow> x - y = 0" by (rule word_mult_odd_eq_0)
  then show ?thesis by (simp add: lcg_def left_diff_distrib)
qed

lemma seed_inject:
  fixes P :: "'w::len word pcg_params"
  assumes "full_period P" "64 \<le> LENGTH('w)"
  shows "seed P a = seed P b \<longleftrightarrow> a = b"
proof
  assume "seed P a = seed P b"
  then have eq: "(ucast a :: 'w word) = ucast b"
    unfolding seed_def Let_def lcg_inject [OF assms(1)] by (simp only: add_right_cancel)
  show "a = b"
  proof (rule bit_word_eqI)
    fix k assume k: "k < LENGTH(64)"
    have "bit (ucast a :: 'w word) k = bit (ucast b :: 'w word) k" by (simp only: eq)
    then show "bit a k = bit b k" using k assms(2) by (simp add: bit_ucast_iff)
  qed
qed (rule arg_cong)

text \<open>A buffer is packed with its first number most significant.\<close>

lemma pack_buffer_rcat: "buffer \<noteq> [] \<Longrightarrow> pack_buffer buffer = word_rcat buffer"
proof (induction buffer rule: rev_induct)
  case (snoc b bs)
  have rcat: "(word_rcat (bs @ [b]) :: 'b word) = push_bit LENGTH('a) (word_rcat bs) OR ucast b"
  proof -
    have "(word_rcat (bs @ [b]) :: 'b word) = ucast b + push_bit LENGTH('a) (word_rcat bs)"
      by (simp add: word_rcat_def push_bit_eq_mult)
    also have "\<dots> = push_bit LENGTH('a) (word_rcat bs) OR ucast b"
      by (subst add.commute, rule disjunctive_add_eq_or)
        (auto simp: bit_eq_iff bit_simps dest: bit_imp_le_length)
    finally show ?thesis .
  qed
  show ?case
  proof (cases bs)
    case Nil
    then show ?thesis by (simp add: pack_buffer_def word_rcat_def)
  next
    case (Cons c cs)
    then have "pack_buffer (bs @ [b]) = (push_bit LENGTH('a) (pack_buffer bs) OR ucast b :: 'b word)"
      by (simp add: pack_buffer_def)
    moreover have "pack_buffer bs = (word_rcat bs :: 'b word)" using snoc.IH Cons by simp
    ultimately show ?thesis by (simp only: rcat)
  qed
qed simp

section \<open>Output mixing is balanced\<close>

text \<open>
  A function is balanced when its result and a key that takes \<open>K\<close> values determine the argument,
  and the argument takes \<open>K\<close> times as many values as the result.
\<close>

lemma balanced:
  fixes f :: "'a \<Rightarrow> 'b"
  assumes fin: "finite (UNIV :: 'a set)" "finite (UNIV :: 'b set)" "finite C"
    and key: "\<And>x. key x \<in> C" "\<And>x y. key x = key y \<Longrightarrow> f x = f y \<Longrightarrow> x = y"
    and card: "card (UNIV :: 'a set) = card (UNIV :: 'b set) * card C"
  shows "card {x. f x = v} = card C"
proof -
  have fin_fibre: "finite {x. f x = v}" for v using fin(1) by (rule rev_finite_subset) simp
  have le: "card {x. f x = v} \<le> card C" for v
    using key fin(3) by (intro card_inj_on_le [of key]) (auto intro!: inj_onI)
  have "(\<Sum>v\<in>UNIV. card {x. f x = v}) = card (\<Union>v. {x. f x = v})"
    using fin fin_fibre by (intro card_UN_disjoint [symmetric]) auto
  also have "(\<Union>v. {x. f x = v}) = UNIV" by auto
  finally have "(\<Sum>v\<in>UNIV. card {x. f x = v}) = (\<Sum>v\<in>(UNIV :: 'b set). card C)"
    by (simp add: card)
  then show ?thesis
    using sum_mono_inv [of "\<lambda>v. card {x. f x = v}" UNIV "\<lambda>_. card C" v] le fin(2) by simp
qed

lemma minus_int_mod: "0 < m \<Longrightarrow> (- int n) mod int m = int ((m - n mod m) mod m)"
  by (cases "n mod m = 0") (auto simp: zmod_zminus1_eq_if of_nat_diff less_imp_le simp flip: of_nat_mod)

lemma int_and_mask: "x AND 31 = x mod 32" "x AND 63 = x mod 64" for x :: int
  using take_bit_eq_mask [of 5 x] take_bit_eq_mask [of 6 x]
  by (simp_all add: take_bit_eq_mod mask_eq_exp_minus_1)

lemma rotate_counts:
  "nat (uint (b :: u8) AND 31) = unat b mod 32"
  "nat ((- uint b) AND 31) = (32 - unat b mod 32) mod 32"
  "nat (uint b AND 63) = unat b mod 64"
  "nat ((- uint b) AND 63) = (64 - unat b mod 64) mod 64"
proof -
  define n where "n = unat b"
  have b: "uint b = int n" by (simp add: n_def)
  show "nat (uint b AND 31) = unat b mod 32" "nat (uint b AND 63) = unat b mod 64"
    unfolding int_and_mask b n_def [symmetric] by (simp_all add: nat_mod_distrib)
  show "nat ((- uint b) AND 31) = (32 - unat b mod 32) mod 32"
    "nat ((- uint b) AND 63) = (64 - unat b mod 64) mod 64"
    using minus_int_mod [of 32 n] minus_int_mod [of 64 n]
    unfolding int_and_mask b n_def [symmetric] by (simp_all only: of_nat_numeral nat_int zero_less_numeral)
qed

lemma rotr32_eq: "rotr32 v bits = word_rotr (unat bits mod 32) v"
  using or_rotr [of "unat bits mod 32" v] unfolding rotr32_def rotate_counts by simp

lemma rotr64_eq: "rotr64 v bits = word_rotr (unat bits mod 64) v"
  using or_rotr [of "unat bits mod 64" v] unfolding rotr64_def rotate_counts by simp

text \<open>Both versions of the 128-bit mixing function agree.\<close>

lemma pcg_xsl_rr_uint128_eq: "pcg_xsl_rr_uint128 x = pcg_xsl_rr_128_64 (u128 x)"
proof -
  have "(ucast (drop_bit 122 (u128 x)) :: u64) = drop_bit 58 (Uint128High64 x)"
    "(ucast (u128 x XOR drop_bit 64 (u128 x)) :: u64) = Uint128Low64 x XOR Uint128High64 x"
    by (rule bit_word_eqI, auto simp: bit_simps dest: bit_imp_le_length)+
  then show ?thesis by (simp add: pcg_xsl_rr_uint128_def pcg_xsl_rr_128_64_def Let_def)
qed

lemma word_rotr_inj: "word_rotr n x = word_rotr n y \<longleftrightarrow> x = y"
  by (metis word_rot_rl word_rot_lr)

lemma pcg_xsl_rr_balanced: "card {s. pcg_xsl_rr_128_64 s = v} = 2 ^ 64"
proof -
  define key :: "128 word \<Rightarrow> u64" where "key s = ucast (drop_bit 64 s)" for s
  have "card {s. pcg_xsl_rr_128_64 s = v} = card (UNIV :: u64 set)"
  proof (rule balanced [of _ key])
    fix x y :: "128 word"
    assume key: "key x = key y" and eq: "pcg_xsl_rr_128_64 x = pcg_xsl_rr_128_64 y"
    have high: "bit x k = bit y k" if "64 \<le> k" for k
    proof (cases "k < 128")
      case True
      have "bit (key x) (k - 64) = bit (key y) (k - 64)" using key by simp
      moreover have "k - 64 < 64" using True that by simp
      ultimately show ?thesis using True that by (simp add: key_def bit_simps)
    qed (auto dest: bit_imp_le_length)
    then have h: "drop_bit 64 x = drop_bit 64 y" "drop_bit 122 x = drop_bit 122 y"
      by (auto intro!: bit_word_eqI simp: bit_simps)
    have low: "(ucast (x XOR drop_bit 64 x) :: u64) = ucast (y XOR drop_bit 64 y)"
      using eq unfolding pcg_xsl_rr_128_64_def Let_def rotr64_eq h word_rotr_inj .
    have "bit x k = bit y k" if "k < 64" for k
    proof -
      have "bit (ucast (x XOR drop_bit 64 x) :: u64) k = bit (ucast (y XOR drop_bit 64 y) :: u64) k"
        by (simp only: low)
      then show ?thesis using that high [of "64 + k"] by (auto simp: bit_simps)
    qed
    then show "x = y" using high by (intro bit_word_eqI) (metis linorder_not_less)
  qed (auto simp: card_word)
  then show ?thesis by (simp add: card_word)
qed

lemma pcg_xsh_rr_balanced: "card {s. pcg_xsh_rr_64_32 s = v} = 2 ^ 32"
proof -
  define key :: "u64 \<Rightarrow> nat \<times> nat" where "key s = (unat (drop_bit 59 s), unat (take_bit 27 s))" for s
  have "card {s. pcg_xsh_rr_64_32 s = v} = card ({..<32 :: nat} \<times> {..<2 ^ 27 :: nat})"
  proof (rule balanced [of _ key])
    fix x y :: u64
    assume key: "key x = key y" and eq: "pcg_xsh_rr_64_32 x = pcg_xsh_rr_64_32 y"
    have parts: "drop_bit 59 x = drop_bit 59 y" "take_bit 27 x = take_bit 27 y"
      using key by (simp_all add: key_def word_unat_eq_iff)
    have mid: "(ucast (drop_bit 27 (drop_bit 18 x XOR x)) :: u32) = ucast (drop_bit 27 (drop_bit 18 y XOR y))"
      using eq unfolding pcg_xsh_rr_64_32_def rotr32_eq parts word_rotr_inj .
    have high: "bit x k = bit y k" if "59 \<le> k" "k < 64" for k
    proof -
      have "bit (drop_bit 59 x) (k - 59) = bit (drop_bit 59 y) (k - 59)" by (simp only: parts)
      then show ?thesis using that by (simp add: bit_simps)
    qed
    have low: "bit x k = bit y k" if "k < 27" for k
    proof -
      have "bit (take_bit 27 x) k = bit (take_bit 27 y) k" by (simp only: parts)
      then show ?thesis using that by (simp add: bit_simps)
    qed
    have "bit x k = bit y k" if "k < 64" for k
      using that
    proof (induction "64 - k" arbitrary: k rule: less_induct)
      case less
      show ?case
      proof (cases "27 \<le> k \<and> k < 59")
        case True
        have "bit (ucast (drop_bit 27 (drop_bit 18 x XOR x)) :: u32) (k - 27)
            = bit (ucast (drop_bit 27 (drop_bit 18 y XOR y)) :: u32) (k - 27)"
          by (simp only: mid)
        moreover have "bit x (18 + k) = bit y (18 + k)"
          using less.hyps [of "18 + k"] less.prems by (cases "18 + k < 64") (auto simp: bit_simps dest: bit_imp_le_length)
        ultimately show ?thesis using True by (auto simp: bit_simps)
      qed (use high low less.prems in auto)
    qed
    then show "x = y" by (auto intro: bit_word_eqI)
  next
    fix s :: u64
    have "unat s < 2 ^ 64" using unsigned_less [of s, where 'a = nat] by simp
    then show "key s \<in> {..<32} \<times> {..<2 ^ 27}"
      unfolding key_def unsigned_drop_bit_eq unsigned_take_bit_eq
      by (simp add: drop_bit_eq_div take_bit_eq_mod)
  qed (auto simp: card_word)
  then show ?thesis by (simp add: card_cartesian_product)
qed

section \<open>The engines as generators\<close>

text \<open>The interface of a random bit generator: \<open>min\<close>, \<open>max\<close> and \<open>operator()\<close>.\<close>

definition pcg_urbg :: "'w::len word pcg_params \<Rightarrow> ('w word \<Rightarrow> 'r::len word) \<Rightarrow> ('w word, 'r word) urbg" where
  "pcg_urbg P mix = \<lparr> urbg_call = pcg_next P mix, urbg_min = 0, urbg_max = - 1 \<rparr>"

definition pcg64_2018_engine :: "(128 word, u64) urbg" where
  "pcg64_2018_engine = pcg_urbg pcg64_2018_params pcg_xsl_rr_128_64"

definition pcg32_2018_engine :: "(u64, u32) urbg" where
  "pcg32_2018_engine = pcg_urbg pcg32_2018_params pcg_xsh_rr_64_32"

lemma pcg_urbg_simps [simp]:
  "urbg_call (pcg_urbg P mix) s = (mix (lcg P s), lcg P s)"
  "urbg_next (pcg_urbg P mix) = lcg P"
  "urbg_min (pcg_urbg P mix) = 0" "urbg_max (pcg_urbg P mix) = - 1"
  by (auto simp: pcg_urbg_def pcg_next_def urbg_next_def Let_def)

lemma unat_make_u128: "unat (make_u128 a b) = unat a * 2 ^ 64 + unat b"
  using unat_u128 [of "MakeUint128 a b"] by (simp add: make_u128_def u128_def)

lemma full_period_engines: "full_period pcg64_2018_params" "full_period pcg32_2018_params"
  by (simp_all add: full_period_def pcg64_2018_params_def pcg128_params_def unat_make_u128
      pcg32_2018_params_def pcg64_params_def)

text \<open>Over a period every number is returned equally often.\<close>

lemma pcg_outputs:
  fixes P :: "'w::len word pcg_params"
  assumes P: "full_period P"
  shows "card {n. n < 2 ^ LENGTH('w) \<and> fst (urbg_call (pcg_urbg P mix) ((urbg_next (pcg_urbg P mix) ^^ n) s)) = v}
    = card {x. mix x = v}"
proof -
  have "bij_betw (\<lambda>n. (lcg P ^^ n) (lcg P s)) {..<2 ^ LENGTH('w)} UNIV" by (rule lcg_orbit [OF P])
  then have "bij_betw (\<lambda>n. (lcg P ^^ n) (lcg P s)) {n \<in> {..<2 ^ LENGTH('w)}. mix ((lcg P ^^ n) (lcg P s)) = v}
      {x. mix x = v}"
    by (auto simp: bij_betw_def inj_on_def)
  then have "card {n \<in> {..<2 ^ LENGTH('w)}. mix ((lcg P ^^ n) (lcg P s)) = v} = card {x. mix x = v}"
    by (rule bij_betw_same_card)
  then show ?thesis by (simp add: funpow_swap1)
qed

lemma pcg_recurrent:
  fixes P :: "'w::len word pcg_params" and mix :: "'w word \<Rightarrow> 'r::len word"
  assumes P: "full_period P" and "\<And>v. card {x. mix x = v} \<noteq> 0"
  shows "recurrent_urbg (pcg_urbg P mix)"
proof
  show "urbg_min (pcg_urbg P mix) < urbg_max (pcg_urbg P mix)" by (simp add: word_gt_0)
next
  fix v g
  have "card {n. n < 2 ^ LENGTH('w) \<and> fst (urbg_call (pcg_urbg P mix) ((urbg_next (pcg_urbg P mix) ^^ n) g)) = v} \<noteq> 0"
    unfolding pcg_outputs [OF P] by (rule assms(2))
  then show "\<exists>n. fst (urbg_call (pcg_urbg P mix) ((urbg_next (pcg_urbg P mix) ^^ n) g)) = v"
    by (auto simp: card_eq_0_iff)
qed simp_all

interpretation pcg64: recurrent_urbg pcg64_2018_engine
  unfolding pcg64_2018_engine_def
  by (rule pcg_recurrent) (simp_all add: full_period_engines pcg_xsl_rr_balanced)

interpretation pcg32: recurrent_urbg pcg32_2018_engine
  unfolding pcg32_2018_engine_def
  by (rule pcg_recurrent) (simp_all add: full_period_engines pcg_xsh_rr_balanced)

text \<open>
  C20. \<open>discard(n)\<close>, which takes a number of steps logarithmic in \<open>n\<close>, leaves the engine in the state
  of \<open>n\<close> calls of \<open>operator()\<close>, for every state, every 64-bit count, every multiplier and increment and
  every width of the state.
\<close>

theorem pcg_discard_steps:
  "discard P state count = ((\<lambda>s. snd (pcg_next P mix s)) ^^ unat count) state"
proof -
  have "(\<lambda>s. snd (pcg_next P mix s)) = lcg P" by (auto simp: pcg_next_def Let_def)
  then show ?thesis by (simp add: discard_def advance_eq)
qed

text \<open>
  C19. Both engines have full period and are equidistributed: from any state the engine is back in
  it after \<open>n\<close> calls exactly when \<open>2\<^sup>1\<^sup>2\<^sup>8\<close> (\<open>2\<^sup>6\<^sup>4\<close> for the 32-bit engine) divides \<open>n\<close>, and in a period every
  64-bit (32-bit) number is returned exactly \<open>2\<^sup>6\<^sup>4\<close> (\<open>2\<^sup>3\<^sup>2\<close>) times.
\<close>

theorem pcg_full_period:
  "(((\<lambda>s. snd (pcg64_2018 s)) ^^ n) s = s \<longleftrightarrow> 2 ^ 128 dvd n)
   \<and> (((\<lambda>s. snd (pcg32_2018 s)) ^^ n) t = t \<longleftrightarrow> 2 ^ 64 dvd n)
   \<and> card {i. i < 2 ^ 128 \<and> fst (pcg64_2018 (((\<lambda>s. snd (pcg64_2018 s)) ^^ i) s)) = u} = 2 ^ 64
   \<and> card {i. i < 2 ^ 64 \<and> fst (pcg32_2018 (((\<lambda>s. snd (pcg32_2018 s)) ^^ i) t)) = v} = 2 ^ 32"
proof (intro conjI)
  have next64: "(\<lambda>s. snd (pcg64_2018 s)) = lcg pcg64_2018_params" "fst (pcg64_2018 s) = pcg_xsl_rr_128_64 (lcg pcg64_2018_params s)"
    and next32: "(\<lambda>s. snd (pcg32_2018 s)) = lcg pcg32_2018_params" "fst (pcg32_2018 t) = pcg_xsh_rr_64_32 (lcg pcg32_2018_params t)"
    for s t
    by (auto simp: pcg64_2018_def pcg32_2018_def pcg_next_def Let_def)
  show "((\<lambda>s. snd (pcg64_2018 s)) ^^ n) s = s \<longleftrightarrow> 2 ^ 128 dvd n"
    unfolding next64 using lcg_period [OF full_period_engines(1), of n s] by simp
  show "((\<lambda>s. snd (pcg32_2018 s)) ^^ n) t = t \<longleftrightarrow> 2 ^ 64 dvd n"
    unfolding next32 using lcg_period [OF full_period_engines(2), of n t] by simp
  show "card {i. i < 2 ^ 128 \<and> fst (pcg64_2018 (((\<lambda>s. snd (pcg64_2018 s)) ^^ i) s)) = u} = 2 ^ 64"
    unfolding next64 using pcg_outputs [OF full_period_engines(1), of pcg_xsl_rr_128_64 s u]
    by (simp add: pcg_xsl_rr_balanced)
  show "card {i. i < 2 ^ 64 \<and> fst (pcg32_2018 (((\<lambda>s. snd (pcg32_2018 s)) ^^ i) t)) = v} = 2 ^ 32"
    unfolding next32 using pcg_outputs [OF full_period_engines(2), of pcg_xsh_rr_64_32 t v]
    by (simp add: pcg_xsh_rr_balanced)
qed

end
