(* ===== verification/Uniform_Int.thy ===== *)
theory Uniform_Int
  imports Pcg_Engine
begin

text \<open>
  \<open>abel/random/uniform_int_distribution.h\<close> and \<open>abel/random/internal/wide_multiply.h\<close>: integers
  uniformly distributed in a closed interval. \<open>IntType\<close> is an integer type of \<open>LENGTH('w)\<close> bits,
  signed or not; its values are words, read by \<open>int_value\<close>. The double-width unsigned type of
  \<open>wide_multiply\<close> is the type \<open>'w bit0 word\<close> (for \<open>'w = 32\<close> this is the type \<open>64 word\<close>). The
  rejection loop may run for ever if the bits are bad; \<open>None\<close> is that outcome. The stream
  operators are not modelled.
\<close>

section \<open>The wide product\<close>

definition multiply :: "'w::len word \<Rightarrow> 'w word \<Rightarrow> 'w bit0 word" where
  "multiply a b = ucast a * ucast b"

definition wide_hi :: "'w::len bit0 word \<Rightarrow> 'w word" where
  "wide_hi r = ucast (drop_bit LENGTH('w) r)"

definition wide_lo :: "'w::len bit0 word \<Rightarrow> 'w word" where
  "wide_lo r = ucast r"

text \<open>The product of two 64-bit numbers from 32-bit halves, without a 128-bit type of the compiler.\<close>

definition MultiplyU64ToU128 :: "u64 \<Rightarrow> u64 \<Rightarrow> uint128" where
  "MultiplyU64ToU128 a b =
     (let a00 = ucast (ucast a :: u32) :: u64;
          a32 = drop_bit 32 a;
          b00 = ucast (ucast b :: u32) :: u64;
          b32 = drop_bit 32 b;
          c00 = a00 * b00;
          c32a = a00 * b32;
          c32b = a32 * b00;
          c64 = a32 * b32;
          carry = ucast (drop_bit 32 (drop_bit 32 c00 + ucast (ucast c32a :: u32) + ucast (ucast c32b :: u32))) :: u32
      in MakeUint128 (c64 + drop_bit 32 c32a + drop_bit 32 c32b + ucast carry)
           (c00 + push_bit 32 c32a + push_bit 32 c32b))"

section \<open>The distribution\<close>

definition int_value :: "bool \<Rightarrow> 'w::len word \<Rightarrow> int" where
  "int_value is_signed x = (if is_signed then sint x else uint x)"

text \<open>\<open>param_type\<close>; its constructor asserts that the bounds are in order.\<close>

record 'w int_params =
  param_lo :: 'w
  param_range :: 'w

definition param_type :: "bool \<Rightarrow> 'w::len word \<Rightarrow> 'w word \<Rightarrow> 'w word int_params option" where
  "param_type is_signed lo hi =
     (if int_value is_signed lo \<le> int_value is_signed hi
      then Some \<lparr> param_lo = lo, param_range = hi - lo \<rparr> else None)"

definition param_a :: "'w::len word int_params \<Rightarrow> 'w word" where
  "param_a p = param_lo p"

definition param_b :: "'w::len word int_params \<Rightarrow> 'w word" where
  "param_b p = param_lo p + param_range p"

text \<open>The loop of \<open>Generate\<close>, with \<open>product\<close> as its variable, and \<open>Generate\<close>.\<close>

partial_function (option) generate_loop ::
    "('s \<Rightarrow> ('w::len word \<times> 's) option) \<Rightarrow> 'w word \<Rightarrow> 'w word \<Rightarrow> 'w bit0 word \<Rightarrow> 's \<Rightarrow> ('w bit0 word \<times> 's) option" where
  "generate_loop fast_bits Lim threshold product g =
     (if wide_lo product < threshold then do {
        (bits, g) \<leftarrow> fast_bits g;
        generate_loop fast_bits Lim threshold (multiply bits Lim) g }
      else Some (product, g))"

definition generate :: "('s \<Rightarrow> ('w::len word \<times> 's) option) \<Rightarrow> 'w word \<Rightarrow> 's \<Rightarrow> ('w word \<times> 's) option" where
  "generate fast_bits R g = do {
     (bits, g) \<leftarrow> fast_bits g;
     let Lim = R + 1;
     if R AND Lim = 0 then Some (bits AND R, g)
     else do {
       let product = multiply bits Lim;
       if wide_lo product < Lim then do {
         let threshold = (- 1 - Lim + 1) mod Lim;
         (product, g) \<leftarrow> generate_loop fast_bits Lim threshold product g;
         Some (wide_hi product, g) }
       else Some (wide_hi product, g) } }"

text \<open>\<open>operator()\<close> with given parameters; the distribution itself holds only its parameters.\<close>

definition uniform_int ::
    "('s, 'r::len word) urbg \<Rightarrow> 'w::len word int_params \<Rightarrow> 's \<Rightarrow> ('w word \<times> 's) option" where
  "uniform_int G param g = do {
     (v, g) \<leftarrow> generate (fast_uniform_bits G) (param_range param) g;
     Some (param_a param + v, g) }"

section \<open>The product\<close>

lemma unat_multiply: "unat (multiply a b) = unat a * unat b"
  for a b :: "'w::len word"
proof -
  have "unat a * unat b < 2 ^ LENGTH('w) * 2 ^ LENGTH('w)"
    by (rule mult_strict_mono) (auto simp: unsigned_less)
  then have "unat a * unat b < 2 ^ LENGTH('w bit0)" by (simp add: mult_2 power_add)
  moreover have widen: "unat x < 2 ^ (2 * LENGTH('w))" for x :: "'w word"
    by (rule less_le_trans [OF unsigned_less]) simp
  have "unat (ucast a :: 'w bit0 word) = unat a" "unat (ucast b :: 'w bit0 word) = unat b"
    using widen [of a] widen [of b] by (simp_all add: unsigned_ucast_eq take_bit_nat_eq_self)
  ultimately show ?thesis by (simp add: multiply_def unat_word_ariths)
qed

lemma unat_wide_hi: "unat (wide_hi r) = unat r div 2 ^ LENGTH('w)" for r :: "'w::len bit0 word"
proof -
  have "unat r < 2 ^ LENGTH('w) * 2 ^ LENGTH('w)"
    using unsigned_less [of r, where 'a = nat] by (simp add: mult_2 power_add)
  then have "unat r div 2 ^ LENGTH('w) < 2 ^ LENGTH('w)" by (rule less_mult_imp_div_less)
  moreover have "unat (drop_bit LENGTH('w) r) = unat r div 2 ^ LENGTH('w)"
    using unsigned_less [of r, where 'a = nat]
    unfolding unsigned_drop_bit_eq by (simp add: drop_bit_eq_div take_bit_nat_eq_self)
  ultimately show ?thesis by (simp add: wide_hi_def unsigned_ucast_eq take_bit_nat_eq_self)
qed

lemma unat_wide_lo: "unat (wide_lo r) = unat r mod 2 ^ LENGTH('w)" for r :: "'w::len bit0 word"
  by (simp add: wide_lo_def unsigned_ucast_eq take_bit_eq_mod)

section \<open>Counting the accepted numbers\<close>

lemma card_multiples:
  assumes "0 < (L::nat)"
  shows "card {b. x \<le> b * L \<and> b * L < x + F * L} = F"
proof -
  define c where "c = (x + L - 1) div L"
  have c: "x \<le> b * L \<longleftrightarrow> c \<le> b" for b
  proof -
    have "c \<le> b \<longleftrightarrow> c < b + 1" by linarith
    also have "\<dots> \<longleftrightarrow> x + L - 1 < (b + 1) * L"
      unfolding c_def using assms by (rule div_less_iff_less_mult)
    also have "\<dots> \<longleftrightarrow> x \<le> b * L" using assms by (simp add: algebra_simps) linarith
    finally show ?thesis by simp
  qed
  have "b * L < x + F * L \<longleftrightarrow> b < c + F" for b
  proof (cases "F \<le> b")
    case True
    then have "b * L = (b - F) * L + F * L" by (simp flip: distrib_right)
    then have "b * L < x + F * L \<longleftrightarrow> \<not> x \<le> (b - F) * L" by linarith
    also have "\<dots> \<longleftrightarrow> b < c + F" unfolding c using True by linarith
    finally show ?thesis .
  next
    case False
    then have "b * L < F * L" using assms by simp
    then show ?thesis using False by linarith
  qed
  then have "{b. x \<le> b * L \<and> b * L < x + F * L} = {c..<c + F}" using c by auto
  then show ?thesis by simp
qed

text \<open>
  What one draw yields, in numbers: with \<open>L\<close> values to choose from \<open>2 ^ w\<close>, the remainder when
  \<open>L\<close> is a power of two, and otherwise the scaled draw, unless it is among those rejected.
\<close>

definition outcome :: "'w::len word \<Rightarrow> 'w word \<Rightarrow> nat option" where
  "outcome R bits =
     (let M = 2 ^ LENGTH('w); L = unat R + 1; b = unat bits
      in if L dvd M then Some (b mod L)
         else if b * L mod M < M mod L then None
         else Some (b * L div M))"

lemma card_word_nat: "card {b :: 'w::len word. P (unat b)} = card {n. n < 2 ^ LENGTH('w) \<and> P n}"
proof -
  have "unat ` {b :: 'w word. P (unat b)} = {n. n < 2 ^ LENGTH('w) \<and> P n}"
  proof (intro equalityI subsetI)
    fix n assume n: "n \<in> {n. n < 2 ^ LENGTH('w) \<and> P n}"
    then have "unat (of_nat n :: 'w word) = n" by (simp add: unsigned_of_nat take_bit_nat_eq_self)
    then show "n \<in> unat ` {b :: 'w word. P (unat b)}" using n by (metis (mono_tags) imageI mem_Collect_eq)
  qed (auto simp: unsigned_less)
  then show ?thesis by (metis card_image inj_on_def word_unat_eq_iff)
qed

text \<open>The power-of-two case of the code.\<close>

lemma dvd_power_of_2: "d dvd 2 ^ w \<Longrightarrow> \<exists>k. d = (2::nat) ^ k"
proof (induction w arbitrary: d)
  case 0
  then show ?case by (intro exI [of _ 0]) simp
next
  case (Suc w)
  show ?case
  proof (cases "even d")
    case True
    then obtain e where d: "d = 2 * e" by blast
    then obtain k where "e = 2 ^ k" using Suc by auto
    then show ?thesis using d by (intro exI [of _ "Suc k"]) simp
  next
    case False
    then have "coprime d 2" by simp
    then have "d dvd 2 ^ w" using Suc.prems by (simp add: coprime_dvd_mult_right_iff)
    then show ?thesis by (rule Suc.IH)
  qed
qed

lemma and_succ_eq_0:
  fixes R :: "'w::len word"
  shows "R AND (R + 1) = 0 \<longleftrightarrow> unat R + 1 dvd 2 ^ LENGTH('w)"
proof (cases "R = - 1")
  case True
  then show ?thesis by (simp add: unsigned_minus_1_eq_mask mask_eq_exp_minus_1)
next
  case False
  then have suc: "unat (R + 1) = unat R + 1" by (metis Suc_eq_plus1 add.commute unatSuc add_eq_0_iff)
  have "R AND (R + 1) = 0 \<longleftrightarrow> unat R AND (unat R + 1) = 0"
    by (simp only: suc [symmetric] unsigned_and_eq [symmetric] unsigned_eq_0_iff)
  also have "\<dots> \<longleftrightarrow> (\<exists>k. unat R + 1 = 2 ^ k)"
  proof
    assume and0: "unat R AND (unat R + 1) = 0"
    obtain k where "2 ^ k \<le> unat R + 1" "unat R + 1 < 2 ^ (k + 1)"
      using ex_power_ivl1 [of 2 "unat R + 1"] by auto
    moreover from and0 have "(unat R + 1) AND (unat R + 1 - 1) = 0" by (simp add: and.commute)
    ultimately have "unat R + 1 = 2 ^ k"
      using nat_and_below [of k "unat R + 1"] by (metis le_neq_implies_less)
    then show "\<exists>k. unat R + 1 = 2 ^ k" ..
  next
    assume "\<exists>k. unat R + 1 = 2 ^ k"
    then obtain k where k: "unat R + 1 = 2 ^ k" ..
    then have "unat R = mask k" by (simp add: mask_eq_exp_minus_1)
    then show "unat R AND (unat R + 1) = 0"
      unfolding k by (intro bit_eqI) (simp add: bit_and_iff bit_mask_iff bit_exp_iff)
  qed
  also have "\<dots> \<longleftrightarrow> unat R + 1 dvd 2 ^ LENGTH('w)"
  proof
    assume "\<exists>k. unat R + 1 = 2 ^ k"
    then obtain k where k: "unat R + 1 = 2 ^ k" ..
    then have "(2::nat) ^ k < 2 ^ LENGTH('w)" using suc by (metis unsigned_less)
    then show "unat R + 1 dvd 2 ^ LENGTH('w)" unfolding k by (simp add: le_imp_power_dvd)
  next
    assume "unat R + 1 dvd 2 ^ LENGTH('w)"
    then show "\<exists>k. unat R + 1 = 2 ^ k"
      by (rule dvd_power_of_2)
  qed
  finally show ?thesis .
qed

lemma card_accepted:
  fixes M L v :: nat
  assumes L: "0 < L" and v: "v < L"
  shows "card {b. b < M \<and> \<not> b * L mod M < M mod L \<and> b * L div M = v} = M div L"
proof (cases "M = 0")
  case False
  define T F where "T = M mod L" and "F = M div L"
  have M: "M = F * L + T" by (simp add: T_def F_def)
  have "b < M \<and> \<not> b * L mod M < T \<and> b * L div M = v \<longleftrightarrow> v * M + T \<le> b * L \<and> b * L < v * M + T + F * L" for b
  proof
    assume b: "b < M \<and> \<not> b * L mod M < T \<and> b * L div M = v"
    then have "b * L = v * M + b * L mod M" using div_mult_mod_eq [of "b * L" M] by simp
    moreover have "b * L mod M < M" using False by simp
    ultimately show "v * M + T \<le> b * L \<and> b * L < v * M + T + F * L" using b M by linarith
  next
    assume b: "v * M + T \<le> b * L \<and> b * L < v * M + T + F * L"
    then have below: "b * L < v * M + M" using M by linarith
    then have "b * L < Suc v * M" by simp
    also have "\<dots> \<le> L * M" using v by (intro mult_right_mono) simp_all
    finally have "b < M" using L by (simp add: mult.commute)
    moreover have "b * L div M = v" using b below by (intro div_nat_eqI) (simp_all add: mult.commute)
    moreover have "b * L = v * M + b * L mod M"
      using div_mult_mod_eq [of "b * L" M] \<open>b * L div M = v\<close> by simp
    ultimately show "b < M \<and> \<not> b * L mod M < T \<and> b * L div M = v" using b by linarith
  qed
  then have "{b. b < M \<and> \<not> b * L mod M < T \<and> b * L div M = v}
      = {b. v * M + T \<le> b * L \<and> b * L < v * M + T + F * L}" by blast
  then show ?thesis unfolding T_def [symmetric] F_def [symmetric] by (simp only: card_multiples [OF L])
qed simp

lemma card_remainder:
  fixes L v :: nat
  assumes "L dvd 2 ^ w" "v < L"
  shows "card {b. b < 2 ^ w \<and> b mod L = v} = 2 ^ w div L"
proof -
  obtain k where k: "L = 2 ^ k" using dvd_power_of_2 [OF assms(1)] ..
  then have "k \<le> w" using assms(1) by (simp add: dvd_power_iff_le)
  then show ?thesis using card_low_bits [of k w v] assms(2) by (simp add: k power_diff)
qed

lemma card_outcome:
  fixes R :: "'w::len word"
  shows "card {b. outcome R b = Some v} = (if v \<le> unat R then 2 ^ LENGTH('w) div (unat R + 1) else 0)"
proof -
  let ?M = "2 ^ LENGTH('w) :: nat" and ?L = "unat R + 1"
  have cases: "card {b. outcome R b = Some v} =
    (if ?L dvd ?M then card {b. b < ?M \<and> b mod ?L = v}
     else card {b. b < ?M \<and> \<not> b * ?L mod ?M < ?M mod ?L \<and> b * ?L div ?M = v})"
  proof (cases "?L dvd ?M")
    case True
    then have "{b. outcome R b = Some v} = {b. unat b mod ?L = v}" by (auto simp: outcome_def Let_def)
    then show ?thesis using True card_word_nat [of "\<lambda>b. b mod ?L = v"] by simp
  next
    case False
    then have "{b. outcome R b = Some v} = {b. \<not> unat b * ?L mod ?M < ?M mod ?L \<and> unat b * ?L div ?M = v}"
      by (auto simp: outcome_def Let_def)
    then show ?thesis
      using False card_word_nat [of "\<lambda>b. \<not> b * ?L mod ?M < ?M mod ?L \<and> b * ?L div ?M = v"] by simp
  qed
  show ?thesis
  proof (cases "v \<le> unat R")
    case True
    then have v: "v < ?L" by simp
    show ?thesis
      unfolding cases using True card_remainder [OF _ v] card_accepted [OF _ v, of ?M] by simp
  next
    case False
    have "b mod ?L \<noteq> v" for b 
    proof -
      have "b mod ?L < ?L" by (rule mod_less_divisor) simp
      then show ?thesis using False by linarith
    qed
    moreover have "b * ?L div ?M \<noteq> v" if "b < ?M" for b
    proof -
      have "b * ?L < ?M * ?L" by (rule mult_strict_right_mono [OF that]) simp
      then have "b * ?L < ?L * ?M" by (simp only: mult.commute)
      then have "b * ?L div ?M < ?L" by (rule less_mult_imp_div_less)
      then show ?thesis using False by simp
    qed
    ultimately have "{b. b < ?M \<and> b mod ?L = v} = {}"
      "{b. b < ?M \<and> \<not> b * ?L mod ?M < ?M mod ?L \<and> b * ?L div ?M = v} = {}" by blast+
    then show ?thesis unfolding cases using False by simp
  qed
qed

lemma card_rejected:
  fixes R :: "'w::len word"
  shows "card {b. outcome R b = None} = (2 ^ LENGTH('w) :: nat) mod (unat R + 1)"
proof -
  let ?M = "2 ^ LENGTH('w) :: nat" and ?L = "unat R + 1"
  have range: "outcome R b = None \<or> (\<exists>v<?L. outcome R b = Some v)" for b
  proof (cases "outcome R b")
    case (Some v)
    then have "card {b. outcome R b = Some v} \<noteq> 0" by (auto simp: card_eq_0_iff)
    then have "v < ?L" by (auto simp: card_outcome split: if_splits)
    then show ?thesis using Some by blast
  qed simp
  have "?M = card (UNIV :: 'w word set)" by (simp add: card_word)
  also have "(UNIV :: 'w word set) = {b. outcome R b = None} \<union> (\<Union>v<?L. {b. outcome R b = Some v})"
    using range by auto
  also have "card \<dots> = card {b. outcome R b = None} + card (\<Union>v<?L. {b. outcome R b = Some v})"
    by (rule card_Un_disjoint) auto
  also have "card (\<Union>v<?L. {b. outcome R b = Some v}) = (\<Sum>v<?L. card {b. outcome R b = Some v})"
    by (rule card_UN_disjoint) auto
  also have "\<dots> = ?L * (?M div ?L)" by (simp add: card_outcome)
  finally show ?thesis by (metis add_diff_cancel_right' minus_mult_div_eq_mod)
qed

section \<open>Generate is rejection sampling\<close>

text \<open>For a draw outside the power-of-two case: both tests of the code against one threshold.\<close>

lemma scaled_draw:
  fixes R bits :: "'w::len word"
  assumes "R AND (R + 1) \<noteq> 0"
  defines "Lim \<equiv> R + 1" and "M \<equiv> 2 ^ LENGTH('w) :: nat"
  shows "unat Lim = unat R + 1" "unat ((- 1 - Lim + 1) mod Lim) = M mod (unat R + 1)"
    "unat (wide_lo (multiply bits Lim)) = unat bits * (unat R + 1) mod M"
    "unat (wide_hi (multiply bits Lim)) = unat bits * (unat R + 1) div M"
proof -
  have "R \<noteq> - 1" using assms(1) by (intro notI) simp
  then show Lim: "unat Lim = unat R + 1"
    unfolding Lim_def by (metis Suc_eq_plus1 add.commute unatSuc add_eq_0_iff)
  have "unat (- Lim) = M - unat Lim"
    using unat_sub_if' [of 0 Lim] Lim by (simp add: M_def)
  moreover have "- 1 - Lim + 1 = - Lim" by simp
  ultimately have "unat ((- 1 - Lim + 1) mod Lim) = (M - unat Lim) mod unat Lim"
    by (simp only: unat_mod)
  also have "\<dots> = M mod unat Lim" using unsigned_less [of Lim, where 'a = nat] unfolding M_def
    by (intro le_mod_geq [symmetric]) linarith
  finally show "unat ((- 1 - Lim + 1) mod Lim) = M mod (unat R + 1)" by (simp add: Lim)
  show "unat (wide_lo (multiply bits Lim)) = unat bits * (unat R + 1) mod M"
    "unat (wide_hi (multiply bits Lim)) = unat bits * (unat R + 1) div M"
    by (simp_all add: unat_wide_lo unat_wide_hi unat_multiply Lim M_def)
qed

lemma outcome_scaled:
  fixes R bits :: "'w::len word"
  assumes "R AND (R + 1) \<noteq> 0"
  shows "outcome R bits =
    (if wide_lo (multiply bits (R + 1)) < (- 1 - (R + 1) + 1) mod (R + 1) then None
     else Some (unat (wide_hi (multiply bits (R + 1)))))"
  using assms unfolding and_succ_eq_0 outcome_def Let_def word_less_nat_alt scaled_draw [OF assms]
  by (simp only: if_False)

lemma generate_scaled:
  fixes R :: "'w::len word" and fast_bits :: "'s \<Rightarrow> ('w word \<times> 's) option"
  assumes "R AND (R + 1) \<noteq> 0"
  shows "generate fast_bits R g =
    (case fast_bits g of
       None \<Rightarrow> None
     | Some (b, h) \<Rightarrow> map_option (\<lambda>(p, h). (wide_hi p, h))
         (generate_loop fast_bits (R + 1) ((- 1 - (R + 1) + 1) mod (R + 1)) (multiply b (R + 1)) h))"
proof -
  let ?t = "(- 1 - (R + 1) + 1) mod (R + 1)"
  have "unat ?t < unat (R + 1)"
    unfolding scaled_draw [OF assms] by simp
  then have skip: "\<not> p < ?t" if "\<not> p < R + 1" for p using that unfolding word_less_nat_alt by linarith
  show ?thesis
  proof (cases "fast_bits g")
    case (Some p)
    obtain b h where p: "p = (b, h)" by (cases p)
    let ?p = "multiply b (R + 1)"
    let ?loop = "generate_loop fast_bits (R + 1) ?t ?p h"
    have gen: "generate fast_bits R g =
      (if wide_lo ?p < R + 1 then ?loop \<bind> (\<lambda>(product, g). Some (wide_hi product, g)) else Some (wide_hi ?p, h))"
      using assms by (simp only: generate_def Let_def Some p bind.bind_lunit prod.case if_False)
    have "?loop = Some (?p, h)" if "\<not> wide_lo ?p < R + 1"
      using skip [OF that] by (subst generate_loop.simps) (simp only: if_False)
    then have "generate fast_bits R g = ?loop \<bind> (\<lambda>(product, g). Some (wide_hi product, g))"
      unfolding gen by (cases "wide_lo ?p < R + 1") (simp_all only: if_True if_False bind.bind_lunit prod.case simp_thms)
    then show ?thesis by (cases ?loop) (simp_all add: Some p split: prod.splits)
  qed (simp add: generate_def)
qed

lemma masked_draw:
  fixes R bits :: "'w::len word"
  assumes "R AND (R + 1) = 0"
  shows "outcome R bits = Some (unat (bits AND R))"
proof -
  have dvd: "unat R + 1 dvd 2 ^ LENGTH('w)" using assms by (simp only: and_succ_eq_0)
  then obtain k where k: "unat R + 1 = 2 ^ k" using dvd_power_of_2 by blast
  then have "unat R = mask k" by (simp add: mask_eq_exp_minus_1)
  then have "unat (bits AND R) = unat bits mod 2 ^ k"
    by (simp only: unsigned_and_eq take_bit_eq_mask [symmetric] take_bit_eq_mod)
  then show ?thesis using dvd unfolding outcome_def Let_def k by (simp only: if_True)
qed

lemma generate_step:
  fixes R :: "'w::len word" and fast_bits :: "'s \<Rightarrow> ('w word \<times> 's) option"
  shows "generate fast_bits R g =
     (case fast_bits g of
        None \<Rightarrow> None
      | Some (b, h) \<Rightarrow> (case outcome R b of Some v \<Rightarrow> Some (of_nat v, h) | None \<Rightarrow> generate fast_bits R h))"
proof (cases "R AND (R + 1) = 0")
  case True
  then show ?thesis
    by (simp add: generate_def masked_draw Let_def split: option.splits bind_splits)
next
  case False
  show ?thesis
  proof (cases "fast_bits g")
    case (Some p)
    obtain b h where p: "p = (b, h)" by (cases p)
    let ?t = "(- 1 - (R + 1) + 1) mod (R + 1)"
    have loop: "generate_loop fast_bits (R + 1) ?t (multiply b (R + 1)) h =
      (if wide_lo (multiply b (R + 1)) < ?t
       then case fast_bits h of None \<Rightarrow> None | Some (c, h) \<Rightarrow> generate_loop fast_bits (R + 1) ?t (multiply c (R + 1)) h
       else Some (multiply b (R + 1), h))"
      by (subst generate_loop.simps) (auto split: option.splits bind_splits)
    show ?thesis
      unfolding generate_scaled [OF False, of fast_bits g] Some p option.case prod.case outcome_scaled [OF False] loop
      by (auto simp: generate_scaled [OF False] split: option.splits)
  qed (simp add: generate_def)
qed

section \<open>The emulated product\<close>

lemma unat_low32: "unat (ucast (ucast a :: u32) :: u64) = unat a mod 2 ^ 32" for a :: u64
proof -
  have "unat (ucast a :: u32) = unat a mod 2 ^ 32" by (subst unsigned_ucast_eq) (simp add: take_bit_eq_mod)
  moreover have "unat (ucast x :: u64) = unat x" for x :: u32
  proof -
    have "unat x < 2 ^ 32" using unsigned_less [of x, where 'a = nat] by simp
    then have "unat x < 2 ^ 64" by simp
    then show ?thesis by (subst unsigned_ucast_eq) (simp add: take_bit_nat_eq_self)
  qed
  ultimately show ?thesis by simp
qed

lemma unat_high32: "unat (drop_bit 32 a) = unat a div 2 ^ 32" for a :: u64
  using unat_lt64 [of a] unfolding unsigned_drop_bit_eq by (simp add: drop_bit_eq_div take_bit_nat_eq_self)

text \<open>Long multiplication in base \<open>X\<close>, with the carry of the middle column.\<close>

lemma long_multiplication:
  fixes X a0 a1 b0 b1 :: nat
  assumes X: "0 < X"
  defines "c0 \<equiv> a0 * b0" and "ca \<equiv> a0 * b1" and "cb \<equiv> a1 * b0"
  defines "P \<equiv> (a1 * X + a0) * (b1 * X + b0)"
  shows "a1 * b1 + ca div X + cb div X + (c0 div X + ca mod X + cb mod X) div X = P div (X * X)"
    and "(c0 + ca * X + cb * X) mod (X * X) = P mod (X * X)"
proof -
  have P: "P = a1 * b1 * (X * X) + (c0 + ca * X + cb * X)"
    by (simp add: P_def c0_def ca_def cb_def algebra_simps)
  then show "(c0 + ca * X + cb * X) mod (X * X) = P mod (X * X)" by simp
  define s where "s = c0 div X + ca mod X + cb mod X"
  have c0: "c0 = c0 div X * X + c0 mod X" and ca: "ca * X = ca div X * (X * X) + ca mod X * X"
    and cb: "cb * X = cb div X * (X * X) + cb mod X * X" and s: "s * X = s div X * (X * X) + s mod X * X"
    by (simp_all flip: mult.assoc distrib_right)
  have "P = (a1 * b1 + ca div X + cb div X + s div X) * (X * X) + (s mod X * X + c0 mod X)"
  proof -
    have "s * X = c0 div X * X + ca mod X * X + cb mod X * X" by (simp add: s_def distrib_right)
    then show ?thesis using P c0 ca cb s unfolding distrib_right by linarith
  qed
  moreover have "s mod X * X + c0 mod X < X * X"
  proof -
    have "Suc (s mod X) * X \<le> X * X" using X by (intro mult_right_mono) (simp_all add: Suc_leI)
    moreover have "c0 mod X < X" using X by simp
    ultimately show ?thesis by simp
  qed
  moreover have "r < d \<Longrightarrow> (q * d + r) div d = q" for q r d :: nat by simp
  ultimately show "a1 * b1 + ca div X + cb div X + (c0 div X + ca mod X + cb mod X) div X = P div (X * X)"
    unfolding s_def [symmetric] by (simp only:)
qed

lemma len_u64: "LENGTH(64) = 64"
  by simp

lemma unat_sum3: "unat (x + y + z) = (unat x + unat y + unat z) mod 2 ^ 64" for x y z :: u64
  by (simp add: unat_word_ariths mod_simps)

lemma small_product: "x < 2 ^ 32 \<Longrightarrow> y < 2 ^ 32 \<Longrightarrow> x * y < (2 ^ 64 :: nat)"
  using mult_strict_mono [of x "2 ^ 32" y "2 ^ 32"] by simp

lemma MultiplyU64ToU128_eq: "u128 (MultiplyU64ToU128 a b) = multiply a b"
proof -
  define X :: nat where "X = 2 ^ 32"
  define a0 a1 b0 b1 where "a0 = unat a mod X" "a1 = unat a div X" "b0 = unat b mod X" "b1 = unat b div X"
  note parts = this
  have XX: "X * X = 2 ^ 64" by (simp add: X_def)
  have bounds: "a0 < X" "a1 < X" "b0 < X" "b1 < X"
    using unat_lt64 [of a] unat_lt64 [of b] by (simp_all add: parts X_def less_mult_imp_div_less)
  have small: "x * y < 2 ^ 64" if "x < X" "y < X" for x y
    using small_product [of x y] that by (simp add: X_def)
  define A0 A1 B0 B1 where "A0 = (ucast (ucast a :: u32) :: u64)" "A1 = drop_bit 32 a"
    "B0 = (ucast (ucast b :: u32) :: u64)" "B1 = drop_bit 32 b"
  note halves = this
  have unat_halves: "unat A0 = a0" "unat A1 = a1" "unat B0 = b0" "unat B1 = b1"
    by (simp_all only: halves parts unat_low32 unat_high32 X_def)
  have products: "unat (A0 * B0) = a0 * b0" "unat (A0 * B1) = a0 * b1" "unat (A1 * B0) = a1 * b0" "unat (A1 * B1) = a1 * b1"
    using small bounds by (simp_all add: unat_word_ariths unat_halves)
  let ?mid = "drop_bit 32 (A0 * B0) + ucast (ucast (A0 * B1) :: u32) + ucast (ucast (A1 * B0) :: u32)"
  let ?s = "a0 * b0 div X + a0 * b1 mod X + a1 * b0 mod X"
  have mid: "unat ?mid = ?s" and s_less: "?s < 3 * X"
  proof -
    have "a0 * b0 < X * X" using small bounds by (simp add: XX)
    then have "a0 * b0 div X < X" by (rule less_mult_imp_div_less)
    moreover have "a0 * b1 mod X < X" "a1 * b0 mod X < X" by (simp_all add: X_def)
    ultimately show "?s < 3 * X" by linarith
    then have less: "?s < 2 ^ 64" by (simp add: X_def)
    have "unat ?mid = ?s mod 2 ^ 64"
      by (subst unat_sum3) (simp only: unat_low32 unat_high32 products X_def)
    then show "unat ?mid = ?s" using less by simp
  qed
  have carry: "unat (ucast (ucast (drop_bit 32 ?mid) :: u32) :: u64) = ?s div X"
    unfolding unat_low32 unat_high32 mid using s_less by (simp add: X_def)
  have "0 < X" by (simp add: X_def)
  note P = long_multiplication [OF this, where ?a0.0 = a0 and ?a1.0 = a1 and ?b0.0 = b0 and ?b1.0 = b1]
  have total: "(a1 * X + a0) * (b1 * X + b0) = unat a * unat b"
    by (simp only: parts div_mult_mod_eq)
  have product_less: "unat a * unat b < 2 ^ 64 * 2 ^ 64"
    using unat_lt64 [of a] unat_lt64 [of b] by (intro mult_strict_mono) simp_all
  have high: "unat (A1 * B1 + drop_bit 32 (A0 * B1) + drop_bit 32 (A1 * B0)
      + ucast (ucast (drop_bit 32 ?mid) :: u32)) = unat a * unat b div 2 ^ 64"
  proof -
    let ?q = "a1 * b1 + a0 * b1 div X + a1 * b0 div X + ?s div X"
    have q: "?q = unat a * unat b div 2 ^ 64" using P(1) by (simp only: total XX)
    have "unat (A1 * B1 + drop_bit 32 (A0 * B1) + drop_bit 32 (A1 * B0) + ucast (ucast (drop_bit 32 ?mid) :: u32))
        = ?q mod 2 ^ 64"
      by (subst unat_word_ariths(1), subst unat_sum3)
        (simp only: unat_high32 products carry X_def mod_add_left_eq len_u64)
    also have "\<dots> = ?q" unfolding q using product_less by (intro mod_less less_mult_imp_div_less)
    finally show ?thesis using q by simp
  qed
  have low: "unat (A0 * B0 + push_bit 32 (A0 * B1) + push_bit 32 (A1 * B0)) = unat a * unat b mod 2 ^ 64"
  proof -
    have "A0 * B0 + push_bit 32 (A0 * B1) + push_bit 32 (A1 * B0)
        = of_nat (unat (A0 * B0) + unat (A0 * B1) * 2 ^ 32 + unat (A1 * B0) * 2 ^ 32)"
      by (simp add: push_bit_eq_mult)
    then have "unat (A0 * B0 + push_bit 32 (A0 * B1) + push_bit 32 (A1 * B0))
        = (a0 * b0 + a0 * b1 * 2 ^ 32 + a1 * b0 * 2 ^ 32) mod 2 ^ 64"
      by (simp only: products unat_of_nat len_u64)
    also have "\<dots> = unat a * unat b mod 2 ^ 64" using P(2) unfolding total XX X_def [symmetric] .
    finally show ?thesis .
  qed
  have "unat (u128 (MultiplyU64ToU128 a b)) = unat a * unat b"
    unfolding unat_u128 MultiplyU64ToU128_def Let_def uint128.sel halves [symmetric] high low
    by (rule div_mult_mod_eq)
  then show ?thesis unfolding word_unat_eq_iff unat_multiply .
qed

section \<open>Bounds of the result\<close>

lemma generate_loop_product:
  "generate_loop fast_bits Lim threshold p g = Some (q, h) \<Longrightarrow> \<exists>b. p = multiply b Lim \<Longrightarrow> \<exists>b. q = multiply b Lim"
proof -
  assume "generate_loop fast_bits Lim threshold p g = Some (q, h)"
  then have "(\<exists>b. p = multiply b Lim) \<longrightarrow> (\<exists>b. fst (q, h) = multiply b Lim)"
    by (rule generate_loop.raw_induct
        [where P = "\<lambda>_ Lim _ p _ r. (\<exists>b. p = multiply b Lim) \<longrightarrow> (\<exists>b. fst r = multiply b Lim)", rotated])
      (auto split: if_splits bind_splits, blast)
  then show "\<exists>b. p = multiply b Lim \<Longrightarrow> \<exists>b. q = multiply b Lim" by simp
qed

lemma map_first: "map_option (\<lambda>(p, h). (f p, h)) x = Some (v, h) \<Longrightarrow> \<exists>p. x = Some (p, h) \<and> v = f p"
  by (cases x) auto

lemma generate_le:
  fixes R :: "'w::len word"
  assumes "generate fast_bits R g = Some (v, h)"
  shows "v \<le> R"
proof (cases "R AND (R + 1) = 0")
  case True
  then obtain bits where "v = bits AND R"
    using assms by (auto simp: generate_def Let_def split: bind_splits)
  then show ?thesis by (simp add: word_and_le1)
next
  case False
  obtain b k where bk: "fast_bits g = Some (b, k)"
    using assms by (cases "fast_bits g") (auto simp: generate_def)
  have mapped: "map_option (\<lambda>(p, h). (wide_hi p, h)) (generate_loop fast_bits (R + 1)
      ((- 1 - (R + 1) + 1) mod (R + 1)) (multiply b (R + 1)) k) = Some (v, h)"
    using assms unfolding generate_scaled [OF False, of fast_bits g] bk option.case prod.case .
  obtain p where loop: "generate_loop fast_bits (R + 1) ((- 1 - (R + 1) + 1) mod (R + 1)) (multiply b (R + 1)) k = Some (p, h)"
    and v: "v = wide_hi p"
    using map_first [OF mapped] by blast
  obtain c where "p = multiply c (R + 1)" using generate_loop_product [OF loop] by blast
  then have "v = wide_hi (multiply c (R + 1))" by (simp only: v)
  then have "unat v = unat c * (unat R + 1) div 2 ^ LENGTH('w)" by (simp only: scaled_draw(4) [OF False])
  also have "\<dots> < unat R + 1"
  proof (rule less_mult_imp_div_less)
    have "unat c * (unat R + 1) < 2 ^ LENGTH('w) * (unat R + 1)"
      by (rule mult_strict_right_mono [OF unsigned_less]) simp
    then show "unat c * (unat R + 1) < (unat R + 1) * 2 ^ LENGTH('w)" by (simp only: mult.commute)
  qed
  finally show ?thesis by (simp add: word_le_nat_alt)
qed

text \<open>The range and the sum are exact although both are computed modulo the width.\<close>

lemma int_value_range:
  "- (2 ^ (LENGTH('w) - 1)) \<le> sint x" "sint x < 2 ^ (LENGTH('w) - 1)"
  "0 \<le> uint x" "uint x < 2 ^ LENGTH('w)" for x :: "'w::len word"
  using sint_greater_eq [of x] sint_less [of x] by simp_all

lemma half_range: "(2::int) ^ LENGTH('w::len) = 2 * 2 ^ (LENGTH('w) - 1)"
  by (simp flip: power_Suc)

lemma int_value_of_int: "word_of_int (int_value is_signed x) = x"
  by (simp add: int_value_def)

lemma int_value_diff:
  fixes a b :: "'w::len word"
  assumes "int_value is_signed a \<le> int_value is_signed b"
  shows "uint (b - a) = int_value is_signed b - int_value is_signed a"
proof -
  define k where "k = int_value is_signed b - int_value is_signed a"
  have "b - a = word_of_int k"
    by (simp only: k_def wi_hom_sub [symmetric] int_value_of_int)
  moreover have "sint b - sint a < 2 ^ LENGTH('w)" "uint b - uint a < 2 ^ LENGTH('w)"
    using int_value_range [of a] int_value_range [of b] half_range [where 'w = 'w] by linarith+
  then have "k < 2 ^ LENGTH('w)" by (simp add: k_def int_value_def)
  moreover have "0 \<le> k" using assms by (simp add: k_def)
  ultimately show ?thesis unfolding k_def [symmetric] by (simp add: uint_word_of_int)
qed

lemma int_value_add:
  fixes a b v :: "'w::len word"
  assumes "int_value is_signed a + uint v \<le> int_value is_signed b"
  shows "int_value is_signed (a + v) = int_value is_signed a + uint v"
proof -
  have sum: "a + v = word_of_int (int_value is_signed a + uint v)"
    by (simp only: wi_hom_add [symmetric] int_value_of_int word_of_int_uint)
  show ?thesis
  proof (cases is_signed)
    case True
    have "- (2 ^ (LENGTH('w) - 1)) \<le> sint a + uint v" "sint a + uint v < 2 ^ (LENGTH('w) - 1)"
      using assms True int_value_range [of a] int_value_range [of b] int_value_range [of v]
      unfolding int_value_def by (simp_all only: if_True)
    then show ?thesis
      using True unfolding sum int_value_def by (simp only: if_True sint_sbintrunc' signed_take_bit_int_eq_self)
  next
    case False
    have "0 \<le> uint a + uint v" "uint a + uint v < 2 ^ LENGTH('w)"
      using assms False int_value_range [of a] int_value_range [of b] int_value_range [of v]
      unfolding int_value_def by (simp_all only: if_False)
    then show ?thesis
      using False unfolding sum int_value_def by (simp only: if_False uint_word_of_int mod_pos_pos_trivial)
  qed
qed

lemma uniform_int_bounds:
  assumes "param_type is_signed a b = Some p" "uniform_int G p g = Some (v, h)"
  shows "int_value is_signed a \<le> int_value is_signed v" "int_value is_signed v \<le> int_value is_signed b"
proof -
  have p: "p = \<lparr> param_lo = a, param_range = b - a \<rparr>" "int_value is_signed a \<le> int_value is_signed b"
    using assms(1) by (auto simp: param_type_def split: if_splits)
  obtain u where u: "generate (fast_uniform_bits G) (b - a) g = Some (u, h)" "v = a + u"
    using assms(2) by (auto simp: uniform_int_def p param_a_def split: bind_splits)
  have "uint u \<le> uint (b - a)" using generate_le [OF u(1)] by (simp add: word_le_def)
  then have "uint u \<le> int_value is_signed b - int_value is_signed a" by (simp only: int_value_diff [OF p(2)])
  then show "int_value is_signed a \<le> int_value is_signed v" "int_value is_signed v \<le> int_value is_signed b"
    using int_value_add [of is_signed a u b] by (auto simp: u(2))
qed

lemma uniform_int_total:
  assumes "param_type is_signed a b = Some p"
    and "\<exists>v h. generate (fast_uniform_bits G) (param_range p) g = Some (v, h)"
  shows "\<exists>v h. uniform_int G p g = Some (v, h)
      \<and> int_value is_signed a \<le> int_value is_signed v \<and> int_value is_signed v \<le> int_value is_signed b"
proof -
  obtain v h where "generate (fast_uniform_bits G) (param_range p) g = Some (v, h)" using assms(2) by blast
  then have eq: "uniform_int G p g = Some (param_a p + v, h)" by (simp add: uniform_int_def)
  show ?thesis using eq uniform_int_bounds [OF assms(1) eq] by (intro exI conjI)
qed

section \<open>The loop ends\<close>

text \<open>
  The all-ones draw is never rejected. A source of bits that comes back to it makes the rejection
  loop end.
\<close>

lemma outcome_ones: "outcome R (- 1) \<noteq> None" for R :: "'w::len word"
proof -
  define M L where "M = (2 ^ LENGTH('w) :: nat)" and "L = unat R + 1"
  have L: "0 < L" "L \<le> M"
    using unsigned_less [of R, where 'a = nat] by (simp_all add: L_def M_def Suc_leI)
  have "M mod L \<le> (M - 1) * L mod M" if "\<not> L dvd M"
  proof -
    have "L < M" using that L by (metis dvd_refl le_neq_implies_less)
    obtain l m where "L = Suc l" "M = Suc l + m" using L by (metis Suc_pred le_Suc_ex)
    then have "(M - 1) * L = (L - 1) * M + (M - L)" by (simp add: algebra_simps)
    moreover have "M - L < M" using L by simp
    ultimately have "(M - 1) * L mod M = M - L" by (simp only: mod_mult_self3 mod_less)
    moreover have "M mod L \<le> M - L" using \<open>L < M\<close> le_mod_geq [of L M] mod_less_eq_dividend [of "M - L" L] by simp
    ultimately show ?thesis by simp
  qed
  moreover have "unat (- 1 :: 'w word) = M - 1"
    by (simp add: M_def unsigned_minus_1_eq_mask mask_eq_exp_minus_1)
  ultimately show ?thesis
    unfolding outcome_def Let_def M_def [symmetric] L_def [symmetric]
    by (cases "L dvd M") (simp_all only: if_True if_False not_less [symmetric] option.distinct not_False_eq_True)
qed

locale bit_source =
  fixes fast_bits :: "'s \<Rightarrow> ('w::len word \<times> 's) option"
  assumes ones: "drawn fast_bits g (- 1)"
begin

lemma generate_returns: "\<exists>v h. generate fast_bits R g = Some (v, h)"
  using ones [of g]
proof (induction g "- 1 :: 'w word" rule: drawn.induct)
  case (now g h)
  then show ?case using outcome_ones [of R] by (auto simp: generate_step [of fast_bits R g])
next
  case (later g v h)
  then show ?case by (cases "outcome R v") (auto simp: generate_step [of fast_bits R g])
qed

end

lemma pcg64_bits:
  "LENGTH('w::len) \<in> {8, 16, 32, 64} \<Longrightarrow>
   bit_source (fast_uniform_bits pcg64_2018_engine :: _ \<Rightarrow> ('w word \<times> _) option)"
  by (intro bit_source.intro pcg64.ones_drawn)
    (auto simp: NumBits_def RangeSize_def IsPowerOfTwoOrZero_def pcg64_2018_engine_def)

lemma pcg32_bits:
  "LENGTH('w::len) \<in> {8, 16, 32} \<Longrightarrow>
   bit_source (fast_uniform_bits pcg32_2018_engine :: _ \<Rightarrow> ('w word \<times> _) option)"
  by (intro bit_source.intro pcg32.ones_drawn)
    (auto simp: NumBits_def RangeSize_def IsPowerOfTwoOrZero_def pcg32_2018_engine_def)

interpretation u64_of_pcg64: bit_source "fast_uniform_bits pcg64_2018_engine :: _ \<Rightarrow> (64 word \<times> _) option"
  by (rule pcg64_bits) simp

interpretation u32_of_pcg32: bit_source "fast_uniform_bits pcg32_2018_engine :: _ \<Rightarrow> (32 word \<times> _) option"
  by (rule pcg32_bits) simp

section \<open>Properties\<close>

text \<open>
  The wide product is exact: at every width the double-width product is the product of the
  numbers, and the version for 64-bit numbers built from 32-bit halves (without a 128-bit type of the
  compiler) gives the same double word, the same high half and the same low half.
\<close>

theorem wide_multiply_exact:
  "unat (multiply a b) = unat a * unat b
   \<and> u128 (MultiplyU64ToU128 c d) = multiply c d
   \<and> Uint128High64 (MultiplyU64ToU128 c d) = wide_hi (multiply c d)
   \<and> Uint128Low64 (MultiplyU64ToU128 c d) = wide_lo (multiply c d)"
proof (intro conjI)
  show "unat (multiply a b) = unat a * unat b" by (rule unat_multiply)
  show eq: "u128 (MultiplyU64ToU128 c d) = multiply c d" by (rule MultiplyU64ToU128_eq)
  have "MultiplyU64ToU128 c d = of_u128 (multiply c d)" by (simp flip: eq)
  then show "Uint128High64 (MultiplyU64ToU128 c d) = wide_hi (multiply c d)"
    "Uint128Low64 (MultiplyU64ToU128 c d) = wide_lo (multiply c d)"
    by (simp_all add: of_u128_def wide_hi_def wide_lo_def)
qed

text \<open>
  C21. \<open>Generate\<close> is rejection sampling and is exactly unbiased. Whatever the source of bits, a call
  draws a number \<open>b\<close>, returns \<open>v\<close> when \<open>outcome R b\<close> is \<open>v\<close>, and draws again when there is none, so
  the test against \<open>Lim\<close> that saves a division, the threshold computed by wrap-around and the wide
  product change nothing. Of the \<open>2\<^sup>w\<close> numbers exactly the same number, the quotient of \<open>2\<^sup>w\<close> by the length
  of the interval, gives each value of the interval; no number gives another value; and the numbers
  that are rejected are as few as that allows, the remainder.
\<close>

theorem generate_unbiased:
  fixes R :: "'w::len word" and fast_bits :: "'s \<Rightarrow> ('w word \<times> 's) option"
  shows "generate fast_bits R g =
     (case fast_bits g of
        None \<Rightarrow> None
      | Some (b, h) \<Rightarrow> (case outcome R b of Some v \<Rightarrow> Some (of_nat v, h) | None \<Rightarrow> generate fast_bits R h))
   \<and> card {b. outcome R b = Some v} = (if v \<le> unat R then 2 ^ LENGTH('w) div (unat R + 1) else 0)
   \<and> card {b. outcome R b = None} = 2 ^ LENGTH('w) mod (unat R + 1)"
  by (intro conjI generate_step card_outcome card_rejected)

text \<open>
  C22. The distribution over the engines of the library: for every interval of a signed or unsigned
  type the parameters give back the bounds, and a call returns, from every state of the engine, with
  a number of the interval (types of up to 32 bits on the 32-bit engine, of up to 64 bits on the 64-bit
  engine). On any other generator a call that returns gives a number of the interval.
\<close>

theorem uniform_int_returns:
  fixes a b :: "'w::len word"
  assumes p: "param_type is_signed a b = Some p"
  shows "param_a p = a \<and> param_b p = b
    \<and> (LENGTH('w) \<in> {8, 16, 32} \<longrightarrow> (\<exists>v h. uniform_int pcg32_2018_engine p s = Some (v, h)
        \<and> int_value is_signed a \<le> int_value is_signed v \<and> int_value is_signed v \<le> int_value is_signed b))
    \<and> (LENGTH('w) \<in> {8, 16, 32, 64} \<longrightarrow> (\<exists>v h. uniform_int pcg64_2018_engine p t = Some (v, h)
        \<and> int_value is_signed a \<le> int_value is_signed v \<and> int_value is_signed v \<le> int_value is_signed b))
    \<and> (uniform_int G p g = Some (v, h) \<longrightarrow>
        int_value is_signed a \<le> int_value is_signed v \<and> int_value is_signed v \<le> int_value is_signed b)"
proof (intro conjI impI)
  show "param_a p = a" "param_b p = b"
    using p by (auto simp: param_type_def param_a_def param_b_def split: if_splits)
  show "\<exists>v h. uniform_int pcg32_2018_engine p s = Some (v, h)
      \<and> int_value is_signed a \<le> int_value is_signed v \<and> int_value is_signed v \<le> int_value is_signed b"
    if "LENGTH('w) \<in> {8, 16, 32}"
    by (rule uniform_int_total [OF p bit_source.generate_returns [OF pcg32_bits [OF that]]])
  show "\<exists>v h. uniform_int pcg64_2018_engine p t = Some (v, h)
      \<and> int_value is_signed a \<le> int_value is_signed v \<and> int_value is_signed v \<le> int_value is_signed b"
    if "LENGTH('w) \<in> {8, 16, 32, 64}"
    by (rule uniform_int_total [OF p bit_source.generate_returns [OF pcg64_bits [OF that]]])
  show "int_value is_signed a \<le> int_value is_signed v" "int_value is_signed v \<le> int_value is_signed b"
    if "uniform_int G p g = Some (v, h)"
    by (rule uniform_int_bounds [OF p that])+
qed

lemma uniform_int_returns_witness:
  "(\<exists>v h. uniform_int pcg32_2018_engine \<lparr> param_lo = (- 1 :: 32 word), param_range = 7 \<rparr> 0 = Some (v, h)
      \<and> - 1 \<le> sint v \<and> sint v \<le> 6)
   \<and> (\<exists>v h. uniform_int pcg64_2018_engine \<lparr> param_lo = (- 1 :: 32 word), param_range = 7 \<rparr> 0 = Some (v, h)
      \<and> - 1 \<le> sint v \<and> sint v \<le> 6)"
proof -
  have p: "param_type True (- 1 :: 32 word) 6 = Some \<lparr> param_lo = - 1, param_range = 7 \<rparr>"
    by (simp add: param_type_def int_value_def)
  show ?thesis
    using uniform_int_returns [OF p, where s = 0 and t = 0 and G = pcg32_2018_engine and g = 0 and v = 0 and h = 0]
    by (simp add: int_value_def)
qed

end
