(* ===== verification/Ascii.thy ===== *)
theory Ascii
  imports Prelude
begin

text \<open>
  \<open>abel/strings/ascii.h\<close> and \<open>ascii.cc\<close>: the character classes, which are sets of flags looked up in a
  table, and the tables of the case conversions. Every class is shown to be the set of codes that
  the standard's function of the same purpose accepts in the C locale.
\<close>

section \<open>Flags\<close>

type_synonym character_properties = u32

definition eNone :: character_properties where "eNone = 0x0"
definition eControl :: character_properties where "eControl = 0x0001"
definition eSpace :: character_properties where "eSpace = 0x0002"
definition ePunct :: character_properties where "ePunct = 0x0004"
definition eDigit :: character_properties where "eDigit = 0x0008"
definition eHexDigit :: character_properties where "eHexDigit = 0x0010"
definition eAlpha :: character_properties where "eAlpha = 0x0020"
definition eLower :: character_properties where "eLower = 0x0040"
definition eUpper :: character_properties where "eUpper = 0x0080"
definition eGraph :: character_properties where "eGraph = 0x0100"
definition ePrint :: character_properties where "ePrint = 0x0200"

definition kCtrlOrSpace :: character_properties where
  "kCtrlOrSpace = eControl OR eSpace"

definition kPPG :: character_properties where
  "kPPG = ePunct OR ePrint OR eGraph"

definition kDHGP :: character_properties where
  "kDHGP = eHexDigit OR ePrint OR eGraph OR eDigit"

definition kHAUGP :: character_properties where
  "kHAUGP = eHexDigit OR eAlpha OR eUpper OR eGraph OR ePrint"

definition kHALGP :: character_properties where
  "kHALGP = eHexDigit OR eAlpha OR eLower OR eGraph OR ePrint"

definition kAUGP :: character_properties where
  "kAUGP = eAlpha OR eUpper OR eGraph OR ePrint"

definition kALGP :: character_properties where
  "kALGP = eAlpha OR eLower OR eGraph OR ePrint"

section \<open>Tables\<close>

definition kCharacterProperties :: "character_properties list" where
  "kCharacterProperties =
     [eControl, eControl, eControl, eControl, eControl, eControl, eControl, eControl] @
     [eControl, kCtrlOrSpace, kCtrlOrSpace, kCtrlOrSpace, kCtrlOrSpace, kCtrlOrSpace, eControl, eControl] @
     [eControl, eControl, eControl, eControl, eControl, eControl, eControl, eControl] @
     [eControl, eControl, eControl, eControl, eControl, eControl, eControl, eControl] @
     [eSpace OR ePrint, kPPG, kPPG, kPPG, kPPG, kPPG, kPPG, kPPG] @
     [kPPG, kPPG, kPPG, kPPG, kPPG, kPPG, kPPG, kPPG] @
     [kDHGP, kDHGP, kDHGP, kDHGP, kDHGP, kDHGP, kDHGP, kDHGP] @
     [kDHGP, kDHGP, kPPG, kPPG, kPPG, kPPG, kPPG, kPPG] @
     [kPPG, kHAUGP, kHAUGP, kHAUGP, kHAUGP, kHAUGP, kHAUGP, kAUGP] @
     [kAUGP, kAUGP, kAUGP, kAUGP, kAUGP, kAUGP, kAUGP, kAUGP] @
     [kAUGP, kAUGP, kAUGP, kAUGP, kAUGP, kAUGP, kAUGP, kAUGP] @
     [kAUGP, kAUGP, kAUGP, kPPG, kPPG, kPPG, kPPG, kPPG] @
     [kPPG, kHALGP, kHALGP, kHALGP, kHALGP, kHALGP, kHALGP, kALGP] @
     [kALGP, kALGP, kALGP, kALGP, kALGP, kALGP, kALGP, kALGP] @
     [kALGP, kALGP, kALGP, kALGP, kALGP, kALGP, kALGP, kALGP] @
     [kALGP, kALGP, kALGP, kPPG, kPPG, kPPG, kPPG, eControl]"

definition kToLower :: "u8 list" where
  "kToLower =
     [0, 1, 2, 3, 4, 5, 6, 7, 8, 9, 10, 11, 12, 13, 14, 15] @
     [16, 17, 18, 19, 20, 21, 22, 23, 24, 25, 26, 27, 28, 29, 30, 31] @
     [32, 33, 34, 35, 36, 37, 38, 39, 40, 41, 42, 43, 44, 45, 46, 47] @
     [48, 49, 50, 51, 52, 53, 54, 55, 56, 57, 58, 59, 60, 61, 62, 63] @
     [64, 97, 98, 99, 100, 101, 102, 103, 104, 105, 106, 107, 108, 109, 110, 111] @
     [112, 113, 114, 115, 116, 117, 118, 119, 120, 121, 122, 91, 92, 93, 94, 95] @
     [96, 97, 98, 99, 100, 101, 102, 103, 104, 105, 106, 107, 108, 109, 110, 111] @
     [112, 113, 114, 115, 116, 117, 118, 119, 120, 121, 122, 123, 124, 125, 126, 127] @
     [128, 129, 130, 131, 132, 133, 134, 135, 136, 137, 138, 139, 140, 141, 142, 143] @
     [144, 145, 146, 147, 148, 149, 150, 151, 152, 153, 154, 155, 156, 157, 158, 159] @
     [160, 161, 162, 163, 164, 165, 166, 167, 168, 169, 170, 171, 172, 173, 174, 175] @
     [176, 177, 178, 179, 180, 181, 182, 183, 184, 185, 186, 187, 188, 189, 190, 191] @
     [192, 193, 194, 195, 196, 197, 198, 199, 200, 201, 202, 203, 204, 205, 206, 207] @
     [208, 209, 210, 211, 212, 213, 214, 215, 216, 217, 218, 219, 220, 221, 222, 223] @
     [224, 225, 226, 227, 228, 229, 230, 231, 232, 233, 234, 235, 236, 237, 238, 239] @
     [240, 241, 242, 243, 244, 245, 246, 247, 248, 249, 250, 251, 252, 253, 254, 255]"

definition kToUpper :: "u8 list" where
  "kToUpper =
     [0, 1, 2, 3, 4, 5, 6, 7, 8, 9, 10, 11, 12, 13, 14, 15] @
     [16, 17, 18, 19, 20, 21, 22, 23, 24, 25, 26, 27, 28, 29, 30, 31] @
     [32, 33, 34, 35, 36, 37, 38, 39, 40, 41, 42, 43, 44, 45, 46, 47] @
     [48, 49, 50, 51, 52, 53, 54, 55, 56, 57, 58, 59, 60, 61, 62, 63] @
     [64, 65, 66, 67, 68, 69, 70, 71, 72, 73, 74, 75, 76, 77, 78, 79] @
     [80, 81, 82, 83, 84, 85, 86, 87, 88, 89, 90, 91, 92, 93, 94, 95] @
     [96, 65, 66, 67, 68, 69, 70, 71, 72, 73, 74, 75, 76, 77, 78, 79] @
     [80, 81, 82, 83, 84, 85, 86, 87, 88, 89, 90, 123, 124, 125, 126, 127] @
     [128, 129, 130, 131, 132, 133, 134, 135, 136, 137, 138, 139, 140, 141, 142, 143] @
     [144, 145, 146, 147, 148, 149, 150, 151, 152, 153, 154, 155, 156, 157, 158, 159] @
     [160, 161, 162, 163, 164, 165, 166, 167, 168, 169, 170, 171, 172, 173, 174, 175] @
     [176, 177, 178, 179, 180, 181, 182, 183, 184, 185, 186, 187, 188, 189, 190, 191] @
     [192, 193, 194, 195, 196, 197, 198, 199, 200, 201, 202, 203, 204, 205, 206, 207] @
     [208, 209, 210, 211, 212, 213, 214, 215, 216, 217, 218, 219, 220, 221, 222, 223] @
     [224, 225, 226, 227, 228, 229, 230, 231, 232, 233, 234, 235, 236, 237, 238, 239] @
     [240, 241, 242, 243, 244, 245, 246, 247, 248, 249, 250, 251, 252, 253, 254, 255]"

section \<open>Classes\<close>

definition is_ascii :: "u8 \<Rightarrow> bool" where
  "is_ascii ch \<longleftrightarrow> (ucast ch :: u32) AND 0xFFFFFF80 = 0"

definition properties :: "u8 \<Rightarrow> character_properties" where
  "properties ch = (if is_ascii ch then kCharacterProperties ! unat ch else eNone)"

definition has_properties :: "u8 \<Rightarrow> character_properties \<Rightarrow> bool" where
  "has_properties ch prop \<longleftrightarrow> properties ch AND prop = prop"

definition has_some_properties :: "u8 \<Rightarrow> character_properties \<Rightarrow> bool" where
  "has_some_properties ch prop \<longleftrightarrow> properties ch AND prop \<noteq> eNone"

definition is_white :: "u8 \<Rightarrow> bool" where
  "is_white ch \<longleftrightarrow> ch = 0x20 \<or> ch = 0x0A \<or> ch = 0x09 \<or> ch = 0x0D"

definition is_blank :: "u8 \<Rightarrow> bool" where
  "is_blank ch \<longleftrightarrow> ch = 0x20 \<or> ch = 0x09"

definition is_space :: "u8 \<Rightarrow> bool" where "is_space ch = has_properties ch eSpace"
definition is_print :: "u8 \<Rightarrow> bool" where "is_print ch = has_properties ch ePrint"
definition is_graph :: "u8 \<Rightarrow> bool" where "is_graph ch = has_properties ch eGraph"
definition is_digit :: "u8 \<Rightarrow> bool" where "is_digit ch = has_properties ch eDigit"
definition is_hex_digit :: "u8 \<Rightarrow> bool" where "is_hex_digit ch = has_properties ch eHexDigit"
definition is_punct :: "u8 \<Rightarrow> bool" where "is_punct ch = has_properties ch ePunct"
definition is_alpha :: "u8 \<Rightarrow> bool" where "is_alpha ch = has_properties ch eAlpha"
definition is_control :: "u8 \<Rightarrow> bool" where "is_control ch = has_properties ch eControl"
definition is_lower :: "u8 \<Rightarrow> bool" where "is_lower ch = has_properties ch eLower"
definition is_upper :: "u8 \<Rightarrow> bool" where "is_upper ch = has_properties ch eUpper"

definition is_alpha_numeric :: "u8 \<Rightarrow> bool" where
  "is_alpha_numeric ch = has_some_properties ch (eAlpha OR eDigit)"

definition ascii_to_lower :: "u8 \<Rightarrow> u8" where "ascii_to_lower ch = kToLower ! unat ch"
definition ascii_to_upper :: "u8 \<Rightarrow> u8" where "ascii_to_upper ch = kToUpper ! unat ch"

section \<open>The classes as sets of codes\<close>

lemma byte_table:
  assumes "list_all (\<lambda>n. P (of_nat n)) [0..<256]" shows "P (b :: u8)"
  using list_all_upt [OF assms unat_u8 [of b]] by simp

lemmas flag_defs = eNone_def eControl_def eSpace_def ePunct_def eDigit_def eHexDigit_def eAlpha_def
  eLower_def eUpper_def eGraph_def ePrint_def

lemmas class_defs = is_space_def is_print_def is_graph_def is_digit_def is_hex_digit_def is_punct_def
  is_alpha_def is_control_def is_lower_def is_upper_def is_alpha_numeric_def has_properties_def
  has_some_properties_def flag_defs

text \<open>The tables, evaluated once: the flags by the runs of codes in which they are constant.\<close>

lemma kCharacterProperties_runs:
  "kCharacterProperties =
     replicate 9 0x001 @ replicate 5 0x003 @ replicate 18 0x001 @ [0x202] @ replicate 15 0x304 @
     replicate 10 0x318 @ replicate 7 0x304 @ replicate 6 0x3B0 @ replicate 20 0x3A0 @
     replicate 6 0x304 @ replicate 6 0x370 @ replicate 20 0x360 @ replicate 4 0x304 @ [0x001]"
  by (simp add: kCharacterProperties_def kPPG_def kDHGP_def kHAUGP_def kHALGP_def kAUGP_def kALGP_def
      kCtrlOrSpace_def flag_defs numeral_eq_Suc)

lemma is_ascii_iff: "is_ascii b \<longleftrightarrow> unat b < 128"
proof -
  have "(0xFFFFFF80 :: u32) = NOT (mask 7)" by (simp add: mask_numeral)
  moreover have "x AND NOT (mask 7) = 0 \<longleftrightarrow> x AND mask 7 = x" for x :: u32
    by (auto simp: bit_eq_iff bit_simps)
  ultimately have "is_ascii b \<longleftrightarrow> (ucast b :: u32) AND mask 7 = ucast b"
    by (simp add: is_ascii_def)
  also have "\<dots> \<longleftrightarrow> unat b mod 128 = unat b"
    by (simp add: word_unat_eq_iff unat_and_mask_eq unsigned_ucast_eq take_bit_nat_eq_self_iff [THEN iffD2] order_less_trans [OF unat_u8])
  finally show ?thesis by (simp add: mod_eq_self_iff_div_eq_0 div_eq_0_iff)
qed

lemma diff_less_shift: "0 < k \<Longrightarrow> n - m < k \<longleftrightarrow> n < m + k" for n m k :: nat
  by arith

lemma properties_eq:
  "properties b = (let n = unat b in
     if n < 9 then 0x001 else if n < 14 then 0x003 else if n < 32 then 0x001 else if n < 33 then 0x202
     else if n < 48 then 0x304 else if n < 58 then 0x318 else if n < 65 then 0x304
     else if n < 71 then 0x3B0 else if n < 91 then 0x3A0 else if n < 97 then 0x304
     else if n < 103 then 0x370 else if n < 123 then 0x360 else if n < 127 then 0x304
     else if n < 128 then 0x001 else 0)"
  by (simp add: properties_def is_ascii_iff Let_def kCharacterProperties_runs nth_append eNone_def
      diff_less_shift cong: if_cong)

lemma kToLower_runs: "map unat kToLower = [0..<65] @ [97..<123] @ [91..<256]"
  by code_simp

lemma kToUpper_runs: "map unat kToUpper = [0..<97] @ [65..<91] @ [123..<256]"
  by code_simp

lemma is_space_iff:
  "is_space b \<longleftrightarrow> 9 \<le> unat b \<and> unat b \<le> 13 \<or> unat b = 32"
  by (auto simp: class_defs properties_eq Let_def split: if_splits)

lemma is_print_iff:
  "is_print b \<longleftrightarrow> 32 \<le> unat b \<and> unat b \<le> 126"
  by (auto simp: class_defs properties_eq Let_def split: if_splits)

lemma is_graph_iff:
  "is_graph b \<longleftrightarrow> 33 \<le> unat b \<and> unat b \<le> 126"
  by (auto simp: class_defs properties_eq Let_def split: if_splits)

lemma is_digit_iff:
  "is_digit b \<longleftrightarrow> 48 \<le> unat b \<and> unat b \<le> 57"
  by (auto simp: class_defs properties_eq Let_def split: if_splits)

lemma is_hex_digit_iff:
  "is_hex_digit b \<longleftrightarrow> 48 \<le> unat b \<and> unat b \<le> 57 \<or> 65 \<le> unat b \<and> unat b \<le> 70 \<or> 97 \<le> unat b \<and> unat b \<le> 102"
  by (auto simp: class_defs properties_eq Let_def split: if_splits)

lemma is_upper_iff:
  "is_upper b \<longleftrightarrow> 65 \<le> unat b \<and> unat b \<le> 90"
  by (auto simp: class_defs properties_eq Let_def split: if_splits)

lemma is_lower_iff:
  "is_lower b \<longleftrightarrow> 97 \<le> unat b \<and> unat b \<le> 122"
  by (auto simp: class_defs properties_eq Let_def split: if_splits)

lemma is_alpha_iff:
  "is_alpha b \<longleftrightarrow> 65 \<le> unat b \<and> unat b \<le> 90 \<or> 97 \<le> unat b \<and> unat b \<le> 122"
  by (auto simp: class_defs properties_eq Let_def split: if_splits)

lemma is_alpha_numeric_iff:
  "is_alpha_numeric b \<longleftrightarrow> 48 \<le> unat b \<and> unat b \<le> 57 \<or> 65 \<le> unat b \<and> unat b \<le> 90
     \<or> 97 \<le> unat b \<and> unat b \<le> 122"
  by (auto simp: class_defs properties_eq Let_def split: if_splits)

lemma is_punct_iff:
  "is_punct b \<longleftrightarrow> 33 \<le> unat b \<and> unat b \<le> 47 \<or> 58 \<le> unat b \<and> unat b \<le> 64
     \<or> 91 \<le> unat b \<and> unat b \<le> 96 \<or> 123 \<le> unat b \<and> unat b \<le> 126"
  by (auto simp: class_defs properties_eq Let_def split: if_splits)

lemma is_control_iff:
  "is_control b \<longleftrightarrow> unat b < 32 \<or> unat b = 127"
  by (auto simp: class_defs properties_eq Let_def split: if_splits)

lemmas class_iffs = is_space_iff is_print_iff is_graph_iff is_digit_iff is_hex_digit_iff is_upper_iff
  is_lower_iff is_alpha_iff is_alpha_numeric_iff is_punct_iff is_control_iff

lemma class_relations:
  "is_alpha b \<longleftrightarrow> is_upper b \<or> is_lower b"
  "is_alpha_numeric b \<longleftrightarrow> is_alpha b \<or> is_digit b"
  "is_punct b \<longleftrightarrow> is_graph b \<and> \<not> is_alpha_numeric b"
  by (auto simp: class_iffs)

lemma blank_white_space:
  "is_blank b \<Longrightarrow> is_white b" "is_white b \<Longrightarrow> is_space b"
  by (auto simp: is_blank_def is_white_def is_space_iff)

lemma length_case_tables [simp]: "length kToLower = 256" "length kToUpper = 256"
  by (simp_all add: kToLower_def kToUpper_def)

lemma ascii_to_lower_eq:
  "unat (ascii_to_lower b) = (if 65 \<le> unat b \<and> unat b \<le> 90 then unat b + 32 else unat b)"
proof -
  have "unat (ascii_to_lower b) = map unat kToLower ! unat b"
    by (simp add: ascii_to_lower_def unat_u8)
  then show ?thesis using unat_u8 [of b] by (simp add: kToLower_runs nth_append del: upt_rec_numeral) arith
qed

lemma ascii_to_upper_eq:
  "unat (ascii_to_upper b) = (if 97 \<le> unat b \<and> unat b \<le> 122 then unat b - 32 else unat b)"
proof -
  have "unat (ascii_to_upper b) = map unat kToUpper ! unat b"
    by (simp add: ascii_to_upper_def unat_u8)
  then show ?thesis using unat_u8 [of b] by (simp add: kToUpper_runs nth_append del: upt_rec_numeral) arith
qed

end
