(* ===== verification/Numbers.thy ===== *)
theory Numbers
  imports Ascii
begin

text \<open>
  \<open>abel/strings/numbers.h\<close> and \<open>numbers.cc\<close>, the integer half: the printing of 32-bit and 64-bit
  integers two digits at a time (\<open>fast_int_to_buffer\<close>, whose \<open>goto\<close> labels are functions here), and
  the parsing with sign, base prefix and saturation (\<open>safe_strto*_base\<close>, \<open>simple_atoi\<close>). A buffer is
  a list of characters with the index of the next write. The value types of the parser are given by
  their limits; every intermediate result is checked against them, and \<open>None\<close> is an overflow.
\<close>

section \<open>Digits of a number\<close>

text \<open>\<open>dec_pad k n\<close> are the last \<open>k\<close> decimal digits of \<open>n\<close>, leading zeros included.\<close>

definition dec_char :: "nat \<Rightarrow> char" where
  "dec_char d = char_of (48 + d)"

primrec dec_pad :: "nat \<Rightarrow> nat \<Rightarrow> string" where
  "dec_pad 0 n = []"
| "dec_pad (Suc k) n = dec_pad k (n div 10) @ [dec_char (n mod 10)]"

lemma length_dec_pad [simp]: "length (dec_pad k n) = k"
  by (induction k arbitrary: n) auto

lemma dec_pad_split: "dec_pad (j + k) n = dec_pad j (n div 10 ^ k) @ dec_pad k n"
  by (induction k arbitrary: n) (simp_all add: div_mult2_eq)

lemma dec_pad_mod: "dec_pad k (n mod 10 ^ k) = dec_pad k n"
proof (induction k arbitrary: n)
  case (Suc k)
  have "n mod 10 ^ Suc k div 10 = n div 10 mod 10 ^ k" by (simp add: mod_mult2_eq)
  moreover have "n mod 10 ^ Suc k mod 10 = n mod 10" by (simp add: mod_mult2_eq)
  ultimately show ?case using Suc.IH [of "n div 10"] by simp
qed simp

lemma dec_digits_pad:
  "10 ^ k \<le> n \<Longrightarrow> n < 10 ^ Suc k \<Longrightarrow> dec_digits n = dec_pad (Suc k) n"
proof (induction k arbitrary: n)
  case 0
  then show ?case by (simp add: dec_digits.simps [of n] dec_char_def)
next
  case (Suc k)
  then have "dec_digits (n div 10) = dec_pad (Suc k) (n div 10)"
    by (intro Suc.IH) (auto simp: less_eq_div_iff_mult_less_eq mult.commute)
  moreover have "10 * 1 \<le> 10 * (10::nat) ^ k" by (intro mult_le_mono) simp_all
  then have "10 * 1 \<le> n" using Suc.prems(1) by (metis order_trans power_Suc)
  then have "\<not> n < 10" by simp
  ultimately show ?case by (simp add: dec_digits.simps [of n] dec_char_def)
qed

lemma dec_digits_zero: "n < 10 \<Longrightarrow> dec_digits n = dec_pad 1 n"
  by (simp add: dec_digits.simps [of n] dec_char_def)

lemma dec_digits_split:
  "10 ^ k \<le> n \<Longrightarrow> dec_digits n = dec_digits (n div 10 ^ k) @ dec_pad k n"
proof (induction k arbitrary: n)
  case (Suc k)
  have k: "10 ^ k \<le> n div 10" using Suc.prems by (simp add: less_eq_div_iff_mult_less_eq mult.commute)
  then have "\<not> n < 10" by (metis div_less le_zero_eq power_not_zero zero_neq_numeral)
  then have "dec_digits n = dec_digits (n div 10) @ [dec_char (n mod 10)]"
    by (simp add: dec_digits.simps [of n] dec_char_def)
  with Suc.IH [OF k] show ?case by (simp add: div_mult2_eq)
qed simp

lemma length_dec_digits_le: "n < 10 ^ k \<Longrightarrow> 0 < k \<Longrightarrow> length (dec_digits n) \<le> k"
proof (induction k arbitrary: n)
  case (Suc k)
  show ?case
  proof (cases "n < 10")
    case False
    with Suc.prems have "n div 10 < 10 ^ k" "0 < k" by (auto intro!: gr0I)
    with Suc.IH False show ?thesis by (simp add: dec_digits.simps [of n])
  qed (simp add: dec_digits.simps)
qed simp

text \<open>What printing a signed value writes.\<close>

definition show_int :: "int \<Rightarrow> string" where
  "show_int v = (if v < 0 then ''-'' @ dec_digits (nat (- v)) else dec_digits (nat v))"

section \<open>Printing\<close>

definition one_ASCII_final_digits :: "string list" where
  "one_ASCII_final_digits = [[CHR ''0'', CHR 0x00], [CHR ''1'', CHR 0x00], [CHR ''2'', CHR 0x00],
     [CHR ''3'', CHR 0x00], [CHR ''4'', CHR 0x00], [CHR ''5'', CHR 0x00], [CHR ''6'', CHR 0x00],
     [CHR ''7'', CHR 0x00], [CHR ''8'', CHR 0x00], [CHR ''9'', CHR 0x00]]"

definition two_ASCII_digits :: "string list" where
  "two_ASCII_digits =
     [
      ''00'', ''01'', ''02'', ''03'', ''04'', ''05'', ''06'', ''07'', ''08'', ''09'',
      ''10'', ''11'', ''12'', ''13'', ''14'', ''15'', ''16'', ''17'', ''18'', ''19'',
      ''20'', ''21'', ''22'', ''23'', ''24'', ''25'', ''26'', ''27'', ''28'', ''29'',
      ''30'', ''31'', ''32'', ''33'', ''34'', ''35'', ''36'', ''37'', ''38'', ''39'',
      ''40'', ''41'', ''42'', ''43'', ''44'', ''45'', ''46'', ''47'', ''48'', ''49'',
      ''50'', ''51'', ''52'', ''53'', ''54'', ''55'', ''56'', ''57'', ''58'', ''59'',
      ''60'', ''61'', ''62'', ''63'', ''64'', ''65'', ''66'', ''67'', ''68'', ''69'',
      ''70'', ''71'', ''72'', ''73'', ''74'', ''75'', ''76'', ''77'', ''78'', ''79'',
      ''80'', ''81'', ''82'', ''83'', ''84'', ''85'', ''86'', ''87'', ''88'', ''89'',
      ''90'', ''91'', ''92'', ''93'', ''94'', ''95'', ''96'', ''97'', ''98'', ''99'']"

definition put_two_digits :: "u32 \<Rightarrow> string \<Rightarrow> nat \<Rightarrow> string" where
  "put_two_digits i buf p = overwrite buf p (two_ASCII_digits ! unat i)"

text \<open>The part of the function from each label on: the remaining number, the buffer, the position.\<close>

definition lt100 :: "u32 \<Rightarrow> string \<Rightarrow> nat \<Rightarrow> string \<times> nat" where
  "lt100 i buf p =
     (let digits = i;
          buf = put_two_digits digits buf p;
          p = p + 2
      in (overwrite buf p [CHR 0x00], p))"

definition lt10_000 :: "u32 \<Rightarrow> string \<Rightarrow> nat \<Rightarrow> string \<times> nat" where
  "lt10_000 i buf p =
     (let digits = i div 100;
          i = i - digits * 100
      in lt100 i (put_two_digits digits buf p) (p + 2))"

definition lt1_000_000 :: "u32 \<Rightarrow> string \<Rightarrow> nat \<Rightarrow> string \<times> nat" where
  "lt1_000_000 i buf p =
     (let digits = i div 10000;
          i = i - digits * 10000
      in lt10_000 i (put_two_digits digits buf p) (p + 2))"

definition lt100_000_000 :: "u32 \<Rightarrow> string \<Rightarrow> nat \<Rightarrow> string \<times> nat" where
  "lt100_000_000 i buf p =
     (let digits = i div 1000000;
          i = i - digits * 1000000
      in lt1_000_000 i (put_two_digits digits buf p) (p + 2))"

text \<open>\<open>*buffer++ = '0' + digits\<close>: the sum is an \<open>unsigned\<close>, the store keeps its low byte.\<close>

definition put_digit :: "u32 \<Rightarrow> string \<Rightarrow> nat \<Rightarrow> string" where
  "put_digit digits buf p = overwrite buf p [char_of_byte (ucast (0x30 + digits))]"

definition fast_int_to_buffer_u32 :: "u32 \<Rightarrow> string \<Rightarrow> nat \<Rightarrow> string \<times> nat" where
  "fast_int_to_buffer_u32 i buf p =
     (if 1000000000 \<le> i then
        let digits = i div 100000000;
            i = i - digits * 100000000
        in lt100_000_000 i (put_two_digits digits buf p) (p + 2)
      else if i < 100 then
        if 10 \<le> i then lt100 i buf p
        else (overwrite buf p (one_ASCII_final_digits ! unat i), p + 1)
      else if i < 10000 then
        if 1000 \<le> i then lt10_000 i buf p
        else let digits = i div 100; i = i - digits * 100
             in lt100 i (put_digit digits buf p) (p + 1)
      else if i < 1000000 then
        if 100000 \<le> i then lt1_000_000 i buf p
        else let digits = i div 10000; i = i - digits * 10000
             in lt10_000 i (put_digit digits buf p) (p + 1)
      else if i < 100000000 then
        if 10000000 \<le> i then lt100_000_000 i buf p
        else let digits = i div 1000000; i = i - digits * 1000000
             in lt1_000_000 i (put_digit digits buf p) (p + 1)
      else
        let digits = i div 100000000; i = i - digits * 100000000
        in lt100_000_000 i (put_digit digits buf p) (p + 1))"

text \<open>The two halves of the 64-bit version: the leading digits, then the last nine.\<close>

definition print_leading :: "u64 \<Rightarrow> string \<Rightarrow> nat \<Rightarrow> string \<times> nat" where
  "print_leading top_1to11 buf p =
     (let top_1to11_32 = (ucast top_1to11 :: u32) in
      if ucast top_1to11_32 = top_1to11 then fast_int_to_buffer_u32 top_1to11_32 buf p
      else
        let top_8to9 = (ucast (top_1to11 div 100) :: u32);
            mid_2 = (ucast (top_1to11 - ucast (top_8to9 * 100)) :: u32);
            (buf, p) = fast_int_to_buffer_u32 top_8to9 buf p
        in (put_two_digits mid_2 buf p, p + 2))"

definition print_last9 :: "u32 \<Rightarrow> string \<Rightarrow> nat \<Rightarrow> string \<times> nat" where
  "print_last9 u32 buf p =
     (let digits = u32 div 10000000; u32 = u32 - digits * 10000000;
          buf = put_two_digits digits buf p; p = p + 2;
          digits = u32 div 100000; u32 = u32 - digits * 100000;
          buf = put_two_digits digits buf p; p = p + 2;
          digits = u32 div 1000; u32 = u32 - digits * 1000;
          buf = put_two_digits digits buf p; p = p + 2;
          digits = u32 div 10; u32 = u32 - digits * 10;
          buf = put_two_digits digits buf p; p = p + 2
      in (overwrite buf p (one_ASCII_final_digits ! unat u32), p + 1))"

definition fast_int_to_buffer_u64 :: "u64 \<Rightarrow> string \<Rightarrow> nat \<Rightarrow> string \<times> nat" where
  "fast_int_to_buffer_u64 i buf p =
     (let u32 = (ucast i :: u32) in
      if ucast u32 = i then fast_int_to_buffer_u32 u32 buf p
      else
        let top_1to11 = i div 1000000000;
            u32 = ucast (i - top_1to11 * 1000000000);
            (buf, p) = print_leading top_1to11 buf p
        in print_last9 u32 buf p)"

definition fast_int_to_buffer_i32 :: "u32 \<Rightarrow> string \<Rightarrow> nat \<Rightarrow> string \<times> nat" where
  "fast_int_to_buffer_i32 i buf p =
     (let u = i in
      if sint i < 0 then fast_int_to_buffer_u32 (0 - u) (overwrite buf p ''-'') (p + 1)
      else fast_int_to_buffer_u32 u buf p)"

definition fast_int_to_buffer_i64 :: "u64 \<Rightarrow> string \<Rightarrow> nat \<Rightarrow> string \<times> nat" where
  "fast_int_to_buffer_i64 i buf p =
     (let u = i in
      if sint i < 0 then fast_int_to_buffer_u64 (0 - u) (overwrite buf p ''-'') (p + 1)
      else fast_int_to_buffer_u64 u buf p)"


section \<open>Printing writes the decimal digits\<close>

lemma two_ASCII_digits_eq: "two_ASCII_digits = map (dec_pad 2) [0..<100]"
  by code_simp

lemma final_digits_eq: "one_ASCII_final_digits = map (\<lambda>n. dec_pad 1 n @ [CHR 0x00]) [0..<10]"
  by code_simp

lemma put_two_digits_eq:
  "unat i < 100 \<Longrightarrow> put_two_digits i buf p = overwrite buf p (dec_pad 2 (unat i))"
  by (simp add: put_two_digits_def two_ASCII_digits_eq del: upt_rec_numeral)

lemma final_digit_eq:
  "n < 10 \<Longrightarrow> one_ASCII_final_digits ! n = dec_pad 1 n @ [CHR 0x00]"
  by (simp add: final_digits_eq del: upt_rec_numeral)

lemma put_digit_eq: "unat i < 10 \<Longrightarrow> put_digit i buf p = overwrite buf p (dec_pad 1 (unat i))"
  by (simp add: put_digit_def char_of_byte_def dec_char_def unat_word_ariths unsigned_ucast_eq take_bit_eq_mod)

text \<open>Consecutive writes are one write of the concatenation.\<close>

lemma overwrite_overwrite:
  "p \<le> length buf \<Longrightarrow> q = p + length xs \<Longrightarrow>
   overwrite (overwrite buf p xs) q ys = overwrite buf p (xs @ ys)"
  by (simp add: overwrite_def add.assoc add.left_commute add.commute)

lemma length_overwrite_ge:
  "p \<le> length buf \<Longrightarrow> q \<le> p + length xs \<Longrightarrow> q \<le> length (overwrite buf p xs)"
  by (simp add: overwrite_def)

text \<open>A later write replaces the terminator, or whatever was written there before.\<close>

lemma overwrite_over:
  "p \<le> length buf \<Longrightarrow> q = p + length xs \<Longrightarrow> length ws \<le> length ys \<Longrightarrow>
   overwrite (overwrite buf p (xs @ ws)) q ys = overwrite buf p (xs @ ys)"
  by (simp add: overwrite_def add.assoc add.left_commute add.commute)

lemmas writes = put_two_digits_eq put_digit_eq final_digit_eq overwrite_overwrite length_overwrite_ge

lemma unat_rest: "unat (i - i div c * c :: 'a::len word) = unat i mod unat c"
  by (simp add: minus_div_mult_eq_mod unat_mod)

lemma dec_pad_group: "dec_pad (j + k) n = dec_pad j (n div 10 ^ k) @ dec_pad k (n mod 10 ^ k)"
  by (simp add: dec_pad_split dec_pad_mod)

lemma lt100_eq:
  "unat i < 100 \<Longrightarrow> p \<le> length buf \<Longrightarrow>
   lt100 i buf p = (overwrite buf p (dec_pad 2 (unat i) @ [CHR 0x00]), p + 2)"
  by (simp add: lt100_def Let_def writes)

lemma lt10_000_eq:
  assumes "unat i < 10000" "p \<le> length buf"
  shows "lt10_000 i buf p = (overwrite buf p (dec_pad 4 (unat i) @ [CHR 0x00]), p + 4)"
  using assms dec_pad_group [of 2 2 "unat i"]
  by (simp add: lt10_000_def Let_def writes unat_rest unat_div lt100_eq less_mult_imp_div_less)

lemma lt1_000_000_eq:
  assumes "unat i < 1000000" "p \<le> length buf"
  shows "lt1_000_000 i buf p = (overwrite buf p (dec_pad 6 (unat i) @ [CHR 0x00]), p + 6)"
  using assms dec_pad_group [of 2 4 "unat i"]
  by (simp add: lt1_000_000_def Let_def writes unat_rest unat_div lt10_000_eq less_mult_imp_div_less)

lemma lt100_000_000_eq:
  assumes "unat i < 100000000" "p \<le> length buf"
  shows "lt100_000_000 i buf p = (overwrite buf p (dec_pad 8 (unat i) @ [CHR 0x00]), p + 8)"
  using assms dec_pad_group [of 2 6 "unat i"]
  by (simp add: lt100_000_000_def Let_def writes unat_rest unat_div lt1_000_000_eq less_mult_imp_div_less)


lemma dec_digits_group:
  "10 ^ (j + k) \<le> n \<Longrightarrow> n < 10 ^ Suc (j + k) \<Longrightarrow>
   dec_digits n = dec_pad (Suc j) (n div 10 ^ k) @ dec_pad k (n mod 10 ^ k)"
  using dec_digits_pad [of "j + k" n] dec_pad_group [of "Suc j" k n] by simp

lemmas print_u32 = word_le_nat_alt word_less_nat_alt Let_def writes unat_rest unat_div lt100_eq lt10_000_eq
  lt1_000_000_eq lt100_000_000_eq less_mult_imp_div_less

lemma fast_u32_eq:
  assumes "p \<le> length buf"
  shows "fast_int_to_buffer_u32 i buf p =
    (overwrite buf p (dec_digits (unat i) @ [CHR 0x00]), p + length (dec_digits (unat i)))"
    (is "?l = ?r (dec_digits ?n)")
proof -
  note def = fast_int_to_buffer_u32_def
  consider "?n < 10" | "10 \<le> ?n" "?n < 100" | "100 \<le> ?n" "?n < 1000" | "1000 \<le> ?n" "?n < 10000"
    | "10000 \<le> ?n" "?n < 100000" | "100000 \<le> ?n" "?n < 1000000"
    | "1000000 \<le> ?n" "?n < 10000000" | "10000000 \<le> ?n" "?n < 100000000"
    | "100000000 \<le> ?n" "?n < 1000000000" | "1000000000 \<le> ?n" by linarith
  then show ?thesis
  proof cases
    case 1
    with assms show ?thesis by (simp add: def print_u32 dec_digits_zero)
  next
    case 2
    then have "dec_digits ?n = dec_pad 2 ?n"
      using dec_digits_pad [of 1 ?n] by (simp add: numeral_2_eq_2)
    with 2 assms show ?thesis by (simp add: def print_u32)
  next
    case 3
    with assms show ?thesis using dec_digits_group [of 0 2 ?n] by (simp add: def print_u32)
  next
    case 4
    with assms show ?thesis using dec_digits_pad [of 3 ?n] by (simp add: def print_u32)
  next
    case 5
    with assms show ?thesis using dec_digits_group [of 0 4 ?n] by (simp add: def print_u32)
  next
    case 6
    with assms show ?thesis using dec_digits_pad [of 5 ?n] by (simp add: def print_u32)
  next
    case 7
    with assms show ?thesis using dec_digits_group [of 0 6 ?n] by (simp add: def print_u32)
  next
    case 8
    with assms show ?thesis using dec_digits_pad [of 7 ?n] by (simp add: def print_u32)
  next
    case 9
    with assms show ?thesis using dec_digits_group [of 0 8 ?n] by (simp add: def print_u32)
  next
    case 10
    then have "dec_digits ?n = dec_pad 2 (?n div 100000000) @ dec_pad 8 (?n mod 100000000)"
      using unat_u32 [of i] dec_digits_group [of 1 8 ?n] by (simp add: numeral_2_eq_2)
    with 10 assms unat_u32 [of i] show ?thesis by (simp add: def print_u32)
  qed
qed


text \<open>The last nine digits, and the digits before them.\<close>

lemma print_last9_eq:
  assumes "unat i < 1000000000" "p \<le> length buf"
  shows "print_last9 i buf p = (overwrite buf p (dec_pad 9 (unat i) @ [CHR 0x00]), p + 9)"
proof -
  let ?n = "unat i"
  have "dec_pad 9 ?n = dec_pad 2 (?n div 10000000) @ dec_pad 7 (?n mod 10000000)"
    using dec_pad_group [of 2 7 ?n] by simp
  moreover have "dec_pad 7 m = dec_pad 2 (m div 100000) @ dec_pad 5 (m mod 100000)" for m
    using dec_pad_group [of 2 5 m] by simp
  moreover have "dec_pad 5 m = dec_pad 2 (m div 1000) @ dec_pad 3 (m mod 1000)" for m
    using dec_pad_group [of 2 3 m] by simp
  moreover have "dec_pad 3 m = dec_pad 2 (m div 10) @ dec_pad 1 (m mod 10)" for m
    using dec_pad_group [of 2 1 m] by simp
  ultimately show ?thesis using assms
    by (simp add: print_last9_def Let_def writes unat_rest unat_div less_mult_imp_div_less del: dec_pad.simps)
qed

lemma unat_u64: "unat (w :: u64) < 18446744073709551616"
  using unsigned_less [of w] by simp

lemma unat_ucast_32: "unat (ucast (w :: u64) :: u32) = unat w mod 2 ^ 32"
  by (simp add: unsigned_ucast_eq take_bit_eq_mod)

lemma unat_ucast_64: "unat (ucast (w :: u32) :: u64) = unat w"
  using unat_u32 [of w] by (simp add: unsigned_ucast_eq take_bit_eq_mod)

lemma fits_32: "ucast (ucast w :: u32) = w \<longleftrightarrow> unat w < 2 ^ 32" for w :: u64
  by (simp add: word_unat_eq_iff unat_ucast_64 unat_ucast_32 mod_eq_self_iff_div_eq_0 div_eq_0_iff)

text \<open>
  In \<open>top_8to9 * 100\<close> the product is a \<open>uint32_t\<close> and may wrap; the difference is cut to 32 bits
  again, so the two digits are right all the same.
\<close>

lemma mod_64_32: "(x mod 18446744073709551616) mod 4294967296 = x mod 4294967296" for x :: int
  by (simp add: mod_mod_cancel)

lemma ucast_diff_32: "(ucast (a - b :: u64) :: u32) = ucast a - ucast b"
  by transfer (simp add: take_bit_eq_mod mod_64_32, metis mod_64_32 mod_diff_eq)

lemma ucast_mult_32: "(ucast (a * b :: u64) :: u32) = ucast a * ucast b"
  by transfer (simp add: take_bit_eq_mod mod_64_32, metis mod_64_32 mod_mult_eq)

lemma ucast_ucast_32: "(ucast (ucast x :: u64) :: u32) = x"
  by (simp add: word_unat_eq_iff unat_ucast_64 unat_ucast_32 unat_u32)

lemma mid_2_eq:
  "(ucast (t - ucast ((ucast (t div 100) :: u32) * 100)) :: u32) = ucast (t mod 100)" for t :: u64
proof -
  have "ucast (t mod 100) = (ucast (t - t div 100 * 100) :: u32)"
    by (simp add: minus_div_mult_eq_mod)
  also have "\<dots> = ucast t - ucast (t div 100) * 100"
    by (simp add: ucast_diff_32 ucast_mult_32)
  finally show ?thesis by (simp add: ucast_diff_32 ucast_ucast_32)
qed

lemma print_leading_eq:
  assumes "unat t < 100 * 2 ^ 32" "p \<le> length buf"
  obtains rest where "print_leading t buf p =
    (overwrite buf p (dec_digits (unat t) @ rest), p + length (dec_digits (unat t)))" "length rest \<le> 1"
proof (cases "unat t < 2 ^ 32")
  case True
  with assms(2) have "print_leading t buf p =
      (overwrite buf p (dec_digits (unat t) @ [CHR 0x00]), p + length (dec_digits (unat t)))"
    by (simp add: print_leading_def fits_32 fast_u32_eq unat_ucast_32)
  then show ?thesis by (intro that [of "[CHR 0x00]"]) simp_all
next
  case False
  let ?u = "ucast (t div 100) :: u32" and ?m = "ucast (t mod 100) :: u32"
  have u: "unat ?u = unat t div 100" and m: "unat ?m = unat t mod 100"
    using assms(1) by (simp_all add: unat_ucast_32 unat_div unat_mod less_mult_imp_div_less)
  have "dec_digits (unat t) = dec_digits (unat t div 100) @ dec_pad 2 (unat t mod 100)"
    using False dec_digits_split [of 2 "unat t"] dec_pad_mod [of 2 "unat t"] by simp
  then have "print_leading t buf p =
      (overwrite buf p (dec_digits (unat t) @ []), p + length (dec_digits (unat t)))"
    using False assms(2) u m
    by (simp add: print_leading_def fits_32 mid_2_eq Let_def fast_u32_eq writes overwrite_over)
  then show ?thesis by (intro that [of "[]"]) simp_all
qed


lemma fast_u64_eq:
  assumes "p \<le> length buf"
  shows "fast_int_to_buffer_u64 i buf p =
    (overwrite buf p (dec_digits (unat i) @ [CHR 0x00]), p + length (dec_digits (unat i)))"
proof (cases "unat i < 2 ^ 32")
  case True
  with assms show ?thesis
    by (simp add: fast_int_to_buffer_u64_def fits_32 fast_u32_eq unat_ucast_32)
next
  case False
  let ?t = "i div 1000000000" and ?r = "ucast (i - i div 1000000000 * 1000000000) :: u32"
  have t: "unat ?t = unat i div 1000000000" by (simp add: unat_div)
  then have "unat ?t < 100 * 2 ^ 32"
    using unat_u64 [of i] by (simp add: less_mult_imp_div_less)
  then obtain ws where lead: "print_leading ?t buf p =
      (overwrite buf p (dec_digits (unat ?t) @ ws), p + length (dec_digits (unat ?t)))" "length ws \<le> 1"
    using assms by (rule print_leading_eq)
  have r: "unat ?r = unat i mod 1000000000"
    by (simp add: unat_ucast_32 unat_rest del: ucast_diff_32)
  have "dec_digits (unat i) = dec_digits (unat ?t) @ dec_pad 9 (unat ?r)"
    using False dec_digits_split [of 9 "unat i"] dec_pad_mod [of 9 "unat i"] by (simp add: t r)
  with False lead assms r show ?thesis
    by (simp add: fast_int_to_buffer_u64_def fits_32 Let_def print_last9_eq overwrite_over length_overwrite_ge)
qed

lemma unat_word_of_int: "0 \<le> k \<Longrightarrow> k < 2 ^ LENGTH('a) \<Longrightarrow> unat (word_of_int k :: 'a::len word) = nat k"
  by (simp add: unat_eq_nat_uint uint_word_of_int)

lemma negated_unat:
  assumes "sint (i :: 'a::len word) < 0" shows "unat (0 - i) = nat (- sint i)"
proof -
  have "(2::int) ^ (LENGTH('a) - 1) < 2 ^ LENGTH('a)" by (rule power_strict_increasing) simp_all
  then have "unat (word_of_int (- sint i) :: 'a word) = nat (- sint i)"
    using assms sint_ge [of i] by (intro unat_word_of_int) linarith+
  then show ?thesis by simp
qed

lemma nonneg_unat:
  assumes "0 \<le> sint (i :: 'a::len word)" shows "unat i = nat (sint i)"
proof -
  have "(2::int) ^ (LENGTH('a) - 1) < 2 ^ LENGTH('a)" by (rule power_strict_increasing) simp_all
  then have "unat (word_of_int (sint i) :: 'a word) = nat (sint i)"
    using assms sint_lt [of i] by (intro unat_word_of_int) linarith+
  then show ?thesis by simp
qed

lemma fast_i32_eq:
  assumes "p \<le> length buf"
  shows "fast_int_to_buffer_i32 i buf p =
    (overwrite buf p (show_int (sint i) @ [CHR 0x00]), p + length (show_int (sint i)))"
  using assms negated_unat [of i] nonneg_unat [of i]
  by (cases "sint i < 0") (simp_all add: fast_int_to_buffer_i32_def show_int_def fast_u32_eq writes)

lemma fast_i64_eq:
  assumes "p \<le> length buf"
  shows "fast_int_to_buffer_i64 i buf p =
    (overwrite buf p (show_int (sint i) @ [CHR 0x00]), p + length (show_int (sint i)))"
  using assms negated_unat [of i] nonneg_unat [of i]
  by (cases "sint i < 0") (simp_all add: fast_int_to_buffer_i64_def show_int_def fast_u64_eq writes)


section \<open>Parsing\<close>

text \<open>A \<open>string_view\<close>: the bytes seen, and \<open>None\<close> for the one without data.\<close>

type_synonym string_view = "string option"

definition kAsciiToInt :: "int list" where
  "kAsciiToInt =
     [36, 36, 36, 36, 36, 36, 36, 36, 36, 36, 36, 36, 36, 36, 36, 36, 36, 36, 36, 36, 36, 36, 36, 36, 36, 36, 36, 36, 36, 36, 36, 36] @
     [36, 36, 36, 36, 36, 36, 36, 36, 36, 36, 36, 36, 36, 36, 36, 36, 0, 1, 2, 3, 4, 5, 6, 7, 8, 9, 36, 36, 36, 36, 36, 36] @
     [36, 10, 11, 12, 13, 14, 15, 16, 17, 18, 19, 20, 21, 22, 23, 24, 25, 26, 27, 28, 29, 30, 31, 32, 33, 34, 35, 36, 36, 36, 36, 36] @
     [36, 10, 11, 12, 13, 14, 15, 16, 17, 18, 19, 20, 21, 22, 23, 24, 25, 26, 27, 28, 29, 30, 31, 32, 33, 34, 35, 36, 36, 36, 36, 36] @
     [36, 36, 36, 36, 36, 36, 36, 36, 36, 36, 36, 36, 36, 36, 36, 36, 36, 36, 36, 36, 36, 36, 36, 36, 36, 36, 36, 36, 36, 36, 36, 36] @
     [36, 36, 36, 36, 36, 36, 36, 36, 36, 36, 36, 36, 36, 36, 36, 36, 36, 36, 36, 36, 36, 36, 36, 36, 36, 36, 36, 36, 36, 36, 36, 36] @
     [36, 36, 36, 36, 36, 36, 36, 36, 36, 36, 36, 36, 36, 36, 36, 36, 36, 36, 36, 36, 36, 36, 36, 36, 36, 36, 36, 36, 36, 36, 36, 36] @
     [36, 36, 36, 36, 36, 36, 36, 36, 36, 36, 36, 36, 36, 36, 36, 36, 36, 36, 36, 36, 36, 36, 36, 36, 36, 36, 36, 36, 36, 36, 36, 36]"

text \<open>The limits of the value type, and its operations, which are checked against the limits.\<close>

record int_limits =
  vmin :: int
  vmax :: int

definition limits_i32 :: int_limits where "limits_i32 = \<lparr>vmin = - (2 ^ 31), vmax = 2 ^ 31 - 1\<rparr>"
definition limits_i64 :: int_limits where "limits_i64 = \<lparr>vmin = - (2 ^ 63), vmax = 2 ^ 63 - 1\<rparr>"
definition limits_u32 :: int_limits where "limits_u32 = \<lparr>vmin = 0, vmax = 2 ^ 32 - 1\<rparr>"
definition limits_u64 :: int_limits where "limits_u64 = \<lparr>vmin = 0, vmax = 2 ^ 64 - 1\<rparr>"
definition limits_u128 :: int_limits where "limits_u128 = \<lparr>vmin = 0, vmax = 2 ^ 128 - 1\<rparr>"

definition ckt :: "int_limits \<Rightarrow> int \<Rightarrow> int option" where
  "ckt ty x = (if vmin ty \<le> x \<and> x \<le> vmax ty then Some x else None)"

definition X_OVER_BASE :: "int \<Rightarrow> int list" where
  "X_OVER_BASE X =
     [0, 0, X sdiv 2, X sdiv 3, X sdiv 4, X sdiv 5, X sdiv 6, X sdiv 7, X sdiv 8, X sdiv 9, X sdiv 10,
      X sdiv 11, X sdiv 12, X sdiv 13, X sdiv 14, X sdiv 15, X sdiv 16, X sdiv 17, X sdiv 18,
      X sdiv 19, X sdiv 20, X sdiv 21, X sdiv 22, X sdiv 23, X sdiv 24, X sdiv 25, X sdiv 26,
      X sdiv 27, X sdiv 28, X sdiv 29, X sdiv 30, X sdiv 31, X sdiv 32, X sdiv 33, X sdiv 34,
      X sdiv 35, X sdiv 36]"

definition kVmaxOverBase :: "int_limits \<Rightarrow> int list" where
  "kVmaxOverBase ty = X_OVER_BASE (vmax ty)"

definition kVminOverBase :: "int_limits \<Rightarrow> int list" where
  "kVminOverBase ty = X_OVER_BASE (vmin ty)"

definition strip_space :: "string \<Rightarrow> string" where
  "strip_space s = rev (dropWhile (is_space \<circ> byte_of) (rev (dropWhile (is_space \<circ> byte_of) s)))"

definition has_0x :: "string \<Rightarrow> bool" where
  "has_0x s \<longleftrightarrow> 2 \<le> length s \<and> s ! 0 = CHR ''0'' \<and> (s ! 1 = CHR ''x'' \<or> s ! 1 = CHR ''X'')"

text \<open>
  The prefix that the base allows, after the sign. On success: the rest of the text, the base to
  parse it in, and whether the sign is a minus.
\<close>

definition consume_prefix :: "string \<Rightarrow> int \<Rightarrow> bool \<Rightarrow> (string \<times> int \<times> bool) option" where
  "consume_prefix s base negative =
     (if base = 0 then
        if has_0x s then
          let s = drop 2 s in if s = [] then None else Some (s, 16, negative)
        else if 1 \<le> length s \<and> s ! 0 = CHR ''0'' then Some (drop 1 s, 8, negative)
        else Some (s, 10, negative)
      else if base = 16 then
        if has_0x s then
          let s = drop 2 s in if s = [] then None else Some (s, base, negative)
        else Some (s, base, negative)
      else if 2 \<le> base \<and> base \<le> 36 then Some (s, base, negative)
      else None)"

definition safe_parse_sign_and_base :: "string_view \<Rightarrow> int \<Rightarrow> (string \<times> int \<times> bool) option" where
  "safe_parse_sign_and_base text base =
     (case text of None \<Rightarrow> None
      | Some s \<Rightarrow>
        let s = strip_space s in
        if s = [] then None else
        let negative = (s ! 0 = CHR ''-'');
            has_sign = (negative \<or> s ! 0 = CHR ''+'');
            s = (if has_sign then drop 1 s else s)
        in if has_sign \<and> s = [] then None else consume_prefix s base negative)"

text \<open>
  The loops. The result is the value stored and whether the call returns true; \<open>None\<close> would be an
  overflow of the value type on the way.
\<close>

definition digit_of :: "char \<Rightarrow> int" where
  "digit_of c = kAsciiToInt ! unat (byte_of c)"

fun positive_loop :: "int_limits \<Rightarrow> int \<Rightarrow> int \<Rightarrow> string \<Rightarrow> (int \<times> bool) option" where
  "positive_loop ty base x [] = Some (x, True)"
| "positive_loop ty base x (c # cs) =
     (let digit = digit_of c in
      if base \<le> digit then Some (x, False)
      else if kVmaxOverBase ty ! nat base < x then Some (vmax ty, False)
      else do {
        x \<leftarrow> ckt ty (x * base);
        limit \<leftarrow> ckt ty (vmax ty - digit);
        if limit < x then Some (vmax ty, False)
        else do {
          x \<leftarrow> ckt ty (x + digit);
          positive_loop ty base x cs
        }
      })"

definition safe_parse_positive_int :: "int_limits \<Rightarrow> string \<Rightarrow> int \<Rightarrow> (int \<times> bool) option" where
  "safe_parse_positive_int ty text base = positive_loop ty base 0 text"

fun negative_loop :: "int_limits \<Rightarrow> int \<Rightarrow> int \<Rightarrow> int \<Rightarrow> string \<Rightarrow> (int \<times> bool) option" where
  "negative_loop ty base vmin_over_base x [] = Some (x, True)"
| "negative_loop ty base vmin_over_base x (c # cs) =
     (let digit = digit_of c in
      if base \<le> digit then Some (x, False)
      else if x < vmin_over_base then Some (vmin ty, False)
      else do {
        x \<leftarrow> ckt ty (x * base);
        limit \<leftarrow> ckt ty (vmin ty + digit);
        if x < limit then Some (vmin ty, False)
        else do {
          x \<leftarrow> ckt ty (x - digit);
          negative_loop ty base vmin_over_base x cs
        }
      })"

definition safe_parse_negative_int :: "int_limits \<Rightarrow> string \<Rightarrow> int \<Rightarrow> (int \<times> bool) option" where
  "safe_parse_negative_int ty text base =
     (let vmin_over_base = kVminOverBase ty ! nat base;
          vmin_over_base = (if 0 < vmin ty smod base then vmin_over_base + 1 else vmin_over_base)
      in negative_loop ty base vmin_over_base 0 text)"

definition safe_int_internal :: "int_limits \<Rightarrow> string_view \<Rightarrow> int \<Rightarrow> (int \<times> bool) option" where
  "safe_int_internal ty text base =
     (case safe_parse_sign_and_base text base of
        None \<Rightarrow> Some (0, False)
      | Some (text, base, negative) \<Rightarrow>
          if \<not> negative then safe_parse_positive_int ty text base
          else safe_parse_negative_int ty text base)"

definition safe_uint_internal :: "int_limits \<Rightarrow> string_view \<Rightarrow> int \<Rightarrow> (int \<times> bool) option" where
  "safe_uint_internal ty text base =
     (case safe_parse_sign_and_base text base of
        None \<Rightarrow> Some (0, False)
      | Some (text, base, negative) \<Rightarrow>
          if negative then Some (0, False) else safe_parse_positive_int ty text base)"

definition safe_strto32_base :: "string_view \<Rightarrow> int \<Rightarrow> (int \<times> bool) option" where
  "safe_strto32_base text base = safe_int_internal limits_i32 text base"

definition safe_strto64_base :: "string_view \<Rightarrow> int \<Rightarrow> (int \<times> bool) option" where
  "safe_strto64_base text base = safe_int_internal limits_i64 text base"

definition safe_strtou32_base :: "string_view \<Rightarrow> int \<Rightarrow> (int \<times> bool) option" where
  "safe_strtou32_base text base = safe_uint_internal limits_u32 text base"

definition safe_strtou64_base :: "string_view \<Rightarrow> int \<Rightarrow> (int \<times> bool) option" where
  "safe_strtou64_base text base = safe_uint_internal limits_u64 text base"

definition safe_strtou128_base :: "string_view \<Rightarrow> int \<Rightarrow> (int \<times> bool) option" where
  "safe_strtou128_base text base = safe_uint_internal limits_u128 text base"

text \<open>The dispatch on signedness and size (in bits) of the type of the output.\<close>

definition safe_strtoi_base :: "bool \<Rightarrow> nat \<Rightarrow> string_view \<Rightarrow> int \<Rightarrow> (int \<times> bool) option" where
  "safe_strtoi_base is_signed bits s base =
     (if is_signed then
        if bits = 64 then safe_strto64_base s base else safe_strto32_base s base
      else
        if bits = 64 then safe_strtou64_base s base else safe_strtou32_base s base)"

definition simple_atoi :: "bool \<Rightarrow> nat \<Rightarrow> string_view \<Rightarrow> (int \<times> bool) option" where
  "simple_atoi is_signed bits str = safe_strtoi_base is_signed bits str 10"

definition simple_atoi_u128 :: "string_view \<Rightarrow> (int \<times> bool) option" where
  "simple_atoi_u128 str = safe_strtou128_base str 10"


section \<open>Parsing: value and saturation\<close>

text \<open>The value of a run of digits, and what parsing a magnitude with an upper limit gives.\<close>

definition digits_value :: "int \<Rightarrow> string \<Rightarrow> int" where
  "digits_value base ds = foldl (\<lambda>x c. x * base + digit_of c) 0 ds"

definition parse_magnitude :: "int \<Rightarrow> int \<Rightarrow> string \<Rightarrow> int \<times> bool" where
  "parse_magnitude limit base text =
     (let ds = takeWhile (\<lambda>c. digit_of c < base) text; x = digits_value base ds
      in if limit < x then (limit, False) else (x, ds = text))"

lemma kAsciiToInt_runs:
  "kAsciiToInt = replicate 48 36 @ [0..9] @ replicate 7 36 @ [10..35] @ replicate 6 36 @ [10..35] @ replicate 133 36"
  by code_simp

lemma digit_of_eq:
  "digit_of c = (let n = of_char c :: nat in
     if n < 48 then 36 else if n < 58 then int n - 48 else if n < 65 then 36 else if n < 91 then int n - 55
     else if n < 97 then 36 else if n < 123 then int n - 87 else 36)"
proof -
  have "(of_char c :: nat) < 256" by simp
  then show ?thesis
    by (simp add: digit_of_def kAsciiToInt_runs nth_append diff_less_shift nth_upto Let_def cong: if_cong del: upto_rec_numeral)
qed

lemma digit_of_range: "0 \<le> digit_of c" "digit_of c \<le> 36"
  by (auto simp: digit_of_eq Let_def)

lemma X_OVER_BASE_nth:
  assumes "2 \<le> b" "b \<le> 36" shows "X_OVER_BASE X ! nat b = X sdiv b"
proof -
  obtain k where k: "b = int k + 2" "k < 35"
    using assms by (intro that [of "nat b - 2"]) auto
  then have "nat b = Suc (Suc k)" by simp
  moreover have "X_OVER_BASE X = [0, 0] @ map (\<lambda>n. X sdiv int n) [2..<37]"
    by (simp add: X_OVER_BASE_def)
  ultimately show ?thesis using k by (simp del: upt_rec_numeral add: add.commute)
qed

lemma foldl_digits_mono:
  "0 \<le> base \<Longrightarrow> 0 \<le> x \<Longrightarrow> 1 \<le> base \<Longrightarrow> x \<le> foldl (\<lambda>x c. x * base + digit_of c) x ds"
proof (induction ds arbitrary: x)
  case (Cons c ds)
  have "x * 1 \<le> x * base" using Cons.prems by (intro mult_left_mono) auto
  then have "x \<le> x * base + digit_of c" using digit_of_range [of c] by linarith
  also have "\<dots> \<le> foldl (\<lambda>x c. x * base + digit_of c) (x * base + digit_of c) ds"
    using Cons.prems digit_of_range(1) [of c] by (intro Cons.IH) auto
  finally show ?case by simp
qed simp

lemma div_less_iff:
  assumes "0 < (b :: int)" shows "m div b < x \<longleftrightarrow> m < x * b"
proof
  assume "m div b < x"
  then have "(m div b + 1) * b \<le> x * b" using assms by (intro mult_right_mono) auto
  then have "m div b * b + b \<le> x * b" by (simp add: distrib_right)
  then show "m < x * b" using div_mult_mod_eq [of m b] pos_mod_bound [OF assms, of m] by linarith
next
  assume *: "m < x * b"
  show "m div b < x"
  proof (rule ccontr)
    assume "\<not> m div b < x"
    then have "x * b \<le> m div b * b" using assms by (intro mult_right_mono) auto
    then show False using * div_mult_mod_eq [of m b] pos_mod_sign [OF assms, of m] by linarith
  qed
qed

text \<open>Both loops compute the magnitude; the negative one with the signs exchanged.\<close>

lemma positive_loop_eq:
  assumes "2 \<le> base" "base \<le> 36" "vmin ty \<le> 0" "36 \<le> vmax ty"
  shows "0 \<le> x \<Longrightarrow> x \<le> vmax ty \<Longrightarrow> positive_loop ty base x cs = Some
    (let ds = takeWhile (\<lambda>c. digit_of c < base) cs; y = foldl (\<lambda>x c. x * base + digit_of c) x ds
     in if vmax ty < y then (vmax ty, False) else (y, ds = cs))"
proof (induction cs arbitrary: x)
  case (Cons c cs)
  let ?d = "digit_of c" and ?f = "foldl (\<lambda>x c. x * base + digit_of c)"
  let ?ds = "takeWhile (\<lambda>c. digit_of c < base) cs"
  have d: "0 \<le> ?d" "?d \<le> 36" by (rule digit_of_range)+
  have x0: "0 \<le> x * base" using Cons.prems assms by simp
  have mono: "x * base + ?d \<le> ?f (x * base + ?d) ?ds"
    using assms d x0 by (intro foldl_digits_mono) auto
  have over: "kVmaxOverBase ty ! nat base < x \<longleftrightarrow> vmax ty < x * base"
    using assms by (simp add: kVmaxOverBase_def X_OVER_BASE_nth sdiv_nonneg div_less_iff)
  consider "base \<le> ?d" | "?d < base" "vmax ty < x * base + ?d" | "?d < base" "x * base + ?d \<le> vmax ty"
    by linarith
  then show ?case
  proof cases
    case 1
    with Cons.prems show ?thesis by simp
  next
    case 2
    with mono x0 d assms show ?thesis by (simp add: over ckt_def Let_def)
  next
    case 3
    with Cons.IH [of "x * base + ?d"] x0 d assms show ?thesis by (simp add: over ckt_def Let_def)
  qed
qed simp

lemma negative_loop_eq:
  assumes "2 \<le> base" "base \<le> 36" "vmin ty \<le> - 36" "0 \<le> vmax ty"
  shows "0 \<le> x \<Longrightarrow> x \<le> - vmin ty \<Longrightarrow> negative_loop ty base (vmin ty sdiv base) (- x) cs = Some
    (let ds = takeWhile (\<lambda>c. digit_of c < base) cs; y = foldl (\<lambda>x c. x * base + digit_of c) x ds
     in if - vmin ty < y then (vmin ty, False) else (- y, ds = cs))"
proof (induction cs arbitrary: x)
  case (Cons c cs)
  let ?d = "digit_of c" and ?f = "foldl (\<lambda>x c. x * base + digit_of c)"
  let ?ds = "takeWhile (\<lambda>c. digit_of c < base) cs"
  have d: "0 \<le> ?d" "?d \<le> 36" by (rule digit_of_range)+
  have x0: "0 \<le> x * base" using Cons.prems assms by simp
  have mono: "x * base + ?d \<le> ?f (x * base + ?d) ?ds"
    using assms d x0 by (intro foldl_digits_mono) auto
  have over: "- x < vmin ty sdiv base \<longleftrightarrow> - vmin ty < x * base"
    using assms by (simp add: sdiv_neg div_less_iff)
  consider "base \<le> ?d" | "?d < base" "- vmin ty < x * base + ?d" | "?d < base" "x * base + ?d \<le> - vmin ty"
    by linarith
  then show ?case
  proof cases
    case 1
    with Cons.prems show ?thesis by simp
  next
    case 2
    with mono x0 d assms show ?thesis by (simp add: over ckt_def Let_def)
  next
    case 3
    with Cons.IH [of "x * base + ?d"] x0 d assms show ?thesis by (simp add: over ckt_def Let_def)
  qed
qed simp


definition signed_limits :: "int_limits \<Rightarrow> bool" where
  "signed_limits ty \<longleftrightarrow> vmin ty \<le> - 36 \<and> 36 \<le> vmax ty"

definition unsigned_limits :: "int_limits \<Rightarrow> bool" where
  "unsigned_limits ty \<longleftrightarrow> vmin ty = 0 \<and> 36 \<le> vmax ty"

lemma limits [simp]:
  "signed_limits limits_i32" "signed_limits limits_i64"
  "unsigned_limits limits_u32" "unsigned_limits limits_u64" "unsigned_limits limits_u128"
  by (simp_all add: signed_limits_def unsigned_limits_def limits_i32_def limits_i64_def limits_u32_def
      limits_u64_def limits_u128_def)

lemma parse_positive_eq:
  assumes "2 \<le> base" "base \<le> 36" "signed_limits ty \<or> unsigned_limits ty"
  shows "safe_parse_positive_int ty text base = Some (parse_magnitude (vmax ty) base text)"
  using assms positive_loop_eq [of base ty 0 "text"]
  by (auto simp: safe_parse_positive_int_def parse_magnitude_def digits_value_def Let_def
      signed_limits_def unsigned_limits_def)

lemma parse_negative_eq:
  assumes "2 \<le> base" "base \<le> 36" "signed_limits ty"
  shows "safe_parse_negative_int ty text base =
    Some (apfst uminus (parse_magnitude (- vmin ty) base text))"
proof -
  have "\<not> 0 < vmin ty smod base"
    using assms by (simp add: signed_limits_def smod_neg not_less)
  then show ?thesis
    using assms negative_loop_eq [of base ty 0 "text"]
    by (simp add: safe_parse_negative_int_def parse_magnitude_def digits_value_def Let_def
        signed_limits_def kVminOverBase_def X_OVER_BASE_nth)
qed

section \<open>Parsing: the accepted texts\<close>

definition spaces :: "string \<Rightarrow> bool" where
  "spaces s \<longleftrightarrow> list_all (is_space \<circ> byte_of) s"

text \<open>
  The prefixes: the base asked for, the base of the digits, what stands before them, the digits.
\<close>

inductive radix_prefix :: "int \<Rightarrow> int \<Rightarrow> string \<Rightarrow> string \<Rightarrow> bool" where
  hex: "base = 0 \<or> base = 16 \<Longrightarrow> pre = ''0x'' \<or> pre = ''0X'' \<Longrightarrow> ds \<noteq> [] \<Longrightarrow> radix_prefix base 16 pre ds"
| octal: "radix_prefix 0 8 ''0'' ds"
| decimal: "ds \<noteq> [] \<Longrightarrow> hd ds \<noteq> CHR ''0'' \<Longrightarrow> radix_prefix 0 10 [] ds"
| plain: "2 \<le> base \<Longrightarrow> base \<le> 36 \<Longrightarrow> ds \<noteq> [] \<Longrightarrow> radix_prefix base base [] ds"

inductive_cases radix_prefixE: "radix_prefix base b pre ds"

text \<open>A text that is a numeral for \<open>v\<close> with one of the signs, and one whose value fits a type.\<close>

definition numeral_text :: "string set \<Rightarrow> string_view \<Rightarrow> int \<Rightarrow> int \<Rightarrow> bool" where
  "numeral_text signs text base v \<longleftrightarrow>
     (\<exists>l sg pre ds r b. text = Some (l @ sg @ pre @ ds @ r) \<and> spaces l \<and> spaces r \<and> sg \<in> signs
        \<and> radix_prefix base b pre ds \<and> list_all (\<lambda>c. digit_of c < b) ds
        \<and> v = (if sg = ''-'' then - digits_value b ds else digits_value b ds))"

definition int_numeral :: "int_limits \<Rightarrow> string set \<Rightarrow> string_view \<Rightarrow> int \<Rightarrow> int \<Rightarrow> bool" where
  "int_numeral ty signs text base v \<longleftrightarrow> numeral_text signs text base v \<and> vmin ty \<le> v \<and> v \<le> vmax ty"

abbreviation signs_of :: "bool \<Rightarrow> string set" where
  "signs_of is_signed \<equiv> (if is_signed then {[], ''+'', ''-''} else {[], ''+''})"

lemma radix_prefix_base: "radix_prefix base b pre ds \<Longrightarrow> 2 \<le> b \<and> b \<le> 36"
  by (auto elim: radix_prefixE)

lemma strip_space_split: "\<exists>l r. s = l @ strip_space s @ r \<and> spaces l \<and> spaces r"
proof -
  let ?P = "is_space \<circ> byte_of"
  let ?t = "dropWhile ?P s"
  have "s = takeWhile ?P s @ ?t" by simp
  moreover have "?t = strip_space s @ rev (takeWhile ?P (rev ?t))"
    unfolding strip_space_def rev_append [symmetric] by simp
  ultimately have "s = takeWhile ?P s @ strip_space s @ rev (takeWhile ?P (rev ?t))"
    by (metis append.assoc)
  then show ?thesis
    by (intro exI [of _ "takeWhile ?P s"] exI [of _ "rev (takeWhile ?P (rev ?t))"])
      (auto simp: spaces_def list_all_iff dest: set_takeWhileD)
qed

lemma strip_space_unique:
  assumes "spaces l" "spaces r" "m \<noteq> []" "\<not> is_space (byte_of (hd m))" "\<not> is_space (byte_of (last m))"
  shows "strip_space (l @ m @ r) = m"
proof -
  let ?P = "is_space \<circ> byte_of"
  have drop: "dropWhile ?P (xs @ ys) = ys" if "spaces xs" "ys \<noteq> []" "\<not> ?P (hd ys)" for xs ys
  proof -
    have "dropWhile ?P (xs @ ys) = dropWhile ?P ys"
      using that(1) by (intro dropWhile_append2) (auto simp: spaces_def list_all_iff)
    then show ?thesis using that(2,3) by (cases ys) auto
  qed
  have "dropWhile ?P (l @ m @ r) = m @ r" using assms by (intro drop) auto
  moreover have "dropWhile ?P (rev r @ rev m) = rev m"
    using assms by (intro drop) (auto simp: spaces_def hd_rev)
  ultimately show ?thesis by (simp add: strip_space_def)
qed

lemma digit_not_space: "digit_of c < 36 \<Longrightarrow> \<not> is_space (byte_of c)"
  by (auto simp: digit_of_eq is_space_iff Let_def split: if_splits)


text \<open>The header is read as the grammar says.\<close>

lemma has_0x_split: "has_0x s \<Longrightarrow> \<exists>pre. s = pre @ drop 2 s \<and> (pre = ''0x'' \<or> pre = ''0X'')"
  by (cases s; cases "tl s") (auto simp: has_0x_def)

lemma prefix_sound:
  assumes "consume_prefix s base negative = Some (ds, b, neg)" "s \<noteq> []"
  shows "neg = negative \<and> (\<exists>pre. s = pre @ ds \<and> radix_prefix base b pre ds)"
proof (cases "(base = 0 \<or> base = 16) \<and> has_0x s")
  case True
  then obtain pre where "s = pre @ drop 2 s" "pre = ''0x'' \<or> pre = ''0X''"
    using has_0x_split by blast
  with True assms show ?thesis
    by (auto simp: consume_prefix_def Let_def split: if_splits intro!: exI [of _ pre] radix_prefix.hex)
next
  case False
  show ?thesis
  proof (cases "base = 0")
    case True
    with False assms show ?thesis
      by (cases s) (auto simp: consume_prefix_def split: if_splits
          intro: radix_prefix.octal radix_prefix.decimal intro!: exI [of _ "''0''"] exI [of _ "[]"])
  next
    case base: False
    with False assms show ?thesis
      by (auto simp: consume_prefix_def split: if_splits intro!: exI [of _ "[]"] radix_prefix.plain)
  qed
qed

lemma header_sound:
  assumes "safe_parse_sign_and_base text base = Some (ds, b, neg)"
  obtains s sg pre where "text = Some s" "strip_space s = sg @ pre @ ds"
    "sg = [] \<or> sg = ''+'' \<or> sg = ''-''" "neg \<longleftrightarrow> sg = ''-''" "radix_prefix base b pre ds"
proof -
  obtain s where s: "text = Some s" "strip_space s \<noteq> []"
    using assms by (auto simp: safe_parse_sign_and_base_def Let_def split: option.splits if_splits)
  let ?t = "strip_space s"
  let ?neg = "?t ! 0 = CHR ''-''" and ?has = "?t ! 0 = CHR ''-'' \<or> ?t ! 0 = CHR ''+''"
  let ?sg = "if ?has then [?t ! 0] else []" and ?u = "if ?has then drop 1 ?t else ?t"
  have split: "?t = ?sg @ ?u" using s(2) by (cases ?t) auto
  have u: "?u \<noteq> []" "consume_prefix ?u base ?neg = Some (ds, b, neg)"
    using assms s by (auto simp: safe_parse_sign_and_base_def Let_def split: if_splits)
  then obtain pre where "neg = ?neg" "?u = pre @ ds" "radix_prefix base b pre ds"
    using prefix_sound by blast
  with split s show ?thesis by (intro that [of s ?sg pre]) auto
qed

lemma digit_of_consts [simp]:
  "digit_of CHR ''x'' = 33" "digit_of CHR ''X'' = 33" "digit_of CHR ''0'' = 0"
  "digit_of CHR ''-'' = 36" "digit_of CHR ''+'' = 36"
  by (simp_all add: digit_of_eq)

lemma prefix_complete:
  assumes "radix_prefix base b pre ds" "list_all (\<lambda>c. digit_of c < b) ds"
  shows "consume_prefix (pre @ ds) base negative = Some (ds, b, negative)"
  using assms(1)
proof cases
  case hex
  then have "has_0x (pre @ ds)" "drop 2 (pre @ ds) = ds" by (auto simp: has_0x_def)
  with hex show ?thesis by (auto simp: consume_prefix_def)
next
  case octal
  with assms(2) show ?thesis
    by (cases ds) (auto simp: consume_prefix_def has_0x_def)
next
  case decimal
  then show ?thesis by (cases ds) (auto simp: consume_prefix_def has_0x_def)
next
  case plain
  have "\<not> has_0x ds" if "base = 16"
    using that assms(2) plain by (force simp: has_0x_def list_all_length dest!: spec [of _ 1])
  with plain show ?thesis by (auto simp: consume_prefix_def)
qed

lemma numeral_ends:
  assumes "radix_prefix base b pre ds" "list_all (\<lambda>c. digit_of c < b) ds"
  shows "pre @ ds \<noteq> []" "digit_of (hd (pre @ ds)) < 36" "digit_of (last (pre @ ds)) < 36"
proof -
  have b: "b \<le> 36" using radix_prefix_base [OF assms(1)] by simp
  then have ds: "digit_of c < 36" if "c \<in> set ds" for c
    using that assms(2) by (force simp: list_all_iff)
  from assms(1) have "pre @ ds \<noteq> [] \<and> digit_of (hd (pre @ ds)) < 36 \<and> digit_of (last (pre @ ds)) < 36"
    by cases (auto intro: ds hd_in_set last_in_set)
  then show "pre @ ds \<noteq> []" "digit_of (hd (pre @ ds)) < 36" "digit_of (last (pre @ ds)) < 36"
    by blast+
qed

lemma header_complete:
  assumes "radix_prefix base b pre ds" "list_all (\<lambda>c. digit_of c < b) ds"
    and sg: "sg = [] \<or> sg = ''+'' \<or> sg = ''-''" and "spaces l" "spaces r"
  shows "safe_parse_sign_and_base (Some (l @ sg @ pre @ ds @ r)) base = Some (ds, b, sg = ''-'')"
proof -
  note ends = numeral_ends [OF assms(1,2)]
  have "\<not> is_space (byte_of (hd (sg @ pre @ ds)))"
    using sg ends digit_not_space by (auto simp: is_space_iff)
  then have "strip_space (l @ (sg @ pre @ ds) @ r) = sg @ pre @ ds"
    using assms ends digit_not_space by (intro strip_space_unique) auto
  moreover have "(pre @ ds) ! 0 \<noteq> CHR ''-''" "(pre @ ds) ! 0 \<noteq> CHR ''+''"
    using ends by (auto simp: hd_conv_nth [symmetric])
  ultimately show ?thesis
    using sg ends(1) prefix_complete [OF assms(1,2)]
    by (auto simp: safe_parse_sign_and_base_def Let_def)
qed


section \<open>The parsers\<close>

lemma header_base: "safe_parse_sign_and_base text base = Some (ds, b, neg) \<Longrightarrow> 2 \<le> b \<and> b \<le> 36"
  by (elim header_sound) (auto dest: radix_prefix_base)

text \<open>What every parser returns and stores, on every text.\<close>

definition parse_spec :: "int_limits \<Rightarrow> bool \<Rightarrow> string_view \<Rightarrow> int \<Rightarrow> int \<times> bool" where
  "parse_spec ty is_signed text base =
     (case safe_parse_sign_and_base text base of
        None \<Rightarrow> (0, False)
      | Some (ds, b, neg) \<Rightarrow>
          if \<not> neg then parse_magnitude (vmax ty) b ds
          else if is_signed then apfst uminus (parse_magnitude (- vmin ty) b ds)
          else (0, False))"

lemma safe_int_eq:
  "signed_limits ty \<Longrightarrow> safe_int_internal ty text base = Some (parse_spec ty True text base)"
  by (auto simp: safe_int_internal_def parse_spec_def parse_positive_eq parse_negative_eq
      split: option.splits dest!: header_base)

lemma safe_uint_eq:
  "unsigned_limits ty \<Longrightarrow> safe_uint_internal ty text base = Some (parse_spec ty False text base)"
  by (auto simp: safe_uint_internal_def parse_spec_def parse_positive_eq
      split: option.splits dest!: header_base)

lemma parse_magnitude_True:
  "parse_magnitude limit base cs = (v, True) \<longleftrightarrow>
     list_all (\<lambda>c. digit_of c < base) cs \<and> v = digits_value base cs \<and> v \<le> limit"
proof (cases "list_all (\<lambda>c. digit_of c < base) cs")
  case True
  then have "takeWhile (\<lambda>c. digit_of c < base) cs = cs" by (simp add: list_all_iff)
  then have "parse_magnitude limit base cs =
      (if limit < digits_value base cs then (limit, False) else (digits_value base cs, True))"
    by (simp only: parse_magnitude_def Let_def simp_thms)
  with True show ?thesis by auto
next
  case False
  then have "takeWhile (\<lambda>c. digit_of c < base) cs \<noteq> cs" by (auto simp: takeWhile_eq_all_conv list_all_iff)
  with False show ?thesis by (simp add: parse_magnitude_def Let_def)
qed

lemma digits_value_nonneg: "1 \<le> base \<Longrightarrow> 0 \<le> digits_value base ds"
  unfolding digits_value_def by (rule foldl_digits_mono) auto

lemma numeral_header:
  assumes "numeral_text (signs_of is_signed) text base v"
  obtains ds b neg where "safe_parse_sign_and_base text base = Some (ds, b, neg)" "neg \<Longrightarrow> is_signed"
    "list_all (\<lambda>c. digit_of c < b) ds" "v = (if neg then - digits_value b ds else digits_value b ds)"
proof -
  obtain l sg pre ds r b where n: "text = Some (l @ sg @ pre @ ds @ r)" "spaces l" "spaces r"
    "sg \<in> signs_of is_signed" "radix_prefix base b pre ds" "list_all (\<lambda>c. digit_of c < b) ds"
    "v = (if sg = ''-'' then - digits_value b ds else digits_value b ds)"
    using assms unfolding numeral_text_def by blast
  then have "safe_parse_sign_and_base text base = Some (ds, b, sg = ''-'')"
    using header_complete [of base b pre ds sg l r] by (auto split: if_splits)
  with n show ?thesis by (intro that [of ds b "sg = ''-''"]) (auto split: if_splits)
qed

lemma parse_magnitude_valid:
  assumes "list_all (\<lambda>c. digit_of c < base) cs"
  shows "parse_magnitude limit base cs = (min limit (digits_value base cs), digits_value base cs \<le> limit)"
proof -
  have "takeWhile (\<lambda>c. digit_of c < base) cs = cs" using assms by (simp add: list_all_iff)
  then have "parse_magnitude limit base cs =
      (if limit < digits_value base cs then (limit, False) else (digits_value base cs, True))"
    by (simp only: parse_magnitude_def Let_def simp_thms)
  then show ?thesis by (simp add: min_def)
qed

lemma parse_spec_numeral:
  assumes "numeral_text (signs_of is_signed) text base v" "vmin ty \<le> 0" "0 \<le> vmax ty"
  shows "parse_spec ty is_signed text base = (max (vmin ty) (min (vmax ty) v), vmin ty \<le> v \<and> v \<le> vmax ty)"
  using assms(1)
proof (rule numeral_header)
  fix ds b neg
  assume h: "safe_parse_sign_and_base text base = Some (ds, b, neg)" "neg \<Longrightarrow> is_signed"
    "list_all (\<lambda>c. digit_of c < b) ds" "v = (if neg then - digits_value b ds else digits_value b ds)"
  have "0 \<le> digits_value b ds" using header_base [OF h(1)] by (intro digits_value_nonneg) auto
  with h assms show ?thesis
    by (cases neg) (auto simp: parse_spec_def parse_magnitude_valid)
qed

lemma parse_spec_accepts:
  assumes "vmin ty \<le> 0" "0 \<le> vmax ty"
  shows "parse_spec ty is_signed text base = (v, True) \<longleftrightarrow> int_numeral ty (signs_of is_signed) text base v"
    (is "?l \<longleftrightarrow> ?r")
proof
  assume ?l
  then obtain ds b neg where h: "safe_parse_sign_and_base text base = Some (ds, b, neg)"
    by (auto simp: parse_spec_def split: option.splits)
  from \<open>?l\<close> h have val: "list_all (\<lambda>c. digit_of c < b) ds"
    "v = (if neg then - digits_value b ds else digits_value b ds)" "neg \<Longrightarrow> is_signed"
    "if neg then vmin ty \<le> v else v \<le> vmax ty"
    by (auto simp: parse_spec_def parse_magnitude_True apfst_def map_prod_def split: if_splits prod.splits)
  have "0 \<le> digits_value b ds" using header_base [OF h] by (intro digits_value_nonneg) auto
  with val assms have range: "vmin ty \<le> v" "v \<le> vmax ty" by (auto split: if_splits)
  from h obtain s sg pre where s: "text = Some s" "strip_space s = sg @ pre @ ds"
    "sg = [] \<or> sg = ''+'' \<or> sg = ''-''" "neg \<longleftrightarrow> sg = ''-''" "radix_prefix base b pre ds"
    by (rule header_sound)
  obtain l r where lr: "s = l @ strip_space s @ r" "spaces l" "spaces r"
    using strip_space_split by blast
  have "text = Some (l @ sg @ pre @ ds @ r)"
    using lr(1) unfolding s(1,2) by simp
  moreover have "sg \<in> signs_of is_signed"
    using s(3,4) val(3) by auto
  moreover have "v = (if sg = ''-'' then - digits_value b ds else digits_value b ds)"
    using s(4) val(2) by simp
  ultimately show ?r
    unfolding int_numeral_def numeral_text_def using s(5) lr(2,3) val(1) range by blast
next
  assume ?r
  with assms show ?l using parse_spec_numeral [of is_signed "text" base v ty] by (auto simp: int_numeral_def)
qed

lemma strto_eqs:
  "safe_strto32_base text base = Some (parse_spec limits_i32 True text base)"
  "safe_strto64_base text base = Some (parse_spec limits_i64 True text base)"
  "safe_strtou32_base text base = Some (parse_spec limits_u32 False text base)"
  "safe_strtou64_base text base = Some (parse_spec limits_u64 False text base)"
  "safe_strtou128_base text base = Some (parse_spec limits_u128 False text base)"
  by (simp_all add: safe_strto32_base_def safe_strto64_base_def safe_strtou32_base_def
      safe_strtou64_base_def safe_strtou128_base_def safe_int_eq safe_uint_eq)

lemma limit_values [simp]:
  "vmin limits_i32 = - (2 ^ 31)" "vmin limits_i64 = - (2 ^ 63)" "vmin limits_u32 = 0" "vmin limits_u64 = 0"
  "vmin limits_u128 = 0" "vmax limits_i32 = 2 ^ 31 - 1" "vmax limits_i64 = 2 ^ 63 - 1"
  "vmax limits_u32 = 2 ^ 32 - 1" "vmax limits_u64 = 2 ^ 64 - 1" "vmax limits_u128 = 2 ^ 128 - 1"
  by (simp_all add: limits_i32_def limits_i64_def limits_u32_def limits_u64_def limits_u128_def)

text \<open>The accepting case, without and with the minus sign.\<close>

lemmas accepts_signed = parse_spec_accepts [of _ True, simplified]
lemmas accepts_unsigned = parse_spec_accepts [of _ False, simplified]
lemmas numeral_signed = parse_spec_numeral [of True, simplified]
lemmas numeral_unsigned = parse_spec_numeral [of False, simplified]

lemma numeral_unsigned_nonneg:
  assumes "numeral_text {[], ''+''} text base v" shows "0 \<le> v"
proof -
  have "numeral_text (signs_of False) text base v" using assms by simp
  then show ?thesis
  proof (rule numeral_header)
    fix ds b neg
    assume h: "safe_parse_sign_and_base text base = Some (ds, b, neg)" "neg \<Longrightarrow> False"
      "v = (if neg then - digits_value b ds else digits_value b ds)"
    then show "0 \<le> v" using header_base [OF h(1)] digits_value_nonneg [of b ds] by auto
  qed
qed

lemma digits_value_dec: "digits_value 10 (dec_digits n) = int n"
proof (induction n rule: dec_digits.induct)
  case (1 n)
  have d: "digit_of (char_of (48 + k)) = int k" if "k < 10" for k
    using that by (simp add: digit_of_eq)
  show ?case
  proof (cases "n < 10")
    case True
    then show ?thesis by (simp add: dec_digits.simps [of n] digits_value_def d)
  next
    case False
    have "int (n div 10) * 10 + int (n mod 10) = int (n div 10 * 10 + n mod 10)"
      by (simp only: of_nat_add of_nat_mult of_nat_numeral)
    with False 1 d [of "n mod 10"] show ?thesis
      by (simp add: dec_digits.simps [of n] digits_value_def del: of_nat_add of_nat_mult)
  qed
qed

lemma dec_digits_valid: "list_all (\<lambda>c. digit_of c < 10) (dec_digits n)"
proof (induction n rule: dec_digits.induct)
  case (1 n)
  then show ?case by (subst dec_digits.simps) (auto simp: digit_of_eq Let_def)
qed

lemma dec_digits_nonempty: "dec_digits n \<noteq> []"
  by (subst dec_digits.simps) simp

text \<open>A printed number is a numeral for itself.\<close>

lemma show_int_numeral:
  assumes "vmin ty \<le> v" "v \<le> vmax ty" "[] \<in> signs" "v < 0 \<Longrightarrow> ''-'' \<in> signs"
  shows "int_numeral ty signs (Some (show_int v)) 10 v"
proof -
  have p: "radix_prefix 10 10 [] (dec_digits n)" for n
    by (simp add: radix_prefix.plain dec_digits_nonempty)
  have "numeral_text signs (Some (show_int v)) 10 v" unfolding numeral_text_def
    by (rule exI [of _ "[]"], rule exI [of _ "if v < 0 then ''-'' else []"], rule exI [of _ "[]"],
        rule exI [of _ "dec_digits (nat \<bar>v\<bar>)"], rule exI [of _ "[]"], rule exI [of _ 10])
      (use assms p in \<open>auto simp: show_int_def spaces_def digits_value_dec dec_digits_valid\<close>)
  with assms show ?thesis by (simp add: int_numeral_def)
qed

lemma show_uint: "show_int (uint w) = dec_digits (unat w)" for w :: "'a::len word"
  by (simp add: show_int_def)

section \<open>Properties\<close>

text \<open>
  C26. The four versions of \<open>fast_int_to_buffer\<close> write the shortest decimal digits of the value, a minus
  sign in front of a negative one, and the terminating NUL, from the given position on and nothing
  else, and return the position of the NUL; they write at most 21 bytes, within
  \<open>kFastToBufferSize\<close>, which the caller's buffer has room for from that position on.
\<close>

theorem fast_int_to_buffer_decimal:
  assumes "p \<le> length buf"
  shows "fast_int_to_buffer_u32 a buf p =
      (overwrite buf p (show_int (uint a) @ [CHR 0x00]), p + length (show_int (uint a)))
    \<and> fast_int_to_buffer_u64 b buf p =
      (overwrite buf p (show_int (uint b) @ [CHR 0x00]), p + length (show_int (uint b)))
    \<and> fast_int_to_buffer_i32 a buf p =
      (overwrite buf p (show_int (sint a) @ [CHR 0x00]), p + length (show_int (sint a)))
    \<and> fast_int_to_buffer_i64 b buf p =
      (overwrite buf p (show_int (sint b) @ [CHR 0x00]), p + length (show_int (sint b)))
    \<and> max (length (show_int (uint b))) (length (show_int (sint b))) + 1 \<le> 21"
proof -
  have "length (show_int (uint b)) \<le> 20"
    using unat_u64 [of b] length_dec_digits_le [of "unat b" 20] by (simp add: show_uint)
  moreover have "nat (- sint b) < 10 ^ 19" "nat (sint b) < 10 ^ 19"
    using sint_ge [of b] sint_lt [of b] by simp_all
  then have "length (show_int (sint b)) \<le> 20"
    using length_dec_digits_le [of "nat (- sint b)" 19] length_dec_digits_le [of "nat (sint b)" 19]
    by (simp add: show_int_def)
  ultimately have "max (length (show_int (uint b))) (length (show_int (sint b))) + 1 \<le> 21" by simp
  then show ?thesis
    unfolding show_uint using fast_u32_eq [OF assms] fast_u64_eq [OF assms] fast_i32_eq [OF assms]
      fast_i64_eq [OF assms] by blast
qed

theorem fast_int_to_buffer_decimal_witness:
  "fast_int_to_buffer_i32 (- 7) (replicate 6 CHR ''?'') 1 = (''?-7'' @ [CHR 0x00] @ ''??'', 3)"
proof -
  have "show_int (sint (- 7 :: u32)) = ''-7''" by code_simp
  then show ?thesis
    using fast_int_to_buffer_decimal [of 1 "replicate 6 CHR ''?''" "- 7" 0]
    by (simp add: overwrite_def numeral_eq_Suc)
qed


text \<open>
  C25. The parsers accept exactly the numerals whose value fits the type, and store that value: optional
  spaces on both sides, a sign (no minus for the unsigned types), the prefix that the base allows,
  and digits below the base, none missing. \<open>simple_atoi\<close> is the case of base 10.
\<close>

theorem strto_accepts_numerals:
  "(safe_strto32_base text base = Some (v, True) \<longleftrightarrow> int_numeral limits_i32 {[], ''+'', ''-''} text base v)
   \<and> (safe_strto64_base text base = Some (v, True) \<longleftrightarrow> int_numeral limits_i64 {[], ''+'', ''-''} text base v)
   \<and> (safe_strtou32_base text base = Some (v, True) \<longleftrightarrow> int_numeral limits_u32 {[], ''+''} text base v)
   \<and> (safe_strtou64_base text base = Some (v, True) \<longleftrightarrow> int_numeral limits_u64 {[], ''+''} text base v)
   \<and> (safe_strtou128_base text base = Some (v, True) \<longleftrightarrow> int_numeral limits_u128 {[], ''+''} text base v)"
  by (simp add: strto_eqs accepts_signed accepts_unsigned)

text \<open>
  C28. A numeral whose value does not fit is refused, and the stored value is the limit it passed:
  no parser wraps, and no intermediate result overflows on any text.
\<close>

theorem strto_saturates:
  assumes "numeral_text {[], ''+'', ''-''} text base v" "numeral_text {[], ''+''} text' base' v'"
  shows "safe_strto32_base text base = Some (max (- (2 ^ 31)) (min (2 ^ 31 - 1) v), - (2 ^ 31) \<le> v \<and> v < 2 ^ 31)
    \<and> safe_strto64_base text base = Some (max (- (2 ^ 63)) (min (2 ^ 63 - 1) v), - (2 ^ 63) \<le> v \<and> v < 2 ^ 63)
    \<and> safe_strtou32_base text' base' = Some (min (2 ^ 32 - 1) v', v' < 2 ^ 32)
    \<and> safe_strtou64_base text' base' = Some (min (2 ^ 64 - 1) v', v' < 2 ^ 64)
    \<and> safe_strtou128_base text' base' = Some (min (2 ^ 128 - 1) v', v' < 2 ^ 128)
    \<and> safe_strto32_base t b \<noteq> None \<and> safe_strto64_base t b \<noteq> None \<and> safe_strtou32_base t b \<noteq> None
    \<and> safe_strtou64_base t b \<noteq> None \<and> safe_strtou128_base t b \<noteq> None"
proof -
  have "0 \<le> v'" using assms(2) by (rule numeral_unsigned_nonneg)
  then show ?thesis
    by (simp add: strto_eqs numeral_signed [OF assms(1)] numeral_unsigned [OF assms(2)]) linarith
qed

text \<open>The texts \<open>" -0X80000001 "\<close> and \<open>"+4294967296"\<close>.\<close>

theorem strto_saturates_witness:
  "safe_strto32_base (Some '' -0X80000001 '') 0 = Some (- 2147483648, False)
   \<and> safe_strtou32_base (Some ''+4294967296'') 10 = Some (4294967295, False)"
proof -
  have "numeral_text {[], ''+'', ''-''} (Some ('' '' @ ''-'' @ ''0X'' @ ''80000001'' @ '' '')) 0 (- 2147483649)"
    unfolding numeral_text_def
    by (intro exI conjI, rule refl) (auto simp: spaces_def is_space_iff digits_value_def digit_of_eq Let_def intro!: radix_prefix.hex)
  moreover have "numeral_text {[], ''+''} (Some ([] @ ''+'' @ [] @ ''4294967296'' @ [])) 10 4294967296"
    unfolding numeral_text_def
    by (intro exI conjI, rule refl) (auto simp: spaces_def is_space_iff digits_value_def digit_of_eq Let_def intro!: radix_prefix.plain)
  ultimately show ?thesis
    using strto_saturates [of "Some '' -0X80000001 ''" 0 "- 2147483649" "Some ''+4294967296''" 10 4294967296]
    by simp
qed

text \<open>
  C27. Parsing what was printed gives the value back: for the four integer types, \<open>simple_atoi\<close> on the
  characters that \<open>fast_int_to_buffer\<close> wrote stores the value printed and returns true.
\<close>

theorem atoi_of_printed:
  "(let (buf', n) = fast_int_to_buffer_i32 a buf 0 in simple_atoi True 32 (Some (take n buf'))) = Some (sint a, True)
   \<and> (let (buf', n) = fast_int_to_buffer_u32 a buf 0 in simple_atoi False 32 (Some (take n buf'))) = Some (uint a, True)
   \<and> (let (buf', n) = fast_int_to_buffer_i64 b buf 0 in simple_atoi True 64 (Some (take n buf'))) = Some (sint b, True)
   \<and> (let (buf', n) = fast_int_to_buffer_u64 b buf 0 in simple_atoi False 64 (Some (take n buf'))) = Some (uint b, True)"
proof -
  have "take (length xs) (overwrite buf 0 (xs @ ys)) = xs" for xs ys by (simp add: overwrite_def)
  moreover have "- (2 ^ 31) \<le> sint a" "sint a < 2 ^ 31" "- (2 ^ 63) \<le> sint b" "sint b < 2 ^ 63"
    using sint_ge [of a] sint_lt [of a] sint_ge [of b] sint_lt [of b] by simp_all
  moreover have "uint a < 2 ^ 32" "uint b < 2 ^ 64"
    using unsigned_less [of a] unsigned_less [of b] by simp_all
  then have "int_numeral limits_u32 {[], ''+''} (Some (show_int (uint a))) 10 (uint a)"
    "int_numeral limits_u64 {[], ''+''} (Some (show_int (uint b))) 10 (uint b)"
    by (intro show_int_numeral; force simp: not_less)+
  ultimately show ?thesis
    by (simp add: fast_u32_eq fast_u64_eq fast_i32_eq fast_i64_eq simple_atoi_def safe_strtoi_base_def
        strto_eqs accepts_signed accepts_unsigned show_int_numeral flip: show_uint)
qed

end
