(* ===== verification/String_View.thy ===== *)
theory String_View
  imports Ascii
begin

text \<open>
  \<open>abel/strings/string_view.h\<close>, \<open>strip.h\<close>, \<open>starts_with.h\<close>, \<open>ends_with.h\<close>, \<open>contain.h\<close> and \<open>char_match\<close> of
  \<open>internal/char_traits.cc\<close>: views, their substrings and comparison, and the searches. A view is the
  list of the characters it sees; a position that may be \<open>npos\<close> is an option, \<open>None\<close> for \<open>npos\<close>. Every
  search is shown to return the first (or the last) position where its pattern stands.
\<close>

section \<open>Searches over positions\<close>

text \<open>What a search upwards from a position, and downwards from a position, has to return.\<close>

definition is_first :: "(nat \<Rightarrow> bool) \<Rightarrow> nat \<Rightarrow> nat option \<Rightarrow> bool" where
  "is_first P pos r \<longleftrightarrow>
     (case r of None \<Rightarrow> \<forall>i\<ge>pos. \<not> P i | Some i \<Rightarrow> pos \<le> i \<and> P i \<and> (\<forall>j. pos \<le> j \<and> j < i \<longrightarrow> \<not> P j))"

definition within :: "nat option \<Rightarrow> nat \<Rightarrow> bool" where
  "within pos i \<longleftrightarrow> (case pos of None \<Rightarrow> True | Some p \<Rightarrow> i \<le> p)"

definition is_last :: "(nat \<Rightarrow> bool) \<Rightarrow> nat option \<Rightarrow> nat option \<Rightarrow> bool" where
  "is_last P pos r \<longleftrightarrow>
     (case r of None \<Rightarrow> \<forall>i. \<not> (within pos i \<and> P i)
      | Some i \<Rightarrow> (within pos i \<and> P i) \<and> (\<forall>j>i. \<not> (within pos j \<and> P j)))"

lemma within_simps [simp]: "within None i" "within (Some p) i \<longleftrightarrow> i \<le> p"
  by (simp_all add: within_def)

lemma is_first_unique: "is_first P pos r \<Longrightarrow> is_first P pos r' \<Longrightarrow> r = r'"
  by (auto simp: is_first_def split: option.splits) (metis linorder_neqE_nat)

lemma is_first_step:
  "is_first P (Suc pos) r \<Longrightarrow> \<not> P pos \<Longrightarrow> is_first P pos r"
  by (auto simp: is_first_def split: option.splits) (metis le_neq_implies_less Suc_leI)+

lemma is_first_here: "P pos \<Longrightarrow> is_first P pos (Some pos)"
  by (auto simp: is_first_def)

text \<open>The two loops: up to the length, and down to zero.\<close>

function search_up :: "(char \<Rightarrow> bool) \<Rightarrow> string \<Rightarrow> nat \<Rightarrow> nat option" where
  "search_up P s i =
     (if i < length s then if P (s ! i) then Some i else search_up P s (i + 1) else None)"
  by pat_completeness auto
termination by (relation "measure (\<lambda>(P, s, i). length s - i)") auto

fun search_down :: "(char \<Rightarrow> bool) \<Rightarrow> string \<Rightarrow> nat \<Rightarrow> nat option" where
  "search_down P s i = (if P (s ! i) then Some i else if i = 0 then None else search_down P s (i - 1))"

declare search_up.simps [simp del] search_down.simps [simp del]

lemma search_up_first: "is_first (\<lambda>i. i < length s \<and> P (s ! i)) pos (search_up P s pos)"
proof (induction P s pos rule: search_up.induct)
  case (1 P s i)
  show ?case
  proof (cases "i < length s")
    case True
    show ?thesis
    proof (cases "P (s ! i)")
      case True
      with \<open>i < length s\<close> show ?thesis by (simp add: search_up.simps [of P s i] is_first_here)
    next
      case False
      with True 1 show ?thesis by (simp add: search_up.simps [of P s i] is_first_step)
    qed
  next
    case False
    then show ?thesis by (simp add: search_up.simps [of P s i] is_first_def)
  qed
qed

lemma search_down_last:
  "i < length s \<Longrightarrow> is_last (\<lambda>i. i < length s \<and> P (s ! i)) (Some i) (search_down P s i)"
proof (induction P s i rule: search_down.induct)
  case (1 P s i)
  show ?case
  proof (cases "P (s ! i)")
    case True
    with 1(2) show ?thesis by (simp add: search_down.simps [of P s i] is_last_def)
  next
    case False
    then show ?thesis
    proof (cases i)
      case 0
      with False have "search_down P s i = None" by (simp add: search_down.simps [of P s 0])
      with False 0 show ?thesis by (auto simp: is_last_def intro!: gr0I)
    next
      case (Suc k)
      with False 1 have IH: "is_last (\<lambda>i. i < length s \<and> P (s ! i)) (Some k) (search_down P s k)" by simp
      from Suc False have "search_down P s i = search_down P s k"
        by (simp add: search_down.simps [of P s "Suc k"])
      moreover have "j \<le> k \<or> \<not> P (s ! j)" if "j \<le> i" for j
        using that False Suc by (cases "j = i") auto
      ultimately show ?thesis using IH Suc
        by (auto simp: is_last_def split: option.splits)
    qed
  qed
qed

section \<open>Views\<close>

text \<open>\<open>substr\<close> throws \<open>std::out_of_range\<close>; the count may be \<open>npos\<close>.\<close>

datatype out_of_range = Out_Of_Range

definition substr :: "string \<Rightarrow> nat \<Rightarrow> nat option \<Rightarrow> out_of_range + string" where
  "substr s pos n =
     (if length s < pos then Inl Out_Of_Range
      else let n = (case n of None \<Rightarrow> length s - pos | Some n \<Rightarrow> min n (length s - pos))
           in Inr (take n (drop pos s)))"

definition remove_prefix :: "string \<Rightarrow> nat \<Rightarrow> string" where
  "remove_prefix s n = drop n s"

definition remove_suffix :: "string \<Rightarrow> nat \<Rightarrow> string" where
  "remove_suffix s n = take (length s - n) s"

text \<open>\<open>memcmp\<close> of the standard library: the sign of the first difference, of unsigned bytes.\<close>

fun memcmp :: "string \<Rightarrow> string \<Rightarrow> int" where
  "memcmp (a # as) (b # bs) =
     (if a = b then memcmp as bs else if byte_of a < byte_of b then - 1 else 1)"
| "memcmp _ _ = 0"

definition CompareImpl :: "nat \<Rightarrow> nat \<Rightarrow> int \<Rightarrow> int" where
  "CompareImpl length_a length_b compare_result =
     (if compare_result = 0 then of_bool (length_b < length_a) - of_bool (length_a < length_b)
      else of_bool (0 < compare_result) - of_bool (compare_result < 0))"

definition compare_view :: "string \<Rightarrow> string \<Rightarrow> int" where
  "compare_view a b = CompareImpl (length a) (length b)
     (if length a = 0 \<or> length b = 0 then 0
      else let n = (if length a < length b then length a else length b) in memcmp (take n a) (take n b))"

definition starts_with :: "string \<Rightarrow> string \<Rightarrow> bool" where
  "starts_with text prefix \<longleftrightarrow>
     prefix = [] \<or> length prefix \<le> length text \<and> memcmp (take (length prefix) text) prefix = 0"

definition ends_with :: "string \<Rightarrow> string \<Rightarrow> bool" where
  "ends_with text suffix \<longleftrightarrow>
     suffix = [] \<or> length suffix \<le> length text
       \<and> memcmp (drop (length text - length suffix) text) suffix = 0"

definition consume_view_prefix :: "string \<Rightarrow> string \<Rightarrow> string \<times> bool" where
  "consume_view_prefix str expected =
     (if \<not> starts_with str expected then (str, False)
      else (remove_prefix str (length expected), True))"

definition consume_view_suffix :: "string \<Rightarrow> string \<Rightarrow> string \<times> bool" where
  "consume_view_suffix str expected =
     (if \<not> ends_with str expected then (str, False)
      else (remove_suffix str (length expected), True))"

definition strip_prefix :: "string \<Rightarrow> string \<Rightarrow> string" where
  "strip_prefix str prefix = (if starts_with str prefix then remove_prefix str (length prefix) else str)"

definition strip_suffix :: "string \<Rightarrow> string \<Rightarrow> string" where
  "strip_suffix str suffix = (if ends_with str suffix then remove_suffix str (length suffix) else str)"

section \<open>Searches\<close>

text \<open>\<open>memchr\<close> of the standard library over a byte range: the index of the first equal byte.\<close>

fun memchr :: "char \<Rightarrow> string \<Rightarrow> nat option" where
  "memchr c [] = None"
| "memchr c (x # xs) = (if x = c then Some 0 else map_option Suc (memchr c xs))"

lemma memchr_Some: "memchr c xs = Some k \<Longrightarrow> k < length xs"
  by (induction xs arbitrary: k) (auto split: if_splits)

text \<open>The loop of \<open>char_match\<close>: the haystack pointer, and the end of the places a match can start.\<close>

function char_match_loop :: "string \<Rightarrow> string \<Rightarrow> nat \<Rightarrow> nat \<Rightarrow> nat option" where
  "char_match_loop hay needle hayend p =
     (case memchr (needle ! 0) (take (hayend - p) (drop p hay)) of
        None \<Rightarrow> None
      | Some k \<Rightarrow>
          let match = p + k in
          if memcmp (take (length needle) (drop match hay)) needle = 0 then Some match
          else char_match_loop hay needle hayend (match + 1))"
  by pat_completeness auto
termination
  by (relation "measure (\<lambda>(hay, needle, hayend, p). hayend - p)") (auto dest!: memchr_Some)

declare char_match_loop.simps [simp del]

definition char_match :: "string \<Rightarrow> string \<Rightarrow> nat option" where
  "char_match hay needle =
     (if length needle = 0 then Some 0
      else if length hay < length needle then None
      else char_match_loop hay needle (length hay - length needle + 1) 0)"

definition find_view :: "string \<Rightarrow> string \<Rightarrow> nat \<Rightarrow> nat option" where
  "find_view v s pos =
     (if v = [] \<or> length v < pos then if v = [] \<and> pos = 0 \<and> s = [] then Some 0 else None
      else map_option ((+) pos) (char_match (drop pos v) s))"

definition find_char :: "string \<Rightarrow> char \<Rightarrow> nat \<Rightarrow> nat option" where
  "find_char v c pos =
     (if v = [] \<or> length v \<le> pos then None else map_option ((+) pos) (memchr c (drop pos v)))"

definition string_contains :: "string \<Rightarrow> string \<Rightarrow> bool" where
  "string_contains str match \<longleftrightarrow> find_view str match 0 \<noteq> None"

text \<open>The searches for a character of a set; a lookup table answers whether a character is in it.\<close>

definition find_first_of :: "string \<Rightarrow> string \<Rightarrow> nat \<Rightarrow> nat option" where
  "find_first_of v s pos =
     (if v = [] \<or> s = [] then None
      else if length s = 1 then find_char v (s ! 0) pos
      else search_up (\<lambda>c. c \<in> set s) v pos)"

definition find_first_not_of :: "string \<Rightarrow> string \<Rightarrow> nat \<Rightarrow> nat option" where
  "find_first_not_of v s pos =
     (if v = [] then None
      else if length s = 1 then search_up (\<lambda>c. c \<noteq> s ! 0) v pos
      else search_up (\<lambda>c. c \<notin> set s) v pos)"

definition min_pos :: "nat option \<Rightarrow> nat \<Rightarrow> nat" where
  "min_pos pos n = (case pos of None \<Rightarrow> n | Some p \<Rightarrow> min p n)"

definition find_last_of :: "string \<Rightarrow> string \<Rightarrow> nat option \<Rightarrow> nat option" where
  "find_last_of v s pos =
     (if v = [] \<or> s = [] then None
      else if length s = 1 then search_down (\<lambda>c. c = s ! 0) v (min_pos pos (length v - 1))
      else search_down (\<lambda>c. c \<in> set s) v (min_pos pos (length v - 1)))"

definition find_last_not_of :: "string \<Rightarrow> string \<Rightarrow> nat option \<Rightarrow> nat option" where
  "find_last_not_of v s pos =
     (if v = [] then None
      else let i = min_pos pos (length v - 1) in
        if s = [] then Some i
        else if length s = 1 then search_down (\<lambda>c. c \<noteq> s ! 0) v i
        else search_down (\<lambda>c. c \<notin> set s) v i)"


section \<open>The searches find what they look for\<close>

definition occurs :: "string \<Rightarrow> string \<Rightarrow> nat \<Rightarrow> bool" where
  "occurs s v i \<longleftrightarrow> i + length s \<le> length v \<and> take (length s) (drop i v) = s"

lemma memcmp_eq: "length a = length b \<Longrightarrow> memcmp a b = 0 \<longleftrightarrow> a = b"
  by (induction a b rule: list_induct2) auto

lemma starts_with_iff: "starts_with v s \<longleftrightarrow> (\<exists>w. v = s @ w)"
  by (auto simp: starts_with_def memcmp_eq append_eq_conv_conj) (metis append_take_drop_id)

lemma ends_with_iff: "ends_with v s \<longleftrightarrow> (\<exists>w. v = w @ s)"
proof -
  have "ends_with v s \<longleftrightarrow> length s \<le> length v \<and> drop (length v - length s) v = s"
    by (auto simp: ends_with_def memcmp_eq)
  then show ?thesis
    by (auto simp: append_eq_conv_conj) (metis append_take_drop_id)
qed

lemma memchr_first: "is_first (\<lambda>i. i < length xs \<and> xs ! i = c) 0 (memchr c xs)"
proof (induction xs)
  case (Cons x xs)
  then show ?case
    by (cases "memchr c xs") (auto simp: is_first_def nth_Cons split: nat.splits)
qed (simp add: is_first_def)

lemma char_match_loop_first:
  assumes "s \<noteq> []" "length s \<le> length v"
  shows "is_first (occurs s v) p (char_match_loop v s (length v - length s + 1) p)"
proof (induction "length v - length s + 1 - p" arbitrary: p rule: less_induct)
  case less
  let ?stop = "length v - length s + 1" and ?xs = "take (length v - length s + 1 - p) (drop p v)"
  have hd: "v ! i = s ! 0" if "occurs s v i" for i
  proof -
    have "take (length s) (drop i v) ! 0 = s ! 0" using that by (simp add: occurs_def)
    then show ?thesis using that assms by (simp add: occurs_def)
  qed
  have first: "is_first (\<lambda>i. i < length ?xs \<and> ?xs ! i = s ! 0) 0 (memchr (s ! 0) ?xs)"
    by (rule memchr_first)
  have skip: "\<not> occurs s v i" if "p \<le> i" "memchr (s ! 0) ?xs = None \<or> (\<exists>k. memchr (s ! 0) ?xs = Some k \<and> i < p + k)" for i
  proof
    assume o: "occurs s v i"
    have "0 < length s" "i + length s \<le> length v" using o assms by (simp_all add: occurs_def)
    then have i: "i < length v" "i < length v - length s + 1" by linarith+
    then have "i - p < length ?xs" using that(1) by auto
    moreover from this have "?xs ! (i - p) = s ! 0"
      using that(1) hd [OF o] i by simp
    ultimately have at: "i - p < length ?xs \<and> ?xs ! (i - p) = s ! 0" ..
    define xs where "xs = ?xs"
    show False
      using at first that unfolding xs_def [symmetric]
      by (auto simp: is_first_def dest!: spec [of _ "i - p"])
  qed
  show ?case
  proof (cases "memchr (s ! 0) ?xs")
    case None
    with skip show ?thesis by (subst char_match_loop.simps) (simp add: is_first_def)
  next
    case (Some k)
    then have k: "p + k < ?stop" using memchr_Some [OF Some] by (simp; arith)
    show ?thesis
    proof (cases "occurs s v (p + k)")
      case True
      then have "char_match_loop v s ?stop p = Some (p + k)"
        using Some by (subst char_match_loop.simps) (simp add: occurs_def memcmp_eq Let_def)
      with True skip Some show ?thesis by (auto simp: is_first_def)
    next
      case False
      have "char_match_loop v s ?stop p = char_match_loop v s ?stop (p + k + 1)"
        using Some False k assms by (subst char_match_loop.simps) (simp add: occurs_def memcmp_eq Let_def)
      moreover have "is_first (occurs s v) (p + k + 1) (char_match_loop v s ?stop (p + k + 1))"
        using k by (intro less) simp
      moreover have "\<not> occurs s v i" if "p \<le> i" "i < p + k + 1" for i
        using that skip Some False by (cases "i = p + k") auto
      ultimately show ?thesis
        by (auto simp: is_first_def not_less split: option.splits) (metis not_less_eq_eq less_Suc_eq_le)+
    qed
  qed
qed


lemma char_match_first: "is_first (occurs s v) 0 (char_match v s)"
proof (cases "s = [] \<or> length v < length s")
  case False
  then show ?thesis using char_match_loop_first [of s v 0] by (simp add: char_match_def)
qed (auto simp: char_match_def is_first_def occurs_def)

lemma is_first_shift:
  assumes "is_first P 0 r" "\<And>i. P i \<longleftrightarrow> Q (p + i)"
  shows "is_first Q p (map_option ((+) p) r)"
proof -
  have *: "Q j \<longleftrightarrow> P (j - p)" if "p \<le> j" for j using assms(2) [of "j - p"] that by simp
  show ?thesis
    using assms(1) by (cases r) (auto simp: is_first_def *)
qed

lemma find_view_first: "is_first (occurs s v) pos (find_view v s pos)"
proof (cases "v = [] \<or> length v < pos")
  case True
  then show ?thesis
    by (auto simp: find_view_def is_first_def occurs_def)
next
  case False
  then have "occurs s (drop pos v) i \<longleftrightarrow> occurs s v (pos + i)" for i
    by (auto simp: occurs_def add.commute)
  then show ?thesis
    using False is_first_shift [OF char_match_first, of s "drop pos v" "occurs s v" pos]
    by (simp add: find_view_def)
qed

text \<open>A character of \<open>v\<close> at a position satisfies \<open>P\<close>.\<close>

definition char_at :: "string \<Rightarrow> (char \<Rightarrow> bool) \<Rightarrow> nat \<Rightarrow> bool" where
  "char_at v P i \<longleftrightarrow> i < length v \<and> P (v ! i)"

lemma find_char_first: "is_first (char_at v (\<lambda>x. x = c)) pos (find_char v c pos)"
proof (cases "v = [] \<or> length v \<le> pos")
  case True
  then show ?thesis by (auto simp: find_char_def is_first_def char_at_def)
next
  case False
  then have "i < length (drop pos v) \<and> drop pos v ! i = c \<longleftrightarrow> char_at v (\<lambda>x. x = c) (pos + i)" for i
    by (auto simp: char_at_def)
  then show ?thesis
    using False is_first_shift [OF memchr_first, of "drop pos v" c _ pos] by (simp add: find_char_def)
qed

lemma length_1_set: "length s = 1 \<Longrightarrow> c \<in> set s \<longleftrightarrow> c = s ! 0"
  by (cases s) auto

lemma search_up_char: "is_first (char_at v P) pos (search_up P v pos)"
  using search_up_first [of v P pos] by (simp add: char_at_def [abs_def])

lemma min_pos_less: "v \<noteq> [] \<Longrightarrow> min_pos pos (length v - 1) < length v"
  by (cases v) (auto simp: min_pos_def split: option.splits)

lemma search_down_char: "v \<noteq> [] \<Longrightarrow> is_last (char_at v P) pos (search_down P v (min_pos pos (length v - 1)))"
proof -
  assume "v \<noteq> []"
  then have "is_last (char_at v P) (Some (min_pos pos (length v - 1))) (search_down P v (min_pos pos (length v - 1)))"
    using search_down_last [OF min_pos_less, of v P pos]
    by (simp add: char_at_def [abs_def])
  moreover have "within pos j \<and> char_at v P j \<longleftrightarrow> within (Some (min_pos pos (length v - 1))) j \<and> char_at v P j"
    for j by (auto simp: char_at_def min_pos_def within_def split: option.splits)
  ultimately show ?thesis unfolding is_last_def by (simp only:)
qed

lemma find_first_of_first: "is_first (char_at v (\<lambda>c. c \<in> set s)) pos (find_first_of v s pos)"
proof (cases "v = [] \<or> s = []")
  case True
  then show ?thesis by (auto simp: find_first_of_def is_first_def char_at_def)
next
  case False
  then show ?thesis
    using find_char_first [of v "s ! 0" pos] search_up_char [of v "\<lambda>c. c \<in> set s" pos] length_1_set [of s]
    by (simp add: find_first_of_def)
qed

lemma find_first_not_of_first: "is_first (char_at v (\<lambda>c. c \<notin> set s)) pos (find_first_not_of v s pos)"
proof (cases "v = []")
  case True
  then show ?thesis by (simp add: find_first_not_of_def is_first_def char_at_def)
next
  case False
  then show ?thesis
    using search_up_char [of v "\<lambda>c. c \<noteq> s ! 0" pos] search_up_char [of v "\<lambda>c. c \<notin> set s" pos] length_1_set [of s]
    by (simp add: find_first_not_of_def)
qed

lemma find_last_of_last: "is_last (char_at v (\<lambda>c. c \<in> set s)) pos (find_last_of v s pos)"
proof (cases "v = [] \<or> s = []")
  case True
  then show ?thesis by (auto simp: find_last_of_def is_last_def char_at_def)
next
  case False
  then show ?thesis
    using search_down_char [of v "\<lambda>c. c = s ! 0" pos] search_down_char [of v "\<lambda>c. c \<in> set s" pos] length_1_set [of s]
    by (simp add: find_last_of_def)
qed

lemma find_last_not_of_last: "is_last (char_at v (\<lambda>c. c \<notin> set s)) pos (find_last_not_of v s pos)"
proof (cases "v = []")
  case True
  then show ?thesis by (simp add: find_last_not_of_def is_last_def char_at_def)
next
  case False
  show ?thesis
  proof (cases "s = []")
    case True
    with False min_pos_less [of v pos] show ?thesis
      by (auto simp: find_last_not_of_def is_last_def char_at_def min_pos_def split: option.splits)
  next
    case s: False
    with False show ?thesis
      using search_down_char [of v "\<lambda>c. c \<noteq> s ! 0" pos] search_down_char [of v "\<lambda>c. c \<notin> set s" pos] length_1_set [of s]
      by (simp add: find_last_not_of_def Let_def)
  qed
qed


section \<open>Properties\<close>

text \<open>
  The searches of a view return the position the C++ standard asks for, for every pattern and
  start, the empty ones included: the first occurrence of a string or of a character from the start
  on, the first and the last character inside or outside a set, and \<open>npos\<close> when there is none.
\<close>

theorem view_searches:
  "is_first (occurs s v) pos (find_view v s pos)
   \<and> is_first (char_at v (\<lambda>x. x = c)) pos (find_char v c pos)
   \<and> is_first (char_at v (\<lambda>x. x \<in> set s)) pos (find_first_of v s pos)
   \<and> is_first (char_at v (\<lambda>x. x \<notin> set s)) pos (find_first_not_of v s pos)
   \<and> is_last (char_at v (\<lambda>x. x \<in> set s)) lim (find_last_of v s lim)
   \<and> is_last (char_at v (\<lambda>x. x \<notin> set s)) lim (find_last_not_of v s lim)"
  using find_view_first find_char_first find_first_of_first find_first_not_of_first
    find_last_of_last find_last_not_of_last by blast

end
