(* ===== verification/Trim.thy ===== *)
theory Trim
  imports String_View
begin

text \<open>
  \<open>abel/strings/trim.h\<close> and \<open>trim.cc\<close>, \<open>case_conv.cc\<close>, \<open>compare.cc\<close> and the case-insensitive tests of
  \<open>starts_with.cc\<close> and \<open>ends_with.cc\<close>. The trimming of white space is right in all its forms; of the
  versions that drop a given set of characters only two are.
\<close>

section \<open>Trimming white space\<close>

definition blank :: "char \<Rightarrow> bool" where
  "blank c = is_space (byte_of c)"

lemma blank_iff: "blank c \<longleftrightarrow> of_char c \<in> {9 .. 13 :: nat} \<or> of_char c = (32 :: nat)"
  by (auto simp: blank_def is_space_iff unat_byte_of)

text \<open>\<open>std::find_if_not\<close> as the number of elements before the one found.\<close>

fun find_if_not :: "(char \<Rightarrow> bool) \<Rightarrow> string \<Rightarrow> nat" where
  "find_if_not P [] = 0"
| "find_if_not P (c # cs) = (if P c then Suc (find_if_not P cs) else 0)"

text \<open>\<open>erase(pos)\<close>, \<open>erase(0, n)\<close> of a \<open>std::string\<close>; \<open>npos\<close> as a count erases everything.\<close>

definition erase_from :: "string \<Rightarrow> nat \<Rightarrow> string" where
  "erase_from s n = take n s"

definition erase_front :: "string \<Rightarrow> nat option \<Rightarrow> string" where
  "erase_front s n = (case n of None \<Rightarrow> [] | Some n \<Rightarrow> drop n s)"

definition trim_right_in_place :: "string \<Rightarrow> string" where
  "trim_right_in_place str = erase_from str (length str - find_if_not blank (rev str))"

definition trim_left_in_place :: "string \<Rightarrow> string" where
  "trim_left_in_place str = erase_front str (Some (find_if_not blank str))"

definition trim_all_in_place :: "string \<Rightarrow> string" where
  "trim_all_in_place str = trim_right_in_place (trim_left_in_place str)"

definition trim_right :: "string \<Rightarrow> out_of_range + string" where
  "trim_right str = substr str 0 (Some (length str - find_if_not blank (rev str)))"

definition trim_left :: "string \<Rightarrow> out_of_range + string" where
  "trim_left str = substr str (find_if_not blank str) None"

definition trim_all :: "string \<Rightarrow> out_of_range + string" where
  "trim_all str = (case trim_left str of Inl e \<Rightarrow> Inl e | Inr v \<Rightarrow> trim_right v)"

section \<open>Trimming a set of characters\<close>

text \<open>
  \<open>std::string::find_first_not_of(const char*, size_t)\<close> and \<open>find_last_not_of(const char*, size_t)\<close>:
  the second argument is the position where the search starts, and the characters are those of the
  C string up to its NUL. The calls below pass the data of a view and its size there; a view is taken
  to be followed by a NUL, as those of literals and of \<open>std::string\<close> are (without one the call reads on).
\<close>

definition c_string :: "string \<Rightarrow> string" where
  "c_string s = takeWhile (\<lambda>c. c \<noteq> CHR 0x00) s"

definition str_find_first_not_of :: "string \<Rightarrow> string \<Rightarrow> nat \<Rightarrow> nat option" where
  "str_find_first_not_of str cs pos = search_up (\<lambda>c. c \<notin> set (c_string cs)) str pos"

definition str_find_last_not_of :: "string \<Rightarrow> string \<Rightarrow> nat \<Rightarrow> nat option" where
  "str_find_last_not_of str cs pos =
     (if str = [] then None
      else search_down (\<lambda>c. c \<notin> set (c_string cs)) str (min pos (length str - 1)))"

definition trim_right_drop_in_place :: "string \<Rightarrow> string \<Rightarrow> string" where
  "trim_right_drop_in_place str cs =
     erase_from str (case str_find_last_not_of str cs (length cs) of None \<Rightarrow> 0 | Some k \<Rightarrow> k + 1)"

definition trim_left_drop_in_place :: "string \<Rightarrow> string \<Rightarrow> string" where
  "trim_left_drop_in_place str cs = erase_front str (str_find_first_not_of str cs (length cs))"

definition trim_all_drop_in_place :: "string \<Rightarrow> string \<Rightarrow> string" where
  "trim_all_drop_in_place str cs =
     (case str_find_last_not_of str cs (length cs) of
        Some p \<Rightarrow>
          let str = erase_from str (p + 1) in
          (case str_find_first_not_of str cs (length cs) of
             None \<Rightarrow> str | Some p \<Rightarrow> erase_front str (Some p))
      | None \<Rightarrow> [])"

definition trim_right_drop :: "string \<Rightarrow> string \<Rightarrow> out_of_range + string" where
  "trim_right_drop str cs =
     (case find_last_not_of str cs None of None \<Rightarrow> Inr [] | Some p \<Rightarrow> substr str 0 (Some (p + 1)))"

definition trim_left_drop :: "string \<Rightarrow> string \<Rightarrow> out_of_range + string" where
  "trim_left_drop str cs =
     (case find_first_not_of str cs 0 of None \<Rightarrow> Inr [] | Some p \<Rightarrow> substr str p None)"

definition trim_all_drop :: "string \<Rightarrow> string \<Rightarrow> out_of_range + string" where
  "trim_all_drop str cs =
     (case find_first_not_of str cs 0 of
        None \<Rightarrow> Inr []
      | Some pos1 \<Rightarrow>
          (case substr str pos1 None of
             Inl e \<Rightarrow> Inl e
           | Inr out \<Rightarrow>
               (case find_last_not_of out cs None of
                  None \<Rightarrow> Inr out
                | Some pos2 \<Rightarrow> substr out 0 (Some pos2))))"

section \<open>Collapsing white space\<close>

text \<open>
  The loop of \<open>trim_complete\<close> reads the view of the trimmed text, which lies in the buffer that it
  writes: the buffer, the index of the read, of the end of the view and of the write, the flag.
\<close>

fun complete_loop :: "string \<Rightarrow> nat \<Rightarrow> nat \<Rightarrow> nat \<Rightarrow> bool \<Rightarrow> string \<times> nat" where
  "complete_loop buf input_it 0 output_it is_ws = (buf, output_it)"
| "complete_loop buf input_it (Suc left) output_it is_ws =
     (let c = buf ! input_it;
          output_it = (if is_ws \<and> blank c then output_it - 1 else output_it);
          is_ws = blank c
      in complete_loop (buf[output_it := c]) (input_it + 1) left (output_it + 1) is_ws)"

definition trim_complete :: "string \<Rightarrow> string" where
  "trim_complete str =
     (let start = find_if_not blank str;
          stripped = trim_right_in_place (drop start str)
      in if stripped = [] then []
         else let (buf, output_it) = complete_loop str start (length stripped) 0 False
              in erase_from buf output_it)"

section \<open>Letter case\<close>

definition char_to_lower :: "char \<Rightarrow> char" where
  "char_to_lower c = char_of_byte (ascii_to_lower (byte_of c))"

definition char_to_upper :: "char \<Rightarrow> char" where
  "char_to_upper c = char_of_byte (ascii_to_upper (byte_of c))"

definition string_to_lower :: "string \<Rightarrow> string" where "string_to_lower s = List.map char_to_lower s"
definition string_to_upper :: "string \<Rightarrow> string" where "string_to_upper s = List.map char_to_upper s"

text \<open>A \<open>char\<close> is signed: its \<open>int\<close> value.\<close>

definition int_of_char :: "char \<Rightarrow> int" where
  "int_of_char c = sint (byte_of c)"

fun compare_case :: "string \<Rightarrow> string \<Rightarrow> int" where
  "compare_case (a # as) (b # bs) =
     (let ca = int_of_char (char_to_lower a); cb = int_of_char (char_to_lower b) in
      if ca = cb then compare_case as bs else if ca < cb then - 1 else 1)"
| "compare_case [] (b # bs) = 1"
| "compare_case (a # as) [] = - 1"
| "compare_case [] [] = 0"

definition equal_case :: "string \<Rightarrow> string \<Rightarrow> bool" where
  "equal_case a b \<longleftrightarrow> compare_case a b = 0"

definition starts_with_case :: "string \<Rightarrow> string \<Rightarrow> bool" where
  "starts_with_case txt prefix =
     (if length prefix \<le> length txt then compare_case (take (length prefix) txt) prefix = 0 else False)"

definition ends_with_case :: "string \<Rightarrow> string \<Rightarrow> bool" where
  "ends_with_case txt suffix =
     (if length suffix \<le> length txt then compare_case (drop (length txt - length suffix) txt) suffix = 0
      else False)"


section \<open>What the trimming functions return\<close>

definition rstrip :: "(char \<Rightarrow> bool) \<Rightarrow> string \<Rightarrow> string" where
  "rstrip P s = rev (dropWhile P (rev s))"

definition strip :: "(char \<Rightarrow> bool) \<Rightarrow> string \<Rightarrow> string" where
  "strip P s = rstrip P (dropWhile P s)"

lemma drop_find_if_not: "drop (find_if_not P s) s = dropWhile P s"
  by (induction s) auto

lemma find_if_not_le: "find_if_not P s \<le> length s"
  by (induction s) auto

lemma take_find_if_not: "take (length s - find_if_not P (rev s)) s = rstrip P s"
proof -
  have "rev (drop (find_if_not P (rev s)) (rev s)) = rstrip P s"
    by (simp add: drop_find_if_not rstrip_def)
  then show ?thesis by (simp add: rev_drop)
qed

lemma rstrip_snoc: "rstrip P (s @ [c]) = (if P c then rstrip P s else s @ [c])"
  by (simp add: rstrip_def)

lemma rstrip_Nil [simp]: "rstrip P [] = []"
  by (simp add: rstrip_def)

lemma erase_front_search:
  "erase_front s (search_up (\<lambda>c. \<not> P c) s p) = dropWhile P (drop p s)"
proof (induction "\<lambda>c. \<not> P c" s p rule: search_up.induct)
  case (1 s i)
  then show ?case
    by (cases "i < length s")
      (auto simp: search_up.simps [of _ s i] erase_front_def Cons_nth_drop_Suc [symmetric])
qed

lemma erase_from_search:
  "i < length s \<Longrightarrow>
   erase_from s (case search_down (\<lambda>c. \<not> P c) s i of None \<Rightarrow> 0 | Some k \<Rightarrow> k + 1) = rstrip P (take (Suc i) s)"
proof (induction i)
  case 0
  then show ?case
    using rstrip_snoc [of P "[]" "s ! 0"]
    by (simp add: search_down.simps [of _ s 0] erase_from_def take_Suc_conv_app_nth)
next
  case (Suc i)
  have t: "take (Suc (Suc i)) s = take (Suc i) s @ [s ! Suc i]"
    using Suc.prems by (rule take_Suc_conv_app_nth)
  show ?case
    unfolding t rstrip_snoc using Suc t by (auto simp: search_down.simps [of _ s "Suc i"] erase_from_def)
qed

text \<open>The searches of a view are the plain loops, whatever the number of characters.\<close>

lemma find_first_not_of_search: "find_first_not_of v s p = search_up (\<lambda>c. c \<notin> set s) v p"
  using is_first_unique [OF find_first_not_of_first search_up_char] .

lemma find_last_not_of_search:
  assumes "v \<noteq> []"
  shows "find_last_not_of v s None = search_down (\<lambda>c. c \<notin> set s) v (length v - 1)"
proof (cases "length s = 1")
  case True
  then have eq: "(\<lambda>c. c \<noteq> s ! 0) = (\<lambda>c. c \<notin> set s)" by (intro ext) (simp add: length_1_set)
  have "s \<noteq> []" using True by auto
  with True assms have "find_last_not_of v s None = search_down (\<lambda>c. c \<noteq> s ! 0) v (length v - 1)"
    unfolding find_last_not_of_def by (simp add: min_pos_def)
  then show ?thesis unfolding eq .
next
  case False
  have "search_down (\<lambda>c. True) v (length v - 1) = Some (length v - 1)"
    by (subst search_down.simps) simp
  with False assms show ?thesis by (cases "s = []") (simp_all add: find_last_not_of_def min_pos_def)
qed

lemma substr_rest: "n \<le> length s \<Longrightarrow> substr s n None = Inr (drop n s)"
  by (simp add: substr_def)

lemma trim_space_eq:
  "trim_left_in_place s = dropWhile blank s" "trim_right_in_place s = rstrip blank s"
  "trim_all_in_place s = strip blank s"
  "trim_left s = Inr (dropWhile blank s)" "trim_right s = Inr (rstrip blank s)"
  "trim_all s = Inr (strip blank s)"
proof -
  show left: "trim_left_in_place s = dropWhile blank s" for s
    by (simp add: trim_left_in_place_def erase_front_def drop_find_if_not)
  show right: "trim_right_in_place s = rstrip blank s" for s
    by (simp add: trim_right_in_place_def erase_from_def take_find_if_not)
  show "trim_all_in_place s = strip blank s"
    by (simp add: trim_all_in_place_def left right strip_def)
  show vleft: "trim_left s = Inr (dropWhile blank s)" for s
    by (simp add: trim_left_def substr_rest find_if_not_le) (simp add: drop_find_if_not)
  show vright: "trim_right s = Inr (rstrip blank s)" for s
    by (simp add: trim_right_def substr_def take_find_if_not)
  show "trim_all s = Inr (strip blank s)" by (simp add: trim_all_def vleft vright strip_def)
qed

lemma trim_left_drop_eq: "trim_left_drop s cs = Inr (dropWhile (\<lambda>c. c \<in> set cs) s)"
proof -
  have "erase_front s (find_first_not_of s cs 0) = dropWhile (\<lambda>c. c \<in> set cs) s"
    using erase_front_search [of s "\<lambda>c. c \<in> set cs" 0] by (simp add: find_first_not_of_search)
  moreover have "k < length s" if "find_first_not_of s cs 0 = Some k" for k
    using that find_first_not_of_first [of s cs 0] by (simp add: is_first_def char_at_def)
  ultimately show ?thesis
    by (auto simp: trim_left_drop_def erase_front_def substr_def split: option.splits)
qed

lemma find_last_not_of_take:
  "take (case find_last_not_of s cs None of None \<Rightarrow> 0 | Some k \<Rightarrow> Suc k) s = rstrip (\<lambda>c. c \<in> set cs) s"
proof (cases "s = []")
  case False
  then show ?thesis
    using erase_from_search [of "length s - 1" s "\<lambda>c. c \<in> set cs"]
    by (auto simp: find_last_not_of_search erase_from_def split: option.splits)
qed simp

lemma trim_right_drop_eq: "trim_right_drop s cs = Inr (rstrip (\<lambda>c. c \<in> set cs) s)"
  using find_last_not_of_take [of s cs]
  by (auto simp: trim_right_drop_def substr_def min_def split: option.splits)

text \<open>The view version of \<open>trim_all\<close> cuts one character too many.\<close>

lemma trim_all_drop_eq: "trim_all_drop s cs = Inr (butlast (strip (\<lambda>c. c \<in> set cs) s))"
proof -
  let ?P = "\<lambda>c. c \<in> set cs"
  have left: "(case find_first_not_of s cs 0 of None \<Rightarrow> Inr [] | Some p \<Rightarrow> substr s p None) = Inr (dropWhile ?P s)"
    using trim_left_drop_eq [of s cs] by (simp only: trim_left_drop_def)
  show ?thesis
  proof (cases "find_first_not_of s cs 0")
    case None
    with left show ?thesis by (simp add: trim_all_drop_def strip_def)
  next
    case (Some p)
    let ?out = "dropWhile ?P s"
    from Some have "\<not> ?P (s ! p)" "p < length s"
      using find_first_not_of_first [of s cs 0] by (simp_all add: is_first_def char_at_def)
    then have "?out \<noteq> []" by (simp add: dropWhile_eq_Nil_conv) (metis nth_mem)
    then have hd: "\<not> ?P (hd ?out)" by (rule hd_dropWhile [rotated]) 
    have "\<exists>k. find_last_not_of ?out cs None = Some k \<and> k < length ?out"
    proof (cases "find_last_not_of ?out cs None")
      case None
      with find_last_not_of_last [of ?out cs None] have "\<not> char_at ?out (\<lambda>c. c \<notin> set cs) 0"
        by (simp add: is_last_def)
      with \<open>?out \<noteq> []\<close> hd show ?thesis by (simp add: char_at_def hd_conv_nth)
    next
      case (Some k)
      then show ?thesis using find_last_not_of_last [of ?out cs None] by (simp add: is_last_def char_at_def)
    qed
    then obtain k where k: "find_last_not_of ?out cs None = Some k" "k < length ?out" by blast
    then have "rstrip ?P ?out = take (Suc k) ?out" using find_last_not_of_take [of ?out cs] by simp
    with k have "take k ?out = butlast (strip ?P s)" by (simp add: strip_def butlast_take)
    with k left Some show ?thesis by (simp add: trim_all_drop_def substr_def)
  qed
qed


text \<open>
  The in-place versions take the number of characters for the start of the search: \<open>P\<close> holds for the
  characters to drop, \<open>n\<close> is how many the caller gave.
\<close>

lemma trim_left_drop_in_place_eq:
  "trim_left_drop_in_place s cs = dropWhile (\<lambda>c. c \<in> set (c_string cs)) (drop (length cs) s)"
  using erase_front_search [of s "\<lambda>c. c \<in> set (c_string cs)" "length cs"]
  by (simp add: trim_left_drop_in_place_def str_find_first_not_of_def)

lemma trim_right_drop_in_place_eq:
  "trim_right_drop_in_place s cs = rstrip (\<lambda>c. c \<in> set (c_string cs)) (take (Suc (length cs)) s)"
proof (cases "s = []")
  case True
  then show ?thesis by (simp add: trim_right_drop_in_place_def str_find_last_not_of_def erase_from_def)
next
  case False
  let ?i = "min (length cs) (length s - 1)"
  have "?i < length s" using False by (cases s) auto
  from erase_from_search [OF this, of "\<lambda>c. c \<in> set (c_string cs)"]
  have "trim_right_drop_in_place s cs = rstrip (\<lambda>c. c \<in> set (c_string cs)) (take (Suc ?i) s)"
    using False by (simp add: trim_right_drop_in_place_def str_find_last_not_of_def)
  moreover have "take (Suc ?i) s = take (Suc (length cs)) s"
    using False by (cases s) (auto simp: min_def)
  ultimately show ?thesis by simp
qed

lemma rstrip_last: "rstrip P s \<noteq> [] \<Longrightarrow> \<not> P (last (rstrip P s))"
  by (induction s rule: rev_induct) (auto simp: rstrip_snoc)

lemma length_rstrip_le: "length (rstrip P s) \<le> length s"
  by (induction s rule: rev_induct) (auto simp: rstrip_snoc)

lemma trim_all_drop_in_place_eq:
  "trim_all_drop_in_place s cs =
    (let t = rstrip (\<lambda>c. c \<in> set (c_string cs)) (take (Suc (length cs)) s)
     in if length t \<le> length cs then t else [last t])"
proof -
  let ?P = "\<lambda>c. c \<in> set (c_string cs)" and ?n = "length cs"
  let ?t = "rstrip ?P (take (Suc ?n) s)"
  have right: "erase_from s (case str_find_last_not_of s cs ?n of None \<Rightarrow> 0 | Some k \<Rightarrow> k + 1) = ?t"
    using trim_right_drop_in_place_eq [of s cs] by (simp only: trim_right_drop_in_place_def)
  have front: "(case str_find_first_not_of ?t cs ?n of None \<Rightarrow> ?t | Some p \<Rightarrow> erase_front ?t (Some p)) =
      (if length ?t \<le> ?n then ?t else [last ?t])"
  proof (cases "length ?t \<le> ?n")
    case True
    then show ?thesis by (simp add: str_find_first_not_of_def search_up.simps [of _ ?t ?n])
  next
    case False
    have "length ?t \<le> Suc ?n" using length_rstrip_le [of ?P "take (Suc ?n) s"] by simp
    with False have len: "length ?t = Suc ?n" by simp
    then have "?t \<noteq> []" by auto
    then have last: "\<not> ?P (last ?t)" "last ?t = ?t ! ?n"
      using rstrip_last [OF \<open>?t \<noteq> []\<close>] len by (simp_all add: last_conv_nth)
    then have "str_find_first_not_of ?t cs ?n = Some ?n"
      using len by (simp add: str_find_first_not_of_def search_up.simps [of _ ?t ?n])
    moreover have "drop ?n ?t = [last ?t]"
      using len last(2) by (simp add: Cons_nth_drop_Suc [symmetric])
    ultimately show ?thesis using False by (simp add: erase_front_def)
  qed
  show ?thesis
  proof (cases "str_find_last_not_of s cs ?n")
    case None
    with right have "?t = []" by (simp add: erase_from_def)
    with None show ?thesis by (simp add: trim_all_drop_in_place_def)
  next
    case (Some k)
    with right have "erase_from s (k + 1) = ?t" by simp
    with Some front show ?thesis by (simp add: trim_all_drop_in_place_def Let_def)
  qed
qed

section \<open>Collapsing runs of white space\<close>

text \<open>Every run is replaced by its last character.\<close>

fun squeeze :: "string \<Rightarrow> string" where
  "squeeze [] = []"
| "squeeze (c # cs) = (if blank c \<and> cs \<noteq> [] \<and> blank (hd cs) then squeeze cs else c # squeeze cs)"

lemma squeeze_Nil_iff [simp]: "squeeze s = [] \<longleftrightarrow> s = []"
  by (induction s) auto

lemma last_squeeze [simp]: "last (squeeze s) = last s"
  by (induction s) auto

lemma length_squeeze_le: "length (squeeze s) \<le> length s"
  by (induction s) auto

lemma squeeze_snoc:
  "squeeze (xs @ [c]) = (if xs \<noteq> [] \<and> blank (last xs) \<and> blank c then butlast (squeeze xs) else squeeze xs) @ [c]"
proof (induction xs)
  case (Cons x xs)
  then show ?case by (cases "xs = []") auto
qed simp

lemma complete_loop_eq:
  assumes "input_it + n \<le> length buf" "length xs \<le> input_it" "take output_it buf = squeeze xs"
    "output_it = length (squeeze xs)" "is_ws \<longleftrightarrow> xs \<noteq> [] \<and> blank (last xs)"
  shows "(case complete_loop buf input_it n output_it is_ws of (buf', k) \<Rightarrow> take k buf') =
    squeeze (xs @ take n (drop input_it buf))"
  using assms
proof (induction n arbitrary: buf xs input_it output_it is_ws)
  case (Suc n)
  let ?c = "buf ! input_it"
  let ?out = "if is_ws \<and> blank ?c then output_it - 1 else output_it"
  let ?buf = "buf[?out := ?c]"
  have out: "?out \<le> input_it" "?out < length buf"
    using Suc.prems length_squeeze_le [of xs] by auto
  have pre: "take k (squeeze xs) = take k buf" if "k \<le> length (squeeze xs)" for k
    using that Suc.prems(3,4) by (metis min.absorb1 take_take)
  have sq: "squeeze (xs @ [?c]) = take ?out buf @ [?c]"
    using Suc.prems pre unfolding squeeze_snoc by (auto simp: butlast_conv_take min_def)
  have "(case complete_loop ?buf (input_it + 1) n (?out + 1) (blank ?c) of (buf', k) \<Rightarrow> take k buf') =
      squeeze ((xs @ [?c]) @ take n (drop (input_it + 1) ?buf))"
  proof (rule Suc.IH)
    show "take (?out + 1) ?buf = squeeze (xs @ [?c])"
      using out sq by (simp add: take_Suc_conv_app_nth)
    show "?out + 1 = length (squeeze (xs @ [?c]))" using out sq by simp
  qed (use Suc.prems in auto)
  moreover have "take (Suc n) (drop input_it buf) = ?c # take n (drop (input_it + 1) ?buf)"
    using Suc.prems(1) out by (simp add: Cons_nth_drop_Suc [symmetric])
  ultimately show ?case by (simp add: Let_def)
qed simp

lemma trim_complete_eq: "trim_complete s = squeeze (strip blank s)"
proof -
  let ?i = "find_if_not blank s" and ?v = "strip blank s"
  have v: "trim_right_in_place (drop ?i s) = ?v"
    by (simp add: trim_space_eq drop_find_if_not strip_def)
  have "take (length ?v) (drop ?i s) = ?v"
    using take_find_if_not [of "dropWhile blank s" blank]
    by (simp add: drop_find_if_not strip_def) (metis length_take take_take min.idem append_take_drop_id
        append_eq_conv_conj)
  moreover have "?i + length ?v \<le> length s"
    using length_rstrip_le [of blank "dropWhile blank s"] arg_cong [OF drop_find_if_not [of blank s], of length]
      find_if_not_le [of blank s] by (simp add: strip_def)
  ultimately show ?thesis
    using complete_loop_eq [of ?i "length ?v" s "[]" 0 False]
    by (simp add: trim_complete_def Let_def v erase_from_def split: prod.splits)
qed


section \<open>Comparison without regard for case\<close>

lemma int_of_char_inj: "int_of_char a = int_of_char b \<longleftrightarrow> a = b"
  unfolding int_of_char_def by (metis inj_byte_of signed_word_eqI)

lemma equal_case_iff: "equal_case a b \<longleftrightarrow> string_to_lower a = string_to_lower b"
proof -
  have "compare_case a b = 0 \<longleftrightarrow> string_to_lower a = string_to_lower b"
    by (induction a b rule: compare_case.induct) (simp_all add: Let_def int_of_char_inj string_to_lower_def)
  then show ?thesis by (simp add: equal_case_def)
qed

lemma starts_with_case_iff:
  "starts_with_case v p \<longleftrightarrow> (\<exists>xs ys. v = xs @ ys \<and> string_to_lower xs = string_to_lower p)"
proof -
  have "starts_with_case v p \<longleftrightarrow> length p \<le> length v \<and> string_to_lower (take (length p) v) = string_to_lower p"
    using equal_case_iff [of "take (length p) v" p] by (auto simp: starts_with_case_def equal_case_def)
  also have "\<dots> \<longleftrightarrow> (\<exists>xs ys. v = xs @ ys \<and> string_to_lower xs = string_to_lower p)"
  proof
    assume "length p \<le> length v \<and> string_to_lower (take (length p) v) = string_to_lower p"
    then show "\<exists>xs ys. v = xs @ ys \<and> string_to_lower xs = string_to_lower p"
      by (intro exI [of _ "take (length p) v"] exI [of _ "drop (length p) v"]) simp
  next
    assume "\<exists>xs ys. v = xs @ ys \<and> string_to_lower xs = string_to_lower p"
    then obtain xs ys where v: "v = xs @ ys" "string_to_lower xs = string_to_lower p" by blast
    then have "length xs = length p" unfolding string_to_lower_def by (metis length_map)
    with v show "length p \<le> length v \<and> string_to_lower (take (length p) v) = string_to_lower p" by auto
  qed
  finally show ?thesis .
qed

lemma compare_case_antisym: "compare_case b a = - compare_case a b"
  by (induction a b rule: compare_case.induct) (simp_all add: Let_def)

lemma compare_case_common: "string_to_lower xs = string_to_lower ys \<Longrightarrow> compare_case (xs @ a) (ys @ b) = compare_case a b"
proof (induction xs arbitrary: ys)
  case (Cons x xs)
  then show ?case by (cases ys) (auto simp: string_to_lower_def Let_def)
qed (simp add: string_to_lower_def)

section \<open>Properties\<close>

text \<open>
  C30. Trimming white space, in place and on views, removes exactly the white space at the ends asked
  for, and \<open>trim_complete\<close>, which reads a view of the buffer it writes, also replaces every run inside
  by its last character. White space is the space and the characters from 9 to 13, the vertical tab and
  the form feed included, which the comments of \<open>trim.h\<close> (a set that defaults to space, carriage return,
  newline and tab) do not name.
\<close>

theorem trim_white_space:
  "trim_left_in_place s = dropWhile blank s \<and> trim_left s = Inr (dropWhile blank s)
   \<and> trim_right_in_place s = rstrip blank s \<and> trim_right s = Inr (rstrip blank s)
   \<and> trim_all_in_place s = strip blank s \<and> trim_all s = Inr (strip blank s)
   \<and> trim_complete s = squeeze (strip blank s)
   \<and> blank c = (of_char c \<in> {9 .. 13 :: nat} \<or> of_char c = (32 :: nat))"
  by (simp add: trim_space_eq trim_complete_eq blank_iff)

text \<open>
  C29. Trimming a set of characters: only the two view versions for one end do it. The view version for
  both ends also cuts the last character that it should keep. The in-place versions hand the number
  of characters over as the start of the search: the left one removes that many characters first,
  the right one everything after that many and one, and the one for both ends keeps at most one
  character beyond.
\<close>

theorem trim_drop_set:
  "trim_left_drop s cs = Inr (dropWhile (\<lambda>c. c \<in> set cs) s)
   \<and> trim_right_drop s cs = Inr (rstrip (\<lambda>c. c \<in> set cs) s)
   \<and> trim_all_drop s cs = Inr (butlast (strip (\<lambda>c. c \<in> set cs) s))
   \<and> trim_left_drop_in_place s cs = dropWhile (\<lambda>c. c \<in> set (c_string cs)) (drop (length cs) s)
   \<and> trim_right_drop_in_place s cs = rstrip (\<lambda>c. c \<in> set (c_string cs)) (take (Suc (length cs)) s)
   \<and> trim_all_drop_in_place s cs =
       (let t = rstrip (\<lambda>c. c \<in> set (c_string cs)) (take (Suc (length cs)) s)
        in if length t \<le> length cs then t else [last t])
   \<and> trim_all_drop ''hello '' '' '' = Inr ''hell'' \<and> trim_left_drop_in_place ''hello'' '' '' = ''ello''
   \<and> trim_right_drop_in_place ''hello '' '' '' = ''he'' \<and> trim_all_drop_in_place ''hello '' '' '' = ''e''"
  by (simp add: trim_left_drop_eq trim_right_drop_eq trim_all_drop_eq trim_left_drop_in_place_eq
      trim_right_drop_in_place_eq trim_all_drop_in_place_eq strip_def rstrip_def c_string_def)

text \<open>
  \<open>compare_case\<close> is zero for texts that agree up to case and changes its sign when the texts change
  places; but when one text is a proper prefix of the other up to case, the shorter one is reported
  as the greater, which is not what \<open>strcmp\<close> does.
\<close>

theorem compare_case_prefix:
  "(compare_case a b = 0 \<longleftrightarrow> string_to_lower a = string_to_lower b)
   \<and> compare_case b a = - compare_case a b
   \<and> compare_case a (a @ c # cs) = 1 \<and> compare_case (a @ c # cs) a = - 1"
proof -
  have "compare_case a (a @ c # cs) = 1" "compare_case (a @ c # cs) a = - 1"
    using compare_case_common [of a a "[]" "c # cs"] compare_case_common [of a a "c # cs" "[]"] by simp_all
  then show ?thesis
    using equal_case_iff [of a b] compare_case_antisym [of b a] by (simp add: equal_case_def)
qed

end
