(* ===== verification/Str_Replace.thy ===== *)
theory Str_Replace
  imports String_View "HOL-Library.Multiset"
begin

text \<open>
  \<open>abel/strings/str_replace.h\<close> and \<open>str_replace.cc\<close>: the replacement of several substrings in one pass.
  The candidates wait in a vector whose last element is the one that occurs first; the loop takes
  it, moves it to its next occurrence and sifts it down again. The specification is a scanner that
  replaces, at every position, the longest pattern that stands there.
\<close>

section \<open>Candidates\<close>

record viable_substitution =
  old :: string
  replacement :: string
  offset :: nat

definition OccursBefore :: "viable_substitution \<Rightarrow> viable_substitution \<Rightarrow> bool" where
  "OccursBefore x y =
     (if offset x \<noteq> offset y then offset x < offset y else length (old y) < length (old x))"

text \<open>The insertion sort: the element at \<open>index\<close> moves to the front while its predecessor goes first.\<close>

fun sift :: "viable_substitution list \<Rightarrow> nat \<Rightarrow> viable_substitution list" where
  "sift subs 0 = subs"
| "sift subs (Suc i) =
     (if OccursBefore (subs ! i) (subs ! Suc i)
      then sift (subs[i := subs ! Suc i, Suc i := subs ! i]) i
      else subs)"

text \<open>One replacement of the list; \<open>npos\<close> skips it, and so does an empty pattern.\<close>

definition add_substitution ::
    "string \<Rightarrow> viable_substitution list \<Rightarrow> string \<times> string \<Rightarrow> viable_substitution list" where
  "add_substitution s subs rep =
     (case find_view s (fst rep) 0 of
        None \<Rightarrow> subs
      | Some pos \<Rightarrow>
          if fst rep = [] then subs
          else
            let subs = subs @ [\<lparr>old = fst rep, replacement = snd rep, offset = pos\<rparr>]
            in sift subs (length subs - 1))"

definition find_substitutions :: "string \<Rightarrow> (string \<times> string) list \<Rightarrow> viable_substitution list" where
  "find_substitutions s replacements = foldl (add_substitution s) [] replacements"

section \<open>The loop\<close>

text \<open>The state: the candidates, the result so far, the position in the text, the replacements made.\<close>

record apply_state =
  subs :: "viable_substitution list"
  result :: string
  pos :: nat
  substitutions :: nat

text \<open>\<open>string_append(result_ptr, s.substr(pos, sub.offset - pos), sub.replacement)\<close>, if it applies.\<close>

definition take_substitution :: "string \<Rightarrow> viable_substitution \<Rightarrow> apply_state \<Rightarrow> apply_state" where
  "take_substitution s sub st =
     (if pos st \<le> offset sub then
        let out = (if pos st \<le> length s
                   then case substr s (pos st) (Some (offset sub - pos st)) of
                          Inl _ \<Rightarrow> result st | Inr piece \<Rightarrow> result st @ piece @ replacement sub
                   else result st)
        in st\<lparr>result := out, pos := offset sub + length (old sub), substitutions := substitutions st + 1\<rparr>
      else st)"

definition apply_step :: "string \<Rightarrow> apply_state \<Rightarrow> apply_state" where
  "apply_step s st =
     (let sub = last (subs st);
          st = take_substitution s sub st
      in case find_view s (old sub) (pos st) of
           None \<Rightarrow> st\<lparr>subs := butlast (subs st)\<rparr>
         | Some k \<Rightarrow>
             let v = butlast (subs st) @ [sub\<lparr>offset := k\<rparr>]
             in st\<lparr>subs := sift v (length v - 1)\<rparr>)"

partial_function (option) apply_loop :: "string \<Rightarrow> apply_state \<Rightarrow> apply_state option" where
  "apply_loop s st = (if subs st = [] then Some st else apply_loop s (apply_step s st))"

declare apply_loop.simps [code]

definition apply_substitutions ::
    "string \<Rightarrow> viable_substitution list \<Rightarrow> string \<Rightarrow> (string \<times> nat) option" where
  "apply_substitutions s v out = do {
     st \<leftarrow> apply_loop s \<lparr>subs = v, result = out, pos = 0, substitutions = 0\<rparr>;
     Some (result st @ take (length s - pos st) (drop (pos st) s), substitutions st)
   }"

definition string_replace_all :: "string \<Rightarrow> (string \<times> string) list \<Rightarrow> string option" where
  "string_replace_all s replacements =
     map_option fst (apply_substitutions s (find_substitutions s replacements) [])"

text \<open>In place: the new contents of the target, and the number of replacements.\<close>

definition string_replace_all_in_place :: "(string \<times> string) list \<Rightarrow> string \<Rightarrow> (string \<times> nat) option" where
  "string_replace_all_in_place replacements target =
     (let v = find_substitutions target replacements in
      if v = [] then Some (target, 0) else apply_substitutions target v [])"

section \<open>Specification: longest pattern at every position\<close>

text \<open>\<open>reps\<close> are the pairs of a pattern and its replacement; an empty pattern never stands anywhere.\<close>

definition stands :: "string \<times> string \<Rightarrow> string \<Rightarrow> bool" where
  "stands rep s \<longleftrightarrow> fst rep \<noteq> [] \<and> (\<exists>rest. s = fst rep @ rest)"

lemma stands_code [code]:
  "stands rep s \<longleftrightarrow> fst rep \<noteq> [] \<and> take (length (fst rep)) s = fst rep"
  by (auto simp: stands_def append_eq_conv_conj) (metis append_take_drop_id)

primrec longest_at :: "(string \<times> string) list \<Rightarrow> string \<Rightarrow> (string \<times> string) option" where
  "longest_at [] s = None"
| "longest_at (rep # reps) s =
     (case longest_at reps s of
        None \<Rightarrow> if stands rep s then Some rep else None
      | Some best \<Rightarrow> if stands rep s \<and> length (fst best) < length (fst rep) then Some rep else Some best)"

text \<open>The text after the replacements, and how many there are.\<close>

fun scan :: "(string \<times> string) list \<Rightarrow> string \<Rightarrow> string \<times> nat" where
  "scan reps [] = ([], 0)"
| "scan reps (c # cs) =
     (case longest_at reps (c # cs) of
        None \<Rightarrow> apfst (Cons c) (scan reps cs)
      | Some (pat, new) \<Rightarrow> apfst ((@) new) (apsnd Suc (scan reps (drop (length pat - 1) cs))))"

lemma longest_at_None: "longest_at reps s = None \<longleftrightarrow> (\<forall>r\<in>set reps. \<not> stands r s)"
  by (induction reps) (auto split: option.splits)

lemma longest_at_Some:
  "longest_at reps s = Some b \<Longrightarrow> b \<in> set reps \<and> stands b s \<and> (\<forall>r\<in>set reps. stands r s \<longrightarrow> length (fst r) \<le> length (fst b))"
proof (induction reps arbitrary: b)
  case (Cons rep reps)
  show ?case
  proof (cases "longest_at reps s")
    case None
    with Cons.prems show ?thesis by (auto simp: longest_at_None split: if_splits)
  next
    case (Some c)
    from Cons.IH [OF Some] Cons.prems Some show ?thesis
      by (cases "stands rep s \<and> length (fst c) < length (fst rep)") (auto simp: not_less intro: less_imp_le order_trans)
  qed
qed simp

lemma longest_at_eq:
  assumes "distinct (map fst reps)" "b \<in> set reps" "stands b s"
    "\<And>r. r \<in> set reps \<Longrightarrow> stands r s \<Longrightarrow> length (fst r) \<le> length (fst b)"
  shows "longest_at reps s = Some b"
proof (cases "longest_at reps s")
  case None
  with assms show ?thesis by (auto simp: longest_at_None)
next
  case (Some c)
  then have c: "c \<in> set reps" "stands c s" "length (fst b) \<le> length (fst c)"
    using longest_at_Some assms by blast+
  with assms have "length (fst c) = length (fst b)" by (simp add: le_antisym)
  with assms(3) c(2) have "fst c = fst b" by (auto simp: stands_def append_eq_append_conv)
  with assms(1,2) c(1) have "c = b" by (metis eq_key_imp_eq_value prod.collapse)
  with Some show ?thesis by simp
qed

lemma scan_count: "snd (scan reps s) \<le> length s"
proof (induction reps s rule: scan.induct)
  case (2 reps c cs)
  show ?case
  proof (cases "longest_at reps (c # cs)")
    case (Some r)
    obtain pat new where r: "r = (pat, new)" by (cases r)
    have "snd (scan reps (drop (length pat - 1) cs)) \<le> length cs - (length pat - 1)"
      using 2(2) [OF Some r [symmetric]] by simp
    then show ?thesis using Some r by simp
  qed (use 2(1) in simp)
qed simp

text \<open>Where a pattern occurs, and how the scanner passes over a gap and a match.\<close>

lemma stands_occurs:
  assumes "fst r \<noteq> []" shows "stands r (drop k s) \<longleftrightarrow> occurs (fst r) s k"
proof
  assume "stands r (drop k s)"
  then obtain rest where rest: "drop k s = fst r @ rest" by (auto simp: stands_def)
  then have "length s - k = length (fst r) + length rest" by (metis length_append length_drop)
  moreover have "0 < length (fst r)" using assms by simp
  ultimately have "k + length (fst r) \<le> length s" by linarith
  with rest show "occurs (fst r) s k" by (simp add: occurs_def)
next
  assume "occurs (fst r) s k"
  with assms show "stands r (drop k s)" by (auto simp: stands_code occurs_def)
qed

lemma scan_gap:
  assumes "\<And>k r. i \<le> k \<Longrightarrow> k < j \<Longrightarrow> r \<in> set reps \<Longrightarrow> \<not> stands r (drop k s)" "i \<le> j" "j \<le> length s"
  shows "scan reps (drop i s) = apfst ((@) (take (j - i) (drop i s))) (scan reps (drop j s))"
  using assms
proof (induction "j - i" arbitrary: i)
  case 0
  then show ?case by (simp add: apfst_def map_prod_def split: prod.splits)
next
  case (Suc d)
  then have i: "i < length s" "Suc i \<le> j" by auto
  then have cons: "drop i s = s ! i # drop (Suc i) s" by (simp add: Cons_nth_drop_Suc)
  moreover have "longest_at reps (drop i s) = None"
    using Suc i by (auto simp: longest_at_None)
  ultimately have "scan reps (drop i s) = apfst (Cons (s ! i)) (scan reps (drop (Suc i) s))"
    by simp
  also have "scan reps (drop (Suc i) s) = apfst ((@) (take (j - Suc i) (drop (Suc i) s))) (scan reps (drop j s))"
    using Suc i by (intro Suc.hyps) auto
  finally show ?case
    using i cons by (simp add: apfst_def map_prod_def Suc_diff_Suc [symmetric] del: Suc_diff_Suc split: prod.splits)
qed


lemma scan_match:
  assumes "stands (p, r) (drop k s)" "longest_at reps (drop k s) = Some (p, r)"
  shows "scan reps (drop k s) = apfst ((@) r) (apsnd Suc (scan reps (drop (k + length p) s)))"
proof -
  obtain c cs where d: "drop k s = c # cs" and p: "p \<noteq> []"
    using assms(1) by (cases "drop k s") (auto simp: stands_def)
  have "drop (length p - 1) cs = drop (length p) (drop k s)"
    using p by (simp add: d drop_Cons split: nat.splits)
  also have "\<dots> = drop (k + length p) s" by (simp add: add.commute)
  finally show ?thesis using assms(2) d by simp
qed

section \<open>The vector stays sorted\<close>

abbreviation sorted_subs :: "viable_substitution list \<Rightarrow> bool" where
  "sorted_subs \<equiv> sorted_wrt (\<lambda>a b. \<not> OccursBefore a b)"

lemma OccursBefore_asym: "OccursBefore a b \<Longrightarrow> \<not> OccursBefore b a"
  by (auto simp: OccursBefore_def split: if_splits)

lemma not_OccursBefore_trans: "\<not> OccursBefore a b \<Longrightarrow> \<not> OccursBefore b c \<Longrightarrow> \<not> OccursBefore a c"
  by (auto simp: OccursBefore_def split: if_splits)

lemma sift_shape:
  "\<exists>as bs. xs = as @ bs \<and> sift (xs @ [x] @ ys) (length xs) = as @ [x] @ bs @ ys
     \<and> list_all (\<lambda>b. OccursBefore b x) bs \<and> (as \<noteq> [] \<longrightarrow> \<not> OccursBefore (last as) x)"
proof (induction xs arbitrary: ys rule: rev_induct)
  case (snoc z zs)
  show ?case
  proof (cases "OccursBefore z x")
    case True
    from snoc.IH [of "z # ys"] obtain as bs where ab: "zs = as @ bs"
      "sift (zs @ [x] @ z # ys) (length zs) = as @ [x] @ bs @ z # ys"
      "list_all (\<lambda>b. OccursBefore b x) bs" "as \<noteq> [] \<longrightarrow> \<not> OccursBefore (last as) x" by blast
    have "sift ((zs @ [z]) @ [x] @ ys) (length (zs @ [z])) = sift (zs @ [x] @ z # ys) (length zs)"
      using True by (simp add: nth_append list_update_append)
    with ab True show ?thesis by (intro exI [of _ as] exI [of _ "bs @ [z]"]) simp
  next
    case False
    then have "sift ((zs @ [z]) @ [x] @ ys) (length (zs @ [z])) = (zs @ [z]) @ [x] @ ys"
      by (simp add: nth_append)
    with False show ?thesis by (intro exI [of _ "zs @ [z]"] exI [of _ "[]"]) simp
  qed
qed simp

lemma sift_sorted:
  assumes "sorted_subs xs" shows "sorted_subs (sift (xs @ [x]) (length xs))"
proof -
  obtain as bs where ab: "xs = as @ bs" "sift (xs @ [x]) (length xs) = as @ [x] @ bs"
    "list_all (\<lambda>b. OccursBefore b x) bs" "as \<noteq> [] \<longrightarrow> \<not> OccursBefore (last as) x"
    using sift_shape [of xs x "[]"] unfolding append_Nil2 by blast
  have "\<not> OccursBefore a x" if "a \<in> set as" for a
  proof (cases as rule: rev_cases)
    case (snoc cs z)
    then have "\<not> OccursBefore z x" "a = z \<or> a \<in> set cs" using ab(4) that by auto
    moreover have "\<not> OccursBefore c z" if "c \<in> set cs" for c
      using assms that unfolding ab(1) snoc by (auto simp: sorted_wrt_append)
    ultimately show ?thesis using not_OccursBefore_trans by blast
  qed (use that in simp)
  with assms ab show ?thesis
    by (auto simp: sorted_wrt_append list_all_iff dest: OccursBefore_asym)
qed

lemma mset_sift: "mset (sift (xs @ [x]) (length xs)) = add_mset x (mset xs)"
  using sift_shape [of xs x "[]"] by auto

lemma set_sift: "set (sift (xs @ [x]) (length xs)) = insert x (set xs)"
  using arg_cong [OF mset_sift, of set_mset xs x] by simp


section \<open>The invariant of the loop\<close>

text \<open>
  \<open>tracked reps s p sub\<close>: the candidate is one of the replacements, stands at its offset, and nowhere
  between \<open>p\<close> and there.
\<close>

definition tracked :: "(string \<times> string) list \<Rightarrow> string \<Rightarrow> nat \<Rightarrow> viable_substitution \<Rightarrow> bool" where
  "tracked reps s p sub \<longleftrightarrow> (old sub, replacement sub) \<in> set reps \<and> old sub \<noteq> []
     \<and> occurs (old sub) s (offset sub) \<and> (\<forall>k. p \<le> k \<and> k < offset sub \<longrightarrow> \<not> occurs (old sub) s k)"

definition covers :: "(string \<times> string) list \<Rightarrow> string \<Rightarrow> nat \<Rightarrow> viable_substitution list \<Rightarrow> bool" where
  "covers reps s p v \<longleftrightarrow> (\<forall>r\<in>set reps. fst r \<noteq> [] \<longrightarrow>
     (\<exists>sub\<in>set v. old sub = fst r) \<or> (\<forall>k\<ge>p. \<not> occurs (fst r) s k))"

definition replace_inv :: "(string \<times> string) list \<Rightarrow> string \<Rightarrow> apply_state \<Rightarrow> bool" where
  "replace_inv reps s st \<longleftrightarrow> sorted_subs (subs st) \<and> pos st \<le> length s
     \<and> list_all (tracked reps s (pos st)) (subs st) \<and> covers reps s (pos st) (subs st)"

lemma tracked_mono: "tracked reps s p sub \<Longrightarrow> p \<le> q \<Longrightarrow> tracked reps s q sub"
  by (auto simp: tracked_def)

lemma covers_mono: "covers reps s p v \<Longrightarrow> p \<le> q \<Longrightarrow> covers reps s q v"
  unfolding covers_def by (meson order_trans)

lemma occurs_bound: "occurs p s k \<Longrightarrow> k + length p \<le> length s"
  by (simp add: occurs_def)

text \<open>When the last candidate is ahead, the scanner replaces it next.\<close>

lemma scan_next:
  assumes inv: "replace_inv reps s st" and "distinct (map fst reps)" "subs st \<noteq> []"
    and sub: "sub = last (subs st)" "pos st \<le> offset sub"
  shows "scan reps (drop (pos st) s) =
    apfst ((@) (take (offset sub - pos st) (drop (pos st) s) @ replacement sub))
      (apsnd Suc (scan reps (drop (offset sub + length (old sub)) s)))"
proof -
  have split: "subs st = butlast (subs st) @ [sub]" using assms by simp
  have tr: "tracked reps s (pos st) x" if "x \<in> set (subs st)" for x
    using inv that by (auto simp: replace_inv_def list_all_iff)
  have sub_in: "sub \<in> set (subs st)" using assms by simp
  have least: "\<not> OccursBefore x sub" if "x \<in> set (subs st)" for x
  proof -
    have "sorted_subs (butlast (subs st) @ [sub])" using inv split by (simp add: replace_inv_def)
    moreover have "x \<in> set (butlast (subs st)) \<or> x = sub"
      using that by (subst (asm) split) auto
    ultimately show ?thesis by (auto simp: sorted_wrt_append dest: OccursBefore_asym)
  qed
  have cover: "\<exists>x\<in>set (subs st). old x = fst r \<and> offset x \<le> k"
    if rk: "r \<in> set reps" "stands r (drop k s)" "pos st \<le> k" for r k
  proof -
    have r: "fst r \<noteq> []" "occurs (fst r) s k"
      using rk stands_occurs [of r k s] by (auto simp: stands_def)
    then obtain x where "x \<in> set (subs st)" "old x = fst r"
      using inv rk by (auto simp: replace_inv_def covers_def)
    with tr [of x] r rk show ?thesis by (metis not_less tracked_def)
  qed
  let ?b = "(old sub, replacement sub)"
  have b: "?b \<in> set reps" "stands ?b (drop (offset sub) s)" "offset sub \<le> length s"
    using tr [OF sub_in] stands_occurs [of ?b] occurs_bound by (fastforce simp: tracked_def)+
  have "\<not> stands r (drop k s)" if "pos st \<le> k" "k < offset sub" "r \<in> set reps" for r k
    using cover [of r k] that least by (force simp: OccursBefore_def split: if_splits)
  then have "scan reps (drop (pos st) s) =
      apfst ((@) (take (offset sub - pos st) (drop (pos st) s))) (scan reps (drop (offset sub) s))"
    using sub b by (intro scan_gap) auto
  also have "longest_at reps (drop (offset sub) s) = Some ?b"
  proof (rule longest_at_eq [OF assms(2) b(1,2)])
    fix r assume "r \<in> set reps" "stands r (drop (offset sub) s)"
    then show "length (fst r) \<le> length (fst ?b)"
      using cover [of r "offset sub"] sub least by (force simp: OccursBefore_def split: if_splits)
  qed
  then have "scan reps (drop (offset sub) s) =
      apfst ((@) (replacement sub)) (apsnd Suc (scan reps (drop (offset sub + length (old sub)) s)))"
    using b by (intro scan_match)
  finally show ?thesis by (simp add: apfst_def apsnd_def map_prod_def split: prod.splits)
qed


text \<open>One step keeps the invariant, replaces what the scanner replaces, and makes progress.\<close>

definition loop_measure :: "string \<Rightarrow> apply_state \<Rightarrow> nat" where
  "loop_measure s st = sum_mset (image_mset (\<lambda>sub. length s + 1 - offset sub) (mset (subs st)))"

definition remaining :: "(string \<times> string) list \<Rightarrow> string \<Rightarrow> apply_state \<Rightarrow> string \<times> nat" where
  "remaining reps s st = apfst ((@) (result st)) (apsnd ((+) (substitutions st)) (scan reps (drop (pos st) s)))"

lemma take_substitution_inv:
  assumes "replace_inv reps s st" "distinct (map fst reps)" "subs st \<noteq> []" "sub = last (subs st)"
  defines "st' \<equiv> take_substitution s sub st"
  shows "replace_inv reps s st'" "remaining reps s st' = remaining reps s st"
    "subs st' = subs st" "offset sub < pos st'"
proof -
  have tr: "tracked reps s (pos st) sub"
    using assms by (auto simp: replace_inv_def list_all_iff)
  then have b: "offset sub + length (old sub) \<le> length s" "0 < length (old sub)"
    using occurs_bound by (auto simp: tracked_def)
  show "subs st' = subs st" by (simp add: st'_def take_substitution_def Let_def)
  show "offset sub < pos st'" using b by (simp add: st'_def take_substitution_def)
  have le: "pos st \<le> pos st'" "pos st' \<le> length s"
    using b assms(1) by (auto simp: st'_def take_substitution_def replace_inv_def)
  with assms(1) show "replace_inv reps s st'"
    unfolding replace_inv_def \<open>subs st' = subs st\<close> list_all_iff
    using tracked_mono covers_mono by blast
  show "remaining reps s st' = remaining reps s st"
  proof (cases "pos st \<le> offset sub")
    case True
    have "remaining reps s st = apfst ((@) (result st @ take (offset sub - pos st) (drop (pos st) s) @ replacement sub))
        (apsnd ((+) (Suc (substitutions st))) (scan reps (drop (offset sub + length (old sub)) s)))"
      unfolding remaining_def scan_next [OF assms(1-4) True]
      by (simp add: apfst_def apsnd_def map_prod_def split: prod.splits)
    moreover have "substr s (pos st) (Some (offset sub - pos st)) = Inr (take (offset sub - pos st) (drop (pos st) s))"
      using assms(1) b by (simp add: substr_def replace_inv_def min_def)
    ultimately show ?thesis
      using True assms(1) by (simp add: remaining_def st'_def take_substitution_def replace_inv_def)
  qed (simp add: st'_def take_substitution_def)
qed

lemma apply_step_inv:
  assumes "replace_inv reps s st" "distinct (map fst reps)" "subs st \<noteq> []"
  defines "st' \<equiv> apply_step s st"
  shows "replace_inv reps s st'" "remaining reps s st' = remaining reps s st"
    "loop_measure s st' < loop_measure s st"
proof -
  let ?sub = "last (subs st)"
  define t where "t = take_substitution s ?sub st"
  note t = take_substitution_inv [OF assms(1-3) refl, folded t_def]
  define xs where "xs = butlast (subs st)"
  have split: "subs st = xs @ [?sub]" using assms(3) by (simp add: xs_def)
  have inv: "sorted_subs xs" "pos t \<le> length s" "list_all (tracked reps s (pos t)) xs"
    "tracked reps s (pos t) ?sub" "covers reps s (pos t) (xs @ [?sub])"
    using t(1) unfolding replace_inv_def t(3) by (subst (asm) (1 2 3) split, simp add: sorted_wrt_append)+
  have old: "offset ?sub \<le> length s" "?sub \<in> set (subs st)"
    using inv(4) occurs_bound [of "old ?sub" s "offset ?sub"] assms(3) by (auto simp: tracked_def)
  have first: "is_first (occurs (old ?sub) s) (pos t) (find_view s (old ?sub) (pos t))"
    by (rule find_view_first)
  have "replace_inv reps s st' \<and> remaining reps s st' = remaining reps s st \<and> loop_measure s st' < loop_measure s st"
  proof (cases "find_view s (old ?sub) (pos t)")
    case None
    then have st': "st' = t\<lparr>subs := xs\<rparr>"
      by (simp add: st'_def apply_step_def Let_def t_def [symmetric] t(3) xs_def)
    have "covers reps s (pos t) xs"
      using inv(5) first None unfolding covers_def is_first_def by fastforce
    then have "replace_inv reps s st'" using inv by (simp add: st' replace_inv_def)
    moreover have "remaining reps s st' = remaining reps s st"
      using t(2) by (simp add: st' remaining_def)
    moreover have "loop_measure s st' < loop_measure s st"
      using old by (subst (2) loop_measure_def, subst split) (simp add: loop_measure_def st')
    ultimately show ?thesis by blast
  next
    case (Some k)
    let ?new = "?sub\<lparr>offset := k\<rparr>"
    from Some have st': "st' = t\<lparr>subs := sift (xs @ [?new]) (length xs)\<rparr>"
      by (simp add: st'_def apply_step_def Let_def t_def [symmetric] t(3) xs_def)
    from first Some have k: "pos t \<le> k" "occurs (old ?sub) s k"
      "\<forall>j. pos t \<le> j \<and> j < k \<longrightarrow> \<not> occurs (old ?sub) s j"
      by (simp_all add: is_first_def)
    then have "tracked reps s (pos t) ?new" using inv(4) by (simp add: tracked_def)
    moreover have "covers reps s (pos t) (sift (xs @ [?new]) (length xs))"
      using inv(5) by (auto simp: covers_def set_sift)
    ultimately have "replace_inv reps s st'"
      using inv by (simp add: st' replace_inv_def sift_sorted list_all_iff set_sift)
    moreover have "remaining reps s st' = remaining reps s st"
      using t(2) by (simp add: st' remaining_def)
    moreover have "offset ?sub < k" "k \<le> length s"
      using t(4) k occurs_bound [OF k(2)] by simp_all
    then have "loop_measure s st' < loop_measure s st"
      by (subst (2) loop_measure_def, subst split) (simp add: loop_measure_def st' mset_sift)
    ultimately show ?thesis by blast
  qed
  then show "replace_inv reps s st'" "remaining reps s st' = remaining reps s st"
    "loop_measure s st' < loop_measure s st" by blast+
qed


lemma apply_loop_correct:
  "replace_inv reps s st \<Longrightarrow> distinct (map fst reps) \<Longrightarrow>
   \<exists>st'. apply_loop s st = Some st' \<and> replace_inv reps s st' \<and> subs st' = [] \<and> remaining reps s st' = remaining reps s st"
proof (induction "loop_measure s st" arbitrary: st rule: less_induct)
  case less
  show ?case
  proof (cases "subs st = []")
    case True
    with less.prems show ?thesis by (subst apply_loop.simps) simp
  next
    case False
    note step = apply_step_inv [OF less.prems False]
    from less.hyps [OF step(3,1) less.prems(2)] step(2) show ?thesis
      using False by (subst apply_loop.simps) simp
  qed
qed

lemma remaining_done:
  assumes "replace_inv reps s st" "subs st = []"
  shows "remaining reps s st = (result st @ drop (pos st) s, substitutions st)"
proof -
  have "scan reps (drop (pos st) s) = apfst ((@) (take (length s - pos st) (drop (pos st) s))) (scan reps (drop (length s) s))"
  proof (rule scan_gap)
    fix k r assume "pos st \<le> k" "r \<in> set reps"
    then show "\<not> stands r (drop k s)"
      using assms stands_occurs [of r k s] by (auto simp: replace_inv_def covers_def stands_def)
  qed (use assms in \<open>auto simp: replace_inv_def\<close>)
  then show ?thesis by (simp add: remaining_def)
qed

text \<open>The candidates that are collected first.\<close>

lemma add_substitution_inv:
  assumes "sorted_subs v" "list_all (tracked reps s 0) v" "rep \<in> set reps"
  shows "sorted_subs (add_substitution s v rep)" "list_all (tracked reps s 0) (add_substitution s v rep)"
    "set v \<subseteq> set (add_substitution s v rep)"
    "fst rep \<noteq> [] \<Longrightarrow> (\<exists>sub\<in>set (add_substitution s v rep). old sub = fst rep) \<or> (\<forall>k. \<not> occurs (fst rep) s k)"
proof -
  have first: "is_first (occurs (fst rep) s) 0 (find_view s (fst rep) 0)" by (rule find_view_first)
  let ?new = "\<lambda>k. \<lparr>old = fst rep, replacement = snd rep, offset = k\<rparr>"
  have "tracked reps s 0 (?new k)" if "find_view s (fst rep) 0 = Some k" "fst rep \<noteq> []" for k
    using that first assms(3) by (simp add: tracked_def is_first_def)
  moreover have "add_substitution s v rep = (case find_view s (fst rep) 0 of None \<Rightarrow> v
      | Some k \<Rightarrow> if fst rep = [] then v else sift (v @ [?new k]) (length v))"
    by (simp add: add_substitution_def Let_def split: option.splits)
  moreover have "\<forall>k. \<not> occurs (fst rep) s k" if "find_view s (fst rep) 0 = None"
    using that first by (simp add: is_first_def)
  ultimately show "sorted_subs (add_substitution s v rep)" "list_all (tracked reps s 0) (add_substitution s v rep)"
    "set v \<subseteq> set (add_substitution s v rep)"
    "fst rep \<noteq> [] \<Longrightarrow> (\<exists>sub\<in>set (add_substitution s v rep). old sub = fst rep) \<or> (\<forall>k. \<not> occurs (fst rep) s k)"
    using assms by (auto simp: sift_sorted list_all_iff set_sift split: option.splits)
qed

lemma find_substitutions_inv:
  "replace_inv reps s \<lparr>subs = find_substitutions s reps, result = out, pos = 0, substitutions = 0\<rparr>"
proof -
  have "sorted_subs (foldl (add_substitution s) [] xs)
      \<and> list_all (tracked reps s 0) (foldl (add_substitution s) [] xs)
      \<and> covers xs s 0 (foldl (add_substitution s) [] xs)" if "set xs \<subseteq> set reps" for xs
    using that
  proof (induction xs rule: rev_induct)
    case (snoc rep xs)
    then have IH: "sorted_subs (foldl (add_substitution s) [] xs)"
      "list_all (tracked reps s 0) (foldl (add_substitution s) [] xs)"
      "covers xs s 0 (foldl (add_substitution s) [] xs)" "rep \<in> set reps" by auto
    note step = add_substitution_inv [OF IH(1,2,4)]
    have "covers (xs @ [rep]) s 0 (add_substitution s (foldl (add_substitution s) [] xs) rep)"
      using IH(3) step(3,4) by (auto simp: covers_def)
    with step(1,2) show ?case by simp
  qed (simp add: covers_def)
  from this [of reps] show ?thesis
    by (simp add: replace_inv_def find_substitutions_def)
qed

section \<open>Properties\<close>

text \<open>
  C24. \<open>string_replace_all\<close> returns, for patterns that are pairwise different, the text in which, from
  left to right and without looking into what was put in, the longest pattern that stands at a place
  is replaced; the in-place version leaves that text in the target and returns the number of
  replacements, at most one for each character (the code counts in \<open>int\<close>, which texts of fewer than
  \<open>2 ^ 31\<close> characters cannot overflow). The loop over the sorted vector of candidates ends on every input.
\<close>

theorem replace_all_longest_first:
  assumes "distinct (map fst reps)"
  shows "string_replace_all s reps = Some (fst (scan reps s))
    \<and> string_replace_all_in_place reps s = Some (scan reps s) \<and> snd (scan reps s) \<le> length s"
proof -
  let ?st = "\<lambda>v. \<lparr>subs = v, result = [], pos = 0, substitutions = 0\<rparr>"
  have inv: "replace_inv reps s (?st (find_substitutions s reps))" by (rule find_substitutions_inv)
  have start: "remaining reps s (?st v) = scan reps s" for v
    by (simp add: remaining_def apfst_def apsnd_def map_prod_def split: prod.splits)
  obtain st' where st': "apply_loop s (?st (find_substitutions s reps)) = Some st'"
    "replace_inv reps s st'" "subs st' = []" "remaining reps s st' = scan reps s"
    using apply_loop_correct [OF inv assms] by (auto simp: start)
  then have "(result st' @ drop (pos st') s, substitutions st') = scan reps s"
    using remaining_done by metis
  with st'(1) have run: "apply_substitutions s (find_substitutions s reps) [] = Some (scan reps s)"
    by (simp add: apply_substitutions_def)
  have "scan reps s = (s, 0)" if "find_substitutions s reps = []"
    using remaining_done [of reps s "?st []"] inv that by (simp add: start)
  with run show ?thesis
    by (simp add: string_replace_all_def string_replace_all_in_place_def Let_def scan_count)
qed

theorem replace_all_longest_first_witness:
  "string_replace_all ''aabab'' [(''a'', ''1''), (''aba'', ''2''), (''ab'', ''3'')] = Some ''12b''"
  using replace_all_longest_first [of "[(''a'', ''1''), (''aba'', ''2''), (''ab'', ''3'')]" "''aabab''"]
  by (simp add: stands_code)

end
