(* ===== verification/Spec2Isabelle.thy ===== *)
theory Spec2Isabelle
  imports Md5 Sha1 Sha256 Sha512 Base64 Civil_Time Int128 Ring_Queue Logger Async_Pool Lock_Graph Node_Set32
    Circular_Buffer Fixed_Buffer Unix_Time Duration_Parse Uniform_Int
    Numbers Trim Str_Replace
begin

text \<open>
  A verification development for abel, a C++ library of base components (\<open>src/abel\<close>). The library
  is a collection of loosely coupled parts; this development models those that carry logic of their
  own and can be stated over values: message digests and encodings, calendar arithmetic, 128-bit
  integers, bit scans, random numbers, string functions, ring buffers, the lock graph behind the deadlock detection of
  the mutex, and the logger with its asynchronous thread pool.

  \<^bold>\<open>How the code is read.\<close> A class is a record and a member function a definition on it, with the
  source's name (a prefix marks the class where names clash). Machine integers are words of their
  width; signed arithmetic, where overflow is undefined, is \<open>int\<close> through \<open>ck\<close> (theory \<open>Prelude\<close>), which
  gives \<open>None\<close> outside the range. \<open>None\<close> always means undefined behaviour or a failed assertion: an
  index out of range, a construction over a live object, an overflow. A thrown exception is a value of
  a sum type. So a theorem that a function returns \<open>Some\<close> also says that it runs without undefined
  behaviour. Loops are structural or measured recursions; a loop that ends only on some inputs is a
  \<open>partial_function\<close>, and its theorems prove that it returns. No fuel is used, except the shift count
  that bounds the division loop of \<open>int128\<close>, which is the count of the source.

  \<^bold>\<open>Parts and theories.\<close>

  \<^item> \<open>Prelude\<close>: machine integers, checked arithmetic, truncating division, array writes, strings.

  \<^item> \<open>Bit_Math\<close> (\<open>base/math/rol.h\<close>, \<open>ror.h\<close>) and \<open>Bit_Scan\<close> (\<open>clz.h\<close>, \<open>ctz.h\<close>, \<open>ffs.h\<close>, \<open>log2.h\<close>,
  \<open>power2.h\<close>, \<open>round.h\<close>, \<open>align.h\<close>): the portable bit routines; rotations are those of the word library,
  scans name the leading and trailing bit, rounding gives the least power of two.

  \<^item> \<open>Hex_Dump\<close> (\<open>strings/hex_dump.cc\<close>) and \<open>Base64\<close> (\<open>digest/base64.cc\<close>): encoders, decoders, exactly which
  inputs are refused, and round trips.

  \<^item> \<open>Ascii\<close> (\<open>strings/ascii.h\<close>, \<open>ascii.cc\<close>): the table-driven character classes as intervals of codes.
  \<open>Numbers\<close> (\<open>strings/numbers.h\<close>, \<open>numbers.cc\<close>): printing of integers against canonical decimal digits,
  parsing against a grammar of numerals with saturation, and the round trip. \<open>String_View\<close>
  (\<open>strings/string_view.h\<close>, \<open>strip.h\<close>, \<open>internal/char_traits.cc\<close>): the searches, each with the first or
  last position it must return. \<open>Str_Replace\<close> (\<open>strings/str_replace.*\<close>): the loop over a sorted vector
  of candidates, which ends and refines a scanner that takes the longest pattern at each place.
  \<open>Trim\<close> (\<open>strings/trim.*\<close>, \<open>case_conv.cc\<close>, \<open>compare.cc\<close>): what each form of trimming returns, which for the
  in-place forms with a set of characters is not what they are for.

  \<^item> \<open>Hash_Standard\<close>, \<open>Hash_Tables\<close>, \<open>Digest_Stream\<close>, \<open>Md5\<close>, \<open>Sha1\<close>, \<open>Fips_Sha2\<close>, \<open>Sha256\<close>, \<open>Sha512\<close> (\<open>digest/*.cc\<close>): the buffering that the
  four classes share is modelled once, over the compression function, with the locale that states
  what a digest class relies on; each algorithm instantiates it. The reference digests of
  \<open>Hash_Standard\<close> are written from RFC 1321 and FIPS 180-4 and share nothing with the model of the code:
  padding, byte order, orders and shifts are spelled out there, the constants of MD5 are the integer
  parts of \<open>2 ^ 32\<close> times a sine, those of SHA-2 the first bits of the roots of the primes. The tables of
  the code are proved to hold these values (\<open>Hash_Tables\<close>), and the code to compute the reference
  digests for every way of cutting the message into calls.

  \<^item> \<open>Civil_Time\<close> (\<open>chrono/internal/chrono_time_detail.h\<close>): the normalizing constructor, steps,
  differences, alignment and comparison of civil times, against the day number of the proleptic
  Gregorian calendar. Normalization has no overflow on the way for any 64-bit month, day, hour, minute
  and second and a year at least \<open>9 * 10 ^ 17\<close> away from the limits, steps for any 64-bit count and a year
  at least \<open>10 ^ 18\<close> away; nearer to the limits both can overflow. Differences are exact for all years.

  \<^item> \<open>Int128\<close> (\<open>numeric/int128*\<close>): both types on their two halves, against 128-bit words and integers.

  \<^item> \<open>Duration\<close>, \<open>Duration_Division\<close>, \<open>Duration_Parse\<close> and \<open>Unix_Time\<close> (\<open>chrono/duration.cc\<close>, \<open>time.cc\<close>,
  \<open>time.h\<close>): saturating arithmetic on seconds and quarter nanoseconds with infinities, by unsigned detours
  and 128-bit integers, against integer tick counts extended by two infinities (\<open>span\<close>); the fast and the
  general path of division; rounding; conversions of counts, \<open>timespec\<close> and \<open>timeval\<close>; the parser against
  a grammar, with the strings on which it passes a negative \<open>char\<close> to \<open>std::isdigit\<close>; and instants as durations since an epoch.

  \<^item> \<open>Uniform_Bits\<close>, \<open>Pcg_Engine\<close> and \<open>Uniform_Int\<close> (\<open>random/internal/fast_uniform_bits.h\<close>,
  \<open>pcg_engine.h\<close>, \<open>wide_multiply.h\<close>, \<open>random/uniform_int_distribution.h\<close>): a generator is a parameter with
  the interface \<open>urbg\<close>; bits of any width from it are exactly uniform; the two PCG engines provide the
  interface with full period; and integers of an interval are drawn without bias, by a rejection loop
  that ends on those engines.

  \<^item> \<open>Cell_Window\<close>, \<open>Circular_Buffer\<close> and \<open>Fixed_Buffer\<close> (\<open>container/circular_buffer.h\<close>,
  \<open>fixed_circular_buffer.h\<close>): storage cells that are live or raw, wrapping indices, the interface
  \<open>deque_impl\<close> and its two implementations; growth, the strong exception guarantee of expansion,
  \<open>erase\<close> and \<open>clear\<close> with the condition under which they are right.

  \<^item> \<open>Node_Set\<close>, \<open>Node_Set32\<close>, \<open>Graph_Ranks\<close>, \<open>Graph_Cycles\<close>, \<open>Graph_Nodes\<close>, \<open>Lock_Graph\<close>
  (\<open>synchronization/internal/graphcycles.cc\<close>): the open-addressing hash set at its machine widths
  (\<open>Node_Set32\<close>), simulated for fewer than \<open>3 * 2 ^ 28\<close> insertions by its abstraction without widths
  (\<open>Node_Set\<close>) with the interface \<open>finite_set_impl\<close>, on which the graph rests; the order theory of rank reassignment; the graph with its node table, pointer map
  and versioned ids; and the refinement of the whole by a directed graph on pointers that refuses
  exactly the edges that would close a cycle.

  \<^item> \<open>Ring_Queue\<close>, \<open>Logger\<close>, \<open>Async_Pool\<close> (\<open>log/details/circular_q.h\<close>, \<open>mpmc_blocking_q.h\<close>,
  \<open>thread_pool.h\<close>, \<open>log/logger.h\<close>, \<open>async_logger*\<close>): the bounded ring with its interface
  \<open>bounded_fifo\<close>; delivery of a message to the sinks; and the blocking queue, its condition variables,
  workers and shutdown as a step relation whose reachable states satisfy an invariant.

  \<^item> This theory: the properties that span the digest components.

  \<^bold>\<open>How the parts interact.\<close> The digests use the rotations and the hexadecimal printer; the circular
  buffer reserves by \<open>integer_log2_ceil\<close>; durations scale and divide through \<open>uint128\<close>, and instants and the
  parser rest on durations; the distribution of integers draws bits from the engines, whose recurrence
  makes its loop end; the number parser and the trimming ask the character classes, and replacement
  rests on the search of a view; the lock graph keeps its edges in node sets; the pool keeps
  its messages in the ring queue and hands them to the logger's back end, and
  \<open>Async_Pool.async_equals_sync\<close> relates the asynchronous to the synchronous logger.

  \<^bold>\<open>Not modelled.\<close> Compiler builtins and intrinsic versions of the same functions; allocation failure
  and addresses; floating point; streams, files, system calls and time-zone files; the mutex and the
  spin lock, whose correctness rests on the memory model; hash mixing, the Randen generator and the
  real-valued distributions; the
  copies of fmt and of the file-system library; type-level code; the vendored test frameworks. The
  escaping, splitting, joining and substitution of strings, the POSIX time-zone rules and the
  remaining containers are pure and are left for an extension of this development.
\<close>

section \<open>Digests\<close>

text \<open>
  C7. The four digest classes compute the digests of RFC 1321 and FIPS 180-4, stated in
  \<open>Hash_Standard\<close> without anything of the code's model: however the message is cut into
  \<open>process\<close> calls, and whatever the uninitialised buffer held, every call returns and \<open>finalize\<close>
  gives the digest of the concatenated input (each string argument cut to its size modulo
  \<open>2 ^ 32\<close>). For SHA-512 the input must be shorter than \<open>2 ^ 64\<close> bits: the class stores 64 bits of
  the length where the standard has 128.
\<close>

theorem digests_of_chunks:
  assumes "length j64 = 64" "length j128 = 128"
  shows "map_option (\<lambda>c. snd (MD5_finalize c)) (md_feed MD5_process_str (MD5 j64) xs)
        = Some (md5_ref_digest (concat (map fed xs))) \<and>
      map_option (\<lambda>c. snd (SHA1_finalize c)) (md_feed SHA1_process_str (SHA1 j64) xs)
        = Some (sha1_ref_digest (concat (map fed xs))) \<and>
      map_option (\<lambda>c. snd (SHA256_finalize c)) (md_feed SHA256_process_str (SHA256 j64) xs)
        = Some (sha256_ref_digest (concat (map fed xs))) \<and>
      (8 * length (concat (map fed xs)) < 2 ^ 64 \<longrightarrow>
       map_option (\<lambda>c. snd (SHA512_finalize c)) (md_feed SHA512_process_str (SHA512 j128) xs)
         = Some (sha512_ref_digest (concat (map fed xs))))"
  using assms by (simp add: md5_digest sha1_digest sha256_digest sha512_digest)

theorem digests_of_chunks_witness:
  "map_option (\<lambda>c. snd (MD5_finalize c))
     (md_feed MD5_process_str (MD5 (replicate 64 7)) [[0x61], [], [0x62, 0x63]])
   = Some (md5_ref_digest [0x61, 0x62, 0x63]) \<and>
   map_option (\<lambda>c. snd (SHA1_finalize c))
     (md_feed SHA1_process_str (SHA1 (replicate 64 7)) [[0x61], [], [0x62, 0x63]])
   = Some (sha1_ref_digest [0x61, 0x62, 0x63]) \<and>
   map_option (\<lambda>c. snd (SHA256_finalize c))
     (md_feed SHA256_process_str (SHA256 (replicate 64 7)) [[0x61], [], [0x62, 0x63]])
   = Some (sha256_ref_digest [0x61, 0x62, 0x63]) \<and>
   map_option (\<lambda>c. snd (SHA512_finalize c))
     (md_feed SHA512_process_str (SHA512 (replicate 128 7)) [[0x61], [], [0x62, 0x63]])
   = Some (sha512_ref_digest [0x61, 0x62, 0x63])"
  using digests_of_chunks [of "replicate 64 7" "replicate 128 7" "[[0x61], [], [0x62, 0x63]]"] by simp

text \<open>
  The hash functions on a data range give the lower- and upper-case hexadecimal form of the
  reference digest of exactly the first \<open>size\<close> bytes.
\<close>

theorem hash_functions:
  assumes "length j64 = 64" "length j128 = 128" "unat sz \<le> length data"
  shows "md5_hex_data j64 data sz = Some (hex_dump_lc (md5_ref_digest (take (unat sz) data))) \<and>
      md5_hex_uc_data j64 data sz = Some (hex_dump (md5_ref_digest (take (unat sz) data))) \<and>
      sha1_hex_data j64 data sz = Some (hex_dump_lc (sha1_ref_digest (take (unat sz) data))) \<and>
      sha1_hex_uc_data j64 data sz = Some (hex_dump (sha1_ref_digest (take (unat sz) data))) \<and>
      sha256_hex_data j64 data sz = Some (hex_dump_lc (sha256_ref_digest (take (unat sz) data))) \<and>
      sha256_hex_uc_data j64 data sz = Some (hex_dump (sha256_ref_digest (take (unat sz) data))) \<and>
      sha512_hex_data j128 data sz = Some (hex_dump_lc (sha512_ref_digest (take (unat sz) data))) \<and>
      sha512_hex_uc_data j128 data sz = Some (hex_dump (sha512_ref_digest (take (unat sz) data)))"
  using assms by (simp add: md5_hex_data_eq sha1_hex_data_eq sha256_hex_data_eq sha512_hex_data_eq)

theorem hash_functions_witness:
  "sha256_hex_data (replicate 64 0) [0x61, 0x62, 0x63] 2 = Some (hex_dump_lc (sha256_ref_digest [0x61, 0x62]))"
  using hash_functions [of "replicate 64 0" "replicate 128 0" 2 "[0x61, 0x62, 0x63]"] by simp

end
